(* ===== verification/Prelude.thy ===== *)
theory Prelude
  imports Complex_Main "HOL-Library.Multiset" "HOL-Library.Monad_Syntax"
begin

text \<open>
  The vocabulary every component of the development shares: DIMACS literals and clauses and
  their truth under an assignment, the unsigned 64-bit reading of an integer, counting of true
  literals, and generic lemmas on lists, options and folds.

  A failed assertion, a read out of range and a loop that runs out of its bound are the value
  \<^term>\<open>None\<close> of an option; every component proves when its operations return
  \<^term>\<open>Some\<close>.
\<close>

section \<open>Collections of simplification rules\<close>

named_theorems sat_simps \<open>evaluation of literals, clauses and formulas\<close>
named_theorems u64_simps \<open>unsigned 64-bit arithmetic that does not wrap\<close>
named_theorems frame_simps \<open>what an operation leaves unchanged\<close>

section \<open>Literals, clauses, assignments\<close>

type_synonym lit = int
type_synonym clause = "int list"
type_synonym asg = "int \<Rightarrow> bool"

text \<open>A literal is a non-zero integer, as in DIMACS: \<open>-v\<close> is the negation of variable \<open>v\<close>.\<close>

definition lit_true :: "asg \<Rightarrow> lit \<Rightarrow> bool" where
  "lit_true \<sigma> l = (if l < 0 then \<not> \<sigma> (- l) else \<sigma> l)"

definition sat_clause :: "asg \<Rightarrow> clause \<Rightarrow> bool" where
  "sat_clause \<sigma> c = (\<exists>l \<in> set c. lit_true \<sigma> l)"

definition sat_all :: "asg \<Rightarrow> clause set \<Rightarrow> bool" where
  "sat_all \<sigma> F = (\<forall>c \<in> F. sat_clause \<sigma> c)"

definition count_true :: "asg \<Rightarrow> lit list \<Rightarrow> nat" where
  "count_true \<sigma> ls = length (filter (lit_true \<sigma>) ls)"

text \<open>A literal over the variables \<open>1..n\<close>.\<close>

definition lit_upto :: "nat \<Rightarrow> lit \<Rightarrow> bool" where
  "lit_upto n l = (l \<noteq> 0 \<and> nat \<bar>l\<bar> \<le> n)"

text \<open>Two assignments that agree on the variables \<open>1..n\<close>.\<close>

definition agree_upto :: "nat \<Rightarrow> asg \<Rightarrow> asg \<Rightarrow> bool" where
  "agree_upto n \<sigma> \<tau> = (\<forall>x. 0 < x \<and> nat x \<le> n \<longrightarrow> \<sigma> x = \<tau> x)"

lemma lit_true_neg [simp, sat_simps]: "l \<noteq> 0 \<Longrightarrow> lit_true \<sigma> (- l) = (\<not> lit_true \<sigma> l)"
  by (auto simp: lit_true_def)

lemma lit_true_pos [sat_simps]: "0 < l \<Longrightarrow> lit_true \<sigma> l = \<sigma> l"
  by (auto simp: lit_true_def)

lemma sat_clause_Nil [simp, sat_simps]: "\<not> sat_clause \<sigma> []"
  by (simp add: sat_clause_def)

lemma sat_clause_Cons [simp, sat_simps]: "sat_clause \<sigma> (l # c) = (lit_true \<sigma> l \<or> sat_clause \<sigma> c)"
  by (auto simp: sat_clause_def)

lemma sat_clause_append [simp, sat_simps]:
  "sat_clause \<sigma> (c @ d) = (sat_clause \<sigma> c \<or> sat_clause \<sigma> d)"
  by (auto simp: sat_clause_def)

lemma sat_all_empty [simp, sat_simps]: "sat_all \<sigma> {}"
  by (simp add: sat_all_def)

lemma sat_all_insert [simp, sat_simps]: "sat_all \<sigma> (insert c F) = (sat_clause \<sigma> c \<and> sat_all \<sigma> F)"
  by (auto simp: sat_all_def)

lemma sat_all_Un [simp, sat_simps]: "sat_all \<sigma> (F \<union> G) = (sat_all \<sigma> F \<and> sat_all \<sigma> G)"
  by (auto simp: sat_all_def)

lemma sat_all_mono: "sat_all \<sigma> G \<Longrightarrow> F \<subseteq> G \<Longrightarrow> sat_all \<sigma> F"
  by (auto simp: sat_all_def)

lemma sat_allD: "sat_all \<sigma> F \<Longrightarrow> c \<in> F \<Longrightarrow> sat_clause \<sigma> c"
  by (auto simp: sat_all_def)

lemma count_true_simps [simp, sat_simps]:
  "count_true \<sigma> [] = 0"
  "count_true \<sigma> (l # ls) = (if lit_true \<sigma> l then Suc (count_true \<sigma> ls) else count_true \<sigma> ls)"
  "count_true \<sigma> (ls @ ms) = count_true \<sigma> ls + count_true \<sigma> ms"
  by (simp_all add: count_true_def)

lemma count_true_le: "count_true \<sigma> ls \<le> length ls"
  by (simp add: count_true_def)

lemma count_true_mset: "mset ls = mset ms \<Longrightarrow> count_true \<sigma> ls = count_true \<sigma> ms"
proof -
  assume "mset ls = mset ms"
  then have "mset (filter (lit_true \<sigma>) ls) = mset (filter (lit_true \<sigma>) ms)" by simp
  then show ?thesis unfolding count_true_def by (metis size_mset)
qed

lemma lit_uptoD [dest]: "lit_upto n l \<Longrightarrow> l \<noteq> 0"
  by (simp add: lit_upto_def)

lemma lit_upto_0 [simp]: "\<not> lit_upto n 0"
  by (simp add: lit_upto_def)

lemma lit_upto_mono: "lit_upto n l \<Longrightarrow> n \<le> m \<Longrightarrow> lit_upto m l"
  by (simp add: lit_upto_def)

lemma lit_upto_Suc: "lit_upto n l \<Longrightarrow> lit_upto (Suc n) l"
  by (simp add: lit_upto_def)

lemma lit_upto_neg [simp]: "lit_upto n (- l) = lit_upto n l"
  by (simp add: lit_upto_def)

lemma agree_refl [simp]: "agree_upto n \<sigma> \<sigma>"
  by (simp add: agree_upto_def)

lemma agree_trans: "agree_upto n \<sigma> \<tau> \<Longrightarrow> agree_upto m \<tau> \<rho> \<Longrightarrow> n \<le> m \<Longrightarrow> agree_upto n \<sigma> \<rho>"
  by (simp add: agree_upto_def)

lemma agree_mono: "agree_upto m \<sigma> \<tau> \<Longrightarrow> n \<le> m \<Longrightarrow> agree_upto n \<sigma> \<tau>"
  by (auto simp: agree_upto_def)

lemma agree_upd_fresh: "int n < v \<Longrightarrow> agree_upto n \<sigma> (\<sigma>(v := b))"
  by (auto simp: agree_upto_def)

lemma agree_lit: "agree_upto n \<sigma> \<tau> \<Longrightarrow> lit_upto n l \<Longrightarrow> lit_true \<sigma> l = lit_true \<tau> l"
  by (auto simp: agree_upto_def lit_upto_def lit_true_def)

lemma agree_clause:
  "agree_upto n \<sigma> \<tau> \<Longrightarrow> \<forall>l \<in> set c. lit_upto n l \<Longrightarrow> sat_clause \<sigma> c = sat_clause \<tau> c"
  by (auto simp: sat_clause_def agree_lit)

lemma agree_sat_all:
  "agree_upto n \<sigma> \<tau> \<Longrightarrow> \<forall>c \<in> F. \<forall>l \<in> set c. lit_upto n l \<Longrightarrow> sat_all \<sigma> F = sat_all \<tau> F"
  by (auto simp: sat_all_def agree_clause)

lemma agree_count:
  "agree_upto n \<sigma> \<tau> \<Longrightarrow> \<forall>l \<in> set ls. lit_upto n l \<Longrightarrow> count_true \<sigma> ls = count_true \<tau> ls"
  by (induction ls) (auto simp: agree_lit)

section \<open>Unsigned 64-bit integers\<close>

text \<open>
  \<open>t_weight\<close> is \<open>unsigned long long int\<close>. A value of it is an \<^typ>\<open>int\<close> in
  \<open>0 ..< 2^64\<close>; every addition, subtraction and conversion to it goes through \<open>u64\<close>.
  \<open>long long\<close> values are plain integers: their overflow is undefined in the source.
\<close>

definition u64 :: "int \<Rightarrow> int" where
  "u64 x = x mod 18446744073709551616"

definition t_weight_max :: int where
  "t_weight_max = 18446744073709551615"

lemma u64_id [u64_simps]: "0 \<le> x \<Longrightarrow> x \<le> t_weight_max \<Longrightarrow> u64 x = x"
  by (simp add: u64_def t_weight_max_def)

lemma u64_range: "0 \<le> u64 x" "u64 x \<le> t_weight_max"
  by (simp_all add: u64_def t_weight_max_def)

section \<open>Lists and options\<close>

lemma bind_Some_iff [simp]:
  "(m \<bind> f = Some y) = (\<exists>x. m = Some x \<and> f x = Some y)"
  by (cases m) auto

lemma nth_list_update_if:
  "i < length xs \<Longrightarrow> xs[i := x] ! j = (if i = j then x else xs ! j)"
  by simp

lemma sum_list_update_int:
  "i < length (xs :: int list) \<Longrightarrow> sum_list (xs[i := x]) = sum_list xs + x - xs ! i"
  by (induction xs arbitrary: i) (auto split: nat.split)

end
