(* ===== verification/Stream_Buffer.thy ===== *)
theory Stream_Buffer
  imports Prelude
begin

text \<open>
  \<open>lib/EvalMaxSAT/src/ParseUtils.h\<close>, the class \<open>StreamBuffer\<close>: a file read through a buffer of
  \<open>buffer_size\<close> bytes. The function \<open>gzread\<close> of zlib is a parameter: from a file and a number of
  bytes it gives the number of bytes read (\<open>0\<close> at the end of the file, \<open>-1\<close> on an error), the bytes, and the
  file after the call. \<open>gz_reads\<close> is what the class relies on.

  The class is shown to deliver the bytes of the file one after the other, and the end of the file forever
  after. The functions of the parser are therefore stated over the list of the bytes that are left.
\<close>

section \<open>The class\<close>

record 'f stream_buffer =
  sb_in :: 'f
  sb_buf :: string
  sb_pos :: int
  sb_size :: int

definition buffer_size :: nat where
  "buffer_size = 1048576"

definition assureLookahead :: "('f \<Rightarrow> nat \<Rightarrow> int \<times> string \<times> 'f) \<Rightarrow> 'f stream_buffer \<Rightarrow> 'f stream_buffer" where
  "assureLookahead gzread s =
     (if sb_pos s \<ge> sb_size s then
        let (n, bytes, f) = gzread (sb_in s) buffer_size
        in s\<lparr>sb_in := f, sb_buf := bytes @ drop (length bytes) (sb_buf s), sb_pos := 0, sb_size := n\<rparr>
      else s)"

definition sb_new :: "('f \<Rightarrow> nat \<Rightarrow> int \<times> string \<times> 'f) \<Rightarrow> 'f \<Rightarrow> 'f stream_buffer" where
  "sb_new gzread f = assureLookahead gzread \<lparr>sb_in = f, sb_buf = [], sb_pos = 0, sb_size = 0\<rparr>"

definition sb_star :: "'f stream_buffer \<Rightarrow> int" where
  "sb_star s = (if sb_pos s \<ge> sb_size s then - 1 else of_char (sb_buf s ! nat (sb_pos s)))"

definition sb_next :: "('f \<Rightarrow> nat \<Rightarrow> int \<times> string \<times> 'f) \<Rightarrow> 'f stream_buffer \<Rightarrow> 'f stream_buffer" where
  "sb_next gzread s = assureLookahead gzread (s\<lparr>sb_pos := sb_pos s + 1\<rparr>)"

definition sb_position :: "'f stream_buffer \<Rightarrow> int" where
  "sb_position s = sb_pos s"

definition sb_isEof :: "'f stream_buffer \<Rightarrow> bool" where
  "sb_isEof s = (sb_star s = - 1)"

section \<open>The bytes that are left\<close>

text \<open>The current character of a list of bytes; \<open>EOF\<close> is \<open>-1\<close>.\<close>

definition star :: "string \<Rightarrow> int" where
  "star s = (case s of [] \<Rightarrow> - 1 | c # cs \<Rightarrow> of_char c)"

lemma star_simps [simp]: "star [] = - 1" "star (c # cs) = of_char c"
  by (simp_all add: star_def)

lemma of_char_bounds: "0 \<le> (of_char c :: int)" "(of_char c :: int) < 256"
  by (auto simp: of_char_def horner_sum_simps split: char.splits intro: less_le_trans)

text \<open>A call of \<open>gzread\<close> either finds the end of the file or takes a non-empty prefix of it.\<close>

definition gz_reads :: "('f \<Rightarrow> nat \<Rightarrow> int \<times> string \<times> 'f) \<Rightarrow> ('f \<Rightarrow> string) \<Rightarrow> bool" where
  "gz_reads gzread contents = (\<forall>f n. 0 < n \<longrightarrow>
     (case gzread f n of (k, bytes, f') \<Rightarrow>
        (contents f = [] \<and> k \<le> 0 \<and> contents f' = []) \<or>
        (0 < k \<and> k = int (length bytes) \<and> length bytes \<le> n \<and> contents f = bytes @ contents f')))"

definition sb_left :: "('f \<Rightarrow> string) \<Rightarrow> 'f stream_buffer \<Rightarrow> string" where
  "sb_left contents s = drop (nat (sb_pos s)) (take (nat (sb_size s)) (sb_buf s)) @ contents (sb_in s)"

definition sb_ok :: "('f \<Rightarrow> string) \<Rightarrow> 'f stream_buffer \<Rightarrow> bool" where
  "sb_ok contents s = (0 \<le> sb_pos s \<and> nat (sb_size s) \<le> length (sb_buf s) \<and>
     (sb_pos s \<ge> sb_size s \<longrightarrow> contents (sb_in s) = []))"

lemma assureLookahead_ok:
  assumes g: "gz_reads gzread contents" and s: "0 \<le> sb_pos s" "nat (sb_size s) \<le> length (sb_buf s)"
  shows "sb_ok contents (assureLookahead gzread s)" "sb_left contents (assureLookahead gzread s) = sb_left contents s"
proof -
  obtain k bytes f where r: "gzread (sb_in s) buffer_size = (k, bytes, f)" by (metis surj_pair)
  have "0 < buffer_size" by (simp add: buffer_size_def)
  then have c: "(contents (sb_in s) = [] \<and> k \<le> 0 \<and> contents f = []) \<or>
      (0 < k \<and> k = int (length bytes) \<and> length bytes \<le> buffer_size \<and> contents (sb_in s) = bytes @ contents f)"
    using g [unfolded gz_reads_def, rule_format, of buffer_size "sb_in s"] r by simp
  show "sb_ok contents (assureLookahead gzread s)"
    using s c r by (auto simp: assureLookahead_def sb_ok_def)
  show "sb_left contents (assureLookahead gzread s) = sb_left contents s"
    using s c r by (auto simp: assureLookahead_def sb_left_def)
qed

lemma sb_new_ok:
  assumes "gz_reads gzread contents"
  shows "sb_ok contents (sb_new gzread f)" "sb_left contents (sb_new gzread f) = contents f"
  using assureLookahead_ok [OF assms, of "\<lparr>sb_in = f, sb_buf = [], sb_pos = 0, sb_size = 0\<rparr>"]
  by (simp_all add: sb_new_def sb_left_def)

lemma sb_star_left: "sb_ok contents s \<Longrightarrow> sb_star s = star (sb_left contents s)"
  by (cases "sb_pos s \<ge> sb_size s")
    (auto simp: sb_ok_def sb_star_def sb_left_def star_def Cons_nth_drop_Suc [symmetric] split: list.split)

lemma sb_next_ok:
  assumes g: "gz_reads gzread contents" and s: "sb_ok contents s"
  shows "sb_ok contents (sb_next gzread s)" "sb_left contents (sb_next gzread s) = tl (sb_left contents s)"
proof -
  let ?t = "s\<lparr>sb_pos := sb_pos s + 1\<rparr>"
  note A = assureLookahead_ok [OF g, of ?t]
  show "sb_ok contents (sb_next gzread s)"
    using A s by (simp add: sb_next_def sb_ok_def)
  have "sb_left contents ?t = tl (sb_left contents s)"
    using s by (cases "sb_pos s \<ge> sb_size s") (auto simp: sb_ok_def sb_left_def nat_add_distrib drop_Suc tl_drop)
  then show "sb_left contents (sb_next gzread s) = tl (sb_left contents s)"
    using A s by (simp add: sb_next_def sb_ok_def)
qed

text \<open>After \<open>k\<close> steps the current character is the \<open>k\<close>-th byte of the file.\<close>

lemma sb_steps:
  assumes g: "gz_reads gzread contents"
  shows "sb_ok contents ((sb_next gzread ^^ k) (sb_new gzread f)) \<and>
    sb_left contents ((sb_next gzread ^^ k) (sb_new gzread f)) = drop k (contents f)"
proof (induction k)
  case 0
  then show ?case using sb_new_ok [OF g] by simp
next
  case (Suc k)
  then show ?case using sb_next_ok [OF g] by (simp add: drop_Suc tl_drop)
qed

lemma sb_reads_file:
  assumes "gz_reads gzread contents"
  shows "sb_star ((sb_next gzread ^^ k) (sb_new gzread f)) = star (drop k (contents f))"
  using sb_steps [OF assms] sb_star_left by metis

text \<open>Files held in memory satisfy the contract.\<close>

definition mem_read :: "string \<Rightarrow> nat \<Rightarrow> int \<times> string \<times> string" where
  "mem_read f n = (int (length (take n f)), take n f, drop n f)"

lemma mem_reads: "gz_reads mem_read id"
  by (auto simp: gz_reads_def mem_read_def)

end
