(* ===== verification/Lazy_Variable.thy ===== *)
theory Lazy_Variable
  imports Prelude
begin

text \<open>
  \<open>lib/EvalMaxSAT/src/lazyvariable.h\<close>: a variable that is created, with the clauses that
  define it, at the first call of \<open>get()\<close>. Lazy variables are shared through
  \<open>shared_ptr\<close>, so they live in a store: a list of records, an address being an index.

  The template parameter \<open>T\<close> (the solver a lazy variable writes to) appears as the two
  operations the code calls, \<open>newVar\<close> and \<open>addClause\<close>. The locale
  \<open>clause_sink\<close> is the contract of those two operations; the facts about
  \<open>get()\<close> are proved once inside it:
  \<^item> \<open>get()\<close> returns (no assertion fails) with fuel larger than the address,
  \<^item> it keeps the structure of the store and only materialises variables,
  \<^item> the clauses it emits make every materialised variable an upper bound of its meaning
    (\<open>lv_emitted\<close>), and
  \<^item> they are conservative: every assignment of the old variables extends to the new ones so
    that each materialised variable has exactly its meaning (\<open>lv_exact\<close>).
\<close>

section \<open>The store of lazy variables\<close>

record lazyvar =
  lv_var :: "int option"
  lv_impl :: "nat list list"

text \<open>\<open>LazyVariable(T *solver)\<close> and \<open>LazyVariable(int variable)\<close>, as allocations in the store.\<close>

definition lv_new :: "lazyvar list \<Rightarrow> nat \<times> lazyvar list" where
  "lv_new h = (length h, h @ [\<lparr>lv_var = None, lv_impl = []\<rparr>])"

definition lv_new_lit :: "int \<Rightarrow> lazyvar list \<Rightarrow> (nat \<times> lazyvar list) option" where
  "lv_new_lit variable h =
     (if variable = 0 then None
      else Some (length h, h @ [\<lparr>lv_var = Some variable, lv_impl = []\<rparr>]))"

definition addImpliquant :: "nat \<Rightarrow> nat list \<Rightarrow> lazyvar list \<Rightarrow> lazyvar list" where
  "addImpliquant a lazyVars h =
     h[a := (h ! a)\<lparr>lv_impl := lv_impl (h ! a) @ [lazyVars]\<rparr>]"

text \<open>\<open>var = ...\<close> in the body of \<open>get()\<close>.\<close>

definition lv_set :: "nat \<Rightarrow> int \<Rightarrow> lazyvar list \<Rightarrow> lazyvar list" where
  "lv_set a v h = h[a := (h ! a)\<lparr>lv_var := Some v\<rparr>]"

text \<open>The inner loop of \<open>get()\<close>: the negated literals of one implicant.\<close>

fun lv_clause :: "(nat \<Rightarrow> 'x \<Rightarrow> (int \<times> 'x) option) \<Rightarrow> nat list \<Rightarrow> 'x \<Rightarrow> (int list \<times> 'x) option" where
  "lv_clause get [] st = Some ([], st)"
| "lv_clause get (b # bs) st =
     do { (newVar, st) \<leftarrow> get b st;
          if newVar = 0 then None
          else do { (clause, st) \<leftarrow> lv_clause get bs st;
                    Some (- newVar # clause, st) } }"

text \<open>The outer loop: one clause for every implicant.\<close>

fun lv_clauses :: "(int list \<Rightarrow> 's \<Rightarrow> 's) \<Rightarrow>
    (nat \<Rightarrow> lazyvar list \<times> 's \<Rightarrow> (int \<times> lazyvar list \<times> 's) option) \<Rightarrow>
    int \<Rightarrow> nat list list \<Rightarrow> lazyvar list \<times> 's \<Rightarrow> (lazyvar list \<times> 's) option" where
  "lv_clauses addClause get v [] st = Some st"
| "lv_clauses addClause get v (implique # is) st =
     do { (clause, h, s) \<leftarrow> lv_clause get implique st;
          if clause = [] then None
          else lv_clauses addClause get v is (h, addClause (clause @ [v]) s) }"

text \<open>
  \<open>get()\<close>. The recursion follows the implicants, which always have smaller addresses; the first
  argument bounds its depth.
\<close>

primrec lv_get :: "('s \<Rightarrow> int \<times> 's) \<Rightarrow> (int list \<Rightarrow> 's \<Rightarrow> 's) \<Rightarrow> nat \<Rightarrow> nat \<Rightarrow>
    lazyvar list \<times> 's \<Rightarrow> (int \<times> lazyvar list \<times> 's) option" where
  "lv_get newVar addClause 0 = (\<lambda>a st. None)"
| "lv_get newVar addClause (Suc n) = (\<lambda>a (h, s).
     if length h \<le> a then None
     else case lv_var (h ! a) of
       Some v \<Rightarrow> Some (v, h, s)
     | None \<Rightarrow>
         (case lv_impl (h ! a) of
            [] \<Rightarrow> None
          | [[b]] \<Rightarrow> do { (v, h, s) \<leftarrow> lv_get newVar addClause n b (h, s);
                          Some (v, lv_set a v h, s) }
          | impliquants \<Rightarrow>
              (let (v, s) = newVar s
               in do { (h, s) \<leftarrow> lv_clauses addClause (lv_get newVar addClause n) v impliquants
                                    (lv_set a v h, s);
                       Some (v, h, s) })))"

lemma lv_get_general:
  assumes "a < length h" "lv_var (h ! a) = None" "lv_impl (h ! a) \<noteq> []" "\<nexists>b. lv_impl (h ! a) = [[b]]"
  shows "lv_get newVar addClause (Suc n) a (h, s) =
    (let (v, s) = newVar s
     in do { (h, s) \<leftarrow> lv_clauses addClause (lv_get newVar addClause n) v (lv_impl (h ! a)) (lv_set a v h, s);
             Some (v, h, s) })"
  using assms by (simp del: lv_clauses.simps split: list.split)

section \<open>The meaning of a lazy variable\<close>

text \<open>
  A linked variable means its literal; a variable with implicants means that all members of one
  of its implicants hold.
\<close>

inductive lv_on :: "lazyvar list \<Rightarrow> asg \<Rightarrow> nat \<Rightarrow> bool" for h \<sigma> where
  lv_on_lit: "a < length h \<Longrightarrow> lv_impl (h ! a) = [] \<Longrightarrow> lv_var (h ! a) = Some v \<Longrightarrow>
     lit_true \<sigma> v \<Longrightarrow> lv_on h \<sigma> a"
| lv_on_impl: "a < length h \<Longrightarrow> imp \<in> set (lv_impl (h ! a)) \<Longrightarrow>
     (\<And>b. b \<in> set imp \<Longrightarrow> lv_on h \<sigma> b) \<Longrightarrow> lv_on h \<sigma> a"

inductive_cases lv_onE: "lv_on h \<sigma> a"

text \<open>Implicants point downwards and are not empty; a variable without implicants is linked.\<close>

definition lv_wf :: "lazyvar list \<Rightarrow> bool" where
  "lv_wf h = (\<forall>a < length h.
     (\<forall>imp \<in> set (lv_impl (h ! a)). imp \<noteq> [] \<and> (\<forall>b \<in> set imp. b < a)) \<and>
     (lv_impl (h ! a) = [] \<longrightarrow> lv_var (h ! a) \<noteq> None))"

text \<open>Every materialised variable is a literal over the solver's variables.\<close>

definition lv_vars_upto :: "nat \<Rightarrow> lazyvar list \<Rightarrow> bool" where
  "lv_vars_upto n h = (\<forall>a < length h. \<forall>v. lv_var (h ! a) = Some v \<longrightarrow> lit_upto n v)"

definition lv_lit :: "lazyvar list \<Rightarrow> nat \<Rightarrow> int" where
  "lv_lit h a = the (lv_var (h ! a))"

text \<open>The clauses of a materialised variable are in the solver, or it is linked to its child.\<close>

definition lv_emitted_at :: "lazyvar list \<Rightarrow> clause set \<Rightarrow> nat \<Rightarrow> bool" where
  "lv_emitted_at h F a = (\<forall>imp \<in> set (lv_impl (h ! a)).
     (\<forall>b \<in> set imp. lv_var (h ! b) \<noteq> None) \<and>
     (map (\<lambda>b. - lv_lit h b) imp @ [lv_lit h a] \<in> F \<or>
      (\<exists>b. imp = [b] \<and> lv_lit h b = lv_lit h a)))"

definition lv_emitted :: "lazyvar list \<Rightarrow> clause set \<Rightarrow> bool" where
  "lv_emitted h F = (\<forall>a < length h. lv_var (h ! a) \<noteq> None \<longrightarrow> lv_emitted_at h F a)"

definition lv_exact :: "lazyvar list \<Rightarrow> asg \<Rightarrow> bool" where
  "lv_exact h \<sigma> = (\<forall>a < length h. \<forall>v. lv_var (h ! a) = Some v \<longrightarrow> lit_true \<sigma> v = lv_on h \<sigma> a)"

text \<open>A cell that is in no implicant.\<close>

definition lv_unref :: "lazyvar list \<Rightarrow> nat \<Rightarrow> bool" where
  "lv_unref h x = (\<forall>a < length h. \<forall>imp \<in> set (lv_impl (h ! a)). x \<notin> set imp)"

text \<open>A later store: the same structure, more variables materialised.\<close>

definition lv_le :: "lazyvar list \<Rightarrow> lazyvar list \<Rightarrow> bool" where
  "lv_le h h' = (length h' = length h \<and>
     (\<forall>a < length h. lv_impl (h' ! a) = lv_impl (h ! a) \<and>
        (\<forall>v. lv_var (h ! a) = Some v \<longrightarrow> lv_var (h' ! a) = Some v)))"


section \<open>Facts about stores\<close>

lemma lv_le_refl [simp]: "lv_le h h"
  by (simp add: lv_le_def)

lemma lv_le_trans: "lv_le h h' \<Longrightarrow> lv_le h' h'' \<Longrightarrow> lv_le h h''"
  by (auto simp: lv_le_def)

lemma lv_le_length: "lv_le h h' \<Longrightarrow> length h' = length h"
  by (simp add: lv_le_def)

lemma lv_le_impl: "lv_le h h' \<Longrightarrow> a < length h \<Longrightarrow> lv_impl (h' ! a) = lv_impl (h ! a)"
  by (simp add: lv_le_def)

lemma lv_le_var: "lv_le h h' \<Longrightarrow> a < length h \<Longrightarrow> lv_var (h ! a) = Some v \<Longrightarrow> lv_var (h' ! a) = Some v"
  by (simp add: lv_le_def)

lemma lv_le_var_None:
  "lv_le h h' \<Longrightarrow> a < length h \<Longrightarrow> lv_var (h ! a) \<noteq> None \<Longrightarrow> lv_var (h' ! a) \<noteq> None"
  using lv_le_var by fastforce

lemma lv_le_lit:
  "lv_le h h' \<Longrightarrow> a < length h \<Longrightarrow> lv_var (h ! a) \<noteq> None \<Longrightarrow> lv_lit h' a = lv_lit h a"
  unfolding lv_lit_def using lv_le_var by fastforce

lemma lv_le_wf: "lv_le h h' \<Longrightarrow> lv_wf h \<Longrightarrow> lv_wf h'"
  by (auto simp: lv_wf_def lv_le_length lv_le_impl lv_le_var_None)

lemma lv_le_unref: "lv_le h h' \<Longrightarrow> lv_unref h' x = lv_unref h x"
  by (simp add: lv_unref_def lv_le_length lv_le_impl)

lemma lv_le_set: "a < length h \<Longrightarrow> lv_var (h ! a) = None \<Longrightarrow> lv_le h (lv_set a v h)"
  by (auto simp: lv_le_def lv_set_def nth_list_update)

lemma lv_set_var [simp]:
  "a < length h \<Longrightarrow> lv_var (lv_set a v h ! b) = (if b = a then Some v else lv_var (h ! b))"
  by (auto simp: lv_set_def nth_list_update)

lemma lv_set_impl [simp]: "a < length h \<Longrightarrow> lv_impl (lv_set a v h ! b) = lv_impl (h ! b)"
  by (auto simp: lv_set_def nth_list_update)

lemma lv_set_length [simp]: "length (lv_set a v h) = length h"
  by (simp add: lv_set_def)

lemma lv_wf_child: "lv_wf h \<Longrightarrow> a < length h \<Longrightarrow> imp \<in> set (lv_impl (h ! a)) \<Longrightarrow> b \<in> set imp \<Longrightarrow> b < a"
  by (auto simp: lv_wf_def)

lemma lv_on_length: "lv_on h \<sigma> a \<Longrightarrow> a < length h"
  by (auto elim: lv_onE)

text \<open>Materialising variables does not change a meaning, nor does changing fresh variables.\<close>

lemma lv_on_le1:
  assumes "lv_on h \<sigma> a" "lv_le h h'"
  shows "lv_on h' \<sigma> a"
  using assms(1)
proof (induction rule: lv_on.induct)
  case (lv_on_lit a v)
  with assms(2) show ?case
    by (intro lv_on.lv_on_lit) (auto simp: lv_le_length lv_le_impl lv_le_var)
next
  case (lv_on_impl a imp)
  show ?case
  proof (rule lv_on.lv_on_impl [of a _ imp])
    show "a < length h'" "imp \<in> set (lv_impl (h' ! a))"
      using lv_on_impl.hyps assms(2) by (auto simp: lv_le_length lv_le_impl)
  qed (rule lv_on_impl.IH)
qed

lemma lv_on_le2:
  assumes "lv_on h' \<sigma> a" "lv_le h h'" "lv_wf h"
  shows "lv_on h \<sigma> a"
  using assms(1)
proof (induction rule: lv_on.induct)
  case (lv_on_lit a v)
  then have a: "a < length h" "lv_impl (h ! a) = []"
    using assms(2) by (auto simp: lv_le_length lv_le_impl)
  with assms(3) obtain w where "lv_var (h ! a) = Some w" by (auto simp: lv_wf_def)
  with a lv_on_lit assms(2) show ?case
    by (intro lv_on.lv_on_lit) (auto dest: lv_le_var)
next
  case (lv_on_impl a imp)
  show ?case
  proof (rule lv_on.lv_on_impl [of a _ imp])
    show "a < length h" "imp \<in> set (lv_impl (h ! a))"
      using lv_on_impl.hyps assms(2) by (auto simp: lv_le_length lv_le_impl)
  qed (rule lv_on_impl.IH)
qed

lemma lv_on_le: "lv_le h h' \<Longrightarrow> lv_wf h \<Longrightarrow> lv_on h' \<sigma> a = lv_on h \<sigma> a"
  using lv_on_le1 lv_on_le2 by blast

lemma lv_on_agree1:
  assumes "lv_on h \<sigma> a" "agree_upto n \<sigma> \<tau>" "lv_vars_upto n h"
  shows "lv_on h \<tau> a"
  using assms(1)
proof (induction rule: lv_on.induct)
  case (lv_on_lit a v)
  with assms(2,3) have "lit_true \<tau> v"
    using agree_lit [of n \<sigma> \<tau> v] by (simp add: lv_vars_upto_def)
  with lv_on_lit show ?case by (blast intro: lv_on.lv_on_lit)
next
  case (lv_on_impl a imp)
  then show ?case by (blast intro: lv_on.lv_on_impl)
qed

lemma agree_sym: "agree_upto n \<sigma> \<tau> \<Longrightarrow> agree_upto n \<tau> \<sigma>"
  by (simp add: agree_upto_def)

lemma lv_on_agree: "agree_upto n \<sigma> \<tau> \<Longrightarrow> lv_vars_upto n h \<Longrightarrow> lv_on h \<sigma> a = lv_on h \<tau> a"
  using lv_on_agree1 agree_sym by blast

lemma lv_vars_upto_mono: "lv_vars_upto n h \<Longrightarrow> n \<le> m \<Longrightarrow> lv_vars_upto m h"
  by (auto simp: lv_vars_upto_def intro: lit_upto_mono)

text \<open>A variable whose clauses are in the solver is implied by its meaning.\<close>

lemma lv_emitted_sound:
  assumes "lv_on h \<sigma> a" "lv_emitted h F" "lv_vars_upto n h" "lv_wf h" "sat_all \<sigma> F"
  shows "lv_var (h ! a) = Some v \<Longrightarrow> lit_true \<sigma> v"
  using assms(1)
proof (induction arbitrary: v rule: lv_on.induct)
  case (lv_on_lit a v)
  then show ?case by simp
next
  case (lv_on_impl a imp)
  from lv_on_impl assms(2) have e: "lv_emitted_at h F a" by (auto simp: lv_emitted_def)
  have v: "lv_lit h a = v" using lv_on_impl.prems by (simp add: lv_lit_def)
  have small: "b < length h" if "b \<in> set imp" for b
    using that lv_on_impl lv_wf_child [OF assms(4)] by fastforce
  have child: "lit_true \<sigma> (lv_lit h b)" "lv_lit h b \<noteq> 0" if b: "b \<in> set imp" for b
  proof -
    from e b lv_on_impl.hyps(2) obtain w where w: "lv_var (h ! b) = Some w"
      by (auto simp: lv_emitted_at_def)
    with lv_on_impl.IH [OF b] have "lit_true \<sigma> w" by simp
    with w show "lit_true \<sigma> (lv_lit h b)" by (simp add: lv_lit_def)
    from w small [OF b] assms(3) show "lv_lit h b \<noteq> 0"
      by (auto simp: lv_lit_def lv_vars_upto_def)
  qed
  from e lv_on_impl.hyps(2) consider
      "map (\<lambda>b. - lv_lit h b) imp @ [lv_lit h a] \<in> F"
    | b where "imp = [b]" "lv_lit h b = lv_lit h a"
    by (auto simp: lv_emitted_at_def)
  then show ?case
  proof cases
    case 1
    then have "sat_clause \<sigma> (map (\<lambda>b. - lv_lit h b) imp @ [v])"
      using assms(5) v by (auto dest: sat_allD)
    moreover have "\<not> sat_clause \<sigma> (map (\<lambda>b. - lv_lit h b) imp)"
      using child by (auto simp: sat_clause_def)
    ultimately show ?thesis by simp
  next
    case 2
    then show ?thesis using child v by auto
  qed
qed

section \<open>What \<open>get()\<close> guarantees\<close>

text \<open>Emission of every materialised variable but those in a set, while \<open>get()\<close> is at work on them.\<close>

definition lv_emitted_but :: "nat set \<Rightarrow> lazyvar list \<Rightarrow> clause set \<Rightarrow> bool" where
  "lv_emitted_but X h F =
     (\<forall>a < length h. a \<notin> X \<and> lv_var (h ! a) \<noteq> None \<longrightarrow> lv_emitted_at h F a)"

lemma lv_emitted_but_empty: "lv_emitted_but {} h F = lv_emitted h F"
  by (simp add: lv_emitted_but_def lv_emitted_def)

lemma lv_emitted_at_mono:
  assumes "lv_emitted_at h F a" "lv_le h h'" "F \<subseteq> G" "lv_wf h" "a < length h" "lv_var (h ! a) \<noteq> None"
  shows "lv_emitted_at h' G a"
  unfolding lv_emitted_at_def
proof (intro ballI conjI)
  fix imp assume "imp \<in> set (lv_impl (h' ! a))"
  then have imp: "imp \<in> set (lv_impl (h ! a))"
    using assms(2,5) by (simp add: lv_le_impl)
  have e: "(\<forall>b \<in> set imp. lv_var (h ! b) \<noteq> None) \<and>
     (map (\<lambda>b. - lv_lit h b) imp @ [lv_lit h a] \<in> F \<or> (\<exists>b. imp = [b] \<and> lv_lit h b = lv_lit h a))"
    using assms(1) imp unfolding lv_emitted_at_def by blast
  have len: "b < length h" if "b \<in> set imp" for b
    using lv_wf_child [OF assms(4,5) imp that] assms(5) by simp
  show "lv_var (h' ! b) \<noteq> None" if "b \<in> set imp" for b
    using e that len lv_le_var_None [OF assms(2)] by blast
  have eq: "lv_lit h' b = lv_lit h b" if "b \<in> set imp" for b
    using e that len lv_le_lit [OF assms(2)] by blast
  have "lv_lit h' a = lv_lit h a"
    using assms(2,5,6) by (simp add: lv_le_lit)
  moreover have "map (\<lambda>b. - lv_lit h' b) imp = map (\<lambda>b. - lv_lit h b) imp"
    using eq by simp
  moreover have "lv_lit h' b = lv_lit h' a" if "imp = [b]" "lv_lit h b = lv_lit h a" for b
    using that eq [of b] \<open>lv_lit h' a = lv_lit h a\<close> by simp
  ultimately show "map (\<lambda>b. - lv_lit h' b) imp @ [lv_lit h' a] \<in> G \<or>
      (\<exists>b. imp = [b] \<and> lv_lit h' b = lv_lit h' a)"
    using e assms(3) by (metis subsetD)
qed

text \<open>Setting a variable to a value with the right truth keeps an exact assignment exact.\<close>

lemma lv_exact_set:
  assumes "lv_exact h \<sigma>" "lv_wf h" "a < length h" "lv_var (h ! a) = None"
    and "lit_true \<sigma> v = lv_on h \<sigma> a"
  shows "lv_exact (lv_set a v h) \<sigma>"
  using assms lv_on_le [OF lv_le_set [OF assms(3,4)] assms(2)]
  by (auto simp: lv_exact_def)

lemma lv_exact_agree:
  assumes "lv_exact h \<sigma>" "agree_upto n \<sigma> \<tau>" "lv_vars_upto n h"
  shows "lv_exact h \<tau>"
  using assms lv_on_agree [OF assms(2,3)] agree_lit [OF assms(2)]
  by (auto simp: lv_exact_def lv_vars_upto_def)

locale clause_sink =
  fixes newVar :: "'s \<Rightarrow> int \<times> 's"
    and addClause :: "int list \<Rightarrow> 's \<Rightarrow> 's"
    and nvars :: "'s \<Rightarrow> nat"
    and clauses :: "'s \<Rightarrow> clause set"
    and ok :: "'s \<Rightarrow> bool"
    and frame :: "'s \<Rightarrow> 's \<Rightarrow> bool"
  assumes newVar_law: "ok s \<Longrightarrow> newVar s = (v, s') \<Longrightarrow>
      v = int (nvars s) + 1 \<and> nvars s' = Suc (nvars s) \<and> clauses s' = clauses s \<and> ok s' \<and> frame s s'"
    and addClause_law: "ok s \<Longrightarrow> 2 \<le> length c \<Longrightarrow> \<forall>l \<in> set c. lit_upto (nvars s) l \<Longrightarrow>
      nvars (addClause c s) = nvars s \<and> clauses (addClause c s) = insert c (clauses s) \<and>
      ok (addClause c s) \<and> frame s (addClause c s)"
    and ok_clauses: "ok s \<Longrightarrow> c \<in> clauses s \<Longrightarrow> l \<in> set c \<Longrightarrow> lit_upto (nvars s) l"
    and frame_refl: "ok s \<Longrightarrow> frame s s"
    and frame_trans: "frame s t \<Longrightarrow> frame t u \<Longrightarrow> frame s u"
begin

abbreviation get where "get \<equiv> lv_get newVar addClause"

definition lv_inv :: "lazyvar list \<Rightarrow> 's \<Rightarrow> bool" where
  "lv_inv h s = (lv_wf h \<and> lv_vars_upto (nvars s) h \<and> ok s)"

definition lv_step :: "lazyvar list \<Rightarrow> 's \<Rightarrow> lazyvar list \<Rightarrow> 's \<Rightarrow> bool" where
  "lv_step h s h' s' = (lv_le h h' \<and> lv_inv h' s' \<and> frame s s' \<and>
     nvars s \<le> nvars s' \<and> clauses s \<subseteq> clauses s' \<and>
     (\<forall>X. lv_emitted_but X h (clauses s) \<longrightarrow> lv_emitted_but X h' (clauses s')) \<and>
     (\<forall>\<sigma>. lv_exact h \<sigma> \<and> sat_all \<sigma> (clauses s) \<longrightarrow>
        (\<exists>\<sigma>'. agree_upto (nvars s) \<sigma> \<sigma>' \<and> lv_exact h' \<sigma>' \<and> sat_all \<sigma>' (clauses s'))))"

lemma lv_step_refl: "lv_inv h s \<Longrightarrow> lv_step h s h s"
  unfolding lv_step_def lv_inv_def using agree_refl by (blast intro: frame_refl lv_le_refl)

lemma lv_step_same:
  assumes "lv_le h h'" "lv_inv h' s'" "frame s s'" "nvars s \<le> nvars s'" "clauses s \<subseteq> clauses s'"
    and "\<And>X. lv_emitted_but X h (clauses s) \<Longrightarrow> lv_emitted_but X h' (clauses s')"
    and "\<And>\<sigma>. lv_exact h \<sigma> \<Longrightarrow> sat_all \<sigma> (clauses s) \<Longrightarrow> lv_exact h' \<sigma> \<and> sat_all \<sigma> (clauses s')"
  shows "lv_step h s h' s'"
  unfolding lv_step_def using assms agree_refl by blast

lemma lv_step_trans:
  assumes "lv_step h s h' s'" "lv_step h' s' h'' s''"
  shows "lv_step h s h'' s''"
  unfolding lv_step_def
proof (intro conjI allI impI)
  fix \<sigma> assume "lv_exact h \<sigma> \<and> sat_all \<sigma> (clauses s)"
  then obtain \<sigma>' where 1: "agree_upto (nvars s) \<sigma> \<sigma>'" "lv_exact h' \<sigma>'" "sat_all \<sigma>' (clauses s')"
    using assms(1) unfolding lv_step_def by blast
  then obtain \<sigma>'' where 2: "agree_upto (nvars s') \<sigma>' \<sigma>''" "lv_exact h'' \<sigma>''" "sat_all \<sigma>'' (clauses s'')"
    using assms(2) unfolding lv_step_def by blast
  have "nvars s \<le> nvars s'" using assms(1) by (simp add: lv_step_def)
  with 1 2 show "\<exists>\<sigma>'. agree_upto (nvars s) \<sigma> \<sigma>' \<and> lv_exact h'' \<sigma>' \<and> sat_all \<sigma>' (clauses s'')"
    by (blast intro: agree_trans)
qed (use assms in \<open>auto simp: lv_step_def intro: lv_le_trans frame_trans\<close>)

lemma lv_step_inv: "lv_step h s h' s' \<Longrightarrow> lv_inv h' s'"
  by (simp add: lv_step_def)

text \<open>Materialising one variable with a fresh solver variable.\<close>

lemma lv_step_newVar:
  assumes inv: "lv_inv h s" and a: "a < length h" "lv_var (h ! a) = None" and nv: "newVar s = (v, s')"
  shows "lv_le h (lv_set a v h)" "lv_inv (lv_set a v h) s'" "frame s s'" "nvars s' = Suc (nvars s)"
    "clauses s' = clauses s" "v = int (nvars s) + 1"
    "lv_emitted_but X h (clauses s) \<Longrightarrow> lv_emitted_but (insert a X) (lv_set a v h) (clauses s')"
    "lv_exact h \<sigma> \<Longrightarrow> sat_all \<sigma> (clauses s) \<Longrightarrow>
      \<exists>\<sigma>'. agree_upto (nvars s) \<sigma> \<sigma>' \<and> lv_exact (lv_set a v h) \<sigma>' \<and> sat_all \<sigma>' (clauses s')"
proof -
  have ok: "ok s" "lv_wf h" "lv_vars_upto (nvars s) h" using inv by (auto simp: lv_inv_def)
  note law = newVar_law [OF ok(1) nv]
  show le: "lv_le h (lv_set a v h)" using a by (rule lv_le_set)
  show "lv_inv (lv_set a v h) s'"
    using law a lv_le_wf [OF le ok(2)] lv_vars_upto_mono [OF ok(3), of "Suc (nvars s)"]
    by (simp add: lv_inv_def lv_vars_upto_def lit_upto_def)
  show "frame s s'" "nvars s' = Suc (nvars s)" "clauses s' = clauses s" "v = int (nvars s) + 1"
    using law by auto
  show "lv_emitted_but (insert a X) (lv_set a v h) (clauses s')" if "lv_emitted_but X h (clauses s)"
    unfolding lv_emitted_but_def
  proof (intro allI impI)
    fix b assume b: "b < length (lv_set a v h)"
      and "b \<notin> insert a X \<and> lv_var (lv_set a v h ! b) \<noteq> None"
    then have "b \<notin> X" "lv_var (h ! b) \<noteq> None" using a(1) by auto
    with b that have "lv_emitted_at h (clauses s) b" by (simp add: lv_emitted_but_def)
    then show "lv_emitted_at (lv_set a v h) (clauses s') b"
      using law b \<open>lv_var (h ! b) \<noteq> None\<close> lv_emitted_at_mono [OF _ le subset_refl ok(2)] by simp
  qed
  show "\<exists>\<sigma>'. agree_upto (nvars s) \<sigma> \<sigma>' \<and> lv_exact (lv_set a v h) \<sigma>' \<and> sat_all \<sigma>' (clauses s')"
    if ex: "lv_exact h \<sigma>" and sat: "sat_all \<sigma> (clauses s)"
  proof -
    define \<sigma>' where "\<sigma>' = \<sigma>(v := lv_on h \<sigma> a)"
    have ag: "agree_upto (nvars s) \<sigma> \<sigma>'"
      unfolding \<sigma>'_def using law by (intro agree_upd_fresh) simp
    have "lit_true \<sigma>' v = lv_on h \<sigma>' a"
      using lv_on_agree [OF ag ok(3), of a] law by (simp add: \<sigma>'_def lit_true_def)
    then have "lv_exact (lv_set a v h) \<sigma>'"
      using lv_exact_set [OF lv_exact_agree [OF ex ag ok(3)] ok(2) a] by blast
    moreover have "\<forall>c \<in> clauses s. \<forall>l \<in> set c. lit_upto (nvars s) l"
      using ok_clauses [OF ok(1)] by blast
    then have "sat_all \<sigma>' (clauses s')"
      using sat agree_sat_all [OF ag] law by simp
    ultimately show ?thesis using ag by blast
  qed
qed

text \<open>The specification of \<open>get()\<close> at an address, and of its two loops.\<close>

definition get_spec :: "(nat \<Rightarrow> lazyvar list \<times> 's \<Rightarrow> (int \<times> lazyvar list \<times> 's) option) \<Rightarrow> nat \<Rightarrow> bool" where
  "get_spec g b = (\<forall>h s. lv_inv h s \<and> b < length h \<longrightarrow>
     (\<exists>v h' s'. g b (h, s) = Some (v, h', s') \<and> lv_step h s h' s' \<and> lv_var (h' ! b) = Some v \<and>
       (\<forall>c > b. h' ! c = h ! c) \<and> (\<forall>x. lv_unref h x \<and> x \<noteq> b \<longrightarrow> h' ! x = h ! x)))"

lemma lv_clause_ok:
  assumes "\<And>b. b \<in> set bs \<Longrightarrow> get_spec g b" "lv_inv h s" "\<forall>b \<in> set bs. b < length h"
  shows "\<exists>c h' s'. lv_clause g bs (h, s) = Some (c, h', s') \<and> lv_step h s h' s' \<and>
    c = map (\<lambda>b. - lv_lit h' b) bs \<and> (\<forall>b \<in> set bs. lv_var (h' ! b) \<noteq> None) \<and>
    (\<forall>c. (\<forall>b \<in> set bs. b < c) \<longrightarrow> h' ! c = h ! c) \<and>
    (\<forall>x. lv_unref h x \<and> x \<notin> set bs \<longrightarrow> h' ! x = h ! x)"
  using assms
proof (induction bs arbitrary: h s)
  case Nil
  then show ?case using lv_step_refl by auto
next
  case (Cons b bs)
  have "get_spec g b" "b < length h" using Cons.prems by auto
  with Cons.prems(2) obtain v h1 s1 where g: "g b (h, s) = Some (v, h1, s1)"
    and st1: "lv_step h s h1 s1" and v: "lv_var (h1 ! b) = Some v" and up: "\<forall>c > b. h1 ! c = h ! c"
    and un: "\<forall>x. lv_unref h x \<and> x \<noteq> b \<longrightarrow> h1 ! x = h ! x"
    unfolding get_spec_def by blast
  have inv1: "lv_inv h1 s1" and len1: "length h1 = length h"
    using st1 by (auto simp: lv_step_def lv_le_length)
  have "v \<noteq> 0" using inv1 v Cons.prems(3) len1 by (auto simp: lv_inv_def lv_vars_upto_def)
  have "\<forall>b \<in> set bs. b < length h1" "\<And>b. b \<in> set bs \<Longrightarrow> get_spec g b"
    using Cons.prems(1,3) len1 by auto
  then obtain c h2 s2
    where c: "lv_clause g bs (h1, s1) = Some (c, h2, s2)" "lv_step h1 s1 h2 s2"
      "c = map (\<lambda>b. - lv_lit h2 b) bs" "\<forall>b \<in> set bs. lv_var (h2 ! b) \<noteq> None"
      "\<forall>c. (\<forall>b \<in> set bs. b < c) \<longrightarrow> h2 ! c = h1 ! c"
      "\<forall>x. lv_unref h1 x \<and> x \<notin> set bs \<longrightarrow> h2 ! x = h1 ! x"
    using Cons.IH [OF _ inv1] by blast
  have "lv_var (h2 ! b) = Some v"
    using c(2) v Cons.prems(3) len1 lv_le_var by (auto simp: lv_step_def)
  moreover have "lv_unref h1 x = lv_unref h x" for x
    using st1 by (simp add: lv_step_def lv_le_unref)
  ultimately show ?case using g c up un \<open>v \<noteq> 0\<close> lv_step_trans [OF st1 c(2)] by (simp add: lv_lit_def)
qed

lemma lv_step_addClause:
  assumes "lv_inv h s" "a < length h" "imp \<in> set (lv_impl (h ! a))" "imp \<noteq> []"
    and "lv_var (h ! a) = Some v" "\<forall>b \<in> set imp. lv_var (h ! b) \<noteq> None"
  defines "c \<equiv> map (\<lambda>b. - lv_lit h b) imp @ [v]"
  shows "lv_step h s h (addClause c s)" "c \<in> clauses (addClause c s)"
proof -
  have inv: "lv_wf h" "lv_vars_upto (nvars s) h" "ok s" using assms(1) by (auto simp: lv_inv_def)
  have len: "b < length h" if "b \<in> set imp" for b
    using lv_wf_child [OF inv(1) assms(2,3) that] assms(2) by simp
  have lits: "\<forall>l \<in> set c. lit_upto (nvars s) l"
    using inv(2) assms(2,5,6) len unfolding c_def lv_vars_upto_def lv_lit_def by fastforce
  have "2 \<le> length c" using assms(4) by (cases imp) (auto simp: c_def)
  note law = addClause_law [OF inv(3) this lits]
  show "c \<in> clauses (addClause c s)" using law by simp
  have sat: "sat_clause \<sigma> c" if ex: "lv_exact h \<sigma>" for \<sigma>
  proof (cases "\<forall>b \<in> set imp. lv_on h \<sigma> b")
    case True
    then have "lv_on h \<sigma> a" using lv_on_impl assms(2,3) by blast
    then have "lit_true \<sigma> v" using ex assms(2,5) by (auto simp: lv_exact_def)
    then show ?thesis by (simp add: c_def)
  next
    case False
    then obtain b where b: "b \<in> set imp" "\<not> lv_on h \<sigma> b" by blast
    then obtain w where w: "lv_var (h ! b) = Some w" using assms(6) by blast
    then have "\<not> lit_true \<sigma> (lv_lit h b)" "lv_lit h b \<noteq> 0"
      using b ex len [OF b(1)] inv(2) by (auto simp: lv_exact_def lv_lit_def lv_vars_upto_def)
    then have "lit_true \<sigma> (- lv_lit h b)" by simp
    moreover have "- lv_lit h b \<in> set c" using b by (auto simp: c_def)
    ultimately show ?thesis by (auto simp: sat_clause_def)
  qed
  have em: "lv_emitted_but X h (clauses (addClause c s))" if "lv_emitted_but X h (clauses s)" for X
    using that law lv_emitted_at_mono [OF _ lv_le_refl _ inv(1)]
    unfolding lv_emitted_but_def by blast
  have "lv_inv h (addClause c s)" using inv law by (auto simp: lv_inv_def)
  then show "lv_step h s h (addClause c s)"
    using law em sat by (intro lv_step_same) auto
qed

lemma lv_clauses_ok:
  assumes "\<And>imp b. imp \<in> set imps \<Longrightarrow> b \<in> set imp \<Longrightarrow> get_spec g b"
    and "lv_inv h s" "a < length h" "set imps \<subseteq> set (lv_impl (h ! a))" "lv_var (h ! a) = Some v"
  shows "\<exists>h' s'. lv_clauses addClause g v imps (h, s) = Some (h', s') \<and> lv_step h s h' s' \<and>
    (\<forall>imp \<in> set imps. (\<forall>b \<in> set imp. lv_var (h' ! b) \<noteq> None) \<and>
       map (\<lambda>b. - lv_lit h' b) imp @ [v] \<in> clauses s') \<and>
    (\<forall>c. (\<forall>imp \<in> set imps. \<forall>b \<in> set imp. b < c) \<longrightarrow> h' ! c = h ! c) \<and>
    (\<forall>x. lv_unref h x \<longrightarrow> h' ! x = h ! x)"
  using assms
proof (induction imps arbitrary: h s)
  case Nil
  then show ?case using lv_step_refl by auto
next
  case (Cons imp imps)
  have wf: "lv_wf h" using Cons.prems(2) by (simp add: lv_inv_def)
  have imp: "imp \<in> set (lv_impl (h ! a))" using Cons.prems(4) by simp
  have "imp \<noteq> []" using wf Cons.prems(3) imp by (auto simp: lv_wf_def)
  have bl: "\<forall>b \<in> set imp. b < length h"
    using lv_wf_child [OF wf Cons.prems(3) imp] Cons.prems(3) by fastforce
  have spec: "get_spec g b" if "b \<in> set imp" for b
    using Cons.prems(1) [of imp b] that by simp
  obtain c h1 s1 where c: "lv_clause g imp (h, s) = Some (c, h1, s1)"
      and st: "lv_step h s h1 s1" and cc: "c = map (\<lambda>b. - lv_lit h1 b) imp"
      and vs: "\<forall>b \<in> set imp. lv_var (h1 ! b) \<noteq> None"
      and up1: "\<forall>c. (\<forall>b \<in> set imp. b < c) \<longrightarrow> h1 ! c = h ! c"
      and un1: "\<forall>x. lv_unref h x \<and> x \<notin> set imp \<longrightarrow> h1 ! x = h ! x"
    using lv_clause_ok [OF spec Cons.prems(2) bl] by blast
  have h1: "lv_inv h1 s1" "lv_le h h1" using st by (auto simp: lv_step_def)
  have a1: "a < length h1" "lv_impl (h1 ! a) = lv_impl (h ! a)" "lv_var (h1 ! a) = Some v"
    using h1 Cons.prems(3,5) by (auto simp: lv_le_length lv_le_impl lv_le_var)
  note add = lv_step_addClause [OF h1(1) a1(1) _ \<open>imp \<noteq> []\<close> a1(3) vs]
  have st2: "lv_step h1 s1 h1 (addClause (c @ [v]) s1)" and in2: "c @ [v] \<in> clauses (addClause (c @ [v]) s1)"
    using add imp a1(2) cc by auto
  have spec': "get_spec g b" if "i \<in> set imps" "b \<in> set i" for i b
    using Cons.prems(1) [of i b] that by simp
  have sub: "set imps \<subseteq> set (lv_impl (h1 ! a))" using Cons.prems(4) a1(2) by simp
  obtain h2 s2 where r: "lv_clauses addClause g v imps (h1, addClause (c @ [v]) s1) = Some (h2, s2)"
      and st3: "lv_step h1 (addClause (c @ [v]) s1) h2 s2"
      and rest: "\<forall>imp \<in> set imps. (\<forall>b \<in> set imp. lv_var (h2 ! b) \<noteq> None) \<and>
         map (\<lambda>b. - lv_lit h2 b) imp @ [v] \<in> clauses s2"
      and up2: "\<forall>c. (\<forall>imp \<in> set imps. \<forall>b \<in> set imp. b < c) \<longrightarrow> h2 ! c = h1 ! c"
      and un2: "\<forall>x. lv_unref h1 x \<longrightarrow> h2 ! x = h1 ! x"
    using Cons.IH [OF _ lv_step_inv [OF st2] a1(1) sub a1(3)] spec' by blast
  have len1: "length h1 = length h" using h1 by (simp add: lv_le_length)
  have le: "lv_le h1 h2" "clauses (addClause (c @ [v]) s1) \<subseteq> clauses s2"
    using st3 by (auto simp: lv_step_def)
  have "\<forall>b \<in> set imp. lv_var (h2 ! b) \<noteq> None \<and> lv_lit h2 b = lv_lit h1 b"
    using vs bl len1 lv_le_var_None [OF le(1)] lv_le_lit [OF le(1)] by auto
  then have "map (\<lambda>b. - lv_lit h2 b) imp @ [v] \<in> clauses s2" "\<forall>b \<in> set imp. lv_var (h2 ! b) \<noteq> None"
    using in2 le(2) cc by (auto cong: map_cong)
  moreover have "c \<noteq> []" using \<open>imp \<noteq> []\<close> cc by simp
  moreover have "\<forall>x. lv_unref h x \<longrightarrow> h2 ! x = h ! x"
    using un1 un2 imp Cons.prems(3) by (auto simp: lv_le_unref [OF h1(2)]) (auto simp: lv_unref_def)
  ultimately show ?case
    using c r rest up1 up2 lv_step_trans [OF lv_step_trans [OF st st2] st3] by auto
qed

text \<open>The general case of \<open>get()\<close>: fresh variable, then the clauses of all implicants.\<close>

lemma lv_get_fresh:
  assumes inv: "lv_inv h s" and a: "a < length h" "lv_var (h ! a) = None" and nv: "newVar s = (v, s1)"
    and spec: "\<And>b. b < a \<Longrightarrow> get_spec g b"
  shows "\<exists>h' s'. lv_clauses addClause g v (lv_impl (h ! a)) (lv_set a v h, s1) = Some (h', s') \<and>
    lv_step h s h' s' \<and> lv_var (h' ! a) = Some v \<and> (\<forall>c > a. h' ! c = h ! c) \<and>
    (\<forall>x. lv_unref h x \<and> x \<noteq> a \<longrightarrow> h' ! x = h ! x)"
proof -
  note new = lv_step_newVar [OF inv a nv]
  have wf: "lv_wf h" using inv by (simp add: lv_inv_def)
  have sp: "get_spec g b" if "imp \<in> set (lv_impl (h ! a))" "b \<in> set imp" for imp b
    using spec lv_wf_child [OF wf a(1) that] by blast
  have set: "a < length (lv_set a v h)" "set (lv_impl (h ! a)) \<subseteq> set (lv_impl (lv_set a v h ! a))"
    "lv_var (lv_set a v h ! a) = Some v"
    using a by simp_all
  obtain h' s' where r: "lv_clauses addClause g v (lv_impl (h ! a)) (lv_set a v h, s1) = Some (h', s')"
      and st: "lv_step (lv_set a v h) s1 h' s'"
      and em: "\<forall>imp \<in> set (lv_impl (h ! a)). (\<forall>b \<in> set imp. lv_var (h' ! b) \<noteq> None) \<and>
         map (\<lambda>b. - lv_lit h' b) imp @ [v] \<in> clauses s'"
      and up: "\<forall>c. (\<forall>imp \<in> set (lv_impl (h ! a)). \<forall>b \<in> set imp. b < c) \<longrightarrow> h' ! c = lv_set a v h ! c"
      and un: "\<forall>x. lv_unref (lv_set a v h) x \<longrightarrow> h' ! x = lv_set a v h ! x"
    using lv_clauses_ok [OF _ new(2) set] sp by blast
  have le: "lv_le (lv_set a v h) h'" and fr: "frame s1 s'" and cl: "clauses s1 \<subseteq> clauses s'"
    and nn: "nvars s1 \<le> nvars s'" and inv': "lv_inv h' s'"
    and emb: "\<And>X. lv_emitted_but X (lv_set a v h) (clauses s1) \<Longrightarrow> lv_emitted_but X h' (clauses s')"
    and exc: "\<And>\<sigma>. lv_exact (lv_set a v h) \<sigma> \<Longrightarrow> sat_all \<sigma> (clauses s1) \<Longrightarrow>
       \<exists>\<sigma>'. agree_upto (nvars s1) \<sigma> \<sigma>' \<and> lv_exact h' \<sigma>' \<and> sat_all \<sigma>' (clauses s')"
    using st by (auto simp: lv_step_def)
  have va: "lv_var (h' ! a) = Some v" using le a by (auto intro: lv_le_var)
  have impl: "lv_impl (h' ! a) = lv_impl (h ! a)" using le a by (simp add: lv_le_impl)
  have at: "lv_emitted_at h' (clauses s') a"
    using em va impl by (simp add: lv_emitted_at_def lv_lit_def)
  have "lv_emitted_but X h' (clauses s')" if "lv_emitted_but X h (clauses s)" for X
    using emb [OF new(7) [OF that]] at unfolding lv_emitted_but_def by auto
  moreover have "\<exists>\<sigma>'. agree_upto (nvars s) \<sigma> \<sigma>' \<and> lv_exact h' \<sigma>' \<and> sat_all \<sigma>' (clauses s')"
    if ex: "lv_exact h \<sigma>" and sat: "sat_all \<sigma> (clauses s)" for \<sigma>
  proof -
    obtain \<sigma>1 where 1: "agree_upto (nvars s) \<sigma> \<sigma>1" "lv_exact (lv_set a v h) \<sigma>1" "sat_all \<sigma>1 (clauses s1)"
      using new(8) [OF ex sat] by blast
    obtain \<sigma>2 where 2: "agree_upto (nvars s1) \<sigma>1 \<sigma>2" "lv_exact h' \<sigma>2" "sat_all \<sigma>2 (clauses s')"
      using exc 1(2,3) by blast
    have "agree_upto (nvars s) \<sigma> \<sigma>2" using agree_trans [OF 1(1) 2(1)] new(4) by simp
    with 2 show ?thesis by blast
  qed
  ultimately have "lv_step h s h' s'"
    unfolding lv_step_def
    using inv' lv_le_trans [OF new(1) le] frame_trans [OF new(3) fr] new(4,5) cl nn by simp
  moreover have "h' ! c = h ! c" if "c > a" for c
  proof -
    have "\<forall>imp \<in> set (lv_impl (h ! a)). \<forall>b \<in> set imp. b < c"
      using lv_wf_child [OF wf a(1)] that by (meson less_trans)
    then have "h' ! c = lv_set a v h ! c" using up by blast
    then show ?thesis using that by (simp add: lv_set_def)
  qed
  moreover have "h' ! x = h ! x" if "lv_unref h x" "x \<noteq> a" for x
    using un that lv_le_unref [OF new(1)] by (simp add: lv_set_def)
  ultimately show ?thesis using r va by blast
qed

lemma lv_step_link:
  assumes inv: "lv_inv h s" and a: "a < length h" "lv_var (h ! a) = None" "lv_impl (h ! a) = [[b]]"
    and st: "lv_step h s h1 s1" and v: "lv_var (h1 ! b) = Some v" and va: "lv_var (h1 ! a) = None"
  shows "lv_step h s (lv_set a v h1) s1"
proof -
  have wf: "lv_wf h" using inv by (simp add: lv_inv_def)
  have ba: "b < a" using lv_wf_child [OF wf a(1)] a(3) by simp
  have le: "lv_le h h1" and inv1: "lv_inv h1 s1" using st by (auto simp: lv_step_def)
  then have wf1: "lv_wf h1" and up1: "lv_vars_upto (nvars s1) h1" by (auto simp: lv_inv_def)
  have a1: "a < length h1" "lv_impl (h1 ! a) = [[b]]" using le a by (simp_all add: lv_le_length lv_le_impl)
  note le2 = lv_le_set [OF a1(1) va, of v]
  have on: "lv_on h1 \<sigma> a = lv_on h1 \<sigma> b" for \<sigma>
    using a1 lv_on_impl [of a h1 "[b]" \<sigma>] by (auto elim: lv_onE)
  have "lv_inv (lv_set a v h1) s1"
    using inv1 lv_le_wf [OF le2 wf1] up1 up1 [unfolded lv_vars_upto_def, rule_format, OF _ v] a1 ba
    by (auto simp: lv_inv_def lv_vars_upto_def)
  moreover have "lv_emitted_but X (lv_set a v h1) (clauses s1)" if "lv_emitted_but X h1 (clauses s1)" for X
    unfolding lv_emitted_but_def
  proof (intro allI impI)
    fix c assume c: "c < length (lv_set a v h1)" "c \<notin> X \<and> lv_var (lv_set a v h1 ! c) \<noteq> None"
    show "lv_emitted_at (lv_set a v h1) (clauses s1) c"
    proof (cases "c = a")
      case True
      then show ?thesis using a1 v ba by (auto simp: lv_emitted_at_def lv_lit_def)
    next
      case False
      then show ?thesis
        using c a1(1) that lv_emitted_at_mono [OF _ le2 subset_refl wf1]
        by (simp add: lv_emitted_but_def)
    qed
  qed
  moreover have "lv_exact (lv_set a v h1) \<sigma>" if "lv_exact h1 \<sigma>" for \<sigma>
    using lv_exact_set [OF that wf1 a1(1) va] that v on ba a1(1) by (simp add: lv_exact_def)
  ultimately have "lv_step h1 s1 (lv_set a v h1) s1"
    using le2 frame_refl inv1 by (intro lv_step_same) (auto simp: lv_inv_def)
  then show ?thesis using lv_step_trans [OF st] by blast
qed

text \<open>
  \<open>get()\<close> never fails on a well-formed store when its depth bound exceeds the address, and every
  call is a step.
\<close>

lemma lv_get_spec: "a < n \<Longrightarrow> get_spec (get n) a"
proof (induction n arbitrary: a)
  case 0
  then show ?case by simp
next
  case (Suc n)
  show ?case
    unfolding get_spec_def
  proof (intro allI impI, elim conjE)
    fix h s assume inv: "lv_inv h s" and a: "a < length h"
    have wf: "lv_wf h" using inv by (simp add: lv_inv_def)
    have child: "get_spec (get n) b" if "b < a" for b using Suc that by simp
    have "lv_var (h ! a) = None \<Longrightarrow> lv_impl (h ! a) \<noteq> []" using wf a by (auto simp: lv_wf_def)
    then consider v where "lv_var (h ! a) = Some v"
      | b where "lv_var (h ! a) = None" "lv_impl (h ! a) = [[b]]"
      | "lv_var (h ! a) = None" "lv_impl (h ! a) \<noteq> []" "\<nexists>b. lv_impl (h ! a) = [[b]]"
      by fastforce
    then show "\<exists>v h' s'. get (Suc n) a (h, s) = Some (v, h', s') \<and> lv_step h s h' s' \<and>
        lv_var (h' ! a) = Some v \<and> (\<forall>c > a. h' ! c = h ! c) \<and> (\<forall>x. lv_unref h x \<and> x \<noteq> a \<longrightarrow> h' ! x = h ! x)"
    proof cases
      case 1
      then show ?thesis using a lv_step_refl [OF inv] by simp
    next
      case 2
      then have ba: "b < a" using lv_wf_child [OF wf a] by simp
      then obtain v h1 s1 where g: "get n b (h, s) = Some (v, h1, s1)"
        and st: "lv_step h s h1 s1" and v: "lv_var (h1 ! b) = Some v" and up: "\<forall>c > b. h1 ! c = h ! c"
        and un: "\<forall>x. lv_unref h x \<and> x \<noteq> b \<longrightarrow> h1 ! x = h ! x"
        using child [OF ba] inv a unfolding get_spec_def by (meson less_trans)
      have "lv_var (h1 ! a) = None" using up ba 2 by simp
      then have "lv_step h s (lv_set a v h1) s1" using lv_step_link [OF inv a 2 st v] by blast
      moreover have "length h1 = length h" using st by (simp add: lv_step_def lv_le_length)
      moreover have "\<forall>c > a. lv_set a v h1 ! c = h ! c" using up ba by (simp add: lv_set_def)
      moreover have "\<not> lv_unref h b" using a 2(2) by (force simp: lv_unref_def)
      then have "\<forall>x. lv_unref h x \<and> x \<noteq> a \<longrightarrow> lv_set a v h1 ! x = h ! x"
        using un by (auto simp: lv_set_def)
      ultimately show ?thesis using 2 a g by simp
    next
      case 3
      obtain v s1 where nv: "newVar s = (v, s1)" by fastforce
      obtain h' s' where "lv_clauses addClause (get n) v (lv_impl (h ! a)) (lv_set a v h, s1) = Some (h', s')"
        "lv_step h s h' s'" "lv_var (h' ! a) = Some v" "\<forall>c > a. h' ! c = h ! c"
        "\<forall>x. lv_unref h x \<and> x \<noteq> a \<longrightarrow> h' ! x = h ! x"
        using lv_get_fresh [OF inv a 3(1) nv child] by blast
      then show ?thesis using lv_get_general [of a h newVar addClause n s] 3 a nv by simp
    qed
  qed
qed

text \<open>The first call on a variable with more than one literal behind it creates a solver variable.\<close>

lemma lv_get_new:
  assumes "lv_inv h s" "a < length h" "lv_var (h ! a) = None" "\<nexists>b. lv_impl (h ! a) = [[b]]"
    and "get (Suc n) a (h, s) = Some (v, h', s')"
  shows "v = int (nvars s) + 1"
proof -
  have "lv_impl (h ! a) \<noteq> []" using assms(1-3) by (auto simp: lv_inv_def lv_wf_def)
  then have "v = fst (newVar s)"
    using assms(5) lv_get_general [OF assms(2,3) _ assms(4), of newVar addClause n s]
    by (auto simp del: lv_get.simps simp: Let_def split_beta)
  moreover have "ok s" using assms(1) by (simp add: lv_inv_def)
  ultimately show ?thesis using newVar_law by (metis prod.collapse)
qed

end

end
