(* ===== verification/Card_Incremental.thy ===== *)
theory Card_Incremental
  imports Lazy_Variable
begin

text \<open>
  \<open>lib/EvalMaxSAT/src/cardincremental.h\<close>: the incremental totalizer
  \<open>CardIncremental_Lazy\<close> over a list of literals. A node of the tree holds the addresses of its
  lazy output variables; output \<open>i\<close> of a node means that more than \<open>i\<close> of the literals below
  it are true. \<open>nullptr\<close> is the constructor \<open>Null\<close>.

  The lemmas show that the constructor, \<open>add\<close> and \<open>increase\<close> keep the tree well formed
  (\<open>tot_ok\<close>, in which every node has \<open>min K nof_input\<close> outputs for one bound \<open>K\<close>), that in a
  well-formed tree the meaning of output \<open>i\<close> is "more than \<open>i\<close> inputs are true", and, in the
  locale of the solver interface, that \<open>atMost(k)\<close> returns a literal that holds exactly when
  at most \<open>k\<close> of the inputs are true.
\<close>

section \<open>The tree and its operations\<close>

datatype tot_tree =
    Null
  | TotTree (lazyVars: "nat list") (nof_input: nat) (left: tot_tree) (right: tot_tree)
where
  "lazyVars Null = []"
| "nof_input Null = 0"
| "left Null = Null"
| "right Null = Null"

record card =
  nbLit :: nat
  bound :: nat
  tree :: tot_tree
  maxVars :: nat

text \<open>\<open>lazyVars.resize(k)\<close> followed by \<open>make_shared<LazyVariable<T>>(solver)\<close> for every slot.\<close>

fun lv_news :: "nat \<Rightarrow> lazyvar list \<Rightarrow> nat list \<times> lazyvar list" where
  "lv_news 0 h = ([], h)"
| "lv_news (Suc k) h =
     (let (a, h) = lv_new h; (as, h) = lv_news k h in (a # as, h))"

definition new_ua :: "nat list \<Rightarrow> nat \<Rightarrow> nat list \<Rightarrow> nat list \<Rightarrow> lazyvar list \<Rightarrow> lazyvar list" where
  "new_ua ogVars rhs aVars bVars h =
     (let kmin = min rhs (length bVars);
          h = fold (\<lambda>j. addImpliquant (ogVars ! j) [bVars ! j]) [0..<kmin] h;
          kmin = min rhs (length aVars);
          h = fold (\<lambda>i. addImpliquant (ogVars ! i) [aVars ! i]) [0..<kmin] h
      in fold (\<lambda>i. let minj = min (rhs - i) (length bVars)
                   in fold (\<lambda>j. addImpliquant (ogVars ! (i + j - 1)) [aVars ! (i - 1), bVars ! (j - 1)])
                        [1..<Suc minj])
           [1..<Suc kmin] h)"

definition increase_ua :: "nat list \<Rightarrow> nat list \<Rightarrow> nat list \<Rightarrow> nat \<Rightarrow> lazyvar list \<Rightarrow>
    nat list \<times> lazyvar list" where
  "increase_ua ogVars aVars bVars rhs h =
     (let last = length ogVars;
          (new, h) = lv_news (rhs - last) h;
          ogVars = ogVars @ new;
          maxj = min rhs (length bVars);
          h = fold (\<lambda>j. addImpliquant (ogVars ! j) [bVars ! j]) [last..<maxj] h;
          maxi = min rhs (length aVars);
          h = fold (\<lambda>i. addImpliquant (ogVars ! i) [aVars ! i]) [last..<maxi] h;
          h = fold (\<lambda>i. let maxj = min (rhs - i) (length bVars);
                            minj = nat (max (int last - int i + 1) 1)
                        in fold (\<lambda>j. addImpliquant (ogVars ! (i + j - 1)) [aVars ! (i - 1), bVars ! (j - 1)])
                             [minj..<Suc maxj])
                [1..<Suc maxi] h
      in (ogVars, h))"

text \<open>The first loop of the constructor: one leaf for every literal.\<close>

fun card_leaves :: "int list \<Rightarrow> lazyvar list \<Rightarrow> (tot_tree list \<times> lazyvar list) option" where
  "card_leaves [] h = Some ([], h)"
| "card_leaves (l # ls) h =
     do { (a, h) \<leftarrow> lv_new_lit l h;
          (q, h) \<leftarrow> card_leaves ls h;
          Some (TotTree [a] 1 Null Null # q, h) }"

text \<open>The body of the second loop: the node over the two first elements of the queue.\<close>

definition card_node :: "nat \<Rightarrow> tot_tree \<Rightarrow> tot_tree \<Rightarrow> lazyvar list \<Rightarrow> tot_tree \<times> lazyvar list" where
  "card_node bnd l r h =
     (let n = nof_input l + nof_input r;
          kmin = min (bnd + 1) n;
          (vs, h) = lv_news kmin h;
          h = new_ua vs kmin (lazyVars l) (lazyVars r) h
      in (TotTree vs n l r, h))"

function card_queue :: "nat \<Rightarrow> tot_tree list \<Rightarrow> lazyvar list \<Rightarrow> tot_tree list \<times> lazyvar list" where
  "card_queue bnd (l # r # q) h =
     (let (node, h) = card_node bnd l r h in card_queue bnd (q @ [node]) h)"
| "card_queue bnd [t] h = ([t], h)"
| "card_queue bnd [] h = ([], h)"
  by pat_completeness auto
termination
  by (relation "measure (\<lambda>(b, q, h). length q)") auto

text \<open>The constructor; on an empty clause \<open>nqueue.front()\<close> reads an empty queue.\<close>

definition card_new :: "int list \<Rightarrow> nat \<Rightarrow> lazyvar list \<Rightarrow> (card \<times> lazyvar list) option" where
  "card_new clause bnd h =
     do { (q, h) \<leftarrow> card_leaves clause h;
          case card_queue bnd q h of
            ([], h) \<Rightarrow> None
          | (t # _, h) \<Rightarrow>
              Some (\<lparr>nbLit = length clause, bound = bnd, tree = t, maxVars = length clause\<rparr>, h) }"

definition card_size :: "card \<Rightarrow> nat" where
  "card_size c = nbLit c"

definition card_add :: "int list \<Rightarrow> card \<Rightarrow> lazyvar list \<Rightarrow> (card \<times> lazyvar list) option" where
  "card_add clause c h =
     do { (tb, h) \<leftarrow> card_new clause (length (lazyVars (tree c)) - 1) h;
          let n = nof_input (tree c) + nof_input (tree tb);
              kmin = (if length (lazyVars (tree c)) < n then length (lazyVars (tree c)) else n);
              (vs, h) = lv_news kmin h;
              h = new_ua vs kmin (lazyVars (tree c)) (lazyVars (tree tb)) h
          in Some (c\<lparr>maxVars := maxVars c + length clause,
                     tree := TotTree vs n (tree c) (tree tb)\<rparr>, h) }"

fun increase :: "nat \<Rightarrow> tot_tree \<Rightarrow> lazyvar list \<Rightarrow> (tot_tree \<times> lazyvar list) option" where
  "increase newBound Null h = None"
| "increase newBound (TotTree vs n l r) h =
     (let kmin = min (newBound + 1) n
      in if length vs \<ge> kmin then Some (TotTree vs n l r, h)
         else do { (l, h) \<leftarrow> increase newBound l h;
                   (r, h) \<leftarrow> increase newBound r h;
                   let (vs, h) = increase_ua vs (lazyVars l) (lazyVars r) kmin h
                   in Some (TotTree vs n l r, h) })"

text \<open>\<open>getClause()\<close>: the literals at the leaves, from left to right.\<close>

fun tot_getClause :: "(nat \<Rightarrow> 'x \<Rightarrow> (int \<times> 'x) option) \<Rightarrow> tot_tree \<Rightarrow> 'x \<Rightarrow> (int list \<times> 'x) option" where
  "tot_getClause get Null st = Some ([], st)"
| "tot_getClause get (TotTree vs n l r) st =
     (if l = Null \<and> r = Null then
        (case vs of [a] \<Rightarrow> do { (v, st) \<leftarrow> get a st; Some ([v], st) } | _ \<Rightarrow> None)
      else do { (c1, st) \<leftarrow> tot_getClause get l st;
                (c2, st) \<leftarrow> tot_getClause get r st;
                Some (c1 @ c2, st) })"

definition card_atMost :: "('s \<Rightarrow> int \<times> 's) \<Rightarrow> (int list \<Rightarrow> 's \<Rightarrow> 's) \<Rightarrow> nat \<Rightarrow> card \<Rightarrow>
    lazyvar list \<times> 's \<Rightarrow> (int \<times> card \<times> lazyvar list \<times> 's) option" where
  "card_atMost newVar addClause k c st =
     (let (h, s) = st
      in if k \<ge> maxVars c then Some (0, c, h, s)
         else do { (t, h) \<leftarrow> (if k \<ge> length (lazyVars (tree c)) then increase k (tree c) h
                              else Some (tree c, h));
                   if k < length (lazyVars t)
                   then do { (v, h, s) \<leftarrow> lv_get newVar addClause (Suc (length h)) (lazyVars t ! k) (h, s);
                             Some (- v, c\<lparr>tree := t\<rparr>, h, s) }
                   else None })"

section \<open>Well-formed trees\<close>

text \<open>The implicants of output \<open>j\<close> of a node over outputs \<open>as\<close> and \<open>bs\<close>.\<close>

definition ua_impls :: "nat list \<Rightarrow> nat list \<Rightarrow> nat \<Rightarrow> nat list set" where
  "ua_impls as bs j =
     {imp. (j < length bs \<and> imp = [bs ! j]) \<or> (j < length as \<and> imp = [as ! j]) \<or>
           (\<exists>p q. p < length as \<and> q < length bs \<and> p + q + 1 = j \<and> imp = [as ! p, bs ! q])}"

fun tot_ok :: "lazyvar list \<Rightarrow> nat \<Rightarrow> tot_tree \<Rightarrow> bool" where
  "tot_ok h K Null = False"
| "tot_ok h K (TotTree vs n l r) =
     (if l = Null \<and> r = Null
      then n = 1 \<and> (\<exists>a. vs = [a] \<and> a < length h \<and> lv_impl (h ! a) = [] \<and> lv_var (h ! a) \<noteq> None) \<and> 1 \<le> K
      else tot_ok h K l \<and> tot_ok h K r \<and> n = nof_input l + nof_input r \<and> length vs = min K n \<and>
           (\<forall>j < length vs. vs ! j < length h \<and> (\<nexists>b. lv_impl (h ! (vs ! j)) = [[b]]) \<and>
              set (lv_impl (h ! (vs ! j))) = ua_impls (lazyVars l) (lazyVars r) j))"

fun tot_lits :: "lazyvar list \<Rightarrow> tot_tree \<Rightarrow> int list" where
  "tot_lits h Null = []"
| "tot_lits h (TotTree vs n l r) =
     (if l = Null \<and> r = Null then map (lv_lit h) vs else tot_lits h l @ tot_lits h r)"

text \<open>A store that was extended: old cells keep their implicants and their variables.\<close>

definition lv_grow :: "lazyvar list \<Rightarrow> lazyvar list \<Rightarrow> bool" where
  "lv_grow h h' = (length h \<le> length h' \<and>
     (\<forall>a < length h. lv_impl (h' ! a) = lv_impl (h ! a) \<and>
        (\<forall>v. lv_var (h ! a) = Some v \<longrightarrow> lv_var (h' ! a) = Some v)))"

text \<open>Cells were added: old ones are unchanged, new ones are linked or not materialised.\<close>

definition lv_ext :: "lazyvar list \<Rightarrow> lazyvar list \<Rightarrow> bool" where
  "lv_ext h h' = (length h \<le> length h' \<and> (\<forall>a < length h. h' ! a = h ! a) \<and>
     (\<forall>a < length h'. length h \<le> a \<longrightarrow> lv_var (h' ! a) = None \<or> lv_impl (h' ! a) = []))"

section \<open>Growing stores\<close>

lemma lv_grow_refl [simp]: "lv_grow h h"
  by (simp add: lv_grow_def)

lemma lv_grow_trans: "lv_grow h h' \<Longrightarrow> lv_grow h' h'' \<Longrightarrow> lv_grow h h''"
  by (fastforce simp: lv_grow_def)

lemma lv_le_grow: "lv_le h h' \<Longrightarrow> lv_grow h h'"
  by (simp add: lv_grow_def lv_le_def)

lemma lv_ext_grow: "lv_ext h h' \<Longrightarrow> lv_grow h h'"
  by (simp add: lv_grow_def lv_ext_def)

lemma lv_ext_refl [simp]: "lv_ext h h"
  by (simp add: lv_ext_def)

lemma lv_ext_trans: "lv_ext h h' \<Longrightarrow> lv_ext h' h'' \<Longrightarrow> lv_ext h h''"
  unfolding lv_ext_def by (smt (verit) less_le_trans linorder_not_le order_trans)

lemma lv_grow_length: "lv_grow h h' \<Longrightarrow> length h \<le> length h'"
  by (simp add: lv_grow_def)

lemma lv_grow_impl: "lv_grow h h' \<Longrightarrow> a < length h \<Longrightarrow> lv_impl (h' ! a) = lv_impl (h ! a)"
  by (simp add: lv_grow_def)

lemma lv_grow_var: "lv_grow h h' \<Longrightarrow> a < length h \<Longrightarrow> lv_var (h ! a) = Some v \<Longrightarrow> lv_var (h' ! a) = Some v"
  by (simp add: lv_grow_def)

lemma lv_grow_lit:
  "lv_grow h h' \<Longrightarrow> a < length h \<Longrightarrow> lv_var (h ! a) \<noteq> None \<Longrightarrow> lv_lit h' a = lv_lit h a"
  unfolding lv_lit_def using lv_grow_var by fastforce

lemma lv_on_grow1:
  assumes "lv_on h \<sigma> a" "lv_grow h h'"
  shows "lv_on h' \<sigma> a"
  using assms(1)
proof (induction rule: lv_on.induct)
  case (lv_on_lit a v)
  with assms(2) show ?case
    using lv_grow_length [OF assms(2)] by (intro lv_on.lv_on_lit) (auto simp: lv_grow_impl lv_grow_var)
next
  case (lv_on_impl a imp)
  show ?case
  proof (rule lv_on.lv_on_impl [of a _ imp])
    show "a < length h'" "imp \<in> set (lv_impl (h' ! a))"
      using lv_on_impl.hyps assms(2) lv_grow_length [OF assms(2)] by (auto simp: lv_grow_impl)
  qed (rule lv_on_impl.IH)
qed

lemma lv_on_grow2:
  assumes "lv_on h' \<sigma> a" "lv_grow h h'" "lv_wf h"
  shows "a < length h \<Longrightarrow> lv_on h \<sigma> a"
  using assms(1)
proof (induction rule: lv_on.induct)
  case (lv_on_lit a v)
  then have a: "lv_impl (h ! a) = []"
    using assms(2) by (auto simp: lv_grow_impl)
  with assms(3) lv_on_lit obtain w where "lv_var (h ! a) = Some w" by (auto simp: lv_wf_def)
  with a lv_on_lit assms(2) show ?case
    by (intro lv_on.lv_on_lit) (auto dest: lv_grow_var)
next
  case (lv_on_impl a imp)
  then have imp: "imp \<in> set (lv_impl (h ! a))" using assms(2) by (simp add: lv_grow_impl)
  show ?case
  proof (rule lv_on.lv_on_impl [OF _ imp])
    show "lv_on h \<sigma> b" if "b \<in> set imp" for b
      using lv_on_impl.IH [OF that] lv_wf_child [OF assms(3) lv_on_impl.prems imp that] lv_on_impl.prems by simp
  qed (use lv_on_impl in simp)
qed

lemma lv_on_grow: "lv_grow h h' \<Longrightarrow> lv_wf h \<Longrightarrow> a < length h \<Longrightarrow> lv_on h' \<sigma> a = lv_on h \<sigma> a"
  using lv_on_grow1 lv_on_grow2 by blast

lemma lv_exact_ext:
  assumes "lv_exact h \<sigma>" "lv_ext h h'" "lv_wf h"
  shows "lv_exact h' \<sigma>"
  unfolding lv_exact_def
proof (intro allI impI)
  fix a v assume a: "a < length h'" and v: "lv_var (h' ! a) = Some v"
  show "lit_true \<sigma> v = lv_on h' \<sigma> a"
  proof (cases "a < length h")
    case True
    then show ?thesis
      using assms v lv_on_grow [OF lv_ext_grow [OF assms(2)] assms(3)]
      by (auto simp: lv_exact_def lv_ext_def)
  next
    case False
    then have "lv_impl (h' ! a) = []" using assms(2) a v by (auto simp: lv_ext_def not_less)
    then show ?thesis using a v by (auto elim!: lv_onE intro: lv_on_lit)
  qed
qed

lemma lv_emitted_ext:
  assumes "lv_emitted_but X h F" "lv_ext h h'" "lv_wf h"
  shows "lv_emitted_but X h' F"
  unfolding lv_emitted_but_def
proof (intro allI impI)
  fix a assume a: "a < length h'" "a \<notin> X \<and> lv_var (h' ! a) \<noteq> None"
  show "lv_emitted_at h' F a"
  proof (cases "a < length h")
    case True
    then have eq: "h' ! b = h ! b" if "imp \<in> set (lv_impl (h ! a))" "b \<in> set imp" for imp b
      using lv_wf_child [OF assms(3) True that] assms(2) by (simp add: lv_ext_def)
    have "h' ! a = h ! a" using True assms(2) by (simp add: lv_ext_def)
    moreover have "lv_emitted_at h F a"
      using assms(1) True a \<open>h' ! a = h ! a\<close> by (auto simp: lv_emitted_but_def)
    moreover have "map (\<lambda>b. - lv_lit h' b) imp = map (\<lambda>b. - lv_lit h b) imp"
      if "imp \<in> set (lv_impl (h ! a))" for imp
      using eq [OF that] by (simp add: lv_lit_def)
    ultimately show ?thesis
      using eq unfolding lv_emitted_at_def lv_lit_def by (smt (verit) list.set_intros(1))
  next
    case False
    then have "lv_impl (h' ! a) = []" using assms(2) a by (auto simp: lv_ext_def not_less)
    then show ?thesis by (simp add: lv_emitted_at_def)
  qed
qed

lemma tot_ok_nonNull [simp]: "tot_ok h K t \<Longrightarrow> t \<noteq> Null"
  by auto

lemma tot_ok_grow: "tot_ok h K t \<Longrightarrow> lv_grow h h' \<Longrightarrow> tot_ok h' K t"
proof (induction t)
  case Null
  then show ?case by simp
next
  case (TotTree vs n l r)
  show ?case
  proof (cases "l = Null \<and> r = Null")
    case True
    then show ?thesis using TotTree.prems lv_grow_length [OF TotTree.prems(2)]
      by (auto simp: lv_grow_impl lv_grow_var)
  next
    case False
    then show ?thesis using TotTree lv_grow_length [OF TotTree.prems(2)]
      by (auto simp: lv_grow_impl)
  qed
qed

lemma tot_lits_grow: "tot_ok h K t \<Longrightarrow> lv_grow h h' \<Longrightarrow> tot_lits h' t = tot_lits h t"
proof (induction t)
  case Null
  then show ?case by simp
next
  case (TotTree vs n l r)
  then show ?case by (cases "l = Null \<and> r = Null") (auto simp: lv_grow_lit)
qed

lemma tot_ok_Kpos: "tot_ok h K t \<Longrightarrow> 1 \<le> K"
  by (induction t) (auto split: if_splits)

lemma tot_ok_nof: "tot_ok h K t \<Longrightarrow> nof_input t = length (tot_lits h t) \<and> 1 \<le> nof_input t"
  by (induction t) (auto split: if_splits)

lemma tot_ok_lazyVars: "tot_ok h K t \<Longrightarrow> length (lazyVars t) = min K (nof_input t)"
  by (cases t) (auto split: if_splits)

lemma tot_ok_addr: "tot_ok h K t \<Longrightarrow> a \<in> set (lazyVars t) \<Longrightarrow> a < length h"
  by (cases t) (auto split: if_splits simp: in_set_conv_nth)

text \<open>A tree whose nodes are all complete is well formed for every large enough bound.\<close>

lemma tot_ok_full: "tot_ok h K t \<Longrightarrow> nof_input t \<le> K \<Longrightarrow> nof_input t \<le> K' \<Longrightarrow> tot_ok h K' t"
proof (induction t)
  case Null
  then show ?case by simp
next
  case (TotTree vs n l r)
  show ?case
  proof (cases "l = Null \<and> r = Null")
    case True
    then show ?thesis using TotTree.prems by auto
  next
    case False
    with TotTree.prems have "tot_ok h K l" "tot_ok h K r" "n = nof_input l + nof_input r" by auto
    with False TotTree show ?thesis by (auto simp: min_def split: if_splits)
  qed
qed

section \<open>The meaning of the outputs\<close>

lemma ua_sem:
  assumes A: "\<And>p. p < length as \<Longrightarrow> lv_on h \<sigma> (as ! p) = (p < ca)"
    and B: "\<And>q. q < length bs \<Longrightarrow> lv_on h \<sigma> (bs ! q) = (q < cb)"
    and la: "length as = min K na" "ca \<le> na" and lb: "length bs = min K nb" "cb \<le> nb"
    and j: "j < K"
  shows "(\<exists>imp \<in> ua_impls as bs j. \<forall>b \<in> set imp. lv_on h \<sigma> b) = (j < ca + cb)"
proof
  assume "\<exists>imp \<in> ua_impls as bs j. \<forall>b \<in> set imp. lv_on h \<sigma> b"
  then show "j < ca + cb" unfolding ua_impls_def using A B by fastforce
next
  assume less: "j < ca + cb"
  consider "j < ca" | "j < cb" | "ca \<le> j" "cb \<le> j" by linarith
  then show "\<exists>imp \<in> ua_impls as bs j. \<forall>b \<in> set imp. lv_on h \<sigma> b"
  proof cases
    case 1
    then have "[as ! j] \<in> ua_impls as bs j" "lv_on h \<sigma> (as ! j)"
      using A la j by (auto simp: ua_impls_def)
    then show ?thesis by (intro bexI [of _ "[as ! j]"]) auto
  next
    case 2
    then have "[bs ! j] \<in> ua_impls as bs j" "lv_on h \<sigma> (bs ! j)"
      using B lb j by (auto simp: ua_impls_def)
    then show ?thesis by (intro bexI [of _ "[bs ! j]"]) auto
  next
    case 3
    define p q where "p = ca - 1" and "q = j - ca"
    have "p < ca" "q < cb" "p + q + 1 = j" "p < length as" "q < length bs"
      using 3 less la lb j by (auto simp: p_def q_def)
    then have "[as ! p, bs ! q] \<in> ua_impls as bs j" "lv_on h \<sigma> (as ! p)" "lv_on h \<sigma> (bs ! q)"
      using A B by (auto simp: ua_impls_def)
    then show ?thesis by (intro bexI [of _ "[as ! p, bs ! q]"]) auto
  qed
qed

lemma ua_impls_mem: "imp \<in> ua_impls as bs j \<Longrightarrow> imp \<noteq> [] \<and> set imp \<subseteq> set as \<union> set bs"
  by (auto simp: ua_impls_def)

lemma ua_impls_nonempty:
  assumes "length as = min K na" "length bs = min K nb" "1 \<le> na" "1 \<le> nb" "j < K" "j < na + nb"
  shows "ua_impls as bs j \<noteq> {}"
proof -
  consider "j < na" | "j < nb" | "na \<le> j" "nb \<le> j" by linarith
  then show ?thesis
  proof cases
    case 3
    then have "na - 1 < length as" "j - na < length bs" "na - 1 + (j - na) + 1 = j"
      using assms by auto
    then show ?thesis unfolding ua_impls_def by blast
  qed (use assms in \<open>auto simp: ua_impls_def\<close>)
qed

text \<open>Output \<open>j\<close> of a well-formed tree means that more than \<open>j\<close> of its literals are true.\<close>

lemma tot_sem:
  "tot_ok h K t \<Longrightarrow> j < length (lazyVars t) \<Longrightarrow>
    lv_on h \<sigma> (lazyVars t ! j) = (j < count_true \<sigma> (tot_lits h t))"
proof (induction t arbitrary: j)
  case Null
  then show ?case by simp
next
  case (TotTree vs n l r)
  show ?case
  proof (cases "l = Null \<and> r = Null")
    case True
    then obtain a v where "vs = [a]" "a < length h" "lv_impl (h ! a) = []" "lv_var (h ! a) = Some v"
      using TotTree.prems by auto
    then show ?thesis using True TotTree.prems
      by (auto simp: lv_lit_def elim!: lv_onE intro: lv_on_lit)
  next
    case False
    with TotTree.prems have ok: "tot_ok h K l" "tot_ok h K r" "length vs = min K n"
      "vs ! j < length h" "set (lv_impl (h ! (vs ! j))) = ua_impls (lazyVars l) (lazyVars r) j"
      and j: "j < K" by auto
    have le: "count_true \<sigma> (tot_lits h l) \<le> nof_input l" "count_true \<sigma> (tot_lits h r) \<le> nof_input r"
      using count_true_le tot_ok_nof ok(1,2) by metis+
    have sem: "(\<exists>imp \<in> ua_impls (lazyVars l) (lazyVars r) j. \<forall>b \<in> set imp. lv_on h \<sigma> b) =
        (j < count_true \<sigma> (tot_lits h l) + count_true \<sigma> (tot_lits h r))"
      by (rule ua_sem [OF TotTree.IH(1) [OF ok(1)] TotTree.IH(2) [OF ok(2)]
            tot_ok_lazyVars [OF ok(1)] le(1) tot_ok_lazyVars [OF ok(2)] le(2) j])
    have "ua_impls (lazyVars l) (lazyVars r) j \<noteq> {}"
      using TotTree.prems False ok(3) tot_ok_nof [OF ok(1)] tot_ok_nof [OF ok(2)]
      by (intro ua_impls_nonempty [OF tot_ok_lazyVars [OF ok(1)] tot_ok_lazyVars [OF ok(2)] _ _ j]) auto
    then have "lv_impl (h ! (vs ! j)) \<noteq> []" using ok(5) by auto
    then have "lv_on h \<sigma> (vs ! j) = (\<exists>imp \<in> ua_impls (lazyVars l) (lazyVars r) j. \<forall>b \<in> set imp. lv_on h \<sigma> b)"
      using ok(4,5) by (auto elim!: lv_onE intro: lv_on_impl)
    with sem False show ?thesis by auto
  qed
qed

section \<open>Adding implicants\<close>

text \<open>All three loops of \<open>new_ua\<close> and \<open>increase_ua\<close> as one list of additions.\<close>

definition add_all :: "(nat \<times> nat list) list \<Rightarrow> lazyvar list \<Rightarrow> lazyvar list" where
  "add_all ps h = fold (\<lambda>(t, imp). addImpliquant t imp) ps h"

definition ua_pairs :: "nat \<Rightarrow> nat list \<Rightarrow> nat \<Rightarrow> nat list \<Rightarrow> nat list \<Rightarrow> (nat \<times> nat list) list" where
  "ua_pairs lo og rhs as bs =
     map (\<lambda>j. (og ! j, [bs ! j])) [lo..<min rhs (length bs)] @
     map (\<lambda>i. (og ! i, [as ! i])) [lo..<min rhs (length as)] @
     concat (map (\<lambda>i. map (\<lambda>j. (og ! (i + j - 1), [as ! (i - 1), bs ! (j - 1)]))
                        [max (Suc lo - i) 1..<Suc (min (rhs - i) (length bs))])
              [1..<Suc (min rhs (length as))])"

lemma add_all_append: "add_all (ps @ qs) h = add_all qs (add_all ps h)"
  by (simp add: add_all_def)

lemma add_all_map: "add_all (map (\<lambda>j. (t j, imp j)) js) = fold (\<lambda>j. addImpliquant (t j) (imp j)) js"
  by (rule ext) (simp add: add_all_def fold_map comp_def)

lemma add_all_concat: "add_all (concat (map f is)) h = fold (\<lambda>i. add_all (f i)) is h"
  by (induction "is" arbitrary: h) (auto simp: add_all_append add_all_def)

lemma new_ua_eq: "new_ua og rhs as bs h = add_all (ua_pairs 0 og rhs as bs) h"
proof -
  have "fold (\<lambda>i. fold (\<lambda>j. addImpliquant (og ! (i + j - 1)) [as ! (i - 1), bs ! (j - 1)])
          [1..<Suc (min (rhs - i) (length bs))]) [1..<Suc k] g =
        fold (\<lambda>i. fold (\<lambda>j. addImpliquant (og ! (i + j - 1)) [as ! (i - 1), bs ! (j - 1)])
          [max (Suc 0 - i) 1..<Suc (min (rhs - i) (length bs))]) [1..<Suc k] g" for k g
    by (rule fold_cong) (auto simp: max_def simp del: upt_Suc)
  then show ?thesis
    by (simp add: new_ua_def ua_pairs_def add_all_append add_all_map add_all_concat Let_def del: upt_Suc)
qed

lemma increase_ua_eq:
  "increase_ua og as bs rhs h =
    (let (new, h) = lv_news (rhs - length og) h
     in (og @ new, add_all (ua_pairs (length og) (og @ new) rhs as bs) h))"
proof -
  have "nat (max (int lo - int i + 1) 1) = max (Suc lo - i) 1" for lo i :: nat
    by linarith
  then show ?thesis
    by (simp add: increase_ua_def ua_pairs_def add_all_append add_all_map add_all_concat Let_def del: upt_Suc)
qed

lemma add_all_length [simp]: "length (add_all ps h) = length h"
  unfolding add_all_def by (induction ps arbitrary: h) (auto simp: addImpliquant_def)

lemma add_all_nth:
  "\<forall>p \<in> set ps. fst p < length h \<Longrightarrow> x < length h \<Longrightarrow>
    lv_var (add_all ps h ! x) = lv_var (h ! x) \<and>
    lv_impl (add_all ps h ! x) = lv_impl (h ! x) @ map snd (filter (\<lambda>p. fst p = x) ps)"
proof (induction ps arbitrary: h)
  case Nil
  then show ?case by (simp add: add_all_def)
next
  case (Cons p ps)
  have "add_all (p # ps) h = add_all ps (addImpliquant (fst p) (snd p) h)"
    by (simp add: add_all_def split_beta)
  moreover have "length (addImpliquant (fst p) (snd p) h) = length h"
    by (simp add: addImpliquant_def)
  ultimately show ?case
    using Cons.IH [of "addImpliquant (fst p) (snd p) h"] Cons.prems
    by (auto simp: addImpliquant_def nth_list_update)
qed

lemma add_all_nth_other:
  "\<forall>p \<in> set ps. fst p < length h \<and> fst p \<noteq> x \<Longrightarrow> add_all ps h ! x = h ! x"
proof (induction ps arbitrary: h)
  case Nil
  then show ?case by (simp add: add_all_def)
next
  case (Cons p ps)
  have "add_all (p # ps) h = add_all ps (addImpliquant (fst p) (snd p) h)"
    by (simp add: add_all_def split_beta)
  then show ?case
    using Cons.IH [of "addImpliquant (fst p) (snd p) h"] Cons.prems
    by (auto simp: addImpliquant_def)
qed

lemma ua_pairs_set:
  "set (ua_pairs lo og rhs as bs) =
    {(og ! j, imp) | j imp. lo \<le> j \<and> j < rhs \<and> imp \<in> ua_impls as bs j}"
proof (intro set_eqI iffI)
  fix x assume "x \<in> set (ua_pairs lo og rhs as bs)"
  then consider "x \<in> set (map (\<lambda>j. (og ! j, [bs ! j])) [lo..<min rhs (length bs)])"
    | "x \<in> set (map (\<lambda>i. (og ! i, [as ! i])) [lo..<min rhs (length as)])"
    | i where "i \<in> set [1..<Suc (min rhs (length as))]"
        "x \<in> set (map (\<lambda>j. (og ! (i + j - 1), [as ! (i - 1), bs ! (j - 1)]))
                        [max (Suc lo - i) 1..<Suc (min (rhs - i) (length bs))])"
    unfolding ua_pairs_def set_append set_concat set_map by (auto simp del: upt_Suc set_upt simp add: set_map)
  then consider j where "x = (og ! j, [bs ! j])" "lo \<le> j" "j < rhs" "j < length bs"
    | j where "x = (og ! j, [as ! j])" "lo \<le> j" "j < rhs" "j < length as"
    | i j where "x = (og ! (i + j - 1), [as ! (i - 1), bs ! (j - 1)])" "1 \<le> i" "i \<le> rhs" "i \<le> length as"
        "Suc lo - i \<le> j" "1 \<le> j" "j \<le> rhs - i" "j \<le> length bs"
  proof cases
    case 3
    then obtain j where "j \<in> set [max (Suc lo - i) 1..<Suc (min (rhs - i) (length bs))]"
      "x = (og ! (i + j - 1), [as ! (i - 1), bs ! (j - 1)])" unfolding set_map by blast
    with 3(1) show thesis by (intro that(3) [of i j]) (auto simp del: upt_Suc)
  qed (use that(1,2) in auto)
  then show "x \<in> {(og ! j, imp) | j imp. lo \<le> j \<and> j < rhs \<and> imp \<in> ua_impls as bs j}"
  proof cases
    case 3
    then have "i - 1 < length as" "j - 1 < length bs" "(i - 1) + (j - 1) + 1 = i + j - 1"
      "lo \<le> i + j - 1" "i + j - 1 < rhs" by auto
    with 3(1) show ?thesis unfolding ua_impls_def by blast
  qed (auto simp: ua_impls_def)
next
  fix x assume "x \<in> {(og ! j, imp) | j imp. lo \<le> j \<and> j < rhs \<and> imp \<in> ua_impls as bs j}"
  then obtain j imp where x: "x = (og ! j, imp)" "lo \<le> j" "j < rhs" "imp \<in> ua_impls as bs j" by blast
  then consider "j < length bs" "imp = [bs ! j]" | "j < length as" "imp = [as ! j]"
    | p q where "p < length as" "q < length bs" "p + q + 1 = j" "imp = [as ! p, bs ! q]"
    by (auto simp: ua_impls_def)
  then show "x \<in> set (ua_pairs lo og rhs as bs)"
  proof cases
    case 3
    have "Suc p \<in> set [1..<Suc (min rhs (length as))]"
      and "Suc q \<in> set [max (Suc lo - Suc p) 1..<Suc (min (rhs - Suc p) (length bs))]"
      using 3 x by auto
    moreover have "x = (og ! (Suc p + Suc q - 1), [as ! (Suc p - 1), bs ! (Suc q - 1)])"
      using 3 x by simp
    ultimately have "x \<in> set (concat (map (\<lambda>i. map (\<lambda>j. (og ! (i + j - 1), [as ! (i - 1), bs ! (j - 1)]))
                        [max (Suc lo - i) 1..<Suc (min (rhs - i) (length bs))])
              [1..<Suc (min rhs (length as))]))"
      unfolding set_concat set_map by (intro UN_I imageI) (auto simp only: set_map image_iff)
    then show ?thesis unfolding ua_pairs_def set_append by blast
  qed (use x in \<open>auto simp: ua_pairs_def\<close>)
qed

lemma lv_news_eq: "lv_news k h = ([length h..<length h + k], h @ replicate k \<lparr>lv_var = None, lv_impl = []\<rparr>)"
  by (induction k arbitrary: h) (auto simp: lv_new_def upt_conv_Cons)

text \<open>
  Fresh outputs with their implicants: \<open>og\<close> gets \<open>k\<close> new cells, and the cells from index
  \<open>lo\<close> on receive the implicants over \<open>as\<close> and \<open>bs\<close>.
\<close>

lemma ua_extend:
  assumes wf: "lv_wf h" and og: "length og = lo"
    and ab: "\<forall>a \<in> set as \<union> set bs. a < length h"
    and ne: "\<And>j. lo \<le> j \<Longrightarrow> j < lo + k \<Longrightarrow> ua_impls as bs j \<noteq> {}"
  defines "new \<equiv> [length h..<length h + k]"
  defines "h1 \<equiv> h @ replicate k \<lparr>lv_var = None, lv_impl = []\<rparr>"
  defines "h2 \<equiv> add_all (ua_pairs lo (og @ new) (lo + k) as bs) h1"
  shows "lv_ext h h2" "lv_wf h2" "length h2 = length h + k"
    "\<And>j. lo \<le> j \<Longrightarrow> j < lo + k \<Longrightarrow> (og @ new) ! j = length h + (j - lo) \<and>
       set (lv_impl (h2 ! ((og @ new) ! j))) = ua_impls as bs j"
    "\<And>a. length h \<le> a \<Longrightarrow> a < length h + k \<Longrightarrow> lv_var (h2 ! a) = None"
    "\<And>x. lv_unref h x \<Longrightarrow> x \<notin> set as \<union> set bs \<Longrightarrow> lv_unref h2 x"
    "lo = 0 \<Longrightarrow> 0 < k \<Longrightarrow> as \<noteq> [] \<Longrightarrow> bs \<noteq> [] \<Longrightarrow> lv_impl (h2 ! length h) \<noteq> [[b]]"
proof -
  let ?ps = "ua_pairs lo (og @ new) (lo + k) as bs"
  have ogj: "(og @ new) ! j = length h + (j - lo)" if "lo \<le> j" "j < lo + k" for j
    using that og by (auto simp: nth_append new_def)
  have len1: "length h1 = length h + k" by (simp add: h1_def)
  show len2: "length h2 = length h + k" by (simp add: h2_def len1)
  have tgt: "\<forall>p \<in> set ?ps. length h \<le> fst p \<and> fst p < length h1"
    unfolding ua_pairs_set using ogj len1 by auto
  have old: "h2 ! a = h ! a" if "a < length h" for a
  proof -
    have "\<forall>p \<in> set ?ps. fst p < length h1 \<and> fst p \<noteq> a" using tgt that by fastforce
    then show ?thesis unfolding h2_def using add_all_nth_other [of ?ps h1 a] that by (simp add: h1_def nth_append)
  qed
  have new1: "lv_var (h1 ! a) = None" "lv_impl (h1 ! a) = []" if "length h \<le> a" "a < length h + k" for a
    using that by (auto simp: h1_def nth_append)
  show var: "lv_var (h2 ! a) = None" if "length h \<le> a" "a < length h + k" for a
    unfolding h2_def using add_all_nth [of ?ps h1 a] tgt new1 [OF that] that len1 by auto
  show impl: "(og @ new) ! j = length h + (j - lo) \<and>
      set (lv_impl (h2 ! ((og @ new) ! j))) = ua_impls as bs j" if j: "lo \<le> j" "j < lo + k" for j
  proof -
    have "set (lv_impl (h2 ! (length h + (j - lo)))) = snd ` {p \<in> set ?ps. fst p = length h + (j - lo)}"
      unfolding h2_def using add_all_nth [of ?ps h1 "length h + (j - lo)"] tgt
        new1 [of "length h + (j - lo)"] j len1 by auto
    also have "\<dots> = {imp. (length h + (j - lo), imp) \<in> set ?ps}"
      by (auto simp: image_iff)
    also have "\<dots> = ua_impls as bs j"
    proof -
      have "j' = j" if "length h + (j - lo) = (og @ new) ! j'" "lo \<le> j'" "j' < lo + k" for j'
        using ogj [OF that(2,3)] that j by simp
      then show ?thesis unfolding ua_pairs_set using ogj [OF j] j by (auto simp: set_eq_iff) metis
    qed
    finally show ?thesis using ogj [OF j] by simp
  qed
  show "lv_ext h h2" using old var len2 by (auto simp: lv_ext_def)
  have cell: "\<exists>j. lo \<le> j \<and> j < lo + k \<and> set (lv_impl (h2 ! a)) = ua_impls as bs j"
    if a: "a < length h2" "\<not> a < length h" for a
  proof -
    define j where "j = lo + (a - length h)"
    have j: "lo \<le> j" "j < lo + k" "(og @ new) ! j = a"
      using a len2 ogj by (auto simp: j_def)
    have "set (lv_impl (h2 ! a)) = ua_impls as bs j" using impl [OF j(1,2)] unfolding j(3) by blast
    with j(1,2) show ?thesis by blast
  qed
  show "lv_unref h2 x" if x: "lv_unref h x" "x \<notin> set as \<union> set bs" for x
    unfolding lv_unref_def
  proof (intro allI impI ballI)
    fix a imp assume a: "a < length h2" and imp: "imp \<in> set (lv_impl (h2 ! a))"
    show "x \<notin> set imp"
    proof (cases "a < length h")
      case True
      then show ?thesis using imp old x(1) by (simp add: lv_unref_def)
    next
      case False
      then show ?thesis using cell [OF a False] imp ua_impls_mem x(2) by blast
    qed
  qed
  show "lv_impl (h2 ! length h) \<noteq> [[b]]" if z: "lo = 0" "0 < k" "as \<noteq> []" "bs \<noteq> []"
  proof -
    let ?P = "\<lambda>p. fst p = length h"
    let ?A = "map (\<lambda>j. ((og @ new) ! j, [bs ! j])) [lo..<min (lo + k) (length bs)]"
    let ?B = "map (\<lambda>i. ((og @ new) ! i, [as ! i])) [lo..<min (lo + k) (length as)]"
    have o0: "(og @ new) ! 0 = length h" using ogj [of 0] z by simp
    have "(length h, [bs ! 0]) \<in> set ?A" "(length h, [as ! 0]) \<in> set ?B"
      using z o0 by (auto simp: image_iff intro!: bexI [of _ 0])
    then have "filter ?P ?A \<noteq> []" "filter ?P ?B \<noteq> []" unfolding filter_empty_conv by force+
    then have "1 \<le> length (filter ?P ?A)" "1 \<le> length (filter ?P ?B)"
      by (simp_all only: Suc_le_eq length_greater_0_conv One_nat_def not_False_eq_True)
    moreover obtain C where "?ps = ?A @ ?B @ C" unfolding ua_pairs_def by blast
    then have "length (filter ?P ?ps) = length (filter ?P ?A) + length (filter ?P ?B) + length (filter ?P C)"
      by (simp only: filter_append length_append add.assoc)
    ultimately have "2 \<le> length (filter ?P ?ps)" by linarith
    moreover have "lv_impl (h2 ! length h) = map snd (filter ?P ?ps)"
      unfolding h2_def using add_all_nth [of ?ps h1 "length h"] tgt new1 [of "length h"] z len1 by auto
    ultimately show ?thesis by (metis One_nat_def Suc_1 length_Cons length_map list.size(3) not_less_eq_eq order_refl)
  qed
  show "lv_wf h2"
    unfolding lv_wf_def
  proof (intro allI impI)
    fix a assume a: "a < length h2"
    show "(\<forall>imp \<in> set (lv_impl (h2 ! a)). imp \<noteq> [] \<and> (\<forall>b \<in> set imp. b < a)) \<and>
        (lv_impl (h2 ! a) = [] \<longrightarrow> lv_var (h2 ! a) \<noteq> None)"
    proof (cases "a < length h")
      case True
      then show ?thesis using old wf by (simp add: lv_wf_def)
    next
      case False
      then obtain j where j: "lo \<le> j" "j < lo + k" "set (lv_impl (h2 ! a)) = ua_impls as bs j"
        using cell [OF a] by blast
      moreover have "imp \<noteq> [] \<and> (\<forall>b \<in> set imp. b < a)" if "imp \<in> ua_impls as bs j" for imp
        using ua_impls_mem [OF that] ab False by (meson less_le_trans not_le subsetD)
      ultimately show ?thesis using ne [OF j(1,2)] by auto
    qed
  qed
qed

section \<open>The constructor and \<open>increase\<close> keep trees well formed\<close>

text \<open>What building a larger store guarantees to everything that already lives in it.\<close>

definition lv_build :: "lazyvar list \<Rightarrow> lazyvar list \<Rightarrow> bool" where
  "lv_build h h' = (lv_ext h h' \<and> lv_wf h' \<and>
     (\<forall>a < length h'. length h \<le> a \<longrightarrow> lv_var (h' ! a) = None) \<and>
     (\<forall>n. lv_vars_upto n h \<longrightarrow> lv_vars_upto n h'))"

lemma lv_build_refl: "lv_wf h \<Longrightarrow> lv_build h h"
  by (simp add: lv_build_def)

lemma lv_build_trans: "lv_build h h' \<Longrightarrow> lv_build h' h'' \<Longrightarrow> lv_build h h''"
  unfolding lv_build_def by (metis lv_ext_def lv_ext_trans not_le)

lemma lv_build_grow: "lv_build h h' \<Longrightarrow> lv_grow h h'"
  by (simp add: lv_build_def lv_ext_grow)

lemma lv_build_wf: "lv_build h h' \<Longrightarrow> lv_wf h'"
  by (simp add: lv_build_def)

lemma lv_vars_upto_ext:
  "lv_ext h h' \<Longrightarrow> \<forall>a < length h'. length h \<le> a \<longrightarrow> lv_var (h' ! a) = None \<Longrightarrow> lv_vars_upto n h \<Longrightarrow> lv_vars_upto n h'"
  unfolding lv_vars_upto_def lv_ext_def by (metis linorder_not_le option.distinct(1))

lemma lv_build_ua:
  assumes wf: "lv_wf h" and og: "length og = lo"
    and ab: "\<forall>a \<in> set as \<union> set bs. a < length h"
    and ne: "\<And>j. lo \<le> j \<Longrightarrow> j < lo + k \<Longrightarrow> ua_impls as bs j \<noteq> {}"
    and news: "lv_news k h = (new, h1)"
  defines "h2 \<equiv> add_all (ua_pairs lo (og @ new) (lo + k) as bs) h1"
  shows "lv_build h h2" "new = [length h..<length h + k]" "length h2 = length h + k"
    "\<And>j. lo \<le> j \<Longrightarrow> j < lo + k \<Longrightarrow> (og @ new) ! j < length h2 \<and>
       set (lv_impl (h2 ! ((og @ new) ! j))) = ua_impls as bs j"
    "\<And>x. lv_unref h x \<Longrightarrow> x \<notin> set as \<union> set bs \<Longrightarrow> lv_unref h2 x"
    "lo = 0 \<Longrightarrow> 0 < k \<Longrightarrow> as \<noteq> [] \<Longrightarrow> bs \<noteq> [] \<Longrightarrow> lv_impl (h2 ! length h) \<noteq> [[b]]"
proof -
  have new: "new = [length h..<length h + k]" and h1: "h1 = h @ replicate k \<lparr>lv_var = None, lv_impl = []\<rparr>"
    using news by (auto simp: lv_news_eq)
  have ext: "lv_ext h h2" "lv_wf h2" "length h2 = length h + k"
    "\<And>j. lo \<le> j \<Longrightarrow> j < lo + k \<Longrightarrow> (og @ new) ! j = length h + (j - lo) \<and>
       set (lv_impl (h2 ! ((og @ new) ! j))) = ua_impls as bs j"
    "\<And>a. length h \<le> a \<Longrightarrow> a < length h + k \<Longrightarrow> lv_var (h2 ! a) = None"
    using ua_extend(1-5) [OF wf og ab, of k] ne unfolding h2_def new h1 by blast+
  show "new = [length h..<length h + k]" "length h2 = length h + k" by (simp_all add: new ext(3))
  show "lv_unref h2 x" if "lv_unref h x" "x \<notin> set as \<union> set bs" for x
    using ua_extend(6) [OF wf og ab, of k] ne that unfolding h2_def new h1 by blast
  show "lv_impl (h2 ! length h) \<noteq> [[b]]" if "lo = 0" "0 < k" "as \<noteq> []" "bs \<noteq> []"
    using ua_extend(7) [OF wf og ab, of k] ne that unfolding h2_def new h1 by blast
  show "(og @ new) ! j < length h2 \<and> set (lv_impl (h2 ! ((og @ new) ! j))) = ua_impls as bs j"
    if "lo \<le> j" "j < lo + k" for j
  proof -
    have e: "(og @ new) ! j = length h + (j - lo)" "set (lv_impl (h2 ! ((og @ new) ! j))) = ua_impls as bs j"
      using ext(4) [OF that] by blast+
    have "(og @ new) ! j < length h2" unfolding e(1) using ext(3) that by linarith
    then show ?thesis using e(2) by blast
  qed
  have "lv_vars_upto n h2" if "lv_vars_upto n h" for n
    using lv_vars_upto_ext [OF ext(1) _ that] ext(3,5) by simp
  then show "lv_build h h2" using ext(1,2,3,5) by (simp add: lv_build_def)
qed

text \<open>No output of a node with at least two literals is a mere link to another variable.\<close>

lemma ua_not_link:
  assumes "length as = min K na" "length bs = min K nb" "1 \<le> na" "1 \<le> nb" "j < K" "j < na + nb"
    and "set imps = ua_impls as bs j" and "j = 0 \<Longrightarrow> imps \<noteq> [[b]]"
  shows "imps \<noteq> [[b]]"
proof
  assume eq: "imps = [[b]]"
  then have j: "0 < j" and only: "ua_impls as bs j = {[b]}" using assms(7,8) by auto
  have "\<exists>p q. p < length as \<and> q < length bs \<and> p + q + 1 = j"
  proof (cases "j < na")
    case True
    then show ?thesis using assms j by (intro exI [of _ "j - 1"] exI [of _ 0]) auto
  next
    case False
    then show ?thesis using assms j by (intro exI [of _ "na - 1"] exI [of _ "j - na"]) auto
  qed
  then obtain p q where "[as ! p, bs ! q] \<in> ua_impls as bs j" unfolding ua_impls_def by blast
  then show False using only by simp
qed

lemma card_node_ok:
  assumes ok: "tot_ok h K l" "tot_ok h K r" and wf: "lv_wf h" and K: "K = bnd + 1"
    and node: "card_node bnd l r h = (t, h')"
  shows "lv_build h h'" "tot_ok h' K t" "tot_lits h' t = tot_lits h l @ tot_lits h r"
    "nof_input t = nof_input l + nof_input r"
    "\<And>x. lv_unref h x \<Longrightarrow> x \<notin> set (lazyVars l) \<union> set (lazyVars r) \<Longrightarrow> lv_unref h' x"
    "lazyVars t = [length h..<length h']"
proof -
  let ?n = "nof_input l + nof_input r" let ?k = "min K ?n"
  obtain vs h1 where news: "lv_news ?k h = (vs, h1)" by fastforce
  then have t: "t = TotTree vs ?n l r" and h': "h' = add_all (ua_pairs 0 ([] @ vs) (0 + ?k) (lazyVars l) (lazyVars r)) h1"
    using node K by (auto simp: card_node_def new_ua_eq Let_def)
  note len = tot_ok_lazyVars [OF ok(1)] tot_ok_lazyVars [OF ok(2)]
  note pos = tot_ok_nof [OF ok(1), THEN conjunct2] tot_ok_nof [OF ok(2), THEN conjunct2]
  have addr: "\<forall>a \<in> set (lazyVars l) \<union> set (lazyVars r). a < length h" using tot_ok_addr ok by blast
  have ne: "ua_impls (lazyVars l) (lazyVars r) j \<noteq> {}" if "0 \<le> j" "j < 0 + ?k" for j
    using ua_impls_nonempty [OF len pos] that by simp
  note ua = lv_build_ua [OF wf, of "[]" 0 "lazyVars l" "lazyVars r" ?k vs h1, OF _ addr ne news, folded h']
  have b: "lv_build h h'" "vs = [length h..<length h + ?k]" "length h' = length h + ?k" and
    i: "\<And>j. j < ?k \<Longrightarrow> vs ! j < length h' \<and> set (lv_impl (h' ! (vs ! j))) = ua_impls (lazyVars l) (lazyVars r) j"
    and un: "\<And>x. lv_unref h x \<Longrightarrow> x \<notin> set (lazyVars l) \<union> set (lazyVars r) \<Longrightarrow> lv_unref h' x"
    using ua(1-5) by simp_all
  show "lv_build h h'" "lazyVars t = [length h..<length h']" using b t by simp_all
  show "lv_unref h' x" if "lv_unref h x" "x \<notin> set (lazyVars l) \<union> set (lazyVars r)" for x
    using un that by blast
  have "lazyVars l \<noteq> []" "lazyVars r \<noteq> []" using len pos K by auto
  then have z: "lv_impl (h' ! length h) \<noteq> [[b]]" for b using ua(6) pos K by simp
  have nl: "lv_impl (h' ! (vs ! j)) \<noteq> [[b]]" if "j < ?k" for j b
    by (rule ua_not_link [OF len pos, of j]) (use i [OF that] z that b(2) in auto)
  have g: "lv_grow h h'" using b(1) by (rule lv_build_grow)
  have nn: "l \<noteq> Null" "r \<noteq> Null" using ok by auto
  show "tot_ok h' K t"
    using t b(2) i nl nn tot_ok_grow [OF ok(1) g] tot_ok_grow [OF ok(2) g] by simp
  show "tot_lits h' t = tot_lits h l @ tot_lits h r" "nof_input t = nof_input l + nof_input r"
    using t nn tot_lits_grow [OF ok(1) g] tot_lits_grow [OF ok(2) g] by simp_all
qed

lemma lv_unref_out: "lv_wf h \<Longrightarrow> length h \<le> x \<Longrightarrow> lv_unref h x"
  unfolding lv_unref_def lv_wf_def by (meson less_asym' less_le_trans not_le)

definition queue_ok :: "lazyvar list \<Rightarrow> nat \<Rightarrow> tot_tree list \<Rightarrow> bool" where
  "queue_ok h K q = ((\<forall>t \<in> set q. tot_ok h K t) \<and> distinct (concat (map lazyVars q)) \<and>
     (\<forall>x \<in> set (concat (map lazyVars q)). lv_unref h x))"

lemma queue_ok_node:
  assumes q: "queue_ok h K (l # r # q)" and wf: "lv_wf h" and K: "K = bnd + 1"
    and n: "card_node bnd l r h = (node, h1)"
  shows "queue_ok h1 K (q @ [node])" "lv_build h h1"
    "\<And>x. lv_unref h x \<Longrightarrow> x < length h \<Longrightarrow> x \<notin> set (concat (map lazyVars (l # r # q))) \<Longrightarrow>
      lv_unref h1 x \<and> x \<notin> set (concat (map lazyVars (q @ [node])))"
    "mset (concat (map (tot_lits h1) (q @ [node]))) = mset (concat (map (tot_lits h) (l # r # q)))"
    "set (concat (map lazyVars (q @ [node]))) \<subseteq> set (concat (map lazyVars q)) \<union> {length h..}"
proof -
  have okl: "tot_ok h K l" and okr: "tot_ok h K r" and okq: "\<forall>t \<in> set q. tot_ok h K t"
    using q by (auto simp: queue_ok_def)
  note ok = card_node_ok [OF okl okr wf K n]
  have g: "lv_grow h h1" using ok(1) by (rule lv_build_grow)
  have addr: "x < length h" if "x \<in> set (concat (map lazyVars (l # r # q)))" for x
    using that okl okr okq tot_ok_addr by auto
  have node: "x \<in> set (lazyVars node) \<Longrightarrow> length h \<le> x" for x using ok(6) by simp
  have node_un: "lv_unref h1 x" if "x \<in> set (lazyVars node)" for x
    using ok(5) [OF lv_unref_out [OF wf node [OF that]]] node [OF that] addr by force
  have q_un: "lv_unref h1 x" if x: "x \<in> set (concat (map lazyVars q))" for x
  proof (rule ok(5))
    show "lv_unref h x" using q x by (auto simp: queue_ok_def)
    show "x \<notin> set (lazyVars l) \<union> set (lazyVars r)" using q x by (auto simp: queue_ok_def)
  qed
  have "\<forall>t \<in> set (q @ [node]). tot_ok h1 K t" using okq ok(2) tot_ok_grow [OF _ g] by auto
  moreover have "distinct (concat (map lazyVars (q @ [node])))"
    using q ok(6) addr by (fastforce simp: queue_ok_def)
  ultimately show "queue_ok h1 K (q @ [node])"
    using q_un node_un unfolding queue_ok_def by auto
  show "lv_build h h1" by fact
  show "lv_unref h1 x \<and> x \<notin> set (concat (map lazyVars (q @ [node])))"
    if "lv_unref h x" "x < length h" "x \<notin> set (concat (map lazyVars (l # r # q)))" for x
    using that ok(5) node by fastforce
  have "map (tot_lits h1) q = map (tot_lits h) q"
    using okq tot_lits_grow [OF _ g, of K] by (intro map_cong) simp_all
  then have "concat (map (tot_lits h1) q) = concat (map (tot_lits h) q)" by (rule arg_cong)
  then show "mset (concat (map (tot_lits h1) (q @ [node]))) = mset (concat (map (tot_lits h) (l # r # q)))"
    using ok(3) by (simp add: union_ac)
  show "set (concat (map lazyVars (q @ [node]))) \<subseteq> set (concat (map lazyVars q)) \<union> {length h..}"
    using node by auto
qed

lemma card_queue_ok:
  "queue_ok h K q \<Longrightarrow> lv_wf h \<Longrightarrow> K = bnd + 1 \<Longrightarrow> q \<noteq> [] \<Longrightarrow>
    \<exists>t h'. card_queue bnd q h = ([t], h') \<and> lv_build h h' \<and> queue_ok h' K [t] \<and>
      mset (tot_lits h' t) = mset (concat (map (tot_lits h) q)) \<and>
      (\<forall>x < length h. lv_unref h x \<and> x \<notin> set (concat (map lazyVars q)) \<longrightarrow> lv_unref h' x \<and> x \<notin> set (lazyVars t)) \<and>
      set (lazyVars t) \<subseteq> set (concat (map lazyVars q)) \<union> {length h..}"
proof (induction bnd q h rule: card_queue.induct)
  case (1 bnd l r q h)
  obtain node h1 where n: "card_node bnd l r h = (node, h1)" by fastforce
  note ok = queue_ok_node [OF 1(2,3,4) n]
  obtain t h' where t: "card_queue bnd (q @ [node]) h1 = ([t], h')" "lv_build h1 h'" "queue_ok h' K [t]"
      "mset (tot_lits h' t) = mset (concat (map (tot_lits h1) (q @ [node])))"
      "\<forall>x < length h1. lv_unref h1 x \<and> x \<notin> set (concat (map lazyVars (q @ [node]))) \<longrightarrow>
         lv_unref h' x \<and> x \<notin> set (lazyVars t)"
      "set (lazyVars t) \<subseteq> set (concat (map lazyVars (q @ [node]))) \<union> {length h1..}"
    using 1(1) [OF n [symmetric] refl ok(1) lv_build_wf [OF ok(2)] 1(4)] by blast
  have len: "length h \<le> length h1" using lv_grow_length [OF lv_build_grow [OF ok(2)]] .
  have "lv_unref h' x \<and> x \<notin> set (lazyVars t)"
    if "x < length h" "lv_unref h x" "x \<notin> set (concat (map lazyVars (l # r # q)))" for x
    using t(5) ok(3) [OF that(2,1,3)] that(1) len by simp
  moreover have "set (lazyVars t) \<subseteq> set (concat (map lazyVars (l # r # q))) \<union> {length h..}"
    using t(6) ok(5) len by fastforce
  moreover have "mset (tot_lits h' t) = mset (concat (map (tot_lits h) (l # r # q)))"
    using t(4) ok(4) by simp
  ultimately show ?case
    using n t(1,3) lv_build_trans [OF ok(2) t(2)] by auto
next
  case (2 bnd t h)
  then show ?case by (auto intro: lv_build_refl)
next
  case (3 bnd h)
  then show ?case by simp
qed

lemma ua_impls_prefix:
  assumes "length as = min K na" "length bs = min K nb" "length (as @ x) \<le> na" "length (bs @ y) \<le> nb" "j < K"
  shows "ua_impls (as @ x) (bs @ y) j = ua_impls as bs j"
proof -
  have A: "i < length as" if "i < length (as @ x)" "i \<le> j" for i using assms that by auto
  have B: "i < length bs" if "i < length (bs @ y)" "i \<le> j" for i using assms that by auto
  have "(j < length (as @ x) \<and> imp = [(as @ x) ! j]) = (j < length as \<and> imp = [as ! j])"
    "(j < length (bs @ y) \<and> imp = [(bs @ y) ! j]) = (j < length bs \<and> imp = [bs ! j])" for imp
    using A [of j] B [of j] by (auto simp: nth_append)
  moreover have "(p < length (as @ x) \<and> q < length (bs @ y) \<and> p + q + 1 = j \<and> imp = [(as @ x) ! p, (bs @ y) ! q]) =
      (p < length as \<and> q < length bs \<and> p + q + 1 = j \<and> imp = [as ! p, bs ! q])" for p q imp
    using A [of p] B [of q] by (auto simp: nth_append)
  ultimately show ?thesis unfolding ua_impls_def by simp
qed

text \<open>Every output of a child is referenced by an output of its parent.\<close>

lemma tot_ok_child_ref:
  assumes "tot_ok h K (TotTree vs n l r)" "\<not> (l = Null \<and> r = Null)" "x \<in> set (lazyVars l) \<union> set (lazyVars r)"
  shows "\<not> lv_unref h x"
proof -
  have ok: "tot_ok h K l" "tot_ok h K r" "n = nof_input l + nof_input r" "length vs = min K n"
    "\<And>j. j < length vs \<Longrightarrow> vs ! j < length h \<and> set (lv_impl (h ! (vs ! j))) = ua_impls (lazyVars l) (lazyVars r) j"
    using assms(1,2) by (auto split: if_splits)
  obtain j where j: "j < length (lazyVars l) \<and> x = lazyVars l ! j \<or> j < length (lazyVars r) \<and> x = lazyVars r ! j"
    using assms(3) by (auto simp: in_set_conv_nth)
  then have "[x] \<in> ua_impls (lazyVars l) (lazyVars r) j" by (auto simp: ua_impls_def)
  moreover have "j < length vs"
    using j ok(3,4) tot_ok_lazyVars [OF ok(1)] tot_ok_lazyVars [OF ok(2)] by auto
  ultimately show ?thesis using ok(5) [of j] unfolding lv_unref_def by fastforce
qed

lemma increase_ok:
  "tot_ok h K t \<Longrightarrow> lv_wf h \<Longrightarrow> K \<le> Suc nb \<Longrightarrow>
    \<exists>t' h' x. increase nb t h = Some (t', h') \<and> lv_build h h' \<and> tot_ok h' (Suc nb) t' \<and>
      nof_input t' = nof_input t \<and> tot_lits h' t' = tot_lits h t \<and> lazyVars t' = lazyVars t @ x \<and>
      (\<forall>y < length h. lv_unref h y \<longrightarrow> lv_unref h' y) \<and> (\<forall>y \<in> set x. length h \<le> y \<and> lv_unref h' y) \<and> distinct x"
proof (induction t arbitrary: h)
  case Null
  then show ?case by simp
next
  case (TotTree vs n l r)
  have len: "length vs = min K n" using tot_ok_lazyVars [OF TotTree.prems(1)] by simp
  show ?case
  proof (cases "length vs \<ge> min (Suc nb) n")
    case True
    then have "n \<le> K \<or> K = Suc nb" using len TotTree.prems(3) by auto
    then have "tot_ok h (Suc nb) (TotTree vs n l r)"
    proof
      assume "n \<le> K"
      then show ?thesis using tot_ok_full [OF TotTree.prems(1), of "Suc nb"] TotTree.prems(3) by simp
    qed (use TotTree.prems in simp)
    then show ?thesis using True lv_build_refl [OF TotTree.prems(2)] by simp
  next
    case False
    have inner: "\<not> (l = Null \<and> r = Null)"
      using TotTree.prems len False by auto
    then have ok: "tot_ok h K l" "tot_ok h K r" "n = nof_input l + nof_input r"
      "\<And>j. j < length vs \<Longrightarrow> vs ! j < length h \<and> (\<nexists>b. lv_impl (h ! (vs ! j)) = [[b]]) \<and> set (lv_impl (h ! (vs ! j))) = ua_impls (lazyVars l) (lazyVars r) j"
      using TotTree.prems(1) by (auto split: if_splits)
    obtain l' h1 x where l': "increase nb l h = Some (l', h1)" "lv_build h h1" "tot_ok h1 (Suc nb) l'"
        "nof_input l' = nof_input l" "tot_lits h1 l' = tot_lits h l" "lazyVars l' = lazyVars l @ x"
        "\<forall>y < length h. lv_unref h y \<longrightarrow> lv_unref h1 y" "\<forall>y \<in> set x. length h \<le> y \<and> lv_unref h1 y" "distinct x"
      using TotTree.IH(1) [OF ok(1) TotTree.prems(2,3)] by blast
    note g1 = lv_build_grow [OF l'(2)]
    obtain r' h2 y where r': "increase nb r h1 = Some (r', h2)" "lv_build h1 h2" "tot_ok h2 (Suc nb) r'"
        "nof_input r' = nof_input r" "tot_lits h2 r' = tot_lits h1 r" "lazyVars r' = lazyVars r @ y"
        "\<forall>y < length h1. lv_unref h1 y \<longrightarrow> lv_unref h2 y" "\<forall>x \<in> set y. length h1 \<le> x \<and> lv_unref h2 x" "distinct y"
      using TotTree.IH(2) [OF tot_ok_grow [OF ok(2) g1] lv_build_wf [OF l'(2)] TotTree.prems(3)] by blast
    note g2 = lv_build_grow [OF r'(2)]
    have ol: "tot_ok h2 (Suc nb) l'" using tot_ok_grow [OF l'(3) g2] .
    let ?k = "min (Suc nb) n"
    obtain new h3 where news: "lv_news (?k - length vs) h2 = (new, h3)" by fastforce
    have k: "length vs + (?k - length vs) = ?k" using False by simp
    define h4 where "h4 = add_all (ua_pairs (length vs) (vs @ new) ?k (lazyVars l') (lazyVars r')) h3"
    have inc: "increase nb (TotTree vs n l r) h = Some (TotTree (vs @ new) n l' r', h4)"
      using False l'(1) r'(1) news by (simp add: increase_ua_eq h4_def)
    note len' = tot_ok_lazyVars [OF ol] tot_ok_lazyVars [OF r'(3)]
    note pos' = tot_ok_nof [OF ol, THEN conjunct2] tot_ok_nof [OF r'(3), THEN conjunct2]
    have ne: "ua_impls (lazyVars l') (lazyVars r') j \<noteq> {}" if "j < ?k" for j
      using ua_impls_nonempty [OF tot_ok_lazyVars [OF ol] tot_ok_lazyVars [OF r'(3)], of j]
        tot_ok_nof [OF ol] tot_ok_nof [OF r'(3)] that ok(3) l'(4) r'(4) by auto
    have addr: "\<forall>a \<in> set (lazyVars l') \<union> set (lazyVars r'). a < length h2"
      using tot_ok_addr ol r'(3) by blast
    have ne': "ua_impls (lazyVars l') (lazyVars r') j \<noteq> {}"
      if "length vs \<le> j" "j < length vs + (?k - length vs)" for j using ne that unfolding k by blast
    note ua = lv_build_ua [OF lv_build_wf [OF r'(2)] refl [of "length vs"] addr ne' news, unfolded k, folded h4_def]
    have b: "lv_build h2 h4" "new = [length h2..<length h2 + (?k - length vs)]"
      "length h4 = length h2 + (?k - length vs)" and
      i: "\<And>j. length vs \<le> j \<Longrightarrow> j < ?k \<Longrightarrow> (vs @ new) ! j < length h4 \<and>
         set (lv_impl (h4 ! ((vs @ new) ! j))) = ua_impls (lazyVars l') (lazyVars r') j" and
      un: "\<And>x. lv_unref h2 x \<Longrightarrow> x \<notin> set (lazyVars l') \<union> set (lazyVars r') \<Longrightarrow> lv_unref h4 x"
      using ua(1-5) by simp_all
    have build: "lv_build h h4" using lv_build_trans [OF lv_build_trans [OF l'(2) r'(2)] b(1)] .
    note g = lv_build_grow [OF b(1)] and gall = lv_build_grow [OF build]
    have vpos: "0 < length vs" using len tot_ok_Kpos [OF ok(1)] ok(3) tot_ok_nof [OF ok(1)] by auto
    have old: "(vs @ new) ! j < length h4 \<and> (\<nexists>b. lv_impl (h4 ! ((vs @ new) ! j)) = [[b]]) \<and>
         set (lv_impl (h4 ! ((vs @ new) ! j))) = ua_impls (lazyVars l') (lazyVars r') j" if j: "j < length vs" for j
    proof -
      have "ua_impls (lazyVars l') (lazyVars r') j = ua_impls (lazyVars l) (lazyVars r) j"
        unfolding l'(6) r'(6)
        by (rule ua_impls_prefix [OF tot_ok_lazyVars [OF ok(1)] tot_ok_lazyVars [OF ok(2)]])
          (use tot_ok_lazyVars [OF ol] tot_ok_lazyVars [OF r'(3)] l'(4,6) r'(4,6) j len in auto)
      then show ?thesis using ok(4) [OF j] gall j lv_grow_length [OF gall] by (simp add: nth_append lv_grow_impl)
    qed
    have "l' \<noteq> Null" "r' \<noteq> Null" using ol r'(3) by auto
    moreover have "length (vs @ new) = ?k" using b(2) k by simp
    moreover have "(vs @ new) ! j < length h4 \<and> (\<nexists>b. lv_impl (h4 ! ((vs @ new) ! j)) = [[b]]) \<and>
         set (lv_impl (h4 ! ((vs @ new) ! j))) = ua_impls (lazyVars l') (lazyVars r') j" if j: "j < ?k" for j
    proof (cases "j < length vs")
      case False
      then have ij: "(vs @ new) ! j < length h4"
        "set (lv_impl (h4 ! ((vs @ new) ! j))) = ua_impls (lazyVars l') (lazyVars r') j" using i j by auto
      have "lv_impl (h4 ! ((vs @ new) ! j)) \<noteq> [[b]]" for b
        by (rule ua_not_link [OF len' pos', of j]) (use ij(2) j False vpos ok(3) l'(4) r'(4) in auto)
      with ij show ?thesis by blast
    qed (rule old)
    ultimately have "tot_ok h4 (Suc nb) (TotTree (vs @ new) n l' r')"
      using tot_ok_grow [OF ol g] tot_ok_grow [OF r'(3) g] ok(3) l'(4) r'(4) by simp
    moreover have "tot_lits h4 (TotTree (vs @ new) n l' r') = tot_lits h (TotTree vs n l r)"
      using ok(1) \<open>l' \<noteq> Null\<close> tot_lits_grow [OF ol g] tot_lits_grow [OF r'(3) g] tot_lits_grow [OF l'(3) g2]
        tot_lits_grow [OF ok(2) g1] l'(5) r'(5) by simp
    moreover have "\<forall>y < length h. lv_unref h y \<longrightarrow> lv_unref h4 y"
    proof (intro allI impI)
      fix z assume z: "z < length h" "lv_unref h z"
      then have "lv_unref h2 z" using l'(7) r'(7) lv_grow_length [OF g1] by simp
      moreover have "z \<notin> set (lazyVars l') \<union> set (lazyVars r')"
        using z tot_ok_child_ref [OF TotTree.prems(1) inner] l'(6,8) r'(6,8) lv_grow_length [OF g1] by fastforce
      ultimately show "lv_unref h4 z" by (rule un)
    qed
    moreover have "length h \<le> z \<and> lv_unref h4 z" if z: "z \<in> set new" for z
    proof -
      have "length h2 \<le> z" using z b(2) by simp
      moreover from this have "lv_unref h4 z"
        using un [OF lv_unref_out [OF lv_build_wf [OF r'(2)]]] addr by (meson not_le)
      ultimately show ?thesis using lv_grow_length [OF g1] lv_grow_length [OF g2] by simp
    qed
    moreover have "distinct new" using b(2) by simp
    ultimately show ?thesis using inc build by auto
  qed
qed

text \<open>A well-formed cardinality: its outputs are distinct and no other cell refers to them.\<close>

definition card_ok :: "lazyvar list \<Rightarrow> card \<Rightarrow> bool" where
  "card_ok h c = ((\<exists>K. queue_ok h K [tree c]) \<and> maxVars c = nof_input (tree c))"

definition card_lits :: "lazyvar list \<Rightarrow> card \<Rightarrow> int list" where
  "card_lits h c = tot_lits h (tree c)"

lemma lv_new_lit_ok:
  assumes "l \<noteq> 0" "lv_wf h"
  defines "h1 \<equiv> h @ [\<lparr>lv_var = Some l, lv_impl = []\<rparr>]"
  shows "lv_new_lit l h = Some (length h, h1)" "lv_ext h h1" "lv_wf h1"
    "lv_vars_upto n h \<Longrightarrow> lit_upto n l \<Longrightarrow> lv_vars_upto n h1"
    "lv_unref h1 x = lv_unref h x" "lv_unref h (length h)"
proof -
  show "lv_new_lit l h = Some (length h, h1)" "lv_ext h h1"
    using assms by (auto simp: lv_new_lit_def lv_ext_def nth_append)
  have nth: "a < length h \<Longrightarrow> h1 ! a = h ! a" "h1 ! length h = \<lparr>lv_var = Some l, lv_impl = []\<rparr>" for a
    by (simp_all add: h1_def nth_append)
  have len: "length h1 = Suc (length h)" by (simp add: h1_def)
  show "lv_wf h1" using assms(2) nth len unfolding lv_wf_def by (auto simp: less_Suc_eq)
  show "lv_vars_upto n h1" if "lv_vars_upto n h" "lit_upto n l"
    using that nth len unfolding lv_vars_upto_def by (auto simp: less_Suc_eq)
  show "lv_unref h1 x = lv_unref h x" using nth len unfolding lv_unref_def by (auto simp: less_Suc_eq)
  show "lv_unref h (length h)" using assms(2) by (intro lv_unref_out) simp_all
qed

lemma card_leaves_ok:
  "\<forall>l \<in> set ls. l \<noteq> 0 \<Longrightarrow> lv_wf h \<Longrightarrow> 1 \<le> K \<Longrightarrow>
    \<exists>q h'. card_leaves ls h = Some (q, h') \<and> lv_ext h h' \<and> lv_wf h' \<and>
      (\<forall>n. lv_vars_upto n h \<and> (\<forall>l \<in> set ls. lit_upto n l) \<longrightarrow> lv_vars_upto n h') \<and>
      queue_ok h' K q \<and> concat (map (tot_lits h') q) = ls \<and> length q = length ls \<and>
      (\<forall>x. lv_unref h x \<longrightarrow> lv_unref h' x) \<and> set (concat (map lazyVars q)) \<subseteq> {length h..}"
proof (induction ls arbitrary: h)
  case Nil
  then show ?case by (auto simp: queue_ok_def)
next
  case (Cons l ls)
  define h1 where "h1 = h @ [\<lparr>lv_var = Some l, lv_impl = []\<rparr>]"
  note new = lv_new_lit_ok [of l h, folded h1_def]
  have l: "l \<noteq> 0" using Cons.prems by simp
  obtain q h' where q: "card_leaves ls h1 = Some (q, h')" "lv_ext h1 h'" "lv_wf h'"
      "\<forall>n. lv_vars_upto n h1 \<and> (\<forall>l \<in> set ls. lit_upto n l) \<longrightarrow> lv_vars_upto n h'"
      "queue_ok h' K q" "concat (map (tot_lits h') q) = ls" "length q = length ls"
      "\<forall>x. lv_unref h1 x \<longrightarrow> lv_unref h' x" "set (concat (map lazyVars q)) \<subseteq> {length h1..}"
    using Cons.IH [of h1] Cons.prems new(3) by auto
  have a: "length h < length h1" "h1 ! length h = \<lparr>lv_var = Some l, lv_impl = []\<rparr>"
    by (simp_all add: h1_def nth_append)
  then have a': "length h < length h'" "h' ! length h = \<lparr>lv_var = Some l, lv_impl = []\<rparr>"
    using q(2) by (auto simp: lv_ext_def)
  then have "tot_ok h' K (TotTree [length h] 1 Null Null)" using Cons.prems(3) by simp
  moreover have "lv_unref h' (length h)" using q(8) new(5,6) l Cons.prems(2) by blast
  ultimately have "queue_ok h' K (TotTree [length h] 1 Null Null # q)"
    using q(5,9) a(1) by (auto simp: queue_ok_def)
  moreover have "card_leaves (l # ls) h = Some (TotTree [length h] 1 Null Null # q, h')"
    using new(1) l Cons.prems(2) q(1) by simp
  moreover have "\<forall>n. lv_vars_upto n h \<and> (\<forall>l \<in> set (l # ls). lit_upto n l) \<longrightarrow> lv_vars_upto n h'"
    using q(4) new(4) l Cons.prems(2) by simp
  ultimately show ?case
    using lv_ext_trans [OF new(2) [OF l Cons.prems(2)] q(2)] q(3,6,7,8,9) new(5) l Cons.prems(2) a a'
    by (intro exI [of _ "TotTree [length h] 1 Null Null # q"] exI [of _ h'])
      (auto simp: lv_lit_def)
qed

lemma card_new_ok:
  assumes "ls \<noteq> []" "\<forall>l \<in> set ls. l \<noteq> 0" "lv_wf h"
  shows "\<exists>c h'. card_new ls bnd h = Some (c, h') \<and> lv_ext h h' \<and> lv_wf h' \<and>
    (\<forall>n. lv_vars_upto n h \<and> (\<forall>l \<in> set ls. lit_upto n l) \<longrightarrow> lv_vars_upto n h') \<and>
    queue_ok h' (bnd + 1) [tree c] \<and> card_ok h' c \<and> mset (card_lits h' c) = mset ls \<and>
    maxVars c = length ls \<and> (\<forall>x < length h. lv_unref h x \<longrightarrow> lv_unref h' x) \<and>
    set (lazyVars (tree c)) \<subseteq> {length h..}"
proof -
  obtain q h1 where q: "card_leaves ls h = Some (q, h1)" "lv_ext h h1" "lv_wf h1"
      "\<forall>n. lv_vars_upto n h \<and> (\<forall>l \<in> set ls. lit_upto n l) \<longrightarrow> lv_vars_upto n h1"
      "queue_ok h1 (bnd + 1) q" "concat (map (tot_lits h1) q) = ls" "length q = length ls"
      "\<forall>x. lv_unref h x \<longrightarrow> lv_unref h1 x" "set (concat (map lazyVars q)) \<subseteq> {length h..}"
    using card_leaves_ok [OF assms(2,3), of "bnd + 1"] by auto
  have qne: "q \<noteq> []" using q(7) assms(1) by auto
  obtain t h' where t: "card_queue bnd q h1 = ([t], h')" "lv_build h1 h'" "queue_ok h' (bnd + 1) [t]"
      "mset (tot_lits h' t) = mset ls"
      "\<forall>x < length h1. lv_unref h1 x \<and> x \<notin> set (concat (map lazyVars q)) \<longrightarrow> lv_unref h' x \<and> x \<notin> set (lazyVars t)"
      "set (lazyVars t) \<subseteq> set (concat (map lazyVars q)) \<union> {length h1..}"
    using card_queue_ok [OF q(5,3) refl qne] unfolding q(6) by blast
  let ?c = "\<lparr>nbLit = length ls, bound = bnd, tree = t, maxVars = length ls\<rparr>"
  have len: "length h \<le> length h1" using q(2) by (simp add: lv_ext_def)
  have "tot_ok h' (bnd + 1) t" using t(3) by (simp add: queue_ok_def)
  then have "nof_input t = length ls" using tot_ok_nof t(4) by (metis size_mset)
  then have "card_ok h' ?c" using t(3) by (auto simp: card_ok_def)
  moreover have "lv_ext h h'" using lv_ext_trans [OF q(2)] t(2) by (simp add: lv_build_def)
  moreover have "\<forall>n. lv_vars_upto n h \<and> (\<forall>l \<in> set ls. lit_upto n l) \<longrightarrow> lv_vars_upto n h'"
    using q(4) t(2) by (simp add: lv_build_def)
  moreover have "\<forall>x < length h. lv_unref h x \<longrightarrow> lv_unref h' x"
  proof (intro allI impI)
    fix x assume x: "x < length h" "lv_unref h x"
    then have "x \<notin> set (concat (map lazyVars q))" using q(9) by (meson atLeast_iff not_le subsetD)
    with x show "lv_unref h' x" using t(5) q(8) len by simp
  qed
  moreover have "set (lazyVars t) \<subseteq> {length h..}" using t(6) q(9) len by fastforce
  moreover have "card_new ls bnd h = Some (?c, h')" using q(1) t(1) by (simp add: card_new_def)
  ultimately show ?thesis
    using t(3,4) lv_build_wf [OF t(2)]
    by (intro exI [of _ ?c] exI [of _ h']) (simp add: card_lits_def)
qed

lemma card_ok_grow:
  "card_ok h c \<Longrightarrow> lv_grow h h' \<Longrightarrow> \<forall>x \<in> set (lazyVars (tree c)). lv_unref h' x \<Longrightarrow>
    card_ok h' c \<and> card_lits h' c = card_lits h c"
  unfolding card_ok_def queue_ok_def card_lits_def
  using tot_ok_grow [of h _ "tree c" h'] tot_lits_grow [of h _ "tree c" h'] by auto

lemma card_ok_nof: "card_ok h c \<Longrightarrow> maxVars c = length (card_lits h c) \<and> 1 \<le> maxVars c"
  unfolding card_ok_def queue_ok_def card_lits_def using tot_ok_nof by fastforce

lemma card_ok_addr: "card_ok h c \<Longrightarrow> k < length (lazyVars (tree c)) \<Longrightarrow> lazyVars (tree c) ! k < length h"
  unfolding card_ok_def queue_ok_def using tot_ok_addr by fastforce

lemma card_ok_not_link:
  assumes "card_ok h c" "2 \<le> maxVars c" "k < length (lazyVars (tree c))"
  shows "\<nexists>b. lv_impl (h ! (lazyVars (tree c) ! k)) = [[b]]"
proof (cases "tree c")
  case Null
  then show ?thesis using assms(3) by simp
next
  case (TotTree vs n l r)
  then obtain K where K: "tot_ok h K (TotTree vs n l r)" "n = maxVars c"
    using assms(1) by (auto simp: card_ok_def queue_ok_def)
  then have "\<not> (l = Null \<and> r = Null)" using assms(2) by auto
  then show ?thesis using K(1) assms(3) TotTree by (auto split: if_splits)
qed

lemma card_ok_impl:
  assumes "card_ok h c" "2 \<le> maxVars c" "k < length (lazyVars (tree c))"
  shows "lv_impl (h ! (lazyVars (tree c) ! k)) \<noteq> []"
proof (cases "tree c")
  case (TotTree vs n l r)
  then obtain K where K: "tot_ok h K (TotTree vs n l r)" "n = maxVars c"
    using assms(1) by (auto simp: card_ok_def queue_ok_def)
  then have ok: "tot_ok h K l" "tot_ok h K r" "n = nof_input l + nof_input r" "length vs = min K n"
      "k < length vs" "set (lv_impl (h ! (vs ! k))) = ua_impls (lazyVars l) (lazyVars r) k"
    using assms(2,3) TotTree by (auto split: if_splits)
  have "ua_impls (lazyVars l) (lazyVars r) k \<noteq> {}"
    using ok tot_ok_nof [OF ok(1)] tot_ok_nof [OF ok(2)]
    by (intro ua_impls_nonempty [OF tot_ok_lazyVars [OF ok(1)] tot_ok_lazyVars [OF ok(2)]]) auto
  then show ?thesis using ok(6) TotTree by auto
qed (use assms(3) in simp)

lemma card_sem:
  assumes "card_ok h c" "k < length (lazyVars (tree c))"
  shows "lv_on h \<sigma> (lazyVars (tree c) ! k) = (k < count_true \<sigma> (card_lits h c))"
  using assms tot_sem unfolding card_ok_def queue_ok_def card_lits_def by fastforce

section \<open>\<open>atMost\<close> over the solver interface\<close>

context clause_sink begin

definition card_step :: "lazyvar list \<Rightarrow> 's \<Rightarrow> lazyvar list \<Rightarrow> 's \<Rightarrow> bool" where
  "card_step h s h' s' = (lv_grow h h' \<and> lv_inv h' s' \<and> frame s s' \<and>
     nvars s \<le> nvars s' \<and> clauses s \<subseteq> clauses s' \<and>
     (lv_emitted h (clauses s) \<longrightarrow> lv_emitted h' (clauses s')) \<and>
     (\<forall>\<sigma>. lv_exact h \<sigma> \<and> sat_all \<sigma> (clauses s) \<longrightarrow>
        (\<exists>\<sigma>'. agree_upto (nvars s) \<sigma> \<sigma>' \<and> lv_exact h' \<sigma>' \<and> sat_all \<sigma>' (clauses s'))))"

lemma card_step_refl: "lv_inv h s \<Longrightarrow> card_step h s h s"
  unfolding card_step_def lv_inv_def using agree_refl by (blast intro: frame_refl lv_grow_refl)

lemma card_step_trans:
  assumes "card_step h s h' s'" "card_step h' s' h'' s''"
  shows "card_step h s h'' s''"
  unfolding card_step_def
proof (intro conjI allI impI)
  fix \<sigma> assume "lv_exact h \<sigma> \<and> sat_all \<sigma> (clauses s)"
  then obtain \<sigma>' where 1: "agree_upto (nvars s) \<sigma> \<sigma>'" "lv_exact h' \<sigma>'" "sat_all \<sigma>' (clauses s')"
    using assms(1) unfolding card_step_def by blast
  then obtain \<sigma>'' where 2: "agree_upto (nvars s') \<sigma>' \<sigma>''" "lv_exact h'' \<sigma>''" "sat_all \<sigma>'' (clauses s'')"
    using assms(2) unfolding card_step_def by blast
  have "nvars s \<le> nvars s'" using assms(1) by (simp add: card_step_def)
  with 1 2 show "\<exists>\<sigma>'. agree_upto (nvars s) \<sigma> \<sigma>' \<and> lv_exact h'' \<sigma>' \<and> sat_all \<sigma>' (clauses s'')"
    by (blast intro: agree_trans)
qed (use assms in \<open>auto simp: card_step_def intro: lv_grow_trans frame_trans\<close>)

lemma lv_step_card_step: "lv_step h s h' s' \<Longrightarrow> card_step h s h' s'"
  unfolding lv_step_def card_step_def using lv_emitted_but_empty lv_le_grow by blast

lemma ext_card_step:
  assumes "lv_inv h s" "lv_ext h h'" "lv_wf h'" "lv_vars_upto (nvars s) h'"
  shows "card_step h s h' s"
proof -
  have wf: "lv_wf h" and ok: "ok s" using assms(1) by (auto simp: lv_inv_def)
  have "lv_inv h' s" using assms ok by (simp add: lv_inv_def)
  moreover have "lv_emitted h' (clauses s)" if "lv_emitted h (clauses s)"
    using lv_emitted_ext [of "{}", OF _ assms(2) wf] that by (simp add: lv_emitted_but_empty)
  moreover have "lv_exact h' \<sigma>" if "lv_exact h \<sigma>" for \<sigma> using lv_exact_ext [OF that assms(2) wf] .
  ultimately show ?thesis
    unfolding card_step_def using lv_ext_grow [OF assms(2)] frame_refl [OF ok] agree_refl by blast
qed

text \<open>A bound that is no restriction gives the literal 0 and changes nothing.\<close>

lemma card_atMost_trivial:
  "maxVars c \<le> k \<Longrightarrow> card_atMost newVar addClause k c (h, s) = Some (0, c, h, s)"
  by (simp add: card_atMost_def)

text \<open>The tree of \<open>atMost(k)\<close> before the output is fetched.\<close>

lemma card_tree_step:
  assumes inv: "lv_inv h s" and c: "card_ok h c" and k: "k < maxVars c"
  shows "\<exists>t h1 x. (if k \<ge> length (lazyVars (tree c)) then increase k (tree c) h else Some (tree c, h)) = Some (t, h1) \<and>
    card_step h s h1 s \<and> card_ok h1 (c\<lparr>tree := t\<rparr>) \<and> card_lits h1 (c\<lparr>tree := t\<rparr>) = card_lits h c \<and>
    k < length (lazyVars t) \<and> lazyVars t = lazyVars (tree c) @ x \<and> lv_ext h h1 \<and>
    (\<forall>y < length h. lv_unref h y \<longrightarrow> lv_unref h1 y) \<and> (\<forall>y \<in> set x. length h \<le> y \<and> y < length h1) \<and>
    (length (lazyVars (tree c)) \<le> k \<longrightarrow> length (lazyVars t) = Suc k) \<and>
    (\<forall>y < length h1. length h \<le> y \<longrightarrow> lv_var (h1 ! y) = None)"
proof -
  obtain K where K: "tot_ok h K (tree c)" "distinct (lazyVars (tree c))"
      "\<forall>x \<in> set (lazyVars (tree c)). lv_unref h x" "maxVars c = nof_input (tree c)"
    using c by (auto simp: card_ok_def queue_ok_def)
  have wf: "lv_wf h" "lv_vars_upto (nvars s) h" using inv by (auto simp: lv_inv_def)
  show ?thesis
  proof (cases "length (lazyVars (tree c)) \<le> k")
    case False
    then show ?thesis using card_step_refl [OF inv] c by auto
  next
    case True
    then have "K \<le> Suc k" using tot_ok_lazyVars [OF K(1)] k K(4) by auto
    then obtain t h1 x where i: "increase k (tree c) h = Some (t, h1)" "lv_build h h1" "tot_ok h1 (Suc k) t"
        "nof_input t = nof_input (tree c)" "tot_lits h1 t = tot_lits h (tree c)" "lazyVars t = lazyVars (tree c) @ x"
        "\<forall>y < length h. lv_unref h y \<longrightarrow> lv_unref h1 y" "\<forall>y \<in> set x. length h \<le> y \<and> lv_unref h1 y" "distinct x"
      using increase_ok [OF K(1) wf(1)] by blast
    have old: "\<forall>y \<in> set (lazyVars (tree c)). y < length h" using tot_ok_addr K(1) by blast
    then have "distinct (lazyVars t)" using K(2) i(6,8,9) by fastforce
    moreover have "\<forall>y \<in> set (lazyVars t). lv_unref h1 y" using K(3) i(6,7,8) old by auto
    ultimately have "card_ok h1 (c\<lparr>tree := t\<rparr>)"
      using i(3,4) K(4) by (auto simp: card_ok_def queue_ok_def)
    moreover have "card_step h s h1 s"
      using i(2) wf(2) by (intro ext_card_step [OF inv]) (auto simp: lv_build_def)
    moreover have "length (lazyVars t) = Suc k" using tot_ok_lazyVars [OF i(3)] k K(4) i(4) by simp
    moreover have "\<forall>y \<in> set x. length h \<le> y \<and> y < length h1" using i(6,8) tot_ok_addr [OF i(3)] by auto
    ultimately show ?thesis
      using True i(1,2,5,6,7) by (auto simp: card_lits_def lv_build_def)
  qed
qed

text \<open>
  \<open>atMost(k)\<close> returns the negation of output \<open>k\<close>. It creates a solver variable for that output
  at its first call and leaves every other output of a cardinality untouched.
\<close>

lemma card_atMost_ok:
  assumes inv: "lv_inv h s" and c: "card_ok h c" and k: "k < maxVars c"
  shows "\<exists>v t h' s' x. card_atMost newVar addClause k c (h, s) = Some (- v, c\<lparr>tree := t\<rparr>, h', s') \<and>
    card_step h s h' s' \<and> card_ok h' (c\<lparr>tree := t\<rparr>) \<and> card_lits h' (c\<lparr>tree := t\<rparr>) = card_lits h c \<and>
    k < length (lazyVars t) \<and> lazyVars t = lazyVars (tree c) @ x \<and>
    lv_var (h' ! (lazyVars t ! k)) = Some v \<and>
    (\<forall>y < length h. lv_unref h y \<longrightarrow> lv_unref h' y \<and> (y \<noteq> lazyVars t ! k \<longrightarrow> h' ! y = h ! y)) \<and>
    (length (lazyVars (tree c)) \<le> k \<longrightarrow> length (lazyVars t) = Suc k) \<and>
    (\<forall>y \<in> set x. length h \<le> y \<and> (y \<noteq> lazyVars t ! k \<longrightarrow> lv_var (h' ! y) = None)) \<and>
    (2 \<le> maxVars c \<and> (k < length (lazyVars (tree c)) \<longrightarrow> lv_var (h ! (lazyVars (tree c) ! k)) = None)
       \<longrightarrow> v = int (nvars s) + 1)"
proof -
  obtain t h1 x where t: "(if k \<ge> length (lazyVars (tree c)) then increase k (tree c) h else Some (tree c, h)) = Some (t, h1)"
      "card_step h s h1 s" "card_ok h1 (c\<lparr>tree := t\<rparr>)" "card_lits h1 (c\<lparr>tree := t\<rparr>) = card_lits h c"
      "k < length (lazyVars t)" "lazyVars t = lazyVars (tree c) @ x" "lv_ext h h1"
      "\<forall>y < length h. lv_unref h y \<longrightarrow> lv_unref h1 y" "\<forall>y \<in> set x. length h \<le> y \<and> y < length h1"
      "length (lazyVars (tree c)) \<le> k \<longrightarrow> length (lazyVars t) = Suc k"
      "\<forall>y < length h1. length h \<le> y \<longrightarrow> lv_var (h1 ! y) = None"
    using card_tree_step [OF inv c k] by blast
  let ?a = "lazyVars t ! k" and ?c = "c\<lparr>tree := t\<rparr>"
  have inv1: "lv_inv h1 s" using t(2) by (simp add: card_step_def)
  have a: "?a < length h1" using card_ok_addr [OF t(3)] t(5) by simp
  obtain v h' s' where g: "get (Suc (length h1)) ?a (h1, s) = Some (v, h', s')" "lv_step h1 s h' s'"
      "lv_var (h' ! ?a) = Some v" "\<forall>x. lv_unref h1 x \<and> x \<noteq> ?a \<longrightarrow> h' ! x = h1 ! x"
    using lv_get_spec [of ?a "Suc (length h1)"] inv1 a unfolding get_spec_def by (meson less_SucI)
  have le: "lv_le h1 h'" using g(2) by (simp add: lv_step_def)
  have un: "lv_unref h' y = lv_unref h1 y" for y using lv_le_unref [OF le] .
  have outs: "\<forall>y \<in> set (lazyVars t). lv_unref h1 y" using t(3) by (auto simp: card_ok_def queue_ok_def)
  have ok': "card_ok h' ?c" "card_lits h' ?c = card_lits h c"
    using card_ok_grow [OF t(3) lv_le_grow [OF le]] outs un t(4) by simp_all
  have call: "card_atMost newVar addClause k c (h, s) = Some (- v, ?c, h', s')"
    using t(1,5) g(1) k by (auto simp: card_atMost_def simp del: lv_get.simps)
  have old: "h1 ! y = h ! y" if "y < length h" for y using t(7) that by (simp add: lv_ext_def)
  have keep: "\<forall>y < length h. lv_unref h y \<longrightarrow> lv_unref h' y \<and> (y \<noteq> ?a \<longrightarrow> h' ! y = h ! y)"
    using g(4) t(8) un old by simp
  have news: "\<forall>y \<in> set x. length h \<le> y \<and> (y \<noteq> ?a \<longrightarrow> lv_var (h' ! y) = None)"
    using g(4) t(6,9,11) outs by auto
  have fresh: "v = int (nvars s) + 1"
    if "2 \<le> maxVars c" "k < length (lazyVars (tree c)) \<longrightarrow> lv_var (h ! (lazyVars (tree c) ! k)) = None"
  proof -
    have nl: "\<nexists>b. lv_impl (h1 ! ?a) = [[b]]" using card_ok_not_link [OF t(3)] that(1) t(5) by simp
    have "lv_var (h1 ! ?a) = None"
    proof (cases "k < length (lazyVars (tree c))")
      case True
      then have "?a = lazyVars (tree c) ! k" using t(6) by (simp add: nth_append)
      then show ?thesis using that(2) True old card_ok_addr [OF c True] by simp
    next
      case False
      then have "?a \<in> set x" using t(5,6) by (simp add: nth_append)
      then show ?thesis using t(9,11) by blast
    qed
    then show ?thesis using lv_get_new [OF inv1 a _ nl g(1)] by blast
  qed
  show ?thesis
    using call card_step_trans [OF t(2) lv_step_card_step [OF g(2)]] ok' t(5,6,10) g(3) keep news fresh
    by blast
qed

end

end
