(* ===== verification/Std_Containers.thy ===== *)
theory Std_Containers
  imports Prelude
begin

text \<open>
  The parts of \<open>std::set<int>\<close> and \<open>std::map<t_weight, std::set<int>>\<close> the program uses. A set is
  a strictly increasing list, a map an association list with strictly increasing keys, so that
  iteration order is the order of the list and \<open>rbegin()\<close> is its last element.

  The locale \<open>bucket_index\<close> is the contract the solver relies on for \<open>_mapWeight2Assum\<close>: an
  index from weights to sets of literals. The lemmas about an index that mirrors a weight function
  are proved once inside it and the sorted lists interpret it.
\<close>

section \<open>\<open>std::set<int>\<close>\<close>

abbreviation increasing :: "int list \<Rightarrow> bool" where
  "increasing \<equiv> sorted_wrt (<)"

definition set_insert :: "int \<Rightarrow> int list \<Rightarrow> int list" where
  "set_insert x xs = (if x \<in> set xs then xs else insort x xs)"

definition set_erase :: "int \<Rightarrow> int list \<Rightarrow> int list" where
  "set_erase x xs = remove1 x xs"

definition set_count :: "int \<Rightarrow> int list \<Rightarrow> bool" where
  "set_count x xs = List.member xs x"

lemma set_set_insert [simp]: "set (set_insert x xs) = insert x (set xs)"
  by (auto simp: set_insert_def set_insort_key)

lemma strict_set_insert: "increasing xs \<Longrightarrow> increasing (set_insert x xs)"
  by (auto simp: set_insert_def strict_sorted_iff sorted_insort distinct_insort)

lemma set_set_erase [simp]: "increasing xs \<Longrightarrow> set (set_erase x xs) = set xs - {x}"
  by (simp add: set_erase_def strict_sorted_iff)

lemma strict_set_erase: "increasing xs \<Longrightarrow> increasing (set_erase x xs)"
  by (simp add: set_erase_def strict_sorted_iff sorted_remove1)

lemma set_count_iff [simp]: "set_count x xs = (x \<in> set xs)"
  by (simp add: set_count_def)

text \<open>Strictly increasing lists are determined by their elements.\<close>

lemma strict_sorted_unique:
  "increasing (xs :: int list) \<Longrightarrow> increasing ys \<Longrightarrow> set xs = set ys \<Longrightarrow> xs = ys"
  by (rule strict_sorted_equal)

section \<open>\<open>std::map<t_weight, std::set<int>>\<close>\<close>

type_synonym weight_map = "(int \<times> int list) list"

text \<open>\<open>m[k]\<close> followed by an operation on the set found there; a missing key is inserted.\<close>

fun map_at_upd :: "int \<Rightarrow> (int list \<Rightarrow> int list) \<Rightarrow> weight_map \<Rightarrow> weight_map" where
  "map_at_upd k f [] = [(k, f [])]"
| "map_at_upd k f ((k', v) # m) =
     (if k < k' then (k, f []) # (k', v) # m
      else if k = k' then (k, f v) # m
      else (k', v) # map_at_upd k f m)"

definition map_at :: "weight_map \<Rightarrow> int \<Rightarrow> int list" where
  "map_at m k = (case map_of m k of None \<Rightarrow> [] | Some v \<Rightarrow> v)"

definition map_erase_key :: "int \<Rightarrow> weight_map \<Rightarrow> weight_map" where
  "map_erase_key k m = filter (\<lambda>(k', v). k' \<noteq> k) m"

definition map_insert_at :: "int \<Rightarrow> int \<Rightarrow> weight_map \<Rightarrow> weight_map" where
  "map_insert_at k x m = map_at_upd k (set_insert x) m"

definition map_erase_at :: "int \<Rightarrow> int \<Rightarrow> weight_map \<Rightarrow> weight_map" where
  "map_erase_at k x m = map_at_upd k (set_erase x) m"

text \<open>Sorted keys, sorted sets, and no key 0: a soft literal has a positive weight.\<close>

definition map_wf :: "weight_map \<Rightarrow> bool" where
  "map_wf m = (increasing (map fst m) \<and> (\<forall>(k, v) \<in> set m. 0 < k \<and> increasing v))"

lemma map_at_upd_keys: "set (map fst (map_at_upd k f m)) = insert k (set (map fst m))"
  by (induction k f m rule: map_at_upd.induct) auto

lemma map_at_upd_strict:
  "increasing (map fst m) \<Longrightarrow> increasing (map fst (map_at_upd k f m))"
proof (induction k f m rule: map_at_upd.induct)
  case (2 k f k' v m)
  then show ?case
    using map_at_upd_keys [of k f m] by (auto simp: less_trans)
qed simp

lemma map_at_upd_vals:
  assumes "\<And>v. increasing v \<Longrightarrow> increasing (f v)" "\<forall>(k, v) \<in> set m. 0 < k \<and> increasing v" "0 < k"
  shows "\<forall>(k, v) \<in> set (map_at_upd k f m). 0 < k \<and> increasing v"
  using assms by (induction k f m rule: map_at_upd.induct) auto

lemma map_at_not_key: "k \<notin> set (map fst m) \<Longrightarrow> map_at m k = []"
  unfolding map_at_def by (metis map_of_eq_None_iff option.simps(4) set_map)

lemma map_at_upd_at:
  "increasing (map fst m) \<Longrightarrow> map_at (map_at_upd k f m) j = (if j = k then f (map_at m k) else map_at m j)"
proof (induction k f m rule: map_at_upd.induct)
  case (2 k f k' v m)
  have "map_at ((k', v) # m) k = []" if "k < k'"
    using 2(2) that by (intro map_at_not_key) auto
  with 2 show ?case by (auto simp: map_at_def)
qed (simp add: map_at_def)

lemma map_wf_at: "map_wf m \<Longrightarrow> increasing (map_at m k)"
  unfolding map_wf_def map_at_def using map_of_SomeD by (fastforce split: option.split)

lemma map_wf_insert: "map_wf m \<Longrightarrow> 0 < k \<Longrightarrow> map_wf (map_insert_at k x m)"
  unfolding map_wf_def map_insert_at_def
  using map_at_upd_strict map_at_upd_vals [of "set_insert x"] strict_set_insert by blast

lemma map_wf_erase: "map_wf m \<Longrightarrow> 0 < k \<Longrightarrow> map_wf (map_erase_at k x m)"
  unfolding map_wf_def map_erase_at_def
  using map_at_upd_strict map_at_upd_vals [of "set_erase x"] strict_set_erase by blast

lemma map_wf_erase_key: "map_wf m \<Longrightarrow> map_wf (map_erase_key k m)"
  unfolding map_wf_def map_erase_key_def
  by (auto simp: strict_sorted_iff intro: sorted_wrt_filter distinct_map_filter) 
    (simp add: sorted_filter)

lemma map_wf_at_insert:
  "map_wf m \<Longrightarrow> set (map_at (map_insert_at k x m) j) = (if j = k then insert x (set (map_at m k)) else set (map_at m j))"
  by (simp add: map_wf_def map_insert_at_def map_at_upd_at)

lemma map_wf_at_erase:
  "map_wf m \<Longrightarrow> set (map_at (map_erase_at k x m) j) = (if j = k then set (map_at m k) - {x} else set (map_at m j))"
  using map_wf_at [of m k] by (simp add: map_wf_def map_erase_at_def map_at_upd_at)

lemma map_at_erase_key: "map_at (map_erase_key k m) j = (if j = k then [] else map_at m j)"
  by (induction m) (auto simp: map_at_def map_erase_key_def)

lemma map_at_in: "map_wf m \<Longrightarrow> (k, v) \<in> set m \<Longrightarrow> map_at m k = v"
  by (simp add: map_at_def map_wf_def strict_sorted_iff)

lemma map_in_at: "x \<in> set (map_at m k) \<Longrightarrow> (k, map_at m k) \<in> set m"
  unfolding map_at_def using map_of_SomeD by (fastforce split: option.splits)

section \<open>An index of literals by weight\<close>

text \<open>
  A weight function is odd: the weight of \<open>-l\<close> is minus the weight of \<open>l\<close>. Setting the weight
  of a literal sets that of its negation.
\<close>

definition wt_set :: "int \<Rightarrow> int \<Rightarrow> (int \<Rightarrow> int) \<Rightarrow> int \<Rightarrow> int" where
  "wt_set l w f = f(l := w, - l := - w)"

locale bucket_index =
  fixes bucket :: "'m \<Rightarrow> int \<Rightarrow> int set"
    and insert_at :: "int \<Rightarrow> int \<Rightarrow> 'm \<Rightarrow> 'm"
    and erase_at :: "int \<Rightarrow> int \<Rightarrow> 'm \<Rightarrow> 'm"
    and wf :: "'m \<Rightarrow> bool"
  assumes wf_insert: "wf m \<Longrightarrow> 0 < k \<Longrightarrow> wf (insert_at k x m)"
    and wf_erase: "wf m \<Longrightarrow> 0 < k \<Longrightarrow> wf (erase_at k x m)"
    and bucket_insert:
      "wf m \<Longrightarrow> bucket (insert_at k x m) j = (if j = k then insert x (bucket m k) else bucket m j)"
    and bucket_erase:
      "wf m \<Longrightarrow> bucket (erase_at k x m) j = (if j = k then bucket m k - {x} else bucket m j)"
begin

text \<open>The index holds exactly the literals of positive weight, each under its weight.\<close>

definition mirrors :: "'m \<Rightarrow> (int \<Rightarrow> int) \<Rightarrow> bool" where
  "mirrors m f = (wf m \<and> (\<forall>l. f (- l) = - f l) \<and> (\<forall>w l. l \<in> bucket m w \<longleftrightarrow> l \<noteq> 0 \<and> 0 < w \<and> f l = w))"

lemma mirrors_wf: "mirrors m f \<Longrightarrow> wf m"
  by (simp add: mirrors_def)

lemma mirrors_bucket: "mirrors m f \<Longrightarrow> l \<in> bucket m w \<longleftrightarrow> l \<noteq> 0 \<and> 0 < w \<and> f l = w"
  by (simp add: mirrors_def)

lemma mirrors_odd: "mirrors m f \<Longrightarrow> f (- l) = - f l"
  by (simp add: mirrors_def)

lemma mirrors_insert:
  assumes "mirrors m f" "f l = 0" "l \<noteq> 0" "0 < w"
  shows "mirrors (insert_at w l m) (wt_set l w f)"
proof -
  have "f (- l) = 0" using mirrors_odd [OF assms(1), of l] assms(2) by simp
  with assms show ?thesis
    unfolding mirrors_def wt_set_def by (auto simp: wf_insert bucket_insert)
qed

lemma mirrors_erase:
  assumes "mirrors m f" "0 < f l" "l \<noteq> 0"
  shows "mirrors (erase_at (f l) l m) (wt_set l 0 f)"
proof -
  have "f (- l) = - f l" using mirrors_odd [OF assms(1), of l] by simp
  with assms show ?thesis
    unfolding mirrors_def wt_set_def by (auto simp: wf_erase bucket_erase)
qed

lemma mirrors_move:
  assumes "mirrors m f" "0 < f l" "l \<noteq> 0" "0 < w"
  shows "mirrors (insert_at w l (erase_at (f l) l m)) (wt_set l w f)"
proof -
  have "mirrors (insert_at w l (erase_at (f l) l m)) (wt_set l w (wt_set l 0 f))"
    using assms mirrors_erase by (intro mirrors_insert) (auto simp: wt_set_def)
  then show ?thesis by (simp add: wt_set_def fun_upd_twist)
qed

end

interpretation wm: bucket_index "\<lambda>m k. set (map_at m k)" map_insert_at map_erase_at map_wf
  by unfold_locales (simp_all add: map_wf_insert map_wf_erase map_wf_at_insert map_wf_at_erase)

end
