(* ===== verification/Weight_Vector.thy ===== *)
theory Weight_Vector
  imports Std_Containers "HOL-Library.Word"
begin

unbundle bit_operations_syntax

text \<open>
  \<open>lib/EvalMaxSAT/src/utile.h\<close>, lines 12 to 121: the weight vector indexed by literals, and
  \<open>doublevector\<close>.

  \<open>WeightVector\<close> appears at two levels. The machine level works on \<open>64 word\<close> weights and
  \<open>32 word\<close> literals and keeps the branch-free sign trick of \<open>operator[]\<close>. The model level works
  on integers. The lemmas \<open>wvw_get_refines\<close>, \<open>wvw_set_refines\<close> and \<open>wvw_add_refines\<close>
  relate them: reading a machine vector as signed integers commutes with every operation as long as no
  weight leaves the range of \<open>long long\<close>.
\<close>

section \<open>The model level\<close>

definition wv_get :: "int list \<Rightarrow> int \<Rightarrow> int option" where
  "wv_get ws lit =
     (if nat \<bar>lit\<bar> < length ws then Some (if lit < 0 then - (ws ! nat \<bar>lit\<bar>) else ws ! nat \<bar>lit\<bar>) else None)"

definition wv_set :: "int \<Rightarrow> int \<Rightarrow> int list \<Rightarrow> int list option" where
  "wv_set lit weight ws =
     (if nat \<bar>lit\<bar> < length ws then
        Some (if lit < 0 then ws[nat (- lit) := - weight] else ws[nat lit := weight])
      else None)"

definition wv_add :: "int \<Rightarrow> int \<Rightarrow> int list \<Rightarrow> int list option" where
  "wv_add lit weight ws =
     (if nat \<bar>lit\<bar> < length ws then
        Some (if lit < 0 then ws[nat (- lit) := ws ! nat (- lit) + - weight]
              else ws[nat lit := ws ! nat lit + weight])
      else None)"

definition wv_push_back :: "int \<Rightarrow> int list \<Rightarrow> int list" where
  "wv_push_back v ws = ws @ [v]"

definition wv_resize :: "nat \<Rightarrow> int list \<Rightarrow> int list" where
  "wv_resize n ws = take n ws @ replicate (n - length ws) 0"

text \<open>The weight of a literal as a total function: 0 outside the vector.\<close>

definition wt :: "int list \<Rightarrow> int \<Rightarrow> int" where
  "wt ws l = (case wv_get ws l of None \<Rightarrow> 0 | Some w \<Rightarrow> w)"

lemma wv_get_wt: "nat \<bar>l\<bar> < length ws \<Longrightarrow> wv_get ws l = Some (wt ws l)"
  by (simp add: wt_def wv_get_def)

lemma wv_get_None: "wv_get ws l = None \<longleftrightarrow> length ws \<le> nat \<bar>l\<bar>"
  by (simp add: wv_get_def not_less)

lemma wt_out: "length ws \<le> nat \<bar>l\<bar> \<Longrightarrow> wt ws l = 0"
  by (simp add: wt_def wv_get_def)

lemma wt_nonzero_in: "wt ws l \<noteq> 0 \<Longrightarrow> nat \<bar>l\<bar> < length ws"
  by (metis wt_out not_less)

lemma wt_nat: "v < length ws \<Longrightarrow> wt ws (int v) = ws ! v"
  by (simp add: wt_def wv_get_def)

lemma wt_nth: "nat \<bar>l\<bar> < length ws \<Longrightarrow> ws ! nat \<bar>l\<bar> = (if l < 0 then - wt ws l else wt ws l)"
  unfolding wt_def wv_get_def by (cases "l < 0") (simp_all only: if_True if_False option.case minus_minus)

lemma wt_neg: "ws ! 0 = 0 \<Longrightarrow> wt ws (- l) = - wt ws l"
  by (auto simp: wt_def wv_get_def)

lemma wt_0: "ws ! 0 = 0 \<Longrightarrow> wt ws 0 = 0"
  by (simp add: wt_def wv_get_def)

lemma wv_set_Some: "nat \<bar>l\<bar> < length ws \<Longrightarrow> \<exists>ws'. wv_set l w ws = Some ws'"
  by (simp add: wv_set_def)

lemma wv_set_length: "wv_set l w ws = Some ws' \<Longrightarrow> length ws' = length ws"
  by (auto simp: wv_set_def split: if_splits)

lemma wv_set_nth:
  "wv_set l w ws = Some ws' \<Longrightarrow>
     ws' = ws[nat \<bar>l\<bar> := (if l < 0 then - w else w)] \<and> nat \<bar>l\<bar> < length ws"
  by (auto simp: wv_set_def split: if_splits)

lemma wv_set_wt:
  assumes "wv_set l w ws = Some ws'" "l \<noteq> 0"
  shows "wt ws' = wt_set l w (wt ws)"
proof
  fix x
  have "nat \<bar>l\<bar> < length ws" and ws': "ws' = ws[nat \<bar>l\<bar> := (if l < 0 then - w else w)]"
    using wv_set_nth [OF assms(1)] by blast+
  moreover have "nat \<bar>x\<bar> = nat \<bar>l\<bar> \<longleftrightarrow> x = l \<or> x = - l" by linarith
  ultimately show "wt ws' x = wt_set l w (wt ws) x"
    using assms(2) by (auto simp: wt_def wv_get_def wt_set_def)
qed

lemma wv_add_set:
  assumes "nat \<bar>l\<bar> < length ws"
  shows "wv_add l w ws = wv_set l (wt ws l + w) ws"
  using assms by (simp add: wv_add_def wv_set_def wt_def wv_get_def)

lemma wt_push: "wt (wv_push_back v ws) l =
    (if nat \<bar>l\<bar> = length ws then if l < 0 then - v else v else wt ws l)"
  by (auto simp: wt_def wv_get_def wv_push_back_def nth_append)

lemma wt_zeros [simp]: "wt (ws @ replicate k 0) = wt ws"
  by (auto simp: fun_eq_iff wt_def wv_get_def nth_append)

text \<open>Reading back what was stored, on either side of the sign.\<close>

lemma wv_get_set:
  assumes "wv_set l w ws = Some ws'"
  shows "wv_get ws' l = Some w" and "l \<noteq> 0 \<Longrightarrow> wv_get ws' (- l) = Some (- w)"
    and "\<bar>x\<bar> \<noteq> \<bar>l\<bar> \<Longrightarrow> wv_get ws' x = wv_get ws x"
  using wv_set_nth [OF assms] by (auto simp: wv_get_def)

section \<open>The machine level\<close>

text \<open>
  \<open>(_weight[abs(lit)] ^ (lit >> 31)) - (lit >> 31)\<close>: the arithmetic shift of the 32-bit literal is
  0 or -1, and is sign extended to 64 bits by the usual conversions.
\<close>

definition sign_mask :: "32 word \<Rightarrow> 64 word" where
  "sign_mask lit = signed (signed_drop_bit 31 lit)"

definition abs_index :: "32 word \<Rightarrow> nat" where
  "abs_index lit = nat \<bar>sint lit\<bar>"

definition wvw_get :: "64 word list \<Rightarrow> 32 word \<Rightarrow> 64 word option" where
  "wvw_get ws lit =
     (if abs_index lit < length ws
      then Some ((ws ! abs_index lit XOR sign_mask lit) - sign_mask lit) else None)"

definition wvw_set :: "32 word \<Rightarrow> 64 word \<Rightarrow> 64 word list \<Rightarrow> 64 word list option" where
  "wvw_set lit weight ws =
     (if abs_index lit < length ws then
        Some (if sint lit < 0 then ws[nat (sint (- lit)) := - weight] else ws[nat (sint lit) := weight])
      else None)"

definition wvw_add :: "32 word \<Rightarrow> 64 word \<Rightarrow> 64 word list \<Rightarrow> 64 word list option" where
  "wvw_add lit weight ws =
     (if abs_index lit < length ws then
        Some (if sint lit < 0 then ws[nat (sint (- lit)) := ws ! nat (sint (- lit)) + - weight]
              else ws[nat (sint lit) := ws ! nat (sint lit) + weight])
      else None)"

text \<open>The range of a \<open>long long\<close> without its least value, which has no negation.\<close>

definition ll_range :: "int \<Rightarrow> bool" where
  "ll_range x = (- 9223372036854775808 < x \<and> x < 9223372036854775808)"

lemma sign_mask_eq: "sign_mask lit = (if sint lit < 0 then - 1 else 0)"
proof -
  have "bit lit 31 = (sint lit < 0)" using bit_last_iff [of lit] by simp
  moreover have "signed_drop_bit 31 lit = (if bit lit 31 then - 1 else 0)"
    by (rule bit_word_eqI) (auto simp: bit_signed_drop_bit_iff not_le)
  ultimately show ?thesis by (simp add: sign_mask_def)
qed

text \<open>The exclusive or with the mask followed by the subtraction is a conditional negation.\<close>

lemma xor_sub_mask: "(w XOR sign_mask lit) - sign_mask lit = (if sint lit < 0 then - w else w)"
proof (cases "sint lit < 0")
  case True
  then have "(w XOR sign_mask lit) - sign_mask lit = NOT w + 1" by (simp add: sign_mask_eq)
  also have "\<dots> = - w" by (simp add: minus_eq_not_plus_1)
  finally show ?thesis using True by simp
qed (simp add: sign_mask_eq)

lemma sint_uminus: "ll_range (sint (w :: 64 word)) \<Longrightarrow> sint (- w) = - sint w"
  by (simp add: ll_range_def sint_word_ariths signed_take_bit_int_eq_self)

lemma sint_plus: "ll_range (sint (v :: 64 word) + sint w) \<Longrightarrow> sint (v + w) = sint v + sint w"
  by (simp add: ll_range_def sint_word_ariths signed_take_bit_int_eq_self)

lemma sint_uminus_lit:
  assumes "sint (lit :: 32 word) \<noteq> - 2147483648"
  shows "sint (- lit) = - sint lit"
proof -
  have "- 2147483648 \<le> sint lit" "sint lit < 2147483648"
    using sint_greater_eq [of lit] sint_less [of lit] by simp_all
  with assms show ?thesis by (simp add: sint_word_ariths signed_take_bit_int_eq_self)
qed

lemma abs_index_neg:
  "sint lit \<noteq> - 2147483648 \<Longrightarrow> sint lit < 0 \<Longrightarrow> nat (sint (- lit)) = abs_index lit"
  by (simp add: sint_uminus_lit abs_index_def)

lemma abs_index_pos: "\<not> sint lit < 0 \<Longrightarrow> nat (sint lit) = abs_index lit"
  by (simp add: abs_index_def)

lemma wvw_get_refines:
  assumes "\<forall>w \<in> set ws. ll_range (sint w)"
  shows "map_option sint (wvw_get ws lit) = wv_get (map sint ws) (sint lit)"
  using assms by (simp add: wvw_get_def wv_get_def xor_sub_mask abs_index_def sint_uminus)

lemma wvw_set_refines:
  assumes "sint lit \<noteq> - 2147483648" "ll_range (sint w)"
  shows "map_option (map sint) (wvw_set lit w ws) = wv_set (sint lit) (sint w) (map sint ws)"
  using assms abs_index_neg [OF assms(1)] abs_index_pos [of lit]
  by (simp add: wvw_set_def wv_set_def map_update sint_uminus) (simp add: abs_index_def)

lemma wvw_add_refines:
  assumes "sint lit \<noteq> - 2147483648" "ll_range (sint w)"
    and "\<forall>x \<in> set ws. ll_range (sint x + sint w) \<and> ll_range (sint x - sint w)"
  shows "map_option (map sint) (wvw_add lit w ws) = wv_add (sint lit) (sint w) (map sint ws)"
proof -
  have "sint (x + - w) = sint x + - sint w" "sint (x + w) = sint x + sint w" if "x \<in> set ws" for x
    using assms(2,3) that sint_plus [of x "- w"] sint_plus [of x w] by (simp_all add: sint_uminus)
  then show ?thesis
    using abs_index_neg [OF assms(1)] abs_index_pos [of lit]
    by (simp add: wvw_add_def wv_add_def map_update) (simp add: abs_index_def)
qed

section \<open>\<open>doublevector\<close>\<close>

text \<open>
  A vector indexed by integers of both signs. \<open>back\<close> and \<open>pop_back\<close> on an empty
  non-negative side use slot 0 of the negative side, which \<open>add\<close> never writes to.
\<close>

record 'a doublevector =
  posIndexVector :: "'a list"
  negIndexVector :: "'a list"

definition resize_with :: "'a \<Rightarrow> nat \<Rightarrow> 'a list \<Rightarrow> 'a list" where
  "resize_with d n xs = take n xs @ replicate (n - length xs) d"

definition dv_push_back :: "'a \<Rightarrow> 'a doublevector \<Rightarrow> 'a doublevector" where
  "dv_push_back v d = d\<lparr>posIndexVector := posIndexVector d @ [v]\<rparr>"

definition dv_back :: "'a doublevector \<Rightarrow> 'a option" where
  "dv_back d =
     (if posIndexVector d \<noteq> [] then Some (last (posIndexVector d))
      else case negIndexVector d of [] \<Rightarrow> None | x # _ \<Rightarrow> Some x)"

definition dv_pop_back :: "'a doublevector \<Rightarrow> 'a doublevector option" where
  "dv_pop_back d =
     (if posIndexVector d \<noteq> [] then Some (d\<lparr>posIndexVector := butlast (posIndexVector d)\<rparr>)
      else case negIndexVector d of [] \<Rightarrow> None | _ # xs \<Rightarrow> Some (d\<lparr>negIndexVector := xs\<rparr>))"

definition dv_add :: "'a \<Rightarrow> int \<Rightarrow> 'a \<Rightarrow> 'a doublevector \<Rightarrow> 'a doublevector" where
  "dv_add dflt index val d =
     (if index \<ge> 0 then
        let v = posIndexVector d;
            v = (if nat index \<ge> length v then resize_with dflt (nat index + 1) v else v)
        in d\<lparr>posIndexVector := v[nat index := val]\<rparr>
      else
        let v = negIndexVector d;
            v = (if nat (- index) \<ge> length v then resize_with dflt (nat (- index) + 1) v else v)
        in d\<lparr>negIndexVector := v[nat (- index) := val]\<rparr>)"

definition dv_index :: "'a doublevector \<Rightarrow> int \<Rightarrow> 'a option" where
  "dv_index d index =
     (if index \<ge> 0 then
        if nat index < length (posIndexVector d) then Some (posIndexVector d ! nat index) else None
      else
        if nat (- index) < length (negIndexVector d) then Some (negIndexVector d ! nat (- index)) else None)"

definition dv_get :: "'a \<Rightarrow> int \<Rightarrow> 'a doublevector \<Rightarrow> 'a \<times> 'a doublevector" where
  "dv_get dflt index d =
     (if index \<ge> 0 then
        let v = posIndexVector d;
            v = (if nat index \<ge> length v then resize_with dflt (nat index + 1) v else v)
        in (v ! nat index, d\<lparr>posIndexVector := v\<rparr>)
      else
        let v = negIndexVector d;
            v = (if nat (- index) \<ge> length v then resize_with dflt (nat (- index) + 1) v else v)
        in (v ! nat (- index), d\<lparr>negIndexVector := v\<rparr>))"

lemma resize_with_nth:
  "i < n \<Longrightarrow> resize_with d n xs ! i = (if i < length xs then xs ! i else d)"
  by (auto simp: resize_with_def nth_append)

lemma resize_with_length [simp]: "length (resize_with d n xs) = n"
  by (auto simp: resize_with_def)

text \<open>What \<open>add\<close> stores is what \<open>[]\<close> and \<open>get\<close> find; other slots that existed keep their value.\<close>

lemma dv_index_add: "dv_index (dv_add dflt i x d) i = Some x"
  by (auto simp: dv_add_def dv_index_def Let_def)

lemma dv_get_add: "fst (dv_get dflt i (dv_add dflt i x d)) = x"
  by (auto simp: dv_add_def dv_get_def Let_def)

lemma dv_index_add_other:
  "j \<noteq> i \<Longrightarrow> dv_index d j = Some y \<Longrightarrow> dv_index (dv_add dflt i x d) j = Some y"
  by (cases "0 \<le> i"; cases "0 \<le> j")
    (simp_all add: dv_add_def dv_index_def Let_def resize_with_nth nth_list_update split: if_splits)

end
