(* ===== verification/Cadical.thy ===== *)
theory Cadical
  imports Prelude
begin

text \<open>
  The programming interface of the SAT solver CaDiCaL as \<open>lib/cadical/src/solver.cpp\<close>,
  \<open>external.cpp\<close> and \<open>limit.cpp\<close> implement it: the states of the interface, the clause under
  construction, the assumptions and the limits of the next call, and when each of them is reset.

  The search itself (\<open>Internal::solve\<close> and the unit propagation of
  \<open>Internal::find_up_implicants\<close>) is not modelled. It is a parameter, the record \<open>engine\<close>: its
  answers are functions of the clauses added so far, the assumptions, the limits and the number of
  earlier calls (so a repeated call may be answered differently). \<open>engine_ok\<close> states what the
  documentation of CaDiCaL promises about the answers; \<open>engine_live\<close> states that a call without
  limits is eventually answered. A brute-force engine shows that both can hold.
\<close>

section \<open>The search engine as a parameter\<close>

datatype answer =
    Sat "bool list"
  | Unsat "int list"
  | NoAnswer

record engine =
  e_solve :: "nat \<Rightarrow> clause list \<Rightarrow> int list \<Rightarrow> int \<Rightarrow> bool \<Rightarrow> answer"
  e_propagate :: "nat \<Rightarrow> clause list \<Rightarrow> int list \<Rightarrow> int list option"

text \<open>The assignment of a vector of values: variables beyond its end are false.\<close>

definition model_of :: "bool list \<Rightarrow> asg" where
  "model_of m v = (0 \<le> v \<and> nat v < length m \<and> m ! nat v)"

definition satisfies :: "asg \<Rightarrow> clause list \<Rightarrow> int list \<Rightarrow> bool" where
  "satisfies \<sigma> F A = (sat_all \<sigma> (set F) \<and> (\<forall>a \<in> set A. lit_true \<sigma> a))"

definition answer_ok :: "clause list \<Rightarrow> int list \<Rightarrow> answer \<Rightarrow> bool" where
  "answer_ok F A r = (case r of
     Sat m \<Rightarrow> satisfies (model_of m) F A
   | Unsat fs \<Rightarrow> set fs \<subseteq> set A \<and> (\<forall>\<sigma>. \<not> satisfies \<sigma> F fs)
   | NoAnswer \<Rightarrow> True)"

text \<open>
  The literals reported by unit propagation are consequences, each reported once and only when it
  was not already assigned at the root level. They are read off the trail, so no assumption and no
  negation of one is among them.
\<close>

definition propagate_ok :: "clause list \<Rightarrow> int list \<Rightarrow> int list option \<Rightarrow> bool" where
  "propagate_ok F A r = (case r of
     None \<Rightarrow> \<forall>\<sigma>. \<not> satisfies \<sigma> F A
   | Some ls \<Rightarrow> distinct ls \<and> (\<forall>l \<in> set ls. l \<noteq> 0 \<and> l \<notin> set A \<and> - l \<notin> set A \<and> [l] \<notin> set F \<and>
        (\<exists>c \<in> set F. l \<in> set c \<or> - l \<in> set c) \<and> (\<forall>\<sigma>. satisfies \<sigma> F A \<longrightarrow> lit_true \<sigma> l)))"

definition engine_ok :: "engine \<Rightarrow> bool" where
  "engine_ok E = ((\<forall>n F A k t. answer_ok F A (e_solve E n F A k t)) \<and>
     (\<forall>n F A. propagate_ok F A (e_propagate E n F A)))"

definition engine_live :: "engine \<Rightarrow> bool" where
  "engine_live E = (\<forall>n F A. \<exists>m \<ge> n. e_solve E m F A (- 1) False \<noteq> NoAnswer)"

section \<open>The interface\<close>

text \<open>
  The states between two calls; \<open>INITIALIZING\<close>, \<open>SOLVING\<close> and \<open>DELETING\<close> hold only inside the
  constructor, \<open>solve\<close> and the destructor.
\<close>

datatype cstate = CONFIGURING | UNKNOWN | ADDING | SATISFIED | UNSATISFIED

record cadical =
  c_state :: cstate
  c_clauses :: "clause list"
  c_adding :: "int list"
  c_assumptions :: "int list"
  c_conflicts :: int
  c_timeout :: bool
  c_calls :: nat
  c_answer :: answer

definition cad_new :: cadical where
  "cad_new = \<lparr>c_state = CONFIGURING, c_clauses = [], c_adding = [], c_assumptions = [],
     c_conflicts = - 1, c_timeout = False, c_calls = 0, c_answer = NoAnswer\<rparr>"

definition ready :: "cstate \<Rightarrow> bool" where
  "ready st = (st \<noteq> ADDING)"

definition transition_to_unknown_state :: "cadical \<Rightarrow> cadical" where
  "transition_to_unknown_state c =
     (if c_state c = SATISFIED \<or> c_state c = UNSATISFIED
      then c\<lparr>c_state := UNKNOWN, c_assumptions := []\<rparr>
      else c\<lparr>c_state := UNKNOWN\<rparr>)"

definition cad_add :: "int \<Rightarrow> cadical \<Rightarrow> cadical" where
  "cad_add lit c =
     (let c = transition_to_unknown_state c
      in if lit \<noteq> 0 then c\<lparr>c_adding := c_adding c @ [lit], c_state := ADDING\<rparr>
         else c\<lparr>c_clauses := c_clauses c @ [c_adding c], c_adding := [], c_state := UNKNOWN\<rparr>)"

definition cad_assume :: "int \<Rightarrow> cadical \<Rightarrow> cadical" where
  "cad_assume lit c =
     (let c = transition_to_unknown_state c in c\<lparr>c_assumptions := c_assumptions c @ [lit]\<rparr>)"

definition cad_reset_assumptions :: "cadical \<Rightarrow> cadical" where
  "cad_reset_assumptions c = (transition_to_unknown_state c)\<lparr>c_assumptions := []\<rparr>"

definition cad_limit_conflicts :: "int \<Rightarrow> cadical \<Rightarrow> cadical" where
  "cad_limit_conflicts l c = c\<lparr>c_conflicts := (if l < 0 then - 1 else l)\<rparr>"

text \<open>\<open>setTimeout(seconds)\<close>; only whether a time limit is set is kept.\<close>

definition cad_setTimeout :: "bool \<Rightarrow> cadical \<Rightarrow> cadical" where
  "cad_setTimeout limited c = c\<lparr>c_timeout := limited\<rparr>"

definition cad_reset_limits :: "cadical \<Rightarrow> cadical" where
  "cad_reset_limits c = cad_setTimeout False (cad_limit_conflicts (- 1) c)"

text \<open>\<open>Solver::solve\<close>: 10 for satisfiable, 20 for unsatisfiable, 0 when a limit was hit.\<close>

definition cad_solve :: "engine \<Rightarrow> cadical \<Rightarrow> (int \<times> cadical) option" where
  "cad_solve E c =
     (if \<not> ready (c_state c) then None
      else
        let c = transition_to_unknown_state c;
            r = e_solve E (c_calls c) (c_clauses c) (c_assumptions c) (c_conflicts c) (c_timeout c);
            c = cad_reset_limits (c\<lparr>c_calls := Suc (c_calls c), c_answer := r\<rparr>)
        in Some (case r of
             Sat m \<Rightarrow> (10, c\<lparr>c_state := SATISFIED\<rparr>)
           | Unsat fs \<Rightarrow> (20, c\<lparr>c_state := UNSATISFIED\<rparr>)
           | NoAnswer \<Rightarrow> (0, c\<lparr>c_state := UNKNOWN, c_assumptions := []\<rparr>)))"

definition cad_find_up_implicants :: "engine \<Rightarrow> int list \<Rightarrow> cadical \<Rightarrow> (int list option \<times> cadical) option" where
  "cad_find_up_implicants E antecedents c =
     (if \<not> ready (c_state c) then None
      else
        let c = transition_to_unknown_state c;
            c = fold cad_assume antecedents c;
            r = e_propagate E (c_calls c) (c_clauses c) (c_assumptions c);
            c = cad_reset_limits (c\<lparr>c_calls := Suc (c_calls c)\<rparr>)
        in Some (r, transition_to_unknown_state (c\<lparr>c_assumptions := []\<rparr>)))"

definition cad_failed :: "int \<Rightarrow> cadical \<Rightarrow> bool option" where
  "cad_failed lit c =
     (if c_state c \<noteq> UNSATISFIED then None
      else case c_answer c of Unsat fs \<Rightarrow> Some (lit \<in> set fs) | _ \<Rightarrow> None)"

definition cad_getSolution :: "cadical \<Rightarrow> bool list option" where
  "cad_getSolution c =
     (if c_state c \<noteq> SATISFIED then None
      else case c_answer c of Sat m \<Rightarrow> Some m | _ \<Rightarrow> None)"

text \<open>\<open>val(lit)\<close>: the literal itself when it is true, its negation otherwise.\<close>

definition cad_val :: "int \<Rightarrow> cadical \<Rightarrow> int option" where
  "cad_val lit c =
     (if c_state c \<noteq> SATISFIED then None
      else case c_answer c of
        Sat m \<Rightarrow> Some (if lit_true (model_of m) lit then lit else - lit) | _ \<Rightarrow> None)"

section \<open>Between two calls\<close>

text \<open>No clause is under construction, no limit is pending, and no assumption either.\<close>

definition cad_idle :: "cadical \<Rightarrow> bool" where
  "cad_idle c = (c_adding c = [] \<and> c_state c \<noteq> ADDING \<and> c_conflicts c = - 1 \<and> \<not> c_timeout c \<and>
     (c_state c = CONFIGURING \<or> c_state c = UNKNOWN \<longrightarrow> c_assumptions c = []) \<and>
     (c_state c = SATISFIED \<longrightarrow> (\<exists>m. c_answer c = Sat m)) \<and>
     (c_state c = UNSATISFIED \<longrightarrow> (\<exists>fs. c_answer c = Unsat fs)))"

lemma cad_new_idle [simp]: "cad_idle cad_new"
  by (simp add: cad_idle_def cad_new_def)

lemma transition_frame [simp, frame_simps]:
  "c_state (transition_to_unknown_state c) = UNKNOWN"
  "c_clauses (transition_to_unknown_state c) = c_clauses c"
  "c_adding (transition_to_unknown_state c) = c_adding c"
  "c_conflicts (transition_to_unknown_state c) = c_conflicts c"
  "c_timeout (transition_to_unknown_state c) = c_timeout c"
  "c_calls (transition_to_unknown_state c) = c_calls c"
  "c_answer (transition_to_unknown_state c) = c_answer c"
  by (simp_all add: transition_to_unknown_state_def)

lemma transition_idle [simp]: "cad_idle c \<Longrightarrow> c_assumptions (transition_to_unknown_state c) = []"
  by (cases "c_state c") (simp_all add: cad_idle_def transition_to_unknown_state_def)

lemma transition_unknown: "c_state c = UNKNOWN \<Longrightarrow> transition_to_unknown_state c = c"
  by (simp add: transition_to_unknown_state_def)

lemma fold_assume_unknown:
  "c_state c = UNKNOWN \<Longrightarrow> fold cad_assume as c = c\<lparr>c_assumptions := c_assumptions c @ as\<rparr>"
  by (induction as arbitrary: c) (simp_all add: cad_assume_def transition_unknown)

lemma fold_assume:
  assumes "cad_idle c" "as \<noteq> []"
  shows "fold cad_assume as c = (transition_to_unknown_state c)\<lparr>c_assumptions := as\<rparr>"
  using assms by (cases as) (simp_all add: cad_assume_def fold_assume_unknown)

lemma fold_add_lits:
  assumes "\<forall>l \<in> set ls. l \<noteq> 0" "ls \<noteq> []"
  shows "fold cad_add ls c = (transition_to_unknown_state c)\<lparr>c_adding := c_adding c @ ls, c_state := ADDING\<rparr>"
  using assms
proof (induction ls arbitrary: c)
  case (Cons l ls)
  show ?case
  proof (cases "ls = []")
    case True
    then show ?thesis using Cons.prems by (simp add: cad_add_def)
  next
    case False
    then show ?thesis
      using Cons.prems Cons.IH [of "cad_add l c"]
      by (simp add: cad_add_def transition_to_unknown_state_def)
  qed
qed simp

text \<open>The literals of a clause followed by 0.\<close>

lemma add_clause_effect:
  assumes "cad_idle c" "\<forall>l \<in> set ls. l \<noteq> 0"
  shows "cad_add 0 (fold cad_add ls c) = (transition_to_unknown_state c)\<lparr>c_clauses := c_clauses c @ [ls]\<rparr>"
proof (cases "ls = []")
  case True
  then show ?thesis using assms(1) by (simp add: cad_add_def cad_idle_def)
next
  case False
  have "c_adding c = []" using assms(1) by (simp add: cad_idle_def)
  then show ?thesis
    using fold_add_lits [OF assms(2) False, of c]
    by (simp add: cad_add_def transition_to_unknown_state_def)
qed

lemma unknown_idle:
  "cad_idle c \<Longrightarrow> cad_idle ((transition_to_unknown_state c)\<lparr>c_clauses := F\<rparr>)"
  using transition_idle [of c] by (simp add: cad_idle_def)

section \<open>A reference engine\<close>

text \<open>
  An engine that enumerates all assignments: an instance of the parameter for which both
  hypotheses hold, and on which the whole solver can be run.
\<close>

definition lits_bound :: "clause list \<Rightarrow> int list \<Rightarrow> nat" where
  "lits_bound F A = foldr (\<lambda>l n. max (nat \<bar>l\<bar>) n) (concat F @ A) 0"

definition bf_models :: "clause list \<Rightarrow> int list \<Rightarrow> bool list list" where
  "bf_models F A =
     filter (\<lambda>m. satisfies (model_of m) F A) (List.n_lists (Suc (lits_bound F A)) [False, True])"

definition bf_solve :: "nat \<Rightarrow> clause list \<Rightarrow> int list \<Rightarrow> int \<Rightarrow> bool \<Rightarrow> answer" where
  "bf_solve n F A k t = (case bf_models F A of [] \<Rightarrow> Unsat A | m # _ \<Rightarrow> Sat m)"

definition bf_propagate :: "nat \<Rightarrow> clause list \<Rightarrow> int list \<Rightarrow> int list option" where
  "bf_propagate n F A =
     (if bf_models F A = [] then None
      else Some (filter (\<lambda>l. l \<noteq> 0 \<and> l \<notin> set A \<and> [l] \<notin> set F \<and>
                   (\<forall>m \<in> set (bf_models F A). lit_true (model_of m) l))
             (remdups (concat F @ map uminus (concat F)))))"

definition bf_engine :: engine where
  "bf_engine = \<lparr>e_solve = bf_solve, e_propagate = bf_propagate\<rparr>"

lemma foldr_max_bound: "l \<in> set ls \<Longrightarrow> nat \<bar>l\<bar> \<le> foldr (\<lambda>l n. max (nat \<bar>l\<bar>) n) ls 0"
  by (induction ls) auto

lemma lits_bound_le:
  "c \<in> set F \<Longrightarrow> l \<in> set c \<Longrightarrow> nat \<bar>l\<bar> \<le> lits_bound F A"
  "l \<in> set A \<Longrightarrow> nat \<bar>l\<bar> \<le> lits_bound F A"
  unfolding lits_bound_def using foldr_max_bound [of l "concat F @ A"] by (simp_all del: foldr_append) blast

text \<open>The values of an assignment on the variables that occur form one of the enumerated models.\<close>

lemma bf_models_complete:
  assumes "satisfies \<sigma> F A"
  obtains m where "m \<in> set (bf_models F A)"
    "\<And>l. nat \<bar>l\<bar> \<le> lits_bound F A \<Longrightarrow> lit_true (model_of m) l = lit_true \<sigma> l"
proof -
  define m where "m = map (\<lambda>i. \<sigma> (int i)) [0..<Suc (lits_bound F A)]"
  have eq: "lit_true (model_of m) l = lit_true \<sigma> l" if "nat \<bar>l\<bar> \<le> lits_bound F A" for l
    using that by (auto simp: m_def lit_true_def model_of_def simp del: upt_Suc)
  have cl: "sat_clause (model_of m) c = sat_clause \<sigma> c" if "c \<in> set F" for c
    using eq lits_bound_le(1) [OF that] unfolding sat_clause_def by blast
  have "satisfies (model_of m) F A"
    using assms cl eq lits_bound_le(2) [of _ A F] by (auto simp: satisfies_def sat_all_def)
  moreover have "m \<in> set (List.n_lists (Suc (lits_bound F A)) [False, True])"
    unfolding set_n_lists by (auto simp: m_def simp del: upt_Suc)
  ultimately show ?thesis using that eq by (auto simp: bf_models_def)
qed

lemma bf_models_sound: "m \<in> set (bf_models F A) \<Longrightarrow> satisfies (model_of m) F A"
  by (simp add: bf_models_def)

lemma bf_models_empty: "bf_models F A = [] \<Longrightarrow> \<not> satisfies \<sigma> F A"
  using bf_models_complete by (metis list.set(1) empty_iff)

lemma bf_solve_ok: "answer_ok F A (bf_solve n F A k t)"
  using bf_models_empty [of F A] bf_models_sound [of _ F A]
  by (auto simp: bf_solve_def answer_ok_def split: list.split)

lemma bf_propagate_entails:
  assumes "l \<in> set (concat F @ map uminus (concat F))" "\<forall>m \<in> set (bf_models F A). lit_true (model_of m) l"
    "satisfies \<sigma> F A"
  shows "lit_true \<sigma> l"
proof -
  obtain c x where c: "c \<in> set F" "x \<in> set c" "l = x \<or> l = - x" using assms(1) by auto
  have "nat \<bar>l\<bar> = nat \<bar>x\<bar>" using c(3) by auto
  also have "\<dots> \<le> lits_bound F A" using lits_bound_le(1) [OF c(1,2)] .
  finally show ?thesis using bf_models_complete [OF assms(3)] assms(2) by blast
qed

lemma bf_propagate_ok: "propagate_ok F A (bf_propagate n F A)"
proof (cases "bf_models F A = []")
  case True
  then show ?thesis using bf_models_empty by (simp add: propagate_ok_def bf_propagate_def)
next
  case False
  let ?ls = "remdups (concat F @ map uminus (concat F))"
  have "\<exists>c \<in> set F. l \<in> set c \<or> - l \<in> set c" if "l \<in> set ?ls" for l using that by auto
  moreover have "lit_true \<sigma> l"
    if "l \<in> set ?ls" "\<forall>m \<in> set (bf_models F A). lit_true (model_of m) l" "satisfies \<sigma> F A" for l \<sigma>
    using bf_propagate_entails [OF _ that(2,3)] that(1) by (simp del: set_append)
  moreover have "- l \<notin> set A" if "l \<noteq> 0" "\<forall>m \<in> set (bf_models F A). lit_true (model_of m) l" for l
  proof
    assume "- l \<in> set A"
    obtain m where m: "m \<in> set (bf_models F A)" using False by (cases "bf_models F A") auto
    then have "lit_true (model_of m) (- l)" using bf_models_sound [OF m] \<open>- l \<in> set A\<close> by (simp add: satisfies_def)
    then show False using that m by simp
  qed
  ultimately show ?thesis using False by (simp add: propagate_ok_def bf_propagate_def del: set_append set_remdups)
qed

lemma bf_engine_ok: "engine_ok bf_engine"
  by (simp add: engine_ok_def bf_engine_def bf_solve_ok bf_propagate_ok)

lemma bf_engine_live: "engine_live bf_engine"
  by (auto simp: engine_live_def bf_engine_def bf_solve_def split: list.split)

end
