(* ===== verification/Cadical_Interface.thy ===== *)
theory Cadical_Interface
  imports Cadical
begin

text \<open>
  \<open>lib/EvalMaxSAT/src/cadicalinterface.h\<close>: the wrapper \<open>Solver_cadical\<close> around CaDiCaL. Its
  state is the solver object and the number of variables handed out.

  Every \<open>solve\<close> without limits is repeated until CaDiCaL answers 10 or 20. The recursion is a
  partial function: the value \<^term>\<open>None\<close> means that it does not return. \<open>sc_solve_returns\<close>
  shows that it returns when the engine is live.
\<close>

section \<open>Operations\<close>

record solver_cadical =
  cad :: cadical
  nVar :: nat

definition sc_new :: solver_cadical where
  "sc_new = \<lparr>cad = cad_new, nVar = 0\<rparr>"

definition sc_getValue :: "int \<Rightarrow> solver_cadical \<Rightarrow> bool option" where
  "sc_getValue lit s = map_option (\<lambda>v. v > 0) (cad_val lit (cad s))"

definition sc_getSolution :: "solver_cadical \<Rightarrow> bool list option" where
  "sc_getSolution s =
     do { res \<leftarrow> cad_getSolution (cad s);
          Some (if length res \<le> nVar s then res @ replicate (nVar s + 1 - length res) False else res) }"

definition sc_nVars :: "solver_cadical \<Rightarrow> nat" where
  "sc_nVars s = nVar s"

definition sc_newVar :: "solver_cadical \<Rightarrow> int \<times> solver_cadical" where
  "sc_newVar s = (int (nVar s + 1), s\<lparr>nVar := nVar s + 1\<rparr>)"

definition sc_addLit :: "int \<Rightarrow> solver_cadical \<Rightarrow> solver_cadical" where
  "sc_addLit lit s =
     (let s = (if nat \<bar>lit\<bar> > nVar s then s\<lparr>nVar := nat \<bar>lit\<bar>\<rparr> else s)
      in s\<lparr>cad := cad_add lit (cad s)\<rparr>)"

definition sc_addClause :: "int list \<Rightarrow> solver_cadical \<Rightarrow> solver_cadical" where
  "sc_addClause clause s =
     (let s = fold sc_addLit clause s in s\<lparr>cad := cad_add 0 (cad s)\<rparr>)"

text \<open>\<open>solve(const T &assumption)\<close>.\<close>

partial_function (option) sc_solve :: "engine \<Rightarrow> int list \<Rightarrow> solver_cadical \<Rightarrow> (bool \<times> solver_cadical) option" where
  [code]: "sc_solve E assumption s =
     do { (result, c) \<leftarrow> cad_solve E (fold cad_assume assumption (cad s));
          if \<not> (result = 10 \<or> result = 20) then sc_solve E assumption (s\<lparr>cad := c\<rparr>)
          else Some (result = 10, s\<lparr>cad := c\<rparr>) }"

text \<open>\<open>solve()\<close>, without assumptions.\<close>

definition sc_solve0 :: "engine \<Rightarrow> solver_cadical \<Rightarrow> (bool \<times> solver_cadical) option" where
  "sc_solve0 E s = sc_solve E [] s"

text \<open>\<open>solve(const std::vector<bool>& solution)\<close>: every value of the vector is assumed.\<close>

definition sc_solveSolution :: "engine \<Rightarrow> bool list \<Rightarrow> solver_cadical \<Rightarrow> (bool \<times> solver_cadical) option" where
  "sc_solveSolution E solution s =
     sc_solve E (map (\<lambda>i. if solution ! i then int i else - int i) [1..<length solution]) s"

text \<open>\<open>solve(assumption, forced)\<close>: assumptions against a forced literal are dropped.\<close>

definition sc_solveForced :: "engine \<Rightarrow> int list \<Rightarrow> int list \<Rightarrow> solver_cadical \<Rightarrow> (bool \<times> solver_cadical) option" where
  "sc_solveForced E assumption forced s =
     sc_solve E (forced @ filter (\<lambda>lit. - lit \<notin> set forced) assumption) s"

definition sc_result :: "int \<Rightarrow> int option" where
  "sc_result result =
     (if result = 10 then Some 1 else if result = 20 then Some 0 else if result = 0 then Some (- 1) else None)"

definition sc_solveLimited :: "engine \<Rightarrow> int list \<Rightarrow> int \<Rightarrow> int \<Rightarrow> solver_cadical \<Rightarrow> (int \<times> solver_cadical) option" where
  "sc_solveLimited E assumption confBudget except s =
     (let c = fold cad_assume (filter (\<lambda>lit. lit \<noteq> except) assumption) (cad s);
          c = cad_limit_conflicts confBudget c
      in do { (result, c) \<leftarrow> cad_solve E c;
              r \<leftarrow> sc_result result;
              Some (r, s\<lparr>cad := c\<rparr>) })"

definition sc_solveWithTimeout :: "engine \<Rightarrow> int list \<Rightarrow> bool \<Rightarrow> int \<Rightarrow> solver_cadical \<Rightarrow> (int \<times> solver_cadical) option" where
  "sc_solveWithTimeout E assumption timed except s =
     (let c = cad_reset_assumptions (cad s);
          c = fold cad_assume (filter (\<lambda>lit. lit \<noteq> except) assumption) c;
          c = cad_setTimeout timed c
      in do { (result, c) \<leftarrow> cad_solve E c;
              r \<leftarrow> sc_result result;
              Some (r, s\<lparr>cad := c\<rparr>) })"

definition sc_solveWithTimeoutAndLimit ::
    "engine \<Rightarrow> int list \<Rightarrow> bool \<Rightarrow> int \<Rightarrow> int \<Rightarrow> solver_cadical \<Rightarrow> (int \<times> solver_cadical) option" where
  "sc_solveWithTimeoutAndLimit E assumption timed confBudget except s =
     (let c = cad_reset_assumptions (cad s);
          c = fold cad_assume (filter (\<lambda>lit. lit \<noteq> except) assumption) c;
          c = cad_limit_conflicts confBudget c;
          c = cad_setTimeout timed c
      in do { (result, c) \<leftarrow> cad_solve E c;
              r \<leftarrow> sc_result result;
              Some (r, s\<lparr>cad := c\<rparr>) })"

fun sc_getConflict :: "int list \<Rightarrow> solver_cadical \<Rightarrow> int list option" where
  "sc_getConflict [] s = Some []"
| "sc_getConflict (lit # assumptions) s =
     do { f \<leftarrow> cad_failed lit (cad s);
          conflicts \<leftarrow> sc_getConflict assumptions s;
          Some (if f then lit # conflicts else conflicts) }"

definition sc_propagate :: "engine \<Rightarrow> int list \<Rightarrow> solver_cadical \<Rightarrow> (int list option \<times> solver_cadical) option" where
  "sc_propagate E assum s =
     do { (r, c) \<leftarrow> cad_find_up_implicants E assum (cad s);
          Some (r, s\<lparr>cad := c\<rparr>) }"

section \<open>Clauses and variables\<close>

definition sc_clauses :: "solver_cadical \<Rightarrow> clause set" where
  "sc_clauses s = set (c_clauses (cad s))"

definition sc_ok :: "solver_cadical \<Rightarrow> bool" where
  "sc_ok s = (cad_idle (cad s) \<and> (\<forall>c \<in> sc_clauses s. \<forall>l \<in> set c. lit_upto (nVar s) l))"

lemma sc_new_ok [simp]: "sc_ok sc_new" "sc_clauses sc_new = {}" "nVar sc_new = 0"
  using cad_new_idle by (simp_all add: sc_ok_def sc_new_def sc_clauses_def cad_new_def)

lemma sc_newVar_effect:
  "sc_newVar s = (v, s') \<Longrightarrow>
     v = int (nVar s) + 1 \<and> nVar s' = nVar s + 1 \<and> sc_clauses s' = sc_clauses s \<and> (sc_ok s \<longrightarrow> sc_ok s')"
  by (auto simp: sc_newVar_def sc_clauses_def sc_ok_def intro!: lit_upto_Suc)

lemma fold_sc_addLit:
  "\<forall>l \<in> set ls. lit_upto (nVar s) l \<Longrightarrow> fold sc_addLit ls s = s\<lparr>cad := fold cad_add ls (cad s)\<rparr>"
proof (induction ls arbitrary: s)
  case (Cons l ls)
  have "sc_addLit l s = s\<lparr>cad := cad_add l (cad s)\<rparr>"
    using Cons.prems by (simp add: sc_addLit_def lit_upto_def)
  then show ?case using Cons by simp
qed simp

text \<open>Adding a clause over known variables adds exactly that clause.\<close>

lemma sc_addClause_effect:
  assumes "sc_ok s" "\<forall>l \<in> set c. lit_upto (nVar s) l"
  shows "sc_addClause c s = s\<lparr>cad := (transition_to_unknown_state (cad s))\<lparr>c_clauses := c_clauses (cad s) @ [c]\<rparr>\<rparr>"
proof -
  have "\<forall>l \<in> set c. l \<noteq> 0" using assms(2) by auto
  then show ?thesis
    using assms fold_sc_addLit [of c s] add_clause_effect [of "cad s" c]
    by (simp add: sc_addClause_def sc_ok_def)
qed

lemma sc_addClause_ok:
  assumes "sc_ok s" "\<forall>l \<in> set c. lit_upto (nVar s) l"
  shows "nVar (sc_addClause c s) = nVar s" "sc_clauses (sc_addClause c s) = insert c (sc_clauses s)"
    "sc_ok (sc_addClause c s)"
  using assms sc_addClause_effect [OF assms] unknown_idle [of "cad s"]
  by (auto simp: sc_ok_def sc_clauses_def)

section \<open>Answers of the solver\<close>

text \<open>A call that only asks a question leaves variables and clauses alone.\<close>

definition sc_same :: "solver_cadical \<Rightarrow> solver_cadical \<Rightarrow> bool" where
  "sc_same s s' = (nVar s' = nVar s \<and> c_clauses (cad s') = c_clauses (cad s) \<and> cad_idle (cad s'))"

lemma sc_same_trans: "sc_same s s' \<Longrightarrow> sc_same s' s'' \<Longrightarrow> sc_same s s''"
  by (simp add: sc_same_def)

lemma sc_same_ok:
  "sc_same s s' \<Longrightarrow> sc_ok s \<Longrightarrow> sc_ok s' \<and> nVar s' = nVar s \<and> sc_clauses s' = sc_clauses s"
  by (simp add: sc_same_def sc_ok_def sc_clauses_def)

text \<open>
  What one call of \<open>solve\<close> with assumptions \<open>A\<close> means for the solver state afterwards.
\<close>

definition sc_sat :: "int list \<Rightarrow> solver_cadical \<Rightarrow> bool" where
  "sc_sat A s = (c_state (cad s) = SATISFIED \<and>
     (\<exists>m. c_answer (cad s) = Sat m \<and> satisfies (model_of m) (c_clauses (cad s)) A))"

definition sc_unsat :: "int list \<Rightarrow> solver_cadical \<Rightarrow> bool" where
  "sc_unsat A s = (c_state (cad s) = UNSATISFIED \<and>
     (\<exists>fs. c_answer (cad s) = Unsat fs \<and> set fs \<subseteq> set A \<and> (\<forall>\<sigma>. \<not> satisfies \<sigma> (c_clauses (cad s)) fs)))"

text \<open>A solver object about to be asked: assumptions \<open>A\<close>, some limits.\<close>

definition cad_asking :: "int list \<Rightarrow> cadical \<Rightarrow> cadical \<Rightarrow> bool" where
  "cad_asking A c0 c = (c_clauses c = c_clauses c0 \<and> c_adding c = [] \<and> c_state c \<noteq> ADDING \<and>
     c_assumptions (transition_to_unknown_state c) = A \<and> c_calls c = c_calls c0)"

lemma cad_asking_fold:
  assumes "cad_idle c"
  shows "cad_asking A c (fold cad_assume A c)"
proof (cases "A = []")
  case True
  then show ?thesis using assms by (simp add: cad_asking_def cad_idle_def transition_idle [OF assms])
next
  case False
  show ?thesis
    unfolding fold_assume [OF assms False] using assms by (simp add: cad_asking_def cad_idle_def transition_unknown)
qed

lemma cad_asking_limits:
  assumes "cad_asking A c0 c"
  shows "cad_asking A c0 (cad_limit_conflicts l c)" "cad_asking A c0 (cad_setTimeout t c)"
  using assms
  by (auto simp: cad_asking_def cad_limit_conflicts_def cad_setTimeout_def transition_to_unknown_state_def split: if_splits)

lemma cad_reset_idle: "cad_idle c \<Longrightarrow> cad_idle (cad_reset_assumptions c)"
  by (simp add: cad_idle_def cad_reset_assumptions_def)

lemma cad_reset_frame [simp]:
  "c_clauses (cad_reset_assumptions c) = c_clauses c" "c_calls (cad_reset_assumptions c) = c_calls c"
  by (simp_all add: cad_reset_assumptions_def)

lemma cad_solve_ok:
  assumes "engine_ok E" "cad_asking A (cad s) c"
  obtains result c' where "cad_solve E c = Some (result, c')" "sc_same s (s\<lparr>cad := c'\<rparr>)"
    "c_calls c' = Suc (c_calls (cad s))"
    "result = 10 \<and> sc_sat A (s\<lparr>cad := c'\<rparr>) \<or> result = 20 \<and> sc_unsat A (s\<lparr>cad := c'\<rparr>) \<or> result = 0"
    "result = 0 \<longrightarrow>
       e_solve E (c_calls (cad s)) (c_clauses (cad s)) A (c_conflicts c) (c_timeout c) = NoAnswer"
proof -
  define r where "r = e_solve E (c_calls (cad s)) (c_clauses (cad s)) A (c_conflicts c) (c_timeout c)"
  have ans: "answer_ok (c_clauses (cad s)) A r" using assms(1) by (simp add: engine_ok_def r_def)
  have st: "c_state c \<noteq> ADDING" "c_adding c = []" "c_assumptions (transition_to_unknown_state c) = A"
      "c_clauses c = c_clauses (cad s)" "c_calls c = c_calls (cad s)"
    using assms(2) by (auto simp: cad_asking_def)
  show ?thesis
  proof (cases r)
    case (Sat m)
    then show ?thesis
      using ans st
      by (intro that [OF _]) (auto simp: cad_solve_def ready_def r_def [symmetric] sc_same_def cad_idle_def sc_sat_def
        cad_reset_limits_def cad_setTimeout_def cad_limit_conflicts_def answer_ok_def Let_def)
  next
    case (Unsat fs)
    then show ?thesis
      using ans st
      by (intro that [OF _]) (auto simp: cad_solve_def ready_def r_def [symmetric] sc_same_def cad_idle_def sc_unsat_def
        cad_reset_limits_def cad_setTimeout_def cad_limit_conflicts_def answer_ok_def Let_def)
  next
    case NoAnswer
    then show ?thesis
      using ans st
      by (intro that [OF _]) (auto simp: cad_solve_def ready_def r_def [symmetric] sc_same_def cad_idle_def
        cad_reset_limits_def cad_setTimeout_def cad_limit_conflicts_def answer_ok_def Let_def)
  qed
qed

text \<open>\<open>solve\<close> without limits: an answer is right, and with a live engine there is an answer.\<close>

lemma sc_solve_step:
  assumes "engine_ok E" "sc_ok s"
  obtains c where "sc_same s (s\<lparr>cad := c\<rparr>)" "c_calls c = Suc (c_calls (cad s))"
    "sc_solve E A s = Some (True, s\<lparr>cad := c\<rparr>) \<and> sc_sat A (s\<lparr>cad := c\<rparr>) \<or>
     sc_solve E A s = Some (False, s\<lparr>cad := c\<rparr>) \<and> sc_unsat A (s\<lparr>cad := c\<rparr>) \<or>
     sc_solve E A s = sc_solve E A (s\<lparr>cad := c\<rparr>) \<and>
       e_solve E (c_calls (cad s)) (c_clauses (cad s)) A (- 1) False = NoAnswer"
proof -
  have idle: "cad_idle (cad s)" using assms(2) by (simp add: sc_ok_def)
  note ask = cad_asking_fold [OF idle, of A]
  have lim: "c_conflicts (fold cad_assume A (cad s)) = - 1" "c_timeout (fold cad_assume A (cad s)) = False"
    using idle fold_assume [OF idle, of A] by (cases "A = []"; simp add: cad_idle_def)+
  obtain result c where c: "cad_solve E (fold cad_assume A (cad s)) = Some (result, c)"
      "sc_same s (s\<lparr>cad := c\<rparr>)" "c_calls c = Suc (c_calls (cad s))"
      "result = 10 \<and> sc_sat A (s\<lparr>cad := c\<rparr>) \<or> result = 20 \<and> sc_unsat A (s\<lparr>cad := c\<rparr>) \<or> result = 0"
      "result = 0 \<longrightarrow> e_solve E (c_calls (cad s)) (c_clauses (cad s)) A (- 1) False = NoAnswer"
    using cad_solve_ok [OF assms(1) ask] unfolding lim by blast
  have "sc_solve E A s = (if \<not> (result = 10 \<or> result = 20) then sc_solve E A (s\<lparr>cad := c\<rparr>)
      else Some (result = 10, s\<lparr>cad := c\<rparr>))"
    by (subst sc_solve.simps) (simp add: c(1))
  then show ?thesis using c that by auto
qed

text \<open>The number of calls until the engine answers bounds the recursion.\<close>

lemma sc_solve_wait:
  assumes "engine_ok E" "sc_ok s" "m = c_calls (cad s) + d"
    and "e_solve E m (c_clauses (cad s)) A (- 1) False \<noteq> NoAnswer"
  shows "\<exists>b s'. sc_solve E A s = Some (b, s') \<and> sc_same s s' \<and> (if b then sc_sat A s' else sc_unsat A s')"
  using assms(2-)
proof (induction d arbitrary: s)
  case 0
  obtain c where c: "sc_same s (s\<lparr>cad := c\<rparr>)" "c_calls c = Suc (c_calls (cad s))"
      "sc_solve E A s = Some (True, s\<lparr>cad := c\<rparr>) \<and> sc_sat A (s\<lparr>cad := c\<rparr>) \<or>
       sc_solve E A s = Some (False, s\<lparr>cad := c\<rparr>) \<and> sc_unsat A (s\<lparr>cad := c\<rparr>) \<or>
       sc_solve E A s = sc_solve E A (s\<lparr>cad := c\<rparr>) \<and>
         e_solve E (c_calls (cad s)) (c_clauses (cad s)) A (- 1) False = NoAnswer"
    using sc_solve_step [OF assms(1) 0(1), where A = A] by blast
  then show ?case using 0 by auto
next
  case (Suc d)
  obtain c where c: "sc_same s (s\<lparr>cad := c\<rparr>)" "c_calls c = Suc (c_calls (cad s))"
      "sc_solve E A s = Some (True, s\<lparr>cad := c\<rparr>) \<and> sc_sat A (s\<lparr>cad := c\<rparr>) \<or>
       sc_solve E A s = Some (False, s\<lparr>cad := c\<rparr>) \<and> sc_unsat A (s\<lparr>cad := c\<rparr>) \<or>
       sc_solve E A s = sc_solve E A (s\<lparr>cad := c\<rparr>) \<and>
         e_solve E (c_calls (cad s)) (c_clauses (cad s)) A (- 1) False = NoAnswer"
    using sc_solve_step [OF assms(1) Suc.prems(1), where A = A] by blast
  let ?s = "s\<lparr>cad := c\<rparr>"
  have "sc_ok ?s" using sc_same_ok [OF c(1) Suc.prems(1)] by blast
  moreover have "m = c_calls (cad ?s) + d" using Suc.prems(2) c(2) by simp
  moreover have "c_clauses (cad ?s) = c_clauses (cad s)" using c(1) by (simp add: sc_same_def)
  ultimately obtain b s' where "sc_solve E A ?s = Some (b, s')" "sc_same ?s s'" "if b then sc_sat A s' else sc_unsat A s'"
    using Suc.IH [of ?s] Suc.prems(3) by auto
  then show ?case using c(1,3) sc_same_trans [OF c(1)] by (metis (full_types))
qed

lemma sc_solve_returns:
  assumes "engine_ok E" "engine_live E" "sc_ok s"
  obtains b s' where "sc_solve E A s = Some (b, s')" "sc_same s s'" "if b then sc_sat A s' else sc_unsat A s'"
proof -
  obtain m where m: "m \<ge> c_calls (cad s)" "e_solve E m (c_clauses (cad s)) A (- 1) False \<noteq> NoAnswer"
    using assms(2) unfolding engine_live_def by blast
  then obtain d where "m = c_calls (cad s) + d" by (auto simp: le_iff_add)
  then show ?thesis using sc_solve_wait [OF assms(1,3) _ m(2)] that by blast
qed

text \<open>Calls with limits return 1, 0 or -1, and 1 and 0 are right.\<close>

lemma sc_limited_ok:
  assumes "engine_ok E" "cad_asking A (cad s) c"
  shows "\<exists>r s'. do { (result, c) \<leftarrow> cad_solve E c; r \<leftarrow> sc_result result; Some (r, s\<lparr>cad := c\<rparr>) } = Some (r, s') \<and>
    sc_same s s' \<and> (r = 1 \<and> sc_sat A s' \<or> r = 0 \<and> sc_unsat A s' \<or> r = - 1)"
proof -
  obtain result c' where "cad_solve E c = Some (result, c')" "sc_same s (s\<lparr>cad := c'\<rparr>)"
    "result = 10 \<and> sc_sat A (s\<lparr>cad := c'\<rparr>) \<or> result = 20 \<and> sc_unsat A (s\<lparr>cad := c'\<rparr>) \<or> result = 0"
    using cad_solve_ok [OF assms] by blast
  then show ?thesis by (auto simp: sc_result_def)
qed

lemma sc_solveLimited_ok:
  assumes "engine_ok E" "sc_ok s"
  shows "\<exists>r s'. sc_solveLimited E A budget except s = Some (r, s') \<and> sc_same s s' \<and>
    (r = 1 \<and> sc_sat (filter (\<lambda>l. l \<noteq> except) A) s' \<or>
     r = 0 \<and> sc_unsat (filter (\<lambda>l. l \<noteq> except) A) s' \<or> r = - 1)"
proof -
  have idle: "cad_idle (cad s)" using assms(2) by (simp add: sc_ok_def)
  show ?thesis
    unfolding sc_solveLimited_def Let_def
    by (rule sc_limited_ok [OF assms(1) cad_asking_limits(1) [OF cad_asking_fold [OF idle]]])
qed

lemma cad_asking_reset:
  "cad_idle c \<Longrightarrow> cad_asking A c (fold cad_assume A (cad_reset_assumptions c))"
  using cad_asking_fold [OF cad_reset_idle, of c A] by (simp add: cad_asking_def)

lemma sc_solveWithTimeout_ok:
  assumes "engine_ok E" "sc_ok s"
  shows "\<exists>r s'. sc_solveWithTimeout E A timed except s = Some (r, s') \<and> sc_same s s' \<and>
    (r = 1 \<and> sc_sat (filter (\<lambda>l. l \<noteq> except) A) s' \<or>
     r = 0 \<and> sc_unsat (filter (\<lambda>l. l \<noteq> except) A) s' \<or> r = - 1)"
proof -
  have idle: "cad_idle (cad s)" using assms(2) by (simp add: sc_ok_def)
  show ?thesis
    unfolding sc_solveWithTimeout_def Let_def
    by (rule sc_limited_ok [OF assms(1) cad_asking_limits(2) [OF cad_asking_reset [OF idle]]])
qed

lemma sc_solveWithTimeoutAndLimit_ok:
  assumes "engine_ok E" "sc_ok s"
  shows "\<exists>r s'. sc_solveWithTimeoutAndLimit E A timed budget except s = Some (r, s') \<and> sc_same s s' \<and>
    (r = 1 \<and> sc_sat (filter (\<lambda>l. l \<noteq> except) A) s' \<or>
     r = 0 \<and> sc_unsat (filter (\<lambda>l. l \<noteq> except) A) s' \<or> r = - 1)"
proof -
  have idle: "cad_idle (cad s)" using assms(2) by (simp add: sc_ok_def)
  show ?thesis
    unfolding sc_solveWithTimeoutAndLimit_def Let_def
    by (rule sc_limited_ok [OF assms(1) cad_asking_limits(2) [OF cad_asking_limits(1) [OF cad_asking_reset [OF idle]]]])
qed

text \<open>The core of an unsatisfiable call: a subset of the assumptions, inconsistent with the clauses.\<close>

lemma sc_getConflict_eq:
  assumes "c_state (cad s) = UNSATISFIED" "c_answer (cad s) = Unsat fs"
  shows "sc_getConflict A s = Some (filter (\<lambda>l. l \<in> set fs) A)"
  using assms by (induction A) (simp_all add: cad_failed_def)

lemma sc_getConflict_ok:
  assumes "sc_unsat A s" "set A \<subseteq> set B"
  obtains conflict where "sc_getConflict B s = Some conflict" "set conflict \<subseteq> set B"
    "distinct B \<Longrightarrow> distinct conflict" "\<forall>\<sigma>. \<not> satisfies \<sigma> (c_clauses (cad s)) conflict"
proof -
  obtain fs where fs: "c_state (cad s) = UNSATISFIED" "c_answer (cad s) = Unsat fs" "set fs \<subseteq> set A"
      "\<forall>\<sigma>. \<not> satisfies \<sigma> (c_clauses (cad s)) fs"
    using assms by (auto simp: sc_unsat_def)
  have "\<not> satisfies \<sigma> (c_clauses (cad s)) (filter (\<lambda>l. l \<in> set fs) B)" for \<sigma>
    using fs(3,4) assms(2) by (force simp: satisfies_def)
  then show ?thesis using that [OF sc_getConflict_eq [OF fs(1,2)]] by simp
qed

lemma model_of_pad: "model_of (m @ replicate k False) = model_of m"
  by (auto simp: model_of_def nth_append fun_eq_iff)

lemma sc_getSolution_ok:
  assumes "sc_sat A s"
  obtains m where "sc_getSolution s = Some m" "nVar s < length m" "satisfies (model_of m) (c_clauses (cad s)) A"
  using assms that by (auto simp: sc_sat_def sc_getSolution_def cad_getSolution_def model_of_pad split: if_splits)

lemma sc_propagate_ok:
  assumes "engine_ok E" "sc_ok s"
  obtains r s' where "sc_propagate E A s = Some (r, s')" "sc_same s s'" "propagate_ok (c_clauses (cad s)) A r"
proof -
  have idle: "cad_idle (cad s)" using assms(2) by (simp add: sc_ok_def)
  define c where "c = fold cad_assume A (transition_to_unknown_state (cad s))"
  have c: "c = (transition_to_unknown_state (cad s))\<lparr>c_assumptions := A\<rparr>"
    unfolding c_def using fold_assume_unknown [of "transition_to_unknown_state (cad s)" A] idle by simp
  have "propagate_ok (c_clauses (cad s)) A (e_propagate E (c_calls (cad s)) (c_clauses (cad s)) A)"
    using assms(1) by (simp add: engine_ok_def)
  then show ?thesis
    using idle c that
    by (auto simp: sc_propagate_def cad_find_up_implicants_def c_def [symmetric] Let_def ready_def cad_idle_def sc_same_def
        cad_reset_limits_def cad_setTimeout_def cad_limit_conflicts_def)
qed

end
