(* ===== verification/Eval_State.thy ===== *)
theory Eval_State
  imports Card_Incremental Weight_Vector Cadical_Interface
begin

text \<open>
  \<open>lib/EvalMaxSAT/src/EvalMaxSAT.h\<close>: the state of class \<open>EvalMaxSAT\<close> and the operations that
  build the formula: new variables, hard and soft clauses, weights, and \<open>relax\<close>, which replaces a
  cardinality literal by the one with the next bound.

  Objects behind \<open>shared_ptr\<close> live in two stores of the state: \<open>lheap\<close> for the lazy variables and
  \<open>cards\<close> for the cardinalities, a pointer being an index. Literals and weights are integers;
  \<open>t_weight\<close> values go through \<^const>\<open>u64\<close>. Assertions are checks that give \<^term>\<open>None\<close>; the
  ones that call the SAT solver are left out, as in a release build.

  A lazy variable writes its clauses through \<open>EvalMaxSAT::newVar\<close> and
  \<open>EvalMaxSAT::addClause\<close>. Its clauses have at least two literals, so the branch of
  \<open>addClause\<close> for unit clauses is not taken there; \<open>emit\<close> is the remaining part. The
  interpretation of \<open>clause_sink\<close> shows that the two operations satisfy the contract.
\<close>

section \<open>State\<close>

record litcard =
  lc_card :: nat
  lc_atMost :: nat
  lc_weight :: int

record ems =
  solver :: solver_cadical
  poids :: "int list"
  mapWeight2Assum :: weight_map
  cost :: int
  mapAssum2Card :: "litcard option list"
  cardToAdd :: "(int list \<times> int) list"
  litToRelax :: "int list"
  start_solve :: bool
  solution :: "bool list"
  solutionCost :: int
  delayStrategy :: bool
  multiSolveStrategy :: bool
  UBStrategy :: bool
  toOptimize :: bool
  is_incremental :: bool
  nInputVars :: nat
  lheap :: "lazyvar list"
  cards :: "card list"

text \<open>The constructor: the fake literal with index 0, default strategies.\<close>

definition ems_new :: ems where
  "ems_new = \<lparr>solver = sc_new, poids = wv_push_back 0 [], mapWeight2Assum = [], cost = 0,
     mapAssum2Card = [None], cardToAdd = [], litToRelax = [], start_solve = False, solution = [],
     solutionCost = t_weight_max, delayStrategy = True, multiSolveStrategy = True, UBStrategy = True,
     toOptimize = True, is_incremental = False, nInputVars = 0, lheap = [], cards = []\<rparr>"

definition unactivateDelayStrategy :: "ems \<Rightarrow> ems" where
  "unactivateDelayStrategy s = s\<lparr>delayStrategy := False\<rparr>"

definition unactivateMultiSolveStrategy :: "ems \<Rightarrow> ems" where
  "unactivateMultiSolveStrategy s = s\<lparr>multiSolveStrategy := False\<rparr>"

definition unactivateUBStrategy :: "ems \<Rightarrow> ems" where
  "unactivateUBStrategy s = s\<lparr>UBStrategy := False\<rparr>"

definition disableOptimize :: "ems \<Rightarrow> ems" where
  "disableOptimize s = s\<lparr>toOptimize := False\<rparr>"

definition setIncremental :: "bool \<Rightarrow> ems \<Rightarrow> ems" where
  "setIncremental value s = s\<lparr>is_incremental := value\<rparr>"

definition setNInputVars :: "nat \<Rightarrow> ems \<Rightarrow> ems" where
  "setNInputVars n s = s\<lparr>nInputVars := n\<rparr>"

definition isWeighted :: "ems \<Rightarrow> bool" where
  "isWeighted s = (length (mapWeight2Assum s) > 1)"

definition nVars :: "ems \<Rightarrow> nat" where
  "nVars s = length (poids s) - 1"

definition getCost :: "ems \<Rightarrow> int" where
  "getCost s = solutionCost s"

text \<open>\<open>getValue\<close>: a variable equal to the size of the solution passes the test and is read out of range.\<close>

definition getValue :: "int \<Rightarrow> ems \<Rightarrow> bool option" where
  "getValue lit s =
     (if nat \<bar>lit\<bar> > length (solution s) then Some False
      else if lit > 0 then
        if nat lit < length (solution s) then Some (solution s ! nat lit) else None
      else if lit < 0 then
        if nat (- lit) < length (solution s) then Some (\<not> solution s ! nat (- lit)) else None
      else None)"

definition getSolution :: "ems \<Rightarrow> bool list" where
  "getSolution s =
     (if length (solution s) \<ge> nInputVars s + 1 then take (nInputVars s + 1) (solution s)
      else solution s @ replicate (nInputVars s + 1 - length (solution s)) False)"

section \<open>Variables and the clauses of lazy variables\<close>

definition newVar :: "ems \<Rightarrow> int \<times> ems" where
  "newVar s =
     (let s = s\<lparr>poids := wv_push_back 0 (poids s), mapAssum2Card := mapAssum2Card s @ [None]\<rparr>;
          (var, sv) = sc_newVar (solver s)
      in (var, s\<lparr>solver := sv\<rparr>))"

primrec newVars :: "nat \<Rightarrow> ems \<Rightarrow> ems" where
  "newVars 0 s = s"
| "newVars (Suc n) s = newVars n (snd (newVar s))"

definition emit :: "int list \<Rightarrow> ems \<Rightarrow> ems" where
  "emit clause s = s\<lparr>solver := sc_addClause clause (solver s)\<rparr>"

text \<open>\<open>card->atMost(k)\<close> and \<open>make_shared<CardIncremental_Lazy>(this, clause, bound)\<close>.\<close>

definition eval_atMost :: "nat \<Rightarrow> nat \<Rightarrow> ems \<Rightarrow> (int \<times> ems) option" where
  "eval_atMost c k s =
     (if c < length (cards s) then
        do { (v, cd, h, s) \<leftarrow> card_atMost newVar emit k (cards s ! c) (lheap s, s);
             Some (v, s\<lparr>lheap := h, cards := (cards s)[c := cd]\<rparr>) }
      else None)"

definition make_card :: "int list \<Rightarrow> nat \<Rightarrow> ems \<Rightarrow> (nat \<times> ems) option" where
  "make_card clause bnd s =
     do { (cd, h) \<leftarrow> card_new clause bnd (lheap s);
          Some (length (cards s), s\<lparr>lheap := h, cards := cards s @ [cd]\<rparr>) }"

section \<open>Weights\<close>

text \<open>\<open>_mapWeight2Assum[w].insert(lit)\<close> and \<open>.erase(lit)\<close>, \<open>w\<close> converted to \<open>t_weight\<close>.\<close>

definition mw_insert :: "int \<Rightarrow> int \<Rightarrow> ems \<Rightarrow> ems" where
  "mw_insert w lit s = s\<lparr>mapWeight2Assum := map_insert_at (u64 w) lit (mapWeight2Assum s)\<rparr>"

definition mw_erase :: "int \<Rightarrow> int \<Rightarrow> ems \<Rightarrow> ems" where
  "mw_erase w lit s = s\<lparr>mapWeight2Assum := map_erase_at (u64 w) lit (mapWeight2Assum s)\<rparr>"

definition mw_count :: "int \<Rightarrow> int \<Rightarrow> ems \<Rightarrow> bool" where
  "mw_count w lit s = set_count lit (map_at (mapWeight2Assum s) (u64 w))"

definition add_cost :: "int \<Rightarrow> ems \<Rightarrow> ems" where
  "add_cost w s = s\<lparr>cost := u64 (cost s + w)\<rparr>"

definition set_poids :: "int \<Rightarrow> int \<Rightarrow> ems \<Rightarrow> ems option" where
  "set_poids lit w s = do { p \<leftarrow> wv_set lit w (poids s); Some (s\<lparr>poids := p\<rparr>) }"

definition add_poids :: "int \<Rightarrow> int \<Rightarrow> ems \<Rightarrow> ems option" where
  "add_poids lit w s = do { p \<leftarrow> wv_add lit w (poids s); Some (s\<lparr>poids := p\<rparr>) }"

definition relax :: "int \<Rightarrow> ems \<Rightarrow> (int option \<times> ems) option" where
  "relax lit s =
     (let var = nat \<bar>lit\<bar>
      in if lit = 0 \<or> var \<ge> length (mapAssum2Card s) then None
         else case mapAssum2Card s ! var of
           None \<Rightarrow> Some (None, s)
         | Some e \<Rightarrow>
             do { (forCard, s) \<leftarrow> eval_atMost (lc_card e) (lc_atMost e + 1) s;
                  (newSoftVar, s) \<leftarrow>
                    (if forCard = 0 then Some (None, s)
                     else if nat \<bar>forCard\<bar> \<ge> length (mapAssum2Card s) then None
                     else case mapAssum2Card s ! nat \<bar>forCard\<bar> of
                       Some _ \<Rightarrow> Some (None, s)
                     | None \<Rightarrow>
                         if \<not> 0 < lc_weight e then None
                         else do { s \<leftarrow> Some (s\<lparr>mapAssum2Card := (mapAssum2Card s)[nat \<bar>forCard\<bar> :=
                                       Some \<lparr>lc_card = lc_card e, lc_atMost = lc_atMost e + 1, lc_weight = lc_weight e\<rparr>]\<rparr>);
                                   s \<leftarrow> set_poids forCard (lc_weight e) s;
                                   p \<leftarrow> wv_get (poids s) forCard;
                                   Some (Some forCard, mw_insert p forCard s) });
                  p \<leftarrow> wv_get (poids s) lit;
                  Some (newSoftVar,
                    if p = 0 then s\<lparr>mapAssum2Card := (mapAssum2Card s)[var := None]\<rparr> else s) })"

definition newSoftVar :: "bool \<Rightarrow> int \<Rightarrow> ems \<Rightarrow> int \<times> ems" where
  "newSoftVar value weight s =
     (let (value, weight) = (if weight < 0 then (\<not> value, - weight) else (value, weight));
          sgn = (if value then 1 else - 1);
          s = s\<lparr>poids := wv_push_back (weight * sgn) (poids s), mapAssum2Card := mapAssum2Card s @ [None]\<rparr>;
          s = mw_insert weight (sgn * (int (length (poids s)) - 1)) s;
          (var, sv) = sc_newVar (solver s)
      in (var, s\<lparr>solver := sv\<rparr>))"

section \<open>Clauses\<close>

text \<open>A hard clause; a unit clause on a soft literal settles its weight first.\<close>

definition addClause_unit :: "int \<Rightarrow> ems \<Rightarrow> ems option" where
  "addClause_unit lit s =
     do { p \<leftarrow> wv_get (poids s) lit;
          if p = 0 then Some s
          else do { s \<leftarrow> (if p < 0 then
                        do { q \<leftarrow> wv_get (poids s) (- lit);
                             if \<not> mw_count q (- lit) s then None
                             else do { (r, s) \<leftarrow> relax lit (add_cost q (mw_erase q (- lit) s)); Some s } }
                      else if \<not> mw_count p lit s then None
                      else Some (mw_erase p lit s));
                    set_poids lit 0 s } }"

definition addClause_hard :: "int list \<Rightarrow> ems \<Rightarrow> ems option" where
  "addClause_hard clause s =
     do { s \<leftarrow> (if length clause = 1 then addClause_unit (hd clause) s else Some s);
          Some (emit clause s) }"

text \<open>The body of \<open>addWeight\<close> once the weight is positive and the variable exists.\<close>

definition addWeight_pos :: "int \<Rightarrow> int \<Rightarrow> ems \<Rightarrow> ems option" where
  "addWeight_pos lit weight s =
     do { p \<leftarrow> wv_get (poids s) lit;
          if p = 0 then do { s \<leftarrow> set_poids lit weight s; Some (mw_insert weight lit s) }
          else do {
            s \<leftarrow> (if p > 0 then
                    if \<not> mw_count p lit s then None
                    else do { s \<leftarrow> add_poids lit weight (mw_erase p lit s);
                              q \<leftarrow> wv_get (poids s) lit;
                              if q < 0 \<and> mapAssum2Card s ! nat \<bar>lit\<bar> \<noteq> None then None else Some s }
                  else
                    do { q \<leftarrow> wv_get (poids s) (- lit);
                         if \<not> mw_count q (- lit) s then None
                         else do { s \<leftarrow> add_poids lit weight (add_cost (min weight q) (mw_erase q (- lit) s));
                                   q \<leftarrow> wv_get (poids s) (- lit);
                                   if q > 0 \<and> mapAssum2Card s ! nat \<bar>lit\<bar> \<noteq> None then None else Some s } });
            p \<leftarrow> wv_get (poids s) lit;
            if p \<noteq> 0 then
              if p > 0 then Some (mw_insert p lit s) else Some (mw_insert (- p) (- lit) s)
            else do { (r, s) \<leftarrow> relax lit s; Some s } } }"

definition addWeight :: "int \<Rightarrow> int \<Rightarrow> ems \<Rightarrow> ems option" where
  "addWeight lit weight s =
     (if lit = 0 \<or> weight = 0 then None
      else
        let (weight, lit) = (if weight < 0 then (- weight, - lit) else (weight, lit));
            s = newVars (nat \<bar>lit\<bar> + 1 - length (poids s)) s
        in addWeight_pos lit weight s)"

fun add_binaries :: "int \<Rightarrow> int list \<Rightarrow> ems \<Rightarrow> ems option" where
  "add_binaries softVar [] s = Some s"
| "add_binaries softVar (lit # clause) s =
     do { s \<leftarrow> addClause_hard [- softVar, lit] s; add_binaries softVar clause s }"

text \<open>A soft clause; \<^term>\<open>None\<close> is the \<open>exit(-1)\<close> of an addition after a solve.\<close>

definition addClause_soft :: "int list \<Rightarrow> int \<Rightarrow> ems \<Rightarrow> (int \<times> ems) option" where
  "addClause_soft clause w s =
     (if w = 0 then Some (0, s)
      else if \<not> start_solve s \<and> solutionCost s \<noteq> t_weight_max \<and> \<not> is_incremental s then None
      else if length clause > 1 then
        if w > 0 then
          let (softVar, s) = newSoftVar True w s
          in do { s \<leftarrow> addClause_hard (clause @ [- softVar]) s; Some (softVar, s) }
        else
          let (softVar, s) = newSoftVar True (- w) s
          in do { s \<leftarrow> add_binaries softVar clause s; Some (softVar, s) }
      else if length clause = 1 then do { s \<leftarrow> addWeight (hd clause) w s; Some (0, s) }
      else Some (0, add_cost w s))"

definition addClause :: "int list \<Rightarrow> int option \<Rightarrow> ems \<Rightarrow> (int \<times> ems) option" where
  "addClause clause w s = (case w of
     None \<Rightarrow> do { s \<leftarrow> addClause_hard clause s; Some (0, s) }
   | Some w \<Rightarrow> addClause_soft clause w s)"

section \<open>Assumptions\<close>

text \<open>\<open>initAssum\<close>: the soft literals of weight at least the threshold, from the heaviest down.\<close>

definition initAssum :: "int \<Rightarrow> ems \<Rightarrow> int list" where
  "initAssum minWeightToConsider s =
     fold set_insert (concat (map snd (takeWhile (\<lambda>(w, lits). \<not> w < minWeightToConsider) (rev (mapWeight2Assum s))))) []"

section \<open>The contract of lazy variables\<close>

definition nv :: "ems \<Rightarrow> nat" where
  "nv s = nVar (solver s)"

definition cls :: "ems \<Rightarrow> clause set" where
  "cls s = sc_clauses (solver s)"

definition sink_ok :: "ems \<Rightarrow> bool" where
  "sink_ok s = (sc_ok (solver s) \<and> length (poids s) = nv s + 1 \<and> length (mapAssum2Card s) = nv s + 1)"

text \<open>What creating variables and emitting clauses leaves unchanged.\<close>

definition sink_frame :: "ems \<Rightarrow> ems \<Rightarrow> bool" where
  "sink_frame s s' = (\<exists>k sv. s' = s\<lparr>solver := sv, poids := poids s @ replicate k 0,
     mapAssum2Card := mapAssum2Card s @ replicate k None\<rparr>)"

lemma sink_frame_refl: "sink_frame s s"
  unfolding sink_frame_def by (rule exI [of _ 0], rule exI [of _ "solver s"]) simp

lemma sink_frame_trans: "sink_frame s t \<Longrightarrow> sink_frame t u \<Longrightarrow> sink_frame s u"
proof -
  assume "sink_frame s t" "sink_frame t u"
  then obtain k sv k' sv' where t: "t = s\<lparr>solver := sv, poids := poids s @ replicate k 0,
        mapAssum2Card := mapAssum2Card s @ replicate k None\<rparr>"
      and u: "u = t\<lparr>solver := sv', poids := poids t @ replicate k' 0,
        mapAssum2Card := mapAssum2Card t @ replicate k' None\<rparr>"
    unfolding sink_frame_def by blast
  show "sink_frame s u"
    unfolding sink_frame_def u t
    by (rule exI [of _ "k + k'"], rule exI [of _ sv']) (simp add: replicate_add)
qed

lemma newVar_eq:
  "newVar s = (int (nv s) + 1, s\<lparr>solver := (solver s)\<lparr>nVar := Suc (nv s)\<rparr>, poids := poids s @ [0],
     mapAssum2Card := mapAssum2Card s @ [None]\<rparr>)"
  by (simp add: newVar_def sc_newVar_def nv_def wv_push_back_def)

lemma newVar_sink:
  assumes "sink_ok s" "newVar s = (v, s')"
  shows "v = int (nv s) + 1 \<and> nv s' = Suc (nv s) \<and> cls s' = cls s \<and> sink_ok s' \<and> sink_frame s s'"
proof -
  have s': "s' = s\<lparr>solver := (solver s)\<lparr>nVar := Suc (nv s)\<rparr>, poids := poids s @ [0],
      mapAssum2Card := mapAssum2Card s @ [None]\<rparr>" and v: "v = int (nv s) + 1"
    using assms(2) by (auto simp: newVar_eq)
  have "sink_frame s s'"
    unfolding sink_frame_def s' by (rule exI [of _ 1], rule exI [of _ "(solver s)\<lparr>nVar := Suc (nv s)\<rparr>"]) simp
  moreover have sv: "sc_ok ((solver s)\<lparr>nVar := Suc (nv s)\<rparr>)"
    using sc_newVar_effect [OF sc_newVar_def, of "solver s"] assms(1) by (simp add: sink_ok_def nv_def)
  then have "sink_ok s'" using assms(1) by (simp add: sink_ok_def nv_def s')
  moreover have "nv s' = Suc (nv s)" "cls s' = cls s" by (simp_all add: s' nv_def cls_def sc_clauses_def)
  ultimately show ?thesis using v by simp
qed

text \<open>The assertion of \<open>newVar\<close>: the variable is the last index of the weight vector.\<close>

lemma newVar_assertion: "sink_ok s \<Longrightarrow> newVar s = (v, s') \<Longrightarrow> v = int (length (poids s')) - 1"
  using newVar_sink [of s v s'] by (simp add: sink_ok_def)

lemma emit_sink:
  assumes "sink_ok s" "\<forall>l \<in> set c. lit_upto (nv s) l"
  shows "nv (emit c s) = nv s \<and> cls (emit c s) = insert c (cls s) \<and> sink_ok (emit c s) \<and> sink_frame s (emit c s)"
proof -
  have "sink_frame s (emit c s)"
    unfolding sink_frame_def emit_def by (rule exI [of _ 0], rule exI [of _ "sc_addClause c (solver s)"]) simp
  then show ?thesis
    using assms sc_addClause_ok [of "solver s" c] by (simp add: sink_ok_def emit_def nv_def cls_def)
qed

interpretation es: clause_sink newVar emit nv cls sink_ok sink_frame
proof unfold_locales
  show "sink_ok s \<Longrightarrow> newVar s = (v, s') \<Longrightarrow>
      v = int (nv s) + 1 \<and> nv s' = Suc (nv s) \<and> cls s' = cls s \<and> sink_ok s' \<and> sink_frame s s'" for s v s'
    by (rule newVar_sink)
  show "sink_ok s \<Longrightarrow> 2 \<le> length c \<Longrightarrow> \<forall>l \<in> set c. lit_upto (nv s) l \<Longrightarrow>
      nv (emit c s) = nv s \<and> cls (emit c s) = insert c (cls s) \<and> sink_ok (emit c s) \<and> sink_frame s (emit c s)" for s c
    by (rule emit_sink)
  show "sink_ok s \<Longrightarrow> c \<in> cls s \<Longrightarrow> l \<in> set c \<Longrightarrow> lit_upto (nv s) l" for s c l
    by (auto simp: sink_ok_def sc_ok_def cls_def nv_def)
qed (blast intro: sink_frame_refl sink_frame_trans)+

text \<open>The clauses of a lazy variable never reach the unit branch of \<open>addClause\<close>.\<close>

lemma addClause_hard_emit: "length c \<noteq> 1 \<Longrightarrow> addClause_hard c s = Some (emit c s)"
  by (simp add: addClause_hard_def)

end
