(* ===== verification/Eval_Cards.thy ===== *)
theory Eval_Cards
  imports Eval_State
begin

text \<open>
  The cardinalities of the solver state: the invariant that relates the two stores to the clauses
  of the SAT solver, and the effect of \<open>atMost\<close> and of the creation of a cardinality on the
  whole state. Every fact about single cardinalities comes from the interpretation of
  \<open>clause_sink\<close>.
\<close>

section \<open>Outputs of a cardinality\<close>

definition outs :: "ems \<Rightarrow> nat \<Rightarrow> nat list" where
  "outs s c = lazyVars (tree (cards s ! c))"

definition clits :: "ems \<Rightarrow> nat \<Rightarrow> int list" where
  "clits s c = card_lits (lheap s) (cards s ! c)"

text \<open>Output \<open>j\<close> has no solver variable yet.\<close>

definition out_open :: "ems \<Rightarrow> nat \<Rightarrow> nat \<Rightarrow> bool" where
  "out_open s c j = (j < length (outs s c) \<longrightarrow> lv_var (lheap s ! (outs s c ! j)) = None)"

text \<open>Output \<open>j\<close> is the solver variable \<open>v\<close>.\<close>

definition out_var :: "ems \<Rightarrow> nat \<Rightarrow> nat \<Rightarrow> int \<Rightarrow> bool" where
  "out_var s c j v = (j < length (outs s c) \<and> lv_var (lheap s ! (outs s c ! j)) = Some v)"

definition cards_inv :: "ems \<Rightarrow> bool" where
  "cards_inv s = (es.lv_inv (lheap s) s \<and> lv_emitted (lheap s) (cls s) \<and>
     (\<forall>c < length (cards s). card_ok (lheap s) (cards s ! c)) \<and>
     (\<forall>c < length (cards s). \<forall>d < length (cards s). c \<noteq> d \<longrightarrow> set (outs s c) \<inter> set (outs s d) = {}))"

text \<open>A model of the clauses in which every output has exactly its meaning.\<close>

definition exact :: "asg \<Rightarrow> ems \<Rightarrow> bool" where
  "exact \<sigma> s = (lv_exact (lheap s) \<sigma> \<and> sat_all \<sigma> (cls s))"

text \<open>A later state in which only variables, clauses and the two stores have grown.\<close>

definition grows :: "ems \<Rightarrow> ems \<Rightarrow> bool" where
  "grows s s' = (nv s \<le> nv s' \<and> cls s \<subseteq> cls s' \<and>
     poids s' = poids s @ replicate (nv s' - nv s) 0 \<and>
     mapAssum2Card s' = mapAssum2Card s @ replicate (nv s' - nv s) None \<and>
     s' = s\<lparr>solver := solver s', poids := poids s', mapAssum2Card := mapAssum2Card s',
       lheap := lheap s', cards := cards s'\<rparr> \<and>
     length (cards s) \<le> length (cards s') \<and>
     (\<forall>c < length (cards s). clits s' c = clits s c \<and> maxVars (cards s' ! c) = maxVars (cards s ! c)) \<and>
     (\<forall>c < length (cards s). \<forall>j v. out_var s c j v \<longrightarrow> out_var s' c j v) \<and>
     (\<forall>\<sigma>. exact \<sigma> s \<longrightarrow> (\<exists>\<sigma>'. agree_upto (nv s) \<sigma> \<sigma>' \<and> exact \<sigma>' s')))"

lemma rest_fields:
  assumes "s' = s\<lparr>solver := sv, poids := p, mapAssum2Card := m, lheap := h, cards := cs\<rparr>"
  shows "mapWeight2Assum s' = mapWeight2Assum s" "cost s' = cost s" "cardToAdd s' = cardToAdd s"
    "litToRelax s' = litToRelax s" "solutionCost s' = solutionCost s" "solution s' = solution s"
    "start_solve s' = start_solve s" "is_incremental s' = is_incremental s" "nInputVars s' = nInputVars s"
  by (simp_all add: assms)

lemma growsD:
  assumes "grows s s'"
  shows "nv s \<le> nv s'" "cls s \<subseteq> cls s'"
    "poids s' = poids s @ replicate (nv s' - nv s) 0"
    "mapAssum2Card s' = mapAssum2Card s @ replicate (nv s' - nv s) None"
    "length (cards s) \<le> length (cards s')"
    "c < length (cards s) \<Longrightarrow> clits s' c = clits s c"
    "c < length (cards s) \<Longrightarrow> maxVars (cards s' ! c) = maxVars (cards s ! c)"
    "c < length (cards s) \<Longrightarrow> out_var s c j v \<Longrightarrow> out_var s' c j v"
    "exact \<sigma> s \<Longrightarrow> \<exists>\<sigma>'. agree_upto (nv s) \<sigma> \<sigma>' \<and> exact \<sigma>' s'"
    "s' = s\<lparr>solver := solver s', poids := poids s', mapAssum2Card := mapAssum2Card s',
       lheap := lheap s', cards := cards s'\<rparr>"
  using assms unfolding grows_def by blast+

lemma grows_fields:
  assumes "grows s s'"
  shows "mapWeight2Assum s' = mapWeight2Assum s" "cost s' = cost s" "cardToAdd s' = cardToAdd s"
    "litToRelax s' = litToRelax s" "solutionCost s' = solutionCost s" "solution s' = solution s"
    "start_solve s' = start_solve s" "is_incremental s' = is_incremental s" "nInputVars s' = nInputVars s"
  using rest_fields [OF growsD(10) [OF assms]] by simp_all

lemma cards_inv_lv: "cards_inv s \<Longrightarrow> es.lv_inv (lheap s) s"
  by (simp add: cards_inv_def)

lemma cards_invD:
  assumes "cards_inv s"
  shows "lv_wf (lheap s)" "lv_vars_upto (nv s) (lheap s)" "sink_ok s" "lv_emitted (lheap s) (cls s)"
    "c < length (cards s) \<Longrightarrow> card_ok (lheap s) (cards s ! c)"
    "c < length (cards s) \<Longrightarrow> d < length (cards s) \<Longrightarrow> c \<noteq> d \<Longrightarrow> set (outs s c) \<inter> set (outs s d) = {}"
  using assms by (simp_all add: cards_inv_def es.lv_inv_def)

lemma sink_frame_fields:
  assumes "sink_frame s s'" "sink_ok s" "sink_ok s'"
  shows "nv s \<le> nv s'" "s' = s\<lparr>solver := solver s', poids := poids s @ replicate (nv s' - nv s) 0,
     mapAssum2Card := mapAssum2Card s @ replicate (nv s' - nv s) None\<rparr>"
proof -
  obtain k sv where k: "s' = s\<lparr>solver := sv, poids := poids s @ replicate k 0,
      mapAssum2Card := mapAssum2Card s @ replicate k None\<rparr>"
    using assms(1) unfolding sink_frame_def by blast
  have "length (poids s') = length (poids s) + k" using k by simp
  then have "nv s' = nv s + k" using assms(2,3) by (simp add: sink_ok_def)
  then show "nv s \<le> nv s'" "s' = s\<lparr>solver := solver s', poids := poids s @ replicate (nv s' - nv s) 0,
     mapAssum2Card := mapAssum2Card s @ replicate (nv s' - nv s) None\<rparr>"
    using k by simp_all
qed

text \<open>The store and the cardinalities are not part of what variables and clauses depend on.\<close>

lemma stores_frame [simp]:
  "nv (s\<lparr>lheap := h, cards := cs\<rparr>) = nv s" "cls (s\<lparr>lheap := h, cards := cs\<rparr>) = cls s"
  "sink_ok (s\<lparr>lheap := h, cards := cs\<rparr>) = sink_ok s"
  "es.lv_inv h' (s\<lparr>lheap := h, cards := cs\<rparr>) = es.lv_inv h' s"
  by (simp_all add: nv_def cls_def sink_ok_def es.lv_inv_def)

lemma stores_rest:
  assumes "s1 = s\<lparr>solver := sv, poids := p, mapAssum2Card := m\<rparr>" "s' = s1\<lparr>lheap := h, cards := cs\<rparr>"
  shows "s' = s\<lparr>solver := solver s', poids := poids s', mapAssum2Card := mapAssum2Card s',
       lheap := lheap s', cards := cards s'\<rparr>"
  by (simp add: assms)

section \<open>The meaning of an output\<close>

lemma card_count:
  assumes "cards_inv s" "c < length (cards s)" "out_var s c j v"
  shows "sat_all \<sigma> (cls s) \<Longrightarrow> j < count_true \<sigma> (clits s c) \<Longrightarrow> lit_true \<sigma> v"
    and "exact \<sigma> s \<Longrightarrow> lit_true \<sigma> v = (j < count_true \<sigma> (clits s c))"
proof -
  note inv = cards_invD [OF assms(1)]
  have j: "j < length (lazyVars (tree (cards s ! c)))" "lv_var (lheap s ! (lazyVars (tree (cards s ! c)) ! j)) = Some v"
    using assms(3) by (simp_all add: out_var_def outs_def)
  have on: "lv_on (lheap s) \<sigma> (lazyVars (tree (cards s ! c)) ! j) = (j < count_true \<sigma> (clits s c))"
    using card_sem [OF inv(5) [OF assms(2)] j(1)] by (simp add: clits_def)
  show "sat_all \<sigma> (cls s) \<Longrightarrow> j < count_true \<sigma> (clits s c) \<Longrightarrow> lit_true \<sigma> v"
    using lv_emitted_sound [OF _ inv(4,2,1) _ j(2)] on by blast
  show "exact \<sigma> s \<Longrightarrow> lit_true \<sigma> v = (j < count_true \<sigma> (clits s c))"
    using on j(2) card_ok_addr [OF inv(5) [OF assms(2)] j(1)] by (simp add: exact_def lv_exact_def)
qed

lemma tot_lits_upto:
  assumes "lv_vars_upto n h"
  shows "tot_ok h K t \<Longrightarrow> l \<in> set (tot_lits h t) \<Longrightarrow> lit_upto n l"
  using assms
  by (induction t) (auto split: if_splits simp: lv_lit_def lv_vars_upto_def)

lemma clits_upto:
  assumes "cards_inv s" "c < length (cards s)" "l \<in> set (clits s c)"
  shows "lit_upto (nv s) l"
  using cards_invD(2,5) [OF assms(1)] assms(2,3) tot_lits_upto
  unfolding clits_def card_lits_def card_ok_def queue_ok_def by fastforce

lemma outs_root:
  assumes "cards_inv s" "c < length (cards s)" "y \<in> set (outs s c)"
  shows "lv_unref (lheap s) y" "y < length (lheap s)"
  using cards_invD(5) [OF assms(1,2)] assms(3) card_ok_addr [OF cards_invD(5) [OF assms(1,2)]]
  by (auto simp: outs_def card_ok_def queue_ok_def in_set_conv_nth)

lemma out_var_upto:
  assumes "cards_inv s" "c < length (cards s)" "out_var s c j v"
  shows "lit_upto (nv s) v"
proof -
  have j: "outs s c ! j \<in> set (outs s c)" "lv_var (lheap s ! (outs s c ! j)) = Some v"
    using assms(3) by (auto simp: out_var_def)
  show ?thesis
    using cards_invD(2) [OF assms(1)] outs_root(2) [OF assms(1,2) j(1)] j(2) unfolding lv_vars_upto_def by blast
qed

section \<open>\<open>atMost\<close> on the state\<close>

lemma card_step_exact:
  assumes "es.card_step (lheap s) s h s1" "exact \<sigma> s"
  shows "\<exists>\<sigma>'. agree_upto (nv s) \<sigma> \<sigma>' \<and> lv_exact h \<sigma>' \<and> sat_all \<sigma>' (cls s1)"
  using assms unfolding es.card_step_def exact_def by blast

lemma eval_atMost_ok:
  assumes inv: "cards_inv s" and c: "c < length (cards s)" and k: "k < maxVars (cards s ! c)"
  obtains v s' where "eval_atMost c k s = Some (- v, s')" "cards_inv s'" "grows s s'"
    "out_var s' c k v" "length (cards s') = length (cards s)"
    "\<forall>d < length (cards s). \<forall>j. out_open s' d j = (out_open s d j \<and> \<not> (d = c \<and> j = k))"
    "2 \<le> maxVars (cards s ! c) \<and> out_open s c k \<longrightarrow> v = int (nv s) + 1"
proof -
  note I = cards_invD [OF inv]
  let ?h = "lheap s" and ?c = "cards s ! c"
  obtain v t h' s1 x where
      call: "card_atMost newVar emit k ?c (?h, s) = Some (- v, ?c\<lparr>tree := t\<rparr>, h', s1)"
    and st: "es.card_step ?h s h' s1" and ok: "card_ok h' (?c\<lparr>tree := t\<rparr>)"
    and lits: "card_lits h' (?c\<lparr>tree := t\<rparr>) = card_lits ?h ?c"
    and kt: "k < length (lazyVars t)" and tx: "lazyVars t = lazyVars (tree ?c) @ x"
    and var: "lv_var (h' ! (lazyVars t ! k)) = Some v"
    and keep: "\<forall>y < length ?h. lv_unref ?h y \<longrightarrow> lv_unref h' y \<and> (y \<noteq> lazyVars t ! k \<longrightarrow> h' ! y = ?h ! y)"
    and grow: "length (lazyVars (tree ?c)) \<le> k \<longrightarrow> length (lazyVars t) = Suc k"
    and news: "\<forall>y \<in> set x. length ?h \<le> y \<and> (y \<noteq> lazyVars t ! k \<longrightarrow> lv_var (h' ! y) = None)"
    and fresh: "2 \<le> maxVars ?c \<and> (k < length (lazyVars (tree ?c)) \<longrightarrow> lv_var (?h ! (lazyVars (tree ?c) ! k)) = None)
       \<longrightarrow> v = int (nv s) + 1"
    using es.card_atMost_ok [OF cards_inv_lv [OF inv] I(5) [OF c] k] by blast
  have step: "lv_grow ?h h'" "es.lv_inv h' s1" "sink_frame s s1" "nv s \<le> nv s1" "cls s \<subseteq> cls s1"
      "lv_emitted h' (cls s1)"
    using st I(4) by (simp_all add: es.card_step_def)
  have ok1: "sink_ok s1" using step(2) by (simp add: es.lv_inv_def)
  note fr = sink_frame_fields [OF step(3) I(3) ok1]
  have cs1: "cards s1 = cards s" by (subst fr(2)) simp
  define s' where "s' = s1\<lparr>lheap := h', cards := (cards s1)[c := ?c\<lparr>tree := t\<rparr>]\<rparr>"
  have call': "eval_atMost c k s = Some (- v, s')" using c call by (simp add: eval_atMost_def s'_def)
  have nvs: "nv s' = nv s1" "cls s' = cls s1" by (simp_all add: s'_def)
  have len: "length (cards s') = length (cards s)" by (simp add: s'_def cs1)
  have heap: "lheap s' = h'" by (simp add: s'_def)
  have cd: "cards s' ! d = (if d = c then ?c\<lparr>tree := t\<rparr> else cards s ! d)" for d
    using c by (simp add: s'_def cs1)
  have out: "outs s' d = (if d = c then lazyVars t else outs s d)" for d by (simp add: outs_def cd)
  note unref = outs_root [OF inv]
  have dist: "distinct (lazyVars t)" using ok by (auto simp: card_ok_def queue_ok_def)
  have kin: "lazyVars t ! k \<in> set (lazyVars t)" using kt by simp
  have other: "lazyVars t ! k \<notin> set (outs s d)" if "d < length (cards s)" "d \<noteq> c" for d
  proof -
    have "lazyVars t ! k \<in> set (outs s c) \<or> length ?h \<le> lazyVars t ! k"
      using kin tx news by (auto simp: outs_def)
    then show ?thesis using I(6) [OF that(1) c that(2)] unref(2) [OF that(1)] by fastforce
  qed
  have same: "h' ! y = ?h ! y" if "d < length (cards s)" "y \<in> set (outs s d)" "y \<noteq> lazyVars t ! k" for d y
    using keep unref [OF that(1,2)] that(3) by blast
  have okd: "card_ok h' (cards s' ! d)" if d: "d < length (cards s)" for d
  proof (cases "d = c")
    case False
    have "\<forall>y \<in> set (lazyVars (tree (cards s ! d))). lv_unref h' y"
      using keep unref [OF d] by (simp add: outs_def)
    then show ?thesis using card_ok_grow [OF I(5) [OF d] step(1)] False cd by simp
  qed (use ok cd in simp)
  have litsd: "clits s' d = clits s d" if d: "d < length (cards s)" for d
  proof (cases "d = c")
    case False
    have "\<forall>y \<in> set (lazyVars (tree (cards s ! d))). lv_unref h' y"
      using keep unref [OF d] by (simp add: outs_def)
    then show ?thesis using card_ok_grow [OF I(5) [OF d] step(1)] False cd heap by (simp add: clits_def)
  qed (use lits cd heap in \<open>simp add: clits_def\<close>)
  have openk: "out_open s' d j = (out_open s d j \<and> \<not> (d = c \<and> j = k))" if d: "d < length (cards s)" for d j
  proof (cases "d = c")
    case False
    then have "h' ! (outs s d ! j) = ?h ! (outs s d ! j)" if "j < length (outs s d)"
      using same [OF d] other [OF d False] that by (metis nth_mem)
    then show ?thesis using False by (auto simp: out_open_def out heap)
  next
    case True
    have old: "lazyVars t ! j = outs s c ! j" if "j < length (outs s c)"
      using that tx by (simp add: outs_def nth_append)
    consider "j = k" | "j \<noteq> k" "j < length (outs s c)" | "j \<noteq> k" "length (outs s c) \<le> j" by linarith
    then show ?thesis
    proof cases
      case 1
      then show ?thesis using True kt var by (simp add: out_open_def out heap)
    next
      case 2
      then have "lazyVars t ! j \<noteq> lazyVars t ! k"
        using dist kt tx by (simp add: outs_def nth_eq_iff_index_eq)
      then have "h' ! (lazyVars t ! j) = ?h ! (outs s c ! j)" using same [OF c] 2 old by simp
      then show ?thesis using True 2 tx by (simp add: out_open_def out heap old) (simp add: outs_def)
    next
      case 3
      have "lv_var (h' ! (lazyVars t ! j)) = None" if "j < length (lazyVars t)"
      proof -
        have "lazyVars t ! j \<in> set x" using 3 that tx by (simp add: outs_def nth_append)
        moreover have "lazyVars t ! j \<noteq> lazyVars t ! k" using dist kt that 3 by (simp add: nth_eq_iff_index_eq)
        ultimately show ?thesis using news by blast
      qed
      then show ?thesis using True 3 by (simp add: out_open_def out heap)
    qed
  qed
  have vark: "out_var s' d j w" if d: "d < length (cards s)" and w: "out_var s d j w" for d j w
  proof -
    have j: "j < length (outs s d)" "lv_var (?h ! (outs s d ! j)) = Some w" using w by (auto simp: out_var_def)
    have "outs s' d ! j = outs s d ! j" "j < length (outs s' d)"
      using j tx cd by (auto simp: outs_def nth_append)
    moreover have "lv_var (h' ! (outs s d ! j)) = Some w"
      using lv_grow_var [OF step(1) _ j(2)] unref(2) [OF d] j(1) by simp
    ultimately show ?thesis by (simp add: out_var_def heap)
  qed
  have disj: "set (outs s' d) \<inter> set (outs s' e) = {}" if d: "d < length (cards s)" "e < length (cards s)" "d \<noteq> e" for d e
  proof -
    have new: "set x \<inter> set (outs s e') = {}" if "e' < length (cards s)" for e'
      using news unref(2) [OF that] by fastforce
    show ?thesis
      using I(6) [OF d] new [OF d(1)] new [OF d(2)] d(3) tx unfolding out by (auto simp: outs_def)
  qed
  have inv': "cards_inv s'"
    unfolding cards_inv_def using step(2,6) okd disj len by (simp add: heap nvs) (simp add: s'_def)
  have rest: "s' = s\<lparr>solver := solver s', poids := poids s', mapAssum2Card := mapAssum2Card s',
       lheap := lheap s', cards := cards s'\<rparr>"
    by (rule stores_rest [OF fr(2) s'_def])
  have pm: "poids s' = poids s @ replicate (nv s' - nv s) 0"
      "mapAssum2Card s' = mapAssum2Card s @ replicate (nv s' - nv s) None"
    by (simp_all add: nvs) (simp_all add: s'_def, (subst fr(2), simp)+)
  have ex: "\<exists>\<sigma>'. agree_upto (nv s) \<sigma> \<sigma>' \<and> exact \<sigma>' s'" if "exact \<sigma> s" for \<sigma>
    using card_step_exact [OF st that] by (simp add: exact_def heap nvs)
  have "grows s s'"
    unfolding grows_def using step(4,5) pm rest len litsd vark ex by (simp add: nvs cd)
  moreover have "out_var s' c k v" using kt var by (simp add: out_var_def out heap)
  moreover have "v = int (nv s) + 1" if "2 \<le> maxVars ?c" "out_open s c k"
    using fresh that by (simp add: out_open_def outs_def)
  ultimately show ?thesis using that [OF call' inv' _ _ len] openk by simp
qed

section \<open>A new cardinality\<close>

lemma make_card_ok:
  assumes inv: "cards_inv s" and ls: "ls \<noteq> []" "\<forall>l \<in> set ls. lit_upto (nv s) l"
  obtains s' where "make_card ls bnd s = Some (length (cards s), s')" "cards_inv s'" "grows s s'" "nv s' = nv s"
    "length (cards s') = Suc (length (cards s))" "cls s' = cls s"
    "mset (clits s' (length (cards s))) = mset ls" "maxVars (cards s' ! length (cards s)) = length ls"
    "\<forall>d < length (cards s). \<forall>j. out_open s' d j = out_open s d j"
    "2 \<le> length ls \<longrightarrow> (\<forall>j. out_open s' (length (cards s)) j)"
proof -
  note I = cards_invD [OF inv]
  let ?h = "lheap s" and ?n = "length (cards s)"
  have nz: "\<forall>l \<in> set ls. l \<noteq> 0" using ls(2) by auto
  obtain cd h' where new: "card_new ls bnd ?h = Some (cd, h')" "lv_ext ?h h'" "lv_wf h'"
      "\<forall>n. lv_vars_upto n ?h \<and> (\<forall>l \<in> set ls. lit_upto n l) \<longrightarrow> lv_vars_upto n h'"
      "card_ok h' cd" "mset (card_lits h' cd) = mset ls" "maxVars cd = length ls"
      "\<forall>x < length ?h. lv_unref ?h x \<longrightarrow> lv_unref h' x" "set (lazyVars (tree cd)) \<subseteq> {length ?h..}"
    using card_new_ok [OF ls(1) nz I(1), of bnd] by blast
  have vars: "lv_vars_upto (nv s) h'" using new(4) I(2) ls(2) by blast
  note st = es.ext_card_step [OF cards_inv_lv [OF inv] new(2,3) vars]
  note grow = lv_ext_grow [OF new(2)]
  define s' where "s' = s\<lparr>lheap := h', cards := cards s @ [cd]\<rparr>"
  have cd: "cards s' ! d = (if d < ?n then cards s ! d else cd)" if "d \<le> ?n" for d
    using that by (auto simp: s'_def nth_append)
  have heap: "lheap s' = h'" "nv s' = nv s" "cls s' = cls s" "length (cards s') = Suc ?n"
    by (simp_all add: s'_def)
  have unref: "lv_unref h' y" "y < length ?h" if "d < ?n" "y \<in> set (lazyVars (tree (cards s ! d)))" for d y
    using outs_root [OF inv that(1)] that(2) new(8) by (simp_all add: outs_def)
  have old: "card_ok h' (cards s ! d)" "card_lits h' (cards s ! d) = card_lits ?h (cards s ! d)" if "d < ?n" for d
    using card_ok_grow [OF I(5) [OF that] grow] unref [OF that] by blast+
  have sam: "h' ! y = ?h ! y" if "y < length ?h" for y using new(2) that by (simp add: lv_ext_def)
  have disj: "set (outs s' d) \<inter> set (outs s' e) = {}" if "d < Suc ?n" "e < Suc ?n" "d \<noteq> e" for d e
  proof -
    have "set (lazyVars (tree (cards s ! d'))) \<inter> set (lazyVars (tree cd)) = {}" if "d' < ?n" for d'
      using unref(2) [OF that] new(9) by fastforce
    then show ?thesis
      using I(6) [of d e] that cd [of d] cd [of e] by (cases "d < ?n"; cases "e < ?n") (auto simp: outs_def)
  qed
  have okd: "card_ok h' (cards s' ! d)" if "d < Suc ?n" for d
    using cd [of d] old(1) [of d] new(5) that by (cases "d < ?n") simp_all
  have "es.lv_inv h' s" "lv_emitted h' (cls s)" using st I(4) by (simp_all add: es.card_step_def)
  then have inv': "cards_inv s'"
    unfolding cards_inv_def using okd disj by (simp add: heap) (simp add: s'_def)
  have kept: "outs s' d = outs s d" "clits s' d = clits s d" "maxVars (cards s' ! d) = maxVars (cards s ! d)" if "d < ?n" for d
    using cd [of d] old [OF that] that by (simp_all add: outs_def clits_def heap)
  have cell: "h' ! (outs s d ! j) = ?h ! (outs s d ! j)" if "d < ?n" "j < length (outs s d)" for d j
    using sam unref(2) [OF that(1)] that(2) by (simp add: outs_def)
  have opend: "out_open s' d j = out_open s d j" if "d < ?n" for d j
    using cell [OF that] kept(1) [OF that] by (auto simp: out_open_def heap)
  have newo: "out_open s' ?n j" if two: "2 \<le> length ls" for j
  proof -
    have "lv_var (h' ! (lazyVars (tree cd) ! j)) = None" if "j < length (lazyVars (tree cd))"
      using card_ok_impl [OF new(5) _ that] two new(2,7,9) card_ok_addr [OF new(5) that] that
      by (auto simp: lv_ext_def dest: nth_mem)
    then show ?thesis using cd [of ?n] by (simp add: out_open_def outs_def heap)
  qed
  have "grows s s'"
    unfolding grows_def
  proof (intro conjI allI impI)
    show "\<exists>\<sigma>'. agree_upto (nv s) \<sigma> \<sigma>' \<and> exact \<sigma>' s'" if "exact \<sigma> s" for \<sigma>
      using card_step_exact [OF st that] by (simp add: exact_def heap)
    show "out_var s' c j v" if "c < ?n" "out_var s c j v" for c j v
      using that cell [OF that(1)] kept(1) [OF that(1)] by (auto simp: out_var_def heap)
  qed (use kept in \<open>simp_all add: heap\<close>, simp_all add: s'_def)
  moreover have "make_card ls bnd s = Some (?n, s')" using new(1) by (simp add: make_card_def s'_def)
  moreover have "mset (clits s' ?n) = mset ls" "maxVars (cards s' ! ?n) = length ls"
    using new(6,7) cd [of ?n] by (simp_all add: clits_def heap)
  ultimately show ?thesis using that inv' heap opend newo by blast
qed

end
