(* ===== verification/Eval_Invariant.thy ===== *)
theory Eval_Invariant
  imports Eval_Cards
begin

text \<open>
  The cost a solver state assigns to an assignment, the invariant of the state, and the simulation
  relation between states.

  The objective \<open>obj\<close> of an assignment is the constant \<open>cost\<close>, plus the weights of the falsified
  soft literals, plus what the cardinalities still owe: a cardinality literal "at most \<open>k\<close> of the
  literals" with weight \<open>w\<close> whose successor was not created yet stands for \<open>w\<close> times the
  number of true literals beyond \<open>k + 1\<close>, and a core waiting in \<open>_cardToAdd\<close> for \<open>w\<close> times the
  number of true literals beyond the first. The same sum with every literal counted as true and every
  weight counted in full is the \<open>budget\<close>: it bounds all weights of the state, so no 64-bit
  operation wraps while it stays below \<open>2^63\<close>.
\<close>

section \<open>Sums over the state\<close>

definition vsum :: "(int \<Rightarrow> int \<Rightarrow> int) \<Rightarrow> int list \<Rightarrow> int" where
  "vsum f ws = (\<Sum>v < length ws. f (int v) (ws ! v))"

definition opt_sum :: "('e \<Rightarrow> int) \<Rightarrow> 'e option \<Rightarrow> int" where
  "opt_sum f x = (case x of None \<Rightarrow> 0 | Some e \<Rightarrow> f e)"

definition esum :: "('e \<Rightarrow> int) \<Rightarrow> 'e option list \<Rightarrow> int" where
  "esum f m = (\<Sum>v < length m. opt_sum f (m ! v))"

definition dsum :: "(int list \<Rightarrow> nat) \<Rightarrow> (int list \<times> int) list \<Rightarrow> int" where
  "dsum n ds = (\<Sum>(ls, w) \<leftarrow> ds. w * int (n ls - 1))"

definition owed :: "(int list \<Rightarrow> nat) \<Rightarrow> ems \<Rightarrow> litcard \<Rightarrow> int" where
  "owed n s e = (if out_open s (lc_card e) (lc_atMost e + 1)
     then lc_weight e * int (n (clits s (lc_card e)) - (lc_atMost e + 1)) else 0)"

definition wtotal :: "(int \<Rightarrow> int \<Rightarrow> int) \<Rightarrow> (int list \<Rightarrow> nat) \<Rightarrow> ems \<Rightarrow> int" where
  "wtotal f n s = cost s + vsum f (poids s) + esum (owed n s) (mapAssum2Card s) + dsum n (cardToAdd s)"

text \<open>What a variable of signed weight \<open>w\<close> costs under an assignment.\<close>

definition vcost :: "asg \<Rightarrow> int \<Rightarrow> int \<Rightarrow> int" where
  "vcost \<sigma> v w = (if w > 0 then if \<sigma> v then 0 else w else if \<sigma> v then - w else 0)"

definition obj :: "asg \<Rightarrow> ems \<Rightarrow> int" where
  "obj \<sigma> s = wtotal (vcost \<sigma>) (count_true \<sigma>) s"

definition budget :: "ems \<Rightarrow> int" where
  "budget s = wtotal (\<lambda>v w. \<bar>w\<bar>) length s"

text \<open>The same for a literal.\<close>

definition lcost :: "asg \<Rightarrow> int \<Rightarrow> int \<Rightarrow> int" where
  "lcost \<sigma> l w = (if w > 0 then if lit_true \<sigma> l then 0 else w else if lit_true \<sigma> l then - w else 0)"

lemma sum_update:
  fixes f :: "nat \<Rightarrow> 'a \<Rightarrow> int"
  assumes "i < length xs"
  shows "(\<Sum>v < length xs. f v (xs[i := x] ! v)) = (\<Sum>v < length xs. f v (xs ! v)) - f i (xs ! i) + f i x"
proof -
  let ?A = "{..<length xs} - {i}"
  have "(\<Sum>v < length xs. f v (ys ! v)) = f i (ys ! i) + (\<Sum>v \<in> ?A. f v (ys ! v))" for ys
    using assms by (intro sum.remove) auto
  moreover have "(\<Sum>v \<in> ?A. f v (xs[i := x] ! v)) = (\<Sum>v \<in> ?A. f v (xs ! v))"
    by (intro sum.cong) auto
  ultimately show ?thesis using assms by simp
qed

lemma vsum_update:
  "i < length ws \<Longrightarrow> vsum f (ws[i := w]) = vsum f ws - f (int i) (ws ! i) + f (int i) w"
  unfolding vsum_def using sum_update [of i ws "\<lambda>v. f (int v)" w] by simp

lemma esum_update: "i < length m \<Longrightarrow> esum f (m[i := x]) = esum f m - opt_sum f (m ! i) + opt_sum f x"
  unfolding esum_def using sum_update [of i m "\<lambda>v. opt_sum f" x] by simp

lemma vsum_append: "vsum f (ws @ [w]) = vsum f ws + f (int (length ws)) w"
  by (simp add: vsum_def nth_append)

lemma esum_append: "esum f (m @ [x]) = esum f m + opt_sum f x"
  by (simp add: esum_def nth_append)

lemma vsum_zeros: "(\<And>v. f v 0 = 0) \<Longrightarrow> vsum f (ws @ replicate k 0) = vsum f ws"
  by (induction k arbitrary: ws) (simp_all add: vsum_append flip: append_assoc replicate_append_same)

lemma esum_nones: "esum f (m @ replicate k None) = esum f m"
  by (induction k arbitrary: m) (simp_all add: esum_append opt_sum_def flip: append_assoc replicate_append_same)

lemma esum_cong:
  "(\<And>v e. v < length m \<Longrightarrow> m ! v = Some e \<Longrightarrow> f e = g e) \<Longrightarrow> esum f m = esum g m"
  unfolding esum_def opt_sum_def by (intro sum.cong) (auto split: option.split)

lemma esum_diff_one:
  assumes "v0 < length m" "m ! v0 = Some e0"
    and "\<And>v e. v < length m \<Longrightarrow> m ! v = Some e \<Longrightarrow> v \<noteq> v0 \<Longrightarrow> f e = g e"
  shows "esum f m = esum g m - g e0 + f e0"
proof -
  have split: "esum h m = h e0 + (\<Sum>v \<in> {..<length m} - {v0}. opt_sum h (m ! v))" for h
    unfolding esum_def using assms(1,2) by (subst sum.remove [of _ v0]) (auto simp: opt_sum_def)
  have "(\<Sum>v \<in> {..<length m} - {v0}. opt_sum f (m ! v)) = (\<Sum>v \<in> {..<length m} - {v0}. opt_sum g (m ! v))"
    using assms(3) by (intro sum.cong) (auto simp: opt_sum_def split: option.split)
  then show ?thesis by (simp add: split)
qed

lemma esum_nonneg: "(\<And>v e. v < length m \<Longrightarrow> m ! v = Some e \<Longrightarrow> 0 \<le> f e) \<Longrightarrow> 0 \<le> esum f m"
  unfolding esum_def opt_sum_def by (intro sum_nonneg) (auto split: option.split)

lemma dsum_append: "dsum n (ds @ [(ls, w)]) = dsum n ds + w * int (n ls - 1)"
  by (simp add: dsum_def)

lemma dsum_Cons: "dsum n ((ls, w) # ds) = w * int (n ls - 1) + dsum n ds"
  by (simp add: dsum_def)

lemma dsum_nonneg: "\<forall>(ls, w) \<in> set ds. 0 \<le> w \<Longrightarrow> 0 \<le> dsum n ds"
  by (induction ds) (auto simp: dsum_def)

text \<open>Costs of literals and costs of variables.\<close>

lemma vcost_zero [simp]: "vcost \<sigma> v 0 = 0"
  by (simp add: vcost_def)

lemma lcost_zero [simp]: "lcost \<sigma> l 0 = 0"
  by (simp add: lcost_def)

lemma vcost_lcost: "l \<noteq> 0 \<Longrightarrow> vcost \<sigma> \<bar>l\<bar> (if l < 0 then - w else w) = lcost \<sigma> l w"
  by (auto simp: vcost_def lcost_def lit_true_def)

lemma vcost_nonneg: "0 \<le> vcost \<sigma> v w"
  by (simp add: vcost_def)

lemma vsum_set:
  assumes "wv_set l w ws = Some ws'" "l \<noteq> 0"
    and f: "\<And>l w. l \<noteq> 0 \<Longrightarrow> f \<bar>l\<bar> (if l < 0 then - w else w) = g l w"
  shows "vsum f ws' = vsum f ws - g l (wt ws l) + g l w"
proof -
  have v: "nat \<bar>l\<bar> < length ws" and ws': "ws' = ws[nat \<bar>l\<bar> := (if l < 0 then - w else w)]"
    using wv_set_nth [OF assms(1)] by blast+
  have "ws ! nat \<bar>l\<bar> = (if l < 0 then - wt ws l else wt ws l)" by (rule wt_nth [OF v])
  then show ?thesis
    using vsum_update [OF v] f [OF assms(2), of "wt ws l"] f [OF assms(2), of w] by (simp add: ws')
qed

lemma vsum_set_cost:
  "wv_set l w ws = Some ws' \<Longrightarrow> l \<noteq> 0 \<Longrightarrow>
     vsum (vcost \<sigma>) ws' = vsum (vcost \<sigma>) ws - lcost \<sigma> l (wt ws l) + lcost \<sigma> l w"
  using vsum_set [where f = "vcost \<sigma>" and g = "lcost \<sigma>"] vcost_lcost by blast

lemma vsum_set_abs:
  "wv_set l w ws = Some ws' \<Longrightarrow> l \<noteq> 0 \<Longrightarrow>
     vsum (\<lambda>v w. \<bar>w\<bar>) ws' = vsum (\<lambda>v w. \<bar>w\<bar>) ws - \<bar>wt ws l\<bar> + \<bar>w\<bar>"
  using vsum_set [where f = "\<lambda>v w. \<bar>w\<bar>" and g = "\<lambda>l w. \<bar>w\<bar>"] by simp

section \<open>The invariant\<close>

text \<open>A cardinality literal: output \<open>k\<close> of its cardinality is the variable it is filed under.\<close>

definition entry_ok :: "ems \<Rightarrow> nat \<Rightarrow> litcard \<Rightarrow> bool" where
  "entry_ok s v e = (lc_card e < length (cards s) \<and> 1 \<le> lc_atMost e \<and>
     lc_atMost e < maxVars (cards s ! lc_card e) \<and> out_var s (lc_card e) (lc_atMost e) (int v) \<and>
     0 < lc_weight e)"

definition cardToAdd_ok :: "nat \<Rightarrow> (int list \<times> int) list \<Rightarrow> bool" where
  "cardToAdd_ok n ds = (\<forall>(ls, w) \<in> set ds. ls \<noteq> [] \<and> (\<forall>l \<in> set ls. lit_upto n l) \<and> 0 < w)"

text \<open>The structure of the state, whatever its weights are.\<close>

definition base_inv :: "ems \<Rightarrow> bool" where
  "base_inv s = (cards_inv s \<and>
     (\<forall>c < length (cards s). \<forall>j \<ge> 1. out_open s c j \<longrightarrow> out_open s c (Suc j)) \<and>
     (\<forall>v < length (mapAssum2Card s). \<forall>e. mapAssum2Card s ! v = Some e \<longrightarrow> entry_ok s v e) \<and>
     poids s ! 0 = 0 \<and> mapAssum2Card s ! 0 = None \<and> 0 \<le> cost s \<and> cardToAdd_ok (nv s) (cardToAdd s))"

text \<open>
  A cardinality literal that still carries weight, or waits to be relaxed, has no successor yet. One
  that carries no weight and does not wait is done: its successor exists, its bound is no restriction,
  or the literal is a unit clause.
\<close>

definition live_ok :: "int list \<Rightarrow> ems \<Rightarrow> nat \<Rightarrow> litcard \<Rightarrow> bool" where
  "live_ok W s v e = (poids s ! v \<le> 0 \<and>
     (poids s ! v \<noteq> 0 \<or> - int v \<in> set W \<longrightarrow> out_open s (lc_card e) (lc_atMost e + 1)) \<and>
     (poids s ! v = 0 \<and> - int v \<notin> set W \<and> out_open s (lc_card e) (lc_atMost e + 1) \<longrightarrow>
        maxVars (cards s ! lc_card e) \<le> lc_atMost e + 1 \<or> [- int v] \<in> cls s))"

definition waiting_ok :: "ems \<Rightarrow> int \<Rightarrow> bool" where
  "waiting_ok s l = (l < 0 \<and> nat (- l) \<le> nv s \<and> mapAssum2Card s ! nat (- l) \<noteq> None \<and> poids s ! nat (- l) = 0)"

text \<open>The weights of the state, with a list \<open>W\<close> of literals that wait to be relaxed.\<close>

definition weights_inv :: "int list \<Rightarrow> ems \<Rightarrow> bool" where
  "weights_inv W s = (wm.mirrors (mapWeight2Assum s) (wt (poids s)) \<and>
     (\<forall>v < length (mapAssum2Card s). \<forall>e. mapAssum2Card s ! v = Some e \<longrightarrow> live_ok W s v e) \<and>
     distinct W \<and> (\<forall>l \<in> set W. waiting_ok s l) \<and> budget s < 9223372036854775808)"

definition ems_inv :: "ems \<Rightarrow> bool" where
  "ems_inv s = (base_inv s \<and> weights_inv (litToRelax s) s)"

lemma base_invD:
  assumes "base_inv s"
  shows "cards_inv s" "c < length (cards s) \<Longrightarrow> 1 \<le> j \<Longrightarrow> out_open s c j \<Longrightarrow> out_open s c (Suc j)"
    "v < length (mapAssum2Card s) \<Longrightarrow> mapAssum2Card s ! v = Some e \<Longrightarrow> entry_ok s v e"
    "poids s ! 0 = 0" "mapAssum2Card s ! 0 = None" "0 \<le> cost s" "cardToAdd_ok (nv s) (cardToAdd s)"
    "sink_ok s" "length (poids s) = nv s + 1" "length (mapAssum2Card s) = nv s + 1"
  using assms cards_invD(3) [of s] by (simp_all add: base_inv_def sink_ok_def)

lemma weights_invD:
  assumes "weights_inv W s"
  shows "wm.mirrors (mapWeight2Assum s) (wt (poids s))"
    "v < length (mapAssum2Card s) \<Longrightarrow> mapAssum2Card s ! v = Some e \<Longrightarrow> live_ok W s v e"
    "distinct W" "l \<in> set W \<Longrightarrow> waiting_ok s l" "budget s < 9223372036854775808"
  using assms by (simp_all add: weights_inv_def)

lemma owed_nonneg: "entry_ok s v e \<Longrightarrow> 0 \<le> owed n s e"
  by (simp add: owed_def entry_ok_def)

lemma wtotal_ge_cost:
  assumes "base_inv s" "\<And>v w. 0 \<le> f v w"
  shows "cost s \<le> wtotal f n s"
proof -
  have "0 \<le> vsum f (poids s)" using assms(2) by (simp add: vsum_def sum_nonneg)
  moreover have "0 \<le> esum (owed n s) (mapAssum2Card s)"
    using base_invD(3) [OF assms(1)] owed_nonneg by (intro esum_nonneg) blast
  moreover have "0 \<le> dsum n (cardToAdd s)"
    using base_invD(7) [OF assms(1)] by (intro dsum_nonneg) (auto simp: cardToAdd_ok_def)
  ultimately show ?thesis by (simp add: wtotal_def)
qed

lemma wtotal_ge_one:
  assumes "base_inv s" "\<And>v w. 0 \<le> f v w" "v < length (poids s)"
  shows "cost s + f (int v) (poids s ! v) \<le> wtotal f n s"
proof -
  have "f (int v) (poids s ! v) \<le> vsum f (poids s)"
    unfolding vsum_def using assms(2,3) by (intro member_le_sum) auto
  moreover have "0 \<le> esum (owed n s) (mapAssum2Card s)"
    using base_invD(3) [OF assms(1)] owed_nonneg by (intro esum_nonneg) blast
  moreover have "0 \<le> dsum n (cardToAdd s)"
    using base_invD(7) [OF assms(1)] by (intro dsum_nonneg) (auto simp: cardToAdd_ok_def)
  ultimately show ?thesis by (simp add: wtotal_def)
qed

text \<open>No weight exceeds the budget, and no falsified weight the objective.\<close>

lemma budget_weight:
  assumes "base_inv s"
  shows "cost s + \<bar>wt (poids s) l\<bar> \<le> budget s"
proof (cases "nat \<bar>l\<bar> < length (poids s)")
  case True
  then show ?thesis
    using wtotal_ge_one [OF assms, of "\<lambda>v w. \<bar>w\<bar>" "nat \<bar>l\<bar>" length] wt_nth [OF True] by (simp add: budget_def split: if_splits)
next
  case False
  then show ?thesis using wtotal_ge_cost [OF assms, of "\<lambda>v w. \<bar>w\<bar>" length] by (simp add: wt_out budget_def)
qed

lemma obj_ge_weight:
  assumes "base_inv s" "l \<noteq> 0"
  shows "cost s + lcost \<sigma> l (wt (poids s) l) \<le> obj \<sigma> s"
proof (cases "nat \<bar>l\<bar> < length (poids s)")
  case True
  have "vcost \<sigma> \<bar>l\<bar> (poids s ! nat \<bar>l\<bar>) = lcost \<sigma> l (wt (poids s) l)"
    unfolding wt_nth [OF True] using vcost_lcost [OF assms(2)] .
  then show ?thesis
    using wtotal_ge_one [OF assms(1) _ True, of "vcost \<sigma>" "count_true \<sigma>"] vcost_nonneg by (simp add: obj_def)
next
  case False
  then show ?thesis
    using wtotal_ge_cost [OF assms(1), of "vcost \<sigma>" "count_true \<sigma>"] vcost_nonneg by (simp add: wt_out obj_def)
qed

text \<open>The objective looks at the variables of the state only.\<close>

lemma obj_agree:
  assumes inv: "base_inv s" and ag: "agree_upto (nv s) \<sigma> \<tau>"
  shows "obj \<sigma> s = obj \<tau> s"
proof -
  note B = base_invD [OF inv]
  have "vsum (vcost \<sigma>) (poids s) = vsum (vcost \<tau>) (poids s)"
    unfolding vsum_def
  proof (rule sum.cong [OF refl])
    fix v assume v: "v \<in> {..<length (poids s)}"
    show "vcost \<sigma> (int v) (poids s ! v) = vcost \<tau> (int v) (poids s ! v)"
      using v ag B(4,9) by (cases "v = 0") (auto simp: vcost_def agree_upto_def)
  qed
  moreover have "owed (count_true \<sigma>) s e = owed (count_true \<tau>) s e" if "entry_ok s v e" for v e
  proof -
    have "\<forall>l \<in> set (clits s (lc_card e)). lit_upto (nv s) l"
      using clits_upto [OF B(1)] that by (auto simp: entry_ok_def)
    then show ?thesis using agree_count [OF ag] by (simp add: owed_def)
  qed
  then have "esum (owed (count_true \<sigma>) s) (mapAssum2Card s) = esum (owed (count_true \<tau>) s) (mapAssum2Card s)"
    using B(3) by (intro esum_cong) blast
  moreover have "dsum (count_true \<sigma>) ds = dsum (count_true \<tau>) ds" if "cardToAdd_ok (nv s) ds" for ds
    using that agree_count [OF ag] by (induction ds) (auto simp: dsum_def cardToAdd_ok_def)
  ultimately show ?thesis using B(7) by (simp add: obj_def wtotal_def)
qed

end
