(* ===== verification/Eval_Relax.thy ===== *)
theory Eval_Relax
  imports Eval_Invariant
begin

text \<open>
  The simulation relation between solver states and \<open>relax\<close>. A later state simulates an earlier
  one when no model of its clauses got cheaper and every exact model of the earlier state extends to
  one of the later state that is not dearer. A guard restricts the models that have to extend (for
  clauses that cut models off), an offset accounts for costs an operation has taken out and will put
  back.
\<close>

section \<open>Simulation\<close>

definition sim :: "(asg \<Rightarrow> bool) \<Rightarrow> (asg \<Rightarrow> int) \<Rightarrow> ems \<Rightarrow> ems \<Rightarrow> bool" where
  "sim G D s s' = (nv s \<le> nv s' \<and> cls s \<subseteq> cls s' \<and>
     (\<forall>\<sigma>. sat_all \<sigma> (cls s') \<longrightarrow> obj \<sigma> s \<le> obj \<sigma> s' + D \<sigma>) \<and>
     (\<forall>\<sigma>. exact \<sigma> s \<and> G \<sigma> \<longrightarrow>
        (\<exists>\<sigma>'. agree_upto (nv s) \<sigma> \<sigma>' \<and> exact \<sigma>' s' \<and> obj \<sigma>' s' + D \<sigma> \<le> obj \<sigma> s)))"

text \<open>Guards and offsets that only look at the variables of a state.\<close>

definition local_upto :: "nat \<Rightarrow> (asg \<Rightarrow> 'a) \<Rightarrow> bool" where
  "local_upto n G = (\<forall>\<sigma> \<tau>. agree_upto n \<sigma> \<tau> \<longrightarrow> G \<sigma> = G \<tau>)"

abbreviation sim0 :: "ems \<Rightarrow> ems \<Rightarrow> bool" where
  "sim0 \<equiv> sim (\<lambda>\<sigma>. True) (\<lambda>\<sigma>. 0)"

lemma sim_refl: "sim0 s s"
  by (auto simp: sim_def intro: agree_refl)

lemma local_const [simp]: "local_upto n (\<lambda>\<sigma>. c)"
  by (simp add: local_upto_def)

lemma local_lit: "lit_upto n l \<Longrightarrow> local_upto n (\<lambda>\<sigma>. lit_true \<sigma> l)"
  by (simp add: local_upto_def agree_lit)

lemma sim_trans:
  assumes 1: "sim G D s s'" and 2: "sim G' D' s' s''" and loc: "local_upto (nv s) G'" "local_upto (nv s) D'"
  shows "sim (\<lambda>\<sigma>. G \<sigma> \<and> G' \<sigma>) (\<lambda>\<sigma>. D \<sigma> + D' \<sigma>) s s''"
  unfolding sim_def
proof (intro conjI allI impI)
  show "nv s \<le> nv s''" "cls s \<subseteq> cls s''" using 1 2 by (auto simp: sim_def)
  show "obj \<sigma> s \<le> obj \<sigma> s'' + (D \<sigma> + D' \<sigma>)" if "sat_all \<sigma> (cls s'')" for \<sigma>
  proof -
    have "sat_all \<sigma> (cls s')" using 2 that sat_all_mono by (auto simp: sim_def)
    then show ?thesis using 1 2 that by (fastforce simp: sim_def)
  qed
  fix \<sigma> assume \<sigma>: "exact \<sigma> s \<and> G \<sigma> \<and> G' \<sigma>"
  then obtain \<sigma>1 where 3: "agree_upto (nv s) \<sigma> \<sigma>1" "exact \<sigma>1 s'" "obj \<sigma>1 s' + D \<sigma> \<le> obj \<sigma> s"
    using 1 unfolding sim_def by blast
  have "G' \<sigma>1" "D' \<sigma>1 = D' \<sigma>" using \<sigma> loc 3(1) by (auto simp: local_upto_def)
  then obtain \<sigma>2 where 4: "agree_upto (nv s') \<sigma>1 \<sigma>2" "exact \<sigma>2 s''" "obj \<sigma>2 s'' + D' \<sigma> \<le> obj \<sigma>1 s'"
    using 2 3(2) unfolding sim_def by metis
  have "agree_upto (nv s) \<sigma> \<sigma>2" using agree_trans [OF 3(1) 4(1)] 1 by (simp add: sim_def)
  moreover have "obj \<sigma>2 s'' + (D \<sigma> + D' \<sigma>) \<le> obj \<sigma> s" using 3(3) 4(3) by simp
  ultimately show "\<exists>\<sigma>'. agree_upto (nv s) \<sigma> \<sigma>' \<and> exact \<sigma>' s'' \<and> obj \<sigma>' s'' + (D \<sigma> + D' \<sigma>) \<le> obj \<sigma> s"
    using 4(2) by blast
qed

lemma sim0_trans: "sim0 s s' \<Longrightarrow> sim0 s' s'' \<Longrightarrow> sim0 s s''"
  using sim_trans [of "\<lambda>\<sigma>. True" "\<lambda>\<sigma>. 0" s s' "\<lambda>\<sigma>. True" "\<lambda>\<sigma>. 0" s''] by simp

text \<open>A step that keeps variables, clauses and the stores, and changes costs by a known amount.\<close>

lemma sim_local:
  assumes "nv s' = nv s" "cls s' = cls s" "lheap s' = lheap s"
    and "\<And>\<sigma>. sat_all \<sigma> (cls s) \<Longrightarrow> obj \<sigma> s = obj \<sigma> s' + D \<sigma>"
  shows "sim (\<lambda>\<sigma>. True) D s s'"
  unfolding sim_def
proof (intro conjI allI impI)
  fix \<sigma> assume "exact \<sigma> s \<and> True"
  then have "exact \<sigma> s'" "obj \<sigma> s' + D \<sigma> \<le> obj \<sigma> s" using assms by (auto simp: exact_def)
  then show "\<exists>\<sigma>'. agree_upto (nv s) \<sigma> \<sigma>' \<and> exact \<sigma>' s' \<and> obj \<sigma>' s' + D \<sigma> \<le> obj \<sigma> s"
    using agree_refl by blast
qed (use assms in auto)

section \<open>Growth and totals\<close>

lemma grows_owed:
  assumes "grows s s'" "entry_ok s v e"
    and "out_open s' (lc_card e) (lc_atMost e + 1) = out_open s (lc_card e) (lc_atMost e + 1)"
  shows "owed n s' e = owed n s e"
  using assms growsD(6) [OF assms(1)] by (simp add: owed_def entry_ok_def)

lemma grows_wtotal:
  assumes "grows s s'" "base_inv s" "\<And>v. f v 0 = 0"
    and "\<And>v e. v < length (mapAssum2Card s) \<Longrightarrow> mapAssum2Card s ! v = Some e \<Longrightarrow>
       out_open s' (lc_card e) (lc_atMost e + 1) = out_open s (lc_card e) (lc_atMost e + 1)"
  shows "wtotal f n s' = wtotal f n s"
proof -
  have "esum (owed n s') (mapAssum2Card s') = esum (owed n s') (mapAssum2Card s)"
    unfolding growsD(4) [OF assms(1)] by (rule esum_nones)
  also have "\<dots> = esum (owed n s) (mapAssum2Card s)"
    using grows_owed [OF assms(1) base_invD(3) [OF assms(2)]] assms(4) by (intro esum_cong) blast
  finally show ?thesis
    using grows_fields [OF assms(1)] growsD(3) [OF assms(1)] vsum_zeros [of f, OF assms(3)] by (simp add: wtotal_def)
qed

text \<open>When output \<open>k + 1\<close> of the cardinality of one entry is created, that entry owes nothing any more.\<close>

lemma grows_wtotal_close:
  assumes "grows s s'" "base_inv s" "\<And>v. f v 0 = 0" "v0 < length (mapAssum2Card s)" "mapAssum2Card s ! v0 = Some e0"
    and op: "out_open s (lc_card e0) (lc_atMost e0 + 1)"
    and close: "\<forall>d < length (cards s). \<forall>j.
       out_open s' d j = (out_open s d j \<and> \<not> (d = lc_card e0 \<and> j = lc_atMost e0 + 1))"
  shows "wtotal f n s' = wtotal f n s - owed n s e0"
proof -
  have ok0: "entry_ok s v0 e0" using base_invD(3) [OF assms(2)] assms(4,5) .
  have same: "owed n s' e = owed n s e" if v: "v < length (mapAssum2Card s)" "mapAssum2Card s ! v = Some e" "v \<noteq> v0" for v e
  proof -
    have ok: "entry_ok s v e" using base_invD(3) [OF assms(2) v(1,2)] .
    have "\<not> (lc_card e = lc_card e0 \<and> lc_atMost e + 1 = lc_atMost e0 + 1)"
      using ok ok0 v(3) by (auto simp: entry_ok_def out_var_def)
    then show ?thesis using grows_owed [OF assms(1) ok] close ok by (simp add: entry_ok_def)
  qed
  have "owed n s' e0 = 0" using close ok0 by (simp add: owed_def entry_ok_def)
  then have "esum (owed n s') (mapAssum2Card s) = esum (owed n s) (mapAssum2Card s) - owed n s e0"
    using esum_diff_one [OF assms(4,5), of "owed n s'" "owed n s"] same by simp
  moreover have "esum (owed n s') (mapAssum2Card s') = esum (owed n s') (mapAssum2Card s)"
    unfolding growsD(4) [OF assms(1)] by (rule esum_nones)
  ultimately show ?thesis
    using grows_fields [OF assms(1)] growsD(3) [OF assms(1)] vsum_zeros [of f, OF assms(3)] by (simp add: wtotal_def)
qed

section \<open>\<open>relax\<close>\<close>

lemma relax_not_card:
  "lit \<noteq> 0 \<Longrightarrow> nat \<bar>lit\<bar> < length (mapAssum2Card s) \<Longrightarrow> mapAssum2Card s ! nat \<bar>lit\<bar> = None \<Longrightarrow>
     relax lit s = Some (None, s)"
  by (simp add: relax_def)

text \<open>The bound of the cardinality is already its number of literals.\<close>

lemma eval_atMost_trivial:
  "c < length (cards s) \<Longrightarrow> maxVars (cards s ! c) \<le> k \<Longrightarrow> eval_atMost c k s = Some (0, s)"
  by (simp add: eval_atMost_def es.card_atMost_trivial)

definition drop_entry :: "int \<Rightarrow> ems \<Rightarrow> ems" where
  "drop_entry lit s =
     (if wt (poids s) lit = 0 then s\<lparr>mapAssum2Card := (mapAssum2Card s)[nat \<bar>lit\<bar> := None]\<rparr> else s)"

lemma relax_last:
  assumes "base_inv s" "lit \<noteq> 0" "nat \<bar>lit\<bar> \<le> nv s" "mapAssum2Card s ! nat \<bar>lit\<bar> = Some e"
    and "maxVars (cards s ! lc_card e) \<le> lc_atMost e + 1"
  shows "relax lit s = Some (None, drop_entry lit s)"
proof -
  note B = base_invD [OF assms(1)]
  have "entry_ok s (nat \<bar>lit\<bar>) e" using B(3,10) assms(3,4) by simp
  then have "eval_atMost (lc_card e) (lc_atMost e + 1) s = Some (0, s)"
    using eval_atMost_trivial assms(5) by (simp add: entry_ok_def)
  moreover have "wv_get (poids s) lit = Some (wt (poids s) lit)" using B(9) assms(3) by (intro wv_get_wt) simp
  ultimately show ?thesis using assms(2,3,4) B(10) by (simp add: relax_def drop_entry_def)
qed

text \<open>The state after \<open>relax\<close> created the next literal of a cardinality.\<close>

definition next_lit :: "ems \<Rightarrow> int" where
  "next_lit s = - (int (nv s) + 1)"

definition next_entry :: "litcard \<Rightarrow> litcard" where
  "next_entry e = \<lparr>lc_card = lc_card e, lc_atMost = lc_atMost e + 1, lc_weight = lc_weight e\<rparr>"

definition with_soft :: "int \<Rightarrow> litcard \<Rightarrow> int list \<Rightarrow> ems \<Rightarrow> ems" where
  "with_soft l e p s = s\<lparr>mapAssum2Card := (mapAssum2Card s)[nat \<bar>l\<bar> := Some e], poids := p,
     mapWeight2Assum := map_insert_at (lc_weight e) l (mapWeight2Assum s)\<rparr>"

lemma relax_next:
  assumes inv: "base_inv s" and l: "lit \<noteq> 0" "nat \<bar>lit\<bar> \<le> nv s" and e: "mapAssum2Card s ! nat \<bar>lit\<bar> = Some e"
    and k: "lc_atMost e + 1 < maxVars (cards s ! lc_card e)" and op: "out_open s (lc_card e) (lc_atMost e + 1)"
    and w: "lc_weight e \<le> t_weight_max"
  obtains s1 p where "relax lit s = Some (Some (next_lit s), drop_entry lit (with_soft (next_lit s) (next_entry e) p s1))"
    "cards_inv s1" "grows s s1" "nv s < nv s1" "out_var s1 (lc_card e) (lc_atMost e + 1) (int (nv s) + 1)"
    "length (cards s1) = length (cards s)" "wv_set (next_lit s) (lc_weight e) (poids s1) = Some p"
    "\<forall>d < length (cards s). \<forall>j. out_open s1 d j = (out_open s d j \<and> \<not> (d = lc_card e \<and> j = lc_atMost e + 1))"
proof -
  note B = base_invD [OF inv]
  have ok: "entry_ok s (nat \<bar>lit\<bar>) e" using B(3,10) l(2) e by simp
  then have c: "lc_card e < length (cards s)" "0 < lc_weight e" by (auto simp: entry_ok_def)
  obtain v s1 where at: "eval_atMost (lc_card e) (lc_atMost e + 1) s = Some (- v, s1)" "cards_inv s1" "grows s s1"
      "out_var s1 (lc_card e) (lc_atMost e + 1) v" "length (cards s1) = length (cards s)"
      "\<forall>d < length (cards s). \<forall>j. out_open s1 d j = (out_open s d j \<and> \<not> (d = lc_card e \<and> j = lc_atMost e + 1))"
      "2 \<le> maxVars (cards s ! lc_card e) \<and> out_open s (lc_card e) (lc_atMost e + 1) \<longrightarrow> v = int (nv s) + 1"
    using eval_atMost_ok [OF B(1) c(1) k] by blast
  have v: "v = int (nv s) + 1" using at(7) k op by simp
  have fl: "- v = next_lit s" "nat \<bar>next_lit s\<bar> = nv s + 1" "next_lit s \<noteq> 0" using v by (auto simp: next_lit_def)
  note G = growsD [OF at(3)]
  have nv1: "nv s < nv s1"
    using out_var_upto [OF at(2) _ at(4)] at(5) c(1) v by (simp add: lit_upto_def)
  have len: "length (mapAssum2Card s1) = nv s1 + 1" "length (poids s1) = nv s1 + 1"
    using cards_invD(3) [OF at(2)] by (simp_all add: sink_ok_def)
  have none: "mapAssum2Card s1 ! (nv s + 1) = None"
    using G(4) nv1 B(10) by (simp add: nth_append)
  obtain p where p: "wv_set (next_lit s) (lc_weight e) (poids s1) = Some p"
    using wv_set_Some len(2) nv1 fl(2) by (metis less_add_one less_trans_Suc Suc_eq_plus1 add_less_cancel_right)
  have get: "wv_get p (next_lit s) = Some (lc_weight e)" by (rule wv_get_set(1) [OF p])
  have key: "u64 (lc_weight e) = lc_weight e" using c(2) w by (simp add: u64_id)
  have lp: "length p = nv s1 + 1" using wv_set_length [OF p] len(2) by simp
  have getl: "wv_get p lit = Some (wt p lit)" using lp l(2) nv1 by (intro wv_get_wt) simp
  have "relax lit s = Some (Some (next_lit s), drop_entry lit (with_soft (next_lit s) (next_entry e) p s1))"
    using l e at(1) fl nv1 none p get getl c(2) B(10) len(1)
    by (simp add: relax_def Let_def set_poids_def mw_insert_def key with_soft_def next_entry_def drop_entry_def)
  then show ?thesis using that at(2-6) nv1 p v by blast
qed

section \<open>A new cardinality literal\<close>

lemma grows_entry: "grows s s' \<Longrightarrow> entry_ok s v e \<Longrightarrow> entry_ok s' v e"
  using growsD(5,7,8) [of s s'] by (auto simp: entry_ok_def intro: less_le_trans)

lemma grows_base:
  assumes "grows s s'" "base_inv s" "cards_inv s'"
    and "\<forall>c < length (cards s'). \<forall>j \<ge> 1. out_open s' c j \<longrightarrow> out_open s' c (Suc j)"
  shows "base_inv s'"
proof -
  note B = base_invD [OF assms(2)] and G = growsD [OF assms(1)] and F = grows_fields [OF assms(1)]
  have "entry_ok s' v e" if v: "v < length (mapAssum2Card s')" "mapAssum2Card s' ! v = Some e" for v e
  proof -
    have "v < length (mapAssum2Card s) \<and> mapAssum2Card s ! v = Some e"
      using v unfolding G(4) by (auto simp: nth_append split: if_splits)
    then show ?thesis using grows_entry [OF assms(1)] B(3) by blast
  qed
  moreover have "cardToAdd_ok (nv s') (cardToAdd s')"
    using B(7) F(3) lit_upto_mono [OF _ G(1)] by (fastforce simp: cardToAdd_ok_def)
  moreover have "poids s' ! 0 = 0" "mapAssum2Card s' ! 0 = None"
    using B(4,5,9,10) G(3,4) by (simp_all add: nth_append)
  ultimately show ?thesis using assms(3,4) B(6) F(2) by (simp add: base_inv_def)
qed

text \<open>Filing a literal with its weight and its cardinality touches neither clauses nor stores.\<close>

lemma with_soft_simps [simp]:
  "nv (with_soft l e p s) = nv s" "cls (with_soft l e p s) = cls s" "lheap (with_soft l e p s) = lheap s"
  "cards (with_soft l e p s) = cards s" "cost (with_soft l e p s) = cost s" "solver (with_soft l e p s) = solver s"
  "cardToAdd (with_soft l e p s) = cardToAdd s" "litToRelax (with_soft l e p s) = litToRelax s"
  "poids (with_soft l e p s) = p" "solutionCost (with_soft l e p s) = solutionCost s"
  "mapWeight2Assum (with_soft l e p s) = map_insert_at (lc_weight e) l (mapWeight2Assum s)"
  "mapAssum2Card (with_soft l e p s) = (mapAssum2Card s)[nat \<bar>l\<bar> := Some e]"
  by (simp_all add: with_soft_def nv_def cls_def)

text \<open>What outputs, totals of entries and models depend on.\<close>

lemma outs_cong: "lheap s' = lheap s \<Longrightarrow> cards s' = cards s \<Longrightarrow>
    outs s' = outs s \<and> clits s' = clits s \<and> out_open s' = out_open s \<and> out_var s' = out_var s \<and> owed n s' = owed n s"
  by (simp add: fun_eq_iff outs_def clits_def out_open_def out_var_def owed_def)

lemma exact_cong: "lheap s' = lheap s \<Longrightarrow> cls s' = cls s \<Longrightarrow> exact \<sigma> s' = exact \<sigma> s"
  by (simp add: exact_def)

lemma cards_inv_cong:
  assumes "lheap s' = lheap s" "cards s' = cards s" "solver s' = solver s"
    "length (poids s') = length (poids s)" "length (mapAssum2Card s') = length (mapAssum2Card s)"
  shows "cards_inv s' = cards_inv s"
  using assms by (simp add: cards_inv_def es.lv_inv_def sink_ok_def nv_def cls_def outs_def)

lemma base_inv_cong:
  assumes "lheap s' = lheap s" "cards s' = cards s" "solver s' = solver s"
    "length (poids s') = length (poids s)" "length (mapAssum2Card s') = length (mapAssum2Card s)"
    and "base_inv s" "poids s' ! 0 = 0" "mapAssum2Card s' ! 0 = None" "0 \<le> cost s'" "cardToAdd_ok (nv s) (cardToAdd s')"
    and "\<And>v e. v < length (mapAssum2Card s) \<Longrightarrow> mapAssum2Card s' ! v = Some e \<Longrightarrow> entry_ok s v e"
  shows "base_inv s'"
proof -
  note o = outs_cong [OF assms(1,2)]
  have "entry_ok s' v e = entry_ok s v e" for v e using assms(2) o by (simp add: entry_ok_def)
  moreover have "nv s' = nv s" using assms(3) by (simp add: nv_def)
  ultimately show ?thesis
    using assms cards_inv_cong [OF assms(1-5)] o by (simp add: base_inv_def)
qed

lemma with_soft_ok:
  assumes inv: "base_inv s" and v: "0 < v" "v \<le> nv s" "mapAssum2Card s ! v = None" "poids s ! v = 0"
    and e: "entry_ok s v e" and p: "wv_set (- int v) (lc_weight e) (poids s) = Some p"
  shows "base_inv (with_soft (- int v) e p s)"
    "(\<And>v. f v 0 = 0) \<Longrightarrow> wtotal f n (with_soft (- int v) e p s) = wtotal f n s + f (int v) (- lc_weight e) + owed n s e"
    "wt p = wt_set (- int v) (lc_weight e) (wt (poids s))" "p = (poids s)[v := - lc_weight e]"
proof -
  note B = base_invD [OF inv]
  let ?s = "with_soft (- int v) e p s"
  show pv: "p = (poids s)[v := - lc_weight e]" using wv_set_nth [OF p] v(1) by simp
  show "wt p = wt_set (- int v) (lc_weight e) (wt (poids s))" using wv_set_wt [OF p] v(1) by simp
  have m: "mapAssum2Card ?s = (mapAssum2Card s)[v := Some e]" by simp
  show "base_inv ?s"
  proof (rule base_inv_cong [OF _ _ _ _ _ inv])
    show "entry_ok s u d" if "u < length (mapAssum2Card s)" "mapAssum2Card ?s ! u = Some d" for u d
      using that e B(3) [of u d] unfolding m by (cases "u = v") auto
  qed (use B v pv in simp_all)
  assume f: "\<And>v. f v 0 = 0"
  have "vsum f p = vsum f (poids s) + f (int v) (- lc_weight e)"
    unfolding pv using vsum_update [of v "poids s" f] v B(9) f by simp
  moreover have "esum (owed n s) ((mapAssum2Card s)[v := Some e]) = esum (owed n s) (mapAssum2Card s) + owed n s e"
    using esum_update [of v "mapAssum2Card s" "owed n s"] v B(10) by (simp add: opt_sum_def)
  moreover have "owed n ?s = owed n s" using outs_cong [of ?s s n] by simp
  ultimately show "wtotal f n ?s = wtotal f n s + f (int v) (- lc_weight e) + owed n s e"
    unfolding wtotal_def m by simp
qed

section \<open>What \<open>relax\<close> keeps\<close>

text \<open>Fields that only the solving loop writes.\<close>

definition same_rest :: "ems \<Rightarrow> ems \<Rightarrow> bool" where
  "same_rest s s' = (s' = s\<lparr>solver := solver s', poids := poids s', mapWeight2Assum := mapWeight2Assum s',
     mapAssum2Card := mapAssum2Card s', lheap := lheap s', cards := cards s'\<rparr> \<and> length (cards s') = length (cards s))"

lemma same_restD:
  assumes "same_rest s s'"
  shows "cost s' = cost s" "cardToAdd s' = cardToAdd s"
    "litToRelax s' = litToRelax s" "solutionCost s' = solutionCost s" "solution s' = solution s"
    "start_solve s' = start_solve s" "is_incremental s' = is_incremental s" "nInputVars s' = nInputVars s"
proof -
  have eq: "s' = s\<lparr>solver := a, poids := b, mapWeight2Assum := c, mapAssum2Card := d, lheap := f, cards := g\<rparr> \<Longrightarrow>
      cost s' = cost s \<and> cardToAdd s' = cardToAdd s \<and>
      litToRelax s' = litToRelax s \<and> solutionCost s' = solutionCost s \<and> solution s' = solution s \<and>
      start_solve s' = start_solve s \<and> is_incremental s' = is_incremental s \<and> nInputVars s' = nInputVars s" for a b c d f g
    by simp
  show "cost s' = cost s" "cardToAdd s' = cardToAdd s"
    "litToRelax s' = litToRelax s" "solutionCost s' = solutionCost s" "solution s' = solution s"
    "start_solve s' = start_solve s" "is_incremental s' = is_incremental s" "nInputVars s' = nInputVars s"
    using eq [OF assms [unfolded same_rest_def, THEN conjunct1]] by simp_all
qed

lemma same_rest_refl [simp]: "same_rest s s"
  by (simp add: same_rest_def)

lemma same_rest_trans:
  assumes "same_rest s t" "same_rest t u"
  shows "same_rest s u"
proof -
  have "t = s\<lparr>solver := a, poids := b, mapWeight2Assum := c, mapAssum2Card := d, lheap := f, cards := g\<rparr> \<Longrightarrow>
     u = t\<lparr>solver := a', poids := b', mapWeight2Assum := c', mapAssum2Card := d', lheap := f', cards := g'\<rparr> \<Longrightarrow>
     length g = length (cards s) \<Longrightarrow> length g' = length g \<Longrightarrow> same_rest s u" for a b c d f g a' b' c' d' f' g'
    by (simp add: same_rest_def)
  then show ?thesis using assms unfolding same_rest_def [of s t] same_rest_def [of t u] by blast
qed

text \<open>The same when the constant cost may change too.\<close>

definition kept :: "ems \<Rightarrow> ems \<Rightarrow> bool" where
  "kept s s' = (s' = s\<lparr>solver := solver s', poids := poids s', mapWeight2Assum := mapWeight2Assum s', cost := cost s',
     mapAssum2Card := mapAssum2Card s', lheap := lheap s', cards := cards s'\<rparr> \<and> length (cards s') = length (cards s))"

lemma keptD:
  assumes "kept s s'"
  shows "cardToAdd s' = cardToAdd s" "litToRelax s' = litToRelax s" "solutionCost s' = solutionCost s" "solution s' = solution s"
    "start_solve s' = start_solve s" "is_incremental s' = is_incremental s" "nInputVars s' = nInputVars s"
    "delayStrategy s' = delayStrategy s" "multiSolveStrategy s' = multiSolveStrategy s" "UBStrategy s' = UBStrategy s"
    "toOptimize s' = toOptimize s" "length (cards s') = length (cards s)"
proof -
  show "length (cards s') = length (cards s)" using assms by (simp add: kept_def)
qed (subst assms [unfolded kept_def, THEN conjunct1], simp)+

lemma kept_refl [simp]: "kept s s"
  by (simp add: kept_def)

lemma kept_trans:
  assumes "kept s t" "kept t u"
  shows "kept s u"
proof -
  have "t = s\<lparr>solver := a, poids := b, mapWeight2Assum := c, cost := k, mapAssum2Card := d, lheap := f, cards := g\<rparr> \<Longrightarrow>
     u = t\<lparr>solver := a', poids := b', mapWeight2Assum := c', cost := k', mapAssum2Card := d', lheap := f', cards := g'\<rparr> \<Longrightarrow>
     length g = length (cards s) \<Longrightarrow> length g' = length g \<Longrightarrow> kept s u" for a b c d f g k a' b' c' d' f' g' k'
    by (simp add: kept_def)
  then show ?thesis using assms unfolding kept_def [of s t] kept_def [of t u] by blast
qed

lemma same_rest_kept:
  assumes "same_rest s s'"
  shows "kept s s'"
proof -
  have "s' = s\<lparr>solver := a, poids := b, mapWeight2Assum := c, mapAssum2Card := d, lheap := f, cards := g\<rparr> \<Longrightarrow>
      length g = length (cards s) \<Longrightarrow> kept s s'" for a b c d f g
    by (simp add: kept_def)
  then show ?thesis using assms unfolding same_rest_def by blast
qed

lemma grows_same_rest:
  assumes "grows s s'" and len: "length (cards s') = length (cards s)"
  shows "same_rest s s'"
proof -
  have "s' = s\<lparr>solver := a, poids := b, mapAssum2Card := d, lheap := f, cards := g\<rparr> \<Longrightarrow>
      length g = length (cards s) \<Longrightarrow> same_rest s s'" for a b d f g
    by (simp add: same_rest_def)
  then show ?thesis using growsD(10) [OF assms(1)] len by blast
qed

lemma with_soft_same_rest: "same_rest s (with_soft l e p s)"
  by (simp add: same_rest_def with_soft_def)

lemma drop_entry_same_rest: "same_rest s (drop_entry l s)"
  by (simp add: same_rest_def drop_entry_def)

lemma drop_entry_simps [simp]:
  "nv (drop_entry l s) = nv s" "cls (drop_entry l s) = cls s" "lheap (drop_entry l s) = lheap s"
  "cards (drop_entry l s) = cards s" "cost (drop_entry l s) = cost s" "solver (drop_entry l s) = solver s"
  "cardToAdd (drop_entry l s) = cardToAdd s" "poids (drop_entry l s) = poids s"
  "mapWeight2Assum (drop_entry l s) = mapWeight2Assum s"
  by (simp_all add: drop_entry_def nv_def cls_def)

lemma drop_entry_map:
  "mapAssum2Card (drop_entry l s) =
     (if wt (poids s) l = 0 then (mapAssum2Card s)[nat \<bar>l\<bar> := None] else mapAssum2Card s)"
  by (simp add: drop_entry_def)

lemma drop_entry_ok:
  assumes "base_inv s" "nat \<bar>l\<bar> \<le> nv s" "\<And>e. mapAssum2Card s ! nat \<bar>l\<bar> = Some e \<Longrightarrow> owed n s e = 0"
  shows "base_inv (drop_entry l s)" "wtotal f n (drop_entry l s) = wtotal f n s"
proof -
  note B = base_invD [OF assms(1)]
  show "base_inv (drop_entry l s)"
  proof (rule base_inv_cong [OF _ _ _ _ _ assms(1)])
    show "entry_ok s v e" if "v < length (mapAssum2Card s)" "mapAssum2Card (drop_entry l s) ! v = Some e" for v e
      using that B(3) [of v e] by (cases "v = nat \<bar>l\<bar>") (auto simp: drop_entry_map split: if_splits)
    show "mapAssum2Card (drop_entry l s) ! 0 = None"
      using B(5,10) by (cases "nat \<bar>l\<bar> = 0") (auto simp: drop_entry_map)
  qed (use B in \<open>simp_all add: drop_entry_map\<close>)
  have "opt_sum (owed n s) (mapAssum2Card s ! nat \<bar>l\<bar>) = 0"
    using assms(3) by (simp add: opt_sum_def split: option.split)
  then have "esum (owed n s) ((mapAssum2Card s)[nat \<bar>l\<bar> := None]) = esum (owed n s) (mapAssum2Card s)"
    using esum_update [of "nat \<bar>l\<bar>" "mapAssum2Card s" "owed n s" None] assms(2) B(10) by (simp add: opt_sum_def)
  moreover have "owed n (drop_entry l s) = owed n s" using outs_cong [of "drop_entry l s" s n] by simp
  ultimately show "wtotal f n (drop_entry l s) = wtotal f n s" by (simp add: wtotal_def drop_entry_map)
qed

text \<open>
  The effect of \<open>relax\<close> on a literal whose cardinality has no successor literal yet. The entry of the
  literal is gone, or done; every other entry keeps its state; costs are the same before and after.
\<close>

definition relaxed :: "int \<Rightarrow> int option \<Rightarrow> ems \<Rightarrow> ems \<Rightarrow> bool" where
  "relaxed lit r s s' = (base_inv s' \<and> nv s \<le> nv s' \<and> same_rest s s' \<and> sim0 s s' \<and> budget s' = budget s \<and>
     (case r of
        None \<Rightarrow> poids s' = poids s \<and> mapWeight2Assum s' = mapWeight2Assum s \<and> nv s' = nv s
      | Some l \<Rightarrow> l = next_lit s \<and> nv s < nv s' \<and> (\<exists>w > 0. wt (poids s') = wt_set l w (wt (poids s)) \<and>
          mapWeight2Assum s' = map_insert_at w l (mapWeight2Assum s))) \<and>
     (\<forall>e. mapAssum2Card s' ! nat \<bar>lit\<bar> = Some e \<longrightarrow> wt (poids s) lit \<noteq> 0 \<and>
        (\<not> out_open s' (lc_card e) (lc_atMost e + 1) \<or> maxVars (cards s' ! lc_card e) \<le> lc_atMost e + 1)) \<and>
     (\<forall>v. v \<le> nv s \<and> v \<noteq> nat \<bar>lit\<bar> \<longrightarrow> mapAssum2Card s' ! v = mapAssum2Card s ! v \<and> poids s' ! v = poids s ! v) \<and>
     (\<forall>W. (\<forall>v \<le> nv s. \<forall>e. v \<noteq> nat \<bar>lit\<bar> \<and> mapAssum2Card s ! v = Some e \<longrightarrow> live_ok W s v e) \<longrightarrow>
          (\<forall>v \<le> nv s'. \<forall>e. v \<noteq> nat \<bar>lit\<bar> \<and> mapAssum2Card s' ! v = Some e \<longrightarrow> live_ok W s' v e)))"

lemma owed_last:
  assumes "base_inv s" "entry_ok s v e" "maxVars (cards s ! lc_card e) \<le> lc_atMost e + 1"
    and "\<And>ls. n ls \<le> length ls"
  shows "owed n s e = 0"
proof -
  have c: "lc_card e < length (cards s)" using assms(2) by (simp add: entry_ok_def)
  have "length (clits s (lc_card e)) = maxVars (cards s ! lc_card e)"
    using card_ok_nof [OF cards_invD(5) [OF base_invD(1) [OF assms(1)] c]] by (simp add: clits_def)
  then show ?thesis using assms(3) assms(4) [of "clits s (lc_card e)"] by (simp add: owed_def)
qed

lemma sim_cong_obj:
  assumes "nv s' = nv s" "cls s' = cls s" "lheap s' = lheap s" "\<And>\<sigma>. obj \<sigma> s' = obj \<sigma> s"
  shows "sim0 s s'"
  using sim_local [of s' s "\<lambda>\<sigma>. 0"] assms by simp

lemma relaxed_last:
  assumes inv: "base_inv s" and l: "lit \<noteq> 0" "nat \<bar>lit\<bar> \<le> nv s" and e: "mapAssum2Card s ! nat \<bar>lit\<bar> = Some e"
    and k: "maxVars (cards s ! lc_card e) \<le> lc_atMost e + 1"
  shows "relaxed lit None s (drop_entry lit s)"
proof -
  note B = base_invD [OF inv]
  let ?s = "drop_entry lit s"
  have ok: "entry_ok s (nat \<bar>lit\<bar>) e" using B(3,10) l(2) e by simp
  have "owed length s e = 0" "owed (count_true \<sigma>) s e = 0" for \<sigma>
    using owed_last [OF inv ok k] count_true_le by auto
  then have tot: "base_inv ?s" "wtotal f length ?s = wtotal f length s"
      "wtotal f (count_true \<sigma>) ?s = wtotal f (count_true \<sigma>) s" for f \<sigma>
    using drop_entry_ok [OF inv l(2)] e by auto
  note o = outs_cong [of ?s s]
  have "live_ok W ?s v d = live_ok W s v d" for W v d using o by (simp add: live_ok_def)
  then have live: "live_ok W ?s v d" if "\<forall>v \<le> nv s. \<forall>e. v \<noteq> nat \<bar>lit\<bar> \<and> mapAssum2Card s ! v = Some e \<longrightarrow> live_ok W s v e"
      "v \<le> nv ?s" "v \<noteq> nat \<bar>lit\<bar>" "mapAssum2Card ?s ! v = Some d" for W v d
    using that by (auto simp: drop_entry_map split: if_splits)
  have "sim0 s ?s" using tot by (intro sim_cong_obj) (simp_all add: obj_def)
  then show ?thesis
    unfolding relaxed_def using tot live k e l(2) B(10) o drop_entry_same_rest
    by (simp add: budget_def drop_entry_map)
qed

text \<open>The arithmetic of one relaxation: the new literal and what it owes pay for what the old one owed.\<close>

lemma relax_cost:
  fixes n k :: nat and w :: int
  assumes "0 < w"
  shows "(if k + 1 < n then w else 0) + w * int (n - (k + 2)) = w * int (n - (k + 1))"
proof (cases "k + 1 < n")
  case True
  then have "int (n - (k + 1)) = int (n - (k + 2)) + 1" by linarith
  then show ?thesis using True by (simp add: algebra_simps)
qed simp

lemma relaxed_next:
  assumes inv: "base_inv s" and l: "lit \<noteq> 0" "nat \<bar>lit\<bar> \<le> nv s" and e: "mapAssum2Card s ! nat \<bar>lit\<bar> = Some e"
    and k: "lc_atMost e + 1 < maxVars (cards s ! lc_card e)" and op: "out_open s (lc_card e) (lc_atMost e + 1)"
    and s1: "cards_inv s1" "grows s s1" "nv s < nv s1" "out_var s1 (lc_card e) (lc_atMost e + 1) (int (nv s) + 1)"
      "length (cards s1) = length (cards s)" "wv_set (next_lit s) (lc_weight e) (poids s1) = Some p"
      "\<forall>d < length (cards s). \<forall>j. out_open s1 d j = (out_open s d j \<and> \<not> (d = lc_card e \<and> j = lc_atMost e + 1))"
  shows "relaxed lit (Some (next_lit s)) s (drop_entry lit (with_soft (next_lit s) (next_entry e) p s1))"
proof -
  note B = base_invD [OF inv] and G = growsD [OF s1(2)] and F = grows_fields [OF s1(2)]
  let ?v = "nv s + 1" and ?c = "lc_card e" and ?k = "lc_atMost e" and ?w = "lc_weight e" and ?e = "next_entry e"
  have ok: "entry_ok s (nat \<bar>lit\<bar>) e" using B(3,10) l(2) e by simp
  then have c: "?c < length (cards s)" "0 < ?w" "1 \<le> ?k" "out_var s ?c ?k (int (nat \<bar>lit\<bar>))" by (auto simp: entry_ok_def)
  have base1: "base_inv s1"
  proof (rule grows_base [OF s1(2) inv s1(1)], intro allI impI)
    fix d j assume d: "d < length (cards s1)" and j: "1 \<le> j" and o: "out_open s1 d j"
    have "\<not> out_open s ?c ?k" using c(4) by (simp add: out_var_def out_open_def)
    then show "out_open s1 d (Suc j)" using d j o s1(5,7) B(2) [of d j] by auto
  qed
  note B1 = base_invD [OF base1]
  have e1: "entry_ok s1 ?v ?e" using c k s1(4,5) G(7) [OF c(1)] by (simp add: entry_ok_def next_entry_def add.commute)
  have v1: "0 < ?v" "?v \<le> nv s1" "mapAssum2Card s1 ! ?v = None" "poids s1 ! ?v = 0"
    using s1(3) B(9,10) G(3,4) by (simp_all add: nth_append)
  have fl: "next_lit s = - int ?v" "lc_weight ?e = ?w" by (simp_all add: next_lit_def next_entry_def)
  define s2 where "s2 = with_soft (next_lit s) ?e p s1"
  have p': "wv_set (- int ?v) (lc_weight ?e) (poids s1) = Some p" using s1(6) fl by simp
  note W = with_soft_ok [OF base1 v1 e1 p', folded fl(1), folded s2_def]
  have clit: "clits s1 ?c = clits s ?c" using G(6) c(1) by blast
  have open2: "out_open s1 ?c (?k + 2)"
    using s1(7) c(1) B(2) [OF c(1) _ op] by simp
  have ow1: "owed n s1 ?e = ?w * int (n (clits s ?c) - (?k + 2))" for n
    using open2 clit by (simp add: owed_def next_entry_def)
  have ow: "owed n s e = ?w * int (n (clits s ?c) - (?k + 1))" for n using op by (simp add: owed_def)
  have tot1: "wtotal f n s1 = wtotal f n s - owed n s e" if "\<And>v. f v 0 = 0" for f n
    by (rule grows_wtotal_close [where f = f, OF s1(2) inv that _ e op s1(7)]) (use l(2) B(10) in simp)
  have tot2: "wtotal f n s2 = wtotal f n s + f (int ?v) (- ?w) + ?w * int (n (clits s ?c) - (?k + 2)) - ?w * int (n (clits s ?c) - (?k + 1))"
    if "\<And>v. f v 0 = 0" for f n
    using W(2) [where f = f and n = n] that tot1 [where f = f and n = n] ow1 ow fl(2) by simp
  have len: "length (clits s ?c) = maxVars (cards s ! ?c)"
    using card_ok_nof [OF cards_invD(5) [OF B(1) c(1)]] by (simp add: clits_def)
  have bud: "budget s2 = budget s"
    unfolding budget_def using tot2 [of "\<lambda>v w. \<bar>w\<bar>" length] relax_cost [OF c(2), of ?k "length (clits s ?c)"] len k c(2) by simp
  have obj2: "obj \<sigma> s2 = obj \<sigma> s + (if \<sigma> (int (nv s) + 1) then ?w else 0) - (if ?k + 1 < count_true \<sigma> (clits s ?c) then ?w else 0)" for \<sigma>
  proof -
    have "vcost \<sigma> (int ?v) (- ?w) = (if \<sigma> (int (nv s) + 1) then ?w else 0)"
      using c(2) by (simp add: vcost_def add.commute)
    then show ?thesis
      unfolding obj_def using tot2 [of "vcost \<sigma>" "count_true \<sigma>", OF vcost_zero] relax_cost [OF c(2), of ?k "count_true \<sigma> (clits s ?c)"]
      by linarith
  qed
  have s2f: "nv s2 = nv s1" "cls s2 = cls s1" "lheap s2 = lheap s1" "cards s2 = cards s1" by (simp_all add: s2_def)
  have c1: "?c < length (cards s1)" using c(1) s1(5) by simp
  have le2: "obj \<sigma> s \<le> obj \<sigma> s2" if "sat_all \<sigma> (cls s1)" for \<sigma>
    using obj2 [of \<sigma>] card_count(1) [OF s1(1) c1 s1(4) that] clit c(2) by (auto simp: lit_true_def)
  have eq2: "obj \<sigma> s2 = obj \<sigma> s" if "exact \<sigma> s1" for \<sigma>
    using obj2 [of \<sigma>] card_count(2) [OF s1(1) c1 s1(4) that] clit by (auto simp: lit_true_def)
  have ne: "nat \<bar>lit\<bar> \<noteq> ?v" using l(2) by simp
  have map2: "mapAssum2Card s2 = (mapAssum2Card s1)[?v := Some ?e]" by (simp add: s2_def next_lit_def nat_add_distrib)
  have m2: "mapAssum2Card s2 ! v = mapAssum2Card s ! v" "poids s2 ! v = poids s ! v" if "v \<le> nv s" for v
    using that B(9,10) G(3,4) W(4) by (simp_all add: s2_def fl(1) nth_append)
  note o2 = outs_cong [of s2 s1, OF s2f(3,4)]
  have closed: "\<not> out_open s2 ?c (?k + 1)" using s1(7) c(1) o2 by simp
  then have ow0: "owed n s2 d = 0" if "mapAssum2Card s2 ! nat \<bar>lit\<bar> = Some d" for n d
    using that m2(1) [OF l(2)] e by (simp add: owed_def)
  have l2: "nat \<bar>lit\<bar> \<le> nv s2" using l(2) s1(3) s2f(1) by simp
  define s3 where "s3 = drop_entry lit s2"
  note D = drop_entry_ok [OF W(1) l2 ow0, folded s3_def]
  have obj3: "obj \<sigma> s3 = obj \<sigma> s2" for \<sigma> using D(2) by (simp add: obj_def)
  have s3f: "nv s3 = nv s1" "cls s3 = cls s1" "lheap s3 = lheap s1" "cards s3 = cards s1" "poids s3 = p"
      "mapWeight2Assum s3 = map_insert_at ?w (next_lit s) (mapWeight2Assum s)"
    using s2f F(1) fl(2) by (simp_all add: s3_def s2_def)
  note o3 = outs_cong [of s3 s1, OF s3f(3,4)]
  have m3: "mapAssum2Card s3 ! v = mapAssum2Card s ! v" "poids s3 ! v = poids s ! v" if "v \<le> nv s" "v \<noteq> nat \<bar>lit\<bar>" for v
    using m2 [OF that(1)] that(2) by (simp_all add: s3_def drop_entry_map)
  have wts: "wt p = wt_set (next_lit s) ?w (wt (poids s))" using W(3) fl(2) G(3) by simp
  have wl: "wt p lit = wt (poids s) lit" using wts l ne by (auto simp: wt_set_def next_lit_def)
  have sim: "sim0 s s3"
    unfolding sim_def
  proof (intro conjI allI impI)
    fix \<sigma> assume "exact \<sigma> s \<and> True"
    then obtain \<sigma>' where \<sigma>': "agree_upto (nv s) \<sigma> \<sigma>'" "exact \<sigma>' s1" using G(9) by blast
    have "exact \<sigma>' s3" using \<sigma>'(2) exact_cong [OF s3f(3,2)] by blast
    moreover have "obj \<sigma>' s3 = obj \<sigma> s" using obj3 eq2 [OF \<sigma>'(2)] obj_agree [OF inv \<sigma>'(1)] by simp
    ultimately show "\<exists>\<sigma>'. agree_upto (nv s) \<sigma> \<sigma>' \<and> exact \<sigma>' s3 \<and> obj \<sigma>' s3 + 0 \<le> obj \<sigma> s" using \<sigma>'(1) by auto
  qed (use s3f G(1,2) obj3 le2 in auto)
  have live3: "live_ok W s3 v d" if L: "\<forall>v \<le> nv s. \<forall>e. v \<noteq> nat \<bar>lit\<bar> \<and> mapAssum2Card s ! v = Some e \<longrightarrow> live_ok W s v e"
      and v: "v \<le> nv s3" "v \<noteq> nat \<bar>lit\<bar>" "mapAssum2Card s3 ! v = Some d" for W v d
  proof -
    consider "v \<le> nv s" | "v = ?v" | "?v < v" by linarith
    then show ?thesis
    proof cases
      case 1
      then have d: "mapAssum2Card s ! v = Some d" "poids s3 ! v = poids s ! v" "entry_ok s v d" "live_ok W s v d"
        using m3 v B(3,10) L by auto
      have "\<not> (lc_card d = ?c \<and> lc_atMost d = ?k)" using d(3) c(4) v(2) by (auto simp: entry_ok_def out_var_def)
      then have "out_open s3 (lc_card d) (lc_atMost d + 1) = out_open s (lc_card d) (lc_atMost d + 1)"
        using s1(7) d(3) o3 by (simp add: entry_ok_def)
      moreover have "maxVars (cards s3 ! lc_card d) = maxVars (cards s ! lc_card d)"
        using G(7) d(3) s3f(4) by (simp add: entry_ok_def)
      ultimately show ?thesis using d(2,4) G(2) s3f(2) by (auto simp: live_ok_def)
    next
      case 2
      then have "d = ?e" using v(3) ne v1(2) B1(10) by (auto simp: s3_def map2 drop_entry_map split: if_splits)
      moreover have "poids s3 ! v = - ?w" using 2 W(4) v1(2) B1(9) fl(2) s3f(5) by simp
      ultimately show ?thesis using open2 o3 c(2) by (simp add: live_ok_def next_entry_def)
    next
      case 3
      then have "mapAssum2Card s3 ! v = None"
        using v(1,2) s3f(1) G(4) B(10) by (auto simp: s3_def map2 drop_entry_map nth_append)
      then show ?thesis using v(3) by simp
    qed
  qed
  have here: "wt (poids s) lit \<noteq> 0 \<and> (\<not> out_open s3 (lc_card d) (lc_atMost d + 1) \<or> maxVars (cards s3 ! lc_card d) \<le> lc_atMost d + 1)"
    if "mapAssum2Card s3 ! nat \<bar>lit\<bar> = Some d" for d
  proof -
    have "wt p lit \<noteq> 0" using that l2 base_invD(10) [OF W(1)] by (auto simp: s3_def drop_entry_map s2_def)
    moreover have "d = e" using that m2(1) [OF l(2)] e l2 base_invD(10) [OF W(1)]
      by (auto simp: s3_def drop_entry_map split: if_splits)
    ultimately show ?thesis using wl closed o2 o3 by simp
  qed
  have "same_rest s s3"
    unfolding s3_def s2_def
    by (rule same_rest_trans [OF same_rest_trans [OF grows_same_rest [OF s1(2,5)] with_soft_same_rest] drop_entry_same_rest])
  moreover have "budget s3 = budget s" using D(2) bud by (simp add: budget_def)
  ultimately have "relaxed lit (Some (next_lit s)) s s3"
    unfolding relaxed_def using D(1) s3f(1,5,6) s1(3) sim m3 live3 here wts c(2) by auto
  then show ?thesis by (simp add: s3_def s2_def)
qed

lemma relaxed_refl:
  "base_inv s \<Longrightarrow> mapAssum2Card s ! nat \<bar>lit\<bar> = None \<Longrightarrow> relaxed lit None s s"
  by (simp add: relaxed_def sim_refl)

text \<open>The weight of a literal that can be relaxed is within the budget.\<close>

lemma budget_owed:
  assumes "base_inv s" "v \<le> nv s" "mapAssum2Card s ! v = Some e"
  shows "owed length s e \<le> budget s"
proof -
  note B = base_invD [OF assms(1)]
  have nn: "0 \<le> opt_sum (owed length s) (mapAssum2Card s ! u)" if "u < length (mapAssum2Card s)" for u
    using B(3) [OF that] owed_nonneg by (auto simp: opt_sum_def split: option.split)
  have "opt_sum (owed length s) (mapAssum2Card s ! v) \<le> esum (owed length s) (mapAssum2Card s)"
    unfolding esum_def using assms(2) B(10) nn by (intro member_le_sum) auto
  moreover have "0 \<le> vsum (\<lambda>v w. \<bar>w\<bar>) (poids s)" by (simp add: vsum_def sum_nonneg)
  moreover have "0 \<le> dsum length (cardToAdd s)"
    using B(7) by (intro dsum_nonneg) (auto simp: cardToAdd_ok_def)
  ultimately show ?thesis using assms(3) B(6) by (simp add: budget_def wtotal_def opt_sum_def)
qed

lemma relax_ok:
  assumes inv: "base_inv s" and l: "lit \<noteq> 0" "nat \<bar>lit\<bar> \<le> nv s" and bud: "budget s \<le> t_weight_max"
    and op: "\<And>e. mapAssum2Card s ! nat \<bar>lit\<bar> = Some e \<Longrightarrow> out_open s (lc_card e) (lc_atMost e + 1)"
  obtains r s' where "relax lit s = Some (r, s')" "relaxed lit r s s'"
proof (cases "mapAssum2Card s ! nat \<bar>lit\<bar>")
  case None
  then show ?thesis
    using that relax_not_card [OF l(1) _ None] relaxed_refl [OF inv None] l(2) base_invD(10) [OF inv] by simp
next
  case (Some e)
  show ?thesis
  proof (cases "maxVars (cards s ! lc_card e) \<le> lc_atMost e + 1")
    case True
    then show ?thesis using that relax_last [OF inv l Some] relaxed_last [OF inv l Some] by blast
  next
    case False
    have ok: "entry_ok s (nat \<bar>lit\<bar>) e" using base_invD(3,10) [OF inv] l(2) Some by simp
    have "length (clits s (lc_card e)) = maxVars (cards s ! lc_card e)"
      using card_ok_nof [OF cards_invD(5) [OF base_invD(1) [OF inv]]] ok by (simp add: clits_def entry_ok_def)
    then have "lc_weight e * 1 \<le> owed length s e"
      unfolding owed_def using op [OF Some] False ok by (simp add: entry_ok_def)
    then have w: "lc_weight e \<le> t_weight_max" using budget_owed [OF inv l(2) Some] bud by simp
    obtain s1 p where 1: "relax lit s = Some (Some (next_lit s), drop_entry lit (with_soft (next_lit s) (next_entry e) p s1))"
      "cards_inv s1" "grows s s1" "nv s < nv s1" "out_var s1 (lc_card e) (lc_atMost e + 1) (int (nv s) + 1)"
      "length (cards s1) = length (cards s)" "wv_set (next_lit s) (lc_weight e) (poids s1) = Some p"
      "\<forall>d < length (cards s). \<forall>j. out_open s1 d j = (out_open s d j \<and> \<not> (d = lc_card e \<and> j = lc_atMost e + 1))"
      using relax_next [OF inv l Some _ op [OF Some] w] False by (metis not_le)
    then show ?thesis
      using that [OF 1(1)] relaxed_next [OF inv l Some _ op [OF Some] 1(2-8)] False by simp
  qed
qed

lemma relaxedD:
  assumes "relaxed lit r s s'"
  shows "base_inv s'" "nv s \<le> nv s'" "same_rest s s'" "sim0 s s'" "budget s' = budget s"
    "v \<le> nv s \<Longrightarrow> v \<noteq> nat \<bar>lit\<bar> \<Longrightarrow> mapAssum2Card s' ! v = mapAssum2Card s ! v"
    "mapAssum2Card s' ! nat \<bar>lit\<bar> = Some e \<Longrightarrow> wt (poids s) lit \<noteq> 0 \<and>
        (\<not> out_open s' (lc_card e) (lc_atMost e + 1) \<or> maxVars (cards s' ! lc_card e) \<le> lc_atMost e + 1)"
    "(\<And>v e. v \<le> nv s \<Longrightarrow> v \<noteq> nat \<bar>lit\<bar> \<Longrightarrow> mapAssum2Card s ! v = Some e \<Longrightarrow> live_ok W s v e) \<Longrightarrow>
       v \<le> nv s' \<Longrightarrow> v \<noteq> nat \<bar>lit\<bar> \<Longrightarrow> mapAssum2Card s' ! v = Some e \<Longrightarrow> live_ok W s' v e"
  using assms unfolding relaxed_def by blast+

text \<open>The weights after \<open>relax\<close>: as before, with the new literal added.\<close>

lemma relaxed_weights:
  assumes "relaxed lit r s s'" "base_inv s"
  shows "\<exists>w > 0. wt (poids s') = (case r of None \<Rightarrow> wt (poids s) | Some l \<Rightarrow> wt_set l w (wt (poids s)))"
    and "\<And>l. r = Some l \<Longrightarrow> l = next_lit s \<and> wt (poids s) l = 0 \<and> nat \<bar>l\<bar> = Suc (nv s) \<and> nv s < nv s'"
    and "\<And>l. nat \<bar>l\<bar> \<le> nv s \<Longrightarrow> wt (poids s') l = wt (poids s) l"
proof -
  have fresh: "wt (poids s) (next_lit s) = 0" "nat \<bar>next_lit s\<bar> = Suc (nv s)"
    using base_invD(9) [OF assms(2)] by (auto simp: next_lit_def wt_out)
  show r: "l = next_lit s \<and> wt (poids s) l = 0 \<and> nat \<bar>l\<bar> = Suc (nv s) \<and> nv s < nv s'" if "r = Some l" for l
    using assms(1) that fresh by (simp add: relaxed_def)
  show "\<exists>w > 0. wt (poids s') = (case r of None \<Rightarrow> wt (poids s) | Some l \<Rightarrow> wt_set l w (wt (poids s)))"
    using assms(1) by (auto simp: relaxed_def split: option.splits intro: zero_less_one)
  then show "wt (poids s') l = wt (poids s) l" if "nat \<bar>l\<bar> \<le> nv s" for l
    using that r by (cases r) (auto simp: wt_set_def)
qed

text \<open>
  The index stays in step with the weights, whether the weight of the relaxed literal was already
  set to 0 or is about to be.
\<close>

lemma wt_set_comm: "\<bar>l\<bar> \<noteq> \<bar>m\<bar> \<Longrightarrow> wt_set l w (wt_set m v f) = wt_set m v (wt_set l w f)"
  by (auto simp: wt_set_def fun_eq_iff)

lemma wt_set_idem: "f l = w \<Longrightarrow> f (- l) = - w \<Longrightarrow> wt_set l w f = f"
  by (auto simp: wt_set_def)

lemma relaxed_mirrors:
  assumes "relaxed lit r s s'" "base_inv s" "nat \<bar>lit\<bar> \<le> nv s" "lit \<noteq> 0"
    and "wm.mirrors (mapWeight2Assum s) (wt_set lit 0 (wt (poids s)))"
  shows "wm.mirrors (mapWeight2Assum s') (wt_set lit 0 (wt (poids s')))"
proof (cases r)
  case None
  then show ?thesis using assms(1,5) by (simp add: relaxed_def)
next
  case (Some l)
  note l = relaxed_weights(2) [OF assms(1,2) Some]
  obtain w where w: "0 < w" "wt (poids s') = wt_set l w (wt (poids s))"
      "mapWeight2Assum s' = map_insert_at w l (mapWeight2Assum s)"
    using assms(1) Some by (auto simp: relaxed_def)
  have ne: "\<bar>lit\<bar> \<noteq> \<bar>l\<bar>" using l assms(3) by auto
  then have "wt_set lit 0 (wt (poids s)) l = 0" using l by (auto simp: wt_set_def)
  moreover have "l \<noteq> 0" using l by auto
  ultimately have "wm.mirrors (map_insert_at w l (mapWeight2Assum s)) (wt_set l w (wt_set lit 0 (wt (poids s))))"
    using wm.mirrors_insert [OF assms(5)] w(1) by blast
  then show ?thesis unfolding w(2,3) wt_set_comm [OF ne] .
qed

text \<open>\<open>relax\<close> on a literal that waits: it no longer does, and the invariant of the state is kept.\<close>

lemma weights_zero_idem:
  assumes "base_inv s" "wt (poids s) l = 0"
  shows "wt_set l 0 (wt (poids s)) = wt (poids s)"
  using wt_set_idem [of "wt (poids s)" l 0] wt_neg [OF base_invD(4) [OF assms(1)], of l] assms(2) by simp

lemma relaxed_weights_inv:
  assumes rel: "relaxed lit r s s'" and inv: "base_inv s" and l: "lit \<noteq> 0" "nat \<bar>lit\<bar> \<le> nv s" "wt (poids s) lit = 0"
    and W: "weights_inv W0 s" "set W0 - {- \<bar>lit\<bar>} = set W" "distinct W" "- \<bar>lit\<bar> \<notin> set W"
  shows "weights_inv W s'"
proof -
  note R = relaxedD [OF rel] and B = base_invD [OF inv] and WI = weights_invD [OF W(1)]
  note B' = base_invD [OF R(1)]
  have "wt (poids s') lit = 0" using relaxed_weights(3) [OF rel inv] l by simp
  then have mir: "wm.mirrors (mapWeight2Assum s') (wt (poids s'))"
    using relaxed_mirrors [OF rel inv l(2,1)] WI(1) weights_zero_idem [OF inv l(3)] weights_zero_idem [OF R(1)] by simp
  have same: "live_ok W s v e = live_ok W0 s v e" if "v \<noteq> nat \<bar>lit\<bar>" for v e
  proof -
    have "- int v \<noteq> - \<bar>lit\<bar>" using that by linarith
    then have "- int v \<in> set W \<longleftrightarrow> - int v \<in> set W0" unfolding W(2) [symmetric] by simp
    then show ?thesis by (simp add: live_ok_def)
  qed
  have live: "live_ok W s' v e" if v: "v \<le> nv s'" "mapAssum2Card s' ! v = Some e" for v e
  proof (cases "v = nat \<bar>lit\<bar>")
    case True
    then show ?thesis using R(7) v(2) l(3) by simp
  next
    case False
    have "live_ok W s u d" if "u \<le> nv s" "u \<noteq> nat \<bar>lit\<bar>" "mapAssum2Card s ! u = Some d" for u d
      using WI(2) [of u d] that B(10) same by simp
    then show ?thesis using R(8) [OF _ v(1) False v(2)] by blast
  qed
  have wait: "waiting_ok s' x" if x: "x \<in> set W" for x
  proof -
    have w: "waiting_ok s x" using WI(4) x W(2) by blast
    have "x < 0" "x \<noteq> - \<bar>lit\<bar>" using w x W(4) by (auto simp: waiting_ok_def)
    then have ne: "nat (- x) \<noteq> nat \<bar>lit\<bar>" by linarith
    have "mapAssum2Card s' ! nat (- x) = mapAssum2Card s ! nat (- x)"
      using R(6) w ne by (simp add: waiting_ok_def)
    moreover have "poids s' ! nat (- x) = poids s ! nat (- x)"
      using rel w ne by (simp add: relaxed_def waiting_ok_def)
    ultimately show ?thesis using w R(2) by (simp add: waiting_ok_def)
  qed
  show ?thesis unfolding weights_inv_def using mir live wait W(3) R(5) WI(5) B'(10) by simp
qed

end
