(* ===== verification/Eval_Clauses.thy ===== *)
theory Eval_Clauses
  imports Eval_Relax
begin

text \<open>
  Variables and hard clauses: \<open>newVar\<close>, \<open>addClause\<close> without a weight, and the unit clauses that
  settle the weight of a soft literal. Every operation keeps the invariant of the state, and a state
  with a new hard clause simulates the old one on the models of the clause.
\<close>

section \<open>Growth without new outputs\<close>

lemma grows_quiet:
  assumes "grows s s'" "base_inv s" "base_inv s'"
    and op: "\<forall>d < length (cards s). \<forall>j. out_open s' d j = out_open s d j"
  shows "sim0 s s'" "budget s' = budget s" "weights_inv W s \<Longrightarrow> weights_inv W s'"
proof -
  note B = base_invD [OF assms(2)] and G = growsD [OF assms(1)] and F = grows_fields [OF assms(1)]
  have op': "out_open s' (lc_card e) (lc_atMost e + 1) = out_open s (lc_card e) (lc_atMost e + 1)" if "entry_ok s v e" for v e
    using op that by (simp add: entry_ok_def)
  have tot: "wtotal f n s' = wtotal f n s" if "\<And>v. f v 0 = 0" for f n
    by (rule grows_wtotal [where f = f, OF assms(1,2) that]) (use op' B(3) in blast)
  have obj: "obj \<sigma> s' = obj \<sigma> s" for \<sigma> unfolding obj_def by (rule tot) simp
  show bud: "budget s' = budget s" unfolding budget_def by (rule tot) simp
  show "sim0 s s'"
    unfolding sim_def
  proof (intro conjI allI impI)
    fix \<sigma> assume "exact \<sigma> s \<and> True"
    then obtain \<sigma>' where \<sigma>': "agree_upto (nv s) \<sigma> \<sigma>'" "exact \<sigma>' s'" using G(9) by blast
    then show "\<exists>\<sigma>'. agree_upto (nv s) \<sigma> \<sigma>' \<and> exact \<sigma>' s' \<and> obj \<sigma>' s' + 0 \<le> obj \<sigma> s"
      using obj obj_agree [OF assms(2) \<sigma>'(1)] by auto
  qed (use G(1,2) obj in auto)
  assume W: "weights_inv W s"
  note WI = weights_invD [OF W]
  have old: "v \<le> nv s \<and> mapAssum2Card s ! v = Some e \<and> poids s' ! v = poids s ! v"
    if "v < length (mapAssum2Card s')" "mapAssum2Card s' ! v = Some e" for v e
    using that B(9,10) unfolding G(3,4) by (auto simp: nth_append split: if_splits)
  have "live_ok W s' v e" if v: "v < length (mapAssum2Card s')" "mapAssum2Card s' ! v = Some e" for v e
  proof -
    have o: "v \<le> nv s" "mapAssum2Card s ! v = Some e" "poids s' ! v = poids s ! v" using old [OF v] by auto
    have e: "entry_ok s v e" "live_ok W s v e" using B(3,10) WI(2) o(1,2) by simp_all
    then show ?thesis using op' [OF e(1)] o(3) G(2,7) by (auto simp: live_ok_def entry_ok_def)
  qed
  moreover have "waiting_ok s' l" if "l \<in> set W" for l
  proof -
    have w: "waiting_ok s l" using WI(4) [OF that] .
    then have "nat (- l) < length (mapAssum2Card s)" "nat (- l) < length (poids s)"
      using B(9,10) by (auto simp: waiting_ok_def)
    then show ?thesis using w G(1,3,4) by (simp add: waiting_ok_def nth_append)
  qed
  moreover have "wm.mirrors (mapWeight2Assum s') (wt (poids s'))" using WI(1) F(1) G(3) by simp
  ultimately show "weights_inv W s'" using WI(3,5) bud by (simp add: weights_inv_def)
qed

lemma newVar_grows:
  assumes "base_inv s"
  shows "grows s (snd (newVar s))" "base_inv (snd (newVar s))" "nv (snd (newVar s)) = Suc (nv s)"
    "\<forall>d < length (cards s). \<forall>j. out_open (snd (newVar s)) d j = out_open s d j"
proof -
  note B = base_invD [OF assms]
  let ?s = "snd (newVar s)"
  obtain v where nv: "newVar s = (v, ?s)" by (metis prod.collapse)
  note N = newVar_sink [OF B(8) nv]
  have f: "lheap ?s = lheap s" "cards ?s = cards s" "poids ?s = poids s @ [0]" "mapAssum2Card ?s = mapAssum2Card s @ [None]"
    by (simp_all add: newVar_eq)
  note o = outs_cong [OF f(1,2)]
  show nv': "nv ?s = Suc (nv s)" using N by simp
  show "\<forall>d < length (cards s). \<forall>j. out_open ?s d j = out_open s d j" using o by simp
  have "lv_vars_upto (nv ?s) (lheap s)"
    using cards_invD(2) [OF B(1)] nv' by (auto simp: lv_vars_upto_def intro: lit_upto_Suc)
  then have ci: "cards_inv ?s"
    using cards_invD [OF B(1)] N f o by (simp add: cards_inv_def es.lv_inv_def)
  have rest: "?s = s\<lparr>solver := solver ?s, poids := poids ?s, mapAssum2Card := mapAssum2Card ?s, lheap := lheap ?s, cards := cards ?s\<rparr>"
    by (simp add: newVar_eq)
  have ex: "exact \<sigma> ?s = exact \<sigma> s" for \<sigma> using N f by (simp add: exact_def)
  show g: "grows s ?s"
    unfolding grows_def
  proof (intro conjI allI impI)
    show "\<exists>\<sigma>'. agree_upto (nv s) \<sigma> \<sigma>' \<and> exact \<sigma>' ?s" if "exact \<sigma> s" for \<sigma>
      using that ex agree_refl by blast
  qed (use N f o rest in simp_all)
  show "base_inv ?s"
    using B(2) f(2) o by (intro grows_base [OF g assms ci]) simp
qed

lemma newVars_ok:
  assumes "base_inv s" "weights_inv W s"
  shows "base_inv (newVars n s) \<and> weights_inv W (newVars n s) \<and> sim0 s (newVars n s) \<and> nv (newVars n s) = nv s + n \<and>
    budget (newVars n s) = budget s \<and> same_rest s (newVars n s) \<and>
    poids (newVars n s) = poids s @ replicate n 0 \<and> mapAssum2Card (newVars n s) = mapAssum2Card s @ replicate n None \<and>
    mapWeight2Assum (newVars n s) = mapWeight2Assum s"
  using assms
proof (induction n arbitrary: s)
  case 0
  then show ?case by (simp add: sim_refl)
next
  case (Suc n)
  let ?s = "snd (newVar s)"
  note N = newVar_grows [OF Suc.prems(1)]
  note Q = grows_quiet [OF N(1) Suc.prems(1) N(2,4)]
  have "poids ?s = poids s @ [0]" "mapAssum2Card ?s = mapAssum2Card s @ [None]" "mapWeight2Assum ?s = mapWeight2Assum s"
    by (simp_all add: newVar_eq)
  moreover have "length (cards ?s) = length (cards s)" by (simp add: newVar_eq)
  ultimately show ?case
    using Suc.IH [OF N(2) Q(3) [OF Suc.prems(2)]] Q(1,2) N(3) sim0_trans [OF Q(1)]
      same_rest_trans [OF grows_same_rest [OF N(1)], of "newVars n ?s"] by simp
qed

section \<open>A clause for the SAT solver\<close>

lemma emit_simps [simp]:
  "poids (emit c s) = poids s" "mapAssum2Card (emit c s) = mapAssum2Card s" "mapWeight2Assum (emit c s) = mapWeight2Assum s"
  "cost (emit c s) = cost s" "cardToAdd (emit c s) = cardToAdd s" "lheap (emit c s) = lheap s" "cards (emit c s) = cards s"
  "litToRelax (emit c s) = litToRelax s" "solutionCost (emit c s) = solutionCost s" "solution (emit c s) = solution s"
  "start_solve (emit c s) = start_solve s" "is_incremental (emit c s) = is_incremental s" "nInputVars (emit c s) = nInputVars s"
  by (simp_all add: emit_def)

lemma wtotal_cong:
  assumes "lheap s' = lheap s" "cards s' = cards s" "cost s' = cost s" "poids s' = poids s"
    "mapAssum2Card s' = mapAssum2Card s" "cardToAdd s' = cardToAdd s"
  shows "wtotal f n s' = wtotal f n s"
  using assms outs_cong [OF assms(1,2), of n] by (simp add: wtotal_def)

lemma emit_ok:
  assumes "base_inv s" "\<forall>l \<in> set c. lit_upto (nv s) l"
  shows "base_inv (emit c s)" "nv (emit c s) = nv s" "cls (emit c s) = insert c (cls s)"
    "obj \<sigma> (emit c s) = obj \<sigma> s" "budget (emit c s) = budget s" "same_rest s (emit c s)"
    "sim (\<lambda>\<sigma>. sat_clause \<sigma> c) (\<lambda>\<sigma>. 0) s (emit c s)"
proof -
  note B = base_invD [OF assms(1)]
  note E = emit_sink [OF B(8) assms(2)]
  let ?s = "emit c s"
  note o = outs_cong [of ?s s]
  show nv: "nv ?s = nv s" and cl: "cls ?s = insert c (cls s)" using E by auto
  have tot: "wtotal f n ?s = wtotal f n s" for f n by (rule wtotal_cong) simp_all
  then show obj: "obj \<sigma> ?s = obj \<sigma> s" and "budget ?s = budget s" for \<sigma> by (simp_all add: obj_def budget_def)
  show "same_rest s ?s" by (simp add: same_rest_def emit_def)
  have em: "lv_emitted (lheap s) (insert c (cls s))"
    using cards_invD(4) [OF B(1)] unfolding lv_emitted_def lv_emitted_at_def by blast
  then have "cards_inv ?s" using cards_invD [OF B(1)] E o by (simp add: cards_inv_def es.lv_inv_def)
  moreover have "entry_ok ?s v e = entry_ok s v e" for v e using o by (simp add: entry_ok_def)
  ultimately show "base_inv ?s" using assms(1) o nv by (simp add: base_inv_def)
  show "sim (\<lambda>\<sigma>. sat_clause \<sigma> c) (\<lambda>\<sigma>. 0) s ?s"
    unfolding sim_def
  proof (intro conjI allI impI)
    fix \<sigma> assume "exact \<sigma> s \<and> sat_clause \<sigma> c"
    then have "exact \<sigma> ?s" using cl by (simp add: exact_def)
    then show "\<exists>\<sigma>'. agree_upto (nv s) \<sigma> \<sigma>' \<and> exact \<sigma>' ?s \<and> obj \<sigma>' ?s + 0 \<le> obj \<sigma> s"
      using tot by (intro exI [of _ \<sigma>]) (simp add: obj_def)
  qed (use nv cl tot in \<open>auto simp: obj_def\<close>)
qed

lemma emit_weights:
  assumes "base_inv s" "\<forall>l \<in> set c. lit_upto (nv s) l" "weights_inv W s"
  shows "weights_inv W (emit c s)"
proof -
  note E = emit_ok [OF assms(1,2)] and WI = weights_invD [OF assms(3)]
  have "live_ok W s v e \<Longrightarrow> live_ok W (emit c s) v e" for v e
    using outs_cong [of "emit c s" s] E(3) by (auto simp: live_ok_def)
  moreover have "waiting_ok (emit c s) l = waiting_ok s l" for l using E(2) by (simp add: waiting_ok_def)
  ultimately show ?thesis using assms(3) E(5) by (simp add: weights_inv_def)
qed

section \<open>Changing weights only\<close>

text \<open>A state with other weights, another index and another constant cost.\<close>

definition reweigh :: "int list \<Rightarrow> weight_map \<Rightarrow> int \<Rightarrow> ems \<Rightarrow> ems" where
  "reweigh p m c s = s\<lparr>mapWeight2Assum := m, cost := c, poids := p\<rparr>"

lemma reweigh_simps [simp]:
  "nv (reweigh p m c s) = nv s" "cls (reweigh p m c s) = cls s" "lheap (reweigh p m c s) = lheap s"
  "cards (reweigh p m c s) = cards s" "solver (reweigh p m c s) = solver s" "poids (reweigh p m c s) = p"
  "mapWeight2Assum (reweigh p m c s) = m" "cost (reweigh p m c s) = c" "cardToAdd (reweigh p m c s) = cardToAdd s"
  "mapAssum2Card (reweigh p m c s) = mapAssum2Card s" "litToRelax (reweigh p m c s) = litToRelax s"
  "solutionCost (reweigh p m c s) = solutionCost s" "solution (reweigh p m c s) = solution s"
  "start_solve (reweigh p m c s) = start_solve s" "is_incremental (reweigh p m c s) = is_incremental s"
  "nInputVars (reweigh p m c s) = nInputVars s"
  by (simp_all add: reweigh_def nv_def cls_def)

lemma reweigh_base:
  assumes "base_inv s" "length p = length (poids s)" "p ! 0 = 0" "0 \<le> c"
  shows "base_inv (reweigh p m c s)"
  by (rule base_inv_cong [OF _ _ _ _ _ assms(1)]) (use assms base_invD [OF assms(1)] in simp_all)

lemma reweigh_wtotal: "wtotal f n (reweigh p m c s) = wtotal f n s - cost s + c - vsum f (poids s) + vsum f p"
  using outs_cong [of "reweigh p m c s" s n] by (simp add: wtotal_def)

lemma reweigh_kept: "kept s (reweigh p m c s)"
  by (simp add: kept_def reweigh_def)

text \<open>Replacing the weight of one literal.\<close>

lemma reweigh_one:
  assumes "base_inv s" "wv_set l w (poids s) = Some p" "l \<noteq> 0" "0 \<le> c"
  shows "base_inv (reweigh p m c s)" "wt p = wt_set l w (wt (poids s))"
    "obj \<sigma> (reweigh p m c s) = obj \<sigma> s - cost s + c - lcost \<sigma> l (wt (poids s) l) + lcost \<sigma> l w"
    "budget (reweigh p m c s) = budget s - cost s + c - \<bar>wt (poids s) l\<bar> + \<bar>w\<bar>"
    "v \<noteq> nat \<bar>l\<bar> \<Longrightarrow> p ! v = poids s ! v" "p ! nat \<bar>l\<bar> = (if l < 0 then - w else w)"
proof -
  have p: "p = (poids s)[nat \<bar>l\<bar> := (if l < 0 then - w else w)]" "nat \<bar>l\<bar> < length (poids s)"
    using wv_set_nth [OF assms(2)] by auto
  then show "v \<noteq> nat \<bar>l\<bar> \<Longrightarrow> p ! v = poids s ! v" "p ! nat \<bar>l\<bar> = (if l < 0 then - w else w)" by simp_all
  have "p ! 0 = 0" using p base_invD(4) [OF assms(1)] assms(3) by simp
  then show "base_inv (reweigh p m c s)" using reweigh_base [OF assms(1)] p assms(4) by simp
  show "wt p = wt_set l w (wt (poids s))" using wv_set_wt [OF assms(2,3)] .
  show "obj \<sigma> (reweigh p m c s) = obj \<sigma> s - cost s + c - lcost \<sigma> l (wt (poids s) l) + lcost \<sigma> l w"
    unfolding obj_def reweigh_wtotal using vsum_set_cost [OF assms(2,3)] by simp
  show "budget (reweigh p m c s) = budget s - cost s + c - \<bar>wt (poids s) l\<bar> + \<bar>w\<bar>"
    unfolding budget_def reweigh_wtotal using vsum_set_abs [OF assms(2,3)] by simp
qed

text \<open>Conversion of a weight to \<open>t_weight\<close>, and the literals that have a weight.\<close>

lemma weight_key:
  assumes "base_inv s" "budget s < 9223372036854775808" "0 \<le> wt (poids s) l"
  shows "u64 (wt (poids s) l) = wt (poids s) l"
  using budget_weight [OF assms(1), of l] base_invD(6) [OF assms(1)] assms(2,3) by (intro u64_id) (auto simp: t_weight_max_def)

lemma soft_upto:
  assumes "base_inv s" "wt (poids s) l \<noteq> 0"
  shows "l \<noteq> 0" "nat \<bar>l\<bar> \<le> nv s" "lit_upto (nv s) l"
  using wt_nonzero_in [OF assms(2)] wt_0 [OF base_invD(4) [OF assms(1)]] assms(2) base_invD(9) [OF assms(1)]
  by (auto simp: lit_upto_def)

text \<open>A literal with a weight does not wait, and if it is a cardinality literal it is the negative one.\<close>

lemma soft_not_waiting:
  assumes "base_inv s" "weights_inv W s" "wt (poids s) l \<noteq> 0" "x \<in> set W"
  shows "nat (- x) \<noteq> nat \<bar>l\<bar>" "- \<bar>l\<bar> \<notin> set W"
proof -
  have p: "poids s ! nat \<bar>l\<bar> \<noteq> 0"
    using wt_nth [of l "poids s"] wt_nonzero_in [OF assms(3)] assms(3) by simp
  have "poids s ! nat (- x) = 0" "x < 0" if "x \<in> set W" for x
    using weights_invD(4) [OF assms(2)] that by (auto simp: waiting_ok_def)
  then show "nat (- x) \<noteq> nat \<bar>l\<bar>" "- \<bar>l\<bar> \<notin> set W" using p assms(4) by (metis, metis add.inverse_inverse)
qed

lemma soft_entry:
  assumes "base_inv s" "weights_inv W s" "wt (poids s) l > 0" "mapAssum2Card s ! nat \<bar>l\<bar> = Some e"
  shows "l = - int (nat \<bar>l\<bar>)" "out_open s (lc_card e) (lc_atMost e + 1)"
proof -
  have l: "nat \<bar>l\<bar> < length (poids s)" using wt_nonzero_in assms(3) by simp
  have live: "live_ok W s (nat \<bar>l\<bar>) e"
    using weights_invD(2) [OF assms(2) _ assms(4)] l base_invD(9,10) [OF assms(1)] by simp
  have p: "poids s ! nat \<bar>l\<bar> = (if l < 0 then - wt (poids s) l else wt (poids s) l)" using wt_nth [OF l] .
  with live assms(3) have "l < 0" by (auto simp: live_ok_def split: if_splits)
  then show "l = - int (nat \<bar>l\<bar>)" by simp
  show "out_open s (lc_card e) (lc_atMost e + 1)" using live p assms(3) by (auto simp: live_ok_def)
qed

section \<open>Unit clauses\<close>

lemma unit_pos:
  assumes inv: "base_inv s" and W: "weights_inv W s" and l: "0 < wt (poids s) l"
  obtains p where "wv_set l 0 (poids s) = Some p"
    "addClause_hard [l] s = Some (emit [l] (reweigh p (map_erase_at (wt (poids s) l) l (mapWeight2Assum s)) (cost s) s))"
proof -
  note u = soft_upto [OF inv, of l] and B = base_invD [OF inv]
  have u': "l \<noteq> 0" "nat \<bar>l\<bar> \<le> nv s" using u l by auto
  obtain p where p: "wv_set l 0 (poids s) = Some p" using wv_set_Some u'(2) B(9) by (metis less_Suc_eq_le Suc_eq_plus1)
  have get: "wv_get (poids s) l = Some (wt (poids s) l)" using u'(2) B(9) by (intro wv_get_wt) simp
  have key: "u64 (wt (poids s) l) = wt (poids s) l" using weight_key [OF inv weights_invD(5) [OF W]] l by simp
  have "l \<in> set (map_at (mapWeight2Assum s) (wt (poids s) l))"
    using wm.mirrors_bucket [OF weights_invD(1) [OF W]] u'(1) l by blast
  then have "addClause_hard [l] s = Some (emit [l] (reweigh p (map_erase_at (wt (poids s) l) l (mapWeight2Assum s)) (cost s) s))"
    using get key l p
    by (simp add: addClause_hard_def addClause_unit_def mw_count_def mw_erase_def set_poids_def reweigh_def)
  then show ?thesis using that p by blast
qed

lemma unit_pos_ok:
  assumes inv: "base_inv s" and W: "weights_inv W s" and l: "0 < wt (poids s) l" and p: "wv_set l 0 (poids s) = Some p"
  defines "s' \<equiv> emit [l] (reweigh p (map_erase_at (wt (poids s) l) l (mapWeight2Assum s)) (cost s) s)"
  shows "base_inv s'" "weights_inv W s'" "sim (\<lambda>\<sigma>. lit_true \<sigma> l) (\<lambda>\<sigma>. 0) s s'"
    "budget s' = budget s - wt (poids s) l" "nv s' = nv s" "wt (poids s') = wt_set l 0 (wt (poids s))"
proof -
  note B = base_invD [OF inv] and WI = weights_invD [OF W]
  have u: "l \<noteq> 0" "nat \<bar>l\<bar> \<le> nv s" "\<forall>x \<in> set [l]. lit_upto (nv s) x" using soft_upto [OF inv, of l] l by auto
  define s1 where "s1 = reweigh p (map_erase_at (wt (poids s) l) l (mapWeight2Assum s)) (cost s) s"
  note R = reweigh_one [OF inv p u(1) B(6), folded s1_def]
  have s1: "base_inv s1" "nv s1 = nv s" "cls s1 = cls s" "lheap s1 = lheap s" using R(1) by (simp_all add: s1_def)
  have u1: "\<forall>x \<in> set [l]. lit_upto (nv s1) x" using u(3) s1(2) by simp
  note E = emit_ok [OF s1(1) u1, folded s'_def [folded s1_def]]
  show "base_inv s'" "nv s' = nv s" using E(1,2) s1(2) by simp_all
  show bud: "budget s' = budget s - wt (poids s) l" using E(5) R(4) l by (simp add: s1_def)
  show wts: "wt (poids s') = wt_set l 0 (wt (poids s))" using R(2) by (simp add: s'_def)
  have obj: "obj \<sigma> s' = obj \<sigma> s - lcost \<sigma> l (wt (poids s) l)" for \<sigma> using E(4) R(3) by (simp add: s1_def)
  show "sim (\<lambda>\<sigma>. lit_true \<sigma> l) (\<lambda>\<sigma>. 0) s s'"
    unfolding sim_def
  proof (intro conjI allI impI)
    fix \<sigma> assume \<sigma>: "exact \<sigma> s \<and> lit_true \<sigma> l"
    then have "exact \<sigma> s'" using E(3) s1(3,4) by (simp add: exact_def s'_def s1_def)
    moreover have "obj \<sigma> s' = obj \<sigma> s" using obj \<sigma> l by (simp add: lcost_def)
    ultimately show "\<exists>\<sigma>'. agree_upto (nv s) \<sigma> \<sigma>' \<and> exact \<sigma>' s' \<and> obj \<sigma>' s' + 0 \<le> obj \<sigma> s"
      by (intro exI [of _ \<sigma>]) simp
  qed (use E(2,3) s1(2,3) obj l in \<open>auto simp: lcost_def\<close>)
  have m: "mapAssum2Card s' = mapAssum2Card s" "cards s' = cards s" "lheap s' = lheap s" "poids s' = p"
    by (simp_all add: s'_def)
  note o = outs_cong [OF m(3,2)]
  have cl: "cls s' = insert [l] (cls s)" using E(3) s1(3) by simp
  have live: "live_ok W s' v e" if v: "v < length (mapAssum2Card s)" "mapAssum2Card s ! v = Some e" for v e
  proof (cases "v = nat \<bar>l\<bar>")
    case False
    then show ?thesis using WI(2) [OF v] R(5) o m cl by (auto simp: live_ok_def)
  next
    case True
    then have "l = - int v" using soft_entry(1) [OF inv W l] v(2) by simp
    moreover have "p ! v = 0" using R(6) True by simp
    moreover have "- int v \<notin> set W"
      using soft_not_waiting(2) [OF inv W, of l "- int v"] l True by auto
    ultimately show ?thesis using m cl by (simp add: live_ok_def)
  qed
  have wait: "waiting_ok s' x" if "x \<in> set W" for x
    using WI(4) [OF that] soft_not_waiting(1) [OF inv W _ that, of l] l R(5) m E(2) s1(2) by (simp add: waiting_ok_def)
  have "wm.mirrors (mapWeight2Assum s') (wt (poids s'))"
    unfolding wts using wm.mirrors_erase [OF WI(1) l u(1)] by (simp add: s'_def)
  then show "weights_inv W s'"
    unfolding weights_inv_def using live wait WI(3,5) bud l m(1) by simp
qed

text \<open>
  The other polarity: the weight of the negation becomes a constant cost, and if the negation was a
  cardinality literal the next one takes its place.
\<close>

lemma wt_set_neg_zero: "wt_set (- l) 0 f = wt_set l 0 f"
  by (auto simp: wt_set_def)

lemma unit_neg:
  assumes inv: "base_inv s" and W: "weights_inv W s" and l: "wt (poids s) l < 0"
  obtains r s1 s2 p where
    "s1 = reweigh (poids s) (map_erase_at (- wt (poids s) l) (- l) (mapWeight2Assum s)) (cost s - wt (poids s) l) s"
    "base_inv s1" "relaxed l r s1 s2" "wv_set l 0 (poids s2) = Some p"
    "addClause_hard [l] s = Some (emit [l] (reweigh p (mapWeight2Assum s2) (cost s2) s2))"
proof -
  note B = base_invD [OF inv] and WI = weights_invD [OF W]
  have u: "l \<noteq> 0" "nat \<bar>l\<bar> \<le> nv s" using soft_upto [OF inv, of l] l by auto
  define q where "q = - wt (poids s) l"
  have q: "0 < q" "wt (poids s) (- l) = q" using l wt_neg [OF B(4)] by (simp_all add: q_def)
  have qb: "cost s + q \<le> budget s" using budget_weight [OF inv, of l] l by (simp add: q_def)
  define s1 where "s1 = reweigh (poids s) (map_erase_at q (- l) (mapWeight2Assum s)) (cost s + q) s"
  have b1: "base_inv s1" unfolding s1_def using reweigh_base [OF inv] B(4,6) q(1) by simp
  have bud: "budget s1 = budget s + q" unfolding budget_def s1_def reweigh_wtotal by simp
  have bud1: "budget s1 \<le> t_weight_max"
    unfolding bud using WI(5) qb B(6) by (simp add: t_weight_max_def)
  have op: "out_open s1 (lc_card e) (lc_atMost e + 1)" if "mapAssum2Card s1 ! nat \<bar>l\<bar> = Some e" for e
    using soft_entry(2) [OF inv W, of "- l" e] that q outs_cong [of s1 s] by (simp add: s1_def)
  obtain r s2 where r: "relax l s1 = Some (r, s2)" "relaxed l r s1 s2"
    using relax_ok [OF b1 u(1) _ bud1 op] u(2) by (auto simp: s1_def)
  have len: "nat \<bar>l\<bar> < length (poids s2)"
    using base_invD(9) [OF relaxedD(1) [OF r(2)]] relaxedD(2) [OF r(2)] u(2) by (simp add: s1_def)
  then obtain p where p: "wv_set l 0 (poids s2) = Some p" using wv_set_Some by blast
  have get: "wv_get (poids s) l = Some (- q)" "wv_get (poids s) (- l) = Some q"
    using wv_get_wt [of l "poids s"] wv_get_wt [of "- l" "poids s"] u(2) B(9) q by (simp_all add: q_def)
  have key: "u64 q = q" "u64 (cost s + q) = cost s + q"
    using qb B(6) q(1) WI(5) by (auto simp: t_weight_max_def intro!: u64_id)
  have "- l \<in> set (map_at (mapWeight2Assum s) q)" using wm.mirrors_bucket [OF WI(1)] u(1) q by simp
  then have "addClause_hard [l] s = Some (emit [l] (s2\<lparr>poids := p\<rparr>))"
    using get key q(1) r(1) p
    by (simp add: addClause_hard_def addClause_unit_def mw_count_def mw_erase_def add_cost_def set_poids_def s1_def reweigh_def)
  moreover have "s2\<lparr>poids := p\<rparr> = reweigh p (mapWeight2Assum s2) (cost s2) s2" by (simp add: reweigh_def)
  ultimately show ?thesis using that [OF _ b1 r(2) p] by (simp add: s1_def q_def)
qed

lemma unit_neg_ok:
  assumes inv: "base_inv s" and W: "weights_inv W s" and l: "wt (poids s) l < 0"
    and s1: "s1 = reweigh (poids s) (map_erase_at (- wt (poids s) l) (- l) (mapWeight2Assum s)) (cost s - wt (poids s) l) s"
    and b1: "base_inv s1" and rel: "relaxed l r s1 s2" and p: "wv_set l 0 (poids s2) = Some p"
  defines "s3 \<equiv> reweigh p (mapWeight2Assum s2) (cost s2) s2"
  shows "base_inv s3" "weights_inv W s3" "sim (\<lambda>\<sigma>. lit_true \<sigma> l) (\<lambda>\<sigma>. 0) s s3" "budget s3 = budget s"
    "wt p = wt_set l 0 (wt (poids s2))"
proof -
  note B = base_invD [OF inv] and WI = weights_invD [OF W] and R = relaxedD [OF rel]
  have u: "l \<noteq> 0" "nat \<bar>l\<bar> \<le> nv s" "lit_upto (nv s) l" using soft_upto [OF inv, of l] l by auto
  define q where "q = - wt (poids s) l"
  have q: "0 < q" "wt (poids s) (- l) = q" using l wt_neg [OF B(4)] by (simp_all add: q_def)
  have f1: "nv s1 = nv s" "cls s1 = cls s" "lheap s1 = lheap s" "cards s1 = cards s" "poids s1 = poids s"
      "mapAssum2Card s1 = mapAssum2Card s" by (simp_all add: s1)
  have c2: "cost s2 = cost s + q" using same_restD(1) [OF R(3)] by (simp add: s1 q_def)
  have w2: "wt (poids s2) l = - q" using relaxed_weights(3) [OF rel b1, of l] u f1 by (simp add: q_def)
  have "0 \<le> cost s2" using c2 B(6) q by simp
  note R3 = reweigh_one [OF R(1) p u(1) this, folded s3_def]
  show "base_inv s3" "wt p = wt_set l 0 (wt (poids s2))" using R3(1,2) by (auto simp: s3_def)
  have tot1: "wtotal f n s1 = wtotal f n s + q" for f n by (simp add: s1 reweigh_wtotal q_def)
  show bud: "budget s3 = budget s"
    using R3(4) R(5) tot1 [of "\<lambda>v w. \<bar>w\<bar>" length] w2 q(1) by (simp add: s3_def budget_def)
  have obj1: "obj \<sigma> s1 = obj \<sigma> s + q" for \<sigma> using tot1 by (simp add: obj_def)
  have obj3: "obj \<sigma> s3 = obj \<sigma> s2 - (if lit_true \<sigma> l then q else 0)" for \<sigma>
    using R3(3) w2 q(1) by (simp add: s3_def lcost_def)
  have f3: "nv s3 = nv s2" "cls s3 = cls s2" "lheap s3 = lheap s2" "cards s3 = cards s2" "poids s3 = p"
      "mapAssum2Card s3 = mapAssum2Card s2" "mapWeight2Assum s3 = mapWeight2Assum s2" by (simp_all add: s3_def)
  show "sim (\<lambda>\<sigma>. lit_true \<sigma> l) (\<lambda>\<sigma>. 0) s s3"
    unfolding sim_def
  proof (intro conjI allI impI)
    show "nv s \<le> nv s3" "cls s \<subseteq> cls s3" using R(2,4) f1 f3 by (auto simp: sim_def)
    show "obj \<sigma> s \<le> obj \<sigma> s3 + 0" if "sat_all \<sigma> (cls s3)" for \<sigma>
    proof -
      have "obj \<sigma> s1 \<le> obj \<sigma> s2" using R(4) that f3 by (auto simp: sim_def)
      then show ?thesis using obj1 obj3 q(1) by simp
    qed
    fix \<sigma> assume \<sigma>: "exact \<sigma> s \<and> lit_true \<sigma> l"
    then have "exact \<sigma> s1" using f1 by (simp add: exact_def)
    then obtain \<sigma>' where \<sigma>': "agree_upto (nv s) \<sigma> \<sigma>'" "exact \<sigma>' s2" "obj \<sigma>' s2 \<le> obj \<sigma> s1"
      using R(4) f1 unfolding sim_def by fastforce
    have "lit_true \<sigma>' l" using \<sigma> agree_lit [OF \<sigma>'(1) u(3)] by simp
    then have "obj \<sigma>' s3 + 0 \<le> obj \<sigma> s" using \<sigma>'(3) obj1 obj3 by simp
    moreover have "exact \<sigma>' s3" using \<sigma>'(2) f3 by (simp add: exact_def)
    ultimately show "\<exists>\<sigma>'. agree_upto (nv s) \<sigma> \<sigma>' \<and> exact \<sigma>' s3 \<and> obj \<sigma>' s3 + 0 \<le> obj \<sigma> s" using \<sigma>'(1) by blast
  qed
  note o = outs_cong [OF f3(3,4)] and o1 = outs_cong [OF f1(3,4)]
  have nw: "- int (nat \<bar>l\<bar>) \<notin> set W"
    using soft_not_waiting(2) [OF inv W, of l "- \<bar>l\<bar>"] l by auto
  have live: "live_ok W s3 v e" if v: "v < length (mapAssum2Card s3)" "mapAssum2Card s3 ! v = Some e" for v e
  proof (cases "v = nat \<bar>l\<bar>")
    case True
    have "p ! v = 0" using R3(6) True by simp
    then show ?thesis using R(7) [of e] v(2) True f3 o nw by (auto simp: live_ok_def)
  next
    case False
    have "live_ok W s1 u d" if "u \<le> nv s1" "u \<noteq> nat \<bar>l\<bar>" "mapAssum2Card s1 ! u = Some d" for u d
      using WI(2) [of u d] that B(10) f1 o1 by (simp add: live_ok_def)
    then have "live_ok W s2 v e"
      using R(8) [OF _ _ False, where W = W and e = e] v f3 base_invD(10) [OF R(1)] by simp
    then show ?thesis using f3 o R3(5) [OF False] by (simp add: live_ok_def)
  qed
  have wait: "waiting_ok s3 x" if x: "x \<in> set W" for x
  proof -
    have w: "waiting_ok s x" using WI(4) [OF x] .
    have ne: "nat (- x) \<noteq> nat \<bar>l\<bar>" using soft_not_waiting(1) [OF inv W _ x] l by simp
    have "mapAssum2Card s2 ! nat (- x) = mapAssum2Card s ! nat (- x)" "poids s2 ! nat (- x) = poids s ! nat (- x)"
      using rel w ne f1 by (simp_all add: relaxed_def waiting_ok_def)
    then show ?thesis using w R(2) f1 f3 R3(5) [OF ne] by (simp add: waiting_ok_def)
  qed
  have "wm.mirrors (mapWeight2Assum s1) (wt_set l 0 (wt (poids s1)))"
    using wm.mirrors_erase [OF WI(1), of "- l"] q u(1) f1(5) wt_set_neg_zero [of l] by (simp add: s1 q_def)
  then have "wm.mirrors (mapWeight2Assum s3) (wt (poids s3))"
    using relaxed_mirrors [OF rel b1] u f1 R3(2) f3 by simp
  then show "weights_inv W s3" unfolding weights_inv_def using live wait WI(3,5) bud by simp
qed

section \<open>Hard clauses\<close>

text \<open>What adding a hard clause does to the weights of the literals that existed before.\<close>

definition settled :: "int list \<Rightarrow> ems \<Rightarrow> ems \<Rightarrow> bool" where
  "settled c s s' = (\<forall>x. nat \<bar>x\<bar> \<le> nv s \<longrightarrow>
     wt (poids s') x = (if \<exists>l. c = [l] \<and> \<bar>x\<bar> = \<bar>l\<bar> then 0 else wt (poids s) x))"

text \<open>The constant cost goes up by the weight a unit clause forfeits.\<close>

definition forfeit :: "int list \<Rightarrow> ems \<Rightarrow> int" where
  "forfeit c s = (case c of [l] \<Rightarrow> max 0 (- wt (poids s) l) | _ \<Rightarrow> 0)"

lemma forfeit_nonneg: "0 \<le> forfeit c s"
  by (simp add: forfeit_def split: list.split)

lemma addClause_hard_ok:
  assumes inv: "base_inv s" and W: "weights_inv W s" and c: "\<forall>l \<in> set c. lit_upto (nv s) l"
  obtains s' where "addClause_hard c s = Some s'" "base_inv s'" "weights_inv W s'"
    "sim (\<lambda>\<sigma>. sat_clause \<sigma> c) (\<lambda>\<sigma>. 0) s s'" "c \<in> cls s'" "budget s' \<le> budget s" "settled c s s'" "kept s s'" "cost s' = cost s + forfeit c s"
proof (cases "\<exists>l. c = [l] \<and> wt (poids s) l \<noteq> 0")
  case False
  note E = emit_ok [OF inv c]
  have "addClause_hard c s = Some (emit c s)"
  proof (cases "length c = 1")
    case True
    then obtain l where l: "c = [l]" by (cases c) auto
    then have "wv_get (poids s) l = Some 0"
      using False c wv_get_wt [of l "poids s"] base_invD(9) [OF inv] by (simp add: lit_upto_def)
    then show ?thesis using l by (simp add: addClause_hard_def addClause_unit_def)
  qed (rule addClause_hard_emit)
  moreover have "settled c s (emit c s)"
    using False wt_neg [OF base_invD(4) [OF inv]] by (auto simp: settled_def abs_eq_iff)
  moreover have "forfeit c s = 0" using False by (auto simp: forfeit_def split: list.split)
  ultimately show ?thesis
    using that E emit_weights [OF inv c W] same_rest_kept [OF E(6)] by simp
next
  case True
  then obtain l where l: "c = [l]" "wt (poids s) l \<noteq> 0" by blast
  have cl: "sat_clause \<sigma> c = lit_true \<sigma> l" for \<sigma> by (simp add: l(1))
  show ?thesis
  proof (cases "0 < wt (poids s) l")
    case pos: True
    obtain p where p: "wv_set l 0 (poids s) = Some p"
        "addClause_hard [l] s = Some (emit [l] (reweigh p (map_erase_at (wt (poids s) l) l (mapWeight2Assum s)) (cost s) s))"
      using unit_pos [OF inv W pos] by blast
    let ?s1 = "reweigh p (map_erase_at (wt (poids s) l) l (mapWeight2Assum s)) (cost s) s"
    let ?s = "emit [l] ?s1"
    note U = unit_pos_ok [OF inv W pos p(1)]
    have "settled c s ?s" using U(6) l(1) by (auto simp: settled_def wt_set_def)
    moreover have "base_inv ?s1" using reweigh_one(1) [OF inv p(1)] soft_upto(1) [OF inv l(2)] base_invD(6) [OF inv] by blast
    then have "c \<in> cls ?s" using emit_ok(3) [of ?s1 c] c l(1) by simp
    moreover have "kept s ?s" by (simp add: kept_def emit_def reweigh_def)
    ultimately show ?thesis
      using that [of ?s] p(2) U(1-4) l(1) pos cl by (simp add: forfeit_def)
  next
    case False
    then have neg: "wt (poids s) l < 0" using l(2) by simp
    obtain r s1 s2 p where r:
      "s1 = reweigh (poids s) (map_erase_at (- wt (poids s) l) (- l) (mapWeight2Assum s)) (cost s - wt (poids s) l) s"
      "base_inv s1" "relaxed l r s1 s2" "wv_set l 0 (poids s2) = Some p"
      "addClause_hard [l] s = Some (emit [l] (reweigh p (mapWeight2Assum s2) (cost s2) s2))"
      by (rule unit_neg [OF inv W neg]) (rule that)
    note U = unit_neg_ok [OF inv W neg r(1-4)]
    let ?s3 = "reweigh p (mapWeight2Assum s2) (cost s2) s2"
    have nv1: "nv s1 = nv s" "poids s1 = poids s" using r(1) by simp_all
    have le: "nv s \<le> nv ?s3" using U(3) by (simp add: sim_def)
    then have c3: "\<forall>x \<in> set [l]. lit_upto (nv ?s3) x" using c l(1) lit_upto_mono by auto
    note E = emit_ok [OF U(1) c3]
    have loc: "local_upto (nv s) (\<lambda>\<sigma>. sat_clause \<sigma> [l])" using local_lit c l(1) by simp
    have "sim (\<lambda>\<sigma>. lit_true \<sigma> l \<and> sat_clause \<sigma> [l]) (\<lambda>\<sigma>. 0 + 0) s (emit [l] ?s3)"
      by (rule sim_trans [OF U(3) E(7) loc local_const])
    then have sim: "sim (\<lambda>\<sigma>. sat_clause \<sigma> c) (\<lambda>\<sigma>. 0) s (emit [l] ?s3)" by (simp add: l(1))
    have "settled c s (emit [l] ?s3)"
      using U(5) relaxed_weights(3) [OF r(3,2)] nv1 l(1) by (auto simp: settled_def wt_set_def)
    moreover have "kept s s1" using reweigh_kept r(1) by simp
    then have "kept s (emit [l] ?s3)"
      using kept_trans [OF _ kept_trans [OF same_rest_kept [OF relaxedD(3) [OF r(3)]] kept_trans [OF reweigh_kept same_rest_kept [OF E(6)]]]] by blast
    moreover have "cost ?s3 = cost s + forfeit c s"
      using same_restD(1) [OF relaxedD(3) [OF r(3)]] r(1) neg l(1) by (simp add: forfeit_def)
    moreover have "budget (emit [l] ?s3) \<le> budget s" using E(5) U(4) by simp
    ultimately show ?thesis
      using that [of "emit [l] ?s3"] r(5) sim E(1,3) emit_weights [OF U(1) c3 U(2)] l(1) by simp
  qed
qed

end
