(* ===== verification/Eval_Soft.thy ===== *)
theory Eval_Soft
  imports Eval_Clauses
begin

text \<open>
  Soft literals and soft clauses: \<open>newSoftVar\<close>, \<open>addWeight\<close> and \<open>addClause\<close> with a weight.
  A soft clause of weight \<open>w\<close> adds exactly \<open>w\<close> to the cost of the assignments that falsify it.
\<close>

section \<open>A literal gets a weight\<close>

lemma reweigh_soft:
  assumes inv: "base_inv s" and W: "weights_inv W s" and l: "l \<noteq> 0" "mapAssum2Card s ! nat \<bar>l\<bar> = None"
    and p: "wv_set l x (poids s) = Some p" and m: "wm.mirrors m (wt_set l x (wt (poids s)))"
    and c: "0 \<le> c" and bud: "budget (reweigh p m c s) < 9223372036854775808"
  shows "weights_inv W (reweigh p m c s)"
proof -
  note WI = weights_invD [OF W] and R = reweigh_one [OF inv p l(1) c]
  let ?s = "reweigh p m c s"
  note o = outs_cong [of ?s s]
  have live: "live_ok W ?s v d" if v: "v < length (mapAssum2Card s)" "mapAssum2Card s ! v = Some d" for v d
  proof -
    have "v \<noteq> nat \<bar>l\<bar>" using l(2) v(2) by auto
    then show ?thesis using WI(2) [OF v] R(5) o by (simp add: live_ok_def)
  qed
  have wait: "waiting_ok ?s y" if "y \<in> set W" for y
  proof -
    have "nat (- y) \<noteq> nat \<bar>l\<bar>" using WI(4) [OF that] l(2) by (auto simp: waiting_ok_def)
    then show ?thesis using WI(4) [OF that] R(5) by (simp add: waiting_ok_def)
  qed
  show ?thesis unfolding weights_inv_def using live wait WI(3) bud m R(2) by simp
qed

lemma weigh_ok:
  assumes inv: "base_inv s" and W: "weights_inv W s" and l: "l \<noteq> 0" "wt (poids s) l = 0"
    and e: "mapAssum2Card s ! nat \<bar>l\<bar> = None" and w: "0 < w" "budget s + w < 9223372036854775808"
    and p: "wv_set l w (poids s) = Some p"
  defines "s' \<equiv> reweigh p (map_insert_at w l (mapWeight2Assum s)) (cost s) s"
  shows "base_inv s'" "weights_inv W s'" "obj \<sigma> s' = obj \<sigma> s + lcost \<sigma> l w" "budget s' = budget s + w"
    "wt (poids s') = wt_set l w (wt (poids s))"
proof -
  note R = reweigh_one [OF inv p l(1) base_invD(6) [OF inv]]
  show "base_inv s'" unfolding s'_def by (rule R(1))
  show bud: "budget s' = budget s + w" and "obj \<sigma> s' = obj \<sigma> s + lcost \<sigma> l w" and "wt (poids s') = wt_set l w (wt (poids s))"
    using R(2-4) l(2) w(1) by (simp_all add: s'_def)
  have "wm.mirrors (map_insert_at w l (mapWeight2Assum s)) (wt_set l w (wt (poids s)))"
    using wm.mirrors_insert [OF weights_invD(1) [OF W] l(2,1) w(1)] .
  then show "weights_inv W s'"
    unfolding s'_def using reweigh_soft [OF inv W l(1) e p _ base_invD(6) [OF inv]] bud w(2) by (simp add: s'_def)
qed

section \<open>A fresh soft variable\<close>

lemma newSoftVar_eq:
  assumes "base_inv s" "0 < w" "w < 9223372036854775808"
  shows "newSoftVar True w s = (int (nv s) + 1,
      reweigh (poids s @ [w]) (map_insert_at w (int (nv s) + 1) (mapWeight2Assum s)) (cost s) (snd (newVar s)))"
    and "wv_set (int (nv s) + 1) w (poids (snd (newVar s))) = Some (poids s @ [w])"
proof -
  note B = base_invD [OF assms(1)]
  have key: "u64 w = w" using assms(2,3) by (intro u64_id) (auto simp: t_weight_max_def)
  show "newSoftVar True w s = (int (nv s) + 1,
      reweigh (poids s @ [w]) (map_insert_at w (int (nv s) + 1) (mapWeight2Assum s)) (cost s) (snd (newVar s)))"
    using assms(2) key B(9)
    by (simp add: newSoftVar_def newVar_eq sc_newVar_def mw_insert_def wv_push_back_def reweigh_def nv_def add.commute)
  show "wv_set (int (nv s) + 1) w (poids (snd (newVar s))) = Some (poids s @ [w])"
    using B(9) list_update_length [of "poids s" 0 "[]" w] by (simp add: wv_set_def newVar_eq nat_add_distrib)
qed

lemma newSoftVar_ok:
  assumes inv: "base_inv s" and W: "weights_inv W s" and w: "0 < w" "budget s + w < 9223372036854775808"
  obtains s' where "newSoftVar True w s = (int (nv s) + 1, s')" "base_inv s'" "weights_inv W s'" "nv s' = Suc (nv s)"
    "cls s' = cls s" "lheap s' = lheap s" "\<And>\<sigma>. obj \<sigma> s' = obj \<sigma> s + (if \<sigma> (int (nv s) + 1) then 0 else w)"
    "budget s' = budget s + w" "wt (poids s') = wt_set (int (nv s) + 1) w (wt (poids s))"
    "mapAssum2Card s' = mapAssum2Card s @ [None]" "same_rest s s'"
proof -
  note B = base_invD [OF inv] and N = newVar_grows [OF inv]
  let ?s1 = "snd (newVar s)" and ?v = "int (nv s) + 1"
  note Q = grows_quiet [OF N(1) inv N(2,4)]
  have wb: "w < 9223372036854775808"
    using w(2) budget_weight [OF inv, of 0] B(6) by linarith
  note E = newSoftVar_eq [OF inv w(1) wb]
  have f: "poids ?s1 = poids s @ [0]" "mapAssum2Card ?s1 = mapAssum2Card s @ [None]" "mapWeight2Assum ?s1 = mapWeight2Assum s"
      "cost ?s1 = cost s" "cls ?s1 = cls s" "lheap ?s1 = lheap s"
    by (simp_all add: newVar_eq cls_def sc_clauses_def)
  have l: "?v \<noteq> 0" "wt (poids ?s1) ?v = 0" "mapAssum2Card ?s1 ! nat \<bar>?v\<bar> = None"
    using N(3) B(9,10) f wt_push [of 0 "poids s" ?v] by (simp_all add: wv_push_back_def nat_add_distrib nth_append)
  have b1: "budget ?s1 + w < 9223372036854775808" using Q(2) w(2) by simp
  let ?s = "reweigh (poids s @ [w]) (map_insert_at w ?v (mapWeight2Assum s)) (cost s) ?s1"
  note G = weigh_ok [OF N(2) Q(3) [OF W] l w(1) b1 E(2), unfolded f(3,4)]
  have tot: "wtotal g n ?s1 = wtotal g n s" if "\<And>v. g v 0 = 0" for g n
    by (rule grows_wtotal [where f = g, OF N(1) inv that]) (use N(4) base_invD(3) [OF inv] in \<open>auto simp: entry_ok_def\<close>)
  have "obj \<sigma> ?s1 = obj \<sigma> s" for \<sigma> unfolding obj_def by (rule tot) simp
  moreover have "lcost \<sigma> ?v w = (if \<sigma> ?v then 0 else w)" for \<sigma> using w(1) by (simp add: lcost_def lit_true_def)
  ultimately have obj: "obj \<sigma> ?s = obj \<sigma> s + (if \<sigma> ?v then 0 else w)" for \<sigma> using G(3) by simp
  have "wt (poids ?s1) = wt (poids s)" using f(1) wt_zeros [of "poids s" 1] by simp
  then have wts: "wt (poids ?s) = wt_set ?v w (wt (poids s))" using G(5) by simp
  have "same_rest s ?s" by (simp add: same_rest_def reweigh_def newVar_eq)
  then show ?thesis
    using that [OF E(1) G(1,2) _ _ _ obj _ wts] G(4) Q(2) N(3) f by simp
qed

section \<open>Soft clauses\<close>

lemma agree_set_fresh: "agree_upto n \<sigma> (\<sigma>(int n + 1 := b))"
  by (rule agree_upd_fresh) simp

text \<open>
  A soft variable \<open>v\<close> with clauses that hold as soon as \<open>v\<close> is false or \<open>P\<close> holds, and that
  force \<open>P\<close> when \<open>v\<close> is true: the assignments that violate \<open>P\<close> pay \<open>w\<close>.
\<close>

lemma soft_var_sim:
  assumes inv: "base_inv s" and s1: "nv s1 = Suc (nv s)" "cls s1 = cls s" "lheap s1 = lheap s"
      "\<And>\<sigma>. obj \<sigma> s1 = obj \<sigma> s + (if \<sigma> (int (nv s) + 1) then 0 else w)" and w: "0 < w"
    and s2: "nv s2 = nv s1" "lheap s2 = lheap s1" "\<And>\<sigma>. obj \<sigma> s2 = obj \<sigma> s1"
      "\<And>\<sigma>. sat_all \<sigma> (cls s2) = (sat_all \<sigma> (cls s1) \<and> (\<sigma> (int (nv s) + 1) \<longrightarrow> P \<sigma>))" "cls s1 \<subseteq> cls s2"
    and P: "local_upto (nv s) P"
  shows "sim (\<lambda>\<sigma>. True) (\<lambda>\<sigma>. - (if P \<sigma> then 0 else w)) s s2"
  unfolding sim_def
proof (intro conjI allI impI)
  show "nv s \<le> nv s2" "cls s \<subseteq> cls s2" using s1 s2 by auto
  show "obj \<sigma> s \<le> obj \<sigma> s2 + - (if P \<sigma> then 0 else w)" if "sat_all \<sigma> (cls s2)" for \<sigma>
    using that s1(4) s2(3,4) w by auto
  fix \<sigma> assume ex: "exact \<sigma> s \<and> True"
  define \<tau> where "\<tau> = \<sigma>(int (nv s) + 1 := P \<sigma>)"
  have ag: "agree_upto (nv s) \<sigma> \<tau>" unfolding \<tau>_def by (rule agree_set_fresh)
  note I = cards_invD [OF base_invD(1) [OF inv]]
  have "lv_exact (lheap s) \<tau>" using lv_exact_agree [OF _ ag I(2)] ex by (simp add: exact_def)
  moreover have "sat_all \<tau> (cls s)"
    using agree_sat_all [OF ag, of "cls s"] es.ok_clauses [OF I(3)] ex by (auto simp: exact_def)
  moreover have "P \<tau> = P \<sigma>" using P ag by (auto simp: local_upto_def)
  ultimately have "exact \<tau> s2" using s1(2,3) s2(2,4) by (simp add: exact_def) (simp add: \<tau>_def)
  moreover have "obj \<tau> s2 + - (if P \<sigma> then 0 else w) \<le> obj \<sigma> s"
    using s1(4) s2(3) obj_agree [OF inv ag] by (simp add: \<tau>_def)
  ultimately show "\<exists>\<sigma>'. agree_upto (nv s) \<sigma> \<sigma>' \<and> exact \<sigma>' s2 \<and> obj \<sigma>' s2 + - (if P \<sigma> then 0 else w) \<le> obj \<sigma> s"
    using ag by blast
qed

lemma local_clause: "\<forall>l \<in> set c. lit_upto n l \<Longrightarrow> local_upto n (\<lambda>\<sigma>. sat_clause \<sigma> c)"
  by (simp add: local_upto_def agree_clause)

text \<open>The price of a soft clause.\<close>

definition pays :: "int list \<Rightarrow> int \<Rightarrow> asg \<Rightarrow> int" where
  "pays c w \<sigma> = (if sat_clause \<sigma> c then 0 else w)"

definition addable :: "ems \<Rightarrow> bool" where
  "addable s = (start_solve s \<or> solutionCost s = t_weight_max \<or> is_incremental s)"

lemma addClause_soft_big:
  assumes inv: "base_inv s" and W: "weights_inv W s" and w: "0 < w" "budget s + w < 9223372036854775808"
    and c: "2 \<le> length c" "\<forall>l \<in> set c. lit_upto (nv s) l" and add: "addable s"
  obtains s' where "addClause_soft c w s = Some (int (nv s) + 1, s')" "base_inv s'" "weights_inv W s'"
    "sim (\<lambda>\<sigma>. True) (\<lambda>\<sigma>. - pays c w \<sigma>) s s'" "budget s' = budget s + w" "nv s' = Suc (nv s)"
    "wt (poids s') = wt_set (int (nv s) + 1) w (wt (poids s))" "mapAssum2Card s' = mapAssum2Card s @ [None]" "same_rest s s'"
proof -
  obtain s1 where s1: "newSoftVar True w s = (int (nv s) + 1, s1)" "base_inv s1" "weights_inv W s1" "nv s1 = Suc (nv s)"
      "cls s1 = cls s" "lheap s1 = lheap s" "\<And>\<sigma>. obj \<sigma> s1 = obj \<sigma> s + (if \<sigma> (int (nv s) + 1) then 0 else w)"
      "budget s1 = budget s + w" "wt (poids s1) = wt_set (int (nv s) + 1) w (wt (poids s))"
      "mapAssum2Card s1 = mapAssum2Card s @ [None]" "same_rest s s1"
    by (rule newSoftVar_ok [OF inv W w]) (rule that)
  let ?c = "c @ [- (int (nv s) + 1)]"
  have c1: "\<forall>l \<in> set ?c. lit_upto (nv s1) l"
    using c(2) s1(4) lit_upto_Suc by (auto simp: lit_upto_def)
  note E = emit_ok [OF s1(2) c1]
  have hard: "addClause_hard ?c s1 = Some (emit ?c s1)" using c(1) by (intro addClause_hard_emit) auto
  have "addClause_soft c w s = Some (int (nv s) + 1, emit ?c s1)"
    using s1(1) hard c(1) w(1) add by (simp add: addClause_soft_def addable_def del: set_append)
  moreover have sat: "sat_all \<sigma> (cls (emit ?c s1)) = (sat_all \<sigma> (cls s1) \<and> (\<sigma> (int (nv s) + 1) \<longrightarrow> sat_clause \<sigma> c))" for \<sigma>
    unfolding E(3) by (auto simp: lit_true_def add.commute)
  have "sim (\<lambda>\<sigma>. True) (\<lambda>\<sigma>. - (if sat_clause \<sigma> c then 0 else w)) s (emit ?c s1)"
    using E(3) by (intro soft_var_sim [OF inv s1(4-7) w(1) E(2) _ E(4) sat _ local_clause [OF c(2)]]) auto
  ultimately show ?thesis
    using that [of "emit ?c s1"] E(1,2,5) emit_weights [OF s1(2) c1 s1(3)] s1(4,8,9,10) same_rest_trans [OF s1(11) E(6)]
    by (simp add: pays_def)
qed

text \<open>
  A clause of negative weight: the soft variable implies every literal, so that the price is due when one of the literals is false.
\<close>

lemma add_binaries_ok:
  assumes "base_inv s" "weights_inv W s" "\<forall>l \<in> set c. lit_upto (nv s) l" "lit_upto (nv s) v"
  shows "\<exists>s'. add_binaries v c s = Some s' \<and> base_inv s' \<and> weights_inv W s' \<and> nv s' = nv s \<and> cls s \<subseteq> cls s' \<and> lheap s' = lheap s \<and>
    budget s' = budget s \<and> (\<forall>\<sigma>. obj \<sigma> s' = obj \<sigma> s) \<and>
    (\<forall>\<sigma>. sat_all \<sigma> (cls s') = (sat_all \<sigma> (cls s) \<and> (lit_true \<sigma> v \<longrightarrow> (\<forall>l \<in> set c. lit_true \<sigma> l))))"
  using assms
proof (induction c arbitrary: s)
  case Nil
  then show ?case by simp
next
  case (Cons l c)
  let ?c = "[- v, l]" and ?s = "emit [- v, l] s"
  have up: "\<forall>l \<in> set ?c. lit_upto (nv s) l" using Cons.prems(3,4) by (auto simp: lit_upto_def)
  note E = emit_ok [OF Cons.prems(1) up] and w = emit_weights [OF Cons.prems(1) up Cons.prems(2)]
  obtain s' where s': "add_binaries v c ?s = Some s'" "base_inv s'" "weights_inv W s'" "nv s' = nv ?s" "cls ?s \<subseteq> cls s'" "lheap s' = lheap ?s"
      "budget s' = budget ?s" "\<forall>\<sigma>. obj \<sigma> s' = obj \<sigma> ?s"
      "\<forall>\<sigma>. sat_all \<sigma> (cls s') = (sat_all \<sigma> (cls ?s) \<and> (lit_true \<sigma> v \<longrightarrow> (\<forall>l \<in> set c. lit_true \<sigma> l)))"
    using Cons.IH [OF E(1) w] Cons.prems(3,4) E(2) by auto
  have v: "v \<noteq> 0" using Cons.prems(4) by (simp add: lit_upto_def)
  have "addClause_hard ?c s = Some ?s" by (intro addClause_hard_emit) simp
  then have "add_binaries v (l # c) s = Some s'" using s'(1) by simp
  moreover have "sat_all \<sigma> (cls s') = (sat_all \<sigma> (cls s) \<and> (lit_true \<sigma> v \<longrightarrow> (\<forall>l \<in> set (l # c). lit_true \<sigma> l)))" for \<sigma>
    using s'(9) E(3) v by auto
  moreover have "lheap ?s = lheap s" by simp
  ultimately show ?case using s'(2-8) E(2-5) by auto
qed

lemma addClause_soft_negative:
  assumes inv: "base_inv s" and W: "weights_inv W s" and w: "w < 0" "budget s - w < 9223372036854775808"
    and c: "2 \<le> length c" "\<forall>l \<in> set c. lit_upto (nv s) l" and add: "addable s"
  obtains s' where "addClause_soft c w s = Some (int (nv s) + 1, s')" "base_inv s'" "weights_inv W s'"
    "sim (\<lambda>\<sigma>. True) (\<lambda>\<sigma>. - (if \<forall>l \<in> set c. lit_true \<sigma> l then 0 else - w)) s s'"
proof -
  have w': "0 < - w" "budget s + - w < 9223372036854775808" using w by simp_all
  obtain s1 where s1: "newSoftVar True (- w) s = (int (nv s) + 1, s1)" "base_inv s1" "weights_inv W s1" "nv s1 = Suc (nv s)"
      "cls s1 = cls s" "lheap s1 = lheap s" "\<And>\<sigma>. obj \<sigma> s1 = obj \<sigma> s + (if \<sigma> (int (nv s) + 1) then 0 else - w)"
    by (rule newSoftVar_ok [OF inv W w']) (rule that)
  have up: "\<forall>l \<in> set c. lit_upto (nv s1) l" "lit_upto (nv s1) (int (nv s) + 1)"
    using c(2) s1(4) lit_upto_Suc by (auto simp: lit_upto_def)
  obtain s2 where s2: "add_binaries (int (nv s) + 1) c s1 = Some s2" "base_inv s2" "weights_inv W s2" "nv s2 = nv s1" "cls s1 \<subseteq> cls s2"
      "lheap s2 = lheap s1" "\<And>\<sigma>. obj \<sigma> s2 = obj \<sigma> s1"
      "\<And>\<sigma>. sat_all \<sigma> (cls s2) = (sat_all \<sigma> (cls s1) \<and> (lit_true \<sigma> (int (nv s) + 1) \<longrightarrow> (\<forall>l \<in> set c. lit_true \<sigma> l)))"
    using add_binaries_ok [OF s1(2,3) up] by auto
  have "addClause_soft c w s = Some (int (nv s) + 1, s2)"
    using s1(1) s2(1) c(1) w(1) add by (simp add: addClause_soft_def addable_def)
  moreover have "local_upto (nv s) (\<lambda>\<sigma>. \<forall>l \<in> set c. lit_true \<sigma> l)"
  proof -
    have "local_upto (nv s) (\<lambda>\<sigma>. lit_true \<sigma> l)" if "l \<in> set c" for l
      using local_clause [of "[l]" "nv s"] that c(2) by simp
    then show ?thesis unfolding local_upto_def by blast
  qed
  then have "sim (\<lambda>\<sigma>. True) (\<lambda>\<sigma>. - (if \<forall>l \<in> set c. lit_true \<sigma> l then 0 else - w)) s s2"
    using s2(8) by (intro soft_var_sim [OF inv s1(4-7) w'(1) s2(4,6,7) _ s2(5)]) (simp_all add: lit_true_def)
  ultimately show ?thesis using that s2(2,3) by blast
qed

section \<open>Weights on literals\<close>

lemma addWeight_eq:
  "addWeight lit weight s =
     (if lit = 0 \<or> weight = 0 then None
      else addWeight_pos (if weight < 0 then - lit else lit) \<bar>weight\<bar> (newVars (nat \<bar>lit\<bar> + 1 - length (poids s)) s))"
  by (simp add: addWeight_def Let_def)

lemma addWeight_pos_ok:
  assumes inv: "base_inv s" and W: "weights_inv W s" and l: "lit_upto (nv s) l" "mapAssum2Card s ! nat \<bar>l\<bar> = None"
    and w: "0 < w" "budget s + w < 9223372036854775808"
  obtains p m c where "addWeight_pos l w s = Some (reweigh p m c s)" "base_inv (reweigh p m c s)" "weights_inv W (reweigh p m c s)"
    "\<And>\<sigma>. obj \<sigma> (reweigh p m c s) = obj \<sigma> s + lcost \<sigma> l w" "budget (reweigh p m c s) \<le> budget s + w"
    "wt p = wt_set l (wt (poids s) l + w) (wt (poids s))" "length p = length (poids s)"
proof -
  note B = base_invD [OF inv] and WI = weights_invD [OF W]
  have l0: "l \<noteq> 0" and len: "nat \<bar>l\<bar> < length (poids s)" using l(1) B(9) by (auto simp: lit_upto_def)
  define q where "q = wt (poids s) l"
  have get: "wv_get (poids s) l = Some q" "wv_get (poids s) (- l) = Some (- q)"
    using wv_get_wt [OF len] wv_get_wt [of "- l" "poids s"] len wt_neg [OF B(4), of l] by (simp_all add: q_def)
  have qb: "cost s + \<bar>q\<bar> \<le> budget s" using budget_weight [OF inv] by (simp add: q_def)
  obtain p where p: "wv_set l (q + w) (poids s) = Some p" using wv_set_Some len by blast
  have add: "wv_add l w (poids s) = Some p" using wv_add_set [OF len] p by (simp add: q_def)
  have getp: "wv_get p l = Some (q + w)" "wv_get p (- l) = Some (- (q + w))" using wv_get_set(1,2) [OF p] l0 by auto
  have key: "u64 x = x" if "0 \<le> x" "x \<le> budget s + w" for x
    using that w(2) by (intro u64_id) (auto simp: t_weight_max_def)
  have wq: "wt (poids s) (- l) = - q" using wt_neg [OF B(4)] by (simp add: q_def)
  note fin0 = that
  have fin: thesis
    if call: "addWeight_pos l w s = Some (reweigh p m (cost s + d) s)" and m: "wm.mirrors m (wt_set l (q + w) (wt (poids s)))"
      and d: "0 \<le> d" "d + \<bar>q + w\<bar> \<le> \<bar>q\<bar> + w" "\<And>\<sigma>. d - lcost \<sigma> l q + lcost \<sigma> l (q + w) = lcost \<sigma> l w" for m d
  proof -
    have c: "0 \<le> cost s + d" using B(6) d(1) by simp
    note R = reweigh_one [OF inv p l0 c]
    have "budget (reweigh p m (cost s + d) s) \<le> budget s + w" using R(4) d(2) by (simp add: q_def)
    moreover have "obj \<sigma> (reweigh p m (cost s + d) s) = obj \<sigma> s + lcost \<sigma> l w" for \<sigma>
      using R(3) [of \<sigma>] d(3) [of \<sigma>] by (simp add: q_def)
    moreover have "weights_inv W (reweigh p m (cost s + d) s)"
      using reweigh_soft [OF inv W l0 l(2) p m c] calculation(1) w(2) by simp
    ultimately show thesis using fin0 [OF call R(1)] R(2) wv_set_length [OF p] by (simp add: q_def)
  qed
  consider "q = 0" | "0 < q" | "q < 0" "0 < q + w" | "q < 0" "q + w < 0" | "q < 0" "q + w = 0" by linarith
  then show thesis
  proof cases
    case 1
    have "wm.mirrors (map_insert_at (q + w) l (mapWeight2Assum s)) (wt_set l (q + w) (wt (poids s)))"
      using wm.mirrors_insert [OF WI(1) _ l0] 1 w(1) by (simp add: q_def)
    then show thesis
      using 1 p get key [of w] w(1) qb B(6)
      by (intro fin [of "map_insert_at (q + w) l (mapWeight2Assum s)" 0])
        (auto simp: addWeight_pos_def set_poids_def mw_insert_def reweigh_def)
  next
    case 2
    have "l \<in> set (map_at (mapWeight2Assum s) q)" using wm.mirrors_bucket [OF WI(1)] l0 2 by (simp add: q_def)
    moreover have "wm.mirrors (map_insert_at (q + w) l (map_erase_at q l (mapWeight2Assum s))) (wt_set l (q + w) (wt (poids s)))"
      using wm.mirrors_move [OF WI(1) _ l0, of "q + w"] 2 w(1) by (simp add: q_def)
    ultimately show thesis
      using 2 add get getp key [of q] key [of "q + w"] w(1) qb B(6)
      by (intro fin [of "map_insert_at (q + w) l (map_erase_at q l (mapWeight2Assum s))" 0])
        (auto simp: addWeight_pos_def add_poids_def mw_insert_def mw_erase_def mw_count_def reweigh_def lcost_def)
  next
    case 3
    have in_: "- l \<in> set (map_at (mapWeight2Assum s) (- q))" using wm.mirrors_bucket [OF WI(1)] l0 3 wq by simp
    have "wm.mirrors (map_erase_at (- q) (- l) (mapWeight2Assum s)) (wt_set l 0 (wt (poids s)))"
      using wm.mirrors_erase [OF WI(1), of "- l"] wq 3 l0 wt_set_neg_zero [of l] by simp
    then have "wm.mirrors (map_insert_at (q + w) l (map_erase_at (- q) (- l) (mapWeight2Assum s)))
        (wt_set l (q + w) (wt_set l 0 (wt (poids s))))"
      by (rule wm.mirrors_insert) (use 3 l0 in \<open>simp_all add: wt_set_def\<close>)
    moreover have "wt_set l (q + w) (wt_set l 0 (wt (poids s))) = wt_set l (q + w) (wt (poids s))"
      by (auto simp: wt_set_def fun_eq_iff)
    ultimately show thesis
      using 3 in_ add get getp key [of "- q"] key [of "q + w"] key [of "cost s - q"] w(1) qb B(6)
      by (intro fin [of "map_insert_at (q + w) l (map_erase_at (- q) (- l) (mapWeight2Assum s))" "- q"])
        (auto simp: addWeight_pos_def add_poids_def add_cost_def mw_insert_def mw_erase_def mw_count_def reweigh_def lcost_def min_def)
  next
    case 4
    have in_: "- l \<in> set (map_at (mapWeight2Assum s) (- q))" using wm.mirrors_bucket [OF WI(1)] l0 4 wq by simp
    have "wm.mirrors (map_insert_at (- (q + w)) (- l) (map_erase_at (- q) (- l) (mapWeight2Assum s)))
        (wt_set (- l) (- (q + w)) (wt (poids s)))"
      using wm.mirrors_move [OF WI(1), of "- l" "- (q + w)"] 4 l0 wq by simp
    moreover have "wt_set (- l) (- (q + w)) (wt (poids s)) = wt_set l (q + w) (wt (poids s))"
      using l0 by (auto simp: wt_set_def fun_eq_iff)
    ultimately show thesis
      using 4 in_ add get getp l(2) key [of "- q"] key [of "- (q + w)"] key [of "cost s + w"] w(1) qb B(6)
      by (intro fin [of "map_insert_at (- (q + w)) (- l) (map_erase_at (- q) (- l) (mapWeight2Assum s))" w])
        (auto simp: addWeight_pos_def add_poids_def add_cost_def mw_insert_def mw_erase_def mw_count_def reweigh_def lcost_def min_def)
  next
    case 5
    have in_: "- l \<in> set (map_at (mapWeight2Assum s) (- q))" using wm.mirrors_bucket [OF WI(1)] l0 5 wq by simp
    have mir: "wm.mirrors (map_erase_at (- q) (- l) (mapWeight2Assum s)) (wt_set l (q + w) (wt (poids s)))"
      using wm.mirrors_erase [OF WI(1), of "- l"] wq 5 l0 wt_set_neg_zero [of l] by simp
    let ?s = "reweigh p (map_erase_at (- q) (- l) (mapWeight2Assum s)) (cost s + w) s"
    have "relax l ?s = Some (None, ?s)" using relax_not_card [OF l0, of ?s] l(2) len B(9,10) by simp
    then have "addWeight_pos l w s = Some ?s"
      using 5 in_ add get getp l(2) key [of "- q"] key [of "cost s + w"] w(1) qb B(6)
      by (auto simp: addWeight_pos_def add_poids_def add_cost_def mw_insert_def mw_erase_def mw_count_def reweigh_def min_def)
    then show thesis using mir 5 w(1) by (intro fin [of _ w]) (auto simp: lcost_def)
  qed
qed

text \<open>A literal over a variable that does not exist yet is the same after its variables are created.\<close>

lemma newVars_append: "newVars n (newVars m s) = newVars (m + n) s"
  by (induction m arbitrary: s) simp_all

lemma newVars_length: "length (poids (newVars n s)) = length (poids s) + n"
  by (induction n arbitrary: s) (simp_all add: newVar_eq)

lemma addWeight_newVars:
  "addWeight lit w s = addWeight lit w (newVars (nat \<bar>lit\<bar> + 1 - length (poids s)) s)"
  by (simp add: addWeight_eq newVars_length newVars_append)

lemma addWeight_ok:
  assumes inv: "base_inv s" and W: "weights_inv W s" and l: "lit_upto (nv s) lit" "mapAssum2Card s ! nat \<bar>lit\<bar> = None"
    and w: "w \<noteq> 0" "budget s + \<bar>w\<bar> < 9223372036854775808"
  obtains s' where "addWeight lit w s = Some s'" "base_inv s'" "weights_inv W s'" "sim (\<lambda>\<sigma>. True) (\<lambda>\<sigma>. - lcost \<sigma> lit w) s s'"
    "budget s' \<le> budget s + \<bar>w\<bar>" "nv s' = nv s" "mapAssum2Card s' = mapAssum2Card s"
    "kept s s'"
proof -
  let ?l = "if w < 0 then - lit else lit"
  have l': "lit_upto (nv s) ?l" "mapAssum2Card s ! nat \<bar>?l\<bar> = None" using l by auto
  have w': "0 < \<bar>w\<bar>" "budget s + \<bar>w\<bar> < 9223372036854775808" using w by simp_all
  obtain p m c where P: "addWeight_pos ?l \<bar>w\<bar> s = Some (reweigh p m c s)" "base_inv (reweigh p m c s)" "weights_inv W (reweigh p m c s)"
    "\<And>\<sigma>. obj \<sigma> (reweigh p m c s) = obj \<sigma> s + lcost \<sigma> ?l \<bar>w\<bar>" "budget (reweigh p m c s) \<le> budget s + \<bar>w\<bar>"
    "wt p = wt_set ?l (wt (poids s) ?l + \<bar>w\<bar>) (wt (poids s))" "length p = length (poids s)"
    by (rule addWeight_pos_ok [OF inv W l' w']) (rule that)
  have l0: "lit \<noteq> 0" using l(1) by auto
  have "lcost \<sigma> ?l \<bar>w\<bar> = lcost \<sigma> lit w" for \<sigma> using l0 w(1) by (auto simp: lcost_def)
  then have "sim (\<lambda>\<sigma>. True) (\<lambda>\<sigma>. - lcost \<sigma> lit w) s (reweigh p m c s)"
    using P(4) by (intro sim_local) simp_all
  moreover have "nat \<bar>lit\<bar> + 1 - length (poids s) = 0" using l(1) base_invD(9) [OF inv] by (simp add: lit_upto_def)
  then have "addWeight lit w s = Some (reweigh p m c s)" using P(1) l0 w(1) by (simp add: addWeight_eq)
  ultimately show ?thesis using that P(2,3,5) reweigh_kept by simp
qed

section \<open>Any soft clause\<close>

lemma pays_unit: "l \<noteq> 0 \<Longrightarrow> 0 < w \<Longrightarrow> pays [l] w \<sigma> = lcost \<sigma> l w"
  by (simp add: pays_def lcost_def)

lemma addClause_soft_ok:
  assumes inv: "base_inv s" and W: "weights_inv W s" and w: "0 < w" "budget s + w < 9223372036854775808"
    and c: "\<forall>l \<in> set c. lit_upto (nv s) l \<and> mapAssum2Card s ! nat \<bar>l\<bar> = None" and add: "addable s"
  obtains r s' where "addClause_soft c w s = Some (r, s')" "base_inv s'" "weights_inv W s'"
    "sim (\<lambda>\<sigma>. True) (\<lambda>\<sigma>. - pays c w \<sigma>) s s'" "budget s' \<le> budget s + w" "nv s \<le> nv s'"
    "mapAssum2Card s' = mapAssum2Card s @ replicate (nv s' - nv s) None"
    "kept s s'"
proof -
  consider "c = []" | l where "c = [l]" | "2 \<le> length c" by (cases c rule: remdups_adj.cases) auto
  then show ?thesis
  proof cases
    case 1
    have cb: "cost s + w \<le> budget s + w" using budget_weight [OF inv, of 0] by simp
    have key: "u64 (cost s + w) = cost s + w"
      using cb w base_invD(6) [OF inv] by (intro u64_id) (auto simp: t_weight_max_def)
    let ?s = "reweigh (poids s) (mapWeight2Assum s) (cost s + w) s"
    have call: "addClause_soft c w s = Some (0, ?s)"
      using 1 w add key by (simp add: addClause_soft_def addable_def add_cost_def reweigh_def)
    have "base_inv ?s" using reweigh_base [OF inv] base_invD(4,6) [OF inv] w(1) by simp
    moreover have bud: "budget ?s = budget s + w" by (simp add: budget_def reweigh_wtotal)
    moreover have "weights_inv W ?s"
      using W w(2) bud outs_cong [of ?s s] by (simp add: weights_inv_def live_ok_def waiting_ok_def)
    moreover have "sim (\<lambda>\<sigma>. True) (\<lambda>\<sigma>. - pays c w \<sigma>) s ?s"
      using 1 by (intro sim_local) (simp_all add: pays_def obj_def reweigh_wtotal)
    ultimately show ?thesis using that [OF call] reweigh_kept by simp
  next
    case 2
    have l: "lit_upto (nv s) l" "mapAssum2Card s ! nat \<bar>l\<bar> = None" "l \<noteq> 0" using c 2 by auto
    obtain s' where A: "addWeight l w s = Some s'" "base_inv s'" "weights_inv W s'" "sim (\<lambda>\<sigma>. True) (\<lambda>\<sigma>. - lcost \<sigma> l w) s s'"
      "budget s' \<le> budget s + \<bar>w\<bar>" "nv s' = nv s" "mapAssum2Card s' = mapAssum2Card s"
      "kept s s'"
      using addWeight_ok [OF inv W l(1,2), of w] w by auto
    have "addClause_soft c w s = Some (0, s')" using A(1) 2 w(1) add by (simp add: addClause_soft_def addable_def)
    then show ?thesis using that A(2-) w(1) 2 l(3) by (simp add: pays_unit)
  next
    case 3
    have c': "\<forall>l \<in> set c. lit_upto (nv s) l" using c by blast
    obtain s' where A: "addClause_soft c w s = Some (int (nv s) + 1, s')" "base_inv s'" "weights_inv W s'"
      "sim (\<lambda>\<sigma>. True) (\<lambda>\<sigma>. - pays c w \<sigma>) s s'" "budget s' = budget s + w" "nv s' = Suc (nv s)"
      "wt (poids s') = wt_set (int (nv s) + 1) w (wt (poids s))" "mapAssum2Card s' = mapAssum2Card s @ [None]" "same_rest s s'"
      by (rule addClause_soft_big [OF inv W w 3 c' add]) (rule that)
    then show ?thesis using that same_rest_kept [OF A(9)] by simp
  qed
qed

end
