(* ===== verification/Wcnf_Parser.thy ===== *)
theory Wcnf_Parser
  imports Stream_Buffer Eval_Soft
begin

text \<open>
  The reader of WCNF files: the functions of \<open>lib/EvalMaxSAT/src/ParseUtils.h\<close> over the bytes
  that are left in the stream, and \<open>readClause\<close>, \<open>calculateCost\<close> and \<open>parse\<close> of
  \<open>lib/EvalMaxSAT/src/utile.h\<close>. The error cases are a call of \<open>exit(3)\<close>, the overflow of a
  signed number (which has no meaning in C++), and a failed assertion; \<open>parse\<close> and
  \<open>calculateCost\<close> return early on some errors, and these returns are values here.
\<close>

section \<open>Characters and numbers\<close>

datatype parse_error = Exit3 | Overflow | Assertion

definition is_space :: "char \<Rightarrow> bool" where
  "is_space c = ((of_char c :: int) \<ge> 9 \<and> (of_char c :: int) \<le> 13 \<or> (of_char c :: int) = 32)"

definition is_digit :: "int \<Rightarrow> bool" where
  "is_digit c = (48 \<le> c \<and> c \<le> 57)"

fun skipWhitespace :: "string \<Rightarrow> string" where
  "skipWhitespace [] = []"
| "skipWhitespace (c # cs) = (if is_space c then skipWhitespace cs else c # cs)"

fun skipLine :: "string \<Rightarrow> string" where
  "skipLine [] = []"
| "skipLine (c # cs) = (if of_char c = (10 :: int) then cs else skipLine cs)"

text \<open>The loop over the digits of \<open>parseInt\<close> and \<open>parseInt64\<close>; \<open>mx\<close> is the largest value of the type.\<close>

fun digits_loop :: "int \<Rightarrow> int \<Rightarrow> string \<Rightarrow> parse_error + int \<times> string" where
  "digits_loop mx val [] = Inr (val, [])"
| "digits_loop mx val (c # cs) =
     (if is_digit (of_char c) then
        if val * 10 + (of_char c - 48) > mx then Inl Overflow else digits_loop mx (val * 10 + (of_char c - 48)) cs
      else Inr (val, c # cs))"

definition parse_signed :: "int \<Rightarrow> string \<Rightarrow> parse_error + int \<times> string" where
  "parse_signed mx s =
     (let s = skipWhitespace s;
          (neg, s) = (if star s = 45 then (True, tl s) else if star s = 43 then (False, tl s) else (False, s))
      in if \<not> is_digit (star s) then Inl Exit3
         else case digits_loop mx 0 s of
           Inl e \<Rightarrow> Inl e
         | Inr (val, s) \<Rightarrow> Inr (if neg then - val else val, s))"

definition parseInt :: "string \<Rightarrow> parse_error + int \<times> string" where
  "parseInt s = parse_signed 2147483647 s"

definition parseInt64 :: "string \<Rightarrow> parse_error + int \<times> string" where
  "parseInt64 s = parse_signed 9223372036854775807 s"

text \<open>The loop of \<open>parseWeight\<close> works on an unsigned number, which wraps around.\<close>

fun weight_loop :: "int \<Rightarrow> string \<Rightarrow> int \<times> string" where
  "weight_loop val [] = (val, [])"
| "weight_loop val (c # cs) =
     (if is_digit (of_char c) then weight_loop (u64 (val * 10 + (of_char c - 48))) cs else (val, c # cs))"

definition parseWeight :: "string \<Rightarrow> parse_error + int \<times> string" where
  "parseWeight s =
     (let s = skipWhitespace s
      in if star s = 104 then
           let s = tl s in if star s \<noteq> 32 then Inl Exit3 else Inr (t_weight_max, s)
         else if star s = 45 then Inl Exit3
         else
           let s = (if star s = 43 then tl s else s)
           in if \<not> is_digit (star s) then Inl Exit3 else Inr (weight_loop 0 s))"

definition match :: "string \<Rightarrow> string \<Rightarrow> bool \<times> string" where
  "match str s = (if take (length str) s = str then (True, drop (length str) s) else (False, s))"

fun eagerMatch :: "string \<Rightarrow> string \<Rightarrow> bool \<times> string" where
  "eagerMatch [] s = (True, s)"
| "eagerMatch (c # str) s = (if of_char c \<noteq> star s then (False, s) else eagerMatch str (tl s))"

section \<open>Every function moves forward\<close>

lemma skipWhitespace_length: "length (skipWhitespace s) \<le> length s"
  by (induction s rule: skipWhitespace.induct) auto

lemma skipLine_length: "length (skipLine s) \<le> length s"
  by (induction s rule: skipLine.induct) auto

lemma skipLine_less: "star s \<noteq> - 1 \<Longrightarrow> length (skipLine s) < length s"
  by (cases s) (use skipLine_length in \<open>auto intro: le_imp_less_Suc\<close>)

lemma digits_loop_length: "digits_loop mx val s = Inr (v, s') \<Longrightarrow> length s' \<le> length s"
  by (induction mx val s rule: digits_loop.induct) (auto split: if_splits)

lemma weight_loop_length: "weight_loop val s = (v, s') \<Longrightarrow> length s' \<le> length s"
  by (induction val s rule: weight_loop.induct) (auto split: if_splits)

lemma digit_Cons:
  assumes "is_digit (star s)"
  obtains c cs where "s = c # cs" "is_digit (of_char c)"
  using assms by (cases s) (auto simp: is_digit_def)

lemma digits_loop_less: "is_digit (star s) \<Longrightarrow> digits_loop mx val s = Inr (v, s') \<Longrightarrow> length s' < length s"
  by (erule digit_Cons) (auto split: if_splits dest: digits_loop_length)

lemma weight_loop_less: "is_digit (star s) \<Longrightarrow> weight_loop val s = (v, s') \<Longrightarrow> length s' < length s"
  by (erule digit_Cons) (auto split: if_splits dest: weight_loop_length)

lemma parse_signed_less:
  assumes "parse_signed mx s = Inr (v, s')"
  shows "length s' < length s"
  using assms skipWhitespace_length [of s] digits_loop_less
  by (fastforce simp: parse_signed_def Let_def split: if_splits sum.splits)

lemma parseInt_less: "parseInt s = Inr (v, s') \<Longrightarrow> length s' < length s"
  by (auto simp: parseInt_def dest: parse_signed_less)

lemma parseWeight_less:
  assumes "parseWeight s = Inr (v, s')"
  shows "length s' < length s"
proof -
  have h: "length (tl (skipWhitespace s)) < length s" if "star (skipWhitespace s) = 104"
    using that skipWhitespace_length [of s] by (cases "skipWhitespace s") auto
  show ?thesis
    using assms skipWhitespace_length [of s] h weight_loop_less
    by (fastforce simp: parseWeight_def Let_def split: if_splits)
qed

lemma eagerMatch_length: "eagerMatch str s = (b, s') \<Longrightarrow> length s' \<le> length s"
  by (induction str s rule: eagerMatch.induct) (fastforce split: if_splits)+

section \<open>Clauses\<close>

text \<open>The two versions of \<open>readClause\<close> that only read, and the one that also creates the variables.\<close>

function readClause :: "string \<Rightarrow> parse_error + int list \<times> string" where
  "readClause s = (case parseInt s of
     Inl e \<Rightarrow> Inl e
   | Inr (lit, s) \<Rightarrow>
       if lit = 0 then Inr ([], s)
       else (case readClause s of Inl e \<Rightarrow> Inl e | Inr (clause, s) \<Rightarrow> Inr (lit # clause, s)))"
  by auto
termination by (relation "measure length") (auto dest!: parseInt_less)

function readClause_solver :: "string \<Rightarrow> ems \<Rightarrow> parse_error + int list \<times> string \<times> ems" where
  "readClause_solver s st = (case parseInt s of
     Inl e \<Rightarrow> Inl e
   | Inr (lit, s) \<Rightarrow>
       if lit = 0 then Inr ([], s, st)
       else (case readClause_solver s (newVars (nat \<bar>lit\<bar> - nVars st) st) of
               Inl e \<Rightarrow> Inl e | Inr (clause, s, st) \<Rightarrow> Inr (lit # clause, s, st)))"
  by auto
termination by (relation "measure (length \<circ> fst)") (auto dest!: parseInt_less)

declare readClause.simps [simp del] readClause_solver.simps [simp del]

lemma readClause_length: "readClause s = Inr (c, s') \<Longrightarrow> length s' < length s"
proof (induction s arbitrary: c s' rule: readClause.induct)
  case (1 s)
  from 1(2) [unfolded readClause.simps [of s]] 1(1) show ?case
    by (fastforce split: sum.splits if_splits dest!: parseInt_less)
qed

lemma readClause_solver_length: "readClause_solver s st = Inr (c, s', st') \<Longrightarrow> length s' < length s"
proof (induction s st arbitrary: c s' st' rule: readClause_solver.induct)
  case (1 s st)
  from 1(2) [unfolded readClause_solver.simps [of s]] 1(1) show ?case
    by (fastforce split: sum.splits if_splits dest!: parseInt_less)
qed

section \<open>Parsing a file\<close>

text \<open>
  The line \<open>p wcnf\<close> of the old format, after its \<open>p\<close>: \<open>Inr None\<close> is the early return with the value
  \<open>false\<close>, \<open>Inr (Some (top, s))\<close> is the weight of the hard clauses.
\<close>

definition parse_header :: "string \<Rightarrow> parse_error + (int \<times> string) option" where
  "parse_header s =
     (if star s \<noteq> 32 then Inr None
      else
        let (b, s) = eagerMatch ''wcnf'' (skipWhitespace s)
        in if b then
             case parseInt s of
               Inl e \<Rightarrow> Inl e
             | Inr (n, s) \<Rightarrow>
                 (case parseInt s of
                    Inl e \<Rightarrow> Inl e
                  | Inr (m, s) \<Rightarrow> (case parseWeight s of Inl e \<Rightarrow> Inl e | Inr (w, s) \<Rightarrow> Inr (Some (w, s))))
           else Inr None)"

lemma parse_header_less:
  assumes "parse_header s = Inr (Some (w, s'))"
  shows "length s' < length s"
  using assms skipWhitespace_length [of s]
  by (auto simp: parse_header_def Let_def split: if_splits sum.splits prod.splits
        dest!: parseInt_less parseWeight_less eagerMatch_length)

text \<open>
  The loop of \<open>parse\<close>: hard clauses go to the solver, soft clauses are kept. The flag is false at the
  early returns of \<open>parse\<close>.
\<close>

function parse_loop :: "int \<Rightarrow> (int list \<times> int) list \<Rightarrow> string \<Rightarrow> ems \<Rightarrow> parse_error + bool \<times> (int list \<times> int) list \<times> ems" where
  "parse_loop weightForHardClause softClauses s st =
     (let s = skipWhitespace s
      in if star s = - 1 then Inr (True, softClauses, st)
         else if star s = 99 then parse_loop weightForHardClause softClauses (skipLine s) st
         else if star s = 112 then
           (case parse_header (tl s) of
              Inl e \<Rightarrow> Inl e
            | Inr None \<Rightarrow> Inr (False, softClauses, st)
            | Inr (Some (w, s)) \<Rightarrow> parse_loop w softClauses s st)
         else
           (case parseWeight s of
              Inl e \<Rightarrow> Inl e
            | Inr (weight, s) \<Rightarrow>
                (case readClause_solver s st of
                   Inl e \<Rightarrow> Inl e
                 | Inr (clause, s, st) \<Rightarrow>
                     if weight \<ge> weightForHardClause then
                       (case addClause clause None st of
                          None \<Rightarrow> Inl Assertion
                        | Some (r, st) \<Rightarrow> parse_loop weightForHardClause softClauses s st)
                     else parse_loop weightForHardClause (softClauses @ [(clause, weight)]) s st)))"
  by auto

termination
proof (relation "measure (\<lambda>(w, sc, s, st). length s)")
  fix w sc s st x
  assume "x = skipWhitespace s" "star x \<noteq> - 1" "star x = 99"
  then show "((w, sc, skipLine x, st), w, sc, s, st) \<in> measure (\<lambda>(w, sc, s, st). length s)"
    using skipLine_less [of x] skipWhitespace_length [of s] by simp
next
  fix w :: int and sc :: "(int list \<times> int) list" and s st x r y w' s'
  assume "x = skipWhitespace s" "star x \<noteq> - 1" "parse_header (tl x) = Inr y" "y = Some r" "(w', s') = r"
  then show "((w', sc, s', st), w, sc, s, st) \<in> measure (\<lambda>(w, sc, s, st). length s)"
    using parse_header_less [of "tl x" w' s'] skipWhitespace_length [of s] by auto
qed (use skipWhitespace_length in \<open>auto dest!: parseWeight_less readClause_solver_length intro: less_le_trans order.strict_trans\<close>)

declare parse_loop.simps [simp del]

text \<open>The conversion of a \<open>t_weight\<close> to the \<open>long long\<close> that \<open>addClause\<close> takes.\<close>

definition as_long_long :: "int \<Rightarrow> int" where
  "as_long_long w = (if w < 9223372036854775808 then w else w - 18446744073709551616)"

fun add_softs :: "(int list \<times> int) list \<Rightarrow> ems \<Rightarrow> ems option" where
  "add_softs [] st = Some st"
| "add_softs ((clause, weight) # cs) st =
     do { (r, st) \<leftarrow> addClause clause (Some (as_long_long weight)) st; add_softs cs st }"

definition parse :: "string \<Rightarrow> ems \<Rightarrow> parse_error + bool \<times> ems" where
  "parse s st =
     (if star s = - 1 then Inr (False, st)
      else case parse_loop t_weight_max [] s st of
        Inl e \<Rightarrow> Inl e
      | Inr (b, softClauses, st) \<Rightarrow>
          if \<not> b then Inr (False, st)
          else (case add_softs softClauses (setNInputVars (nVars st) st) of
                  None \<Rightarrow> Inl Assertion
                | Some st \<Rightarrow> Inr (True, st)))"

section \<open>The cost of an assignment\<close>

text \<open>
  The loop over the literals of a clause in \<open>calculateCost\<close>; a variable outside of the assignment makes
  its assertion fail.
\<close>

fun clause_value :: "bool list \<Rightarrow> int list \<Rightarrow> bool option" where
  "clause_value result [] = Some False"
| "clause_value result (l # lits) =
     (if nat \<bar>l\<bar> \<ge> length result then None
      else if (l > 0) = (result ! nat \<bar>l\<bar>) then Some True else clause_value result lits)"

text \<open>
  The parser of \<open>calculateCost\<close>. Its early returns give \<open>-1\<close>, which is \<^term>\<open>t_weight_max\<close>, when a hard
  clause is false, and \<open>false\<close>, which is the cost \<open>0\<close>, when the line \<open>p\<close> is not the expected one.
\<close>

function cost_loop :: "int \<Rightarrow> int \<Rightarrow> string \<Rightarrow> bool list \<Rightarrow> parse_error + int" where
  "cost_loop weightForHardClause cst s result =
     (let s = skipWhitespace s
      in if star s = - 1 then Inr cst
         else if star s = 99 then cost_loop weightForHardClause cst (skipLine s) result
         else if star s = 112 then
           (case parse_header (tl s) of
              Inl e \<Rightarrow> Inl e
            | Inr None \<Rightarrow> Inr 0
            | Inr (Some (w, s)) \<Rightarrow> cost_loop w cst s result)
         else
           (case parseWeight s of
              Inl e \<Rightarrow> Inl e
            | Inr (weight, s) \<Rightarrow>
                (case readClause s of
                   Inl e \<Rightarrow> Inl e
                 | Inr (lits, s) \<Rightarrow>
                     (case clause_value result lits of
                        None \<Rightarrow> Inl Assertion
                      | Some sat \<Rightarrow>
                          if weight \<ge> weightForHardClause then
                            if sat then cost_loop weightForHardClause cst s result else Inr t_weight_max
                          else cost_loop weightForHardClause (if sat then cst else u64 (cst + weight)) s result))))"
  by auto

termination
proof (relation "measure (\<lambda>(w, c, s, r). length s)")
  fix w c s x and r :: "bool list"
  assume "x = skipWhitespace s" "star x \<noteq> - 1" "star x = 99"
  then show "((w, c, skipLine x, r), w, c, s, r) \<in> measure (\<lambda>(w, c, s, r). length s)"
    using skipLine_less [of x] skipWhitespace_length [of s] by simp
next
  fix w c :: int and r :: "bool list" and s x q y w' s'
  assume "x = skipWhitespace s" "star x \<noteq> - 1" "parse_header (tl x) = Inr y" "y = Some q" "(w', s') = q"
  then show "((w', c, s', r), w, c, s, r) \<in> measure (\<lambda>(w, c, s, r). length s)"
    using parse_header_less [of "tl x" w' s'] skipWhitespace_length [of s] by auto
qed (use skipWhitespace_length in \<open>auto dest!: parseWeight_less readClause_length intro: less_le_trans order.strict_trans\<close>)

declare cost_loop.simps [simp del]

definition calculateCost :: "string \<Rightarrow> bool list \<Rightarrow> parse_error + int" where
  "calculateCost file result = cost_loop t_weight_max 0 file result"

end
