(* ===== verification/Wcnf_Format.thy ===== *)
theory Wcnf_Format
  imports Wcnf_Parser
begin

text \<open>
  The WCNF format as a datatype of lines, how a file is written, and that \<open>parse\<close> and
  \<open>calculateCost\<close> read such a file back: parsing the text of a list of lines is the same as loading the lines.
\<close>

section \<open>Lines\<close>

datatype wline =
    Comment string
  | Header nat nat int
  | Wclause int "int list"

definition digit_char :: "nat \<Rightarrow> char" where
  "digit_char d = char_of (48 + int d)"

fun show_nat :: "nat \<Rightarrow> string" where
  "show_nat n = (if n < 10 then [digit_char n] else show_nat (n div 10) @ [digit_char (n mod 10)])"

declare show_nat.simps [simp del]

definition show_int :: "int \<Rightarrow> string" where
  "show_int l = (if l < 0 then CHR ''-'' # show_nat (nat (- l)) else show_nat (nat l))"

definition newline :: char where
  "newline = CHR 0x0A"

definition show_weight :: "int \<Rightarrow> string" where
  "show_weight w = (if w = t_weight_max then ''h'' else show_nat (nat w))"

fun show_lits :: "int list \<Rightarrow> string" where
  "show_lits [] = '' 0''"
| "show_lits (l # ls) = CHR '' '' # show_int l @ show_lits ls"

fun show_line :: "wline \<Rightarrow> string" where
  "show_line (Comment t) = CHR ''c'' # t @ [newline]"
| "show_line (Header n m t) =
     ''p wcnf '' @ show_nat n @ CHR '' '' # show_nat m @ CHR '' '' # show_nat (nat t) @ [newline]"
| "show_line (Wclause w c) = show_weight w @ show_lits c @ [newline]"

definition show_file :: "wline list \<Rightarrow> string" where
  "show_file ls = concat (map show_line ls)"

text \<open>The numbers of a line fit into the types of the program.\<close>

definition lit_fits :: "int \<Rightarrow> bool" where
  "lit_fits l = (l \<noteq> 0 \<and> \<bar>l\<bar> \<le> 2147483647)"

fun line_fits :: "wline \<Rightarrow> bool" where
  "line_fits (Comment t) = list_all (\<lambda>c. c \<noteq> newline) t"
| "line_fits (Header n m t) = (n \<le> 2147483647 \<and> m \<le> 2147483647 \<and> 0 \<le> t \<and> t \<le> t_weight_max)"
| "line_fits (Wclause w c) = (0 \<le> w \<and> w \<le> t_weight_max \<and> list_all lit_fits c)"

section \<open>Reading numbers\<close>

lemma of_char_digit [simp]: "d < 10 \<Longrightarrow> (of_char (digit_char d) :: int) = 48 + int d"
  by (simp add: digit_char_def of_char_of)

lemma show_nat_Cons:
  obtains c cs where "show_nat n = c # cs" "is_digit (of_char c)"
proof (induction n arbitrary: thesis rule: show_nat.induct)
  case (1 n)
  show ?case
  proof (cases "n < 10")
    case True
    then show ?thesis using 1(2) [of "digit_char n" "[]"] by (simp add: show_nat.simps [of n] is_digit_def)
  next
    case False
    then obtain c cs where "show_nat (n div 10) = c # cs" "is_digit (of_char c)" using 1(1) by blast
    then show ?thesis using 1(2) False by (subst (asm) show_nat.simps [of n]) simp
  qed
qed

definition ends_number :: "string \<Rightarrow> bool" where
  "ends_number r = (\<not> is_digit (star r))"

lemma digits_loop_stop: "ends_number r \<Longrightarrow> digits_loop mx v r = Inr (v, r)"
  by (cases r) (simp_all add: ends_number_def)

lemma weight_loop_stop: "ends_number r \<Longrightarrow> weight_loop v r = (v, r)"
  by (cases r) (simp_all add: ends_number_def)

lemma digits_loop_show: "int n \<le> mx \<Longrightarrow> digits_loop mx 0 (show_nat n @ r) = digits_loop mx (int n) r"
proof (induction n arbitrary: r rule: show_nat.induct)
  case (1 n)
  show ?case
  proof (cases "n < 10")
    case True
    then show ?thesis using 1(2) by (subst show_nat.simps) (simp add: is_digit_def)
  next
    case False
    have "int (n div 10) \<le> mx" using 1(2) by linarith
    moreover have "int (n div 10) * 10 + int (n mod 10) = int n" "n mod 10 \<le> 9" by (simp_all add: zdiv_int zmod_int less_Suc_eq_le [symmetric])
    ultimately show ?thesis
      using 1(1) [OF False, of "digit_char (n mod 10) # r"] 1(2) False
      by (subst show_nat.simps) (simp add: is_digit_def)
  qed
qed

lemma digits_loop_overflow: "mx < int n \<Longrightarrow> 0 \<le> mx \<Longrightarrow> digits_loop mx 0 (show_nat n @ r) = Inl Overflow"
proof (induction n arbitrary: r rule: show_nat.induct)
  case (1 n)
  show ?case
  proof (cases "n < 10")
    case True
    then show ?thesis using 1(2) by (subst show_nat.simps) (simp add: is_digit_def)
  next
    case False
    let ?r = "digit_char (n mod 10) # r"
    have d: "int (n div 10) * 10 + int (n mod 10) = int n" by (simp add: zdiv_int zmod_int)
    have "digits_loop mx 0 (show_nat (n div 10) @ ?r) = Inl Overflow"
    proof (cases "mx < int (n div 10)")
      case True
      then show ?thesis using 1(1) [OF False] 1(3) by simp
    next
      case f: False
      then show ?thesis using digits_loop_show [of "n div 10" mx ?r] d 1(2) by (simp add: is_digit_def)
    qed
    then show ?thesis using False by (subst show_nat.simps) simp
  qed
qed

lemma weight_loop_show: "int n \<le> t_weight_max \<Longrightarrow> weight_loop 0 (show_nat n @ r) = weight_loop (int n) r"
proof (induction n arbitrary: r rule: show_nat.induct)
  case (1 n)
  show ?case
  proof (cases "n < 10")
    case True
    then show ?thesis using 1(2) u64_id [of "int n"] by (subst show_nat.simps) (simp add: is_digit_def)
  next
    case False
    have "int (n div 10) \<le> t_weight_max" using 1(2) by linarith
    moreover have "int (n div 10) * 10 + int (n mod 10) = int n" "n mod 10 \<le> 9" by (simp_all add: zdiv_int zmod_int less_Suc_eq_le [symmetric])
    ultimately show ?thesis
      using 1(1) [OF False, of "digit_char (n mod 10) # r"] 1(2) False u64_id [of "int n"]
      by (subst show_nat.simps) (simp add: is_digit_def)
  qed
qed

lemma digit_char_facts:
  assumes "is_digit (of_char c)"
  shows "\<not> is_space c" "(of_char c :: int) \<notin> {- 1, 32, 43, 45, 99, 104, 112}"
  using assms by (auto simp: is_digit_def is_space_def)

lemma parse_signed_nat:
  assumes "int n \<le> mx" "ends_number r"
  shows "parse_signed mx (show_nat n @ r) = Inr (int n, r)"
proof -
  obtain c cs where c: "show_nat n = c # cs" "is_digit (of_char c)" by (rule show_nat_Cons)
  show ?thesis
    using digits_loop_show [OF assms(1), of r] digits_loop_stop [OF assms(2)] c digit_char_facts [OF c(2)]
    by (simp add: parse_signed_def)
qed

lemma parse_signed_space: "is_space c \<Longrightarrow> parse_signed mx (c # s) = parse_signed mx s"
  by (simp add: parse_signed_def)

lemma is_space_simps [simp]: "is_space CHR '' ''" "is_space newline" "\<not> is_space CHR ''-''"
  by (simp_all add: is_space_def newline_def)

lemma parse_signed_int:
  assumes "\<bar>l\<bar> \<le> mx" "ends_number r"
  shows "parse_signed mx (show_int l @ r) = Inr (l, r)"
proof (cases "l < 0")
  case True
  obtain c cs where c: "show_nat (nat (- l)) = c # cs" "is_digit (of_char c)" by (rule show_nat_Cons)
  have n: "int (nat (- l)) = - l" using True by simp
  show ?thesis
    using digits_loop_show [of "nat (- l)" mx r] digits_loop_stop [OF assms(2)] c digit_char_facts [OF c(2)] True assms(1) n
    by (simp add: parse_signed_def show_int_def)
next
  case False
  then show ?thesis using parse_signed_nat [of "nat l" mx r] assms by (simp add: show_int_def)
qed

lemma parse_signed_overflow:
  assumes "mx < \<bar>l\<bar>" "0 \<le> mx"
  shows "parse_signed mx (show_int l @ r) = Inl Overflow"
proof -
  obtain c cs where c: "show_nat (nat \<bar>l\<bar>) = c # cs" "is_digit (of_char c)" by (rule show_nat_Cons)
  have "digits_loop mx 0 (show_nat (nat \<bar>l\<bar>) @ r) = Inl Overflow" using digits_loop_overflow [of mx "nat \<bar>l\<bar>" r] assms by simp
  then show ?thesis using c digit_char_facts [OF c(2)] by (auto simp: parse_signed_def show_int_def)
qed

lemma parseInt_show:
  assumes "\<bar>l\<bar> \<le> 2147483647" "ends_number r"
  shows "parseInt (CHR '' '' # show_int l @ r) = Inr (l, r)"
  using parse_signed_int [OF assms] by (simp add: parseInt_def parse_signed_space)

lemma parseWeight_space: "is_space c \<Longrightarrow> parseWeight (c # s) = parseWeight s"
  by (simp add: parseWeight_def)

lemma parseWeight_nat:
  assumes "0 \<le> w" "w \<le> t_weight_max" "ends_number r"
  shows "parseWeight (show_nat (nat w) @ r) = Inr (w, r)"
proof -
  obtain c cs where c: "show_nat (nat w) = c # cs" "is_digit (of_char c)" by (rule show_nat_Cons)
  show ?thesis
    using weight_loop_show [of "nat w" r] weight_loop_stop [OF assms(3)] c digit_char_facts [OF c(2)] assms
    by (simp add: parseWeight_def)
qed

lemma parseWeight_show:
  assumes "0 \<le> w" "w \<le> t_weight_max"
  shows "parseWeight (show_weight w @ CHR '' '' # r) = Inr (w, CHR '' '' # r)"
  using parseWeight_nat [OF assms, of "CHR '' '' # r"]
  by (simp add: show_weight_def ends_number_def is_digit_def) (simp add: parseWeight_def is_space_def)

section \<open>Reading lines\<close>

lemma ends_number_simps [simp]: "ends_number (CHR '' '' # r)" "ends_number (newline # r)" "ends_number (show_lits c @ r)"
  by (simp_all add: ends_number_def is_digit_def newline_def) (cases c; simp add: ends_number_def is_digit_def)

lemma show_lits_Cons: "\<exists>r'. show_lits c @ r = CHR '' '' # r'"
  by (cases c) simp_all

lemma parseInt_zero: "parseInt ('' 0'' @ newline # r) = Inr (0, newline # r)"
  using parseInt_show [of 0 "newline # r"] by (simp add: show_int_def show_nat.simps digit_char_def char_of_def)

lemma readClause_show:
  "list_all lit_fits c \<Longrightarrow> readClause (show_lits c @ newline # r) = Inr (c, newline # r)"
proof (induction c)
  case Nil
  then show ?case using parseInt_zero [of r] by (subst readClause.simps) simp
next
  case (Cons l c)
  then have "parseInt (show_lits (l # c) @ newline # r) = Inr (l, show_lits c @ newline # r)"
    using parseInt_show [of l "show_lits c @ newline # r"] by (simp add: lit_fits_def)
  then show ?case using Cons by (subst readClause.simps) (simp add: lit_fits_def)
qed

text \<open>The variables of a clause are created before the clause is used.\<close>

fun create_vars :: "int list \<Rightarrow> ems \<Rightarrow> ems" where
  "create_vars [] st = st"
| "create_vars (lit # c) st = create_vars c (newVars (nat \<bar>lit\<bar> - nVars st) st)"

lemma readClause_solver_show:
  "list_all lit_fits c \<Longrightarrow> readClause_solver (show_lits c @ newline # r) st = Inr (c, newline # r, create_vars c st)"
proof (induction c arbitrary: st)
  case Nil
  then show ?case using parseInt_zero [of r] by (subst readClause_solver.simps) simp
next
  case (Cons l c)
  then have "parseInt (show_lits (l # c) @ newline # r) = Inr (l, show_lits c @ newline # r)"
    using parseInt_show [of l "show_lits c @ newline # r"] by (simp add: lit_fits_def)
  then show ?case using Cons by (subst readClause_solver.simps) (simp add: lit_fits_def)
qed

lemma skipLine_show: "list_all (\<lambda>c. c \<noteq> newline) t \<Longrightarrow> skipLine (t @ newline # r) = r"
proof (induction t)
  case (Cons c t)
  have "(of_char c :: int) \<noteq> 10"
  proof
    assume "(of_char c :: int) = 10"
    then have "(of_char c :: int) = of_char newline" by (simp add: newline_def)
    then show False using Cons.prems by (simp add: of_char_eq_iff)
  qed
  then show ?case using Cons by simp
qed (simp add: newline_def)

lemma parse_header_show:
  assumes "line_fits (Header n m t)"
  shows "parse_header ('' wcnf '' @ show_nat n @ CHR '' '' # show_nat m @ CHR '' '' # show_nat (nat t) @ newline # r) =
    Inr (Some (t, newline # r))"
proof -
  let ?r3 = "newline # r" and ?r2 = "CHR '' '' # show_nat (nat t) @ newline # r"
  let ?r1 = "CHR '' '' # show_nat m @ ?r2"
  have 1: "parseInt (CHR '' '' # show_nat n @ ?r1) = Inr (int n, ?r1)" "parseInt ?r1 = Inr (int m, ?r2)"
    using parseInt_show [of "int n" ?r1] parseInt_show [of "int m" ?r2] assms by (simp_all add: show_int_def)
  have 2: "parseWeight ?r2 = Inr (t, ?r3)"
    using parseWeight_nat [of t ?r3] assms by (simp add: parseWeight_space)
  show ?thesis using 1 2 by (simp add: parse_header_def is_space_def)
qed

lemma star_weight: "\<exists>c cs. show_weight w @ r = c # cs \<and> \<not> is_space c \<and> (of_char c :: int) \<notin> {- 1, 99, 112}"
proof (cases "w = t_weight_max")
  case False
  obtain c cs where "show_nat (nat w) = c # cs" "is_digit (of_char c)" by (rule show_nat_Cons)
  then show ?thesis using False digit_char_facts [of c] by (auto simp: show_weight_def)
qed (simp add: show_weight_def is_space_def)

section \<open>Reading files\<close>

text \<open>Loading a list of lines: what \<open>parse\<close> does with them.\<close>

fun load_lines :: "int \<Rightarrow> (int list \<times> int) list \<Rightarrow> wline list \<Rightarrow> ems \<Rightarrow> parse_error + bool \<times> (int list \<times> int) list \<times> ems" where
  "load_lines thr sc [] st = Inr (True, sc, st)"
| "load_lines thr sc (Comment t # ls) st = load_lines thr sc ls st"
| "load_lines thr sc (Header n m t # ls) st = load_lines t sc ls st"
| "load_lines thr sc (Wclause w c # ls) st =
     (if w \<ge> thr then
        case addClause c None (create_vars c st) of
          None \<Rightarrow> Inl Assertion
        | Some (r, st) \<Rightarrow> load_lines thr sc ls st
      else load_lines thr (sc @ [(c, w)]) ls (create_vars c st))"

lemma parse_loop_newline: "parse_loop thr sc (newline # s) st = parse_loop thr sc s st"
  by (subst (1 2) parse_loop.simps) simp

lemma show_file_simps [simp]: "show_file [] = []" "show_file (l # ls) = show_line l @ show_file ls"
  by (simp_all add: show_file_def)

lemma parse_loop_show:
  "list_all line_fits ls \<Longrightarrow> parse_loop thr sc (show_file ls) st = load_lines thr sc ls st"
proof (induction thr sc ls st rule: load_lines.induct)
  case (1 thr sc st)
  then show ?case by (subst parse_loop.simps) simp
next
  case (2 thr sc t ls st)
  then show ?case
    using skipLine_show [of t "show_file ls"] by (subst parse_loop.simps) (simp add: is_space_def)
next
  case (3 thr sc n m t ls st)
  then show ?case
    using parse_header_show [of n m t "show_file ls"]
    by (subst parse_loop.simps) (simp add: is_space_def parse_loop_newline)
next
  case (4 thr sc w c ls st)
  let ?r = "show_lits c @ newline # show_file ls"
  obtain d ds where d: "show_weight w @ ?r = d # ds" "\<not> is_space d" "(of_char d :: int) \<notin> {- 1, 99, 112}"
    using star_weight by blast
  obtain r' where r': "?r = CHR '' '' # r'" using show_lits_Cons by blast
  have p: "parseWeight (d # ds) = Inr (w, ?r)" using parseWeight_show [of w r'] 4(3) r' d(1) by simp
  have c: "readClause_solver ?r st = Inr (c, newline # show_file ls, create_vars c st)"
    using 4(3) by (intro readClause_solver_show) simp
  have "show_file (Wclause w c # ls) = d # ds" using d(1) by simp
  then show ?case
    using 4 p c d by (subst parse_loop.simps) (simp add: parse_loop_newline split: option.split)
qed

text \<open>The price of the lines for an assignment, as \<open>calculateCost\<close> computes it.\<close>

fun lines_cost :: "int \<Rightarrow> int \<Rightarrow> wline list \<Rightarrow> bool list \<Rightarrow> parse_error + int" where
  "lines_cost thr cst [] result = Inr cst"
| "lines_cost thr cst (Comment t # ls) result = lines_cost thr cst ls result"
| "lines_cost thr cst (Header n m t # ls) result = lines_cost t cst ls result"
| "lines_cost thr cst (Wclause w c # ls) result =
     (case clause_value result c of
        None \<Rightarrow> Inl Assertion
      | Some sat \<Rightarrow>
          if w \<ge> thr then if sat then lines_cost thr cst ls result else Inr t_weight_max
          else lines_cost thr (if sat then cst else u64 (cst + w)) ls result)"

lemma cost_loop_newline: "cost_loop thr cst (newline # s) m = cost_loop thr cst s m"
  by (subst (1 2) cost_loop.simps) simp

lemma cost_loop_show:
  "list_all line_fits ls \<Longrightarrow> cost_loop thr cst (show_file ls) m = lines_cost thr cst ls m"
proof (induction thr cst ls m rule: lines_cost.induct)
  case (1 thr cst m)
  then show ?case by (subst cost_loop.simps) simp
next
  case (2 thr cst t ls m)
  then show ?case
    using skipLine_show [of t "show_file ls"] by (subst cost_loop.simps) (simp add: is_space_def)
next
  case (3 thr cst n k t ls m)
  then show ?case
    using parse_header_show [of n k t "show_file ls"]
    by (subst cost_loop.simps) (simp add: is_space_def cost_loop_newline)
next
  case (4 thr cst w c ls m)
  let ?r = "show_lits c @ newline # show_file ls"
  obtain d ds where d: "show_weight w @ ?r = d # ds" "\<not> is_space d" "(of_char d :: int) \<notin> {- 1, 99, 112}"
    using star_weight by blast
  obtain r' where r': "?r = CHR '' '' # r'" using show_lits_Cons by blast
  have p: "parseWeight (d # ds) = Inr (w, ?r)" using parseWeight_show [of w r'] 4(3) r' d(1) by simp
  have c: "readClause ?r = Inr (c, newline # show_file ls)" using 4(3) by (intro readClause_show) simp
  have "show_file (Wclause w c # ls) = d # ds" using d(1) by simp
  then show ?case
    using 4 p c d by (subst cost_loop.simps) (simp add: cost_loop_newline split: option.split)
qed

end
