(* ===== verification/Eval_Lower.thy ===== *)
theory Eval_Lower
  imports Eval_Soft
begin

text \<open>
  The step that core extraction and the at-most-one transformation share: the weight of a soft
  literal goes down, the index follows, and a cardinality literal whose weight reaches 0 has to be
  relaxed. The step takes exactly \<open>w\<close> out of the cost of the assignments that falsify the literal.
\<close>

section \<open>Lowering the weight of a soft literal\<close>

definition lower :: "int \<Rightarrow> int \<Rightarrow> ems \<Rightarrow> ems" where
  "lower l w s = (let q = wt (poids s) l; m = map_erase_at q l (mapWeight2Assum s)
     in reweigh ((poids s)[nat \<bar>l\<bar> := (if l < 0 then - (q - w) else q - w)])
          (if q = w then m else map_insert_at (q - w) l m) (cost s) s)"

text \<open>What the assignments that falsify a literal no longer pay.\<close>

definition unpaid :: "int \<Rightarrow> int \<Rightarrow> asg \<Rightarrow> int" where
  "unpaid l w \<sigma> = (if lit_true \<sigma> l then 0 else w)"

definition now_waiting :: "int \<Rightarrow> int \<Rightarrow> int list \<Rightarrow> ems \<Rightarrow> int list" where
  "now_waiting l w W s = (if wt (poids s) l = w \<and> mapAssum2Card s ! nat \<bar>l\<bar> \<noteq> None then l # W else W)"

lemma lower_simps [simp]:
  "nv (lower l w s) = nv s" "cls (lower l w s) = cls s" "lheap (lower l w s) = lheap s" "cards (lower l w s) = cards s"
  "cost (lower l w s) = cost s" "cardToAdd (lower l w s) = cardToAdd s" "mapAssum2Card (lower l w s) = mapAssum2Card s"
  "litToRelax (lower l w s) = litToRelax s" "solutionCost (lower l w s) = solutionCost s" "solution (lower l w s) = solution s"
  "start_solve (lower l w s) = start_solve s" "is_incremental (lower l w s) = is_incremental s"
  "nInputVars (lower l w s) = nInputVars s"
  by (simp_all add: lower_def Let_def)

lemma lower_same_rest: "same_rest s (lower l w s)"
  by (simp add: same_rest_def lower_def Let_def reweigh_def)

lemma lower_set:
  assumes "base_inv s" "0 < w" "w \<le> wt (poids s) l"
  shows "wv_set l (wt (poids s) l - w) (poids s) = Some (poids (lower l w s))"
    "wv_add l (- w) (poids s) = Some (poids (lower l w s))"
proof -
  have v: "nat \<bar>l\<bar> < length (poids s)" using wt_nonzero_in [of "poids s" l] assms(2,3) by simp
  then show 1: "wv_set l (wt (poids s) l - w) (poids s) = Some (poids (lower l w s))"
    by (simp add: wv_set_def lower_def Let_def)
  show "wv_add l (- w) (poids s) = Some (poids (lower l w s))" using wv_add_set [OF v, of "- w"] 1 by simp
qed

lemma lower_ok:
  assumes inv: "base_inv s" and w: "0 < w" "w \<le> wt (poids s) l"
  shows "base_inv (lower l w s)" "obj \<sigma> s = obj \<sigma> (lower l w s) + unpaid l w \<sigma>"
    "budget (lower l w s) = budget s - w" "wt (poids (lower l w s)) = wt_set l (wt (poids s) l - w) (wt (poids s))"
    "v \<noteq> nat \<bar>l\<bar> \<Longrightarrow> poids (lower l w s) ! v = poids s ! v"
    "poids (lower l w s) ! nat \<bar>l\<bar> = (if l < 0 then - (wt (poids s) l - w) else wt (poids s) l - w)"
proof -
  let ?q = "wt (poids s) l"
  have l: "l \<noteq> 0" using soft_upto(1) [OF inv, of l] w by auto
  have eq: "lower l w s = reweigh (poids (lower l w s)) (mapWeight2Assum (lower l w s)) (cost s) s"
    by (simp add: lower_def Let_def)
  note R = reweigh_one [OF inv lower_set(1) [OF inv w] l base_invD(6) [OF inv]]
  show "base_inv (lower l w s)" by (subst eq) (rule R(1))
  have "obj \<sigma> (lower l w s) = obj \<sigma> s - cost s + cost s - lcost \<sigma> l ?q + lcost \<sigma> l (?q - w)" by (subst eq) (rule R(3))
  then show "obj \<sigma> s = obj \<sigma> (lower l w s) + unpaid l w \<sigma>" using w by (auto simp: lcost_def unpaid_def)
  have "budget (lower l w s) = budget s - cost s + cost s - \<bar>?q\<bar> + \<bar>?q - w\<bar>" by (subst eq) (rule R(4))
  then show "budget (lower l w s) = budget s - w" using w by simp
  show "wt (poids (lower l w s)) = wt_set l (?q - w) (wt (poids s))" by (rule R(2))
  show "v \<noteq> nat \<bar>l\<bar> \<Longrightarrow> poids (lower l w s) ! v = poids s ! v" by (rule R(5))
  show "poids (lower l w s) ! nat \<bar>l\<bar> = (if l < 0 then - (?q - w) else ?q - w)" by (rule R(6))
qed

lemma lower_mirrors:
  assumes inv: "base_inv s" and W: "weights_inv W s" and w: "0 < w" "w \<le> wt (poids s) l"
  shows "wm.mirrors (mapWeight2Assum (lower l w s)) (wt (poids (lower l w s)))"
proof -
  note WI = weights_invD [OF W]
  have l: "l \<noteq> 0" "0 < wt (poids s) l" using soft_upto(1) [OF inv, of l] w by auto
  show ?thesis
  proof (cases "wt (poids s) l = w")
    case True
    then show ?thesis
      unfolding lower_ok(4) [OF inv w] using wm.mirrors_erase [OF WI(1) l(2,1)] by (simp add: lower_def Let_def)
  next
    case False
    then show ?thesis
      unfolding lower_ok(4) [OF inv w] using wm.mirrors_move [OF WI(1) l(2,1), of "wt (poids s) l - w"] w
      by (simp add: lower_def Let_def)
  qed
qed

lemma lower_weights:
  assumes inv: "base_inv s" and W: "weights_inv W s" and w: "0 < w" "w \<le> wt (poids s) l"
  shows "weights_inv (now_waiting l w W s) (lower l w s)"
proof -
  let ?s = "lower l w s" and ?W = "now_waiting l w W s"
  note WI = weights_invD [OF W] and B = base_invD [OF inv] and L = lower_ok [OF inv w]
  note o = outs_cong [of ?s s, OF lower_simps(3,4)]
  have l: "l \<noteq> 0" "0 < wt (poids s) l" "nat \<bar>l\<bar> \<le> nv s" using soft_upto [OF inv, of l] w by auto
  have nw: "- \<bar>l\<bar> \<notin> set W" using soft_not_waiting(2) [OF inv W, of l] l(2) by auto
  have sub: "set ?W \<subseteq> insert l (set W)" "set W \<subseteq> set ?W" by (auto simp: now_waiting_def)
  have entry: "l = - int (nat \<bar>l\<bar>)" "out_open s (lc_card e) (lc_atMost e + 1)" if "mapAssum2Card s ! nat \<bar>l\<bar> = Some e" for e
    using soft_entry [OF inv W l(2) that] by auto
  have live: "live_ok ?W ?s v e" if v: "v < length (mapAssum2Card s)" "mapAssum2Card s ! v = Some e" for v e
  proof (cases "v = nat \<bar>l\<bar>")
    case False
    then have "- int v \<in> set ?W \<longleftrightarrow> - int v \<in> set W" using sub by auto
    then show ?thesis using WI(2) [OF v] L(5) [OF False] o by (simp add: live_ok_def)
  next
    case True
    have "mapAssum2Card s ! nat \<bar>l\<bar> = Some e" using v(2) True by simp
    from entry [OF this] have e: "l = - int v" "out_open s (lc_card e) (lc_atMost e + 1)" unfolding True .
    have lt: "l < 0" using e(1) l(1) by linarith
    then have p: "poids ?s ! v = - (wt (poids s) l - w)" using L(6) True by simp
    have "wt (poids s) l = w \<Longrightarrow> - int v \<in> set ?W"
      unfolding e(1) [symmetric] using v(2) True by (simp add: now_waiting_def)
    then show ?thesis using p e(2) o w(2) by (auto simp: live_ok_def)
  qed
  have wait: "waiting_ok ?s x" if x: "x \<in> set ?W" for x
  proof (cases "x \<in> set W")
    case True
    then show ?thesis
      using WI(4) [OF True] soft_not_waiting(1) [OF inv W _ True, of l] l(2) L(5) by (simp add: waiting_ok_def)
  next
    case False
    then have xl: "x = l" "wt (poids s) l = w" "mapAssum2Card s ! nat \<bar>l\<bar> \<noteq> None"
      using x by (auto simp: now_waiting_def split: if_splits)
    then have "l < 0" using entry(1) l(1) by auto
    then have "nat (- l) = nat \<bar>l\<bar>" by simp
    then show ?thesis using xl L(6) l(3) \<open>l < 0\<close> by (simp add: waiting_ok_def)
  qed
  have "distinct ?W"
  proof (cases "mapAssum2Card s ! nat \<bar>l\<bar>")
    case None
    then show ?thesis using WI(3) by (simp add: now_waiting_def)
  next
    case (Some e)
    then have "l = - \<bar>l\<bar>" using entry(1) by simp
    then show ?thesis using WI(3) nw by (auto simp: now_waiting_def)
  qed
  then show ?thesis
    unfolding weights_inv_def using lower_mirrors [OF inv W w] live wait L(3) WI(5) w(1) by simp
qed

text \<open>The statements of the source that perform the step.\<close>

lemma lower_steps:
  assumes inv: "base_inv s" and W: "weights_inv W s" and w: "0 < w" "w \<le> wt (poids s) l"
  obtains s1 where "wv_get (poids s) l = Some (wt (poids s) l)" "mw_count (wt (poids s) l) l s"
    "add_poids l (- w) (mw_erase (wt (poids s) l) l s) = Some s1" "wv_get (poids s1) l = Some (wt (poids s) l - w)"
    "wt (poids s) l = w \<longrightarrow> s1 = lower l w s" "wt (poids s) l \<noteq> w \<longrightarrow> mw_insert (wt (poids s) l - w) l s1 = lower l w s"
    "mapAssum2Card s1 = mapAssum2Card s"
proof -
  let ?q = "wt (poids s) l"
  note WI = weights_invD [OF W]
  have l: "l \<noteq> 0" "0 < ?q" "nat \<bar>l\<bar> < length (poids s)" using soft_upto [OF inv, of l] w base_invD(9) [OF inv] by auto
  have qb: "?q < 9223372036854775808" using budget_weight [OF inv, of l] base_invD(6) [OF inv] WI(5) by linarith
  have key: "u64 ?q = ?q" "u64 (?q - w) = ?q - w" using qb w by (auto simp: t_weight_max_def intro!: u64_id)
  define s1 where "s1 = reweigh (poids (lower l w s)) (map_erase_at ?q l (mapWeight2Assum s)) (cost s) s"
  have "add_poids l (- w) (mw_erase ?q l s) = Some s1"
    using lower_set(2) [OF inv w] key by (simp add: add_poids_def mw_erase_def s1_def reweigh_def)
  moreover have "wv_get (poids s1) l = Some (?q - w)"
    using wv_get_set(1) [OF lower_set(1) [OF inv w]] by (simp add: s1_def)
  moreover have "?q = w \<longrightarrow> s1 = lower l w s" "?q \<noteq> w \<longrightarrow> mw_insert (?q - w) l s1 = lower l w s"
    using key by (auto simp: s1_def lower_def Let_def reweigh_def mw_insert_def)
  moreover have "mw_count ?q l s" using wm.mirrors_bucket [OF WI(1)] l key by (simp add: mw_count_def)
  ultimately show ?thesis using that [of s1] wv_get_wt [OF l(3)] by (simp add: s1_def)
qed

text \<open>Lowering and relaxing at once, as the at-most-one transformation does.\<close>

lemma lower_relax:
  assumes inv: "base_inv s" and W: "weights_inv W s" and w: "0 < w" "wt (poids s) l = w"
  obtains r s' where "relax l (lower l w s) = Some (r, s')" "base_inv s'" "weights_inv W s'"
    "sim (\<lambda>\<sigma>. True) (unpaid l w) s s'" "budget s' = budget s - w" "same_rest s s'"
    "\<And>x. nat \<bar>x\<bar> \<le> nv s \<Longrightarrow> wt (poids s') x = wt_set l 0 (wt (poids s)) x"
proof -
  have w': "w \<le> wt (poids s) l" using w by simp
  note WI = weights_invD [OF W] and L = lower_ok [OF inv w(1) w'] and LW = lower_weights [OF inv W w(1) w']
  have l: "l \<noteq> 0" "0 < wt (poids s) l" "nat \<bar>l\<bar> \<le> nv s" "lit_upto (nv s) l" using soft_upto [OF inv, of l] w by auto
  have bud: "budget (lower l w s) \<le> t_weight_max" using L(3) WI(5) w(1) by (simp add: t_weight_max_def)
  have op: "out_open (lower l w s) (lc_card e) (lc_atMost e + 1)" if "mapAssum2Card (lower l w s) ! nat \<bar>l\<bar> = Some e" for e
    using soft_entry(2) [OF inv W l(2), of e] that outs_cong [of "lower l w s" s, OF lower_simps(3,4)] by simp
  obtain r s' where r: "relax l (lower l w s) = Some (r, s')" "relaxed l r (lower l w s) s'"
    using relax_ok [OF L(1) l(1) _ bud op] l(3) by auto
  note R = relaxedD [OF r(2)]
  have nw: "- \<bar>l\<bar> \<notin> set W" using soft_not_waiting(2) [OF inv W, of l] l(2) by auto
  have "set (now_waiting l w W s) - {- \<bar>l\<bar>} = set W"
    using nw soft_entry(1) [OF inv W l(2)] by (auto simp: now_waiting_def)
  moreover have "wt (poids (lower l w s)) l = 0" using L(4) w(2) l(1) by (simp add: wt_set_def)
  ultimately have "weights_inv W s'"
    using relaxed_weights_inv [OF r(2) L(1) l(1) _ _ LW _ WI(3) nw] l(3) by simp
  moreover have "sim (\<lambda>\<sigma>. True) (unpaid l w) s (lower l w s)"
    using L(2) by (intro sim_local) simp_all
  then have "sim (\<lambda>\<sigma>. True) (unpaid l w) s s'"
    using sim_trans [OF _ R(4), of "\<lambda>\<sigma>. True" "unpaid l w" s] by simp
  moreover have "wt (poids s') x = wt_set l 0 (wt (poids s)) x" if "nat \<bar>x\<bar> \<le> nv s" for x
    using relaxed_weights(3) [OF r(2) L(1), of x] that L(4) w(2) by simp
  ultimately show ?thesis
    using that [OF r(1) R(1)] R(5) L(3) same_rest_trans [OF lower_same_rest R(3)] by simp
qed

end
