(* ===== verification/Eval_AtMostOne.thy ===== *)
theory Eval_AtMostOne
  imports Eval_Lower
begin

text \<open>
  \<open>processAtMostOne\<close>: soft literals of which at most one can be true are replaced by one soft
  clause over them and a constant cost. The loop runs until at most one of the literals has weight
  left; each round takes the smallest weight off all of them.
\<close>

section \<open>The operation\<close>

text \<open>The inner loop: a literal whose weight is used up is overwritten by the last one.\<close>

function am1_inner :: "int \<Rightarrow> nat \<Rightarrow> int list \<Rightarrow> ems \<Rightarrow> (int list \<times> ems) option" where
  "am1_inner w i clause s =
     (if i < length clause then
        do { p \<leftarrow> wv_get (poids s) (clause ! i);
             if \<not> p > 0 \<or> \<not> mw_count p (clause ! i) s then None
             else do { s \<leftarrow> add_poids (clause ! i) (- w) (mw_erase p (clause ! i) s);
                       q \<leftarrow> wv_get (poids s) (clause ! i);
                       if \<not> q \<ge> 0 then None
                       else if q = 0 then
                         do { (r, s) \<leftarrow> relax (clause ! i) s;
                              am1_inner w i (butlast (clause[i := last clause])) s }
                       else am1_inner w (i + 1) clause (mw_insert q (clause ! i) s) } }
      else Some (clause, s))"
  by pat_completeness auto
termination by (relation "measure (\<lambda>(w, i, clause, s). length clause - i)") auto

declare am1_inner.simps [simp del]

fun am1_min :: "int \<Rightarrow> int list \<Rightarrow> int list \<Rightarrow> int option" where
  "am1_min w [] p = Some w"
| "am1_min w (l # ls) p = do { q \<leftarrow> wv_get p l; am1_min (if w > q then q else w) ls p }"

partial_function (option) am1_loop :: "int list \<Rightarrow> int list \<Rightarrow> ems \<Rightarrow> (int list \<times> ems) option" where
  [code]: "am1_loop newAssum clause s =
     (if length clause > 1 then
        do { w \<leftarrow> wv_get (poids s) (hd clause);
             if \<not> w > 0 then None
             else do { w \<leftarrow> am1_min w (tl clause) (poids s);
               if \<not> w > 0 then None
               else do { (rest, s) \<leftarrow> am1_inner w 0 clause s;
                 (r, s) \<leftarrow> addClause_soft clause w (add_cost (w * (int (length clause) - 1)) s);
                 p \<leftarrow> wv_get (poids s) r;
                 if r = 0 \<or> \<not> p > 0 then None else am1_loop (newAssum @ [r]) rest s } } }
      else Some (if clause \<noteq> [] then newAssum @ [hd clause] else newAssum, s))"

definition processAtMostOne :: "int list \<Rightarrow> ems \<Rightarrow> (int list \<times> ems) option" where
  "processAtMostOne clause s = am1_loop [] clause s"

section \<open>One pass over the literals\<close>

text \<open>Two different soft literals are over different variables.\<close>

lemma soft_distinct:
  assumes "base_inv s" "0 < wt (poids s) l" "0 < wt (poids s) x" "x \<noteq> l"
  shows "\<bar>x\<bar> \<noteq> \<bar>l\<bar>"
proof
  assume "\<bar>x\<bar> = \<bar>l\<bar>"
  then have "x = - l" using assms(4) by linarith
  then show False using wt_neg [OF base_invD(4) [OF assms(1)], of l] assms(2,3) by simp
qed

lemma am1_step:
  assumes inv: "base_inv s" and W: "weights_inv W s" and i: "i < length clause"
    and w: "0 < w" "w \<le> wt (poids s) (clause ! i)"
  obtains s' where "base_inv s'" "weights_inv W s'" "sim (\<lambda>\<sigma>. True) (unpaid (clause ! i) w) s s'"
    "budget s' = budget s - w" "same_rest s s'"
    "\<forall>x. nat \<bar>x\<bar> \<le> nv s \<longrightarrow> wt (poids s') x = wt_set (clause ! i) (wt (poids s) (clause ! i) - w) (wt (poids s)) x"
    "am1_inner w i clause s = (if wt (poids s) (clause ! i) = w then am1_inner w i (butlast (clause[i := last clause])) s'
       else am1_inner w (i + 1) clause s')"
proof -
  let ?l = "clause ! i" let ?q = "wt (poids s) ?l"
  obtain s1 where s1: "wv_get (poids s) ?l = Some ?q" "mw_count ?q ?l s"
    "add_poids ?l (- w) (mw_erase ?q ?l s) = Some s1" "wv_get (poids s1) ?l = Some (?q - w)"
    "?q = w \<longrightarrow> s1 = lower ?l w s" "?q \<noteq> w \<longrightarrow> mw_insert (?q - w) ?l s1 = lower ?l w s"
    "mapAssum2Card s1 = mapAssum2Card s"
    by (rule lower_steps [OF inv W w]) (rule that)
  show thesis
  proof (cases "?q = w")
    case True
    obtain r s' where r: "relax ?l (lower ?l w s) = Some (r, s')" "base_inv s'" "weights_inv W s'"
      "sim (\<lambda>\<sigma>. True) (unpaid ?l w) s s'" "budget s' = budget s - w" "same_rest s s'"
      "\<And>x. nat \<bar>x\<bar> \<le> nv s \<Longrightarrow> wt (poids s') x = wt_set ?l 0 (wt (poids s)) x"
      by (rule lower_relax [OF inv W w(1) True]) (rule that)
    have "am1_inner w i clause s = am1_inner w i (butlast (clause[i := last clause])) s'"
      using s1 r(1) i w True by (subst am1_inner.simps) simp
    then show ?thesis using that [OF r(2-6)] r(7) True by simp
  next
    case False
    note L = lower_ok [OF inv w]
    have "am1_inner w i clause s = am1_inner w (i + 1) clause (lower ?l w s)"
      using s1 i w False by (subst am1_inner.simps) simp
    moreover have "weights_inv W (lower ?l w s)"
      using lower_weights [OF inv W w] False by (simp add: now_waiting_def)
    moreover have "sim (\<lambda>\<sigma>. True) (unpaid ?l w) s (lower ?l w s)" using L(2) by (intro sim_local) simp_all
    ultimately show ?thesis using that [OF L(1)] L(3,4) lower_same_rest False by simp
  qed
qed

definition unpaid_all :: "int list \<Rightarrow> int \<Rightarrow> asg \<Rightarrow> int" where
  "unpaid_all ls w \<sigma> = (\<Sum>l \<leftarrow> ls. unpaid l w \<sigma>)"

lemma unpaid_all_simps [simp]:
  "unpaid_all [] w \<sigma> = 0" "unpaid_all (l # ls) w \<sigma> = unpaid l w \<sigma> + unpaid_all ls w \<sigma>"
  by (simp_all add: unpaid_all_def)

lemma unpaid_all_mset: "mset ls = mset ms \<Longrightarrow> unpaid_all ls w \<sigma> = unpaid_all ms w \<sigma>"
  unfolding unpaid_all_def by (metis mset_map sum_mset_sum_list)

lemma unpaid_all_count: "unpaid_all ls w \<sigma> = w * (int (length ls) - int (count_true \<sigma> ls))"
  by (induction ls) (auto simp: unpaid_def algebra_simps)

lemma local_unpaid: "lit_upto n l \<Longrightarrow> local_upto n (unpaid l w)"
  by (auto simp: local_upto_def unpaid_def agree_lit)

lemma local_unpaid_all: "\<forall>l \<in> set ls. lit_upto n l \<Longrightarrow> local_upto n (unpaid_all ls w)"
  unfolding local_upto_def unpaid_all_count using agree_count by metis

text \<open>Erasing by overwriting with the last element.\<close>

lemma swap_remove:
  "butlast ((dn @ l # rest)[length dn := last (dn @ l # rest)]) = dn @ (if rest = [] then [] else last rest # butlast rest)"
  by (simp add: butlast_append)

lemma mset_last_butlast: "rest \<noteq> [] \<Longrightarrow> mset (last rest # butlast rest) = mset rest"
  by (metis append_butlast_last_id mset_append mset.simps add.commute add_mset_add_single union_commute)

definition passed :: "int list \<Rightarrow> ems \<Rightarrow> (asg \<Rightarrow> int) \<Rightarrow> int \<Rightarrow> ems \<Rightarrow> bool" where
  "passed W s D d s' = (base_inv s' \<and> weights_inv W s' \<and> sim (\<lambda>\<sigma>. True) D s s' \<and> budget s' = budget s - d \<and> same_rest s s')"

text \<open>The weights after a pass: the literals lose \<open>w\<close>, their negations gain it.\<close>

definition taken :: "int list \<Rightarrow> int \<Rightarrow> (int \<Rightarrow> int) \<Rightarrow> int \<Rightarrow> int" where
  "taken ls w f x = (if x \<in> set ls then f x - w else if - x \<in> set ls then f x + w else f x)"

lemma am1_inner_ok:
  assumes "base_inv s" "weights_inv W s" "0 < w" "distinct (dn @ todo)"
    "\<forall>l \<in> set dn. 0 < wt (poids s) l" "\<forall>l \<in> set todo. w \<le> wt (poids s) l"
  shows "\<exists>c s'. am1_inner w (length dn) (dn @ todo) s = Some (c, s') \<and>
    passed W s (unpaid_all todo w) (w * int (length todo)) s' \<and> distinct c \<and> set c \<subseteq> set (dn @ todo) \<and>
    (\<forall>l \<in> set c. 0 < wt (poids s') l) \<and> length c \<le> length (dn @ todo) \<and>
    (\<forall>x. nat \<bar>x\<bar> \<le> nv s \<longrightarrow> wt (poids s') x = taken todo w (wt (poids s)) x) \<and>
    ((\<exists>l \<in> set todo. wt (poids s) l = w) \<longrightarrow> length c < length (dn @ todo))"
  using assms
proof (induction "length todo" arbitrary: s dn todo)
  case 0
  then have "am1_inner w (length dn) (dn @ todo) s = Some (dn, s)" by (subst am1_inner.simps) simp
  then show ?case using 0 by (auto simp: passed_def sim_refl taken_def)
next
  case (Suc n)
  obtain l rest where todo: "todo = l # rest" using Suc.hyps(2) by (cases todo) auto
  let ?c = "dn @ todo" let ?q = "wt (poids s) l"
  have ci: "?c ! length dn = l" "length dn < length ?c" "w \<le> wt (poids s) (?c ! length dn)"
    using Suc.prems(6) by (simp_all add: todo)
  obtain s1 where s1: "base_inv s1" "weights_inv W s1" "sim (\<lambda>\<sigma>. True) (unpaid l w) s s1" "budget s1 = budget s - w" "same_rest s s1"
    "\<forall>x. nat \<bar>x\<bar> \<le> nv s \<longrightarrow> wt (poids s1) x = wt_set l (?q - w) (wt (poids s)) x"
    "am1_inner w (length dn) ?c s = (if ?q = w then am1_inner w (length dn) (butlast (?c[length dn := last ?c])) s1
       else am1_inner w (length dn + 1) ?c s1)"
    by (rule am1_step [OF Suc.prems(1,2) ci(2) Suc.prems(3) ci(3), unfolded ci(1)]) (rule that)
  have pos: "0 < wt (poids s) x" if "x \<in> set ?c" for x
    using that Suc.prems(3,5,6) by fastforce
  have upto: "nat \<bar>x\<bar> \<le> nv s" "lit_upto (nv s) x" if "x \<in> set ?c" for x
    using soft_upto [OF Suc.prems(1), of x] pos [OF that] by auto
  have keep: "wt (poids s1) x = wt (poids s) x" if "x \<in> set ?c" "x \<noteq> l" for x
    using s1(6) upto(1) [OF that(1)] soft_distinct [OF Suc.prems(1) _ pos [OF that(1)] that(2)] pos [of l] that(2)
    by (auto simp: wt_set_def todo)
  have loc: "local_upto (nv s) (unpaid_all ls w)" if "set ls \<subseteq> set ?c" for ls
    using upto(2) that by (intro local_unpaid_all) blast
  define dn' todo' where "dn' = (if ?q = w then dn else dn @ [l])"
    and "todo' = (if ?q = w \<and> rest \<noteq> [] then last rest # butlast rest else rest)"
  have call: "am1_inner w (length dn) ?c s = am1_inner w (length dn') (dn' @ todo') s1"
    using s1(7) [unfolded todo swap_remove] by (auto simp: dn'_def todo'_def todo)
  have ms: "mset todo' = mset rest" using mset_last_butlast [of rest] by (simp add: todo'_def)
  then have st: "set todo' = set rest" "length todo' = length rest" "distinct todo' = distinct rest"
    by (metis set_mset_mset, metis size_mset, metis distinct_count_atmost_1 mset_eq_setD set_mset_mset)
  have nl: "l \<notin> set dn" "l \<notin> set rest" using Suc.prems(4) by (auto simp: todo)
  have ql: "wt (poids s1) l = ?q - w" using s1(6) upto [of l] by (auto simp: wt_set_def todo)
  have keepr: "wt (poids s1) x = wt (poids s) x" if "x \<in> set rest" for x
    using keep [of x] nl(2) that by (auto simp: todo)
  have d': "\<forall>x \<in> set dn'. 0 < wt (poids s1) x"
  proof
    fix x assume x: "x \<in> set dn'"
    show "0 < wt (poids s1) x"
    proof (cases "x = l")
      case True
      then have "?q \<noteq> w" using x nl(1) by (auto simp: dn'_def split: if_splits)
      then show ?thesis using True ql Suc.prems(6) by (simp add: todo)
    next
      case False
      then have "x \<in> set ?c" using x by (auto simp: dn'_def split: if_splits)
      then show ?thesis using keep [OF _ False] pos by simp
    qed
  qed
  have t': "\<forall>x \<in> set todo'. w \<le> wt (poids s1) x"
    using keepr Suc.prems(6) st(1) by (simp add: todo)
  have dist: "distinct (dn' @ todo')" using Suc.prems(4) st by (auto simp: dn'_def todo)
  have len: "n = length todo'" using Suc.hyps(2) st(2) by (simp add: todo)
  obtain c s' where c: "am1_inner w (length dn') (dn' @ todo') s1 = Some (c, s')"
    "passed W s1 (unpaid_all todo' w) (w * int (length todo')) s'" "distinct c" "set c \<subseteq> set (dn' @ todo')"
    "\<forall>l \<in> set c. 0 < wt (poids s') l" "length c \<le> length (dn' @ todo')"
    "(\<exists>l \<in> set todo'. wt (poids s1) l = w) \<longrightarrow> length c < length (dn' @ todo')"
    "\<forall>x. nat \<bar>x\<bar> \<le> nv s1 \<longrightarrow> wt (poids s') x = taken todo' w (wt (poids s1)) x"
    using Suc.hyps(1) [OF len s1(1,2) Suc.prems(3) dist d' t'] by blast
  have "sim (\<lambda>\<sigma>. True \<and> True) (\<lambda>\<sigma>. unpaid l w \<sigma> + unpaid_all todo' w \<sigma>) s s'"
    using c(2) st(1) by (intro sim_trans [OF s1(3)] loc) (auto simp: passed_def todo)
  moreover have "(\<lambda>\<sigma>. unpaid l w \<sigma> + unpaid_all todo' w \<sigma>) = unpaid_all todo w"
    using unpaid_all_mset [OF ms] by (auto simp: todo)
  moreover have "budget s' = budget s - w * int (length todo)"
    using c(2) s1(4) st(2) by (simp add: passed_def todo algebra_simps)
  ultimately have "passed W s (unpaid_all todo w) (w * int (length todo)) s'"
    using c(2) same_rest_trans [OF s1(5)] by (simp add: passed_def)
  moreover have "set c \<subseteq> set (dn @ todo)" using c(4) st(1) by (auto simp: dn'_def todo split: if_splits)
  moreover have "length c < length (dn @ todo)" if ex: "\<exists>x \<in> set todo. wt (poids s) x = w"
  proof (cases "?q = w")
    case True
    then show ?thesis using c(6) st(2) by (simp add: dn'_def todo)
  next
    case False
    then obtain x where "x \<in> set rest" "wt (poids s) x = w" using ex by (auto simp: todo)
    then have "\<exists>x \<in> set todo'. wt (poids s1) x = w" using keepr st(1) by auto
    then show ?thesis using c(7) st(2) False by (simp add: dn'_def todo)
  qed
  moreover have "length c \<le> length (dn @ todo)" using c(6) st(2) by (simp add: dn'_def todo split: if_splits)
  moreover have "wt (poids s') x = taken todo w (wt (poids s)) x" if x: "nat \<bar>x\<bar> \<le> nv s" for x
  proof -
    have l0: "l \<noteq> 0" using upto(2) [of l] by (auto simp: todo)
    have "- l \<notin> set rest" using pos [of l] pos [of "- l"] wt_neg [OF base_invD(4) [OF Suc.prems(1)], of l] by (auto simp: todo)
    moreover have "nv s \<le> nv s1" using s1(3) by (simp add: sim_def)
    then have "wt (poids s') x = taken rest w (wt (poids s1)) x" using c(8) x st(1) by (simp add: taken_def)
    moreover have "wt (poids s1) x = wt_set l (?q - w) (wt (poids s)) x" using s1(6) x by blast
    ultimately show ?thesis
      using nl(2) l0 wt_neg [OF base_invD(4) [OF Suc.prems(1)], of l] by (auto simp: taken_def wt_set_def todo)
  qed
  ultimately show ?case unfolding call using c(1,3,5) by blast
qed

section \<open>The whole transformation\<close>

lemma am1_min_ok:
  assumes "\<forall>l \<in> set ls. nat \<bar>l\<bar> < length p"
  shows "\<exists>m. am1_min w ls p = Some m \<and> m \<le> w \<and> (\<forall>l \<in> set ls. m \<le> wt p l) \<and> (m = w \<or> (\<exists>l \<in> set ls. m = wt p l))"
  using assms
proof (induction ls arbitrary: w)
  case (Cons l ls)
  let ?w = "if w > wt p l then wt p l else w"
  obtain m where "am1_min ?w ls p = Some m" "m \<le> ?w" "\<forall>l \<in> set ls. m \<le> wt p l" "m = ?w \<or> (\<exists>l \<in> set ls. m = wt p l)"
    using Cons.IH [of ?w] Cons.prems by auto
  then show ?case using wv_get_wt [of l p] Cons.prems by (auto split: if_splits)
qed simp

text \<open>At most one of the literals is true in any model of the clauses.\<close>

definition amo :: "clause set \<Rightarrow> int list \<Rightarrow> bool" where
  "amo F ls = (\<forall>\<sigma>. sat_all \<sigma> F \<longrightarrow> count_true \<sigma> ls \<le> 1)"

lemma count_true_subset:
  assumes "distinct ls" "set ls \<subseteq> set ms"
  shows "count_true \<sigma> ls \<le> count_true \<sigma> ms"
proof -
  have "card (set (filter (lit_true \<sigma>) ls)) \<le> card (set (filter (lit_true \<sigma>) ms))"
    using assms(2) by (intro card_mono) auto
  also have "\<dots> \<le> length (filter (lit_true \<sigma>) ms)" by (rule card_length)
  finally show ?thesis using distinct_card [OF distinct_filter [OF assms(1)], of "lit_true \<sigma>"] by (simp add: count_true_def)
qed

lemma amo_mono: "amo F ls \<Longrightarrow> F \<subseteq> G \<Longrightarrow> distinct ks \<Longrightarrow> set ks \<subseteq> set ls \<Longrightarrow> amo G ks"
  unfolding amo_def using sat_all_mono count_true_subset le_trans by meson

lemma sim_cong_offset:
  assumes "sim G D s s'" "\<And>\<sigma>. sat_all \<sigma> (cls s) \<Longrightarrow> D \<sigma> = D' \<sigma>"
  shows "sim G D' s s'"
  unfolding sim_def
proof (intro conjI allI impI)
  show "nv s \<le> nv s'" "cls s \<subseteq> cls s'" using assms(1) by (auto simp: sim_def)
  show "obj \<sigma> s \<le> obj \<sigma> s' + D' \<sigma>" if "sat_all \<sigma> (cls s')" for \<sigma>
  proof -
    have "sat_all \<sigma> (cls s)" using sat_all_mono [OF that] assms(1) by (simp add: sim_def)
    moreover have "obj \<sigma> s \<le> obj \<sigma> s' + D \<sigma>" using assms(1) that unfolding sim_def by blast
    ultimately show ?thesis using assms(2) by simp
  qed
  show "\<exists>\<sigma>'. agree_upto (nv s) \<sigma> \<sigma>' \<and> exact \<sigma>' s' \<and> obj \<sigma>' s' + D' \<sigma> \<le> obj \<sigma> s" if "exact \<sigma> s \<and> G \<sigma>" for \<sigma>
    using assms that by (auto simp: sim_def exact_def)
qed

lemma local_pays: "\<forall>l \<in> set c. lit_upto n l \<Longrightarrow> local_upto n (pays c w)"
  using local_clause by (auto simp: local_upto_def pays_def)

lemma sat_count: "sat_clause \<sigma> c \<longleftrightarrow> 0 < count_true \<sigma> c"
  by (auto simp: sat_clause_def count_true_def filter_empty_conv)

lemma passed_kept: "passed W s D d s' \<Longrightarrow> kept s s'"
  using same_rest_kept by (simp add: passed_def)

text \<open>One round: the literals pay less, the constant cost and the new soft clause make up for it.\<close>

lemma am1_balance:
  assumes "count_true \<sigma> c \<le> 1"
  shows "unpaid_all c w \<sigma> - w * (int (length c) - 1) - pays c w \<sigma> = 0"
proof (cases "count_true \<sigma> c = 0")
  case True
  then show ?thesis using sat_count [of \<sigma> c] by (simp add: unpaid_all_count pays_def algebra_simps)
next
  case False
  then have "count_true \<sigma> c = 1" using assms by simp
  then show ?thesis using sat_count [of \<sigma> c] by (simp add: unpaid_all_count pays_def algebra_simps)
qed

lemma am1_round:
  assumes inv: "base_inv s" and W: "weights_inv W s" and c: "2 \<le> length c" "distinct c" "amo (cls s) c"
    and w: "0 < w" "\<forall>l \<in> set c. w \<le> wt (poids s) l" "\<exists>l \<in> set c. wt (poids s) l = w" and st: "start_solve s"
  obtains c' s1 s' where "am1_inner w 0 c s = Some (c', s1)"
    "addClause_soft c w (add_cost (w * (int (length c) - 1)) s1) = Some (int (nv s1) + 1, s')"
    "base_inv s'" "weights_inv W s'" "sim0 s s'" "budget s' = budget s" "kept s s'" "nv s \<le> nv s1" "nv s' = Suc (nv s1)"
    "wt (poids s') (int (nv s1) + 1) = w"
    "distinct c'" "set c' \<subseteq> set c" "\<forall>l \<in> set c'. 0 < wt (poids s') l" "length c' < length c" "cost s < cost s'"
    "\<forall>x. nat \<bar>x\<bar> \<le> nv s \<longrightarrow> wt (poids s') x = taken c w (wt (poids s)) x"
proof -
  have up: "\<forall>l \<in> set c. lit_upto (nv s) l" using soft_upto(3) [OF inv] w by fastforce
  obtain c' s1 where c': "am1_inner w 0 c s = Some (c', s1)" "passed W s (unpaid_all c w) (w * int (length c)) s1"
      "distinct c'" "set c' \<subseteq> set c" "\<forall>l \<in> set c'. 0 < wt (poids s1) l" "length c' < length c"
      "\<forall>x. nat \<bar>x\<bar> \<le> nv s \<longrightarrow> wt (poids s1) x = taken c w (wt (poids s)) x"
    using am1_inner_ok [OF inv W w(1), of "[]" c] c(2) w(2,3) by auto
  have s1: "base_inv s1" "weights_inv W s1" "sim (\<lambda>\<sigma>. True) (unpaid_all c w) s s1" "budget s1 = budget s - w * int (length c)" "same_rest s s1"
    using c'(2) by (simp_all add: passed_def)
  define d where "d = w * (int (length c) - 1)"
  have d: "0 < d" "budget s1 + d + w = budget s" using w(1) c(1) s1(4) by (simp_all add: d_def algebra_simps)
  note B1 = base_invD [OF s1(1)] and WI = weights_invD [OF W]
  let ?s2 = "reweigh (poids s1) (mapWeight2Assum s1) (cost s1 + d) s1"
  have cb: "cost s1 + d \<le> budget s" using budget_weight [OF s1(1), of 0] d w(1) by linarith
  then have "u64 (cost s1 + d) = cost s1 + d" using B1(6) d(1) WI(5) by (intro u64_id) (auto simp: t_weight_max_def)
  then have ac: "add_cost d s1 = ?s2" by (simp add: add_cost_def reweigh_def)
  have b2: "base_inv ?s2" using reweigh_base [OF s1(1)] B1(4,6) d(1) by simp
  have bud2: "budget ?s2 = budget s1 + d" by (simp add: budget_def reweigh_wtotal)
  have w2: "weights_inv W ?s2"
    using s1(2) bud2 d(2) w(1) WI(5) outs_cong [of ?s2 s1] by (simp add: weights_inv_def live_ok_def waiting_ok_def)
  have sim2: "sim (\<lambda>\<sigma>. True) (\<lambda>\<sigma>. - d) s1 ?s2" by (intro sim_local) (simp_all add: obj_def reweigh_wtotal)
  have le: "nv s \<le> nv s1" using s1(3) by (simp add: sim_def)
  have up2: "\<forall>l \<in> set c. lit_upto (nv ?s2) l" using up le lit_upto_mono by fastforce
  have b3: "budget ?s2 + w < 9223372036854775808" using bud2 d(2) WI(5) by simp
  have "addable ?s2" using same_restD(6) [OF s1(5)] st by (simp add: addable_def)
  then obtain s' where s': "addClause_soft c w ?s2 = Some (int (nv ?s2) + 1, s')" "base_inv s'" "weights_inv W s'"
    "sim (\<lambda>\<sigma>. True) (\<lambda>\<sigma>. - pays c w \<sigma>) ?s2 s'" "budget s' = budget ?s2 + w" "nv s' = Suc (nv ?s2)"
    "wt (poids s') = wt_set (int (nv ?s2) + 1) w (wt (poids ?s2))" "mapAssum2Card s' = mapAssum2Card ?s2 @ [None]" "same_rest ?s2 s'"
    by (rule addClause_soft_big [OF b2 w2 w(1) b3 c(1) up2]) (rule that)
  have "sim (\<lambda>\<sigma>. True \<and> True) (\<lambda>\<sigma>. unpaid_all c w \<sigma> + - d) s ?s2" by (rule sim_trans [OF s1(3) sim2]) simp_all
  then have "sim (\<lambda>\<sigma>. (True \<and> True) \<and> True) (\<lambda>\<sigma>. unpaid_all c w \<sigma> + - d + - pays c w \<sigma>) s s'"
    using local_pays [OF up] by (intro sim_trans [OF _ s'(4)]) (auto simp: local_upto_def)
  then have "sim0 s s'"
    using am1_balance [of _ c w] c(3) by (simp add: sim_cong_offset [where D' = "\<lambda>\<sigma>. 0"] amo_def d_def)
  moreover have "kept s s'"
    using kept_trans [OF passed_kept [OF c'(2)] kept_trans [OF reweigh_kept same_rest_kept [OF s'(9)]]] by simp
  moreover have "\<forall>l \<in> set c'. 0 < wt (poids s') l"
  proof
    fix l assume l: "l \<in> set c'"
    have "nat \<bar>l\<bar> \<le> nv s1" using soft_upto(2) [OF s1(1)] c'(5) l by fastforce
    then show "0 < wt (poids s') l" using c'(5) l s'(7) by (auto simp: wt_set_def)
  qed
  moreover have "cost s' = cost s + d" using same_restD(1) [OF s1(5)] same_restD(1) [OF s'(9)] by simp
  moreover have "wt (poids s') (int (nv s1) + 1) = w" using s'(7) by (simp add: wt_set_def)
  moreover have "\<forall>x. nat \<bar>x\<bar> \<le> nv s \<longrightarrow> wt (poids s') x = taken c w (wt (poids s)) x"
    using c'(7) s'(7) le by (auto simp: wt_set_def)
  ultimately show ?thesis
    using that [OF c'(1)] s'(1-3,5,6) c'(3,4,6) bud2 d ac le by (simp add: d_def)
qed

text \<open>The weights after the transformation: other literals keep theirs, no weight changes its sign.\<close>

definition spared :: "int list \<Rightarrow> ems \<Rightarrow> ems \<Rightarrow> bool" where
  "spared c s s' = (\<forall>x. nat \<bar>x\<bar> \<le> nv s \<longrightarrow> (x \<notin> set c \<and> - x \<notin> set c \<longrightarrow> wt (poids s') x = wt (poids s) x) \<and>
     (x \<in> set c \<longrightarrow> 0 \<le> wt (poids s') x))"

lemma spared_round:
  assumes inv: "base_inv s" "\<forall>l \<in> set c. w \<le> wt (poids s) l" "0 < w" "set c' \<subseteq> set c" "nv s \<le> nv s2"
    and 1: "\<forall>x. nat \<bar>x\<bar> \<le> nv s \<longrightarrow> wt (poids s2) x = taken c w (wt (poids s)) x" and 2: "spared c' s2 s'"
  shows "spared c s s'"
  unfolding spared_def
proof (intro allI impI conjI)
  fix x assume x: "nat \<bar>x\<bar> \<le> nv s"
  then have x2: "nat \<bar>x\<bar> \<le> nv s2" using inv(5) by simp
  show "wt (poids s') x = wt (poids s) x" if "x \<notin> set c \<and> - x \<notin> set c"
  proof -
    have "x \<notin> set c' \<and> - x \<notin> set c'" using that inv(4) by blast
    then show ?thesis using 1 2 x x2 that by (simp add: spared_def taken_def)
  qed
  show "0 \<le> wt (poids s') x" if "x \<in> set c"
  proof -
    have "w \<le> wt (poids s) x" using that inv(2) by blast
    then have "\<not> w \<le> wt (poids s) (- x)" using inv(3) wt_neg [OF base_invD(4) [OF inv(1)], of x] by linarith
    then have "- x \<notin> set c" using inv(2) by blast
    then have "- x \<notin> set c'" using inv(4) by blast
    then show ?thesis using 1 2 x x2 that inv(2) by (cases "x \<in> set c'") (auto simp: spared_def taken_def)
  qed
qed

lemma am1_loop_ok:
  assumes "base_inv s" "weights_inv W s" "distinct c" "amo (cls s) c" "\<forall>l \<in> set c. 0 < wt (poids s) l" "start_solve s"
  shows "\<exists>new s'. am1_loop acc c s = Some (acc @ new, s') \<and> base_inv s' \<and> weights_inv W s' \<and> sim0 s s' \<and> budget s' = budget s \<and>
    kept s s' \<and> distinct new \<and> (\<forall>l \<in> set new. 0 < wt (poids s') l \<and> (l \<in> set c \<or> int (nv s) < l)) \<and>
    length new \<le> length c \<and> cost s \<le> cost s' \<and> (2 \<le> length c \<longrightarrow> cost s < cost s') \<and> spared c s s'"
  using assms
proof (induction "length c" arbitrary: acc c s rule: less_induct)
  case less
  show ?case
  proof (cases "1 < length c")
    case False
    then have "am1_loop acc c s = Some (acc @ c, s)" by (subst am1_loop.simps) (cases c; simp)
    then show ?thesis using less.prems False by (auto simp: sim_refl spared_def)
  next
    case True
    then obtain l ls where c: "c = l # ls" "ls \<noteq> []" by (cases c) auto
    have len: "nat \<bar>x\<bar> < length (poids s)" if "x \<in> set c" for x
      using wt_nonzero_in less.prems(5) that by fastforce
    obtain w where w: "am1_min (wt (poids s) l) ls (poids s) = Some w" "w \<le> wt (poids s) l" "\<forall>l \<in> set ls. w \<le> wt (poids s) l"
        "w = wt (poids s) l \<or> (\<exists>l \<in> set ls. w = wt (poids s) l)"
      using am1_min_ok [of ls "poids s" "wt (poids s) l"] len c(1) by auto
    have w': "0 < w" "\<forall>l \<in> set c. w \<le> wt (poids s) l" "\<exists>l \<in> set c. wt (poids s) l = w"
      using w c(1) less.prems(5) by auto
    have two: "2 \<le> length c" using True by simp
    obtain c' s1 s2 where r: "am1_inner w 0 c s = Some (c', s1)"
      "addClause_soft c w (add_cost (w * (int (length c) - 1)) s1) = Some (int (nv s1) + 1, s2)"
      "base_inv s2" "weights_inv W s2" "sim0 s s2" "budget s2 = budget s" "kept s s2" "nv s \<le> nv s1" "nv s2 = Suc (nv s1)"
      "wt (poids s2) (int (nv s1) + 1) = w"
      "distinct c'" "set c' \<subseteq> set c" "\<forall>l \<in> set c'. 0 < wt (poids s2) l" "length c' < length c" "cost s < cost s2"
      "\<forall>x. nat \<bar>x\<bar> \<le> nv s \<longrightarrow> wt (poids s2) x = taken c w (wt (poids s)) x"
      by (rule am1_round [OF less.prems(1,2) two less.prems(3,4) w' less.prems(6)]) (rule that)
    let ?r = "int (nv s1) + 1"
    have "wv_get (poids s2) ?r = Some w"
      using wv_get_wt [of ?r "poids s2"] r(9,10) base_invD(9) [OF r(3)] by simp
    then have "am1_loop acc c s = am1_loop (acc @ [?r]) c' s2"
      using w(1) w'(1) r(1,2) wv_get_wt [OF len, of l] less.prems(5) two
      by (subst am1_loop.simps) (simp add: c)
    moreover have "amo (cls s2) c'" using amo_mono [OF less.prems(4) _ r(11,12)] r(5) by (simp add: sim_def)
    then obtain new s' where new: "am1_loop (acc @ [?r]) c' s2 = Some ((acc @ [?r]) @ new, s')" "base_inv s'" "weights_inv W s'"
      "sim0 s2 s'" "budget s' = budget s2" "kept s2 s'" "distinct new"
      "\<forall>l \<in> set new. 0 < wt (poids s') l \<and> (l \<in> set c' \<or> int (nv s2) < l)"
      "length new \<le> length c'" "cost s2 \<le> cost s'" "spared c' s2 s'"
      using less.hyps [OF r(14) r(3,4,11) _ r(13)] keptD(5) [OF r(7)] less.prems(6) by blast
    have le: "nv s \<le> nv s2" using r(8,9) by simp
    have fr: "?r \<notin> set c'" "- ?r \<notin> set c'"
    proof -
      have "nat \<bar>x\<bar> \<le> nv s" if "x \<in> set c'" for x using soft_upto(2) [OF less.prems(1), of x] less.prems(5) r(12) that by fastforce
      from this [of ?r] this [of "- ?r"] show "?r \<notin> set c'" "- ?r \<notin> set c'" using r(8) by auto
    qed
    have "wt (poids s') ?r = w" using new(11) r(9,10) fr by (simp add: spared_def)
    moreover have "?r \<notin> set new" using new(8) fr r(9) by auto
    moreover have "spared c s s'" by (rule spared_round [OF less.prems(1) w'(2,1) r(12) le r(16) new(11)])
    ultimately show ?thesis
      using new r kept_trans [OF r(7) new(6)] sim0_trans [OF r(5) new(4)] w'(1)
      by (intro exI [of _ "?r # new"] exI [of _ s']) auto
  qed
qed

end
