(* ===== verification/Eval_Query.thy ===== *)
theory Eval_Query
  imports Eval_AtMostOne
begin

text \<open>
  Questions to the SAT solver from within \<open>EvalMaxSAT\<close>. They change the solver object and nothing
  else: variables, clauses, weights and costs are as before.
\<close>

section \<open>Questions\<close>

definition eval_solve :: "engine \<Rightarrow> int list \<Rightarrow> ems \<Rightarrow> (bool \<times> ems) option" where
  "eval_solve E A s = do { (b, sv) \<leftarrow> sc_solve E A (solver s); Some (b, s\<lparr>solver := sv\<rparr>) }"

definition eval_solveLimited :: "engine \<Rightarrow> int list \<Rightarrow> int \<Rightarrow> int \<Rightarrow> ems \<Rightarrow> (int \<times> ems) option" where
  "eval_solveLimited E A k except s =
     do { (r, sv) \<leftarrow> sc_solveLimited E A k except (solver s); Some (r, s\<lparr>solver := sv\<rparr>) }"

definition eval_solveWithTimeout :: "engine \<Rightarrow> int list \<Rightarrow> ems \<Rightarrow> (int \<times> ems) option" where
  "eval_solveWithTimeout E A s =
     do { (r, sv) \<leftarrow> sc_solveWithTimeout E A True 0 (solver s); Some (r, s\<lparr>solver := sv\<rparr>) }"

definition eval_propagate :: "engine \<Rightarrow> int list \<Rightarrow> ems \<Rightarrow> (int list option \<times> ems) option" where
  "eval_propagate E A s = do { (r, sv) \<leftarrow> sc_propagate E A (solver s); Some (r, s\<lparr>solver := sv\<rparr>) }"

section \<open>What a question leaves unchanged\<close>

definition queried :: "ems \<Rightarrow> ems \<Rightarrow> bool" where
  "queried s s' = (\<exists>sv. s' = s\<lparr>solver := sv\<rparr> \<and> sc_same (solver s) sv)"

lemma queried_trans: "queried s s' \<Longrightarrow> queried s' s'' \<Longrightarrow> queried s s''"
  unfolding queried_def using sc_same_trans by fastforce

lemma queried_fields [frame_simps]:
  assumes "queried s s'"
  shows "nv s' = nv s" "cls s' = cls s" "poids s' = poids s" "mapWeight2Assum s' = mapWeight2Assum s" "cost s' = cost s"
    "mapAssum2Card s' = mapAssum2Card s" "cardToAdd s' = cardToAdd s" "litToRelax s' = litToRelax s" "lheap s' = lheap s"
    "cards s' = cards s" "c_clauses (cad (solver s')) = c_clauses (cad (solver s))" "kept s s'" "same_rest s s'"
  using assms by (auto simp: queried_def sc_same_def nv_def cls_def sc_clauses_def kept_def same_rest_def)

lemma queried_sink: "queried s s' \<Longrightarrow> sink_ok s \<Longrightarrow> sink_ok s'"
  by (auto simp: queried_def sink_ok_def nv_def dest: sc_same_ok)

lemma queried_base:
  assumes "queried s s'" "base_inv s"
  shows "base_inv s'"
proof -
  note Q = queried_fields [OF assms(1)] and B = base_invD [OF assms(2)]
  note o = outs_cong [OF Q(9,10)]
  have "cards_inv s'"
    using cards_invD [OF B(1)] queried_sink [OF assms(1) B(8)] Q o by (simp add: cards_inv_def es.lv_inv_def)
  moreover have "entry_ok s' v e = entry_ok s v e" for v e using Q o by (simp add: entry_ok_def)
  ultimately show ?thesis using assms(2) Q o by (simp add: base_inv_def)
qed

lemma queried_wtotal: "queried s s' \<Longrightarrow> wtotal f n s' = wtotal f n s"
  by (rule wtotal_cong) (simp_all add: queried_fields)

lemma queried_ok:
  assumes "queried s s'"
  shows "obj \<sigma> s' = obj \<sigma> s" "budget s' = budget s" "sim0 s s'" "weights_inv W s' = weights_inv W s" "exact \<sigma> s' = exact \<sigma> s"
proof -
  note Q = queried_fields [OF assms]
  show obj: "obj \<sigma> s' = obj \<sigma> s" and bud: "budget s' = budget s" for \<sigma>
    using queried_wtotal [OF assms] by (simp_all add: obj_def budget_def)
  show "sim0 s s'" using Q obj by (intro sim_cong_obj) simp_all
  show "weights_inv W s' = weights_inv W s"
    using Q bud outs_cong [OF Q(9,10)] by (simp add: weights_inv_def live_ok_def waiting_ok_def)
  show "exact \<sigma> s' = exact \<sigma> s" by (rule exact_cong [OF Q(9,2)])
qed

lemma satisfies_cls: "satisfies \<sigma> (c_clauses (cad (solver s))) A = (sat_all \<sigma> (cls s) \<and> (\<forall>a \<in> set A. lit_true \<sigma> a))"
  by (simp add: satisfies_def cls_def sc_clauses_def)

section \<open>Answers\<close>

lemma eval_solve_ok:
  assumes "engine_ok E" "engine_live E" "base_inv s"
  obtains b s' where "eval_solve E A s = Some (b, s')" "queried s s'" "if b then sc_sat A (solver s') else sc_unsat A (solver s')"
proof -
  have "sc_ok (solver s)" using base_invD(8) [OF assms(3)] by (simp add: sink_ok_def)
  then obtain b sv where "sc_solve E A (solver s) = Some (b, sv)" "sc_same (solver s) sv" "if b then sc_sat A sv else sc_unsat A sv"
    using sc_solve_returns [OF assms(1,2)] by blast
  then show ?thesis using that [of b "s\<lparr>solver := sv\<rparr>"] by (auto simp: eval_solve_def queried_def split: if_splits)
qed

lemma eval_solveLimited_ok:
  assumes "engine_ok E" "base_inv s"
  obtains r s' where "eval_solveLimited E A k except s = Some (r, s')" "queried s s'"
    "r = 1 \<and> sc_sat (filter (\<lambda>l. l \<noteq> except) A) (solver s') \<or>
     r = 0 \<and> sc_unsat (filter (\<lambda>l. l \<noteq> except) A) (solver s') \<or> r = - 1"
proof -
  have "sc_ok (solver s)" using base_invD(8) [OF assms(2)] by (simp add: sink_ok_def)
  then obtain r sv where "sc_solveLimited E A k except (solver s) = Some (r, sv)" "sc_same (solver s) sv"
    "r = 1 \<and> sc_sat (filter (\<lambda>l. l \<noteq> except) A) sv \<or> r = 0 \<and> sc_unsat (filter (\<lambda>l. l \<noteq> except) A) sv \<or> r = - 1"
    using sc_solveLimited_ok [OF assms(1)] by blast
  then show ?thesis using that by (auto simp: eval_solveLimited_def queried_def)
qed

lemma eval_solveWithTimeout_ok:
  assumes "engine_ok E" "base_inv s" "0 \<notin> set A"
  obtains r s' where "eval_solveWithTimeout E A s = Some (r, s')" "queried s s'"
    "r = 1 \<and> sc_sat A (solver s') \<or> r = 0 \<and> sc_unsat A (solver s') \<or> r = - 1"
proof -
  have "sc_ok (solver s)" using base_invD(8) [OF assms(2)] by (simp add: sink_ok_def)
  moreover have "filter (\<lambda>l. l \<noteq> 0) A = A" using assms(3) by (induction A) auto
  ultimately obtain r sv where "sc_solveWithTimeout E A True 0 (solver s) = Some (r, sv)" "sc_same (solver s) sv"
    "r = 1 \<and> sc_sat A sv \<or> r = 0 \<and> sc_unsat A sv \<or> r = - 1"
    using sc_solveWithTimeout_ok [OF assms(1), where except = 0] by metis
  then show ?thesis using that by (auto simp: eval_solveWithTimeout_def queried_def)
qed

lemma sc_unsat_cls: "sc_unsat A (solver s) \<Longrightarrow> sat_all \<sigma> (cls s) \<Longrightarrow> \<exists>a \<in> set A. \<not> lit_true \<sigma> a"
  unfolding sc_unsat_def using satisfies_cls by blast

text \<open>
  Propagating a soft literal: either it cannot be true, or every reported literal excludes it
  together with the negation of the reported one.
\<close>

definition propagated :: "ems \<Rightarrow> int \<Rightarrow> int list option \<Rightarrow> bool" where
  "propagated s l r = (case r of
     None \<Rightarrow> \<forall>\<sigma>. sat_all \<sigma> (cls s) \<longrightarrow> \<not> lit_true \<sigma> l
   | Some ps \<Rightarrow> distinct ps \<and> (\<forall>x \<in> set ps. lit_upto (nv s) x \<and> x \<noteq> l \<and> - x \<noteq> l \<and> [x] \<notin> cls s \<and>
        (\<forall>\<sigma>. sat_all \<sigma> (cls s) \<longrightarrow> lit_true \<sigma> l \<longrightarrow> lit_true \<sigma> x)))"

lemma eval_propagate_ok:
  assumes "engine_ok E" "base_inv s"
  obtains r s' where "eval_propagate E [l] s = Some (r, s')" "queried s s'" "propagated s' l r"
proof -
  have ok: "sc_ok (solver s)" using base_invD(8) [OF assms(2)] by (simp add: sink_ok_def)
  then obtain r sv where r: "sc_propagate E [l] (solver s) = Some (r, sv)" "sc_same (solver s) sv"
      "propagate_ok (c_clauses (cad (solver s))) [l] r"
    using sc_propagate_ok [OF assms(1)] by blast
  let ?s = "s\<lparr>solver := sv\<rparr>"
  have q: "queried s ?s" using r(2) by (auto simp: queried_def)
  have "lit_upto (nv s) x" if "c \<in> set (c_clauses (cad (solver s)))" "x \<in> set c \<or> - x \<in> set c" for c x
    using ok that unfolding sc_ok_def sc_clauses_def nv_def by (metis lit_upto_neg)
  then have "propagated ?s l r"
    using r(3) queried_fields(1,2) [OF q] satisfies_cls [of _ s "[l]"]
    by (auto simp: propagated_def propagate_ok_def cls_def sc_clauses_def split: option.splits)
  then show ?thesis using that [of r ?s] r(1) q by (simp add: eval_propagate_def)
qed

end
