(* ===== verification/Eval_Heuristics.thy ===== *)
theory Eval_Heuristics
  imports Eval_Query
begin

text \<open>
  The two heuristics that look for sets of soft literals of which at most one can be true by
  propagating one soft literal at a time: \<open>adapt_am1_VeryFastHeuristic\<close> and
  \<open>adapt_am1_FastHeuristicV7\<close> with \<open>reduceCliqueV2\<close>. Both walk over the variables while the
  transformation appends new ones; \<open>scan_vars\<close> is their common loop, and the locale \<open>am1_body\<close>
  states what its body has to promise for the walk to end. Counters are natural numbers.
\<close>

section \<open>The operations\<close>

text \<open>\<open>for(int VAR = 1; VAR < _poids.size(); VAR++)\<close> with a counter of what was found.\<close>

partial_function (option) scan_vars ::
    "(nat \<Rightarrow> nat \<Rightarrow> ems \<Rightarrow> (nat \<times> ems) option) \<Rightarrow> nat \<Rightarrow> nat \<Rightarrow> ems \<Rightarrow> (nat \<times> ems) option" where
  [code]: "scan_vars body VAR nb s =
     (if VAR < length (poids s) then do { (nb, s) \<leftarrow> body VAR nb s; scan_vars body (VAR + 1) nb s }
      else Some (nb, s))"

fun vf_props :: "int \<Rightarrow> int \<Rightarrow> int list \<Rightarrow> nat \<Rightarrow> ems \<Rightarrow> (nat \<times> ems) option" where
  "vf_props VAR LIT [] nb s = Some (nb, s)"
| "vf_props VAR LIT (litProp # props) nb s =
     do { p \<leftarrow> wv_get (poids s) litProp;
          if p < 0 then
            do { (newAssum, s) \<leftarrow> processAtMostOne [- litProp, LIT] s;
                 q \<leftarrow> wv_get (poids s) VAR;
                 if q = 0 then Some (nb + 1, s) else vf_props VAR LIT props (nb + 1) s }
          else vf_props VAR LIT props nb s }"

definition vf_body :: "engine \<Rightarrow> nat \<Rightarrow> nat \<Rightarrow> ems \<Rightarrow> (nat \<times> ems) option" where
  "vf_body E VAR nb s =
     do { p \<leftarrow> wv_get (poids s) (int VAR);
          if p = 0 then Some (nb, s)
          else
            let LIT = (if p > 0 then int VAR else - int VAR)
            in do { (r, s) \<leftarrow> eval_propagate E [LIT] s;
                    case r of
                      Some props \<Rightarrow> vf_props (int VAR) LIT props nb s
                    | None \<Rightarrow> do { s \<leftarrow> addClause_hard [- LIT] s; Some (nb + 1, s) } } }"

definition adapt_am1_VeryFastHeuristic :: "engine \<Rightarrow> ems \<Rightarrow> (nat \<times> ems) option" where
  "adapt_am1_VeryFastHeuristic E s = scan_vars (vf_body E) 1 0 s"

text \<open>\<open>reduceCliqueV2\<close>: \<open>std::list::sort\<close> is stable; the assertions are those of the comparison.\<close>

fun reduce_inner :: "engine \<Rightarrow> int \<Rightarrow> int list \<Rightarrow> ems \<Rightarrow> (int list \<times> ems) option" where
  "reduce_inner E x [] s = Some ([], s)"
| "reduce_inner E x (y # ys) s =
     do { (r, s) \<leftarrow> eval_solveLimited E [- x, - y] 10000 0 s;
          (zs, s) \<leftarrow> reduce_inner E x ys s;
          Some (if r \<noteq> 0 then zs else y # zs, s) }"

lemma reduce_inner_length: "reduce_inner E x ys s = Some (zs, s') \<Longrightarrow> length zs \<le> length ys"
proof (induction E x ys s arbitrary: zs s' rule: reduce_inner.induct)
  case (2 E x y ys s)
  then show ?case by (fastforce split: if_splits)
qed simp

function reduce_outer :: "engine \<Rightarrow> int list \<Rightarrow> ems \<Rightarrow> (int list \<times> ems) option" where
  "reduce_outer E [] s = Some ([], s)"
| "reduce_outer E (x # xs) s =
     (case reduce_inner E x xs s of
        None \<Rightarrow> None
      | Some (ys, s) \<Rightarrow> do { (zs, s) \<leftarrow> reduce_outer E ys s; Some (x # zs, s) })"
  by pat_completeness auto
termination
  by (relation "measure (\<lambda>(E, xs, s). length xs)") (auto dest: reduce_inner_length)

definition reduceCliqueV2 :: "engine \<Rightarrow> int list \<Rightarrow> ems \<Rightarrow> (int list \<times> ems) option" where
  "reduceCliqueV2 E clique s =
     do { clique \<leftarrow> (if length (mapWeight2Assum s) > 1 \<and> length clique > 1 then
                 if list_all (\<lambda>l. nat \<bar>l\<bar> < length (poids s) \<and> wt (poids s) (- l) > 0) clique
                 then Some (sort_key (\<lambda>l. wt (poids s) (- l)) clique) else None
               else Some clique);
          reduce_outer E clique s }"

fun neg_weights :: "int list \<Rightarrow> int list \<Rightarrow> int list option" where
  "neg_weights p [] = Some []"
| "neg_weights p (litProp # props) =
     do { q \<leftarrow> wv_get p litProp; ls \<leftarrow> neg_weights p props; Some (if q < 0 then litProp # ls else ls) }"

definition v7_body :: "engine \<Rightarrow> nat \<Rightarrow> nat \<Rightarrow> ems \<Rightarrow> (nat \<times> ems) option" where
  "v7_body E VAR nb s =
     do { p \<leftarrow> wv_get (poids s) (int VAR);
          if p = 0 then Some (nb, s)
          else
            let LIT = (if p > 0 then int VAR else - int VAR)
            in do { (r, s) \<leftarrow> eval_propagate E [LIT] s;
                    case r of
                      Some props \<Rightarrow>
                        if props = [] then Some (nb, s)
                        else do { clique \<leftarrow> neg_weights (poids s) props;
                                  if clique = [] then Some (nb, s)
                                  else do { (clique, s) \<leftarrow> reduceCliqueV2 E clique s;
                                            let clique = clique @ [- LIT]
                                            in if length clique \<ge> 2 then
                                                 do { (newAssum, s) \<leftarrow> processAtMostOne (map uminus clique) s; Some (nb + 1, s) }
                                               else Some (nb, s) } }
                    | None \<Rightarrow> do { s \<leftarrow> addClause_hard [- LIT] s; Some (nb + 1, s) } } }"

definition adapt_am1_FastHeuristicV7 :: "engine \<Rightarrow> ems \<Rightarrow> (nat \<times> ems) option" where
  "adapt_am1_FastHeuristicV7 E s = scan_vars (v7_body E) 1 0 s"

section \<open>Progress\<close>

definition evolves :: "int list \<Rightarrow> ems \<Rightarrow> ems \<Rightarrow> bool" where
  "evolves W s s' = (base_inv s' \<and> weights_inv W s' \<and> sim0 s s' \<and> budget s' \<le> budget s \<and> kept s s' \<and> cost s \<le> cost s')"

lemma evolvesD:
  assumes "evolves W s s'"
  shows "base_inv s'" "weights_inv W s'" "sim0 s s'" "budget s' \<le> budget s" "kept s s'" "cost s \<le> cost s'"
  using assms by (simp_all add: evolves_def)

lemma evolves_trans: "evolves W s s' \<Longrightarrow> evolves W s' s'' \<Longrightarrow> evolves W s s''"
  unfolding evolves_def using sim0_trans kept_trans by fastforce

lemma evolves_refl: "base_inv s \<Longrightarrow> weights_inv W s \<Longrightarrow> evolves W s s"
  by (simp add: evolves_def sim_refl)

lemma queried_evolves: "queried s s' \<Longrightarrow> base_inv s \<Longrightarrow> weights_inv W s \<Longrightarrow> evolves W s s'"
  by (simp add: evolves_def queried_base queried_ok queried_fields)

text \<open>Nothing but the solver object changed, or the constant cost went up.\<close>

definition advances :: "int list \<Rightarrow> nat \<Rightarrow> ems \<Rightarrow> nat \<Rightarrow> ems \<Rightarrow> bool" where
  "advances W n s n' s' = (evolves W s s' \<and> (queried s s' \<and> n' = n \<or> cost s < cost s' \<and> n < n'))"

lemma queried_refl: "base_inv s \<Longrightarrow> queried s s"
  using base_invD(8) [of s]
  by (auto simp: queried_def sc_same_def sink_ok_def sc_ok_def intro!: exI [of _ "solver s"])

lemma advances_refl: "base_inv s \<Longrightarrow> weights_inv W s \<Longrightarrow> advances W n s n s"
  by (simp add: advances_def queried_refl evolves_refl)

lemma advances_trans: "advances W n s n' s' \<Longrightarrow> advances W n' s' n'' s'' \<Longrightarrow> advances W n s n'' s''"
  unfolding advances_def using evolves_trans [of W s s' s''] queried_trans [of s s' s''] queried_fields(5) [of s s'] queried_fields(5) [of s' s'']
  by (auto dest: evolvesD(6))

lemma queried_advances: "queried s s' \<Longrightarrow> base_inv s \<Longrightarrow> weights_inv W s \<Longrightarrow> advances W n s n s'"
  by (simp add: advances_def queried_evolves)

lemma cost_le_budget: "base_inv s \<Longrightarrow> cost s \<le> budget s"
  using budget_weight [of s 0] by simp

lemma advances_measure:
  assumes "advances W n s n' s'" "base_inv s"
  shows "nat (budget s' - cost s') < nat (budget s - cost s) \<or>
    nat (budget s' - cost s') = nat (budget s - cost s) \<and> length (poids s') = length (poids s)"
proof (cases "queried s s'")
  case True
  then show ?thesis using queried_fields(3,5) queried_ok(2) by simp
next
  case False
  then have "evolves W s s'" "cost s < cost s'" using assms(1) by (auto simp: advances_def)
  then have "cost s < cost s'" "budget s' \<le> budget s" "cost s' \<le> budget s'" using cost_le_budget evolvesD by blast+
  then show ?thesis by linarith
qed

section \<open>The walk over the variables\<close>

locale am1_body =
  fixes body :: "engine \<Rightarrow> nat \<Rightarrow> nat \<Rightarrow> ems \<Rightarrow> (nat \<times> ems) option"
  assumes body_ok: "engine_ok E \<Longrightarrow> base_inv s \<Longrightarrow> weights_inv W s \<Longrightarrow> start_solve s \<Longrightarrow> 1 \<le> VAR \<Longrightarrow>
    VAR < length (poids s) \<Longrightarrow> \<exists>nb' s'. body E VAR nb s = Some (nb', s') \<and> advances W nb s nb' s'"
begin

lemma scan_from:
  assumes E: "engine_ok E"
  shows "base_inv s \<Longrightarrow> weights_inv W s \<Longrightarrow> start_solve s \<Longrightarrow> 1 \<le> VAR \<Longrightarrow>
    \<exists>nb' s'. scan_vars (body E) VAR nb s = Some (nb', s') \<and> advances W nb s nb' s'"
proof (induction "(VAR, s)" arbitrary: VAR nb s
    rule: wf_induct_rule [OF wf_measures [of "[\<lambda>(v, s). nat (budget s - cost s), \<lambda>(v, s). length (poids s) - v]"]])
  case 1
  show ?case
  proof (cases "VAR < length (poids s)")
    case False
    then show ?thesis using advances_refl [OF 1(2,3)] by (subst scan_vars.simps) simp
  next
    case True
    obtain n1 s1 where s1: "body E VAR nb s = Some (n1, s1)" "advances W nb s n1 s1"
      using body_ok [OF E 1(2-5) True] by blast
    have ev: "evolves W s s1" using s1(2) by (simp add: advances_def)
    have "((VAR + 1, s1), (VAR, s)) \<in> measures [\<lambda>(v, s). nat (budget s - cost s), \<lambda>(v, s). length (poids s) - v]"
      using advances_measure [OF s1(2) 1(2)] True by auto
    moreover have "start_solve s1" using keptD(5) [OF evolvesD(5) [OF ev]] 1(4) by simp
    ultimately obtain n2 s2 where "scan_vars (body E) (VAR + 1) n1 s1 = Some (n2, s2)" "advances W n1 s1 n2 s2"
      using 1(1) [of "VAR + 1" s1 n1] evolvesD(1,2) [OF ev] by auto
    then show ?thesis using s1 True advances_trans [OF s1(2)] by (subst scan_vars.simps) auto
  qed
qed

lemma scan_ok:
  assumes "engine_ok E" "base_inv s" "weights_inv W s" "start_solve s"
  obtains nb s' where "scan_vars (body E) 1 0 s = Some (nb, s')" "evolves W s s'" "nb = 0 \<Longrightarrow> queried s s'"
proof -
  obtain nb s' where "scan_vars (body E) 1 0 s = Some (nb, s')" "advances W 0 s nb s'"
    using scan_from [OF assms, of 1 0] by auto
  then show ?thesis using that by (auto simp: advances_def)
qed

end

section \<open>The bodies\<close>

lemma processAtMostOne_ok:
  assumes "base_inv s" "weights_inv W s" "distinct c" "amo (cls s) c" "\<forall>l \<in> set c. 0 < wt (poids s) l" "start_solve s"
  obtains new s' where "processAtMostOne c s = Some (new, s')" "evolves W s s'" "2 \<le> length c \<longrightarrow> cost s < cost s'"
    "distinct new" "\<forall>l \<in> set new. 0 < wt (poids s') l \<and> (l \<in> set c \<or> int (nv s) < l)" "length new \<le> length c" "spared c s s'"
  using am1_loop_ok [OF assms, of "[]"] by (auto simp: processAtMostOne_def evolves_def)

lemma sim_guard:
  assumes "sim G D s s'" "\<And>\<sigma>. sat_all \<sigma> (cls s) \<Longrightarrow> G \<sigma>"
  shows "sim (\<lambda>\<sigma>. True) D s s'"
  using assms unfolding sim_def by (auto simp: exact_def)

text \<open>A soft literal that cannot be true becomes a constant cost.\<close>

lemma impossible_ok:
  assumes inv: "base_inv s" and W: "weights_inv W s" and l: "0 < wt (poids s) l" "propagated s l None"
  obtains s' where "addClause_hard [- l] s = Some s'" "evolves W s s'" "cost s < cost s'" "settled [- l] s s'" "[- l] \<in> cls s'"
proof -
  have l0: "l \<noteq> 0" "lit_upto (nv s) l" using soft_upto [OF inv, of l] l(1) by auto
  then have up: "\<forall>x \<in> set [- l]. lit_upto (nv s) x" by simp
  obtain s' where s': "addClause_hard [- l] s = Some s'" "base_inv s'" "weights_inv W s'"
    "sim (\<lambda>\<sigma>. sat_clause \<sigma> [- l]) (\<lambda>\<sigma>. 0) s s'" "[- l] \<in> cls s'" "budget s' \<le> budget s" "settled [- l] s s'" "kept s s'"
    "cost s' = cost s + forfeit [- l] s"
    by (rule addClause_hard_ok [OF inv W up]) (rule that)
  have "sim0 s s'" by (rule sim_guard [OF s'(4)]) (use l(2) l0(1) in \<open>simp add: propagated_def\<close>)
  moreover have "forfeit [- l] s = wt (poids s) l" using l(1) wt_neg [OF base_invD(4) [OF inv], of l] by (simp add: forfeit_def)
  ultimately show ?thesis using that s' l(1) by (simp add: evolves_def)
qed

lemma amo_two:
  assumes "x \<noteq> 0" "\<And>\<sigma>. sat_all \<sigma> F \<Longrightarrow> lit_true \<sigma> l \<Longrightarrow> lit_true \<sigma> x"
  shows "amo F [- x, l]"
  using assms by (auto simp: amo_def)

lemma vf_props_ok:
  assumes "base_inv s" "weights_inv W s" "start_solve s" "0 < wt (poids s) LIT" "\<bar>LIT\<bar> = VAR"
    "\<forall>x \<in> set props. lit_upto (nv s) x \<and> - x \<noteq> LIT \<and> (\<forall>\<sigma>. sat_all \<sigma> (cls s) \<longrightarrow> lit_true \<sigma> LIT \<longrightarrow> lit_true \<sigma> x)"
  shows "\<exists>nb' s'. vf_props VAR LIT props nb s = Some (nb', s') \<and> advances W nb s nb' s'"
  using assms
proof (induction props arbitrary: nb s)
  case Nil
  then show ?case by (simp add: advances_refl)
next
  case (Cons x props)
  have x: "lit_upto (nv s) x" "x \<noteq> 0" "- x \<noteq> LIT" using Cons.prems(6) by auto
  have get: "wv_get (poids s) x = Some (wt (poids s) x)"
    using x(1) base_invD(9) [OF Cons.prems(1)] by (intro wv_get_wt) (simp add: lit_upto_def)
  show ?case
  proof (cases "wt (poids s) x < 0")
    case False
    then show ?thesis using Cons.IH [OF Cons.prems(1-5)] Cons.prems(6) get by simp
  next
    case True
    have amo: "amo (cls s) [- x, LIT]" using Cons.prems(6) x(2) by (intro amo_two) auto
    have pos: "\<forall>l \<in> set [- x, LIT]. 0 < wt (poids s) l"
      using True Cons.prems(4) wt_neg [OF base_invD(4) [OF Cons.prems(1)], of x] by simp
    have "distinct [- x, LIT]" using x(3) by simp
    from processAtMostOne_ok [OF Cons.prems(1,2) this amo pos Cons.prems(3)]
    obtain new s1 where s1: "processAtMostOne [- x, LIT] s = Some (new, s1)" "evolves W s s1" "cost s < cost s1" "spared [- x, LIT] s s1"
      by (metis One_nat_def Suc_1 length_Cons list.size(3) le_refl)
    note ev = evolvesD [OF s1(2)]
    have adv: "advances W nb s (nb + 1) s1" using s1(2,3) by (simp add: advances_def)
    have LIT: "nat \<bar>LIT\<bar> \<le> nv s" "LIT \<noteq> 0" using soft_upto [OF Cons.prems(1), of LIT] Cons.prems(4) by auto
    have le: "nv s \<le> nv s1" "cls s \<subseteq> cls s1" using ev(3) by (simp_all add: sim_def)
    have w0: "0 \<le> wt (poids s1) LIT" using s1(4) LIT(1) by (simp add: spared_def)
    have wv: "wt (poids s1) VAR = 0 \<longleftrightarrow> wt (poids s1) LIT = 0"
      using Cons.prems(5) wt_neg [OF base_invD(4) [OF ev(1)], of LIT] by (cases "LIT < 0") auto
    have getv: "wv_get (poids s1) VAR = Some (wt (poids s1) VAR)"
      using LIT(1) le(1) base_invD(9) [OF ev(1)] Cons.prems(5) by (intro wv_get_wt) linarith
    show ?thesis
    proof (cases "wt (poids s1) VAR = 0")
      case zero: True
      then show ?thesis using get True s1(1) getv adv by simp
    next
      case False
      have "\<forall>y \<in> set props. lit_upto (nv s1) y \<and> - y \<noteq> LIT \<and> (\<forall>\<sigma>. sat_all \<sigma> (cls s1) \<longrightarrow> lit_true \<sigma> LIT \<longrightarrow> lit_true \<sigma> y)"
        using Cons.prems(6) lit_upto_mono [OF _ le(1)] sat_all_mono [OF _ le(2)] by simp
      moreover have "0 < wt (poids s1) LIT" using False wv w0 by simp
      moreover have "start_solve s1" using keptD(5) [OF ev(5)] Cons.prems(3) by simp
      ultimately obtain nb' s' where "vf_props VAR LIT props (nb + 1) s1 = Some (nb', s')" "advances W (nb + 1) s1 nb' s'"
        using Cons.IH [OF ev(1,2) _ _ Cons.prems(5), of "nb + 1"] by blast
      then show ?thesis using get True s1(1) getv False advances_trans [OF adv] by simp
    qed
  qed
qed

text \<open>The soft literal of a variable.\<close>

lemma soft_of_var:
  assumes "base_inv s" "1 \<le> VAR" "VAR < length (poids s)" "wt (poids s) (int VAR) \<noteq> 0"
  defines "LIT \<equiv> (if wt (poids s) (int VAR) > 0 then int VAR else - int VAR)"
  shows "0 < wt (poids s) LIT" "\<bar>LIT\<bar> = int VAR"
  using assms wt_neg [OF base_invD(4) [OF assms(1)], of "int VAR"] by (auto simp: LIT_def)

lemma vf_body_ok:
  assumes E: "engine_ok E" and inv: "base_inv s" and W: "weights_inv W s" and st: "start_solve s"
    and v: "1 \<le> VAR" "VAR < length (poids s)"
  shows "\<exists>nb' s'. vf_body E VAR nb s = Some (nb', s') \<and> advances W nb s nb' s'"
proof (cases "wt (poids s) (int VAR) = 0")
  case True
  then show ?thesis
    using wv_get_wt [of "int VAR" "poids s"] v advances_refl [OF inv W] by (simp add: vf_body_def)
next
  case False
  define LIT where "LIT = (if wt (poids s) (int VAR) > 0 then int VAR else - int VAR)"
  note L = soft_of_var [OF inv v False, folded LIT_def]
  obtain r s1 where r: "eval_propagate E [LIT] s = Some (r, s1)" "queried s s1" "propagated s1 LIT r"
    using eval_propagate_ok [OF E inv] by blast
  note Q = queried_fields [OF r(2)]
  have s1: "base_inv s1" "weights_inv W s1" "start_solve s1" "advances W nb s nb s1" "0 < wt (poids s1) LIT"
    using queried_base [OF r(2) inv] queried_ok(4) [OF r(2)] W keptD(5) [OF Q(12)] st queried_advances [OF r(2) inv W] Q(3) L(1) by simp_all
  have call: "vf_body E VAR nb s = (case r of Some props \<Rightarrow> vf_props (int VAR) LIT props nb s1
      | None \<Rightarrow> do { s \<leftarrow> addClause_hard [- LIT] s1; Some (nb + 1, s) })"
    using wv_get_wt [of "int VAR" "poids s"] v(2) False r(1) by (simp add: vf_body_def Let_def flip: LIT_def)
  show ?thesis
  proof (cases r)
    case None
    obtain s2 where "addClause_hard [- LIT] s1 = Some s2" "evolves W s1 s2" "cost s1 < cost s2" "settled [- LIT] s1 s2" "[- LIT] \<in> cls s2"
      by (rule impossible_ok [OF s1(1,2,5) r(3) [unfolded None]]) (rule that)
    then show ?thesis using call None advances_trans [OF s1(4), of "nb + 1" s2] by (simp add: advances_def)
  next
    case (Some props)
    have "\<forall>x \<in> set props. lit_upto (nv s1) x \<and> - x \<noteq> LIT \<and> (\<forall>\<sigma>. sat_all \<sigma> (cls s1) \<longrightarrow> lit_true \<sigma> LIT \<longrightarrow> lit_true \<sigma> x)"
      using r(3) by (simp add: Some propagated_def)
    then obtain nb' s' where "vf_props (int VAR) LIT props nb s1 = Some (nb', s')" "advances W nb s1 nb' s'"
      using vf_props_ok [OF s1(1-3,5) L(2)] by blast
    then show ?thesis using call Some advances_trans [OF s1(4)] by simp
  qed
qed

interpretation vf: am1_body vf_body
  by unfold_locales (rule vf_body_ok)

text \<open>\<open>reduceCliqueV2\<close> keeps literals whose negations exclude each other.\<close>

definition excl :: "clause set \<Rightarrow> int \<Rightarrow> int \<Rightarrow> bool" where
  "excl F x y = (\<forall>\<sigma>. sat_all \<sigma> F \<longrightarrow> \<not> (lit_true \<sigma> x \<and> lit_true \<sigma> y))"

lemma reduce_inner_ok:
  assumes E: "engine_ok E"
  shows "base_inv s \<Longrightarrow> \<exists>zs s'. reduce_inner E x ys s = Some (zs, s') \<and> queried s s' \<and> set zs \<subseteq> set ys \<and>
    (distinct ys \<longrightarrow> distinct zs) \<and> (\<forall>y \<in> set zs. excl (cls s) (- x) (- y))"
proof (induction ys arbitrary: s)
  case Nil
  then show ?case by (simp add: queried_refl)
next
  case (Cons y ys)
  obtain r s1 where r: "eval_solveLimited E [- x, - y] 10000 0 s = Some (r, s1)" "queried s s1"
      "r = 1 \<and> sc_sat (filter (\<lambda>l. l \<noteq> 0) [- x, - y]) (solver s1) \<or>
       r = 0 \<and> sc_unsat (filter (\<lambda>l. l \<noteq> 0) [- x, - y]) (solver s1) \<or> r = - 1"
    by (rule eval_solveLimited_ok [OF E Cons.prems]) (rule that)
  note Q = queried_fields [OF r(2)]
  have ex: "excl (cls s) (- x) (- y)" if "r = 0"
  proof -
    have "sc_unsat (filter (\<lambda>l. l \<noteq> 0) [- x, - y]) (solver s1)" using r(3) that by auto
    then show ?thesis using sc_unsat_cls Q(2) by (fastforce simp: excl_def split: if_splits)
  qed
  obtain zs s2 where z: "reduce_inner E x ys s1 = Some (zs, s2)" "queried s1 s2" "set zs \<subseteq> set ys"
      "distinct ys \<longrightarrow> distinct zs" "\<forall>y \<in> set zs. excl (cls s1) (- x) (- y)"
    using Cons.IH [OF queried_base [OF r(2) Cons.prems]] by blast
  then show ?case using r(1) queried_trans [OF r(2) z(2)] ex Q(2) by auto
qed

lemma reduce_outer_ok:
  assumes E: "engine_ok E"
  shows "base_inv s \<Longrightarrow> \<exists>zs s'. reduce_outer E xs s = Some (zs, s') \<and> queried s s' \<and> set zs \<subseteq> set xs \<and>
    (distinct xs \<longrightarrow> distinct zs) \<and> sorted_wrt (\<lambda>x y. excl (cls s) (- x) (- y)) zs \<and> (xs \<noteq> [] \<longrightarrow> zs \<noteq> [])"
proof (induction "length xs" arbitrary: xs s rule: less_induct)
  case less
  show ?case
  proof (cases xs)
    case Nil
    then show ?thesis using queried_refl [OF less.prems] by simp
  next
    case (Cons x ys)
    obtain zs s1 where z: "reduce_inner E x ys s = Some (zs, s1)" "queried s s1" "set zs \<subseteq> set ys" "distinct ys \<longrightarrow> distinct zs"
        "\<forall>y \<in> set zs. excl (cls s) (- x) (- y)"
      using reduce_inner_ok [OF E less.prems] by blast
    have "length zs < length xs" using reduce_inner_length [OF z(1)] Cons by simp
    then obtain us s2 where u: "reduce_outer E zs s1 = Some (us, s2)" "queried s1 s2" "set us \<subseteq> set zs" "distinct zs \<longrightarrow> distinct us"
        "sorted_wrt (\<lambda>x y. excl (cls s1) (- x) (- y)) us"
      using less.hyps queried_base [OF z(2) less.prems] by blast
    have "reduce_outer E xs s = Some (x # us, s2)" using z(1) u(1) Cons by simp
    moreover have "sorted_wrt (\<lambda>x y. excl (cls s) (- x) (- y)) (x # us)"
      using u(3,5) z(5) queried_fields(2) [OF z(2)] by auto
    moreover have "distinct xs \<longrightarrow> distinct (x # us)" using Cons z(3,4) u(3,4) by auto
    ultimately show ?thesis using queried_trans [OF z(2) u(2)] z(3) u(3) Cons by auto
  qed
qed

lemma reduceCliqueV2_ok:
  assumes "engine_ok E" "base_inv s" "\<forall>l \<in> set clique. nat \<bar>l\<bar> < length (poids s) \<and> 0 < wt (poids s) (- l)" "distinct clique"
  obtains zs s' where "reduceCliqueV2 E clique s = Some (zs, s')" "queried s s'" "set zs \<subseteq> set clique" "distinct zs"
    "sorted_wrt (\<lambda>x y. excl (cls s) (- x) (- y)) zs" "clique \<noteq> [] \<longrightarrow> zs \<noteq> []"
proof -
  define xs where "xs = (if length (mapWeight2Assum s) > 1 \<and> length clique > 1 then sort_key (\<lambda>l. wt (poids s) (- l)) clique else clique)"
  have "reduceCliqueV2 E clique s = reduce_outer E xs s"
    using assms(3) by (auto simp: reduceCliqueV2_def xs_def list_all_iff)
  moreover have "set xs = set clique" "distinct xs" "xs = [] \<longleftrightarrow> clique = []"
    using assms(4) by (auto simp: xs_def simp flip: length_0_conv)
  ultimately show ?thesis using reduce_outer_ok [OF assms(1,2), of xs] that by auto
qed

lemma neg_weights_eq:
  "\<forall>l \<in> set ls. nat \<bar>l\<bar> < length p \<Longrightarrow> neg_weights p ls = Some (filter (\<lambda>l. wt p l < 0) ls)"
  by (induction ls) (simp_all add: wv_get_wt)

lemma excl_amo: "sorted_wrt (excl F) ls \<Longrightarrow> amo F ls"
proof (induction ls)
  case (Cons l ls)
  have "count_true \<sigma> (l # ls) \<le> 1" if "sat_all \<sigma> F" for \<sigma>
  proof (cases "lit_true \<sigma> l")
    case True
    then have "\<forall>x \<in> set ls. \<not> lit_true \<sigma> x" using Cons.prems that by (auto simp: excl_def)
    then show ?thesis by (simp add: count_true_def filter_empty_conv)
  next
    case False
    then show ?thesis using Cons that by (auto simp: amo_def)
  qed
  then show ?case by (simp add: amo_def)
qed (simp add: amo_def)

text \<open>The clique around a propagated literal.\<close>

lemma clique_amo:
  assumes inv: "base_inv s" and p: "propagated s l (Some ps)" and l: "0 < wt (poids s) l"
    and z: "set zs \<subseteq> set (filter (\<lambda>l. wt (poids s) l < 0) ps)" "distinct zs" "sorted_wrt (\<lambda>x y. excl (cls s) (- x) (- y)) zs"
  shows "distinct (map uminus (zs @ [- l]))" "amo (cls s) (map uminus (zs @ [- l]))"
    "\<forall>x \<in> set (map uminus (zs @ [- l])). 0 < wt (poids s) x"
proof -
  have in_: "lit_upto (nv s) x" "- x \<noteq> l" "\<And>\<sigma>. sat_all \<sigma> (cls s) \<Longrightarrow> lit_true \<sigma> l \<Longrightarrow> lit_true \<sigma> x" "wt (poids s) x < 0"
    if "x \<in> set zs" for x
    using p z(1) that by (auto simp: propagated_def)
  show "distinct (map uminus (zs @ [- l]))" using z(2) in_(2) by (auto simp: distinct_map)
  have "excl (cls s) (- x) l" if "x \<in> set zs" for x
    using in_(1,3) [OF that] by (auto simp: excl_def)
  then have "sorted_wrt (excl (cls s)) (map uminus (zs @ [- l]))"
    using z(3) by (simp add: sorted_wrt_append sorted_wrt_map)
  then show "amo (cls s) (map uminus (zs @ [- l]))" by (rule excl_amo)
  show "\<forall>x \<in> set (map uminus (zs @ [- l])). 0 < wt (poids s) x"
    using in_(4) l wt_neg [OF base_invD(4) [OF inv]] by auto
qed

lemma v7_body_ok:
  assumes E: "engine_ok E" and inv: "base_inv s" and W: "weights_inv W s" and st: "start_solve s"
    and v: "1 \<le> VAR" "VAR < length (poids s)"
  shows "\<exists>nb' s'. v7_body E VAR nb s = Some (nb', s') \<and> advances W nb s nb' s'"
proof (cases "wt (poids s) (int VAR) = 0")
  case True
  then show ?thesis
    using wv_get_wt [of "int VAR" "poids s"] v advances_refl [OF inv W] by (simp add: v7_body_def)
next
  case False
  define LIT where "LIT = (if wt (poids s) (int VAR) > 0 then int VAR else - int VAR)"
  note L = soft_of_var [OF inv v False, folded LIT_def]
  obtain r s1 where r: "eval_propagate E [LIT] s = Some (r, s1)" "queried s s1" "propagated s1 LIT r"
    using eval_propagate_ok [OF E inv] by blast
  note Q = queried_fields [OF r(2)]
  have s1: "base_inv s1" "weights_inv W s1" "start_solve s1" "advances W nb s nb s1" "0 < wt (poids s1) LIT"
    using queried_base [OF r(2) inv] queried_ok(4) [OF r(2)] W keptD(5) [OF Q(12)] st queried_advances [OF r(2) inv W] Q(3) L(1) by simp_all
  have get: "wv_get (poids s) (int VAR) = Some (wt (poids s) (int VAR))" using wv_get_wt v(2) by simp
  show ?thesis
  proof (cases r)
    case None
    obtain s2 where "addClause_hard [- LIT] s1 = Some s2" "evolves W s1 s2" "cost s1 < cost s2" "settled [- LIT] s1 s2" "[- LIT] \<in> cls s2"
      by (rule impossible_ok [OF s1(1,2,5) r(3) [unfolded None]]) (rule that)
    moreover from this have "v7_body E VAR nb s = Some (nb + 1, s2)"
      using get False r(1) None by (simp add: v7_body_def Let_def flip: LIT_def)
    ultimately show ?thesis using advances_trans [OF s1(4), of "nb + 1" s2] by (simp add: advances_def)
  next
    case (Some ps)
    note p = r(3) [unfolded Some]
    have len: "\<forall>x \<in> set ps. nat \<bar>x\<bar> < length (poids s1)"
      using p base_invD(9) [OF s1(1)] by (auto simp: propagated_def lit_upto_def)
    let ?c = "filter (\<lambda>l. wt (poids s1) l < 0) ps"
    show ?thesis
    proof (cases "?c = []")
      case True
      have nw: "neg_weights (poids s1) ps = Some []" using neg_weights_eq [OF len] True by simp
      have "v7_body E VAR nb s = Some (nb, s1)"
        using get False r(1) Some nw by (simp add: v7_body_def Let_def flip: LIT_def)
      then show ?thesis using s1(4) by blast
    next
      case ne: False
      have c: "\<forall>l \<in> set ?c. nat \<bar>l\<bar> < length (poids s1) \<and> 0 < wt (poids s1) (- l)" "distinct ?c"
        using len wt_neg [OF base_invD(4) [OF s1(1)]] p by (auto simp: propagated_def)
      obtain zs s2 where z: "reduceCliqueV2 E ?c s1 = Some (zs, s2)" "queried s1 s2" "set zs \<subseteq> set ?c" "distinct zs"
          "sorted_wrt (\<lambda>x y. excl (cls s1) (- x) (- y)) zs" "?c \<noteq> [] \<longrightarrow> zs \<noteq> []"
        by (rule reduceCliqueV2_ok [OF E s1(1) c]) (rule that)
      note Q2 = queried_fields [OF z(2)] and A = clique_amo [OF s1(1) p s1(5) z(3-5)]
      let ?a = "map uminus (zs @ [- LIT])"
      have s2: "base_inv s2" "weights_inv W s2" "start_solve s2" "amo (cls s2) ?a" "\<forall>x \<in> set ?a. 0 < wt (poids s2) x"
        using queried_base [OF z(2) s1(1)] queried_ok(4) [OF z(2)] s1(2,3) keptD(5) [OF Q2(12)] A(2,3) Q2(2,3) by simp_all
      obtain new s3 where s3: "processAtMostOne ?a s2 = Some (new, s3)" "evolves W s2 s3" "2 \<le> length ?a \<longrightarrow> cost s2 < cost s3"
        using processAtMostOne_ok [OF s2(1,2) A(1) s2(4,5,3)] by blast
      have two: "2 \<le> length (zs @ [- LIT])" using z(6) ne by (cases zs) auto
      have nw: "neg_weights (poids s1) ps = Some ?c" "ps \<noteq> []" using neg_weights_eq [OF len] ne by auto
      have "v7_body E VAR nb s = Some (nb + 1, s3)"
        using get False r(1) Some nw ne z(1) s3(1) two by (simp add: v7_body_def Let_def flip: LIT_def del: map_append)
      moreover have "advances W nb s2 (nb + 1) s3" using s3(2,3) two by (simp add: advances_def)
      ultimately show ?thesis
        using advances_trans [OF s1(4) advances_trans [OF queried_advances [OF z(2) s1(1,2)]]] by blast
    qed
  qed
qed

interpretation v7: am1_body v7_body
  by unfold_locales (rule v7_body_ok)

end
