(* ===== verification/Choices.thy ===== *)
theory Choices
  imports Prelude
begin

text \<open>
  What the program's control flow takes from outside, collected in one record: the order
  \<open>std::sort\<close> gives to equal elements, the permutation \<open>std::shuffle\<close> draws, comparisons of
  elapsed times, comparisons of floating-point ratios, floating-point quotients, durations
  converted to integers, and where a decrement of \<open>begin()\<close> leads. The operations that use a choice accept it only when it is one the
  standard library could have made, so no theorem needs a hypothesis about the record.

  A quotient of non-negative doubles is given by its bit pattern, a natural number: the order of the
  patterns is the order of the values.
\<close>

record choices =
  ch_sort :: "nat \<Rightarrow> int list \<Rightarrow> nat list"
  ch_shuffle :: "nat \<Rightarrow> int list \<Rightarrow> int list"
  ch_timer :: "nat \<Rightarrow> nat \<Rightarrow> bool"
  ch_ratio :: "int \<Rightarrow> int \<Rightarrow> int \<Rightarrow> int \<Rightarrow> bool"
  ch_div :: "nat \<Rightarrow> int \<Rightarrow> nat"
  ch_decr :: "nat \<Rightarrow> bool"
  ch_secs :: "nat \<Rightarrow> int"

text \<open>
  \<open>std::sort\<close> by decreasing key. The choice is a list of positions; it is taken when the elements
  at these positions are a sorted permutation.
\<close>

definition std_sort_desc :: "choices \<Rightarrow> nat \<Rightarrow> ('a \<Rightarrow> int) \<Rightarrow> 'a list \<Rightarrow> 'a list" where
  "std_sort_desc Ch n key xs =
     (let is = ch_sort Ch n (map key xs); ys = map (\<lambda>i. xs ! i) is
      in if sort is = [0..<length xs] \<and> sorted_wrt (\<lambda>x y. key x \<ge> key y) ys then ys
         else sort_key (\<lambda>x. - key x) xs)"

definition std_shuffle :: "choices \<Rightarrow> nat \<Rightarrow> int list \<Rightarrow> int list" where
  "std_shuffle Ch n xs = (let ys = ch_shuffle Ch n xs in if sort ys = sort xs then ys else xs)"

lemma mset_positions:
  assumes "sort is = [0..<length xs]"
  shows "mset (map (\<lambda>i. xs ! i) is) = mset xs"
proof -
  have "mset is = mset [0..<length xs]" using assms by (metis mset_sort)
  then have "mset (map (\<lambda>i. xs ! i) is) = mset (map (\<lambda>i. xs ! i) [0..<length xs])" by simp
  then show ?thesis by (simp add: map_nth)
qed

lemma mset_std_sort_desc [simp]: "mset (std_sort_desc Ch n key xs) = mset xs"
  unfolding std_sort_desc_def Let_def using mset_positions by auto

lemma std_sort_desc_sorted: "sorted_wrt (\<lambda>x y. key x \<ge> key y) (std_sort_desc Ch n key xs)"
proof -
  have "sorted (map (\<lambda>x. - key x) (sort_key (\<lambda>x. - key x) xs))" by simp
  then have "sorted_wrt (\<lambda>x y. key x \<ge> key y) (sort_key (\<lambda>x. - key x) xs)" by (simp add: sorted_map)
  then show ?thesis unfolding std_sort_desc_def Let_def by simp
qed

lemma length_std_sort_desc [simp]: "length (std_sort_desc Ch n key xs) = length xs"
  using mset_std_sort_desc by (metis size_mset)

lemma set_std_sort_desc [simp]: "set (std_sort_desc Ch n key xs) = set xs"
  using mset_std_sort_desc by (metis set_mset_mset)

lemma mset_std_shuffle [simp]: "mset (std_shuffle Ch n xs) = mset xs"
proof (cases "sort (ch_shuffle Ch n xs) = sort xs")
  case True
  have "mset (ch_shuffle Ch n xs) = mset xs" using arg_cong [OF True, of mset] unfolding mset_sort .
  then show ?thesis by (simp add: std_shuffle_def Let_def)
qed (simp add: std_shuffle_def Let_def)

lemma set_std_shuffle [simp]: "set (std_shuffle Ch n xs) = set xs"
  using mset_std_shuffle by (metis set_mset_mset)

text \<open>A sensible record of choices, for running the program.\<close>

definition plain_choices :: choices where
  "plain_choices = \<lparr>ch_sort = (\<lambda>n keys. []), ch_shuffle = (\<lambda>n xs. xs), ch_timer = (\<lambda>site n. True), ch_ratio = (\<lambda>a b c d. a * d < c * b),
     ch_div = (\<lambda>a b. nat (1000000 * int a div b)), ch_decr = (\<lambda>n. True), ch_secs = (\<lambda>n. 0)\<rparr>"

end
