(* ===== verification/Max_Clique.thy ===== *)
theory Max_Clique
  imports Choices
begin

text \<open>
  \<open>lib/EvalMaxSAT/src/mcqd.h\<close>: the branch-and-bound search for a maximum clique with a dynamic
  colouring bound. The graph is a matrix; a vertex is an index with a degree, which is
  \<^term>\<open>None\<close> until it is written. Every array access is checked: \<^term>\<open>None\<close> as a result stands
  for an access out of bounds or a read of an uninitialised degree.
\<close>

section \<open>State\<close>

type_synonym graph = "bool list list"
type_synonym vertex = "nat \<times> int option"

record mc =
  mc_sz :: nat
  pk :: int
  level :: nat
  CC :: "nat list list"
  QMAX :: "nat list"
  QQ :: "nat list"
  SS :: "(int \<times> int) list"

definition mc_new :: "nat \<Rightarrow> mc option" where
  "mc_new sz =
     (if sz > 0
      then Some \<lparr>mc_sz = sz, pk = 0, level = 1, CC = replicate (sz + 1) [], QMAX = [], QQ = [], SS = replicate (sz + 1) (0, 0)\<rparr>
      else None)"

definition connection :: "graph \<Rightarrow> nat \<Rightarrow> nat \<Rightarrow> bool option" where
  "connection e i j = (if i < length e \<and> j < length (e ! i) then Some (e ! i ! j) else None)"

section \<open>Vertices\<close>

fun degree_in :: "graph \<Rightarrow> nat \<Rightarrow> vertex list \<Rightarrow> int option" where
  "degree_in e i [] = Some 0"
| "degree_in e i (v # vs) =
     do { b \<leftarrow> connection e i (fst v); d \<leftarrow> degree_in e i vs; Some (if b then d + 1 else d) }"

fun set_degrees_of :: "graph \<Rightarrow> vertex list \<Rightarrow> vertex list \<Rightarrow> vertex list option" where
  "set_degrees_of e vs [] = Some []"
| "set_degrees_of e vs (u # us) =
     do { d \<leftarrow> degree_in e (fst u) vs; ws \<leftarrow> set_degrees_of e vs us; Some ((fst u, Some d) # ws) }"

definition set_degrees :: "graph \<Rightarrow> vertex list \<Rightarrow> vertex list option" where
  "set_degrees e vs = set_degrees_of e vs vs"

definition sort_vertices :: "choices \<Rightarrow> nat \<Rightarrow> vertex list \<Rightarrow> vertex list option" where
  "sort_vertices Ch n vs =
     (if list_all (\<lambda>v. snd v \<noteq> None) vs then Some (std_sort_desc Ch n (\<lambda>v. the (snd v)) vs) else None)"

definition degree_sort :: "choices \<Rightarrow> nat \<Rightarrow> graph \<Rightarrow> vertex list \<Rightarrow> vertex list option" where
  "degree_sort Ch n e vs = do { vs \<leftarrow> set_degrees e vs; sort_vertices Ch n vs }"

definition init_colors :: "vertex list \<Rightarrow> vertex list option" where
  "init_colors vs =
     (if vs = [] then None
      else do { max_degree \<leftarrow> snd (vs ! 0);
                if max_degree > int (length vs) then None
                else Some (map (\<lambda>i. (fst (vs ! i), Some (if int i < max_degree then int i + 1 else max_degree + 1))) [0..<length vs]) })"

section \<open>Colouring\<close>

fun cut1 :: "graph \<Rightarrow> nat \<Rightarrow> nat list \<Rightarrow> bool option" where
  "cut1 e p [] = Some False"
| "cut1 e p (a # A) = do { b \<leftarrow> connection e p a; if b then Some True else cut1 e p A }"

fun cut2_of :: "graph \<Rightarrow> nat \<Rightarrow> vertex list \<Rightarrow> vertex list option" where
  "cut2_of e p [] = Some []"
| "cut2_of e p (v # A) =
     do { b \<leftarrow> connection e p (fst v); B \<leftarrow> cut2_of e p A; Some (if b then (fst v, None) # B else B) }"

definition cut2 :: "graph \<Rightarrow> vertex list \<Rightarrow> vertex list option" where
  "cut2 e A = cut2_of e (fst (last A)) (butlast A)"

text \<open>\<open>while (cut1(pi, C[k])) k++;\<close>\<close>

function color_find :: "graph \<Rightarrow> nat \<Rightarrow> nat list list \<Rightarrow> nat \<Rightarrow> nat option" where
  "color_find e p C k =
     (if k < length C then do { b \<leftarrow> cut1 e p (C ! k); if b then color_find e p C (k + 1) else Some k } else None)"
  by pat_completeness auto
termination by (relation "measure (\<lambda>(e, p, C, k). length C - k)") auto

declare color_find.simps [simp del]

text \<open>The first loop of \<open>color_sort\<close>: colour the vertices, move those of small colour to the front.\<close>

fun color_pass :: "graph \<Rightarrow> int \<Rightarrow> nat list \<Rightarrow> nat \<Rightarrow> nat \<Rightarrow> nat list list \<Rightarrow> vertex list \<Rightarrow> (nat \<times> nat \<times> nat list list \<times> vertex list) option" where
  "color_pass e min_k [] j maxno C R = Some (j, maxno, C, R)"
| "color_pass e min_k (i # is) j maxno C R =
     (if \<not> i < length R then None
      else do { k \<leftarrow> color_find e (fst (R ! i)) C 1;
                (maxno, C) \<leftarrow> (if k > maxno then if k + 1 < length C then Some (k, C[k + 1 := []]) else None else Some (maxno, C));
                if \<not> length (C ! k) < length C then None
                else let p = fst (R ! i); C = C[k := C ! k @ [p]]
                     in if int k < min_k then
                          if j < length R then color_pass e min_k is (j + 1) maxno C (R[j := (p, snd (R ! j))]) else None
                        else color_pass e min_k is j maxno C R })"

text \<open>The second loop: the vertices of larger colour, colour by colour.\<close>

fun color_fill :: "(nat \<times> int) list \<Rightarrow> nat \<Rightarrow> vertex list \<Rightarrow> vertex list option" where
  "color_fill [] j R = Some R"
| "color_fill ((p, k) # ps) j R = (if j < length R then color_fill ps (j + 1) (R[j := (p, Some k)]) else None)"

definition color_classes :: "nat \<Rightarrow> nat \<Rightarrow> nat list list \<Rightarrow> (nat \<times> int) list" where
  "color_classes lo hi C = concat (map (\<lambda>k. map (\<lambda>p. (p, int k)) (C ! k)) [lo..<Suc hi])"

definition color_sort :: "graph \<Rightarrow> vertex list \<Rightarrow> mc \<Rightarrow> (vertex list \<times> mc) option" where
  "color_sort e R s =
     (let min_k = int (length (QMAX s)) - int (length (QQ s)) + 1
      in if \<not> 2 < length (CC s) then None
         else do { (j, maxno, C, R) \<leftarrow> color_pass e min_k [0..<length R] 0 1 ((CC s)[1 := [], 2 := []]) R;
                   let R = (if j > 0 then R[j - 1 := (fst (R ! (j - 1)), Some 0)] else R);
                       min_k = (if min_k \<le> 0 then 1 else nat min_k)
                   in do { R \<leftarrow> color_fill (color_classes min_k maxno C) j R; Some (R, s\<lparr>CC := C\<rparr>) } })"

section \<open>Search\<close>

lemma cut2_of_length: "cut2_of e p A = Some B \<Longrightarrow> length B \<le> length A"
  by (induction A arbitrary: B) (fastforce split: if_splits)+

lemma set_degrees_of_fst: "set_degrees_of e vs us = Some ws \<Longrightarrow> map fst ws = map fst us \<and> list_all (\<lambda>v. snd v \<noteq> None) ws"
  by (induction us arbitrary: ws) auto

lemma sort_vertices_mset: "sort_vertices Ch n vs = Some ws \<Longrightarrow> mset ws = mset vs"
  by (auto simp: sort_vertices_def split: if_splits)

lemma degree_sort_mset: "degree_sort Ch n e vs = Some ws \<Longrightarrow> mset (map fst ws) = mset (map fst vs)"
proof -
  assume "degree_sort Ch n e vs = Some ws"
  then obtain us where us: "set_degrees_of e vs vs = Some us" "sort_vertices Ch n us = Some ws"
    by (auto simp: degree_sort_def set_degrees_def)
  have "mset (map fst ws) = image_mset fst (mset us)" using sort_vertices_mset [OF us(2)] by simp
  also have "\<dots> = mset (map fst vs)" using set_degrees_of_fst [OF us(1)] by (metis mset_map)
  finally show ?thesis .
qed

lemma degree_sort_length: "degree_sort Ch n e vs = Some ws \<Longrightarrow> length ws = length vs"
  using degree_sort_mset [of Ch n e vs ws] by (metis length_map size_mset)

lemma color_pass_length: "color_pass e m is j k C R = Some (j', k', C', R') \<Longrightarrow> length R' = length R \<and> length C' = length C"
proof (induction "is" arbitrary: j k C R)
  case (Cons i "is")
  then show ?case by (auto simp: Let_def split: if_splits dest!: Cons.IH)
qed simp

lemma color_fill_length: "color_fill ps j R = Some R' \<Longrightarrow> length R' = length R"
  by (induction ps j R arbitrary: R' rule: color_fill.induct) (fastforce split: if_splits)+

lemma color_sort_length: "color_sort e R s = Some (R', s') \<Longrightarrow> length R' = length R"
  unfolding color_sort_def Let_def
  by (auto split: if_splits dest!: color_pass_length color_fill_length)

text \<open>What happens at the start of \<open>expand_dyn\<close>.\<close>

definition step_enter :: "mc \<Rightarrow> mc option" where
  "step_enter s =
     (if 1 \<le> level s \<and> level s < length (SS s) then
        let p = fst (SS s ! (level s - 1))
        in Some (s\<lparr>SS := (SS s)[level s := (fst (SS s ! level s) + p - snd (SS s ! level s), p)]\<rparr>)
      else None)"

text \<open>From the candidates cut down to the neighbours of the new vertex to the next level.\<close>

definition expand_down :: "choices \<Rightarrow> graph \<Rightarrow> vertex list \<Rightarrow> mc \<Rightarrow> (vertex list \<times> mc) option" where
  "expand_down Ch e Rp s =
     (if \<not> level s < length (SS s) then None
      else let s = s\<lparr>pk := pk s + 1\<rparr>; i1 = fst (SS s ! level s)
           in do { Rp \<leftarrow> (if ch_ratio Ch i1 (pk s) 25 1000 then degree_sort Ch (nat (pk s)) e Rp else Some Rp);
                   (Rp, s) \<leftarrow> color_sort e Rp s;
                   s \<leftarrow> step_enter (s\<lparr>SS := (SS s)[level s := (fst (SS s ! level s) + 1, snd (SS s ! level s))], level := level s + 1\<rparr>);
                   Some (Rp, s) })"

lemma expand_down_length: "expand_down Ch e Rp s = Some (R', s') \<Longrightarrow> length R' = length Rp"
  unfolding expand_down_def Let_def
  by (auto split: if_splits prod.splits dest!: color_sort_length degree_sort_length)

function expand_loop :: "choices \<Rightarrow> graph \<Rightarrow> int \<Rightarrow> vertex list \<Rightarrow> mc \<Rightarrow> mc option" where
  "expand_loop Ch e maxStep R s =
     (if R = [] \<or> pk s > maxStep then Some s
      else case snd (last R) of
        None \<Rightarrow> None
      | Some d \<Rightarrow>
          if int (length (QQ s)) + d > int (length (QMAX s)) then
            if \<not> length (QQ s) < mc_sz s then None
            else
              let s = s\<lparr>QQ := QQ s @ [fst (last R)]\<rparr>
              in case cut2 e R of
                   None \<Rightarrow> None
                 | Some Rp \<Rightarrow>
                     if Rp \<noteq> [] then
                       case expand_down Ch e Rp s of
                         None \<Rightarrow> None
                       | Some (Rp, s) \<Rightarrow>
                           (case expand_loop Ch e maxStep Rp s of
                              None \<Rightarrow> None
                            | Some s \<Rightarrow> expand_loop Ch e maxStep (butlast R) (s\<lparr>level := level s - 1, QQ := butlast (QQ s)\<rparr>))
                     else
                       let s = (if length (QQ s) > length (QMAX s) then s\<lparr>QMAX := QQ s\<rparr> else s)
                       in expand_loop Ch e maxStep (butlast R) (s\<lparr>QQ := butlast (QQ s)\<rparr>)
          else Some s)"
  by pat_completeness auto
termination
proof (relation "measure (\<lambda>(Ch, e, m, R, s). length R)"; (clarsimp simp: cut2_def)?)
  fix Ch e R s Rp Rp' s'
  assume "R \<noteq> []" "cut2_of e (fst (last R)) (butlast R) = Some Rp" "expand_down Ch e Rp s = Some (Rp', s')"
  then show "length Rp' < length R"
    using cut2_of_length [of e "fst (last R)" "butlast R" Rp] expand_down_length [of Ch e Rp s Rp' s'] length_greater_0_conv [of R]
    unfolding length_butlast by linarith
qed

declare expand_loop.simps [simp del]

definition mcq_run :: "choices \<Rightarrow> graph \<Rightarrow> nat \<Rightarrow> int \<Rightarrow> mc option" where
  "mcq_run Ch e sz maxStep =
     do { s \<leftarrow> mc_new sz;
          V \<leftarrow> degree_sort Ch 0 e (map (\<lambda>i. (i, None)) [0..<sz]);
          V \<leftarrow> init_colors V;
          s \<leftarrow> step_enter s;
          expand_loop Ch e maxStep V s }"

definition mcqdyn :: "choices \<Rightarrow> graph \<Rightarrow> nat \<Rightarrow> int \<Rightarrow> nat list option" where
  "mcqdyn Ch e sz maxStep = map_option QMAX (mcq_run Ch e sz maxStep)"

section \<open>Graphs and colourings\<close>

definition graph_ok :: "graph \<Rightarrow> nat \<Rightarrow> bool" where
  "graph_ok e sz = (\<forall>i < sz. i < length e \<and> sz \<le> length (e ! i))"

definition adj :: "graph \<Rightarrow> nat \<Rightarrow> nat \<Rightarrow> bool" where
  "adj e i j = e ! i ! j"

definition is_clique :: "graph \<Rightarrow> nat set \<Rightarrow> bool" where
  "is_clique e X = (\<forall>x \<in> X. \<forall>y \<in> X. x \<noteq> y \<longrightarrow> adj e x y)"

lemma connection_ok: "graph_ok e sz \<Longrightarrow> i < sz \<Longrightarrow> j < sz \<Longrightarrow> connection e i j = Some (adj e i j)"
  by (force simp: graph_ok_def connection_def adj_def)

lemma cut1_ok: "graph_ok e sz \<Longrightarrow> p < sz \<Longrightarrow> \<forall>a \<in> set A. a < sz \<Longrightarrow> cut1 e p A = Some (\<exists>a \<in> set A. adj e p a)"
  by (induction A) (auto simp: connection_ok)

lemma cut2_of_ok:
  "graph_ok e sz \<Longrightarrow> p < sz \<Longrightarrow> \<forall>a \<in> set A. fst a < sz \<Longrightarrow>
     cut2_of e p A = Some (map (\<lambda>v. (fst v, None)) (filter (\<lambda>v. adj e p (fst v)) A))"
  by (induction A) (auto simp: connection_ok)

lemma degree_in_ok:
  "graph_ok e sz \<Longrightarrow> p < sz \<Longrightarrow> \<forall>a \<in> set A. fst a < sz \<Longrightarrow>
     degree_in e p A = Some (int (length (filter (\<lambda>v. adj e p (fst v)) A)))"
  by (induction A) (auto simp: connection_ok)

lemma set_degrees_of_ok:
  "graph_ok e sz \<Longrightarrow> \<forall>a \<in> set A. fst a < sz \<Longrightarrow> \<forall>u \<in> set us. fst u < sz \<Longrightarrow>
     set_degrees_of e A us = Some (map (\<lambda>u. (fst u, Some (int (length (filter (\<lambda>v. adj e (fst u) (fst v)) A))))) us)"
  by (induction us) (auto simp: degree_in_ok)

lemma degree_sort_ok:
  assumes "graph_ok e sz" "\<forall>v \<in> set vs. fst v < sz"
  obtains ws where "degree_sort Ch n e vs = Some ws" "mset (map fst ws) = mset (map fst vs)"
    "\<forall>w \<in> set ws. snd w = Some (int (length (filter (\<lambda>v. adj e (fst w) (fst v)) vs)))"
    "sorted_wrt (\<lambda>x y. the (snd x) \<ge> the (snd y)) ws"
proof -
  let ?us = "map (\<lambda>u. (fst u, Some (int (length (filter (\<lambda>v. adj e (fst u) (fst v)) vs))))) vs"
  let ?ws = "std_sort_desc Ch n (\<lambda>v. the (snd v)) ?us"
  have "degree_sort Ch n e vs = Some ?ws"
    using set_degrees_of_ok [OF assms assms(2)] by (simp add: degree_sort_def set_degrees_def sort_vertices_def list_all_iff)
  then show ?thesis using that [of ?ws] degree_sort_mset std_sort_desc_sorted by fastforce
qed

lemma color_find_ok:
  assumes "graph_ok e sz" "p < sz" "k \<le> k0" "k0 < length C" "C ! k0 = []" "\<forall>i \<le> k0. k \<le> i \<longrightarrow> (\<forall>a \<in> set (C ! i). a < sz)"
  shows "\<exists>k'. color_find e p C k = Some k' \<and> k \<le> k' \<and> k' \<le> k0 \<and> (\<forall>a \<in> set (C ! k'). \<not> adj e p a)"
  using assms(3-6)
proof (induction "k0 - k" arbitrary: k)
  case 0
  then have "k = k0" by simp
  then show ?case using 0 by (subst color_find.simps) (auto)
next
  case (Suc n)
  have c: "cut1 e p (C ! k) = Some (\<exists>a \<in> set (C ! k). adj e p a)" using cut1_ok [OF assms(1,2)] Suc.prems(1,4) by simp
  show ?case
  proof (cases "\<exists>a \<in> set (C ! k). adj e p a")
    case False
    then show ?thesis using c Suc.prems by (subst color_find.simps) auto
  next
    case True
    have "n = k0 - (k + 1)" "k + 1 \<le> k0" using Suc.hyps(2) by simp_all
    then obtain k' where "color_find e p C (k + 1) = Some k'" "k + 1 \<le> k'" "k' \<le> k0" "\<forall>a \<in> set (C ! k'). \<not> adj e p a"
      using Suc.hyps(1) [of "k + 1"] Suc.prems by auto
    then show ?thesis using True c Suc.prems by (subst color_find.simps) auto
  qed
qed

text \<open>The colours in use, and the vertices of some colour classes.\<close>

definition colors :: "nat \<Rightarrow> nat list" where
  "colors m = [1..<Suc m]"

lemma colors_simps [simp]: "set (colors m) = {1..m}" "distinct (colors m)" "colors (Suc m) = colors m @ [Suc m]"
  by (auto simp: colors_def)


definition in_classes :: "nat list list \<Rightarrow> nat list \<Rightarrow> nat multiset" where
  "in_classes C ks = mset (concat (map ((!) C) ks))"

lemma in_classes_push:
  assumes "distinct ks" "k < length C"
  shows "in_classes (C[k := C ! k @ [p]]) ks = in_classes C ks + (if k \<in> set ks then {#p#} else {#})"
  using assms by (induction ks) (auto simp: in_classes_def nth_list_update)

lemma in_classes_other: "k \<notin> set ks \<Longrightarrow> in_classes (C[k := x]) ks = in_classes C ks"
  unfolding in_classes_def by (induction ks) auto

lemma in_classes_append: "in_classes C (ks @ ls) = in_classes C ks + in_classes C ls"
  by (simp add: in_classes_def)

lemma in_classes_le: "k \<in> set ks \<Longrightarrow> mset (C ! k) \<subseteq># in_classes C ks"
proof -
  assume "k \<in> set ks"
  then obtain xs ys where "ks = xs @ k # ys" by (meson split_list)
  then show ?thesis by (simp add: in_classes_def)
qed

definition stable :: "graph \<Rightarrow> nat list \<Rightarrow> bool" where
  "stable e A = sorted_wrt (\<lambda>a b. \<not> adj e b a) A"

section \<open>The colouring loop\<close>

definition pass_inv :: "graph \<Rightarrow> nat \<Rightarrow> nat \<Rightarrow> int \<Rightarrow> vertex list \<Rightarrow> nat \<Rightarrow> nat \<Rightarrow> nat \<Rightarrow> nat list list \<Rightarrow> vertex list \<Rightarrow> bool" where
  "pass_inv e sz L m R0 n j maxno C R = (length R = length R0 \<and> length C = L \<and> j \<le> n \<and> n \<le> length R0 \<and>
     (\<forall>i. n \<le> i \<and> i < length R0 \<longrightarrow> R ! i = R0 ! i) \<and> 1 \<le> maxno \<and> maxno \<le> max 1 n \<and> maxno + 1 < L \<and> C ! (maxno + 1) = [] \<and>
     in_classes C (colors maxno) = mset (map fst (take n R0)) \<and>
     mset (map fst (take j R)) = in_classes C (filter (\<lambda>k. int k < m) (colors maxno)) \<and>
     (\<forall>k. 1 \<le> k \<and> k \<le> maxno \<longrightarrow> stable e (C ! k)))"

lemma pass_grow:
  assumes "pass_inv e sz L m R0 n j maxno C R" "k \<le> Suc maxno" "Suc (Suc maxno) < L \<or> k \<le> maxno" "n < length R0"
  defines "maxno' \<equiv> max k maxno" and "C' \<equiv> (if k > maxno then C[k + 1 := []] else C)"
  shows "length C' = L" "1 \<le> maxno'" "maxno' \<le> max 1 n \<or> maxno' = Suc maxno" "maxno' + 1 < L" "C' ! (maxno' + 1) = []"
    "in_classes C' (colors maxno') = mset (map fst (take n R0))"
    "in_classes C' (filter (\<lambda>k. int k < m) (colors maxno')) = mset (map fst (take j R))"
    "\<And>i. 1 \<le> i \<Longrightarrow> i \<le> maxno' \<Longrightarrow> stable e (C' ! i)"
proof -
  note I = assms(1) [unfolded pass_inv_def]
  have empty: "in_classes C (ks @ [maxno + 1]) = in_classes C ks" for ks using I by (simp add: in_classes_def)
  have grow: "k = maxno + 1" if "k > maxno" using assms(2) that by simp
  show "length C' = L" "1 \<le> maxno'" "maxno' \<le> max 1 n \<or> maxno' = Suc maxno" "maxno' + 1 < L" "C' ! (maxno' + 1) = []"
    using I assms(2,3) grow by (auto simp: C'_def maxno'_def max_def)
  show "in_classes C' (colors maxno') = mset (map fst (take n R0))"
  proof (cases "k > maxno")
    case True
    then show ?thesis using I grow in_classes_other [of "k + 1" "(colors k)" C "[]"] empty by (simp add: C'_def maxno'_def)
  qed (use I in \<open>simp add: C'_def maxno'_def max_def\<close>)
  show "in_classes C' (filter (\<lambda>k. int k < m) (colors maxno')) = mset (map fst (take j R))"
  proof (cases "k > maxno")
    case True
    then show ?thesis
      using I grow in_classes_other [of "k + 1" "filter (\<lambda>k. int k < m) (colors k)" C "[]"] empty by (simp add: C'_def maxno'_def)
  qed (use I in \<open>simp add: C'_def maxno'_def max_def\<close>)
  show "stable e (C' ! i)" if "1 \<le> i" "i \<le> maxno'" for i
    using I that grow by (cases "i = maxno + 1") (auto simp: C'_def maxno'_def max_def stable_def nth_list_update split: if_splits)
qed

lemma take_update_fst:
  assumes "j < length R"
  shows "map fst (take (Suc j) (R[j := (p, d)])) = map fst (take j R) @ [p]"
  using assms by (simp add: take_Suc_conv_app_nth)

lemma pass_step:
  assumes I: "pass_inv e sz L m R0 n j maxno C R" and n: "n < length R0" and L: "length R0 + 2 \<le> L"
    and g: "graph_ok e sz" "\<forall>v \<in> set R0. fst v < sz"
  shows "\<exists>j' maxno' C' R'. color_pass e m (n # is) j maxno C R = color_pass e m is j' maxno' C' R' \<and>
    pass_inv e sz L m R0 (Suc n) j' maxno' C' R'"
proof -
  note J = I [unfolded pass_inv_def]
  have Rn: "n < length R" "R ! n = R0 ! n" "j < length R" using J n by auto
  have p: "fst (R0 ! n) < sz" using g(2) n by simp
  have small: "a < sz" if "1 \<le> i" "i \<le> maxno + 1" "a \<in> set (C ! i)" for i a
  proof (cases "i = maxno + 1")
    case False
    then have "mset (C ! i) \<subseteq># mset (map fst (take n R0))" using that J in_classes_le [of i "(colors maxno)" C] by simp
    then have "a \<in> set (map fst (take n R0))" using that(3) by (metis mset_subset_eqD set_mset_mset)
    then show ?thesis using g(2) by (auto dest: in_set_takeD)
  qed (use that J in auto)
  have ex: "\<exists>k. color_find e (fst (R0 ! n)) C 1 = Some k \<and> 1 \<le> k \<and> k \<le> maxno + 1 \<and> (\<forall>a \<in> set (C ! k). \<not> adj e (fst (R0 ! n)) a)"
    using J small by (intro color_find_ok [OF g(1) p]) auto
  then obtain k where k: "color_find e (fst (R0 ! n)) C 1 = Some k" "1 \<le> k" "k \<le> maxno + 1" "\<forall>a \<in> set (C ! k). \<not> adj e (fst (R0 ! n)) a"
    by blast
  have first: "k = 1" if "n = 0"
  proof -
    have "mset (C ! 1) \<subseteq># {#}" using that J in_classes_le [of 1 "colors maxno" C] by simp
    then have "C ! 1 = []" by simp
    then show ?thesis using k(1) J by (subst (asm) color_find.simps) (auto split: if_splits)
  qed
  then have room: "Suc (Suc maxno) < L \<or> k \<le> maxno" using J n L by (cases "n = 0") auto
  define maxno' C1 where "maxno' = max k maxno" and "C1 = (if k > maxno then C[k + 1 := []] else C)"
  have "k \<le> Suc maxno" using k(3) by simp
  note P = pass_grow [OF I this room n, folded maxno'_def C1_def]
  have k': "k < length C1" "k \<le> maxno'" "C1 ! k = C ! k" using P(1,4) J k by (auto simp: maxno'_def C1_def)
  define C2 where "C2 = C1[k := C1 ! k @ [fst (R0 ! n)]]"
  have cap: "length (C1 ! k) < length C1"
  proof -
    have "mset (C1 ! k) \<subseteq># mset (map fst (take n R0))"
      using P(6) in_classes_le [of k "(colors maxno')" C1] k k'(2) by simp
    then have "length (C1 ! k) \<le> n" using size_mset_mono [of "mset (C1 ! k)"] n by fastforce
    then show ?thesis using P(1) L n k(3) by simp
  qed
  have all: "in_classes C2 (colors maxno') = mset (map fst (take (Suc n) R0))"
    using P(6) in_classes_push [of "(colors maxno')" k C1 "fst (R0 ! n)"] k k' n by (simp add: C2_def take_Suc_conv_app_nth)
  have ind: "stable e (C2 ! i)" if "1 \<le> i" "i \<le> maxno'" for i
    using P(8) [of i] that k(3,4) k'(1,3) by (auto simp: C2_def stable_def nth_list_update sorted_wrt_append)
  have part: "in_classes C2 (filter (\<lambda>k. int k < m) (colors maxno')) =
      mset (map fst (take j R)) + (if int k < m then {#fst (R0 ! n)#} else {#})"
    using P(7) in_classes_push [of "filter (\<lambda>k. int k < m) (colors maxno')" k C1 "fst (R0 ! n)"] k k' by (simp add: C2_def)
  have mx: "maxno' \<le> max 1 (Suc n)" using first J k(3) by (cases "n = 0") (auto simp: maxno'_def)
  have C2e: "C2 ! (maxno' + 1) = []" using P(5) k(3) k'(2) by (simp add: C2_def)
  define j' R' where "j' = (if int k < m then j + 1 else j)" and "R' = (if int k < m then R[j := (fst (R0 ! n), snd (R ! j))] else R)"
  have "color_pass e m (n # is) j maxno C R = color_pass e m is j' maxno' C2 R'"
    using Rn k(1,3) cap P(1,4) by (auto simp: Let_def C2_def C1_def maxno'_def j'_def R'_def max_def split: if_splits)
  moreover have "mset (map fst (take j' R')) = in_classes C2 (filter (\<lambda>k. int k < m) (colors maxno'))"
    unfolding part using arg_cong [OF take_update_fst [OF Rn(3), of "fst (R0 ! n)" "snd (R ! j)"], of mset] by (simp add: j'_def R'_def)
  then have "pass_inv e sz L m R0 (Suc n) j' maxno' C2 R'"
    unfolding pass_inv_def using J n P(1,2,4) all ind mx C2e by (auto simp: C2_def j'_def R'_def)
  ultimately show ?thesis by blast
qed

lemma pass_loop:
  assumes L: "length R0 + 2 \<le> L" and g: "graph_ok e sz" "\<forall>v \<in> set R0. fst v < sz" and n: "n \<le> length R0"
  shows "pass_inv e sz L m R0 n j maxno C R \<Longrightarrow>
    \<exists>j' maxno' C' R'. color_pass e m [n..<length R0] j maxno C R = Some (j', maxno', C', R') \<and>
      pass_inv e sz L m R0 (length R0) j' maxno' C' R'"
  using n
proof (induction "length R0 - n" arbitrary: n j maxno C R)
  case 0
  then show ?case by simp
next
  case (Suc d)
  then have n: "n < length R0" by simp
  obtain j1 m1 C1 R1 where s1: "color_pass e m (n # [Suc n..<length R0]) j maxno C R = color_pass e m [Suc n..<length R0] j1 m1 C1 R1"
      "pass_inv e sz L m R0 (Suc n) j1 m1 C1 R1"
    using pass_step [OF Suc.prems(1) n L g] by blast
  have "d = length R0 - Suc n" "Suc n \<le> length R0" using Suc.hyps(2) n by simp_all
  then show ?case using Suc.hyps(1) [OF _ s1(2)] s1(1) n by (simp add: upt_rec [of n])
qed

section \<open>The colouring bound\<close>

text \<open>
  The vertices from position \<open>j\<close> on carry a bound on the cliques up to them; the ones before are
  covered by \<open>q\<close>, the number of vertices a larger clique would still need, and are cut off by the
  degree 0 just before \<open>j\<close>.
\<close>

definition bounded :: "graph \<Rightarrow> int \<Rightarrow> vertex list \<Rightarrow> bool" where
  "bounded e q R = (\<exists>j \<le> length R.
     (\<forall>i. j \<le> i \<and> i < length R \<longrightarrow> (\<exists>d. snd (R ! i) = Some d \<and>
        (\<forall>X. is_clique e X \<and> X \<subseteq> fst ` set (take (Suc i) R) \<longrightarrow> int (card X) \<le> d))) \<and>
     (0 < j \<longrightarrow> snd (R ! (j - 1)) = Some 0 \<and> 0 \<le> q \<and>
        (\<forall>X. is_clique e X \<and> X \<subseteq> fst ` set (take j R) \<longrightarrow> int (card X) \<le> q)))"

lemma stable_clique:
  assumes "stable e A" "is_clique e X" "x \<in> X" "y \<in> X" "x \<in> set A" "y \<in> set A"
  shows "x = y"
proof (rule ccontr)
  assume "x \<noteq> y"
  obtain a b where ab: "a < length A" "A ! a = x" "b < length A" "A ! b = y" using assms(5,6) by (metis in_set_conv_nth)
  then have "a \<noteq> b" using \<open>x \<noteq> y\<close> by auto
  then have "\<not> adj e y x \<or> \<not> adj e x y" using assms(1) ab by (auto simp: stable_def sorted_wrt_iff_nth_less neq_iff)
  then show False using assms(2-4) \<open>x \<noteq> y\<close> by (auto simp: is_clique_def)
qed

lemma coloring_bound:
  assumes "\<And>c. 1 \<le> c \<Longrightarrow> c \<le> k \<Longrightarrow> stable e (C ! c)" "is_clique e X" "\<forall>x \<in> X. \<exists>c. 1 \<le> c \<and> c \<le> k \<and> x \<in> set (C ! c)"
  shows "card X \<le> k"
proof -
  obtain col where col: "\<forall>x \<in> X. 1 \<le> col x \<and> col x \<le> k \<and> x \<in> set (C ! col x)" using assms(3) by metis
  have "inj_on col X"
    using stable_clique [OF assms(1) assms(2)] col by (metis inj_onI)
  moreover have "col ` X \<subseteq> {1..k}" using col by auto
  ultimately show ?thesis using card_inj_on_le [of col X "{1..k}"] by simp
qed

lemma color_fill_eq:
  "j + length ps = length R \<Longrightarrow> color_fill ps j R = Some (take j R @ map (\<lambda>(p, k). (p, Some k)) ps)"
proof (induction ps arbitrary: j R)
  case (Cons x ps)
  obtain p k where x: "x = (p, k)" by (cases x)
  have "color_fill (x # ps) j R = color_fill ps (j + 1) (R[j := (p, Some k)])" using Cons.prems x by simp
  then show ?case using Cons.IH [of "j + 1" "R[j := (p, Some k)]"] Cons.prems x by (simp add: take_Suc_conv_app_nth)
qed simp

lemma color_classes_in: "(p, c) \<in> set (color_classes lo hi C) \<Longrightarrow> \<exists>k. c = int k \<and> lo \<le> k \<and> k \<le> hi \<and> p \<in> set (C ! k)"
  by (auto simp: color_classes_def)

lemma color_classes_sorted: "sorted (map snd (color_classes lo hi C))"
proof -
  have "sorted (map snd (concat (map (\<lambda>k. map (\<lambda>p. (p, int k)) (C ! k)) ks)))" if "sorted ks" for ks
  proof (use that in \<open>induction ks\<close>)
    case (Cons a ks)
    have "sorted (map (\<lambda>x. int a) (C ! a))" by (induction "C ! a" rule: rev_induct) (auto simp: sorted_wrt_map sorted_wrt_iff_nth_less)
    then show ?case using Cons by (auto simp: sorted_append map_concat comp_def)
  qed simp
  then show ?thesis unfolding color_classes_def by (metis sorted_upt)
qed

lemma color_classes_mset: "mset (map fst (color_classes lo hi C)) = in_classes C [lo..<Suc hi]"
  by (simp add: color_classes_def in_classes_def map_concat comp_def del: upt_Suc)

text \<open>Small and large colours together are all colours.\<close>

lemma colors_split:
  assumes "lo = (if m \<le> 0 then 1 else nat m)"
  shows "in_classes C (filter (\<lambda>k. int k < m) (colors hi)) + in_classes C [lo..<Suc hi] = in_classes C (colors hi)"
proof -
  have "mset (filter (\<lambda>k. int k < m) (colors hi)) + mset [lo..<Suc hi] = mset (colors hi)"
  proof (rule multiset_eqI)
    fix x
    have "count (mset [a..<b]) x = (if a \<le> x \<and> x < b then 1 else 0)" for a b :: nat
      using distinct_upt [of a b, unfolded distinct_count_atmost_1] by (simp del: upt_Suc)
    then show "count (mset (filter (\<lambda>k. int k < m) (colors hi)) + mset [lo..<Suc hi]) x = count (mset (colors hi)) x"
      unfolding colors_def using assms by (simp add: mset_filter del: upt_Suc) auto
  qed
  then have "\<Sum>\<^sub># (image_mset (\<lambda>k. mset (C ! k)) (mset (filter (\<lambda>k. int k < m) (colors hi)))) +
      \<Sum>\<^sub># (image_mset (\<lambda>k. mset (C ! k)) (mset [lo..<Suc hi])) = \<Sum>\<^sub># (image_mset (\<lambda>k. mset (C ! k)) (mset (colors hi)))"
    by (metis image_mset_union sum_mset.union)
  moreover have "in_classes C ks = \<Sum>\<^sub># (image_mset (\<lambda>k. mset (C ! k)) (mset ks))" for ks
    by (induction ks) (simp_all add: in_classes_def)
  ultimately show ?thesis by simp
qed

lemma bounded_color_sort:
  assumes C: "\<And>c. 1 \<le> c \<Longrightarrow> c \<le> hi \<Longrightarrow> stable e (C ! c)" and lo: "lo = (if q + 1 \<le> 0 then 1 else nat (q + 1))"
    and F: "\<forall>v \<in> set F. \<exists>c. 1 \<le> c \<and> c \<le> hi \<and> int c < q + 1 \<and> fst v \<in> set (C ! c)" "F \<noteq> [] \<longrightarrow> snd (last F) = Some 0"
  shows "bounded e q (F @ map (\<lambda>(p, k). (p, Some k)) (color_classes lo hi C))"
proof -
  let ?G = "color_classes lo hi C" let ?R = "F @ map (\<lambda>(p, k). (p, Some k)) ?G"
  have front: "int (card X) \<le> q" "0 \<le> q" if "is_clique e X" "X \<subseteq> fst ` set F" "F \<noteq> []" for X
  proof -
    from that(3) obtain v where "v \<in> set F" by (cases F) auto
    then show "0 \<le> q" using F(1) by fastforce
    have "\<forall>x \<in> X. \<exists>c. 1 \<le> c \<and> c \<le> min hi (nat q) \<and> x \<in> set (C ! c)" using F(1) that(2) by fastforce
    then have "card X \<le> min hi (nat q)" using C that(1) by (intro coloring_bound) auto
    then show "int (card X) \<le> q" using \<open>0 \<le> q\<close> by linarith
  qed
  have rear: "\<exists>d. snd (?R ! i) = Some d \<and> (\<forall>X. is_clique e X \<and> X \<subseteq> fst ` set (take (Suc i) ?R) \<longrightarrow> int (card X) \<le> d)"
    if i: "length F \<le> i" "i < length ?R" for i
  proof -
    define n where "n = i - length F"
    have n: "n < length ?G" "i = length F + n" using i by (simp_all add: n_def)
    obtain p d where pd: "?G ! n = (p, d)" by (cases "?G ! n")
    obtain k where k: "d = int k" "lo \<le> k" "k \<le> hi" using color_classes_in nth_mem [OF n(1)] pd by metis
    have le: "int c \<le> d" if "m \<le> n" "?G ! m = (x, int c)" for m c x
      using sorted_nth_mono [OF color_classes_sorted [of lo hi C], of m n] that n(1) pd by simp
    have "int (card X) \<le> d" if X: "is_clique e X" "X \<subseteq> fst ` set (take (Suc i) ?R)" for X
    proof -
      have tk: "take (Suc i) ?R = F @ map (\<lambda>(p, k). (p, Some k)) (take (Suc n) ?G)" using n(2) by (simp add: take_map)
      have "\<exists>c. 1 \<le> c \<and> c \<le> k \<and> x \<in> set (C ! c)" if x: "x \<in> X" for x
      proof -
        consider v where "v \<in> set F" "fst v = x" | c where "(x, c) \<in> set (take (Suc n) ?G)"
          using X(2) x unfolding tk by auto
        then show ?thesis
        proof cases
          case 1
          then obtain c where "1 \<le> c" "int c < q + 1" "x \<in> set (C ! c)" using F(1) by auto
          then show ?thesis using k(2) lo by (intro exI [of _ c]) auto
        next
          case 2
          then obtain m where m: "m < Suc n" "m < length ?G" "?G ! m = (x, c)" by (auto simp: in_set_conv_nth)
          obtain c' where c': "c = int c'" "lo \<le> c'" "x \<in> set (C ! c')" using color_classes_in nth_mem [OF m(2)] m(3) by metis
          then have "c' \<le> k" using le [of m x c'] m k(1) by simp
          moreover have "1 \<le> c'" using c'(2) lo by (auto split: if_splits)
          ultimately show ?thesis using c'(3) by blast
        qed
      qed
      then have "card X \<le> k" using C k(3) X(1) by (intro coloring_bound) auto
      then show ?thesis using k(1) by simp
    qed
    then show ?thesis using pd n by (auto simp: nth_append)
  qed
  show ?thesis
    unfolding bounded_def
  proof (intro exI [of _ "length F"] conjI impI allI)
    show "snd (?R ! (length F - 1)) = Some 0" if "0 < length F" using that F(2) by (auto simp: nth_append last_conv_nth)
    show "0 \<le> q" if "0 < length F" using front(2) [of "{}"] that by (simp add: is_clique_def)
    show "int (card X) \<le> q" if "0 < length F" "is_clique e X \<and> X \<subseteq> fst ` set (take (length F) ?R)" for X
      using front(1) that by simp
  qed (use rear in auto)
qed

lemma update_degree_fst: "fst (R[k := (fst (R ! k), d)] ! i) = fst (R ! i)"
  by (cases "k < length R") (auto simp: nth_list_update list_update_beyond)

lemma color_sort_ok:
  assumes g: "graph_ok e sz" "\<forall>v \<in> set R. fst v < sz" and s: "length (CC s) = sz + 1" and R: "length R < sz" "R \<noteq> []"
  obtains R' C where "color_sort e R s = Some (R', s\<lparr>CC := C\<rparr>)" "length C = sz + 1" "mset (map fst R') = mset (map fst R)"
    "bounded e (int (length (QMAX s)) - int (length (QQ s))) R'"
proof -
  define q where "q = int (length (QMAX s)) - int (length (QQ s))"
  let ?C = "(CC s)[1 := [], 2 := []]"
  have "2 < length (CC s)" using s R by (cases R) auto
  then have c2: "?C ! 1 = []" "?C ! 2 = []" by (simp_all add: nth_list_update)
  have "pass_inv e sz (sz + 1) (q + 1) R 0 0 1 ?C R"
    unfolding pass_inv_def using s \<open>2 < length (CC s)\<close> c2 by (auto simp: in_classes_def colors_def stable_def numeral_2_eq_2 dest: le_antisym)
  moreover have "length R + 2 \<le> sz + 1" using R(1) by simp
  ultimately obtain j maxno C R1 where P: "color_pass e (q + 1) [0..<length R] 0 1 ?C R = Some (j, maxno, C, R1)"
      "pass_inv e sz (sz + 1) (q + 1) R (length R) j maxno C R1"
    using pass_loop [OF _ g le0] by blast
  note J = P(2) [unfolded pass_inv_def]
  define R2 where "R2 = (if j > 0 then R1[j - 1 := (fst (R1 ! (j - 1)), Some 0)] else R1)"
  define lo where "lo = (if q + 1 \<le> 0 then 1 else nat (q + 1))"
  let ?F = "take j R2" let ?R = "?F @ map (\<lambda>(p, k). (p, Some k)) (color_classes lo maxno C)"
  have fstF: "map fst ?F = map fst (take j R1)"
    by (rule nth_equalityI) (auto simp: R2_def update_degree_fst)
  have tot: "mset (map fst ?F) + mset (map fst (color_classes lo maxno C)) = mset (map fst R)"
    unfolding fstF color_classes_mset using J colors_split [OF lo_def, of C maxno] by simp
  have "j + length (color_classes lo maxno C) = length R2"
    using arg_cong [OF tot, of size] J by (simp add: R2_def)
  then have fill: "color_fill (color_classes lo maxno C) j R2 = Some ?R" by (rule color_fill_eq)
  have "color_sort e R s = Some (?R, s\<lparr>CC := C\<rparr>)"
    using P(1) fill \<open>2 < length (CC s)\<close> unfolding color_sort_def Let_def q_def [symmetric] by (simp add: R2_def lo_def)
  moreover have "mset (map fst ?R) = mset (map fst R)" using tot by (simp add: comp_def case_prod_beta)
  moreover have "bounded e q ?R"
  proof (rule bounded_color_sort [OF _ lo_def])
    show "stable e (C ! c)" if "1 \<le> c" "c \<le> maxno" for c using J that by blast
    have "set (map fst ?F) = set_mset (in_classes C (filter (\<lambda>k. int k < q + 1) (colors maxno)))"
      unfolding fstF using J by (metis set_mset_mset)
    then have "\<forall>x \<in> set (map fst ?F). \<exists>c. 1 \<le> c \<and> c \<le> maxno \<and> int c < q + 1 \<and> x \<in> set (C ! c)"
      by (auto simp: in_classes_def)
    then show "\<forall>v \<in> set ?F. \<exists>c. 1 \<le> c \<and> c \<le> maxno \<and> int c < q + 1 \<and> fst v \<in> set (C ! c)" by simp
    show "?F \<noteq> [] \<longrightarrow> snd (last ?F) = Some 0"
      using J by (auto simp: R2_def last_conv_nth)
  qed
  moreover have "length C = sz + 1" using J by blast
  ultimately show ?thesis using that [of ?R C] unfolding q_def by blast
qed

section \<open>The search\<close>

definition mc_ok :: "nat \<Rightarrow> graph \<Rightarrow> mc \<Rightarrow> bool" where
  "mc_ok sz e s = (mc_sz s = sz \<and> length (CC s) = sz + 1 \<and> length (SS s) = sz + 1 \<and> level s = Suc (length (QQ s)) \<and>
     sorted_wrt (adj e) (QMAX s) \<and> distinct (QMAX s) \<and> (\<forall>v \<in> set (QMAX s). v < sz))"

text \<open>Candidates: different vertices, all of them neighbours of the clique under construction.\<close>

definition cands_ok :: "nat \<Rightarrow> graph \<Rightarrow> nat list \<Rightarrow> vertex list \<Rightarrow> bool" where
  "cands_ok sz e Q R = (distinct (Q @ map fst R) \<and> (\<forall>v \<in> set (Q @ map fst R). v < sz) \<and> sorted_wrt (adj e) Q \<and>
     (\<forall>x \<in> set Q. \<forall>v \<in> set R. adj e x (fst v)) \<and> length Q + length R \<le> sz)"

text \<open>What a run of the loop promises.\<close>

definition searched :: "nat \<Rightarrow> graph \<Rightarrow> int \<Rightarrow> vertex list \<Rightarrow> mc \<Rightarrow> mc \<Rightarrow> bool" where
  "searched sz e maxStep R s s' = (mc_ok sz e s' \<and> QQ s' = QQ s \<and> length (QMAX s) \<le> length (QMAX s') \<and> pk s \<le> pk s' \<and>
     (pk s' \<le> maxStep \<longrightarrow> (\<forall>X. is_clique e X \<and> X \<subseteq> fst ` set R \<and> X \<noteq> {} \<longrightarrow> length (QQ s) + card X \<le> length (QMAX s'))))"

lemma step_enter_ok:
  assumes "1 \<le> level s" "level s < length (SS s)"
  obtains S where "step_enter s = Some (s\<lparr>SS := S\<rparr>)" "length S = length (SS s)"
  using assms by (simp add: step_enter_def Let_def)

lemma expand_down_ok:
  assumes g: "graph_ok e sz" "\<forall>v \<in> set Rp. fst v < sz" and s: "length (CC s) = sz + 1" "length (SS s) = sz + 1" "1 \<le> level s" "level s < sz"
    and R: "length Rp < sz" "Rp \<noteq> []"
  obtains R' C S where "expand_down Ch e Rp s = Some (R', s\<lparr>pk := pk s + 1, CC := C, SS := S, level := level s + 1\<rparr>)"
    "length C = sz + 1" "length S = sz + 1" "mset (map fst R') = mset (map fst Rp)"
    "bounded e (int (length (QMAX s)) - int (length (QQ s))) R'"
proof -
  let ?s = "s\<lparr>pk := pk s + 1\<rparr>"
  obtain ws where "degree_sort Ch (nat (pk s + 1)) e Rp = Some ws" "mset (map fst ws) = mset (map fst Rp)"
    using degree_sort_ok [OF g, of Ch "nat (pk s + 1)"] by blast
  then obtain R1 where R1: "(if ch_ratio Ch (fst (SS s ! level s)) (pk s + 1) 25 1000 then degree_sort Ch (nat (pk s + 1)) e Rp else Some Rp) = Some R1"
      "mset (map fst R1) = mset (map fst Rp)" by (cases "ch_ratio Ch (fst (SS s ! level s)) (pk s + 1) 25 1000") auto
  have st: "set (map fst R1) = set (map fst Rp)" "length (map fst R1) = length (map fst Rp)" using R1(2) by (metis set_mset_mset, metis size_mset)
  have "\<forall>x \<in> set (map fst R1). x < sz" unfolding st(1) using g(2) by simp
  then have g1: "\<forall>v \<in> set R1. fst v < sz" "length R1 < sz" "R1 \<noteq> []" using st(2) R by auto
  obtain R' C where C: "color_sort e R1 ?s = Some (R', ?s\<lparr>CC := C\<rparr>)" "length C = sz + 1" "mset (map fst R') = mset (map fst R1)"
      "bounded e (int (length (QMAX ?s)) - int (length (QQ ?s))) R'"
    by (rule color_sort_ok [OF g(1) g1(1) _ g1(2,3), of ?s]) (use s(1) in auto)
  let ?t = "?s\<lparr>CC := C, SS := (SS s)[level s := (fst (SS s ! level s) + 1, snd (SS s ! level s))], level := level s + 1\<rparr>"
  obtain S where S: "step_enter ?t = Some (?t\<lparr>SS := S\<rparr>)" "length S = length (SS ?t)"
    by (rule step_enter_ok [of ?t]) (use s in auto)
  have "expand_down Ch e Rp s = Some (R', s\<lparr>pk := pk s + 1, CC := C, SS := S, level := level s + 1\<rparr>)"
    using R1(1) C(1) S(1) s(2,4) by (auto simp: expand_down_def Let_def)
  then show ?thesis using that C(2-4) S(2) s(2) R1(2) by simp
qed

lemma bounded_last:
  assumes "bounded e q R" "R \<noteq> []"
  obtains d where "snd (last R) = Some d" "\<forall>X. is_clique e X \<and> X \<subseteq> fst ` set R \<longrightarrow> int (card X) \<le> max d q"
    "\<forall>q'. q < d \<and> q \<le> q' \<longrightarrow> bounded e q' (butlast R)"
proof -
  obtain j where j: "j \<le> length R" "\<And>i. j \<le> i \<Longrightarrow> i < length R \<Longrightarrow> (\<exists>d. snd (R ! i) = Some d \<and>
        (\<forall>X. is_clique e X \<and> X \<subseteq> fst ` set (take (Suc i) R) \<longrightarrow> int (card X) \<le> d))"
      "0 < j \<Longrightarrow> snd (R ! (j - 1)) = Some 0 \<and> 0 \<le> q \<and> (\<forall>X. is_clique e X \<and> X \<subseteq> fst ` set (take j R) \<longrightarrow> int (card X) \<le> q)"
    using assms(1) unfolding bounded_def by blast
  have len: "0 < length R" "last R = R ! (length R - 1)" using assms(2) by (simp_all add: last_conv_nth)
  show thesis
  proof (cases "j = length R")
    case True
    show thesis
    proof (rule that)
      show "snd (last R) = Some 0" using j(3) len True by simp
      show "\<forall>X. is_clique e X \<and> X \<subseteq> fst ` set R \<longrightarrow> int (card X) \<le> max 0 q" using j(3) len(1) True by auto
      show "\<forall>q'. q < 0 \<and> q \<le> q' \<longrightarrow> bounded e q' (butlast R)" using j(3) len(1) True by simp
    qed
  next
    case False
    then have jl: "j \<le> length R - 1" using j(1) by simp
    obtain d where d: "snd (last R) = Some d" "\<forall>X. is_clique e X \<and> X \<subseteq> fst ` set R \<longrightarrow> int (card X) \<le> d"
      using j(2) [OF jl] len by auto
    have tk: "take n (butlast R) = take n R" if "n \<le> length R - 1" for n using that by (simp add: butlast_conv_take min_def)
    show thesis
    proof (rule that [OF d(1)])
      show "\<forall>X. is_clique e X \<and> X \<subseteq> fst ` set R \<longrightarrow> int (card X) \<le> max d q" using d(2) by fastforce
      show "\<forall>q'. q < d \<and> q \<le> q' \<longrightarrow> bounded e q' (butlast R)"
      proof (intro allI impI)
        fix q' assume "q < d \<and> q \<le> q'"
        then have qq: "q \<le> q'" by simp
        show "bounded e q' (butlast R)"
          unfolding bounded_def
        proof (intro exI [of _ j] conjI allI impI)
          show "j \<le> length (butlast R)" using jl by simp
          fix i assume i: "j \<le> i \<and> i < length (butlast R)"
          then have il: "i < length R" "Suc i \<le> length R - 1" "j \<le> i" by auto
          show "\<exists>d. snd (butlast R ! i) = Some d \<and> (\<forall>X. is_clique e X \<and> X \<subseteq> fst ` set (take (Suc i) (butlast R)) \<longrightarrow> int (card X) \<le> d)"
            using j(2) [OF il(3,1)] tk [OF il(2)] i by (simp add: nth_butlast)
        next
          show "snd (butlast R ! (j - 1)) = Some 0" "0 \<le> q'" if "0 < j" using j(3) that jl qq by (simp_all add: nth_butlast)
          show "int (card X) \<le> q'" if "0 < j" "is_clique e X \<and> X \<subseteq> fst ` set (take j (butlast R))" for X
            using j(3) that tk [OF jl] qq by fastforce
        qed
      qed
    qed
  qed
qed

lemma cands_butlast: "cands_ok sz e Q R \<Longrightarrow> cands_ok sz e Q (butlast R)"
  by (cases R rule: rev_cases) (auto simp: cands_ok_def)

lemma cands_cut:
  assumes "cands_ok sz e Q R" "R \<noteq> []" "mset (map fst R') = mset (map fst (filter (\<lambda>v. adj e (fst (last R)) (fst v)) (butlast R)))"
  shows "cands_ok sz e (Q @ [fst (last R)]) R'"
proof -
  obtain B v where R: "R = B @ [v]" using assms(2) by (cases R rule: rev_cases) auto
  let ?F = "filter (\<lambda>u. adj e (fst v) (fst u)) B"
  have ms: "mset (map fst R') = mset (map fst ?F)" using assms(3) R by simp
  have st: "fst ` set R' = fst ` set ?F" "length R' = length ?F" "distinct (map fst R') = distinct (map fst ?F)"
    using ms by (metis list.set_map set_mset_mset, metis length_map size_mset, metis distinct_count_atmost_1 ms mset_eq_setD)
  have K: "distinct Q" "distinct (map fst B)" "fst v \<notin> set Q" "fst v \<notin> fst ` set B" "set Q \<inter> fst ` set B = {}" "\<forall>x \<in> set Q. x < sz"
      "\<forall>u \<in> set B. fst u < sz" "fst v < sz" "sorted_wrt (adj e) Q" "\<forall>x \<in> set Q. \<forall>u \<in> set B. adj e x (fst u)"
      "\<forall>x \<in> set Q. adj e x (fst v)" "length Q + length B + 1 \<le> sz"
    using assms(1) by (auto simp: cands_ok_def R)
  have in_B: "\<exists>w \<in> set B. fst u = fst w \<and> adj e (fst v) (fst w)" if "u \<in> set R'" for u
    using that st(1) imageI [OF that, of fst] by auto
  have "distinct (map fst R')" using K(2) st(3) by (simp add: distinct_map inj_on_def)
  moreover have "\<forall>y \<in> fst ` set R'. y < sz \<and> y \<notin> set Q \<and> y \<noteq> fst v \<and> adj e (fst v) y \<and> (\<forall>x \<in> set Q. adj e x y)"
  proof
    fix y assume "y \<in> fst ` set R'"
    then obtain u where "u \<in> set R'" "y = fst u" by blast
    then show "y < sz \<and> y \<notin> set Q \<and> y \<noteq> fst v \<and> adj e (fst v) y \<and> (\<forall>x \<in> set Q. adj e x y)"
      using in_B [of u] K(4,5,7,10) by (metis disjoint_iff imageI)
  qed
  moreover have "length R' \<le> length B" using st(2) by simp
  ultimately show ?thesis
    using K unfolding cands_ok_def R by (fastforce simp: sorted_wrt_append)
qed

lemma expand_loop_ok:
  assumes g: "graph_ok e sz"
  shows "mc_ok sz e s \<Longrightarrow> cands_ok sz e (QQ s) R \<Longrightarrow> bounded e (int (length (QMAX s)) - int (length (QQ s))) R \<Longrightarrow>
    \<exists>s'. expand_loop Ch e maxStep R s = Some s' \<and> searched sz e maxStep R s s'"
proof (induction "length R" arbitrary: R s rule: less_induct)
  case less
  note M = less.prems(1) [unfolded mc_ok_def] and K = less.prems(2) [unfolded cands_ok_def]
  show ?case
  proof (cases "R = [] \<or> pk s > maxStep")
    case True
    then show ?thesis using less.prems(1) by (subst expand_loop.simps) (auto simp: searched_def)
  next
    case False
    then have R: "R \<noteq> []" "pk s \<le> maxStep" by auto
    define v B where "v = fst (last R)" and "B = butlast R"
    have RB: "R = B @ [last R]" using R(1) by (simp add: B_def)
    obtain d where d: "snd (last R) = Some d" "\<forall>X. is_clique e X \<and> X \<subseteq> fst ` set R \<longrightarrow> int (card X) \<le> max d (int (length (QMAX s)) - int (length (QQ s)))"
      "\<forall>q'. int (length (QMAX s)) - int (length (QQ s)) < d \<and> int (length (QMAX s)) - int (length (QQ s)) \<le> q' \<longrightarrow> bounded e q' B"
      using bounded_last [OF less.prems(3) R(1)] unfolding B_def by blast
    show ?thesis
    proof (cases "int (length (QQ s)) + d > int (length (QMAX s))")
      case False
      then have "expand_loop Ch e maxStep R s = Some s" using R d(1) by (subst expand_loop.simps) simp
      moreover have "length (QQ s) + card X \<le> length (QMAX s)" if "is_clique e X" "X \<subseteq> fst ` set R" for X
      proof -
        have "int (card X) \<le> max d (int (length (QMAX s)) - int (length (QQ s)))" using d(2) that by blast
        then show ?thesis using False by (simp add: max_def split: if_splits)
      qed
      ultimately show ?thesis using less.prems(1) by (auto simp: searched_def)
    next
      case True
      let ?F = "filter (\<lambda>u. adj e v (fst u)) B" let ?Rp = "map (\<lambda>u. (fst u, None :: int option)) ?F"
      let ?s1 = "s\<lparr>QQ := QQ s @ [v]\<rparr>"
      have fR: "fst ` set R = insert v (fst ` set B)" using arg_cong [OF RB, of "\<lambda>R. fst ` set R"] by (simp add: v_def)
      have lR: "length R = Suc (length B)" using arg_cong [OF RB, of length] by simp
      have "\<forall>x \<in> fst ` set R. x < sz" using K by simp
      then have lens: "length (QQ s) + length B + 1 \<le> sz" "v < sz" "\<forall>u \<in> set B. fst u < sz" unfolding fR using K lR by simp_all
      have cut: "cut2 e R = Some ?Rp" unfolding cut2_def v_def [symmetric] B_def [symmetric] by (rule cut2_of_ok [OF g lens(2,3)])
      have room: "length (QQ s) < mc_sz s" using lens(1) M by simp
      have bB: "bounded e q' B" if "int (length (QMAX s)) - int (length (QQ s)) \<le> q'" for q' using d(3) that True by simp
      note cB = cands_butlast [OF less.prems(2), folded B_def]
      have split: "X \<subseteq> fst ` set B \<or> v \<in> X \<and> X - {v} \<subseteq> fst ` set ?Rp" if X: "is_clique e X" "X \<subseteq> fst ` set R" for X
      proof (cases "v \<in> X")
        case True
        have "x \<in> fst ` set ?Rp" if "x \<in> X - {v}" for x
        proof -
          have "adj e v x" using X(1) True that by (auto simp: is_clique_def)
          moreover have "x \<in> fst ` set B" using X(2) that unfolding fR by auto
          ultimately show ?thesis by force
        qed
        then show ?thesis using True by blast
      next
        case False
        then show ?thesis using X(2) unfolding fR by auto
      qed
      have go_on: ?thesis
        if call: "expand_loop Ch e maxStep R s = expand_loop Ch e maxStep B s4" and s4: "mc_ok sz e s4" "QQ s4 = QQ s"
          and mono: "length (QMAX s) \<le> length (QMAX s4)" "pk s \<le> pk s4"
          and with_v: "pk s4 \<le> maxStep \<Longrightarrow> \<forall>X. is_clique e X \<and> X \<subseteq> fst ` set ?Rp \<longrightarrow> length (QQ s) + 1 + card X \<le> length (QMAX s4)" for s4
      proof -
        have "bounded e (int (length (QMAX s4)) - int (length (QQ s4))) B" using bB mono(1) s4(2) by simp
        then obtain s' where s': "expand_loop Ch e maxStep B s4 = Some s'" "searched sz e maxStep B s4 s'"
          using less.hyps [of B s4] lR s4 cB by auto
        note S = s'(2) [unfolded searched_def]
        have "length (QQ s) + card X \<le> length (QMAX s')" if X: "is_clique e X" "X \<subseteq> fst ` set R" "X \<noteq> {}" and pk: "pk s' \<le> maxStep" for X
        proof (cases "X \<subseteq> fst ` set B")
          case True
          then show ?thesis using S X pk s4(2) by auto
        next
          case False
          then have v: "v \<in> X" "X - {v} \<subseteq> fst ` set ?Rp" using split [OF X(1,2)] by auto
          have "is_clique e (X - {v})" using X(1) by (auto simp: is_clique_def)
          then have "length (QQ s) + 1 + card (X - {v}) \<le> length (QMAX s4)" using with_v S pk v(2) by auto
          moreover have "finite X" using X(2) finite_subset by auto
          then have "card X = Suc (card (X - {v}))" using card_Suc_Diff1 [OF _ v(1)] by simp
          ultimately show ?thesis using S by simp
        qed
        then show ?thesis using call s'(1) S s4(2) mono by (auto simp: searched_def)
      qed
      show ?thesis
      proof (cases "?Rp = []")
        case empty: True
        define s4 where "s4 = (if Suc (length (QQ s)) > length (QMAX s) then s\<lparr>QMAX := QQ s @ [v]\<rparr> else s)"
        show ?thesis
        proof (rule go_on [of s4])
          have cut': "cut2 e R = Some []" using cut empty by simp
          show "expand_loop Ch e maxStep R s = expand_loop Ch e maxStep B s4"
            using R d(1) True room cut' by (subst expand_loop.simps) (simp add: Let_def v_def [symmetric] B_def [symmetric] s4_def)
          have "\<forall>x \<in> set (QQ s). adj e x v" using K R(1) by (simp add: v_def)
          then show "mc_ok sz e s4" using M K fR lens(2) unfolding s4_def mc_ok_def by (auto simp: sorted_wrt_append)
          show "\<forall>X. is_clique e X \<and> X \<subseteq> fst ` set ?Rp \<longrightarrow> length (QQ s) + 1 + card X \<le> length (QMAX s4)"
            unfolding arg_cong [OF empty, of set] by (auto simp: s4_def)
        qed (auto simp: s4_def)
      next
        case ne: False
        then have B: "B \<noteq> []" by auto
        have lv: "1 \<le> level ?s1" "level ?s1 < sz" using M lens(1) B by (cases B; simp)+
        have lRp: "length ?Rp < sz" "\<forall>u \<in> set ?Rp. fst u < sz" unfolding length_map using lens(1) length_filter_le [of "\<lambda>u. adj e v (fst u)" B] by linarith (use lens(3) in auto)
        obtain R' C S where dn: "expand_down Ch e ?Rp ?s1 = Some (R', ?s1\<lparr>pk := pk ?s1 + 1, CC := C, SS := S, level := level ?s1 + 1\<rparr>)"
          "length C = sz + 1" "length S = sz + 1" "mset (map fst R') = mset (map fst ?Rp)"
          "bounded e (int (length (QMAX ?s1)) - int (length (QQ ?s1))) R'"
          by (rule expand_down_ok [OF g lRp(2) _ _ lv lRp(1) ne]) (use M in auto)
        define s2 where "s2 = ?s1\<lparr>pk := pk ?s1 + 1, CC := C, SS := S, level := level ?s1 + 1\<rparr>"
        have "mc_ok sz e s2" using M dn(2,3) by (simp add: s2_def mc_ok_def)
        moreover have "mset (map fst R') = mset (map fst (filter (\<lambda>u. adj e (fst (last R)) (fst u)) (butlast R)))"
          using dn(4) by (simp add: v_def B_def comp_def)
        then have "cands_ok sz e (QQ s2) R'" using cands_cut [OF less.prems(2) R(1)] by (simp add: s2_def v_def)
        moreover have "length R' = length ?Rp" using arg_cong [OF dn(4), of size] unfolding size_mset length_map .
        then have "length R' < length R" using length_filter_le [of "\<lambda>u. adj e v (fst u)" B] lR unfolding length_map by linarith
        moreover have "bounded e (int (length (QMAX s2)) - int (length (QQ s2))) R'" using dn(5) by (simp add: s2_def)
        ultimately obtain s3 where s3: "expand_loop Ch e maxStep R' s2 = Some s3" "searched sz e maxStep R' s2 s3"
          using less.hyps by blast
        note S3 = s3(2) [unfolded searched_def]
        define s4 where "s4 = s3\<lparr>level := level s3 - 1, QQ := butlast (QQ s3)\<rparr>"
        have q4: "QQ s3 = QQ s @ [v]" "QMAX s4 = QMAX s3" "pk s4 = pk s3" "QQ s4 = QQ s" using S3 by (simp_all add: s2_def s4_def)
        have fRp: "fst ` set R' = fst ` set ?Rp" using dn(4) by (metis list.set_map set_mset_mset)
        show ?thesis
        proof (rule go_on [of s4])
          show "expand_loop Ch e maxStep R s = expand_loop Ch e maxStep B s4"
            using R d(1) True room cut ne dn(1) [folded s2_def] s3(1)
            by (subst expand_loop.simps) (simp add: Let_def v_def [symmetric] B_def [symmetric] s4_def)
          show "mc_ok sz e s4" using S3 q4 by (auto simp: mc_ok_def s4_def)
          show "QQ s4 = QQ s" "length (QMAX s) \<le> length (QMAX s4)" "pk s \<le> pk s4" using S3 q4 by (simp_all add: s2_def)
          show "\<forall>X. is_clique e X \<and> X \<subseteq> fst ` set ?Rp \<longrightarrow> length (QQ s) + 1 + card X \<le> length (QMAX s4)" if pk: "pk s4 \<le> maxStep"
          proof (intro allI impI)
            fix X assume X: "is_clique e X \<and> X \<subseteq> fst ` set ?Rp"
            have all: "length (QQ s) + 1 + card Y \<le> length (QMAX s4)" if "is_clique e Y" "Y \<subseteq> fst ` set ?Rp" "Y \<noteq> {}" for Y
              using S3 that pk q4 fRp by (auto simp: s2_def)
            show "length (QQ s) + 1 + card X \<le> length (QMAX s4)"
            proof (cases "X = {}")
              case True
              obtain u us where "?Rp = u # us" using ne by (cases ?Rp) auto
              then have "{fst u} \<subseteq> fst ` set ?Rp" by simp
              then show ?thesis using all [of "{fst u}"] True by (simp add: is_clique_def)
            qed (use all X in blast)
          qed
        qed
      qed
    qed
  qed
qed

lemma degree_bounds_clique:
  assumes "is_clique e X" "X \<subseteq> fst ` set vs" "\<forall>v \<in> set vs. int (length (filter (\<lambda>u. adj e (fst v) (fst u)) us)) \<le> m"
    "fst ` set vs \<subseteq> fst ` set us" "0 \<le> m"
  shows "int (card X) \<le> m + 1"
proof (cases "X = {}")
  case False
  then obtain v where v: "v \<in> set vs" "fst v \<in> X" using assms(2) by fastforce
  let ?N = "filter (\<lambda>u. adj e (fst v) (fst u)) us"
  have "X - {fst v} \<subseteq> set (map fst ?N)"
  proof
    fix x assume x: "x \<in> X - {fst v}"
    then have "adj e (fst v) x" using assms(1) v(2) by (auto simp: is_clique_def)
    moreover obtain u where "u \<in> set us" "fst u = x" using x assms(2,4) by (metis DiffD1 imageE subsetD)
    ultimately show "x \<in> set (map fst ?N)" by auto
  qed
  then have "card (X - {fst v}) \<le> card (set (map fst ?N))" by (intro card_mono) auto
  also have "\<dots> \<le> length ?N" using card_length [of "map fst ?N"] by (simp only: length_map)
  finally have "int (card (X - {fst v})) \<le> m" using assms(3) v(1) by fastforce
  moreover have "finite X" using finite_subset [OF assms(2)] by simp
  then have "card X = Suc (card (X - {fst v}))" using card_Suc_Diff1 [OF _ v(2)] by simp
  ultimately show ?thesis by simp
qed (use assms(5) in simp)

lemma init_colors_ok:
  assumes "ws \<noteq> []" "mset (map fst ws) = mset (map fst vs)"
    "\<forall>w \<in> set ws. snd w = Some (int (length (filter (\<lambda>v. adj e (fst w) (fst v)) vs)))"
    "sorted_wrt (\<lambda>x y. the (snd x) \<ge> the (snd y)) ws"
  obtains us where "init_colors ws = Some us" "map fst us = map fst ws" "bounded e 0 us"
proof -
  define m where "m = int (length (filter (\<lambda>v. adj e (fst (ws ! 0)) (fst v)) vs))"
  have m: "snd (ws ! 0) = Some m" "0 \<le> m" using assms(1,3) by (simp_all add: m_def)
  have lens: "length vs = length ws" using arg_cong [OF assms(2), of size] by simp
  have ml: "m \<le> int (length ws)" unfolding m_def lens [symmetric] of_nat_le_iff by (rule length_filter_le)
  define dd where "dd i = (if int i < m then int i + 1 else m + 1)" for i
  let ?us = "map (\<lambda>i. (fst (ws ! i), Some (dd i))) [0..<length ws]"
  have call: "init_colors ws = Some ?us" using assms(1) m(1) ml by (simp add: init_colors_def dd_def)
  have fst: "map fst ?us = map fst ws" by (rule nth_equalityI) simp_all
  have sub: "fst ` set ws = fst ` set vs" using assms(2) by (metis list.set_map set_mset_mset)
  have deg: "int (length (filter (\<lambda>u. adj e (fst w) (fst u)) vs)) \<le> m" if w: "w \<in> set ws" for w
  proof -
    obtain i where i: "i < length ws" "ws ! i = w" using w by (metis in_set_conv_nth)
    have "the (snd (ws ! i)) \<le> the (snd (ws ! 0))"
      using assms(4) i(1) by (cases "i = 0") (auto simp: sorted_wrt_iff_nth_less)
    then show ?thesis using m(1) assms(3) w i by simp
  qed
  have bnd: "int (card X) \<le> dd i" if i: "i < length ws" and X: "is_clique e X" "X \<subseteq> fst ` set (take (Suc i) ?us)" for i X
  proof -
    have "fst ` set (take (Suc i) ?us) = set (take (Suc i) (map fst ws))" using fst by (metis list.set_map take_map)
    then have Xs: "X \<subseteq> set (take (Suc i) (map fst ws))" using X(2) by simp
    have "card X \<le> card (set (take (Suc i) (map fst ws)))" using Xs by (intro card_mono) auto
    also have "\<dots> \<le> Suc i" using card_length [of "take (Suc i) (map fst ws)"] by simp
    finally have "int (card X) \<le> int i + 1" by simp
    moreover have "X \<subseteq> fst ` set ws" using Xs set_take_subset [of "Suc i" "map fst ws"] by auto
    then have "int (card X) \<le> m + 1" using degree_bounds_clique [OF X(1) _ _ _ m(2), of ws vs] deg sub by simp
    ultimately show ?thesis by (simp add: dd_def)
  qed
  have "bounded e 0 ?us"
    unfolding bounded_def
  proof (intro exI [of _ "0 :: nat"] conjI allI impI)
    show "\<exists>d. snd (?us ! i) = Some d \<and> (\<forall>X. is_clique e X \<and> X \<subseteq> fst ` set (take (Suc i) ?us) \<longrightarrow> int (card X) \<le> d)"
      if "0 \<le> i \<and> i < length ?us" for i
      using that bnd [of i] by (intro exI [of _ "dd i"]) simp
  qed simp_all
  then show ?thesis using that call fst by blast
qed

text \<open>
  The search never leaves its arrays and never reads a degree that was not written. It returns a
  clique, and a largest one unless the step limit was hit.
\<close>

lemma mcq_run_ok:
  assumes g: "graph_ok e sz" and sz: "0 < sz"
  obtains s where "mcq_run Ch e sz maxStep = Some s" "sorted_wrt (adj e) (QMAX s)" "distinct (QMAX s)" "\<forall>v \<in> set (QMAX s). v < sz"
    "pk s \<le> maxStep \<longrightarrow> (\<forall>X. is_clique e X \<and> X \<subseteq> {..<sz} \<longrightarrow> card X \<le> length (QMAX s))"
proof -
  let ?V = "map (\<lambda>i. (i, None :: int option)) [0..<sz]"
  have fV: "map fst ?V = [0..<sz]" by (simp add: comp_def)
  have inV: "\<forall>v \<in> set ?V. fst v < sz" by auto
  obtain ws where ws: "degree_sort Ch 0 e ?V = Some ws" "mset (map fst ws) = mset (map fst ?V)"
      "\<forall>w \<in> set ws. snd w = Some (int (length (filter (\<lambda>v. adj e (fst w) (fst v)) ?V)))"
      "sorted_wrt (\<lambda>x y. the (snd x) \<ge> the (snd y)) ws"
    using degree_sort_ok [OF g inV, of Ch 0] by blast
  have len: "length ws = sz" using arg_cong [OF ws(2), of size] by simp
  then have "ws \<noteq> []" using sz by auto
  then obtain us where us: "init_colors ws = Some us" "map fst us = map fst ws" "bounded e 0 us"
    using init_colors_ok [OF _ ws(2-4)] by blast
  obtain s0 where s0: "mc_new sz = Some s0" "level s0 = 1" "QMAX s0 = []" "QQ s0 = []" "length (CC s0) = sz + 1" "length (SS s0) = sz + 1" "mc_sz s0 = sz"
    using sz by (simp add: mc_new_def)
  obtain S where S: "step_enter s0 = Some (s0\<lparr>SS := S\<rparr>)" "length S = length (SS s0)"
    using step_enter_ok [of s0] s0 sz by auto
  let ?s = "s0\<lparr>SS := S\<rparr>"
  have mus: "mset (map fst us) = mset [0..<sz]" unfolding us(2) ws(2) fV by (rule refl)
  have fus: "set (map fst us) = {..<sz}" unfolding mset_eq_setD [OF mus] by auto
  have fus': "distinct (map fst us)" "length us = sz"
    using mset_eq_imp_distinct_iff [OF mus] arg_cong [OF mus, of size] by simp_all
  have "mc_ok sz e ?s" using s0 S(2) by (simp add: mc_ok_def)
  moreover have "cands_ok sz e (QQ ?s) us" using s0(4) fus fus' unfolding cands_ok_def by auto
  ultimately obtain s where s: "expand_loop Ch e maxStep us ?s = Some s" "searched sz e maxStep us ?s s"
    using expand_loop_ok [OF g, of ?s us] us(3) s0 by auto
  have "mcq_run Ch e sz maxStep = Some s" using s0(1) ws(1) us(1) S(1) s(1) by (simp add: mcq_run_def)
  moreover have "card X \<le> length (QMAX s)" if "pk s \<le> maxStep" "is_clique e X" "X \<subseteq> {..<sz}" for X
    using s(2) that fus s0 by (cases "X = {}") (auto simp: searched_def)
  ultimately show ?thesis using that s(2) by (auto simp: searched_def mc_ok_def)
qed

end
