(* ===== verification/Eval_Exact.thy ===== *)
theory Eval_Exact
  imports Eval_Heuristics Max_Clique
begin

text \<open>
  \<open>adapt_am1_exact\<close>: a graph on the soft literals with an edge between two literals that exclude
  each other by unit propagation, and repeated extraction of large cliques from it. The graph is the
  matrix \<open>conn\<close>; the number of vertices is the length of \<open>assumption\<close>.
\<close>

section \<open>The operation\<close>

definition set_conn :: "nat \<Rightarrow> nat \<Rightarrow> bool \<Rightarrow> graph \<Rightarrow> graph" where
  "set_conn i j b conn = conn[i := (conn ! i)[j := b]]"

definition link_lit :: "nat \<Rightarrow> (nat \<Rightarrow> bool) \<Rightarrow> int list \<Rightarrow> int \<Rightarrow> graph \<Rightarrow> graph" where
  "link_lit i ok assumption lit2 conn =
     fold (\<lambda>j c. if ok j \<and> assumption ! j = - lit2 then set_conn j i True (set_conn i j True c) else c)
       [0..<length assumption] conn"

definition link_props :: "nat \<Rightarrow> (nat \<Rightarrow> bool) \<Rightarrow> int list \<Rightarrow> int list \<Rightarrow> graph \<Rightarrow> graph" where
  "link_props i ok assumption props conn = fold (link_lit i ok assumption) props conn"

definition clear_conn :: "nat \<Rightarrow> nat \<Rightarrow> graph \<Rightarrow> graph" where
  "clear_conn i n conn = fold (\<lambda>x c. set_conn x i False (set_conn i x False c)) [0..<n] conn"

text \<open>The first loop: propagate every soft literal, drop the ones that cannot be true.\<close>

function am1_graph :: "engine \<Rightarrow> nat \<Rightarrow> int list \<Rightarrow> graph \<Rightarrow> ems \<Rightarrow> (int list \<times> graph \<times> ems) option" where
  "am1_graph E i assumption conn s =
     (if i < length assumption then
        do { (r, s) \<leftarrow> eval_propagate E [assumption ! i] s;
             case r of
               Some props \<Rightarrow> am1_graph E (i + 1) assumption (link_props i (\<lambda>j. j \<noteq> i) assumption props conn) s
             | None \<Rightarrow>
                 do { s \<leftarrow> addClause_hard [- (assumption ! i)] s;
                      am1_graph E i (butlast (assumption[i := last assumption])) (clear_conn i (length assumption) conn) s } }
      else Some (assumption, conn, s))"
  by pat_completeness auto
termination by (relation "measure (\<lambda>(E, i, as, conn, s). length as - i)") auto

declare am1_graph.simps [simp del]

text \<open>The literals that replace a clique.\<close>

fun am1_replace :: "engine \<Rightarrow> (nat \<times> int) list \<Rightarrow> int list \<Rightarrow> bool list \<Rightarrow> graph \<Rightarrow> ems \<Rightarrow> (int list \<times> bool list \<times> graph \<times> ems) option" where
  "am1_replace E [] assumption active conn s = Some (assumption, active, conn, s)"
| "am1_replace E ((q, lit) # qs) assumption active conn s =
     (let assumption = assumption[q := lit]; active = active[q := True]
      in do { (r, s) \<leftarrow> eval_propagate E [lit] s;
              case r of
                Some props \<Rightarrow> am1_replace E qs assumption active (link_props q (\<lambda>k. active ! k) assumption props conn) s
              | None \<Rightarrow> do { s \<leftarrow> addClause_hard [- lit] s; am1_replace E qs assumption active conn s } })"

partial_function (option) am1_cliques :: "engine \<Rightarrow> choices \<Rightarrow> int list \<Rightarrow> bool list \<Rightarrow> graph \<Rightarrow> ems \<Rightarrow> ems option" where
  [code]: "am1_cliques E Ch assumption active conn s =
     do { qmax \<leftarrow> mcqdyn Ch conn (length assumption) 100000;
          if length qmax \<le> 2 then Some s
          else do { (newAssum, s) \<leftarrow> processAtMostOne (map (\<lambda>q. assumption ! q) qmax) s;
                    if \<not> length qmax \<ge> length newAssum then None
                    else do { (assumption, active, conn, s) \<leftarrow>
                                am1_replace E (zip qmax newAssum) assumption (fold (\<lambda>q a. a[q := False]) qmax active)
                                  (fold (\<lambda>q c. clear_conn q (length assumption) c) qmax conn) s;
                              am1_cliques E Ch assumption active conn s } } }"

definition am1_assumption :: "ems \<Rightarrow> int list option" where
  "am1_assumption s =
     (if list_all (\<lambda>(w, lits). w \<noteq> 0 \<and> list_all (\<lambda>lit. wt (poids s) lit > 0) lits) (mapWeight2Assum s)
      then Some (concat (map snd (mapWeight2Assum s))) else None)"

definition adapt_am1_exact :: "engine \<Rightarrow> choices \<Rightarrow> ems \<Rightarrow> (bool \<times> ems) option" where
  "adapt_am1_exact E Ch s =
     do { assumption \<leftarrow> am1_assumption s;
          if length assumption > 30000 then Some (False, s)
          else
            let n = length assumption
            in do { (assumption, conn, s) \<leftarrow> am1_graph E 0 assumption (replicate n (replicate n False)) s;
                    if assumption = [] then Some (True, s)
                    else do { s \<leftarrow> am1_cliques E Ch assumption (replicate (length assumption) True) conn s; Some (True, s) } } }"

definition extractAM :: "engine \<Rightarrow> choices \<Rightarrow> ems \<Rightarrow> ems option" where
  "extractAM E Ch s = do { (b, s) \<leftarrow> adapt_am1_exact E Ch s; (n, s) \<leftarrow> adapt_am1_FastHeuristicV7 E s; Some s }"

section \<open>The graph\<close>

definition cl_inv :: "ems \<Rightarrow> int list \<Rightarrow> bool list \<Rightarrow> graph \<Rightarrow> bool" where
  "cl_inv s as active conn = (graph_ok conn (length as) \<and> length active = length as \<and>
     (\<forall>a < length as. active ! a \<longrightarrow> lit_upto (nv s) (as ! a) \<and> (0 < wt (poids s) (as ! a) \<or> [- (as ! a)] \<in> cls s)) \<and>
     (\<forall>a < length as. \<forall>b < length as. active ! a \<and> active ! b \<and> a \<noteq> b \<longrightarrow> as ! a \<noteq> as ! b) \<and>
     (\<forall>a < length as. \<forall>b < length as. adj conn a b \<longrightarrow> active ! a \<and> active ! b \<and> a \<noteq> b \<and> adj conn b a \<and>
        0 < wt (poids s) (as ! a) \<and> excl (cls s) (as ! a) (as ! b)))"

lemma cl_invD:
  assumes "cl_inv s as active conn"
  shows "graph_ok conn (length as)" "length active = length as"
    "a < length as \<Longrightarrow> active ! a \<Longrightarrow> lit_upto (nv s) (as ! a)"
    "a < length as \<Longrightarrow> active ! a \<Longrightarrow> 0 < wt (poids s) (as ! a) \<or> [- (as ! a)] \<in> cls s"
    "a < length as \<Longrightarrow> b < length as \<Longrightarrow> active ! a \<Longrightarrow> active ! b \<Longrightarrow> a \<noteq> b \<Longrightarrow> as ! a \<noteq> as ! b"
    "a < length as \<Longrightarrow> b < length as \<Longrightarrow> adj conn a b \<Longrightarrow> active ! a \<and> active ! b \<and> a \<noteq> b \<and> adj conn b a \<and>
        0 < wt (poids s) (as ! a) \<and> excl (cls s) (as ! a) (as ! b)"
  using assms unfolding cl_inv_def by blast+

lemma excl_sym: "excl F x y \<Longrightarrow> excl F y x"
  by (auto simp: excl_def)

lemma set_conn_ok:
  assumes "graph_ok conn n" "i < n" "j < n"
  shows "graph_ok (set_conn i j b conn) n"
    "\<And>x y. x < n \<Longrightarrow> y < n \<Longrightarrow> adj (set_conn i j b conn) x y = (if x = i \<and> y = j then b else adj conn x y)"
proof -
  have i: "i < length conn" "n \<le> length (conn ! i)" using assms by (auto simp: graph_ok_def)
  show "graph_ok (set_conn i j b conn) n"
    unfolding graph_ok_def set_conn_def
  proof (intro allI impI)
    fix x assume "x < n"
    then show "x < length (conn[i := (conn ! i)[j := b]]) \<and> n \<le> length (conn[i := (conn ! i)[j := b]] ! x)"
      using assms(1) i by (cases "x = i") (auto simp: graph_ok_def)
  qed
  show "adj (set_conn i j b conn) x y = (if x = i \<and> y = j then b else adj conn x y)" if "x < n" "y < n" for x y
    using i that by (cases "x = i") (auto simp: adj_def set_conn_def nth_list_update)
qed

lemma cl_inv_edge:
  assumes inv: "cl_inv s as active conn" and ij: "i < length as" "j < length as" "i \<noteq> j" "active ! i" "active ! j"
    and w: "0 < wt (poids s) (as ! i)" "0 < wt (poids s) (as ! j)" "excl (cls s) (as ! i) (as ! j)"
  shows "cl_inv s as active (set_conn j i True (set_conn i j True conn))"
proof -
  note I = cl_invD [OF inv]
  note S1 = set_conn_ok [OF I(1) ij(1,2), where b = True]
  note S2 = set_conn_ok [OF S1(1) ij(2,1), where b = True]
  show ?thesis
    unfolding cl_inv_def
  proof (intro conjI allI impI)
    fix a b
    assume ab: "a < length as" "b < length as" "adj (set_conn j i True (set_conn i j True conn)) a b"
    consider "a = j" "b = i" | "a = i" "b = j" | "adj conn a b"
      using ab S1(2) [OF ab(1,2)] S2(2) [OF ab(1,2)] by (auto split: if_splits)
    then show "active ! a" "active ! b" "a \<noteq> b" "adj (set_conn j i True (set_conn i j True conn)) b a"
        "0 < wt (poids s) (as ! a)" "excl (cls s) (as ! a) (as ! b)"
      using ij w excl_sym [OF w(3)] I(6) [OF ab(1,2)] S1(2) [OF ab(2,1)] S2(2) [OF ab(2,1)] by (cases; auto)+
  qed (use I S2(1) in blast)+
qed

lemma link_props_inv:
  assumes inv: "cl_inv s as active conn" and i: "i < length as" "active ! i" "0 < wt (poids s) (as ! i)"
    and ok: "\<And>j. j < length as \<Longrightarrow> ok j \<Longrightarrow> active ! j" and p: "propagated s (as ! i) (Some ps)"
  shows "cl_inv s as active (link_props i ok as ps conn)"
proof -
  have edge: "cl_inv s as active (set_conn j i True (set_conn i j True c))"
    if c: "cl_inv s as active c" and j: "j < length as" "ok j" "as ! j = - x" and x: "x \<in> set ps" for c j x
  proof -
    have P: "lit_upto (nv s) x" "- x \<noteq> as ! i" "[x] \<notin> cls s" "\<And>\<sigma>. sat_all \<sigma> (cls s) \<Longrightarrow> lit_true \<sigma> (as ! i) \<Longrightarrow> lit_true \<sigma> x"
      using p x by (auto simp: propagated_def)
    have a: "active ! j" using ok j by blast
    have "0 < wt (poids s) (as ! j)" using cl_invD(4) [OF c j(1) a] j(3) P(3) by auto
    moreover have "excl (cls s) (as ! i) (as ! j)" using P(1,4) j(3) by (auto simp: excl_def)
    moreover have "i \<noteq> j" using P(2) j(3) by auto
    ultimately show ?thesis using cl_inv_edge [OF c i(1) j(1) _ i(2) a i(3)] by blast
  qed
  have lit: "cl_inv s as active (link_lit i ok as x c)" if "cl_inv s as active c" "x \<in> set ps" for x c
  proof -
    have "cl_inv s as active (fold (\<lambda>j c. if ok j \<and> as ! j = - x then set_conn j i True (set_conn i j True c) else c) js c)"
      if "\<forall>j \<in> set js. j < length as" "cl_inv s as active c" for js c
      using that edge [OF _ _ _ _ \<open>x \<in> set ps\<close>] by (induction js arbitrary: c) auto
    then show ?thesis using that(1) by (simp add: link_lit_def)
  qed
  have "cl_inv s as active (fold (link_lit i ok as) xs c)" if "set xs \<subseteq> set ps" "cl_inv s as active c" for xs c
    using that lit by (induction xs arbitrary: c) auto
  then show ?thesis using inv by (simp add: link_props_def)
qed

lemma clear_conn_ok:
  assumes "graph_ok conn n" "i < n"
  shows "graph_ok (clear_conn i n conn) n"
    "\<And>x y. x < n \<Longrightarrow> y < n \<Longrightarrow> adj (clear_conn i n conn) x y = (x \<noteq> i \<and> y \<noteq> i \<and> adj conn x y)"
proof -
  let ?f = "\<lambda>x c. set_conn x i False (set_conn i x False c)"
  have gen: "graph_ok (fold ?f xs c) n \<and> (\<forall>a < n. \<forall>b < n. adj (fold ?f xs c) a b = (\<not> (a = i \<and> b \<in> set xs) \<and> \<not> (b = i \<and> a \<in> set xs) \<and> adj c a b))"
    if "\<forall>x \<in> set xs. x < n" "graph_ok c n" for xs c
    using that
  proof (induction xs arbitrary: c)
    case (Cons x xs)
    have x: "x < n" using Cons.prems(1) by simp
    note S1 = set_conn_ok [OF Cons.prems(2) assms(2) x, where b = False]
    note S2 = set_conn_ok [OF S1(1) x assms(2), where b = False]
    show ?case using Cons.IH [OF _ S2(1)] Cons.prems(1) S1(2) S2(2) by auto
  qed simp
  have "\<forall>x \<in> set [0..<n]. x < n" by simp
  note F = gen [OF this assms(1), folded clear_conn_def]
  show "graph_ok (clear_conn i n conn) n" using F by blast
  show "adj (clear_conn i n conn) x y = (x \<noteq> i \<and> y \<noteq> i \<and> adj conn x y)" if "x < n" "y < n" for x y
    using F that by auto
qed

text \<open>Removing a vertex by overwriting it with the last one, and clearing vertices of a clique.\<close>

lemma cl_inv_clear:
  assumes "cl_inv s as active conn" "i < length as"
  shows "cl_inv s as active (clear_conn i (length as) conn)"
  using assms clear_conn_ok [OF cl_invD(1) [OF assms(1)] assms(2)] unfolding cl_inv_def by auto

lemma cl_inv_state:
  assumes inv: "cl_inv s as active conn" and "nv s \<le> nv s'" "cls s \<subseteq> cls s'"
    and w: "\<And>a. a < length as \<Longrightarrow> active ! a \<Longrightarrow> 0 < wt (poids s) (as ! a) \<Longrightarrow> 0 < wt (poids s') (as ! a)"
  shows "cl_inv s' as active conn"
proof -
  note I = cl_invD [OF inv]
  have ex: "excl (cls s) x y \<Longrightarrow> excl (cls s') x y" for x y
    using sat_all_mono [OF _ assms(3)] unfolding excl_def by blast
  show ?thesis
    unfolding cl_inv_def
  proof (intro conjI allI impI)
    fix a assume a: "a < length as" "active ! a"
    show "lit_upto (nv s') (as ! a)" using I(3) [OF a] assms(2) lit_upto_mono by blast
    show "0 < wt (poids s') (as ! a) \<or> [- (as ! a)] \<in> cls s'" using I(4) [OF a] w [OF a] assms(3) by blast
  next
    fix a b assume ab: "a < length as" "b < length as" "adj conn a b"
    note J = I(6) [OF ab]
    show "active ! a" "active ! b" "a \<noteq> b" "adj conn b a" "0 < wt (poids s') (as ! a)" "excl (cls s') (as ! a) (as ! b)"
      using J w ab(1) ex by blast+
  qed (use I(1,2,5) in blast)+
qed

lemma graph_ok_mono: "graph_ok e n \<Longrightarrow> m \<le> n \<Longrightarrow> graph_ok e m"
  unfolding graph_ok_def by (meson le_trans less_le_trans)

lemma cl_inv_drop:
  assumes inv: "cl_inv s as (replicate (length as) True) conn" and i: "i < length as"
  defines "as' \<equiv> butlast (as[i := last as])"
  shows "cl_inv s as' (replicate (length as') True) (clear_conn i (length as) conn)"
proof -
  note I = cl_invD [OF inv] and C = clear_conn_ok [OF cl_invD(1) [OF inv] i]
  let ?n = "length as" let ?r = "\<lambda>a. if a = i then ?n - 1 else a"
  have l': "length as' = ?n - 1" by (simp add: as'_def)
  have lst: "last as = as ! (?n - 1)" using i by (intro last_conv_nth) auto
  have nth: "as' ! a = as ! ?r a" "?r a < ?n" if "a < length as'" for a
    using that i l' lst by (auto simp: as'_def nth_butlast nth_list_update)
  have inj: "?r a \<noteq> ?r b" if "a < length as'" "b < length as'" "a \<noteq> b" for a b using that l' by auto
  have T: "replicate ?n True ! a" if "a < ?n" for a using that by simp
  show ?thesis
    unfolding cl_inv_def
  proof (intro conjI allI impI)
    show "graph_ok (clear_conn i ?n conn) (length as')" using graph_ok_mono [OF C(1)] l' by simp
    fix a assume a: "a < length as'"
    show "lit_upto (nv s) (as' ! a)" "0 < wt (poids s) (as' ! a) \<or> [- (as' ! a)] \<in> cls s"
      using I(3,4) [OF nth(2) [OF a] T [OF nth(2) [OF a]]] nth(1) [OF a] by auto
    fix b assume b: "b < length as'"
    show "as' ! a \<noteq> as' ! b" if "replicate (length as') True ! a \<and> replicate (length as') True ! b \<and> a \<noteq> b"
      using I(5) [OF nth(2) [OF a] nth(2) [OF b] T [OF nth(2) [OF a]] T [OF nth(2) [OF b]] inj [OF a b]] nth(1) [OF a] nth(1) [OF b] that by auto
    assume ad: "adj (clear_conn i ?n conn) a b"
    have ab: "a < ?n" "b < ?n" using a b l' by auto
    have "a \<noteq> i" "b \<noteq> i" "adj conn a b" using C(2) [OF ab] ad by auto
    then show "replicate (length as') True ! a" "replicate (length as') True ! b" "a \<noteq> b" "adj (clear_conn i ?n conn) b a"
        "0 < wt (poids s) (as' ! a)" "excl (cls s) (as' ! a) (as' ! b)"
      using I(6) [OF ab] C(2) [OF ab(2,1)] nth(1) [OF a] nth(1) [OF b] a b by auto
  qed simp
qed

lemma am1_graph_ok:
  assumes E: "engine_ok E"
  shows "base_inv s \<Longrightarrow> weights_inv W s \<Longrightarrow> cl_inv s as (replicate (length as) True) conn \<Longrightarrow> \<forall>l \<in> set as. 0 < wt (poids s) l \<Longrightarrow>
    \<exists>as' conn' s'. am1_graph E i as conn s = Some (as', conn', s') \<and> evolves W s s' \<and> cl_inv s' as' (replicate (length as') True) conn'"
proof (induction "length as - i" arbitrary: i as conn s)
  case 0
  then show ?case by (subst am1_graph.simps) (simp add: evolves_refl)
next
  case (Suc n)
  then have i: "i < length as" by simp
  let ?l = "as ! i"
  have l: "0 < wt (poids s) ?l" using Suc.prems(4) i by simp
  obtain r s1 where r: "eval_propagate E [?l] s = Some (r, s1)" "queried s s1" "propagated s1 ?l r"
    using eval_propagate_ok [OF E Suc.prems(1)] by blast
  note Q = queried_fields [OF r(2)]
  have s1: "base_inv s1" "weights_inv W s1" "evolves W s s1" "\<forall>l \<in> set as. 0 < wt (poids s1) l" "0 < wt (poids s1) ?l"
    using queried_base [OF r(2) Suc.prems(1)] queried_ok(4) [OF r(2)] Suc.prems(2,4) queried_evolves [OF r(2) Suc.prems(1,2)] Q(3) l by simp_all
  have c1: "cl_inv s1 as (replicate (length as) True) conn" using cl_inv_state [OF Suc.prems(3)] Q(1-3) by simp
  show ?case
  proof (cases r)
    case (Some ps)
    have "cl_inv s1 as (replicate (length as) True) (link_props i (\<lambda>j. j \<noteq> i) as ps conn)"
      using i s1(5) r(3) Some by (intro link_props_inv [OF c1]) simp_all
    moreover have "n = length as - (i + 1)" using Suc.hyps(2) by simp
    ultimately obtain as' conn' s' where "am1_graph E (i + 1) as (link_props i (\<lambda>j. j \<noteq> i) as ps conn) s1 = Some (as', conn', s')" "evolves W s1 s'"
        "cl_inv s' as' (replicate (length as') True) conn'"
      using Suc.hyps(1) [OF _ s1(1,2) _ s1(4)] by blast
    then show ?thesis using i r(1) Some evolves_trans [OF s1(3)] by (subst am1_graph.simps) auto
  next
    case None
    obtain s2 where s2: "addClause_hard [- ?l] s1 = Some s2" "evolves W s1 s2" "cost s1 < cost s2" "settled [- ?l] s1 s2" "[- ?l] \<in> cls s2"
      by (rule impossible_ok [OF s1(1,2,5) r(3) [unfolded None]]) (rule that)
    let ?as = "butlast (as[i := last as])"
    have nonempty: "as \<noteq> []" using i by auto
    have sub: "x \<in> set as \<and> x \<noteq> ?l" if x: "x \<in> set ?as" for x
    proof -
      obtain a where a: "a < length as - 1" "x = (as[i := last as]) ! a" using x by (metis in_set_conv_nth length_butlast length_list_update nth_butlast)
      have ne: "as ! b \<noteq> ?l" if "b < length as" "b \<noteq> i" for b using cl_invD(5) [OF c1 that(1) i] that i by simp
      show ?thesis
        using a i ne [of a] ne [of "length as - 1"] last_conv_nth [OF nonempty] last_in_set [OF nonempty] by (cases "a = i") auto
    qed
    have keep: "wt (poids s2) x = wt (poids s1) x" if "0 < wt (poids s1) x" "x \<noteq> ?l" for x
      using s2(4) soft_distinct [OF s1(1,5) that] soft_upto(2) [OF s1(1), of x] that(1) by (auto simp: settled_def)
    then have pos: "\<forall>x \<in> set ?as. 0 < wt (poids s2) x" using sub s1(4) by simp
    have le: "nv s1 \<le> nv s2" "cls s1 \<subseteq> cls s2" using evolvesD(3) [OF s2(2)] by (auto simp: sim_def)
    have "cl_inv s2 ?as (replicate (length ?as) True) (clear_conn i (length as) conn)"
      using cl_inv_state [OF cl_inv_drop [OF c1 i] le] pos by simp
    moreover have "n = length ?as - i" using Suc.hyps(2) by simp
    ultimately obtain as' conn' s' where "am1_graph E i ?as (clear_conn i (length as) conn) s2 = Some (as', conn', s')" "evolves W s2 s'"
        "cl_inv s' as' (replicate (length as') True) conn'"
      using Suc.hyps(1) [OF _ evolvesD(1,2) [OF s2(2)] _ pos] by blast
    then show ?thesis
      using i r(1) None s2(1) evolves_trans [OF s1(3) evolves_trans [OF s2(2)]] by (subst am1_graph.simps) auto
  qed
qed

section \<open>Replacing a clique\<close>

lemma cl_inv_deactivate:
  assumes inv: "cl_inv s as active conn" and i: "i < length as"
  shows "cl_inv s as (active[i := False]) (clear_conn i (length as) conn)"
proof -
  note I = cl_invD [OF inv] and C = clear_conn_ok [OF cl_invD(1) [OF inv] i]
  have act: "active[i := False] ! a = (a \<noteq> i \<and> active ! a)" if "a < length as" for a
    using that I(2) i by (auto simp: nth_list_update)
  show ?thesis
    unfolding cl_inv_def
  proof (intro conjI allI impI)
    fix a assume a: "a < length as"
    show "lit_upto (nv s) (as ! a)" "0 < wt (poids s) (as ! a) \<or> [- (as ! a)] \<in> cls s" if "active[i := False] ! a"
      using I(3,4) [OF a] that act [OF a] by auto
    fix b assume b: "b < length as"
    show "as ! a \<noteq> as ! b" if "active[i := False] ! a \<and> active[i := False] ! b \<and> a \<noteq> b"
      using I(5) [OF a b] that act [OF a] act [OF b] by blast
    assume "adj (clear_conn i (length as) conn) a b"
    then have ad: "a \<noteq> i" "b \<noteq> i" "adj conn a b" using C(2) [OF a b] by auto
    note J = I(6) [OF a b ad(3)]
    show "active[i := False] ! a" "active[i := False] ! b" "a \<noteq> b" "adj (clear_conn i (length as) conn) b a"
        "0 < wt (poids s) (as ! a)" "excl (cls s) (as ! a) (as ! b)"
      using J ad act [OF a] act [OF b] C(2) [OF b a] by auto
  qed (use C(1) I(2) in simp_all)
qed

lemma cl_inv_deactivate_all:
  "cl_inv s as active conn \<Longrightarrow> \<forall>q \<in> set qs. q < length as \<Longrightarrow>
     cl_inv s as (fold (\<lambda>q a. a[q := False]) qs active) (fold (\<lambda>q c. clear_conn q (length as) c) qs conn)"
  by (induction qs arbitrary: active conn) (auto intro: cl_inv_deactivate)

lemma deactivated:
  "a < length active \<Longrightarrow> fold (\<lambda>q a. a[q := False]) qs active ! a = (active ! a \<and> a \<notin> set qs)"
proof (induction qs arbitrary: active)
  case (Cons q qs)
  then show ?case by (cases "q = a") simp_all
qed simp

lemma cl_inv_insert:
  assumes inv: "cl_inv s as active conn" and q: "q < length as" "\<not> active ! q"
    and l: "0 < wt (poids s) l \<or> [- l] \<in> cls s" "lit_upto (nv s) l" "\<And>a. a < length as \<Longrightarrow> active ! a \<Longrightarrow> as ! a \<noteq> l"
  shows "cl_inv s (as[q := l]) (active[q := True]) conn"
proof -
  note I = cl_invD [OF inv]
  have act: "active[q := True] ! a = (a = q \<or> active ! a)" "as[q := l] ! a = (if a = q then l else as ! a)" if "a < length as" for a
    using that I(2) q by (auto simp: nth_list_update)
  show ?thesis
    unfolding cl_inv_def length_list_update
  proof (intro conjI allI impI)
    fix a assume a: "a < length as"
    show "lit_upto (nv s) (as[q := l] ! a)" "0 < wt (poids s) (as[q := l] ! a) \<or> [- (as[q := l] ! a)] \<in> cls s" if "active[q := True] ! a"
      using I(3,4) [OF a] that act [OF a] l by auto
    fix b assume b: "b < length as"
    show "as[q := l] ! a \<noteq> as[q := l] ! b" if "active[q := True] ! a \<and> active[q := True] ! b \<and> a \<noteq> b"
      using I(5) [OF a b] that act [OF a] act [OF b] l(3) [OF a] l(3) [OF b] q(2) by auto
    assume ad: "adj conn a b"
    note J = I(6) [OF a b ad]
    have "a \<noteq> q" "b \<noteq> q" using J q(2) by auto
    then show "active[q := True] ! a" "active[q := True] ! b" "a \<noteq> b" "adj conn b a" "0 < wt (poids s) (as[q := l] ! a)"
        "excl (cls s) (as[q := l] ! a) (as[q := l] ! b)"
      using J act [OF a] act [OF b] by auto
  qed (use I(1,2) in simp_all)
qed

text \<open>What the literals still to be placed satisfy.\<close>

definition new_lits_ok :: "ems \<Rightarrow> int list \<Rightarrow> bool list \<Rightarrow> (nat \<times> int) list \<Rightarrow> bool" where
  "new_lits_ok s as active qs = (distinct (map fst qs) \<and> distinct (map snd qs) \<and>
     (\<forall>(q, l) \<in> set qs. q < length as \<and> \<not> active ! q \<and> 0 < wt (poids s) l \<and> (\<forall>a < length as. active ! a \<longrightarrow> as ! a \<noteq> l)))"

lemma new_lits_next:
  assumes "new_lits_ok s as active ((q, l) # qs)" "length active = length as"
    and "\<And>x. 0 < wt (poids s) x \<Longrightarrow> x \<noteq> l \<Longrightarrow> 0 < wt (poids s') x"
  shows "new_lits_ok s' (as[q := l]) (active[q := True]) qs"
proof -
  have q: "q < length as" using assms(1) by (simp add: new_lits_ok_def)
  have "q' < length as \<and> \<not> active[q := True] ! q' \<and> 0 < wt (poids s') l' \<and> (\<forall>a < length as. active[q := True] ! a \<longrightarrow> as[q := l] ! a \<noteq> l')"
    if m: "(q', l') \<in> set qs" for q' l'
  proof -
    have N: "q' < length as" "\<not> active ! q'" "0 < wt (poids s) l'" "\<forall>a < length as. active ! a \<longrightarrow> as ! a \<noteq> l'"
      using assms(1) m by (auto simp: new_lits_ok_def)
    have ne: "q' \<noteq> q" "l' \<noteq> l" using assms(1) m by (force simp: new_lits_ok_def)+
    then show ?thesis using N assms(2,3) q by (auto simp: nth_list_update)
  qed
  then show ?thesis using assms(1) by (auto simp: new_lits_ok_def)
qed

lemma am1_replace_ok:
  assumes E: "engine_ok E"
  shows "base_inv s \<Longrightarrow> weights_inv W s \<Longrightarrow> cl_inv s as active conn \<Longrightarrow> new_lits_ok s as active qs \<Longrightarrow>
    \<exists>as' active' conn' s'. am1_replace E qs as active conn s = Some (as', active', conn', s') \<and> evolves W s s' \<and>
      cl_inv s' as' active' conn' \<and> length as' = length as"
proof (induction qs arbitrary: as active conn s)
  case Nil
  then show ?case by (simp add: evolves_refl)
next
  case (Cons x qs)
  obtain q l where x: "x = (q, l)" by (cases x)
  note N = Cons.prems(4) [unfolded x]
  have ql: "q < length as" "\<not> active ! q" "0 < wt (poids s) l" "\<And>a. a < length as \<Longrightarrow> active ! a \<Longrightarrow> as ! a \<noteq> l"
    using N by (auto simp: new_lits_ok_def)
  have len: "length active = length as" using cl_invD(2) [OF Cons.prems(3)] .
  obtain r s1 where r: "eval_propagate E [l] s = Some (r, s1)" "queried s s1" "propagated s1 l r"
    using eval_propagate_ok [OF E Cons.prems(1)] by blast
  note Q = queried_fields [OF r(2)]
  have s1: "base_inv s1" "weights_inv W s1" "evolves W s s1" "0 < wt (poids s1) l" "lit_upto (nv s1) l"
    using queried_base [OF r(2) Cons.prems(1)] queried_ok(4) [OF r(2)] Cons.prems(2) queried_evolves [OF r(2) Cons.prems(1,2)] Q(1,3) ql(3)
      soft_upto(3) [OF Cons.prems(1), of l] by simp_all
  let ?as = "as[q := l]" let ?ac = "active[q := True]"
  have c0: "cl_inv s1 as active conn" using cl_inv_state [OF Cons.prems(3)] Q(1-3) by simp
  note c1 = cl_inv_insert [OF c0 ql(1,2) disjI1 [OF s1(4)] s1(5) ql(4)]
  have lq: "?as ! q = l" "q < length ?as" "?ac ! q" using ql(1) len by simp_all
  show ?case
  proof (cases r)
    case (Some ps)
    have "cl_inv s1 ?as ?ac (link_props q (\<lambda>k. ?ac ! k) ?as ps conn)"
      using lq s1(4) r(3) Some by (intro link_props_inv [OF c1]) simp_all
    moreover have "new_lits_ok s1 ?as ?ac qs" using new_lits_next [OF N len] Q(3) by simp
    ultimately obtain as' active' conn' s' where "am1_replace E qs ?as ?ac (link_props q (\<lambda>k. ?ac ! k) ?as ps conn) s1 = Some (as', active', conn', s')"
        "evolves W s1 s'" "cl_inv s' as' active' conn'" "length as' = length ?as"
      using Cons.IH [OF s1(1,2)] by blast
    then show ?thesis using x r(1) Some evolves_trans [OF s1(3)] by (auto simp: Let_def)
  next
    case None
    obtain s2 where s2: "addClause_hard [- l] s1 = Some s2" "evolves W s1 s2" "cost s1 < cost s2" "settled [- l] s1 s2" "[- l] \<in> cls s2"
      by (rule impossible_ok [OF s1(1,2,4) r(3) [unfolded None]]) (rule that)
    have keep: "0 < wt (poids s2) y" if "0 < wt (poids s1) y" "y \<noteq> l" for y
      using s2(4) soft_distinct [OF s1(1,4) that] soft_upto(2) [OF s1(1), of y] that(1) by (auto simp: settled_def)
    have le: "nv s1 \<le> nv s2" "cls s1 \<subseteq> cls s2" using evolvesD(3) [OF s2(2)] by (auto simp: sim_def)
    have "cl_inv s2 ?as ?ac conn"
      using cl_inv_state [OF c0 le keep] ql s2(5) lit_upto_mono [OF s1(5) le(1)] by (intro cl_inv_insert) blast+
    moreover have "new_lits_ok s2 ?as ?ac qs" using new_lits_next [OF N len, of s2] keep Q(3) by simp
    ultimately obtain as' active' conn' s' where "am1_replace E qs ?as ?ac conn s2 = Some (as', active', conn', s')"
        "evolves W s2 s'" "cl_inv s' as' active' conn'" "length as' = length ?as"
      using Cons.IH [OF evolvesD(1,2) [OF s2(2)]] by blast
    then show ?thesis using x r(1) None s2(1) evolves_trans [OF s1(3) evolves_trans [OF s2(2)]] by (auto simp: Let_def)
  qed
qed

section \<open>The extraction loop\<close>

lemma clique_lits:
  assumes inv: "cl_inv s as active conn" and q: "sorted_wrt (adj conn) qs" "distinct qs" "\<forall>q \<in> set qs. q < length as" "2 \<le> length qs"
  shows "distinct (map ((!) as) qs)" "amo (cls s) (map ((!) as) qs)" "\<forall>l \<in> set (map ((!) as) qs). 0 < wt (poids s) l" "\<forall>q \<in> set qs. active ! q"
proof -
  note I = cl_invD [OF inv]
  have edge: "\<exists>b \<in> set qs. adj conn a b \<or> adj conn b a" if a: "a \<in> set qs" for a
  proof -
    obtain i where i: "i < length qs" "qs ! i = a" using a by (metis in_set_conv_nth)
    define j where "j = (if i = 0 then 1 else 0 :: nat)"
    have "j < length qs" "j \<noteq> i" using q(4) by (auto simp: j_def)
    then show ?thesis
      using q(1) i by (intro bexI [of _ "qs ! j"]) (auto simp: sorted_wrt_iff_nth_less j_def split: if_splits)
  qed
  have act: "active ! a \<and> 0 < wt (poids s) (as ! a)" if a: "a \<in> set qs" for a
  proof -
    obtain b where b: "b \<in> set qs" "adj conn a b \<or> adj conn b a" using edge [OF a] by blast
    have ab: "a < length as" "b < length as" using q(3) a b(1) by auto
    have "adj conn a b" using b(2) I(6) [OF ab(2,1)] by blast
    then show ?thesis using I(6) [OF ab] by blast
  qed
  then show "\<forall>l \<in> set (map ((!) as) qs). 0 < wt (poids s) l" "\<forall>q \<in> set qs. active ! q" by auto
  have "a = b" if "a \<in> set qs" "b \<in> set qs" "as ! a = as ! b" for a b
    using I(5) [of a b] act that q(3) by metis
  then show "distinct (map ((!) as) qs)" using q(2) by (auto simp: distinct_map inj_on_def)
  have ex: "excl (cls s) (as ! a) (as ! b)" if "a \<in> set qs" "b \<in> set qs" "adj conn a b" for a b
    using I(6) [of a b] that q(3) by metis
  have "sorted_wrt (\<lambda>a b. excl (cls s) (as ! a) (as ! b)) qs"
    by (rule sorted_wrt_mono_rel [OF _ q(1)]) (rule ex)
  then have "sorted_wrt (excl (cls s)) (map ((!) as) qs)" by (simp add: sorted_wrt_map)
  then show "amo (cls s) (map ((!) as) qs)" by (rule excl_amo)
qed

lemma mcqdyn_ok:
  assumes "graph_ok e n" "0 < n"
  obtains q where "mcqdyn Ch e n m = Some q" "sorted_wrt (adj e) q" "distinct q" "\<forall>v \<in> set q. v < n"
proof -
  obtain s where "mcq_run Ch e n m = Some s" "sorted_wrt (adj e) (QMAX s)" "distinct (QMAX s)" "\<forall>v \<in> set (QMAX s). v < n"
    by (rule mcq_run_ok [OF assms]) (rule that)
  then show ?thesis using that [of "QMAX s"] by (simp add: mcqdyn_def)
qed

lemma am1_round_inv:
  assumes inv: "base_inv s" and c: "cl_inv s as active conn"
    and q: "distinct qs" "\<forall>q \<in> set qs. q < length as" "\<forall>q \<in> set qs. active ! q" "\<forall>l \<in> set (map ((!) as) qs). 0 < wt (poids s) l"
    and s1: "nv s \<le> nv s1" "cls s \<subseteq> cls s1" "spared (map ((!) as) qs) s s1"
    and new: "distinct new" "\<forall>l \<in> set new. 0 < wt (poids s1) l \<and> (l \<in> set (map ((!) as) qs) \<or> int (nv s) < l)"
  defines "ac \<equiv> fold (\<lambda>q a. a[q := False]) qs active"
  shows "cl_inv s1 as ac (fold (\<lambda>q c. clear_conn q (length as) c) qs conn)" "new_lits_ok s1 as ac (zip qs new)"
proof -
  note I = cl_invD [OF c] and D = cl_inv_deactivate_all [OF c q(2), folded ac_def]
  have ac: "ac ! a = (active ! a \<and> a \<notin> set qs)" if "a < length as" for a using deactivated that I(2) by (simp add: ac_def)
  have other: "as ! a \<noteq> as ! b" if "a < length as" "ac ! a" "b \<in> set qs" for a b
    using I(5) [OF that(1), of b] ac [OF that(1)] that q(2,3) by auto
  show "cl_inv s1 as ac (fold (\<lambda>q c. clear_conn q (length as) c) qs conn)"
  proof (rule cl_inv_state [OF D s1(1,2)])
    fix a assume a: "a < length as" "ac ! a" "0 < wt (poids s) (as ! a)"
    have "as ! a \<notin> set (map ((!) as) qs)" using other [OF a(1,2)] by auto
    moreover have "- (as ! a) \<notin> set (map ((!) as) qs)"
      using q(4) a(3) wt_neg [OF base_invD(4) [OF inv], of "as ! a"] by force
    ultimately show "0 < wt (poids s1) (as ! a)" using s1(3) soft_upto(2) [OF inv, of "as ! a"] a(3) by (simp add: spared_def)
  qed
  have "q < length as \<and> \<not> ac ! q \<and> 0 < wt (poids s1) l \<and> (\<forall>a < length as. ac ! a \<longrightarrow> as ! a \<noteq> l)" if "(q, l) \<in> set (zip qs new)" for q l
  proof -
    have m: "q \<in> set qs" "l \<in> set new" using that by (auto dest: set_zip_leftD set_zip_rightD)
    have "as ! a \<noteq> l" if a: "a < length as" "ac ! a" for a
    proof (cases "l \<in> set (map ((!) as) qs)")
      case True
      then show ?thesis using other [OF a] by auto
    next
      case False
      then have "int (nv s) < l" using new(2) m(2) by auto
      moreover have "lit_upto (nv s) (as ! a)" using I(3) [OF a(1)] ac [OF a(1)] a(2) by blast
      ultimately show ?thesis by (auto simp: lit_upto_def)
    qed
    then show ?thesis using m q(2) ac [of q] new(2) by auto
  qed
  then show "new_lits_ok s1 as ac (zip qs new)"
    using q(1) new(1) by (auto simp: new_lits_ok_def map_fst_zip_take map_snd_zip_take)
qed

lemma am1_cliques_ok:
  assumes E: "engine_ok E"
  shows "base_inv s \<Longrightarrow> weights_inv W s \<Longrightarrow> start_solve s \<Longrightarrow> cl_inv s as active conn \<Longrightarrow> as \<noteq> [] \<Longrightarrow>
    \<exists>s'. am1_cliques E Ch as active conn s = Some s' \<and> evolves W s s'"
proof (induction "nat (budget s - cost s)" arbitrary: s as active conn rule: less_induct)
  case less
  have n: "0 < length as" using less.prems(5) by simp
  obtain q where q: "mcqdyn Ch conn (length as) 100000 = Some q" "sorted_wrt (adj conn) q" "distinct q" "\<forall>v \<in> set q. v < length as"
    by (rule mcqdyn_ok [OF cl_invD(1) [OF less.prems(4)] n]) (rule that)
  show ?case
  proof (cases "length q \<le> 2")
    case True
    then show ?thesis using q(1) evolves_refl [OF less.prems(1,2)] by (subst am1_cliques.simps) simp
  next
    case False
    then have two: "2 \<le> length q" by simp
    note C = clique_lits [OF less.prems(4) q(2-4) two]
    let ?c = "map ((!) as) q"
    obtain new s1 where s1: "processAtMostOne ?c s = Some (new, s1)" "evolves W s s1" "2 \<le> length ?c \<longrightarrow> cost s < cost s1"
      "distinct new" "\<forall>l \<in> set new. 0 < wt (poids s1) l \<and> (l \<in> set ?c \<or> int (nv s) < l)" "length new \<le> length ?c" "spared ?c s s1"
      by (rule processAtMostOne_ok [OF less.prems(1,2) C(1-3) less.prems(3)]) (rule that)
    note V = evolvesD [OF s1(2)]
    have le: "nv s \<le> nv s1" "cls s \<subseteq> cls s1" using V(3) by (auto simp: sim_def)
    note R = am1_round_inv [OF less.prems(1,4) q(3,4) C(4,3) le s1(7,4,5)]
    obtain as' ac' conn' s2 where s2: "am1_replace E (zip q new) as (fold (\<lambda>q a. a[q := False]) q active)
          (fold (\<lambda>q c. clear_conn q (length as) c) q conn) s1 = Some (as', ac', conn', s2)" "evolves W s1 s2"
        "cl_inv s2 as' ac' conn'" "length as' = length as"
      using am1_replace_ok [OF E V(1,2) R] by blast
    note V2 = evolvesD [OF s2(2)]
    have "nat (budget s2 - cost s2) < nat (budget s - cost s)"
      using s1(3) two V(4,6) V2(4,6) cost_le_budget [OF V2(1)] by auto
    moreover have "start_solve s2" using keptD(5) [OF V(5)] keptD(5) [OF V2(5)] less.prems(3) by simp
    moreover have "as' \<noteq> []" using s2(4) n by auto
    ultimately obtain s' where "am1_cliques E Ch as' ac' conn' s2 = Some s'" "evolves W s2 s'"
      using less.hyps V2(1,2) s2(3) by blast
    then show ?thesis
      using q(1) False s1(1,6) s2(1) evolves_trans [OF s1(2) evolves_trans [OF s2(2)]] by (subst am1_cliques.simps) simp
  qed
qed

text \<open>The soft literals in the order of the index.\<close>

lemma am1_assumption_ok:
  assumes inv: "base_inv s" and W: "weights_inv W s"
  obtains as where "am1_assumption s = Some as" "distinct as" "\<forall>l \<in> set as. 0 < wt (poids s) l"
proof -
  note M = weights_invD(1) [OF W]
  have wf: "map_wf (mapWeight2Assum s)" using wm.mirrors_wf [OF M] .
  have b: "0 < w \<and> 0 < wt (poids s) l \<and> wt (poids s) l = w" if "(w, ls) \<in> set (mapWeight2Assum s)" "l \<in> set ls" for w ls l
    using wm.mirrors_bucket [OF M, of l w] map_at_in [OF wf that(1)] that(2) by simp
  have nz: "0 < w \<and> increasing ls" if "(w, ls) \<in> set (mapWeight2Assum s)" for w ls using wf that by (auto simp: map_wf_def)
  have "am1_assumption s = Some (concat (map snd (mapWeight2Assum s)))"
    using b nz by (fastforce simp: am1_assumption_def list_all_iff)
  moreover have "distinct (concat (map snd m))" if "increasing (map fst m)" "set m \<subseteq> set (mapWeight2Assum s)" for m
    using that
  proof (induction m)
    case (Cons x m)
    obtain w ls where x: "x = (w, ls)" by (cases x)
    have "set ls \<inter> set (concat (map snd m)) = {}"
    proof (rule ccontr)
      assume "set ls \<inter> set (concat (map snd m)) \<noteq> {}"
      then obtain l w' ls' where l: "l \<in> set ls" "(w', ls') \<in> set m" "l \<in> set ls'" by auto
      have "w = w'" using b [of w ls l] b [of w' ls' l] l Cons.prems(2) x by auto
      then show False using Cons.prems(1) x l(2) by (auto simp: strict_sorted_iff image_iff)
    qed
    moreover have "distinct ls" using nz [of w ls] Cons.prems(2) x by (auto simp: strict_sorted_iff)
    ultimately show ?case using Cons x by simp
  qed simp
  then have "distinct (concat (map snd (mapWeight2Assum s)))" using wf by (simp add: map_wf_def)
  ultimately show ?thesis using that b by fastforce
qed

lemma adapt_am1_exact_ok:
  assumes E: "engine_ok E" and inv: "base_inv s" and W: "weights_inv W s" and st: "start_solve s"
  obtains b s' where "adapt_am1_exact E Ch s = Some (b, s')" "evolves W s s'"
proof -
  obtain as where as: "am1_assumption s = Some as" "distinct as" "\<forall>l \<in> set as. 0 < wt (poids s) l"
    by (rule am1_assumption_ok [OF inv W]) (rule that)
  show ?thesis
  proof (cases "length as > 30000")
    case True
    then show ?thesis using that [of False s] as(1) evolves_refl [OF inv W] by (simp add: adapt_am1_exact_def)
  next
    case False
    let ?n = "length as" let ?conn = "replicate ?n (replicate ?n False)"
    have "\<forall>a < ?n. 0 < wt (poids s) (as ! a) \<and> lit_upto (nv s) (as ! a)" using as(3) soft_upto(3) [OF inv] by (metis less_irrefl nth_mem)
    then have "cl_inv s as (replicate ?n True) ?conn"
      using as(2) by (auto simp: cl_inv_def graph_ok_def adj_def nth_eq_iff_index_eq)
    then obtain as' conn' s1 where g: "am1_graph E 0 as ?conn s = Some (as', conn', s1)" "evolves W s s1" "cl_inv s1 as' (replicate (length as') True) conn'"
      using am1_graph_ok [OF E inv W _ as(3)] by blast
    note V = evolvesD [OF g(2)]
    have st1: "start_solve s1" using keptD(5) [OF V(5)] st by simp
    show ?thesis
    proof (cases "as' = []")
      case True
      then show ?thesis using that [of True s1] as(1) False g(1,2) by (simp add: adapt_am1_exact_def Let_def)
    next
      case ne: False
      obtain s2 where "am1_cliques E Ch as' (replicate (length as') True) conn' s1 = Some s2" "evolves W s1 s2"
        using am1_cliques_ok [OF E V(1,2) st1 g(3) ne] by blast
      then show ?thesis
        using that [of True s2] as(1) False g(1) ne evolves_trans [OF g(2)] by (simp add: adapt_am1_exact_def Let_def)
    qed
  qed
qed

lemma extractAM_ok:
  assumes E: "engine_ok E" and inv: "base_inv s" and W: "weights_inv W s" and st: "start_solve s"
  obtains s' where "extractAM E Ch s = Some s'" "evolves W s s'"
proof -
  obtain b s1 where s1: "adapt_am1_exact E Ch s = Some (b, s1)" "evolves W s s1"
    by (rule adapt_am1_exact_ok [OF assms]) (rule that)
  note V = evolvesD [OF s1(2)]
  have "start_solve s1" using keptD(5) [OF V(5)] st by simp
  then obtain n s2 where "adapt_am1_FastHeuristicV7 E s1 = Some (n, s2)" "evolves W s1 s2"
    unfolding adapt_am1_FastHeuristicV7_def using v7.scan_ok [OF E V(1,2)] by metis
  then show ?thesis using that [of s2] s1 evolves_trans [OF s1(2)] by (simp add: extractAM_def)
qed

end
