(* ===== verification/Eval_Minimize.thy ===== *)
theory Eval_Minimize
  imports Eval_Exact
begin

text \<open>
  From an unsatisfiable call to a core: \<open>oneMinimize\<close>, the repeated solving under shuffled
  assumptions that looks for a better core, and the sequence of both in \<open>solve\<close>. None of them
  changes anything but the solver object, and what they return is a core.

  Comparisons of the elapsed time are the choices \<open>timer\<close>, one per place in the source; the number
  of calls of the SAT solver so far stands for the time of the comparison. The value \<open>oneMinimize\<close>
  returns is the quotient of the size of the core and a weight.
\<close>

section \<open>The operations\<close>

definition timer :: "choices \<Rightarrow> nat \<Rightarrow> ems \<Rightarrow> bool" where
  "timer Ch site s = ch_timer Ch site (c_calls (cad (solver s)))"

text \<open>\<open>std::sort\<close> with the comparison of \<open>oneMinimize\<close>: heavier literals first, then by variable.\<close>

definition sort_conflict :: "int list \<Rightarrow> int list \<Rightarrow> int list option" where
  "sort_conflict p conflict =
     (if list_all (\<lambda>l. nat \<bar>l\<bar> < length p \<and> wt p l \<ge> 0) conflict
      then Some (sort_key (\<lambda>l. - wt p l) (sort_key abs conflict)) else None)"

text \<open>The loop that drops literals from the back; a value means that \<open>oneMinimize\<close> returns it.\<close>

function min_back :: "engine \<Rightarrow> choices \<Rightarrow> nat \<Rightarrow> int \<Rightarrow> int list \<Rightarrow> ems \<Rightarrow> (nat option \<times> int list \<times> ems) option" where
  "min_back E Ch site B conflict s =
     (if conflict = [] then None
      else case eval_solveLimited E conflict (10 * B) (last conflict) s of
        None \<Rightarrow> None
      | Some (r, s) \<Rightarrow>
          if r = 0 then
            let conflict = butlast conflict
            in if conflict = [] then Some (Some 0, conflict, s)
               else if timer Ch site s then
                 do { w \<leftarrow> wv_get (poids s) (last conflict); Some (Some (ch_div Ch (length conflict) w), conflict, s) }
               else min_back E Ch site B conflict s
          else Some (None, conflict, s))"
  by pat_completeness auto
termination
  by (relation "measure (\<lambda>(E, Ch, site, B, conflict, s). length conflict)") auto

text \<open>The loop \<open>for(int i = conflict.size() - 2; i >= 0; i--)\<close>; the argument is \<open>i + 1\<close>.\<close>

fun min_each :: "engine \<Rightarrow> choices \<Rightarrow> nat \<Rightarrow> int \<Rightarrow> nat \<Rightarrow> int list \<Rightarrow> ems \<Rightarrow> (int list \<times> ems) option" where
  "min_each E Ch site B 0 conflict s = Some (conflict, s)"
| "min_each E Ch site B (Suc i) conflict s =
     (if i \<ge> length conflict then None
      else do { (r, s) \<leftarrow> eval_solveLimited E conflict B (conflict ! i) s;
                conflict \<leftarrow> (if r = - 1 \<or> r = 1 then Some conflict
                             else if r = 0 then Some (butlast (conflict[i := last conflict]))
                             else None);
                if timer Ch site s then Some (conflict, s) else min_each E Ch site B i conflict s })"

definition oneMinimize :: "engine \<Rightarrow> choices \<Rightarrow> nat \<Rightarrow> int \<Rightarrow> int list \<Rightarrow> ems \<Rightarrow> (nat \<times> int list \<times> ems) option" where
  "oneMinimize E Ch site B conflict s =
     do { conflict \<leftarrow> sort_conflict (poids s) conflict;
          if conflict = [] then Some (0, conflict, s)
          else do { (ret, conflict, s) \<leftarrow> min_back E Ch site B conflict s;
                    case ret of
                      Some p \<Rightarrow> Some (p, conflict, s)
                    | None \<Rightarrow>
                        do { weight \<leftarrow> wv_get (poids s) (last conflict);
                             if \<not> weight > 0 then None
                             else do { (conflict, s) \<leftarrow> min_each E Ch (site + 1) B (length conflict - 1) conflict s;
                                       Some (ch_div Ch (length conflict) weight, conflict, s) } } } }"

text \<open>\<open>std::numeric_limits<double>::max()\<close>.\<close>

definition dbl_max :: nat where
  "dbl_max = 9218868437227405311"

partial_function (option) second_solve ::
    "engine \<Rightarrow> choices \<Rightarrow> int list \<Rightarrow> nat \<Rightarrow> nat \<Rightarrow> nat \<Rightarrow> int list \<Rightarrow> ems \<Rightarrow> (int list \<times> ems) option" where
  [code]: "second_solve E Ch assum nbSolve lastImprove bestP conflict s =
     (if nbSolve < 3 * lastImprove \<or> nbSolve < 20 \<or> timer Ch 1 s \<and> nbSolve < 1000 then
        let nbSolve = nbSolve + 1
        in do { tmp \<leftarrow> sc_getConflict assum (solver s);
                (p, tmp, s) \<leftarrow> oneMinimize E Ch 2 10 tmp s;
                if p < bestP \<and> length tmp \<le> 2 then Some (tmp, s)
                else
                  let (bestP, conflict, lastImprove) = (if p < bestP then (p, tmp, nbSolve) else (bestP, conflict, lastImprove))
                  in if timer Ch 4 s then Some (conflict, s)
                     else do { (res, s) \<leftarrow> eval_solveWithTimeout E (std_shuffle Ch (c_calls (cad (solver s))) assum) s;
                               if res = - 1 then Some (conflict, s)
                               else second_solve E Ch assum nbSolve lastImprove bestP conflict s } }
      else Some (conflict, s))"

text \<open>The first two steps after an unsatisfiable call; the empty list makes \<open>solve\<close> return.\<close>

definition find_core :: "engine \<Rightarrow> choices \<Rightarrow> int list \<Rightarrow> ems \<Rightarrow> (int list \<times> ems) option" where
  "find_core E Ch assum s =
     do { conflict \<leftarrow> sc_getConflict assum (solver s);
          if conflict = [] then Some (conflict, s)
          else do { (conflict, s) \<leftarrow> (if multiSolveStrategy s \<and> length conflict > 3
                      then second_solve E Ch assum 0 0 dbl_max conflict s else Some (conflict, s));
                    if length conflict > 1 then
                      do { (p, conflict, s) \<leftarrow> oneMinimize E Ch 5 1000 conflict s; Some (conflict, s) }
                    else Some (conflict, s) } }"

section \<open>Cores\<close>

definition core :: "clause set \<Rightarrow> int list \<Rightarrow> bool" where
  "core F c = (\<forall>\<sigma>. sat_all \<sigma> F \<longrightarrow> (\<exists>l \<in> set c. \<not> lit_true \<sigma> l))"

text \<open>A core made of soft literals from a list.\<close>

definition soft_core :: "int list \<Rightarrow> ems \<Rightarrow> int list \<Rightarrow> bool" where
  "soft_core A s c = (core (cls s) c \<and> distinct c \<and> set c \<subseteq> set A \<and> (\<forall>l \<in> set c. 0 < wt (poids s) l))"

lemma core_unsat: "sc_unsat A (solver s) \<Longrightarrow> core (cls s) A"
  unfolding core_def using sc_unsat_cls by blast

lemma core_set: "core F c \<Longrightarrow> set c = set d \<Longrightarrow> core F d"
  by (simp add: core_def)

lemma soft_core_queried: "queried s s' \<Longrightarrow> soft_core A s' c = soft_core A s c"
  by (simp add: soft_core_def queried_fields)

lemma soft_core_mset: "soft_core A s c \<Longrightarrow> mset d = mset c \<Longrightarrow> soft_core A s d"
  unfolding soft_core_def using core_set [of _ c d] mset_eq_setD [of d c] mset_eq_imp_distinct_iff [of d c] by metis

lemma soft_core_sub:
  "soft_core A s c \<Longrightarrow> core (cls s) d \<Longrightarrow> distinct d \<Longrightarrow> set d \<subseteq> set c \<Longrightarrow> soft_core A s d"
  by (auto simp: soft_core_def)

lemma soft_core_get:
  assumes "soft_core A s c" "l \<in> set c"
  shows "wv_get (poids s) l = Some (wt (poids s) l)" "0 < wt (poids s) l" "nat \<bar>l\<bar> < length (poids s)"
  using assms wt_nonzero_in [of "poids s" l] wv_get_wt by (auto simp: soft_core_def)

lemma sort_conflict_ok:
  assumes "soft_core A s c"
  obtains d where "sort_conflict (poids s) c = Some d" "soft_core A s d"
proof -
  have "list_all (\<lambda>l. nat \<bar>l\<bar> < length (poids s) \<and> wt (poids s) l \<ge> 0) c"
    using soft_core_get [OF assms] by (force simp: list_all_iff)
  then show ?thesis using that soft_core_mset [OF assms] by (simp add: sort_conflict_def)
qed

lemma filter_last: "distinct c \<Longrightarrow> c \<noteq> [] \<Longrightarrow> filter (\<lambda>l. l \<noteq> last c) c = butlast c"
  by (induction c rule: rev_induct) (auto simp: filter_id_conv)

section \<open>\<open>oneMinimize\<close>\<close>

lemma min_back_ok:
  assumes E: "engine_ok E"
  shows "base_inv s \<Longrightarrow> soft_core A s c \<Longrightarrow> c \<noteq> [] \<Longrightarrow>
    \<exists>ret d s'. min_back E Ch site B c s = Some (ret, d, s') \<and> queried s s' \<and> soft_core A s' d \<and> (ret = None \<longrightarrow> d \<noteq> [])"
proof (induction "length c" arbitrary: c s rule: less_induct)
  case less
  obtain r s1 where r: "eval_solveLimited E c (10 * B) (last c) s = Some (r, s1)" "queried s s1"
    "r = 1 \<and> sc_sat (filter (\<lambda>l. l \<noteq> last c) c) (solver s1) \<or>
     r = 0 \<and> sc_unsat (filter (\<lambda>l. l \<noteq> last c) c) (solver s1) \<or> r = - 1"
    by (rule eval_solveLimited_ok [OF E less.prems(1)]) (rule that)
  have c1: "soft_core A s1 c" using less.prems(2) soft_core_queried [OF r(2)] by blast
  show ?case
  proof (cases "r = 0")
    case False
    then show ?thesis using less.prems(3) r(1,2) c1 by (subst min_back.simps) simp
  next
    case True
    have d: "distinct c" using less.prems(2) by (simp add: soft_core_def)
    have "core (cls s1) (butlast c)" using core_unsat [of _ s1] r(3) True filter_last [OF d less.prems(3)] by simp
    then have b: "soft_core A s1 (butlast c)" 
      by (rule soft_core_sub [OF c1]) (use d in \<open>auto simp: distinct_butlast dest: in_set_butlastD\<close>)
    consider "butlast c = []" | "butlast c \<noteq> []" "timer Ch site s1" | "butlast c \<noteq> []" "\<not> timer Ch site s1" by blast
    then show ?thesis
    proof cases
      case 1
      then show ?thesis using True less.prems(3) r(1,2) b by (subst min_back.simps) simp
    next
      case 2
      then show ?thesis using True less.prems(3) r(1,2) b soft_core_get [OF b, of "last (butlast c)"]
        by (subst min_back.simps) (simp add: Let_def)
    next
      case 3
      have "length (butlast c) < length c" using less.prems(3) by simp
      then obtain ret d s' where "min_back E Ch site B (butlast c) s1 = Some (ret, d, s')" "queried s1 s'" "soft_core A s' d" "ret = None \<longrightarrow> d \<noteq> []"
        using less.hyps [OF _ queried_base [OF r(2) less.prems(1)] b 3(1)] by blast
      then show ?thesis using True less.prems(3) r(1) 3 queried_trans [OF r(2)] by (subst min_back.simps) simp
    qed
  qed
qed

lemma filter_replace:
  assumes "distinct c" "i < length c - 1"
  shows "set (butlast (c[i := last c])) = set (filter (\<lambda>l. l \<noteq> c ! i) c)" "distinct (butlast (c[i := last c]))"
proof -
  obtain b x where c: "c = b @ [x]" using assms(2) by (cases c rule: rev_cases) auto
  have i: "i < length b" using assms(2) c by simp
  then have eq: "butlast (c[i := last c]) = b[i := x]" by (simp add: c list_update_append1)
  have d: "distinct b" "x \<notin> set b" using assms(1) c by auto
  show "distinct (butlast (c[i := last c]))" unfolding eq using d by (simp add: distinct_list_update)
  show "set (butlast (c[i := last c])) = set (filter (\<lambda>l. l \<noteq> c ! i) c)"
    unfolding eq using i d set_update_distinct [OF d(1) i, of x] by (auto simp: c nth_append)
qed

lemma min_each_ok:
  assumes E: "engine_ok E"
  shows "base_inv s \<Longrightarrow> soft_core A s c \<Longrightarrow> i < length c \<Longrightarrow>
    \<exists>d s'. min_each E Ch site B i c s = Some (d, s') \<and> queried s s' \<and> soft_core A s' d"
proof (induction i arbitrary: c s)
  case 0
  then show ?case using queried_refl by auto
next
  case (Suc i)
  obtain r s1 where r: "eval_solveLimited E c B (c ! i) s = Some (r, s1)" "queried s s1"
    "r = 1 \<and> sc_sat (filter (\<lambda>l. l \<noteq> c ! i) c) (solver s1) \<or>
     r = 0 \<and> sc_unsat (filter (\<lambda>l. l \<noteq> c ! i) c) (solver s1) \<or> r = - 1"
    by (rule eval_solveLimited_ok [OF E Suc.prems(1)]) (rule that)
  have c1: "soft_core A s1 c" using Suc.prems(2) soft_core_queried [OF r(2)] by blast
  define d where "d = (if r = 0 then butlast (c[i := last c]) else c)"
  have d: "soft_core A s1 d \<and> i < length d"
  proof (cases "r = 0")
    case True
    have "distinct c" using Suc.prems(2) by (simp add: soft_core_def)
    note F = filter_replace [OF this, of i]
    have "core (cls s1) (butlast (c[i := last c]))"
      using core_set [OF core_unsat [of "filter (\<lambda>l. l \<noteq> c ! i) c" s1]] r(3) True F Suc.prems(3) by auto
    then show ?thesis using soft_core_sub [OF c1] F Suc.prems(3) True by (auto simp: d_def)
  qed (use c1 Suc.prems(3) in \<open>simp add: d_def\<close>)
  obtain d' s' where "min_each E Ch site B i d s1 = Some (d', s')" "queried s1 s'" "soft_core A s' d'"
    using Suc.IH [OF queried_base [OF r(2) Suc.prems(1)]] d by blast
  moreover have "(if r = - 1 \<or> r = 1 then Some c else if r = 0 then Some (butlast (c[i := last c])) else None) = Some d"
    using r(3) by (auto simp: d_def)
  ultimately show ?case using Suc.prems(3) r(1,2) d queried_trans [OF r(2)] by (cases "timer Ch site s1") simp_all
qed

lemma oneMinimize_ok:
  assumes E: "engine_ok E" and inv: "base_inv s" and c: "soft_core A s c"
  obtains p d s' where "oneMinimize E Ch site B c s = Some (p, d, s')" "queried s s'" "soft_core A s' d"
proof -
  obtain c1 where c1: "sort_conflict (poids s) c = Some c1" "soft_core A s c1" by (rule sort_conflict_ok [OF c])
  show ?thesis
  proof (cases "c1 = []")
    case True
    then show ?thesis using that [of 0 c1 s] c1 queried_refl [OF inv] by (simp add: oneMinimize_def)
  next
    case False
    obtain ret c2 s2 where m: "min_back E Ch site B c1 s = Some (ret, c2, s2)" "queried s s2" "soft_core A s2 c2" "ret = None \<longrightarrow> c2 \<noteq> []"
      using min_back_ok [OF E inv c1(2) False] by blast
    show ?thesis
    proof (cases ret)
      case (Some p)
      then show ?thesis using that [of p c2 s2] c1(1) False m by (simp add: oneMinimize_def)
    next
      case None
      then have ne: "c2 \<noteq> []" using m(4) by simp
      note g = soft_core_get [OF m(3), of "last c2"]
      obtain c3 s3 where "min_each E Ch (site + 1) B (length c2 - 1) c2 s2 = Some (c3, s3)" "queried s2 s3" "soft_core A s3 c3"
        using min_each_ok [OF E queried_base [OF m(2) inv] m(3)] ne by (metis One_nat_def diff_less length_greater_0_conv lessI)
      then show ?thesis
        using that [of "ch_div Ch (length c3) (wt (poids s2) (last c2))" c3 s3] c1(1) False m(1) None g ne queried_trans [OF m(2)]
        by (simp add: oneMinimize_def)
    qed
  qed
qed

section \<open>Repeated solving\<close>

lemma getConflict_core:
  assumes "sc_unsat B (solver s)" "set B \<subseteq> set A" "distinct A" "\<forall>l \<in> set A. 0 < wt (poids s) l"
  obtains c where "sc_getConflict A (solver s) = Some c" "soft_core A s c"
proof -
  obtain c where c: "sc_getConflict A (solver s) = Some c" "set c \<subseteq> set A" "distinct c"
      "\<forall>\<sigma>. \<not> satisfies \<sigma> (c_clauses (cad (solver s))) c"
    by (rule sc_getConflict_ok [OF assms(1,2)]) (use assms(3) in blast)
  have "core (cls s) c" using c(4) unfolding core_def satisfies_cls by blast
  then show ?thesis using that [OF c(1)] c(2,3) assms(4) by (auto simp: soft_core_def)
qed

lemma second_solve_ok:
  assumes E: "engine_ok E" and A: "distinct A" "0 \<notin> set A"
  shows "base_inv s \<Longrightarrow> \<forall>l \<in> set A. 0 < wt (poids s) l \<Longrightarrow> sc_unsat B (solver s) \<Longrightarrow> set B = set A \<Longrightarrow> soft_core A s c \<Longrightarrow>
    \<exists>d s'. second_solve E Ch A nb li bp c s = Some (d, s') \<and> queried s s' \<and> soft_core A s' d"
proof (induction "(nb, li, bp)" arbitrary: nb li bp c s B
    rule: wf_induct_rule [OF wf_measures [of "[\<lambda>(nb, li, bp). bp, \<lambda>(nb, li, bp). max (3 * li) 1000 - nb]"]])
  case 1
  let ?M = "measures [\<lambda>(nb, li, bp). bp :: nat, \<lambda>(nb, li, bp). max (3 * li) 1000 - nb]"
  show ?case
  proof (cases "nb < 3 * li \<or> nb < 20 \<or> timer Ch 1 s \<and> nb < 1000")
    case False
    then have "second_solve E Ch A nb li bp c s = Some (c, s)" by (subst second_solve.simps, intro if_not_P)
    then show ?thesis using 1(6) queried_refl [OF 1(2)] by simp
  next
    case True
    have "set B \<subseteq> set A" using 1(5) by simp
    then obtain t where t: "sc_getConflict A (solver s) = Some t" "soft_core A s t" by (rule getConflict_core [OF 1(4) _ A(1) 1(3)])
    obtain p t1 s1 where p: "oneMinimize E Ch 2 10 t s = Some (p, t1, s1)" "queried s s1" "soft_core A s1 t1"
      by (rule oneMinimize_ok [OF E 1(2) t(2)])
    have c1: "soft_core A s1 c" using 1(6) soft_core_queried [OF p(2)] by blast
    obtain bp' c' li' where new: "(if p < bp then (p, t1, nb + 1) else (bp, c, li)) = (bp', c', li')" by (metis prod_cases3)
    have c': "soft_core A s1 c'" "((nb + 1, li', bp'), (nb, li, bp)) \<in> ?M"
      using new p(3) c1 True by (auto split: if_splits)
    have eq: "second_solve E Ch A nb li bp c s =
        (if p < bp \<and> length t1 \<le> 2 then Some (t1, s1)
         else if timer Ch 4 s1 then Some (c', s1)
         else do { (res, s) \<leftarrow> eval_solveWithTimeout E (std_shuffle Ch (c_calls (cad (solver s1))) A) s1;
                   if res = - 1 then Some (c', s) else second_solve E Ch A (nb + 1) li' bp' c' s })"
      by (subst second_solve.simps, subst if_P [OF True]) (simp only: Let_def t(1) p(1) new bind.bind_lunit split_conv)
    show ?thesis
    proof (cases "p < bp \<and> length t1 \<le> 2 \<or> timer Ch 4 s1")
      case True
      then show ?thesis unfolding eq using p(2,3) c'(1) by auto
    next
      case go: False
      let ?A = "std_shuffle Ch (c_calls (cad (solver s1))) A"
      have inv1: "base_inv s1" using queried_base [OF p(2) 1(2)] .
      obtain r s2 where r: "eval_solveWithTimeout E ?A s1 = Some (r, s2)" "queried s1 s2"
          "r = 1 \<and> sc_sat ?A (solver s2) \<or> r = 0 \<and> sc_unsat ?A (solver s2) \<or> r = - 1"
        by (rule eval_solveWithTimeout_ok [OF E inv1, of ?A]) (use A(2) in simp, rule that)
      have q: "queried s s2" using queried_trans [OF p(2) r(2)] .
      have c2: "soft_core A s2 c'" using c'(1) soft_core_queried [OF r(2)] by blast
      have nosat: "r \<noteq> 1"
      proof
        assume "r = 1"
        then have "sc_sat ?A (solver s2)" using r(3) by auto
        then obtain m where "satisfies (model_of m) (c_clauses (cad (solver s2))) ?A" by (auto simp: sc_sat_def)
        then have "sat_all (model_of m) (cls s2)" "\<forall>a \<in> set A. lit_true (model_of m) a" unfolding satisfies_cls by simp_all
        then show False using c2 unfolding soft_core_def core_def by blast
      qed
      show ?thesis
      proof (cases "r = - 1")
        case True
        then show ?thesis unfolding eq using go r(1) q c2 by auto
      next
        case False
        then have u: "sc_unsat ?A (solver s2)" using r(3) nosat by auto
        have w: "\<forall>l \<in> set A. 0 < wt (poids s2) l" using 1(3) queried_fields(3) [OF q] by simp
        obtain d s' where "second_solve E Ch A (nb + 1) li' bp' c' s2 = Some (d, s')" "queried s2 s'" "soft_core A s' d"
          using 1(1) [OF c'(2) queried_base [OF q 1(2)] w u _ c2] by auto
        then show ?thesis unfolding eq using go r(1) False queried_trans [OF q] by auto
      qed
    qed
  qed
qed

lemma find_core_ok:
  assumes E: "engine_ok E" and inv: "base_inv s" and A: "distinct A" "\<forall>l \<in> set A. 0 < wt (poids s) l"
    and u: "sc_unsat A (solver s)"
  obtains c s' where "find_core E Ch A s = Some (c, s')" "queried s s'" "soft_core A s' c"
proof -
  have z: "0 \<notin> set A" using A(2) soft_upto(1) [OF inv, of 0] by force
  obtain c where c: "sc_getConflict A (solver s) = Some c" "soft_core A s c" by (rule getConflict_core [OF u subset_refl A])
  show ?thesis
  proof (cases "c = []")
    case True
    then show ?thesis using that [of c s] c queried_refl [OF inv] by (simp add: find_core_def)
  next
    case False
    have "\<exists>d s1. (if multiSolveStrategy s \<and> length c > 3 then second_solve E Ch A 0 0 dbl_max c s else Some (c, s)) = Some (d, s1) \<and>
        queried s s1 \<and> soft_core A s1 d"
      using second_solve_ok [OF E A(1) z inv A(2) u refl c(2)] c(2) queried_refl [OF inv] by auto
    then obtain d s1 where d: "(if multiSolveStrategy s \<and> length c > 3 then second_solve E Ch A 0 0 dbl_max c s else Some (c, s)) = Some (d, s1)"
        "queried s s1" "soft_core A s1 d" by blast
    show ?thesis
    proof (cases "length d > 1")
      case True
      obtain p e s2 where "oneMinimize E Ch 5 1000 d s1 = Some (p, e, s2)" "queried s1 s2" "soft_core A s2 e"
        by (rule oneMinimize_ok [OF E queried_base [OF d(2) inv] d(3)])
      then show ?thesis using that [of e s2] c(1) False d(1) True queried_trans [OF d(2)] by (simp add: find_core_def)
    next
      case short: False
      then show ?thesis using that [OF _ d(2,3)] c(1) False d(1) by (simp add: find_core_def)
    qed
  qed
qed

end
