(* ===== verification/Eval_Core.thy ===== *)
theory Eval_Core
  imports Eval_Minimize
begin

text \<open>
  What \<open>solve\<close> does with a core: the weights of its literals go down by the smallest of them, the
  core waits in \<open>_cardToAdd\<close>, and cardinality literals without weight wait in \<open>_litToRelax\<close> until
  they are relaxed. The set \<open>assum\<close> follows: it holds the soft literals whose weight reaches the
  current threshold.
\<close>

section \<open>The operations\<close>

text \<open>The smallest weight of the core, a \<open>long long\<close>.\<close>

definition ll_max :: int where
  "ll_max = 9223372036854775807"

fun core_min :: "int list \<Rightarrow> int list \<Rightarrow> int \<Rightarrow> int option" where
  "core_min p [] minWeight = Some minWeight"
| "core_min p (lit # conflict) minWeight =
     do { w \<leftarrow> wv_get p lit;
          if \<not> w > 0 then None else core_min p conflict (if w < minWeight then w else minWeight) }"

fun core_lits :: "int \<Rightarrow> int \<Rightarrow> int list \<Rightarrow> int list \<Rightarrow> ems \<Rightarrow> (int list \<times> ems) option" where
  "core_lits minWeight minWeightToConsider [] assum s = Some (assum, s)"
| "core_lits minWeight minWeightToConsider (lit # conflict) assum s =
     do { p \<leftarrow> wv_get (poids s) lit;
          s \<leftarrow> add_poids lit (- minWeight) (mw_erase p lit s);
          q \<leftarrow> wv_get (poids s) lit;
          s \<leftarrow> (if q = 0 then
                  if nat \<bar>lit\<bar> \<ge> length (mapAssum2Card s) then None
                  else Some (if mapAssum2Card s ! nat \<bar>lit\<bar> \<noteq> None then s\<lparr>litToRelax := litToRelax s @ [lit]\<rparr> else s)
                else Some (mw_insert q lit s));
          if \<not> q \<ge> 0 then None
          else core_lits minWeight minWeightToConsider conflict
                 (if q < minWeightToConsider then set_erase lit assum else assum) s }"

text \<open>Step 3 of the treatment of a core: "replace assum by card".\<close>

definition apply_core :: "int \<Rightarrow> int list \<Rightarrow> int list \<Rightarrow> ems \<Rightarrow> (int list \<times> ems) option" where
  "apply_core minWeightToConsider conflict assum s =
     do { minWeight \<leftarrow> core_min (poids s) conflict ll_max;
          if \<not> minWeight > 0 then None
          else do { (assum, s) \<leftarrow> core_lits minWeight minWeightToConsider conflict assum s;
                    Some (assum, add_cost minWeight (s\<lparr>cardToAdd := cardToAdd s @ [(map uminus conflict, minWeight)]\<rparr>)) } }"

text \<open>A new soft literal joins the assumptions when its weight reaches the threshold.\<close>

definition consider_lit :: "int \<Rightarrow> int \<Rightarrow> int list \<Rightarrow> ems \<Rightarrow> int list option" where
  "consider_lit minWeightToConsider lit assum s =
     do { p \<leftarrow> wv_get (poids s) lit; Some (if p \<ge> minWeightToConsider then set_insert lit assum else assum) }"

fun relax_lits :: "int \<Rightarrow> int list \<Rightarrow> int list \<Rightarrow> ems \<Rightarrow> (int list \<times> ems) option" where
  "relax_lits minWeightToConsider [] assum s = Some (assum, s)"
| "relax_lits minWeightToConsider (lit # lits) assum s =
     do { (newLit, s) \<leftarrow> relax lit s;
          assum \<leftarrow> (case newLit of None \<Rightarrow> Some assum | Some l \<Rightarrow> consider_lit minWeightToConsider l assum s);
          relax_lits minWeightToConsider lits assum s }"

text \<open>The loop at the start of \<open>solve\<close>, without assumptions.\<close>

fun relax_all :: "int list \<Rightarrow> ems \<Rightarrow> ems option" where
  "relax_all [] s = Some s"
| "relax_all (lit # lits) s = do { (newLit, s) \<leftarrow> relax lit s; relax_all lits s }"

section \<open>States with the same formula\<close>

definition same_core :: "ems \<Rightarrow> ems \<Rightarrow> bool" where
  "same_core s s' = (solver s' = solver s \<and> poids s' = poids s \<and> mapWeight2Assum s' = mapWeight2Assum s \<and> cost s' = cost s \<and>
     mapAssum2Card s' = mapAssum2Card s \<and> cardToAdd s' = cardToAdd s \<and> lheap s' = lheap s \<and> cards s' = cards s)"

lemma same_core_ok:
  assumes "same_core s s'"
  shows "nv s' = nv s" "cls s' = cls s" "base_inv s' = base_inv s" "weights_inv W s' = weights_inv W s"
    "obj \<sigma> s' = obj \<sigma> s" "budget s' = budget s" "exact \<sigma> s' = exact \<sigma> s" "sim G D t s' = sim G D t s" "sim G D s' t = sim G D s t"
proof -
  have F: "solver s' = solver s" "poids s' = poids s" "mapWeight2Assum s' = mapWeight2Assum s" "cost s' = cost s"
      "mapAssum2Card s' = mapAssum2Card s" "cardToAdd s' = cardToAdd s" "lheap s' = lheap s" "cards s' = cards s"
    using assms by (simp_all add: same_core_def)
  show nv: "nv s' = nv s" and cls: "cls s' = cls s" using F by (simp_all add: nv_def cls_def)
  note o = outs_cong [OF F(7,8)]
  show "base_inv s' = base_inv s"
    using F o nv cards_inv_cong [OF F(7,8,1)] by (simp add: base_inv_def entry_ok_def)
  have tot: "wtotal f n s' = wtotal f n s" for f n by (rule wtotal_cong) (use F in simp_all)
  then show bud: "budget s' = budget s" by (simp add: budget_def)
  show "weights_inv W s' = weights_inv W s"
    using F o nv cls bud by (simp add: weights_inv_def live_ok_def waiting_ok_def)
  have obj: "obj \<sigma> s' = obj \<sigma> s" for \<sigma> using tot by (simp add: obj_def)
  have ex: "exact \<sigma> s' = exact \<sigma> s" for \<sigma> by (rule exact_cong [OF F(7) cls])
  show "obj \<sigma> s' = obj \<sigma> s" "exact \<sigma> s' = exact \<sigma> s" by (rule obj, rule ex)
  show "sim G D t s' = sim G D t s" "sim G D s' t = sim G D s t" by (simp_all add: sim_def nv cls obj ex)
qed

text \<open>The fields that steer the control flow.\<close>

definition ctl :: "ems \<Rightarrow> bool \<times> bool \<times> bool \<times> bool \<times> bool \<times> bool \<times> nat \<times> int \<times> bool list" where
  "ctl s = (start_solve s, is_incremental s, delayStrategy s, multiSolveStrategy s, UBStrategy s, toOptimize s,
     nInputVars s, solutionCost s, solution s)"

lemma ctl_fields:
  assumes "ctl s' = ctl s"
  shows "start_solve s' = start_solve s" "is_incremental s' = is_incremental s" "delayStrategy s' = delayStrategy s"
    "UBStrategy s' = UBStrategy s" "toOptimize s' = toOptimize s" "nInputVars s' = nInputVars s"
    "solutionCost s' = solutionCost s" "solution s' = solution s"
  using assms by (simp_all add: ctl_def)

lemma kept_ctl: "kept s s' \<Longrightarrow> ctl s' = ctl s"
  using keptD [of s s'] by (simp add: ctl_def)

lemma weights_inv_mset: "weights_inv V s \<Longrightarrow> mset W = mset V \<Longrightarrow> weights_inv W s"
  unfolding weights_inv_def live_ok_def using mset_eq_setD [of W V] mset_eq_imp_distinct_iff [of W V] by auto

section \<open>The set of assumptions\<close>

definition assum_ok :: "int \<Rightarrow> int list \<Rightarrow> ems \<Rightarrow> bool" where
  "assum_ok m A s = (1 \<le> m \<and> increasing A \<and> set A = {l. m \<le> wt (poids s) l})"

lemma assum_okD:
  assumes "assum_ok m A s"
  shows "1 \<le> m" "distinct A" "l \<in> set A \<Longrightarrow> m \<le> wt (poids s) l" "l \<in> set A \<Longrightarrow> 0 < wt (poids s) l" "m \<le> wt (poids s) l \<Longrightarrow> l \<in> set A"
  using assms by (auto simp: assum_ok_def strict_sorted_iff)

lemma assum_ok_unique: "assum_ok m A s \<Longrightarrow> assum_ok m B s \<Longrightarrow> A = B"
  unfolding assum_ok_def by (metis strict_sorted_unique)

lemma assum_ok_poids: "assum_ok m A s \<Longrightarrow> wt (poids s') = wt (poids s) \<Longrightarrow> assum_ok m A s'"
  by (simp add: assum_ok_def)

lemma takeWhile_heavy:
  "sorted_wrt (\<lambda>x y. fst y < fst x) xs \<Longrightarrow> takeWhile (\<lambda>(w, lits). \<not> w < (m :: int)) xs = filter (\<lambda>(w, lits). m \<le> w) xs"
proof (induction xs)
  case (Cons x xs)
  have "filter (\<lambda>(w, lits). m \<le> w) xs = []" if "\<not> m \<le> fst x" using Cons.prems that by (fastforce simp: filter_empty_conv)
  then show ?case using Cons by (cases x) auto
qed simp

lemma fold_set_insert: "increasing acc \<Longrightarrow> increasing (fold set_insert ls acc) \<and> set (fold set_insert ls acc) = set ls \<union> set acc"
  by (induction ls arbitrary: acc) (auto simp: strict_set_insert)

lemma initAssum_ok:
  assumes W: "weights_inv W s" and inv: "base_inv s" and m: "1 \<le> m"
  shows "assum_ok m (initAssum m s) s"
proof -
  note M = weights_invD(1) [OF W]
  have wf: "map_wf (mapWeight2Assum s)" using wm.mirrors_wf [OF M] .
  have "sorted_wrt (\<lambda>x y. fst y < fst x) (rev (mapWeight2Assum s))"
    using wf by (simp add: map_wf_def sorted_wrt_rev sorted_wrt_map)
  note tw = takeWhile_heavy [OF this, of m]
  note I = fold_set_insert [of "[]" "concat (map snd (takeWhile (\<lambda>(w, lits). \<not> w < m) (rev (mapWeight2Assum s))))", simplified]
  have "l \<in> set (initAssum m s) \<longleftrightarrow> m \<le> wt (poids s) l" for l
  proof -
    have "l \<in> set (initAssum m s) \<longleftrightarrow> (\<exists>w lits. (w, lits) \<in> set (mapWeight2Assum s) \<and> m \<le> w \<and> l \<in> set lits)"
      unfolding initAssum_def using I tw by auto
    also have "\<dots> \<longleftrightarrow> (\<exists>w. m \<le> w \<and> l \<in> set (map_at (mapWeight2Assum s) w))"
      using map_at_in [OF wf] map_in_at [of l "mapWeight2Assum s"] by blast
    also have "\<dots> \<longleftrightarrow> m \<le> wt (poids s) l"
      using wm.mirrors_bucket [OF M, of l] soft_upto(1) [OF inv, of l] m by auto
    finally show ?thesis .
  qed
  then show ?thesis using m I by (auto simp: assum_ok_def initAssum_def)
qed

text \<open>Adding one literal, lowering one literal.\<close>

lemma consider_lit_ok:
  assumes A: "assum_ok m A s" and w: "wt (poids s') = wt_set l w (wt (poids s))" "0 < w" "wt (poids s) l = 0" "wt (poids s) (- l) = 0" "l \<noteq> 0"
    and l: "nat \<bar>l\<bar> < length (poids s')"
  obtains B where "consider_lit m l A s' = Some B" "assum_ok m B s'"
proof -
  have "wv_get (poids s') l = Some w" using wv_get_wt [OF l] w(1,5) by (simp add: wt_set_def)
  moreover have "assum_ok m (if w \<ge> m then set_insert l A else A) s'"
    using A w by (auto simp: assum_ok_def wt_set_def strict_set_insert)
  ultimately show ?thesis using that by (simp add: consider_lit_def)
qed

lemma lower_assum:
  assumes A: "assum_ok m A s" and inv: "base_inv s" and w: "0 < w" "w \<le> wt (poids s) l"
  shows "assum_ok m (if wt (poids s) l - w < m then set_erase l A else A) (lower l w s)"
proof -
  have l: "l \<noteq> 0" using soft_upto(1) [OF inv, of l] w by auto
  have m: "1 \<le> m" and A': "increasing A" "set A = {l. m \<le> wt (poids s) l}" using A by (auto simp: assum_ok_def)
  have neg: "wt (poids s) (- l) < m" "- (wt (poids s) l - w) < m" using wt_neg [OF base_invD(4) [OF inv], of l] w m by simp_all
  have "{x. m \<le> wt (poids (lower l w s)) x} = (if wt (poids s) l - w < m then set A - {l} else set A)"
  proof (intro set_eqI)
    fix x
    consider "x = l" | "x = - l" "x \<noteq> l" | "x \<noteq> l" "x \<noteq> - l" by blast
    then show "x \<in> {x. m \<le> wt (poids (lower l w s)) x} \<longleftrightarrow> x \<in> (if wt (poids s) l - w < m then set A - {l} else set A)"
      unfolding lower_ok(4) [OF inv w] A'(2) using neg w l by cases (auto simp: wt_set_def)
  qed
  then show ?thesis using m A'(1) by (simp add: assum_ok_def strict_set_erase)
qed

section \<open>A core\<close>

lemma core_min_ok:
  "\<forall>l \<in> set c. 0 < wt p l \<Longrightarrow> 0 < w \<Longrightarrow>
    \<exists>m. core_min p c w = Some m \<and> 0 < m \<and> m \<le> w \<and> (\<forall>l \<in> set c. m \<le> wt p l)"
proof (induction c arbitrary: w)
  case (Cons l c)
  have l: "wv_get p l = Some (wt p l)" "0 < wt p l" using wt_nonzero_in [of p l] wv_get_wt [of l p] Cons.prems(1) by auto
  define v where "v = (if wt p l < w then wt p l else w)"
  have v: "0 < v" "v \<le> w" "v \<le> wt p l" using l(2) Cons.prems(2) by (auto simp: v_def)
  obtain m where "core_min p c v = Some m" "0 < m" "m \<le> v" "\<forall>l \<in> set c. m \<le> wt p l"
    using Cons.IH [OF _ v(1)] Cons.prems(1) by auto
  then show ?case using l v by (auto simp: v_def)
qed simp

text \<open>What the loop over the literals of a core promises.\<close>

definition core_taken :: "int \<Rightarrow> int \<Rightarrow> int list \<Rightarrow> ems \<Rightarrow> int list \<Rightarrow> ems \<Rightarrow> bool" where
  "core_taken w m c s A s' = (base_inv s' \<and> weights_inv (litToRelax s') s' \<and> assum_ok m A s' \<and>
     nv s' = nv s \<and> cls s' = cls s \<and> lheap s' = lheap s \<and> cost s' = cost s \<and> cardToAdd s' = cardToAdd s \<and> ctl s' = ctl s \<and>
     cards s' = cards s \<and> budget s' = budget s - w * int (length c) \<and>
     (\<forall>\<sigma>. obj \<sigma> s = obj \<sigma> s' + w * int (count_true \<sigma> (map uminus c))) \<and>
     (c \<noteq> [] \<or> mapWeight2Assum s \<noteq> [] \<longrightarrow> mapWeight2Assum s' \<noteq> []))"

lemma map_at_upd_ne [simp]: "map_at_upd k f m \<noteq> []"
  by (cases "(k, f, m)" rule: map_at_upd.cases) simp_all

lemma lower_ne: "mapWeight2Assum (lower l w s) \<noteq> []"
  by (simp add: lower_def Let_def map_insert_at_def map_erase_at_def reweigh_def)

definition lowered :: "int \<Rightarrow> int \<Rightarrow> ems \<Rightarrow> ems" where
  "lowered l w s = (let t = lower l w s in
     if wt (poids s) l = w \<and> mapAssum2Card s ! nat \<bar>l\<bar> \<noteq> None then t\<lparr>litToRelax := litToRelax s @ [l]\<rparr> else t)"

lemma lowered_core: "same_core (lower l w s) (lowered l w s)"
  by (simp add: lowered_def same_core_def Let_def)

lemma lowered_ok:
  assumes inv: "base_inv s" and W: "weights_inv (litToRelax s) s" and w: "0 < w" "w \<le> wt (poids s) l" and A: "assum_ok m A s"
  shows "core_taken w m [l] s (if wt (poids s) l - w < m then set_erase l A else A) (lowered l w s)"
    "wt (poids (lowered l w s)) = wt_set l (wt (poids s) l - w) (wt (poids s))"
proof -
  note L = lower_ok [OF inv w] and C = same_core_ok [OF lowered_core [of l w s]]
  have l: "l \<noteq> 0" using soft_upto(1) [OF inv, of l] w by auto
  have "mset (litToRelax (lowered l w s)) = mset (now_waiting l w (litToRelax s) s)"
    by (auto simp: lowered_def Let_def now_waiting_def)
  then have "weights_inv (litToRelax (lowered l w s)) (lowered l w s)"
    using weights_inv_mset [OF lower_weights [OF inv W w]] C(4) by blast
  moreover have "poids (lowered l w s) = poids (lower l w s)" "cost (lowered l w s) = cost s" "cardToAdd (lowered l w s) = cardToAdd s"
      "lheap (lowered l w s) = lheap s" "cards (lowered l w s) = cards s" "mapWeight2Assum (lowered l w s) \<noteq> []"
    using lowered_core [of l w s] lower_ne by (simp_all add: same_core_def)
  moreover have "ctl (lowered l w s) = ctl s"
    by (simp add: ctl_def lowered_def Let_def) (simp add: lower_def reweigh_def Let_def)
  moreover have "unpaid l w \<sigma> = w * int (count_true \<sigma> (map uminus [l]))" for \<sigma> using l by (simp add: unpaid_def)
  ultimately show "core_taken w m [l] s (if wt (poids s) l - w < m then set_erase l A else A) (lowered l w s)"
    using L(1-3) C assum_ok_poids [OF lower_assum [OF A inv w], of "lowered l w s"] by (simp add: core_taken_def)
  show "wt (poids (lowered l w s)) = wt_set l (wt (poids s) l - w) (wt (poids s))"
    using L(4) lowered_core [of l w s] by (simp add: same_core_def)
qed

lemma core_taken_trans:
  assumes "core_taken w m [l] s A s1" "core_taken w m c s1 B s2"
  shows "core_taken w m (l # c) s B s2"
proof -
  have "w * int (length c + 1) = w + w * int (length c)" by (simp add: algebra_simps)
  moreover have "w * int (count_true \<sigma> (map uminus (l # c))) = w * int (count_true \<sigma> (map uminus [l])) + w * int (count_true \<sigma> (map uminus c))" for \<sigma>
    by (simp add: algebra_simps)
  ultimately show ?thesis
    using assms unfolding core_taken_def by (simp del: count_true_simps list.map)
qed

lemma core_lits_ok:
  "base_inv s \<Longrightarrow> weights_inv (litToRelax s) s \<Longrightarrow> 0 < w \<Longrightarrow> \<forall>l \<in> set c. w \<le> wt (poids s) l \<Longrightarrow> distinct c \<Longrightarrow> assum_ok m A s \<Longrightarrow>
    \<exists>B s'. core_lits w m c A s = Some (B, s') \<and> core_taken w m c s B s'"
proof (induction c arbitrary: A s)
  case Nil
  then show ?case by (simp add: core_taken_def)
next
  case (Cons l c)
  have w: "0 < w" "w \<le> wt (poids s) l" using Cons.prems by auto
  let ?A = "if wt (poids s) l - w < m then set_erase l A else A" and ?s = "lowered l w s"
  note L = lowered_ok [OF Cons.prems(1,2) w Cons.prems(6)]
  obtain s1 where s1: "wv_get (poids s) l = Some (wt (poids s) l)"
      "add_poids l (- w) (mw_erase (wt (poids s) l) l s) = Some s1" "wv_get (poids s1) l = Some (wt (poids s) l - w)"
      "wt (poids s) l = w \<longrightarrow> s1 = lower l w s" "wt (poids s) l \<noteq> w \<longrightarrow> mw_insert (wt (poids s) l - w) l s1 = lower l w s"
      "mapAssum2Card s1 = mapAssum2Card s"
    by (rule lower_steps [OF Cons.prems(1,2) w])
  have len: "nat \<bar>l\<bar> < length (mapAssum2Card s)"
    using soft_upto(2) [OF Cons.prems(1), of l] w base_invD(10) [OF Cons.prems(1)] by simp
  have step: "core_lits w m (l # c) A s = core_lits w m c ?A ?s"
    using s1 len w by (auto simp: lowered_def Let_def)
  have "w \<le> wt (poids ?s) x" if "x \<in> set c" for x
  proof -
    have "x \<noteq> l" "0 < wt (poids s) x" "w \<le> wt (poids s) x" using Cons.prems(4,5) that w(1) by auto
    moreover have "x \<noteq> - l" using soft_distinct [OF Cons.prems(1) _ calculation(2,1)] w by auto
    ultimately show ?thesis unfolding L(2) by (simp add: wt_set_def)
  qed
  then obtain B s' where "core_lits w m c ?A ?s = Some (B, s')" "core_taken w m c ?s B s'"
    using Cons.IH [of ?s ?A] Cons.prems(5) w(1) L(1) by (auto simp: core_taken_def)
  then show ?case unfolding step using core_taken_trans [OF L(1)] by blast
qed

text \<open>
  The whole step: same clauses, same variables, same cost of every model, and the constant cost is
  higher by the smallest weight of the core.
\<close>

definition core_applied :: "int \<Rightarrow> ems \<Rightarrow> int list \<Rightarrow> ems \<Rightarrow> bool" where
  "core_applied m s A s' = (base_inv s' \<and> weights_inv (litToRelax s') s' \<and> assum_ok m A s' \<and> sim0 s s' \<and> budget s' = budget s \<and>
     cost s < cost s' \<and> ctl s' = ctl s \<and> mapWeight2Assum s' \<noteq> [])"

lemma apply_core_ok:
  assumes inv: "base_inv s" and W: "weights_inv (litToRelax s) s" and c: "soft_core B s c" "c \<noteq> []" and A: "assum_ok m A s"
  obtains A' s' where "apply_core m c A s = Some (A', s')" "core_applied m s A' s'"
proof -
  have cc: "core (cls s) c" "distinct c" "\<forall>l \<in> set c. 0 < wt (poids s) l" using c(1) by (auto simp: soft_core_def)
  obtain w where w: "core_min (poids s) c ll_max = Some w" "0 < w" "\<forall>l \<in> set c. w \<le> wt (poids s) l"
    using core_min_ok [OF cc(3), of ll_max] by (auto simp: ll_max_def)
  obtain A' s1 where s1: "core_lits w m c A s = Some (A', s1)" "core_taken w m c s A' s1"
    using core_lits_ok [OF inv W w(2,3) cc(2) A] by blast
  then have T: "base_inv s1" "weights_inv (litToRelax s1) s1" "assum_ok m A' s1" "nv s1 = nv s" "cls s1 = cls s" "lheap s1 = lheap s"
      "cost s1 = cost s" "ctl s1 = ctl s" "budget s1 = budget s - w * int (length c)" "mapWeight2Assum s1 \<noteq> []"
      "\<And>\<sigma>. obj \<sigma> s = obj \<sigma> s1 + w * int (count_true \<sigma> (map uminus c))"
    using c(2) by (auto simp: core_taken_def)
  define s2 where "s2 = add_cost w (s1\<lparr>cardToAdd := cardToAdd s1 @ [(map uminus c, w)]\<rparr>)"
  note B1 = base_invD [OF T(1)]
  have c1: "1 \<le> length c" using c(2) by (cases c) auto
  obtain l where "l \<in> set c" using c(2) by (cases c) auto
  then have "w \<le> wt (poids s) l" using w(3) by blast
  then have "cost s + w \<le> budget s" using budget_weight [OF inv, of l] by linarith
  then have cost2: "cost s2 = cost s + w"
    using weights_invD(5) [OF W] base_invD(6) [OF inv] w(2) T(7) by (simp add: s2_def add_cost_def u64_id t_weight_max_def)
  have F: "solver s2 = solver s1" "poids s2 = poids s1" "mapAssum2Card s2 = mapAssum2Card s1" "lheap s2 = lheap s1" "cards s2 = cards s1"
      "mapWeight2Assum s2 = mapWeight2Assum s1" "litToRelax s2 = litToRelax s1" "cardToAdd s2 = cardToAdd s1 @ [(map uminus c, w)]" "ctl s2 = ctl s1"
    by (simp_all add: s2_def add_cost_def ctl_def)
  have nv2: "nv s2 = nv s1" "cls s2 = cls s1" using F by (simp_all add: nv_def cls_def)
  have tot: "wtotal f n s2 = wtotal f n s1 + w + w * int (n (map uminus c) - 1)" for f n
    using F T(7) cost2 outs_cong [OF F(4,5), of n] by (simp add: wtotal_def dsum_append)
  have up: "\<forall>l \<in> set (map uminus c). lit_upto (nv s1) l"
    using cc(3) soft_upto(3) [OF inv] T(4) by fastforce
  have base2: "base_inv s2"
    using B1 F up c(2) w(2) cost2 base_invD(6) [OF inv] by (intro base_inv_cong [OF F(4,5,1) _ _ T(1)]) (auto simp: cardToAdd_ok_def)
  have "budget s2 = budget s1 + w + w * int (length c - 1)" using tot by (simp add: budget_def)
  also have "\<dots> = budget s" using T(9) c1 by (simp add: of_nat_diff algebra_simps)
  finally have bud: "budget s2 = budget s" .
  have "weights_inv (litToRelax s2) s2"
    using T(2) F nv2 bud weights_invD(5) [OF W] outs_cong [OF F(4,5)] by (simp add: weights_inv_def live_ok_def waiting_ok_def)
  moreover have "sim0 s s2"
  proof (rule sim_local)
    fix \<sigma> assume "sat_all \<sigma> (cls s)"
    then obtain x where "x \<in> set c" "\<not> lit_true \<sigma> x" using cc(1) unfolding core_def by blast
    moreover have "x \<noteq> 0" using cc(3) soft_upto(1) [OF inv, of x] calculation(1) by force
    ultimately have "- x \<in> set (filter (lit_true \<sigma>) (map uminus c))" by simp
    then have "1 \<le> count_true \<sigma> (map uminus c)" unfolding count_true_def by (cases "filter (lit_true \<sigma>) (map uminus c)") simp_all
    moreover have "obj \<sigma> s2 = obj \<sigma> s1 + w + w * int (count_true \<sigma> (map uminus c) - 1)" using tot by (simp add: obj_def)
    ultimately show "obj \<sigma> s = obj \<sigma> s2 + 0" using T(11) [of \<sigma>] by (simp add: of_nat_diff algebra_simps)
  qed (use nv2 F T in simp_all)
  moreover have "assum_ok m A' s2" using assum_ok_poids [OF T(3), of s2] F(2) by simp
  ultimately have "core_applied m s A' s2" unfolding core_applied_def using base2 bud cost2 w(2) F T(8,10) by simp
  then show ?thesis using that s1(1) w(1,2) by (simp add: apply_core_def s2_def)
qed

section \<open>Relaxing the literals that wait\<close>

lemma relax_waiting:
  assumes inv: "base_inv s" and W: "weights_inv (l # W) s"
  obtains r s' where "relax l s = Some (r, s')" "base_inv s'" "weights_inv W s'" "sim0 s s'" "budget s' = budget s" "same_rest s s'"
    "relaxed l r s s'"
proof -
  note WI = weights_invD [OF W]
  have w: "waiting_ok s l" using WI(4) by simp
  then have l: "l < 0" "nat \<bar>l\<bar> \<le> nv s" "poids s ! nat \<bar>l\<bar> = 0" "- \<bar>l\<bar> = l" by (auto simp: waiting_ok_def)
  have len: "nat \<bar>l\<bar> < length (poids s)" "nat \<bar>l\<bar> < length (mapAssum2Card s)" using l(2) base_invD(9,10) [OF inv] by simp_all
  have z: "wt (poids s) l = 0" using wt_nth [OF len(1)] l(1,3) by simp
  have bud: "budget s \<le> t_weight_max" using WI(5) by (simp add: t_weight_max_def)
  have op: "out_open s (lc_card e) (lc_atMost e + 1)" if "mapAssum2Card s ! nat \<bar>l\<bar> = Some e" for e
    using WI(2) [OF len(2) that] l(1) by (simp add: live_ok_def)
  have l0: "l \<noteq> 0" using l(1) by simp
  obtain r s' where r: "relax l s = Some (r, s')" "relaxed l r s s'"
    by (rule relax_ok [OF inv l0 l(2) bud op])
  have "weights_inv W s'"
    using relaxed_weights_inv [OF r(2) inv l0 l(2) z W] WI(3) l(4) by auto
  then show ?thesis using that [OF r(1) relaxedD(1) [OF r(2)] _ relaxedD(4,5,3) [OF r(2)] r(2)] by blast
qed

definition relaxes :: "ems \<Rightarrow> ems \<Rightarrow> bool" where
  "relaxes s s' = (base_inv s' \<and> weights_inv [] s' \<and> sim0 s s' \<and> budget s' = budget s \<and> same_rest s s')"

lemma relax_all_ok:
  "base_inv s \<Longrightarrow> weights_inv W s \<Longrightarrow> \<exists>s'. relax_all W s = Some s' \<and> relaxes s s'"
proof (induction W arbitrary: s)
  case Nil
  then show ?case by (simp add: relaxes_def sim_refl)
next
  case (Cons l W)
  obtain r s1 where s1: "relax l s = Some (r, s1)" "base_inv s1" "weights_inv W s1" "sim0 s s1" "budget s1 = budget s" "same_rest s s1"
    by (rule relax_waiting [OF Cons.prems])
  then show ?case using Cons.IH [OF s1(2,3)] sim0_trans [OF s1(4)] same_rest_trans [OF s1(6)] by (auto simp: relaxes_def)
qed

lemma relax_lits_ok:
  "base_inv s \<Longrightarrow> weights_inv W s \<Longrightarrow> assum_ok m A s \<Longrightarrow> \<exists>B s'. relax_lits m W A s = Some (B, s') \<and> relaxes s s' \<and> assum_ok m B s'"
proof (induction W arbitrary: A s)
  case Nil
  then show ?case by (simp add: relaxes_def sim_refl)
next
  case (Cons l W)
  obtain r s1 where s1: "relax l s = Some (r, s1)" "base_inv s1" "weights_inv W s1" "sim0 s s1" "budget s1 = budget s" "same_rest s s1"
      "relaxed l r s s1"
    by (rule relax_waiting [OF Cons.prems(1,2)])
  note R = relaxed_weights [OF s1(7) Cons.prems(1)]
  obtain w where w: "0 < w" "wt (poids s1) = (case r of None \<Rightarrow> wt (poids s) | Some l \<Rightarrow> wt_set l w (wt (poids s)))" using R(1) by blast
  obtain B where B: "(case r of None \<Rightarrow> Some A | Some l \<Rightarrow> consider_lit m l A s1) = Some B" "assum_ok m B s1"
  proof (cases r)
    case None
    then show ?thesis using that [of A] w(2) assum_ok_poids [OF Cons.prems(3), of s1] by simp
  next
    case (Some x)
    note x = R(2) [OF Some]
    have "wt (poids s) (- x) = 0" "x \<noteq> 0" "nat \<bar>x\<bar> < length (poids s1)"
      using wt_neg [OF base_invD(4) [OF Cons.prems(1)], of x] x base_invD(9) [OF s1(2)] by auto
    then obtain B where "consider_lit m x A s1 = Some B" "assum_ok m B s1"
      using consider_lit_ok [OF Cons.prems(3), of s1 x w] w x Some by auto
    then show ?thesis using that Some by simp
  qed
  obtain C s' where "relax_lits m W B s1 = Some (C, s')" "relaxes s1 s'" "assum_ok m C s'"
    using Cons.IH [OF s1(2,3) B(2)] by blast
  then show ?case
    using s1(1,5) B(1) sim0_trans [OF s1(4)] same_rest_trans [OF s1(6)] by (auto simp: relaxes_def)
qed

end
