(* ===== verification/Eval_NewCards.thy ===== *)
theory Eval_NewCards
  imports Eval_Core
begin

text \<open>
  The cores waiting in \<open>_cardToAdd\<close> become cardinalities: for each of them a
  \<open>CardIncremental_Lazy\<close> object is created, its literal "at most one" is asked for and becomes a soft
  literal. The three places of \<open>solve\<close> that do this differ in what happens to \<open>assum\<close> and in when the
  deque is emptied.
\<close>

section \<open>The operations\<close>

definition card_to_soft :: "int list \<times> int \<Rightarrow> ems \<Rightarrow> (int \<times> ems) option" where
  "card_to_soft c s =
     do { (card, s) \<leftarrow> make_card (fst c) 1 s;
          (newAssumForCard, s) \<leftarrow> eval_atMost card 1 s;
          if newAssumForCard \<noteq> 0 then
            do { p \<leftarrow> wv_get (poids s) newAssumForCard;
                 if p \<noteq> 0 then None
                 else do { s \<leftarrow> set_poids newAssumForCard (snd c) s;
                           s \<leftarrow> Some (mw_insert (snd c) newAssumForCard s);
                           if \<not> snd c > 0 \<or> nat \<bar>newAssumForCard\<bar> \<ge> length (mapAssum2Card s) then None
                           else Some (newAssumForCard, s\<lparr>mapAssum2Card := (mapAssum2Card s)[nat \<bar>newAssumForCard\<bar> :=
                                  Some \<lparr>lc_card = card, lc_atMost = 1, lc_weight = snd c\<rparr>]\<rparr>) } }
          else Some (0, s) }"

text \<open>At the start of \<open>solve\<close>.\<close>

fun add_cards0 :: "(int list \<times> int) list \<Rightarrow> ems \<Rightarrow> ems option" where
  "add_cards0 [] s = Some s"
| "add_cards0 (c # cs) s = do { (newAssumForCard, s) \<leftarrow> card_to_soft c s; add_cards0 cs s }"

definition consider_card :: "int \<Rightarrow> int \<Rightarrow> int list \<Rightarrow> ems \<Rightarrow> int list option" where
  "consider_card minWeightToConsider newAssumForCard assum s =
     (if newAssumForCard \<noteq> 0 then consider_lit minWeightToConsider newAssumForCard assum s else Some assum)"

text \<open>After the loop of limited calls.\<close>

fun add_cards :: "int \<Rightarrow> (int list \<times> int) list \<Rightarrow> int list \<Rightarrow> ems \<Rightarrow> (int list \<times> ems) option" where
  "add_cards minWeightToConsider [] assum s = Some (assum, s)"
| "add_cards minWeightToConsider (c # cs) assum s =
     do { (newAssumForCard, s) \<leftarrow> card_to_soft c s;
          assum \<leftarrow> consider_card minWeightToConsider newAssumForCard assum s;
          add_cards minWeightToConsider cs assum s }"

text \<open>\<open>while(_cardToAdd.size())\<close>, with \<open>pop_front\<close>.\<close>

partial_function (option) pop_cards :: "int \<Rightarrow> int list \<Rightarrow> ems \<Rightarrow> (int list \<times> ems) option" where
  [code]: "pop_cards minWeightToConsider assum s =
     (case cardToAdd s of
        [] \<Rightarrow> Some (assum, s)
      | c # cs \<Rightarrow>
          do { (newAssumForCard, s) \<leftarrow> card_to_soft c s;
               assum \<leftarrow> consider_card minWeightToConsider newAssumForCard assum s;
               pop_cards minWeightToConsider assum (s\<lparr>cardToAdd := tl (cardToAdd s)\<rparr>) })"

section \<open>A state with another list of waiting cores\<close>

abbreviation dq :: "(int list \<times> int) list \<Rightarrow> ems \<Rightarrow> ems" where
  "dq ds s \<equiv> s\<lparr>cardToAdd := ds\<rparr>"

lemma dq_frame [simp]:
  "nv (dq ds s) = nv s" "cls (dq ds s) = cls s" "exact \<sigma> (dq ds s) = exact \<sigma> s" "outs (dq ds s) = outs s" "clits (dq ds s) = clits s"
  "out_open (dq ds s) = out_open s" "out_var (dq ds s) = out_var s" "cards_inv (dq ds s) = cards_inv s" "ctl (dq ds s) = ctl s"
  "entry_ok (dq ds s) = entry_ok s" "owed n (dq ds s) = owed n s"
proof -
  show "cards_inv (dq ds s) = cards_inv s" by (rule cards_inv_cong) simp_all
qed (use outs_cong [of "dq ds s" s n] in \<open>simp_all add: nv_def cls_def exact_def ctl_def fun_eq_iff entry_ok_def\<close>)

lemma dq_total: "wtotal f n (dq ds s) = cost s + vsum f (poids s) + esum (owed n s) (mapAssum2Card s) + dsum n ds"
  by (simp add: wtotal_def)

lemma dq_base: "base_inv (dq (d # ds) s) \<Longrightarrow> base_inv (dq ds s)"
  by (simp add: base_inv_def cardToAdd_ok_def)

lemma grows_dq:
  assumes "grows s s'"
  shows "grows (dq ds s) (dq ds s')"
proof -
  have "s' = s\<lparr>solver := a, poids := b, mapAssum2Card := c, lheap := d, cards := e\<rparr> \<Longrightarrow>
      dq ds s' = (dq ds s)\<lparr>solver := a, poids := b, mapAssum2Card := c, lheap := d, cards := e\<rparr>" for a b c d e by simp
  from this [OF growsD(10) [OF assms]] have rec: "dq ds s' = (dq ds s)\<lparr>solver := solver (dq ds s'), poids := poids (dq ds s'),
      mapAssum2Card := mapAssum2Card (dq ds s'), lheap := lheap (dq ds s'), cards := cards (dq ds s')\<rparr>" by simp
  note G = growsD [OF assms]
  show ?thesis unfolding grows_def by (intro conjI, rule_tac [5] rec) (use G(1-9) in simp_all)
qed

lemma grows_trans:
  assumes "grows s t" "grows t u"
  shows "grows s u"
proof -
  note S = growsD [OF assms(1)] and T = growsD [OF assms(2)]
  have "t = s\<lparr>solver := a, poids := b, mapAssum2Card := c, lheap := d, cards := e\<rparr> \<Longrightarrow>
      u = t\<lparr>solver := a', poids := b', mapAssum2Card := c', lheap := d', cards := e'\<rparr> \<Longrightarrow>
      u = s\<lparr>solver := solver u, poids := poids u, mapAssum2Card := mapAssum2Card u, lheap := lheap u, cards := cards u\<rparr>"
    for a b c d e a' b' c' d' e' by simp
  from this [OF S(10) T(10)]
  have rec: "u = s\<lparr>solver := solver u, poids := poids u, mapAssum2Card := mapAssum2Card u, lheap := lheap u, cards := cards u\<rparr>" .
  have rep: "replicate (nv t - nv s) x @ replicate (nv u - nv t) x = replicate (nv u - nv s) x" for x :: 'x
    using S(1) T(1) by (simp flip: replicate_add)
  have "poids u = poids s @ replicate (nv u - nv s) 0" "mapAssum2Card u = mapAssum2Card s @ replicate (nv u - nv s) None"
    unfolding T(3,4) unfolding S(3,4) append_assoc rep by (rule refl)+
  moreover have "\<exists>\<rho>. agree_upto (nv s) \<sigma> \<rho> \<and> exact \<rho> u" if "exact \<sigma> s" for \<sigma>
    using S(9) [OF that] T(9) agree_trans [OF _ _ S(1)] by meson
  moreover have "c < length (cards t)" if "c < length (cards s)" for c using that S(5) by simp
  ultimately show ?thesis
    unfolding grows_def by (intro conjI, rule_tac [5] rec) (use S(1,2,5-8) T(1,2,5-8) in auto)
qed

lemma grows_ctl: "grows s s' \<Longrightarrow> ctl s' = ctl s"
  by (drule growsD(10), erule ssubst) (simp add: ctl_def)

section \<open>One waiting core\<close>

text \<open>What the creation promises, the core \<open>c\<close> being taken off the list.\<close>

definition card_added :: "int list \<Rightarrow> int list \<times> int \<Rightarrow> (int list \<times> int) list \<Rightarrow> ems \<Rightarrow> int \<Rightarrow> ems \<Rightarrow> bool" where
  "card_added W c ds s v s' = (base_inv (dq ds s') \<and> weights_inv W (dq ds s') \<and> sim0 (dq (c # ds) s) (dq ds s') \<and>
     budget (dq ds s') = budget (dq (c # ds) s) \<and> cost s' = cost s \<and> ctl s' = ctl s \<and> cardToAdd s' = cardToAdd s \<and> litToRelax s' = litToRelax s \<and>
     (if v = 0 then wt (poids s') = wt (poids s)
      else wt (poids s') = wt_set v (snd c) (wt (poids s)) \<and> nat \<bar>v\<bar> = Suc (nv s) \<and> nv s < nv s'))"

lemma sim0_exact:
  assumes "grows s s'" "base_inv s" "\<And>\<sigma>. sat_all \<sigma> (cls s') \<Longrightarrow> obj \<sigma> s \<le> obj \<sigma> t" "\<And>\<sigma>. exact \<sigma> s' \<Longrightarrow> obj \<sigma> t = obj \<sigma> s"
    and t: "nv t = nv s'" "cls t = cls s'" "lheap t = lheap s'"
  shows "sim0 s t"
  unfolding sim_def
proof (intro conjI allI impI)
  note G = growsD [OF assms(1)]
  fix \<sigma> assume "exact \<sigma> s \<and> True"
  then obtain \<sigma>' where \<sigma>': "agree_upto (nv s) \<sigma> \<sigma>'" "exact \<sigma>' s'" using G(9) by blast
  have "exact \<sigma>' t" using \<sigma>'(2) exact_cong [OF t(3,2)] by blast
  moreover have "obj \<sigma>' t = obj \<sigma> s" using assms(4) [OF \<sigma>'(2)] obj_agree [OF assms(2) \<sigma>'(1)] by simp
  ultimately show "\<exists>\<sigma>'. agree_upto (nv s) \<sigma> \<sigma>' \<and> exact \<sigma>' t \<and> obj \<sigma>' t + 0 \<le> obj \<sigma> s" using \<sigma>'(1) by auto
qed (use growsD(1,2) [OF assms(1)] assms(3) t in auto)

lemma outs_length: "cards_inv s \<Longrightarrow> c < length (cards s) \<Longrightarrow> length (outs s c) \<le> maxVars (cards s ! c)"
  using cards_invD(5) [of s c] tot_ok_lazyVars by (fastforce simp: card_ok_def queue_ok_def outs_def)

text \<open>A store with one more cardinality, of which only output 1 may have a variable.\<close>

lemma new_card_quiet:
  assumes inv: "base_inv (dq (d # ds) s)" and W: "weights_inv W (dq (d # ds) s)"
    and g: "grows s s'" "cards_inv s'" "length (cards s') = Suc (length (cards s))" "\<forall>d < length (cards s). \<forall>j. out_open s' d j = out_open s d j"
      "\<forall>j \<ge> 2. out_open s' (length (cards s)) j"
  shows "base_inv (dq ds s')" "weights_inv W (dq ds s')" "wtotal (\<lambda>v w. \<bar>w\<bar>) length (dq ds s') = budget (dq ds s)" "obj \<sigma> (dq ds s') = obj \<sigma> (dq ds s)"
proof -
  note B0 = base_invD [OF inv]
  have inv1: "base_inv (dq ds s)" using dq_base [OF inv] .
  note G = grows_dq [OF g(1), of ds]
  show base: "base_inv (dq ds s')"
  proof (rule grows_base [OF G inv1], simp add: g(2), intro allI impI)
    fix c j assume c: "c < length (cards (dq ds s'))" "(1 :: nat) \<le> j" "out_open (dq ds s') c j"
    show "out_open (dq ds s') c (Suc j)"
    proof (cases "c < length (cards s)")
      case True
      then show ?thesis using c g(4) B0(2) [of c j] by simp
    next
      case False
      then have "c = length (cards s)" using c(1) g(3) by simp
      then show ?thesis using c(2) g(5) by simp
    qed
  qed
  have op: "\<forall>c < length (cards (dq ds s)). \<forall>j. out_open (dq ds s') c j = out_open (dq ds s) c j" using g(4) by simp
  note Q = grows_quiet [OF G inv1 base op]
  obtain ls w where d: "d = (ls, w)" "0 < w" using B0(7) by (cases d) (auto simp: cardToAdd_ok_def)
  have "budget (dq ds s) \<le> budget (dq (d # ds) s)" using d by (simp add: budget_def dq_total dsum_Cons)
  then have "weights_inv W (dq ds s)" using W by (simp add: weights_inv_def live_ok_def waiting_ok_def)
  then show "weights_inv W (dq ds s')" by (rule Q(3))
  show "wtotal (\<lambda>v w. \<bar>w\<bar>) length (dq ds s') = budget (dq ds s)" using Q(2) by (simp add: budget_def)
  have "wtotal (vcost \<sigma>) (count_true \<sigma>) (dq ds s') = wtotal (vcost \<sigma>) (count_true \<sigma>) (dq ds s)"
  proof (rule grows_wtotal [OF G inv1])
    fix v e assume "v < length (mapAssum2Card (dq ds s))" "mapAssum2Card (dq ds s) ! v = Some e"
    then have "entry_ok s v e" using base_invD(3) [OF inv1] by simp
    then show "out_open (dq ds s') (lc_card e) (lc_atMost e + 1) = out_open (dq ds s) (lc_card e) (lc_atMost e + 1)"
      using g(4) by (simp add: entry_ok_def)
  qed simp
  then show "obj \<sigma> (dq ds s') = obj \<sigma> (dq ds s)" by (simp add: obj_def)
qed

text \<open>A core of one literal: its cardinality says nothing.\<close>

lemma card_to_soft_unit:
  assumes inv: "base_inv (dq ((ls, w) # ds) s)" and W: "weights_inv W (dq ((ls, w) # ds) s)" and len: "length ls = 1"
  obtains s' where "card_to_soft (ls, w) s = Some (0, s')" "card_added W (ls, w) ds s 0 s'"
proof -
  let ?s0 = "dq ((ls, w) # ds) s" and ?c = "length (cards s)"
  note B = base_invD [OF inv]
  have ls: "ls \<noteq> []" "\<forall>l \<in> set ls. lit_upto (nv s) l" using B(7) by (auto simp: cardToAdd_ok_def)
  have ci: "cards_inv s" using B(1) by simp
  obtain s1 where s1: "make_card ls 1 s = Some (?c, s1)" "cards_inv s1" "grows s s1" "nv s1 = nv s"
    "length (cards s1) = Suc ?c" "cls s1 = cls s" "maxVars (cards s1 ! ?c) = length ls"
    "\<forall>d < ?c. \<forall>j. out_open s1 d j = out_open s d j"
    by (rule make_card_ok [OF ci ls]) (rule that)
  note G = growsD [OF s1(3)] and F = grows_fields [OF s1(3)]
  have op: "\<forall>j \<ge> 2. out_open s1 ?c j" using outs_length [OF s1(2), of ?c] s1(5,7) len by (simp add: out_open_def)
  note N = new_card_quiet [OF inv W s1(3,2,5,8) op]
  have tot: "wtotal f n ?s0 = wtotal f n (dq ds s)" if "n ls \<le> 1" for f n using that by (simp add: dq_total dsum_Cons)
  have o: "obj \<sigma> (dq ds s1) = obj \<sigma> ?s0" for \<sigma>
    using N(4) [of \<sigma>] tot [of "count_true \<sigma>" "vcost \<sigma>"] count_true_le [of \<sigma> ls] len by (simp add: obj_def)
  have "sim0 ?s0 (dq ds s1)" by (rule sim0_exact [OF grows_dq [OF s1(3)] inv, where t = "dq ds s1"]) (simp_all add: o)
  moreover have "budget (dq ds s1) = budget ?s0"
    using N(3) tot [of length "\<lambda>v w. \<bar>w\<bar>"] len by (simp add: budget_def)
  moreover have "ctl s1 = ctl s" by (rule grows_ctl [OF s1(3)])
  ultimately have "card_added W (ls, w) ds s 0 s1" using N(1,2) F G(3) by (simp add: card_added_def)
  moreover have "card_to_soft (ls, w) s = Some (0, s1)"
    using s1(1) eval_atMost_trivial [of ?c s1 1] s1(5,7) len by (simp add: card_to_soft_def)
  ultimately show ?thesis using that by blast
qed

text \<open>Filing the new literal under its weight: the index and the waiting literals.\<close>

lemma with_soft_weights:
  assumes inv: "base_inv s" and W: "weights_inv W s" and v: "0 < v" "v \<le> nv s" "mapAssum2Card s ! v = None" "poids s ! v = 0"
    and e: "entry_ok s v e" "out_open s (lc_card e) (lc_atMost e + 1)" and p: "wv_set (- int v) (lc_weight e) (poids s) = Some p"
    and bud: "budget (with_soft (- int v) e p s) < 9223372036854775808"
  shows "weights_inv W (with_soft (- int v) e p s)"
proof -
  let ?s = "with_soft (- int v) e p s"
  note WI = weights_invD [OF W] and B = base_invD [OF inv] and S = with_soft_ok [OF inv v e(1) p]
  note o = outs_cong [of ?s s, OF with_soft_simps(3,4)]
  have w: "0 < lc_weight e" using e(1) by (simp add: entry_ok_def)
  have vl: "nat \<bar>- int v\<bar> < length (poids s)" using v(2) B(9) by simp
  have z: "wt (poids s) (- int v) = 0" using wt_nth [OF vl] v(1,4) by simp
  have "wm.mirrors (mapWeight2Assum ?s) (wt (poids ?s))"
    using wm.mirrors_insert [OF WI(1) z _ w] v(1) S(3) by simp
  moreover have "live_ok W ?s u d" if u: "u < length (mapAssum2Card ?s)" "mapAssum2Card ?s ! u = Some d" for u d
  proof (cases "u = v")
    case True
    then have "d = e" using u v(2) B(10) by simp
    then show ?thesis using True S(4) v(2) B(9) w e(2) o by (simp add: live_ok_def)
  next
    case False
    then have d: "u < length (mapAssum2Card s)" "mapAssum2Card s ! u = Some d" "poids ?s ! u = poids s ! u" using u S(4) by simp_all
    then show ?thesis using WI(2) [OF d(1,2)] o by (simp add: live_ok_def)
  qed
  moreover have "waiting_ok ?s x" if "x \<in> set W" for x
  proof -
    have "waiting_ok s x" using WI(4) [OF that] .
    moreover have "nat (- x) \<noteq> v" using calculation v(3) by (auto simp: waiting_ok_def)
    ultimately show ?thesis using S(4) by (simp add: waiting_ok_def)
  qed
  ultimately show ?thesis using WI(3) bud by (simp add: weights_inv_def)
qed

text \<open>A core of several literals.\<close>

lemma make_and_ask:
  assumes ci: "cards_inv s" and ls: "\<forall>l \<in> set ls. lit_upto (nv s) l" and len: "2 \<le> length ls"
  obtains s1 s2 where "make_card ls 1 s = Some (length (cards s), s1)" "eval_atMost (length (cards s)) 1 s1 = Some (- (int (nv s) + 1), s2)"
    "cards_inv s2" "grows s s2" "nv s < nv s2" "length (cards s2) = Suc (length (cards s))"
    "out_var s2 (length (cards s)) 1 (int (nv s) + 1)" "mset (clits s2 (length (cards s))) = mset ls"
    "maxVars (cards s2 ! length (cards s)) = length ls" "\<forall>d < length (cards s). \<forall>j. out_open s2 d j = out_open s d j"
    "\<forall>j \<ge> 2. out_open s2 (length (cards s)) j"
proof -
  let ?c = "length (cards s)"
  have ne: "ls \<noteq> []" using len by auto
  obtain s1 where s1: "make_card ls 1 s = Some (?c, s1)" "cards_inv s1" "grows s s1" "nv s1 = nv s"
    "length (cards s1) = Suc ?c" "mset (clits s1 ?c) = mset ls" "maxVars (cards s1 ! ?c) = length ls"
    "\<forall>d < ?c. \<forall>j. out_open s1 d j = out_open s d j" "2 \<le> length ls \<longrightarrow> (\<forall>j. out_open s1 ?c j)"
    by (rule make_card_ok [OF ci ne ls]) (rule that)
  have c1: "?c < length (cards s1)" "1 < maxVars (cards s1 ! ?c)" using s1(5,7) len by simp_all
  obtain v s2 where s2: "eval_atMost ?c 1 s1 = Some (- v, s2)" "cards_inv s2" "grows s1 s2" "out_var s2 ?c 1 v" "length (cards s2) = length (cards s1)"
    "\<forall>d < length (cards s1). \<forall>j. out_open s2 d j = (out_open s1 d j \<and> \<not> (d = ?c \<and> j = 1))"
    "2 \<le> maxVars (cards s1 ! ?c) \<and> out_open s1 ?c 1 \<longrightarrow> v = int (nv s1) + 1"
    by (rule eval_atMost_ok [OF s1(2) c1]) (rule that)
  have v: "v = int (nv s) + 1" using s2(7) s1(4,7,9) len by simp
  have "lit_upto (nv s2) v" by (rule out_var_upto [OF s2(2) _ s2(4)]) (use s2(5) c1(1) in simp)
  then have nv2: "nv s < nv s2" using v by (simp add: lit_upto_def)
  have old: "\<forall>d < ?c. \<forall>j. out_open s2 d j = out_open s d j" using s2(6) s1(5,8) by simp
  have new: "\<forall>j \<ge> 2. out_open s2 ?c j" using s2(6) c1(1) s1(9) len by simp
  note G = growsD(6,7) [OF s2(3) c1(1)]
  have "mset (clits s2 ?c) = mset ls" "maxVars (cards s2 ! ?c) = length ls" using G s1(6,7) by simp_all
  then show ?thesis
    using that [OF s1(1) s2(1) [unfolded v] s2(2) grows_trans [OF s1(3) s2(3)] nv2 _ s2(4) [unfolded v] _ _ old new] s1(5) s2(5) by simp
qed

lemma card_to_soft_more:
  assumes inv: "base_inv (dq ((ls, w) # ds) s)" and W: "weights_inv W (dq ((ls, w) # ds) s)" and len: "2 \<le> length ls"
  obtains v s' where "card_to_soft (ls, w) s = Some (v, s')" "card_added W (ls, w) ds s v s'"
proof -
  let ?s0 = "dq ((ls, w) # ds) s" and ?c = "length (cards s)" and ?v = "Suc (nv s)"
  note B = base_invD [OF inv]
  have ls: "\<forall>l \<in> set ls. lit_upto (nv s) l" and w: "0 < w" using B(7) by (auto simp: cardToAdd_ok_def)
  have ci: "cards_inv s" using B(1) by simp
  obtain s1 s2 where s2: "make_card ls 1 s = Some (?c, s1)" "eval_atMost ?c 1 s1 = Some (- (int (nv s) + 1), s2)"
    "cards_inv s2" "grows s s2" "nv s < nv s2" "length (cards s2) = Suc ?c" "out_var s2 ?c 1 (int (nv s) + 1)" "mset (clits s2 ?c) = mset ls"
    "maxVars (cards s2 ! ?c) = length ls" "\<forall>d < ?c. \<forall>j. out_open s2 d j = out_open s d j" "\<forall>j \<ge> 2. out_open s2 ?c j"
    by (rule make_and_ask [OF ci ls len])
  note N = new_card_quiet [OF inv W s2(4,3,6,10,11)] and G = growsD [OF s2(4)] and F = grows_fields [OF s2(4)]
  let ?t = "dq ds s2"
  note B2 = base_invD [OF N(1)]
  define e where "e = \<lparr>lc_card = ?c, lc_atMost = 1, lc_weight = w\<rparr>"
  have fl: "- (int (nv s) + 1) = - int ?v" "int (nv s) + 1 = int ?v" by simp_all
  have e: "entry_ok ?t ?v e" "out_open ?t (lc_card e) (lc_atMost e + 1)" "lc_weight e = w"
    using s2(6,7,9,11) len w by (simp_all add: entry_ok_def e_def add.commute)
  have v: "0 < ?v" "?v \<le> nv ?t" "mapAssum2Card ?t ! ?v = None" "poids ?t ! ?v = 0"
    using s2(5) G(3,4) B(9,10) by (simp_all add: nth_append)
  have nv: "nat \<bar>- int ?v\<bar> = ?v" by (simp only: abs_minus_cancel abs_of_nat nat_int)
  have vl: "nat \<bar>- int ?v\<bar> < length (poids ?t)" unfolding nv using v(2) B2(9) by simp
  then obtain p where p: "wv_set (- int ?v) w (poids ?t) = Some p" using wv_set_Some by blast
  define t where "t = with_soft (- int ?v) e p s2"
  have dqt: "with_soft (- int ?v) e p ?t = dq ds t" by (simp add: t_def with_soft_def)
  note S = with_soft_ok [OF N(1) v e(1) p [folded e(3)], unfolded dqt]
  have ow: "owed n ?t e = w * int (n (clits s2 ?c) - 2)" for n using e(2) by (simp add: owed_def) (simp add: e_def numeral_2_eq_2)
  have tot: "wtotal f n (dq ds t) = wtotal f n ?t + f (int ?v) (- w) + w * int (n ls - 2)"
    if "\<And>v. f v 0 = 0" "n (clits s2 ?c) = n ls" for f n
    using S(2) [where f = f and n = n, OF that(1)] unfolding ow that(2) e(3) .
  have ct: "count_true \<sigma> (clits s2 ?c) = count_true \<sigma> ls" for \<sigma> by (rule count_true_mset [OF s2(8)])
  have "budget (dq ds t) = budget (dq ds s) + w + w * int (length ls - 2)"
    using tot [of "\<lambda>v w. \<bar>w\<bar>" length] N(3) w mset_eq_length [OF s2(8)] by (simp add: budget_def)
  also have "\<dots> = budget ?s0" using len by (simp add: budget_def dq_total dsum_Cons of_nat_diff algebra_simps)
  finally have bud: "budget (dq ds t) = budget ?s0" .
  have objt: "obj \<sigma> (dq ds t) = obj \<sigma> ?s0 - w * int (count_true \<sigma> ls - 1) + (if \<sigma> (int ?v) then w else 0) + w * int (count_true \<sigma> ls - 2)" for \<sigma>
  proof -
    have "obj \<sigma> (dq ds s) = obj \<sigma> ?s0 - w * int (count_true \<sigma> ls - 1)" by (simp add: obj_def dq_total dsum_Cons)
    moreover have "vcost \<sigma> (int ?v) (- w) = (if \<sigma> (int ?v) then w else 0)" using w by (simp add: vcost_def)
    ultimately show ?thesis
      using tot [of "vcost \<sigma>" "count_true \<sigma>"] N(4) [of \<sigma>] ct by (simp add: obj_def)
  qed
  have rc: "(if 0 + 1 < n then w else 0) + w * int (n - 2) = w * int (n - 1)" for n
    using relax_cost [OF w, of 0 n] by (simp only: add_0)
  have c2: "?c < length (cards s2)" using s2(6) by simp
  have sim: "sim0 ?s0 (dq ds t)"
  proof (rule sim0_exact [OF grows_dq [OF s2(4)] inv, where t = "dq ds t"])
    fix \<sigma> assume "sat_all \<sigma> (cls (dq ((ls, w) # ds) s2))"
    then have "1 < count_true \<sigma> ls \<Longrightarrow> \<sigma> (int ?v)"
      using card_count(1) [OF s2(3) c2 s2(7)] ct unfolding fl(2) by (simp add: lit_true_def)
    then show "obj \<sigma> ?s0 \<le> obj \<sigma> (dq ds t)" using objt [of \<sigma>] rc [of "count_true \<sigma> ls"] w by (auto split: if_splits)
  next
    fix \<sigma> assume "exact \<sigma> (dq ((ls, w) # ds) s2)"
    then have "\<sigma> (int ?v) = (1 < count_true \<sigma> ls)"
      using card_count(2) [OF s2(3) c2 s2(7)] ct unfolding fl(2) by (simp add: lit_true_def)
    then show "obj \<sigma> (dq ds t) = obj \<sigma> ?s0" using objt [of \<sigma>] rc [of "count_true \<sigma> ls"] by auto
  qed (simp_all add: t_def)
  have "weights_inv W (dq ds t)"
    unfolding dqt [symmetric]
    by (rule with_soft_weights [OF N(1,2) v e(1,2) p [folded e(3)]]) (use bud weights_invD(5) [OF W] dqt in simp)
  moreover have "ctl t = ctl s" "litToRelax t = litToRelax s" "cardToAdd t = cardToAdd s" "cost t = cost s"
    using grows_ctl [OF s2(4)] F by (simp_all add: t_def ctl_def) (simp_all add: with_soft_def)
  moreover have "wt (poids t) = wt_set (- int ?v) w (wt (poids s))" using S(3) e(3) G(3) by (simp add: t_def)
  ultimately have "card_added W (ls, w) ds s (- int ?v) t"
    using S(1) sim bud s2(5) by (simp add: card_added_def t_def nat_add_distrib)
  moreover have "card_to_soft (ls, w) s = Some (- int ?v, t)"
  proof -
    have "budget ?s0 < 9223372036854775808" using weights_invD(5) [OF W] .
    then have "w \<le> t_weight_max"
      using budget_weight [OF S(1), of "- int ?v"] bud S(3) e(3) base_invD(6) [OF S(1)] w by (simp add: wt_set_def t_def t_weight_max_def)
    then have key: "u64 w = w" using w by (simp add: u64_id)
    have "wv_get (poids s2) (- int ?v) = Some 0" using wv_get_wt [OF vl] wt_nth [OF vl, unfolded nv] v(4) by simp
    then show ?thesis
      using s2(1,2) p w v(2) B2(10) key nv unfolding fl(1)
      by (simp add: card_to_soft_def set_poids_def mw_insert_def t_def with_soft_def e_def)
  qed
  ultimately show ?thesis using that by blast
qed

lemma card_to_soft_ok:
  assumes inv: "base_inv (dq (c # ds) s)" and W: "weights_inv W (dq (c # ds) s)"
  obtains v s' where "card_to_soft c s = Some (v, s')" "card_added W c ds s v s'"
proof -
  obtain ls w where c: "c = (ls, w)" by (cases c)
  have "ls \<noteq> []" using base_invD(7) [OF inv] c by (auto simp: cardToAdd_ok_def)
  then consider "length ls = 1" | "2 \<le> length ls" by (cases ls; cases "tl ls") auto
  then show ?thesis
    using card_to_soft_unit [of ls w ds s W] card_to_soft_more [of ls w ds s W] assms that c by cases blast+
qed

section \<open>The three loops\<close>

text \<open>All waiting cores have become cardinalities.\<close>

definition cards_added :: "int list \<Rightarrow> ems \<Rightarrow> ems \<Rightarrow> bool" where
  "cards_added W s s' = (base_inv s' \<and> weights_inv W s' \<and> sim0 s s' \<and> budget s' = budget s \<and> cost s' = cost s \<and> ctl s' = ctl s \<and>
     litToRelax s' = litToRelax s \<and> cardToAdd s' = [])"

lemma card_added_trans:
  assumes "card_added W c ds s v s1" "cards_added W (dq ds s1) s'"
  shows "cards_added W (dq (c # ds) s) s'"
  using assms sim0_trans [of "dq (c # ds) s" "dq ds s1" s'] by (simp add: card_added_def cards_added_def)

lemma consider_card_ok:
  assumes add: "card_added W c ds s v s'" and inv: "base_inv (dq (c # ds) s)" and A: "assum_ok m A s"
  obtains B where "consider_card m v A s' = Some B" "assum_ok m B s'"
proof (cases "v = 0")
  case True
  then show ?thesis using that [of A] add assum_ok_poids [OF A, of s'] by (simp add: consider_card_def card_added_def)
next
  case False
  note B = base_invD [OF inv]
  have v: "wt (poids s') = wt_set v (snd c) (wt (poids s))" "nat \<bar>v\<bar> = Suc (nv s)" "nv s < nv s'" "base_inv (dq ds s')"
    using add False by (auto simp: card_added_def)
  have w: "0 < snd c" using B(7) by (cases c) (auto simp: cardToAdd_ok_def)
  have "wt (poids s) v = 0" "wt (poids s) (- v) = 0" using v(2) B(9) by (simp_all add: wt_out)
  moreover have "nat \<bar>v\<bar> < length (poids s')" using v(2,3) base_invD(9) [OF v(4)] by simp
  ultimately obtain B where "consider_lit m v A s' = Some B" "assum_ok m B s'"
    by (rule consider_lit_ok [OF A v(1) w _ _ False])
  then show ?thesis using that False by (simp add: consider_card_def)
qed

lemma add_cards0_ok:
  "base_inv (dq ds s) \<Longrightarrow> weights_inv W (dq ds s) \<Longrightarrow> \<exists>s'. add_cards0 ds s = Some s' \<and> cards_added W (dq ds s) (dq [] s')"
proof (induction ds arbitrary: s)
  case Nil
  then show ?case by (simp add: cards_added_def sim_refl)
next
  case (Cons c ds)
  obtain v s1 where s1: "card_to_soft c s = Some (v, s1)" "card_added W c ds s v s1" by (rule card_to_soft_ok [OF Cons.prems])
  then show ?case using Cons.IH [of s1] card_added_trans [OF s1(2)] by (auto simp: card_added_def)
qed

lemma add_cards_ok:
  "base_inv (dq ds s) \<Longrightarrow> weights_inv W (dq ds s) \<Longrightarrow> assum_ok m A s \<Longrightarrow>
    \<exists>B s'. add_cards m ds A s = Some (B, s') \<and> cards_added W (dq ds s) (dq [] s') \<and> assum_ok m B s'"
proof (induction ds arbitrary: A s)
  case Nil
  then show ?case by (simp add: cards_added_def sim_refl)
next
  case (Cons c ds)
  obtain v s1 where s1: "card_to_soft c s = Some (v, s1)" "card_added W c ds s v s1" by (rule card_to_soft_ok [OF Cons.prems(1,2)])
  obtain B where B: "consider_card m v A s1 = Some B" "assum_ok m B s1" by (rule consider_card_ok [OF s1(2) Cons.prems(1,3)])
  have "base_inv (dq ds s1)" "weights_inv W (dq ds s1)" using s1(2) by (simp_all add: card_added_def)
  then obtain C s' where "add_cards m ds B s1 = Some (C, s')" "cards_added W (dq ds s1) (dq [] s')" "assum_ok m C s'"
    using Cons.IH [OF _ _ B(2)] by blast
  then show ?case using s1(1) B(1) card_added_trans [OF s1(2)] by auto
qed

lemma pop_cards_ok:
  "base_inv s \<Longrightarrow> weights_inv W s \<Longrightarrow> assum_ok m A s \<Longrightarrow>
    \<exists>B s'. pop_cards m A s = Some (B, s') \<and> cards_added W s s' \<and> assum_ok m B s'"
proof (induction "cardToAdd s" arbitrary: A s)
  case Nil
  then show ?case by (subst pop_cards.simps) (auto simp: cards_added_def sim_refl split: list.split)
next
  case (Cons c ds)
  have eq: "dq (c # ds) s = s" using Cons.hyps(2) by simp
  obtain v s1 where s1: "card_to_soft c s = Some (v, s1)" "card_added W c ds s v s1"
    by (rule card_to_soft_ok [of c ds s W]) (use Cons.prems eq in simp_all)
  obtain B where B: "consider_card m v A s1 = Some B" "assum_ok m B s1"
    by (rule consider_card_ok [OF s1(2) _ Cons.prems(3)]) (use Cons.prems(1) eq in simp)
  have s1': "base_inv (dq ds s1)" "weights_inv W (dq ds s1)" "cardToAdd s1 = c # ds"
    using s1(2) Cons.hyps(2) by (simp_all add: card_added_def)
  have "assum_ok m B (dq ds s1)" using assum_ok_poids [OF B(2), of "dq ds s1"] by simp
  then obtain C s' where C: "pop_cards m B (dq ds s1) = Some (C, s')" "cards_added W (dq ds s1) s'" "assum_ok m C s'"
    using Cons.hyps(1) [of "dq ds s1" B] s1' by auto
  have "pop_cards m A s = Some (C, s')"
    by (subst pop_cards.simps) (use Cons.hyps(2) [symmetric] s1(1) B(1) s1'(3) C(1) in simp)
  then show ?case using card_added_trans [OF s1(2) C(2)] C(3) eq by auto
qed

end
