(* ===== verification/Eval_Strata.thy ===== *)
theory Eval_Strata
  imports Eval_NewCards
begin

text \<open>
  Stratification and hardening: \<open>chooseNextMinWeight\<close> lowers the threshold of the weights that are
  assumed, \<open>harden\<close> turns soft literals that no better solution can falsify into unit clauses. Both
  drop empty buckets of the index.

  Hardening cuts off models, but only such that cost at least the cost of the best known solution:
  the simulation \<open>simU\<close> asks for an extension of the cheaper ones only.
\<close>

section \<open>The operations\<close>

fun harden_lits :: "int \<Rightarrow> int list \<Rightarrow> int list \<Rightarrow> ems \<Rightarrow> (int list \<times> ems) option" where
  "harden_lits maxCostLit [] assum s = Some (assum, s)"
| "harden_lits maxCostLit (lit # lits) assum s =
     do { p \<leftarrow> wv_get (poids s) lit;
          if \<not> p \<ge> maxCostLit then None
          else do { s \<leftarrow> addClause_hard [lit] s; harden_lits maxCostLit lits (set_erase lit assum) s } }"

partial_function (option) harden_loop :: "int \<Rightarrow> nat \<Rightarrow> int list \<Rightarrow> ems \<Rightarrow> (nat \<times> int list \<times> ems) option" where
  [code]: "harden_loop maxCostLit nbHarden assum s =
     (if mapWeight2Assum s = [] then None
      else if fst (last (mapWeight2Assum s)) \<ge> maxCostLit then
        let lits = snd (last (mapWeight2Assum s))
        in do { (assum, s) \<leftarrow> harden_lits maxCostLit lits assum s;
                if length (mapWeight2Assum s) = 1 then Some (nbHarden + length lits, assum, s)
                else harden_loop maxCostLit (nbHarden + length lits) assum
                       (if snd (last (mapWeight2Assum s)) = [] then s\<lparr>mapWeight2Assum := butlast (mapWeight2Assum s)\<rparr> else s) }
      else Some (nbHarden, assum, s))"

definition harden :: "int list \<Rightarrow> ems \<Rightarrow> (nat \<times> int list \<times> ems) option" where
  "harden assum s =
     (if is_incremental s then Some (0, assum, s)
      else if length (mapWeight2Assum s) = 0 then Some (0, assum, s)
      else if length (mapWeight2Assum s) = 1 \<and> fst (hd (mapWeight2Assum s)) = 1 then Some (0, assum, s)
      else harden_loop (u64 (solutionCost s - cost s)) 0 assum s)"

text \<open>
  The loop of \<open>chooseNextMinWeight\<close>. The buckets before \<open>lower_bound(minWeightToConsider)\<close> are those
  with a smaller key; \<open>it\<close> is the last of them and \<open>it2\<close> the one before. When \<open>it\<close> is \<open>begin()\<close>, the
  source decrements it: the choice says whether the result is \<open>end()\<close> or \<open>it\<close> again.
\<close>

partial_function (option) choose_loop :: "choices \<Rightarrow> int \<Rightarrow> int \<Rightarrow> ems \<Rightarrow> (int \<times> ems) option" where
  [code]: "choose_loop Ch previousWeight minWeightToConsider s =
     (let below = takeWhile (\<lambda>(w, lits). w < minWeightToConsider) (mapWeight2Assum s)
      in if below = [] then Some (1, s)
         else
           let (w, lits) = last below
           in if lits = [] then
                let s = s\<lparr>mapWeight2Assum := map_erase_key w (mapWeight2Assum s)\<rparr>
                in if length (mapWeight2Assum s) \<le> 1 then Some (1, s)
                   else choose_loop Ch previousWeight minWeightToConsider s
              else if length below = 1 \<and> ch_decr Ch (c_calls (cad (solver s))) then Some (1, s)
              else
                let w2 = (if length below = 1 then w else fst (last (butlast below)))
                in if ch_ratio Ch w2 previousWeight 1 2 then Some (w, s)
                   else choose_loop Ch previousWeight w s)"

definition chooseNextMinWeight :: "choices \<Rightarrow> int \<Rightarrow> ems \<Rightarrow> (int \<times> ems) option" where
  "chooseNextMinWeight Ch minWeightToConsider s =
     (if length (mapWeight2Assum s) \<le> 1 then Some (1, s)
      else choose_loop Ch minWeightToConsider minWeightToConsider s)"

section \<open>Simulation of the models below a bound\<close>

definition simU :: "bool \<Rightarrow> int \<Rightarrow> ems \<Rightarrow> ems \<Rightarrow> bool" where
  "simU inc U s s' = sim (\<lambda>\<sigma>. inc \<or> obj \<sigma> s < U) (\<lambda>\<sigma>. 0) s s'"

lemma sim_weaken: "sim G D s s' \<Longrightarrow> (\<And>\<sigma>. exact \<sigma> s \<Longrightarrow> G' \<sigma> \<Longrightarrow> G \<sigma>) \<Longrightarrow> sim G' D s s'"
  unfolding sim_def by blast

lemma sim0_simU: "sim0 s s' \<Longrightarrow> simU inc U s s'"
  unfolding simU_def by (erule sim_weaken) simp

lemma simU_mono: "simU inc U s s' \<Longrightarrow> U' \<le> U \<Longrightarrow> simU inc U' s s'"
  unfolding simU_def by (erule sim_weaken) auto

lemma simU_trans:
  assumes 1: "simU inc U s t" and 2: "simU inc U t u"
  shows "simU inc U s u"
  unfolding simU_def sim_def
proof (intro conjI allI impI)
  show "nv s \<le> nv u" "cls s \<subseteq> cls u" using 1 2 by (auto simp: simU_def sim_def)
  show "obj \<sigma> s \<le> obj \<sigma> u + 0" if "sat_all \<sigma> (cls u)" for \<sigma>
  proof -
    have "sat_all \<sigma> (cls t)" using 2 that sat_all_mono by (auto simp: simU_def sim_def)
    then show ?thesis using 1 2 that by (fastforce simp: simU_def sim_def)
  qed
  fix \<sigma> assume \<sigma>: "exact \<sigma> s \<and> (inc \<or> obj \<sigma> s < U)"
  then obtain \<sigma>1 where 3: "agree_upto (nv s) \<sigma> \<sigma>1" "exact \<sigma>1 t" "obj \<sigma>1 t \<le> obj \<sigma> s"
    using 1 unfolding simU_def sim_def by fastforce
  then have "inc \<or> obj \<sigma>1 t < U" using \<sigma> by auto
  then obtain \<sigma>2 where 4: "agree_upto (nv t) \<sigma>1 \<sigma>2" "exact \<sigma>2 u" "obj \<sigma>2 u \<le> obj \<sigma>1 t"
    using 2 3(2) unfolding simU_def sim_def by fastforce
  have "agree_upto (nv s) \<sigma> \<sigma>2" using agree_trans [OF 3(1) 4(1)] 1 by (simp add: simU_def sim_def)
  then show "\<exists>\<sigma>'. agree_upto (nv s) \<sigma> \<sigma>' \<and> exact \<sigma>' u \<and> obj \<sigma>' u + 0 \<le> obj \<sigma> s" using 3(3) 4(2,3) by force
qed

section \<open>Dropping empty buckets\<close>

definition reindexed :: "ems \<Rightarrow> ems \<Rightarrow> bool" where
  "reindexed s s' = (\<exists>m. s' = s\<lparr>mapWeight2Assum := m\<rparr> \<and> map_wf m \<and> (\<forall>k. set (map_at m k) = set (map_at (mapWeight2Assum s) k)))"

lemma reindexed_trans: "reindexed s t \<Longrightarrow> reindexed t u \<Longrightarrow> reindexed s u"
  unfolding reindexed_def by auto

lemma reindexed_refl: "map_wf (mapWeight2Assum s) \<Longrightarrow> reindexed s s"
  unfolding reindexed_def by (rule exI [of _ "mapWeight2Assum s"]) simp

lemma reindexed_ok:
  assumes "reindexed s s'"
  shows "poids s' = poids s" "kept s s'" "cost s' = cost s" "base_inv s' = base_inv s" "sim0 s s'" "budget s' = budget s"
    "weights_inv W s \<Longrightarrow> weights_inv W s'" "solver s' = solver s"
proof -
  obtain m where m: "s' = s\<lparr>mapWeight2Assum := m\<rparr>" "map_wf m" "\<forall>k. set (map_at m k) = set (map_at (mapWeight2Assum s) k)"
    using assms unfolding reindexed_def by blast
  show "poids s' = poids s" "kept s s'" "cost s' = cost s" "solver s' = solver s" by (simp_all add: m(1) kept_def)
  have F: "solver s' = solver s" "lheap s' = lheap s" "cards s' = cards s" "cardToAdd s' = cardToAdd s" "mapAssum2Card s' = mapAssum2Card s"
      "poids s' = poids s" "cost s' = cost s" by (simp_all add: m(1))
  have nv: "nv s' = nv s" "cls s' = cls s" using F(1) by (simp_all add: nv_def cls_def)
  note o = outs_cong [OF F(2,3)]
  show "base_inv s' = base_inv s" using F nv o cards_inv_cong [OF F(2,3,1)] by (simp add: base_inv_def entry_ok_def)
  have tot: "wtotal f n s' = wtotal f n s" for f n by (rule wtotal_cong) (use F in simp_all)
  show "sim0 s s'" using nv F tot by (intro sim_cong_obj) (simp_all add: obj_def)
  show bud: "budget s' = budget s" using tot by (simp add: budget_def)
  show "weights_inv W s'" if "weights_inv W s"
  proof -
    have "wm.mirrors (mapWeight2Assum s') (wt (poids s'))"
      using weights_invD(1) [OF that] m F(6) unfolding wm.mirrors_def by simp
    then show ?thesis using that F nv o bud by (simp add: weights_inv_def live_ok_def waiting_ok_def)
  qed
qed

lemma reindexed_erase_key:
  assumes "map_wf (mapWeight2Assum s)" "map_at (mapWeight2Assum s) w = []"
  shows "reindexed s (s\<lparr>mapWeight2Assum := map_erase_key w (mapWeight2Assum s)\<rparr>)"
  unfolding reindexed_def
  by (rule exI [of _ "map_erase_key w (mapWeight2Assum s)"]) (simp add: assms map_wf_erase_key map_at_erase_key)

lemma erase_key_last:
  assumes "map_wf (m @ [(w, ls)])"
  shows "map_erase_key w (m @ [(w, ls)]) = m"
proof -
  have "\<forall>x \<in> set m. fst x \<noteq> w" using assms by (auto simp: map_wf_def sorted_wrt_append)
  then show ?thesis by (simp add: map_erase_key_def filter_id_conv split_beta)
qed

section \<open>The next threshold\<close>

lemma takeWhile_below:
  assumes "map_wf m" "takeWhile (\<lambda>(w, lits). w < k) m = b @ [(w, ls)]"
  shows "w < k" "(w, ls) \<in> set m" "0 < w" "map_at m w = ls" "length (map_erase_key w m) < length m"
proof -
  have "(w, ls) \<in> set (takeWhile (\<lambda>(w, lits). w < k) m)" using assms(2) by simp
  then show k: "w < k" and in_m: "(w, ls) \<in> set m" by (auto dest: set_takeWhileD)
  show "0 < w" using assms(1) in_m by (auto simp: map_wf_def)
  show "map_at m w = ls" using map_at_in [OF assms(1) in_m] .
  show "length (map_erase_key w m) < length m"
    unfolding map_erase_key_def using in_m by (intro length_filter_less [of "(w, ls)"]) auto
qed

lemma choose_loop_ok:
  "map_wf (mapWeight2Assum s) \<Longrightarrow> \<exists>r s'. choose_loop Ch pw m s = Some (r, s') \<and> reindexed s s' \<and> 1 \<le> r \<and> (r = 1 \<or> r < m)"
proof (induction "(m, s)" arbitrary: m s
    rule: wf_induct_rule [OF wf_measures [of "[\<lambda>(m, s). length (mapWeight2Assum s), \<lambda>(m, s). nat m]"]])
  case 1
  let ?M = "measures [\<lambda>(m, s). length (mapWeight2Assum s), \<lambda>(m, s). nat m]"
  let ?ms = "mapWeight2Assum s" and ?b = "takeWhile (\<lambda>(w, lits). w < m) (mapWeight2Assum s)"
  note rr = reindexed_refl [OF 1(2)]
  show ?case
  proof (cases ?b rule: rev_cases)
    case Nil
    then show ?thesis using rr by (subst choose_loop.simps) simp
  next
    case (snoc b x)
    obtain w ls where x: "x = (w, ls)" by (cases x)
    note B = takeWhile_below [OF 1(2) snoc [unfolded x]]
    show ?thesis
    proof (cases "ls = []")
      case True
      let ?s = "s\<lparr>mapWeight2Assum := map_erase_key w ?ms\<rparr>"
      have r: "reindexed s ?s" using reindexed_erase_key [OF 1(2)] B(4) True by simp
      have eq: "choose_loop Ch pw m s = (if length (mapWeight2Assum ?s) \<le> 1 then Some (1, ?s) else choose_loop Ch pw m ?s)"
        by (subst choose_loop.simps) (simp add: Let_def snoc x True)
      show ?thesis
      proof (cases "length (mapWeight2Assum ?s) \<le> 1")
        case False
        have "((m, ?s), (m, s)) \<in> ?M" using B(5) by simp
        moreover have "map_wf (mapWeight2Assum ?s)" using map_wf_erase_key [OF 1(2)] by simp
        ultimately show ?thesis using 1(1) [of m ?s] False eq reindexed_trans [OF r] by auto
      qed (use eq r in auto)
    next
      case False
      define w2 where "w2 = (if length ?b = 1 then w else fst (last (butlast ?b)))"
      have eq: "choose_loop Ch pw m s = (if length ?b = 1 \<and> ch_decr Ch (c_calls (cad (solver s))) then Some (1, s)
          else if ch_ratio Ch w2 pw 1 2 then Some (w, s) else choose_loop Ch pw w s)"
        by (subst choose_loop.simps) (simp add: Let_def snoc x False w2_def)
      have "((w, s), (m, s)) \<in> ?M" using B(1,3) by simp
      then obtain r s' where r: "choose_loop Ch pw w s = Some (r, s')" "reindexed s s'" "1 \<le> r" "r = 1 \<or> r < w"
        using 1(1) [of w s] 1(2) by blast
      show ?thesis
        unfolding eq using r B(1,3) rr by (cases "length ?b = 1 \<and> ch_decr Ch (c_calls (cad (solver s)))"; cases "ch_ratio Ch w2 pw 1 2") auto
    qed
  qed
qed

lemma chooseNextMinWeight_ok:
  assumes "weights_inv W s"
  obtains r s' where "chooseNextMinWeight Ch m s = Some (r, s')" "reindexed s s'" "1 \<le> r" "r = 1 \<or> r < m"
proof -
  have wf: "map_wf (mapWeight2Assum s)" using wm.mirrors_wf [OF weights_invD(1) [OF assms]] .
  show ?thesis
  proof (cases "length (mapWeight2Assum s) \<le> 1")
    case True
    then show ?thesis using that [of 1 s] reindexed_refl [OF wf] by (simp add: chooseNextMinWeight_def)
  next
    case False
    then show ?thesis using that choose_loop_ok [OF wf, of Ch m m] by (auto simp: chooseNextMinWeight_def)
  qed
qed

section \<open>Hardening\<close>

text \<open>What hardening keeps, with a cost \<open>U\<close> that is known to be attained.\<close>

definition hardened :: "int \<Rightarrow> int list \<Rightarrow> ems \<Rightarrow> ems \<Rightarrow> bool" where
  "hardened U W s s' = (base_inv s' \<and> weights_inv W s' \<and> simU False U s s' \<and> budget s' \<le> budget s \<and> kept s s' \<and> cost s' = cost s)"

lemma hardened_trans: "hardened U W s t \<Longrightarrow> hardened U W t u \<Longrightarrow> hardened U W s u"
  unfolding hardened_def using simU_trans [of False U s t u] kept_trans [of s t u] by auto

lemma hardened_refl: "base_inv s \<Longrightarrow> weights_inv W s \<Longrightarrow> hardened U W s s"
  by (simp add: hardened_def sim0_simU [OF sim_refl])

lemma reindexed_hardened: "reindexed s s' \<Longrightarrow> base_inv s \<Longrightarrow> weights_inv W s \<Longrightarrow> hardened U W s s'"
  by (simp add: hardened_def reindexed_ok sim0_simU)

lemma addClause_hard_index:
  assumes "addClause_hard [l] s = Some s'" "0 < wt (poids s) l" "wt (poids s) l \<le> t_weight_max"
  shows "mapWeight2Assum s' = map_erase_at (wt (poids s) l) l (mapWeight2Assum s)" "length (poids s') = length (poids s)"
proof -
  have "wv_get (poids s) l = Some (wt (poids s) l)" using wt_nonzero_in [of "poids s" l] wv_get_wt assms(2) by simp
  then show "mapWeight2Assum s' = map_erase_at (wt (poids s) l) l (mapWeight2Assum s)" "length (poids s') = length (poids s)"
    using assms u64_id [of "wt (poids s) l"] wv_set_length
    by (auto simp: addClause_hard_def addClause_unit_def set_poids_def mw_erase_def emit_def split: if_splits)
qed

lemma harden_clause:
  assumes inv: "base_inv s" and W: "weights_inv W s" and l: "0 < wt (poids s) l" "U - cost s \<le> wt (poids s) l"
  obtains s' where "addClause_hard [l] s = Some s'" "hardened U W s s'" "settled [l] s s'"
    "mapWeight2Assum s' = map_erase_at (wt (poids s) l) l (mapWeight2Assum s)" "length (poids s') = length (poids s)"
proof -
  have l0: "l \<noteq> 0" "lit_upto (nv s) l" using soft_upto [OF inv, of l] l(1) by auto
  then have up: "\<forall>x \<in> set [l]. lit_upto (nv s) x" by simp
  obtain s' where s': "addClause_hard [l] s = Some s'" "base_inv s'" "weights_inv W s'"
    "sim (\<lambda>\<sigma>. sat_clause \<sigma> [l]) (\<lambda>\<sigma>. 0) s s'" "budget s' \<le> budget s" "settled [l] s s'" "kept s s'" "cost s' = cost s + forfeit [l] s"
    by (rule addClause_hard_ok [OF inv W up]) (rule that)
  have "simU False U s s'"
    unfolding simU_def
  proof (rule sim_weaken [OF s'(4)])
    fix \<sigma> assume "False \<or> obj \<sigma> s < U"
    then have "obj \<sigma> s < U" by simp
    then have "lcost \<sigma> l (wt (poids s) l) < wt (poids s) l" using obj_ge_weight [OF inv l0(1), of \<sigma>] l(2) by linarith
    then show "sat_clause \<sigma> [l]" using l(1) by (simp add: lcost_def split: if_splits)
  qed
  moreover have "forfeit [l] s = 0" using l(1) by (simp add: forfeit_def)
  moreover have "wt (poids s) l \<le> t_weight_max"
    using budget_weight [OF inv, of l] base_invD(6) [OF inv] weights_invD(5) [OF W] l(1) by (simp add: t_weight_max_def)
  ultimately show ?thesis
    using that [OF s'(1) _ s'(6)] s' addClause_hard_index [OF s'(1) l(1)] by (simp add: hardened_def)
qed

lemma harden_assum:
  assumes A: "assum_ok m A s" and inv: "base_inv s" and l: "0 < wt (poids s) l" and st: "settled [l] s s'"
    and len: "length (poids s') = length (poids s)"
  shows "assum_ok m (set_erase l A) s'"
proof -
  have m: "1 \<le> m" "increasing A" "set A = {l. m \<le> wt (poids s) l}" using A by (auto simp: assum_ok_def)
  have neg: "wt (poids s) (- l) < 0" using wt_neg [OF base_invD(4) [OF inv], of l] l by simp
  have "m \<le> wt (poids s') x \<longleftrightarrow> x \<in> set A - {l}" for x
  proof (cases "nat \<bar>x\<bar> \<le> nv s")
    case True
    then have "wt (poids s') x = (if \<bar>x\<bar> = \<bar>l\<bar> then 0 else wt (poids s) x)" using st by (simp add: settled_def)
    moreover have "wt (poids s) x < m" if "\<bar>x\<bar> = \<bar>l\<bar>" "x \<noteq> l"
    proof -
      have "x = - l" using that by linarith
      then show ?thesis using neg m(1) by simp
    qed
    ultimately show ?thesis using m by (cases "x = l"; cases "\<bar>x\<bar> = \<bar>l\<bar>") auto
  next
    case False
    then have "wt (poids s) x = 0" using soft_upto(2) [OF inv, of x] by blast
    moreover have "wt (poids s') x = 0" using False len base_invD(9) [OF inv] by (simp add: wt_out)
    ultimately show ?thesis using m(1,3) by simp
  qed
  then show ?thesis using m(1,2) by (auto simp: assum_ok_def strict_set_erase)
qed

lemma map_erase_at_last:
  "\<forall>x \<in> set b. fst x < w \<Longrightarrow> map_erase_at w x (b @ [(w, ls)]) = b @ [(w, set_erase x ls)]"
  unfolding map_erase_at_def by (induction b) auto

lemma fold_erase_last:
  "\<forall>x \<in> set b. fst x < w \<Longrightarrow> fold (map_erase_at w) xs (b @ [(w, ls)]) = b @ [(w, fold set_erase xs ls)]"
  by (induction xs arbitrary: ls) (simp_all add: map_erase_at_last)

lemma fold_erase_all: "fold set_erase ls ls = []"
  by (induction ls) (simp_all add: set_erase_def)

lemma harden_lits_ok:
  "base_inv s \<Longrightarrow> weights_inv W s \<Longrightarrow> distinct ls \<Longrightarrow> \<forall>l \<in> set ls. wt (poids s) l = w \<Longrightarrow> 0 < w \<Longrightarrow> mx \<le> w \<Longrightarrow> U - cost s \<le> w \<Longrightarrow>
    \<exists>B s'. harden_lits mx ls A s = Some (B, s') \<and> hardened U W s s' \<and>
      mapWeight2Assum s' = fold (map_erase_at w) ls (mapWeight2Assum s) \<and> (\<forall>m. assum_ok m A s \<longrightarrow> assum_ok m B s')"
proof (induction ls arbitrary: A s)
  case Nil
  then show ?case by (simp add: hardened_refl)
next
  case (Cons l ls)
  have l: "wt (poids s) l = w" "0 < wt (poids s) l" "U - cost s \<le> wt (poids s) l" using Cons.prems(4,5,7) by auto
  have get: "wv_get (poids s) l = Some w" using wt_nonzero_in [of "poids s" l] wv_get_wt l(1,2) by simp
  obtain s1 where s1: "addClause_hard [l] s = Some s1" "hardened U W s s1" "settled [l] s s1"
      "mapWeight2Assum s1 = map_erase_at (wt (poids s) l) l (mapWeight2Assum s)" "length (poids s1) = length (poids s)"
    by (rule harden_clause [OF Cons.prems(1,2) l(2,3)])
  have h: "base_inv s1" "weights_inv W s1" "cost s1 = cost s" using s1(2) by (simp_all add: hardened_def)
  have "wt (poids s1) x = w" if "x \<in> set ls" for x
  proof -
    have x: "wt (poids s) x = w" "x \<noteq> l" "0 < wt (poids s) x" using that Cons.prems(3,4,5) by auto
    then show ?thesis
      using s1(3) soft_upto(2) [OF Cons.prems(1), of x] soft_distinct [OF Cons.prems(1) l(2) x(3,2)] by (simp add: settled_def)
  qed
  then obtain B s' where B: "harden_lits mx ls (set_erase l A) s1 = Some (B, s')" "hardened U W s1 s'"
      "mapWeight2Assum s' = fold (map_erase_at w) ls (mapWeight2Assum s1)" "\<forall>m. assum_ok m (set_erase l A) s1 \<longrightarrow> assum_ok m B s'"
    using Cons.IH [OF h(1,2), of "set_erase l A"] Cons.prems h(3) by auto
  have "assum_ok m B s'" if "assum_ok m A s" for m
    using B(4) harden_assum [OF that Cons.prems(1) l(2) s1(3,5)] by blast
  then show ?case
    using get s1(1,4) B(1,3) Cons.prems(6) l(1) hardened_trans [OF s1(2) B(2)] by auto
qed

text \<open>The loop ends: every round drops the last bucket, or leaves with a single one.\<close>

lemma harden_loop_ok:
  "base_inv s \<Longrightarrow> weights_inv W s \<Longrightarrow> mapWeight2Assum s \<noteq> [] \<Longrightarrow> U - cost s \<le> mx \<Longrightarrow>
    \<exists>nb' B s'. harden_loop mx nb A s = Some (nb', B, s') \<and> hardened U W s s' \<and> mapWeight2Assum s' \<noteq> [] \<and>
      (\<forall>m. assum_ok m A s \<longrightarrow> assum_ok m B s') \<and> (nb < nb' \<longrightarrow> (\<exists>l. 0 < wt (poids s) l \<and> mx \<le> wt (poids s) l)) \<and> nb \<le> nb'"
proof (induction "length (mapWeight2Assum s)" arbitrary: nb A s rule: less_induct)
  case less
  obtain b w ls where m: "mapWeight2Assum s = b @ [(w, ls)]" using less.prems(3) by (metis rev_exhaust surj_pair)
  note M = weights_invD(1) [OF less.prems(2)]
  have wf: "map_wf (mapWeight2Assum s)" using wm.mirrors_wf [OF M] .
  have at: "map_at (mapWeight2Assum s) w = ls" "0 < w" "increasing ls" "\<forall>x \<in> set b. fst x < w"
    using map_at_in [OF wf, of w ls] wf m by (auto simp: map_wf_def sorted_wrt_append)
  have bucket: "wt (poids s) l = w" if "l \<in> set ls" for l using wm.mirrors_bucket [OF M, of l w] at(1) that by simp
  show ?case
  proof (cases "w \<ge> mx")
    case False
    then show ?thesis using hardened_refl [OF less.prems(1,2)] m by (subst harden_loop.simps) simp
  next
    case True
    have "distinct ls" using at(3) by (simp add: strict_sorted_iff)
    then obtain B s1 where s1: "harden_lits mx ls A s = Some (B, s1)" "hardened U W s s1"
        "mapWeight2Assum s1 = fold (map_erase_at w) ls (mapWeight2Assum s)" "\<forall>m. assum_ok m A s \<longrightarrow> assum_ok m B s1"
      using harden_lits_ok [OF less.prems(1,2) _ _ at(2) True, of ls U A] bucket less.prems(4) True by auto
    have m1: "mapWeight2Assum s1 = b @ [(w, [])]" using s1(3) m fold_erase_last [OF at(4)] fold_erase_all by simp
    have ex: "0 < length ls \<longrightarrow> (\<exists>l. 0 < wt (poids s) l \<and> mx \<le> wt (poids s) l)"
      using bucket at(2) True by (cases ls) auto
    have h: "base_inv s1" "weights_inv W s1" "cost s1 = cost s" using s1(2) by (simp_all add: hardened_def)
    show ?thesis
    proof (cases "b = []")
      case True
      then have "harden_loop mx nb A s = Some (nb + length ls, B, s1)"
        by (subst harden_loop.simps) (use m m1 s1(1) \<open>w \<ge> mx\<close> in simp)
      then show ?thesis using s1(2,4) m1 ex by auto
    next
      case False
      let ?s = "s1\<lparr>mapWeight2Assum := b\<rparr>"
      have eq: "harden_loop mx nb A s = harden_loop mx (nb + length ls) B ?s"
        by (subst harden_loop.simps) (use m m1 s1(1) \<open>w \<ge> mx\<close> False in simp)
      have wf1: "map_wf (b @ [(w, [])])" using wm.mirrors_wf [OF weights_invD(1) [OF h(2)]] m1 by simp
      then have "map_at (mapWeight2Assum s1) w = []" using map_at_in [OF wf1, of w "[]"] m1 by simp
      then have re: "reindexed s1 ?s" using reindexed_erase_key [of s1 w] wf1 erase_key_last [OF wf1] m1 by simp
      note R = reindexed_ok [OF re] and H = reindexed_hardened [OF re h(1,2), of U]
      have "length (mapWeight2Assum ?s) < length (mapWeight2Assum s)" using m by simp
      then obtain nb' C s' where C: "harden_loop mx (nb + length ls) B ?s = Some (nb', C, s')" "hardened U W ?s s'" "mapWeight2Assum s' \<noteq> []"
          "\<forall>m. assum_ok m B ?s \<longrightarrow> assum_ok m C s'" "nb + length ls < nb' \<longrightarrow> (\<exists>l. 0 < wt (poids ?s) l \<and> mx \<le> wt (poids ?s) l)" "nb + length ls \<le> nb'"
        using less.hyps [of ?s "nb + length ls" B] R h False less.prems(4) by auto
      have old: "\<exists>l. 0 < wt (poids s) l \<and> mx \<le> wt (poids s) l" if "nb < nb'"
      proof (cases "ls = []")
        case True
        then have "s1 = s" "B = A" using s1(1) by simp_all
        then show ?thesis using C(5) that True R(1) by simp
      qed (use ex in simp)
      have "assum_ok m C s'" if "assum_ok m A s" for m
        using C(4) s1(4) that assum_ok_poids [of m B s1 ?s] R(1) by simp
      then show ?thesis
        using eq C(1,3,6) hardened_trans [OF s1(2) hardened_trans [OF H C(2)]] old by auto
    qed
  qed
qed

lemma u64_ge: "x \<le> t_weight_max \<Longrightarrow> x \<le> u64 x"
  using u64_id [of x] u64_range(1) [of x] by linarith

lemma harden_ok:
  assumes inv: "base_inv s" and W: "weights_inv W s" and U: "solutionCost s \<le> t_weight_max"
  obtains nb B s' where "harden A s = Some (nb, B, s')" "base_inv s'" "weights_inv W s'" "simU (is_incremental s) (solutionCost s) s s'"
    "budget s' \<le> budget s" "kept s s'" "cost s' = cost s" "\<forall>m. assum_ok m A s \<longrightarrow> assum_ok m B s'"
    "mapWeight2Assum s \<noteq> [] \<longrightarrow> mapWeight2Assum s' \<noteq> []"
    "nb \<noteq> 0 \<longrightarrow> (\<exists>l. 0 < wt (poids s) l \<and> u64 (solutionCost s - cost s) \<le> wt (poids s) l) \<and> mapWeight2Assum s \<noteq> []"
proof (cases "is_incremental s \<or> mapWeight2Assum s = [] \<or> length (mapWeight2Assum s) = 1 \<and> fst (hd (mapWeight2Assum s)) = 1")
  case True
  then have "harden A s = Some (0, A, s)" by (auto simp: harden_def)
  then show ?thesis using that [of 0 A s] inv W sim0_simU [OF sim_refl] by simp
next
  case False
  then have eq: "harden A s = harden_loop (u64 (solutionCost s - cost s)) 0 A s" by (auto simp: harden_def)
  have "solutionCost s - cost s \<le> u64 (solutionCost s - cost s)"
    by (rule u64_ge) (use U base_invD(6) [OF inv] in linarith)
  then obtain nb B s' where "harden A s = Some (nb, B, s')" "hardened (solutionCost s) W s s'" "mapWeight2Assum s' \<noteq> []"
      "\<forall>m. assum_ok m A s \<longrightarrow> assum_ok m B s'" "0 < nb \<longrightarrow> (\<exists>l. 0 < wt (poids s) l \<and> u64 (solutionCost s - cost s) \<le> wt (poids s) l)"
    unfolding eq using harden_loop_ok [OF inv W, of "solutionCost s" _ 0 A] False by blast
  then show ?thesis using that [of nb B s'] False by (auto simp: hardened_def)
qed

end
