(* ===== verification/Eval_Optimize.thy ===== *)
theory Eval_Optimize
  imports Eval_Strata
begin

text \<open>
  Class \<open>LocalOptimizer2\<close>: from a model of the hard clauses to a cheaper one, and the cost of a
  model. The object keeps a copy of the weights and of the constant cost from the moment of its
  construction. The limit it passes to the SAT solver is a number of seconds taken as a number of
  conflicts; its value is a choice.
\<close>

section \<open>The operations\<close>

record local_optimizer =
  lo_poids :: "int list"
  lo_initialWeight :: int

definition lo_new :: "ems \<Rightarrow> local_optimizer" where
  "lo_new s = \<lparr>lo_poids = poids s, lo_initialWeight = cost s\<rparr>"

fun cost_lits :: "int list \<Rightarrow> bool list \<Rightarrow> nat list \<Rightarrow> int \<Rightarrow> int option" where
  "cost_lits p sol [] coutSolution = Some coutSolution"
| "cost_lits p sol (lit # lits) coutSolution =
     (if \<not> lit < length sol then None
      else do { w \<leftarrow> wv_get p (int lit);
                cost_lits p sol lits
                  (if w > 0 then if \<not> sol ! lit then u64 (coutSolution + w) else coutSolution
                   else if w < 0 then if sol ! lit then u64 (coutSolution + - w) else coutSolution
                   else coutSolution) })"

definition calculateCostAssign :: "local_optimizer \<Rightarrow> bool list \<Rightarrow> int option" where
  "calculateCostAssign lo sol =
     do { coutSolution \<leftarrow> cost_lits (lo_poids lo) sol [1..<length (lo_poids lo)] 0;
          Some (u64 (coutSolution + lo_initialWeight lo)) }"

text \<open>The soft literals falsified by the model, with their weights, and the satisfied ones.\<close>

fun lo_scan :: "int list \<Rightarrow> bool list \<Rightarrow> nat list \<Rightarrow> (int \<times> int) list \<Rightarrow> int list \<Rightarrow> ((int \<times> int) list \<times> int list) option" where
  "lo_scan p sol [] softVarFalsified assumSatisfied = Some (softVarFalsified, assumSatisfied)"
| "lo_scan p sol (lit # lits) softVarFalsified assumSatisfied =
     (if \<not> lit < length sol then None
      else do { w \<leftarrow> wv_get p (int lit);
                if w > 0 then
                  if \<not> sol ! lit then lo_scan p sol lits (softVarFalsified @ [(w, int lit)]) assumSatisfied
                  else lo_scan p sol lits softVarFalsified (assumSatisfied @ [int lit])
                else if w < 0 then
                  if sol ! lit then do { w' \<leftarrow> wv_get p (- int lit); lo_scan p sol lits (softVarFalsified @ [(w', - int lit)]) assumSatisfied }
                  else lo_scan p sol lits softVarFalsified (assumSatisfied @ [- int lit])
                else lo_scan p sol lits softVarFalsified assumSatisfied })"

text \<open>The falsified literals are tried one after the other; those that can be satisfied stay assumed.\<close>

fun lo_improve :: "engine \<Rightarrow> choices \<Rightarrow> int list \<Rightarrow> int list \<Rightarrow> bool \<Rightarrow> ems \<Rightarrow> (int list \<times> bool \<times> ems) option" where
  "lo_improve E Ch [] assumSatisfied modify s = Some (assumSatisfied, modify, s)"
| "lo_improve E Ch (lit # lits) assumSatisfied modify s =
     do { (r, s) \<leftarrow> eval_solveLimited E (assumSatisfied @ [lit]) (ch_secs Ch (c_calls (cad (solver s)))) 0 s;
          if r \<noteq> 1 then lo_improve E Ch lits assumSatisfied modify s
          else lo_improve E Ch lits (assumSatisfied @ [lit]) True s }"

definition lo_optimize :: "engine \<Rightarrow> choices \<Rightarrow> local_optimizer \<Rightarrow> bool list \<Rightarrow> ems \<Rightarrow> (int \<times> bool list \<times> ems) option" where
  "lo_optimize E Ch lo sol s =
     do { (softVarFalsified, assumSatisfied) \<leftarrow> lo_scan (lo_poids lo) sol [1..<length (lo_poids lo)] [] [];
          (assumSatisfied, modify, s) \<leftarrow> lo_improve E Ch (rev (map snd softVarFalsified)) assumSatisfied False s;
          (sol, s) \<leftarrow> (if modify then
                         do { (tmp, s) \<leftarrow> eval_solve E assumSatisfied s;
                              if \<not> tmp then None else do { sol \<leftarrow> sc_getSolution (solver s); Some (sol, s) } }
                       else Some (sol, s));
          curCost \<leftarrow> calculateCostAssign lo sol;
          Some (curCost, sol, s) }"

section \<open>The cost of a model\<close>

text \<open>The cost of an assignment according to the copies the optimizer keeps, and a bound on it.\<close>

definition lo_cost :: "local_optimizer \<Rightarrow> asg \<Rightarrow> int" where
  "lo_cost lo \<sigma> = lo_initialWeight lo + vsum (vcost \<sigma>) (lo_poids lo)"

definition lo_ok :: "nat \<Rightarrow> local_optimizer \<Rightarrow> bool" where
  "lo_ok n lo = (0 < length (lo_poids lo) \<and> length (lo_poids lo) \<le> n + 1 \<and> lo_poids lo ! 0 = 0 \<and> 0 \<le> lo_initialWeight lo \<and>
     lo_initialWeight lo + vsum (\<lambda>v w. \<bar>w\<bar>) (lo_poids lo) < 9223372036854775808)"

lemma vcost_abs: "vcost \<sigma> v w \<le> \<bar>w\<bar>"
  by (simp add: vcost_def)

lemma vsum_mono: "(\<And>v w. f v w \<le> g v w) \<Longrightarrow> vsum f ws \<le> vsum g ws"
  by (simp add: vsum_def sum_mono)

lemma cost_lits_ok:
  assumes "0 \<le> acc" "acc + (\<Sum>v \<leftarrow> vs. \<bar>p ! v\<bar>) \<le> t_weight_max" "\<forall>v \<in> set vs. v < length p \<and> v < length sol"
  shows "cost_lits p sol vs acc = Some (acc + (\<Sum>v \<leftarrow> vs. vcost (model_of sol) (int v) (p ! v)))"
  using assms
proof (induction vs arbitrary: acc)
  case (Cons v vs)
  let ?c = "vcost (model_of sol) (int v) (p ! v)"
  have v: "v < length p" "v < length sol" using Cons.prems(3) by auto
  have get: "wv_get p (int v) = Some (p ! v)" using v(1) by (simp add: wv_get_def)
  have m: "model_of sol (int v) = sol ! v" using v(2) by (simp add: model_of_def)
  have "0 \<le> (\<Sum>v \<leftarrow> vs. \<bar>p ! v\<bar>)" by (intro sum_list_nonneg) auto
  then have b: "acc + \<bar>p ! v\<bar> \<le> t_weight_max" using Cons.prems(2) by simp
  have acc': "(if p ! v > 0 then if \<not> sol ! v then u64 (acc + p ! v) else acc
      else if p ! v < 0 then if sol ! v then u64 (acc + - (p ! v)) else acc else acc) = acc + ?c"
    using b Cons.prems(1) m by (auto simp: vcost_def u64_id)
  have "acc + ?c + (\<Sum>v \<leftarrow> vs. \<bar>p ! v\<bar>) \<le> t_weight_max" using Cons.prems(2) vcost_abs [of "model_of sol" "int v" "p ! v"] by simp
  then have "cost_lits p sol vs (acc + ?c) = Some (acc + ?c + (\<Sum>v \<leftarrow> vs. vcost (model_of sol) (int v) (p ! v)))"
    using Cons.IH [of "acc + ?c"] Cons.prems(1,3) vcost_nonneg [of "model_of sol" "int v" "p ! v"] by simp
  then show ?case using v(2) get acc' by simp
qed simp

lemma vsum_list: "0 < length ws \<Longrightarrow> f 0 (ws ! 0) = 0 \<Longrightarrow> vsum f ws = (\<Sum>v \<leftarrow> [1..<length ws]. f (int v) (ws ! v))"
proof -
  assume "0 < length ws" "f 0 (ws ! 0) = 0"
  then have "(\<Sum>v < length ws. f (int v) (ws ! v)) = (\<Sum>v \<in> {1..<length ws}. f (int v) (ws ! v))"
    by (simp add: lessThan_atLeast0 sum.atLeast_Suc_lessThan)
  then show ?thesis unfolding vsum_def by (simp add: interv_sum_list_conv_sum_set_nat)
qed

text \<open>\<open>calculateCostAssign\<close> computes that cost, without wrap-around.\<close>

lemma calculateCostAssign_ok:
  assumes "lo_ok n lo" "n < length sol"
  shows "calculateCostAssign lo sol = Some (lo_cost lo (model_of sol))"
proof -
  let ?p = "lo_poids lo" and ?vs = "[1..<length (lo_poids lo)]"
  have L: "0 < length ?p" "length ?p \<le> n + 1" "?p ! 0 = 0" "0 \<le> lo_initialWeight lo"
      "lo_initialWeight lo + vsum (\<lambda>v w. \<bar>w\<bar>) ?p < 9223372036854775808" using assms(1) by (simp_all add: lo_ok_def)
  have s: "vsum (\<lambda>v w. \<bar>w\<bar>) ?p = (\<Sum>v \<leftarrow> ?vs. \<bar>?p ! v\<bar>)" "vsum (vcost \<sigma>) ?p = (\<Sum>v \<leftarrow> ?vs. vcost \<sigma> (int v) (?p ! v))" for \<sigma>
    using vsum_list [OF L(1)] L(3) by simp_all
  have "cost_lits ?p sol ?vs 0 = Some (0 + (\<Sum>v \<leftarrow> ?vs. vcost (model_of sol) (int v) (?p ! v)))"
    by (rule cost_lits_ok) (use L s(1) assms(2) in \<open>auto simp: t_weight_max_def\<close>)
  then have c: "cost_lits ?p sol ?vs 0 = Some (vsum (vcost (model_of sol)) ?p)" unfolding s(2) by simp
  have "vsum (vcost (model_of sol)) ?p \<le> vsum (\<lambda>v w. \<bar>w\<bar>) ?p" by (rule vsum_mono) (rule vcost_abs)
  moreover have "0 \<le> vsum (vcost (model_of sol)) ?p" by (simp add: vsum_def sum_nonneg vcost_nonneg)
  ultimately have "u64 (vsum (vcost (model_of sol)) ?p + lo_initialWeight lo) = lo_cost lo (model_of sol)"
    using L(4,5) unfolding lo_cost_def by (subst u64_id) (simp_all add: t_weight_max_def)
  then show ?thesis using c by (simp add: calculateCostAssign_def)
qed

lemma lo_cost_bounds:
  assumes "lo_ok n lo"
  shows "0 \<le> lo_cost lo \<sigma>" "lo_cost lo \<sigma> < t_weight_max"
proof -
  have "vsum (vcost \<sigma>) (lo_poids lo) \<le> vsum (\<lambda>v w. \<bar>w\<bar>) (lo_poids lo)" by (rule vsum_mono) (rule vcost_abs)
  moreover have "0 \<le> vsum (vcost \<sigma>) (lo_poids lo)" by (simp add: vsum_def sum_nonneg vcost_nonneg)
  ultimately show "0 \<le> lo_cost lo \<sigma>" "lo_cost lo \<sigma> < t_weight_max"
    using assms by (simp_all add: lo_ok_def lo_cost_def t_weight_max_def)
qed

section \<open>Improving a model\<close>

lemma lo_scan_ok:
  assumes "\<forall>v \<in> set vs. 0 < v \<and> v < length p \<and> v < length sol" "0 \<notin> snd ` set fs" "0 \<notin> set as"
  shows "\<exists>fs' as'. lo_scan p sol vs fs as = Some (fs', as') \<and> 0 \<notin> snd ` set fs' \<and> 0 \<notin> set as'"
  using assms
proof (induction vs arbitrary: fs as)
  case (Cons v vs)
  have v: "0 < v" "v < length p" "v < length sol" using Cons.prems(1) by auto
  have get: "wv_get p (int v) = Some (p ! v)" "wv_get p (- int v) = Some (- (p ! v))" using v by (simp_all add: wv_get_def)
  have prems: "\<forall>v \<in> set vs. 0 < v \<and> v < length p \<and> v < length sol" using Cons.prems(1) by simp
  note IH = Cons.IH [OF prems]
  consider "p ! v > 0" "sol ! v" | "p ! v > 0" "\<not> sol ! v" | "p ! v < 0" "sol ! v" | "p ! v < 0" "\<not> sol ! v" | "p ! v = 0" by linarith
  then show ?case
  proof cases
    case 1
    then show ?thesis using IH [of fs "as @ [int v]"] v get Cons.prems by simp
  next
    case 2
    then show ?thesis using IH [of "fs @ [(p ! v, int v)]" as] v get Cons.prems by simp
  next
    case 3
    then show ?thesis using IH [of "fs @ [(- (p ! v), - int v)]" as] v get Cons.prems by simp
  next
    case 4
    then show ?thesis using IH [of fs "as @ [- int v]"] v get Cons.prems by simp
  next
    case 5
    then show ?thesis using IH [of fs as] v get Cons.prems by simp
  qed
qed simp

definition sat_with :: "ems \<Rightarrow> int list \<Rightarrow> bool" where
  "sat_with s A = (\<exists>\<sigma>. sat_all \<sigma> (cls s) \<and> (\<forall>a \<in> set A. lit_true \<sigma> a))"

lemma sc_sat_with: "sc_sat A (solver s) \<Longrightarrow> sat_with s A"
  unfolding sc_sat_def sat_with_def using satisfies_cls by blast

lemma lo_improve_ok:
  assumes E: "engine_ok E"
  shows "base_inv s \<Longrightarrow> 0 \<notin> set ls \<Longrightarrow> 0 \<notin> set as \<Longrightarrow> (md \<longrightarrow> sat_with s as) \<Longrightarrow>
    \<exists>as' md' s'. lo_improve E Ch ls as md s = Some (as', md', s') \<and> queried s s' \<and> (md' \<longrightarrow> sat_with s' as')"
proof (induction ls arbitrary: as md s)
  case Nil
  then show ?case using queried_refl [OF Nil(1)] by simp
next
  case (Cons l ls)
  let ?A = "as @ [l]"
  have f: "filter (\<lambda>l. l \<noteq> 0) ?A = ?A" using Cons.prems(2,3) by (auto simp: filter_id_conv)
  obtain r s1 where r: "eval_solveLimited E ?A (ch_secs Ch (c_calls (cad (solver s)))) 0 s = Some (r, s1)" "queried s s1"
      "r = 1 \<and> sc_sat (filter (\<lambda>l. l \<noteq> 0) ?A) (solver s1) \<or> r = 0 \<and> sc_unsat (filter (\<lambda>l. l \<noteq> 0) ?A) (solver s1) \<or> r = - 1"
    by (rule eval_solveLimited_ok [OF E Cons.prems(1)]) (rule that)
  have inv1: "base_inv s1" using queried_base [OF r(2) Cons.prems(1)] .
  show ?case
  proof (cases "r = 1")
    case True
    then have "sat_with s1 ?A" using r(3) f sc_sat_with by auto
    then obtain as' md' s' where "lo_improve E Ch ls ?A True s1 = Some (as', md', s')" "queried s1 s'" "md' \<longrightarrow> sat_with s' as'"
      using Cons.IH [OF inv1, of ?A True] Cons.prems(2,3) by auto
    then show ?thesis using True r(1) queried_trans [OF r(2)] by auto
  next
    case False
    have "md \<longrightarrow> sat_with s1 as" using Cons.prems(4) queried_fields(2) [OF r(2)] by (simp add: sat_with_def)
    then obtain as' md' s' where "lo_improve E Ch ls as md s1 = Some (as', md', s')" "queried s1 s'" "md' \<longrightarrow> sat_with s' as'"
      using Cons.IH [OF inv1, of as md] Cons.prems(2,3) by auto
    then show ?thesis using False r(1) queried_trans [OF r(2)] by auto
  qed
qed

lemma getSolution_ok:
  assumes "sc_sat A (solver s)"
  obtains m where "sc_getSolution (solver s) = Some m" "nv s < length m" "sat_all (model_of m) (cls s)" "\<forall>a \<in> set A. lit_true (model_of m) a"
proof -
  obtain m where "sc_getSolution (solver s) = Some m" "nVar (solver s) < length m" "satisfies (model_of m) (c_clauses (cad (solver s))) A"
    by (rule sc_getSolution_ok [OF assms])
  then show ?thesis using that by (simp add: satisfies_cls nv_def)
qed

text \<open>The final call cannot fail, so \<open>optimize\<close> returns a model of the hard clauses and its cost.\<close>

lemma lo_optimize_ok:
  assumes E: "engine_ok E" "engine_live E" and inv: "base_inv s" and lo: "lo_ok (nv s) lo"
    and sol: "nv s < length sol" "sat_all (model_of sol) (cls s)"
  obtains sol' s' where "lo_optimize E Ch lo sol s = Some (lo_cost lo (model_of sol'), sol', s')" "queried s s'"
    "nv s < length sol'" "sat_all (model_of sol') (cls s)"
proof -
  have vs: "\<forall>v \<in> set [1..<length (lo_poids lo)]. 0 < v \<and> v < length (lo_poids lo) \<and> v < length sol"
    using lo sol(1) by (auto simp: lo_ok_def)
  obtain fs as where sc: "lo_scan (lo_poids lo) sol [1..<length (lo_poids lo)] [] [] = Some (fs, as)" "0 \<notin> snd ` set fs" "0 \<notin> set as"
    using lo_scan_ok [OF vs, of "[]" "[]"] by auto
  obtain as' md s1 where im: "lo_improve E Ch (rev (map snd fs)) as False s = Some (as', md, s1)" "queried s s1" "md \<longrightarrow> sat_with s1 as'"
    using lo_improve_ok [OF E(1) inv, of "rev (map snd fs)" as False Ch] sc(2,3) by auto
  note Q = queried_fields [OF im(2)]
  show ?thesis
  proof (cases md)
    case False
    then have "lo_optimize E Ch lo sol s = Some (lo_cost lo (model_of sol), sol, s1)"
      by (simp del: bind_Some_iff add: lo_optimize_def sc(1) [simplified] im(1) calculateCostAssign_ok [OF lo sol(1)])
    then show ?thesis using that im(2) sol by blast
  next
    case True
    obtain b s2 where b: "eval_solve E as' s1 = Some (b, s2)" "queried s1 s2" "if b then sc_sat as' (solver s2) else sc_unsat as' (solver s2)"
      by (rule eval_solve_ok [OF E queried_base [OF im(2) inv]])
    note Q2 = queried_fields [OF b(2)]
    have "b" using b(3) im(3) True Q2(2) sc_unsat_cls [of as' s2] by (auto simp: sat_with_def split: if_splits)
    then have "sc_sat as' (solver s2)" using b(3) by simp
    then obtain m where m: "sc_getSolution (solver s2) = Some m" "nv s2 < length m" "sat_all (model_of m) (cls s2)"
      by (rule getSolution_ok)
    have "nv s < length m" "sat_all (model_of m) (cls s)" using m(2,3) Q(1,2) Q2(1,2) by simp_all
    moreover have "lo_optimize E Ch lo sol s = Some (lo_cost lo (model_of m), m, s2)"
      using True b(1) \<open>b\<close> m(1) calculateCostAssign_ok [OF lo calculation(1)]
      by (simp del: bind_Some_iff add: lo_optimize_def sc(1) [simplified] im(1))
    ultimately show ?thesis using that queried_trans [OF im(2) b(2)] by blast
  qed
qed

end
