(* ===== verification/Eval_Solve.thy ===== *)
theory Eval_Solve
  imports Eval_Optimize
begin

text \<open>
  \<open>EvalMaxSAT::solve\<close>: the prologue that takes up what an earlier call left behind, the search for
  sets of soft literals of which at most one can be true, and the main loop. The main loop asks the SAT
  solver for a model of all soft literals whose weight reaches the threshold. A model lowers the
  threshold, and ends the search when the threshold is 1. A core starts the inner loop, which collects
  disjoint cores with limited calls until the solver answers "satisfiable" or gives up.

  A \<open>flow\<close> says how a part of the loop body ends: with \<open>return\<close>, with \<open>break\<close>, or by going on. The
  variable \<open>lastSatAssum\<close>, which is only written, is left out.
\<close>

section \<open>The operations\<close>

datatype flow = Return bool ems | Break int "int list" ems | Next "int list" ems

definition solve_start :: "ems \<Rightarrow> ems option" where
  "solve_start s =
     do { s \<leftarrow> Some (s\<lparr>start_solve := True\<rparr>);
          s \<leftarrow> Some (if solutionCost s \<noteq> t_weight_max then s\<lparr>solutionCost := t_weight_max\<rparr> else s);
          s \<leftarrow> relax_all (litToRelax s) s;
          s \<leftarrow> Some (s\<lparr>litToRelax := []\<rparr>);
          s \<leftarrow> add_cards0 (cardToAdd s) s;
          Some (s\<lparr>cardToAdd := []\<rparr>) }"

definition harden_am1 :: "engine \<Rightarrow> int \<Rightarrow> int list \<Rightarrow> ems \<Rightarrow> (int list \<times> ems) option" where
  "harden_am1 E minWeightToConsider assum s =
     do { (n, assum, s) \<leftarrow> harden assum s;
          if n \<noteq> 0 then
            if mapWeight2Assum s = [] then None
            else do { (k, s) \<leftarrow> adapt_am1_VeryFastHeuristic E s;
                      Some (if k \<noteq> 0 then initAssum minWeightToConsider s else assum, s) }
          else Some (assum, s) }"

text \<open>The branch \<open>resultLastSolve == 0\<close>.\<close>

definition unsat_step :: "engine \<Rightarrow> choices \<Rightarrow> int \<Rightarrow> int list \<Rightarrow> ems \<Rightarrow> flow option" where
  "unsat_step E Ch minWeightToConsider assum s =
     do { (conflict, s) \<leftarrow> find_core E Ch assum s;
          if conflict = [] then Some (Return (solutionCost s \<noteq> t_weight_max) s)
          else do { (assum, s) \<leftarrow> apply_core minWeightToConsider conflict assum s;
                    if cost s = solutionCost s then Some (Return True s)
                    else if mapWeight2Assum s = [] then None
                    else if fst (last (mapWeight2Assum s)) \<ge> u64 (solutionCost s - cost s) then
                      do { (assum, s) \<leftarrow> harden_am1 E minWeightToConsider assum s; Some (Next assum s) }
                    else Some (Next assum s) } }"

text \<open>The branch \<open>resultLastSolve == 1\<close>.\<close>

definition improve_step :: "engine \<Rightarrow> choices \<Rightarrow> local_optimizer \<Rightarrow> int \<Rightarrow> int list \<Rightarrow> ems \<Rightarrow> (int list \<times> ems) option" where
  "improve_step E Ch lo minWeightToConsider assum s =
     (if UBStrategy s \<and> toOptimize s then
        do { curSolution \<leftarrow> sc_getSolution (solver s);
             (curCost, curSolution, s) \<leftarrow> lo_optimize E Ch lo curSolution s;
             if curCost < solutionCost s then
               harden_am1 E minWeightToConsider assum (s\<lparr>solutionCost := curCost, solution := curSolution\<rparr>)
             else Some (assum, s) }
      else Some (assum, s))"

definition sat_step :: "engine \<Rightarrow> choices \<Rightarrow> local_optimizer \<Rightarrow> int \<Rightarrow> int list \<Rightarrow> ems \<Rightarrow> flow option" where
  "sat_step E Ch lo minWeightToConsider assum s =
     (if litToRelax s \<noteq> [] then
        do { (assum, s) \<leftarrow> relax_lits minWeightToConsider (litToRelax s) assum s;
             s \<leftarrow> Some (s\<lparr>litToRelax := []\<rparr>);
             if assum \<noteq> initAssum minWeightToConsider s then None else Some (Next assum s) }
      else
        do { (assum, s) \<leftarrow> improve_step E Ch lo minWeightToConsider assum s;
             (assum, s) \<leftarrow> pop_cards minWeightToConsider assum s;
             Some (Break minWeightToConsider assum s) })"

text \<open>The limited call at the end of the inner loop.\<close>

definition limited_solve :: "engine \<Rightarrow> int list \<Rightarrow> ems \<Rightarrow> (int \<times> ems) option" where
  "limited_solve E assum s =
     (if length (mapWeight2Assum s) \<le> 1 then eval_solveWithTimeout E assum s
      else do { (b, s) \<leftarrow> eval_solve E assum s; Some (if b then 1 else 0, s) })"

partial_function (option) limited_loop ::
    "engine \<Rightarrow> choices \<Rightarrow> local_optimizer \<Rightarrow> int \<Rightarrow> int \<Rightarrow> int list \<Rightarrow> ems \<Rightarrow> flow option" where
  [code]: "limited_loop E Ch lo resultLastSolve minWeightToConsider assum s =
     do { f \<leftarrow> (if resultLastSolve = 0 then unsat_step E Ch minWeightToConsider assum s
                else if resultLastSolve = 1 then sat_step E Ch lo minWeightToConsider assum s
                else Some (Break 1 (initAssum 1 s) s));
          case f of
            Next assum s \<Rightarrow>
              if delayStrategy s = False then Some (Break minWeightToConsider assum s)
              else do { (resultLastSolve, s) \<leftarrow> limited_solve E assum s;
                        limited_loop E Ch lo resultLastSolve minWeightToConsider assum s }
          | Return b s \<Rightarrow> Some (Return b s)
          | Break m assum s \<Rightarrow> Some (Break m assum s) }"

text \<open>After the inner loop: what waits is taken up.\<close>

definition take_up :: "int \<Rightarrow> int list \<Rightarrow> ems \<Rightarrow> (int list \<times> ems) option" where
  "take_up minWeightToConsider assum s =
     do { (assum, s) \<leftarrow> relax_lits minWeightToConsider (litToRelax s) assum s;
          s \<leftarrow> Some (s\<lparr>litToRelax := []\<rparr>);
          (assum, s) \<leftarrow> add_cards minWeightToConsider (cardToAdd s) assum s;
          Some (assum, s\<lparr>cardToAdd := []\<rparr>) }"

partial_function (option) solve_loop ::
    "engine \<Rightarrow> choices \<Rightarrow> local_optimizer \<Rightarrow> int \<Rightarrow> int list \<Rightarrow> ems \<Rightarrow> (bool \<times> ems) option" where
  [code]: "solve_loop E Ch lo minWeightToConsider assum s =
     (if cardToAdd s \<noteq> [] \<or> litToRelax s \<noteq> [] then None
      else if cost s \<ge> solutionCost s then Some (True, s)
      else if assum \<noteq> initAssum minWeightToConsider s then None
      else do { (resultLastSolve, s) \<leftarrow> eval_solve E assum s;
                if resultLastSolve then
                  if minWeightToConsider = 1 then
                    do { sol \<leftarrow> sc_getSolution (solver s); Some (True, s\<lparr>solutionCost := cost s, solution := sol\<rparr>) }
                  else do { (minWeightToConsider, s) \<leftarrow> chooseNextMinWeight Ch minWeightToConsider s;
                            solve_loop E Ch lo minWeightToConsider (initAssum minWeightToConsider s) s }
                else do { f \<leftarrow> limited_loop E Ch lo 0 minWeightToConsider assum s;
                          case f of
                            Return b s \<Rightarrow> Some (b, s)
                          | Break m assum s \<Rightarrow> do { (assum, s) \<leftarrow> take_up m assum s; solve_loop E Ch lo m assum s }
                          | Next assum s \<Rightarrow> None } })"

definition solve_body :: "engine \<Rightarrow> choices \<Rightarrow> ems \<Rightarrow> (bool \<times> ems) option" where
  "solve_body E Ch s =
     do { (r, s) \<leftarrow> adapt_am1_exact E Ch s;
          (n, s) \<leftarrow> adapt_am1_FastHeuristicV7 E s;
          if cost s \<ge> solutionCost s then Some (True, s)
          else if length (mapWeight2Assum s) = 0 then
            do { (b, s) \<leftarrow> eval_solve E [] s;
                 if b then do { sol \<leftarrow> sc_getSolution (solver s); Some (True, s\<lparr>solutionCost := cost s, solution := sol\<rparr>) }
                 else Some (False, s) }
          else do { (n, assum, s) \<leftarrow> harden [] s;
                    (stop, s) \<leftarrow> (if n \<noteq> 0 then
                                    if mapWeight2Assum s = [] then None
                                    else do { (k, s) \<leftarrow> adapt_am1_VeryFastHeuristic E s; Some (k \<noteq> 0 \<and> cost s \<ge> solutionCost s, s) }
                                  else Some (False, s));
                    if stop then Some (True, s)
                    else if cardToAdd s \<noteq> [] \<or> litToRelax s \<noteq> [] \<or> mapWeight2Assum s = [] then None
                    else do { (minWeightToConsider, s') \<leftarrow> chooseNextMinWeight Ch (u64 (fst (last (mapWeight2Assum s)) + 1)) s;
                              solve_loop E Ch (lo_new s) minWeightToConsider (initAssum minWeightToConsider s') s' } } }"

text \<open>The destructor of \<open>ManageStartVariable\<close> runs on every exit.\<close>

definition solve :: "engine \<Rightarrow> choices \<Rightarrow> ems \<Rightarrow> (bool \<times> ems) option" where
  "solve E Ch s = do { s \<leftarrow> solve_start s; (b, s) \<leftarrow> solve_body E Ch s; Some (b, s\<lparr>start_solve := False\<rparr>) }"

section \<open>Progress of the search\<close>

definition moves :: "ems \<Rightarrow> ems \<Rightarrow> bool" where
  "moves s s' = (base_inv s' \<and> weights_inv (litToRelax s') s' \<and> simU (is_incremental s) (solutionCost s) s s' \<and>
     budget s' \<le> budget s \<and> cost s \<le> cost s' \<and> ctl s' = ctl s)"

lemma movesD:
  assumes "moves s s'"
  shows "base_inv s'" "weights_inv (litToRelax s') s'" "simU (is_incremental s) (solutionCost s) s s'" "budget s' \<le> budget s"
    "cost s \<le> cost s'" "ctl s' = ctl s"
  using assms by (simp_all add: moves_def)

lemma moves_trans:
  assumes "moves s t" "moves t u"
  shows "moves s u"
proof -
  note 1 = movesD [OF assms(1)] and 2 = movesD [OF assms(2)]
  have "simU (is_incremental s) (solutionCost s) s u"
    using simU_trans [OF 1(3)] 2(3) ctl_fields [OF 1(6)] by simp
  then show ?thesis using 1 2 by (simp add: moves_def)
qed

lemma moves_refl: "base_inv s \<Longrightarrow> weights_inv (litToRelax s) s \<Longrightarrow> moves s s"
  by (simp add: moves_def sim0_simU [OF sim_refl])

lemma evolves_moves: "evolves (litToRelax s) s s' \<Longrightarrow> moves s s'"
  using evolvesD [of "litToRelax s" s s'] keptD(2) [of s s'] kept_ctl [of s s'] by (simp add: moves_def sim0_simU)

lemma queried_moves: "queried s s' \<Longrightarrow> base_inv s \<Longrightarrow> weights_inv (litToRelax s) s \<Longrightarrow> moves s s'"
  by (intro evolves_moves queried_evolves)

lemma core_moves: "core_applied m s A s' \<Longrightarrow> moves s s'"
  by (simp add: core_applied_def moves_def sim0_simU)

lemma reindexed_moves: "reindexed s s' \<Longrightarrow> base_inv s \<Longrightarrow> weights_inv (litToRelax s) s \<Longrightarrow> moves s s'"
  using reindexed_ok [of s s'] keptD(2) [of s s'] kept_ctl [of s s'] by (simp add: moves_def sim0_simU)

lemma same_rest_ctl: "same_rest s s' \<Longrightarrow> ctl s' = ctl s"
  by (rule kept_ctl) (rule same_rest_kept)

text \<open>After relaxing, nothing waits.\<close>

lemma relaxes_moves:
  assumes "relaxes s s'"
  shows "moves s (s'\<lparr>litToRelax := []\<rparr>)" "cardToAdd (s'\<lparr>litToRelax := []\<rparr>) = cardToAdd s"
proof -
  let ?s = "s'\<lparr>litToRelax := []\<rparr>"
  have c: "same_core s' ?s" by (simp add: same_core_def)
  have R: "base_inv s'" "weights_inv [] s'" "sim0 s s'" "budget s' = budget s" "same_rest s s'" using assms by (simp_all add: relaxes_def)
  have "ctl ?s = ctl s" using same_rest_ctl [OF R(5)] by (simp add: ctl_def)
  moreover have "cost ?s = cost s" using same_restD(1) [OF R(5)] by simp
  ultimately show "moves s ?s"
    using R(1-4) same_core_ok(3,4,6,8) [OF c] by (simp add: moves_def sim0_simU)
  show "cardToAdd ?s = cardToAdd s" using same_restD(2) [OF R(5)] by simp
qed

lemma cards_moves:
  assumes "cards_added W s s'" "W = litToRelax s"
  shows "moves s s'"
  using assms by (simp add: cards_added_def moves_def sim0_simU)

section \<open>What the search knows\<close>

text \<open>
  The state at the beginning is \<open>s0\<close>. Every exact model of it that is cheaper than the best known
  solution extends to a model of the current clauses that is no dearer, and the best known solution
  is a model that costs no more than recorded.
\<close>

definition best_known :: "ems \<Rightarrow> ems \<Rightarrow> bool" where
  "best_known s0 s = (sat_all (model_of (solution s)) (cls s0) \<and> nv s0 < length (solution s) \<and>
     obj (model_of (solution s)) s0 \<le> solutionCost s)"

definition solving :: "ems \<Rightarrow> ems \<Rightarrow> bool" where
  "solving s0 s = (nInputVars s = nInputVars s0 \<and> base_inv s \<and> weights_inv (litToRelax s) s \<and> start_solve s \<and> simU (is_incremental s) (solutionCost s) s0 s \<and>
     solutionCost s \<le> t_weight_max \<and> (solutionCost s \<noteq> t_weight_max \<longrightarrow> best_known s0 s))"

definition lo_inv :: "ems \<Rightarrow> local_optimizer \<Rightarrow> ems \<Rightarrow> bool" where
  "lo_inv s0 lo s = (UBStrategy s \<and> toOptimize s \<longrightarrow>
     lo_ok (nv s) lo \<and> (\<forall>\<sigma>. sat_all \<sigma> (cls s) \<longrightarrow> obj \<sigma> s0 \<le> lo_cost lo \<sigma>))"

lemma solvingD:
  assumes "solving s0 s"
  shows "base_inv s" "weights_inv (litToRelax s) s" "start_solve s" "simU (is_incremental s) (solutionCost s) s0 s"
    "solutionCost s \<le> t_weight_max" "solutionCost s \<noteq> t_weight_max \<Longrightarrow> best_known s0 s" "nInputVars s = nInputVars s0"
  using assms by (simp_all add: solving_def)

lemma solving_moves:
  assumes "solving s0 s" "moves s s'"
  shows "solving s0 s'"
proof -
  note S = solvingD [OF assms(1)] and M = movesD [OF assms(2)]
  note C = ctl_fields [OF M(6)]
  have "simU (is_incremental s') (solutionCost s') s0 s'" using simU_trans [OF S(4)] M(3) C by simp
  then show ?thesis using S M(1,2) C by (simp add: solving_def best_known_def)
qed

lemma lo_inv_moves:
  assumes "lo_inv s0 lo s" "moves s s'"
  shows "lo_inv s0 lo s'"
proof -
  note M = movesD [OF assms(2)]
  have le: "nv s \<le> nv s'" "cls s \<subseteq> cls s'" using M(3) by (auto simp: simU_def sim_def)
  have "lo_ok (nv s) lo \<Longrightarrow> lo_ok (nv s') lo" using le(1) by (auto simp: lo_ok_def)
  then show ?thesis using assms(1) sat_all_mono [OF _ le(2)] ctl_fields [OF M(6)] by (auto simp: lo_inv_def)
qed

text \<open>Between two calls: the constant cost stays within the budget, so strict growth ends.\<close>

lemma moves_measure:
  assumes "moves s s'" "cost s < cost s'"
  shows "nat (budget s' - cost s') < nat (budget s - cost s)"
  using movesD [OF assms(1)] cost_le_budget [of s'] assms(2) by linarith

section \<open>When the search ends\<close>

definition result_ok :: "ems \<Rightarrow> bool \<Rightarrow> ems \<Rightarrow> bool" where
  "result_ok s0 b s = (nInputVars s = nInputVars s0 \<and> base_inv s \<and> weights_inv (litToRelax s) s \<and>
     (if b then best_known s0 s \<and> (\<forall>\<sigma>. exact \<sigma> s0 \<longrightarrow> solutionCost s \<le> obj \<sigma> s0) else (\<forall>\<sigma>. \<not> exact \<sigma> s0)))"

lemma obj_ge_cost: "base_inv s \<Longrightarrow> cost s \<le> obj \<sigma> s"
  unfolding obj_def by (rule wtotal_ge_cost) (simp_all add: vcost_nonneg)

lemma solving_extends:
  assumes "solving s0 s" "exact \<sigma> s0" "obj \<sigma> s0 < solutionCost s"
  obtains \<sigma>' where "exact \<sigma>' s" "cost s \<le> obj \<sigma> s0"
proof -
  note S = solvingD [OF assms(1)]
  obtain \<sigma>' where "exact \<sigma>' s" "obj \<sigma>' s + 0 \<le> obj \<sigma> s0" using S(4) assms(2,3) unfolding simU_def sim_def by blast
  moreover have "cost s \<le> obj \<sigma> s0" using calculation(2) obj_ge_cost [OF S(1), of \<sigma>'] by linarith
  ultimately show ?thesis using that by blast
qed

text \<open>The lower bound has met the upper bound.\<close>

lemma cost_below_max: "base_inv s \<Longrightarrow> weights_inv W s \<Longrightarrow> cost s < t_weight_max"
  using cost_le_budget [of s] weights_invD(5) [of W s] by (simp add: t_weight_max_def)

lemma bounds_meet:
  assumes "solving s0 s" "solutionCost s \<le> cost s"
  shows "result_ok s0 True s"
proof -
  note S = solvingD [OF assms(1)]
  have "solutionCost s \<noteq> t_weight_max" using cost_below_max [OF S(1,2)] assms(2) by linarith
  moreover have "solutionCost s \<le> obj \<sigma> s0" if "exact \<sigma> s0" for \<sigma>
    using solving_extends [OF assms(1) that] assms(2) by (metis linorder_not_less order.trans)
  ultimately show ?thesis using S by (simp add: result_ok_def)
qed

text \<open>The objective never exceeds the budget.\<close>

lemma obj_le_budget:
  assumes "base_inv s"
  shows "obj \<sigma> s \<le> budget s"
proof -
  note B = base_invD [OF assms]
  have "vsum (vcost \<sigma>) (poids s) \<le> vsum (\<lambda>v w. \<bar>w\<bar>) (poids s)" by (rule vsum_mono) (rule vcost_abs)
  moreover have "opt_sum (owed (count_true \<sigma>) s) (mapAssum2Card s ! v) \<le> opt_sum (owed length s) (mapAssum2Card s ! v)"
    if "v < length (mapAssum2Card s)" for v
  proof (cases "mapAssum2Card s ! v")
    case (Some e)
    have "0 < lc_weight e" using B(3) [OF that Some] by (simp add: entry_ok_def)
    then show ?thesis using count_true_le [of \<sigma>] by (simp add: Some opt_sum_def owed_def mult_left_mono diff_le_mono)
  qed (simp add: opt_sum_def)
  then have "esum (owed (count_true \<sigma>) s) (mapAssum2Card s) \<le> esum (owed length s) (mapAssum2Card s)"
    unfolding esum_def by (intro sum_mono) simp
  moreover have "dsum (count_true \<sigma>) ds \<le> dsum length ds" if "\<forall>(ls, w) \<in> set ds. 0 < w" for ds
    using that count_true_le [of \<sigma>]
    by (induction ds) (auto simp: dsum_def intro!: add_mono mult_left_mono diff_le_mono)
  then have "dsum (count_true \<sigma>) (cardToAdd s) \<le> dsum length (cardToAdd s)" using B(7) by (fastforce simp: cardToAdd_ok_def)
  ultimately show ?thesis by (simp add: obj_def budget_def wtotal_def)
qed

text \<open>No model is left.\<close>

lemma no_model_left:
  assumes "solving s0 s" "base_inv s0" "budget s0 < 9223372036854775808" "\<And>\<sigma>. \<not> sat_all \<sigma> (cls s)"
  shows "result_ok s0 (solutionCost s \<noteq> t_weight_max) s"
proof -
  note S = solvingD [OF assms(1)]
  have ge: "solutionCost s \<le> obj \<sigma> s0" if "exact \<sigma> s0" for \<sigma>
  proof (rule ccontr)
    assume "\<not> solutionCost s \<le> obj \<sigma> s0"
    then have "obj \<sigma> s0 < solutionCost s" by simp
    then show False using solving_extends [OF assms(1) that] assms(4) unfolding exact_def by metis
  qed
  moreover have "obj \<sigma> s0 < t_weight_max" for \<sigma> using obj_le_budget [OF assms(2), of \<sigma>] assms(3) by (simp add: t_weight_max_def)
  ultimately show ?thesis using S by (auto simp: result_ok_def not_le [symmetric])
qed

text \<open>A model of all soft literals costs the constant and nothing else.\<close>

lemma satisfied_soft:
  assumes "base_inv s" "\<forall>l. 1 \<le> wt (poids s) l \<longrightarrow> lit_true \<sigma> l"
  shows "vsum (vcost \<sigma>) (poids s) = 0"
  unfolding vsum_def
proof (rule sum.neutral, intro ballI)
  fix v assume "v \<in> {..<length (poids s)}"
  then have v: "v < length (poids s)" by simp
  have p: "wt (poids s) (int v) = poids s ! v" "wt (poids s) (- int v) = (if v = 0 then poids s ! v else - (poids s ! v))"
    using v by (auto simp: wt_def wv_get_def)
  show "vcost \<sigma> (int v) (poids s ! v) = 0"
  proof (cases "v = 0")
    case True
    then show ?thesis using base_invD(4) [OF assms(1)] by simp
  next
    case False
    consider "poids s ! v = 0" | "1 \<le> wt (poids s) (int v)" | "1 \<le> wt (poids s) (- int v)" using p False by fastforce
    then show ?thesis
      using assms(2) [rule_format, of "int v"] assms(2) [rule_format, of "- int v"] p False by cases (auto simp: vcost_def lit_true_def)
  qed
qed

lemma satisfied_cards:
  assumes inv: "base_inv s" and W: "weights_inv [] s" and \<sigma>: "sat_all \<sigma> (cls s)" "\<forall>l. 1 \<le> wt (poids s) l \<longrightarrow> lit_true \<sigma> l"
  shows "esum (owed (count_true \<sigma>) s) (mapAssum2Card s) = 0"
proof -
  note B = base_invD [OF inv] and WI = weights_invD [OF W]
  have "owed (count_true \<sigma>) s e = 0" if v: "v < length (mapAssum2Card s)" "mapAssum2Card s ! v = Some e" for v e
  proof (cases "out_open s (lc_card e) (lc_atMost e + 1)")
    case True
    have ok: "entry_ok s v e" "live_ok [] s v e" using B(3) [OF v] WI(2) [OF v] .
    have v0: "v \<noteq> 0" using v(2) B(5) by (cases "v = 0") auto
    have len: "v < length (poids s)" using v(1) B(9,10) by simp
    have p: "wt (poids s) (- int v) = - (poids s ! v)" using len v0 by (simp add: wt_def wv_get_def)
    have "length (clits s (lc_card e)) = maxVars (cards s ! lc_card e)"
      using card_ok_nof [OF cards_invD(5) [OF B(1)]] ok(1) by (simp add: clits_def entry_ok_def)
    moreover have "\<not> \<sigma> (int v)" if "\<not> maxVars (cards s ! lc_card e) \<le> lc_atMost e + 1"
    proof (cases "poids s ! v = 0")
      case True
      then have "[- int v] \<in> cls s" using ok(2) that \<open>out_open s _ _\<close> by (simp add: live_ok_def)
      from sat_allD [OF \<sigma>(1) this] show ?thesis using v0 by (simp add: lit_true_def)
    next
      case False
      then have "1 \<le> wt (poids s) (- int v)" using ok(2) p by (auto simp: live_ok_def)
      then show ?thesis using \<sigma>(2) v0 by (force simp: lit_true_def)
    qed
    moreover have "lc_atMost e < count_true \<sigma> (clits s (lc_card e)) \<Longrightarrow> \<sigma> (int v)"
      using card_count(1) [OF B(1) _ _ \<sigma>(1), of "lc_card e" "lc_atMost e" "int v"] ok(1) by (simp add: entry_ok_def lit_true_def)
    ultimately have "count_true \<sigma> (clits s (lc_card e)) \<le> lc_atMost e + 1"
      using count_true_le [of \<sigma> "clits s (lc_card e)"] by linarith
    then show ?thesis by (simp add: owed_def)
  qed (simp add: owed_def)
  then have "esum (owed (count_true \<sigma>) s) (mapAssum2Card s) = esum (\<lambda>e. 0) (mapAssum2Card s)" by (rule esum_cong)
  then show ?thesis by (simp add: esum_def opt_sum_def split: option.splits) (simp add: option.case_eq_if)
qed

lemma satisfied_obj:
  assumes "base_inv s" "weights_inv [] s" "cardToAdd s = []" "sat_all \<sigma> (cls s)" "\<forall>l. 1 \<le> wt (poids s) l \<longrightarrow> lit_true \<sigma> l"
  shows "obj \<sigma> s = cost s"
  using satisfied_soft [OF assms(1,5)] satisfied_cards [OF assms(1,2,4,5)] assms(3) by (simp add: obj_def wtotal_def dsum_def)

lemma all_satisfied:
  assumes s: "solving s0 s" and rest: "cardToAdd s = []" "litToRelax s = []" "cost s < solutionCost s"
    and m: "nv s < length m" "sat_all (model_of m) (cls s)" "\<forall>l. 1 \<le> wt (poids s) l \<longrightarrow> lit_true (model_of m) l"
  shows "result_ok s0 True (s\<lparr>solutionCost := cost s, solution := m\<rparr>)"
proof -
  let ?s = "s\<lparr>solutionCost := cost s, solution := m\<rparr>"
  note S = solvingD [OF s]
  have c: "same_core s ?s" by (simp add: same_core_def)
  have sub: "nv s0 \<le> nv s" "cls s0 \<subseteq> cls s" "obj (model_of m) s0 \<le> obj (model_of m) s"
    using S(4) m(2) by (auto simp: simU_def sim_def)
  have "weights_inv [] s" using S(2) rest(2) by simp
  then have "obj (model_of m) s = cost s" by (rule satisfied_obj [OF S(1) _ rest(1) m(2,3)])
  then have "best_known s0 ?s" using sub m(1) sat_all_mono [OF m(2) sub(2)] by (simp add: best_known_def)
  moreover have "cost s \<le> obj \<sigma> s0" if "exact \<sigma> s0" for \<sigma>
    using solving_extends [OF s that] rest(3) by (metis less_le_trans linorder_not_less nle_le)
  ultimately show ?thesis using S(1,2,7) same_core_ok(3,4) [OF c] by (simp add: result_ok_def)
qed

end
