(* ===== verification/Eval_Correct.thy ===== *)
theory Eval_Correct
  imports Eval_Solve
begin

text \<open>
  Total correctness of \<open>solve\<close>: with an engine that answers correctly and eventually, \<open>solve\<close>
  returns, none of its assertions fails, the answer \<open>false\<close> means that the hard clauses have no
  model, and the answer \<open>true\<close> that the recorded solution is a model of least cost. Each part of the
  loop body makes a move; the constant cost grows with every core, and the threshold falls with
  every model.
\<close>

section \<open>Hardening and what follows it\<close>

lemma harden_moves:
  assumes s: "solving s0 s"
  obtains nb B s' where "harden A s = Some (nb, B, s')" "moves s s'" "\<forall>m. assum_ok m A s \<longrightarrow> assum_ok m B s'"
    "mapWeight2Assum s \<noteq> [] \<longrightarrow> mapWeight2Assum s' \<noteq> []" "cardToAdd s' = cardToAdd s" "litToRelax s' = litToRelax s"
    "nb \<noteq> 0 \<longrightarrow> (\<exists>l. 0 < wt (poids s) l \<and> u64 (solutionCost s - cost s) \<le> wt (poids s) l) \<and> mapWeight2Assum s \<noteq> []"
proof -
  note S = solvingD [OF s]
  obtain nb B s' where h: "harden A s = Some (nb, B, s')" "base_inv s'" "weights_inv (litToRelax s) s'" "simU (is_incremental s) (solutionCost s) s s'"
    "budget s' \<le> budget s" "kept s s'" "cost s' = cost s" "\<forall>m. assum_ok m A s \<longrightarrow> assum_ok m B s'"
    "mapWeight2Assum s \<noteq> [] \<longrightarrow> mapWeight2Assum s' \<noteq> []"
    "nb \<noteq> 0 \<longrightarrow> (\<exists>l. 0 < wt (poids s) l \<and> u64 (solutionCost s - cost s) \<le> wt (poids s) l) \<and> mapWeight2Assum s \<noteq> []"
    by (rule harden_ok [OF S(1,2,5)]) (rule that)
  have "moves s s'" using h kept_ctl [OF h(6)] keptD(2) [OF h(6)] by (simp add: moves_def)
  then show ?thesis using that [OF h(1)] h(8-10) keptD(1,2) [OF h(6)] by blast
qed

lemma veryfast_moves:
  assumes E: "engine_ok E" and s: "solving s0 s"
  obtains k s' where "adapt_am1_VeryFastHeuristic E s = Some (k, s')" "moves s s'" "k = 0 \<longrightarrow> queried s s'"
    "cardToAdd s' = cardToAdd s" "litToRelax s' = litToRelax s"
proof -
  note S = solvingD [OF s]
  obtain k s' where "adapt_am1_VeryFastHeuristic E s = Some (k, s')" "evolves (litToRelax s) s s'" "k = 0 \<Longrightarrow> queried s s'"
    unfolding adapt_am1_VeryFastHeuristic_def using vf.scan_ok [OF E S(1,2,3)] by metis
  then show ?thesis using that evolves_moves [of s s'] keptD(1,2) [OF evolvesD(5), of "litToRelax s" s s'] by blast
qed

lemma harden_am1_moves:
  assumes E: "engine_ok E" and s: "solving s0 s" and A: "assum_ok m A s"
  obtains B s' where "harden_am1 E m A s = Some (B, s')" "moves s s'" "assum_ok m B s'" "cardToAdd s' = cardToAdd s" "litToRelax s' = litToRelax s"
proof -
  obtain nb B s1 where h: "harden A s = Some (nb, B, s1)" "moves s s1" "\<forall>m. assum_ok m A s \<longrightarrow> assum_ok m B s1"
    "mapWeight2Assum s \<noteq> [] \<longrightarrow> mapWeight2Assum s1 \<noteq> []" "cardToAdd s1 = cardToAdd s" "litToRelax s1 = litToRelax s"
    "nb \<noteq> 0 \<longrightarrow> (\<exists>l. 0 < wt (poids s) l \<and> u64 (solutionCost s - cost s) \<le> wt (poids s) l) \<and> mapWeight2Assum s \<noteq> []"
    by (rule harden_moves [OF s])
  have B: "assum_ok m B s1" using h(3) A by blast
  show ?thesis
  proof (cases "nb = 0")
    case True
    then show ?thesis using that [of B s1] h B by (simp add: harden_am1_def)
  next
    case False
    note s1 = solving_moves [OF s h(2)]
    obtain k s2 where k: "adapt_am1_VeryFastHeuristic E s1 = Some (k, s2)" "moves s1 s2" "k = 0 \<longrightarrow> queried s1 s2"
      "cardToAdd s2 = cardToAdd s1" "litToRelax s2 = litToRelax s1"
      by (rule veryfast_moves [OF E s1])
    note M = movesD [OF k(2)]
    have "assum_ok m (if k \<noteq> 0 then initAssum m s2 else B) s2"
      using initAssum_ok [OF M(2,1) assum_okD(1) [OF A]] assum_ok_poids [OF B, of s2] k(3) queried_fields(3) [of s1 s2] by auto
    then show ?thesis
      using that [of _ s2] h(1,4-7) False k(1,4,5) moves_trans [OF h(2) k(2)] by (simp add: harden_am1_def)
  qed
qed

section \<open>A core\<close>

lemma unsat_step_ok:
  assumes E: "engine_ok E" and s: "solving s0 s" and A: "assum_ok m A s" and u: "sc_unsat A (solver s)"
    and s0: "base_inv s0" "budget s0 < 9223372036854775808"
  obtains (ret) b s' where "unsat_step E Ch m A s = Some (Return b s')" "result_ok s0 b s'" "moves s s'"
    | (nxt) B s' where "unsat_step E Ch m A s = Some (Next B s')" "moves s s'" "assum_ok m B s'" "cost s < cost s'"
proof -
  note S = solvingD [OF s] and D = assum_okD [OF A]
  have pos: "\<forall>l \<in> set A. 0 < wt (poids s) l" using D(4) by blast
  obtain c s1 where c: "find_core E Ch A s = Some (c, s1)" "queried s s1" "soft_core A s1 c"
    by (rule find_core_ok [OF E S(1) D(2) pos u])
  have M1: "moves s s1" by (rule queried_moves [OF c(2) S(1,2)])
  note s1 = solving_moves [OF s M1]
  note S1 = solvingD [OF s1]
  have A1: "assum_ok m A s1" by (rule assum_ok_poids [OF A]) (simp add: queried_fields(3) [OF c(2)])
  show ?thesis
  proof (cases "c = []")
    case True
    have "\<not> sat_all \<sigma> (cls s1)" for \<sigma> using c(3) True by (simp add: soft_core_def core_def)
    then have "result_ok s0 (solutionCost s1 \<noteq> t_weight_max) s1" by (rule no_model_left [OF s1 s0])
    then show ?thesis using ret c(1) True M1 by (simp add: unsat_step_def)
  next
    case False
    obtain B s2 where B: "apply_core m c A s1 = Some (B, s2)" "core_applied m s1 B s2"
      by (rule apply_core_ok [OF S1(1,2) c(3) False A1])
    note M2 = moves_trans [OF M1 core_moves [OF B(2)]]
    note s2 = solving_moves [OF s M2]
    have B2: "assum_ok m B s2" "mapWeight2Assum s2 \<noteq> []" "cost s < cost s2"
      using B(2) queried_fields(5) [OF c(2)] by (simp_all add: core_applied_def)
    consider "cost s2 = solutionCost s2" | "cost s2 \<noteq> solutionCost s2" "fst (last (mapWeight2Assum s2)) \<ge> u64 (solutionCost s2 - cost s2)"
      | "cost s2 \<noteq> solutionCost s2" "\<not> fst (last (mapWeight2Assum s2)) \<ge> u64 (solutionCost s2 - cost s2)" by blast
    then show ?thesis
    proof cases
      case 1
      then have "result_ok s0 True s2" using bounds_meet [OF s2] by simp
      then show ?thesis using ret c(1) False B(1) 1 M2 by (simp add: unsat_step_def)
    next
      case 2
      obtain C s3 where C: "harden_am1 E m B s2 = Some (C, s3)" "moves s2 s3" "assum_ok m C s3"
        by (rule harden_am1_moves [OF E s2 B2(1)])
      have "cost s < cost s3" using B2(3) movesD(5) [OF C(2)] by simp
      then show ?thesis using nxt c(1) False B(1) B2(2) 2 C moves_trans [OF M2 C(2)] by (simp add: unsat_step_def)
    next
      case 3
      then show ?thesis using nxt c(1) False B(1) B2 M2 by (simp add: unsat_step_def)
    qed
  qed
qed

section \<open>A model\<close>

lemma new_best:
  assumes s: "solving s0 s" and lo: "lo_inv s0 lo s" "UBStrategy s \<and> toOptimize s"
    and sol: "nv s < length sol" "sat_all (model_of sol) (cls s)" "lo_cost lo (model_of sol) < solutionCost s"
  defines "s' \<equiv> s\<lparr>solutionCost := lo_cost lo (model_of sol), solution := sol\<rparr>"
  shows "solving s0 s'" "lo_inv s0 lo s'" "same_core s s'"
proof -
  note S = solvingD [OF s]
  show c: "same_core s s'" by (simp add: same_core_def s'_def)
  note C = same_core_ok [OF c]
  have L: "obj (model_of sol) s0 \<le> lo_cost lo (model_of sol)" using lo sol(2) by (simp add: lo_inv_def)
  have sub: "nv s0 \<le> nv s" "cls s0 \<subseteq> cls s" using S(4) by (auto simp: simU_def sim_def)
  have U: "solutionCost s' = lo_cost lo (model_of sol)" "solution s' = sol" "is_incremental s' = is_incremental s" "start_solve s' = start_solve s" "nInputVars s' = nInputVars s"
      "litToRelax s' = litToRelax s" by (simp_all add: s'_def)
  have "simU (is_incremental s) (solutionCost s') s0 s" using simU_mono [OF S(4)] sol(3) U(1) by simp
  then have "simU (is_incremental s') (solutionCost s') s0 s'" using U(3) C(8) by (simp add: simU_def)
  moreover have "best_known s0 s'" using sol(1) sub sat_all_mono [OF sol(2) sub(2)] L U by (simp add: best_known_def)
  ultimately show "solving s0 s'" using S C(3,4) U sol(3) by (simp add: solving_def)
  show "lo_inv s0 lo s'" using lo(1) C(1,2) by (simp add: lo_inv_def s'_def)
qed

text \<open>The settings that decide how a later call runs.\<close>

definition same_mode :: "ems \<Rightarrow> ems \<Rightarrow> bool" where
  "same_mode s s' = (is_incremental s' = is_incremental s \<and> UBStrategy s' = UBStrategy s \<and> toOptimize s' = toOptimize s)"

lemma same_mode_refl [simp]: "same_mode s s"
  by (simp add: same_mode_def)

lemma same_mode_trans [trans]: "same_mode s t \<Longrightarrow> same_mode t u \<Longrightarrow> same_mode s u"
  by (simp add: same_mode_def)

lemma same_mode_ctl: "ctl s' = ctl s \<Longrightarrow> same_mode s s'"
  using ctl_fields(2,4,5) [of s' s] by (simp add: same_mode_def)

lemma moves_mode: "moves s s' \<Longrightarrow> same_mode s s'"
  by (intro same_mode_ctl movesD(6))

lemma same_mode_inc: "same_mode s s' \<Longrightarrow> is_incremental s' = is_incremental s"
  by (simp add: same_mode_def)

text \<open>Moves, or a better bound and then moves.\<close>

definition improves :: "ems \<Rightarrow> local_optimizer \<Rightarrow> ems \<Rightarrow> ems \<Rightarrow> bool" where
  "improves s0 lo s s' = (solving s0 s' \<and> lo_inv s0 lo s' \<and> budget s' \<le> budget s \<and> cost s \<le> cost s' \<and> delayStrategy s' = delayStrategy s \<and>
     same_mode s s')"

lemma moves_improves: "solving s0 s \<Longrightarrow> lo_inv s0 lo s \<Longrightarrow> moves s s' \<Longrightarrow> improves s0 lo s s'"
  using solving_moves [of s0 s s'] lo_inv_moves [of s0 lo s s'] movesD(4-6) [of s s'] ctl_fields(3) [of s' s] moves_mode [of s s'] by (simp add: improves_def)

lemma improves_trans: "improves s0 lo s t \<Longrightarrow> improves s0 lo t u \<Longrightarrow> improves s0 lo s u"
  by (auto simp: improves_def intro: same_mode_trans)

lemma improves_refl: "solving s0 s \<Longrightarrow> lo_inv s0 lo s \<Longrightarrow> improves s0 lo s s"
  by (simp add: improves_def)

lemma improve_step_ok:
  assumes E: "engine_ok E" "engine_live E" and s: "solving s0 s" and lo: "lo_inv s0 lo s" and A: "assum_ok m A s" and sat: "sc_sat A (solver s)"
  obtains B s' where "improve_step E Ch lo m A s = Some (B, s')" "improves s0 lo s s'" "assum_ok m B s'"
    "cardToAdd s' = cardToAdd s" "litToRelax s' = litToRelax s"
proof (cases "UBStrategy s \<and> toOptimize s")
  case False
  then have "improve_step E Ch lo m A s = Some (A, s)" by (auto simp: improve_step_def)
  then show ?thesis using that improves_refl [OF s lo] A by blast
next
  case True
  note S = solvingD [OF s]
  obtain sol where sol: "sc_getSolution (solver s) = Some sol" "nv s < length sol" "sat_all (model_of sol) (cls s)"
    by (rule getSolution_ok [OF sat])
  have "lo_ok (nv s) lo" using lo True by (simp add: lo_inv_def)
  then obtain sol' s1 where o: "lo_optimize E Ch lo sol s = Some (lo_cost lo (model_of sol'), sol', s1)" "queried s s1"
      "nv s < length sol'" "sat_all (model_of sol') (cls s)"
    by (rule lo_optimize_ok [OF E S(1) _ sol(2,3)])
  note Q = queried_fields [OF o(2)]
  note M1 = queried_moves [OF o(2) S(1,2)]
  note s1 = solving_moves [OF s M1] and lo1 = lo_inv_moves [OF lo M1]
  have A1: "assum_ok m A s1" by (rule assum_ok_poids [OF A]) (simp add: Q(3))
  have ub: "UBStrategy s1 \<and> toOptimize s1" using True ctl_fields(4,5) [OF movesD(6) [OF M1]] by simp
  show ?thesis
  proof (cases "lo_cost lo (model_of sol') < solutionCost s1")
    case False
    then have "improve_step E Ch lo m A s = Some (A, s1)" using True sol(1) o(1) by (simp add: improve_step_def)
    then show ?thesis using that moves_improves [OF s lo M1] A1 Q(7,8) by blast
  next
    case better: True
    let ?s = "s1\<lparr>solutionCost := lo_cost lo (model_of sol'), solution := sol'\<rparr>"
    have "nv s1 < length sol'" "sat_all (model_of sol') (cls s1)" using o(3,4) Q(1,2) by simp_all
    note N = new_best [OF s1 lo1 ub this better]
    note C = same_core_ok [OF N(3)]
    have A2: "assum_ok m A ?s" by (rule assum_ok_poids [OF A1]) simp
    obtain B s2 where B: "harden_am1 E m A ?s = Some (B, s2)" "moves ?s s2" "assum_ok m B s2" "cardToAdd s2 = cardToAdd ?s" "litToRelax s2 = litToRelax ?s"
      by (rule harden_am1_moves [OF E(1) N(1) A2])
    have "improves s0 lo s1 ?s" using N(1,2) C(6) by (simp add: improves_def same_mode_def)
    then have "improves s0 lo s s2"
      using improves_trans [OF moves_improves [OF s lo M1]] improves_trans [OF _ moves_improves [OF N(1,2) B(2)]] by blast
    moreover have "improve_step E Ch lo m A s = Some (B, s2)" using True sol(1) o(1) better B(1) by (simp add: improve_step_def)
    ultimately show ?thesis using that B(3-5) Q(7,8) by simp
  qed
qed

lemma sat_step_ok:
  assumes E: "engine_ok E" "engine_live E" and s: "solving s0 s" and lo: "lo_inv s0 lo s" and A: "assum_ok m A s" and sat: "sc_sat A (solver s)"
  obtains (nxt) B s' where "sat_step E Ch lo m A s = Some (Next B s')" "litToRelax s \<noteq> []" "litToRelax s' = []" "moves s s'" "assum_ok m B s'"
    | (brk) B s' where "sat_step E Ch lo m A s = Some (Break m B s')" "improves s0 lo s s'" "assum_ok m B s'"
proof (cases "litToRelax s = []")
  case False
  note S = solvingD [OF s]
  obtain B s1 where B: "relax_lits m (litToRelax s) A s = Some (B, s1)" "relaxes s s1" "assum_ok m B s1"
    using relax_lits_ok [OF S(1,2) A] by blast
  note M = relaxes_moves(1) [OF B(2)]
  let ?s = "s1\<lparr>litToRelax := []\<rparr>"
  have B': "assum_ok m B ?s" by (rule assum_ok_poids [OF B(3)]) simp
  have "assum_ok m (initAssum m ?s) ?s" by (rule initAssum_ok [OF movesD(2,1) [OF M] assum_okD(1) [OF A]])
  then have "B = initAssum m ?s" using assum_ok_unique [OF B'] by blast
  then show ?thesis using nxt [of B ?s] False B(1) M B' by (simp add: sat_step_def)
next
  case True
  obtain B s1 where B: "improve_step E Ch lo m A s = Some (B, s1)" "improves s0 lo s s1" "assum_ok m B s1" "cardToAdd s1 = cardToAdd s" "litToRelax s1 = litToRelax s"
    by (rule improve_step_ok [OF E s lo A sat])
  have s1: "solving s0 s1" "lo_inv s0 lo s1" using B(2) by (simp_all add: improves_def)
  obtain C s2 where C: "pop_cards m B s1 = Some (C, s2)" "cards_added (litToRelax s1) s1 s2" "assum_ok m C s2"
    using pop_cards_ok [OF solvingD(1,2) [OF s1(1)] B(3)] by blast
  have "improves s0 lo s s2" using improves_trans [OF B(2) moves_improves [OF s1 cards_moves [OF C(2) refl]]] .
  then show ?thesis using brk True B(1) C(1,3) by (simp add: sat_step_def)
qed

section \<open>The inner loop\<close>

lemma limited_solve_ok:
  assumes E: "engine_ok E" "engine_live E" and inv: "base_inv s" and z: "0 \<notin> set A"
  obtains r s' where "limited_solve E A s = Some (r, s')" "queried s s'" "r = 1 \<longrightarrow> sc_sat A (solver s')" "r = 0 \<longrightarrow> sc_unsat A (solver s')"
proof (cases "length (mapWeight2Assum s) \<le> 1")
  case True
  obtain r s' where "eval_solveWithTimeout E A s = Some (r, s')" "queried s s'" "r = 1 \<and> sc_sat A (solver s') \<or> r = 0 \<and> sc_unsat A (solver s') \<or> r = - 1"
    by (rule eval_solveWithTimeout_ok [OF E(1) inv z])
  then show ?thesis using that True by (auto simp: limited_solve_def)
next
  case False
  obtain b s' where "eval_solve E A s = Some (b, s')" "queried s s'" "if b then sc_sat A (solver s') else sc_unsat A (solver s')"
    by (rule eval_solve_ok [OF E inv])
  then show ?thesis using that [of "if b then 1 else 0" s'] False by (auto simp: limited_solve_def split: if_splits)
qed

definition loop_ok :: "ems \<Rightarrow> local_optimizer \<Rightarrow> bool \<Rightarrow> ems \<Rightarrow> flow \<Rightarrow> bool" where
  "loop_ok s0 lo strict s f = (case f of
     Return b s' \<Rightarrow> result_ok s0 b s' \<and> same_mode s s' \<and> (is_incremental s \<longrightarrow> simU True 0 s0 s')
   | Break m A s' \<Rightarrow> improves s0 lo s s' \<and> assum_ok m A s' \<and> (strict \<longrightarrow> cost s < cost s')
   | Next A s' \<Rightarrow> False)"

lemma simU_inc: "simU True U s s' = simU True V s s'"
  by (simp add: simU_def)

lemma loop_ok_trans:
  assumes "improves s0 lo s t" "loop_ok s0 lo st t f" "strict \<longrightarrow> cost s < cost t \<or> st"
  shows "loop_ok s0 lo strict s f"
proof (cases f)
  case (Break m A u)
  then have "improves s0 lo s u" using improves_trans [OF assms(1)] assms(2) by (simp add: loop_ok_def)
  moreover have "cost s \<le> cost t" "cost t \<le> cost u" using assms(1,2) Break by (auto simp: loop_ok_def improves_def)
  ultimately show ?thesis using Break assms(2,3) by (auto simp: loop_ok_def)
qed (use assms(1,2) same_mode_inc in \<open>auto simp: loop_ok_def improves_def intro: same_mode_trans\<close>)

lemma return_ok:
  assumes "result_ok s0 b s'" "solving s0 s" "moves s s'"
  shows "loop_ok s0 lo strict s (Return b s')"
proof -
  have "simU (is_incremental s') (solutionCost s') s0 s'" using solvingD(4) [OF solving_moves [OF assms(2,3)]] .
  then show ?thesis using assms(1) moves_mode [OF assms(3)] same_mode_inc [of s s'] simU_inc [of "solutionCost s'" s0 s' 0] by (auto simp: loop_ok_def)
qed

lemma limited_loop_ok:
  assumes E: "engine_ok E" "engine_live E" and s0: "base_inv s0" "budget s0 < 9223372036854775808"
  shows "solving s0 s \<Longrightarrow> lo_inv s0 lo s \<Longrightarrow> assum_ok m A s \<Longrightarrow> (r = 1 \<longrightarrow> sc_sat A (solver s)) \<Longrightarrow> (r = 0 \<longrightarrow> sc_unsat A (solver s)) \<Longrightarrow>
    \<exists>f. limited_loop E Ch lo r m A s = Some f \<and> loop_ok s0 lo (r = 0) s f"
proof (induction s arbitrary: A r
    rule: wf_induct_rule [OF wf_measures [of "[\<lambda>s. nat (budget s - cost s), \<lambda>s. length (litToRelax s)]"]])
  case (1 s)
  let ?M = "measures [\<lambda>s. nat (budget s - cost s), \<lambda>s. length (litToRelax s)]"
  note S = solvingD [OF 1(2)]
  have step: "\<exists>f. (if delayStrategy s' = False then Some (Break m B s')
        else do { (r, s) \<leftarrow> limited_solve E B s'; limited_loop E Ch lo r m B s }) = Some f \<and> loop_ok s0 lo (r = 0) s f"
    if M: "moves s s'" "assum_ok m B s'" and less: "cost s < cost s' \<or> r \<noteq> 0 \<and> length (litToRelax s') < length (litToRelax s)" for B s'
  proof (cases "delayStrategy s' = False")
    case True
    then show ?thesis using moves_improves [OF 1(2,3) M(1)] M(2) less by (auto simp: loop_ok_def)
  next
    case False
    note s' = solving_moves [OF 1(2) M(1)] and lo' = lo_inv_moves [OF 1(3) M(1)]
    note S' = solvingD [OF s']
    have z: "0 \<notin> set B" using assum_okD(4) [OF M(2), of 0] soft_upto(1) [OF S'(1), of 0] by force
    obtain r2 s2 where r2: "limited_solve E B s' = Some (r2, s2)" "queried s' s2" "r2 = 1 \<longrightarrow> sc_sat B (solver s2)" "r2 = 0 \<longrightarrow> sc_unsat B (solver s2)"
      by (rule limited_solve_ok [OF E S'(1) z])
    note M2 = queried_moves [OF r2(2) S'(1,2)] and Q = queried_fields [OF r2(2)]
    have A2: "assum_ok m B s2" by (rule assum_ok_poids [OF M(2)]) (simp add: Q(3))
    have "nat (budget s2 - cost s2) = nat (budget s' - cost s')" using queried_ok(2) [OF r2(2)] Q(5) by simp
    moreover have "nat (budget s' - cost s') \<le> nat (budget s - cost s)" using movesD(4,5) [OF M(1)] by simp
    moreover have "cost s < cost s' \<Longrightarrow> nat (budget s' - cost s') < nat (budget s - cost s)" using moves_measure [OF M(1)] .
    ultimately have "(s2, s) \<in> ?M" using less Q(8) by auto
    then obtain f where f: "limited_loop E Ch lo r2 m B s2 = Some f" "loop_ok s0 lo (r2 = 0) s2 f"
      using 1(1) [OF _ solving_moves [OF s' M2] lo_inv_moves [OF lo' M2] A2 r2(3,4)] by blast
    have im: "improves s0 lo s s2"
      by (rule improves_trans [OF moves_improves [OF 1(2,3) M(1)] moves_improves [OF s' lo' M2]])
    have "loop_ok s0 lo (r = 0) s f" by (rule loop_ok_trans [OF im f(2)]) (use less Q(5) in auto)
    then show ?thesis using False r2(1) f(1) by simp
  qed
  consider "r = 0" | "r = 1" | "r \<noteq> 0" "r \<noteq> 1" by blast
  then show ?case
  proof cases
    case 1
    then have u: "sc_unsat A (solver s)" using \<open>r = 0 \<longrightarrow> _\<close> by simp
    consider (ret) b s' where "unsat_step E Ch m A s = Some (Return b s')" "result_ok s0 b s'" "moves s s'"
      | (nxt) B s' where "unsat_step E Ch m A s = Some (Next B s')" "moves s s'" "assum_ok m B s'" "cost s < cost s'"
      by (rule unsat_step_ok [OF E(1) \<open>solving s0 s\<close> \<open>assum_ok m A s\<close> u s0])
    then show ?thesis
    proof cases
      case (ret b s')
      then show ?thesis using 1 return_ok [OF ret(2) \<open>solving s0 s\<close> ret(3)] by (subst limited_loop.simps) simp
    next
      case (nxt B s')
      then show ?thesis using 1 step [OF nxt(2,3)] by (subst limited_loop.simps) simp
    qed
  next
    case 2
    then have sat: "sc_sat A (solver s)" using \<open>r = 1 \<longrightarrow> _\<close> by simp
    consider (nxt) B s' where "sat_step E Ch lo m A s = Some (Next B s')" "litToRelax s \<noteq> []" "litToRelax s' = []" "moves s s'" "assum_ok m B s'"
      | (brk) B s' where "sat_step E Ch lo m A s = Some (Break m B s')" "improves s0 lo s s'" "assum_ok m B s'"
      by (rule sat_step_ok [OF E \<open>solving s0 s\<close> \<open>lo_inv s0 lo s\<close> \<open>assum_ok m A s\<close> sat])
    then show ?thesis
    proof cases
      case (nxt B s')
      then show ?thesis using 2 step [OF nxt(4,5)] by (subst limited_loop.simps) simp
    next
      case (brk B s')
      then show ?thesis using 2 by (subst limited_loop.simps) (simp add: loop_ok_def)
    qed
  next
    case 3
    have "assum_ok 1 (initAssum 1 s) s" by (rule initAssum_ok [OF S(2,1)]) simp
    then show ?thesis using 3 improves_refl [OF \<open>solving s0 s\<close> \<open>lo_inv s0 lo s\<close>] by (subst limited_loop.simps) (simp add: loop_ok_def)
  qed
qed

section \<open>The outer loop\<close>

lemma take_up_ok:
  assumes s: "solving s0 s" and A: "assum_ok m A s"
  obtains B s' where "take_up m A s = Some (B, s')" "moves s s'" "assum_ok m B s'" "cardToAdd s' = []" "litToRelax s' = []"
proof -
  note S = solvingD [OF s]
  obtain B s1 where B: "relax_lits m (litToRelax s) A s = Some (B, s1)" "relaxes s s1" "assum_ok m B s1"
    using relax_lits_ok [OF S(1,2) A] by blast
  let ?s = "s1\<lparr>litToRelax := []\<rparr>"
  note M = relaxes_moves [OF B(2)]
  have B': "assum_ok m B ?s" by (rule assum_ok_poids [OF B(3)]) simp
  have eq: "dq (cardToAdd ?s) ?s = ?s" by simp
  obtain C s2 where C: "add_cards m (cardToAdd ?s) B ?s = Some (C, s2)" "cards_added [] (dq (cardToAdd ?s) ?s) (dq [] s2)" "assum_ok m C s2"
    using add_cards_ok [of "cardToAdd ?s" ?s "[]" m B] movesD(1,2) [OF M(1)] B' unfolding eq by auto
  have "moves ?s (dq [] s2)" using cards_moves [OF C(2)] unfolding eq by simp
  moreover have "assum_ok m C (dq [] s2)" by (rule assum_ok_poids [OF C(3)]) simp
  moreover have "litToRelax (dq [] s2) = []" using C(2) unfolding eq by (simp add: cards_added_def)
  ultimately show ?thesis
    using that [of C "dq [] s2"] B(1) C(1) moves_trans [OF M(1)] by (simp add: take_up_def)
qed

definition answer_right :: "ems \<Rightarrow> bool \<Rightarrow> ems \<Rightarrow> bool" where
  "answer_right s0 b s = (result_ok s0 b s \<and> same_mode s0 s \<and> (is_incremental s0 \<longrightarrow> simU True 0 s0 s))"

lemma all_satisfied_right:
  assumes s: "solving s0 s" "same_mode s0 s" and rest: "cardToAdd s = []" "litToRelax s = []" "cost s < solutionCost s"
    and m: "nv s < length m" "sat_all (model_of m) (cls s)" "\<forall>l. 1 \<le> wt (poids s) l \<longrightarrow> lit_true (model_of m) l"
  shows "answer_right s0 True (s\<lparr>solutionCost := cost s, solution := m\<rparr>)"
proof -
  have "same_core s (s\<lparr>solutionCost := cost s, solution := m\<rparr>)" by (simp add: same_core_def)
  note C = same_core_ok(8) [OF this]
  have "is_incremental s0 \<longrightarrow> simU True 0 s0 s" using solvingD(4) [OF s(1)] same_mode_inc [OF s(2)] simU_inc [of "solutionCost s" s0 s 0] by auto
  moreover have "same_mode s0 (s\<lparr>solutionCost := cost s, solution := m\<rparr>)" using s(2) by (simp add: same_mode_def)
  ultimately show ?thesis using all_satisfied [OF s(1) rest m] C by (simp add: answer_right_def simU_def)
qed

lemma bounds_meet_right:
  assumes s: "solving s0 s" "same_mode s0 s" and c: "solutionCost s \<le> cost s"
  shows "answer_right s0 True s"
  using bounds_meet [OF s(1) c] solvingD(4) [OF s(1)] s(2) same_mode_inc [OF s(2)] simU_inc [of "solutionCost s" s0 s 0] by (auto simp: answer_right_def)

lemma loop_return_right:
  "loop_ok s0 lo st s (Return b s') \<Longrightarrow> same_mode s0 s \<Longrightarrow> answer_right s0 b s'"
  using same_mode_inc [of s0 s] by (auto simp: loop_ok_def answer_right_def intro: same_mode_trans)

lemma solve_loop_ok:
  assumes E: "engine_ok E" "engine_live E" and s0: "base_inv s0" "budget s0 < 9223372036854775808"
  shows "solving s0 s \<Longrightarrow> lo_inv s0 lo s \<Longrightarrow> assum_ok m A s \<Longrightarrow> cardToAdd s = [] \<Longrightarrow> litToRelax s = [] \<Longrightarrow> same_mode s0 s \<Longrightarrow>
    \<exists>b s'. solve_loop E Ch lo m A s = Some (b, s') \<and> answer_right s0 b s'"
proof (induction "(m, s)" arbitrary: m A s
    rule: wf_induct_rule [OF wf_measures [of "[\<lambda>(m, s). nat (budget s - cost s), \<lambda>(m, s). nat m]"]])
  case 1
  let ?M = "measures [\<lambda>(m, s). nat (budget s - cost s), \<lambda>(m :: int, s). nat m]"
  note s = 1(2) and lo = 1(3) and A = 1(4) and empty = 1(5,6) and inc = 1(7)
  note S = solvingD [OF s] and D = assum_okD [OF A]
  have init: "A = initAssum m s" by (rule assum_ok_unique [OF A initAssum_ok [OF S(2,1) D(1)]])
  show ?case
  proof (cases "solutionCost s \<le> cost s")
    case True
    then show ?thesis using bounds_meet_right [OF s inc] empty by (subst solve_loop.simps) auto
  next
    case below: False
    obtain b s1 where b: "eval_solve E A s = Some (b, s1)" "queried s s1" "if b then sc_sat A (solver s1) else sc_unsat A (solver s1)"
      by (rule eval_solve_ok [OF E S(1)])
    note Q = queried_fields [OF b(2)] and M1 = queried_moves [OF b(2) S(1,2)]
    note s1 = solving_moves [OF s M1] and lo1 = lo_inv_moves [OF lo M1]
    note S1 = solvingD [OF s1] and C1 = ctl_fields [OF movesD(6) [OF M1]] and inc1 = same_mode_trans [OF inc moves_mode [OF M1]]
    have A1: "assum_ok m A s1" by (rule assum_ok_poids [OF A]) (simp add: Q(3))
    have eq: "solve_loop E Ch lo m A s =
        (if b then
           if m = 1 then do { sol \<leftarrow> sc_getSolution (solver s1); Some (True, s1\<lparr>solutionCost := cost s1, solution := sol\<rparr>) }
           else do { (m, s) \<leftarrow> chooseNextMinWeight Ch m s1; solve_loop E Ch lo m (initAssum m s) s }
         else do { f \<leftarrow> limited_loop E Ch lo 0 m A s1;
                   case f of Return b s \<Rightarrow> Some (b, s)
                   | Break m assum s \<Rightarrow> do { (assum, s) \<leftarrow> take_up m assum s; solve_loop E Ch lo m assum s }
                   | Next assum s \<Rightarrow> None })"
      by (subst solve_loop.simps) (simp del: bind_Some_iff add: empty below init [symmetric] b(1))
    consider "b" "m = 1" | "b" "m \<noteq> 1" | "\<not> b" by blast
    then show ?thesis
    proof cases
      case 1
      then have "sc_sat A (solver s1)" using b(3) by simp
      then obtain sol where sol: "sc_getSolution (solver s1) = Some sol" "nv s1 < length sol" "sat_all (model_of sol) (cls s1)"
          "\<forall>a \<in> set A. lit_true (model_of sol) a" by (rule getSolution_ok)
      have "\<forall>l. 1 \<le> wt (poids s1) l \<longrightarrow> lit_true (model_of sol) l" using sol(4) assum_okD(5) [OF A1] 1(2) by blast
      then have "answer_right s0 True (s1\<lparr>solutionCost := cost s1, solution := sol\<rparr>)"
        using sol(2,3) empty Q(5,7,8) below C1 by (intro all_satisfied_right [OF s1 inc1]) simp_all
      then show ?thesis unfolding eq using 1 sol(1) by auto
    next
      case 2
      obtain m' s2 where m': "chooseNextMinWeight Ch m s1 = Some (m', s2)" "reindexed s1 s2" "1 \<le> m'" "m' = 1 \<or> m' < m"
        by (rule chooseNextMinWeight_ok [OF S1(2)])
      note R = reindexed_ok [OF m'(2)] and M2 = reindexed_moves [OF m'(2) S1(1,2)]
      note s2 = solving_moves [OF s1 M2]
      have "((m', s2), (m, s)) \<in> ?M" using m'(3,4) 2(2) D(1) R(3,6) Q(5) queried_ok(2) [OF b(2)] by auto
      moreover have "assum_ok m' (initAssum m' s2) s2" by (rule initAssum_ok [OF solvingD(2,1) [OF s2] m'(3)])
      moreover have "cardToAdd s2 = []" "litToRelax s2 = []" "same_mode s0 s2"
        using keptD(1,2) [OF R(2)] Q(7,8) empty same_mode_trans [OF inc1 moves_mode [OF M2]] by simp_all
      ultimately obtain b' s' where "solve_loop E Ch lo m' (initAssum m' s2) s2 = Some (b', s')" "answer_right s0 b' s'"
        using 1(1) [OF _ s2 lo_inv_moves [OF lo1 M2]] by blast
      then show ?thesis unfolding eq using 2 m'(1) by auto
    next
      case 3
      then have "sc_unsat A (solver s1)" using b(3) by simp
      then obtain f where f: "limited_loop E Ch lo 0 m A s1 = Some f" "loop_ok s0 lo True s1 f"
        using limited_loop_ok [OF E s0 s1 lo1 A1, of 0 Ch] by auto
      show ?thesis
      proof (cases f)
        case (Return b' s')
        then have "answer_right s0 b' s'" using loop_return_right [OF _ inc1] f(2) by simp
        then show ?thesis unfolding eq using 3 f(1) Return by auto
      next
        case (Break m' B s2)
        have s2: "improves s0 lo s1 s2" "assum_ok m' B s2" "cost s1 < cost s2" using f(2) Break by (auto simp: loop_ok_def)
        have s2': "solving s0 s2" "lo_inv s0 lo s2" "budget s2 \<le> budget s1" "same_mode s1 s2" using s2(1) by (auto simp: improves_def)
        obtain C s3 where C: "take_up m' B s2 = Some (C, s3)" "moves s2 s3" "assum_ok m' C s3" "cardToAdd s3 = []" "litToRelax s3 = []"
          by (rule take_up_ok [OF s2'(1) s2(2)])
        note s3 = solving_moves [OF s2'(1) C(2)]
        have "cost s < cost s3" "budget s3 \<le> budget s" "cost s3 \<le> budget s3"
          using s2(3) Q(5) queried_ok(2) [OF b(2)] s2'(3) movesD(4,5) [OF C(2)] cost_le_budget [OF solvingD(1) [OF s3]] by linarith+
        then have "((m', s3), (m, s)) \<in> ?M" by auto
        moreover have "same_mode s0 s3" using same_mode_trans [OF inc1 same_mode_trans [OF s2'(4) moves_mode [OF C(2)]]] .
        ultimately obtain b' s' where "solve_loop E Ch lo m' C s3 = Some (b', s')" "answer_right s0 b' s'"
          using 1(1) [OF _ s3 lo_inv_moves [OF s2'(2) C(2)] C(3,4,5)] by blast
        then show ?thesis unfolding eq using 3 f(1) Break C(1) by auto
      qed (use f(2) in \<open>simp add: loop_ok_def\<close>)
    qed
  qed
qed

section \<open>The whole call\<close>

text \<open>
  The local optimizer compares costs with weights copied at its construction; they are the costs of
  the models only while no cardinality exists. So either it is switched off or the call starts without
  cardinalities, as the first call does.
\<close>

definition optimizer_sound :: "ems \<Rightarrow> bool" where
  "optimizer_sound s = (UBStrategy s \<and> toOptimize s \<longrightarrow> cards s = [] \<and> cardToAdd s = [])"

lemma solve_start_ok:
  assumes "ems_inv s"
  obtains s1 where "solve_start s = Some s1" "solving s s1" "solutionCost s1 = t_weight_max" "cardToAdd s1 = []" "litToRelax s1 = []"
    "same_mode s s1" "cardToAdd s = [] \<longrightarrow> length (cards s1) = length (cards s)"
proof -
  define t where "t = s\<lparr>start_solve := True, solutionCost := t_weight_max\<rparr>"
  have eq0: "(if solutionCost (s\<lparr>start_solve := True\<rparr>) \<noteq> t_weight_max then s\<lparr>start_solve := True, solutionCost := t_weight_max\<rparr>
      else s\<lparr>start_solve := True\<rparr>) = t" by (simp add: t_def)
  have "same_core s t" by (simp add: same_core_def t_def)
  note C = same_core_ok [OF this]
  have inv: "base_inv t" "weights_inv (litToRelax t) t" using assms C(3,4) by (simp_all add: ems_inv_def t_def)
  have st: "solving s t"
    using inv sim0_simU [OF sim_refl, of "is_incremental s" t_weight_max s] C(8) by (simp add: solving_def simU_def) (simp add: t_def)
  obtain s1 where s1: "relax_all (litToRelax t) t = Some s1" "relaxes t s1" using relax_all_ok [OF inv] by blast
  let ?s1 = "s1\<lparr>litToRelax := []\<rparr>"
  note M1 = relaxes_moves [OF s1(2)]
  have eq: "dq (cardToAdd ?s1) ?s1 = ?s1" by simp
  obtain s2 where s2: "add_cards0 (cardToAdd ?s1) ?s1 = Some s2" "cards_added [] ?s1 (dq [] s2)"
    using add_cards0_ok [of "cardToAdd ?s1" ?s1 "[]"] movesD(1,2) [OF M1(1)] unfolding eq by auto
  have M2: "moves t (dq [] s2)" using moves_trans [OF M1(1) cards_moves [OF s2(2)]] by simp
  note F = ctl_fields [OF movesD(6) [OF M2]]
  have "solve_start s = Some (dq [] s2)"
    unfolding solve_start_def by (simp only: bind.bind_lunit eq0 s1(1) s2(1))
  moreover have "solving s (dq [] s2)" by (rule solving_moves [OF st M2])
  moreover have "litToRelax (dq [] s2) = []" using s2(2) by (simp add: cards_added_def)
  moreover have "length (cards (dq [] s2)) = length (cards s)" if "cardToAdd s = []"
  proof -
    have "cardToAdd ?s1 = []" using M1(2) that by (simp add: t_def)
    then have "s2 = ?s1" using s2(1) by simp
    moreover have "length (cards s1) = length (cards t)" using s1(2) by (simp add: relaxes_def same_rest_def)
    ultimately show ?thesis by (simp add: t_def)
  qed
  moreover have "same_mode s (dq [] s2)" using F by (simp add: same_mode_def t_def)
  ultimately show ?thesis using that F by (simp add: t_def)
qed

lemma lo_new_inv:
  assumes s: "solving s0 s" and none: "UBStrategy s \<and> toOptimize s \<longrightarrow> cards s = []" "cardToAdd s = []"
  shows "lo_inv s0 (lo_new s) s"
  unfolding lo_inv_def
proof (intro impI conjI allI)
  assume on: "UBStrategy s \<and> toOptimize s"
  note S = solvingD [OF s]
  note B = base_invD [OF S(1)]
  have "mapAssum2Card s ! v = None" if "v < length (mapAssum2Card s)" for v
    using B(3) [OF that] none(1) on by (cases "mapAssum2Card s ! v") (auto simp: entry_ok_def)
  then have e: "esum f (mapAssum2Card s) = 0" for f by (simp add: esum_def opt_sum_def)
  have "budget s = cost s + vsum (\<lambda>v w. \<bar>w\<bar>) (poids s)" using e none(2) by (simp add: budget_def wtotal_def dsum_def)
  then show "lo_ok (nv s) (lo_new s)"
    using weights_invD(5) [OF S(2)] B(4,6,9) by (simp add: lo_ok_def lo_new_def)
  have "obj \<sigma> s = lo_cost (lo_new s) \<sigma>" for \<sigma> using e none(2) by (simp add: obj_def wtotal_def dsum_def lo_cost_def lo_new_def)
  then show "obj \<sigma> s0 \<le> lo_cost (lo_new s) \<sigma>" if "sat_all \<sigma> (cls s)" for \<sigma>
    using S(4) that by (auto simp: simU_def sim_def)
qed

text \<open>Nothing is hardened before a solution is known.\<close>

lemma no_hardening_yet:
  assumes "base_inv s" "weights_inv W s" "solutionCost s = t_weight_max"
  shows "\<not> (\<exists>l. 0 < wt (poids s) l \<and> u64 (solutionCost s - cost s) \<le> wt (poids s) l)"
proof -
  have c: "0 \<le> cost s" "cost s \<le> budget s" "budget s < 9223372036854775808"
    using base_invD(6) [OF assms(1)] cost_le_budget [OF assms(1)] weights_invD(5) [OF assms(2)] .
  then have u: "u64 (solutionCost s - cost s) = 18446744073709551615 - cost s" using assms(3) by (simp add: u64_id t_weight_max_def)
  have "wt (poids s) l < u64 (solutionCost s - cost s)" for l
    unfolding u using budget_weight [OF assms(1), of l] c by linarith
  then show ?thesis by (simp add: not_le)
qed

lemma solve_body_ok:
  assumes E: "engine_ok E" "engine_live E" and s0: "base_inv s0" "budget s0 < 9223372036854775808"
    and s: "solving s0 s" "solutionCost s = t_weight_max" "cardToAdd s = []" "litToRelax s = []" "same_mode s0 s"
      "UBStrategy s \<and> toOptimize s \<longrightarrow> cards s = []"
  obtains b s' where "solve_body E Ch s = Some (b, s')" "answer_right s0 b s'"
proof -
  note S = solvingD [OF s(1)]
  obtain r t where t: "adapt_am1_exact E Ch s = Some (r, t)" "evolves (litToRelax s) s t" by (rule adapt_am1_exact_ok [OF E(1) S(1,2,3)])
  note V = evolvesD [OF t(2)]
  have "start_solve t" using keptD(5) [OF V(5)] S(3) by simp
  then obtain n u where u: "adapt_am1_FastHeuristicV7 E t = Some (n, u)" "evolves (litToRelax s) t u"
    unfolding adapt_am1_FastHeuristicV7_def using v7.scan_ok [OF E(1) V(1,2)] by metis
  have ev: "evolves (litToRelax s) s u" using evolves_trans [OF t(2) u(2)] .
  note K = keptD [OF evolvesD(5) [OF ev]]
  have su: "solving s0 u" by (rule solving_moves [OF s(1) evolves_moves [OF ev]])
  note SU = solvingD [OF su]
  have fu: "cost u < solutionCost u" "cardToAdd u = []" "litToRelax u = []" "solutionCost u = t_weight_max" "same_mode s0 u"
      "UBStrategy u \<and> toOptimize u \<longrightarrow> cards u = []"
    using cost_below_max [OF SU(1,2)] K s same_mode_trans [OF s(5) moves_mode [OF evolves_moves [OF ev]]] by auto
  show ?thesis
  proof (cases "mapWeight2Assum u = []")
    case True
    obtain b v where b: "eval_solve E [] u = Some (b, v)" "queried u v" "if b then sc_sat [] (solver v) else sc_unsat [] (solver v)"
      by (rule eval_solve_ok [OF E SU(1)])
    note Q = queried_fields [OF b(2)] and M = queried_moves [OF b(2) SU(1,2)]
    note sv = solving_moves [OF su M] and F = ctl_fields [OF movesD(6) [OF M]] and mode = same_mode_trans [OF fu(5) moves_mode [OF M]]
    show ?thesis
    proof (cases b)
      case False
      have "\<not> sat_all \<sigma> (cls v)" for \<sigma> using sc_unsat_cls [of "[]" v \<sigma>] b(3) False by auto
      then have "result_ok s0 (solutionCost v \<noteq> t_weight_max) v" by (rule no_model_left [OF sv s0])
      moreover have "is_incremental s0 \<longrightarrow> simU True 0 s0 v" using solvingD(4) [OF sv] same_mode_inc [OF mode] simU_inc [of "solutionCost v" s0 v 0] by auto
      ultimately have "answer_right s0 False v" using F(7) fu(4) mode by (simp add: answer_right_def)
      then show ?thesis using that [of False v] t(1) u(1) fu(1) True b(1) False by (simp add: solve_body_def)
    next
      case b1: True
      then have "sc_sat [] (solver v)" using b(3) by simp
      then obtain sol where sol: "sc_getSolution (solver v) = Some sol" "nv v < length sol" "sat_all (model_of sol) (cls v)" by (rule getSolution_ok)
      have "\<not> 1 \<le> wt (poids v) l" for l
        using wm.mirrors_bucket [OF weights_invD(1) [OF SU(2)], of l "wt (poids u) l"] soft_upto(1) [OF SU(1), of l] True Q(3)
        by (auto simp: map_at_def)
      then have "answer_right s0 True (v\<lparr>solutionCost := cost v, solution := sol\<rparr>)"
        using sol(2,3) fu Q(5,7,8) F by (intro all_satisfied_right [OF sv mode]) auto
      then show ?thesis using that [of True "v\<lparr>solutionCost := cost v, solution := sol\<rparr>"] t(1) u(1) fu(1) True b(1) b1 sol(1) by (simp add: solve_body_def)
    qed
  next
    case False
    obtain nb B v where h: "harden [] u = Some (nb, B, v)" "moves u v" "\<forall>m. assum_ok m [] u \<longrightarrow> assum_ok m B v"
      "mapWeight2Assum u \<noteq> [] \<longrightarrow> mapWeight2Assum v \<noteq> []" "cardToAdd v = cardToAdd u" "litToRelax v = litToRelax u"
      "nb \<noteq> 0 \<longrightarrow> (\<exists>l. 0 < wt (poids u) l \<and> u64 (solutionCost u - cost u) \<le> wt (poids u) l) \<and> mapWeight2Assum u \<noteq> []"
      by (rule harden_moves [OF su])
    have nb: "nb = 0" using h(7) no_hardening_yet [OF SU(1,2) fu(4)] by blast
    have same: "length (cards v) = length (cards u)"
    proof -
      obtain nb' B' v' where "harden [] u = Some (nb', B', v')" "kept u v'"
        using harden_ok [OF SU(1,2,5), of "[]"] by metis
      then show ?thesis using h(1) keptD(12) by auto
    qed
    note sv = solving_moves [OF su h(2)] and F = ctl_fields [OF movesD(6) [OF h(2)]]
    have lo: "lo_inv s0 (lo_new v) v" using fu(2,6) F(4,5) h(5) same by (intro lo_new_inv [OF sv]) auto
    obtain m w where w: "chooseNextMinWeight Ch (u64 (fst (last (mapWeight2Assum v)) + 1)) v = Some (m, w)" "reindexed v w" "1 \<le> m"
      by (rule chooseNextMinWeight_ok [OF solvingD(2) [OF sv]])
    note M = reindexed_moves [OF w(2) solvingD(1,2) [OF sv]] and R = keptD [OF reindexed_ok(2) [OF w(2)]]
    note sw = solving_moves [OF sv M]
    have "assum_ok m (initAssum m w) w" by (rule initAssum_ok [OF solvingD(2,1) [OF sw] w(3)])
    moreover have "cardToAdd w = []" "litToRelax w = []" "same_mode s0 w"
      using R(1,2) h(5,6) fu same_mode_trans [OF fu(5) same_mode_trans [OF moves_mode [OF h(2)] moves_mode [OF M]]] by simp_all
    ultimately obtain b s' where "solve_loop E Ch (lo_new v) m (initAssum m w) w = Some (b, s')" "answer_right s0 b s'"
      using solve_loop_ok [OF E s0 sw lo_inv_moves [OF lo M]] by blast
    then show ?thesis
      using that [of b s'] t(1) u(1) fu(1,2,3) False h(1,4,5,6) nb w(1) by (simp add: solve_body_def)
  qed
qed

text \<open>
  \<open>solve\<close> returns and its answer is right. In incremental mode the state afterwards still stands
  for the same problem, so that the next call can go on with it.
\<close>

lemma solve_ok:
  assumes E: "engine_ok E" "engine_live E" and s: "ems_inv s" "optimizer_sound s"
  obtains b s' where "solve E Ch s = Some (b, s')" "ems_inv s'" "\<not> start_solve s'" "result_ok s b s'" "is_incremental s \<longrightarrow> sim0 s s'" "same_mode s s'"
proof -
  have inv: "base_inv s" "budget s < 9223372036854775808" using s(1) weights_invD(5) by (auto simp: ems_inv_def)
  obtain s1 where s1: "solve_start s = Some s1" "solving s s1" "solutionCost s1 = t_weight_max" "cardToAdd s1 = []" "litToRelax s1 = []"
    "same_mode s s1" "cardToAdd s = [] \<longrightarrow> length (cards s1) = length (cards s)"
    by (rule solve_start_ok [OF s(1)])
  have "UBStrategy s1 \<and> toOptimize s1 \<longrightarrow> cards s1 = []" using s(2) s1(6,7) by (auto simp: optimizer_sound_def same_mode_def)
  then obtain b s2 where s2: "solve_body E Ch s1 = Some (b, s2)" "answer_right s b s2" by (rule solve_body_ok [OF E inv s1(2-6)])
  let ?s = "s2\<lparr>start_solve := False\<rparr>"
  have "same_core s2 ?s" by (simp add: same_core_def)
  note C = same_core_ok [OF this]
  have r: "result_ok s b s2" "is_incremental s \<longrightarrow> simU True 0 s s2" "same_mode s s2" using s2(2) by (simp_all add: answer_right_def)
  have "result_ok s b ?s" using r(1) C(3,4) by (auto simp: result_ok_def best_known_def)
  moreover have "is_incremental s \<longrightarrow> sim0 s ?s" using r(2) C(8) by (simp add: simU_def)
  moreover have "solve E Ch s = Some (b, ?s)" using s1(1) s2(1) by (simp add: solve_def)
  moreover have "ems_inv ?s" using calculation(1) by (simp add: ems_inv_def result_ok_def)
  moreover have "same_mode s ?s" using r(3) by (simp add: same_mode_def)
  ultimately show ?thesis using that by simp
qed

text \<open>
  A hard clause is added to a state that stands for the same problem as an earlier one, and \<open>solve\<close> is called: the answer
  is right for the earlier problem with the clause.
\<close>

lemma solve_after_clause:
  assumes E: "engine_ok E" "engine_live E" and s: "sim0 s s'" "ems_inv s'" "optimizer_sound s'" and c: "\<forall>l \<in> set c. lit_upto (nv s) l"
  obtains s1 b s2 where "addClause c None s' = Some (0, s1)" "solve E Ch s1 = Some (b, s2)" "ems_inv s2" "same_mode s' s2"
    "if b then sat_all (model_of (solution s2)) (insert c (cls s)) \<and> obj (model_of (solution s2)) s \<le> solutionCost s2 \<and>
         (\<forall>\<sigma>. exact \<sigma> s \<and> sat_clause \<sigma> c \<longrightarrow> solutionCost s2 \<le> obj \<sigma> s)
     else (\<forall>\<sigma>. \<not> (exact \<sigma> s \<and> sat_clause \<sigma> c))"
proof -
  have inv: "base_inv s'" "weights_inv (litToRelax s') s'" using s(2) by (simp_all add: ems_inv_def)
  have nv: "nv s \<le> nv s'" using s(1) by (simp add: sim_def)
  have c': "\<forall>l \<in> set c. lit_upto (nv s') l" using c nv by (auto simp: lit_upto_def)
  obtain s1 where s1: "addClause_hard c s' = Some s1" "base_inv s1" "weights_inv (litToRelax s') s1" "sim (\<lambda>\<sigma>. sat_clause \<sigma> c) (\<lambda>\<sigma>. 0) s' s1" "c \<in> cls s1" "kept s' s1"
    by (rule addClause_hard_ok [OF inv c']) (rule that)
  note K = keptD [OF s1(6)]
  have "ems_inv s1" "optimizer_sound s1" using s1(2,3) K s(3) by (auto simp: ems_inv_def optimizer_sound_def)
  then obtain b s2 where s2: "solve E Ch s1 = Some (b, s2)" "ems_inv s2" "result_ok s1 b s2" "same_mode s1 s2" by (rule solve_ok [OF E])
  have down: "sat_all \<sigma> (insert c (cls s)) \<and> obj \<sigma> s \<le> obj \<sigma> s1" if "sat_all \<sigma> (cls s1)" for \<sigma>
  proof -
    have "cls s \<subseteq> cls s'" "cls s' \<subseteq> cls s1" "obj \<sigma> s' \<le> obj \<sigma> s1" using s(1) s1(4) that by (simp_all add: sim_def)
    moreover have "sat_all \<sigma> (cls s')" using sat_all_mono [OF that] calculation(2) by blast
    moreover have "obj \<sigma> s \<le> obj \<sigma> s'" using s(1) calculation(4) by (simp add: sim_def)
    ultimately show ?thesis using that s1(5) sat_all_mono [OF that, of "insert c (cls s)"] by auto
  qed
  have forth: "\<exists>\<sigma>'. exact \<sigma>' s1 \<and> obj \<sigma>' s1 \<le> obj \<sigma> s" if x: "exact \<sigma> s" "sat_clause \<sigma> c" for \<sigma>
  proof -
    obtain \<sigma>' where t: "agree_upto (nv s) \<sigma> \<sigma>'" "exact \<sigma>' s'" "obj \<sigma>' s' \<le> obj \<sigma> s" using s(1) x(1) by (auto simp: sim_def)
    then have "sat_clause \<sigma>' c" using x(2) c agree_clause by blast
    then obtain \<tau> where "exact \<tau> s1" "obj \<tau> s1 \<le> obj \<sigma>' s'" using s1(4) t(2) by (auto simp: sim_def)
    then show ?thesis using t(3) by (intro exI [of _ \<tau>]) simp
  qed
  have r: "if b then sat_all (model_of (solution s2)) (insert c (cls s)) \<and> obj (model_of (solution s2)) s \<le> solutionCost s2 \<and>
         (\<forall>\<sigma>. exact \<sigma> s \<and> sat_clause \<sigma> c \<longrightarrow> solutionCost s2 \<le> obj \<sigma> s)
     else (\<forall>\<sigma>. \<not> (exact \<sigma> s \<and> sat_clause \<sigma> c))"
  proof (cases b)
    case True
    then have R: "sat_all (model_of (solution s2)) (cls s1)" "obj (model_of (solution s2)) s1 \<le> solutionCost s2" "\<forall>\<sigma>. exact \<sigma> s1 \<longrightarrow> solutionCost s2 \<le> obj \<sigma> s1"
      using s2(3) by (auto simp: result_ok_def best_known_def)
    have "solutionCost s2 \<le> obj \<sigma> s" if "exact \<sigma> s" "sat_clause \<sigma> c" for \<sigma> using forth [OF that] R(3) order_trans by blast
    then show ?thesis using True down [OF R(1)] R(2) by auto
  next
    case False
    then show ?thesis using s2(3) forth by (auto simp: result_ok_def)
  qed
  have "same_mode s' s1" using K by (simp add: same_mode_def)
  then show ?thesis using that [OF _ s2(1,2) same_mode_trans [OF _ s2(4)] r] s1(1) by (simp add: addClause_def)
qed

end
