(* ===== verification/Wcnf_Load.thy ===== *)
theory Wcnf_Load
  imports Wcnf_Format Eval_Correct
begin

text \<open>
  What a WCNF file means, and that the state \<open>parse\<close> builds from it has this meaning: its clauses are
  the hard clauses, and its objective is the weight of the soft clauses an assignment falsifies.
  Together with the correctness of \<open>solve\<close> this is the correctness of the program on a file.
\<close>

section \<open>The meaning of a file\<close>

fun hards :: "int \<Rightarrow> wline list \<Rightarrow> int list list" where
  "hards thr [] = []"
| "hards thr (Comment t # ls) = hards thr ls"
| "hards thr (Header n m t # ls) = hards t ls"
| "hards thr (Wclause w c # ls) = (if w \<ge> thr then c # hards thr ls else hards thr ls)"

fun softs :: "int \<Rightarrow> wline list \<Rightarrow> (int list \<times> int) list" where
  "softs thr [] = []"
| "softs thr (Comment t # ls) = softs thr ls"
| "softs thr (Header n m t # ls) = softs t ls"
| "softs thr (Wclause w c # ls) = (if w \<ge> thr then softs thr ls else (c, w) # softs thr ls)"

fun lines_vars :: "wline list \<Rightarrow> nat" where
  "lines_vars [] = 0"
| "lines_vars (Comment t # ls) = lines_vars ls"
| "lines_vars (Header n m t # ls) = lines_vars ls"
| "lines_vars (Wclause w c # ls) = foldr (\<lambda>l n. max (nat \<bar>l\<bar>) n) c (lines_vars ls)"

definition penalty :: "asg \<Rightarrow> (int list \<times> int) list \<Rightarrow> int" where
  "penalty \<sigma> sc = (\<Sum>(c, w) \<leftarrow> sc. pays c w \<sigma>)"

definition total_weight :: "(int list \<times> int) list \<Rightarrow> int" where
  "total_weight sc = sum_list (map snd sc)"

lemma penalty_simps [simp]: "penalty \<sigma> [] = 0" "penalty \<sigma> ((c, w) # sc) = pays c w \<sigma> + penalty \<sigma> sc"
  by (simp_all add: penalty_def)

lemma total_weight_simps [simp]: "total_weight [] = 0" "total_weight ((c, w) # sc) = w + total_weight sc"
  by (simp_all add: total_weight_def)

section \<open>States before the first soft clause\<close>

definition plain :: "ems \<Rightarrow> bool" where
  "plain s = (sink_ok s \<and> poids s = replicate (nv s + 1) 0 \<and> mapAssum2Card s = replicate (nv s + 1) None \<and>
     mapWeight2Assum s = [] \<and> cost s = 0 \<and> cardToAdd s = [] \<and> litToRelax s = [] \<and> lheap s = [] \<and> cards s = [] \<and>
     solutionCost s = t_weight_max)"

lemma plain_new: "plain ems_new" "nv ems_new = 0" "cls ems_new = {}"
  using sc_new_ok by (simp_all add: plain_def ems_new_def nv_def cls_def sink_ok_def wv_push_back_def)

lemma plain_wt: "plain s \<Longrightarrow> wt (poids s) l = 0"
  by (simp add: plain_def wt_def wv_get_def del: replicate_Suc)

lemma plainD:
  assumes "plain s"
  shows "nVars s = nv s" "addable s" "optimizer_sound s" "litToRelax s = []" "v \<le> nv s \<Longrightarrow> mapAssum2Card s ! v = None"
  using assms by (auto simp: plain_def nVars_def addable_def optimizer_sound_def simp del: replicate_Suc)

lemma plain_sums: "vsum f (replicate n 0) = (\<Sum>v < n. f (int v) 0)" "esum g (replicate n None) = 0"
  by (simp_all add: vsum_def esum_def opt_sum_def)

lemma plain_inv:
  assumes "plain s"
  shows "base_inv s" "weights_inv [] s" "obj \<sigma> s = 0" "budget s = 0" "exact \<sigma> s = sat_all \<sigma> (cls s)"
proof -
  note P = assms [unfolded plain_def]
  have len: "length (mapAssum2Card s) = nv s + 1" "length (poids s) = nv s + 1" using P by (simp_all del: replicate_Suc)
  have m: "mapAssum2Card s ! v = None" if "v < length (mapAssum2Card s)" for v using plainD(5) [OF assms] that len by simp
  have p: "poids s ! 0 = 0" "mapAssum2Card s ! 0 = None" using P by simp_all
  show b: "base_inv s"
    using P m p by (auto simp: base_inv_def cards_inv_def es.lv_inv_def lv_wf_def lv_vars_upto_def lv_emitted_def cardToAdd_ok_def)
  have t: "wtotal f n s = (\<Sum>v < nv s + 1. f (int v) 0)" for f n
    using P by (simp add: wtotal_def plain_sums dsum_def del: replicate_Suc)
  show "obj \<sigma> s = 0" and bud: "budget s = 0" by (simp_all add: obj_def budget_def t)
  have "wm.mirrors (mapWeight2Assum s) (wt (poids s))"
    unfolding wm.mirrors_def using P plain_wt [OF assms] by (simp add: map_wf_def map_at_def)
  then show "weights_inv [] s" using m bud by (auto simp: weights_inv_def)
  show "exact \<sigma> s = sat_all \<sigma> (cls s)" using P by (simp add: exact_def lv_exact_def)
qed

lemma plain_newVar:
  assumes "plain s"
  shows "plain (snd (newVar s))" "cls (snd (newVar s)) = cls s" "nv (snd (newVar s)) = Suc (nv s)" "kept s (snd (newVar s))"
proof -
  note P = assms [unfolded plain_def]
  have n: "nv (snd (newVar s)) = Suc (nv s)" "cls (snd (newVar s)) = cls s" "sink_ok (snd (newVar s))"
    using newVar_sink [of s "fst (newVar s)" "snd (newVar s)"] P by simp_all
  then show "nv (snd (newVar s)) = Suc (nv s)" "cls (snd (newVar s)) = cls s" by simp_all
  show "plain (snd (newVar s))" using n P by (simp add: plain_def newVar_eq replicate_append_same)
  show "kept s (snd (newVar s))" by (simp add: newVar_eq kept_def)
qed

lemma plain_newVars:
  "plain s \<Longrightarrow> plain (newVars n s) \<and> cls (newVars n s) = cls s \<and> nv (newVars n s) = nv s + n \<and> kept s (newVars n s)"
proof (induction n arbitrary: s)
  case (Suc n)
  then show ?case using plain_newVar [OF Suc.prems] kept_trans by auto
qed simp

lemma foldr_max: "n \<le> foldr (\<lambda>l n. max (nat \<bar>l\<bar>) n) c n" "l \<in> set c \<Longrightarrow> nat \<bar>l\<bar> \<le> foldr (\<lambda>l n. max (nat \<bar>l\<bar>) n) c n"
  by (induction c) auto

lemma foldr_max_swap:
  "foldr (\<lambda>l n. max (nat \<bar>l\<bar>) n) c (max k m) = max k (foldr (\<lambda>l n. max (nat \<bar>l\<bar>) n) c m)"
  by (induction c) (simp_all add: max.left_commute)

lemma plain_create:
  "plain s \<Longrightarrow> plain (create_vars c s) \<and> cls (create_vars c s) = cls s \<and> kept s (create_vars c s) \<and>
     nv (create_vars c s) = foldr (\<lambda>l n. max (nat \<bar>l\<bar>) n) c (nv s)"
proof (induction c arbitrary: s)
  case (Cons l c)
  let ?t = "newVars (nat \<bar>l\<bar> - nVars s) s"
  note N = plain_newVars [OF Cons.prems, of "nat \<bar>l\<bar> - nVars s"]
  have "nv ?t = max (nat \<bar>l\<bar>) (nv s)" using N plainD(1) [OF Cons.prems] by (simp add: max_def)
  then show ?case using Cons.IH [of ?t] N kept_trans [of s ?t] by (simp add: foldr_max_swap)
qed simp

lemma plain_hard:
  assumes "plain s" "\<forall>l \<in> set c. lit_upto (nv s) l"
  obtains s' where "addClause c None s = Some (0, s')" "plain s'" "cls s' = insert c (cls s)" "nv s' = nv s" "kept s s'"
proof -
  note P = plain_inv [OF assms(1)] and E = emit_ok [OF plain_inv(1) [OF assms(1)] assms(2)]
  have "addClause_hard c s = Some (emit c s)"
  proof (cases "length c = 1")
    case True
    then obtain l where l: "c = [l]" by (cases c) auto
    then have "wv_get (poids s) l = Some 0"
      using wv_get_wt [of l "poids s"] base_invD(9) [OF P(1)] plain_wt [OF assms(1)] assms(2) by (simp add: lit_upto_def)
    then show ?thesis using l by (simp add: addClause_hard_def addClause_unit_def)
  qed (simp add: addClause_hard_def)
  moreover have "plain (emit c s)" using assms(1) E(2) base_invD(8) [OF E(1)] by (simp add: plain_def emit_def)
  ultimately show ?thesis using that E same_rest_kept [OF E(6)] by (simp add: addClause_def)
qed

section \<open>Loading the hard clauses\<close>

lemma hard_lits:
  assumes "list_all lit_fits c"
  shows "\<forall>l \<in> set c. lit_upto (foldr (\<lambda>l n. max (nat \<bar>l\<bar>) n) c n) l"
  using assms foldr_max(2) by (auto simp: lit_upto_def lit_fits_def list_all_iff)

text \<open>Clauses over the variables up to \<open>n\<close>.\<close>

definition clauses_upto :: "nat \<Rightarrow> int list set \<Rightarrow> bool" where
  "clauses_upto n C = (\<forall>c \<in> C. \<forall>l \<in> set c. lit_upto n l)"

lemma clauses_upto_mono: "clauses_upto n C \<Longrightarrow> n \<le> m \<Longrightarrow> clauses_upto m C"
  by (auto simp: clauses_upto_def intro: lit_upto_mono)

lemma load_lines_ok:
  assumes "plain s" "list_all line_fits ls" "clauses_upto (nv s) (set (map fst sc))"
  obtains s' where "load_lines thr sc ls s = Inr (True, sc @ softs thr ls, s')" "plain s'" "cls s' = cls s \<union> set (hards thr ls)"
    "nv s' = max (nv s) (lines_vars ls)" "kept s s'" "clauses_upto (nv s') (set (map fst (sc @ softs thr ls)))"
  using assms
proof (induction thr sc ls s arbitrary: thesis rule: load_lines.induct)
  case (4 thr sc w c ls s)
  let ?s = "create_vars c s"
  have C: "plain ?s" "cls ?s = cls s" "kept s ?s" "nv ?s = foldr (\<lambda>l n. max (nat \<bar>l\<bar>) n) c (nv s)"
    using plain_create [OF 4(4)] by blast+
  have fits: "list_all lit_fits c" "list_all line_fits ls" using 4(5) by simp_all
  have up: "\<forall>l \<in> set c. lit_upto (nv ?s) l" using hard_lits [OF fits(1)] C(4) by simp
  have le: "nv s \<le> nv ?s" using foldr_max(1) C(4) by simp
  have vars: "max (nv ?s) (lines_vars ls) = max (nv s) (lines_vars (Wclause w c # ls))"
    using foldr_max_swap [of c "nv s" "lines_vars ls"] foldr_max_swap [of c "lines_vars ls" "nv s"] C(4)
      max.commute [of "nv s" "lines_vars ls"] max.commute [of "lines_vars ls" "nv ?s"] by simp
  have sc: "clauses_upto (nv ?s) (set (map fst sc))" by (rule clauses_upto_mono [OF 4(6) le])
  show ?case
  proof (cases "w \<ge> thr")
    case True
    obtain t where t: "addClause c None ?s = Some (0, t)" "plain t" "cls t = insert c (cls ?s)" "nv t = nv ?s" "kept ?s t"
      by (rule plain_hard [OF C(1) up])
    have sc': "clauses_upto (nv t) (set (map fst sc))" using sc t(4) by simp
    obtain s' where s': "load_lines thr sc ls t = Inr (True, sc @ softs thr ls, s')" "plain s'" "cls s' = cls t \<union> set (hards thr ls)"
      "nv s' = max (nv t) (lines_vars ls)" "kept t s'" "clauses_upto (nv s') (set (map fst (sc @ softs thr ls)))"
      by (rule 4(1) [OF True t(1) refl _ t(2) fits(2) sc'])
    show ?thesis
      by (rule 4(3) [of s'])
        (use True t s' C vars kept_trans [OF kept_trans [OF C(3) t(5)] s'(5)] in simp_all)
  next
    case False
    have sc': "clauses_upto (nv ?s) (set (map fst (sc @ [(c, w)])))" using sc up by (auto simp: clauses_upto_def)
    obtain s' where s': "load_lines thr (sc @ [(c, w)]) ls ?s = Inr (True, (sc @ [(c, w)]) @ softs thr ls, s')" "plain s'"
      "cls s' = cls ?s \<union> set (hards thr ls)" "nv s' = max (nv ?s) (lines_vars ls)" "kept ?s s'"
      "clauses_upto (nv s') (set (map fst ((sc @ [(c, w)]) @ softs thr ls)))"
      by (rule 4(2) [OF False _ C(1) fits(2) sc'])
    show ?thesis
      by (rule 4(3) [of s']) (use False s' C vars kept_trans [OF C(3) s'(5)] in simp_all)
  qed
qed (auto simp: max_def)

section \<open>Loading the soft clauses\<close>

lemma pays_local: "\<forall>l \<in> set c. lit_upto n l \<Longrightarrow> local_upto n (pays c w)"
  by (auto simp: local_upto_def pays_def dest: agree_clause)

lemma penalty_local: "clauses_upto n (set (map fst sc)) \<Longrightarrow> local_upto n (\<lambda>\<sigma>. penalty \<sigma> sc)"
proof (induction sc)
  case (Cons p sc)
  obtain c w where p: "p = (c, w)" by (cases p)
  have "local_upto n (pays c w)" using Cons.prems p by (intro pays_local) (simp add: clauses_upto_def)
  moreover have "local_upto n (\<lambda>\<sigma>. penalty \<sigma> sc)" using Cons by (simp add: clauses_upto_def)
  ultimately show ?case using p by (simp add: local_upto_def)
qed (simp add: local_upto_def)

text \<open>A state to which soft clauses over the first \<open>n\<close> variables can be added.\<close>

definition open_to :: "nat \<Rightarrow> ems \<Rightarrow> bool" where
  "open_to n s = (base_inv s \<and> weights_inv [] s \<and> n \<le> nv s \<and> (\<forall>v \<le> n. mapAssum2Card s ! v = None) \<and> addable s)"

lemma kept_addable: "kept s s' \<Longrightarrow> addable s \<Longrightarrow> addable s'"
  using keptD [of s s'] by (simp add: addable_def)

lemma add_softs_ok:
  assumes "open_to n s" "clauses_upto n (set (map fst sc))" "\<forall>(c, w) \<in> set sc. 0 \<le> w" "budget s + total_weight sc < 9223372036854775808"
  obtains s' where "add_softs sc s = Some s'" "open_to n s'" "sim (\<lambda>\<sigma>. True) (\<lambda>\<sigma>. - penalty \<sigma> sc) s s'" "kept s s'"
  using assms
proof (induction sc arbitrary: s thesis)
  case Nil
  then show ?case using sim_refl [of s] by simp
next
  case (Cons p sc)
  obtain c w where p: "p = (c, w)" by (cases p)
  have tw: "0 \<le> total_weight sc" using Cons.prems(4) by (fastforce simp: total_weight_def intro: sum_list_nonneg)
  have w: "0 \<le> w" "budget s + w < 9223372036854775808" using Cons.prems(4,5) p tw by simp_all
  note O = Cons.prems(2) [unfolded open_to_def]
  have "0 \<le> budget s" using wtotal_ge_cost [of s "\<lambda>v w. \<bar>w\<bar>" length] base_invD(6) O by (force simp: budget_def)
  then have ll: "as_long_long w = w" using w by (simp add: as_long_long_def)
  have c: "\<forall>l \<in> set c. lit_upto n l" using Cons.prems(3) p by (simp add: clauses_upto_def)
  have rest: "clauses_upto n (set (map fst sc))" "\<forall>(c, w) \<in> set sc. 0 \<le> w" using Cons.prems(3,4) p by (auto simp: clauses_upto_def)
  obtain r t where t: "addClause c (Some w) s = Some (r, t)" "open_to n t" "sim (\<lambda>\<sigma>. True) (\<lambda>\<sigma>. - pays c w \<sigma>) s t" "kept s t" "budget t \<le> budget s + w"
  proof (cases "w = 0")
    case True
    then have "sim (\<lambda>\<sigma>. True) (\<lambda>\<sigma>. - pays c w \<sigma>) s s" using sim_refl [of s] by (simp add: pays_def)
    then show ?thesis using that [of 0 s] True Cons.prems(2) by (simp add: addClause_def addClause_soft_def)
  next
    case False
    then have w': "0 < w" using w(1) by simp
    have c': "\<forall>l \<in> set c. lit_upto (nv s) l \<and> mapAssum2Card s ! nat \<bar>l\<bar> = None"
      using c O lit_upto_mono by (auto simp: lit_upto_def)
    have O': "base_inv s" "weights_inv [] s" "addable s" using O by simp_all
    obtain r t where t: "addClause_soft c w s = Some (r, t)" "base_inv t" "weights_inv [] t" "sim (\<lambda>\<sigma>. True) (\<lambda>\<sigma>. - pays c w \<sigma>) s t"
      "budget t \<le> budget s + w" "nv s \<le> nv t" "mapAssum2Card t = mapAssum2Card s @ replicate (nv t - nv s) None" "kept s t"
      by (rule addClause_soft_ok [OF O'(1,2) w' w(2) c' O'(3)])
    have "open_to n t"
      using t O kept_addable [OF t(8) O'(3)] base_invD(10) [OF O'(1)] by (auto simp: open_to_def nth_append)
    then show ?thesis using that t by (simp add: addClause_def)
  qed
  have bt: "budget t + total_weight sc < 9223372036854775808" using t(5) Cons.prems(5) p by simp
  obtain s' where s': "add_softs sc t = Some s'" "open_to n s'" "sim (\<lambda>\<sigma>. True) (\<lambda>\<sigma>. - penalty \<sigma> sc) t s'" "kept t s'"
    by (rule Cons.IH [OF _ t(2) rest bt])
  have "local_upto n (\<lambda>\<sigma>. penalty \<sigma> sc)" by (rule penalty_local [OF rest(1)])
  then have "local_upto (nv s) (\<lambda>\<sigma>. - penalty \<sigma> sc)" using O agree_mono by (fastforce simp: local_upto_def)
  then have "sim (\<lambda>\<sigma>. True \<and> True) (\<lambda>\<sigma>. - pays c w \<sigma> + - penalty \<sigma> sc) s s'"
    by (intro sim_trans [OF t(3) s'(3)]) simp_all
  then show ?case
    using Cons.prems(1) [of s'] p t(1) s' ll kept_trans [OF t(4) s'(4)] by (simp add: add.commute)
qed

section \<open>Parsing\<close>

definition hard_clauses :: "wline list \<Rightarrow> int list list" where
  "hard_clauses ls = hards t_weight_max ls"

definition soft_clauses :: "wline list \<Rightarrow> (int list \<times> int) list" where
  "soft_clauses ls = softs t_weight_max ls"

text \<open>The state has the meaning of the file.\<close>

definition encodes :: "wline list \<Rightarrow> ems \<Rightarrow> bool" where
  "encodes ls s = (
     (\<forall>\<sigma>. sat_all \<sigma> (cls s) \<longrightarrow> sat_all \<sigma> (set (hard_clauses ls)) \<and> penalty \<sigma> (soft_clauses ls) \<le> obj \<sigma> s) \<and>
     (\<forall>\<sigma>. sat_all \<sigma> (set (hard_clauses ls)) \<longrightarrow>
        (\<exists>\<sigma>'. agree_upto (lines_vars ls) \<sigma> \<sigma>' \<and> exact \<sigma>' s \<and> obj \<sigma>' s \<le> penalty \<sigma> (soft_clauses ls))))"

lemma softs_nonneg: "list_all line_fits ls \<Longrightarrow> \<forall>(c, w) \<in> set (softs thr ls). 0 \<le> w"
  by (induction thr ls rule: softs.induct) auto

lemma show_file_nonempty:
  assumes "ls \<noteq> []"
  shows "star (show_file ls) \<noteq> - 1"
proof (cases ls)
  case (Cons l ls')
  have "\<exists>c cs. show_line l = c # cs"
  proof (cases l)
    case (Wclause w c)
    then show ?thesis using star_weight [of w "show_lits c @ [newline]"] by auto
  qed simp_all
  then obtain c cs where "show_file ls = c # cs" using Cons by auto
  then show ?thesis using of_char_bounds(1) [of c] by simp
qed (use assms in simp)

lemma plain_inputs: "plain s \<Longrightarrow> plain (setNInputVars n s)" "nv (setNInputVars n s) = nv s" "cls (setNInputVars n s) = cls s"
  "nInputVars (setNInputVars n s) = n"
  by (simp_all add: plain_def setNInputVars_def nv_def cls_def sink_ok_def)

lemma parse_ok:
  assumes s: "plain s" "nv s = 0" "cls s = {}" and ls: "ls \<noteq> []" "list_all line_fits ls"
    and w: "total_weight (soft_clauses ls) < 9223372036854775808"
  obtains s' where "parse (show_file ls) s = Inr (True, s')" "ems_inv s'" "optimizer_sound s'" "nInputVars s' = lines_vars ls"
    "lines_vars ls \<le> nv s'" "encodes ls s'" "UBStrategy s' = UBStrategy s" "is_incremental s' = is_incremental s"
proof -
  have sc: "clauses_upto (nv s) (set (map fst []))" by (simp add: clauses_upto_def)
  obtain t where t: "load_lines t_weight_max [] ls s = Inr (True, [] @ softs t_weight_max ls, t)" "plain t"
      "cls t = cls s \<union> set (hards t_weight_max ls)" "nv t = max (nv s) (lines_vars ls)" "kept s t"
      "clauses_upto (nv t) (set (map fst ([] @ softs t_weight_max ls)))"
    by (rule load_lines_ok [OF s(1) ls(2) sc])
  let ?t = "setNInputVars (nVars t) t" and ?S = "soft_clauses ls"
  have nt: "nv t = lines_vars ls" "nVars t = lines_vars ls" using t(4) s(2) plainD(1) [OF t(2)] by simp_all
  note P = plain_inputs [where s = t and n = "nVars t"]
  have pt: "plain ?t" using P(1) t(2) by simp
  have "open_to (nv t) ?t"
    using plain_inv(1,2) [OF pt] plainD(2,5) [OF pt] P(2) by (simp add: open_to_def)
  moreover have "clauses_upto (nv t) (set (map fst ?S))" using t(6) by (simp add: soft_clauses_def)
  moreover have "\<forall>(c, w) \<in> set ?S. 0 \<le> w" using softs_nonneg [OF ls(2)] by (simp add: soft_clauses_def)
  moreover have "budget ?t + total_weight ?S < 9223372036854775808" using w plain_inv(4) [OF pt] by simp
  ultimately obtain u where u: "add_softs ?S ?t = Some u" "open_to (nv t) u" "sim (\<lambda>\<sigma>. True) (\<lambda>\<sigma>. - penalty \<sigma> ?S) ?t u" "kept ?t u"
    by (rule add_softs_ok)
  note K = keptD [OF u(4)]
  have "cards ?t = []" "litToRelax ?t = []" "cardToAdd ?t = []" using pt by (simp_all add: plain_def)
  then have fields: "cards u = []" "litToRelax u = []" "cardToAdd u = []" using K(1,2,12) by simp_all
  have "parse (show_file ls) s = Inr (True, u)"
    using parse_loop_show [OF ls(2), of t_weight_max "[]" s] show_file_nonempty [OF ls(1)] t(1) u(1)
    by (simp add: parse_def soft_clauses_def)
  moreover have "ems_inv u" using u(2) fields by (simp add: ems_inv_def open_to_def)
  moreover have "optimizer_sound u" using fields by (simp add: optimizer_sound_def)
  moreover have "encodes ls u"
    using u(3) plain_inv(3,5) [OF pt] P(2,3) t(3) s(3) nt(1) sat_all_mono [of _ "cls u" "cls t"]
    by (simp add: encodes_def sim_def hard_clauses_def)
  moreover have "UBStrategy u = UBStrategy s" "is_incremental u = is_incremental s"
    using K(6,10) keptD(6,10) [OF t(5)] by (simp_all add: setNInputVars_def)
  ultimately show ?thesis using that u(2) nt K(7) P(4) by (simp add: open_to_def)
qed

section \<open>Solving a file\<close>

lemma model_take: "n < length m \<Longrightarrow> agree_upto n (model_of (take (n + 1) m)) (model_of m)"
  by (auto simp: agree_upto_def model_of_def)

lemma softs_upto: "list_all line_fits ls \<Longrightarrow> clauses_upto (lines_vars ls) (set (map fst (softs thr ls)) \<union> set (hards thr ls))"
proof (induction thr ls rule: softs.induct)
  case (4 thr w c ls)
  have "list_all lit_fits c" using 4 by simp
  then have "\<forall>l \<in> set c. lit_upto (lines_vars (Wclause w c # ls)) l" using hard_lits [of c "lines_vars ls"] by simp
  moreover have "lines_vars ls \<le> lines_vars (Wclause w c # ls)" using foldr_max(1) by simp
  moreover have "clauses_upto (lines_vars ls) (set (map fst (softs thr ls)) \<union> set (hards thr ls))" using 4 by (cases "w \<ge> thr") auto
  ultimately show ?case using clauses_upto_mono by (cases "w \<ge> thr") (auto simp: clauses_upto_def)
qed (simp_all add: clauses_upto_def)

lemma meaning_agree:
  assumes "list_all line_fits ls" "agree_upto (lines_vars ls) \<sigma> \<tau>"
  shows "penalty \<sigma> (soft_clauses ls) = penalty \<tau> (soft_clauses ls)"
    "sat_all \<sigma> (set (hard_clauses ls)) = sat_all \<tau> (set (hard_clauses ls))"
proof -
  have up: "clauses_upto (lines_vars ls) (set (map fst (soft_clauses ls)))" "clauses_upto (lines_vars ls) (set (hard_clauses ls))"
    using softs_upto [OF assms(1), of t_weight_max] by (auto simp: clauses_upto_def soft_clauses_def hard_clauses_def)
  show "penalty \<sigma> (soft_clauses ls) = penalty \<tau> (soft_clauses ls)"
    using penalty_local [OF up(1)] assms(2) by (simp add: local_upto_def)
  show "sat_all \<sigma> (set (hard_clauses ls)) = sat_all \<tau> (set (hard_clauses ls))"
    using agree_sat_all [OF assms(2)] up(2) by (simp add: clauses_upto_def)
qed

text \<open>An optimal answer for a file.\<close>

definition optimal :: "wline list \<Rightarrow> bool list \<Rightarrow> int \<Rightarrow> bool" where
  "optimal ls m c = (length m = lines_vars ls + 1 \<and> sat_all (model_of m) (set (hard_clauses ls)) \<and>
     penalty (model_of m) (soft_clauses ls) = c \<and>
     (\<forall>\<sigma>. sat_all \<sigma> (set (hard_clauses ls)) \<longrightarrow> c \<le> penalty \<sigma> (soft_clauses ls)))"

definition unsatisfiable :: "wline list \<Rightarrow> bool" where
  "unsatisfiable ls = (\<forall>\<sigma>. \<not> sat_all \<sigma> (set (hard_clauses ls)))"

lemma result_optimal:
  assumes r: "result_ok s b s'" and ls: "list_all line_fits ls" "encodes ls s"
    and n: "nInputVars s = lines_vars ls" "lines_vars ls \<le> nv s"
  shows "if b then optimal ls (getSolution s') (getCost s') else unsatisfiable ls"
proof (cases b)
  case False
  then show ?thesis using r ls(2) by (auto simp: result_ok_def unsatisfiable_def encodes_def)
next
  case True
  let ?m = "model_of (solution s')" and ?S = "soft_clauses ls" and ?H = "set (hard_clauses ls)"
  have R: "sat_all ?m (cls s)" "nv s < length (solution s')" "obj ?m s \<le> solutionCost s'" "nInputVars s' = nInputVars s"
    and best: "exact \<sigma> s \<Longrightarrow> solutionCost s' \<le> obj \<sigma> s" for \<sigma>
    using r True by (auto simp: result_ok_def best_known_def)
  have len: "lines_vars ls < length (solution s')" using R(2) n(2) by simp
  have g: "getSolution s' = take (lines_vars ls + 1) (solution s')" using R(4) n(1) len by (simp add: getSolution_def)
  have ag: "agree_upto (lines_vars ls) (model_of (getSolution s')) ?m" using model_take [OF len] g by simp
  note A = meaning_agree [OF ls(1) ag]
  have le: "sat_all ?m ?H" "penalty ?m ?S \<le> solutionCost s'" using ls(2) R(1,3) by (force simp: encodes_def)+
  have opt: "solutionCost s' \<le> penalty \<sigma> ?S" if hs: "sat_all \<sigma> ?H" for \<sigma>
  proof -
    obtain \<sigma>' where "exact \<sigma>' s" "obj \<sigma>' s \<le> penalty \<sigma> ?S" using ls(2) hs by (auto simp: encodes_def)
    then show ?thesis using best by force
  qed
  have "length (getSolution s') = lines_vars ls + 1" using g len by simp
  then show ?thesis using True A le opt opt [OF le(1)] by (simp add: optimal_def getCost_def)
qed

section \<open>The checker of costs\<close>

lemma clause_value_ok:
  "\<forall>l \<in> set c. l \<noteq> 0 \<and> nat \<bar>l\<bar> < length m \<Longrightarrow> clause_value m c = Some (sat_clause (model_of m) c)"
proof (induction c)
  case (Cons l c)
  have "((l > 0) = (m ! nat \<bar>l\<bar>)) = lit_true (model_of m) l"
    using Cons.prems by (auto simp: lit_true_def model_of_def)
  then show ?case using Cons by simp
qed simp

lemma penalty_bounds: "\<forall>(c, w) \<in> set sc. 0 \<le> w \<Longrightarrow> 0 \<le> penalty \<sigma> sc \<and> penalty \<sigma> sc \<le> total_weight sc"
  by (induction sc) (auto simp: pays_def)

lemma lines_cost_ok:
  assumes "list_all line_fits ls" "lines_vars ls < length m" "0 \<le> cst" "cst + total_weight (softs thr ls) \<le> t_weight_max"
  shows "lines_cost thr cst ls m =
    Inr (if sat_all (model_of m) (set (hards thr ls)) then cst + penalty (model_of m) (softs thr ls) else t_weight_max)"
  using assms
proof (induction thr cst ls m rule: lines_cost.induct)
  case (4 thr cst w c ls m)
  have c: "clause_value m c = Some (sat_clause (model_of m) c)"
  proof (rule clause_value_ok, intro ballI)
    fix l assume "l \<in> set c"
    then show "l \<noteq> 0 \<and> nat \<bar>l\<bar> < length m"
      using 4(3,4) foldr_max(2) [of l c "lines_vars ls"] by (auto simp: list_all_iff lit_fits_def)
  qed
  have vars: "lines_vars ls < length m" using 4(4) foldr_max(1) [of "lines_vars ls" c] by simp
  have tw: "0 \<le> total_weight (softs thr ls)"
    using penalty_bounds [OF softs_nonneg [of ls thr], of "model_of m"] 4(3) by simp
  have ls: "list_all line_fits ls" "0 \<le> w" using 4(3) by simp_all
  show ?case
  proof (cases "w \<ge> thr")
    case True
    then show ?thesis using 4(1) [OF c True] c vars ls 4(5,6) by simp
  next
    case False
    let ?c = "if sat_clause (model_of m) c then cst else u64 (cst + w)"
    have u: "?c = cst + pays c w (model_of m)"
      using u64_id [of "cst + w"] 4(5,6) False tw ls(2) by (auto simp: pays_def)
    have "lines_cost thr ?c ls m = Inr (if sat_all (model_of m) (set (hards thr ls)) then ?c + penalty (model_of m) (softs thr ls) else t_weight_max)"
      by (rule 4(2) [OF c False ls(1) vars]) (use u 4(5,6) False ls(2) in \<open>auto simp: pays_def\<close>)
    then show ?thesis using c False u by simp
  qed
qed simp_all

lemma calculateCost_ok:
  assumes "list_all line_fits ls" "lines_vars ls < length m" "total_weight (soft_clauses ls) \<le> t_weight_max"
  shows "calculateCost (show_file ls) m =
    Inr (if sat_all (model_of m) (set (hard_clauses ls)) then penalty (model_of m) (soft_clauses ls) else t_weight_max)"
  using cost_loop_show [OF assms(1), of t_weight_max 0 m] lines_cost_ok [OF assms(1,2), of 0 t_weight_max] assms(3)
  by (simp add: calculateCost_def hard_clauses_def soft_clauses_def)

end
