(* ===== verification/Main_Program.thy ===== *)
theory Main_Program
  imports Wcnf_Load
begin

text \<open>
  \<open>main/src/main.cpp\<close>: the options, \<open>solveFile\<close>, what \<open>main\<close> prints and the code it
  returns, and the handler of the signals. The file is its contents. A value is \<^term>\<open>None\<close> when the
  program does not return, an \<^term>\<open>Inl e\<close> when it ends with an error or a failed assertion. The running time that the mode
  \<open>--bench\<close> prints is a parameter. The lines \<open>o\<close> that \<open>solve\<close> itself prints while it improves its solution
  are not part of the output here.
\<close>

section \<open>Options\<close>

record options =
  oldOutputFormat :: bool
  bench :: nat
  noDS :: bool
  noMS :: bool
  noUBS :: bool

definition configure :: "options \<Rightarrow> ems" where
  "configure opts =
     (let s = ems_new;
          s = (if noDS opts then unactivateDelayStrategy s else s);
          s = (if noMS opts then unactivateMultiSolveStrategy s else s)
      in if noUBS opts then unactivateUBStrategy s else s)"

section \<open>Solving\<close>

definition solveFile ::
    "engine \<Rightarrow> choices \<Rightarrow> string \<Rightarrow> ems \<Rightarrow> (parse_error + bool \<times> bool list \<times> int \<times> ems) option" where
  "solveFile E Ch file s = (case parse file s of
     Inl e \<Rightarrow> Some (Inl e)
   | Inr (b, s) \<Rightarrow>
       if \<not> b then Some (Inl Assertion)
       else
         let s = (if \<not> isWeighted s then disableOptimize s else s)
         in case solve E Ch s of
              None \<Rightarrow> None
            | Some (b, s) \<Rightarrow>
                if \<not> b then Some (Inr (False, [], t_weight_max, s))
                else
                  let sol = getSolution s
                  in case calculateCost file sol of
                       Inl e \<Rightarrow> Some (Inl e)
                     | Inr c \<Rightarrow>
                         if getCost s \<noteq> c then Some (Inl Assertion) else Some (Inr (True, sol, c, s)))"

section \<open>Printing\<close>

definition values_old :: "bool list \<Rightarrow> string" where
  "values_old sol =
     CHR ''v'' # concat (map (\<lambda>i. if sol ! i then CHR '' '' # show_nat i else '' -'' @ show_nat i) [1..<length sol])"

definition values_new :: "bool list \<Rightarrow> string" where
  "values_new sol = ''v '' @ map (\<lambda>i. if sol ! i then CHR ''1'' else CHR ''0'') [1..<length sol]"

definition print_answer :: "options \<Rightarrow> int \<Rightarrow> string \<Rightarrow> bool list \<Rightarrow> string list" where
  "print_answer opts c status sol =
     [''o '' @ show_nat (nat c), status, if oldOutputFormat opts then values_old sol else values_new sol]"

definition print_size :: "bool list \<Rightarrow> string" where
  "print_size sol = ''c nombre de var = '' @ show_nat (length sol)"

definition print_bench :: "string \<Rightarrow> int \<Rightarrow> string \<Rightarrow> string" where
  "print_bench name c secs = name @ [CHR 0x09] @ show_nat (nat c) @ [CHR 0x09] @ secs"

text \<open>\<open>main\<close> after its options are read: the lines it prints and its exit code.\<close>

definition main_run :: "engine \<Rightarrow> choices \<Rightarrow> string \<Rightarrow> string \<Rightarrow> options \<Rightarrow> string \<Rightarrow> (parse_error + string list \<times> int) option" where
  "main_run E Ch secs name opts file =
     (case solveFile E Ch file (configure opts) of
        None \<Rightarrow> None
      | Some (Inl e) \<Rightarrow> Some (Inl e)
      | Some (Inr (sat, sol, c, s)) \<Rightarrow>
          if bench opts \<noteq> 0 then
            (case calculateCost file sol of
               Inl e \<Rightarrow> Some (Inl e)
             | Inr c' \<Rightarrow>
                 if c' \<noteq> c then Some (Inl Assertion)
                 else Some (Inr ((if sat then [print_size sol] else []) @ [print_bench name c' secs], 0)))
          else if sat then
            (case calculateCost file sol of
               Inl e \<Rightarrow> Some (Inl e)
             | Inr c' \<Rightarrow> Some (Inr (print_size sol # print_answer opts c' ''s OPTIMUM FOUND'' sol, 30)))
          else Some (Inr ([''s UNSATISFIABLE''], 20)))"

text \<open>
  The handler of the signals, with the solver at that moment; there is none before \<open>main\<close> creates it.
\<close>

definition signalHandler :: "nat \<Rightarrow> string \<Rightarrow> string \<Rightarrow> options \<Rightarrow> string \<Rightarrow> ems option \<Rightarrow> parse_error + string list \<times> int" where
  "signalHandler signum secs name opts file monMaxSat =
     (let hello = ''c Interrupt signal ('' @ show_nat signum @ '') received.''
      in case monMaxSat of
           None \<Rightarrow> Inr ([hello], 0)
         | Some s \<Rightarrow>
             let sol = getSolution s
             in case calculateCost file sol of
                  Inl e \<Rightarrow> Inl e
                | Inr c \<Rightarrow>
                    if bench opts \<noteq> 0 then Inr ([hello, print_bench name c secs], 0)
                    else if c \<noteq> t_weight_max then Inr (hello # print_answer opts c ''s SATISFIABLE'' sol, 10)
                    else Inr ([hello, ''s UNKNOWN''], 0))"

section \<open>The program on a file\<close>

lemma plain_configure: "plain (configure opts)" "nv (configure opts) = 0" "cls (configure opts) = {}"
  using sc_new_ok by (simp_all add: configure_def Let_def unactivateDelayStrategy_def unactivateMultiSolveStrategy_def
      unactivateUBStrategy_def plain_def ems_new_def nv_def cls_def sink_ok_def wv_push_back_def)

lemma disableOptimize_ok:
  assumes "ems_inv s" "optimizer_sound s" "encodes ls s"
  shows "ems_inv (disableOptimize s)" "optimizer_sound (disableOptimize s)" "encodes ls (disableOptimize s)"
    "nInputVars (disableOptimize s) = nInputVars s" "nv (disableOptimize s) = nv s"
proof -
  have c: "same_core s (disableOptimize s)" by (simp add: same_core_def disableOptimize_def)
  note C = same_core_ok [OF c]
  show "ems_inv (disableOptimize s)" using assms(1) C by (simp add: ems_inv_def disableOptimize_def)
  show "optimizer_sound (disableOptimize s)" using assms(2) by (simp add: optimizer_sound_def disableOptimize_def)
  show "encodes ls (disableOptimize s)" using assms(3) C by (simp add: encodes_def)
  show "nInputVars (disableOptimize s) = nInputVars s" "nv (disableOptimize s) = nv s"
    by (simp_all add: disableOptimize_def nv_def)
qed

lemma solveFile_ok:
  assumes E: "engine_ok E" "engine_live E" and s: "plain s" "nv s = 0" "cls s = {}" and ls: "ls \<noteq> []" "list_all line_fits ls"
    and w: "total_weight (soft_clauses ls) < 9223372036854775808"
  obtains (sat) sol c s' where "solveFile E Ch (show_file ls) s = Some (Inr (True, sol, c, s'))" "optimal ls sol c"
      "calculateCost (show_file ls) sol = Inr c"
    | (unsat) s' where "solveFile E Ch (show_file ls) s = Some (Inr (False, [], t_weight_max, s'))" "unsatisfiable ls"
proof -
  obtain t where t: "parse (show_file ls) s = Inr (True, t)" "ems_inv t" "optimizer_sound t" "nInputVars t = lines_vars ls"
      "lines_vars ls \<le> nv t" "encodes ls t"
    by (rule parse_ok [OF s ls w])
  let ?u = "if \<not> isWeighted t then disableOptimize t else t"
  have u: "ems_inv ?u" "optimizer_sound ?u" "encodes ls ?u" "nInputVars ?u = lines_vars ls" "lines_vars ls \<le> nv ?u"
    using t disableOptimize_ok [OF t(2,3,6)] by simp_all
  obtain b s' where s': "solve E Ch ?u = Some (b, s')" "result_ok ?u b s'" by (rule solve_ok [OF E u(1,2)])
  note r = result_optimal [OF s'(2) ls(2) u(3-5)]
  show ?thesis
  proof (cases b)
    case True
    let ?m = "getSolution s'"
    have o: "optimal ls ?m (getCost s')" using r True by simp
    then have "calculateCost (show_file ls) ?m = Inr (getCost s')"
      using calculateCost_ok [OF ls(2), of ?m] w by (simp add: optimal_def t_weight_max_def)
    then show ?thesis using sat [of ?m "getCost s'" s'] o t(1) s'(1) True by (simp add: solveFile_def Let_def)
  next
    case False
    then show ?thesis using unsat [of s'] r t(1) s'(1) by (simp add: solveFile_def Let_def)
  qed
qed

lemma main_run_ok:
  assumes E: "engine_ok E" "engine_live E" and ls: "ls \<noteq> []" "list_all line_fits ls"
    and w: "total_weight (soft_clauses ls) < 9223372036854775808" and o: "bench opts = 0"
  shows "(\<exists>sol c. main_run E Ch secs name opts (show_file ls) = Some (Inr (print_size sol # print_answer opts c ''s OPTIMUM FOUND'' sol, 30)) \<and> optimal ls sol c) \<or>
    (main_run E Ch secs name opts (show_file ls) = Some (Inr ([''s UNSATISFIABLE''], 20)) \<and> unsatisfiable ls)"
proof -
  from E plain_configure [of opts] ls w
  consider (sat) sol c s' where "solveFile E Ch (show_file ls) (configure opts) = Some (Inr (True, sol, c, s'))" "optimal ls sol c"
      "calculateCost (show_file ls) sol = Inr c"
    | (unsat) s' where "solveFile E Ch (show_file ls) (configure opts) = Some (Inr (False, [], t_weight_max, s'))" "unsatisfiable ls"
    by (rule solveFile_ok)
  then show ?thesis by cases (auto simp: main_run_def o)
qed

text \<open>A value line determines the assignment.\<close>

definition read_values :: "string \<Rightarrow> bool list" where
  "read_values line = map (\<lambda>c. c = CHR ''1'') (drop 2 line)"

lemma values_new_read: "sol \<noteq> [] \<Longrightarrow> read_values (values_new sol) = tl sol"
proof -
  assume "sol \<noteq> []"
  have "map (\<lambda>c. c = CHR ''1'') (map (\<lambda>i. if sol ! i then CHR ''1'' else CHR ''0'') [1..<length sol]) = map ((!) sol) [1..<length sol]"
    by simp
  also have "\<dots> = tl sol" using \<open>sol \<noteq> []\<close> by (intro nth_equalityI) (simp_all add: nth_tl)
  finally show ?thesis by (simp add: read_values_def values_new_def)
qed

lemma signalHandler_ok:
  assumes ls: "list_all line_fits ls" "lines_vars ls = nInputVars s" "total_weight (soft_clauses ls) < 9223372036854775808"
    and o: "bench opts = 0"
  shows "\<exists>hello. signalHandler signum secs name opts (show_file ls) (Some s) =
    (if sat_all (model_of (getSolution s)) (set (hard_clauses ls))
     then Inr (hello # print_answer opts (penalty (model_of (getSolution s)) (soft_clauses ls)) ''s SATISFIABLE'' (getSolution s), 10)
     else Inr ([hello, ''s UNKNOWN''], 0))"
proof -
  let ?m = "getSolution s"
  have len: "lines_vars ls < length ?m" using ls(2) by (simp add: getSolution_def)
  have "penalty (model_of ?m) (soft_clauses ls) \<le> total_weight (soft_clauses ls)"
    using penalty_bounds softs_nonneg [OF ls(1)] by (simp add: soft_clauses_def)
  then have "penalty (model_of ?m) (soft_clauses ls) \<noteq> t_weight_max" using ls(3) by (simp add: t_weight_max_def)
  then show ?thesis
    using calculateCost_ok [OF ls(1) len] ls(3) o by (simp add: signalHandler_def Let_def t_weight_max_def)
qed

end
