(* ===== verification/Sat_Solver.thy ===== *)
theory Sat_Solver
  imports Cadical_Interface
begin

text \<open>
  The interface \<open>SAT_SOLVER\<close> of the class template \<open>EvalMaxSAT\<close>, as the contract of the operations
  it calls: variables are numbered from 1, a clause is added as it is, and a question leaves the clauses alone
  and is answered with a model of all variables or with a subset of the assumptions that is
  inconsistent with the clauses. \<open>Solver_cadical\<close> satisfies it here, \<open>MonGlucose41\<close> in the next
  theory.
\<close>

definition models_with :: "clause set \<Rightarrow> int list \<Rightarrow> asg \<Rightarrow> bool" where
  "models_with F A \<sigma> = (sat_all \<sigma> F \<and> (\<forall>a \<in> set A. lit_true \<sigma> a))"

locale sat_solver =
  fixes newvar :: "'s \<Rightarrow> int \<times> 's"
    and addclause :: "int list \<Rightarrow> 's \<Rightarrow> 's"
    and ask :: "int list \<Rightarrow> 's \<Rightarrow> (bool \<times> 's) option"
    and conflict :: "int list \<Rightarrow> 's \<Rightarrow> int list option"
    and solution_of :: "'s \<Rightarrow> bool list option"
    and vars :: "'s \<Rightarrow> nat"
    and clauses :: "'s \<Rightarrow> clause set"
    and ok :: "'s \<Rightarrow> bool"
  assumes newvar_law: "ok s \<Longrightarrow> newvar s = (v, s') \<Longrightarrow>
      v = int (vars s) + 1 \<and> vars s' = Suc (vars s) \<and> clauses s' = clauses s \<and> ok s'"
    and addclause_law: "ok s \<Longrightarrow> \<forall>l \<in> set c. lit_upto (vars s) l \<Longrightarrow>
      vars (addclause c s) = vars s \<and> clauses (addclause c s) = insert c (clauses s) \<and> ok (addclause c s)"
    and ask_law: "ok s \<Longrightarrow> \<forall>a \<in> set A. lit_upto (vars s) a \<Longrightarrow> ask A s = Some (b, s') \<Longrightarrow>
      vars s' = vars s \<and> clauses s' = clauses s \<and> ok s'"
    and sat_law: "ok s \<Longrightarrow> \<forall>a \<in> set A. lit_upto (vars s) a \<Longrightarrow> ask A s = Some (True, s') \<Longrightarrow>
      \<exists>m. solution_of s' = Some m \<and> vars s < length m \<and> models_with (clauses s) A (model_of m)"
    and unsat_law: "ok s \<Longrightarrow> \<forall>a \<in> set A. lit_upto (vars s) a \<Longrightarrow> ask A s = Some (False, s') \<Longrightarrow>
      \<exists>cs. conflict A s' = Some cs \<and> set cs \<subseteq> set A \<and> (\<forall>\<sigma>. \<not> models_with (clauses s) cs \<sigma>)"
begin

text \<open>An answer is right, and asking again does not change it.\<close>

lemma answer_iff:
  assumes "ok s" "\<forall>a \<in> set A. lit_upto (vars s) a" "ask A s = Some (b, s')"
  shows "b = (\<exists>\<sigma>. models_with (clauses s) A \<sigma>)"
proof (cases b)
  case True
  then show ?thesis using sat_law [OF assms(1,2)] assms(3) by auto
next
  case False
  then obtain cs where "set cs \<subseteq> set A" "\<forall>\<sigma>. \<not> models_with (clauses s) cs \<sigma>"
    using unsat_law [OF assms(1,2)] assms(3) by auto
  then show ?thesis using False unfolding models_with_def by blast
qed

lemma answer_stable:
  assumes "ok s" "\<forall>a \<in> set A. lit_upto (vars s) a" "ask A s = Some (b, s')" "ask A s' = Some (b', s'')"
  shows "b' = b"
  using answer_iff [OF assms(1-3)] answer_iff [of s' A b' s''] ask_law [OF assms(1-3)] assms(2,4) by simp

text \<open>A literal follows from the clauses when its negation is refuted; adding it as a clause is then harmless.\<close>

lemma refuted_entails:
  assumes "ok s" "lit_upto (vars s) l" "ask [- l] s = Some (False, s')" "sat_all \<sigma> (clauses s)"
  shows "lit_true \<sigma> l"
proof -
  have "\<not> models_with (clauses s) [- l] \<sigma>" using answer_iff [of s "[- l]" False s'] assms by auto
  then show ?thesis using assms(2,4) by (auto simp: models_with_def)
qed

lemma refuted_addclause:
  assumes "ok s" "lit_upto (vars s) l" "ask [- l] s = Some (False, s')"
  shows "sat_all \<sigma> (clauses (addclause [l] s')) = sat_all \<sigma> (clauses s)"
  using addclause_law [of s' "[l]"] ask_law [OF assms(1) _ assms(3)] refuted_entails [OF assms] assms(2) by auto

end

interpretation cadical: sat_solver sc_newVar sc_addClause "sc_solve E" sc_getConflict sc_getSolution nVar sc_clauses
    "\<lambda>s. engine_ok E \<and> engine_live E \<and> sc_ok s"
  for E
proof unfold_locales
  fix s s' v and A :: "int list" and b and c :: "int list"
  assume ok: "engine_ok E \<and> engine_live E \<and> sc_ok s"
  show "sc_newVar s = (v, s') \<Longrightarrow>
      v = int (nVar s) + 1 \<and> nVar s' = Suc (nVar s) \<and> sc_clauses s' = sc_clauses s \<and> engine_ok E \<and> engine_live E \<and> sc_ok s'"
    using sc_newVar_effect [of s v s'] ok by simp
  show "\<forall>l \<in> set c. lit_upto (nVar s) l \<Longrightarrow>
      nVar (sc_addClause c s) = nVar s \<and> sc_clauses (sc_addClause c s) = insert c (sc_clauses s) \<and>
      engine_ok E \<and> engine_live E \<and> sc_ok (sc_addClause c s)"
    using sc_addClause_ok [of s c] ok by simp
  have r: "sc_solve E A s = Some (b, s') \<Longrightarrow> sc_same s s' \<and> (if b then sc_sat A s' else sc_unsat A s')" for b
    using sc_solve_returns [of E s A] ok by (metis option.inject prod.inject)
  show "sc_solve E A s = Some (b, s') \<Longrightarrow>
      nVar s' = nVar s \<and> sc_clauses s' = sc_clauses s \<and> engine_ok E \<and> engine_live E \<and> sc_ok s'"
    using r [of b] ok sc_same_ok by blast
  assume "sc_solve E A s = Some (True, s')"
  then have t: "sc_same s s'" "sc_sat A s'" using r [of True] by simp_all
  obtain m where "sc_getSolution s' = Some m" "nVar s' < length m" "satisfies (model_of m) (c_clauses (cad s')) A"
    by (rule sc_getSolution_ok [OF t(2)])
  then show "\<exists>m. sc_getSolution s' = Some m \<and> nVar s < length m \<and> models_with (sc_clauses s) A (model_of m)"
    using t(1) by (auto simp: sc_same_def sc_clauses_def satisfies_def models_with_def)
next
  fix s s' and A :: "int list"
  assume ok: "engine_ok E \<and> engine_live E \<and> sc_ok s" and a: "sc_solve E A s = Some (False, s')"
  obtain b t where "sc_solve E A s = Some (b, t)" "sc_same s t" "if b then sc_sat A t else sc_unsat A t"
    using sc_solve_returns [of E s A] ok by blast
  then have t: "sc_same s s'" "sc_unsat A s'" using a by simp_all
  obtain cs where "sc_getConflict A s' = Some cs" "set cs \<subseteq> set A" "\<forall>\<sigma>. \<not> satisfies \<sigma> (c_clauses (cad s')) cs"
    using sc_getConflict_ok [OF t(2) subset_refl] by blast
  then show "\<exists>cs. sc_getConflict A s' = Some cs \<and> set cs \<subseteq> set A \<and> (\<forall>\<sigma>. \<not> models_with (sc_clauses s) cs \<sigma>)"
    using t(1) by (auto simp: sc_same_def sc_clauses_def satisfies_def models_with_def)
qed

end
