(* ===== verification/Glucose_Interface.thy ===== *)
theory Glucose_Interface
  imports Sat_Solver
begin

text \<open>
  \<open>lib/EvalMaxSAT/src/glucoseinterface.h\<close>: the wrapper \<open>MonGlucose41\<close> around Glucose, the other
  solver that \<open>EvalMaxSAT\<close> can be instantiated with. Glucose numbers its literals \<open>2v\<close> and \<open>2v + 1\<close>; the
  wrapper translates from and to signed numbers, and keeps variable 0 unused.

  The search of Glucose and its unit propagation are parameters, as for CaDiCaL. A call without a budget
  takes \<open>l_Undef\<close> for unsatisfiable, so the wrapper relies on a search that only gives up when it has a
  budget (\<open>glu_complete\<close>).
\<close>

section \<open>Literals\<close>

definition mkLit :: "int \<Rightarrow> bool \<Rightarrow> int" where
  "mkLit v sign = v + v + (if sign then 1 else 0)"

definition lit_sign :: "int \<Rightarrow> bool" where
  "lit_sign p = (p mod 2 = 1)"

definition lit_var :: "int \<Rightarrow> int" where
  "lit_var p = p div 2"

definition lit_neg :: "int \<Rightarrow> int" where
  "lit_neg p = (if lit_sign p then p - 1 else p + 1)"

text \<open>The two translations of the wrapper, which its operations repeat.\<close>

definition glu_lit :: "int \<Rightarrow> int" where
  "glu_lit e = (if e < 0 then mkLit (- e) True else mkLit e False)"

definition glu_int :: "int \<Rightarrow> int" where
  "glu_int p = (if lit_sign p then - lit_var p else lit_var p)"

lemma lit_sign_mkLit [simp]: "lit_sign (mkLit v b) = b" and lit_var_mkLit [simp]: "lit_var (mkLit v b) = v"
  by (simp_all add: mkLit_def lit_sign_def lit_var_def)

lemma glu_int_lit [simp]: "glu_int (glu_lit e) = e"
  by (auto simp: glu_int_def glu_lit_def)

lemma glu_int_neg: "e \<noteq> 0 \<Longrightarrow> glu_int (lit_neg (glu_lit e)) = - e"
  by (auto simp: glu_int_def glu_lit_def lit_neg_def mkLit_def lit_sign_def lit_var_def) presburger+

section \<open>Glucose\<close>

datatype lbool = l_True | l_False | l_Undef

text \<open>
  The search of the \<open>n\<close>-th call gets the clauses, the assumptions and the number of conflicts that are left
  (\<^term>\<open>None\<close> without a budget); \<open>glu_spent n\<close> is the number of conflicts it used.
\<close>

record glu_engine =
  glu_search :: "nat \<Rightarrow> clause list \<Rightarrow> int list \<Rightarrow> int option \<Rightarrow> answer"
  glu_spent :: "nat \<Rightarrow> nat"
  glu_prop :: "nat \<Rightarrow> clause list \<Rightarrow> int list \<Rightarrow> int list option"

record glucose =
  glu_vars :: nat
  glu_clauses :: "int list list"
  glu_model :: "lbool list"
  glu_conflict :: "int list"
  glu_budget :: int
  glu_conflicts :: nat
  glu_decision :: "bool list"
  glu_calls :: nat

definition glu_setDecisionVar :: "nat \<Rightarrow> bool \<Rightarrow> glucose \<Rightarrow> glucose" where
  "glu_setDecisionVar v b g = g\<lparr>glu_decision := (glu_decision g)[v := b]\<rparr>"

definition glu_newVar :: "bool \<Rightarrow> glucose \<Rightarrow> int \<times> glucose" where
  "glu_newVar dvar g =
     (int (glu_vars g),
      glu_setDecisionVar (glu_vars g) dvar
        (g\<lparr>glu_vars := glu_vars g + 1, glu_decision := glu_decision g @ [False]\<rparr>))"

definition glu_addClause :: "int list \<Rightarrow> glucose \<Rightarrow> glucose" where
  "glu_addClause ps g = g\<lparr>glu_clauses := glu_clauses g @ [ps]\<rparr>"

definition setConfBudget :: "int \<Rightarrow> glucose \<Rightarrow> glucose" where
  "setConfBudget x g = g\<lparr>glu_budget := int (glu_conflicts g) + x\<rparr>"

definition budgetOff :: "glucose \<Rightarrow> glucose" where
  "budgetOff g = g\<lparr>glu_budget := - 1\<rparr>"

definition glu_left :: "glucose \<Rightarrow> int option" where
  "glu_left g = (if glu_budget g < 0 then None else Some (glu_budget g - int (glu_conflicts g)))"

text \<open>\<open>solve_\<close>: model and conflict are cleared, then filled according to the answer of the search.\<close>

definition glu_solve_core :: "glu_engine \<Rightarrow> int list \<Rightarrow> glucose \<Rightarrow> lbool \<times> glucose" where
  "glu_solve_core G assumptions g =
     (let r = glu_search G (glu_calls g) (map (map glu_int) (glu_clauses g)) (map glu_int assumptions) (glu_left g);
          g = g\<lparr>glu_model := [], glu_conflict := [], glu_calls := Suc (glu_calls g),
                glu_conflicts := glu_conflicts g + glu_spent G (glu_calls g)\<rparr>
      in case r of
           Sat m \<Rightarrow> (l_True, g\<lparr>glu_model := map (\<lambda>i. if model_of m (int i) then l_True else l_False) [0..<glu_vars g]\<rparr>)
         | Unsat fs \<Rightarrow> (l_False, g\<lparr>glu_conflict := map (\<lambda>a. lit_neg (glu_lit a)) fs\<rparr>)
         | NoAnswer \<Rightarrow> (l_Undef, g))"

definition glu_solve :: "glu_engine \<Rightarrow> int list \<Rightarrow> glucose \<Rightarrow> bool \<times> glucose" where
  "glu_solve G assumps g = (let (r, g) = glu_solve_core G assumps (budgetOff g) in (r = l_True, g))"

definition glu_solveLimited :: "glu_engine \<Rightarrow> int list \<Rightarrow> glucose \<Rightarrow> lbool \<times> glucose" where
  "glu_solveLimited G assumps g = glu_solve_core G assumps g"

section \<open>The wrapper\<close>

definition mg_new :: glucose where
  "mg_new =
     glu_setDecisionVar 0 False
       (snd (glu_newVar True
          \<lparr>glu_vars = 0, glu_clauses = [], glu_model = [], glu_conflict = [], glu_budget = - 1, glu_conflicts = 0,
            glu_decision = [], glu_calls = 0\<rparr>))"

definition mg_propagate :: "glu_engine \<Rightarrow> int list \<Rightarrow> glucose \<Rightarrow> int list option option" where
  "mg_propagate G assum g =
     (if list_ex (\<lambda>e. e = 0) assum then None
      else Some (case glu_prop G (glu_calls g) (map (map glu_int) (glu_clauses g)) (map (glu_int \<circ> glu_lit) assum) of
             None \<Rightarrow> None
           | Some resultGlu \<Rightarrow> Some (map (glu_int \<circ> glu_lit) resultGlu)))"

definition mg_addClause :: "int list \<Rightarrow> glucose \<Rightarrow> glucose option" where
  "mg_addClause vclause g =
     (if list_ex (\<lambda>e. e = 0) vclause then None else Some (glu_addClause (map glu_lit vclause) g))"

definition mg_getConflict :: "glucose \<Rightarrow> int list" where
  "mg_getConflict g = map glu_int (glu_conflict g)"

definition mg_getConflictOf :: "int list \<Rightarrow> glucose \<Rightarrow> int list" where
  "mg_getConflictOf assumptions g =
     map uminus (filter (\<lambda>lit. - lit \<in> set assumptions) (map glu_int (glu_conflict g)))"

definition mg_sizeConflict :: "glucose \<Rightarrow> nat" where
  "mg_sizeConflict g = length (glu_conflict g)"

definition mg_result :: "lbool \<Rightarrow> int" where
  "mg_result r = (case r of l_True \<Rightarrow> 1 | l_False \<Rightarrow> 0 | l_Undef \<Rightarrow> - 1)"

text \<open>The assumptions of a call: zero is an error, the exception is left out.\<close>

definition mg_assume :: "int list \<Rightarrow> int \<Rightarrow> int list option" where
  "mg_assume assumption except =
     (if list_ex (\<lambda>e. e = 0) assumption then None else Some (map glu_lit (filter (\<lambda>e. e \<noteq> except) assumption)))"

definition mg_solveLimited :: "glu_engine \<Rightarrow> int list \<Rightarrow> int \<Rightarrow> int \<Rightarrow> glucose \<Rightarrow> (int \<times> glucose) option" where
  "mg_solveLimited G assumption confBudget except g =
     do { clause \<leftarrow> mg_assume assumption except;
          let (r, g) = glu_solveLimited G clause (setConfBudget confBudget g) in Some (mg_result r, g) }"

text \<open>The timeout is ignored (\<open>TODO: timeout\<close> in the source).\<close>

definition mg_solveWithTimeoutAndLimit ::
    "glu_engine \<Rightarrow> int list \<Rightarrow> int \<Rightarrow> int \<Rightarrow> glucose \<Rightarrow> (int \<times> glucose) option" where
  "mg_solveWithTimeoutAndLimit G assumption confBudget except g =
     do { clause \<leftarrow> mg_assume assumption except;
          let (r, g) = glu_solveLimited G clause (setConfBudget confBudget g) in Some (mg_result r, g) }"

definition mg_solveWithTimeout :: "glu_engine \<Rightarrow> int list \<Rightarrow> glucose \<Rightarrow> (int \<times> glucose) option" where
  "mg_solveWithTimeout G assumption g =
     do { clause \<leftarrow> mg_assume assumption 0;
          let (r, g) = glu_solveLimited G clause g in Some (mg_result r, g) }"

definition mg_nVars :: "glucose \<Rightarrow> nat" where
  "mg_nVars g = glu_vars g - 1"

definition mg_solve :: "glu_engine \<Rightarrow> int list \<Rightarrow> glucose \<Rightarrow> (bool \<times> glucose) option" where
  "mg_solve G assumption g = do { clause \<leftarrow> mg_assume assumption 0; Some (glu_solve G clause g) }"

definition mg_solve0 :: "glu_engine \<Rightarrow> glucose \<Rightarrow> bool \<times> glucose" where
  "mg_solve0 G g = glu_solve G [] g"

definition mg_getValue :: "nat \<Rightarrow> glucose \<Rightarrow> bool option" where
  "mg_getValue v g = (if v < length (glu_model g) then Some (glu_model g ! v = l_True) else None)"

definition mg_getSolution :: "glucose \<Rightarrow> bool list" where
  "mg_getSolution g =
     (let res = False # map (\<lambda>i. glu_model g ! i = l_True) [1..<length (glu_model g)]
      in if length res \<le> mg_nVars g then res @ replicate (mg_nVars g + 1 - length res) False else res)"

definition mg_newVar :: "glucose \<Rightarrow> int \<times> glucose" where
  "mg_newVar g = glu_newVar True g"

definition mg_setDecisionVar :: "nat \<Rightarrow> bool \<Rightarrow> glucose \<Rightarrow> glucose" where
  "mg_setDecisionVar v b g = glu_setDecisionVar v b g"

section \<open>The contract\<close>

definition mg_clauses :: "glucose \<Rightarrow> clause set" where
  "mg_clauses g = set (map (map glu_int) (glu_clauses g))"

definition mg_ok :: "glucose \<Rightarrow> bool" where
  "mg_ok g = (0 < glu_vars g \<and> (\<forall>c \<in> mg_clauses g. \<forall>l \<in> set c. lit_upto (mg_nVars g) l))"

definition glu_sound :: "glu_engine \<Rightarrow> bool" where
  "glu_sound G = ((\<forall>n F A k. answer_ok F A (glu_search G n F A k)) \<and>
     (\<forall>n F A. case glu_prop G n F A of
        None \<Rightarrow> \<forall>\<sigma>. \<not> satisfies \<sigma> F A | Some ls \<Rightarrow> \<forall>l \<in> set ls. \<forall>\<sigma>. satisfies \<sigma> F A \<longrightarrow> lit_true \<sigma> l))"

definition glu_complete :: "glu_engine \<Rightarrow> bool" where
  "glu_complete G = (\<forall>n F A. glu_search G n F A None \<noteq> NoAnswer)"

lemma mg_new_ok: "mg_ok mg_new" "mg_clauses mg_new = {}" "mg_nVars mg_new = 0"
  by (simp_all add: mg_ok_def mg_new_def glu_newVar_def glu_setDecisionVar_def mg_clauses_def mg_nVars_def)

lemma upto_no_zero: "\<forall>l \<in> set c. lit_upto n l \<Longrightarrow> \<not> list_ex (\<lambda>e. e = 0) c"
  by (auto simp: list_ex_iff lit_upto_def)

lemma map_glu [simp]: "map (glu_int \<circ> glu_lit) c = c" "map glu_int (map glu_lit c) = c"
  by (simp_all add: o_def)

lemma mg_assume_eq:
  assumes "\<forall>l \<in> set A. lit_upto n l"
  shows "mg_assume A except = Some (map glu_lit (filter (\<lambda>e. e \<noteq> except) A))" "mg_assume A 0 = Some (map glu_lit A)"
proof -
  have "\<forall>e \<in> set A. e \<noteq> 0" using assms by auto
  then have "filter (\<lambda>e. e \<noteq> 0) A = A" by (simp add: filter_id_conv)
  then show "mg_assume A except = Some (map glu_lit (filter (\<lambda>e. e \<noteq> except) A))" "mg_assume A 0 = Some (map glu_lit A)"
    using upto_no_zero [OF assms] by (simp_all add: mg_assume_def)
qed

lemma mg_getSolution_model:
  assumes "0 < glu_vars g" "glu_model g = map (\<lambda>i. if model_of m (int i) then l_True else l_False) [0..<glu_vars g]"
  shows "mg_nVars g < length (mg_getSolution g)" "agree_upto (mg_nVars g) (model_of m) (model_of (mg_getSolution g))"
proof -
  have eq: "mg_getSolution g = False # map (\<lambda>i. model_of m (int i)) [1..<glu_vars g]"
    using assms by (simp add: mg_getSolution_def mg_nVars_def Let_def)
  then show "mg_nVars g < length (mg_getSolution g)" using assms(1) by (simp add: mg_nVars_def)
  have nth: "mg_getSolution g ! nat x = model_of m x" if x: "0 < x" "nat x < glu_vars g" for x
  proof -
    define k where "k = nat x - 1"
    then have k: "nat x = Suc k" "x = 1 + int k" using x(1) by simp_all
    moreover have "[Suc 0..<glu_vars g] ! k = Suc k" using k(1) x(2) by (subst nth_upt) simp_all
    ultimately show ?thesis using x(2) unfolding eq by (simp del: upt_Suc)
  qed
  show "agree_upto (mg_nVars g) (model_of m) (model_of (mg_getSolution g))"
  proof (unfold agree_upto_def, intro allI impI)
    fix x :: int assume x: "0 < x \<and> nat x \<le> mg_nVars g"
    then have "nat x < glu_vars g" using assms(1) unfolding mg_nVars_def by linarith
    moreover have "length (mg_getSolution g) = glu_vars g" using eq assms(1) by simp
    ultimately show "model_of m x = model_of (mg_getSolution g) x"
      unfolding model_of_def [of "mg_getSolution g"] using nth [of x] x by simp
  qed
qed

lemma glu_solve_cases:
  assumes "glu_sound G" "glu_solve_core G (map glu_lit A) g = (r, g')"
  shows "glu_vars g' = glu_vars g" "glu_clauses g' = glu_clauses g"
    "r = l_True \<Longrightarrow> \<exists>m. satisfies (model_of m) (map (map glu_int) (glu_clauses g)) A \<and>
        glu_model g' = map (\<lambda>i. if model_of m (int i) then l_True else l_False) [0..<glu_vars g]"
    "r = l_False \<Longrightarrow> \<exists>fs. set fs \<subseteq> set A \<and> (\<forall>\<sigma>. \<not> satisfies \<sigma> (map (map glu_int) (glu_clauses g)) fs) \<and>
        glu_conflict g' = map (\<lambda>a. lit_neg (glu_lit a)) fs"
    "r = l_Undef \<Longrightarrow> glu_search G (glu_calls g) (map (map glu_int) (glu_clauses g)) A (glu_left g) = NoAnswer"
proof -
  let ?a = "glu_search G (glu_calls g) (map (map glu_int) (glu_clauses g)) A (glu_left g)"
  have ans: "answer_ok (map (map glu_int) (glu_clauses g)) A ?a" using assms(1) by (simp add: glu_sound_def)
  note D = assms(2) [unfolded glu_solve_core_def Let_def map_glu]
  show "glu_vars g' = glu_vars g" "glu_clauses g' = glu_clauses g" using D by (auto split: answer.splits)
  show "r = l_True \<Longrightarrow> \<exists>m. satisfies (model_of m) (map (map glu_int) (glu_clauses g)) A \<and>
        glu_model g' = map (\<lambda>i. if model_of m (int i) then l_True else l_False) [0..<glu_vars g]"
    using D ans by (auto simp: answer_ok_def split: answer.splits)
  show "r = l_False \<Longrightarrow> \<exists>fs. set fs \<subseteq> set A \<and> (\<forall>\<sigma>. \<not> satisfies \<sigma> (map (map glu_int) (glu_clauses g)) fs) \<and>
        glu_conflict g' = map (\<lambda>a. lit_neg (glu_lit a)) fs"
    using D ans by (auto simp: answer_ok_def split: answer.splits)
  show "r = l_Undef \<Longrightarrow> ?a = NoAnswer" using D by (auto split: answer.splits)
qed

lemma satisfies_upto:
  assumes "mg_ok g" "\<forall>a \<in> set A. lit_upto (mg_nVars g) a" "agree_upto (mg_nVars g) \<sigma> \<tau>"
  shows "models_with (mg_clauses g) A \<tau> = satisfies \<sigma> (map (map glu_int) (glu_clauses g)) A"
  using agree_sat_all [OF assms(3), of "mg_clauses g"] agree_lit [OF assms(3)] assms(1,2)
  by (auto simp: models_with_def satisfies_def mg_ok_def mg_clauses_def)

lemma glu_conflict_back:
  assumes "glu_conflict g = map (\<lambda>a. lit_neg (glu_lit a)) fs" "set fs \<subseteq> set A" "\<forall>a \<in> set A. a \<noteq> 0"
  shows "mg_getConflictOf A g = fs"
proof -
  have "map glu_int (glu_conflict g) = map uminus fs" using assms glu_int_neg by auto
  moreover have "filter (\<lambda>l. - l \<in> set A) (map uminus fs) = map uminus fs" using assms(2) by (auto simp: filter_id_conv)
  ultimately show ?thesis by (simp add: mg_getConflictOf_def o_def)
qed

text \<open>
  The wrapper satisfies the contract of a solver. Its \<open>addClause\<close> is only defined on clauses without a
  zero, which the contract asks for; elsewhere the operation is taken to do nothing.
\<close>

definition mg_add :: "int list \<Rightarrow> glucose \<Rightarrow> glucose" where
  "mg_add c g = (case mg_addClause c g of None \<Rightarrow> g | Some g' \<Rightarrow> g')"

interpretation glucose: sat_solver mg_newVar mg_add "mg_solve G" "\<lambda>A g. Some (mg_getConflictOf A g)" "\<lambda>g. Some (mg_getSolution g)"
    mg_nVars mg_clauses "\<lambda>g. glu_sound G \<and> glu_complete G \<and> mg_ok g"
  for G
proof unfold_locales
  fix s s' v and c :: "int list"
  assume ok: "glu_sound G \<and> glu_complete G \<and> mg_ok s"
  show "mg_newVar s = (v, s') \<Longrightarrow> v = int (mg_nVars s) + 1 \<and> mg_nVars s' = Suc (mg_nVars s) \<and> mg_clauses s' = mg_clauses s \<and>
      glu_sound G \<and> glu_complete G \<and> mg_ok s'"
    using ok lit_upto_mono [of "glu_vars s - 1" _ "glu_vars s"]
    by (auto simp: mg_newVar_def glu_newVar_def glu_setDecisionVar_def mg_nVars_def mg_clauses_def mg_ok_def)
  show "\<forall>l \<in> set c. lit_upto (mg_nVars s) l \<Longrightarrow> mg_nVars (mg_add c s) = mg_nVars s \<and>
      mg_clauses (mg_add c s) = insert c (mg_clauses s) \<and> glu_sound G \<and> glu_complete G \<and> mg_ok (mg_add c s)"
    using ok upto_no_zero [of c] by (auto simp: mg_add_def mg_addClause_def glu_addClause_def mg_nVars_def mg_clauses_def mg_ok_def)
next
  fix s s' b and A :: "int list"
  assume ok: "glu_sound G \<and> glu_complete G \<and> mg_ok s" and A: "\<forall>a \<in> set A. lit_upto (mg_nVars s) a"
  let ?g = "budgetOff s" and ?A = "map glu_lit A"
  have off: "glu_vars ?g = glu_vars s" "glu_clauses ?g = glu_clauses s" "glu_left ?g = None" by (simp_all add: budgetOff_def glu_left_def)
  have call: "\<exists>r. glu_solve_core G ?A ?g = (r, s') \<and> b = (r = l_True)" if "mg_solve G A s = Some (b, s')" for b
    using that mg_assume_eq(2) [OF A] by (auto simp: mg_solve_def glu_solve_def split: prod.splits)
  show "mg_solve G A s = Some (b, s') \<Longrightarrow>
      mg_nVars s' = mg_nVars s \<and> mg_clauses s' = mg_clauses s \<and> glu_sound G \<and> glu_complete G \<and> mg_ok s'"
    using call [of b] glu_solve_cases(1,2) [of G A ?g] off ok by (auto simp: mg_nVars_def mg_clauses_def mg_ok_def)
  show "\<exists>m. Some (mg_getSolution s') = Some m \<and> mg_nVars s < length m \<and> models_with (mg_clauses s) A (model_of m)"
    if "mg_solve G A s = Some (True, s')"
  proof -
    have r: "glu_solve_core G ?A ?g = (l_True, s')" using call [OF that] by auto
    note C = glu_solve_cases [OF _ r]
    obtain m where m: "satisfies (model_of m) (map (map glu_int) (glu_clauses s)) A"
        "glu_model s' = map (\<lambda>i. if model_of m (int i) then l_True else l_False) [0..<glu_vars s']"
      using C(1,3) ok off by auto
    have v: "0 < glu_vars s'" "mg_nVars s' = mg_nVars s" using C(1) ok off by (auto simp: mg_ok_def mg_nVars_def)
    note S = mg_getSolution_model [OF v(1) m(2)]
    show ?thesis using S m(1) satisfies_upto [of s A] ok A v(2) by auto
  qed
  show "\<exists>cs. Some (mg_getConflictOf A s') = Some cs \<and> set cs \<subseteq> set A \<and> (\<forall>\<sigma>. \<not> models_with (mg_clauses s) cs \<sigma>)"
    if un: "mg_solve G A s = Some (False, s')"
  proof -
    obtain r where r: "glu_solve_core G ?A ?g = (r, s')" "r \<noteq> l_True" using call [OF un] by auto
    note C = glu_solve_cases [OF _ r(1)]
    have "r \<noteq> l_Undef" using C(5) ok off(3) by (auto simp: glu_complete_def)
    then have "r = l_False" using r(2) by (cases r) auto
    then obtain fs where fs: "set fs \<subseteq> set A" "\<forall>\<sigma>. \<not> satisfies \<sigma> (map (map glu_int) (glu_clauses s)) fs"
        "glu_conflict s' = map (\<lambda>a. lit_neg (glu_lit a)) fs"
      using C(4) ok off by auto
    have nz: "\<forall>a \<in> set A. a \<noteq> 0" using A by auto
    have "mg_getConflictOf A s' = fs" by (rule glu_conflict_back [OF fs(3,1) nz])
    moreover have "\<not> models_with (mg_clauses s) fs \<sigma>" for \<sigma>
      using fs(2) by (simp add: models_with_def satisfies_def mg_clauses_def)
    ultimately show ?thesis using fs(1) by blast
  qed
qed

text \<open>An engine that satisfies the hypotheses.\<close>

definition bf_glucose :: glu_engine where
  "bf_glucose = \<lparr>glu_search = (\<lambda>n F A k. bf_solve n F A (- 1) False), glu_spent = (\<lambda>n. 0), glu_prop = bf_propagate\<rparr>"

lemma bf_glucose_ok: "glu_sound bf_glucose" "glu_complete bf_glucose"
proof -
  have "case bf_propagate n F A of None \<Rightarrow> \<forall>\<sigma>. \<not> satisfies \<sigma> F A | Some ls \<Rightarrow> \<forall>l \<in> set ls. \<forall>\<sigma>. satisfies \<sigma> F A \<longrightarrow> lit_true \<sigma> l"
    for n F A
    using bf_propagate_ok [of F A n] by (simp add: propagate_ok_def split: option.splits)
  then show "glu_sound bf_glucose" using bf_solve_ok by (simp add: bf_glucose_def glu_sound_def)
  show "glu_complete bf_glucose" by (simp add: bf_glucose_def glu_complete_def bf_solve_def split: list.splits)
qed

end
