(* ===== verification/Chrono_Timer.thy ===== *)
theory Chrono_Timer
  imports Complex_Main
begin

text \<open>
  \<open>lib/MaLib/src/Chrono.h\<close>: the stop watch \<open>Chrono\<close> and the class \<open>TimeOut\<close>, and the time parameters of
  \<open>EvalMaxSAT\<close> that are computed from them. The time of the system clock, in nanoseconds, is an argument
  of every operation that reads the clock. A \<open>double\<close> is a real number: rounding is not modelled. A
  division by zero has no value here (in the program it gives an infinity or a NaN).

  In the model of the search these values only decide the timers, which are choices there; the results of the search do not depend
  on them.
\<close>

section \<open>The stop watch\<close>

record chrono =
  chrono_name :: string
  showWhenDestroyed :: bool
  duree_nano :: int
  chrono_start :: int
  chrono_pause :: bool

definition chrono_named :: "string \<Rightarrow> bool \<Rightarrow> int \<Rightarrow> chrono" where
  "chrono_named name show now =
     \<lparr>chrono_name = name, showWhenDestroyed = show, duree_nano = 0, chrono_start = now, chrono_pause = False\<rparr>"

definition chrono_new :: "int \<Rightarrow> chrono" where
  "chrono_new now =
     \<lparr>chrono_name = [], showWhenDestroyed = False, duree_nano = 0, chrono_start = now, chrono_pause = False\<rparr>"

definition setShowWhenDestroyed :: "bool \<Rightarrow> chrono \<Rightarrow> chrono" where
  "setShowWhenDestroyed b c = c\<lparr>showWhenDestroyed := b\<rparr>"

definition chrono_setPause :: "bool \<Rightarrow> int \<Rightarrow> chrono \<Rightarrow> chrono" where
  "chrono_setPause v now c =
     (if chrono_pause c = v then c
      else
        let c = c\<lparr>chrono_pause := v\<rparr>
        in if v then c\<lparr>duree_nano := duree_nano c + (now - chrono_start c)\<rparr> else c\<lparr>chrono_start := now\<rparr>)"

definition chrono_tic :: "int \<Rightarrow> chrono \<Rightarrow> chrono" where
  "chrono_tic now c = c\<lparr>chrono_start := now, duree_nano := 0, chrono_pause := False\<rparr>"

text \<open>The nanoseconds behind \<open>tacSec\<close>.\<close>

definition chrono_nano :: "int \<Rightarrow> chrono \<Rightarrow> int" where
  "chrono_nano now c = (if chrono_pause c then duree_nano c else duree_nano c + (now - chrono_start c))"

definition tacSec :: "int \<Rightarrow> chrono \<Rightarrow> real" where
  "tacSec now c = of_int (chrono_nano now c) / 1000000000"

text \<open>\<open>AddTime\<close>: the watch runs while the object lives; \<^term>\<open>None\<close> is a failed assertion.\<close>

definition addTime_begin :: "int \<Rightarrow> chrono \<Rightarrow> chrono option" where
  "addTime_begin now c = (if chrono_pause c then Some (chrono_setPause False now c) else None)"

definition addTime_end :: "int \<Rightarrow> chrono \<Rightarrow> chrono option" where
  "addTime_end now c = (if \<not> chrono_pause c then Some (chrono_setPause True now c) else None)"

section \<open>What the watch shows\<close>

text \<open>
  The commands a watch receives, each with the time of the clock; the reference is the time the watch was
  running since the last \<open>tic\<close>, added up interval by interval.
\<close>

datatype watch_cmd = Set_pause bool | Tic

fun watch_step :: "int \<times> watch_cmd \<Rightarrow> chrono \<Rightarrow> chrono" where
  "watch_step (t, Set_pause v) c = chrono_setPause v t c"
| "watch_step (t, Tic) c = chrono_tic t c"

fun running :: "int \<Rightarrow> bool \<Rightarrow> int \<Rightarrow> (int \<times> watch_cmd) list \<Rightarrow> int \<Rightarrow> int" where
  "running acc p t0 [] now = (if p then acc else acc + (now - t0))"
| "running acc p t0 ((t, Set_pause v) # es) now = running (if p then acc else acc + (t - t0)) v t es now"
| "running acc p t0 ((t, Tic) # es) now = running 0 False t es now"

lemma watch_refines:
  assumes "chrono_pause c \<longrightarrow> acc = duree_nano c" "\<not> chrono_pause c \<longrightarrow> acc + (t - t0) = duree_nano c + (t - chrono_start c)"
  shows "chrono_nano now (fold watch_step es c) = running acc (chrono_pause c) t0 es now"
  using assms
proof (induction es arbitrary: c acc t0 t)
  case Nil
  then show ?case by (auto simp: chrono_nano_def)
next
  case (Cons e es)
  obtain u k where e: "e = (u, k)" by (cases e)
  show ?case
  proof (cases k)
    case (Set_pause v)
    let ?acc = "if chrono_pause c then acc else acc + (u - t0)"
    have p: "chrono_pause (chrono_setPause v u c) = v" by (simp add: chrono_setPause_def Let_def)
    have "chrono_nano now (fold watch_step es (chrono_setPause v u c)) = running ?acc v u es now"
    proof -
      have "v \<longrightarrow> ?acc = duree_nano (chrono_setPause v u c)"
        "\<not> v \<longrightarrow> ?acc + (u - u) = duree_nano (chrono_setPause v u c) + (u - chrono_start (chrono_setPause v u c))"
        using Cons.prems by (auto simp: chrono_setPause_def Let_def)
      then show ?thesis using Cons.IH [of "chrono_setPause v u c" ?acc u u] p by simp
    qed
    then show ?thesis by (simp add: e Set_pause)
  next
    case Tic
    then show ?thesis using Cons.IH [of "chrono_tic u c" 0 u u] by (simp add: e chrono_tic_def)
  qed
qed

lemma chrono_shows:
  "chrono_nano now (fold watch_step es (chrono_new t0)) = running 0 False t0 es now"
  using watch_refines [of "chrono_new t0" 0 t0 t0] by (simp add: chrono_new_def)

fun times_sorted :: "int \<Rightarrow> (int \<times> watch_cmd) list \<Rightarrow> int \<Rightarrow> bool" where
  "times_sorted t [] now = (t \<le> now)"
| "times_sorted t ((u, k) # es) now = (t \<le> u \<and> times_sorted u es now)"

lemma times_sorted_le: "times_sorted t es now \<Longrightarrow> t \<le> now"
  by (induction t es now rule: times_sorted.induct) auto

text \<open>On a clock that does not run backwards the watch shows at least zero and at most the time that went by.\<close>

lemma running_bounds:
  "times_sorted t0 es now \<Longrightarrow> 0 \<le> acc \<Longrightarrow> 0 \<le> running acc p t0 es now \<and> running acc p t0 es now \<le> acc + (now - t0)"
proof (induction acc p t0 es now rule: running.induct)
  case (2 acc p t0 t v es now)
  then show ?case using times_sorted_le [of t es now] by (auto split: if_splits)
next
  case (3 acc p t0 t es now)
  then show ?case using times_sorted_le [of t es now] by auto
qed auto

section \<open>Time outs\<close>

record timeout =
  to_chrono :: chrono
  to_val :: real

definition to_new :: "real \<Rightarrow> int \<Rightarrow> timeout" where
  "to_new seconds now = \<lparr>to_chrono = chrono_new now, to_val = seconds\<rparr>"

definition to_restart :: "int \<Rightarrow> timeout \<Rightarrow> timeout" where
  "to_restart now t = t\<lparr>to_chrono := chrono_tic now (to_chrono t)\<rparr>"

definition to_pause :: "bool \<Rightarrow> int \<Rightarrow> timeout \<Rightarrow> timeout" where
  "to_pause v now t = t\<lparr>to_chrono := chrono_setPause v now (to_chrono t)\<rparr>"

definition to_over :: "int \<Rightarrow> timeout \<Rightarrow> bool" where
  "to_over now t = (tacSec now (to_chrono t) \<ge> to_val t)"

definition timeLeft :: "int \<Rightarrow> timeout \<Rightarrow> real" where
  "timeLeft now t = to_val t - tacSec now (to_chrono t)"

definition getCoefPast :: "int \<Rightarrow> timeout \<Rightarrow> real option" where
  "getCoefPast now t = (if to_val t = 0 then None else Some (tacSec now (to_chrono t) / to_val t))"

definition getCoefLeft :: "int \<Rightarrow> timeout \<Rightarrow> real option" where
  "getCoefLeft now t = map_option (\<lambda>x. 1 - x) (getCoefPast now t)"

definition getVal :: "timeout \<Rightarrow> real" where
  "getVal t = to_val t"

lemma to_over_iff:
  assumes "0 < to_val t"
  shows "to_over now t = (timeLeft now t \<le> 0)" "to_over now t = (\<exists>x. getCoefPast now t = Some x \<and> 1 \<le> x)"
  using assms by (auto simp: to_over_def timeLeft_def getCoefPast_def le_divide_eq)

section \<open>Time parameters of the search\<close>

record time_params =
  initialCoef :: real
  averageCoef :: real
  base_coef :: real
  minimalRefTime :: real
  maximalRefTime :: real
  totalSolveTimeout :: timeout

definition params_new :: "int \<Rightarrow> time_params" where
  "params_new now = \<lparr>initialCoef = 10, averageCoef = 166 / 100, base_coef = 400, minimalRefTime = 5, maximalRefTime = 5 * 60,
     totalSolveTimeout = to_new (9 / 10 * 3600) now\<rparr>"

definition getTimeRefCoef :: "int \<Rightarrow> time_params \<Rightarrow> real option" where
  "getTimeRefCoef now p =
     (case getCoefPast now (totalSolveTimeout p) of
        None \<Rightarrow> None
      | Some x \<Rightarrow> Some (if x \<ge> 1 then 0 else initialCoef p * base_coef p powr (- x)))"

text \<open>The function \<open>W\<close> of \<open>setCoef\<close>, statement by statement: \<open>x\<close> is squared before every term.\<close>

definition lambert_series :: "real \<Rightarrow> real" where
  "lambert_series x =
     (let result = x;
          x = x * x;
          result = result + - x;
          x = x * x;
          result = result + 3 * x / 2;
          x = x * x;
          result = result + - 8 * x / 3;
          x = x * x
      in result + 125 * x / 24)"

definition setCoef :: "real \<Rightarrow> real \<Rightarrow> time_params \<Rightarrow> time_params" where
  "setCoef ic coefOnRefTime p =
     p\<lparr>initialCoef := ic, averageCoef := coefOnRefTime,
       base_coef := - ic / (coefOnRefTime * lambert_series ((- ic * exp (- ic / coefOnRefTime)) / coefOnRefTime))\<rparr>"

definition setTargetComputationTime :: "real \<Rightarrow> int \<Rightarrow> time_params \<Rightarrow> time_params" where
  "setTargetComputationTime seconds now p = p\<lparr>totalSolveTimeout := to_new (seconds * 9 / 10) now\<rparr>"

definition setBoundRefTime :: "real \<Rightarrow> real \<Rightarrow> time_params \<Rightarrow> time_params" where
  "setBoundRefTime lo hi p = p\<lparr>minimalRefTime := lo, maximalRefTime := hi\<rparr>"

text \<open>The reference time of the last question.\<close>

definition maxLastSolveOr1 :: "int \<Rightarrow> chrono \<Rightarrow> time_params \<Rightarrow> real" where
  "maxLastSolveOr1 now c p = min (minimalRefTime p + tacSec now c) (maximalRefTime p)"

lemma lambert_series_eq: "lambert_series x = x - x ^ 2 + 3 / 2 * x ^ 4 - 8 / 3 * x ^ 8 + 125 / 24 * x ^ 16"
  by (simp add: lambert_series_def Let_def power_numeral_reduce field_simps)

lemma getTimeRefCoef_bounds:
  assumes "getTimeRefCoef now p = Some r" "0 \<le> initialCoef p" "1 \<le> base_coef p" "0 < to_val (totalSolveTimeout p)"
    "0 \<le> tacSec now (to_chrono (totalSolveTimeout p))"
  shows "0 \<le> r \<and> r \<le> initialCoef p"
proof -
  let ?x = "tacSec now (to_chrono (totalSolveTimeout p)) / to_val (totalSolveTimeout p)"
  have x: "0 \<le> ?x" using assms(4,5) by simp
  have "base_coef p powr (- ?x) \<le> base_coef p powr 0" using assms(3) x by (intro powr_mono) simp_all
  then have "base_coef p powr (- ?x) \<le> 1" using assms(3) by simp
  then have "initialCoef p * base_coef p powr (- ?x) \<le> initialCoef p * 1" by (rule mult_left_mono [OF _ assms(2)])
  then show ?thesis using assms(1,2,4) by (auto simp: getTimeRefCoef_def getCoefPast_def split: if_splits)
qed

lemma maxLastSolve_bounds:
  assumes "0 \<le> tacSec now c" "minimalRefTime p \<le> maximalRefTime p"
  shows "minimalRefTime p \<le> maxLastSolveOr1 now c p \<and> maxLastSolveOr1 now c p \<le> maximalRefTime p"
  using assms by (simp add: maxLastSolveOr1_def)

end
