(* ===== verification/Cadical_Flags.thy ===== *)
theory Cadical_Flags
  imports Prelude
begin

text \<open>
  \<open>lib/cadical/src/flags.cpp\<close>: the status of a variable inside CaDiCaL and the statistics that count the
  variables of each status (\<open>stats.active\<close>, \<open>stats.inactive\<close>, \<open>stats.unused\<close>, \<open>stats.now\<close>, \<open>stats.all\<close>).
  \<open>compact.cpp\<close> removes variables from this table and renumbers the others; \<open>stats.vars\<close> counts every variable that was ever added.
  A result \<^term>\<open>None\<close> is a failed assertion. The statuses of the variables are a list that is indexed by the
  variable; its entry 0 belongs to no variable and stays \<open>UNUSED\<close>.
\<close>

section \<open>Statuses and statistics\<close>

datatype vstatus = UNUSED | ACTIVE | FIXED | ELIMINATED | SUBSTITUTED | PURE

record ivars =
  i_max_var :: nat
  i_status :: "vstatus list"
  st_vars :: int
  st_unused :: int
  st_active :: int
  st_inactive :: int
  st_reactivated :: int
  now_fixed :: int
  now_eliminated :: int
  now_substituted :: int
  now_pure :: int
  all_fixed :: int
  all_eliminated :: int
  all_substituted :: int
  all_pure :: int

definition ivars_new :: ivars where
  "ivars_new = \<lparr>i_max_var = 0, i_status = [UNUSED], st_vars = 0, st_unused = 0, st_active = 0, st_inactive = 0,
     st_reactivated = 0, now_fixed = 0, now_eliminated = 0, now_substituted = 0, now_pure = 0, all_fixed = 0,
     all_eliminated = 0, all_substituted = 0, all_pure = 0\<rparr>"

definition flags_status :: "int \<Rightarrow> ivars \<Rightarrow> vstatus" where
  "flags_status lit v = i_status v ! nat \<bar>lit\<bar>"

definition set_status :: "int \<Rightarrow> vstatus \<Rightarrow> ivars \<Rightarrow> ivars" where
  "set_status lit s v = v\<lparr>i_status := (i_status v)[nat \<bar>lit\<bar> := s]\<rparr>"

definition init_vars :: "nat \<Rightarrow> ivars \<Rightarrow> ivars" where
  "init_vars new_max_var v =
     (if new_max_var \<le> i_max_var v then v
      else
        let initialized = new_max_var - i_max_var v
        in v\<lparr>i_max_var := new_max_var, i_status := i_status v @ replicate initialized UNUSED,
             st_vars := st_vars v + int initialized, st_unused := st_unused v + int initialized,
             st_inactive := st_inactive v + int initialized\<rparr>)"

section \<open>Operations\<close>

definition mark_fixed :: "int \<Rightarrow> ivars \<Rightarrow> ivars option" where
  "mark_fixed lit v =
     (if flags_status lit v \<noteq> ACTIVE then None
      else
        let v = set_status lit FIXED v;
            v = v\<lparr>all_fixed := all_fixed v + 1, now_fixed := now_fixed v + 1, st_inactive := st_inactive v + 1\<rparr>
        in if st_active v = 0 then None else Some (v\<lparr>st_active := st_active v - 1\<rparr>))"

definition mark_eliminated :: "int \<Rightarrow> ivars \<Rightarrow> ivars option" where
  "mark_eliminated lit v =
     (if flags_status lit v \<noteq> ACTIVE then None
      else
        let v = set_status lit ELIMINATED v;
            v = v\<lparr>all_eliminated := all_eliminated v + 1, now_eliminated := now_eliminated v + 1,
                  st_inactive := st_inactive v + 1\<rparr>
        in if st_active v = 0 then None else Some (v\<lparr>st_active := st_active v - 1\<rparr>))"

definition mark_pure :: "int \<Rightarrow> ivars \<Rightarrow> ivars option" where
  "mark_pure lit v =
     (if flags_status lit v \<noteq> ACTIVE then None
      else
        let v = set_status lit PURE v;
            v = v\<lparr>all_pure := all_pure v + 1, now_pure := now_pure v + 1, st_inactive := st_inactive v + 1\<rparr>
        in if st_active v = 0 then None else Some (v\<lparr>st_active := st_active v - 1\<rparr>))"

definition mark_substituted :: "int \<Rightarrow> ivars \<Rightarrow> ivars option" where
  "mark_substituted lit v =
     (if flags_status lit v \<noteq> ACTIVE then None
      else
        let v = set_status lit SUBSTITUTED v;
            v = v\<lparr>all_substituted := all_substituted v + 1, now_substituted := now_substituted v + 1,
                  st_inactive := st_inactive v + 1\<rparr>
        in if st_active v = 0 then None else Some (v\<lparr>st_active := st_active v - 1\<rparr>))"

definition mark_active :: "int \<Rightarrow> ivars \<Rightarrow> ivars option" where
  "mark_active lit v =
     (if flags_status lit v \<noteq> UNUSED then None
      else
        let v = set_status lit ACTIVE v
        in if st_inactive v = 0 \<or> st_unused v = 0 then None
           else Some (v\<lparr>st_inactive := st_inactive v - 1, st_unused := st_unused v - 1, st_active := st_active v + 1\<rparr>))"

definition reactivate :: "int \<Rightarrow> ivars \<Rightarrow> ivars option" where
  "reactivate lit v =
     do { v \<leftarrow> (case flags_status lit v of
                ELIMINATED \<Rightarrow> if now_eliminated v > 0 then Some (v\<lparr>now_eliminated := now_eliminated v - 1\<rparr>) else None
              | SUBSTITUTED \<Rightarrow> if now_substituted v > 0 then Some (v\<lparr>now_substituted := now_substituted v - 1\<rparr>) else None
              | PURE \<Rightarrow> if now_pure v > 0 then Some (v\<lparr>now_pure := now_pure v - 1\<rparr>) else None
              | _ \<Rightarrow> None);
          let v = (set_status lit ACTIVE v)\<lparr>st_reactivated := st_reactivated v + 1\<rparr>
          in if st_inactive v > 0 then Some (v\<lparr>st_inactive := st_inactive v - 1, st_active := st_active v + 1\<rparr>) else None }"

section \<open>Compacting\<close>

text \<open>
  \<open>Internal::compact\<close> of \<open>compact.cpp\<close> on the table of statuses: the mapper numbers the active variables and the first fixed one, in order, the entries
  move down in place, and the statistics are reset. \<open>stats.vars\<close> stays.
\<close>

record mapper =
  m_new_max_var :: nat
  m_table :: "nat list"
  m_first_fixed :: nat
  m_map_first_fixed :: nat

definition map_var :: "ivars \<Rightarrow> nat \<Rightarrow> mapper \<Rightarrow> mapper" where
  "map_var v src m =
     (let f = i_status v ! src; n = m_new_max_var m + 1
      in if f = ACTIVE then m\<lparr>m_new_max_var := n, m_table := (m_table m)[src := n]\<rparr>
         else if f = FIXED \<and> m_first_fixed m = 0 then m\<lparr>m_new_max_var := n, m_table := (m_table m)[src := n], m_first_fixed := src, m_map_first_fixed := n\<rparr>
         else m)"

primrec map_vars :: "ivars \<Rightarrow> nat \<Rightarrow> mapper" where
  "map_vars v 0 = \<lparr>m_new_max_var = 0, m_table = replicate (i_max_var v + 1) 0, m_first_fixed = 0, m_map_first_fixed = 0\<rparr>"
| "map_vars v (Suc n) = map_var v (Suc n) (map_vars v n)"

definition mapper_of :: "ivars \<Rightarrow> mapper" where
  "mapper_of v = map_vars v (i_max_var v)"

definition map_idx :: "ivars \<Rightarrow> mapper \<Rightarrow> nat \<Rightarrow> nat option" where
  "map_idx v m src =
     (if \<not> 0 < src \<or> src > i_max_var v then None
      else let res = m_table m ! src in if res > m_new_max_var m then None else Some res)"

definition move_entry :: "ivars \<Rightarrow> mapper \<Rightarrow> nat \<Rightarrow> 'a list \<Rightarrow> 'a list option" where
  "move_entry v m src xs =
     do { dst \<leftarrow> map_idx v m src;
          if dst = 0 then Some xs else if dst > src then None else Some (xs[dst := xs ! src]) }"

primrec move_entries :: "ivars \<Rightarrow> mapper \<Rightarrow> nat \<Rightarrow> 'a list \<Rightarrow> 'a list option" where
  "move_entries v m 0 xs = Some xs"
| "move_entries v m (Suc n) xs = do { xs \<leftarrow> move_entries v m n xs; move_entry v m (Suc n) xs }"

definition map_vector :: "ivars \<Rightarrow> mapper \<Rightarrow> 'a list \<Rightarrow> 'a list option" where
  "map_vector v m xs = do { xs \<leftarrow> move_entries v m (i_max_var v) xs; Some (take (m_new_max_var m + 1) xs) }"

definition int_active :: "ivars \<Rightarrow> int option" where
  "int_active v =
     (let res = st_active v;
          tmp = int (i_max_var v) - st_unused v - now_fixed v - now_eliminated v - now_substituted v - now_pure v
      in if tmp < 0 \<or> tmp \<noteq> res then None else Some res)"

definition check_var_stats :: "ivars \<Rightarrow> bool" where
  "check_var_stats v =
     (let n = (\<lambda>s. int (count_list (tl (i_status v)) s)); inactive = n UNUSED + n FIXED + n ELIMINATED + n SUBSTITUTED + n PURE
      in now_fixed v = n FIXED \<and> now_eliminated v = n ELIMINATED \<and> now_substituted v = n SUBSTITUTED \<and> now_pure v = n PURE \<and>
         st_inactive v = inactive \<and> int (i_max_var v) = st_active v + st_inactive v)"

definition internal_compact :: "ivars \<Rightarrow> ivars option" where
  "internal_compact v =
     do { active \<leftarrow> int_active v;
          if \<not> active < int (i_max_var v) then None
          else
            do { let m = mapper_of v;
                 ftab \<leftarrow> map_vector v m (i_status v);
                 let one = (if m_first_fixed m \<noteq> 0 then 1 else 0);
                 let v = v\<lparr>i_status := ftab, i_max_var := m_new_max_var m, st_unused := 0, st_inactive := one, now_fixed := one,
                           now_substituted := 0, now_eliminated := 0, now_pure := 0\<rparr>;
                 if check_var_stats v then Some v else None } }"

section \<open>The statistics count the statuses\<close>

definition count_status :: "vstatus \<Rightarrow> ivars \<Rightarrow> int" where
  "count_status s v = int (count_list (i_status v) s)"

definition stats_ok :: "ivars \<Rightarrow> bool" where
  "stats_ok v =
     (length (i_status v) = i_max_var v + 1 \<and> i_status v ! 0 = UNUSED \<and> int (i_max_var v) \<le> st_vars v \<and>
      st_unused v = count_status UNUSED v - 1 \<and> st_active v = count_status ACTIVE v \<and>
      st_inactive v = int (i_max_var v) - st_active v \<and>
      now_fixed v = count_status FIXED v \<and> now_eliminated v = count_status ELIMINATED v \<and>
      now_substituted v = count_status SUBSTITUTED v \<and> now_pure v = count_status PURE v \<and>
      now_fixed v \<le> all_fixed v \<and> now_eliminated v \<le> all_eliminated v \<and>
      now_substituted v \<le> all_substituted v \<and> now_pure v \<le> all_pure v)"

text \<open>The variables that exist.\<close>

definition has_var :: "int \<Rightarrow> ivars \<Rightarrow> bool" where
  "has_var lit v = (lit \<noteq> 0 \<and> nat \<bar>lit\<bar> \<le> i_max_var v)"

lemma count_list_update:
  "i < length xs \<Longrightarrow>
   count_list (xs[i := y]) z + (if xs ! i = z then 1 else 0) = count_list xs z + (if y = z then 1 else 0)"
proof (induction xs arbitrary: i)
  case (Cons x xs)
  show ?case
  proof (cases i)
    case 0
    then show ?thesis by simp
  next
    case (Suc k)
    then show ?thesis using Cons.IH [of k] Cons.prems by (simp split: if_splits)
  qed
qed simp

lemma count_list_replicate: "count_list (replicate n x) y = (if x = y then n else 0)"
  by (induction n) auto

lemma count_status_set:
  assumes "has_var lit v" "length (i_status v) = i_max_var v + 1"
  shows "count_status t (set_status lit s v) =
    count_status t v - (if flags_status lit v = t then 1 else 0) + (if s = t then 1 else 0)"
  using assms count_list_update [of "nat \<bar>lit\<bar>" "i_status v" s t]
  by (simp add: count_status_def set_status_def flags_status_def has_var_def split: if_splits)

lemma count_status_pos:
  assumes "has_var lit v" "length (i_status v) = i_max_var v + 1"
  shows "0 < count_status (flags_status lit v) v"
proof -
  have "i_status v ! nat \<bar>lit\<bar> \<in> set (i_status v)" using assms by (simp add: has_var_def)
  then show ?thesis by (simp add: count_status_def flags_status_def count_list_0_iff flip: neq0_conv)
qed

lemma count_status_total:
  assumes "length (i_status v) = i_max_var v + 1"
  shows "count_status UNUSED v + count_status ACTIVE v + count_status FIXED v + count_status ELIMINATED v +
    count_status SUBSTITUTED v + count_status PURE v = int (i_max_var v) + 1"
proof -
  have "count_list xs UNUSED + count_list xs ACTIVE + count_list xs FIXED + count_list xs ELIMINATED +
      count_list xs SUBSTITUTED + count_list xs PURE = length xs" for xs
    by (induction xs) (auto split: vstatus.splits, metis vstatus.exhaust)
  from this [of "i_status v"] show ?thesis using assms unfolding count_status_def by linarith
qed

section \<open>Every operation keeps the statistics\<close>

lemma stats_ok_new: "stats_ok ivars_new"
  by (simp add: stats_ok_def ivars_new_def count_status_def)

lemma stats_ok_init_vars: "stats_ok v \<Longrightarrow> stats_ok (init_vars n v)"
  by (auto simp: stats_ok_def init_vars_def count_status_def count_list_replicate count_list_append nth_append Let_def)

text \<open>The status of one variable changes, and nothing else of the table.\<close>

definition becomes :: "int \<Rightarrow> vstatus \<Rightarrow> ivars \<Rightarrow> ivars option \<Rightarrow> bool" where
  "becomes lit s v r =
     (case r of None \<Rightarrow> False
      | Some v' \<Rightarrow> stats_ok v' \<and> i_status v' = (i_status v)[nat \<bar>lit\<bar> := s] \<and> i_max_var v' = i_max_var v)"

text \<open>
  What an operation relies on: the count of every status after the change, that the old status is counted,
  and that entry 0 is not the variable.
\<close>

lemma status_facts:
  assumes "stats_ok v" "has_var lit v"
  defines "k \<equiv> nat \<bar>lit\<bar>"
  shows "int (count_list ((i_status v)[k := s]) t) =
      int (count_list (i_status v) t) - (if i_status v ! k = t then 1 else 0) + (if s = t then 1 else 0)"
    and "0 < count_list (i_status v) (i_status v ! k)" and "(i_status v)[k := s] ! 0 = UNUSED"
    and "int (count_list (i_status v) ACTIVE) + (if i_status v ! k = ACTIVE then 0 else 1) \<le> int (i_max_var v)"
    and "i_status v ! k = UNUSED \<Longrightarrow> 1 < count_list (i_status v) UNUSED"
proof -
  have len: "length (i_status v) = i_max_var v + 1" "i_status v ! 0 = UNUSED" and k: "0 < k" "k < length (i_status v)"
    using assms(1,2) by (simp_all add: stats_ok_def has_var_def k_def)
  have upd: "int (count_list ((i_status v)[k := s]) t) =
      int (count_list (i_status v) t) - (if i_status v ! k = t then 1 else 0) + (if s = t then 1 else 0)" for s t
    using count_list_update [OF k(2), of s t] by (simp split: if_splits)
  have pos: "0 < count_list xs (xs ! n)" if "n < length xs" for xs :: "vstatus list" and n
    using that nth_mem [of n xs] by (simp add: count_list_0_iff flip: neq0_conv)
  show zero: "(i_status v)[k := s] ! 0 = UNUSED" for s using k(1) len(2) by simp
  show two: "1 < count_list (i_status v) UNUSED" if "i_status v ! k = UNUSED"
    using upd [of ACTIVE UNUSED] pos [of 0 "(i_status v)[k := ACTIVE]"] zero that len k by simp
  show "int (count_list (i_status v) ACTIVE) + (if i_status v ! k = ACTIVE then 0 else 1) \<le> int (i_max_var v)"
    using count_status_total [OF len(1)] pos [OF k(2)] pos [of 0 "i_status v"] two len k
    by (cases "i_status v ! k") (simp_all add: count_status_def)
  show "int (count_list ((i_status v)[k := s]) t) =
      int (count_list (i_status v) t) - (if i_status v ! k = t then 1 else 0) + (if s = t then 1 else 0)" by (rule upd)
  show "0 < count_list (i_status v) (i_status v ! k)" by (rule pos [OF k(2)])
qed

lemmas change_defs = becomes_def stats_ok_def Let_def set_status_def flags_status_def count_status_def

lemma mark_inactive_ok:
  assumes "stats_ok v" "has_var lit v" "flags_status lit v = ACTIVE"
  shows "becomes lit FIXED v (mark_fixed lit v)" "becomes lit ELIMINATED v (mark_eliminated lit v)"
    "becomes lit PURE v (mark_pure lit v)" "becomes lit SUBSTITUTED v (mark_substituted lit v)"
  using assms(1,3) status_facts(2,3) [OF assms(1,2)]
  by (simp_all add: change_defs mark_fixed_def mark_eliminated_def mark_pure_def mark_substituted_def status_facts(1) [OF assms(1,2)])

lemma mark_active_ok:
  assumes "stats_ok v" "has_var lit v" "flags_status lit v = UNUSED"
  shows "becomes lit ACTIVE v (mark_active lit v)"
  using assms(1,3) status_facts(3,4,5) [OF assms(1,2)]
  by (simp add: change_defs mark_active_def status_facts(1) [OF assms(1,2)])

lemma reactivate_ok:
  assumes "stats_ok v" "has_var lit v" "flags_status lit v \<in> {ELIMINATED, SUBSTITUTED, PURE}"
  shows "becomes lit ACTIVE v (reactivate lit v)"
  using assms(1,3) status_facts(2,3,4) [OF assms(1,2)]
  by (auto simp: change_defs reactivate_def status_facts(1) [OF assms(1,2)])

section \<open>Compacting keeps the active variables and one fixed one\<close>

text \<open>The variables that keep a number: the active ones and the first fixed one.\<close>

definition survives :: "ivars \<Rightarrow> nat \<Rightarrow> bool" where
  "survives v i = (i_status v ! i = ACTIVE \<or> i_status v ! i = FIXED \<and> FIXED \<notin> set (take i (i_status v)))"

definition survivors :: "ivars \<Rightarrow> nat \<Rightarrow> nat list" where
  "survivors v n = filter (survives v) [1..<n + 1]"

lemma survivors_simps [simp]:
  "survivors v 0 = []" "survivors v (Suc n) = survivors v n @ (if survives v (Suc n) then [Suc n] else [])"
  by (simp_all add: survivors_def)

lemma survivors_le: "length (survivors v n) \<le> n"
  by (induction n) auto

lemma fixed_seen_Suc:
  "n + 1 < length (i_status v) \<Longrightarrow> FIXED \<in> set (take (n + 2) (i_status v)) \<longleftrightarrow> FIXED \<in> set (take (n + 1) (i_status v)) \<or> i_status v ! (n + 1) = FIXED"
  by (auto simp: take_Suc_conv_app_nth)

lemma map_vars_ok:
  assumes "stats_ok v" "n \<le> i_max_var v"
  shows "m_new_max_var (map_vars v n) = length (survivors v n)" "length (m_table (map_vars v n)) = i_max_var v + 1"
    "m_first_fixed (map_vars v n) \<noteq> 0 \<longleftrightarrow> FIXED \<in> set (take (n + 1) (i_status v))"
    "\<And>i. i \<le> i_max_var v \<Longrightarrow> m_table (map_vars v n) ! i = (if 0 < i \<and> i \<le> n \<and> survives v i then length (survivors v i) else 0)"
proof -
  have S: "length (i_status v) = i_max_var v + 1" "i_status v ! 0 = UNUSED" using assms(1) by (simp_all add: stats_ok_def)
  have "m_new_max_var (map_vars v n) = length (survivors v n) \<and> length (m_table (map_vars v n)) = i_max_var v + 1 \<and>
    (m_first_fixed (map_vars v n) \<noteq> 0 \<longleftrightarrow> FIXED \<in> set (take (n + 1) (i_status v))) \<and>
    (\<forall>i \<le> i_max_var v. m_table (map_vars v n) ! i = (if 0 < i \<and> i \<le> n \<and> survives v i then length (survivors v i) else 0))"
    using assms(2)
  proof (induction n)
    case 0
    then show ?case using S by (cases "i_status v") (auto simp: nth_append simp del: replicate_Suc)
  next
    case (Suc n)
    then have n: "n + 1 < length (i_status v)" "n \<le> i_max_var v" using S by simp_all
    note IH = Suc.IH [OF n(2)]
    have sv: "survives v (Suc n) = (i_status v ! Suc n = ACTIVE \<or> i_status v ! Suc n = FIXED \<and> m_first_fixed (map_vars v n) = 0)"
      using IH by (auto simp: survives_def)
    have seen: "FIXED \<in> set (take (Suc n + 1) (i_status v)) \<longleftrightarrow> m_first_fixed (map_vars v n) \<noteq> 0 \<or> i_status v ! Suc n = FIXED"
      using IH fixed_seen_Suc [OF n(1)] by simp
    let ?f = "i_status v ! Suc n" and ?m = "map_vars v n"
    have tab: "(m_table ?m)[Suc n := m_new_max_var ?m + 1] ! i = (if 0 < i \<and> i \<le> Suc n \<and> survives v i then length (survivors v i) else 0)"
      if "i \<le> i_max_var v" "survives v (Suc n)" for i
      using IH that Suc.prems by (cases "i = Suc n") auto
    consider "?f = ACTIVE" | "?f = FIXED" "m_first_fixed ?m = 0" | "?f \<noteq> ACTIVE" "?f = FIXED \<longrightarrow> m_first_fixed ?m \<noteq> 0" by blast
    then show ?case
    proof cases
      case 1
      then have m: "map_vars v (Suc n) = ?m\<lparr>m_new_max_var := m_new_max_var ?m + 1, m_table := (m_table ?m)[Suc n := m_new_max_var ?m + 1]\<rparr>" "survives v (Suc n)"
        by (simp_all add: map_var_def sv)
      show ?thesis unfolding m(1) seen using IH m(2) 1 tab by simp
    next
      case 2
      then have m: "map_vars v (Suc n) = ?m\<lparr>m_new_max_var := m_new_max_var ?m + 1, m_table := (m_table ?m)[Suc n := m_new_max_var ?m + 1],
          m_first_fixed := Suc n, m_map_first_fixed := m_new_max_var ?m + 1\<rparr>" "survives v (Suc n)"
        by (simp_all add: map_var_def sv)
      show ?thesis unfolding m(1) seen using IH m(2) 2 tab by simp
    next
      case 3
      then have m: "map_vars v (Suc n) = ?m" "\<not> survives v (Suc n)" by (auto simp: map_var_def sv Let_def)
      show ?thesis unfolding m(1) seen using IH m(2) 3 by (auto simp: le_Suc_eq)
    qed
  qed
  then show "m_new_max_var (map_vars v n) = length (survivors v n)" "length (m_table (map_vars v n)) = i_max_var v + 1"
    "m_first_fixed (map_vars v n) \<noteq> 0 \<longleftrightarrow> FIXED \<in> set (take (n + 1) (i_status v))"
    "\<And>i. i \<le> i_max_var v \<Longrightarrow> m_table (map_vars v n) ! i = (if 0 < i \<and> i \<le> n \<and> survives v i then length (survivors v i) else 0)"
    by blast+
qed

lemma survivors_mono: "i \<le> n \<Longrightarrow> length (survivors v i) \<le> length (survivors v n)"
  by (induction n) (auto simp: le_Suc_eq)

lemma move_entries_ok:
  assumes "stats_ok v" "n \<le> i_max_var v" "length xs = i_max_var v + 1"
  shows "\<exists>ys. move_entries v (mapper_of v) n xs = Some ys \<and> length ys = length xs \<and>
    take (length (survivors v n) + 1) ys = xs ! 0 # map ((!) xs) (survivors v n) \<and> drop (n + 1) ys = drop (n + 1) xs"
  using assms(2)
proof (induction n)
  case 0
  then show ?case using assms(3) by (cases xs) auto
next
  case (Suc n)
  let ?m = "mapper_of v" and ?k = "length (survivors v n)"
  obtain ys where ys: "move_entries v ?m n xs = Some ys" "length ys = length xs"
      "take (?k + 1) ys = xs ! 0 # map ((!) xs) (survivors v n)" "drop (n + 1) ys = drop (n + 1) xs" using Suc by auto
  note M = map_vars_ok [OF assms(1) order_refl]
  have idx: "map_idx v ?m (Suc n) = Some (if survives v (Suc n) then length (survivors v (Suc n)) else 0)"
    using Suc.prems M(1) M(4) [OF Suc.prems] survivors_mono [OF Suc.prems, of v]
    by (cases "survives v (Suc n)") (simp_all add: map_idx_def mapper_of_def)
  have at: "ys ! Suc n = xs ! Suc n" "drop (Suc n + 1) ys = drop (Suc n + 1) xs"
  proof -
    show "ys ! Suc n = xs ! Suc n" using ys(2,4) Suc.prems assms(3) nth_drop [of "n + 1" ys 0] nth_drop [of "n + 1" xs 0] by simp
    show "drop (Suc n + 1) ys = drop (Suc n + 1) xs" using arg_cong [OF ys(4), of "drop 1"] by simp
  qed
  show ?case
  proof (cases "survives v (Suc n)")
    case False
    then show ?thesis using ys(1-3) idx at(2) by (simp add: move_entry_def)
  next
    case True
    let ?z = "ys[?k + 1 := ys ! Suc n]"
    have le: "?k \<le> n" by (rule survivors_le)
    have "take (?k + 2) ?z = take (?k + 1) ys @ [ys ! Suc n]"
      using le ys(2) assms(3) Suc.prems by (simp add: take_Suc_conv_app_nth)
    moreover have "move_entries v ?m (Suc n) xs = Some ?z" using ys(1) idx True le by (simp add: move_entry_def)
    moreover have "drop (Suc n + 1) ?z = drop (Suc n + 1) xs" using at(2) le by (simp add: drop_update_cancel)
    ultimately show ?thesis using True ys(2,3) at(1) by (intro exI [of _ ?z]) (simp del: move_entries.simps)
  qed
qed

lemma survivor_counts:
  assumes "stats_ok v" "n \<le> i_max_var v"
  defines "c \<equiv> \<lambda>s. count_list (map ((!) (i_status v)) (survivors v n)) s"
  shows "c ACTIVE = count_list (take (n + 1) (i_status v)) ACTIVE"
    "c FIXED = (if FIXED \<in> set (take (n + 1) (i_status v)) then 1 else 0)"
    "c UNUSED = 0" "c ELIMINATED = 0" "c SUBSTITUTED = 0" "c PURE = 0" "length (survivors v n) = c ACTIVE + c FIXED"
proof -
  have S: "length (i_status v) = i_max_var v + 1" "i_status v ! 0 = UNUSED" using assms(1) by (simp_all add: stats_ok_def)
  have "c ACTIVE = count_list (take (n + 1) (i_status v)) ACTIVE \<and> c FIXED = (if FIXED \<in> set (take (n + 1) (i_status v)) then 1 else 0) \<and>
    c UNUSED = 0 \<and> c ELIMINATED = 0 \<and> c SUBSTITUTED = 0 \<and> c PURE = 0 \<and> length (survivors v n) = c ACTIVE + c FIXED"
    using assms(2) unfolding c_def
  proof (induction n)
    case 0
    then show ?case using S by (cases "i_status v") auto
  next
    case (Suc n)
    then have n: "n + 1 < length (i_status v)" "n \<le> i_max_var v" using S by simp_all
    have t: "take (Suc n + 1) (i_status v) = take (n + 1) (i_status v) @ [i_status v ! Suc n]" using n(1) by (simp add: take_Suc_conv_app_nth)
    show ?case unfolding t using Suc.IH [OF n(2)] by (auto simp: survives_def)
  qed
  then show "c ACTIVE = count_list (take (n + 1) (i_status v)) ACTIVE" "c FIXED = (if FIXED \<in> set (take (n + 1) (i_status v)) then 1 else 0)"
    "c UNUSED = 0" "c ELIMINATED = 0" "c SUBSTITUTED = 0" "c PURE = 0" "length (survivors v n) = c ACTIVE + c FIXED" by blast+
qed

text \<open>
  The table afterwards: entry \<open>k\<close> is the \<open>k\<close>-th survivor, so the active variables stay active in their order, all fixed variables become one, and the others disappear.
\<close>

definition compacted :: "ivars \<Rightarrow> ivars \<Rightarrow> bool" where
  "compacted v v' =
     (\<exists>ks. sorted_wrt (<) ks \<and>
        set ks = {i. 0 < i \<and> i \<le> i_max_var v \<and> (i_status v ! i = ACTIVE \<or> i_status v ! i = FIXED \<and> (\<forall>j < i. i_status v ! j \<noteq> FIXED))} \<and>
        i_max_var v' = length ks \<and> i_status v' = UNUSED # map ((!) (i_status v)) ks \<and>
        st_vars v' = st_vars v \<and> st_active v' = st_active v \<and> all_fixed v' = all_fixed v \<and> all_eliminated v' = all_eliminated v \<and>
        all_substituted v' = all_substituted v \<and> all_pure v' = all_pure v)"

lemma internal_compact_ok:
  assumes "stats_ok v" "st_active v < int (i_max_var v)"
  obtains v' where "internal_compact v = Some v'" "stats_ok v'" "compacted v v'"
proof -
  let ?N = "i_max_var v" and ?m = "mapper_of v"
  let ?ks = "survivors v ?N"
  have S: "length (i_status v) = ?N + 1" "i_status v ! 0 = UNUSED" using assms(1) by (simp_all add: stats_ok_def)
  note M = map_vars_ok [OF assms(1) order_refl, folded mapper_of_def] and C = survivor_counts [OF assms(1) order_refl]
  have all: "take (?N + 1) (i_status v) = i_status v" using S(1) by simp
  have act: "int_active v = Some (st_active v)"
    using assms(1) count_status_total [OF S(1)] by (simp add: int_active_def stats_ok_def Let_def count_status_def)
  obtain ys where "move_entries v ?m ?N (i_status v) = Some ys" "take (length ?ks + 1) ys = i_status v ! 0 # map ((!) (i_status v)) ?ks"
    using move_entries_ok [OF assms(1) order_refl S(1)] by blast
  then have mv: "map_vector v ?m (i_status v) = Some (UNUSED # map ((!) (i_status v)) ?ks)" using M(1) S(2) by (simp add: map_vector_def)
  define one :: int where "one = (if m_first_fixed ?m \<noteq> 0 then 1 else 0)"
  have one: "one = int (count_list (map ((!) (i_status v)) ?ks) FIXED)" using M(3) C(2) by (simp add: one_def all)
  define v' where "v' = v\<lparr>i_status := UNUSED # map ((!) (i_status v)) ?ks, i_max_var := length ?ks, st_unused := 0, st_inactive := one, now_fixed := one,
      now_substituted := 0, now_eliminated := 0, now_pure := 0\<rparr>"
  have a: "st_active v = int (count_list (map ((!) (i_status v)) ?ks) ACTIVE)" using assms(1) C(1) by (simp add: stats_ok_def count_status_def all)
  have "check_var_stats v'" using C(3-7) one a by (simp add: check_var_stats_def v'_def Let_def)
  then have r: "internal_compact v = Some v'"
    using act assms(2) mv M(1) by (simp add: internal_compact_def Let_def v'_def one_def)
  have "one \<le> all_fixed v"
  proof (cases "FIXED \<in> set (i_status v)")
    case True
    then have "0 < count_list (i_status v) FIXED" by (simp add: count_list_0_iff flip: neq0_conv)
    then show ?thesis using assms(1) by (simp add: stats_ok_def count_status_def one C(2) all)
  next
    case False
    then show ?thesis using assms(1) by (simp add: stats_ok_def count_status_def one C(2) all)
  qed
  moreover have "0 \<le> all_eliminated v" "0 \<le> all_substituted v" "0 \<le> all_pure v" using assms(1) by (auto simp: stats_ok_def count_status_def)
  moreover have "int (length ?ks) \<le> st_vars v" using survivors_le [of v ?N] assms(1) by (simp add: stats_ok_def)
  ultimately have st: "stats_ok v'" using C(3-7) one a by (simp add: stats_ok_def v'_def count_status_def)
  have first: "FIXED \<notin> set (take i (i_status v)) \<longleftrightarrow> (\<forall>j < i. i_status v ! j \<noteq> FIXED)" if "i \<le> ?N" for i
    using that S(1) by (auto simp: in_set_conv_nth)
  have "set ?ks = {i. 0 < i \<and> i \<le> ?N \<and> (i_status v ! i = ACTIVE \<or> i_status v ! i = FIXED \<and> (\<forall>j < i. i_status v ! j \<noteq> FIXED))}"
    using first by (auto simp: survivors_def survives_def)
  moreover have "sorted_wrt (<) ?ks" unfolding survivors_def by (intro sorted_wrt_filter sorted_wrt_upt)
  ultimately have "compacted v v'" unfolding compacted_def by (intro exI [of _ ?ks]) (simp add: v'_def)
  then show ?thesis using that r st by blast
qed

lemma internal_compact_step:
  assumes "stats_ok v" "internal_compact v = Some v'"
  shows "stats_ok v' \<and> compacted v v'"
proof -
  have "st_active v < int (i_max_var v)" using assms(2) by (auto simp: internal_compact_def int_active_def Let_def split: if_splits)
  then show ?thesis using internal_compact_ok [OF assms(1)] assms(2) by (metis option.inject)
qed

section \<open>Reachable tables\<close>

text \<open>The operations as steps; the search only calls them on variables that exist.\<close>

inductive flag_step :: "ivars \<Rightarrow> ivars \<Rightarrow> bool" where
  init: "flag_step v (init_vars n v)"
| activate: "has_var lit v \<Longrightarrow> mark_active lit v = Some v' \<Longrightarrow> flag_step v v'"
| fix_var: "has_var lit v \<Longrightarrow> mark_fixed lit v = Some v' \<Longrightarrow> flag_step v v'"
| eliminate: "has_var lit v \<Longrightarrow> mark_eliminated lit v = Some v' \<Longrightarrow> flag_step v v'"
| pure_lit: "has_var lit v \<Longrightarrow> mark_pure lit v = Some v' \<Longrightarrow> flag_step v v'"
| substitute: "has_var lit v \<Longrightarrow> mark_substituted lit v = Some v' \<Longrightarrow> flag_step v v'"
| reactive: "has_var lit v \<Longrightarrow> reactivate lit v = Some v' \<Longrightarrow> flag_step v v'"
| compact_vars: "internal_compact v = Some v' \<Longrightarrow> flag_step v v'"

text \<open>The life of a variable.\<close>

inductive life :: "vstatus \<Rightarrow> vstatus \<Rightarrow> bool" where
  "life UNUSED ACTIVE"
| "life ACTIVE FIXED" | "life ACTIVE ELIMINATED" | "life ACTIVE PURE" | "life ACTIVE SUBSTITUTED"
| "life ELIMINATED ACTIVE" | "life SUBSTITUTED ACTIVE" | "life PURE ACTIVE"

definition flag_moves :: "ivars \<Rightarrow> ivars \<Rightarrow> bool" where
  "flag_moves v v' = (\<exists>lit s. has_var lit v \<and> life (flags_status lit v) s \<and> becomes lit s v (Some v'))"

lemma flag_movesI: "has_var lit v \<Longrightarrow> life (flags_status lit v) s \<Longrightarrow> becomes lit s v (Some v') \<Longrightarrow> flag_moves v v'"
  by (auto simp: flag_moves_def)

lemma flag_step_cases:
  assumes "flag_step v v'" "stats_ok v"
  shows "(\<exists>n. v' = init_vars n v) \<or> flag_moves v v' \<or> internal_compact v = Some v' \<and> stats_ok v' \<and> compacted v v'"
  using assms(1)
proof cases
  case (activate lit)
  then have u: "flags_status lit v = UNUSED" by (simp add: mark_active_def split: if_splits)
  have "life (flags_status lit v) ACTIVE" using u by (auto intro: life.intros)
  then show ?thesis using mark_active_ok [OF assms(2) activate(1)] u activate flag_movesI by simp
next
  case (reactive lit)
  then have u: "flags_status lit v \<in> {ELIMINATED, SUBSTITUTED, PURE}"
    by (auto simp: reactivate_def split: vstatus.splits)
  have "life (flags_status lit v) ACTIVE" using u by (auto intro: life.intros)
  then show ?thesis using reactivate_ok [OF assms(2) reactive(1)] u reactive flag_movesI by simp
next
  case (fix_var lit)
  then have u: "flags_status lit v = ACTIVE" by (simp add: mark_fixed_def split: if_splits)
  have "life (flags_status lit v) FIXED" using u by (auto intro: life.intros)
  then show ?thesis using mark_inactive_ok(1) [OF assms(2) fix_var(1)] u fix_var flag_movesI by simp
next
  case (eliminate lit)
  then have u: "flags_status lit v = ACTIVE" by (simp add: mark_eliminated_def split: if_splits)
  have "life (flags_status lit v) ELIMINATED" using u by (auto intro: life.intros)
  then show ?thesis using mark_inactive_ok(2) [OF assms(2) eliminate(1)] u eliminate flag_movesI by simp
next
  case (pure_lit lit)
  then have u: "flags_status lit v = ACTIVE" by (simp add: mark_pure_def split: if_splits)
  have "life (flags_status lit v) PURE" using u by (auto intro: life.intros)
  then show ?thesis using mark_inactive_ok(3) [OF assms(2) pure_lit(1)] u pure_lit flag_movesI by simp
next
  case (substitute lit)
  then have u: "flags_status lit v = ACTIVE" by (simp add: mark_substituted_def split: if_splits)
  have "life (flags_status lit v) SUBSTITUTED" using u by (auto intro: life.intros)
  then show ?thesis using mark_inactive_ok(4) [OF assms(2) substitute(1)] u substitute flag_movesI by simp
next
  case compact_vars
  then show ?thesis using internal_compact_step [OF assms(2)] by blast
qed blast

lemma flag_step_stats: "flag_step v v' \<Longrightarrow> stats_ok v \<Longrightarrow> stats_ok v'"
  using flag_step_cases [of v v'] stats_ok_init_vars by (auto simp: becomes_def flag_moves_def)

inductive flag_reach :: "ivars \<Rightarrow> bool" where
  start: "flag_reach ivars_new"
| step: "flag_reach v \<Longrightarrow> flag_step v v' \<Longrightarrow> flag_reach v'"

lemma flag_reach_stats: "flag_reach v \<Longrightarrow> stats_ok v"
  by (induction rule: flag_reach.induct) (auto simp: stats_ok_new flag_step_stats)

inductive_cases life_fixed: "life FIXED s"

lemma fixed_stays:
  assumes "(\<exists>n. v' = init_vars n v) \<or> flag_moves v v'" "stats_ok v" "has_var lit v" "flags_status lit v = FIXED"
  shows "has_var lit v' \<and> flags_status lit v' = FIXED"
  using assms(1) [unfolded flag_moves_def]
proof (elim disjE exE conjE)
  fix n assume "v' = init_vars n v"
  then show ?thesis using assms(2-) by (auto simp: init_vars_def flags_status_def has_var_def stats_ok_def nth_append Let_def)
next
  fix l s assume l: "has_var l v" "life (flags_status l v) s" "becomes l s v (Some v')"
  then have "nat \<bar>l\<bar> \<noteq> nat \<bar>lit\<bar>" using assms(4) by (auto simp: flags_status_def elim: life_fixed)
  then show ?thesis using l(3) assms(3,4) by (simp add: becomes_def flags_status_def has_var_def)
qed

end
