(* ===== verification/Cadical_External.thy ===== *)
theory Cadical_External
  imports Cadical_Flags Cadical "HOL-Library.Word"
begin

text \<open>
  \<open>lib/cadical/src/external.cpp\<close> and \<open>external.hpp\<close>: the layer of CaDiCaL between the programming interface and
  the search. It numbers the variables of the user (external) into those of the search (internal) and back,
  counts how often a variable is frozen, marks literals, reads the extended assignment and checks it.

  The search is outside this layer. What the layer passes on is recorded in \<open>x_calls\<close>, in order; the table of
  statuses (\<open>Cadical_Flags\<close>), \<open>i2e\<close> and the internal counters of frozen variables are part of the state because the layer
  writes them. A result \<^term>\<open>None\<close> is a failed assertion or a fatal error. Sizes are natural numbers; that they
  stay below \<open>INT_MAX\<close> is not modelled.
\<close>

section \<open>State\<close>

datatype icall = Add_original int | Assume_lit int | Constrain_lit int | Phase_lit int | Unphase_lit int
  | Reset_assumptions | Reset_constraint | Reset_limits | Force_termination

record xopts =
  o_check :: bool
  o_checkwitness :: bool
  o_checkfailed :: bool
  o_checkassumptions :: bool
  o_checkconstraint :: bool
  o_checkfrozen :: bool
  o_restoreall :: nat
  o_restoreflush :: bool

record external =
  x_opts :: xopts
  x_ivars :: ivars
  x_i2e :: "int list"
  x_ifrozen :: "32 word list"
  x_calls :: "icall list"
  max_var :: nat
  x_vsize :: nat
  vals :: "bool list"
  e2i :: "int list"
  assumptions :: "int list"
  xconstraint :: "int list"
  extended :: bool
  extension :: "int list"
  witness :: "bool list"
  tainted :: "bool list"
  frozentab :: "32 word list"
  original :: "int list"
  moltentab :: "bool list"

definition int_min :: int where
  "int_min = - (2 ^ 31)"

definition external_new :: "xopts \<Rightarrow> external" where
  "external_new os = \<lparr>x_opts = os, x_ivars = ivars_new, x_i2e = [], x_ifrozen = [0], x_calls = [], max_var = 0, x_vsize = 0,
     vals = [], e2i = [], assumptions = [], xconstraint = [], extended = False, extension = [], witness = [],
     tainted = [], frozentab = [], original = [], moltentab = []\<rparr>"

definition xcall :: "icall \<Rightarrow> external \<Rightarrow> external" where
  "xcall c x = x\<lparr>x_calls := x_calls x @ [c]\<rparr>"

section \<open>Marking literals\<close>

definition elit2ulit :: "int \<Rightarrow> nat" where
  "elit2ulit elit = 2 * (nat \<bar>elit\<bar> - 1) + (if elit < 0 then 1 else 0)"

definition marked :: "bool list \<Rightarrow> int \<Rightarrow> bool" where
  "marked mp elit = (let ulit = elit2ulit elit in if ulit < length mp then mp ! ulit else False)"

definition mark :: "bool list \<Rightarrow> int \<Rightarrow> bool list" where
  "mark mp elit =
     (let ulit = elit2ulit elit;
          mp = (if ulit \<ge> length mp then mp @ replicate (ulit + 1 - length mp) False else mp)
      in mp[ulit := True])"

definition unmark :: "bool list \<Rightarrow> int \<Rightarrow> bool list" where
  "unmark mp elit = (let ulit = elit2ulit elit in if ulit < length mp then mp[ulit := False] else mp)"

text \<open>A table of marks is a set of literals.\<close>

locale mark_table =
  fixes mk :: "'t \<Rightarrow> int \<Rightarrow> 't" and rm :: "'t \<Rightarrow> int \<Rightarrow> 't" and look :: "'t \<Rightarrow> int \<Rightarrow> bool" and none :: 't
  assumes look_none: "\<not> look none l"
    and look_mk: "l \<noteq> 0 \<Longrightarrow> l' \<noteq> 0 \<Longrightarrow> look (mk t l) l' = (l' = l \<or> look t l')"
    and look_rm: "l \<noteq> 0 \<Longrightarrow> l' \<noteq> 0 \<Longrightarrow> look (rm t l) l' = (l' \<noteq> l \<and> look t l')"
begin

lemma look_fold:
  "0 \<notin> set ls \<Longrightarrow> l' \<noteq> 0 \<Longrightarrow> look (fold (\<lambda>l t. mk t l) ls t) l' = (l' \<in> set ls \<or> look t l')"
  by (induction ls arbitrary: t) (auto simp: look_mk)

lemma look_fold_none: "0 \<notin> set ls \<Longrightarrow> l' \<noteq> 0 \<Longrightarrow> look (fold (\<lambda>l t. mk t l) ls none) l' = (l' \<in> set ls)"
  by (simp add: look_fold look_none)

lemma rm_mk: "l \<noteq> 0 \<Longrightarrow> l' \<noteq> 0 \<Longrightarrow> look (rm (mk t l) l) l' = look (rm t l) l'"
  by (auto simp: look_mk look_rm)

end

lemma elit2ulit_inj:
  assumes "l \<noteq> 0" "l' \<noteq> 0" "elit2ulit l = elit2ulit l'"
  shows "l = l'"
proof -
  have sgn: "(l < 0) = (l' < 0)"
    using arg_cong [OF assms(3), of even] by (simp add: elit2ulit_def split: if_splits)
  then have "nat \<bar>l\<bar> - 1 = nat \<bar>l'\<bar> - 1" using assms(3) by (simp add: elit2ulit_def split: if_splits)
  then have "\<bar>l\<bar> = \<bar>l'\<bar>" using assms(1,2) by simp
  then show ?thesis using sgn by linarith
qed

interpretation marks: mark_table mark unmark marked "[]"
proof unfold_locales
  fix l l' :: int and t
  assume l: "l \<noteq> 0" "l' \<noteq> 0"
  then have neq: "l \<noteq> l' \<Longrightarrow> elit2ulit l \<noteq> elit2ulit l'" using elit2ulit_inj by blast
  show "marked (mark t l) l' = (l' = l \<or> marked t l')"
    using neq by (cases "l = l'") (auto simp: marked_def mark_def Let_def nth_append)
  show "marked (unmark t l) l' = (l' \<noteq> l \<and> marked t l')"
    using neq by (cases "l = l'") (auto simp: marked_def unmark_def Let_def)
qed (simp add: marked_def)

section \<open>Variables\<close>

text \<open>The loop of \<open>enlarge\<close>, which doubles the allocated size until it is large enough.\<close>

function grow_size :: "nat \<Rightarrow> nat \<Rightarrow> nat" where
  "grow_size new_vsize new_max_var =
     (if 0 < new_vsize \<and> new_vsize \<le> new_max_var then grow_size (new_vsize * 2) new_max_var else new_vsize)"
  by auto
termination by (relation "measure (\<lambda>(n, m). m + 1 - n)") auto

declare grow_size.simps [simp del]

definition enlarge :: "nat \<Rightarrow> external \<Rightarrow> external option" where
  "enlarge new_max_var x =
     (if extended x then None
      else
        let new_vsize = (if x_vsize x \<noteq> 0 then 2 * x_vsize x else 1 + new_max_var)
        in Some (x\<lparr>x_vsize := grow_size new_vsize new_max_var\<rparr>))"

text \<open>The loop of \<open>init\<close>: external and internal variables are numbered on, side by side.\<close>

fun init_loop :: "nat \<Rightarrow> nat \<Rightarrow> nat \<Rightarrow> int list \<Rightarrow> int list \<Rightarrow> (int list \<times> int list) option" where
  "init_loop 0 eidx iidx e i = Some (e, i)"
| "init_loop (Suc n) eidx iidx e i =
     (if length e = eidx \<and> length i = iidx then init_loop n (eidx + 1) (iidx + 1) (e @ [int iidx]) (i @ [int eidx]) else None)"

text \<open>\<open>Internal::init_vars\<close>, with the internal counters of frozen variables.\<close>

definition init_internal :: "nat \<Rightarrow> external \<Rightarrow> external" where
  "init_internal n x =
     x\<lparr>x_ivars := init_vars n (x_ivars x),
       x_ifrozen := x_ifrozen x @ replicate (n - i_max_var (x_ivars x)) 0\<rparr>"

text \<open>The first variable brings the unused entry 0 of both tables.\<close>

definition init_tables :: "nat \<Rightarrow> external \<Rightarrow> (int list \<times> int list) option" where
  "init_tables old_internal x =
     (if max_var x = 0 then (if e2i x = [] \<and> x_i2e x = [] then Some ([0], [0]) else None)
      else (if length (e2i x) = max_var x + 1 \<and> length (x_i2e x) = old_internal + 1 then Some (e2i x, x_i2e x) else None))"

definition init_var :: "nat \<Rightarrow> external \<Rightarrow> external option" where
  "init_var new_max_var x =
     (if extended x then None
      else if new_max_var \<le> max_var x then Some x
      else
        do { let old_internal = i_max_var (x_ivars x);
             let x' = init_internal (old_internal + (new_max_var - max_var x)) x;
             x' \<leftarrow> (if new_max_var \<ge> x_vsize x' then enlarge new_max_var x' else Some x');
             (e, i) \<leftarrow> init_tables old_internal x';
             (e, i) \<leftarrow> init_loop (new_max_var - max_var x') (max_var x' + 1) (old_internal + 1) e i;
             let m = (if o_checkfrozen (x_opts x') \<and> new_max_var \<ge> length (moltentab x')
                    then moltentab x' @ replicate (1 + new_max_var - length (moltentab x')) False else moltentab x');
             Some (x'\<lparr>e2i := e, x_i2e := i, moltentab := m, max_var := new_max_var\<rparr>) })"

definition vidx :: "int \<Rightarrow> external \<Rightarrow> nat option" where
  "vidx elit x = (if elit = 0 \<or> elit = int_min \<or> nat \<bar>elit\<bar> > max_var x then None else Some (nat \<bar>elit\<bar>))"

definition externalize :: "int \<Rightarrow> external \<Rightarrow> int option" where
  "externalize lit x =
     (if lit = int_min \<or> lit = 0 \<or> nat \<bar>lit\<bar> > i_max_var (x_ivars x) then None
      else let res = x_i2e x ! nat \<bar>lit\<bar> in Some (if lit < 0 then - res else res))"

section \<open>Resets\<close>

definition ext_reset_assumptions :: "external \<Rightarrow> external" where
  "ext_reset_assumptions x = xcall Reset_assumptions (x\<lparr>assumptions := []\<rparr>)"

definition ext_reset_constraint :: "external \<Rightarrow> external" where
  "ext_reset_constraint x = xcall Reset_constraint (x\<lparr>xconstraint := []\<rparr>)"

definition reset_extended :: "external \<Rightarrow> external" where
  "reset_extended x = (if \<not> extended x then x else x\<lparr>extended := False\<rparr>)"

definition ext_reset_limits :: "external \<Rightarrow> external" where
  "ext_reset_limits x = xcall Reset_limits x"

section \<open>Literals\<close>

text \<open>The internal literal of an external one whose variable has a number, 0 when it has none.\<close>

definition ilit_of :: "int \<Rightarrow> external \<Rightarrow> int" where
  "ilit_of elit x = (let ilit = e2i x ! nat \<bar>elit\<bar> in if elit < 0 then - ilit else ilit)"

text \<open>\<open>internalize\<close> gives a new internal variable to a variable that lost its own.\<close>

definition fresh_ilit :: "int \<Rightarrow> external \<Rightarrow> int \<times> external" where
  "fresh_ilit elit x =
     (let ilit = i_max_var (x_ivars x) + 1; eidx = nat \<bar>elit\<bar>;
          x = init_internal ilit x;
          x = x\<lparr>e2i := (e2i x)[eidx := int ilit], x_i2e := x_i2e x @ [int eidx]\<rparr>
      in (if elit < 0 then - int ilit else int ilit, x))"

definition activate_ilit :: "int \<Rightarrow> external \<Rightarrow> external option" where
  "activate_ilit ilit x =
     do { v \<leftarrow> (case flags_status ilit (x_ivars x) of
                UNUSED \<Rightarrow> mark_active ilit (x_ivars x)
              | ACTIVE \<Rightarrow> Some (x_ivars x)
              | FIXED \<Rightarrow> Some (x_ivars x)
              | _ \<Rightarrow> reactivate ilit (x_ivars x));
          Some (x\<lparr>x_ivars := v\<rparr>) }"

definition taint :: "int \<Rightarrow> external \<Rightarrow> external option" where
  "taint elit x =
     (if \<not> marked (tainted x) elit \<and> marked (witness x) (- elit)
      then (if o_checkfrozen (x_opts x) then None else Some (x\<lparr>tainted := mark (tainted x) elit\<rparr>))
      else Some x)"

definition internalize :: "int \<Rightarrow> external \<Rightarrow> (int \<times> external) option" where
  "internalize elit x =
     (if elit = 0 then Some (0, x)
      else if elit = int_min then None
      else
        do { let eidx = nat \<bar>elit\<bar>;
             x \<leftarrow> (if eidx > max_var x then init_var eidx x else Some x);
             let (ilit, x) = (let i = ilit_of elit x in if i = 0 then fresh_ilit elit x else (i, x));
             if o_checkfrozen (x_opts x) \<and> (eidx \<ge> length (moltentab x) \<or> moltentab x ! eidx) then None
             else do { x \<leftarrow> activate_ilit ilit x; x \<leftarrow> taint elit x; Some (ilit, x) } })"

definition ext_add :: "int \<Rightarrow> external \<Rightarrow> external option" where
  "ext_add elit x =
     (if elit = int_min then None
      else
        do { let x = reset_extended x;
             let os = x_opts x;
             let x = (if o_check os \<and> (o_checkwitness os \<or> o_checkfailed os) then x\<lparr>original := original x @ [elit]\<rparr> else x);
             (ilit, x) \<leftarrow> internalize elit x;
             if (elit = 0) \<noteq> (ilit = 0) then None else Some (xcall (Add_original ilit) x) })"

definition ext_assume :: "int \<Rightarrow> external \<Rightarrow> external option" where
  "ext_assume elit x =
     (if elit = 0 then None
      else
        do { let x = reset_extended x;
             let x = x\<lparr>assumptions := assumptions x @ [elit]\<rparr>;
             (ilit, x) \<leftarrow> internalize elit x;
             if ilit = 0 then None else Some (xcall (Assume_lit ilit) x) })"

text \<open>The state of the search decides which internal literals failed.\<close>

definition ext_failed :: "(int \<Rightarrow> bool) \<Rightarrow> int \<Rightarrow> external \<Rightarrow> bool option" where
  "ext_failed ifailed elit x =
     (if elit = 0 \<or> elit = int_min then None
      else if nat \<bar>elit\<bar> > max_var x then Some False
      else let ilit = ilit_of elit x in if ilit = 0 then Some False else Some (ifailed ilit))"

definition ext_constrain :: "int \<Rightarrow> external \<Rightarrow> external option" where
  "ext_constrain elit x =
     do { let x = (if xconstraint x \<noteq> [] \<and> last (xconstraint x) = 0 then ext_reset_constraint x else x);
          if elit = int_min then None
          else
            do { let x = reset_extended x;
                 let x = x\<lparr>xconstraint := xconstraint x @ [elit]\<rparr>;
                 (ilit, x) \<leftarrow> internalize elit x;
                 if (elit = 0) \<noteq> (ilit = 0) then None else Some (xcall (Constrain_lit ilit) x) } }"

definition ext_phase :: "int \<Rightarrow> external \<Rightarrow> external option" where
  "ext_phase elit x =
     (if elit = 0 \<or> elit = int_min then None
      else if nat \<bar>elit\<bar> > max_var x then Some x
      else let ilit = ilit_of elit x in if ilit = 0 then Some x else Some (xcall (Phase_lit ilit) x))"

definition ext_unphase :: "int \<Rightarrow> external \<Rightarrow> external option" where
  "ext_unphase elit x =
     (if elit = 0 \<or> elit = int_min then None
      else if nat \<bar>elit\<bar> > max_var x then Some x
      else let ilit = ilit_of elit x in if ilit = 0 then Some x else Some (xcall (Unphase_lit ilit) x))"

section \<open>The two numberings\<close>

text \<open>
  Every external variable has at most one internal literal, inside the range of the internal variables, and the way back
  leads to the external variable again. Variables that are fixed at the root level are left out of the second part:
  \<open>compact\<close> gives all of them the same internal variable.
\<close>

definition numbered :: "external \<Rightarrow> bool" where
  "numbered x =
     (stats_ok (x_ivars x) \<and> length (x_ifrozen x) = i_max_var (x_ivars x) + 1 \<and>
      (if max_var x = 0 then e2i x = [] \<and> x_i2e x = [] \<and> i_max_var (x_ivars x) = 0
       else length (e2i x) = max_var x + 1 \<and> length (x_i2e x) = i_max_var (x_ivars x) + 1 \<and> max_var x < x_vsize x) \<and>
      (\<forall>e. 0 < e \<and> e \<le> max_var x \<longrightarrow> nat \<bar>e2i x ! e\<bar> \<le> i_max_var (x_ivars x) \<and>
         (e2i x ! e \<noteq> 0 \<and> flags_status (e2i x ! e) (x_ivars x) \<noteq> FIXED \<longrightarrow>
            x_i2e x ! nat \<bar>e2i x ! e\<bar> = sgn (e2i x ! e) * int e)))"

text \<open>Numbers that were given stay, and a fixed variable stays fixed.\<close>

definition extends :: "external \<Rightarrow> external \<Rightarrow> bool" where
  "extends x x' =
     (max_var x \<le> max_var x' \<and> i_max_var (x_ivars x) \<le> i_max_var (x_ivars x') \<and> x_opts x' = x_opts x \<and>
      extension x' = extension x \<and> witness x' = witness x \<and> x_calls x' = x_calls x \<and> vals x' = vals x \<and> extended x' = extended x \<and>
      frozentab x' = frozentab x \<and> assumptions x' = assumptions x \<and> xconstraint x' = xconstraint x \<and> original x' = original x \<and>
      (\<forall>e. 0 < e \<and> e \<le> max_var x \<and> e2i x ! e \<noteq> 0 \<longrightarrow> e2i x' ! e = e2i x ! e))"

lemma extends_refl [simp]: "extends x x"
  by (simp add: extends_def)

lemma extends_trans: "extends x y \<Longrightarrow> extends y z \<Longrightarrow> extends x z"
  unfolding extends_def by (auto; metis le_trans)

lemma extends_ilit_of:
  "extends x x' \<Longrightarrow> l \<noteq> 0 \<Longrightarrow> nat \<bar>l\<bar> \<le> max_var x \<Longrightarrow> ilit_of l x \<noteq> 0 \<Longrightarrow> ilit_of l x' = ilit_of l x"
  by (simp add: extends_def ilit_of_def Let_def split: if_splits)

lemma numbered_new: "numbered (external_new os)"
  by (simp add: numbered_def external_new_def stats_ok_new) (simp add: ivars_new_def)

lemma init_loop_eq:
  "length e = eidx \<Longrightarrow> length i = iidx \<Longrightarrow>
   init_loop n eidx iidx e i = Some (e @ map int [iidx..<iidx + n], i @ map int [eidx..<eidx + n])"
proof (induction n arbitrary: eidx iidx e i)
  case (Suc n)
  then show ?case using upt_conv_Cons [of iidx "iidx + Suc n"] upt_conv_Cons [of eidx "eidx + Suc n"] by simp
qed simp

lemma grow_size_bounds:
  "0 < n \<Longrightarrow> m < grow_size n m \<and> n \<le> grow_size n m \<and> grow_size n m \<le> max n (2 * m)"
proof (induction n m rule: grow_size.induct)
  case (1 n m)
  show ?case
  proof (cases "n \<le> m")
    case True
    then have "grow_size n m = grow_size (n * 2) m" using 1(2) by (subst grow_size.simps) simp
    moreover have "n * 2 \<le> 2 * m" using True by simp
    ultimately show ?thesis using 1 True by auto
  next
    case False
    then have "grow_size n m = n" by (subst grow_size.simps) simp
    then show ?thesis using False by simp
  qed
qed

lemma i_max_init [simp]: "i_max_var (init_vars n v) = max n (i_max_var v)"
  by (simp add: init_vars_def Let_def)

lemma flags_init_old [simp]:
  "stats_ok v \<Longrightarrow> nat \<bar>l\<bar> \<le> i_max_var v \<Longrightarrow> flags_status l (init_vars n v) = flags_status l v"
  by (simp add: init_vars_def flags_status_def Let_def nth_append stats_ok_def)

text \<open>The tables behind the two numberings, with the entry 0 that the first variable brings.\<close>

definition e_table :: "external \<Rightarrow> int list" where
  "e_table x = (if max_var x = 0 then [0] else e2i x)"

definition i_table :: "external \<Rightarrow> int list" where
  "i_table x = (if max_var x = 0 then [0] else x_i2e x)"

lemma tables_length:
  "numbered x \<Longrightarrow> length (e_table x) = max_var x + 1 \<and> length (i_table x) = i_max_var (x_ivars x) + 1"
  by (simp add: numbered_def e_table_def i_table_def split: if_splits)

definition next_vsize :: "nat \<Rightarrow> external \<Rightarrow> nat" where
  "next_vsize n x =
     (if n \<ge> x_vsize x then grow_size (if x_vsize x \<noteq> 0 then 2 * x_vsize x else 1 + n) n else x_vsize x)"

definition next_molten :: "nat \<Rightarrow> external \<Rightarrow> bool list" where
  "next_molten n x =
     (if o_checkfrozen (x_opts x) \<and> n \<ge> length (moltentab x)
      then moltentab x @ replicate (1 + n - length (moltentab x)) False else moltentab x)"

lemma next_vsize_gt: "n < next_vsize n x"
  using grow_size_bounds [of "if x_vsize x \<noteq> 0 then 2 * x_vsize x else 1 + n" n] by (simp add: next_vsize_def)

lemma init_var_eq:
  assumes "numbered x" "\<not> extended x" "max_var x < n"
  defines "I \<equiv> i_max_var (x_ivars x)" and "d \<equiv> n - max_var x"
  shows "init_var n x = Some (x\<lparr>x_ivars := init_vars (I + d) (x_ivars x),
     x_ifrozen := x_ifrozen x @ replicate d 0, x_vsize := next_vsize n x, e2i := e_table x @ map int [I + 1..<I + 1 + d],
     x_i2e := i_table x @ map int [max_var x + 1..<n + 1], moltentab := next_molten n x, max_var := n\<rparr>)"
proof -
  note len = tables_length [OF assms(1)]
  have nd: "max_var x + 1 + d = n + 1" using assms(3) d_def by simp
  have loop: "init_loop d (max_var x + 1) (I + 1) (e_table x) (i_table x) =
      Some (e_table x @ map int [I + 1..<I + 1 + d], i_table x @ map int [max_var x + 1..<n + 1])"
    using init_loop_eq [of "e_table x" "max_var x + 1" "i_table x" "I + 1" d] len nd by (simp add: I_def del: upt_Suc)
  have size: "(if n \<ge> x_vsize y then enlarge n y else Some y) = Some (y\<lparr>x_vsize := next_vsize n y\<rparr>)"
    if "\<not> extended y" for y
    using that by (cases y) (simp add: enlarge_def next_vsize_def)
  let ?y = "init_internal (I + d) x"
  let ?z = "?y\<lparr>x_vsize := next_vsize n x\<rparr>"
  have enl: "(if n \<ge> x_vsize ?y then enlarge n ?y else Some ?y) = Some ?z"
    using size [of ?y] assms(2) by (simp add: init_internal_def next_vsize_def)
  have tabs: "init_tables I ?z = Some (e_table x, i_table x)"
    using assms(1) by (auto simp: init_tables_def init_internal_def numbered_def e_table_def i_table_def I_def split: if_splits)
  have z: "max_var ?z = max_var x" "x_opts ?z = x_opts x" "moltentab ?z = moltentab x" by (simp_all add: init_internal_def)
  have "init_var n x = Some (?z\<lparr>e2i := e_table x @ map int [I + 1..<I + 1 + d],
      x_i2e := i_table x @ map int [max_var x + 1..<n + 1], moltentab := next_molten n x, max_var := n\<rparr>)"
    unfolding init_var_def Let_def I_def [symmetric] d_def [symmetric] enl
    using assms(2,3)
    by (simp only: bind.bind_lunit tabs z loop prod.case if_False linorder_not_le if_True next_molten_def simp_thms flip: d_def) auto
  then show ?thesis by (simp add: init_internal_def I_def)
qed

lemma init_var_ok:
  assumes "numbered x" "\<not> extended x" "max_var x < n"
  obtains x' where "init_var n x = Some x'" "numbered x'" "extends x x'" "max_var x' = n" "tainted x' = tainted x"
    "\<And>e. max_var x < e \<Longrightarrow> e \<le> n \<Longrightarrow> e2i x' ! e = int (i_max_var (x_ivars x) + (e - max_var x))"
proof -
  let ?I = "i_max_var (x_ivars x)"
  let ?d = "n - max_var x"
  define x' where "x' = x\<lparr>x_ivars := init_vars (?I + ?d) (x_ivars x), x_ifrozen := x_ifrozen x @ replicate ?d 0,
     x_vsize := next_vsize n x, e2i := e_table x @ map int [?I + 1..<?I + 1 + ?d],
     x_i2e := i_table x @ map int [max_var x + 1..<n + 1], moltentab := next_molten n x, max_var := n\<rparr>"
  note len = tables_length [OF assms(1)]
  have st: "stats_ok (x_ivars x)" using assms(1) by (simp add: numbered_def)
  have new: "e2i x' ! e = int (?I + (e - max_var x))" if "max_var x < e" "e \<le> n" for e
    using that len by (simp add: x'_def nth_append del: upt_Suc)
  have new_i: "x_i2e x' ! i = int (max_var x + (i - ?I))" if "?I < i" "i \<le> ?I + ?d" for i
    using that len assms(3) by (simp add: x'_def nth_append del: upt_Suc)
  have old: "e2i x' ! e = e2i x ! e" if "0 < e" "e \<le> max_var x" for e
    using that len by (simp add: x'_def nth_append e_table_def split: if_splits)
  have old_i: "x_i2e x' ! i = x_i2e x ! i" if "i \<le> ?I" "0 < max_var x" for i
    using that len by (simp add: x'_def nth_append i_table_def split: if_splits)
  have I': "i_max_var (x_ivars x') = ?I + ?d" by (simp add: x'_def)
  have inv: "nat \<bar>e2i x' ! e\<bar> \<le> i_max_var (x_ivars x') \<and> (e2i x' ! e \<noteq> 0 \<and> flags_status (e2i x' ! e) (x_ivars x') \<noteq> FIXED \<longrightarrow>
      x_i2e x' ! nat \<bar>e2i x' ! e\<bar> = sgn (e2i x' ! e) * int e)" if "0 < e" "e \<le> n" for e
  proof (cases "e \<le> max_var x")
    case True
    then have "nat \<bar>e2i x ! e\<bar> \<le> ?I" using assms(1) that by (simp add: numbered_def)
    then show ?thesis using assms(1) True that st by (simp add: old old_i I') (simp add: x'_def numbered_def)
  next
    case False
    then show ?thesis using that by (simp add: new I' new_i)
  qed
  have fld: "max_var x' = n" "length (e2i x') = n + 1" "length (x_i2e x') = ?I + ?d + 1" "length (x_ifrozen x') = ?I + ?d + 1"
      "n < x_vsize x'" "stats_ok (x_ivars x')"
    using len assms(1,3) next_vsize_gt [of n x] stats_ok_init_vars [OF st] by (simp_all add: x'_def numbered_def)
  have "numbered x'" unfolding numbered_def using inv fld I' assms(3) by simp
  moreover have "extends x x'" using old assms(3) by (simp add: extends_def I') (simp add: x'_def)
  moreover have "init_var n x = Some x'" unfolding x'_def by (rule init_var_eq [OF assms])
  moreover have "tainted x' = tainted x" by (simp add: x'_def)
  ultimately show ?thesis using that new fld(1) by blast
qed

lemma fresh_ilit_ok:
  assumes "numbered x" "l \<noteq> 0" "nat \<bar>l\<bar> \<le> max_var x" "ilit_of l x = 0" "fresh_ilit l x = (ilit, x')"
  shows "numbered x'" "extends x x'" "ilit_of l x' = ilit" "ilit \<noteq> 0" "nat \<bar>ilit\<bar> \<le> i_max_var (x_ivars x')"
    "max_var x' = max_var x" "tainted x' = tainted x"
proof -
  let ?e = "nat \<bar>l\<bar>" and ?I = "i_max_var (x_ivars x)"
  have x': "x' = x\<lparr>x_ivars := init_vars (?I + 1) (x_ivars x), x_ifrozen := x_ifrozen x @ [0],
      e2i := (e2i x)[?e := int (?I + 1)], x_i2e := x_i2e x @ [int ?e]\<rparr>"
    and il: "ilit = (if l < 0 then - int (?I + 1) else int (?I + 1))"
    using assms(5) by (auto simp: fresh_ilit_def Let_def init_internal_def)
  have nz: "0 < max_var x" and e: "0 < ?e" "?e < length (e2i x)" and st: "stats_ok (x_ivars x)"
    and zero: "e2i x ! ?e = 0"
    using assms(1-4) by (auto simp: numbered_def ilit_of_def Let_def split: if_splits)
  have len: "length (x_i2e x) = ?I + 1" using assms(1) nz by (simp add: numbered_def)
  show "numbered x'" unfolding numbered_def
  proof (intro conjI allI impI)
    fix e assume r: "0 < e \<and> e \<le> max_var x'"
    then have old: "nat \<bar>e2i x ! e\<bar> \<le> ?I" "e2i x ! e \<noteq> 0 \<Longrightarrow> flags_status (e2i x ! e) (x_ivars x) \<noteq> FIXED \<Longrightarrow>
        x_i2e x ! nat \<bar>e2i x ! e\<bar> = sgn (e2i x ! e) * int e"
      using assms(1) by (simp_all add: x' numbered_def)
    show "nat \<bar>e2i x' ! e\<bar> \<le> i_max_var (x_ivars x')" using old(1) e by (cases "e = ?e") (simp_all add: x')
    show "x_i2e x' ! nat \<bar>e2i x' ! e\<bar> = sgn (e2i x' ! e) * int e"
      if "e2i x' ! e \<noteq> 0 \<and> flags_status (e2i x' ! e) (x_ivars x') \<noteq> FIXED"
    proof (cases "e = ?e")
      case True
      moreover have "nat \<bar>int (?I + 1)\<bar> = length (x_i2e x)" using len by simp
      ultimately show ?thesis using e by (simp add: x' del: nat_int of_nat_add of_nat_Suc)
    next
      case False
      then show ?thesis using old e len that st by (simp add: x' nth_append)
    qed
  qed (use assms(1) stats_ok_init_vars [OF st] nz in \<open>simp_all add: x' numbered_def\<close>)
  show "extends x x'" using zero by (auto simp: extends_def x') (metis nth_list_update_neq)
  show "ilit_of l x' = ilit" using e by (simp add: ilit_of_def x' il)
  show "ilit \<noteq> 0" "nat \<bar>ilit\<bar> \<le> i_max_var (x_ivars x')" "max_var x' = max_var x" "tainted x' = tainted x"
    by (simp_all add: il x' nat_le_iff)
qed

lemma activate_ilit_ok:
  assumes "numbered x" "i \<noteq> 0" "nat \<bar>i\<bar> \<le> i_max_var (x_ivars x)"
  obtains v where "activate_ilit i x = Some (x\<lparr>x_ivars := v\<rparr>)" "numbered (x\<lparr>x_ivars := v\<rparr>)" "i_max_var v = i_max_var (x_ivars x)"
    "flags_status i v \<in> {ACTIVE, FIXED}"
proof -
  let ?v = "x_ivars x"
  have st: "stats_ok ?v" and h: "has_var i ?v" using assms by (simp_all add: numbered_def has_var_def)
  have k: "nat \<bar>i\<bar> < length (i_status ?v)" using st assms(3) by (simp add: stats_ok_def)
  show ?thesis
  proof (cases "flags_status i ?v \<in> {ACTIVE, FIXED}")
    case True
    then have "activate_ilit i x = Some (x\<lparr>x_ivars := ?v\<rparr>)" by (auto simp: activate_ilit_def)
    then show ?thesis using that [of ?v] assms(1) True by simp
  next
    case False
    define r where "r = (if flags_status i ?v = UNUSED then mark_active i ?v else reactivate i ?v)"
    have "becomes i ACTIVE ?v r"
      using mark_active_ok [OF st h] reactivate_ok [OF st h] False by (cases "flags_status i ?v") (simp_all add: r_def)
    then obtain v where v: "r = Some v" "stats_ok v" "i_status v = (i_status ?v)[nat \<bar>i\<bar> := ACTIVE]" "i_max_var v = i_max_var ?v"
      by (auto simp: becomes_def split: option.splits)
    have "activate_ilit i x = Some (x\<lparr>x_ivars := v\<rparr>)"
      using v(1) False by (cases "flags_status i ?v") (simp_all add: activate_ilit_def r_def)
    moreover have "flags_status i v = ACTIVE" using v(3) k by (simp add: flags_status_def)
    moreover have "flags_status j v \<noteq> FIXED \<Longrightarrow> flags_status j ?v \<noteq> FIXED" for j
      using False v(3) k by (cases "nat \<bar>j\<bar> = nat \<bar>i\<bar>") (simp_all add: flags_status_def nth_list_update)
    then have "numbered (x\<lparr>x_ivars := v\<rparr>)" using assms(1) v by (simp add: numbered_def)
    ultimately show ?thesis using that v(4) by simp
  qed
qed

lemma numbered_ivars_extends:
  "numbered (x\<lparr>x_ivars := v\<rparr>) \<Longrightarrow> i_max_var v = i_max_var (x_ivars x) \<Longrightarrow> extends x (x\<lparr>x_ivars := v\<rparr>)"
  by (simp add: extends_def)

lemma numbered_tainted [simp]: "numbered (x\<lparr>tainted := t\<rparr>) = numbered x"
  by (simp add: numbered_def)

text \<open>
  \<open>internalize\<close> always succeeds: the literal gets an active internal literal, other numbers stay, and the literal is
  tainted exactly if its negation is a witness.
\<close>

lemma internalize_ok:
  assumes "numbered x" "\<not> extended x" "\<not> o_checkfrozen (x_opts x)" "l \<noteq> 0" "l \<noteq> int_min"
  obtains i x' where "internalize l x = Some (i, x')" "numbered x'" "extends x x'" "i = ilit_of l x'" "i \<noteq> 0"
    "max_var x' = max (max_var x) (nat \<bar>l\<bar>)" "nat \<bar>i\<bar> \<le> i_max_var (x_ivars x')"
    "flags_status i (x_ivars x') \<in> {ACTIVE, FIXED}"
    "\<And>k. k \<noteq> 0 \<Longrightarrow> marked (tainted x') k = (marked (tainted x) k \<or> k = l \<and> marked (witness x) (- l))"
proof -
  let ?e = "nat \<bar>l\<bar>"
  obtain y where y: "(if ?e > max_var x then init_var ?e x else Some x) = Some y" "numbered y" "extends x y"
      "max_var y = max (max_var x) ?e" "tainted y = tainted x"
  proof (cases "?e > max_var x")
    case True
    then obtain y where "init_var ?e x = Some y" "numbered y" "extends x y" "max_var y = ?e" "tainted y = tainted x"
      using init_var_ok [OF assms(1,2) True] by metis
    then show ?thesis using that True by simp
  qed (use that assms(1) in simp)
  obtain i z where z: "(let i = ilit_of l y in if i = 0 then fresh_ilit l y else (i, y)) = (i, z)" "numbered z" "extends y z"
      "ilit_of l z = i" "i \<noteq> 0" "nat \<bar>i\<bar> \<le> i_max_var (x_ivars z)" "max_var z = max_var y" "tainted z = tainted y"
  proof (cases "ilit_of l y = 0")
    case True
    obtain i z where f: "fresh_ilit l y = (i, z)" by (cases "fresh_ilit l y")
    have "?e \<le> max_var y" using y(4) by simp
    from fresh_ilit_ok [OF y(2) assms(4) this True f] show ?thesis using that f True by simp
  next
    case False
    have "nat \<bar>ilit_of l y\<bar> \<le> i_max_var (x_ivars y)" using y(2,4) assms(4) by (simp add: numbered_def ilit_of_def Let_def)
    then show ?thesis using that [of "ilit_of l y" y] False y(2) by (simp add: Let_def)
  qed
  obtain v where v: "activate_ilit i z = Some (z\<lparr>x_ivars := v\<rparr>)" "numbered (z\<lparr>x_ivars := v\<rparr>)" "i_max_var v = i_max_var (x_ivars z)"
      "flags_status i v \<in> {ACTIVE, FIXED}"
    by (rule activate_ilit_ok [OF z(2,5,6)])
  define t where "t = (if \<not> marked (tainted x) l \<and> marked (witness x) (- l) then mark (tainted x) l else tainted x)"
  let ?w = "z\<lparr>x_ivars := v, tainted := t\<rparr>"
  have ext: "extends x z" using extends_trans y(3) z(3) by blast
  then have o: "x_opts z = x_opts x" "witness z = witness x" "tainted z = tainted x" using y(5) z(8) by (simp_all add: extends_def)
  have "taint l (z\<lparr>x_ivars := v\<rparr>) = Some ?w" using assms(3) o by (auto simp: taint_def t_def)
  then have "internalize l x = Some (i, ?w)"
    using y(1) z(1) v(1) assms(3-5) o(1) by (simp add: internalize_def Let_def del: bind_Some_iff)
  moreover have "numbered ?w" using v(2) by (simp only: numbered_tainted)
  moreover have "extends x ?w" using ext v(3) by (simp add: extends_def)
  moreover have "i = ilit_of l ?w" using z(4) by (simp add: ilit_of_def)
  moreover have "marked (tainted ?w) k = (marked (tainted x) k \<or> k = l \<and> marked (witness x) (- l))" if "k \<noteq> 0" for k
    using that assms(4) by (auto simp: t_def marks.look_mk)
  ultimately show ?thesis using that [of i ?w] z(5-7) y(4) v(3,4) by simp
qed

text \<open>The way back from the internal literal.\<close>

lemma externalize_ilit_of:
  assumes "numbered x" "l \<noteq> 0" "nat \<bar>l\<bar> \<le> max_var x" "ilit_of l x \<noteq> 0" "flags_status (ilit_of l x) (x_ivars x) \<noteq> FIXED"
    "i_max_var (x_ivars x) < 2 ^ 31"
  shows "externalize (ilit_of l x) x = Some l"
proof -
  define i where "i = e2i x ! nat \<bar>l\<bar>"
  define e where "e = x_i2e x ! nat \<bar>i\<bar>"
  have il: "ilit_of l x = (if l < 0 then - i else i)" by (simp add: ilit_of_def i_def)
  then have nz: "i \<noteq> 0" and fl: "flags_status i (x_ivars x) \<noteq> FIXED"
    using assms(4,5) by (auto simp: flags_status_def split: if_splits)
  have r: "nat \<bar>i\<bar> \<le> i_max_var (x_ivars x)" and bk: "e = sgn i * \<bar>l\<bar>"
    using assms(1-3) nz fl unfolding i_def e_def numbered_def by simp_all
  have "\<bar>i\<bar> < 2 ^ 31" using r assms(6) by simp
  then have mn: "i \<noteq> int_min" "- i \<noteq> int_min" by (auto simp: int_min_def)
  have "externalize i x = Some (if i < 0 then - e else e)" "externalize (- i) x = Some (if i < 0 then e else - e)"
    using nz mn r by (simp_all add: externalize_def e_def)
  then show ?thesis using il bk nz by (cases "i < 0"; cases "l < 0") (simp_all add: sgn_if)
qed

section \<open>Adding clauses and assumptions\<close>

text \<open>The calls of the interface for one clause.\<close>

fun ext_add_all :: "int list \<Rightarrow> external \<Rightarrow> external option" where
  "ext_add_all [] x = Some x"
| "ext_add_all (l # ls) x = do { x \<leftarrow> ext_add l x; ext_add_all ls x }"

text \<open>The state of the layer between two calls, with the options for checking switched off.\<close>

definition plain_opts :: "external \<Rightarrow> bool" where
  "plain_opts x = (\<not> o_check (x_opts x) \<and> \<not> o_checkfrozen (x_opts x))"

lemma numbered_frame [simp]:
  "numbered (reset_extended x) = numbered x" "numbered (xcall c x) = numbered x"
  "numbered (x\<lparr>assumptions := as\<rparr>) = numbered x" "numbered (x\<lparr>xconstraint := cs\<rparr>) = numbered x"
  "numbered (x\<lparr>frozentab := fs\<rparr>) = numbered x" "numbered (x\<lparr>original := os\<rparr>) = numbered x"
  by (simp_all add: numbered_def reset_extended_def xcall_def)

lemma ilit_of_frame [simp]:
  "ilit_of l (reset_extended x) = ilit_of l x" "ilit_of l (xcall c x) = ilit_of l x"
  "ilit_of l (x\<lparr>assumptions := as\<rparr>) = ilit_of l x" "ilit_of l (x\<lparr>xconstraint := cs\<rparr>) = ilit_of l x"
  by (simp_all add: ilit_of_def reset_extended_def xcall_def)

lemma reset_extended_simps [simp]:
  "\<not> extended (reset_extended x)" "x_calls (reset_extended x) = x_calls x" "x_opts (reset_extended x) = x_opts x"
  "max_var (reset_extended x) = max_var x" "x_ivars (reset_extended x) = x_ivars x" "e2i (reset_extended x) = e2i x"
  "assumptions (reset_extended x) = assumptions x" "tainted (reset_extended x) = tainted x" "witness (reset_extended x) = witness x"
  "extension (reset_extended x) = extension x" "frozentab (reset_extended x) = frozentab x" "xconstraint (reset_extended x) = xconstraint x"
  "x_ifrozen (reset_extended x) = x_ifrozen x" "x_i2e (reset_extended x) = x_i2e x" "vals (reset_extended x) = vals x"
  "original (reset_extended x) = original x"
  by (simp_all add: reset_extended_def)

lemma xcall_simps [simp]:
  "x_calls (xcall c x) = x_calls x @ [c]" "x_opts (xcall c x) = x_opts x" "max_var (xcall c x) = max_var x"
  "x_ivars (xcall c x) = x_ivars x" "e2i (xcall c x) = e2i x" "extended (xcall c x) = extended x" "witness (xcall c x) = witness x"
  "assumptions (xcall c x) = assumptions x" "tainted (xcall c x) = tainted x" "extension (xcall c x) = extension x"
  "frozentab (xcall c x) = frozentab x" "xconstraint (xcall c x) = xconstraint x" "x_ifrozen (xcall c x) = x_ifrozen x"
  "x_i2e (xcall c x) = x_i2e x" "vals (xcall c x) = vals x" "original (xcall c x) = original x"
  by (simp_all add: xcall_def)

text \<open>What an operation may change besides the calls: numbers are only added.\<close>

definition xgrows :: "external \<Rightarrow> external \<Rightarrow> bool" where
  "xgrows x x' = (max_var x \<le> max_var x' \<and> x_opts x' = x_opts x \<and> extension x' = extension x \<and> witness x' = witness x \<and>
     frozentab x' = frozentab x \<and> (\<forall>e. 0 < e \<and> e \<le> max_var x \<and> e2i x ! e \<noteq> 0 \<longrightarrow> e2i x' ! e = e2i x ! e) \<and>
     (\<forall>k. k \<noteq> 0 \<and> marked (tainted x) k \<longrightarrow> marked (tainted x') k))"

lemma xgrows_refl [simp]: "xgrows x x"
  by (simp add: xgrows_def)

lemma xgrows_trans: "xgrows x y \<Longrightarrow> xgrows y z \<Longrightarrow> xgrows x z"
  unfolding xgrows_def by (auto; metis le_trans)

lemma xgrows_ilit_of:
  "xgrows x x' \<Longrightarrow> l \<noteq> 0 \<Longrightarrow> nat \<bar>l\<bar> \<le> max_var x \<Longrightarrow> ilit_of l x \<noteq> 0 \<Longrightarrow> ilit_of l x' = ilit_of l x"
  by (simp add: xgrows_def ilit_of_def Let_def split: if_splits)

text \<open>A literal that has an internal literal, which the search may use.\<close>

definition usable :: "external \<Rightarrow> int \<Rightarrow> bool" where
  "usable x l = (l \<noteq> 0 \<and> nat \<bar>l\<bar> \<le> max_var x \<and> ilit_of l x \<noteq> 0 \<and> (marked (witness x) (- l) \<longrightarrow> marked (tainted x) l))"

lemma usable_xgrows: "usable x l \<Longrightarrow> xgrows x x' \<Longrightarrow> usable x' l \<and> ilit_of l x' = ilit_of l x"
  using xgrows_ilit_of [of x x' l] unfolding usable_def xgrows_def by auto

lemma internalize_xgrows:
  assumes "numbered x" "\<not> extended x" "\<not> o_checkfrozen (x_opts x)" "l \<noteq> 0" "l \<noteq> int_min"
  obtains x' where "internalize l x = Some (ilit_of l x', x')" "numbered x'" "xgrows x x'" "usable x' l" "x_calls x' = x_calls x"
    "assumptions x' = assumptions x" "xconstraint x' = xconstraint x" "\<not> extended x'" "frozentab x' = frozentab x"
    "max_var x' = max (max_var x) (nat \<bar>l\<bar>)" "flags_status (ilit_of l x') (x_ivars x') \<in> {ACTIVE, FIXED}"
proof -
  obtain i x' where r: "internalize l x = Some (i, x')" "numbered x'" "extends x x'" "i = ilit_of l x'" "i \<noteq> 0"
      "max_var x' = max (max_var x) (nat \<bar>l\<bar>)" "flags_status i (x_ivars x') \<in> {ACTIVE, FIXED}"
      "\<And>k. k \<noteq> 0 \<Longrightarrow> marked (tainted x') k = (marked (tainted x) k \<or> k = l \<and> marked (witness x) (- l))"
    using internalize_ok [OF assms] by metis
  have "xgrows x x'" using r(3,8) unfolding xgrows_def extends_def by auto
  moreover have "usable x' l" using r(3-6,8) assms(4) by (auto simp: usable_def extends_def)
  ultimately show ?thesis using that [of x'] r assms(2) by (simp add: extends_def)
qed

lemma ext_add_ok:
  assumes "numbered x" "plain_opts x" "l \<noteq> int_min"
  obtains x' where "ext_add l x = Some x'" "numbered x'" "xgrows x x'" "l \<noteq> 0 \<Longrightarrow> usable x' l"
    "x_calls x' = x_calls x @ [Add_original (if l = 0 then 0 else ilit_of l x')]" "\<not> extended x'"
    "assumptions x' = assumptions x"
proof (cases "l = 0")
  case True
  let ?x = "xcall (Add_original 0) (reset_extended x)"
  have "ext_add l x = Some ?x"
    using True assms(2) by (simp add: ext_add_def internalize_def plain_opts_def Let_def int_min_def del: bind_Some_iff)
  moreover have "xgrows x ?x" by (simp add: xgrows_def)
  ultimately show ?thesis using that [of ?x] assms(1) True by simp
next
  case False
  have pre: "numbered (reset_extended x)" "\<not> extended (reset_extended x)" "\<not> o_checkfrozen (x_opts (reset_extended x))"
    using assms(1,2) by (simp_all add: plain_opts_def)
  obtain y where y: "internalize l (reset_extended x) = Some (ilit_of l y, y)" "numbered y" "xgrows (reset_extended x) y" "usable y l"
      "x_calls y = x_calls (reset_extended x)" "\<not> extended y" "assumptions y = assumptions (reset_extended x)"
    using internalize_xgrows [OF pre False assms(3)] by metis
  let ?x = "xcall (Add_original (ilit_of l y)) y"
  have "ext_add l x = Some ?x"
    using y(1,4) False assms(2,3) by (simp add: ext_add_def plain_opts_def Let_def usable_def del: bind_Some_iff)
  moreover have "xgrows x ?x" "usable ?x l" using y(3,4) by (simp_all add: xgrows_def usable_def)
  ultimately show ?thesis using that [of ?x] y(2,5-7) False by simp
qed

lemma ext_assume_ok:
  assumes "numbered x" "plain_opts x" "l \<noteq> int_min" "l \<noteq> 0"
  obtains x' where "ext_assume l x = Some x'" "numbered x'" "xgrows x x'" "usable x' l" "\<not> extended x'"
    "x_calls x' = x_calls x @ [Assume_lit (ilit_of l x')]" "assumptions x' = assumptions x @ [l]"
proof -
  let ?r = "(reset_extended x)\<lparr>assumptions := assumptions x @ [l]\<rparr>"
  have pre: "numbered ?r" "\<not> extended ?r" "\<not> o_checkfrozen (x_opts ?r)" using assms(1,2) by (simp_all add: plain_opts_def)
  obtain y where y: "internalize l ?r = Some (ilit_of l y, y)" "numbered y" "xgrows ?r y" "usable y l"
      "x_calls y = x_calls ?r" "\<not> extended y" "assumptions y = assumptions ?r"
    using internalize_xgrows [OF pre assms(4,3)] by metis
  let ?x = "xcall (Assume_lit (ilit_of l y)) y"
  have "ext_assume l x = Some ?x"
    using y(1,4) assms(4) by (simp add: ext_assume_def Let_def usable_def del: bind_Some_iff)
  moreover have "xgrows x ?x" "usable ?x l" using y(3,4) by (simp_all add: xgrows_def usable_def)
  ultimately show ?thesis using that [of ?x] y(2,5-7) by simp
qed

lemma plain_opts_xgrows: "xgrows x x' \<Longrightarrow> plain_opts x' = plain_opts x"
  by (simp add: xgrows_def plain_opts_def)

text \<open>
  A clause reaches the search literal by literal; afterwards every literal of it has the internal literal that was
  passed on, and a literal whose negation is a witness on the extension stack is tainted, so that the next
  \<open>solve\<close> restores the clauses that need it.
\<close>

lemma ext_add_all_ok:
  assumes "numbered x" "plain_opts x" "int_min \<notin> set ls"
  obtains x' where "ext_add_all ls x = Some x'" "numbered x'" "xgrows x x'" "\<forall>l \<in> set ls. l \<noteq> 0 \<longrightarrow> usable x' l"
    "x_calls x' = x_calls x @ map (\<lambda>l. Add_original (if l = 0 then 0 else ilit_of l x')) ls"
  using assms
proof (induction ls arbitrary: x thesis)
  case Nil
  then show ?case by simp
next
  case (Cons l ls)
  obtain y where y: "ext_add l x = Some y" "numbered y" "xgrows x y" "l \<noteq> 0 \<Longrightarrow> usable y l"
      "x_calls y = x_calls x @ [Add_original (if l = 0 then 0 else ilit_of l y)]"
    using ext_add_ok [of x l] Cons.prems(2-4) by auto
  have "plain_opts y" using y(3) Cons.prems(3) by (simp add: plain_opts_xgrows)
  then obtain z where z: "ext_add_all ls y = Some z" "numbered z" "xgrows y z" "\<forall>l \<in> set ls. l \<noteq> 0 \<longrightarrow> usable z l"
      "x_calls z = x_calls y @ map (\<lambda>l. Add_original (if l = 0 then 0 else ilit_of l z)) ls"
    using Cons.IH [of y] y(2) Cons.prems(4) by auto
  have l: "l \<noteq> 0 \<Longrightarrow> usable z l \<and> ilit_of l z = ilit_of l y" using usable_xgrows [OF y(4) z(3)] by blast
  show ?case
  proof (rule Cons.prems(1))
    show "ext_add_all (l # ls) x = Some z" using y(1) z(1) by simp
    show "xgrows x z" using xgrows_trans y(3) z(3) by blast
    show "\<forall>k \<in> set (l # ls). k \<noteq> 0 \<longrightarrow> usable z k" using z(4) l by simp
    show "x_calls z = x_calls x @ map (\<lambda>l. Add_original (if l = 0 then 0 else ilit_of l z)) (l # ls)" using y(5) z(5) l by simp
  qed (rule z(2))
qed

lemma ext_constrain_ok:
  assumes "numbered x" "plain_opts x" "l \<noteq> int_min"
  obtains x' where "ext_constrain l x = Some x'" "numbered x'" "xgrows x x'" "\<not> extended x'" "assumptions x' = assumptions x"
    "xconstraint x' = (if xconstraint x \<noteq> [] \<and> last (xconstraint x) = 0 then [l] else xconstraint x @ [l])"
proof -
  let ?c = "if xconstraint x \<noteq> [] \<and> last (xconstraint x) = 0 then ext_reset_constraint x else x"
  let ?r = "(reset_extended ?c)\<lparr>xconstraint := xconstraint ?c @ [l]\<rparr>"
  have pre: "numbered ?r" "\<not> extended ?r" "\<not> o_checkfrozen (x_opts ?r)"
    using assms(1,2) by (simp_all add: plain_opts_def ext_reset_constraint_def)
  have g: "xgrows x ?r" "assumptions ?r = assumptions x" by (simp_all add: xgrows_def ext_reset_constraint_def)
  have c: "xconstraint ?r = (if xconstraint x \<noteq> [] \<and> last (xconstraint x) = 0 then [l] else xconstraint x @ [l])"
    by (simp add: ext_reset_constraint_def)
  show ?thesis
  proof (cases "l = 0")
    case True
    let ?x = "xcall (Constrain_lit 0) ?r"
    have "ext_constrain l x = Some ?x"
      using True by (simp add: ext_constrain_def internalize_def Let_def int_min_def del: bind_Some_iff)
    moreover have "xgrows x ?x" using g(1) by (simp add: xgrows_def)
    ultimately show ?thesis using that [of ?x] pre g(2) c by simp
  next
    case False
    obtain y where y: "internalize l ?r = Some (ilit_of l y, y)" "numbered y" "xgrows ?r y" "usable y l" "\<not> extended y"
        "assumptions y = assumptions ?r" "xconstraint y = xconstraint ?r"
      using internalize_xgrows [OF pre False assms(3)] by metis
    let ?x = "xcall (Constrain_lit (ilit_of l y)) y"
    have "ext_constrain l x = Some ?x"
      using y(1,4) False assms(3) by (simp add: ext_constrain_def Let_def usable_def del: bind_Some_iff)
    moreover have "xgrows x ?x" using xgrows_trans [OF g(1) y(3)] by (simp add: xgrows_def)
    ultimately show ?thesis using that [of ?x] y(2,5-7) g(2) c by simp
  qed
qed

section \<open>Freezing\<close>

text \<open>Counters that stop at \<open>UINT_MAX\<close>: a variable that was frozen so often stays frozen.\<close>

definition ref_up :: "32 word \<Rightarrow> 32 word" where
  "ref_up r = (if r < - 1 then r + 1 else r)"

definition ref_down :: "32 word \<Rightarrow> 32 word" where
  "ref_down r = (if r < - 1 then r - 1 else r)"

definition int_freeze :: "int \<Rightarrow> external \<Rightarrow> external" where
  "int_freeze ilit x = (let idx = nat \<bar>ilit\<bar> in x\<lparr>x_ifrozen := (x_ifrozen x)[idx := ref_up (x_ifrozen x ! idx)]\<rparr>)"

definition int_melt :: "int \<Rightarrow> external \<Rightarrow> external" where
  "int_melt ilit x = (let idx = nat \<bar>ilit\<bar> in x\<lparr>x_ifrozen := (x_ifrozen x)[idx := ref_down (x_ifrozen x ! idx)]\<rparr>)"

definition ext_freeze :: "int \<Rightarrow> external \<Rightarrow> external option" where
  "ext_freeze elit x =
     do { (ilit, x) \<leftarrow> internalize elit (reset_extended x);
          eidx \<leftarrow> vidx elit x;
          let tab = (if eidx \<ge> length (frozentab x) then frozentab x @ replicate (eidx + 1 - length (frozentab x)) 0 else frozentab x);
          Some (int_freeze ilit (x\<lparr>frozentab := tab[eidx := ref_up (tab ! eidx)]\<rparr>)) }"

definition ext_melt :: "int \<Rightarrow> external \<Rightarrow> external option" where
  "ext_melt elit x =
     do { (ilit, x) \<leftarrow> internalize elit (reset_extended x);
          eidx \<leftarrow> vidx elit x;
          if eidx \<ge> length (frozentab x) \<or> frozentab x ! eidx = 0 then None
          else Some (int_melt ilit (x\<lparr>frozentab := (frozentab x)[eidx := ref_down (frozentab x ! eidx)]\<rparr>)) }"

definition ext_frozen :: "int \<Rightarrow> external \<Rightarrow> bool option" where
  "ext_frozen elit x =
     (if elit = 0 \<or> elit = int_min then None
      else let eidx = nat \<bar>elit\<bar>
           in Some (if eidx > max_var x then False else if eidx \<ge> length (frozentab x) then False else frozentab x ! eidx > 0))"

text \<open>How often a variable is frozen.\<close>

definition frozen_count :: "int \<Rightarrow> external \<Rightarrow> nat" where
  "frozen_count elit x = (let eidx = nat \<bar>elit\<bar> in if eidx < length (frozentab x) then unat (frozentab x ! eidx) else 0)"

lemma unat_max32: "unat (- 1 :: 32 word) = 2 ^ 32 - 1"
  by (simp add: unsigned_minus_1_eq_mask mask_eq_exp_minus_1)

lemma unat_below_max: "r \<noteq> (- 1 :: 32 word) \<Longrightarrow> unat r < 2 ^ 32 - 1"
  using unsigned_less [of r, where ?'a = nat] unat_max32 by (auto simp: word_unat_eq_iff)

lemma ref_up_unat: "unat (ref_up r) = min (unat r + 1) (2 ^ 32 - 1)"
proof (cases "r = - 1")
  case True
  then show ?thesis by (simp add: ref_up_def unat_max32)
next
  case False
  note lt = unat_below_max [OF False]
  then have "r < - 1" by (simp add: word_less_nat_alt unat_max32)
  moreover have "unat (r + 1) = unat r + 1" using lt by (simp add: unat_word_ariths)
  ultimately show ?thesis using lt by (simp add: ref_up_def)
qed

lemma ref_down_unat:
  assumes "0 < r"
  shows "unat (ref_down r) = (if unat r = 2 ^ 32 - 1 then unat r else unat r - 1)"
proof (cases "r = - 1")
  case True
  then show ?thesis by (simp add: ref_down_def unat_max32)
next
  case False
  note lt = unat_below_max [OF False]
  then have "r < - 1" by (simp add: word_less_nat_alt unat_max32)
  moreover have "r \<noteq> 0" using assms by auto
  then have "unat (r - 1) = unat r - 1" by (rule unat_minus_one)
  ultimately show ?thesis using lt by (simp add: ref_down_def)
qed

lemma frozen_iff: "l \<noteq> 0 \<Longrightarrow> l \<noteq> int_min \<Longrightarrow> length (frozentab x) \<le> max_var x + 1 \<Longrightarrow> ext_frozen l x = Some (0 < frozen_count l x)"
  by (auto simp: ext_frozen_def frozen_count_def Let_def unat_gt_0 word_neq_0_conv)

lemma int_freeze_frame [simp]:
  "x_opts (int_freeze i x) = x_opts x" "extension (int_freeze i x) = extension x"
  "x_opts (int_melt i x) = x_opts x" "extension (int_melt i x) = extension x"
  "numbered (int_freeze i x) = numbered x" "frozentab (int_freeze i x) = frozentab x" "max_var (int_freeze i x) = max_var x"
  "numbered (int_melt i x) = numbered x" "frozentab (int_melt i x) = frozentab x" "max_var (int_melt i x) = max_var x"
  by (simp_all add: int_freeze_def int_melt_def numbered_def Let_def)

text \<open>\<open>freeze\<close> counts up, \<open>melt\<close> counts down, and both leave the counters of other variables alone.\<close>

lemma ext_freeze_ok:
  assumes "numbered x" "plain_opts x" "l \<noteq> 0" "l \<noteq> int_min" "length (frozentab x) \<le> max_var x + 1"
  obtains x' where "ext_freeze l x = Some x'" "numbered x'" "length (frozentab x') \<le> max_var x' + 1"
    "x_opts x' = x_opts x" "extension x' = extension x" "max_var x \<le> max_var x'"
    "frozen_count l x' = min (frozen_count l x + 1) (2 ^ 32 - 1)"
    "\<And>k. nat \<bar>k\<bar> \<noteq> nat \<bar>l\<bar> \<Longrightarrow> frozen_count k x' = frozen_count k x"
proof -
  let ?r = "reset_extended x" and ?e = "nat \<bar>l\<bar>"
  have pre: "numbered ?r" "\<not> extended ?r" "\<not> o_checkfrozen (x_opts ?r)" using assms(1,2) by (simp_all add: plain_opts_def)
  obtain y where y': "internalize l ?r = Some (ilit_of l y, y)" "numbered y" "xgrows ?r y" "max_var y = max (max_var ?r) ?e"
    using internalize_xgrows [OF pre assms(3,4)] by metis
  then have y: "internalize l ?r = Some (ilit_of l y, y)" "numbered y" "frozentab y = frozentab x" "max_var y = max (max_var x) ?e"
      "x_opts y = x_opts x" "extension y = extension x"
    by (simp_all add: xgrows_def)
  define tab where "tab = (if ?e \<ge> length (frozentab x) then frozentab x @ replicate (?e + 1 - length (frozentab x)) 0 else frozentab x)"
  let ?x = "int_freeze (ilit_of l y) (y\<lparr>frozentab := tab[?e := ref_up (tab ! ?e)]\<rparr>)"
  have "vidx l y = Some ?e" using assms(3,4) y(4) by (simp add: vidx_def)
  then have "ext_freeze l x = Some ?x" using y(1,3) by (simp add: ext_freeze_def Let_def tab_def del: bind_Some_iff)
  note res = this
  have len: "?e < length tab" "length tab \<le> max_var y + 1" using assms(5) y(4) by (simp_all add: tab_def)
  have "frozen_count l x = unat (tab ! ?e)" by (auto simp: frozen_count_def tab_def Let_def nth_append)
  moreover have "frozen_count l ?x = unat (ref_up (tab ! ?e))" using len(1) by (simp add: frozen_count_def)
  ultimately have up: "frozen_count l ?x = min (frozen_count l x + 1) (2 ^ 32 - 1)" by (simp only: ref_up_unat)
  have other: "frozen_count k ?x = frozen_count k x" if "nat \<bar>k\<bar> \<noteq> ?e" for k
  proof -
    have "replicate (Suc ?e - length (frozentab x)) (0 :: 32 word) ! (n - length (frozentab x)) = 0"
      if "n < Suc ?e" "\<not> n < length (frozentab x)" for n
      using that by (subst nth_replicate) auto
    then show ?thesis using that by (auto simp: frozen_count_def tab_def Let_def nth_append)
  qed
  show ?thesis
  proof (rule that [OF res _ _ _ _ _ up other])
    show "length (frozentab ?x) \<le> max_var ?x + 1" using len(2) by simp
    show "max_var x \<le> max_var ?x" using y(4) by simp
  qed (use y(2,5,6) in simp_all)
qed

lemma ext_melt_ok:
  assumes "numbered x" "plain_opts x" "l \<noteq> 0" "l \<noteq> int_min" "length (frozentab x) \<le> max_var x + 1" "ext_frozen l x = Some True"
  obtains x' where "ext_melt l x = Some x'" "numbered x'" "length (frozentab x') \<le> max_var x' + 1"
    "x_opts x' = x_opts x" "extension x' = extension x" "max_var x \<le> max_var x'"
    "frozen_count l x' = (if frozen_count l x = 2 ^ 32 - 1 then frozen_count l x else frozen_count l x - 1)"
    "\<And>k. nat \<bar>k\<bar> \<noteq> nat \<bar>l\<bar> \<Longrightarrow> frozen_count k x' = frozen_count k x"
proof -
  let ?r = "reset_extended x" and ?e = "nat \<bar>l\<bar>"
  have pre: "numbered ?r" "\<not> extended ?r" "\<not> o_checkfrozen (x_opts ?r)" using assms(1,2) by (simp_all add: plain_opts_def)
  obtain y where y': "internalize l ?r = Some (ilit_of l y, y)" "numbered y" "xgrows ?r y" "max_var y = max (max_var ?r) ?e"
    using internalize_xgrows [OF pre assms(3,4)] by metis
  then have y: "internalize l ?r = Some (ilit_of l y, y)" "numbered y" "frozentab y = frozentab x" "max_var y = max (max_var x) ?e"
      "x_opts y = x_opts x" "extension y = extension x"
    by (simp_all add: xgrows_def)
  have e: "?e < length (frozentab x)" "frozentab x ! ?e > 0"
    using assms(3,4,6) by (auto simp: ext_frozen_def Let_def split: if_splits)
  let ?x = "int_melt (ilit_of l y) (y\<lparr>frozentab := (frozentab y)[?e := ref_down (frozentab y ! ?e)]\<rparr>)"
  have "vidx l y = Some ?e" using assms(3,4) y(4) by (simp add: vidx_def)
  then have res: "ext_melt l x = Some ?x" using y(1,3) e by (simp add: ext_melt_def Let_def del: bind_Some_iff)
  have down: "frozen_count l ?x = (if frozen_count l x = 2 ^ 32 - 1 then frozen_count l x else frozen_count l x - 1)"
    using e y(3) ref_down_unat [OF e(2)] by (simp add: frozen_count_def)
  have other: "frozen_count k ?x = frozen_count k x" if "nat \<bar>k\<bar> \<noteq> ?e" for k
    using that y(3) by (auto simp: frozen_count_def Let_def)
  show ?thesis
  proof (rule that [OF res _ _ _ _ _ down other])
    show "length (frozentab ?x) \<le> max_var ?x + 1" using assms(5) y(3,4) by simp
    show "max_var x \<le> max_var ?x" using y(4) by simp
  qed (use y(2,5,6) in simp_all)
qed

end
