(* ===== verification/Cadical_Extension.thy ===== *)
theory Cadical_Extension
  imports Cadical_External
begin

text \<open>
  \<open>lib/cadical/src/extend.cpp\<close> and \<open>restore.cpp\<close>: the extension stack. Clauses that the search removes from the
  formula are kept here with a witness, a set of literals that can be made true when the clause is violated.
  \<open>extend\<close> repairs the assignment of the search along the stack, from the top; \<open>restore_clauses\<close> takes
  clauses back into the formula when a new clause or assumption uses the negation of a witness literal.

  The stack is a vector of integers, as in the code: for every entry a zero, the witness, a zero and the clause. The functions
  that walk backwards take the reversed vector. A result \<^term>\<open>None\<close> is a failed assertion, which includes
  reading over the beginning of the vector.
\<close>

section \<open>Values\<close>

definition ival :: "int \<Rightarrow> external \<Rightarrow> int" where
  "ival elit x =
     (let eidx = nat \<bar>elit\<bar>;
          res = (if eidx > max_var x then - 1
                 else if eidx \<ge> length (vals x) then - 1
                 else if vals x ! eidx then int eidx else - int eidx)
      in if elit < 0 then - res else res)"

definition set_val :: "nat \<Rightarrow> bool \<Rightarrow> external \<Rightarrow> external" where
  "set_val idx b x =
     x\<lparr>vals := (if idx \<ge> length (vals x) then vals x @ replicate (idx + 1 - length (vals x)) False else vals x)[idx := b]\<rparr>"

section \<open>Pushing\<close>

definition push_zero :: "external \<Rightarrow> external" where
  "push_zero x = x\<lparr>extension := extension x @ [0]\<rparr>"

definition push_clause_literal :: "int \<Rightarrow> external \<Rightarrow> external option" where
  "push_clause_literal ilit x =
     (if ilit = 0 then None
      else do { elit \<leftarrow> externalize ilit x;
                if elit = 0 then None else Some (x\<lparr>extension := extension x @ [elit]\<rparr>) })"

definition push_witness_literal :: "int \<Rightarrow> external \<Rightarrow> external option" where
  "push_witness_literal ilit x =
     (if ilit = 0 then None
      else do { elit \<leftarrow> externalize ilit x;
                if elit = 0 then None
                else let x = x\<lparr>extension := extension x @ [elit]\<rparr>
                     in Some (if marked (witness x) elit then x else x\<lparr>witness := mark (witness x) elit\<rparr>) })"

fun push_literals :: "int list \<Rightarrow> external \<Rightarrow> external option" where
  "push_literals [] x = Some x"
| "push_literals (l # ls) x = do { x \<leftarrow> push_clause_literal l x; push_literals ls x }"

definition push_clause :: "int list \<Rightarrow> external \<Rightarrow> external option" where
  "push_clause c x = push_literals c (push_zero x)"

definition push_clause_pivot :: "int list \<Rightarrow> int \<Rightarrow> external \<Rightarrow> external option" where
  "push_clause_pivot c pivot x = do { x \<leftarrow> push_witness_literal pivot (push_zero x); push_clause c x }"

definition push_binary_clause :: "int \<Rightarrow> int \<Rightarrow> external \<Rightarrow> external option" where
  "push_binary_clause pivot other x =
     do { x \<leftarrow> push_witness_literal pivot (push_zero x);
          x \<leftarrow> push_clause_literal pivot (push_zero x);
          push_clause_literal other x }"

fun push_external_witness :: "int list \<Rightarrow> external \<Rightarrow> external option" where
  "push_external_witness [] x = Some x"
| "push_external_witness (elit # ls) x =
     (if elit = int_min then None
      else do { x \<leftarrow> init_var (nat \<bar>elit\<bar>) x;
                push_external_witness ls (x\<lparr>extension := extension x @ [elit], witness := mark (witness x) elit\<rparr>) })"

fun push_external_lits :: "int list \<Rightarrow> external \<Rightarrow> external option" where
  "push_external_lits [] x = Some x"
| "push_external_lits (elit # ls) x =
     (if elit = int_min then None
      else do { x \<leftarrow> init_var (nat \<bar>elit\<bar>) x; push_external_lits ls (x\<lparr>extension := extension x @ [elit]\<rparr>) })"

definition push_external :: "int list \<Rightarrow> int list \<Rightarrow> external \<Rightarrow> external option" where
  "push_external c w x =
     do { x \<leftarrow> push_external_witness w (x\<lparr>extension := extension x @ [0]\<rparr>);
          push_external_lits c (x\<lparr>extension := extension x @ [0]\<rparr>) }"

section \<open>Extending\<close>

text \<open>The values of the search, for the variables that have an internal literal.\<close>

fun copy_vals :: "(int \<Rightarrow> int) \<Rightarrow> nat list \<Rightarrow> external \<Rightarrow> external" where
  "copy_vals val [] x = x"
| "copy_vals val (i # is) x =
     (let ilit = e2i x ! i in copy_vals val is (if ilit = 0 then x else set_val i (val ilit > 0) x))"

fun scan_clause :: "external \<Rightarrow> bool \<Rightarrow> int list \<Rightarrow> (bool \<times> int list) option" where
  "scan_clause x satisfied [] = None"
| "scan_clause x satisfied (lit # r) =
     (if lit = 0 then Some (satisfied, r) else scan_clause x (satisfied \<or> ival lit x > 0) r)"

fun skip_witness :: "int list \<Rightarrow> int list option" where
  "skip_witness [] = None"
| "skip_witness (lit # r) = (if lit = 0 then Some r else skip_witness r)"

fun flip_witness :: "int list \<Rightarrow> external \<Rightarrow> (external \<times> int list) option" where
  "flip_witness [] x = None"
| "flip_witness (lit # r) x =
     (if lit = 0 then Some (x, r)
      else flip_witness r (if ival lit x < 0 then set_val (nat \<bar>lit\<bar>) (\<not> (nat \<bar>lit\<bar> < length (vals x) \<and> vals x ! nat \<bar>lit\<bar>)) x else x))"

lemma scan_clause_length: "scan_clause x b r = Some (b', r') \<Longrightarrow> length r' < length r"
  by (induction x b r rule: scan_clause.induct) (auto split: if_splits)

lemma skip_witness_length: "skip_witness r = Some r' \<Longrightarrow> length r' < length r"
  by (induction r) (auto split: if_splits)

lemma flip_witness_length: "flip_witness r x = Some (x', r') \<Longrightarrow> length r' < length r"
  by (induction r x rule: flip_witness.induct) (auto split: if_splits)

function extend_loop :: "int list \<Rightarrow> external \<Rightarrow> external option" where
  "extend_loop r x =
     (if r = [] then Some x
      else case scan_clause x False r of
             None \<Rightarrow> None
           | Some (satisfied, r1) \<Rightarrow>
               if satisfied
               then (case skip_witness r1 of None \<Rightarrow> None | Some r2 \<Rightarrow> extend_loop r2 x)
               else (case flip_witness r1 x of None \<Rightarrow> None | Some (x, r2) \<Rightarrow> extend_loop r2 x))"
  by pat_completeness auto
termination
  by (relation "measure (\<lambda>(r, x). length r)")
    (auto dest!: scan_clause_length skip_witness_length flip_witness_length)

declare extend_loop.simps [simp del]

definition ext_extend :: "(int \<Rightarrow> int) \<Rightarrow> external \<Rightarrow> external option" where
  "ext_extend val x =
     (if extended x then None
      else do { x \<leftarrow> extend_loop (rev (extension x)) (copy_vals val [1..<max_var x + 1] x); Some (x\<lparr>extended := True\<rparr>) })"

section \<open>Visiting the stack\<close>

text \<open>
  A visitor is a function of its own state, the clause and the witness; it answers whether the visit goes on.
\<close>

type_synonym 's visitor = "'s \<Rightarrow> int list \<Rightarrow> int list \<Rightarrow> bool \<times> 's"

fun pop_lits :: "int list \<Rightarrow> int list \<Rightarrow> (int list \<times> int list) option" where
  "pop_lits acc [] = None"
| "pop_lits acc (lit # r) = (if lit = 0 then Some (acc, r) else pop_lits (acc @ [lit]) r)"

lemma pop_lits_length: "pop_lits acc r = Some (ls, r') \<Longrightarrow> length r' < length r"
  by (induction acc r rule: pop_lits.induct) (auto split: if_splits)

function visit_backward :: "'s visitor \<Rightarrow> int list \<Rightarrow> 's \<Rightarrow> (bool \<times> 's) option" where
  "visit_backward it r s =
     (if r = [] then Some (True, s)
      else case pop_lits [] r of
             None \<Rightarrow> None
           | Some (clause, r1) \<Rightarrow>
               (case pop_lits [] r1 of
                  None \<Rightarrow> None
                | Some (wit, r2) \<Rightarrow>
                    (let (go, s) = it s (rev clause) (rev wit) in if \<not> go then Some (False, s) else visit_backward it r2 s)))"
  by pat_completeness auto
termination
  by (relation "measure (\<lambda>(it, r, s). length r)") (auto dest!: pop_lits_length)

declare visit_backward.simps [simp del]

definition traverse_witnesses_backward :: "bool \<Rightarrow> 's visitor \<Rightarrow> external \<Rightarrow> 's \<Rightarrow> (bool \<times> 's) option" where
  "traverse_witnesses_backward unsat it x s = (if unsat then Some (True, s) else visit_backward it (rev (extension x)) s)"

text \<open>Forward: the leading zero was read, the clause ends at a zero or at the end of the vector.\<close>

fun read_clause :: "int list \<Rightarrow> int list \<Rightarrow> int list \<times> int list" where
  "read_clause acc [] = (acc, [])"
| "read_clause acc (lit # r) = (if lit = 0 then (acc, r) else read_clause (acc @ [lit]) r)"

lemma read_clause_length: "read_clause acc r = (ls, r') \<Longrightarrow> length r' \<le> length r"
  by (induction acc r rule: read_clause.induct) (auto split: if_splits dest: le_SucI)

function visit_forward :: "'s visitor \<Rightarrow> int list \<Rightarrow> 's \<Rightarrow> (bool \<times> 's) option" where
  "visit_forward it r s =
     (case pop_lits [] r of
        None \<Rightarrow> None
      | Some (wit, r1) \<Rightarrow>
          if r1 = [] then None
          else (case read_clause [] r1 of
                  (clause, r2) \<Rightarrow>
                    (let (go, s) = it s clause wit
                     in if \<not> go then Some (False, s) else if r2 = [] then Some (True, s) else visit_forward it r2 s)))"
  by pat_completeness auto
termination
  by (relation "measure (\<lambda>(it, r, s). length r)") (auto dest!: pop_lits_length read_clause_length [OF sym])

declare visit_forward.simps [simp del]

definition traverse_witnesses_forward :: "bool \<Rightarrow> 's visitor \<Rightarrow> external \<Rightarrow> 's \<Rightarrow> (bool \<times> 's) option" where
  "traverse_witnesses_forward unsat it x s =
     (if unsat then Some (True, s)
      else case extension x of
             [] \<Rightarrow> Some (True, s)
           | lit # r \<Rightarrow> if lit \<noteq> 0 then None else visit_forward it r s)"

section \<open>Restoring\<close>

definition ext_fixed :: "(int \<Rightarrow> int) \<Rightarrow> int \<Rightarrow> external \<Rightarrow> int" where
  "ext_fixed ifixed elit x =
     (if nat \<bar>elit\<bar> > max_var x then 0
      else let ilit = ilit_of elit x in if ilit = 0 then 0 else ifixed ilit)"

fun restore_lits :: "int list \<Rightarrow> external \<Rightarrow> external option" where
  "restore_lits [] x = Some x"
| "restore_lits (l # ls) x = do { (ilit, x) \<leftarrow> internalize l x; restore_lits ls (xcall (Add_original ilit) x) }"

definition restore_clause :: "int list \<Rightarrow> external \<Rightarrow> external option" where
  "restore_clause c x = do { x \<leftarrow> restore_lits c x; Some (xcall (Add_original 0) x) }"

text \<open>
  \<open>tlit\<close> is the last witness literal whose negation is tainted, \<open>satisfied\<close> the first literal of the clause that is
  true at the root level; 0 stands for none. Which literals are true there depends on the calls the search has
  got so far.
\<close>

fun find_tlit :: "external \<Rightarrow> int \<Rightarrow> int list \<Rightarrow> int" where
  "find_tlit x tlit [] = tlit"
| "find_tlit x tlit (elit # ls) = find_tlit x (if marked (tainted x) (- elit) then elit else tlit) ls"

fun find_satisfied :: "(int \<Rightarrow> int) \<Rightarrow> external \<Rightarrow> int \<Rightarrow> int list \<Rightarrow> int" where
  "find_satisfied f x satisfied [] = satisfied"
| "find_satisfied f x satisfied (elit # ls) =
     find_satisfied f x (if satisfied = 0 \<and> ext_fixed f elit x > 0 then elit else satisfied) ls"

text \<open>One entry: whether it is removed, and the state after restoring its clause.\<close>

definition restore_entry :: "(icall list \<Rightarrow> int \<Rightarrow> int) \<Rightarrow> int list \<Rightarrow> int list \<Rightarrow> external \<Rightarrow> (bool \<times> external) option" where
  "restore_entry ifixed w c x =
     (let tlit = find_tlit x 0 w;
          satisfied = find_satisfied (ifixed (x_calls x)) x 0 c;
          satisfied = (if satisfied \<noteq> 0 \<and> \<not> o_restoreflush (x_opts x) then 0 else satisfied)
      in if satisfied \<noteq> 0 \<or> tlit \<noteq> 0 \<or> o_restoreall (x_opts x) \<noteq> 0
         then (if satisfied \<noteq> 0 then Some (True, x) else do { x \<leftarrow> restore_clause c x; Some (True, x) })
         else Some (False, x))"

text \<open>
  The loop over the vector: \<open>p\<close> is the part that is still to be read, \<open>q\<close> the part that was written. The code writes into
  the vector it reads; it never writes past what it has read.
\<close>

function restore_loop :: "(icall list \<Rightarrow> int \<Rightarrow> int) \<Rightarrow> int list \<Rightarrow> int list \<Rightarrow> external \<Rightarrow> (int list \<times> external) option" where
  "restore_loop ifixed p q x =
     (case p of
        [] \<Rightarrow> Some (q, x)
      | z # p1 \<Rightarrow>
          if z \<noteq> 0 then None
          else (case pop_lits [] p1 of
                  None \<Rightarrow> None
                | Some (w, p2) \<Rightarrow>
                    (let c = takeWhile (\<lambda>l. l \<noteq> 0) p2; end_of_clause = dropWhile (\<lambda>l. l \<noteq> 0) p2
                     in case restore_entry ifixed w c x of
                          None \<Rightarrow> None
                        | Some (removed, x) \<Rightarrow>
                            restore_loop ifixed end_of_clause (if removed then q else q @ [0] @ w @ [0] @ c) x)))"
  by pat_completeness auto
termination
  by (relation "measure (\<lambda>(f, p, q, x). length p)")
    (auto dest!: pop_lits_length simp: less_Suc_eq_le intro: order_trans [OF length_dropWhile_le])

declare restore_loop.simps [simp del]

text \<open>The witness marks are computed anew, backwards over the stack.\<close>

fun mark_lits :: "int list \<Rightarrow> bool list \<Rightarrow> (bool list \<times> int list) option" where
  "mark_lits [] w = None"
| "mark_lits (lit # r) w = (if lit = 0 then Some (w, r) else mark_lits r (mark w lit))"

lemma mark_lits_length: "mark_lits r w = Some (w', r') \<Longrightarrow> length r' < length r"
  by (induction r w rule: mark_lits.induct) (auto split: if_splits)

function mark_witnesses :: "int list \<Rightarrow> bool list \<Rightarrow> bool list option" where
  "mark_witnesses r w =
     (if r = [] then Some w
      else case skip_witness r of
             None \<Rightarrow> None
           | Some r1 \<Rightarrow> (case mark_lits r1 w of None \<Rightarrow> None | Some (w, r2) \<Rightarrow> mark_witnesses r2 w))"
  by pat_completeness auto
termination
  by (relation "measure (\<lambda>(r, w). length r)") (auto dest!: skip_witness_length mark_lits_length)

declare mark_witnesses.simps [simp del]

definition restore_clauses :: "(icall list \<Rightarrow> int \<Rightarrow> int) \<Rightarrow> external \<Rightarrow> external option" where
  "restore_clauses ifixed x =
     (if o_restoreall (x_opts x) \<noteq> 2 \<and> tainted x = [] then None
      else do { (q, x) \<leftarrow> restore_loop ifixed (extension x) [] x;
                w \<leftarrow> mark_witnesses (rev q) [];
                Some (x\<lparr>extension := q, tainted := [], witness := w\<rparr>) })"

section \<open>Checking\<close>

fun check_clauses :: "(int \<Rightarrow> int) \<Rightarrow> bool \<Rightarrow> int list \<Rightarrow> bool" where
  "check_clauses a satisfied [] = True"
| "check_clauses a satisfied (lit # ls) =
     (if lit = 0 then satisfied \<and> check_clauses a False ls else check_clauses a (satisfied \<or> a lit > 0) ls)"

definition check_assignment :: "(int \<Rightarrow> int) \<Rightarrow> external \<Rightarrow> bool" where
  "check_assignment a x =
     (list_all (\<lambda>idx. a (int idx) \<noteq> 0 \<and> a (int idx) = - a (- int idx)) [1..<max_var x + 1] \<and> check_clauses a False (original x))"

definition check_assumptions_satisfied :: "external \<Rightarrow> bool" where
  "check_assumptions_satisfied x = list_all (\<lambda>lit. \<not> ival lit x < 0 \<and> ival lit x \<noteq> 0) (assumptions x)"

definition check_constraint_satisfied :: "external \<Rightarrow> bool" where
  "check_constraint_satisfied x = list_ex (\<lambda>lit. ival lit x > 0) (xconstraint x)"

definition check_satisfiable :: "(int \<Rightarrow> int) \<Rightarrow> external \<Rightarrow> external option" where
  "check_satisfiable val x =
     do { x \<leftarrow> (if extended x then Some x else ext_extend val x);
          if (o_checkwitness (x_opts x) \<longrightarrow> check_assignment (\<lambda>l. ival l x) x) \<and>
             (o_checkassumptions (x_opts x) \<and> assumptions x \<noteq> [] \<longrightarrow> check_assumptions_satisfied x) \<and>
             (o_checkconstraint (x_opts x) \<and> xconstraint x \<noteq> [] \<longrightarrow> check_constraint_satisfied x)
          then Some x else None }"

fun molten_loop :: "nat list \<Rightarrow> external \<Rightarrow> external" where
  "molten_loop [] x = x"
| "molten_loop (i # is) x =
     molten_loop is
       (if moltentab x ! i then x else if ext_frozen (int i) x = Some True then x
        else x\<lparr>moltentab := (moltentab x)[i := True]\<rparr>)"

definition update_molten_literals :: "external \<Rightarrow> external option" where
  "update_molten_literals x =
     (if \<not> o_checkfrozen (x_opts x) then Some x
      else if max_var x + 1 \<noteq> length (moltentab x) then None
      else Some (molten_loop [1..<max_var x + 1] x))"

end
