(* ===== verification/Cadical_Reconstruct.thy ===== *)
theory Cadical_Reconstruct
  imports Cadical_Extension
begin

text \<open>
  The extension stack as a list of entries, each a witness and a clause, and what the functions of \<open>Cadical_Extension\<close> do to it.
  An entry is redundant for a formula when every model of the formula that violates its clause becomes a model of both
  once its witness is made true. On a stack of such entries \<open>extend\<close> turns a model of the search into a model of all clauses,
  and \<open>restore_clauses\<close> keeps the stack in this shape when clauses are added.
\<close>

section \<open>Entries\<close>

type_synonym entry = "int list \<times> int list"

definition flat :: "entry list \<Rightarrow> int list" where
  "flat es = concat (map (\<lambda>(w, c). [0] @ w @ [0] @ c) es)"

definition stack_entry_ok :: "nat \<Rightarrow> entry \<Rightarrow> bool" where
  "stack_entry_ok n e = (snd e \<noteq> [] \<and> (\<forall>l \<in> set (fst e) \<union> set (snd e). lit_upto n l))"

definition clauses_of :: "entry list \<Rightarrow> clause set" where
  "clauses_of es = snd ` set es"

lemma flat_simps [simp]: "flat [] = []" "flat ((w, c) # es) = 0 # w @ 0 # c @ flat es" "flat (es @ es') = flat es @ flat es'"
  by (simp_all add: flat_def)

lemma clauses_of_simps [simp]: "clauses_of [] = {}" "clauses_of (e # es) = insert (snd e) (clauses_of es)"
  by (simp_all add: clauses_of_def)

lemma stack_entry_ok_nz: "stack_entry_ok n (w, c) \<Longrightarrow> 0 \<notin> set w \<and> 0 \<notin> set c"
  by (auto simp: stack_entry_ok_def)

section \<open>Assignments\<close>

definition ext_model :: "external \<Rightarrow> asg" where
  "ext_model x v = (nat v \<le> max_var x \<and> model_of (vals x) v)"

definition make_true :: "int \<Rightarrow> asg \<Rightarrow> asg" where
  "make_true l \<sigma> = \<sigma>(\<bar>l\<bar> := 0 < l)"

definition reconstruct :: "entry \<Rightarrow> asg \<Rightarrow> asg" where
  "reconstruct e \<sigma> = (if sat_clause \<sigma> (snd e) then \<sigma> else fold make_true (rev (fst e)) \<sigma>)"

lemma make_true_id: "lit_true \<sigma> l \<Longrightarrow> l \<noteq> 0 \<Longrightarrow> make_true l \<sigma> = \<sigma>"
  by (auto simp: make_true_def lit_true_def fun_eq_iff split: if_splits)

lemma lit_true_make: "l \<noteq> 0 \<Longrightarrow> k \<noteq> 0 \<Longrightarrow> lit_true (make_true l \<sigma>) k = (if k = l then True else if k = - l then False else lit_true \<sigma> k)"
  by (auto simp: make_true_def lit_true_def abs_if split: if_splits)

lemma ival_lit_true:
  "l \<noteq> 0 \<Longrightarrow> (ival l x > 0) = lit_true (ext_model x) l" "l \<noteq> 0 \<Longrightarrow> (ival l x < 0) = (\<not> lit_true (ext_model x) l)"
  by (auto simp: ival_def lit_true_def ext_model_def model_of_def Let_def)

lemma set_val_model:
  assumes "0 < i" "i \<le> max_var x"
  shows "ext_model (set_val i b x) = (ext_model x)(int i := b)" "max_var (set_val i b x) = max_var x"
    "extension (set_val i b x) = extension x" "e2i (set_val i b x) = e2i x"
proof -
  have "ext_model (set_val i b x) v = ((ext_model x)(int i := b)) v" for v
    using assms by (cases "v = int i") (auto simp: ext_model_def set_val_def model_of_def nth_append nth_list_update)
  then show "ext_model (set_val i b x) = (ext_model x)(int i := b)" by blast
qed (simp_all add: set_val_def)

section \<open>Extending along the entries\<close>

lemma scan_clause_eq: "0 \<notin> set ls \<Longrightarrow> scan_clause x b (ls @ 0 # r) = Some (b \<or> sat_clause (ext_model x) ls, r)"
  by (induction ls arbitrary: b) (auto simp: ival_lit_true)

lemma skip_witness_eq: "0 \<notin> set ls \<Longrightarrow> skip_witness (ls @ 0 # r) = Some r"
  by (induction ls) auto

lemma flip_step:
  assumes "lit_upto (max_var x) l" "ival l x < 0"
  shows "ext_model (set_val (nat \<bar>l\<bar>) (\<not> (nat \<bar>l\<bar> < length (vals x) \<and> vals x ! nat \<bar>l\<bar>)) x) = make_true l (ext_model x)"
proof -
  have l: "l \<noteq> 0" "0 < nat \<bar>l\<bar>" "nat \<bar>l\<bar> \<le> max_var x" using assms(1) by (auto simp: lit_upto_def)
  have "(\<not> (nat \<bar>l\<bar> < length (vals x) \<and> vals x ! nat \<bar>l\<bar>)) = (0 < l)"
    using assms(2) l by (auto simp: ival_def Let_def split: if_splits)
  then show ?thesis using set_val_model(1) [OF l(2,3)] by (simp add: make_true_def)
qed

lemma flip_witness_eq:
  "\<forall>l \<in> set ls. lit_upto (max_var x) l \<Longrightarrow>
   \<exists>x'. flip_witness (ls @ 0 # r) x = Some (x', r) \<and> ext_model x' = fold make_true ls (ext_model x) \<and> max_var x' = max_var x \<and>
     extension x' = extension x"
proof (induction ls arbitrary: x)
  case (Cons l ls)
  define y where "y = (if ival l x < 0 then set_val (nat \<bar>l\<bar>) (\<not> (nat \<bar>l\<bar> < length (vals x) \<and> vals x ! nat \<bar>l\<bar>)) x else x)"
  have l: "lit_upto (max_var x) l" "l \<noteq> 0" using Cons.prems by auto
  have "max_var y = max_var x" "extension y = extension x" by (simp_all add: y_def set_val_def)
  moreover have "ext_model y = make_true l (ext_model x)"
    using flip_step [OF l(1)] make_true_id [of "ext_model x" l] l(2) ival_lit_true(2) [OF l(2), of x] by (simp add: y_def)
  ultimately show ?case using Cons.IH [of y] Cons.prems l(2) by (simp add: y_def)
qed simp

lemma extend_loop_flat:
  "\<forall>e \<in> set es. stack_entry_ok (max_var x) e \<Longrightarrow>
   \<exists>x'. extend_loop (rev (flat es)) x = Some x' \<and> ext_model x' = foldr reconstruct es (ext_model x) \<and> max_var x' = max_var x \<and>
     extension x' = extension x"
proof (induction es arbitrary: x rule: rev_induct)
  case Nil
  then show ?case by (simp add: extend_loop.simps)
next
  case (snoc e es)
  obtain w c where e: "e = (w, c)" by (cases e)
  have ok: "stack_entry_ok (max_var x) (w, c)" and nz: "0 \<notin> set (rev w)" "0 \<notin> set (rev c)" and w: "\<forall>l \<in> set (rev w). lit_upto (max_var x) l"
    using snoc.prems stack_entry_ok_nz [of "max_var x" w c] by (auto simp: e stack_entry_ok_def)
  let ?r = "rev (flat es)"
  have r: "rev (flat (es @ [e])) = rev c @ 0 # rev w @ 0 # ?r" by (simp add: e)
  have sc: "scan_clause x False (rev c @ 0 # rev w @ 0 # ?r) = Some (sat_clause (ext_model x) c, rev w @ 0 # ?r)"
    using scan_clause_eq [OF nz(2)] by (simp add: sat_clause_def)
  show ?case
  proof (cases "sat_clause (ext_model x) c")
    case True
    then have "extend_loop (rev (flat (es @ [e]))) x = extend_loop ?r x"
      unfolding r by (subst extend_loop.simps) (simp add: sc skip_witness_eq [OF nz(1)])
    then show ?thesis using snoc True by (simp add: e reconstruct_def)
  next
    case False
    obtain y where y: "flip_witness (rev w @ 0 # ?r) x = Some (y, ?r)" "ext_model y = fold make_true (rev w) (ext_model x)"
        "max_var y = max_var x" "extension y = extension x"
      using flip_witness_eq [OF w, of ?r] by blast
    then have "extend_loop (rev (flat (es @ [e]))) x = extend_loop ?r y"
      unfolding r by (subst extend_loop.simps) (simp add: sc False)
    then show ?thesis using snoc.IH [of y] snoc.prems y False by (simp add: e reconstruct_def)
  qed
qed

section \<open>Redundant entries\<close>

definition redundant :: "clause set \<Rightarrow> entry \<Rightarrow> bool" where
  "redundant F e =
     (\<forall>\<sigma>. sat_all \<sigma> F \<longrightarrow> \<not> sat_clause \<sigma> (snd e) \<longrightarrow> sat_all (fold make_true (rev (fst e)) \<sigma>) (insert (snd e) F))"

text \<open>The clauses above an entry were still in the formula when it was pushed.\<close>

fun stack_ok :: "clause set \<Rightarrow> entry list \<Rightarrow> bool" where
  "stack_ok F [] = True"
| "stack_ok F (e # es) = (redundant (F \<union> clauses_of es) e \<and> stack_ok F es)"

lemma reconstruct_step: "redundant F e \<Longrightarrow> sat_all \<sigma> F \<Longrightarrow> sat_all (reconstruct e \<sigma>) (insert (snd e) F)"
  unfolding redundant_def reconstruct_def by (cases "sat_clause \<sigma> (snd e)") auto

lemma reconstruct_sound:
  "stack_ok F es \<Longrightarrow> sat_all \<sigma> F \<Longrightarrow> sat_all (foldr reconstruct es \<sigma>) (F \<union> clauses_of es)"
proof (induction es)
  case (Cons e es)
  then have "sat_all (foldr reconstruct es \<sigma>) (F \<union> clauses_of es)" by simp
  then show ?case using reconstruct_step Cons.prems(1) by fastforce
qed simp

lemma copy_vals_all:
  "\<forall>i \<in> set is. 0 < i \<and> i \<le> max_var x \<Longrightarrow> distinct is \<Longrightarrow>
   max_var (copy_vals val is x) = max_var x \<and> extension (copy_vals val is x) = extension x \<and>
   ext_model (copy_vals val is x) v =
     (if 0 \<le> v \<and> nat v \<in> set is \<and> e2i x ! nat v \<noteq> 0 then val (e2i x ! nat v) > 0 else ext_model x v)"
proof (induction "is" arbitrary: x)
  case (Cons i "is")
  let ?y = "if e2i x ! i = 0 then x else set_val i (val (e2i x ! i) > 0) x"
  have i: "0 < i" "i \<le> max_var x" using Cons.prems by simp_all
  have y: "max_var ?y = max_var x" "extension ?y = extension x" "e2i ?y = e2i x" by (simp_all add: set_val_def)
  have m: "ext_model ?y v = (if v = int i \<and> e2i x ! i \<noteq> 0 then val (e2i x ! i) > 0 else ext_model x v)"
    using set_val_model(1) [OF i] by simp
  have IH: "max_var (copy_vals val is ?y) = max_var ?y \<and> extension (copy_vals val is ?y) = extension ?y \<and>
      ext_model (copy_vals val is ?y) v =
      (if 0 \<le> v \<and> nat v \<in> set is \<and> e2i ?y ! nat v \<noteq> 0 then val (e2i ?y ! nat v) > 0 else ext_model ?y v)"
    using Cons.prems y by (intro Cons.IH) simp_all
  show ?case
  proof (cases "v = int i")
    case True
    then show ?thesis using IH m y Cons.prems(2) by (simp add: Let_def)
  next
    case False
    then have "0 \<le> v \<Longrightarrow> nat v \<noteq> i" by auto
    then show ?thesis using IH m y False by (auto simp: Let_def)
  qed
qed simp

lemmas copy_vals_model = copy_vals_all [THEN conjunct2, THEN conjunct2] copy_vals_all [THEN conjunct1]
  copy_vals_all [THEN conjunct2, THEN conjunct1]

text \<open>The assignment of the search, read over the external variables.\<close>

definition search_model :: "(int \<Rightarrow> int) \<Rightarrow> external \<Rightarrow> asg" where
  "search_model val x = ext_model (copy_vals val [1..<max_var x + 1] x)"

lemma search_model_eq:
  assumes "0 < v" "nat v \<le> max_var x" "e2i x ! nat v \<noteq> 0"
  shows "search_model val x v = (val (e2i x ! nat v) > 0)"
proof -
  have "1 \<le> nat v" using assms(1) by linarith
  then show ?thesis
    using assms copy_vals_model(1) [of "[1..<max_var x + 1]" x val v] by (simp add: search_model_def del: upt_Suc)
qed

lemma ext_extend_ok:
  assumes "\<not> extended x" "extension x = flat es" "\<forall>e \<in> set es. stack_entry_ok (max_var x) e"
  obtains x' where "ext_extend val x = Some x'" "ext_model x' = foldr reconstruct es (search_model val x)" "extended x'"
    "extension x' = extension x"
proof -
  let ?y = "copy_vals val [1..<max_var x + 1] x"
  have y: "max_var ?y = max_var x" "extension ?y = extension x"
    using copy_vals_model(2,3) [of "[1..<max_var x + 1]" x val] by (simp_all del: upt_Suc)
  obtain z where z: "extend_loop (rev (flat es)) ?y = Some z" "ext_model z = foldr reconstruct es (ext_model ?y)"
      "extension z = extension ?y"
    using extend_loop_flat [of es ?y] assms(3) unfolding y(1) by blast
  have "ext_extend val x = Some (z\<lparr>extended := True\<rparr>)" using z(1) assms(1,2) by (simp add: ext_extend_def del: upt_Suc)
  moreover have "ext_model (z\<lparr>extended := True\<rparr>) = ext_model z" by (simp add: ext_model_def fun_eq_iff)
  ultimately show ?thesis using that [of "z\<lparr>extended := True\<rparr>"] z(2,3) y(2) by (simp add: search_model_def del: upt_Suc)
qed

text \<open>Only the values and the flag change.\<close>

definition same_but_vals :: "external \<Rightarrow> external \<Rightarrow> bool" where
  "same_but_vals x y = (\<exists>vs. y = x\<lparr>vals := vs\<rparr>)"

lemma same_but_vals_refl [simp]: "same_but_vals x x"
  unfolding same_but_vals_def by (rule exI [of _ "vals x"]) simp

lemma same_but_vals_trans: "same_but_vals x y \<Longrightarrow> same_but_vals y z \<Longrightarrow> same_but_vals x z"
  by (auto simp: same_but_vals_def)

lemma set_val_same: "same_but_vals x (set_val i b x)"
  by (auto simp: same_but_vals_def set_val_def)

lemma copy_vals_same: "same_but_vals x (copy_vals val is x)"
proof (induction "is" arbitrary: x)
  case (Cons i "is")
  let ?y = "if e2i x ! i = 0 then x else set_val i (val (e2i x ! i) > 0) x"
  have "same_but_vals x ?y" using set_val_same by simp
  then have "same_but_vals x (copy_vals val is ?y)" using Cons.IH by (rule same_but_vals_trans)
  then show ?case by (simp only: copy_vals.simps Let_def)
qed simp

lemma flip_witness_same: "flip_witness r x = Some (y, r') \<Longrightarrow> same_but_vals x y"
proof (induction r arbitrary: x)
  case (Cons l r)
  show ?case
  proof (cases "l = 0")
    case False
    let ?z = "if ival l x < 0 then set_val (nat \<bar>l\<bar>) (\<not> (nat \<bar>l\<bar> < length (vals x) \<and> vals x ! nat \<bar>l\<bar>)) x else x"
    have "flip_witness r ?z = Some (y, r')" using Cons.prems False by simp
    then have "same_but_vals ?z y" by (rule Cons.IH)
    moreover have "same_but_vals x ?z" using set_val_same by simp
    ultimately show ?thesis using same_but_vals_trans by blast
  qed (use Cons.prems in simp)
qed simp

lemma extend_loop_same: "extend_loop r x = Some y \<Longrightarrow> same_but_vals x y"
proof (induction r x rule: extend_loop.induct)
  case (1 r x)
  show ?case
  proof (cases "r = []")
    case True
    then show ?thesis using 1(3) by (simp add: extend_loop.simps)
  next
    case False
    obtain b r1 where sc: "scan_clause x False r = Some (b, r1)"
      using 1(3) False by (subst (asm) extend_loop.simps) (auto split: option.splits)
    show ?thesis
    proof (cases b)
      case True
      then obtain r2 where r2: "skip_witness r1 = Some r2" "extend_loop r2 x = Some y"
        using 1(3) False sc by (subst (asm) extend_loop.simps) (auto split: option.splits)
      show ?thesis by (rule 1(1) [OF False sc refl True r2])
    next
      case nb: False
      then obtain z r2 where z: "flip_witness r1 x = Some (z, r2)" "extend_loop r2 z = Some y"
        using 1(3) False sc by (subst (asm) extend_loop.simps) (auto split: option.splits)
      have "same_but_vals z y" by (rule 1(2) [OF False sc refl nb z(1) refl z(2)])
      then show ?thesis using flip_witness_same [OF z(1)] same_but_vals_trans by blast
    qed
  qed
qed

lemma extend_frame:
  assumes "ext_extend val x = Some y"
  shows "x_opts y = x_opts x" "x_ivars y = x_ivars x" "x_i2e y = x_i2e x" "x_ifrozen y = x_ifrozen x" "x_calls y = x_calls x"
    "max_var y = max_var x" "x_vsize y = x_vsize x" "e2i y = e2i x" "assumptions y = assumptions x" "xconstraint y = xconstraint x"
    "extension y = extension x" "witness y = witness x" "tainted y = tainted x" "frozentab y = frozentab x"
proof -
  let ?z = "copy_vals val [1..<max_var x + 1] x"
  obtain w where w: "extend_loop (rev (extension x)) ?z = Some w" "y = w\<lparr>extended := True\<rparr>"
    using assms by (auto simp: ext_extend_def simp del: upt_Suc split: if_splits)
  have "same_but_vals x w" using same_but_vals_trans [OF copy_vals_same extend_loop_same [OF w(1)]] .
  then obtain vs where "y = x\<lparr>vals := vs, extended := True\<rparr>" using w(2) by (auto simp: same_but_vals_def)
  then show "x_opts y = x_opts x" "x_ivars y = x_ivars x" "x_i2e y = x_i2e x" "x_ifrozen y = x_ifrozen x" "x_calls y = x_calls x"
    "max_var y = max_var x" "x_vsize y = x_vsize x" "e2i y = e2i x" "assumptions y = assumptions x" "xconstraint y = xconstraint x"
    "extension y = extension x" "witness y = witness x" "tainted y = tainted x" "frozentab y = frozentab x"
    by simp_all
qed

text \<open>A clause that is blocked on a literal is redundant with that literal as witness.\<close>

lemma blocked_redundant:
  assumes "l \<in> set c" "l \<noteq> 0" "\<forall>d \<in> F. 0 \<notin> set d" "0 \<notin> set c"
    "\<forall>d \<in> F. - l \<in> set d \<longrightarrow> (\<exists>k \<in> set c. k \<noteq> l \<and> - k \<in> set d)"
  shows "redundant F ([l], c)"
proof -
  have "sat_all (make_true l \<sigma>) (insert c F)" if s: "sat_all \<sigma> F" "\<not> sat_clause \<sigma> c" for \<sigma>
  proof -
    have "sat_clause (make_true l \<sigma>) c" using assms(1,2) lit_true_make [of l l \<sigma>] by (auto simp: sat_clause_def)
    moreover have "sat_clause (make_true l \<sigma>) d" if d: "d \<in> F" for d
    proof (cases "- l \<in> set d")
      case True
      then obtain k where k: "k \<in> set c" "k \<noteq> l" "- k \<in> set d" using assms(5) d by blast
      have nz: "k \<noteq> 0" using k(1) assms(4) by auto
      have "\<not> lit_true \<sigma> k" using s(2) k(1) by (auto simp: sat_clause_def)
      then have "lit_true (make_true l \<sigma>) (- k)"
        using nz k(2) assms(2) lit_true_make [of l "- k" \<sigma>] by (cases "k = - l") auto
      then show ?thesis using k(3) by (auto simp: sat_clause_def)
    next
      case False
      obtain k where k: "k \<in> set d" "lit_true \<sigma> k" using s(1) d by (auto simp: sat_all_def sat_clause_def)
      moreover have "k \<noteq> 0" "k \<noteq> - l" using k(1) False assms(3) d by auto
      ultimately have "lit_true (make_true l \<sigma>) k" using assms(2) lit_true_make [of l k \<sigma>] by simp
      then show ?thesis using k(1) by (auto simp: sat_clause_def)
    qed
    ultimately show ?thesis by (simp add: sat_all_def)
  qed
  then show ?thesis by (simp add: redundant_def)
qed

section \<open>Visiting the entries\<close>

fun visit_entries :: "'s visitor \<Rightarrow> entry list \<Rightarrow> 's \<Rightarrow> bool \<times> 's" where
  "visit_entries it [] s = (True, s)"
| "visit_entries it ((w, c) # es) s = (let (go, s) = it s c w in if go then visit_entries it es s else (False, s))"

lemma pop_lits_eq: "0 \<notin> set ls \<Longrightarrow> pop_lits acc (ls @ 0 # r) = Some (acc @ ls, r)"
  by (induction ls arbitrary: acc) auto

lemma visit_backward_flat:
  "\<forall>e \<in> set es. stack_entry_ok n e \<Longrightarrow> visit_backward it (rev (flat es)) s = Some (visit_entries it (rev es) s)"
proof (induction es arbitrary: s rule: rev_induct)
  case Nil
  then show ?case by (simp add: visit_backward.simps)
next
  case (snoc e es)
  obtain w c where e: "e = (w, c)" by (cases e)
  have nz: "0 \<notin> set (rev w)" "0 \<notin> set (rev c)" using snoc.prems stack_entry_ok_nz [of n w c] by (auto simp: e)
  have r: "rev (flat (es @ [e])) = rev c @ 0 # rev w @ 0 # rev (flat es)" by (simp add: e)
  show ?case
    unfolding r using snoc by (subst visit_backward.simps) (simp add: pop_lits_eq [OF nz(1)] pop_lits_eq [OF nz(2)] e split: prod.splits)
qed

lemma read_clause_eq: "0 \<notin> set ls \<Longrightarrow> read_clause acc (ls @ 0 # r) = (acc @ ls, r)" "0 \<notin> set ls \<Longrightarrow> read_clause acc ls = (acc @ ls, [])"
  by (induction ls arbitrary: acc) auto

lemma visit_forward_flat:
  "\<forall>e \<in> set ((w, c) # es). stack_entry_ok n e \<Longrightarrow> visit_forward it (w @ 0 # c @ flat es) s = Some (visit_entries it ((w, c) # es) s)"
proof (induction es arbitrary: w c s)
  case Nil
  then have "0 \<notin> set w" "0 \<notin> set c" "c \<noteq> []" using stack_entry_ok_nz [of n w c] by (auto simp: stack_entry_ok_def)
  then show ?case by (subst visit_forward.simps) (simp add: pop_lits_eq read_clause_eq split: prod.splits)
next
  case (Cons e es)
  obtain w' c' where e: "e = (w', c')" by (cases e)
  have "0 \<notin> set w" "0 \<notin> set c" "c \<noteq> []" using Cons.prems stack_entry_ok_nz [of n w c] by (auto simp: stack_entry_ok_def)
  then show ?case using Cons.IH [of w' c'] Cons.prems
    by (subst visit_forward.simps) (simp add: e pop_lits_eq read_clause_eq split: prod.splits)
qed

lemma traverse_eq:
  assumes "extension x = flat es" "\<forall>e \<in> set es. stack_entry_ok n e"
  shows "traverse_witnesses_backward False it x s = Some (visit_entries it (rev es) s)"
    "traverse_witnesses_forward False it x s = Some (visit_entries it es s)"
proof -
  show "traverse_witnesses_backward False it x s = Some (visit_entries it (rev es) s)"
    using visit_backward_flat [OF assms(2)] by (simp add: traverse_witnesses_backward_def assms(1))
  show "traverse_witnesses_forward False it x s = Some (visit_entries it es s)"
  proof (cases es)
    case Nil
    then show ?thesis by (simp add: traverse_witnesses_forward_def assms(1))
  next
    case (Cons e es')
    obtain w c where e: "e = (w, c)" by (cases e)
    then show ?thesis using visit_forward_flat [of w c es' n it s] assms by (simp add: traverse_witnesses_forward_def Cons)
  qed
qed

section \<open>Pushing entries\<close>

lemma externalize_frame [simp]:
  "externalize i (x\<lparr>extension := es\<rparr>) = externalize i x" "externalize i (x\<lparr>witness := w\<rparr>) = externalize i x"
  by (simp_all add: externalize_def)

lemma push_literals_eq:
  "list_all2 (\<lambda>i e. i \<noteq> 0 \<and> externalize i x = Some e \<and> e \<noteq> 0) is es \<Longrightarrow>
   push_literals is x = Some (x\<lparr>extension := extension x @ es\<rparr>)"
proof (induction "is" arbitrary: x es)
  case (Cons i "is")
  obtain e es' where es: "es = e # es'" "i \<noteq> 0" "externalize i x = Some e" "e \<noteq> 0"
      "list_all2 (\<lambda>i e. i \<noteq> 0 \<and> externalize i x = Some e \<and> e \<noteq> 0) is es'"
    using Cons.prems by (auto simp: list_all2_Cons1)
  let ?y = "x\<lparr>extension := extension x @ [e]\<rparr>"
  have "push_clause_literal i x = Some ?y" by (simp add: push_clause_literal_def es del: bind_Some_iff)
  moreover have "push_literals is ?y = Some (?y\<lparr>extension := extension ?y @ es'\<rparr>)" by (rule Cons.IH) (use es(5) in simp)
  ultimately show ?case by (simp add: es(1) del: bind_Some_iff)
qed simp

text \<open>A clause with its pivot becomes an entry on top of the stack, and the pivot is marked as a witness.\<close>

lemma push_clause_pivot_ok:
  assumes "list_all2 (\<lambda>i e. i \<noteq> 0 \<and> externalize i x = Some e \<and> e \<noteq> 0) is es" "p \<noteq> 0" "externalize p x = Some e" "e \<noteq> 0"
  obtains x' where "push_clause_pivot is p x = Some x'" "extension x' = extension x @ flat [([e], es)]"
    "\<And>l. l \<noteq> 0 \<Longrightarrow> marked (witness x') l = (l = e \<or> marked (witness x) l)"
proof -
  define w where "w = (if marked (witness x) e then witness x else mark (witness x) e)"
  have "(if marked (witness x) e then x\<lparr>extension := k\<rparr> else x\<lparr>extension := k, witness := mark (witness x) e\<rparr>) =
      x\<lparr>extension := k, witness := w\<rparr>" for k
    by (cases x) (simp add: w_def)
  from this [of "extension x @ [0, e]"] have "push_witness_literal p (push_zero x) = Some (x\<lparr>extension := extension x @ [0, e], witness := w\<rparr>)"
    using assms(2-4) by (simp add: push_witness_literal_def push_zero_def Let_def split: if_splits)
  moreover have "push_literals is (push_zero (x\<lparr>extension := extension x @ [0, e], witness := w\<rparr>)) =
      Some (x\<lparr>extension := extension x @ [0, e, 0] @ es, witness := w\<rparr>)"
    using push_literals_eq [of "push_zero (x\<lparr>extension := extension x @ [0, e], witness := w\<rparr>)" "is" es] assms(1)
    by (simp add: push_zero_def)
  ultimately have "push_clause_pivot is p x = Some (x\<lparr>extension := extension x @ [0, e, 0] @ es, witness := w\<rparr>)"
    by (simp add: push_clause_pivot_def push_clause_def del: bind_Some_iff)
  moreover have "marked w l = (l = e \<or> marked (witness x) l)" if "l \<noteq> 0" for l
    using that assms(4) by (auto simp: w_def marks.look_mk)
  ultimately show ?thesis using that [of "x\<lparr>extension := extension x @ [0, e, 0] @ es, witness := w\<rparr>"] by simp
qed

section \<open>The checker of models\<close>

text \<open>The clauses of a vector of literals that are ended by a zero; the rest is a clause under construction.\<close>

fun complete_clauses :: "int list \<Rightarrow> int list \<Rightarrow> clause list" where
  "complete_clauses acc [] = []"
| "complete_clauses acc (l # ls) = (if l = 0 then acc # complete_clauses [] ls else complete_clauses (acc @ [l]) ls)"

lemma check_clauses_iff:
  "check_clauses a (\<exists>l \<in> set acc. a l > 0) ls = (\<forall>c \<in> set (complete_clauses acc ls). \<exists>l \<in> set c. a l > 0)"
proof (induction acc ls rule: complete_clauses.induct)
  case (2 acc l ls)
  show ?case
  proof (cases "l = 0")
    case True
    then show ?thesis using 2(1) by simp
  next
    case False
    have "(\<exists>k \<in> set (acc @ [l]). a k > 0) = ((\<exists>k \<in> set acc. a k > 0) \<or> a l > 0)" by auto
    then show ?thesis using 2(2) [OF False] False by (simp only: check_clauses.simps complete_clauses.simps if_False)
  qed
qed simp

lemma complete_clauses_nz: "0 \<notin> set acc \<Longrightarrow> c \<in> set (complete_clauses acc ls) \<Longrightarrow> 0 \<notin> set c"
  by (induction acc ls rule: complete_clauses.induct) (auto split: if_splits)

text \<open>The check succeeds exactly on the models of the clauses that were saved.\<close>

lemma check_assignment_iff:
  "check_assignment (\<lambda>l. ival l x) x = sat_all (ext_model x) (set (complete_clauses [] (original x)))"
proof -
  have "list_all (\<lambda>idx. ival (int idx) x \<noteq> 0 \<and> ival (int idx) x = - ival (- int idx) x) [1..<max_var x + 1]"
    by (auto simp: list_all_iff ival_def Let_def simp del: upt_Suc)
  moreover have "check_clauses (\<lambda>l. ival l x) False (original x) =
      (\<forall>c \<in> set (complete_clauses [] (original x)). \<exists>l \<in> set c. ival l x > 0)"
    using check_clauses_iff [of "\<lambda>l. ival l x" "[]" "original x"] by simp
  moreover have "(\<exists>l \<in> set c. ival l x > 0) = sat_clause (ext_model x) c" if "c \<in> set (complete_clauses [] (original x))" for c
  proof -
    have "0 \<notin> set c" using complete_clauses_nz [of "[]" c] that by simp
    then show ?thesis using ival_lit_true(1) [of _ x] unfolding sat_clause_def by (metis)
  qed
  ultimately show ?thesis unfolding check_assignment_def sat_all_def by blast
qed

end
