(* ===== verification/Cadical_Restore.thy ===== *)
theory Cadical_Restore
  imports Cadical_Reconstruct
begin

text \<open>
  \<open>restore_clauses\<close> keeps the extension stack usable when clauses were added: what stays on the stack is
  redundant for the larger formula, what was taken off is in the formula again or follows from it.
\<close>

section \<open>The loop over entries\<close>

fun restore_es :: "(icall list \<Rightarrow> int \<Rightarrow> int) \<Rightarrow> entry list \<Rightarrow> external \<Rightarrow> (entry list \<times> external) option" where
  "restore_es ifixed [] x = Some ([], x)"
| "restore_es ifixed ((w, c) # es) x =
     do { (removed, x) \<leftarrow> restore_entry ifixed w c x;
          (kept, x) \<leftarrow> restore_es ifixed es x;
          Some (if removed then kept else (w, c) # kept, x) }"

lemma clause_ends:
  assumes "0 \<notin> set c"
  shows "takeWhile (\<lambda>l. l \<noteq> 0) (c @ flat es) = c" "dropWhile (\<lambda>l. l \<noteq> 0) (c @ flat es) = flat es"
proof -
  have nz: "\<forall>l \<in> set c. l \<noteq> 0" using assms by auto
  have "takeWhile (\<lambda>l. l \<noteq> 0) (flat es) = []" "dropWhile (\<lambda>l. l \<noteq> 0) (flat es) = flat es"
    by (cases es; simp add: flat_def split: prod.splits)+
  then show "takeWhile (\<lambda>l. l \<noteq> 0) (c @ flat es) = c" "dropWhile (\<lambda>l. l \<noteq> 0) (c @ flat es) = flat es"
    using nz by (simp_all add: takeWhile_append2 dropWhile_append2)
qed

lemma restore_loop_flat:
  "\<forall>e \<in> set es. stack_entry_ok n e \<Longrightarrow>
   restore_loop f (flat es) q x = map_option (\<lambda>(kept, x'). (q @ flat kept, x')) (restore_es f es x)"
proof (induction es arbitrary: q x)
  case Nil
  then show ?case by (subst restore_loop.simps) simp
next
  case (Cons e es)
  obtain w c where e: "e = (w, c)" by (cases e)
  have nz: "0 \<notin> set w" "0 \<notin> set c" using Cons.prems stack_entry_ok_nz [of n w c] by (auto simp: e)
  have pop: "pop_lits [] (w @ 0 # c @ flat es) = Some (w, c @ flat es)" using pop_lits_eq [OF nz(1)] by simp
  note ends = clause_ends [OF nz(2), of es]
  have loop: "restore_loop f (flat (e # es)) q x =
      (case restore_entry f w c x of None \<Rightarrow> None
       | Some (removed, x) \<Rightarrow> restore_loop f (flat es) (if removed then q else q @ [0] @ w @ [0] @ c) x)"
    unfolding e flat_simps by (subst restore_loop.simps) (simp only: list.case pop option.case prod.case Let_def ends simp_thms if_False)
  show ?case
  proof (cases "restore_entry f w c x")
    case None
    then show ?thesis unfolding loop by (simp add: e)
  next
    case (Some r)
    obtain b y where r: "r = (b, y)" by (cases r)
    show ?thesis
      unfolding loop using Cons by (cases "restore_es f es y") (auto simp: Some r e)
  qed
qed

lemma mark_lits_eq: "0 \<notin> set ls \<Longrightarrow> mark_lits (ls @ 0 # r) w = Some (fold (\<lambda>l t. mark t l) ls w, r)"
  by (induction ls arbitrary: w) auto

lemma mark_witnesses_flat:
  "\<forall>e \<in> set es. stack_entry_ok n e \<Longrightarrow>
   \<exists>m'. mark_witnesses (rev (flat es)) m = Some m' \<and>
     (\<forall>l. l \<noteq> 0 \<longrightarrow> marked m' l = (marked m l \<or> (\<exists>e \<in> set es. l \<in> set (fst e))))"
proof (induction es arbitrary: m rule: rev_induct)
  case Nil
  then show ?case by (simp add: mark_witnesses.simps)
next
  case (snoc e es)
  obtain w c where e: "e = (w, c)" by (cases e)
  have nz: "0 \<notin> set (rev w)" "0 \<notin> set (rev c)" using snoc.prems stack_entry_ok_nz [of n w c] by (auto simp: e)
  have r: "rev (flat (es @ [e])) = rev c @ 0 # rev w @ 0 # rev (flat es)" by (simp add: e)
  let ?m = "fold (\<lambda>l t. mark t l) (rev w) m"
  have "mark_witnesses (rev (flat (es @ [e]))) m = mark_witnesses (rev (flat es)) ?m"
    unfolding r by (subst mark_witnesses.simps) (simp add: skip_witness_eq [OF nz(2)] mark_lits_eq [OF nz(1)] del: fold_rev)
  moreover obtain m' where "mark_witnesses (rev (flat es)) ?m = Some m'"
      "\<forall>l. l \<noteq> 0 \<longrightarrow> marked m' l = (marked ?m l \<or> (\<exists>e \<in> set es. l \<in> set (fst e)))"
    using snoc.IH [of ?m] snoc.prems by auto
  moreover have "l \<noteq> 0 \<Longrightarrow> marked ?m l = (l \<in> set w \<or> marked m l)" for l
    using marks.look_fold [OF nz(1)] by simp
  ultimately show ?case by (auto simp: e)
qed

section \<open>Restoring one clause\<close>

text \<open>The calls that pass a list of clauses on to the search.\<close>

definition restored_calls :: "external \<Rightarrow> clause list \<Rightarrow> external \<Rightarrow> bool" where
  "restored_calls x R y =
     (xgrows x y \<and> (\<forall>c \<in> set R. \<forall>l \<in> set c. usable y l) \<and>
      x_calls y = x_calls x @ concat (map (\<lambda>c. map (\<lambda>l. Add_original (ilit_of l y)) c @ [Add_original 0]) R))"

lemma restored_calls_nil [simp]: "restored_calls x [] x"
  by (simp add: restored_calls_def)

lemma restored_calls_append:
  assumes "restored_calls x R y" "restored_calls y S z"
  shows "restored_calls x (R @ S) z"
proof -
  have g: "xgrows x y" "xgrows y z" using assms by (simp_all add: restored_calls_def)
  have u: "usable z l \<and> ilit_of l z = ilit_of l y" if "c \<in> set R" "l \<in> set c" for c l
    using that assms(1) usable_xgrows [OF _ g(2)] by (auto simp: restored_calls_def)
  then have "map (\<lambda>c. map (\<lambda>l. Add_original (ilit_of l y)) c @ [Add_original 0]) R =
      map (\<lambda>c. map (\<lambda>l. Add_original (ilit_of l z)) c @ [Add_original 0]) R"
    by (intro map_cong) auto
  then have "concat (map (\<lambda>c. map (\<lambda>l. Add_original (ilit_of l y)) c @ [Add_original 0]) R) =
      concat (map (\<lambda>c. map (\<lambda>l. Add_original (ilit_of l z)) c @ [Add_original 0]) R)"
    by (rule arg_cong)
  then have "x_calls z = x_calls x @ concat (map (\<lambda>c. map (\<lambda>l. Add_original (ilit_of l z)) c @ [Add_original 0]) (R @ S))"
    using assms by (simp add: restored_calls_def)
  then show ?thesis using assms u xgrows_trans [OF g] by (auto simp: restored_calls_def)
qed

definition ready_ext :: "external \<Rightarrow> bool" where
  "ready_ext x = (numbered x \<and> \<not> extended x \<and> \<not> o_checkfrozen (x_opts x))"

lemma restore_lits_ok:
  assumes "ready_ext x" "\<forall>l \<in> set ls. l \<noteq> 0 \<and> l \<noteq> int_min"
  obtains x' where "restore_lits ls x = Some x'" "ready_ext x'" "xgrows x x'" "\<forall>l \<in> set ls. usable x' l"
    "x_calls x' = x_calls x @ map (\<lambda>l. Add_original (ilit_of l x')) ls"
  using assms
proof (induction ls arbitrary: x thesis)
  case Nil
  then show ?case by simp
next
  case (Cons l ls)
  have pre: "numbered x" "\<not> extended x" "\<not> o_checkfrozen (x_opts x)" "l \<noteq> 0" "l \<noteq> int_min"
    using Cons.prems(2,3) by (simp_all add: ready_ext_def)
  obtain y where y: "internalize l x = Some (ilit_of l y, y)" "numbered y" "xgrows x y" "usable y l" "x_calls y = x_calls x" "\<not> extended y"
    using internalize_xgrows [OF pre] by metis
  let ?y = "xcall (Add_original (ilit_of l y)) y"
  have y': "ready_ext ?y" "xgrows x ?y" "usable ?y l" using y pre(3) by (simp_all add: ready_ext_def xgrows_def usable_def)
  obtain z where z: "restore_lits ls ?y = Some z" "ready_ext z" "xgrows ?y z" "\<forall>l \<in> set ls. usable z l"
      "x_calls z = x_calls ?y @ map (\<lambda>l. Add_original (ilit_of l z)) ls"
    using Cons.IH [of ?y] y'(1) Cons.prems(3) by auto
  have l: "usable z l" "ilit_of l z = ilit_of l y" using usable_xgrows [OF y'(3) z(3)] by simp_all
  show ?case
  proof (rule Cons.prems(1))
    show "restore_lits (l # ls) x = Some z" using y(1) z(1) by simp
    show "xgrows x z" using xgrows_trans [OF y'(2) z(3)] .
    show "x_calls z = x_calls x @ map (\<lambda>l. Add_original (ilit_of l z)) (l # ls)" using z(5) y(5) l by simp
  qed (use z l in simp_all)
qed

lemma restore_clause_ok:
  assumes "ready_ext x" "\<forall>l \<in> set c. l \<noteq> 0 \<and> l \<noteq> int_min"
  obtains x' where "restore_clause c x = Some x'" "ready_ext x'" "restored_calls x [c] x'"
proof -
  obtain y where y: "restore_lits c x = Some y" "ready_ext y" "xgrows x y" "\<forall>l \<in> set c. usable y l"
      "x_calls y = x_calls x @ map (\<lambda>l. Add_original (ilit_of l y)) c"
    using restore_lits_ok [OF assms] by metis
  let ?y = "xcall (Add_original 0) y"
  have "restore_clause c x = Some ?y" using y(1) by (simp add: restore_clause_def)
  moreover have "ready_ext ?y" using y(2) by (simp add: ready_ext_def)
  moreover have "restored_calls x [c] ?y" using y(3-5) by (simp add: restored_calls_def xgrows_def usable_def)
  ultimately show ?thesis by (rule that)
qed

lemma find_tlit_0: "0 \<notin> set ls \<Longrightarrow> find_tlit x t ls = 0 \<Longrightarrow> t = 0 \<and> (\<forall>l \<in> set ls. \<not> marked (tainted x) (- l))"
  by (induction ls arbitrary: t) (auto split: if_splits)

lemma find_satisfied_sat:
  "find_satisfied f x s ls \<noteq> 0 \<Longrightarrow> find_satisfied f x s ls = s \<or>
   (find_satisfied f x s ls \<in> set ls \<and> ext_fixed f (find_satisfied f x s ls) x > 0)"
proof (induction ls arbitrary: s)
  case (Cons l ls)
  define t where "t = (if s = 0 \<and> ext_fixed f l x > 0 then l else s)"
  have "t = s \<or> t = l \<and> ext_fixed f l x > 0" by (simp add: t_def)
  then show ?case using Cons.IH [of t] Cons.prems by (auto simp: t_def [symmetric])
qed simp

text \<open>The three fates of an entry.\<close>

lemma restore_entry_cases:
  assumes "ready_ext x" "\<forall>l \<in> set c. l \<noteq> 0 \<and> l \<noteq> int_min" "0 \<notin> set w"
  obtains (keep) "restore_entry f w c x = Some (False, x)" "\<forall>l \<in> set w. \<not> marked (tainted x) (- l)"
    | (flush) l where "restore_entry f w c x = Some (True, x)" "l \<in> set c" "ext_fixed (f (x_calls x)) l x > 0"
    | (restore) y where "restore_entry f w c x = Some (True, y)" "ready_ext y" "restored_calls x [c] y"
proof -
  let ?t = "find_tlit x 0 w"
  let ?s = "find_satisfied (f (x_calls x)) x 0 c"
  let ?s' = "if ?s \<noteq> 0 \<and> \<not> o_restoreflush (x_opts x) then 0 else ?s"
  obtain y where y: "restore_clause c x = Some y" "ready_ext y" "restored_calls x [c] y"
    by (rule restore_clause_ok [OF assms(1,2)])
  have eq: "restore_entry f w c x =
      (if ?s' \<noteq> 0 then Some (True, x) else if ?t \<noteq> 0 \<or> o_restoreall (x_opts x) \<noteq> 0 then Some (True, y) else Some (False, x))"
    using y(1) by (simp add: restore_entry_def Let_def)
  show ?thesis
  proof (cases "?s' \<noteq> 0")
    case True
    then have s: "?s \<noteq> 0" by (auto split: if_splits)
    then have "?s \<in> set c" "ext_fixed (f (x_calls x)) ?s x > 0" using find_satisfied_sat [OF s] by auto
    then show ?thesis using flush [of ?s] eq True by simp
  next
    case False
    then have eq': "restore_entry f w c x = (if ?t \<noteq> 0 \<or> o_restoreall (x_opts x) \<noteq> 0 then Some (True, y) else Some (False, x))"
      unfolding eq by (rule if_not_P)
    show ?thesis
    proof (cases "?t \<noteq> 0 \<or> o_restoreall (x_opts x) \<noteq> 0")
      case True
      then show ?thesis using restore [OF _ y(2,3)] eq' by simp
    next
      case False
      then show ?thesis using keep eq' find_tlit_0 [OF assms(3), of x 0] by simp
    qed
  qed
qed

section \<open>The stack after restoring\<close>

lemma make_true_keeps:
  "\<forall>l \<in> set ls. l \<noteq> 0 \<and> - l \<notin> set d \<Longrightarrow> 0 \<notin> set d \<Longrightarrow> sat_clause \<sigma> d \<Longrightarrow> sat_clause (fold make_true ls \<sigma>) d"
proof (induction ls arbitrary: \<sigma>)
  case (Cons l ls)
  obtain k where k: "k \<in> set d" "lit_true \<sigma> k" using Cons.prems(3) by (auto simp: sat_clause_def)
  moreover have "k \<noteq> 0" "k \<noteq> - l" "l \<noteq> 0" using k(1) Cons.prems(1,2) by auto
  ultimately have "lit_true (make_true l \<sigma>) k" by (simp add: lit_true_make)
  then have "sat_clause (make_true l \<sigma>) d" using k(1) by (auto simp: sat_clause_def)
  then show ?case using Cons by simp
qed simp

text \<open>
  A new clause is safe for a stack when every literal of it whose negation is a witness there is tainted.
\<close>

definition taint_safe :: "clause set \<Rightarrow> entry list \<Rightarrow> external \<Rightarrow> bool" where
  "taint_safe G es x =
     (\<forall>g \<in> G. 0 \<notin> set g \<and> (\<forall>l \<in> set g. \<forall>e \<in> set es. - l \<in> set (fst e) \<longrightarrow> marked (tainted x) l))"

text \<open>Every witness literal is marked.\<close>

definition witness_marked :: "entry list \<Rightarrow> external \<Rightarrow> bool" where
  "witness_marked es x = (\<forall>e \<in> set es. \<forall>l \<in> set (fst e). marked (witness x) l)"

text \<open>
  What the search promises: a literal it holds true at the root level follows from the clauses it was given, those of \<open>F\<close> and
  \<open>G\<close> and the restored ones.
\<close>

definition fixed_sound :: "(icall list \<Rightarrow> int \<Rightarrow> int) \<Rightarrow> clause set \<Rightarrow> external \<Rightarrow> bool" where
  "fixed_sound ifixed H x =
     (\<forall>R y l. restored_calls x R y \<and> l \<noteq> 0 \<and> ext_fixed (ifixed (x_calls y)) l y > 0 \<longrightarrow>
        (\<forall>\<sigma>. sat_all \<sigma> (H \<union> set R) \<longrightarrow> lit_true \<sigma> l))"

lemma fixed_sound_step:
  assumes "fixed_sound f H x" "restored_calls x [c] y"
  shows "fixed_sound f (insert c H) y"
  unfolding fixed_sound_def
proof (intro allI impI)
  fix R z l \<sigma>
  assume z: "restored_calls y R z \<and> l \<noteq> 0 \<and> 0 < ext_fixed (f (x_calls z)) l z" and s: "sat_all \<sigma> (insert c H \<union> set R)"
  have "restored_calls x (c # R) z" using restored_calls_append [OF assms(2), of R z] z by simp
  then show "lit_true \<sigma> l" using assms(1) z s unfolding fixed_sound_def by (metis Un_insert_left Un_insert_right list.simps(15))
qed

lemma taint_safe_xgrows: "taint_safe G es x \<Longrightarrow> xgrows x y \<Longrightarrow> taint_safe G es y"
  unfolding taint_safe_def xgrows_def by (metis)

lemma taint_safe_restored:
  assumes "taint_safe G es x" "witness_marked es x" "restored_calls x [c] y" "0 \<notin> set c"
  shows "taint_safe (insert c G) es y"
proof -
  have g: "xgrows x y" and u: "\<forall>l \<in> set c. usable y l" using assms(3) by (simp_all add: restored_calls_def)
  have "marked (tainted y) l" if "l \<in> set c" "e \<in> set es" "- l \<in> set (fst e)" for l e
    using that assms(2) u g by (auto simp: usable_def witness_marked_def xgrows_def)
  then show ?thesis using taint_safe_xgrows [OF assms(1) g] assms(4) by (auto simp: taint_safe_def)
qed

text \<open>What the entries become: \<open>kept\<close> stay on the stack, \<open>R\<close> are the clauses that went back to the search.\<close>

definition restored :: "clause set \<Rightarrow> entry list \<Rightarrow> external \<Rightarrow> entry list \<Rightarrow> clause list \<Rightarrow> external \<Rightarrow> bool" where
  "restored H es x kept R y =
     (ready_ext y \<and> restored_calls x R y \<and> set kept \<subseteq> set es \<and> set R \<subseteq> clauses_of es \<and>
      stack_ok (H \<union> set R) kept \<and> (\<forall>\<sigma>. sat_all \<sigma> (H \<union> set R \<union> clauses_of kept) \<longrightarrow> sat_all \<sigma> (clauses_of es)))"

text \<open>An entry that is kept is redundant for the larger formula too.\<close>

lemma redundant_kept:
  assumes "redundant (F \<union> C) (w, c)" "\<forall>l \<in> set w. l \<noteq> 0 \<and> \<not> marked (tainted x) (- l)" "taint_safe G ((w, c) # es) x"
    "R \<subseteq> C" "K \<subseteq> C" "\<forall>\<sigma>. sat_all \<sigma> (F \<union> G \<union> R \<union> K) \<longrightarrow> sat_all \<sigma> C"
  shows "redundant (F \<union> G \<union> R \<union> K) (w, c)"
proof -
  have "sat_all (fold make_true (rev w) \<sigma>) (insert c (F \<union> G \<union> R \<union> K))"
    if s: "sat_all \<sigma> (F \<union> G \<union> R \<union> K)" "\<not> sat_clause \<sigma> c" for \<sigma>
  proof -
    let ?t = "fold make_true (rev w) \<sigma>"
    have "sat_all \<sigma> (F \<union> C)" using s(1) assms(6) by auto
    then have t: "sat_all ?t (insert c (F \<union> C))" using assms(1) s(2) unfolding redundant_def by simp
    have "sat_clause ?t g" if g: "g \<in> G" for g
    proof (rule make_true_keeps)
      show "\<forall>l \<in> set (rev w). l \<noteq> 0 \<and> - l \<notin> set g"
        using assms(2,3) g unfolding taint_safe_def by (metis fst_conv list.set_intros(1) minus_minus set_rev)
      show "0 \<notin> set g" using assms(3) g by (simp add: taint_safe_def)
      show "sat_clause \<sigma> g" using s(1) g by (auto simp: sat_all_def)
    qed
    then show ?thesis using t assms(4,5) unfolding sat_all_def by auto
  qed
  then show ?thesis by (simp add: redundant_def)
qed

lemma restore_es_ok:
  assumes "ready_ext x" "\<forall>e \<in> set es. stack_entry_ok n e" "n < 2 ^ 31" "stack_ok F es" "taint_safe G es x" "witness_marked es x"
    "fixed_sound f (F \<union> G) x"
  obtains kept R y where "restore_es f es x = Some (kept, y)" "restored (F \<union> G) es x kept R y"
  using assms
proof (induction es arbitrary: x G thesis)
  case Nil
  then show ?case using Nil(1) [of "[]" x "[]"] by (simp add: restored_def)
next
  case (Cons e es)
  obtain w c where e: "e = (w, c)" by (cases e)
  have ok: "stack_entry_ok n (w, c)" "\<forall>e \<in> set es. stack_entry_ok n e" using Cons.prems(3) by (simp_all add: e)
  have big: "nat \<bar>int_min\<bar> > n" using Cons.prems(4) by (simp add: int_min_def)
  have "\<not> lit_upto n int_min" using big by (simp add: lit_upto_def)
  then have lits: "\<forall>l \<in> set c. l \<noteq> 0 \<and> l \<noteq> int_min" "0 \<notin> set w" "\<forall>l \<in> set w. l \<noteq> 0" "0 \<notin> set c"
    using ok(1) by (auto simp: stack_entry_ok_def)
  have st: "redundant (F \<union> clauses_of es) (w, c)" "stack_ok F es" using Cons.prems(5) by (simp_all add: e)
  have sub: "taint_safe G es x" "witness_marked es x"
    using Cons.prems(6,7) by (auto simp: taint_safe_def witness_marked_def)
  note IH = Cons.IH [OF _ _ ok(2) Cons.prems(4) st(2)]
  show ?case
  proof (rule restore_entry_cases [OF Cons.prems(2) lits(1,2), of f])
    assume keep: "restore_entry f w c x = Some (False, x)" "\<forall>l \<in> set w. \<not> marked (tainted x) (- l)"
    obtain kept R y where r: "restore_es f es x = Some (kept, y)" "restored (F \<union> G) es x kept R y"
      using IH [OF _ Cons.prems(2) sub Cons.prems(8)] by blast
    have "set kept \<subseteq> set es" using r(2) by (simp add: restored_def)
    then have "clauses_of kept \<subseteq> clauses_of es" by (auto simp: clauses_of_def)
    then have "redundant (F \<union> G \<union> set R \<union> clauses_of kept) (w, c)"
      using r(2) keep(2) lits(3) Cons.prems(6) by (intro redundant_kept [OF st(1), where es = es and x = x]) (auto simp: restored_def e)
    then have "restored (F \<union> G) (e # es) x ((w, c) # kept) R y" using r(2) by (auto simp: restored_def e)
    moreover have "restore_es f (e # es) x = Some ((w, c) # kept, y)" using keep(1) r(1) by (simp add: e)
    ultimately show ?thesis by (rule Cons.prems(1) [rotated])
  next
    fix l assume flush: "restore_entry f w c x = Some (True, x)" "l \<in> set c" "ext_fixed (f (x_calls x)) l x > 0"
    obtain kept R y where r: "restore_es f es x = Some (kept, y)" "restored (F \<union> G) es x kept R y"
      using IH [OF _ Cons.prems(2) sub Cons.prems(8)] by blast
    have "sat_clause \<sigma> c" if "sat_all \<sigma> (F \<union> G)" for \<sigma>
      using Cons.prems(8) flush(2,3) lits(1) that restored_calls_nil unfolding fixed_sound_def sat_clause_def
      by (metis Un_empty_right empty_set)
    then have "restored (F \<union> G) (e # es) x kept R y" using r(2) by (auto simp: restored_def e)
    moreover have "restore_es f (e # es) x = Some (kept, y)" using flush(1) r(1) by (simp add: e)
    ultimately show ?thesis by (rule Cons.prems(1) [rotated])
  next
    fix y assume res: "restore_entry f w c x = Some (True, y)" "ready_ext y" "restored_calls x [c] y"
    have "taint_safe (insert c G) es y" by (rule taint_safe_restored [OF sub res(3) lits(4)])
    moreover have "witness_marked es y" using sub(2) res(3) by (simp add: witness_marked_def restored_calls_def xgrows_def)
    moreover have "fixed_sound f (F \<union> insert c G) y" using fixed_sound_step [OF Cons.prems(8) res(3)] by simp
    ultimately obtain kept R z where r: "restore_es f es y = Some (kept, z)" "restored (F \<union> insert c G) es y kept R z"
      using IH [OF _ res(2)] by blast
    have "restored_calls x (c # R) z" using restored_calls_append [OF res(3), of R z] r(2) by (simp add: restored_def)
    then have "restored (F \<union> G) (e # es) x kept (c # R) z" using r(2) by (auto simp: restored_def e)
    moreover have "restore_es f (e # es) x = Some (kept, z)" using res(1) r(1) by (simp add: e)
    ultimately show ?thesis by (rule Cons.prems(1) [rotated])
  qed
qed

text \<open>
  The whole operation. Whatever model the search finds afterwards, \<open>extend\<close> turns it into a model of the new
  formula and of every clause that was on the stack before.
\<close>

lemma restore_clauses_ok:
  assumes "ready_ext x" "extension x = flat es" "\<forall>e \<in> set es. stack_entry_ok n e" "n < 2 ^ 31" "stack_ok F es" "taint_safe G es x"
    "witness_marked es x" "fixed_sound f (F \<union> G) x" "tainted x \<noteq> []"
  obtains kept R y where "restore_clauses f x = Some y" "extension y = flat kept" "set kept \<subseteq> set es" "set R \<subseteq> clauses_of es"
    "tainted y = []" "\<And>l. l \<noteq> 0 \<Longrightarrow> marked (witness y) l = (\<exists>e \<in> set kept. l \<in> set (fst e))"
    "x_calls y = x_calls x @ concat (map (\<lambda>c. map (\<lambda>l. Add_original (ilit_of l y)) c @ [Add_original 0]) R)"
    "stack_ok (F \<union> G \<union> set R) kept"
    "\<And>\<sigma>. sat_all \<sigma> (F \<union> G \<union> set R) \<Longrightarrow> sat_all (foldr reconstruct kept \<sigma>) (F \<union> G \<union> clauses_of es)"
    "ready_ext y" "max_var x \<le> max_var y"
proof -
  obtain kept R y where r: "restore_es f es x = Some (kept, y)" "restored (F \<union> G) es x kept R y"
    using restore_es_ok [OF assms(1,3-8)] by blast
  have kept: "\<forall>e \<in> set kept. stack_entry_ok n e" using r(2) assms(3) by (auto simp: restored_def)
  obtain m where m: "mark_witnesses (rev (flat kept)) [] = Some m"
      "\<forall>l. l \<noteq> 0 \<longrightarrow> marked m l = (marked [] l \<or> (\<exists>e \<in> set kept. l \<in> set (fst e)))"
    using mark_witnesses_flat [OF kept] by blast
  let ?y = "y\<lparr>extension := flat kept, tainted := [], witness := m\<rparr>"
  have eq: "restore_clauses f x = Some ?y"
    using restore_loop_flat [OF assms(3), of f "[]" x] r(1) m(1) assms(2,9) by (simp add: restore_clauses_def)
  have il: "ilit_of l ?y = ilit_of l y" for l by (simp add: ilit_of_def)
  have "ready_ext ?y" using r(2) by (simp add: restored_def ready_ext_def numbered_def)
  moreover have "sat_all (foldr reconstruct kept \<sigma>) (F \<union> G \<union> clauses_of es)" if "sat_all \<sigma> (F \<union> G \<union> set R)" for \<sigma>
    using reconstruct_sound [of "F \<union> G \<union> set R" kept \<sigma>] that r(2) by (auto simp: restored_def)
  ultimately show ?thesis
    using that [of ?y kept R] eq r(2) m(2) by (simp add: restored_def restored_calls_def il marks.look_none xgrows_def)
qed

end
