(* ===== verification/Cadical_Api.thy ===== *)
theory Cadical_Api
  imports Cadical_Restore
begin

text \<open>
  \<open>lib/cadical/src/solver.cpp\<close> with the states of \<open>cadical.hpp\<close> and the contracts of \<open>contract.hpp\<close>: the programming
  interface of CaDiCaL over the external layer. The states are bits of a bit set, as in the code. A call outside
  its contract ends the program (\<open>Violated\<close>); \<open>Broken\<close> is a failed assertion or a fatal error below the
  interface.

  The search is a parameter, the record \<open>search\<close>: the answers and the states that \<open>Internal::solve\<close>, \<open>find_up_implicants\<close>, \<open>lookahead\<close> and
  \<open>generate_cubes\<close> leave, where \<^term>\<open>None\<close> is a failed assertion inside the search, the values, the failed assumptions,
  the failed constraint and the answer of the debugging check of failed assumptions. What the layer passes on to the internal solver
  between two searches is recorded, not run. The calls for options, limits, tracing, proofs, files, statistics and copying are left out.
\<close>

section \<open>States\<close>

unbundle bit_operations_syntax

type_synonym state_bits = "8 word"

definition st_INITIALIZING :: state_bits where "st_INITIALIZING = 1"
definition st_CONFIGURING :: state_bits where "st_CONFIGURING = 2"
definition st_UNKNOWN :: state_bits where "st_UNKNOWN = 4"
definition st_ADDING :: state_bits where "st_ADDING = 8"
definition st_SOLVING :: state_bits where "st_SOLVING = 16"
definition st_SATISFIED :: state_bits where "st_SATISFIED = 32"
definition st_UNSATISFIED :: state_bits where "st_UNSATISFIED = 64"
definition st_DELETING :: state_bits where "st_DELETING = 128"

definition st_READY :: state_bits where
  "st_READY = st_CONFIGURING OR st_UNKNOWN OR st_SATISFIED OR st_UNSATISFIED"

definition st_VALID :: state_bits where
  "st_VALID = st_READY OR st_ADDING"

lemmas st_defs = st_INITIALIZING_def st_CONFIGURING_def st_UNKNOWN_def st_ADDING_def st_SOLVING_def st_SATISFIED_def
  st_UNSATISFIED_def st_DELETING_def

datatype 'a outcome = Violated | Broken | Done 'a

record search =
  isolve :: "bool \<Rightarrow> external \<Rightarrow> (int \<times> external) option"
  iup :: "int list \<Rightarrow> external \<Rightarrow> (bool \<times> int list \<times> external) option"
  ilookahead :: "external \<Rightarrow> (int \<times> external) option"
  icubes :: "int \<Rightarrow> int \<Rightarrow> external \<Rightarrow> (int \<times> int list list \<times> external) option"
  ivalue :: "external \<Rightarrow> int \<Rightarrow> int"
  ifailed :: "external \<Rightarrow> int \<Rightarrow> bool"
  ifailed_constraint :: "external \<Rightarrow> bool"
  icheck_failing :: "external \<Rightarrow> bool"

record api =
  a_state :: state_bits
  adding_clause :: bool
  adding_constraint :: bool
  a_ext :: external
  a_terminator :: nat
  a_learner :: nat

definition is_valid :: "api \<Rightarrow> bool" where
  "is_valid a = (a_state a AND st_VALID \<noteq> 0)"

definition is_ready :: "api \<Rightarrow> bool" where
  "is_ready a = (is_valid a \<and> a_state a \<noteq> st_ADDING)"

definition valid_or_solving :: "api \<Rightarrow> bool" where
  "valid_or_solving a = (a_state a AND (st_VALID OR st_SOLVING) \<noteq> 0)"

definition valid_lit :: "int \<Rightarrow> bool" where
  "valid_lit lit = (lit \<noteq> 0 \<and> lit \<noteq> int_min)"

definition on_ext :: "api \<Rightarrow> external option \<Rightarrow> (api \<Rightarrow> api) \<Rightarrow> api outcome" where
  "on_ext a r f = (case r of None \<Rightarrow> Broken | Some x \<Rightarrow> Done (f (a\<lparr>a_ext := x\<rparr>)))"

section \<open>Operations\<close>

definition api_new :: "xopts \<Rightarrow> api" where
  "api_new os =
     (let a = \<lparr>a_state = st_INITIALIZING, adding_clause = False, adding_constraint = False, a_ext = external_new os,
               a_terminator = 0, a_learner = 0\<rparr>
      in a\<lparr>a_state := st_CONFIGURING\<rparr>)"

definition api_delete :: "api \<Rightarrow> api outcome" where
  "api_delete a = (if \<not> valid_or_solving a then Violated else Done (a\<lparr>a_state := st_DELETING\<rparr>))"

definition to_unknown :: "api \<Rightarrow> api" where
  "to_unknown a =
     (let a = (if a_state a = st_SATISFIED \<or> a_state a = st_UNSATISFIED
               then a\<lparr>a_ext := ext_reset_constraint (ext_reset_assumptions (a_ext a))\<rparr> else a)
      in a\<lparr>a_state := st_UNKNOWN\<rparr>)"

definition api_vars :: "api \<Rightarrow> nat outcome" where
  "api_vars a = (if \<not> valid_or_solving a then Violated else Done (max_var (a_ext a)))"

definition api_reserve :: "nat \<Rightarrow> api \<Rightarrow> api outcome" where
  "api_reserve min_max_var a =
     (if \<not> is_valid a then Violated
      else let a = to_unknown a in on_ext a (init_var min_max_var (reset_extended (a_ext a))) (\<lambda>a. a))"

definition api_add :: "int \<Rightarrow> api \<Rightarrow> api outcome" where
  "api_add lit a =
     (if \<not> is_valid a \<or> (lit \<noteq> 0 \<and> \<not> valid_lit lit) then Violated
      else
        let a = to_unknown a
        in on_ext a (ext_add lit (a_ext a))
             (\<lambda>a. let a = a\<lparr>adding_clause := (lit \<noteq> 0)\<rparr>
                   in if adding_clause a then a\<lparr>a_state := st_ADDING\<rparr>
                      else if \<not> adding_constraint a then a\<lparr>a_state := st_UNKNOWN\<rparr> else a))"

definition api_constrain :: "int \<Rightarrow> api \<Rightarrow> api outcome" where
  "api_constrain lit a =
     (if \<not> is_valid a \<or> (lit \<noteq> 0 \<and> \<not> valid_lit lit) then Violated
      else
        let a = to_unknown a
        in on_ext a (ext_constrain lit (a_ext a))
             (\<lambda>a. let a = a\<lparr>adding_constraint := (lit \<noteq> 0)\<rparr>
                   in if adding_constraint a then a\<lparr>a_state := st_ADDING\<rparr>
                      else if \<not> adding_clause a then a\<lparr>a_state := st_UNKNOWN\<rparr> else a))"

definition api_assume :: "int \<Rightarrow> api \<Rightarrow> api outcome" where
  "api_assume lit a =
     (if \<not> is_valid a \<or> \<not> valid_lit lit then Violated
      else let a = to_unknown a in on_ext a (ext_assume lit (a_ext a)) (\<lambda>a. a))"

definition api_reset_assumptions :: "api \<Rightarrow> api outcome" where
  "api_reset_assumptions a =
     (if \<not> is_valid a then Violated
      else let a = to_unknown a in Done (a\<lparr>a_ext := ext_reset_assumptions (a_ext a)\<rparr>))"

definition api_reset_constraint :: "api \<Rightarrow> api outcome" where
  "api_reset_constraint a =
     (if \<not> is_valid a then Violated
      else let a = to_unknown a in Done (a\<lparr>a_ext := ext_reset_constraint (a_ext a)\<rparr>))"

text \<open>\<open>External::solve\<close> with the debugging checks of its result.\<close>

definition check_solve_result :: "search \<Rightarrow> int \<Rightarrow> external \<Rightarrow> external option" where
  "check_solve_result S res x =
     (if \<not> o_check (x_opts x) then Some x
      else if res = 10 then check_satisfiable (ivalue S x) x
      else if res = 20 \<and> o_checkfailed (x_opts x) \<and> (assumptions x \<noteq> [] \<or> xconstraint x \<noteq> []) \<and> \<not> icheck_failing S x then None
      else Some x)"

definition ext_solve :: "search \<Rightarrow> bool \<Rightarrow> external \<Rightarrow> (int \<times> external) option" where
  "ext_solve S preprocess_only x =
     do { x \<leftarrow> update_molten_literals (reset_extended x);
          (res, x) \<leftarrow> isolve S preprocess_only x;
          x \<leftarrow> check_solve_result S res x;
          Some (res, ext_reset_limits x) }"

definition call_external_solve :: "search \<Rightarrow> bool \<Rightarrow> api \<Rightarrow> (int \<times> api) outcome" where
  "call_external_solve S preprocess_only a =
     (let a = to_unknown a
      in if \<not> is_ready a then Broken
         else let a = a\<lparr>a_state := st_SOLVING\<rparr>
              in case ext_solve S preprocess_only (a_ext a) of
                   None \<Rightarrow> Broken
                 | Some (res, x) \<Rightarrow>
                     let a = a\<lparr>a_ext := x,
                               a_state := (if res = 10 then st_SATISFIED else if res = 20 then st_UNSATISFIED else st_UNKNOWN)\<rparr>
                     in Done (res, if res = 0 then a\<lparr>a_ext := ext_reset_assumptions (a_ext a)\<rparr> else a))"

definition api_solve :: "search \<Rightarrow> api \<Rightarrow> (int \<times> api) outcome" where
  "api_solve S a = (if \<not> is_ready a then Violated else call_external_solve S False a)"

definition api_simplify :: "search \<Rightarrow> int \<Rightarrow> api \<Rightarrow> (int \<times> api) outcome" where
  "api_simplify S rounds a = (if \<not> is_ready a \<or> rounds < 0 then Violated else call_external_solve S True a)"

text \<open>
  \<open>find_up_implicants\<close> assumes its antecedents, propagates and numbers what follows for the user. The vector of implicants is not cleared, so literals that
  the caller left in it are renumbered too.
\<close>

fun assume_all :: "int list \<Rightarrow> external \<Rightarrow> external option" where
  "assume_all [] x = Some x"
| "assume_all (elit # elits) x = do { x \<leftarrow> ext_assume elit x; assume_all elits x }"

fun externalize_all :: "external \<Rightarrow> int list \<Rightarrow> int list option" where
  "externalize_all x [] = Some []"
| "externalize_all x (ilit # ilits) = do { elit \<leftarrow> externalize ilit x; elits \<leftarrow> externalize_all x ilits; Some (elit # elits) }"

definition ext_find_up_implicants :: "search \<Rightarrow> int list \<Rightarrow> int list \<Rightarrow> external \<Rightarrow> ((bool \<times> int list) \<times> external) option" where
  "ext_find_up_implicants S antecedents implicants x =
     do { x \<leftarrow> assume_all antecedents (reset_extended x);
          x \<leftarrow> update_molten_literals x;
          (res, implicants, x) \<leftarrow> iup S implicants x;
          implicants \<leftarrow> externalize_all x implicants;
          Some ((res, implicants), ext_reset_limits x) }"

definition api_find_up_implicants :: "search \<Rightarrow> int list \<Rightarrow> int list \<Rightarrow> api \<Rightarrow> ((bool \<times> int list) \<times> api) outcome" where
  "api_find_up_implicants S antecedents implicants a =
     (if \<not> is_ready a then Violated
      else let a = to_unknown a
           in case ext_find_up_implicants S antecedents implicants (a_ext a) of
                None \<Rightarrow> Broken
              | Some (res, x) \<Rightarrow> Done (res, to_unknown (a\<lparr>a_ext := ext_reset_assumptions x\<rparr>)))"

text \<open>\<open>generate_cubes\<close> computes the external numbers of the literals of its cubes, but returns the cubes unchanged.\<close>

definition ext_lookahead :: "search \<Rightarrow> external \<Rightarrow> (int \<times> external) option" where
  "ext_lookahead S x =
     do { x \<leftarrow> update_molten_literals (reset_extended x);
          (ilit, x) \<leftarrow> ilookahead S x;
          elit \<leftarrow> (if ilit \<noteq> 0 \<and> ilit \<noteq> int_min then externalize ilit x else Some 0);
          Some (elit, x) }"

definition ext_generate_cubes :: "search \<Rightarrow> int \<Rightarrow> int \<Rightarrow> external \<Rightarrow> ((int \<times> int list list) \<times> external) option" where
  "ext_generate_cubes S depth min_depth x =
     do { x \<leftarrow> update_molten_literals (reset_extended x);
          (status, cubes, x) \<leftarrow> icubes S depth min_depth (ext_reset_limits x);
          if list_all (list_all (\<lambda>ilit. ilit = 0 \<or> externalize ilit x \<noteq> None)) cubes then Some ((status, cubes), x) else None }"

definition ext_terminate :: "external \<Rightarrow> external" where
  "ext_terminate x = xcall Force_termination x"

definition api_lookahead :: "search \<Rightarrow> api \<Rightarrow> (int \<times> api) outcome" where
  "api_lookahead S a =
     (if \<not> valid_or_solving a then Violated
      else case ext_lookahead S (a_ext a) of None \<Rightarrow> Broken | Some (lit, x) \<Rightarrow> Done (lit, a\<lparr>a_ext := x\<rparr>))"

definition api_generate_cubes :: "search \<Rightarrow> int \<Rightarrow> int \<Rightarrow> api \<Rightarrow> ((int \<times> int list list) \<times> api) outcome" where
  "api_generate_cubes S depth min_depth a =
     (if \<not> valid_or_solving a then Violated
      else case ext_generate_cubes S depth min_depth (a_ext a) of None \<Rightarrow> Broken | Some (cubes, x) \<Rightarrow> Done (cubes, a\<lparr>a_ext := x\<rparr>))"

definition api_terminate :: "api \<Rightarrow> api outcome" where
  "api_terminate a = (if \<not> valid_or_solving a then Violated else Done (a\<lparr>a_ext := ext_terminate (a_ext a)\<rparr>))"

text \<open>Reading the model extends the assignment of the search first, unless that was done.\<close>

definition api_val :: "search \<Rightarrow> int \<Rightarrow> api \<Rightarrow> (int \<times> api) outcome" where
  "api_val S lit a =
     (if \<not> is_valid a \<or> \<not> valid_lit lit \<or> a_state a \<noteq> st_SATISFIED then Violated
      else case (if extended (a_ext a) then Some (a_ext a) else ext_extend (ivalue S (a_ext a)) (a_ext a)) of
             None \<Rightarrow> Broken
           | Some x \<Rightarrow> Done (ival lit x, a\<lparr>a_ext := x\<rparr>))"

definition api_getSolution :: "search \<Rightarrow> api \<Rightarrow> (bool list \<times> api) outcome" where
  "api_getSolution S a =
     (if \<not> is_valid a \<or> a_state a \<noteq> st_SATISFIED then Violated
      else case (if extended (a_ext a) then Some (a_ext a) else ext_extend (ivalue S (a_ext a)) (a_ext a)) of
             None \<Rightarrow> Broken
           | Some x \<Rightarrow> Done (vals x, a\<lparr>a_ext := x\<rparr>))"

definition api_failed :: "search \<Rightarrow> int \<Rightarrow> api \<Rightarrow> bool outcome" where
  "api_failed S lit a =
     (if \<not> is_valid a \<or> \<not> valid_lit lit \<or> a_state a \<noteq> st_UNSATISFIED then Violated
      else case ext_failed (ifailed S (a_ext a)) lit (a_ext a) of None \<Rightarrow> Broken | Some b \<Rightarrow> Done b)"

definition api_constraint_failed :: "search \<Rightarrow> api \<Rightarrow> bool outcome" where
  "api_constraint_failed S a =
     (if \<not> is_valid a \<or> a_state a \<noteq> st_UNSATISFIED then Violated else Done (ifailed_constraint S (a_ext a)))"

definition api_fixed :: "(int \<Rightarrow> int) \<Rightarrow> int \<Rightarrow> api \<Rightarrow> int outcome" where
  "api_fixed f lit a = (if \<not> is_valid a \<or> \<not> valid_lit lit then Violated else Done (ext_fixed f lit (a_ext a)))"

definition api_phase :: "int \<Rightarrow> api \<Rightarrow> api outcome" where
  "api_phase lit a = (if \<not> is_valid a \<or> \<not> valid_lit lit then Violated else on_ext a (ext_phase lit (a_ext a)) (\<lambda>a. a))"

definition api_unphase :: "int \<Rightarrow> api \<Rightarrow> api outcome" where
  "api_unphase lit a = (if \<not> is_valid a \<or> \<not> valid_lit lit then Violated else on_ext a (ext_unphase lit (a_ext a)) (\<lambda>a. a))"

text \<open>Call-backs are pointers; 0 is the null pointer.\<close>

definition connect_terminator :: "nat \<Rightarrow> api \<Rightarrow> api outcome" where
  "connect_terminator t a = (if \<not> is_valid a \<or> t = 0 then Violated else Done (a\<lparr>a_terminator := t\<rparr>))"

definition disconnect_terminator :: "api \<Rightarrow> api outcome" where
  "disconnect_terminator a = (if \<not> is_valid a then Violated else Done (a\<lparr>a_terminator := 0\<rparr>))"

definition connect_learner :: "nat \<Rightarrow> api \<Rightarrow> api outcome" where
  "connect_learner l a = (if \<not> is_valid a \<or> l = 0 then Violated else Done (a\<lparr>a_learner := l\<rparr>))"

definition disconnect_learner :: "api \<Rightarrow> api outcome" where
  "disconnect_learner a = (if \<not> is_valid a then Violated else Done (a\<lparr>a_learner := 0\<rparr>))"

definition api_freeze :: "int \<Rightarrow> api \<Rightarrow> api outcome" where
  "api_freeze lit a = (if \<not> is_valid a \<or> \<not> valid_lit lit then Violated else on_ext a (ext_freeze lit (a_ext a)) (\<lambda>a. a))"

definition api_melt :: "int \<Rightarrow> api \<Rightarrow> api outcome" where
  "api_melt lit a =
     (if \<not> is_valid a \<or> \<not> valid_lit lit \<or> ext_frozen lit (a_ext a) \<noteq> Some True then Violated
      else on_ext a (ext_melt lit (a_ext a)) (\<lambda>a. a))"

definition api_frozen :: "int \<Rightarrow> api \<Rightarrow> bool outcome" where
  "api_frozen lit a =
     (if \<not> is_valid a \<or> \<not> valid_lit lit then Violated
      else case ext_frozen lit (a_ext a) of None \<Rightarrow> Broken | Some b \<Rightarrow> Done b)"

section \<open>Programs over the interface\<close>

datatype api_op = Op_add int | Op_constrain int | Op_assume int | Op_reset_assumptions | Op_reset_constraint
  | Op_solve | Op_simplify int | Op_val int | Op_getSolution | Op_reserve nat | Op_phase int | Op_unphase int
  | Op_connect_terminator nat | Op_disconnect_terminator | Op_connect_learner nat | Op_disconnect_learner
  | Op_freeze int | Op_melt int | Op_find_up_implicants "int list" "int list" | Op_lookahead | Op_generate_cubes int int | Op_terminate
  | Op_failed int | Op_constraint_failed | Op_frozen int | Op_vars

definition after :: "('a \<times> api) outcome \<Rightarrow> api outcome" where
  "after r = (case r of Violated \<Rightarrow> Violated | Broken \<Rightarrow> Broken | Done (_, a) \<Rightarrow> Done a)"

definition reads :: "'a outcome \<Rightarrow> api \<Rightarrow> api outcome" where
  "reads r a = (case r of Violated \<Rightarrow> Violated | Broken \<Rightarrow> Broken | Done _ \<Rightarrow> Done a)"

fun api_run :: "search \<Rightarrow> api_op \<Rightarrow> api \<Rightarrow> api outcome" where
  "api_run S (Op_add l) a = api_add l a"
| "api_run S (Op_constrain l) a = api_constrain l a"
| "api_run S (Op_assume l) a = api_assume l a"
| "api_run S Op_reset_assumptions a = api_reset_assumptions a"
| "api_run S Op_reset_constraint a = api_reset_constraint a"
| "api_run S Op_solve a = after (api_solve S a)"
| "api_run S (Op_simplify n) a = after (api_simplify S n a)"
| "api_run S (Op_val l) a = after (api_val S l a)"
| "api_run S Op_getSolution a = after (api_getSolution S a)"
| "api_run S (Op_reserve n) a = api_reserve n a"
| "api_run S (Op_phase l) a = api_phase l a"
| "api_run S (Op_unphase l) a = api_unphase l a"
| "api_run S (Op_connect_terminator t) a = connect_terminator t a"
| "api_run S Op_disconnect_terminator a = disconnect_terminator a"
| "api_run S (Op_connect_learner t) a = connect_learner t a"
| "api_run S Op_disconnect_learner a = disconnect_learner a"
| "api_run S (Op_freeze l) a = api_freeze l a"
| "api_run S (Op_melt l) a = api_melt l a"
| "api_run S (Op_find_up_implicants ls is) a = after (api_find_up_implicants S ls is a)"
| "api_run S Op_lookahead a = after (api_lookahead S a)"
| "api_run S (Op_generate_cubes d m) a = after (api_generate_cubes S d m a)"
| "api_run S Op_terminate a = api_terminate a"
| "api_run S (Op_failed l) a = reads (api_failed S l a) a"
| "api_run S Op_constraint_failed a = reads (api_constraint_failed S a) a"
| "api_run S (Op_frozen l) a = reads (api_frozen l a) a"
| "api_run S Op_vars a = reads (api_vars a) a"

text \<open>The external layer between two calls.\<close>

definition ext_inv :: "external \<Rightarrow> bool" where
  "ext_inv x =
     (numbered x \<and> plain_opts x \<and> length (frozentab x) \<le> max_var x + 1 \<and>
      (\<exists>es. extension x = flat es \<and> (\<forall>e \<in> set es. stack_entry_ok (max_var x) e)))"

text \<open>
  The literals passed on to \<open>Internal::add_original_lit\<close>, and whether the last clause among them is still open. The searches start with
  \<open>assert (clause.empty ())\<close>, so they must not be called then.
\<close>

fun added :: "icall list \<Rightarrow> int list" where
  "added [] = []"
| "added (Add_original l # cs) = l # added cs"
| "added (_ # cs) = added cs"

definition clause_open :: "external \<Rightarrow> bool" where
  "clause_open x = (added (x_calls x) \<noteq> [] \<and> last (added (x_calls x)) \<noteq> 0)"

definition inner_lit :: "external \<Rightarrow> int \<Rightarrow> bool" where
  "inner_lit x l = (l \<noteq> 0 \<and> l \<noteq> int_min \<and> nat \<bar>l\<bar> \<le> i_max_var (x_ivars x))"

definition searchable :: "external \<Rightarrow> bool" where
  "searchable x = (ext_inv x \<and> \<not> extended x \<and> \<not> clause_open x)"

text \<open>
  What the interface relies on: started with no clause open, a search returns, solving with 0, 10 or 20, the others with internal literals, and keeps the tables of the external
  layer in order. \<open>find_up_implicants\<close> is only relied on to return when at most one literal is assumed; with two unassigned ones one of its assertions fails.
\<close>

definition search_ok :: "search \<Rightarrow> bool" where
  "search_ok S =
     ((\<forall>p x. searchable x \<longrightarrow> (\<exists>res y. isolve S p x = Some (res, y) \<and> res \<in> {0, 10, 20} \<and> searchable y)) \<and>
      (\<forall>ls x. searchable x \<and> length (assumptions x) \<le> 1 \<longrightarrow>
         (\<exists>res new y. iup S ls x = Some (res, ls @ new, y) \<and> searchable y \<and> list_all (inner_lit y) new)) \<and>
      (\<forall>x. searchable x \<longrightarrow> (\<exists>ilit y. ilookahead S x = Some (ilit, y) \<and> searchable y \<and> (ilit = 0 \<or> ilit = int_min \<or> inner_lit y ilit))) \<and>
      (\<forall>d m x. searchable x \<longrightarrow> (\<exists>st cubes y. icubes S d m x = Some (st, cubes, y) \<and> searchable y \<and> list_all (list_all (\<lambda>l. l = 0 \<or> inner_lit y l)) cubes)))"

text \<open>
  What a call needs beyond the checks of \<open>contract.hpp\<close>: no open clause for those that start a search; valid literals, an empty vector and at most one assumption in all for
  \<open>find_up_implicants\<close>.
\<close>

fun call_ok :: "api_op \<Rightarrow> api \<Rightarrow> bool" where
  "call_ok Op_solve a = (\<not> clause_open (a_ext a))"
| "call_ok (Op_simplify n) a = (\<not> clause_open (a_ext a))"
| "call_ok Op_lookahead a = (\<not> clause_open (a_ext a))"
| "call_ok (Op_generate_cubes d m) a = (\<not> clause_open (a_ext a))"
| "call_ok (Op_find_up_implicants ls is) a =
     (\<not> clause_open (a_ext a) \<and> list_all valid_lit ls \<and> is = [] \<and> length (assumptions (a_ext (to_unknown a))) + length ls \<le> 1)"
| "call_ok _ a = True"

definition api_ok :: "api \<Rightarrow> bool" where
  "api_ok a =
     (a_state a \<in> {st_CONFIGURING, st_UNKNOWN, st_ADDING, st_SATISFIED, st_UNSATISFIED} \<and> ext_inv (a_ext a))"

text \<open>Every state that a client can see passes the check for \<open>VALID\<close>, and exactly \<open>ADDING\<close> is not ready.\<close>

lemma valid_states:
  "is_valid a = (a_state a AND 110 \<noteq> 0)"
  by (simp add: is_valid_def st_VALID_def st_READY_def st_defs)

lemma api_ok_valid: "api_ok a \<Longrightarrow> is_valid a"
  by (auto simp: api_ok_def valid_states st_defs)

lemma valid_unknown [simp]: "is_valid (a\<lparr>a_state := st_UNKNOWN\<rparr>)" "is_ready (a\<lparr>a_state := st_UNKNOWN\<rparr>)"
  by (simp_all add: is_ready_def valid_states st_defs)

lemma ext_inv_xgrows:
  assumes "ext_inv x" "xgrows x y" "numbered y"
  shows "ext_inv y"
proof -
  have m: "max_var x \<le> max_var y" using assms(2) by (simp add: xgrows_def)
  have "stack_entry_ok (max_var y) e" if "stack_entry_ok (max_var x) e" for e
    using that lit_upto_mono [OF _ m] by (auto simp: stack_entry_ok_def)
  then show ?thesis using assms m plain_opts_xgrows [OF assms(2)] unfolding ext_inv_def xgrows_def by (metis add_le_mono1 le_trans)
qed

lemma ext_inv_frame:
  "ext_inv x \<Longrightarrow> ext_inv (reset_extended x)" "ext_inv x \<Longrightarrow> ext_inv (ext_reset_assumptions x)"
  "ext_inv x \<Longrightarrow> ext_inv (ext_reset_constraint x)" "ext_inv x \<Longrightarrow> ext_inv (xcall c x)" "ext_inv x \<Longrightarrow> ext_inv (ext_reset_limits x)"
  by (simp_all add: ext_inv_def plain_opts_def ext_reset_assumptions_def ext_reset_constraint_def ext_reset_limits_def)

lemma to_unknown_simps [simp]:
  "a_state (to_unknown a) = st_UNKNOWN" "adding_clause (to_unknown a) = adding_clause a"
  "adding_constraint (to_unknown a) = adding_constraint a"
  by (simp_all add: to_unknown_def Let_def)

lemma to_unknown_ok: "api_ok a \<Longrightarrow> api_ok (to_unknown a)"
  by (auto simp: api_ok_def to_unknown_def Let_def ext_inv_frame)

text \<open>What a call leaves: it is inside its contract or not, but nothing breaks.\<close>

definition fine :: "api outcome \<Rightarrow> bool" where
  "fine r = (case r of Violated \<Rightarrow> True | Broken \<Rightarrow> False | Done a \<Rightarrow> api_ok a)"

lemma fine_simps [simp]: "fine Violated" "\<not> fine Broken" "fine (Done a) = api_ok a"
  by (simp_all add: fine_def)

lemma api_add_fine:
  assumes "api_ok a"
  shows "fine (api_add l a)" "fine (api_constrain l a)" "fine (api_assume l a)"
proof -
  let ?u = "to_unknown a"
  have u: "api_ok ?u" "ext_inv (a_ext ?u)" using to_unknown_ok [OF assms] by (simp_all add: api_ok_def)
  then have n: "numbered (a_ext ?u)" "plain_opts (a_ext ?u)" by (simp_all add: ext_inv_def)
  show "fine (api_add l a)"
  proof (cases "l = int_min")
    case False
    obtain y where y: "ext_add l (a_ext ?u) = Some y" "ext_inv y"
      using ext_add_ok [OF n False] ext_inv_xgrows [OF u(2)] by metis
    have "fine (on_ext ?u (ext_add l (a_ext ?u)) (\<lambda>a. let a = a\<lparr>adding_clause := (l \<noteq> 0)\<rparr>
        in if adding_clause a then a\<lparr>a_state := st_ADDING\<rparr> else if \<not> adding_constraint a then a\<lparr>a_state := st_UNKNOWN\<rparr> else a))"
      using y by (auto simp: on_ext_def api_ok_def Let_def)
    then show ?thesis using api_ok_valid [OF assms] False by (simp add: api_add_def valid_lit_def Let_def)
  qed (simp add: api_add_def valid_lit_def int_min_def)
  show "fine (api_constrain l a)"
  proof (cases "l = int_min")
    case False
    obtain y where y: "ext_constrain l (a_ext ?u) = Some y" "ext_inv y"
      using ext_constrain_ok [OF n False] ext_inv_xgrows [OF u(2)] by metis
    have "fine (on_ext ?u (ext_constrain l (a_ext ?u)) (\<lambda>a. let a = a\<lparr>adding_constraint := (l \<noteq> 0)\<rparr>
        in if adding_constraint a then a\<lparr>a_state := st_ADDING\<rparr> else if \<not> adding_clause a then a\<lparr>a_state := st_UNKNOWN\<rparr> else a))"
      using y by (auto simp: on_ext_def api_ok_def Let_def)
    then show ?thesis using api_ok_valid [OF assms] False by (simp add: api_constrain_def valid_lit_def Let_def)
  qed (simp add: api_constrain_def valid_lit_def int_min_def)
  show "fine (api_assume l a)"
  proof (cases "valid_lit l")
    case True
    then obtain y where y: "ext_assume l (a_ext ?u) = Some y" "ext_inv y"
      using ext_assume_ok [OF n, of l] ext_inv_xgrows [OF u(2)] unfolding valid_lit_def by metis
    then show ?thesis using api_ok_valid [OF assms] True by (simp add: api_assume_def Let_def on_ext_def api_ok_def)
  qed (simp add: api_assume_def)
qed

lemma api_reserve_fine:
  assumes "api_ok a"
  shows "fine (api_reserve n a)"
proof -
  let ?x = "reset_extended (a_ext (to_unknown a))"
  have x: "ext_inv ?x" using to_unknown_ok [OF assms] ext_inv_frame(1) by (simp add: api_ok_def)
  obtain y where y: "init_var n ?x = Some y" "ext_inv y"
  proof (cases "n \<le> max_var ?x")
    case True
    then have "init_var n ?x = Some ?x" by (simp add: init_var_def)
    then show ?thesis using that x by blast
  next
    case False
    then have lt: "max_var ?x < n" and n: "numbered ?x" "\<not> extended ?x" using x by (simp_all add: ext_inv_def)
    obtain y where y: "init_var n ?x = Some y" "numbered y" "extends ?x y" "tainted y = tainted ?x"
      using init_var_ok [OF n lt] by metis
    then have "xgrows ?x y" by (simp add: xgrows_def extends_def)
    then show ?thesis using that y(1,2) ext_inv_xgrows [OF x] by blast
  qed
  then show ?thesis using api_ok_valid [OF assms] by (simp add: api_reserve_def Let_def on_ext_def api_ok_def)
qed

lemma added_append [simp]: "added (cs @ ds) = added cs @ added ds"
  by (induction cs rule: added.induct) simp_all

lemma clause_open_frame [simp]:
  "clause_open (reset_extended x) = clause_open x" "clause_open (ext_reset_assumptions x) = clause_open x"
  "clause_open (ext_reset_constraint x) = clause_open x" "clause_open (ext_reset_limits x) = clause_open x"
  by (simp_all add: clause_open_def ext_reset_assumptions_def ext_reset_constraint_def ext_reset_limits_def xcall_def reset_extended_def)

lemma to_unknown_open [simp]: "clause_open (a_ext (to_unknown a)) = clause_open (a_ext a)"
  by (simp add: to_unknown_def Let_def)

lemma searchable_start: "ext_inv x \<Longrightarrow> \<not> clause_open x \<Longrightarrow> searchable (reset_extended x)"
  by (simp add: searchable_def ext_inv_frame(1))

lemma searchable_limits: "searchable x \<Longrightarrow> searchable (ext_reset_limits x)"
  using ext_inv_frame(5) [of x] by (simp add: searchable_def) (simp add: ext_reset_limits_def xcall_def)

lemma searchable_molten: "searchable x \<Longrightarrow> update_molten_literals x = Some x"
  by (simp add: searchable_def ext_inv_def plain_opts_def update_molten_literals_def)

lemma api_solve_fine:
  assumes "api_ok a" "search_ok S" "\<not> clause_open (a_ext a)"
  shows "fine (after (api_solve S a))" "fine (after (api_simplify S n a))"
proof -
  have call: "fine (after (call_external_solve S p a))" for p
  proof -
    let ?u = "(to_unknown a)\<lparr>a_state := st_SOLVING\<rparr>"
    let ?x = "reset_extended (a_ext ?u)"
    have x: "searchable ?x" using to_unknown_ok [OF assms(1)] assms(3) by (intro searchable_start) (simp_all add: api_ok_def)
    obtain r y where r: "isolve S p ?x = Some (r, y)" and y: "searchable y" using assms(2) x unfolding search_ok_def by blast
    have "check_solve_result S r y = Some y"
      using y by (simp add: check_solve_result_def searchable_def ext_inv_def plain_opts_def)
    then have "ext_solve S p (a_ext ?u) = Some (r, ext_reset_limits y)" using r searchable_molten [OF x] by (simp add: ext_solve_def)
    moreover have "is_ready (to_unknown a)" by (simp add: to_unknown_def Let_def)
    ultimately show ?thesis using y ext_inv_frame(5) [of y] ext_inv_frame(2)
      by (simp add: call_external_solve_def Let_def after_def api_ok_def searchable_def)
  qed
  show "fine (after (api_solve S a))" using call [of False] by (simp add: api_solve_def) (simp add: after_def)
  show "fine (after (api_simplify S n a))" using call [of True] by (simp add: api_simplify_def) (simp add: after_def)
qed

lemma externalize_inner: "inner_lit x l \<Longrightarrow> \<exists>e. externalize l x = Some e"
  by (simp add: inner_lit_def externalize_def Let_def)

lemma externalize_all_inner: "list_all (inner_lit x) ls \<Longrightarrow> \<exists>es. externalize_all x ls = Some es"
  by (induction ls) (auto dest: externalize_inner)

lemma assume_all_ok:
  "ext_inv x \<Longrightarrow> \<not> extended x \<Longrightarrow> list_all valid_lit ls \<Longrightarrow>
    \<exists>y. assume_all ls x = Some y \<and> ext_inv y \<and> \<not> extended y \<and> clause_open y = clause_open x \<and> assumptions y = assumptions x @ ls"
proof (induction ls arbitrary: x)
  case (Cons l ls)
  have l: "l \<noteq> int_min" "l \<noteq> 0" using Cons.prems(3) by (simp_all add: valid_lit_def)
  have n: "numbered x" "plain_opts x" using Cons.prems(1) by (simp_all add: ext_inv_def)
  obtain y where y: "ext_assume l x = Some y" "numbered y" "xgrows x y" "\<not> extended y" "x_calls y = x_calls x @ [Assume_lit (ilit_of l y)]" "assumptions y = assumptions x @ [l]"
    by (rule ext_assume_ok [OF n l])
  have "ext_inv y" by (rule ext_inv_xgrows [OF Cons.prems(1) y(3,2)])
  moreover have "clause_open y = clause_open x" using y(5) by (simp add: clause_open_def)
  ultimately show ?case using Cons.IH [of y] Cons.prems(3) y(1,4,6) by simp
qed simp

lemma api_up_fine:
  assumes "api_ok a" "search_ok S" "call_ok (Op_find_up_implicants ls is) a"
  shows "fine (after (api_find_up_implicants S ls is a))"
proof -
  let ?a = "to_unknown a"
  have c: "\<not> clause_open (a_ext a)" "list_all valid_lit ls" "is = []" "length (assumptions (a_ext ?a)) + length ls \<le> 1" using assms(3) by simp_all
  have x: "ext_inv (reset_extended (a_ext ?a))" using to_unknown_ok [OF assms(1)] ext_inv_frame(1) by (simp add: api_ok_def)
  obtain y where y: "assume_all ls (reset_extended (a_ext ?a)) = Some y" "ext_inv y" "\<not> extended y" "clause_open y = clause_open (a_ext a)"
      "assumptions y = assumptions (reset_extended (a_ext ?a)) @ ls"
    using assume_all_ok [OF x _ c(2)] by auto
  have sy: "searchable y" "length (assumptions y) \<le> 1" using y(2-5) c(1,4) by (simp_all add: searchable_def)
  obtain res new z where z: "iup S is y = Some (res, is @ new, z)" "searchable z" "list_all (inner_lit z) new"
    using assms(2) sy unfolding search_ok_def by blast
  obtain es where "externalize_all z new = Some es" using externalize_all_inner [OF z(3)] by blast
  then have "ext_find_up_implicants S ls is (a_ext ?a) = Some ((res, es), ext_reset_limits z)"
    using y(1) searchable_molten [OF sy(1)] z(1) c(3) by (simp add: ext_find_up_implicants_def)
  moreover have "api_ok (to_unknown (?a\<lparr>a_ext := ext_reset_assumptions (ext_reset_limits z)\<rparr>))"
    using z(2) ext_inv_frame(2,5) by (intro to_unknown_ok) (simp add: api_ok_def searchable_def)
  ultimately show ?thesis by (simp add: api_find_up_implicants_def Let_def after_def)
qed

lemma api_lookahead_fine:
  assumes "api_ok a" "search_ok S" "\<not> clause_open (a_ext a)"
  shows "fine (after (api_lookahead S a))" "fine (after (api_generate_cubes S d m a))"
proof -
  have x: "searchable (reset_extended (a_ext a))" using assms(1,3) by (intro searchable_start) (simp_all add: api_ok_def)
  then have xl: "searchable (ext_reset_limits (reset_extended (a_ext a)))" by (rule searchable_limits)
  obtain i y where i: "ilookahead S (reset_extended (a_ext a)) = Some (i, y)" "searchable y" "i = 0 \<or> i = int_min \<or> inner_lit y i"
    using assms(2) x unfolding search_ok_def by blast
  have "\<exists>e. (if i \<noteq> 0 \<and> i \<noteq> int_min then externalize i y else Some 0) = Some e" using externalize_inner [of y i] i(3) by auto
  then obtain e where "(if i \<noteq> 0 \<and> i \<noteq> int_min then externalize i y else Some 0) = Some e" ..
  then have "ext_lookahead S (a_ext a) = Some (e, y)" using searchable_molten [OF x] i(1) by (simp add: ext_lookahead_def)
  then show "fine (after (api_lookahead S a))" using assms(1) i(2) by (simp add: api_lookahead_def after_def api_ok_def searchable_def)
  obtain st cubes z where z: "icubes S d m (ext_reset_limits (reset_extended (a_ext a))) = Some (st, cubes, z)" "searchable z"
      "list_all (list_all (\<lambda>l. l = 0 \<or> inner_lit z l)) cubes"
    using assms(2) xl unfolding search_ok_def by blast
  have "list_all (list_all (\<lambda>l. l = 0 \<or> externalize l z \<noteq> None)) cubes"
    using z(3) externalize_inner [of z] by (fastforce simp: list_all_iff)
  then have "ext_generate_cubes S d m (a_ext a) = Some ((st, cubes), z)" using searchable_molten [OF x] z(1) by (simp add: ext_generate_cubes_def)
  then show "fine (after (api_generate_cubes S d m a))" using assms(1) z(2) by (simp add: api_generate_cubes_def after_def api_ok_def searchable_def)
qed

lemma api_reads_fine:
  assumes "api_ok a"
  shows "fine (reads (api_failed S l a) a)" "fine (reads (api_constraint_failed S a) a)" "fine (reads (api_frozen l a) a)" "fine (reads (api_vars a) a)"
    "fine (api_terminate a)"
  using assms ext_inv_frame(4)
  by (auto simp: reads_def api_failed_def api_constraint_failed_def api_frozen_def api_vars_def api_terminate_def ext_terminate_def ext_failed_def ext_frozen_def
      valid_lit_def api_ok_def Let_def)

lemma extend_inv:
  assumes "ext_inv x"
  obtains y where "(if extended x then Some x else ext_extend val x) = Some y" "ext_inv y"
    "\<not> extended x \<Longrightarrow> \<exists>es. extension x = flat es \<and> ext_model y = foldr reconstruct es (search_model val x)"
proof (cases "extended x")
  case False
  obtain es where es: "extension x = flat es" "\<forall>e \<in> set es. stack_entry_ok (max_var x) e" using assms by (auto simp: ext_inv_def)
  obtain y where y: "ext_extend val x = Some y" "ext_model y = foldr reconstruct es (search_model val x)"
    using ext_extend_ok [OF False es] by metis
  have "ext_inv y" using extend_frame [OF y(1)] assms by (simp add: ext_inv_def numbered_def plain_opts_def)
  then show ?thesis using that [of y] y es(1) False by auto
qed (use that assms in auto)

lemma api_read_fine:
  assumes "api_ok a"
  shows "fine (after (api_val S l a))" "fine (after (api_getSolution S a))"
proof -
  have inv: "ext_inv (a_ext a)" using assms by (simp add: api_ok_def)
  obtain y where "(if extended (a_ext a) then Some (a_ext a) else ext_extend (ivalue S (a_ext a)) (a_ext a)) = Some y" "ext_inv y"
    using extend_inv [OF inv] by metis
  then show "fine (after (api_val S l a))" "fine (after (api_getSolution S a))"
    using assms unfolding api_val_def api_getSolution_def by (simp_all add: after_def api_ok_def)
qed

lemma api_freeze_fine:
  assumes "api_ok a"
  shows "fine (api_freeze l a)" "fine (api_melt l a)"
proof -
  let ?x = "a_ext a"
  have x: "ext_inv ?x" using assms by (simp add: api_ok_def)
  then have n: "numbered ?x" "plain_opts ?x" "length (frozentab ?x) \<le> max_var ?x + 1" by (simp_all add: ext_inv_def)
  have inv: "ext_inv y" if "numbered y" "length (frozentab y) \<le> max_var y + 1" "x_opts y = x_opts ?x" "extension y = extension ?x"
      "max_var ?x \<le> max_var y" for y
  proof -
    have "stack_entry_ok (max_var y) e" if "stack_entry_ok (max_var ?x) e" for e
      using that lit_upto_mono \<open>max_var ?x \<le> max_var y\<close> by (auto simp: stack_entry_ok_def)
    then show ?thesis using that x unfolding ext_inv_def plain_opts_def by metis
  qed
  show "fine (api_freeze l a)"
  proof (cases "valid_lit l")
    case True
    then obtain y where "ext_freeze l ?x = Some y" "ext_inv y"
      using ext_freeze_ok [OF n(1,2) _ _ n(3), of l] inv unfolding valid_lit_def by metis
    then show ?thesis using assms by (simp add: api_freeze_def on_ext_def api_ok_def)
  qed (simp add: api_freeze_def)
  show "fine (api_melt l a)"
  proof (cases "valid_lit l \<and> ext_frozen l ?x = Some True")
    case True
    then obtain y where "ext_melt l ?x = Some y" "ext_inv y"
      using ext_melt_ok [OF n(1,2) _ _ n(3), of l] inv unfolding valid_lit_def by metis
    then show ?thesis using assms by (simp add: api_melt_def on_ext_def api_ok_def)
  qed (auto simp: api_melt_def)
qed

lemma api_phase_fine:
  assumes "api_ok a"
  shows "fine (api_phase l a)" "fine (api_unphase l a)"
  using assms ext_inv_frame(4)
  by (auto simp: api_phase_def api_unphase_def ext_phase_def ext_unphase_def valid_lit_def on_ext_def api_ok_def Let_def)

lemma api_other_fine:
  assumes "api_ok a"
  shows "fine (api_reset_assumptions a)" "fine (api_reset_constraint a)" "fine (connect_terminator t a)"
    "fine (disconnect_terminator a)" "fine (connect_learner t a)" "fine (disconnect_learner a)"
  using assms to_unknown_ok [OF assms] ext_inv_frame(2,3)
  by (simp_all add: api_reset_assumptions_def api_reset_constraint_def connect_terminator_def disconnect_terminator_def
      connect_learner_def disconnect_learner_def api_ok_def Let_def)

lemmas api_fine = api_add_fine api_reserve_fine api_solve_fine api_read_fine api_freeze_fine api_phase_fine api_other_fine
  api_up_fine api_lookahead_fine api_reads_fine

lemma api_run_fine: "api_ok a \<Longrightarrow> search_ok S \<Longrightarrow> call_ok op a \<Longrightarrow> fine (api_run S op a)"
  by (cases op) (simp_all add: api_fine)

inductive api_reach :: "search \<Rightarrow> xopts \<Rightarrow> api \<Rightarrow> bool" for S os where
  start: "api_reach S os (api_new os)"
| step: "api_reach S os a \<Longrightarrow> call_ok op a \<Longrightarrow> api_run S op a = Done a' \<Longrightarrow> api_reach S os a'"

lemma api_new_ok: "\<not> o_check os \<Longrightarrow> \<not> o_checkfrozen os \<Longrightarrow> api_ok (api_new os)"
  using numbered_new [of os]
  by (simp add: api_ok_def api_new_def Let_def ext_inv_def plain_opts_def) (auto simp: external_new_def intro: exI [of _ "[]"])

lemma api_reach_ok:
  assumes "api_reach S os a" "search_ok S" "\<not> o_check os" "\<not> o_checkfrozen os"
  shows "api_ok a"
  using assms(1)
proof induction
  case start
  then show ?case by (rule api_new_ok [OF assms(3,4)])
next
  case (step a op a')
  then show ?case using api_run_fine [OF step.IH assms(2), of op] by simp
qed

section \<open>The model of the search becomes a model of the user\<close>

text \<open>
  The model that \<open>val\<close> and \<open>getSolution\<close> show after a satisfiable answer satisfies the clauses of the search and those on the extension stack.
\<close>

lemma api_model_sound:
  assumes "api_ok a" "a_state a = st_SATISFIED" "\<not> extended (a_ext a)" "extension (a_ext a) = flat es"
    "\<forall>e \<in> set es. stack_entry_ok (max_var (a_ext a)) e" "stack_ok F es" "sat_all (search_model (ivalue S (a_ext a)) (a_ext a)) F"
  obtains a' where "api_getSolution S a = Done (vals (a_ext a'), a')" "sat_all (ext_model (a_ext a')) (F \<union> clauses_of es)"
    "\<And>l. valid_lit l \<Longrightarrow> \<exists>v. api_val S l a = Done (v, a') \<and> (0 < v \<longleftrightarrow> lit_true (ext_model (a_ext a')) l)"
proof -
  obtain y where y: "ext_extend (ivalue S (a_ext a)) (a_ext a) = Some y"
      "ext_model y = foldr reconstruct es (search_model (ivalue S (a_ext a)) (a_ext a))"
    using ext_extend_ok [OF assms(3-5)] by metis
  let ?a = "a\<lparr>a_ext := y\<rparr>"
  note v = api_ok_valid [OF assms(1)]
  show ?thesis
  proof (rule that [of ?a])
    show "api_getSolution S a = Done (vals (a_ext ?a), ?a)" using v assms(2,3) y(1) by (simp add: api_getSolution_def)
    show "sat_all (ext_model (a_ext ?a)) (F \<union> clauses_of es)" using reconstruct_sound [OF assms(6,7)] y(2) by simp
    show "\<exists>v. api_val S l a = Done (v, ?a) \<and> (0 < v \<longleftrightarrow> lit_true (ext_model (a_ext ?a)) l)" if "valid_lit l" for l
      using that v assms(2,3) y(1) ival_lit_true(1) [of l y] by (simp add: api_val_def valid_lit_def)
  qed
qed

end
