(* ===== verification/Cadical_Refine.thy ===== *)
theory Cadical_Refine
  imports Cadical_Api
begin

text \<open>
  The interface of \<open>Cadical\<close>, which the wrapper and the MaxSAT solver are verified against, keeps clauses and assumptions as the user
  gave them. The layered interface of \<open>Cadical_Api\<close> passes internal literals on to the search. While a formula is loaded, the second
  one does what the first one says: same states, same assumptions, and the literals that reached the search are those of
  the formula under the numbering of the external layer.
\<close>

fun state_bits_of :: "cstate \<Rightarrow> state_bits" where
  "state_bits_of CONFIGURING = st_CONFIGURING"
| "state_bits_of UNKNOWN = st_UNKNOWN"
| "state_bits_of ADDING = st_ADDING"
| "state_bits_of SATISFIED = st_SATISFIED"
| "state_bits_of UNSATISFIED = st_UNSATISFIED"

text \<open>The literals added so far, with the zeros.\<close>

definition added :: "cadical \<Rightarrow> int list" where
  "added c = concat (map (\<lambda>cl. cl @ [0]) (c_clauses c)) @ c_adding c"

fun added_call :: "icall \<Rightarrow> int list" where
  "added_call (Add_original i) = [i]"
| "added_call _ = []"

definition added_to_search :: "external \<Rightarrow> int list" where
  "added_to_search x = concat (map added_call (x_calls x))"

definition has_ilit :: "external \<Rightarrow> int \<Rightarrow> bool" where
  "has_ilit x l = (l \<noteq> 0 \<and> nat \<bar>l\<bar> \<le> max_var x \<and> ilit_of l x \<noteq> 0)"

definition translate :: "external \<Rightarrow> int \<Rightarrow> int" where
  "translate x l = (if l = 0 then 0 else ilit_of l x)"

definition implements :: "api \<Rightarrow> cadical \<Rightarrow> bool" where
  "implements a c =
     (api_ok a \<and> a_state a = state_bits_of (c_state c) \<and> \<not> adding_constraint a \<and>
      assumptions (a_ext a) = c_assumptions c \<and> (\<forall>l \<in> set (added c). l \<noteq> 0 \<longrightarrow> has_ilit (a_ext a) l) \<and>
      added_to_search (a_ext a) = map (translate (a_ext a)) (added c))"

lemma state_bits_inj [simp]: "(state_bits_of s = state_bits_of t) = (s = t)"
  by (cases s; cases t) (simp_all add: st_defs)

lemma implements_new: "\<not> o_check os \<Longrightarrow> \<not> o_checkfrozen os \<Longrightarrow> implements (api_new os) cad_new"
  using api_new_ok [of os] by (simp add: implements_def cad_new_def added_def api_new_def Let_def external_new_def added_to_search_def)

lemma has_ilit_xgrows: "has_ilit x l \<Longrightarrow> xgrows x y \<Longrightarrow> has_ilit y l \<and> ilit_of l y = ilit_of l x"
  using xgrows_ilit_of [of x y l] by (auto simp: has_ilit_def xgrows_def)

lemma map_translate_xgrows:
  assumes "\<forall>l \<in> set ls. l \<noteq> 0 \<longrightarrow> has_ilit x l" "xgrows x y"
  shows "map (translate y) ls = map (translate x) ls" "\<forall>l \<in> set ls. l \<noteq> 0 \<longrightarrow> has_ilit y l"
  using assms has_ilit_xgrows [OF _ assms(2)] by (auto simp: translate_def)

text \<open>Leaving a state.\<close>

lemma implements_unknown:
  assumes "implements a c"
  shows "implements (to_unknown a) (transition_to_unknown_state c)"
proof -
  have eq: "a_state a = st_SATISFIED \<or> a_state a = st_UNSATISFIED \<longleftrightarrow> c_state c = SATISFIED \<or> c_state c = UNSATISFIED"
    using assms state_bits_inj [of "c_state c"] unfolding implements_def by (metis state_bits_of.simps(4,5))
  let ?x = "ext_reset_constraint (ext_reset_assumptions (a_ext a))"
  have x: "added_to_search ?x = added_to_search (a_ext a)" "assumptions ?x = []" "\<And>l. has_ilit ?x l = has_ilit (a_ext a) l"
      "\<And>l. translate ?x l = translate (a_ext a) l"
    by (simp_all add: ext_reset_constraint_def ext_reset_assumptions_def added_to_search_def has_ilit_def translate_def)
  have tr: "map (translate ?x) ls = map (translate (a_ext a)) ls" for ls using x(4) by simp
  have ad: "added (transition_to_unknown_state c) = added c" by (simp add: added_def)
  show ?thesis using assms to_unknown_ok [of a] eq x tr
    by (auto simp: implements_def ad) (simp_all add: to_unknown_def transition_to_unknown_state_def Let_def)
qed

lemma added_to_search_add:
  "x_calls y = x_calls x @ [Add_original i] \<Longrightarrow> added_to_search y = added_to_search x @ [i]"
  "x_calls y = x_calls x @ [Assume_lit i] \<Longrightarrow> added_to_search y = added_to_search x"
  by (simp_all add: added_to_search_def)

lemma implements_add:
  assumes "implements a c" "l \<noteq> int_min"
  obtains a' where "api_add l a = Done a'" "implements a' (cad_add l c)"
proof -
  let ?u = "to_unknown a" and ?c = "transition_to_unknown_state c"
  have u: "implements ?u ?c" by (rule implements_unknown [OF assms(1)])
  have inv: "ext_inv (a_ext ?u)" and n: "numbered (a_ext ?u)" "plain_opts (a_ext ?u)"
    using u by (simp_all add: implements_def api_ok_def ext_inv_def)
  obtain y where y: "ext_add l (a_ext ?u) = Some y" "numbered y" "xgrows (a_ext ?u) y" "l \<noteq> 0 \<Longrightarrow> usable y l"
      "x_calls y = x_calls (a_ext ?u) @ [Add_original (if l = 0 then 0 else ilit_of l y)]" "assumptions y = assumptions (a_ext ?u)"
    using ext_add_ok [OF n assms(2)] by metis
  define a' where "a' = ?u\<lparr>a_ext := y, adding_clause := (l \<noteq> 0), a_state := (if l \<noteq> 0 then st_ADDING else st_UNKNOWN)\<rparr>"
  have nc: "\<not> adding_constraint ?u" using u by (simp add: implements_def)
  have valid: "is_valid a" using assms(1) api_ok_valid by (simp add: implements_def)
  have res: "api_add l a = Done a'"
    using valid y(1) nc assms(2) by (simp add: api_add_def Let_def on_ext_def a'_def valid_lit_def)
  have ad: "added (cad_add l c) = added ?c @ [l]" by (simp add: cad_add_def added_def Let_def)
  have old: "map (translate y) (added ?c) = map (translate (a_ext ?u)) (added ?c)" "\<forall>k \<in> set (added ?c). k \<noteq> 0 \<longrightarrow> has_ilit y k"
    using map_translate_xgrows [OF _ y(3), of "added ?c"] u by (simp_all add: implements_def)
  have "added_to_search y = map (translate y) (added (cad_add l c))"
    using added_to_search_add(1) [OF y(5)] u old(1) by (simp add: ad implements_def translate_def)
  moreover have "\<forall>k \<in> set (added (cad_add l c)). k \<noteq> 0 \<longrightarrow> has_ilit y k"
    using old(2) y(4) by (auto simp: ad has_ilit_def usable_def)
  moreover have "c_state (cad_add l c) = (if l \<noteq> 0 then ADDING else UNKNOWN)" "c_assumptions (cad_add l c) = c_assumptions ?c"
    by (simp_all add: cad_add_def Let_def)
  ultimately have "implements a' (cad_add l c)"
    using ext_inv_xgrows [OF inv y(3,2)] u y(6) by (simp add: implements_def a'_def api_ok_def)
  then show ?thesis using that res by blast
qed

lemma implements_assume:
  assumes "implements a c" "valid_lit l"
  obtains a' where "api_assume l a = Done a'" "implements a' (cad_assume l c)"
proof -
  let ?u = "to_unknown a" and ?c = "transition_to_unknown_state c"
  have u: "implements ?u ?c" by (rule implements_unknown [OF assms(1)])
  have inv: "ext_inv (a_ext ?u)" and n: "numbered (a_ext ?u)" "plain_opts (a_ext ?u)"
    using u by (simp_all add: implements_def api_ok_def ext_inv_def)
  have l: "l \<noteq> int_min" "l \<noteq> 0" using assms(2) by (simp_all add: valid_lit_def)
  obtain y where y: "ext_assume l (a_ext ?u) = Some y" "numbered y" "xgrows (a_ext ?u) y"
      "x_calls y = x_calls (a_ext ?u) @ [Assume_lit (ilit_of l y)]" "assumptions y = assumptions (a_ext ?u) @ [l]"
    using ext_assume_ok [OF n l] by metis
  let ?a = "?u\<lparr>a_ext := y\<rparr>"
  have valid: "is_valid a" using assms(1) api_ok_valid by (simp add: implements_def)
  have res: "api_assume l a = Done ?a" using valid y(1) assms(2) by (simp add: api_assume_def Let_def on_ext_def)
  have ad: "added (cad_assume l c) = added ?c" by (simp add: cad_assume_def added_def Let_def)
  have old: "map (translate y) (added ?c) = map (translate (a_ext ?u)) (added ?c)" "\<forall>k \<in> set (added ?c). k \<noteq> 0 \<longrightarrow> has_ilit y k"
    using map_translate_xgrows [OF _ y(3), of "added ?c"] u by (simp_all add: implements_def)
  have "implements ?a (cad_assume l c)"
    using ext_inv_xgrows [OF inv y(3,2)] u y(5) old added_to_search_add(2) [OF y(4)]
    by (simp add: implements_def api_ok_def ad) (simp add: cad_assume_def Let_def)
  then show ?thesis using that res by blast
qed

text \<open>A program that loads a formula and assumptions.\<close>

fun load_run :: "(int \<times> bool) list \<Rightarrow> api \<Rightarrow> api outcome" where
  "load_run [] a = Done a"
| "load_run ((l, asm) # ls) a =
     (case (if asm then api_assume l a else api_add l a) of Done a \<Rightarrow> load_run ls a | r \<Rightarrow> r)"

fun load_spec :: "(int \<times> bool) list \<Rightarrow> cadical \<Rightarrow> cadical" where
  "load_spec [] c = c"
| "load_spec ((l, asm) # ls) c = load_spec ls (if asm then cad_assume l c else cad_add l c)"

lemma load_refines:
  assumes "implements a c" "\<forall>(l, asm) \<in> set ls. l \<noteq> int_min \<and> (asm \<longrightarrow> l \<noteq> 0)"
  shows "\<exists>a'. load_run ls a = Done a' \<and> implements a' (load_spec ls c)"
  using assms
proof (induction ls arbitrary: a c)
  case (Cons p ls)
  obtain l asm where p: "p = (l, asm)" by (cases p)
  obtain a' where a': "(if asm then api_assume l a else api_add l a) = Done a'" "implements a' (if asm then cad_assume l c else cad_add l c)"
  proof (cases asm)
    case True
    then have "valid_lit l" using Cons.prems(2) by (simp add: p valid_lit_def)
    then show ?thesis using implements_assume [OF Cons.prems(1)] that True by metis
  next
    case False
    then have "l \<noteq> int_min" using Cons.prems(2) by (simp add: p)
    then show ?thesis using implements_add [OF Cons.prems(1)] that False by metis
  qed
  then show ?case using Cons.IH [OF a'(2)] Cons.prems(2) by (simp add: p)
qed simp

end
