(* ===== verification/Cadical_Trail.thy ===== *)
theory Cadical_Trail
  imports Cadical_Flags
begin

text \<open>
  The search state of CaDiCaL: the clauses, the values of the literals, the trail with its decision levels, assigning
  (\<open>search_assign\<close>, \<open>search_assume_decision\<close> of \<open>lib/cadical/src/propagate.cpp\<close>) and taking assignments back (\<open>backtrack.cpp\<close>).
  A pointer to a clause is an index into the list of clauses. Literals are internal literals. What the decision heuristics
  keep (phases, statistics, the variables that are handed back to the decision queues) is in a record of its own. The modes of the solver, proofs and
  log messages are left out. A result \<^term>\<open>None\<close> is a failed assertion or a read out of range.
\<close>

section \<open>State\<close>

record iclause =
  ic_lits :: "int list"
  ic_pos :: nat
  ic_garbage :: bool
  ic_redundant :: bool

record iwatch =
  iw_clause :: nat
  iw_blit :: int
  iw_size :: nat

record ivar =
  vr_level :: nat
  vr_trail :: nat
  vr_reason :: "nat option"

record heur =
  ph_saved :: "nat \<Rightarrow> int"
  ph_target :: "nat \<Rightarrow> int"
  ph_best :: "nat \<Rightarrow> int"
  target_assigned :: nat
  best_assigned :: nat
  no_conflict_until :: nat
  propagated2 :: nat
  rephased :: char
  last_rephase :: nat
  stable_mode :: bool
  lucky_phases :: bool
  n_propagations :: nat
  n_conflicts :: nat
  n_stabconflicts :: nat
  n_backtracks :: nat
  freed :: "nat list"

record isearch =
  is_ivars :: ivars
  is_clauses :: "iclause list"
  is_watches :: "int \<Rightarrow> iwatch list"
  is_vals :: "int \<Rightarrow> int"
  is_vtab :: "nat \<Rightarrow> ivar"
  is_trail :: "int list"
  is_propagated :: nat
  is_level :: nat
  is_control :: "(int \<times> nat) list"
  is_conflict :: "nat option"
  is_unsat :: bool
  is_chrono :: nat
  is_heur :: heur

datatype areason = Unit | Decision | Implied nat

definition level_of :: "isearch \<Rightarrow> int \<Rightarrow> nat" where
  "level_of s l = vr_level (is_vtab s (nat \<bar>l\<bar>))"

definition pos_of :: "isearch \<Rightarrow> int \<Rightarrow> nat" where
  "pos_of s l = vr_trail (is_vtab s (nat \<bar>l\<bar>))"

definition reason_of :: "isearch \<Rightarrow> int \<Rightarrow> nat option" where
  "reason_of s l = vr_reason (is_vtab s (nat \<bar>l\<bar>))"

definition lits_at :: "isearch \<Rightarrow> nat \<Rightarrow> int list" where
  "lits_at s c = ic_lits (is_clauses s ! c)"

section \<open>Assigning\<close>

text \<open>The largest level of the other literals of the reason.\<close>

fun assignment_level :: "isearch \<Rightarrow> int \<Rightarrow> int list \<Rightarrow> nat \<Rightarrow> nat option" where
  "assignment_level s lit [] res = Some res"
| "assignment_level s lit (other # lits) res =
     (if other = lit then assignment_level s lit lits res
      else if is_vals s other = 0 then None
      else let tmp = level_of s other in assignment_level s lit lits (if tmp > res then tmp else res))"

definition learn_unit_clause :: "int \<Rightarrow> isearch \<Rightarrow> isearch option" where
  "learn_unit_clause lit s = do { v \<leftarrow> mark_fixed lit (is_ivars s); Some (s\<lparr>is_ivars := v\<rparr>) }"

definition learn_empty_clause :: "isearch \<Rightarrow> isearch option" where
  "learn_empty_clause s = (if is_unsat s then None else Some (s\<lparr>is_unsat := True\<rparr>))"

definition set_var :: "int \<Rightarrow> nat \<Rightarrow> nat option \<Rightarrow> isearch \<Rightarrow> isearch" where
  "set_var lit lit_level reason s =
     s\<lparr>is_vtab := (is_vtab s)(nat \<bar>lit\<bar> := \<lparr>vr_level = lit_level, vr_trail = length (is_trail s), vr_reason = reason\<rparr>)\<rparr>"

definition set_true :: "int \<Rightarrow> isearch \<Rightarrow> isearch" where
  "set_true lit s =
     s\<lparr>is_vals := (is_vals s)(\<bar>lit\<bar> := sgn lit, - \<bar>lit\<bar> := - sgn lit), is_trail := is_trail s @ [lit]\<rparr>"

definition save_phase :: "int \<Rightarrow> isearch \<Rightarrow> isearch" where
  "save_phase lit s =
     (if lucky_phases (is_heur s) then s
      else s\<lparr>is_heur := (is_heur s)\<lparr>ph_saved := (ph_saved (is_heur s))(nat \<bar>lit\<bar> := sgn lit)\<rparr>\<rparr>)"

definition search_assign :: "int \<Rightarrow> areason \<Rightarrow> isearch \<Rightarrow> isearch option" where
  "search_assign lit reason s =
     (if \<not> has_var lit (is_ivars s) \<or> is_vals s \<bar>lit\<bar> \<noteq> 0 \<or> (flags_status lit (is_ivars s) = ELIMINATED \<and> reason \<noteq> Decision)
      then None
      else
        do { lit_level \<leftarrow> (case reason of
               Unit \<Rightarrow> Some 0
             | Decision \<Rightarrow> Some (is_level s)
             | Implied c \<Rightarrow>
                 if is_chrono s \<noteq> 0 then if c < length (is_clauses s) then assignment_level s lit (lits_at s c) 0 else None
                 else Some (is_level s));
             let r = (case reason of Implied c \<Rightarrow> if lit_level = 0 then None else Some c | _ \<Rightarrow> None);
             s \<leftarrow> Some (set_var lit lit_level r s);
             s \<leftarrow> (if lit_level = 0 then learn_unit_clause lit s else Some s);
             Some (set_true lit (save_phase lit s)) })"

definition assign_unit :: "int \<Rightarrow> isearch \<Rightarrow> isearch option" where
  "assign_unit lit s = (if is_level s \<noteq> 0 then None else search_assign lit Unit s)"

definition search_assume_decision :: "int \<Rightarrow> isearch \<Rightarrow> isearch option" where
  "search_assume_decision lit s =
     (if is_propagated s \<noteq> length (is_trail s) then None
      else search_assign lit Decision
             (s\<lparr>is_level := is_level s + 1, is_control := is_control s @ [(lit, length (is_trail s))]\<rparr>))"

section \<open>Taking assignments back\<close>

definition unassign :: "int \<Rightarrow> isearch \<Rightarrow> isearch option" where
  "unassign lit s =
     (if \<not> is_vals s lit > 0 \<or> \<not> has_var lit (is_ivars s) then None
      else Some (s\<lparr>is_vals := (is_vals s)(\<bar>lit\<bar> := 0, - \<bar>lit\<bar> := 0),
                   is_heur := (is_heur s)\<lparr>freed := freed (is_heur s) @ [nat \<bar>lit\<bar>]\<rparr>\<rparr>))"

definition update_target_and_best :: "heur \<Rightarrow> heur" where
  "update_target_and_best h =
     (let reset = (rephased h \<noteq> CHR 0x00 \<and> n_conflicts h > last_rephase h);
          h = (if reset then h\<lparr>target_assigned := 0, best_assigned := (if rephased h = CHR ''B'' then 0 else best_assigned h)\<rparr> else h);
          h = (if no_conflict_until h > target_assigned h
               then h\<lparr>ph_target := ph_saved h, target_assigned := no_conflict_until h\<rparr> else h);
          h = (if no_conflict_until h > best_assigned h
               then h\<lparr>ph_best := ph_saved h, best_assigned := no_conflict_until h\<rparr> else h)
      in if reset then h\<lparr>rephased := CHR 0x00\<rparr> else h)"

fun back_loop :: "nat \<Rightarrow> nat \<Rightarrow> int list \<Rightarrow> isearch \<Rightarrow> (int list \<times> isearch) option" where
  "back_loop new_level j [] s = Some ([], s)"
| "back_loop new_level j (lit # lits) s =
     (if level_of s lit > new_level then do { s \<leftarrow> unassign lit s; back_loop new_level j lits s }
      else if is_chrono s = 0 then None
      else do { s \<leftarrow> Some (s\<lparr>is_vtab := (is_vtab s)(nat \<bar>lit\<bar> := (is_vtab s (nat \<bar>lit\<bar>))\<lparr>vr_trail := j\<rparr>)\<rparr>);
                (kept, s) \<leftarrow> back_loop new_level (j + 1) lits s;
                Some (lit # kept, s) })"

definition backtrack :: "nat \<Rightarrow> isearch \<Rightarrow> isearch option" where
  "backtrack new_level s =
     (if new_level > is_level s then None
      else if new_level = is_level s then Some s
      else if new_level + 1 \<ge> length (is_control s) then None
      else
        let s = s\<lparr>is_heur := update_target_and_best ((is_heur s)\<lparr>n_backtracks := n_backtracks (is_heur s) + 1\<rparr>)\<rparr>;
            assigned = snd (is_control s ! (new_level + 1))
        in do { (kept, s) \<leftarrow> back_loop new_level assigned (drop assigned (is_trail s)) s;
                Some (s\<lparr>is_trail := take assigned (is_trail s) @ kept,
                        is_propagated := min (is_propagated s) assigned,
                        is_heur := (is_heur s)\<lparr>propagated2 := min (propagated2 (is_heur s)) assigned,
                                               no_conflict_until := min (no_conflict_until (is_heur s)) assigned\<rparr>,
                        is_control := take (new_level + 1) (is_control s), is_level := new_level\<rparr>) })"

section \<open>Invariant\<close>

definition entails :: "clause set \<Rightarrow> clause \<Rightarrow> bool" where
  "entails G c = (\<forall>\<sigma>. sat_all \<sigma> G \<longrightarrow> sat_clause \<sigma> c)"

definition vals_ok :: "isearch \<Rightarrow> bool" where
  "vals_ok s =
     (distinct (is_trail s) \<and> (\<forall>l \<in> set (is_trail s). - l \<notin> set (is_trail s) \<and> has_var l (is_ivars s)) \<and>
      (\<forall>l. l \<noteq> 0 \<longrightarrow> is_vals s l = (if l \<in> set (is_trail s) then 1 else if - l \<in> set (is_trail s) then - 1 else 0)) \<and>
      (\<forall>i < length (is_trail s). pos_of s (is_trail s ! i) = i))"

text \<open>
  Level \<open>k\<close> starts with its decision, or without one (decision 0) when it was opened for an assumption or a constraint that holds already; what lies
  before is of smaller level and was propagated. Without chronological backtracking nothing of a smaller level comes later.
\<close>

definition starts_level :: "isearch \<Rightarrow> nat \<Rightarrow> int \<times> nat \<Rightarrow> bool" where
  "starts_level s k dt =
     (snd dt \<le> length (is_trail s) \<and>
      (fst dt \<noteq> 0 \<longrightarrow> snd dt < length (is_trail s) \<and> is_trail s ! snd dt = fst dt \<and> level_of s (fst dt) = k \<and> reason_of s (fst dt) = None) \<and>
      (\<forall>i < snd dt. level_of s (is_trail s ! i) < k) \<and> snd dt \<le> is_propagated s \<and>
      (is_chrono s = 0 \<longrightarrow> (\<forall>i. snd dt \<le> i \<and> i < length (is_trail s) \<longrightarrow> k \<le> level_of s (is_trail s ! i))))"

definition control_ok :: "isearch \<Rightarrow> bool" where
  "control_ok s =
     (length (is_control s) = is_level s + 1 \<and> (\<forall>l \<in> set (is_trail s). level_of s l \<le> is_level s) \<and>
      (\<forall>k. 0 < k \<and> k \<le> is_level s \<longrightarrow> starts_level s k (is_control s ! k)) \<and> is_propagated s \<le> length (is_trail s) \<and>
      (\<forall>k j. 0 < k \<and> k < j \<and> j \<le> is_level s \<longrightarrow>
         snd (is_control s ! k) \<le> snd (is_control s ! j) \<and> (fst (is_control s ! k) \<noteq> 0 \<longrightarrow> snd (is_control s ! k) < snd (is_control s ! j))))"

text \<open>The reason of a literal: the other literals of the clause were falsified before, at levels that are not higher.\<close>

definition implied_by :: "isearch \<Rightarrow> nat \<Rightarrow> int \<Rightarrow> bool" where
  "implied_by s c l =
     (c < length (is_clauses s) \<and> l \<in> set (lits_at s c) \<and>
      (\<forall>k \<in> set (lits_at s c). k \<noteq> l \<longrightarrow> - k \<in> set (is_trail s) \<and> pos_of s k < pos_of s l \<and> level_of s k \<le> level_of s l))"

definition reason_ok :: "clause set \<Rightarrow> isearch \<Rightarrow> int \<Rightarrow> bool" where
  "reason_ok G s l =
     ((level_of s l = 0 \<longrightarrow> reason_of s l = None \<and> entails G [l]) \<and>
      (case reason_of s l of
         None \<Rightarrow> level_of s l = 0 \<or> l = fst (is_control s ! level_of s l)
       | Some c \<Rightarrow> implied_by s c l))"

definition clause_ok :: "clause set \<Rightarrow> isearch \<Rightarrow> iclause \<Rightarrow> bool" where
  "clause_ok G s c =
     (entails G (ic_lits c) \<and> distinct (ic_lits c) \<and> 2 \<le> ic_pos c \<and> ic_pos c \<le> length (ic_lits c) \<and>
      (\<forall>l \<in> set (ic_lits c). has_var l (is_ivars s) \<and>
         (is_vals s l = 0 \<or> level_of s l > 0 \<longrightarrow> flags_status l (is_ivars s) = ACTIVE)))"

definition falsified :: "isearch \<Rightarrow> nat \<Rightarrow> bool" where
  "falsified s c = (c < length (is_clauses s) \<and> (\<forall>l \<in> set (lits_at s c). - l \<in> set (is_trail s)))"

definition search_inv :: "clause set \<Rightarrow> isearch \<Rightarrow> bool" where
  "search_inv G s =
     (stats_ok (is_ivars s) \<and> vals_ok s \<and> control_ok s \<and> (\<forall>l \<in> set (is_trail s). reason_ok G s l) \<and>
      (\<forall>c \<in> set (is_clauses s). clause_ok G s c) \<and> (\<forall>c. is_conflict s = Some c \<longrightarrow> falsified s c) \<and>
      (is_unsat s \<longrightarrow> (\<forall>\<sigma>. \<not> sat_all \<sigma> G)))"

lemma search_invD:
  assumes "search_inv G s"
  shows "stats_ok (is_ivars s)" "vals_ok s" "control_ok s" "l \<in> set (is_trail s) \<Longrightarrow> reason_ok G s l"
    "c < length (is_clauses s) \<Longrightarrow> clause_ok G s (is_clauses s ! c)" "is_conflict s = Some d \<Longrightarrow> falsified s d"
    "is_unsat s \<Longrightarrow> \<not> sat_all \<sigma> G"
  using assms by (auto simp: search_inv_def)

lemma vals_okD:
  assumes "vals_ok s"
  shows "distinct (is_trail s)" "l \<in> set (is_trail s) \<Longrightarrow> - l \<notin> set (is_trail s)" "l \<in> set (is_trail s) \<Longrightarrow> has_var l (is_ivars s)"
    "l \<noteq> 0 \<Longrightarrow> is_vals s l = (if l \<in> set (is_trail s) then 1 else if - l \<in> set (is_trail s) then - 1 else 0)"
    "i < length (is_trail s) \<Longrightarrow> pos_of s (is_trail s ! i) = i" "l \<in> set (is_trail s) \<Longrightarrow> l \<noteq> 0" "0 \<notin> set (is_trail s)"
  using assms by (auto simp: vals_ok_def has_var_def)

lemma vals_iff:
  assumes "vals_ok s" "l \<noteq> 0"
  shows "is_vals s l > 0 \<longleftrightarrow> l \<in> set (is_trail s)" "is_vals s l < 0 \<longleftrightarrow> - l \<in> set (is_trail s)"
    "is_vals s l = 0 \<longleftrightarrow> l \<notin> set (is_trail s) \<and> - l \<notin> set (is_trail s)"
  using vals_okD(2,4) [OF assms(1)] assms(2) by auto

lemma of_neg [simp]: "level_of s (- l) = level_of s l" "pos_of s (- l) = pos_of s l" "reason_of s (- l) = reason_of s l"
  by (simp_all add: level_of_def pos_of_def reason_of_def)

lemma of_abs [simp]: "level_of s \<bar>l\<bar> = level_of s l" "pos_of s \<bar>l\<bar> = pos_of s l" "reason_of s \<bar>l\<bar> = reason_of s l"
  by (simp_all add: level_of_def pos_of_def reason_of_def)

lemma has_var_neg [simp]: "has_var (- l) v = has_var l v" "has_var \<bar>l\<bar> v = has_var l v"
  by (simp_all add: has_var_def)

lemma frame_of [simp]:
  "level_of (s\<lparr>is_watches := W\<rparr>) = level_of s" "pos_of (s\<lparr>is_watches := W\<rparr>) = pos_of s" "reason_of (s\<lparr>is_watches := W\<rparr>) = reason_of s"
  "lits_at (s\<lparr>is_watches := W\<rparr>) = lits_at s"
  "level_of (s\<lparr>is_heur := h\<rparr>) = level_of s" "pos_of (s\<lparr>is_heur := h\<rparr>) = pos_of s" "reason_of (s\<lparr>is_heur := h\<rparr>) = reason_of s"
  "lits_at (s\<lparr>is_heur := h\<rparr>) = lits_at s"
  "level_of (s\<lparr>is_conflict := c\<rparr>) = level_of s" "pos_of (s\<lparr>is_conflict := c\<rparr>) = pos_of s" "reason_of (s\<lparr>is_conflict := c\<rparr>) = reason_of s"
  "lits_at (s\<lparr>is_conflict := c\<rparr>) = lits_at s"
  "level_of (s\<lparr>is_propagated := n\<rparr>) = level_of s" "pos_of (s\<lparr>is_propagated := n\<rparr>) = pos_of s" "reason_of (s\<lparr>is_propagated := n\<rparr>) = reason_of s"
  "lits_at (s\<lparr>is_propagated := n\<rparr>) = lits_at s"
  "level_of (s\<lparr>is_unsat := u\<rparr>) = level_of s" "pos_of (s\<lparr>is_unsat := u\<rparr>) = pos_of s" "reason_of (s\<lparr>is_unsat := u\<rparr>) = reason_of s"
  "lits_at (s\<lparr>is_unsat := u\<rparr>) = lits_at s"
  by (simp_all add: fun_eq_iff level_of_def pos_of_def reason_of_def lits_at_def)

lemma reason_ok_frame [simp]:
  "reason_ok G (s\<lparr>is_watches := W\<rparr>) = reason_ok G s" "reason_ok G (s\<lparr>is_heur := h\<rparr>) = reason_ok G s"
  "reason_ok G (s\<lparr>is_conflict := c\<rparr>) = reason_ok G s" "reason_ok G (s\<lparr>is_propagated := n\<rparr>) = reason_ok G s"
  "reason_ok G (s\<lparr>is_unsat := u\<rparr>) = reason_ok G s"
  by (simp_all add: fun_eq_iff reason_ok_def implied_by_def split: option.split)

lemma search_inv_frame [simp]:
  "search_inv G (s\<lparr>is_watches := W\<rparr>) = search_inv G s" "search_inv G (s\<lparr>is_heur := h\<rparr>) = search_inv G s"
  by (simp_all add: search_inv_def vals_ok_def control_ok_def starts_level_def clause_ok_def falsified_def)

lemma search_inv_conflict:
  "search_inv G s \<Longrightarrow> (\<And>d. c = Some d \<Longrightarrow> falsified s d) \<Longrightarrow> search_inv G (s\<lparr>is_conflict := c\<rparr>)"
  by (simp add: search_inv_def vals_ok_def control_ok_def starts_level_def clause_ok_def falsified_def)

lemma pos_of_trail: "vals_ok s \<Longrightarrow> l \<in> set (is_trail s) \<Longrightarrow> pos_of s l < length (is_trail s) \<and> is_trail s ! pos_of s l = l"
  by (auto simp: in_set_conv_nth vals_okD(5))

text \<open>Every literal on the trail follows from the formula and the decisions.\<close>

definition decisions :: "isearch \<Rightarrow> int list" where
  "decisions s = filter (\<lambda>d. d \<noteq> 0) (map fst (tl (is_control s)))"

lemma decision_in: "control_ok s \<Longrightarrow> 0 < k \<Longrightarrow> k \<le> is_level s \<Longrightarrow> fst (is_control s ! k) \<noteq> 0 \<Longrightarrow> fst (is_control s ! k) \<in> set (decisions s)"
proof -
  assume a: "control_ok s" "0 < k" "k \<le> is_level s" "fst (is_control s ! k) \<noteq> 0"
  have n: "k - 1 < length (tl (is_control s))" using a by (simp add: control_ok_def)
  have "tl (is_control s) ! (k - 1) = is_control s ! k" using nth_tl [OF n] a(2) by simp
  then show ?thesis using nth_mem [OF n] a(4) by (auto simp: decisions_def)
qed

lemma trail_implied:
  assumes "search_inv G s" "sat_all \<sigma> G" "\<forall>d \<in> set (decisions s). lit_true \<sigma> d" "l \<in> set (is_trail s)"
  shows "lit_true \<sigma> l"
  using assms(4)
proof (induction "pos_of s l" arbitrary: l rule: less_induct)
  case less
  note I = search_invD [OF assms(1)]
  show ?case
  proof (cases "reason_of s l")
    case None
    then have "level_of s l = 0 \<or> l = fst (is_control s ! level_of s l)" using I(4) [OF less.prems] by (simp add: reason_ok_def)
    then show ?thesis
    proof
      assume "level_of s l = 0"
      then show ?thesis using I(4) [OF less.prems] assms(2) by (simp add: reason_ok_def entails_def)
    next
      assume l: "l = fst (is_control s ! level_of s l)"
      show ?thesis
      proof (cases "level_of s l = 0")
        case True
        then show ?thesis using I(4) [OF less.prems] assms(2) by (simp add: reason_ok_def entails_def)
      next
        case False
        then have "l \<in> set (decisions s)" using decision_in [OF I(3), of "level_of s l"] I(3) less.prems l vals_okD(6) [OF I(2) less.prems] by (simp add: control_ok_def)
        then show ?thesis using assms(3) by blast
      qed
    qed
  next
    case (Some c)
    then have c: "implied_by s c l" using I(4) [OF less.prems] by (simp add: reason_ok_def)
    have "sat_clause \<sigma> (lits_at s c)"
      using I(5) [of c] c assms(2) by (simp add: clause_ok_def entails_def lits_at_def implied_by_def)
    then obtain k where k: "k \<in> set (lits_at s c)" "lit_true \<sigma> k" by (auto simp: sat_clause_def)
    show ?thesis
    proof (cases "k = l")
      case False
      then have f: "- k \<in> set (is_trail s)" "pos_of s k < pos_of s l" using c k(1) by (auto simp: implied_by_def)
      have "lit_true \<sigma> (- k)" using less.hyps [of "- k"] f by simp
      moreover have "k \<noteq> 0" using vals_okD(6) [OF I(2) f(1)] by simp
      ultimately show ?thesis using k(2) by simp
    qed (use k in simp)
  qed
qed

lemma conflict_refutes:
  assumes "search_inv G s" "is_conflict s = Some c" "sat_all \<sigma> G"
  shows "\<exists>d \<in> set (decisions s). \<not> lit_true \<sigma> d"
proof (rule ccontr)
  assume "\<not> ?thesis"
  then have d: "\<forall>d \<in> set (decisions s). lit_true \<sigma> d" by blast
  note I = search_invD [OF assms(1)]
  have c: "falsified s c" by (rule I(6) [OF assms(2)])
  then have "sat_clause \<sigma> (lits_at s c)" using I(5) [of c] assms(3) by (simp add: falsified_def clause_ok_def entails_def lits_at_def)
  then obtain k where k: "k \<in> set (lits_at s c)" "lit_true \<sigma> k" by (auto simp: sat_clause_def)
  then have "- k \<in> set (is_trail s)" using c by (simp add: falsified_def)
  then have "lit_true \<sigma> (- k)" "k \<noteq> 0" using trail_implied [OF assms(1,3) d] vals_okD(6) [OF I(2)] by fastforce+
  then show False using k(2) by simp
qed

section \<open>A literal is put on the trail\<close>

definition pushed :: "int \<Rightarrow> nat \<Rightarrow> nat option \<Rightarrow> isearch \<Rightarrow> isearch \<Rightarrow> bool" where
  "pushed lit lv r s s' =
     (is_trail s' = is_trail s @ [lit] \<and>
      is_vtab s' = (is_vtab s)(nat \<bar>lit\<bar> := \<lparr>vr_level = lv, vr_trail = length (is_trail s), vr_reason = r\<rparr>) \<and>
      is_vals s' = (is_vals s)(\<bar>lit\<bar> := sgn lit, - \<bar>lit\<bar> := - sgn lit) \<and>
      is_clauses s' = is_clauses s \<and> is_watches s' = is_watches s \<and> is_propagated s' = is_propagated s \<and>
      is_conflict s' = is_conflict s \<and> is_unsat s' = is_unsat s \<and> is_chrono s' = is_chrono s \<and>
      stats_ok (is_ivars s') \<and> i_max_var (is_ivars s') = i_max_var (is_ivars s) \<and>
      (\<forall>k. nat \<bar>k\<bar> \<noteq> nat \<bar>lit\<bar> \<or> lv \<noteq> 0 \<longrightarrow> flags_status k (is_ivars s') = flags_status k (is_ivars s)))"

lemma pushed_of:
  assumes "pushed lit lv r s s'"
  shows "level_of s' lit = lv" "pos_of s' lit = length (is_trail s)" "reason_of s' lit = r"
    "nat \<bar>k\<bar> \<noteq> nat \<bar>lit\<bar> \<Longrightarrow> level_of s' k = level_of s k" "nat \<bar>k\<bar> \<noteq> nat \<bar>lit\<bar> \<Longrightarrow> pos_of s' k = pos_of s k"
    "nat \<bar>k\<bar> \<noteq> nat \<bar>lit\<bar> \<Longrightarrow> reason_of s' k = reason_of s k" "has_var k (is_ivars s') = has_var k (is_ivars s)" "lits_at s' c = lits_at s c"
  using assms by (simp_all add: pushed_def level_of_def pos_of_def reason_of_def has_var_def lits_at_def)

lemma other_var: "k \<in> T \<Longrightarrow> lit \<notin> T \<Longrightarrow> - lit \<notin> T \<Longrightarrow> nat \<bar>k\<bar> \<noteq> nat \<bar>lit :: int\<bar>"
  by (metis abs_eq_iff nat_eq_iff abs_ge_zero)

lemma pushed_vals:
  assumes p: "pushed lit lv r s s'" and v: "vals_ok s" and l: "lit \<notin> set (is_trail s)" "- lit \<notin> set (is_trail s)" "has_var lit (is_ivars s)"
  shows "vals_ok s'"
proof -
  note V = vals_okD [OF v] and P = pushed_of [OF p]
  have t: "is_trail s' = is_trail s @ [lit]" using p by (simp add: pushed_def)
  have l0: "lit \<noteq> 0" using l(3) by (simp add: has_var_def)
  have vals: "is_vals s' k = (if k = lit then 1 else if k = - lit then - 1 else is_vals s k)" for k
    using p l0 by (cases "lit < 0") (auto simp: pushed_def)
  have "is_vals s' k = (if k \<in> set (is_trail s') then 1 else if - k \<in> set (is_trail s') then - 1 else 0)" if "k \<noteq> 0" for k
    using V(4) [OF that] vals [of k] l l0 t by auto
  moreover have "pos_of s' (is_trail s' ! i) = i" if i: "i < length (is_trail s')" for i
  proof (cases "i = length (is_trail s)")
    case False
    then have "i < length (is_trail s)" using i t by simp
    then show ?thesis using V(5) P(5) [OF other_var [OF nth_mem l(1,2)]] t by (simp add: nth_append)
  qed (use P(2) t in simp)
  ultimately show ?thesis unfolding vals_ok_def using V(1-3) P(7) t l l0 by auto
qed

lemma pushed_inv:
  assumes inv: "search_inv G s" and p: "pushed lit lv r s s'"
    and l: "lit \<notin> set (is_trail s)" "- lit \<notin> set (is_trail s)" "has_var lit (is_ivars s)"
    and c: "control_ok s'" "\<And>k. k \<le> is_level s \<Longrightarrow> is_control s' ! k = is_control s ! k"
    and new: "reason_ok G s' lit"
  shows "search_inv G s'"
proof -
  note I = search_invD [OF inv] and P = pushed_of [OF p]
  have t: "is_trail s' = is_trail s @ [lit]" and cl: "is_clauses s' = is_clauses s" "is_conflict s' = is_conflict s" "is_unsat s' = is_unsat s"
    using p by (simp_all add: pushed_def)
  have v: "vals_ok s'" by (rule pushed_vals [OF p I(2) l])
  have "reason_ok G s' k" if k: "k \<in> set (is_trail s)" for k
  proof -
    note N = P(4-6) [OF other_var [OF k l(1,2)]]
    have lev: "level_of s k \<le> is_level s" using I(3) k by (simp add: control_ok_def)
    have "implied_by s' d k" if d: "implied_by s d k" for d
    proof -
      have "- j \<in> set (is_trail s') \<and> pos_of s' j < pos_of s' k \<and> level_of s' j \<le> level_of s' k" if j: "j \<in> set (lits_at s d)" "j \<noteq> k" for j
      proof -
        have f: "- j \<in> set (is_trail s)" using d j by (simp add: implied_by_def)
        show ?thesis using d j P(4,5) [OF other_var [OF f l(1,2)]] N f t by (simp add: implied_by_def)
      qed
      then show ?thesis using d cl(1) P(8) by (simp add: implied_by_def)
    qed
    then show ?thesis using I(4) [OF k] N c(2) [OF lev] by (auto simp: reason_ok_def split: option.splits)
  qed
  moreover have "clause_ok G s' d" if d: "d \<in> set (is_clauses s)" for d
  proof -
    have ok: "clause_ok G s d" using inv d by (simp add: search_inv_def)
    have "flags_status k (is_ivars s') = ACTIVE" if k: "k \<in> set (ic_lits d)" "is_vals s' k = 0 \<or> 0 < level_of s' k" for k
    proof (cases "nat \<bar>k\<bar> = nat \<bar>lit\<bar>")
      case True
      then have kk: "k = lit \<or> k = - lit" by auto
      have l0: "lit \<noteq> 0" using l(3) by (simp add: has_var_def)
      have "k \<noteq> 0" using kk l0 by auto
      then have "is_vals s' k \<noteq> 0" using vals_iff(3) [OF v, of k] kk t by auto
      moreover have "level_of s' k = lv" using kk P(1) by auto
      ultimately have lv: "lv \<noteq> 0" using k(2) by simp
      have "is_vals s k = 0" using vals_iff(3) [OF I(2) \<open>k \<noteq> 0\<close>] kk l by auto
      then show ?thesis using ok k(1) lv p by (simp add: clause_ok_def pushed_def)
    next
      case False
      then have "is_vals s' k = is_vals s k" using p by (auto simp: pushed_def)
      moreover have "flags_status k (is_ivars s') = flags_status k (is_ivars s)" using p False by (simp add: pushed_def)
      ultimately show ?thesis using ok k P(4) [OF False] by (auto simp: clause_ok_def)
    qed
    then show ?thesis using ok P(7) by (simp add: clause_ok_def)
  qed
  moreover have "falsified s' d" if "is_conflict s = Some d" for d using I(6) [OF that] t cl(1) P(8) by (simp add: falsified_def)
  ultimately show ?thesis using v c(1) new I(7) p t cl by (auto simp: search_inv_def pushed_def)
qed

lemma assignment_level_ok:
  assumes "\<And>k. k \<in> set lits \<Longrightarrow> k \<noteq> lit \<Longrightarrow> is_vals s k \<noteq> 0"
  obtains n where "assignment_level s lit lits res = Some n" "res \<le> n" "\<And>k. k \<in> set lits \<Longrightarrow> k \<noteq> lit \<Longrightarrow> level_of s k \<le> n"
    "n = res \<or> (\<exists>k \<in> set lits. k \<noteq> lit \<and> level_of s k = n)"
  using assms
proof (induction lits arbitrary: res thesis)
  case Nil
  then show ?case by simp
next
  case (Cons a lits)
  show ?case
  proof (cases "a = lit")
    case True
    show ?thesis
    proof (rule Cons.IH [of res])
      show "is_vals s k \<noteq> 0" if "k \<in> set lits" "k \<noteq> lit" for k using Cons.prems(2) that by simp
      fix n assume "assignment_level s lit lits res = Some n" "res \<le> n" "\<And>k. k \<in> set lits \<Longrightarrow> k \<noteq> lit \<Longrightarrow> level_of s k \<le> n"
        "n = res \<or> (\<exists>k \<in> set lits. k \<noteq> lit \<and> level_of s k = n)"
      then show thesis using Cons.prems(1) [of n] True by auto
    qed
  next
    case False
    let ?r = "if level_of s a > res then level_of s a else res"
    show ?thesis
    proof (rule Cons.IH [of ?r])
      show "is_vals s k \<noteq> 0" if "k \<in> set lits" "k \<noteq> lit" for k using Cons.prems(2) that by simp
      fix n assume n: "assignment_level s lit lits ?r = Some n" "?r \<le> n" "\<And>k. k \<in> set lits \<Longrightarrow> k \<noteq> lit \<Longrightarrow> level_of s k \<le> n"
        "n = ?r \<or> (\<exists>k \<in> set lits. k \<noteq> lit \<and> level_of s k = n)"
      have "assignment_level s lit (a # lits) res = Some n" using n(1) False Cons.prems(2) [of a] by (simp add: Let_def)
      then show thesis
      proof (rule Cons.prems(1))
        show "res \<le> n" using n(2) by (simp split: if_splits)
        show "level_of s k \<le> n" if "k \<in> set (a # lits)" "k \<noteq> lit" for k using n(2,3) that by (auto split: if_splits)
        show "n = res \<or> (\<exists>k \<in> set (a # lits). k \<noteq> lit \<and> level_of s k = n)" using n(4) False by (auto split: if_splits)
      qed
    qed
  qed
qed

lemma search_assign_pushes:
  assumes "stats_ok (is_ivars s)" "has_var lit (is_ivars s)" "is_vals s \<bar>lit\<bar> = 0"
    and lv: "(case reason of Unit \<Rightarrow> Some 0 | Decision \<Rightarrow> Some (is_level s)
             | Implied c \<Rightarrow> if is_chrono s \<noteq> 0 then if c < length (is_clauses s) then assignment_level s lit (lits_at s c) 0 else None
                 else Some (is_level s)) = Some lv"
    and act: "flags_status lit (is_ivars s) = ACTIVE \<or> reason = Decision \<and> lv \<noteq> 0"
  obtains s' where "search_assign lit reason s = Some s'"
    "pushed lit lv (case reason of Implied c \<Rightarrow> if lv = 0 then None else Some c | _ \<Rightarrow> None) s s'"
    "is_level s' = is_level s" "is_control s' = is_control s"
proof -
  let ?r = "case reason of Implied c \<Rightarrow> if lv = 0 then None else Some c | _ \<Rightarrow> None"
  let ?s1 = "set_var lit lv ?r s"
  obtain v where v: "(if lv = 0 then learn_unit_clause lit ?s1 else Some ?s1) = Some (?s1\<lparr>is_ivars := v\<rparr>)" "stats_ok v"
      "i_max_var v = i_max_var (is_ivars s)" "\<forall>k. nat \<bar>k\<bar> \<noteq> nat \<bar>lit\<bar> \<or> lv \<noteq> 0 \<longrightarrow> flags_status k v = flags_status k (is_ivars s)"
  proof (cases "lv = 0")
    case True
    then have "becomes lit FIXED (is_ivars s) (mark_fixed lit (is_ivars s))" using mark_inactive_ok(1) [OF assms(1,2)] act by blast
    then obtain v where "mark_fixed lit (is_ivars s) = Some v" "stats_ok v" "i_status v = (i_status (is_ivars s))[nat \<bar>lit\<bar> := FIXED]"
        "i_max_var v = i_max_var (is_ivars s)" by (auto simp: becomes_def split: option.splits)
    then show ?thesis using that [of v] True by (simp add: learn_unit_clause_def set_var_def flags_status_def)
  next
    case False
    then show ?thesis using that [of "is_ivars s"] assms(1) by (simp add: set_var_def)
  qed
  let ?s' = "set_true lit (save_phase lit (?s1\<lparr>is_ivars := v\<rparr>))"
  have "search_assign lit reason s = Some ?s'"
    using assms(2,3) lv act v(1) unfolding search_assign_def by (auto simp: Let_def simp del: bind_Some_iff)
  moreover have "pushed lit lv ?r s ?s'"
    using v(2-4) by (simp add: pushed_def set_true_def save_phase_def set_var_def)
  moreover have "is_level ?s' = is_level s" "is_control ?s' = is_control s" by (simp_all add: set_true_def save_phase_def set_var_def)
  ultimately show ?thesis by (rule that)
qed

lemma pushed_starts:
  assumes p: "pushed lit lv r s s'" and "starts_level s k dt" and v: "vals_ok s" and l: "lit \<notin> set (is_trail s)" "- lit \<notin> set (is_trail s)"
    and ch: "is_chrono s = 0 \<Longrightarrow> k \<le> lv"
  shows "starts_level s' k dt"
proof -
  note P = pushed_of [OF p]
  have t: "is_trail s' = is_trail s @ [lit]" "is_propagated s' = is_propagated s" using p by (simp_all add: pushed_def)
  have old: "level_of s' (is_trail s ! i) = level_of s (is_trail s ! i)" "reason_of s' (is_trail s ! i) = reason_of s (is_trail s ! i)"
    if "i < length (is_trail s)" for i
    using P(4,6) [OF other_var [OF nth_mem [OF that] l]] by simp_all
  have "k \<le> level_of s' (is_trail s' ! i)" if i: "snd dt \<le> i" "i < length (is_trail s')" "is_chrono s = 0" for i
    using i old [of i] ch P(1) assms(2) t by (cases "i = length (is_trail s)") (auto simp: starts_level_def nth_append)
  moreover have "is_chrono s' = is_chrono s" using p by (simp add: pushed_def)
  moreover have "level_of s' (fst dt) = level_of s (fst dt) \<and> reason_of s' (fst dt) = reason_of s (fst dt)" if "fst dt \<noteq> 0"
    using assms(2) that old [of "snd dt"] by (simp add: starts_level_def)
  ultimately show ?thesis using assms(2) old t unfolding starts_level_def by (auto simp: nth_append)
qed

lemma pushed_control:
  assumes p: "pushed lit lv r s s'" and inv: "vals_ok s" "control_ok s" and l: "lit \<notin> set (is_trail s)" "- lit \<notin> set (is_trail s)"
    and "lv \<le> is_level s" "is_level s' = is_level s" "is_control s' = is_control s" and ch: "is_chrono s = 0 \<Longrightarrow> lv = is_level s"
  shows "control_ok s'"
proof -
  have t: "is_trail s' = is_trail s @ [lit]" "is_propagated s' = is_propagated s" using p by (simp_all add: pushed_def)
  have "level_of s' k \<le> is_level s" if "k \<in> set (is_trail s)" for k
    using pushed_of(4) [OF p other_var [OF that l]] inv(2) that by (simp add: control_ok_def)
  moreover have "starts_level s' k (is_control s ! k)" if "0 < k" "k \<le> is_level s" for k
    by (rule pushed_starts [OF p _ inv(1) l]) (use that ch inv(2) in \<open>auto simp: control_ok_def\<close>)
  ultimately show ?thesis
    using assms(6-8) inv(2) pushed_of(1) [OF p] t by (auto simp: control_ok_def)
qed

lemma root_implied:
  assumes inv: "search_inv G s" and c: "c < length (is_clauses s)"
    and others: "\<And>k. k \<in> set (lits_at s c) \<Longrightarrow> k \<noteq> lit \<Longrightarrow> - k \<in> set (is_trail s) \<and> level_of s k = 0"
  shows "entails G [lit]"
  unfolding entails_def
proof (intro allI impI)
  fix \<sigma> assume g: "sat_all \<sigma> G"
  note I = search_invD [OF inv]
  have "sat_clause \<sigma> (lits_at s c)" using I(5) [OF c] g by (simp add: clause_ok_def entails_def lits_at_def)
  then obtain k where k: "k \<in> set (lits_at s c)" "lit_true \<sigma> k" by (auto simp: sat_clause_def)
  have "k = lit"
  proof (rule ccontr)
    assume n: "k \<noteq> lit"
    then have f: "- k \<in> set (is_trail s)" "level_of s (- k) = 0" using others k(1) by auto
    then have "lit_true \<sigma> (- k)" using I(4) [OF f(1)] g by (simp add: reason_ok_def entails_def)
    then show False using k(2) vals_okD(6) [OF I(2) f(1)] by simp
  qed
  then show "sat_clause \<sigma> [lit]" using k(2) by simp
qed

lemma search_assign_implied:
  assumes inv: "search_inv G s" and c: "c < length (is_clauses s)" "lit \<in> set (lits_at s c)"
    and l: "lit \<notin> set (is_trail s)" "- lit \<notin> set (is_trail s)"
    and others: "\<And>k. k \<in> set (lits_at s c) \<Longrightarrow> k \<noteq> lit \<Longrightarrow> - k \<in> set (is_trail s)"
  obtains s' lv r where "search_assign lit (Implied c) s = Some s'" "pushed lit lv r s s'" "is_level s' = is_level s" "is_control s' = is_control s"
    "search_inv G s'" "is_chrono s \<noteq> 0 \<Longrightarrow> lv \<noteq> 0 \<Longrightarrow> \<exists>k \<in> set (lits_at s c). k \<noteq> lit \<and> level_of s k = lv"
proof -
  note I = search_invD [OF inv]
  have C: "clause_ok G s (is_clauses s ! c)" by (rule I(5) [OF c(1)])
  have hv: "has_var lit (is_ivars s)" using C c(2) by (simp add: clause_ok_def lits_at_def)
  then have l0: "lit \<noteq> 0" by (simp add: has_var_def)
  have val: "is_vals s lit = 0" using vals_iff(3) [OF I(2) l0] l by simp
  have val': "is_vals s \<bar>lit\<bar> = 0" using vals_iff(3) [OF I(2), of "\<bar>lit\<bar>"] l l0 by (cases "lit < 0") auto
  have act: "flags_status lit (is_ivars s) = ACTIVE" using C c(2) val by (simp add: clause_ok_def lits_at_def)
  have nz: "is_vals s k \<noteq> 0" if "k \<in> set (lits_at s c)" "k \<noteq> lit" for k
    using vals_iff(3) [OF I(2), of k] others [OF that] vals_okD(6) [OF I(2) others [OF that]] by auto
  have le: "level_of s k \<le> is_level s" if "k \<in> set (lits_at s c)" "k \<noteq> lit" for k
    using I(3) others [OF that] by (auto simp: control_ok_def dest!: bspec)
  obtain lv where lv: "(if is_chrono s \<noteq> 0 then if c < length (is_clauses s) then assignment_level s lit (lits_at s c) 0 else None
        else Some (is_level s)) = Some lv" "\<And>k. k \<in> set (lits_at s c) \<Longrightarrow> k \<noteq> lit \<Longrightarrow> level_of s k \<le> lv" "lv \<le> is_level s"
      "is_chrono s = 0 \<Longrightarrow> lv = is_level s" "is_chrono s \<noteq> 0 \<Longrightarrow> lv \<noteq> 0 \<Longrightarrow> \<exists>k \<in> set (lits_at s c). k \<noteq> lit \<and> level_of s k = lv"
  proof (cases "is_chrono s = 0")
    case True
    then show ?thesis using that [of "is_level s"] le by simp
  next
    case False
    obtain n where n: "assignment_level s lit (lits_at s c) 0 = Some n" "\<And>k. k \<in> set (lits_at s c) \<Longrightarrow> k \<noteq> lit \<Longrightarrow> level_of s k \<le> n"
        "n = 0 \<or> (\<exists>k \<in> set (lits_at s c). k \<noteq> lit \<and> level_of s k = n)"
      by (rule assignment_level_ok [OF nz]) (assumption, assumption, rule that)
    show ?thesis by (rule that [of n]) (use n le False c(1) in auto)
  qed
  let ?r = "if lv = 0 then None else Some c"
  obtain s' where s': "search_assign lit (Implied c) s = Some s'" "pushed lit lv ?r s s'" "is_level s' = is_level s" "is_control s' = is_control s"
    by (rule search_assign_pushes [OF I(1) hv val', of "Implied c" lv]) (use lv(1) act in auto)
  note P = pushed_of [OF s'(2)]
  have imp: "implied_by s' c lit" unfolding implied_by_def P(8)
  proof (intro conjI ballI impI)
    show "c < length (is_clauses s')" using c(1) s'(2) by (simp add: pushed_def)
    show "lit \<in> set (lits_at s c)" by (rule c(2))
    fix k assume k: "k \<in> set (lits_at s c)" "k \<noteq> lit"
    have f: "- k \<in> set (is_trail s)" by (rule others [OF k])
    then show "- k \<in> set (is_trail s')" using s'(2) by (simp add: pushed_def)
    show "pos_of s' k < pos_of s' lit" using P(5) [OF other_var [OF f l]] P(2) pos_of_trail [OF I(2) f] by simp
    show "level_of s' k \<le> level_of s' lit" using P(4) [OF other_var [OF f l]] P(1) lv(2) [OF k] by simp
  qed
  have "entails G [lit]" if "lv = 0" using root_implied [OF inv c(1)] others lv(2) that by auto
  then have "reason_ok G s' lit" using P(1,3) imp by (auto simp: reason_ok_def)
  moreover have "control_ok s'" by (rule pushed_control [OF s'(2) I(2,3) l lv(3) s'(3,4) lv(4)])
  ultimately have "search_inv G s'" using pushed_inv [OF inv s'(2) l hv] s'(4) by simp
  then show ?thesis using that [OF s'] lv(5) by blast
qed

text \<open>A new level starts at the end of the trail.\<close>

lemma opened_sorted:
  fixes d :: int
  assumes c: "control_ok s" and k: "0 < k" "k < j" "j \<le> is_level s + 1"
  defines "ctl \<equiv> is_control s @ [(d, length (is_trail s))]"
  shows "snd (ctl ! k) \<le> snd (ctl ! j) \<and> (fst (ctl ! k) \<noteq> 0 \<longrightarrow> snd (ctl ! k) < snd (ctl ! j))"
proof -
  have len: "length (is_control s) = is_level s + 1" using c by (simp add: control_ok_def)
  have st: "starts_level s k (is_control s ! k)" using c k by (simp add: control_ok_def)
  show ?thesis
  proof (cases "j = is_level s + 1")
    case True
    then show ?thesis using st len k by (simp add: ctl_def nth_append starts_level_def)
  next
    case False
    then show ?thesis using c k len by (simp add: ctl_def nth_append control_ok_def)
  qed
qed

lemma search_assume_decision_ok:
  assumes inv: "search_inv G s" and p: "is_propagated s = length (is_trail s)" and l: "lit \<notin> set (is_trail s)" "- lit \<notin> set (is_trail s)"
    "has_var lit (is_ivars s)"
  obtains s' where "search_assume_decision lit s = Some s'" "search_inv G s'" "pushed lit (is_level s + 1) None s s'"
    "is_level s' = is_level s + 1" "is_control s' = is_control s @ [(lit, length (is_trail s))]"
proof -
  note I = search_invD [OF inv]
  let ?s = "s\<lparr>is_level := is_level s + 1, is_control := is_control s @ [(lit, length (is_trail s))]\<rparr>"
  have l0: "lit \<noteq> 0" using l(3) by (simp add: has_var_def)
  have val': "is_vals s \<bar>lit\<bar> = 0" using vals_iff(3) [OF I(2), of "\<bar>lit\<bar>"] l l0 by (cases "lit < 0") auto
  obtain s' where s': "search_assign lit Decision ?s = Some s'" "pushed lit (is_level s + 1) None ?s s'" "is_level s' = is_level ?s" "is_control s' = is_control ?s"
    by (rule search_assign_pushes [of ?s lit Decision "is_level s + 1"]) (use I(1) l(3) val' in auto)
  have p': "pushed lit (is_level s + 1) None s s'" using s'(2) by (simp add: pushed_def)
  note P = pushed_of [OF p']
  have t: "is_trail s' = is_trail s @ [lit]" "is_propagated s' = is_propagated s" using p' by (simp_all add: pushed_def)
  have len: "length (is_control s) = is_level s + 1" using I(3) by (simp add: control_ok_def)
  have old: "level_of s' k = level_of s k \<and> level_of s k \<le> is_level s" if "k \<in> set (is_trail s)" for k
    using P(4) [OF other_var [OF that l(1,2)]] I(3) that by (simp add: control_ok_def)
  have start: "starts_level s' (is_level s + 1) (lit, length (is_trail s))"
    using P(1,3) old t p nth_mem by (fastforce simp: starts_level_def nth_append)
  have "starts_level s' k (is_control s' ! k)" if k: "0 < k" "k \<le> is_level s + 1" for k
  proof (cases "k = is_level s + 1")
    case True
    then show ?thesis using start s'(4) len by (simp add: nth_append)
  next
    case False
    then have "starts_level s k (is_control s ! k)" using I(3) k by (simp add: control_ok_def)
    then show ?thesis using pushed_starts [OF p' _ I(2) l(1,2)] s'(4) len k False by (simp add: nth_append)
  qed
  moreover have "level_of s' k \<le> is_level s + 1" if "k \<in> set (is_trail s')" for k using that old [of k] P(1) t(1) by auto
  ultimately have "control_ok s'" unfolding control_ok_def using s'(3,4) len t p opened_sorted [OF I(3)] by simp
  moreover have "reason_ok G s' lit" using P(1,3) s'(4) len by (simp add: reason_ok_def nth_append)
  ultimately have "search_inv G s'" using pushed_inv [OF inv p' l] s'(4) len by (simp add: nth_append)
  then show ?thesis using that [of s'] s' p p' by (simp add: search_assume_decision_def)
qed

end
