(* ===== verification/Cadical_Propagate.thy ===== *)
theory Cadical_Propagate
  imports Cadical_Trail
begin

text \<open>
  \<open>Internal::propagate\<close> of \<open>lib/cadical/src/propagate.cpp\<close>: unit propagation with two watched literals per clause, blocking
  literals, separate treatment of binary clauses and saved positions of the last replacement. The loop over the watches of a literal
  copies the watches it keeps to the front of the vector; here the watches kept so far and those still to come are two lists.
  Pushing to the vector that is being walked over would invalidate the iterators and is the result \<^term>\<open>None\<close>.
\<close>

section \<open>Watches\<close>

definition watch_literal :: "int \<Rightarrow> int \<Rightarrow> nat \<Rightarrow> isearch \<Rightarrow> isearch option" where
  "watch_literal lit blit c s =
     (if lit = blit then None
      else Some (s\<lparr>is_watches := (is_watches s)(lit := is_watches s lit @
                    [\<lparr>iw_clause = c, iw_blit = blit, iw_size = length (lits_at s c)\<rparr>])\<rparr>))"

definition watch_clause :: "nat \<Rightarrow> isearch \<Rightarrow> isearch option" where
  "watch_clause c s =
     (let l0 = lits_at s c ! 0; l1 = lits_at s c ! 1
      in do { s \<leftarrow> watch_literal l0 l1 c s; watch_literal l1 l0 c s })"

section \<open>Propagation\<close>

text \<open>One of the two searches for a literal that is not false: position, literal and value where it stops.\<close>

fun find_watch :: "isearch \<Rightarrow> nat \<Rightarrow> int \<Rightarrow> int \<Rightarrow> int list \<Rightarrow> nat \<times> int \<times> int" where
  "find_watch s k r v [] = (k, r, v)"
| "find_watch s k r v (x # xs) = (let v = is_vals s x in if v < 0 then find_watch s (k + 1) x v xs else (k, x, v))"

text \<open>From the saved position to the end of the clause, then from the first literal that is not watched to the saved position.\<close>

definition replacement :: "isearch \<Rightarrow> iclause \<Rightarrow> nat \<times> int \<times> int" where
  "replacement s cl =
     (let (k, r, v) = find_watch s (ic_pos cl) 0 (- 1) (drop (ic_pos cl) (ic_lits cl))
      in if v < 0 then find_watch s 2 r v (take (ic_pos cl - 2) (drop 2 (ic_lits cl))) else (k, r, v))"

fun first_at_level :: "isearch \<Rightarrow> nat \<Rightarrow> nat \<Rightarrow> int list \<Rightarrow> nat option" where
  "first_at_level s lv pos [] = None"
| "first_at_level s lv pos (l # ls) = (if level_of s l = lv then Some pos else first_at_level s lv (pos + 1) ls)"

definition set_clause :: "nat \<Rightarrow> iclause \<Rightarrow> isearch \<Rightarrow> isearch" where
  "set_clause c cl s = s\<lparr>is_clauses := (is_clauses s)[c := cl]\<rparr>"

text \<open>A clause of more than two literals: the watch that stays, if it stays, and whether the loop ends with a conflict.\<close>

definition visit_clause :: "int \<Rightarrow> iwatch \<Rightarrow> isearch \<Rightarrow> (iwatch option \<times> bool \<times> isearch) option" where
  "visit_clause lit w s =
     (let c = iw_clause w; cl = is_clauses s ! c; lits = ic_lits cl;
          other = xor (xor (lits ! 0) (lits ! 1)) lit; u = is_vals s other
      in if length lits < 2 then None
         else if u > 0 then Some (Some (w\<lparr>iw_blit := other\<rparr>), False, s)
         else if ic_pos cl < 2 \<or> ic_pos cl > length lits then None
         else
           let (k, r, v) = replacement s cl; cl = cl\<lparr>ic_pos := k\<rparr>; s = set_clause c cl s
           in if v > 0 then Some (Some (w\<lparr>iw_blit := r\<rparr>), False, s)
              else if v = 0 then
                if r = lit then None
                else do { s \<leftarrow> watch_literal r lit c (set_clause c (cl\<lparr>ic_lits := lits[0 := other, 1 := r, k := lit]\<rparr>) s);
                          Some (None, False, s) }
              else if u = 0 then
                do { s \<leftarrow> search_assign other (Implied c) s;
                     if is_chrono s > 1 \<and> level_of s other > level_of s lit then
                       do { pos \<leftarrow> first_at_level s (level_of s other) 2 (drop 2 lits);
                            if lits ! pos = lit then None
                            else do { s \<leftarrow> watch_literal (lits ! pos) other c
                                        (set_clause c (cl\<lparr>ic_lits := lits[pos := lit, 0 := other, 1 := lits ! pos]\<rparr>) s);
                                      Some (None, False, s) } }
                     else Some (Some w, False, s) }
              else Some (Some w, True, s\<lparr>is_conflict := Some c\<rparr>))"

fun prop_watches :: "int \<Rightarrow> iwatch list \<Rightarrow> iwatch list \<Rightarrow> isearch \<Rightarrow> (iwatch list \<times> iwatch list \<times> isearch) option" where
  "prop_watches lit kept [] s = Some (kept, [], s)"
| "prop_watches lit kept (w # ws) s =
     (let b = is_vals s (iw_blit w)
      in if b > 0 then prop_watches lit (kept @ [w]) ws s
         else if iw_size w = 2 then
           if b < 0 then prop_watches lit (kept @ [w]) ws (s\<lparr>is_conflict := Some (iw_clause w)\<rparr>)
           else do { s \<leftarrow> search_assign (iw_blit w) (Implied (iw_clause w)) s; prop_watches lit (kept @ [w]) ws s }
         else if is_conflict s \<noteq> None then Some (kept @ [w], ws, s)
         else if iw_clause w \<ge> length (is_clauses s) then None
         else if ic_garbage (is_clauses s ! iw_clause w) then prop_watches lit kept ws s
         else do { (k, stop, s) \<leftarrow> visit_clause lit w s;
                   let kept = kept @ (case k of None \<Rightarrow> [] | Some w \<Rightarrow> [w])
                   in if stop then Some (kept, ws, s) else prop_watches lit kept ws s })"

partial_function (option) prop_loop :: "isearch \<Rightarrow> isearch option" where
  [code]: "prop_loop s =
     (if is_conflict s = None \<and> is_propagated s \<noteq> length (is_trail s) then
        if is_propagated s > length (is_trail s) then None
        else
          let lit = - (is_trail s ! is_propagated s); s = s\<lparr>is_propagated := is_propagated s + 1\<rparr>
          in do { (kept, rest, s) \<leftarrow> prop_watches lit [] (is_watches s lit) s;
                  prop_loop (s\<lparr>is_watches := (is_watches s)(lit := kept @ rest)\<rparr>) }
      else Some s)"

definition propagate_stats :: "nat \<Rightarrow> isearch \<Rightarrow> heur" where
  "propagate_stats before s =
     (let h = is_heur s
      in if lucky_phases h then h
         else
           let h = h\<lparr>n_propagations := n_propagations h + (is_propagated s - before)\<rparr>
           in if is_conflict s = None then h\<lparr>no_conflict_until := is_propagated s\<rparr>
              else h\<lparr>n_stabconflicts := n_stabconflicts h + (if stable_mode h then 1 else 0), n_conflicts := n_conflicts h + 1,
                     no_conflict_until := snd (is_control s ! is_level s)\<rparr>)"

definition propagate :: "isearch \<Rightarrow> (bool \<times> isearch) option" where
  "propagate s =
     (if is_unsat s then None
      else do { s' \<leftarrow> prop_loop s;
                if is_level s' \<ge> length (is_control s') then None
                else Some (is_conflict s' = None, s'\<lparr>is_heur := propagate_stats (is_propagated s) s'\<rparr>) })"

section \<open>Invariants of the watches\<close>

definition watched :: "isearch \<Rightarrow> nat \<Rightarrow> int set" where
  "watched s c = {lits_at s c ! 0, lits_at s c ! 1}"

definition watch_entry :: "isearch \<Rightarrow> int \<Rightarrow> iwatch \<Rightarrow> bool" where
  "watch_entry s l w =
     (iw_clause w < length (is_clauses s) \<and> iw_size w = length (lits_at s (iw_clause w)) \<and>
      l \<in> set (lits_at s (iw_clause w)) \<and> iw_blit w \<in> set (lits_at s (iw_clause w)) \<and> iw_blit w \<noteq> l \<and>
      (\<not> ic_garbage (is_clauses s ! iw_clause w) \<longrightarrow> l \<in> watched s (iw_clause w)))"

definition watch_ok :: "(int \<Rightarrow> iwatch list) \<Rightarrow> isearch \<Rightarrow> bool" where
  "watch_ok W s =
     ((\<forall>l. distinct (map iw_clause (W l)) \<and> (\<forall>w \<in> set (W l). watch_entry s l w)) \<and>
      (\<forall>c < length (is_clauses s). \<not> ic_garbage (is_clauses s ! c) \<longrightarrow> (\<forall>l \<in> watched s c. c \<in> iw_clause ` set (W l))))"

text \<open>
  Below level \<open>k\<close>, whose decision is at position \<open>t\<close> of the trail, everything that was propagated is settled: the clauses
  watched by a falsified literal are garbage or satisfied by a literal of a level below \<open>k\<close>.
\<close>

definition settled_to :: "nat \<Rightarrow> nat \<Rightarrow> (int \<Rightarrow> iwatch list) \<Rightarrow> isearch \<Rightarrow> bool" where
  "settled_to k t W s =
     (\<forall>p < min t (is_propagated s). \<forall>w \<in> set (W (- (is_trail s ! p))).
        ic_garbage (is_clauses s ! iw_clause w) \<or>
        (\<exists>l \<in> set (is_trail s) \<inter> set (lits_at s (iw_clause w)). level_of s l < k))"

definition settled_with :: "(int \<Rightarrow> iwatch list) \<Rightarrow> isearch \<Rightarrow> bool" where
  "settled_with W s =
     ((\<forall>k. 0 < k \<and> k \<le> is_level s \<longrightarrow> settled_to k (snd (is_control s ! k)) W s) \<and>
      (is_conflict s = None \<longrightarrow> settled_to (is_level s + 1) (length (is_trail s)) W s))"

definition prop_inv :: "clause set \<Rightarrow> isearch \<Rightarrow> bool" where
  "prop_inv G s = (search_inv G s \<and> watch_ok (is_watches s) s \<and> settled_with (is_watches s) s)"

text \<open>
  A literal that may occur in clauses: its variable is in use, and it is active unless it has its value for good.
  What propagation does to a state: the trail grows, and the literals of a clause change places.
\<close>

definition lit_ok :: "isearch \<Rightarrow> int \<Rightarrow> bool" where
  "lit_ok s l =
     (has_var l (is_ivars s) \<and>
      (flags_status l (is_ivars s) = ACTIVE \<or> (l \<in> set (is_trail s) \<or> - l \<in> set (is_trail s)) \<and> level_of s l = 0))"

definition grows_to :: "isearch \<Rightarrow> isearch \<Rightarrow> bool" where
  "grows_to s s' =
     ((\<exists>t. is_trail s' = is_trail s @ t) \<and> is_level s' = is_level s \<and> is_control s' = is_control s \<and> is_unsat s' = is_unsat s \<and>
      is_chrono s' = is_chrono s \<and> i_max_var (is_ivars s') = i_max_var (is_ivars s) \<and>
      length (is_clauses s') = length (is_clauses s) \<and>
      (\<forall>c < length (is_clauses s). mset (lits_at s' c) = mset (lits_at s c) \<and>
         ic_garbage (is_clauses s' ! c) = ic_garbage (is_clauses s ! c) \<and> ic_redundant (is_clauses s' ! c) = ic_redundant (is_clauses s ! c)) \<and>
      (\<forall>l \<in> set (is_trail s). level_of s' l = level_of s l) \<and>
      (\<forall>l \<in> set (is_trail s') - set (is_trail s). \<exists>c < length (is_clauses s). l \<in> set (lits_at s c)) \<and>
      (\<forall>l. lit_ok s l \<longrightarrow> lit_ok s' l))"

lemma lit_ok_frame [simp]:
  "lit_ok (s\<lparr>is_watches := W\<rparr>) = lit_ok s" "lit_ok (s\<lparr>is_heur := h\<rparr>) = lit_ok s" "lit_ok (s\<lparr>is_conflict := c\<rparr>) = lit_ok s"
  "lit_ok (s\<lparr>is_propagated := n\<rparr>) = lit_ok s" "lit_ok (s\<lparr>is_unsat := u\<rparr>) = lit_ok s"
  by (simp_all add: fun_eq_iff lit_ok_def)

lemma grows_to_refl: "grows_to s s"
  by (auto simp: grows_to_def)

lemma grows_toD:
  assumes "grows_to s s'"
  shows "\<exists>t. is_trail s' = is_trail s @ t" "is_level s' = is_level s" "is_control s' = is_control s" "is_unsat s' = is_unsat s"
    "is_chrono s' = is_chrono s" "i_max_var (is_ivars s') = i_max_var (is_ivars s)" "length (is_clauses s') = length (is_clauses s)"
    "c < length (is_clauses s) \<Longrightarrow> mset (lits_at s' c) = mset (lits_at s c)"
    "c < length (is_clauses s) \<Longrightarrow> set (lits_at s' c) = set (lits_at s c)"
    "c < length (is_clauses s) \<Longrightarrow> length (lits_at s' c) = length (lits_at s c)"
    "c < length (is_clauses s) \<Longrightarrow> ic_garbage (is_clauses s' ! c) = ic_garbage (is_clauses s ! c)"
    "l \<in> set (is_trail s) \<Longrightarrow> level_of s' l = level_of s l" "set (is_trail s) \<subseteq> set (is_trail s')"
    "l \<in> set (is_trail s') \<Longrightarrow> l \<notin> set (is_trail s) \<Longrightarrow> \<exists>c < length (is_clauses s). l \<in> set (lits_at s c)"
    "lit_ok s l \<Longrightarrow> lit_ok s' l"
proof -
  note g = assms [unfolded grows_to_def]
  show t: "\<exists>t. is_trail s' = is_trail s @ t" using g by blast
  then show "set (is_trail s) \<subseteq> set (is_trail s')" by auto
  show m: "mset (lits_at s' c) = mset (lits_at s c)" if "c < length (is_clauses s)" for c using g that by blast
  show "set (lits_at s' c) = set (lits_at s c)" if "c < length (is_clauses s)" for c by (rule mset_eq_setD [OF m [OF that]])
  show "length (lits_at s' c) = length (lits_at s c)" if "c < length (is_clauses s)" for c by (rule mset_eq_length [OF m [OF that]])
qed (use assms in \<open>unfold grows_to_def, blast+\<close>)

lemma grows_to_trans:
  assumes a: "grows_to s t" and b: "grows_to t u"
  shows "grows_to s u"
  unfolding grows_to_def
proof (intro conjI allI ballI impI)
  note A = grows_toD [OF a] and B = grows_toD [OF b]
  show "\<exists>r. is_trail u = is_trail s @ r" using A(1) B(1) by auto
  show "mset (lits_at u c) = mset (lits_at s c)" "ic_garbage (is_clauses u ! c) = ic_garbage (is_clauses s ! c)" if "c < length (is_clauses s)" for c
    using that A(7,8,11) B(8,11) by simp_all
  show "ic_redundant (is_clauses u ! c) = ic_redundant (is_clauses s ! c)" if "c < length (is_clauses s)" for c
    using that a b A(7) by (simp add: grows_to_def)
  show "level_of u l = level_of s l" if "l \<in> set (is_trail s)" for l using that A(12,13) B(12) by auto
  show "\<exists>c < length (is_clauses s). l \<in> set (lits_at s c)" if l: "l \<in> set (is_trail u) - set (is_trail s)" for l
  proof (cases "l \<in> set (is_trail t)")
    case True
    then show ?thesis using A(14) l by blast
  next
    case False
    then obtain c where "c < length (is_clauses t)" "l \<in> set (lits_at t c)" using B(14) [of l] l by blast
    then show ?thesis using A(7,9) by auto
  qed
qed (use grows_toD [OF a] grows_toD [OF b] in simp_all)

section \<open>Searching a replacement\<close>

lemma find_watch_spec:
  "find_watch s k r v xs = (k', r', v') \<Longrightarrow>
   if \<forall>x \<in> set xs. is_vals s x < 0 then k' = k + length xs \<and> (xs = [] \<longrightarrow> v' = v) \<and> (xs \<noteq> [] \<longrightarrow> v' < 0)
   else k \<le> k' \<and> k' < k + length xs \<and> r' = xs ! (k' - k) \<and> v' = is_vals s r' \<and> 0 \<le> v'"
proof (induction xs arbitrary: k r v)
  case (Cons x xs)
  show ?case
  proof (cases "is_vals s x < 0")
    case True
    then have "find_watch s (k + 1) x (is_vals s x) xs = (k', r', v')" using Cons.prems by (simp add: Let_def)
    then have "if \<forall>x \<in> set xs. is_vals s x < 0 then k' = k + 1 + length xs \<and> (xs = [] \<longrightarrow> v' = is_vals s x) \<and> (xs \<noteq> [] \<longrightarrow> v' < 0)
        else k + 1 \<le> k' \<and> k' < k + 1 + length xs \<and> r' = xs ! (k' - (k + 1)) \<and> v' = is_vals s r' \<and> 0 \<le> v'" by (rule Cons.IH)
    moreover have "(x # xs) ! (k' - k) = xs ! (k' - (k + 1))" if "k + 1 \<le> k'" using that by (simp add: nth_Cons')
    ultimately show ?thesis using True by (cases "xs = []") (auto split: if_splits)
  next
    case False
    then show ?thesis using Cons.prems by (auto simp: Let_def)
  qed
qed simp

lemma replacement_spec:
  assumes "replacement s cl = (k, r, v)" "2 \<le> ic_pos cl" "ic_pos cl \<le> length (ic_lits cl)"
  shows "2 \<le> k" "k \<le> length (ic_lits cl)" "v < 0 \<Longrightarrow> x \<in> set (drop 2 (ic_lits cl)) \<Longrightarrow> is_vals s x < 0"
    "0 \<le> v \<Longrightarrow> k < length (ic_lits cl) \<and> r = ic_lits cl ! k \<and> v = is_vals s r"
proof -
  let ?p = "ic_pos cl" and ?ls = "ic_lits cl"
  obtain k1 r1 v1 where f: "find_watch s ?p 0 (- 1) (drop ?p ?ls) = (k1, r1, v1)" by (metis surj_pair)
  note F = find_watch_spec [OF f]
  have split: "set (drop 2 ?ls) = set (take (?p - 2) (drop 2 ?ls)) \<union> set (drop ?p ?ls)"
    using append_take_drop_id [of "?p - 2" "drop 2 ?ls"] assms(2) by (metis drop_drop le_add_diff_inverse2 set_append)
  have "2 \<le> k \<and> k \<le> length ?ls \<and> (v < 0 \<longrightarrow> (\<forall>x \<in> set (drop 2 ?ls). is_vals s x < 0)) \<and> (0 \<le> v \<longrightarrow> k < length ?ls \<and> r = ?ls ! k \<and> v = is_vals s r)"
  proof (cases "v1 < 0")
    case True
    then have g: "find_watch s 2 r1 v1 (take (?p - 2) (drop 2 ?ls)) = (k, r, v)" using assms(1) f by (simp add: replacement_def)
    have all: "\<forall>x \<in> set (drop ?p ?ls). is_vals s x < 0" using F True by (auto split: if_splits)
    have len: "length (take (?p - 2) (drop 2 ?ls)) = ?p - 2" using assms(3) by simp
    show ?thesis
    proof (cases "\<forall>x \<in> set (take (?p - 2) (drop 2 ?ls)). is_vals s x < 0")
      case a: True
      have "k = ?p" "v < 0" using find_watch_spec [OF g] a len assms(2) True by (auto split: if_splits)
      then show ?thesis using assms(2,3) all a split by auto
    next
      case b: False
      then have k: "2 \<le> k" "k < 2 + length (take (?p - 2) (drop 2 ?ls))" "r = take (?p - 2) (drop 2 ?ls) ! (k - 2)" "v = is_vals s r" "0 \<le> v"
        using find_watch_spec [OF g] by (auto split: if_splits)
      then have "k < ?p" using len assms(2) by linarith
      moreover have "Suc (Suc (k - 2)) = k" using k(1) by simp
      then have "r = ?ls ! k" using k(1,3) \<open>k < ?p\<close> assms(3) by simp
      ultimately show ?thesis using k assms(3) by auto
    qed
  next
    case False
    then have kk: "k = k1" "r = r1" "v = v1" using assms(1) f by (simp_all add: replacement_def)
    have "\<not> (\<forall>x \<in> set (drop ?p ?ls). is_vals s x < 0)"
    proof
      assume "\<forall>x \<in> set (drop ?p ?ls). is_vals s x < 0"
      then show False using F False by (cases "drop ?p ?ls = []") (auto split: if_splits)
    qed
    then have "?p \<le> k1" "k1 < length ?ls" "r1 = drop ?p ?ls ! (k1 - ?p)" "v1 = is_vals s r1" "0 \<le> v1"
      using F assms(3) by (auto split: if_splits)
    then show ?thesis using kk assms(2,3) by auto
  qed
  then show "2 \<le> k" "k \<le> length (ic_lits cl)" "v < 0 \<Longrightarrow> x \<in> set (drop 2 (ic_lits cl)) \<Longrightarrow> is_vals s x < 0"
    "0 \<le> v \<Longrightarrow> k < length (ic_lits cl) \<and> r = ic_lits cl ! k \<and> v = is_vals s r" by auto
qed

lemma first_at_level_spec:
  assumes "\<exists>x \<in> set ls. level_of s x = lv"
  obtains k where "first_at_level s lv pos ls = Some (pos + k)" "k < length ls" "level_of s (ls ! k) = lv"
  using assms
proof (induction ls arbitrary: pos thesis)
  case (Cons a ls)
  show ?case
  proof (cases "level_of s a = lv")
    case True
    then show ?thesis using Cons.prems(1) [of 0] by simp
  next
    case False
    then have ex: "\<exists>x \<in> set ls. level_of s x = lv" using Cons.prems(2) by simp
    obtain k where "first_at_level s lv (pos + 1) ls = Some (pos + 1 + k)" "k < length ls" "level_of s (ls ! k) = lv"
      by (rule Cons.IH [OF _ ex])
    then show ?thesis using Cons.prems(1) [of "Suc k"] False by simp
  qed
qed simp

section \<open>Changing places in a clause\<close>

lemma drop2_set: "2 \<le> length ls \<Longrightarrow> set ls = {ls ! 0, ls ! 1} \<union> set (drop 2 ls)"
  by (cases ls; cases "tl ls") auto

lemma mset_move:
  assumes "2 \<le> k" "k < length ls" "{ls ! 0, ls ! 1} = {lit, other}" "lit \<noteq> other"
  shows "mset (ls[0 := other, 1 := ls ! k, k := lit]) = mset ls" "mset (ls[k := lit, 0 := other, 1 := ls ! k]) = mset ls"
proof -
  have le: "0 < length ls" "1 < length ls" using assms(1,2) by linarith+
  consider "ls ! 0 = other" "ls ! 1 = lit" | "ls ! 0 = lit" "ls ! 1 = other" using assms(3,4) by (auto simp: doubleton_eq_iff)
  then have "mset (ls[0 := other, 1 := ls ! k, k := lit]) = mset ls"
  proof cases
    case 1
    then have "ls[0 := other, 1 := ls ! k, k := lit] = ls[1 := ls ! k, k := ls ! 1]" by (metis list_update_id)
    then show ?thesis using mset_swap [of k ls 1] assms(2) le by simp
  next
    case 2
    let ?m = "ls[0 := ls ! 1, 1 := ls ! 0]"
    have "ls[0 := other, 1 := ls ! k, k := lit] = ?m[1 := ?m ! k, k := ?m ! 1]" using 2 assms(1,2) le by simp
    then show ?thesis using mset_swap [of k ?m 1] mset_swap [of 1 ls 0] assms(2) le by simp
  qed
  moreover have "ls[k := lit, 0 := other, 1 := ls ! k] = ls[0 := other, 1 := ls ! k, k := lit]"
    using assms(1) list_update_swap [of k 0 ls lit other] list_update_swap [of k 1 "ls[0 := other]" lit "ls ! k"] by simp
  ultimately show "mset (ls[0 := other, 1 := ls ! k, k := lit]) = mset ls" "mset (ls[k := lit, 0 := other, 1 := ls ! k]) = mset ls" by simp_all
qed

lemma xor_other: "{a, b} = {lit, other} \<Longrightarrow> xor (xor a b) lit = (other :: int)"
  by (auto simp: doubleton_eq_iff xor.assoc) (metis xor.commute xor.assoc xor_self_eq xor.right_neutral)

lemma lits_at_set_clause [simp]:
  "c < length (is_clauses s) \<Longrightarrow> lits_at (set_clause c cl s) d = (if d = c then ic_lits cl else lits_at s d)"
  by (auto simp: lits_at_def set_clause_def)

lemma set_clause_simps [simp]:
  "is_trail (set_clause c cl s) = is_trail s" "is_vals (set_clause c cl s) = is_vals s" "is_vtab (set_clause c cl s) = is_vtab s"
  "is_level (set_clause c cl s) = is_level s" "is_control (set_clause c cl s) = is_control s" "is_conflict (set_clause c cl s) = is_conflict s"
  "is_propagated (set_clause c cl s) = is_propagated s" "is_unsat (set_clause c cl s) = is_unsat s" "is_chrono (set_clause c cl s) = is_chrono s"
  "is_ivars (set_clause c cl s) = is_ivars s" "is_watches (set_clause c cl s) = is_watches s"
  "length (is_clauses (set_clause c cl s)) = length (is_clauses s)"
  "level_of (set_clause c cl s) = level_of s" "pos_of (set_clause c cl s) = pos_of s" "reason_of (set_clause c cl s) = reason_of s"
  "set_clause c cl (set_clause c cl' s) = set_clause c cl s" "lit_ok (set_clause c cl s) = lit_ok s"
  by (simp_all add: set_clause_def level_of_def pos_of_def reason_of_def lit_ok_def fun_eq_iff)

lemma set_clause_inv:
  assumes inv: "search_inv G s" and c: "c < length (is_clauses s)" and m: "mset (ic_lits cl) = mset (lits_at s c)"
    and p: "2 \<le> ic_pos cl" "ic_pos cl \<le> length (ic_lits cl)"
  shows "search_inv G (set_clause c cl s)"
proof -
  note I = search_invD [OF inv]
  let ?s = "set_clause c cl s"
  have st: "set (lits_at ?s d) = set (lits_at s d)" for d using mset_eq_setD [OF m] c by simp
  have dist: "distinct (ic_lits cl)"
    using I(5) [OF c] mset_eq_imp_distinct_iff [OF m] by (simp add: clause_ok_def lits_at_def)
  have ent: "entails G (ic_lits cl)"
    using I(5) [OF c] mset_eq_setD [OF m] by (simp add: clause_ok_def lits_at_def entails_def sat_clause_def)
  have cl: "clause_ok G ?s cl" using I(5) [OF c] mset_eq_setD [OF m] p dist ent by (simp add: clause_ok_def lits_at_def)
  have "clause_ok G ?s d" if d: "d \<in> set (is_clauses ?s)" for d
  proof -
    have "d \<in> insert cl (set (is_clauses s))" using d set_update_subset_insert [of "is_clauses s" c cl] by (auto simp: set_clause_def)
    then show ?thesis using cl inv by (auto simp: search_inv_def clause_ok_def)
  qed
  moreover have "reason_ok G ?s l = reason_ok G s l" for l by (simp add: reason_ok_def implied_by_def st split: option.split)
  moreover have "vals_ok ?s = vals_ok s" "control_ok ?s = control_ok s" "falsified ?s d = falsified s d" for d
    by (simp_all add: vals_ok_def control_ok_def starts_level_def falsified_def st)
  ultimately show ?thesis using inv by (simp add: search_inv_def)
qed

lemma set_clause_grows:
  assumes "c < length (is_clauses s)" "mset (ic_lits cl) = mset (lits_at s c)" "ic_garbage cl = ic_garbage (is_clauses s ! c)"
    "ic_redundant cl = ic_redundant (is_clauses s ! c)"
  shows "grows_to s (set_clause c cl s)"
proof -
  have "lit_ok (set_clause c cl s) l = lit_ok s l" for l by simp
  then show ?thesis unfolding grows_to_def using assms by (auto simp: set_clause_def lits_at_def nth_list_update level_of_def)
qed

lemma pushed_lit_ok:
  assumes "pushed lit lv r s s'" "lit \<notin> set (is_trail s)" "- lit \<notin> set (is_trail s)" "lit_ok s l"
  shows "lit_ok s' l"
proof (cases "nat \<bar>l\<bar> = nat \<bar>lit\<bar>")
  case True
  then have "l = lit \<or> l = - lit" by auto
  then show ?thesis using assms pushed_of(1,7) [OF assms(1)] by (cases "lv = 0") (auto simp: lit_ok_def pushed_def)
next
  case False
  then show ?thesis using assms(4) pushed_of(4) [OF assms(1) False] pushed_of(7) [OF assms(1)] assms(1) by (auto simp: lit_ok_def pushed_def)
qed

lemma pushed_grows:
  assumes p: "pushed lit lv r s s'" and l: "lit \<notin> set (is_trail s)" "- lit \<notin> set (is_trail s)"
    and "is_level s' = is_level s" "is_control s' = is_control s" "c < length (is_clauses s)" "lit \<in> set (lits_at s c)"
  shows "grows_to s s'"
proof -
  have "level_of s' k = level_of s k" if "k \<in> set (is_trail s)" for k by (rule pushed_of(4) [OF p other_var [OF that l]])
  then show ?thesis using assms pushed_of(8) [OF p] pushed_lit_ok [OF p l] unfolding grows_to_def pushed_def by auto
qed

section \<open>Changing watch lists\<close>

lemma watch_okD:
  assumes "watch_ok W s"
  shows "distinct (map iw_clause (W l))" "w \<in> set (W l) \<Longrightarrow> watch_entry s l w"
    "c < length (is_clauses s) \<Longrightarrow> \<not> ic_garbage (is_clauses s ! c) \<Longrightarrow> l \<in> watched s c \<Longrightarrow> c \<in> iw_clause ` set (W l)"
  using assms unfolding watch_ok_def by blast+

lemma watch_ok_same:
  assumes "length (is_clauses s') = length (is_clauses s)" "\<And>c. lits_at s' c = lits_at s c"
    "\<And>c. ic_garbage (is_clauses s' ! c) = ic_garbage (is_clauses s ! c)"
  shows "watch_ok W s' = watch_ok W s"
  using assms by (simp add: watch_ok_def watch_entry_def watched_def)

lemma watch_ok_blit:
  assumes W: "watch_ok (W(lit := kept @ w # ws)) s" and b: "b \<in> set (lits_at s (iw_clause w))" "b \<noteq> lit"
  shows "watch_ok (W(lit := kept @ w\<lparr>iw_blit := b\<rparr> # ws)) s"
proof -
  have e: "watch_entry s l x" if "x \<in> set ((W(lit := kept @ w # ws)) l)" for l x by (rule watch_okD(2) [OF W that])
  have "watch_entry s lit (w\<lparr>iw_blit := b\<rparr>)" using e [of w lit] b by (simp add: watch_entry_def)
  moreover have "iw_clause ` set ((W(lit := kept @ w\<lparr>iw_blit := b\<rparr> # ws)) l) = iw_clause ` set ((W(lit := kept @ w # ws)) l)" for l by auto
  moreover have "distinct (map iw_clause ((W(lit := kept @ w\<lparr>iw_blit := b\<rparr> # ws)) l))" for l
    using watch_okD(1) [OF W, of l] by (cases "l = lit") simp_all
  ultimately show ?thesis unfolding watch_ok_def using e watch_okD(3) [OF W] by (auto split: if_splits)
qed

lemma watch_ok_drop:
  assumes W: "watch_ok (W(lit := kept @ w # ws)) s" and g: "ic_garbage (is_clauses s ! iw_clause w)"
  shows "watch_ok (W(lit := kept @ ws)) s"
proof -
  have "c \<in> iw_clause ` set ((W(lit := kept @ ws)) l)"
    if "c < length (is_clauses s)" "\<not> ic_garbage (is_clauses s ! c)" "l \<in> watched s c" for c l
    using watch_okD(3) [OF W that] g that(2) by (auto split: if_splits)
  then show ?thesis unfolding watch_ok_def using watch_okD(1,2) [OF W] by (fastforce split: if_splits)
qed

lemma watch_ok_move:
  assumes W: "watch_ok (W(lit := kept @ w # ws)) s" and g: "\<not> ic_garbage (is_clauses s ! iw_clause w)"
    and c: "iw_clause w = c" "c < length (is_clauses s)" "watched s c = {lit, other}" "lit \<noteq> other"
    and r: "r \<in> set (lits_at s c)" "r \<noteq> lit" "r \<noteq> other" "b \<in> set (lits_at s c)" "b \<noteq> r"
    and cl: "mset (ic_lits cl) = mset (lits_at s c)" "{ic_lits cl ! 0, ic_lits cl ! 1} = {other, r}" "ic_garbage cl = ic_garbage (is_clauses s ! c)"
  shows "watch_ok (W(lit := kept @ ws, r := W r @ [\<lparr>iw_clause = c, iw_blit = b, iw_size = length (ic_lits cl)\<rparr>])) (set_clause c cl s)"
    (is "watch_ok ?W ?s")
proof -
  note D = watch_okD [OF W]
  have st: "set (lits_at ?s d) = set (lits_at s d)" "length (lits_at ?s d) = length (lits_at s d)" for d
    using mset_eq_setD [OF cl(1)] mset_eq_length [OF cl(1)] c(2) by simp_all
  have wd: "watched ?s d = (if d = c then {other, r} else watched s d)" for d using c(2) cl(2) by (simp add: watched_def)
  have ga: "ic_garbage (is_clauses ?s ! d) = ic_garbage (is_clauses s ! d)" for d using cl(3) c(2) by (cases "d = c") (simp_all add: set_clause_def)
  have gc: "\<not> ic_garbage (is_clauses s ! c)" using g c(1) by simp
  have only: "l = other" if "x \<in> set (W l)" "l \<noteq> lit" "iw_clause x = c" for x l
    using D(2) [of x l] that c(3) gc by (auto simp: watch_entry_def)
  have lit: "c \<notin> iw_clause ` set (kept @ ws)" using D(1) [of lit] c(1) by auto
  have entry: "watch_entry ?s l x" if x: "x \<in> set ((W(lit := kept @ ws)) l)" for l x
  proof -
    have x0: "x \<in> set ((W(lit := kept @ w # ws)) l)" using x by (auto split: if_splits)
    have "l = other" if "iw_clause x = c"
    proof -
      have "l \<noteq> lit" using x lit that by (auto split: if_splits)
      then show ?thesis using only [of x l] x that by simp
    qed
    then show ?thesis using D(2) [OF x0] by (auto simp: watch_entry_def st wd ga)
  qed
  have new: "watch_entry ?s r \<lparr>iw_clause = c, iw_blit = b, iw_size = length (ic_lits cl)\<rparr>"
    using c(2) r cl mset_eq_setD [OF cl(1)] by (auto simp: watch_entry_def st wd)
  have nr: "c \<notin> iw_clause ` set (W r)" using only [of _ r] r(2,3) by auto
  have "distinct (map iw_clause (?W l))" for l
    using D(1) [of l] D(1) [of r] nr r(2) by (cases "l = r"; cases "l = lit") auto
  moreover have "watch_entry ?s l x" if "x \<in> set (?W l)" for l x
    using that entry [of x l] new r(2) by (auto split: if_splits)
  moreover have "d \<in> iw_clause ` set (?W l)" if d: "d < length (is_clauses s)" "\<not> ic_garbage (is_clauses s ! d)" "l \<in> watched ?s d" for d l
  proof (cases "d = c")
    case True
    then consider "l = r" | "l = other" using d(3) wd by auto
    then show ?thesis
    proof cases
      case 2
      then have "c \<in> iw_clause ` set (W other)" using D(3) [OF c(2) gc, of other] c(3,4) by simp
      then show ?thesis using 2 True r(3) c(4) by auto
    qed (use True in auto)
  next
    case False
    then show ?thesis using D(3) [OF d(1,2), of l] d(3) wd c(1) r(2) by (cases "l = r"; cases "l = lit") auto
  qed
  ultimately show ?thesis unfolding watch_ok_def by (simp add: ga)
qed

section \<open>The invariant of the loop over the watches\<close>

definition loop_inv :: "clause set \<Rightarrow> int \<Rightarrow> iwatch list \<Rightarrow> iwatch list \<Rightarrow> isearch \<Rightarrow> bool" where
  "loop_inv G lit kept ws s =
     (search_inv G s \<and> watch_ok ((is_watches s)(lit := kept @ ws)) s \<and> settled_with ((is_watches s)(lit := kept)) s \<and>
      0 < is_propagated s \<and> is_trail s ! (is_propagated s - 1) = - lit \<and>
      (\<forall>k. 0 < k \<and> k \<le> is_level s \<longrightarrow> snd (is_control s ! k) < is_propagated s))"

lemma loop_invD:
  assumes "loop_inv G lit kept ws s"
  shows "search_inv G s" "watch_ok ((is_watches s)(lit := kept @ ws)) s" "settled_with ((is_watches s)(lit := kept)) s"
    "- lit \<in> set (is_trail s)" "lit \<noteq> 0" "0 < is_propagated s" "is_propagated s \<le> length (is_trail s)"
    "is_trail s ! (is_propagated s - 1) = - lit" "0 < k \<Longrightarrow> k \<le> is_level s \<Longrightarrow> snd (is_control s ! k) < is_propagated s"
proof -
  show inv: "search_inv G s" "watch_ok ((is_watches s)(lit := kept @ ws)) s" "settled_with ((is_watches s)(lit := kept)) s"
      "0 < is_propagated s" and t: "is_trail s ! (is_propagated s - 1) = - lit"
      and "0 < k \<Longrightarrow> k \<le> is_level s \<Longrightarrow> snd (is_control s ! k) < is_propagated s"
    using assms by (simp_all add: loop_inv_def)
  show p: "is_propagated s \<le> length (is_trail s)" using search_invD(3) [OF inv(1)] by (simp add: control_ok_def)
  have "is_propagated s - 1 < length (is_trail s)" using p inv(4) by simp
  then show m: "- lit \<in> set (is_trail s)" using nth_mem t by metis
  show "lit \<noteq> 0" using vals_okD(6) [OF search_invD(2) [OF inv(1)] m] by simp
qed

lemma loop_step:
  assumes L: "loop_inv G lit kept ws s" and g: "grows_to s s'" and inv: "search_inv G s'" and p: "is_propagated s' = is_propagated s"
    and W: "watch_ok ((is_watches s')(lit := kept' @ ws')) s'"
    and kept: "\<And>w. w \<in> set kept' \<Longrightarrow> is_conflict s' = None \<Longrightarrow> w \<in> set kept \<or> set (is_trail s') \<inter> set (lits_at s' (iw_clause w)) \<noteq> {}"
    and others: "\<And>l w. l \<noteq> lit \<Longrightarrow> w \<in> set (is_watches s' l) \<Longrightarrow> w \<in> set (is_watches s l) \<or> - l \<notin> set (is_trail s) \<or>
        (\<exists>k \<in> set (is_trail s') \<inter> set (lits_at s' (iw_clause w)). level_of s' k \<le> level_of s l)"
    and conf: "is_conflict s' = None \<Longrightarrow> is_conflict s = None"
  shows "loop_inv G lit kept' ws' s'"
proof -
  note I = loop_invD [OF L] and T = grows_toD [OF g]
  note V = vals_okD [OF search_invD(2) [OF I(1)]]
  obtain t where t: "is_trail s' = is_trail s @ t" using T(1) by blast
  have at: "is_trail s' ! q = is_trail s ! q" if "q < is_propagated s" for q using that I(7) t by (simp add: nth_append)
  have step: "ic_garbage (is_clauses s' ! iw_clause w) \<or> (\<exists>l \<in> set (is_trail s') \<inter> set (lits_at s' (iw_clause w)). level_of s' l < k)"
    if old: "settled_to k n ((is_watches s)(lit := kept)) s" and q: "q < min n (is_propagated s)"
      and w: "w \<in> set (((is_watches s)(lit := kept)) (- (is_trail s ! q)))" for k n q w
  proof -
    have "w \<in> set (((is_watches s)(lit := kept @ ws)) (- (is_trail s ! q)))" using w by (auto split: if_splits)
    then have c: "iw_clause w < length (is_clauses s)" using watch_okD(2) [OF I(2)] by (auto simp: watch_entry_def)
    from old q w have "ic_garbage (is_clauses s ! iw_clause w) \<or> (\<exists>l \<in> set (is_trail s) \<inter> set (lits_at s (iw_clause w)). level_of s l < k)"
      unfolding settled_to_def by blast
    then show ?thesis using T(9,11) [OF c] T(12,13) by (metis IntE IntI subsetD)
  qed
  have new: "\<exists>l \<in> set (is_trail s') \<inter> set (lits_at s' (iw_clause w)). level_of s' l < k"
    if "l \<noteq> lit" "w \<in> set (is_watches s' l)" "w \<notin> set (is_watches s l)" "- l \<in> set (is_trail s)" "level_of s l < k" for l w k
    using others [OF that(1,2)] that(3-5) by (meson le_less_trans)
  have lev: "settled_to k (snd (is_control s' ! k)) ((is_watches s')(lit := kept')) s'" if k: "0 < k" "k \<le> is_level s" for k
    unfolding settled_to_def p T(3)
  proof (intro allI impI ballI)
    fix q w assume q: "q < min (snd (is_control s ! k)) (is_propagated s)" and w: "w \<in> set (((is_watches s')(lit := kept')) (- (is_trail s' ! q)))"
    have qp: "q < is_propagated s - 1" "q < length (is_trail s)" using q I(7) I(9) [OF k] by auto
    have "is_propagated s - 1 < length (is_trail s)" using I(6,7) by linarith
    then have nl: "- (is_trail s ! q) \<noteq> lit"
      using nth_eq_iff_index_eq [OF V(1), of q "is_propagated s - 1"] qp I(6,7,8) by auto
    have start: "starts_level s k (is_control s ! k)" using search_invD(3) [OF I(1)] k by (simp add: control_ok_def)
    have lk: "level_of s (is_trail s ! q) < k" using start q by (simp add: starts_level_def)
    have w': "w \<in> set (is_watches s' (- (is_trail s ! q)))" using w nl at [of q] qp by simp
    have old: "settled_to k (snd (is_control s ! k)) ((is_watches s)(lit := kept)) s" using I(3) k by (simp add: settled_with_def)
    show "ic_garbage (is_clauses s' ! iw_clause w) \<or> (\<exists>l \<in> set (is_trail s') \<inter> set (lits_at s' (iw_clause w)). level_of s' l < k)"
    proof (cases "w \<in> set (is_watches s (- (is_trail s ! q)))")
      case True
      then show ?thesis using step [OF old q, of w] nl by simp
    next
      case False
      then show ?thesis using new [OF nl w', of k] lk nth_mem [OF qp(2)] by simp
    qed
  qed
  have full: "settled_to (is_level s' + 1) (length (is_trail s')) ((is_watches s')(lit := kept')) s'" if c: "is_conflict s' = None"
    unfolding settled_to_def p
  proof (intro allI impI ballI)
    fix q w assume q: "q < min (length (is_trail s')) (is_propagated s)" and w: "w \<in> set (((is_watches s')(lit := kept')) (- (is_trail s' ! q)))"
    have old: "settled_to (is_level s + 1) (length (is_trail s)) ((is_watches s)(lit := kept)) s" using I(3) conf [OF c] by (simp add: settled_with_def)
    have q': "q < min (length (is_trail s)) (is_propagated s)" using q I(7) by simp
    have le: "level_of s' l < is_level s' + 1" if "l \<in> set (is_trail s')" for l
      using search_invD(3) [OF inv] that by (auto simp: control_ok_def less_Suc_eq_le)
    show "ic_garbage (is_clauses s' ! iw_clause w) \<or> (\<exists>l \<in> set (is_trail s') \<inter> set (lits_at s' (iw_clause w)). level_of s' l < is_level s' + 1)"
    proof (cases "- (is_trail s ! q) = lit")
      case True
      then have "w \<in> set kept'" using w at [of q] q by simp
      then show ?thesis using kept [OF _ c, of w] step [OF old q', of w] True le T(2) by auto
    next
      case False
      then have w': "w \<in> set (is_watches s' (- (is_trail s ! q)))" using w at [of q] q by simp
      show ?thesis
      proof (cases "w \<in> set (is_watches s (- (is_trail s ! q)))")
        case a: True
        then show ?thesis using step [OF old q', of w] False T(2) by simp
      next
        case b: False
        have "level_of s (is_trail s ! q) < is_level s' + 1"
          using search_invD(3) [OF I(1)] nth_mem [of q "is_trail s"] q' T(2) by (auto simp: control_ok_def less_Suc_eq_le)
        then show ?thesis using new [OF False w' b, of "is_level s' + 1"] nth_mem [of q "is_trail s"] q' by simp
      qed
    qed
  qed
  show ?thesis unfolding loop_inv_def settled_with_def using inv W lev full I(6,8,9) p at [of "is_propagated s - 1"] T(2,3) by auto
qed

section \<open>Visiting a clause\<close>

text \<open>The two watched literals of a clause that is visited from the watch list of \<open>lit\<close>.\<close>

lemma visited_clause:
  assumes L: "loop_inv G lit kept (w # ws) s" and g: "\<not> ic_garbage (is_clauses s ! iw_clause w)"
  obtains other where "iw_clause w < length (is_clauses s)" "watched s (iw_clause w) = {lit, other}" "lit \<noteq> other" "other \<noteq> 0"
    "xor (xor (lits_at s (iw_clause w) ! 0) (lits_at s (iw_clause w) ! 1)) lit = other"
    "set (lits_at s (iw_clause w)) = {lit, other} \<union> set (drop 2 (lits_at s (iw_clause w)))"
    "lit \<notin> set (drop 2 (lits_at s (iw_clause w)))" "other \<notin> set (drop 2 (lits_at s (iw_clause w)))"
    "2 \<le> length (lits_at s (iw_clause w))" "iw_size w = length (lits_at s (iw_clause w))" "clause_ok G s (is_clauses s ! iw_clause w)"
proof -
  let ?c = "iw_clause w" and ?ls = "lits_at s (iw_clause w)"
  note I = loop_invD [OF L]
  have e: "watch_entry s lit w" using watch_okD(2) [OF I(2), of w lit] by simp
  then have c: "?c < length (is_clauses s)" "lit \<in> watched s ?c" "iw_size w = length ?ls" using g by (simp_all add: watch_entry_def)
  have C: "clause_ok G s (is_clauses s ! ?c)" by (rule search_invD(5) [OF I(1) c(1)])
  have d: "distinct ?ls" "2 \<le> length ?ls" using C by (auto simp: clause_ok_def lits_at_def)
  have "0 < length ?ls" "1 < length ?ls" using d(2) by linarith+
  then have ne: "?ls ! 0 \<noteq> ?ls ! 1" using nth_eq_iff_index_eq [OF d(1), of 0 1] by auto
  obtain other where o: "watched s ?c = {lit, other}" "lit \<noteq> other"
  proof (cases "?ls ! 0 = lit")
    case True
    then show ?thesis using that [of "?ls ! 1"] ne by (auto simp: watched_def)
  next
    case False
    then show ?thesis using that [of "?ls ! 0"] c(2) by (auto simp: watched_def)
  qed
  have w2: "{?ls ! 0, ?ls ! 1} = {lit, other}" using o(1) by (simp add: watched_def)
  have dd: "{?ls ! 0, ?ls ! 1} \<inter> set (drop 2 ?ls) = {}"
  proof -
    have "distinct (take 2 ?ls @ drop 2 ?ls)" using d(1) by simp
    moreover have "set (take 2 ?ls) = {?ls ! 0, ?ls ! 1}" using d(2) by (cases ?ls; cases "tl ?ls") auto
    ultimately show ?thesis by (metis distinct_append)
  qed
  have st: "set ?ls = {lit, other} \<union> set (drop 2 ?ls)" by (rule drop2_set [OF d(2), unfolded w2])
  have o0: "other \<noteq> 0" using C st by (auto simp: clause_ok_def lits_at_def has_var_def)
  show ?thesis by (rule that [OF c(1) o(1,2) o0 xor_other [OF w2] st]) (use dd [unfolded w2] d(2) c(3) C in auto)
qed

lemma loop_set_pos:
  assumes inv: "search_inv G s" and c: "c < length (is_clauses s)" and k: "2 \<le> k" "k \<le> length (lits_at s c)"
  defines "s1 \<equiv> set_clause c ((is_clauses s ! c)\<lparr>ic_pos := k\<rparr>) s"
  shows "search_inv G s1" "grows_to s s1" "\<And>d. lits_at s1 d = lits_at s d" "watch_ok W s1 = watch_ok W s"
proof -
  show l: "lits_at s1 d = lits_at s d" for d using c by (simp add: s1_def lits_at_def set_clause_def nth_list_update)
  show "search_inv G s1" unfolding s1_def by (rule set_clause_inv [OF inv c]) (use k in \<open>simp_all add: lits_at_def\<close>)
  show "grows_to s s1" unfolding s1_def by (rule set_clause_grows [OF c]) (simp_all add: lits_at_def)
  have ga: "ic_garbage (is_clauses s1 ! d) = ic_garbage (is_clauses s ! d)" for d
    using c by (cases "d = c") (simp_all add: s1_def set_clause_def)
  show "watch_ok W s1 = watch_ok W s" by (rule watch_ok_same) (simp_all add: l ga, simp add: s1_def)
qed

text \<open>The watch of \<open>lit\<close> moves to another literal \<open>r\<close> of the clause.\<close>

lemma loop_move:
  assumes L: "loop_inv G lit kept (w # ws) s" and c: "iw_clause w = c" "\<not> ic_garbage (is_clauses s ! c)"
    and o: "watched s c = {lit, other}" "lit \<noteq> other"
    and r: "2 \<le> j" "j < length (lits_at s c)" "lits_at s c ! j = r" "r \<noteq> lit" "r \<noteq> other" "b \<in> set (lits_at s c)" "b \<noteq> r"
    and cl: "ic_lits cl = (lits_at s c)[0 := other, 1 := r, j := lit]" "ic_garbage cl = ic_garbage (is_clauses s ! c)"
      "ic_redundant cl = ic_redundant (is_clauses s ! c)" "2 \<le> ic_pos cl" "ic_pos cl \<le> length (lits_at s c)"
    and s1: "search_inv G s1" "grows_to s s1" "is_clauses s1 = (is_clauses s)[c := cl1]" "is_watches s1 = is_watches s"
      "is_propagated s1 = is_propagated s" "is_conflict s1 = is_conflict s" "lits_at s1 c = lits_at s c"
    and free: "- r \<notin> set (is_trail s) \<or> (\<exists>k \<in> set (is_trail s1) \<inter> set (lits_at s c). level_of s1 k \<le> level_of s r)"
  obtains s' where "watch_literal r b c (set_clause c cl s1) = Some s'" "loop_inv G lit kept ws s'" "grows_to s s'"
    "is_propagated s' = is_propagated s" "is_conflict s' = is_conflict s"
proof -
  note I = loop_invD [OF L]
  have len: "c < length (is_clauses s)" using watch_okD(2) [OF I(2), of w lit] c(1) by (simp add: watch_entry_def)
  have w2: "{lits_at s c ! 0, lits_at s c ! 1} = {lit, other}" using o(1) by (simp add: watched_def)
  have m: "mset (ic_lits cl) = mset (lits_at s c)" using mset_move(1) [OF r(1,2) w2 o(2)] cl(1) r(3) by simp
  have m1: "mset (ic_lits cl) = mset (lits_at s1 c)" using m s1(7) by simp
  have le: "length (ic_lits cl) = length (lits_at s c)" by (rule mset_eq_length [OF m])
  have len1: "c < length (is_clauses s1)" using len s1(3) by simp
  let ?w = "\<lparr>iw_clause = c, iw_blit = b, iw_size = length (ic_lits cl)\<rparr>"
  let ?s2 = "set_clause c cl s1" and ?W = "(is_watches s)(r := is_watches s r @ [?w])"
  let ?s = "?s2\<lparr>is_watches := ?W\<rparr>"
  have call: "watch_literal r b c ?s2 = Some ?s" using r(7) s1(4) len1 by (simp add: watch_literal_def)
  have inv2: "search_inv G ?s2" by (rule set_clause_inv [OF s1(1) len1 m1]) (use cl(4,5) le in simp_all)
  have ns: "is_clauses ?s = (is_clauses s)[c := cl]" "lits_at ?s d = lits_at ?s2 d" for d using s1(3) by (simp_all add: set_clause_def lits_at_def)
  have inv: "search_inv G ?s" using inv2 by simp
  have red: "ic_redundant cl = ic_redundant (is_clauses s1 ! c)" "ic_garbage cl = ic_garbage (is_clauses s1 ! c)"
    using s1(2) len cl(2,3) by (simp_all add: grows_to_def)
  have "grows_to s ?s2" by (rule grows_to_trans [OF s1(2) set_clause_grows [OF len1 m1]]) (use red in simp_all)
  then have g: "grows_to s ?s" by (simp add: grows_to_def lits_at_def level_of_def)
  have "0 < length (lits_at s c)" "1 < length (lits_at s c)" using r(1,2) by linarith+
  then have "ic_lits cl ! 0 = other" "ic_lits cl ! 1 = r" using cl(1) r(1) by simp_all
  then have two: "{ic_lits cl ! 0, ic_lits cl ! 1} = {other, r}" by simp
  have "watch_ok ((is_watches s)(lit := kept @ ws, r := is_watches s r @ [?w])) (set_clause c cl s)"
    by (rule watch_ok_move [OF I(2) _ c(1) len o])
      (use c r nth_mem [OF r(2)] m two cl(2) in auto)
  moreover have "(is_watches ?s)(lit := kept @ ws) = (is_watches s)(lit := kept @ ws, r := is_watches s r @ [?w])" using r(4) by auto
  ultimately have "watch_ok ((is_watches ?s)(lit := kept @ ws)) (set_clause c cl s)" by simp
  moreover have "is_clauses ?s = is_clauses (set_clause c cl s)" using ns(1) by (simp add: set_clause_def)
  ultimately have W: "watch_ok ((is_watches ?s)(lit := kept @ ws)) ?s" by (simp add: watch_ok_def watch_entry_def watched_def lits_at_def)
  have "loop_inv G lit kept ws ?s"
  proof (rule loop_step [OF L g inv _ W])
    show "is_propagated ?s = is_propagated s" using s1(5) by simp
    show "x \<in> set kept \<or> set (is_trail ?s) \<inter> set (lits_at ?s (iw_clause x)) \<noteq> {}" if "x \<in> set kept" for x using that by simp
    show "is_conflict ?s = None \<Longrightarrow> is_conflict s = None" using s1(6) by simp
    fix l x assume x: "l \<noteq> lit" "x \<in> set (is_watches ?s l)"
    show "x \<in> set (is_watches s l) \<or> - l \<notin> set (is_trail s) \<or>
        (\<exists>k \<in> set (is_trail ?s) \<inter> set (lits_at ?s (iw_clause x)). level_of ?s k \<le> level_of s l)"
    proof (cases "x \<in> set (is_watches s l)")
      case False
      then have lx: "l = r" "iw_clause x = c" using x(2) by (auto split: if_splits)
      have "set (lits_at ?s c) = set (lits_at s c)" using ns(2) [of c] len1 mset_eq_setD [OF m] by simp
      then show ?thesis using free lx by (simp add: level_of_def)
    qed simp
  qed
  then show ?thesis using that [OF call] g s1(5,6) by simp
qed

lemma visit_clause_ok:
  assumes L: "loop_inv G lit kept (w # ws) s" and g: "\<not> ic_garbage (is_clauses s ! iw_clause w)" and conf: "is_conflict s = None"
  obtains k stop s' where "visit_clause lit w s = Some (k, stop, s')" "loop_inv G lit (kept @ (case k of None \<Rightarrow> [] | Some w \<Rightarrow> [w])) ws s'"
    "grows_to s s'" "stop = (is_conflict s' \<noteq> None)" "is_propagated s' = is_propagated s"
proof -
  note I = loop_invD [OF L]
  define c where "c = iw_clause w"
  define ls where "ls = lits_at s c"
  obtain other where O: "c < length (is_clauses s)" "watched s c = {lit, other}" "lit \<noteq> other" "other \<noteq> 0" "xor (xor (ls ! 0) (ls ! 1)) lit = other"
      "set ls = {lit, other} \<union> set (drop 2 ls)" "lit \<notin> set (drop 2 ls)" "other \<notin> set (drop 2 ls)" "2 \<le> length ls" "iw_size w = length ls"
      "clause_ok G s (is_clauses s ! c)"
    using visited_clause [OF L g] unfolding c_def ls_def by blast
  note v = vals_iff [OF search_invD(2) [OF I(1)]]
  have nz: "l \<noteq> 0" if "l \<in> set ls" for l using O(11) that by (auto simp: clause_ok_def ls_def lits_at_def has_var_def)
  have pos: "2 \<le> ic_pos (is_clauses s ! c)" "ic_pos (is_clauses s ! c) \<le> length ls"
    using O(11) by (simp_all add: clause_ok_def ls_def lits_at_def)
  have icl: "ic_lits (is_clauses s ! c) = ls" by (simp add: ls_def lits_at_def)
  have keep: "loop_inv G lit (kept @ [w']) ws s'"
    if s': "search_inv G s'" "grows_to s s'" "is_propagated s' = is_propagated s" "is_watches s' = is_watches s" "\<And>d. lits_at s' d = lits_at s d"
        "\<And>d. ic_garbage (is_clauses s' ! d) = ic_garbage (is_clauses s ! d)"
      and w': "w' = w \<or> w' = w\<lparr>iw_blit := b\<rparr>" "b \<in> set ls" "b \<noteq> lit" and sat: "is_conflict s' = None \<Longrightarrow> set (is_trail s') \<inter> set ls \<noteq> {}" for s' w' b
  proof (rule loop_step [OF L s'(2,1,3)])
    have "watch_ok ((is_watches s)(lit := kept @ w' # ws)) s"
      using w' I(2) watch_ok_blit [OF I(2), of b] by (auto simp: ls_def c_def)
    then show "watch_ok ((is_watches s')(lit := (kept @ [w']) @ ws)) s'"
      using watch_ok_same [OF grows_toD(7) [OF s'(2)] s'(5,6)] s'(4) by simp
    show "x \<in> set kept \<or> set (is_trail s') \<inter> set (lits_at s' (iw_clause x)) \<noteq> {}" if "x \<in> set (kept @ [w'])" "is_conflict s' = None" for x
      using that sat w'(1) s'(5) by (auto simp: ls_def c_def)
    show "is_conflict s = None" by (rule conf)
  qed (use s'(4) in auto)
  show ?thesis
  proof (cases "is_vals s other > 0")
    case True
    then have "visit_clause lit w s = Some (Some (w\<lparr>iw_blit := other\<rparr>), False, s)"
      using O(5,9) icl by (simp add: visit_clause_def Let_def c_def)
    moreover have "loop_inv G lit (kept @ [w\<lparr>iw_blit := other\<rparr>]) ws s"
      by (rule keep [where b = other, OF I(1) grows_to_refl]) (use O(3,6) True v(1) [OF O(4)] in auto)
    ultimately show ?thesis using that [of "Some (w\<lparr>iw_blit := other\<rparr>)" False s] conf grows_to_refl by simp
  next
    case nu: False
    obtain k r x where rep: "replacement s (is_clauses s ! c) = (k, r, x)" by (metis surj_pair)
    note R = replacement_spec [OF rep pos(1) pos(2) [folded icl], unfolded icl]
    let ?cl = "(is_clauses s ! c)\<lparr>ic_pos := k\<rparr>"
    define s1 where "s1 = set_clause c ?cl s"
    note S1 = loop_set_pos [OF I(1) O(1) R(1) R(2) [unfolded ls_def], folded s1_def]
    have s1: "is_watches s1 = is_watches s" "is_propagated s1 = is_propagated s" "is_conflict s1 = None" "is_trail s1 = is_trail s"
        "is_vals s1 = is_vals s" "level_of s1 = level_of s" "is_clauses s1 = (is_clauses s)[c := ?cl]" "lits_at s1 c = ls" "is_chrono s1 = is_chrono s"
      using conf S1(3) by (simp_all add: s1_def ls_def) (simp add: set_clause_def)
    have ga: "ic_garbage (is_clauses s1 ! d) = ic_garbage (is_clauses s ! d)" for d
      using O(1) by (cases "d = c") (simp_all add: s1_def set_clause_def)
    have visit: "visit_clause lit w s =
      (if x > 0 then Some (Some (w\<lparr>iw_blit := r\<rparr>), False, s1)
       else if x = 0 then if r = lit then None
         else do { s \<leftarrow> watch_literal r lit c (set_clause c (?cl\<lparr>ic_lits := ls[0 := other, 1 := r, k := lit]\<rparr>) s1); Some (None, False, s) }
       else if is_vals s other = 0 then
         do { s \<leftarrow> search_assign other (Implied c) s1;
              if is_chrono s > 1 \<and> level_of s other > level_of s lit then
                do { pos \<leftarrow> first_at_level s (level_of s other) 2 (drop 2 ls);
                     if ls ! pos = lit then None
                     else do { s \<leftarrow> watch_literal (ls ! pos) other c (set_clause c (?cl\<lparr>ic_lits := ls[pos := lit, 0 := other, 1 := ls ! pos]\<rparr>) s);
                               Some (None, False, s) } }
              else Some (Some w, False, s) }
       else Some (Some w, True, s1\<lparr>is_conflict := Some c\<rparr>))"
      unfolding visit_clause_def Let_def c_def [symmetric] icl O(5) using O(9) nu pos rep by (simp add: s1_def [symmetric])
    have lf: "is_vals s lit < 0" using v(2) [OF I(5)] I(4) by simp
    have at2: "ls ! j \<in> set (drop 2 ls)" "ls ! j \<in> set ls" if j: "2 \<le> j" "j < length ls" for j
    proof -
      obtain i where i: "j = 2 + i" using le_Suc_ex [OF j(1)] by blast
      show "ls ! j \<in> set (drop 2 ls)" using j nth_mem [of i "drop 2 ls"] by (simp add: i)
      show "ls ! j \<in> set ls" by (rule nth_mem [OF j(2)])
    qed
    consider "x > 0" | "x = 0" | "x < 0" "is_vals s other = 0" | "x < 0" "is_vals s other < 0" using nu by linarith
    then show ?thesis
    proof cases
      case 1
      then have r: "k < length ls" "r = ls ! k" "is_vals s r > 0" using R(4) by auto
      have rt: "r \<in> set (is_trail s)" "r \<in> set ls" using v(1) nz at2(2) [OF R(1) r(1)] r(2,3) by auto
      have "loop_inv G lit (kept @ [w\<lparr>iw_blit := r\<rparr>]) ws s1"
        by (rule keep [where b = r, OF S1(1,2)]) (use s1 S1(3) ga rt lf r(3) in auto)
      then show ?thesis using that [of "Some (w\<lparr>iw_blit := r\<rparr>)" False s1] visit 1 S1(2) s1(2,3) by simp
    next
      case 2
      then have r: "k < length ls" "r = ls ! k" "is_vals s r = 0" using R(4) by auto
      have rt: "r \<noteq> lit" "r \<noteq> other" "r \<in> set ls" using at2 [OF R(1) r(1)] r(2) O(7,8) by auto
      have fr: "- r \<notin> set (is_trail s)" using v(3) [OF nz [OF rt(3)]] r(3) by simp
      obtain s' where s': "watch_literal r lit c (set_clause c (?cl\<lparr>ic_lits := ls[0 := other, 1 := r, k := lit]\<rparr>) s1) = Some s'"
          "loop_inv G lit kept ws s'" "grows_to s s'" "is_propagated s' = is_propagated s" "is_conflict s' = is_conflict s"
        by (rule loop_move [OF L c_def [symmetric] _ O(2,3), of k r lit "?cl\<lparr>ic_lits := ls[0 := other, 1 := r, k := lit]\<rparr>" s1 ?cl])
          (use g R(1,2) r rt fr O(6) S1(1,2) s1 conf in \<open>auto simp: c_def ls_def\<close>)
      then show ?thesis using that [of None False s'] visit 2 rt(1) conf by simp
    next
      case 3
      have of: "other \<notin> set (is_trail s)" "- other \<notin> set (is_trail s)" using v(3) [OF O(4)] 3(2) by simp_all
      have false: "- l \<in> set (is_trail s)" if "l \<in> set ls" "l \<noteq> other" for l
        using that O(6) R(3) [OF 3(1), of l] I(4) v(2) nz by auto
      obtain s2 lv q where s2: "search_assign other (Implied c) s1 = Some s2" "pushed other lv q s1 s2" "is_level s2 = is_level s1"
          "is_control s2 = is_control s1" "search_inv G s2"
          "is_chrono s1 \<noteq> 0 \<Longrightarrow> lv \<noteq> 0 \<Longrightarrow> \<exists>l \<in> set (lits_at s1 c). l \<noteq> other \<and> level_of s1 l = lv"
        by (rule search_assign_implied [OF S1(1), of c other]) (use O(1,6) of false s1 in \<open>auto simp: s1_def\<close>)
      have of1: "other \<notin> set (is_trail s1)" "- other \<notin> set (is_trail s1)" using of s1(4) by simp_all
      note P = pushed_of [OF s2(2)]
      have g2: "grows_to s1 s2" by (rule pushed_grows [OF s2(2) of1 s2(3,4), of c]) (use O(1,6) s1(8) in \<open>auto simp: s1_def\<close>)
      have p2: "is_trail s2 = is_trail s @ [other]" "is_watches s2 = is_watches s" "is_propagated s2 = is_propagated s" "is_conflict s2 = None"
          "is_clauses s2 = is_clauses s1" "is_chrono s2 = is_chrono s1"
        using s2(2) s1 by (simp_all add: pushed_def)
      have lev: "level_of s2 l = level_of s l" if "- l \<in> set (is_trail s)" for l
        using P(4) [OF other_var [OF that of]] s1(6) by simp
      have ga2: "ic_garbage (is_clauses s2 ! d) = ic_garbage (is_clauses s ! d)" "lits_at s2 d = lits_at s d" for d
        using ga S1(3) p2(5) P(8) by simp_all
      have gr: "grows_to s s2" by (rule grows_to_trans [OF S1(2) g2])
      show ?thesis
      proof (cases "is_chrono s2 > 1 \<and> level_of s2 other > level_of s2 lit")
        case False
        have "loop_inv G lit (kept @ [w]) ws s2"
          by (rule keep [where b = other, OF s2(5) gr p2(3,2)]) (use ga2 O(3,6) p2(1) in auto)
        then show ?thesis using that [of "Some w" False s2] visit 3 s2(1) False p2(3,4) gr by simp
      next
        case True
        have lv: "level_of s2 other = lv" "lv \<noteq> 0" using P(1) True by simp_all
        obtain l where l: "l \<in> set ls" "l \<noteq> other" "level_of s l = lv" using s2(6) True lv(2) p2(6) s1(6,8) by auto
        have ll: "level_of s2 l = lv" using lev [OF false [OF l(1,2)]] l(3) by simp
        then have "l \<in> set (drop 2 ls)" using O(6) l(1,2) True lv(1) by auto
        then obtain i where i: "first_at_level s2 lv 2 (drop 2 ls) = Some (2 + i)" "i < length (drop 2 ls)" "level_of s2 (drop 2 ls ! i) = lv"
          using first_at_level_spec [of "drop 2 ls" s2 lv 2] ll by blast
        define j where "j = 2 + i"
        have j: "2 \<le> j" "j < length ls" "level_of s2 (ls ! j) = lv" using i(2,3) by (simp_all add: j_def)
        note A = at2 [OF j(1,2)]
        have r: "ls ! j \<noteq> lit" "ls ! j \<noteq> other" using A(1) O(7,8) by auto
        have lr: "level_of s (ls ! j) = lv" using lev [OF false [OF A(2) r(2)]] j(3) by simp
        let ?cl2 = "?cl\<lparr>ic_lits := ls[j := lit, 0 := other, 1 := ls ! j]\<rparr>"
        have swap: "ls[j := lit, 0 := other, 1 := ls ! j] = ls[0 := other, 1 := ls ! j, j := lit]"
          using j(1) list_update_swap [of j 0 ls lit other] list_update_swap [of j 1 "ls[0 := other]" lit "ls ! j"] by simp
        obtain s' where s': "watch_literal (ls ! j) other c (set_clause c ?cl2 s2) = Some s'"
            "loop_inv G lit kept ws s'" "grows_to s s'" "is_propagated s' = is_propagated s" "is_conflict s' = is_conflict s"
        proof (rule loop_move [OF L c_def [symmetric] _ O(2,3), of j "ls ! j" other ?cl2 s2 ?cl])
          show "- (ls ! j) \<notin> set (is_trail s) \<or> (\<exists>k \<in> set (is_trail s2) \<inter> set (lits_at s c). level_of s2 k \<le> level_of s (ls ! j))"
            using lr lv(1) p2(1) O(6) by (auto simp: ls_def)
        qed (use g R(1,2) j(1,2) r O(6) s2(5) gr p2 s1(7) conf ga2(2) swap in \<open>auto simp: c_def ls_def\<close>)
        have "visit_clause lit w s = Some (None, False, s')"
          using visit 3 s2(1) True i(1) s'(1) lv(1) r(1) by (simp add: j_def)
        then show ?thesis using that [of None False s'] s'(2-5) conf by simp
      qed
    next
      case 4
      have all: "- l \<in> set (is_trail s)" if "l \<in> set ls" for l
        using that O(6) R(3) [OF 4(1), of l] I(4) v(2) nz 4(2) by auto
      let ?s = "s1\<lparr>is_conflict := Some c\<rparr>"
      have inv: "search_inv G ?s"
        by (rule search_inv_conflict [OF S1(1)]) (use all s1 O(1) in \<open>auto simp: falsified_def s1_def\<close>)
      have gr: "grows_to s ?s" using S1(2) by (simp add: grows_to_def)
      have "loop_inv G lit (kept @ [w]) ws ?s"
        by (rule keep [where b = other, OF inv gr]) (use s1 S1(3) ga O(3,6) in auto)
      then show ?thesis using that [of "Some w" True ?s] visit 4 gr s1(2) by simp
    qed
  qed
qed

section \<open>The watches of one literal\<close>

lemma two_lits: "length xs = 2 \<Longrightarrow> a \<in> set xs \<Longrightarrow> b \<in> set xs \<Longrightarrow> a \<noteq> b \<Longrightarrow> set xs = {a, b}"
  by (auto simp: length_Suc_conv numeral_2_eq_2)

lemma loop_keep:
  assumes L: "loop_inv G lit kept (w # ws) s" and s': "search_inv G s'" "grows_to s s'" "is_propagated s' = is_propagated s"
      "is_watches s' = is_watches s" "is_clauses s' = is_clauses s"
    and sat: "is_conflict s' = None \<Longrightarrow> set (is_trail s') \<inter> set (lits_at s (iw_clause w)) \<noteq> {}"
    and conf: "is_conflict s' = None \<Longrightarrow> is_conflict s = None"
  shows "loop_inv G lit (kept @ [w]) ws s'"
proof (rule loop_step [OF L s'(2,1,3)])
  have l: "lits_at s' d = lits_at s d" for d using s'(5) by (simp add: lits_at_def)
  show "watch_ok ((is_watches s')(lit := (kept @ [w]) @ ws)) s'"
    using loop_invD(2) [OF L] s'(4,5) watch_ok_same [of s' s] l by simp
  show "x \<in> set kept \<or> set (is_trail s') \<inter> set (lits_at s' (iw_clause x)) \<noteq> {}" if "x \<in> set (kept @ [w])" "is_conflict s' = None" for x
    using that sat l by auto
qed (use s'(4) conf in auto)

lemma loop_binary:
  assumes L: "loop_inv G lit kept (w # ws) s" and two: "iw_size w = 2" and b: "\<not> is_vals s (iw_blit w) > 0"
  obtains s' where "(if is_vals s (iw_blit w) < 0 then Some (s\<lparr>is_conflict := Some (iw_clause w)\<rparr>)
      else search_assign (iw_blit w) (Implied (iw_clause w)) s) = Some s'"
    "loop_inv G lit (kept @ [w]) ws s'" "grows_to s s'" "is_propagated s' = is_propagated s"
proof -
  note I = loop_invD [OF L]
  let ?b = "iw_blit w" and ?c = "iw_clause w"
  have e: "watch_entry s lit w" using watch_okD(2) [OF I(2), of w lit] by simp
  then have c: "?c < length (is_clauses s)" "?b \<in> set (lits_at s ?c)" "set (lits_at s ?c) = {lit, ?b}"
    using two_lits [of "lits_at s ?c" lit ?b] two by (auto simp: watch_entry_def)
  have "clause_ok G s (is_clauses s ! ?c)" by (rule search_invD(5) [OF I(1) c(1)])
  then have b0: "?b \<noteq> 0" using c(2) by (auto simp: clause_ok_def lits_at_def has_var_def)
  note v = vals_iff [OF search_invD(2) [OF I(1)] b0]
  show ?thesis
  proof (cases "is_vals s ?b < 0")
    case True
    let ?s = "s\<lparr>is_conflict := Some ?c\<rparr>"
    have f: "falsified s ?c" using c True v(2) I(4) by (simp add: falsified_def)
    have inv: "search_inv G ?s" by (rule search_inv_conflict [OF I(1)]) (use f in simp)
    have g: "grows_to s ?s" using grows_to_refl [of s] by (simp add: grows_to_def)
    have "loop_inv G lit (kept @ [w]) ws ?s" by (rule loop_keep [OF L inv g]) simp_all
    then show ?thesis using that [of ?s] True g by simp
  next
    case False
    then have z: "?b \<notin> set (is_trail s)" "- ?b \<notin> set (is_trail s)" using b v by auto
    obtain s' lv r where s': "search_assign ?b (Implied ?c) s = Some s'" "pushed ?b lv r s s'" "is_level s' = is_level s" "is_control s' = is_control s"
        "search_inv G s'"
      by (rule search_assign_implied [OF I(1) c(1,2) z]) (use c(3) I(4) in auto)
    have g: "grows_to s s'" by (rule pushed_grows [OF s'(2) z s'(3,4) c(1,2)])
    have p: "is_trail s' = is_trail s @ [?b]" "is_propagated s' = is_propagated s" "is_watches s' = is_watches s" "is_clauses s' = is_clauses s"
        "is_conflict s' = is_conflict s" using s'(2) by (simp_all add: pushed_def)
    have "loop_inv G lit (kept @ [w]) ws s'" by (rule loop_keep [OF L s'(5) g p(2-4)]) (use p c(2) in auto)
    then show ?thesis using that [of s'] False s'(1) g p(2) by simp
  qed
qed

lemma prop_watches_ok:
  "loop_inv G lit kept ws s \<Longrightarrow>
   \<exists>kept' rest s'. prop_watches lit kept ws s = Some (kept', rest, s') \<and> loop_inv G lit kept' rest s' \<and>
     (is_conflict s' = None \<longrightarrow> rest = []) \<and> grows_to s s' \<and> is_propagated s' = is_propagated s"
proof (induction ws arbitrary: kept s)
  case Nil
  then show ?case using grows_to_refl by auto
next
  case (Cons w ws)
  note L = Cons.prems and I = loop_invD [OF Cons.prems]
  have go: ?case if t: "loop_inv G lit kept1 ws t" "grows_to s t" "is_propagated t = is_propagated s"
      "prop_watches lit kept (w # ws) s = prop_watches lit kept1 ws t" for kept1 t
    using Cons.IH [OF t(1)] grows_to_trans [OF t(2)] t(3,4) by fastforce
  have e: "watch_entry s lit w" using watch_okD(2) [OF I(2), of w lit] by simp
  then have c: "iw_clause w < length (is_clauses s)" by (simp add: watch_entry_def)
  consider "is_vals s (iw_blit w) > 0" | "\<not> is_vals s (iw_blit w) > 0" "iw_size w = 2"
    | "\<not> is_vals s (iw_blit w) > 0" "iw_size w \<noteq> 2" "is_conflict s \<noteq> None"
    | "\<not> is_vals s (iw_blit w) > 0" "iw_size w \<noteq> 2" "is_conflict s = None" "ic_garbage (is_clauses s ! iw_clause w)"
    | "\<not> is_vals s (iw_blit w) > 0" "iw_size w \<noteq> 2" "is_conflict s = None" "\<not> ic_garbage (is_clauses s ! iw_clause w)" by blast
  then show ?case
  proof cases
    case 1
    have b: "iw_blit w \<in> set (lits_at s (iw_clause w))" using e by (simp add: watch_entry_def)
    then have "iw_blit w \<noteq> 0" using search_invD(5) [OF I(1) c] by (auto simp: clause_ok_def lits_at_def has_var_def)
    then have "iw_blit w \<in> set (is_trail s)" using vals_iff(1) [OF search_invD(2) [OF I(1)]] 1 by simp
    then have "loop_inv G lit (kept @ [w]) ws s" by (intro loop_keep [OF L I(1) grows_to_refl]) (use b in auto)
    then show ?thesis by (rule go [OF _ grows_to_refl]) (use 1 in simp_all)
  next
    case 2
    obtain t where t: "(if is_vals s (iw_blit w) < 0 then Some (s\<lparr>is_conflict := Some (iw_clause w)\<rparr>)
        else search_assign (iw_blit w) (Implied (iw_clause w)) s) = Some t"
      "loop_inv G lit (kept @ [w]) ws t" "grows_to s t" "is_propagated t = is_propagated s" by (rule loop_binary [OF L 2(2,1)])
    show ?thesis by (rule go [OF t(2-4)]) (use 2 t(1) in \<open>simp split: if_splits\<close>)
  next
    case 3
    have "loop_inv G lit (kept @ [w]) ws s" by (rule loop_keep [OF L I(1) grows_to_refl]) (use 3 in simp_all)
    then show ?thesis using 3 grows_to_refl by auto
  next
    case 4
    have "loop_inv G lit kept ws s"
      by (rule loop_step [OF L grows_to_refl I(1)]) (use watch_ok_drop [OF I(2) 4(4)] 4(3) in auto)
    then show ?thesis by (rule go [OF _ grows_to_refl]) (use 4 c in simp_all)
  next
    case 5
    obtain k stop t where t: "visit_clause lit w s = Some (k, stop, t)" "loop_inv G lit (kept @ (case k of None \<Rightarrow> [] | Some w \<Rightarrow> [w])) ws t"
        "grows_to s t" "stop = (is_conflict t \<noteq> None)" "is_propagated t = is_propagated s"
      by (rule visit_clause_ok [OF L 5(4,3)])
    have call: "prop_watches lit kept (w # ws) s = (let kept = kept @ (case k of None \<Rightarrow> [] | Some w \<Rightarrow> [w])
        in if stop then Some (kept, ws, t) else prop_watches lit kept ws t)" using 5 c t(1) by simp
    show ?thesis
    proof (cases stop)
      case True
      then have "prop_watches lit kept (w # ws) s = Some (kept @ (case k of None \<Rightarrow> [] | Some w \<Rightarrow> [w]), ws, t)" "is_conflict t \<noteq> None"
        using call t(4) by (simp_all add: Let_def del: prop_watches.simps)
      then show ?thesis using t(2,3,5) by (auto simp del: prop_watches.simps)
    next
      case False
      then show ?thesis by (intro go [OF t(2,3,5)]) (simp add: call Let_def del: prop_watches.simps)
    qed
  qed
qed

section \<open>The whole propagation\<close>

lemma trail_bounded: "vals_ok s \<Longrightarrow> length (is_trail s) \<le> i_max_var (is_ivars s)"
proof -
  assume v: "vals_ok s"
  note V = vals_okD [OF v]
  have "inj_on (\<lambda>l. nat \<bar>l\<bar>) (set (is_trail s))"
  proof (rule inj_onI)
    fix a b assume ab: "a \<in> set (is_trail s)" "b \<in> set (is_trail s)" "nat \<bar>a\<bar> = nat \<bar>b\<bar>"
    then have "a = b \<or> a = - b" by (simp add: eq_nat_nat_iff abs_eq_iff)
    then show "a = b" using V(2) [OF ab(2)] ab(1) by auto
  qed
  then have "card (set (is_trail s)) = card ((\<lambda>l. nat \<bar>l\<bar>) ` set (is_trail s))" by (simp add: card_image)
  also have "\<dots> \<le> card {1..i_max_var (is_ivars s)}" by (rule card_mono) (use V(3) in \<open>force simp: has_var_def\<close>)+
  finally show ?thesis using V(1) by (simp add: distinct_card)
qed

lemma loop_start:
  assumes P: "prop_inv G s" and c: "is_conflict s = None" and p: "is_propagated s < length (is_trail s)"
  defines "lit \<equiv> - (is_trail s ! is_propagated s)"
  shows "loop_inv G lit [] (is_watches s lit) (s\<lparr>is_propagated := is_propagated s + 1\<rparr>)"
proof -
  let ?s = "s\<lparr>is_propagated := is_propagated s + 1\<rparr>"
  have inv: "search_inv G s" and W: "watch_ok (is_watches s) s" and S: "settled_with (is_watches s) s" using P by (simp_all add: prop_inv_def)
  note I = search_invD [OF inv]
  have inv': "search_inv G ?s"
    using inv p by (auto simp: search_inv_def vals_ok_def control_ok_def starts_level_def clause_ok_def falsified_def)
  have W': "watch_ok ((is_watches ?s)(lit := [] @ is_watches s lit)) ?s" using W watch_ok_same [of ?s s] by simp
  have start: "snd (is_control s ! k) \<le> is_propagated s" if "0 < k" "k \<le> is_level s" for k
    using I(3) that by (simp add: control_ok_def starts_level_def)
  have "settled_to k t ((is_watches ?s)(lit := [])) ?s"
    if old: "settled_to k t (is_watches s) s" and t: "t \<le> is_propagated s \<or> t = length (is_trail s)" for k t
    unfolding settled_to_def
  proof (intro allI impI ballI)
    fix q w assume q: "q < min t (is_propagated ?s)" and w: "w \<in> set (((is_watches ?s)(lit := [])) (- (is_trail ?s ! q)))"
    have "- (is_trail s ! q) \<noteq> lit" using w by (auto split: if_splits)
    then have "q \<noteq> is_propagated s" by (auto simp: lit_def)
    then have "q < min t (is_propagated s)" using q t p by auto
    then show "ic_garbage (is_clauses ?s ! iw_clause w) \<or> (\<exists>l \<in> set (is_trail ?s) \<inter> set (lits_at ?s (iw_clause w)). level_of ?s l < k)"
      using old w by (auto simp: settled_to_def split: if_splits)
  qed
  then have "settled_with ((is_watches ?s)(lit := [])) ?s" using S start c by (simp add: settled_with_def)
  then show ?thesis unfolding loop_inv_def using inv' W' start by (auto simp: lit_def less_Suc_eq_le)
qed

lemma loop_end:
  assumes L: "loop_inv G lit kept rest s" and c: "is_conflict s = None \<longrightarrow> rest = []"
  shows "prop_inv G (s\<lparr>is_watches := (is_watches s)(lit := kept @ rest)\<rparr>)"
proof -
  note I = loop_invD [OF L]
  let ?W = "(is_watches s)(lit := kept @ rest)"
  let ?s = "s\<lparr>is_watches := ?W\<rparr>"
  note V = vals_okD [OF search_invD(2) [OF I(1)]]
  have "settled_to k (snd (is_control s ! k)) ?W s" if k: "0 < k" "k \<le> is_level s" for k
  proof -
    have old: "settled_to k (snd (is_control s ! k)) ((is_watches s)(lit := kept)) s" using I(3) k by (simp add: settled_with_def)
    have "- (is_trail s ! q) \<noteq> lit" if q: "q < snd (is_control s ! k)" for q
    proof -
      have "q < is_propagated s - 1" using q I(9) [OF k] by linarith
      moreover have "is_propagated s - 1 < length (is_trail s)" using I(6,7) by linarith
      ultimately show ?thesis using nth_eq_iff_index_eq [OF V(1), of q "is_propagated s - 1"] I(8) by auto
    qed
    then show ?thesis using old by (simp add: settled_to_def)
  qed
  then have "settled_with ?W s" using I(3) c by (auto simp: settled_with_def)
  then have "settled_with ?W ?s" by (simp add: settled_with_def settled_to_def)
  moreover have "watch_ok ?W ?s" using I(2) watch_ok_same [of ?s s] by simp
  ultimately show ?thesis using I(1) by (simp add: prop_inv_def)
qed

lemma prop_loop_step:
  assumes "is_conflict s = None" "is_propagated s < length (is_trail s)"
    "prop_watches (- (is_trail s ! is_propagated s)) [] (is_watches s (- (is_trail s ! is_propagated s)))
       (s\<lparr>is_propagated := is_propagated s + 1\<rparr>) = Some (kept, rest, t)"
  shows "prop_loop s = prop_loop (t\<lparr>is_watches := (is_watches t)(- (is_trail s ! is_propagated s) := kept @ rest)\<rparr>)"
  by (subst prop_loop.simps) (use assms in \<open>simp add: Let_def\<close>)

lemma prop_loop_ok:
  assumes "prop_inv G s"
  shows "\<exists>s'. prop_loop s = Some s' \<and> prop_inv G s' \<and> grows_to s s' \<and> (is_conflict s' = None \<longrightarrow> is_propagated s' = length (is_trail s'))"
  using assms
proof (induction "i_max_var (is_ivars s) - is_propagated s" arbitrary: s rule: less_induct)
  case less
  note P = less.prems
  have inv: "search_inv G s" using P by (simp add: prop_inv_def)
  have le: "is_propagated s \<le> length (is_trail s)" using search_invD(3) [OF inv] by (simp add: control_ok_def)
  show ?case
  proof (cases "is_conflict s = None \<and> is_propagated s \<noteq> length (is_trail s)")
    case False
    then have "prop_loop s = Some s" by (subst prop_loop.simps) auto
    then show ?thesis using P False grows_to_refl by auto
  next
    case True
    then have lt: "is_propagated s < length (is_trail s)" using le by simp
    define lit where "lit = - (is_trail s ! is_propagated s)"
    let ?s = "s\<lparr>is_propagated := is_propagated s + 1\<rparr>"
    have L: "loop_inv G lit [] (is_watches s lit) ?s" using loop_start [OF P _ lt] True by (simp add: lit_def)
    obtain kept rest t where t: "prop_watches lit [] (is_watches s lit) ?s = Some (kept, rest, t)" "loop_inv G lit kept rest t"
        "is_conflict t = None \<longrightarrow> rest = []" "grows_to ?s t" "is_propagated t = is_propagated ?s"
      using prop_watches_ok [OF L] by (elim exE conjE) (rule that)
    let ?t = "t\<lparr>is_watches := (is_watches t)(lit := kept @ rest)\<rparr>"
    have P': "prop_inv G ?t" by (rule loop_end [OF t(2,3)])
    have g: "grows_to s ?t" using t(4) by (simp add: grows_to_def)
    have "i_max_var (is_ivars ?t) - is_propagated ?t < i_max_var (is_ivars s) - is_propagated s"
      using grows_toD(6) [OF g] t(5) lt trail_bounded [OF search_invD(2) [OF inv]] by simp
    note IH = less.hyps [OF this P']
    obtain s' where s': "prop_loop ?t = Some s'" "prop_inv G s'" "grows_to ?t s'" "is_conflict s' = None \<longrightarrow> is_propagated s' = length (is_trail s')"
      using IH by (elim exE conjE) (rule that)
    have "prop_loop s = prop_loop ?t" unfolding lit_def
      by (rule prop_loop_step) (use True lt t(1) in \<open>simp_all add: lit_def\<close>)
    then have "prop_loop s = Some s'" using s'(1) by (rule trans)
    then show ?thesis using s'(2,4) grows_to_trans [OF g s'(3)] by (intro exI conjI)
  qed
qed

lemma prop_inv_heur [simp]: "prop_inv G (s\<lparr>is_heur := h\<rparr>) = prop_inv G s"
proof -
  have "watch_ok W (s\<lparr>is_heur := h\<rparr>) = watch_ok W s" for W by (rule watch_ok_same) simp_all
  then show ?thesis by (simp add: prop_inv_def settled_with_def settled_to_def)
qed

theorem propagate_total:
  assumes "prop_inv G s" "\<not> is_unsat s"
  obtains b s' where "propagate s = Some (b, s')" "prop_inv G s'" "grows_to s s'" "b = (is_conflict s' = None)"
    "b \<Longrightarrow> is_propagated s' = length (is_trail s')"
proof -
  obtain t where t: "prop_loop s = Some t" "prop_inv G t" "grows_to s t" "is_conflict t = None \<longrightarrow> is_propagated t = length (is_trail t)"
    using prop_loop_ok [OF assms(1)] by (elim exE conjE) (rule that)
  let ?t = "t\<lparr>is_heur := propagate_stats (is_propagated s) t\<rparr>"
  have "is_level t < length (is_control t)" using t(2) by (simp add: prop_inv_def search_inv_def control_ok_def)
  then have p: "propagate s = Some (is_conflict t = None, ?t)" using t(1) assms(2) by (simp add: propagate_def)
  have g: "grows_to s ?t" using t(3) by (simp add: grows_to_def)
  show ?thesis by (rule that [OF p _ g]) (use t(2,4) in simp_all)
qed

text \<open>Without a conflict nothing is left to propagate: every clause has a true literal or two unassigned ones.\<close>

lemma propagation_complete:
  assumes P: "prop_inv G s" and c: "is_conflict s = None" "is_propagated s = length (is_trail s)"
    and d: "d < length (is_clauses s)" "\<not> ic_garbage (is_clauses s ! d)"
  shows "set (is_trail s) \<inter> set (lits_at s d) \<noteq> {} \<or>
    (\<exists>a \<in> set (lits_at s d). \<exists>b \<in> set (lits_at s d). a \<noteq> b \<and> is_vals s a = 0 \<and> is_vals s b = 0)"
proof (cases "set (is_trail s) \<inter> set (lits_at s d) = {}")
  case True
  have inv: "search_inv G s" and W: "watch_ok (is_watches s) s" and S: "settled_to (is_level s + 1) (length (is_trail s)) (is_watches s) s"
    using P c(1) by (simp_all add: prop_inv_def settled_with_def)
  let ?ls = "lits_at s d"
  have C: "clause_ok G s (is_clauses s ! d)" by (rule search_invD(5) [OF inv d(1)])
  then have ls: "distinct ?ls" "2 \<le> length ?ls" "\<And>l. l \<in> set ?ls \<Longrightarrow> l \<noteq> 0" by (auto simp: clause_ok_def lits_at_def has_var_def)
  have len: "0 < length ?ls" "1 < length ?ls" using ls(2) by linarith+
  have unassigned: "is_vals s l = 0" if l: "l \<in> watched s d" "l \<in> set ?ls" for l
  proof -
    have "- l \<notin> set (is_trail s)"
    proof
      assume "- l \<in> set (is_trail s)"
      then obtain p where p: "p < length (is_trail s)" "is_trail s ! p = - l" by (auto simp: in_set_conv_nth)
      obtain w where w: "w \<in> set (is_watches s l)" "iw_clause w = d" using watch_okD(3) [OF W d l(1)] by auto
      have "\<exists>k \<in> set (is_trail s) \<inter> set ?ls. level_of s k < is_level s + 1"
        using S p w c(2) d(2) unfolding settled_to_def by (metis add.inverse_inverse min.idem)
      then show False using True by blast
    qed
    then show ?thesis using vals_iff(3) [OF search_invD(2) [OF inv] ls(3) [OF l(2)]] True l(2) by auto
  qed
  have "?ls ! 0 \<noteq> ?ls ! 1" using nth_eq_iff_index_eq [OF ls(1) len] by simp
  then show ?thesis using unassigned [of "?ls ! 0"] unassigned [of "?ls ! 1"] nth_mem [OF len(1)] nth_mem [OF len(2)] by (auto simp: watched_def)
qed simp

end
