(* ===== verification/Cadical_Backtrack.thy ===== *)
theory Cadical_Backtrack
  imports Cadical_Propagate
begin

text \<open>
  \<open>Internal::backtrack\<close> of \<open>lib/cadical/src/backtrack.cpp\<close> (defined in \<open>Cadical_Trail\<close>) keeps what propagation relies on. With
  chronological backtracking a literal of a small level can lie behind decisions of larger levels: it stays on the trail.
\<close>

text \<open>What holds in the search at every moment, in particular where a conflict was dropped without taking its level back.\<close>

definition level_inv :: "clause set \<Rightarrow> isearch \<Rightarrow> bool" where
  "level_inv G s =
     (search_inv G s \<and> watch_ok (is_watches s) s \<and>
      (\<forall>k. 0 < k \<and> k \<le> is_level s \<longrightarrow> settled_to k (snd (is_control s ! k)) (is_watches s) s))"

lemma prop_inv_level: "prop_inv G s \<Longrightarrow> level_inv G s"
  by (simp add: prop_inv_def level_inv_def settled_with_def)

section \<open>The loop over the trail\<close>

definition taken_back :: "nat \<Rightarrow> nat \<Rightarrow> int list \<Rightarrow> int list \<Rightarrow> isearch \<Rightarrow> isearch \<Rightarrow> bool" where
  "taken_back lv j lits kept s s' =
     (kept = filter (\<lambda>l. level_of s l \<le> lv) lits \<and> is_ivars s' = is_ivars s \<and> is_clauses s' = is_clauses s \<and>
      is_watches s' = is_watches s \<and> is_trail s' = is_trail s \<and> is_propagated s' = is_propagated s \<and> is_level s' = is_level s \<and>
      is_control s' = is_control s \<and> is_conflict s' = is_conflict s \<and> is_unsat s' = is_unsat s \<and> is_chrono s' = is_chrono s \<and>
      (\<forall>l. level_of s' l = level_of s l \<and> reason_of s' l = reason_of s l) \<and>
      (\<forall>l. is_vals s' l = (if \<exists>k \<in> set lits. \<bar>k\<bar> = \<bar>l\<bar> \<and> level_of s k > lv then 0 else is_vals s l)) \<and>
      (\<forall>i < length kept. pos_of s' (kept ! i) = j + i) \<and>
      (\<forall>l. (\<forall>k \<in> set lits. \<bar>k\<bar> \<noteq> \<bar>l\<bar>) \<longrightarrow> pos_of s' l = pos_of s l))"

lemma back_loop_ok:
  assumes "is_chrono s = 0 \<Longrightarrow> \<forall>l \<in> set lits. level_of s l > lv"
    and "\<forall>l \<in> set lits. is_vals s l > 0 \<and> has_var l (is_ivars s)" "distinct (map abs lits)"
  shows "\<exists>kept s'. back_loop lv j lits s = Some (kept, s') \<and> taken_back lv j lits kept s s'"
  using assms
proof (induction lits arbitrary: j s)
  case Nil
  then show ?case by (simp add: taken_back_def)
next
  case (Cons lit lits)
  have other: "\<bar>k\<bar> \<noteq> \<bar>lit\<bar>" if "k \<in> set lits" for k using Cons.prems(3) that by (auto simp: image_iff)
  show ?case
  proof (cases "level_of s lit > lv")
    case True
    let ?s = "s\<lparr>is_vals := (is_vals s)(\<bar>lit\<bar> := 0, - \<bar>lit\<bar> := 0), is_heur := (is_heur s)\<lparr>freed := freed (is_heur s) @ [nat \<bar>lit\<bar>]\<rparr>\<rparr>"
    have un: "unassign lit s = Some ?s" using Cons.prems(2) by (simp add: unassign_def)
    have lev: "level_of ?s = level_of s" "reason_of ?s = reason_of s" "pos_of ?s = pos_of s"
      by (simp_all add: fun_eq_iff level_of_def reason_of_def pos_of_def)
    have vals: "is_vals ?s l = (if \<bar>l\<bar> = \<bar>lit\<bar> then 0 else is_vals s l)" for l by auto
    have "\<forall>l \<in> set lits. is_vals ?s l > 0 \<and> has_var l (is_ivars ?s)" using Cons.prems(2) other vals by auto
    then obtain kept s' where s': "back_loop lv j lits ?s = Some (kept, s')" "taken_back lv j lits kept ?s s'"
      using Cons.IH [of ?s j] Cons.prems(1,3) lev by auto
    have "taken_back lv j (lit # lits) kept s s'"
      using s'(2) True lev vals unfolding taken_back_def by (auto simp: abs_eq_iff)
    then show ?thesis using s'(1) un True by auto
  next
    case False
    let ?s = "s\<lparr>is_vtab := (is_vtab s)(nat \<bar>lit\<bar> := (is_vtab s (nat \<bar>lit\<bar>))\<lparr>vr_trail := j\<rparr>)\<rparr>"
    have lev: "level_of ?s = level_of s" "reason_of ?s = reason_of s" by (simp_all add: fun_eq_iff level_of_def reason_of_def)
    have pos: "pos_of ?s l = (if \<bar>l\<bar> = \<bar>lit\<bar> then j else pos_of s l)" for l by (auto simp: pos_of_def)
    have ch: "is_chrono s \<noteq> 0" using Cons.prems(1) False by auto
    have "\<exists>kept s'. back_loop lv (j + 1) lits ?s = Some (kept, s') \<and> taken_back lv (j + 1) lits kept ?s s'"
      by (rule Cons.IH) (use Cons.prems lev in auto)
    then obtain kept s' where s': "back_loop lv (j + 1) lits ?s = Some (kept, s')" "taken_back lv (j + 1) lits kept ?s s'" by blast
    have "taken_back lv j (lit # lits) (lit # kept) s s'" unfolding taken_back_def
    proof (intro conjI allI impI)
      have p: "pos_of s' lit = j" using s'(2) other pos unfolding taken_back_def by auto
      show "pos_of s' ((lit # kept) ! i) = j + i" if "i < length (lit # kept)" for i
        using that p s'(2) by (cases i) (auto simp: taken_back_def)
      show "pos_of s' l = pos_of s l" if "\<forall>k \<in> set (lit # lits). \<bar>k\<bar> \<noteq> \<bar>l\<bar>" for l
        using that s'(2) pos [of l] by (auto simp: taken_back_def)
      show "is_vals s' l = (if \<exists>k \<in> set (lit # lits). \<bar>k\<bar> = \<bar>l\<bar> \<and> level_of s k > lv then 0 else is_vals s l)" for l
        using s'(2) False lev by (auto simp: taken_back_def)
    qed (use s'(2) False lev in \<open>simp_all add: taken_back_def\<close>)
    then show ?thesis using s'(1) False ch by auto
  qed
qed

section \<open>The state after backtracking\<close>

lemma nth_filter_take: "j < length xs \<Longrightarrow> P (xs ! j) \<Longrightarrow> filter P xs ! length (filter P (take j xs)) = xs ! j"
  by (subst (1) id_take_nth_drop [of j xs]) (simp_all add: nth_append)

lemma filter_take_less:
  assumes "i < j" "j \<le> length xs" "P (xs ! i)"
  shows "length (filter P (take i xs)) < length (filter P (take j xs))"
proof -
  have i: "i < length (take j xs)" using assms by simp
  obtain ys where "take j xs = take i xs @ xs ! i # ys" using id_take_nth_drop [OF i] assms(1) by simp
  then show ?thesis using assms(3) by simp
qed

definition backtracked :: "nat \<Rightarrow> isearch \<Rightarrow> isearch \<Rightarrow> bool" where
  "backtracked lv s s' =
     (is_trail s' = filter (\<lambda>l. level_of s l \<le> lv) (is_trail s) \<and> is_ivars s' = is_ivars s \<and> is_clauses s' = is_clauses s \<and>
      is_watches s' = is_watches s \<and> is_propagated s' = snd (is_control s ! (lv + 1)) \<and> is_level s' = lv \<and>
      is_control s' = take (lv + 1) (is_control s) \<and> is_conflict s' = is_conflict s \<and> is_unsat s' = is_unsat s \<and>
      is_chrono s' = is_chrono s \<and> level_of s' = level_of s \<and> reason_of s' = reason_of s \<and> vals_ok s')"

lemma abs_distinct: "vals_ok s \<Longrightarrow> distinct (map abs (is_trail s))"
  using vals_okD(1,2) [of s] by (force simp: distinct_map inj_on_def abs_eq_iff)

lemma trail_split:
  assumes "search_inv G s" "lv < is_level s"
  defines "a \<equiv> snd (is_control s ! (lv + 1))"
  shows "a \<le> length (is_trail s)" "a \<le> is_propagated s" "\<And>l. l \<in> set (take a (is_trail s)) \<Longrightarrow> level_of s l \<le> lv"
    "filter (\<lambda>l. level_of s l \<le> lv) (is_trail s) = take a (is_trail s) @ filter (\<lambda>l. level_of s l \<le> lv) (drop a (is_trail s))"
    "is_chrono s = 0 \<Longrightarrow> \<forall>l \<in> set (drop a (is_trail s)). level_of s l > lv" "length (is_control s) = is_level s + 1"
proof -
  have c: "control_ok s" by (rule search_invD(3) [OF assms(1)])
  then have st: "starts_level s (lv + 1) (is_control s ! (lv + 1))" using assms(2) by (simp add: control_ok_def)
  then show "a \<le> length (is_trail s)" "a \<le> is_propagated s" by (simp_all add: starts_level_def a_def)
  show low: "level_of s l \<le> lv" if "l \<in> set (take a (is_trail s))" for l
    using st that by (auto simp: starts_level_def a_def in_set_conv_nth less_Suc_eq_le)
  have "filter (\<lambda>l. level_of s l \<le> lv) (take a (is_trail s)) = take a (is_trail s)" using low by (simp add: filter_id_conv)
  then show "filter (\<lambda>l. level_of s l \<le> lv) (is_trail s) = take a (is_trail s) @ filter (\<lambda>l. level_of s l \<le> lv) (drop a (is_trail s))"
    by (metis append_take_drop_id filter_append)
  show "\<forall>l \<in> set (drop a (is_trail s)). level_of s l > lv" if "is_chrono s = 0"
    using st that by (auto simp: starts_level_def a_def in_set_conv_nth Suc_le_eq)
  show "length (is_control s) = is_level s + 1" using c by (simp add: control_ok_def)
qed

lemma backtrack_runs:
  assumes inv: "search_inv G s" and lv: "lv < is_level s"
  obtains s' where "backtrack lv s = Some s'" "backtracked lv s s'"
proof -
  define a where "a = snd (is_control s ! (lv + 1))"
  note T = trail_split [OF inv lv, folded a_def]
  note v = search_invD(2) [OF inv]
  note V = vals_okD [OF v]
  let ?h = "update_target_and_best ((is_heur s)\<lparr>n_backtracks := n_backtracks (is_heur s) + 1\<rparr>)"
  let ?s = "s\<lparr>is_heur := ?h\<rparr>" and ?d = "drop a (is_trail s)"
  have da: "distinct (map abs (take a (is_trail s)) @ map abs ?d)" using abs_distinct [OF v] by (metis append_take_drop_id map_append)
  have vals: "\<forall>l \<in> set ?d. is_vals ?s l > 0 \<and> has_var l (is_ivars ?s)"
    using V(3) vals_iff(1) [OF v] V(6) by (auto dest!: in_set_dropD)
  have "\<exists>kept s'. back_loop lv a ?d ?s = Some (kept, s') \<and> taken_back lv a ?d kept ?s s'"
    by (rule back_loop_ok) (use T(5) vals da in auto)
  then obtain kept u where u: "back_loop lv a ?d ?s = Some (kept, u)" "taken_back lv a ?d kept ?s u" by blast
  define s' where "s' = u\<lparr>is_trail := take a (is_trail u) @ kept, is_propagated := min (is_propagated u) a,
      is_heur := (is_heur u)\<lparr>propagated2 := min (propagated2 (is_heur u)) a, no_conflict_until := min (no_conflict_until (is_heur u)) a\<rparr>,
      is_control := take (lv + 1) (is_control u), is_level := lv\<rparr>"
  have "backtrack lv s = Some s'" using lv T(6) u(1) u(2) by (simp add: backtrack_def s'_def a_def Let_def taken_back_def)
  moreover have fr: "is_trail s' = filter (\<lambda>l. level_of s l \<le> lv) (is_trail s)" "is_ivars s' = is_ivars s"
      "level_of s' = level_of s" "reason_of s' = reason_of s" "pos_of s' = pos_of u" "is_vals s' = is_vals u"
    using u(2) T(4) by (simp_all add: s'_def taken_back_def fun_eq_iff level_of_def reason_of_def pos_of_def)
  have "vals_ok s'" unfolding vals_ok_def
  proof (intro conjI ballI allI impI)
    show "- l \<notin> set (is_trail s')" "has_var l (is_ivars s')" if "l \<in> set (is_trail s')" for l
      using that V(1-3) fr(1,2) by auto
    show "distinct (is_trail s')" using V(1) fr(1) by simp
    fix i assume i: "i < length (is_trail s')"
    show "pos_of s' (is_trail s' ! i) = i"
    proof (cases "i < a")
      case True
      have n: "is_trail s' ! i = is_trail s ! i" using True fr(1) T(1,4) by (simp add: nth_append)
      have "is_trail s ! i \<in> set (take a (is_trail s))" using True T(1) by (force simp: in_set_conv_nth)
      then have "\<forall>k \<in> set ?d. \<bar>k\<bar> \<noteq> \<bar>is_trail s ! i\<bar>" using da by (metis IntI distinct_append empty_iff imageI set_map)
      then show ?thesis using u(2) n fr(5) V(5) [of i] True T(1) by (simp add: taken_back_def)
    next
      case False
      have k: "is_trail s' = take a (is_trail s) @ kept" using u(2) by (simp add: s'_def taken_back_def)
      then have n: "is_trail s' ! i = kept ! (i - a)" and "i - a < length kept" using False i T(1) by (simp_all add: nth_append)
      moreover have "\<forall>i < length kept. pos_of u (kept ! i) = a + i" using u(2) unfolding taken_back_def by blast
      ultimately show ?thesis using fr(5) False by simp
    qed
  next
    fix l :: int assume l: "l \<noteq> 0"
    have gone: "(\<exists>k \<in> set ?d. \<bar>k\<bar> = \<bar>l\<bar> \<and> level_of s k > lv) \<longleftrightarrow> (l \<in> set (is_trail s) \<or> - l \<in> set (is_trail s)) \<and> level_of s l > lv"
    proof
      assume "\<exists>k \<in> set ?d. \<bar>k\<bar> = \<bar>l\<bar> \<and> level_of s k > lv"
      then show "(l \<in> set (is_trail s) \<or> - l \<in> set (is_trail s)) \<and> level_of s l > lv"
        by (auto simp: abs_eq_iff dest: in_set_dropD)
    next
      assume r: "(l \<in> set (is_trail s) \<or> - l \<in> set (is_trail s)) \<and> level_of s l > lv"
      then have "l \<notin> set (take a (is_trail s))" "- l \<notin> set (take a (is_trail s))" using T(3) [of l] T(3) [of "- l"] by auto
      then have "l \<in> set ?d \<or> - l \<in> set ?d" using r by (metis append_take_drop_id set_append Un_iff)
      then show "\<exists>k \<in> set ?d. \<bar>k\<bar> = \<bar>l\<bar> \<and> level_of s k > lv" using r of_neg(1) [of s l] abs_minus_cancel [of l] by metis
    qed
    show "is_vals s' l = (if l \<in> set (is_trail s') then 1 else if - l \<in> set (is_trail s') then - 1 else 0)"
      using u(2) fr(1,6) V(4) [OF l] V(2) gone by (auto simp: taken_back_def)
  qed
  then have "backtracked lv s s'"
    using u(2) T(2) fr by (simp add: backtracked_def s'_def taken_back_def a_def)
  ultimately show ?thesis by (rule that)
qed

section \<open>Backtracking keeps the invariants\<close>

lemma backtracked_order:
  assumes b: "backtracked lv s s'" and v: "vals_ok s"
    and k: "k \<in> set (is_trail s)" "level_of s k \<le> lv" and l: "l \<in> set (is_trail s)" "level_of s l \<le> lv" and lt: "pos_of s k < pos_of s l"
  shows "pos_of s' k < pos_of s' l"
proof -
  let ?P = "\<lambda>l. level_of s l \<le> lv" and ?t = "is_trail s"
  have t': "is_trail s' = filter ?P ?t" and v': "vals_ok s'" using b by (simp_all add: backtracked_def)
  have at: "pos_of s' j = length (filter ?P (take (pos_of s j) ?t))" if j: "j \<in> set ?t" "?P j" for j
  proof -
    let ?i = "length (filter ?P (take (pos_of s j) ?t))"
    have p: "pos_of s j < length ?t" "?t ! pos_of s j = j" using pos_of_trail [OF v j(1)] by simp_all
    have "?i < length (filter ?P ?t)" using filter_take_less [OF p(1), of ?t ?P] p(2) j(2) by simp
    moreover have "filter ?P ?t ! ?i = j" using nth_filter_take [of "pos_of s j" ?t ?P] p j(2) by simp
    ultimately show ?thesis using vals_okD(5) [OF v', of ?i] t' by simp
  qed
  have "pos_of s l \<le> length ?t" using pos_of_trail [OF v l(1)] by simp
  then show ?thesis using filter_take_less [OF lt, of ?t ?P] at [OF k] at [OF l] pos_of_trail [OF v k(1)] k(2) by simp
qed

lemma backtracked_control:
  assumes inv: "search_inv G s" and b: "backtracked lv s s'" and lv: "lv < is_level s"
  shows "control_ok s'" "\<And>k. k \<le> lv \<Longrightarrow> is_control s' ! k = is_control s ! k"
    "\<And>k. 0 < k \<Longrightarrow> k \<le> lv \<Longrightarrow> snd (is_control s ! k) \<le> snd (is_control s ! (lv + 1))"
    "\<And>i. i < snd (is_control s ! (lv + 1)) \<Longrightarrow> is_trail s' ! i = is_trail s ! i"
    "snd (is_control s ! (lv + 1)) \<le> length (is_trail s')"
proof -
  note T = trail_split [OF inv lv]
  let ?a = "snd (is_control s ! (lv + 1))"
  have c: "control_ok s" by (rule search_invD(3) [OF inv])
  have B: "is_trail s' = filter (\<lambda>l. level_of s l \<le> lv) (is_trail s)" "is_level s' = lv" "is_control s' = take (lv + 1) (is_control s)"
      "is_propagated s' = ?a" "level_of s' = level_of s" "reason_of s' = reason_of s" "is_chrono s' = is_chrono s"
    using b by (simp_all add: backtracked_def)
  show ctl: "is_control s' ! k = is_control s ! k" if "k \<le> lv" for k using that B(3) by simp
  show pre: "is_trail s' ! i = is_trail s ! i" if "i < ?a" for i using that B(1) T(1,4) by (simp add: nth_append)
  show len: "?a \<le> length (is_trail s')" using B(1) T(1,4) by simp
  have st: "starts_level s k (is_control s ! k)" if "0 < k" "k \<le> lv + 1" for k using c that lv by (simp add: control_ok_def)
  have mono: "snd (is_control s ! k) \<le> snd (is_control s ! j) \<and> (fst (is_control s ! k) \<noteq> 0 \<longrightarrow> snd (is_control s ! k) < snd (is_control s ! j))"
    if "0 < k" "k < j" "j \<le> lv + 1" for k j
    using c that lv by (simp add: control_ok_def)
  show le: "snd (is_control s ! k) \<le> ?a" if "0 < k" "k \<le> lv" for k using mono [of k "lv + 1"] that by simp
  have "starts_level s' k (is_control s' ! k)" if k: "0 < k" "k \<le> lv" for k
  proof -
    have old: "starts_level s k (is_control s ! k)" using st [of k] k by simp
    have p: "snd (is_control s ! k) \<le> ?a" "fst (is_control s ! k) \<noteq> 0 \<Longrightarrow> snd (is_control s ! k) < ?a" using mono [of k "lv + 1"] k by auto
    have "k \<le> level_of s (is_trail s' ! i)" if i: "snd (is_control s ! k) \<le> i" "i < length (is_trail s')" "is_chrono s = 0" for i
    proof -
      have "filter (\<lambda>l. level_of s l \<le> lv) (drop ?a (is_trail s)) = []" using T(5) [OF i(3)] by (auto simp: filter_empty_conv)
      then have "length (is_trail s') = ?a" using B(1) T(1,4) by simp
      then show ?thesis using old i pre [of i] T(1) by (auto simp: starts_level_def)
    qed
    then show ?thesis using old p pre len k(2) ctl [of k] unfolding starts_level_def B(4-7) by auto
  qed
  then show "control_ok s'" using T(6) B(1-5) len lv mono by (auto simp: control_ok_def)
qed

lemma backtrack_ok:
  assumes B: "level_inv G s" and conf: "is_conflict s = None" and lv: "lv < is_level s"
  obtains s' where "backtrack lv s = Some s'" "backtracked lv s s'" "prop_inv G s'"
proof -
  have inv: "search_inv G s" and W: "watch_ok (is_watches s) s"
    and S: "\<And>k. 0 < k \<Longrightarrow> k \<le> is_level s \<Longrightarrow> settled_to k (snd (is_control s ! k)) (is_watches s) s" using B by (simp_all add: level_inv_def)
  note I = search_invD [OF inv]
  obtain s' where s': "backtrack lv s = Some s'" "backtracked lv s s'" by (rule backtrack_runs [OF inv lv])
  note C = backtracked_control [OF inv s'(2) lv]
  have F: "is_trail s' = filter (\<lambda>l. level_of s l \<le> lv) (is_trail s)" "is_ivars s' = is_ivars s" "is_clauses s' = is_clauses s"
      "is_watches s' = is_watches s" "is_propagated s' = snd (is_control s ! (lv + 1))" "is_level s' = lv" "is_conflict s' = None"
      "is_unsat s' = is_unsat s" "level_of s' = level_of s" "reason_of s' = reason_of s" "vals_ok s'"
    using s'(2) conf by (simp_all add: backtracked_def)
  have lits: "lits_at s' = lits_at s" using F(3) by (simp add: fun_eq_iff lits_at_def)
  have "reason_ok G s' l" if l: "l \<in> set (is_trail s')" for l
  proof -
    have ls: "l \<in> set (is_trail s)" "level_of s l \<le> lv" using l F(1) by auto
    have "implied_by s' c l" if c: "implied_by s c l" for c
      unfolding implied_by_def lits F(3)
    proof (intro conjI ballI impI)
      show "c < length (is_clauses s)" "l \<in> set (lits_at s c)" using that by (simp_all add: implied_by_def)
      fix k assume k: "k \<in> set (lits_at s c)" "k \<noteq> l"
      then have f: "- k \<in> set (is_trail s)" "pos_of s (- k) < pos_of s l" "level_of s (- k) \<le> level_of s l" using c by (simp_all add: implied_by_def)
      show "level_of s' k \<le> level_of s' l" using f(3) F(9) by simp
      have lk: "level_of s (- k) \<le> lv" using f(3) ls(2) by (rule le_trans)
      then show "- k \<in> set (is_trail s')" using f(1) F(1) by simp
      show "pos_of s' k < pos_of s' l" using backtracked_order [OF s'(2) I(2) f(1) lk ls f(2)] by simp
    qed
    then show ?thesis using I(4) [OF ls(1)] C(2) [OF ls(2)] F(9,10) by (auto simp: reason_ok_def split: option.splits)
  qed
  moreover have "clause_ok G s' c" if c: "c \<in> set (is_clauses s)" for c
  proof -
    have ok: "clause_ok G s c" using inv c by (simp add: search_inv_def)
    have "is_vals s l = 0 \<or> level_of s l > 0" if l: "l \<in> set (ic_lits c)" "is_vals s' l = 0 \<or> level_of s' l > 0" for l
    proof -
      have "l \<noteq> 0" using ok l(1) by (auto simp: clause_ok_def has_var_def)
      then show ?thesis using l(2) vals_iff(3) [OF F(11), of l] vals_iff(3) [OF I(2), of l] F(1,9) by auto
    qed
    then show ?thesis using ok F(2) unfolding clause_ok_def by metis
  qed
  ultimately have "search_inv G s'" using I(1,7) C(1) F by (simp add: search_inv_def)
  moreover have "watch_ok (is_watches s') s'" using W watch_ok_same [of s' s] F(3,4) lits by simp
  moreover have settled: "settled_to k t (is_watches s') s'"
    if k: "0 < k" "k \<le> lv + 1" and t: "k \<le> lv \<Longrightarrow> t = snd (is_control s ! k)" for k t
    unfolding settled_to_def
  proof (intro allI impI ballI)
    fix p w assume p: "p < min t (is_propagated s')" and w: "w \<in> set (is_watches s' (- (is_trail s' ! p)))"
    have a: "p < snd (is_control s ! (lv + 1))" using p F(5) by simp
    have pk: "p < snd (is_control s ! k)" using a p t k by (cases "k = lv + 1") auto
    have "snd (is_control s ! (lv + 1)) \<le> is_propagated s" by (rule trail_split(2) [OF inv lv])
    then have "p < is_propagated s" using a by simp
    then have "ic_garbage (is_clauses s ! iw_clause w) \<or> (\<exists>l \<in> set (is_trail s) \<inter> set (lits_at s (iw_clause w)). level_of s l < k)"
      using S [of k] k lv pk w C(4) [OF a] F(4) by (simp add: settled_to_def)
    then show "ic_garbage (is_clauses s' ! iw_clause w) \<or> (\<exists>l \<in> set (is_trail s') \<inter> set (lits_at s' (iw_clause w)). level_of s' l < k)"
      using F(1,3,9) lits k(2) by auto
  qed
  have "settled_with (is_watches s') s'" unfolding settled_with_def F(6) using settled C(2) by simp
  ultimately show ?thesis using that [OF s'] by (simp add: prop_inv_def)
qed

end
