(* ===== verification/Cadical_Implicants.thy ===== *)
theory Cadical_Implicants
  imports Cadical_Backtrack
begin

text \<open>
  Original clauses come into the search (\<open>Internal::add_original_lit\<close> of \<open>internal.cpp\<close>, \<open>add_new_original_clause\<close> and
  \<open>assign_original_unit\<close> of \<open>clause.cpp\<close>) and the literals that unit propagation derives from assumptions are read off the trail
  (\<open>already_solved\<close>, \<open>restore_clauses\<close> and \<open>find_up_implicants\<close> of \<open>internal.cpp\<close>). The state of the assumptions and of the constraint,
  and the literals that the external layer restores, are arguments.
\<close>

section \<open>Operations\<close>

text \<open>The literals of the clause that are neither repeated nor falsified, and whether the clause is skipped; \<open>seen\<close> has the marked literals.\<close>

fun original_lits :: "isearch \<Rightarrow> int list \<Rightarrow> int list \<Rightarrow> bool \<Rightarrow> int list \<Rightarrow> (int list \<times> bool) option" where
  "original_lits s seen cl skip [] = Some (cl, skip)"
| "original_lits s seen cl skip (lit # lits) =
     (if \<not> has_var lit (is_ivars s) then None
      else if lit \<in> set seen then original_lits s seen cl skip lits
      else if - lit \<in> set seen then original_lits s seen cl True lits
      else
        let seen = lit # seen; tmp = is_vals s lit
        in if tmp < 0 then original_lits s seen cl skip lits
           else if tmp > 0 then original_lits s seen cl True lits
           else if flags_status lit (is_ivars s) = UNUSED then None
           else original_lits s seen (cl @ [lit]) skip lits)"

definition new_clause :: "bool \<Rightarrow> int list \<Rightarrow> isearch \<Rightarrow> (nat \<times> isearch) option" where
  "new_clause red cl s =
     (if length cl < 2 then None
      else Some (length (is_clauses s),
                 s\<lparr>is_clauses := is_clauses s @ [\<lparr>ic_lits = cl, ic_pos = 2, ic_garbage = False, ic_redundant = red\<rparr>]\<rparr>))"

definition assign_original_unit :: "int \<Rightarrow> isearch \<Rightarrow> isearch option" where
  "assign_original_unit lit s =
     (if is_level s \<noteq> 0 \<or> \<not> has_var lit (is_ivars s) \<or> is_vals s \<bar>lit\<bar> \<noteq> 0 \<or> flags_status lit (is_ivars s) = ELIMINATED then None
      else
        let s = set_true lit (set_var lit (is_level s) None s)
        in do { v \<leftarrow> mark_fixed lit (is_ivars s);
                (ok, s) \<leftarrow> propagate (s\<lparr>is_ivars := v\<rparr>);
                if ok then Some s else learn_empty_clause s })"

definition to_root :: "isearch \<Rightarrow> isearch option" where
  "to_root s = (if is_level s \<noteq> 0 then backtrack 0 s else Some s)"

definition add_new_original_clause :: "int list \<Rightarrow> isearch \<Rightarrow> isearch option" where
  "add_new_original_clause original s =
     do { s \<leftarrow> to_root s;
          if is_unsat s then Some s
          else
            do { (cl, skip) \<leftarrow> original_lits s [] [] False original;
                 if skip then Some s
                 else if cl = [] then Some (s\<lparr>is_unsat := True\<rparr>)
                 else if length cl = 1 then assign_original_unit (cl ! 0) s
                 else do { (c, s) \<leftarrow> new_clause False cl s; watch_clause c s } } }"

definition add_original_lit :: "int \<Rightarrow> int list \<times> isearch \<Rightarrow> (int list \<times> isearch) option" where
  "add_original_lit lit os =
     (case os of (original, s) \<Rightarrow>
        if nat \<bar>lit\<bar> > i_max_var (is_ivars s) then None
        else if lit \<noteq> 0 then Some (original @ [lit], s)
        else do { s \<leftarrow> add_new_original_clause original s; Some ([], s) })"

fun add_original_lits :: "int list \<Rightarrow> int list \<times> isearch \<Rightarrow> (int list \<times> isearch) option" where
  "add_original_lits [] os = Some os"
| "add_original_lits (lit # lits) os = do { os \<leftarrow> add_original_lit lit os; add_original_lits lits os }"

definition already_solved :: "bool \<Rightarrow> isearch \<Rightarrow> (nat \<times> isearch) option" where
  "already_solved unsat_constraint s =
     (if is_unsat s \<or> unsat_constraint then Some (20, s)
      else
        do { s \<leftarrow> to_root s;
             (ok, s) \<leftarrow> propagate s;
             (res, s) \<leftarrow> (if ok then Some (0, s) else do { s \<leftarrow> learn_empty_clause s; Some (20, s) });
             Some (if i_max_var (is_ivars s) = 0 \<and> res = 0 then 10 else res, s) })"

text \<open>The option \<open>restoreall\<close> is 2 here, so the external layer always restores; \<open>restored\<close> are the literals it hands back.\<close>

definition internal_restore_clauses :: "int list \<Rightarrow> isearch \<Rightarrow> (nat \<times> isearch) option" where
  "internal_restore_clauses restored s =
     do { (original, s) \<leftarrow> add_original_lits restored ([], s);
          if is_unsat s then Some (0, s)
          else do { (ok, s) \<leftarrow> propagate s;
                    if ok then Some (0, s) else do { s \<leftarrow> learn_empty_clause s; Some (20, s) } } }"

fun decide_assumptions :: "int list \<Rightarrow> isearch \<Rightarrow> (bool \<times> isearch) option" where
  "decide_assumptions [] s = Some (True, s)"
| "decide_assumptions (lit # lits) s =
     (let tmp = is_vals s lit
      in if tmp < 0 then Some (False, s)
         else if tmp > 0 then decide_assumptions lits s
         else do { s \<leftarrow> search_assume_decision lit s; decide_assumptions lits s })"

definition find_up_implicants :: "bool \<Rightarrow> int list \<Rightarrow> int list \<Rightarrow> int list \<Rightarrow> isearch \<Rightarrow> (bool \<times> int list \<times> isearch) option" where
  "find_up_implicants unsat_constraint assumptions restored implicants s =
     do { (res, s) \<leftarrow> already_solved unsat_constraint s;
          (res, s) \<leftarrow> (if res = 0 then internal_restore_clauses restored s else Some (res, s));
          if res \<noteq> 0 then Some (False, implicants, s)
          else
            do { (go, s) \<leftarrow> decide_assumptions assumptions s;
                 if \<not> go then Some (False, implicants, s)
                 else
                   let cur_trail_size = length (is_trail s)
                   in do { (ok, s) \<leftarrow> propagate s;
                           Some (ok, implicants @ (if ok then drop cur_trail_size (is_trail s) else []), s\<lparr>is_conflict := None\<rparr>) } } }"

section \<open>Clauses of the formula in the search\<close>

definition represented :: "isearch \<Rightarrow> clause \<Rightarrow> bool" where
  "represented s c =
     (is_unsat s \<or> (\<exists>l \<in> set c. l \<noteq> 0 \<and> - l \<in> set c) \<or> (\<exists>l \<in> set c. l \<in> set (is_trail s) \<and> level_of s l = 0) \<or>
      (\<exists>d < length (is_clauses s). \<not> ic_garbage (is_clauses s ! d) \<and> set (lits_at s d) \<subseteq> set c \<and>
         (\<forall>l \<in> set c - set (lits_at s d). - l \<in> set (is_trail s) \<and> level_of s l = 0)))"

definition clause_lits :: "isearch \<Rightarrow> int set" where
  "clause_lits s = (\<Union>c < length (is_clauses s). set (lits_at s c))"

text \<open>The search between two calls: what it holds comes from the formula, and it holds all of the formula.\<close>

definition calm :: "clause set \<Rightarrow> isearch \<Rightarrow> bool" where
  "calm G s =
     (level_inv G s \<and> clause_lits s \<subseteq> \<Union> (set ` G) \<and> (is_level s = 0 \<longrightarrow> prop_inv G s) \<and> (is_unsat s \<longrightarrow> is_level s = 0) \<and>
      (is_conflict s = None \<or> is_unsat s))"

definition idle :: "clause set \<Rightarrow> isearch \<Rightarrow> bool" where
  "idle G s = (calm G s \<and> (\<forall>c \<in> G. represented s c))"

lemma calmD:
  assumes "calm G s"
  shows "level_inv G s" "clause_lits s \<subseteq> \<Union> (set ` G)" "is_level s = 0 \<Longrightarrow> prop_inv G s" "is_unsat s \<Longrightarrow> is_level s = 0"
    "\<not> is_unsat s \<Longrightarrow> is_conflict s = None"
  using assms by (auto simp: calm_def)

lemma entails_mono: "entails G c \<Longrightarrow> G \<subseteq> H \<Longrightarrow> entails H c"
  by (auto simp: entails_def sat_all_def)

lemma search_inv_mono:
  assumes "search_inv G s" "G \<subseteq> H"
  shows "search_inv H s"
proof -
  have "reason_ok H s l" if "reason_ok G s l" for l using that entails_mono [OF _ assms(2)] by (auto simp: reason_ok_def)
  moreover have "clause_ok H s c" if "clause_ok G s c" for c using that entails_mono [OF _ assms(2)] by (auto simp: clause_ok_def)
  moreover have "sat_all \<sigma> G" if "sat_all \<sigma> H" for \<sigma> using that assms(2) by (auto simp: sat_all_def)
  ultimately show ?thesis using assms(1) unfolding search_inv_def by blast
qed

lemma prop_inv_mono: "prop_inv G s \<Longrightarrow> G \<subseteq> H \<Longrightarrow> prop_inv H s"
  using search_inv_mono [of G s H] by (simp add: prop_inv_def)

lemma level_inv_mono: "level_inv G s \<Longrightarrow> G \<subseteq> H \<Longrightarrow> level_inv H s"
  using search_inv_mono [of G s H] by (simp add: level_inv_def)

lemma represented_frame:
  assumes r: "represented s c" and t: "set (is_trail s) \<subseteq> set (is_trail s')" "\<And>l. l \<in> set (is_trail s) \<Longrightarrow> level_of s' l = level_of s l"
    and u: "is_unsat s \<Longrightarrow> is_unsat s'" and n: "length (is_clauses s) \<le> length (is_clauses s')"
    and cl: "\<And>d. d < length (is_clauses s) \<Longrightarrow> ic_garbage (is_clauses s' ! d) = ic_garbage (is_clauses s ! d) \<and> set (lits_at s' d) = set (lits_at s d)"
  shows "represented s' c"
proof -
  have lev: "level_of s' l = level_of s l" if "- l \<in> set (is_trail s)" for l using t(2) [OF that] by simp
  have "represented s' c" if d: "d < length (is_clauses s)" "\<not> ic_garbage (is_clauses s ! d)" "set (lits_at s d) \<subseteq> set c"
      "\<forall>l \<in> set c - set (lits_at s d). - l \<in> set (is_trail s) \<and> level_of s l = 0" for d
  proof -
    have "d < length (is_clauses s') \<and> \<not> ic_garbage (is_clauses s' ! d) \<and> set (lits_at s' d) \<subseteq> set c \<and>
        (\<forall>l \<in> set c - set (lits_at s' d). - l \<in> set (is_trail s') \<and> level_of s' l = 0)"
      using d n cl [OF d(1)] t(1) lev by auto
    then show ?thesis unfolding represented_def by blast
  qed
  moreover have "represented s' c" if "l \<in> set c" "l \<in> set (is_trail s)" "level_of s l = 0" for l
    using that t unfolding represented_def by (metis subsetD)
  ultimately show ?thesis using r u unfolding represented_def by blast
qed

lemma represented_grows: "grows_to s s' \<Longrightarrow> represented s c \<Longrightarrow> represented s' c"
  by (rule represented_frame [of s c s']) (simp_all add: grows_toD)

lemma represented_backtracked:
  assumes "backtracked lv s s'" "represented s c"
  shows "represented s' c"
proof -
  have "lits_at s' = lits_at s" using assms(1) by (simp add: backtracked_def fun_eq_iff lits_at_def)
  then show ?thesis using assms unfolding represented_def backtracked_def by auto
qed

lemma backtracked_lit_ok: "backtracked lv s s' \<Longrightarrow> lit_ok s l \<Longrightarrow> lit_ok s' l"
  by (auto simp: backtracked_def lit_ok_def)

section \<open>The literals that stay in a clause\<close>

definition kept_lits :: "isearch \<Rightarrow> int list \<Rightarrow> int set \<Rightarrow> bool \<Rightarrow> (int list \<times> bool) option \<Rightarrow> bool" where
  "kept_lits s original L skip r =
     (case r of None \<Rightarrow> False
      | Some (cl, skip') \<Rightarrow>
          distinct cl \<and> (skip \<longrightarrow> skip') \<and> set cl \<subseteq> {l \<in> set original. is_vals s l = 0} \<and>
          (if skip' then \<exists>l \<in> set original. is_vals s l > 0 \<or> - l \<in> set original else \<forall>l \<in> L. is_vals s l < 0 \<or> l \<in> set cl))"

lemma original_lits_ok:
  assumes "set ls \<subseteq> set original" "set seen \<subseteq> set original" "\<forall>l \<in> set original. has_var l (is_ivars s) \<and> (is_vals s l = 0 \<longrightarrow> flags_status l (is_ivars s) \<noteq> UNUSED)"
    and "kept_lits s original (set seen) skip (Some (cl, skip))" "set cl \<subseteq> set seen"
  shows "kept_lits s original (set seen \<union> set ls) skip (original_lits s seen cl skip ls)"
  using assms
proof (induction ls arbitrary: seen cl skip)
  case (Cons lit ls)
  have hv: "has_var lit (is_ivars s)" "is_vals s lit = 0 \<longrightarrow> flags_status lit (is_ivars s) \<noteq> UNUSED" using Cons.prems(1,3) by auto
  have ls: "set ls \<subseteq> set original" "lit \<in> set original" using Cons.prems(1) by auto
  have weaken: "kept_lits s original L skip r" if "kept_lits s original L True r" for L r using that by (auto simp: kept_lits_def split: option.splits)
  consider "lit \<in> set seen" | "lit \<notin> set seen" "- lit \<in> set seen" | "lit \<notin> set seen" "- lit \<notin> set seen" "is_vals s lit < 0"
    | "lit \<notin> set seen" "- lit \<notin> set seen" "is_vals s lit > 0" | "lit \<notin> set seen" "- lit \<notin> set seen" "is_vals s lit = 0" by linarith
  then show ?case
  proof cases
    case 1
    then show ?thesis using Cons.IH [OF ls(1) Cons.prems(2-5)] hv by (simp add: insert_absorb)
  next
    case 2
    have "kept_lits s original (set seen \<union> set ls) True (original_lits s seen cl True ls)"
      by (rule Cons.IH [OF ls(1)]) (use Cons.prems ls 2 in \<open>auto simp: kept_lits_def\<close>)
    then have "kept_lits s original (set seen \<union> set (lit # ls)) True (original_lits s seen cl True ls)"
      by (auto simp: kept_lits_def split: option.splits)
    then show ?thesis using hv 2 weaken by simp
  next
    case 3
    have "kept_lits s original (set (lit # seen) \<union> set ls) skip (original_lits s (lit # seen) cl skip ls)"
      by (rule Cons.IH [OF ls(1)]) (use Cons.prems ls 3 in \<open>auto simp: kept_lits_def\<close>)
    then show ?thesis using hv 3 by simp
  next
    case 4
    have "kept_lits s original (set (lit # seen) \<union> set ls) True (original_lits s (lit # seen) cl True ls)"
      by (rule Cons.IH [OF ls(1)]) (use Cons.prems ls 4 in \<open>auto simp: kept_lits_def\<close>)
    then show ?thesis using hv 4 weaken by simp
  next
    case 5
    have "kept_lits s original (set (lit # seen) \<union> set ls) skip (original_lits s (lit # seen) (cl @ [lit]) skip ls)"
      by (rule Cons.IH [OF ls(1)]) (use Cons.prems ls 5 in \<open>auto simp: kept_lits_def\<close>)
    then show ?thesis using hv 5 by (simp add: Let_def)
  qed
qed simp

section \<open>A new clause\<close>

definition with_clause :: "bool \<Rightarrow> int list \<Rightarrow> isearch \<Rightarrow> isearch" where
  "with_clause red cl s =
     s\<lparr>is_clauses := is_clauses s @ [\<lparr>ic_lits = cl, ic_pos = 2, ic_garbage = False, ic_redundant = red\<rparr>],
       is_watches := (is_watches s)
         (cl ! 0 := is_watches s (cl ! 0) @ [\<lparr>iw_clause = length (is_clauses s), iw_blit = cl ! 1, iw_size = length cl\<rparr>],
          cl ! 1 := is_watches s (cl ! 1) @ [\<lparr>iw_clause = length (is_clauses s), iw_blit = cl ! 0, iw_size = length cl\<rparr>])\<rparr>"

lemma with_clause_of [simp]:
  "level_of (with_clause red cl s) = level_of s" "pos_of (with_clause red cl s) = pos_of s" "reason_of (with_clause red cl s) = reason_of s"
  "is_trail (with_clause red cl s) = is_trail s" "is_level (with_clause red cl s) = is_level s" "is_control (with_clause red cl s) = is_control s"
  "is_vals (with_clause red cl s) = is_vals s" "is_conflict (with_clause red cl s) = is_conflict s" "is_unsat (with_clause red cl s) = is_unsat s"
  "is_ivars (with_clause red cl s) = is_ivars s" "is_propagated (with_clause red cl s) = is_propagated s" "is_chrono (with_clause red cl s) = is_chrono s"
  "is_clauses (with_clause red cl s) = is_clauses s @ [\<lparr>ic_lits = cl, ic_pos = 2, ic_garbage = False, ic_redundant = red\<rparr>]"
  "lits_at (with_clause red cl s) (length (is_clauses s)) = cl" "d < length (is_clauses s) \<Longrightarrow> lits_at (with_clause red cl s) d = lits_at s d"
  by (simp_all add: with_clause_def fun_eq_iff level_of_def pos_of_def reason_of_def lits_at_def nth_append)

lemma first_two:
  assumes "distinct cl" "2 \<le> length cl"
  shows "cl ! 0 \<in> set cl" "cl ! 1 \<in> set cl" "cl ! 0 \<noteq> cl ! 1"
proof -
  have len: "0 < length cl" "1 < length cl" using assms(2) by linarith+
  show "cl ! 0 \<in> set cl" "cl ! 1 \<in> set cl" "cl ! 0 \<noteq> cl ! 1" using len nth_eq_iff_index_eq [OF assms(1) len] by auto
qed

lemma with_clause_run:
  assumes "distinct cl" "2 \<le> length cl"
  shows "\<exists>t. new_clause red cl s = Some (length (is_clauses s), t) \<and> watch_clause (length (is_clauses s)) t = Some (with_clause red cl s)"
  using assms first_two [OF assms]
  by (simp add: new_clause_def watch_clause_def watch_literal_def Let_def with_clause_def lits_at_def)

lemma with_clause_search:
  assumes inv: "search_inv G s" and cl: "distinct cl" "2 \<le> length cl" "entails G cl"
    and l: "\<And>l. l \<in> set cl \<Longrightarrow> has_var l (is_ivars s) \<and> flags_status l (is_ivars s) = ACTIVE"
  shows "search_inv G (with_clause red cl s)"
proof -
  let ?t = "with_clause red cl s"
  have "clause_ok G ?t \<lparr>ic_lits = cl, ic_pos = 2, ic_garbage = False, ic_redundant = red\<rparr>" using cl l by (simp add: clause_ok_def)
  moreover have "reason_ok G ?t k" if "reason_ok G s k" for k
    using that by (auto simp: reason_ok_def implied_by_def split: option.splits)
  moreover have "falsified ?t d" if "falsified s d" for d using that by (simp add: falsified_def)
  ultimately show ?thesis using inv unfolding search_inv_def by (simp add: vals_ok_def control_ok_def starts_level_def clause_ok_def)
qed

lemma with_clause_watches:
  assumes "distinct cl" "2 \<le> length cl"
  shows "set (is_watches (with_clause red cl s) k) = set (is_watches s k) \<union>
    (if k = cl ! 0 then {\<lparr>iw_clause = length (is_clauses s), iw_blit = cl ! 1, iw_size = length cl\<rparr>} else {}) \<union>
    (if k = cl ! 1 then {\<lparr>iw_clause = length (is_clauses s), iw_blit = cl ! 0, iw_size = length cl\<rparr>} else {})"
  using first_two(3) [OF assms] by (auto simp: with_clause_def)

lemma with_clause_watch_ok:
  assumes W: "watch_ok (is_watches s) s" and cl: "distinct cl" "2 \<le> length cl"
  shows "watch_ok (is_watches (with_clause red cl s)) (with_clause red cl s)"
  unfolding watch_ok_def
proof (intro conjI allI ballI impI)
  let ?s = "with_clause red cl s" and ?n = "length (is_clauses s)"
  note ab = first_two [OF cl] and Wk = with_clause_watches [OF cl]
  have "?n \<notin> iw_clause ` set (is_watches s k)" for k using watch_okD(2) [OF W] by (fastforce simp: watch_entry_def)
  then show "distinct (map iw_clause (is_watches ?s k))" for k using watch_okD(1) [OF W] ab(3) by (auto simp: with_clause_def)
  have old: "watch_entry ?s k w" if "watch_entry s k w" for k w
    using that by (simp add: watch_entry_def watched_def nth_append)
  show "watch_entry ?s k w" if "w \<in> set (is_watches ?s k)" for k w
    using that old [OF watch_okD(2) [OF W]] ab unfolding Wk by (auto simp: watch_entry_def watched_def split: if_splits)
  fix c k assume c: "c < length (is_clauses ?s)" "\<not> ic_garbage (is_clauses ?s ! c)" "k \<in> watched ?s c"
  show "c \<in> iw_clause ` set (is_watches ?s k)"
  proof (cases "c = ?n")
    case True
    then show ?thesis using c(3) unfolding Wk by (auto simp: watched_def)
  next
    case False
    then have "c \<in> iw_clause ` set (is_watches s k)" using c by (intro watch_okD(3) [OF W]) (auto simp: watched_def nth_append)
    then show ?thesis unfolding Wk by blast
  qed
qed

text \<open>What was settled stays settled as far as the clauses from before are concerned.\<close>

lemma with_clause_settled:
  assumes W: "watch_ok (is_watches s) s" and st: "settled_to k t (is_watches s) s"
  shows "settled_to k t (is_watches s) (with_clause red cl s)"
  unfolding settled_to_def
proof (intro allI impI ballI)
  fix p w assume p: "p < min t (is_propagated (with_clause red cl s))" and w: "w \<in> set (is_watches s (- (is_trail (with_clause red cl s) ! p)))"
  have "iw_clause w < length (is_clauses s)" using watch_okD(2) [OF W] w by (auto simp: watch_entry_def)
  then show "ic_garbage (is_clauses (with_clause red cl s) ! iw_clause w) \<or>
      (\<exists>l \<in> set (is_trail (with_clause red cl s)) \<inter> set (lits_at (with_clause red cl s) (iw_clause w)). level_of (with_clause red cl s) l < k)"
    using st p w by (simp add: settled_to_def nth_append)
qed

lemma add_clause_ok:
  assumes P: "prop_inv G s" and cl: "distinct cl" "2 \<le> length cl" "entails G cl"
    and l: "\<And>l. l \<in> set cl \<Longrightarrow> has_var l (is_ivars s) \<and> is_vals s l = 0 \<and> flags_status l (is_ivars s) = ACTIVE"
  shows "do { (c, s) \<leftarrow> new_clause red cl s; watch_clause c s } = Some (with_clause red cl s)" "prop_inv G (with_clause red cl s)"
proof -
  let ?s = "with_clause red cl s"
  show "do { (c, s) \<leftarrow> new_clause red cl s; watch_clause c s } = Some ?s" using with_clause_run [OF cl(1,2), of red s] by auto
  have inv: "search_inv G s" and W: "watch_ok (is_watches s) s" and S: "settled_with (is_watches s) s" using P by (simp_all add: prop_inv_def)
  note V = search_invD(2) [OF inv]
  have "settled_to k t (is_watches ?s) ?s" if st: "settled_to k t (is_watches s) s" for k t
    unfolding settled_to_def
  proof (intro allI impI ballI)
    fix p w assume p: "p < min t (is_propagated ?s)" and w: "w \<in> set (is_watches ?s (- (is_trail ?s ! p)))"
    have pl: "p < length (is_trail s)" using p search_invD(3) [OF inv] by (simp add: control_ok_def)
    have "- (is_trail s ! p) \<notin> set cl"
      using l [of "- (is_trail s ! p)"] vals_iff(2) [OF V, of "- (is_trail s ! p)"] vals_okD(6) [OF V] nth_mem [OF pl] by auto
    then have "w \<in> set (is_watches s (- (is_trail s ! p)))"
      using w first_two(1,2) [OF cl(1,2)] unfolding with_clause_watches [OF cl(1,2)] by (auto split: if_splits)
    then show "ic_garbage (is_clauses ?s ! iw_clause w) \<or> (\<exists>l \<in> set (is_trail ?s) \<inter> set (lits_at ?s (iw_clause w)). level_of ?s l < k)"
      using with_clause_settled [OF W st, of red cl] p by (simp add: settled_to_def)
  qed
  then have "settled_with (is_watches ?s) ?s" using S by (simp add: settled_with_def)
  then show "prop_inv G ?s" using with_clause_search [OF inv cl] l with_clause_watch_ok [OF W cl(1,2)] by (simp add: prop_inv_def)
qed

section \<open>Propagation at the root\<close>

definition carries :: "isearch \<Rightarrow> isearch \<Rightarrow> bool" where
  "carries s s' = ((\<forall>c. represented s c \<longrightarrow> represented s' c) \<and> (\<forall>l. lit_ok s l \<longrightarrow> lit_ok s' l))"

lemma carriesD: "carries s s' \<Longrightarrow> represented s c \<Longrightarrow> represented s' c" "carries s s' \<Longrightarrow> lit_ok s l \<Longrightarrow> lit_ok s' l"
  by (simp_all add: carries_def)

lemma carries_refl: "carries s s"
  by (simp add: carries_def)

lemma carries_trans: "carries s t \<Longrightarrow> carries t u \<Longrightarrow> carries s u"
  by (simp add: carries_def)

lemma grows_carries: "grows_to s s' \<Longrightarrow> carries s s'"
  using represented_grows grows_toD(15) by (auto simp: carries_def)

lemma backtracked_carries: "backtracked lv s s' \<Longrightarrow> carries s s'"
  using represented_backtracked backtracked_lit_ok by (auto simp: carries_def)

lemma grows_clause_lits: "grows_to s s' \<Longrightarrow> clause_lits s' = clause_lits s"
  using grows_toD(7,9) by (auto simp: clause_lits_def)

lemma root_refutes:
  assumes "search_inv G s" "is_level s = 0" "is_conflict s \<noteq> None"
  shows "\<not> sat_all \<sigma> G"
proof -
  have "decisions s = []" using search_invD(3) [OF assms(1)] assms(2) by (cases "is_control s") (simp_all add: decisions_def control_ok_def)
  then show ?thesis using conflict_refutes [OF assms(1)] assms(3) by auto
qed

lemma prop_inv_unsat:
  assumes "prop_inv G s" "\<And>\<sigma>. \<not> sat_all \<sigma> G"
  shows "prop_inv G (s\<lparr>is_unsat := True\<rparr>)"
proof -
  have "watch_ok W (s\<lparr>is_unsat := True\<rparr>) = watch_ok W s" for W by (rule watch_ok_same) simp_all
  moreover have "search_inv G (s\<lparr>is_unsat := True\<rparr>)"
    using assms by (simp add: prop_inv_def search_inv_def vals_ok_def control_ok_def starts_level_def clause_ok_def falsified_def)
  ultimately show ?thesis using assms(1) by (simp add: prop_inv_def settled_with_def settled_to_def)
qed

lemma unsat_calm:
  assumes "prop_inv G s" "\<And>\<sigma>. \<not> sat_all \<sigma> G" "clause_lits s \<subseteq> \<Union> (set ` G)" "is_level s = 0"
  shows "idle G (s\<lparr>is_unsat := True\<rparr>)" "carries s (s\<lparr>is_unsat := True\<rparr>)"
proof -
  have "clause_lits (s\<lparr>is_unsat := True\<rparr>) = clause_lits s" by (simp add: clause_lits_def)
  then show "idle G (s\<lparr>is_unsat := True\<rparr>)"
    using prop_inv_unsat [OF assms(1,2)] prop_inv_level [OF prop_inv_unsat [OF assms(1,2)]] assms(3,4)
    by (simp add: idle_def calm_def represented_def)
  show "carries s (s\<lparr>is_unsat := True\<rparr>)" by (simp add: carries_def represented_def)
qed

lemma root_propagate:
  assumes P: "prop_inv G s" "clause_lits s \<subseteq> \<Union> (set ` G)" and r: "is_level s = 0" "\<not> is_unsat s"
  obtains ok s' t where "propagate s = Some (ok, s')" "(if ok then Some s' else learn_empty_clause s') = Some t" "calm G t" "is_level t = 0"
    "is_unsat t = (\<not> ok)" "carries s t" "is_trail t = is_trail s'" "i_max_var (is_ivars t) = i_max_var (is_ivars s)"
    "ok \<Longrightarrow> is_conflict t = None \<and> is_propagated t = length (is_trail t)"
proof -
  obtain ok s' where s': "propagate s = Some (ok, s')" "prop_inv G s'" "grows_to s s'" "ok = (is_conflict s' = None)"
      "ok \<Longrightarrow> is_propagated s' = length (is_trail s')"
    by (rule propagate_total [OF P(1) r(2)]) (rule that)
  note D = grows_toD(2,4,6) [OF s'(3)]
  show ?thesis
  proof (cases ok)
    case True
    have c: "calm G s'" using s'(2,4) True prop_inv_level [OF s'(2)] P(2) grows_clause_lits [OF s'(3)] D r by (simp add: calm_def)
    show ?thesis by (rule that [OF s'(1) _ c])
        (use True s'(4,5) D r grows_carries [OF s'(3)] in simp_all)
  next
    case False
    let ?t = "s'\<lparr>is_unsat := True\<rparr>"
    have "\<not> sat_all \<sigma> G" for \<sigma> using root_refutes [of G s'] s'(2,4) False D r by (simp add: prop_inv_def)
    then have t: "idle G ?t" "carries s' ?t" using unsat_calm [OF s'(2)] P(2) grows_clause_lits [OF s'(3)] D r by auto
    have c: "calm G ?t" using t(1) by (simp add: idle_def)
    show ?thesis
      by (rule that [OF s'(1) _ c])
        (use False D r carries_trans [OF grows_carries [OF s'(3)] t(2)] in \<open>simp_all add: learn_empty_clause_def\<close>)
  qed
qed

section \<open>A literal is put on the trail\<close>

lemma settled_pushed:
  assumes p: "pushed lit lv r s s'" and l: "lit \<notin> set (is_trail s)" "- lit \<notin> set (is_trail s)" and "is_propagated s \<le> length (is_trail s)"
    and st: "settled_to k t W s" and "min t' (is_propagated s) \<le> t" "k \<le> k'"
  shows "settled_to k' t' W s'"
  unfolding settled_to_def
proof (intro allI impI ballI)
  have P: "is_trail s' = is_trail s @ [lit]" "is_propagated s' = is_propagated s" "is_clauses s' = is_clauses s" using p by (simp_all add: pushed_def)
  fix q w assume q: "q < min t' (is_propagated s')" and w: "w \<in> set (W (- (is_trail s' ! q)))"
  have "q < min t' (is_propagated s)" using q P by simp
  then have "q < t" "q < is_propagated s" "is_trail s' ! q = is_trail s ! q"
    using P(1) assms(4) less_le_trans [OF _ assms(6), of q] by (simp_all add: nth_append)
  then have "ic_garbage (is_clauses s ! iw_clause w) \<or> (\<exists>l \<in> set (is_trail s) \<inter> set (lits_at s (iw_clause w)). level_of s l < k)"
    using st w by (simp add: settled_to_def)
  moreover have "level_of s' j = level_of s j" if "j \<in> set (is_trail s)" for j by (rule pushed_of(4) [OF p other_var [OF that l]])
  ultimately show "ic_garbage (is_clauses s' ! iw_clause w) \<or> (\<exists>l \<in> set (is_trail s') \<inter> set (lits_at s' (iw_clause w)). level_of s' l < k')"
    using P(1,3) pushed_of(8) [OF p] less_le_trans [OF _ assms(7)] by (metis IntD1 IntD2 IntI UnI1 set_append)
qed

lemma pushed_watch_ok:
  assumes "pushed lit lv r s s'"
  shows "watch_ok W s' = watch_ok W s"
  by (rule watch_ok_same) (use assms pushed_of(8) [OF assms] in \<open>simp_all add: pushed_def\<close>)

lemma pushed_carries:
  assumes p: "pushed lit lv r s s'" and l: "lit \<notin> set (is_trail s)" "- lit \<notin> set (is_trail s)"
  shows "carries s s'"
proof -
  have lev: "level_of s' k = level_of s k" if "k \<in> set (is_trail s)" for k by (rule pushed_of(4) [OF p other_var [OF that l]])
  have "represented s' c" if "represented s c" for c
    by (rule represented_frame [OF that]) (use p lev pushed_of(8) [OF p] in \<open>auto simp: pushed_def\<close>)
  then show ?thesis using pushed_lit_ok [OF p l] by (auto simp: carries_def)
qed

lemma assign_original_unit_ok:
  assumes P: "prop_inv G s" "clause_lits s \<subseteq> \<Union> (set ` G)" and r: "is_level s = 0" "\<not> is_unsat s" "is_conflict s = None"
    and l: "lit \<notin> set (is_trail s)" "- lit \<notin> set (is_trail s)" "has_var lit (is_ivars s)" "flags_status lit (is_ivars s) = ACTIVE" "entails G [lit]"
  obtains t where "assign_original_unit lit s = Some t" "calm G t" "is_level t = 0" "carries s t"
    "represented t c \<or> lit \<notin> set c" "i_max_var (is_ivars t) = i_max_var (is_ivars s)"
proof -
  have inv: "search_inv G s" and W: "watch_ok (is_watches s) s" and S: "settled_with (is_watches s) s" using P(1) by (simp_all add: prop_inv_def)
  note I = search_invD [OF inv]
  let ?s = "set_true lit (set_var lit (is_level s) None s)"
  have l0: "lit \<noteq> 0" using l(3) by (simp add: has_var_def)
  have val': "is_vals s \<bar>lit\<bar> = 0" using vals_iff(3) [OF I(2), of "\<bar>lit\<bar>"] l(1,2) l0 by (cases "lit < 0") auto
  obtain v where v: "mark_fixed lit (is_ivars s) = Some v" "stats_ok v" "i_status v = (i_status (is_ivars s))[nat \<bar>lit\<bar> := FIXED]" "i_max_var v = i_max_var (is_ivars s)"
    using mark_inactive_ok(1) [OF I(1) l(3,4)] by (auto simp: becomes_def split: option.splits)
  let ?u = "?s\<lparr>is_ivars := v\<rparr>"
  have p: "pushed lit 0 None s ?u" using v r by (simp add: pushed_def set_true_def set_var_def flags_status_def)
  have fr: "is_level ?u = is_level s" "is_control ?u = is_control s" by (simp_all add: set_true_def set_var_def)
  have pr: "is_propagated s \<le> length (is_trail s)" using I(3) by (simp add: control_ok_def)
  have "control_ok ?u" by (rule pushed_control [OF p I(2,3) l(1,2) _ fr]) (use r in simp_all)
  moreover have "reason_ok G ?u lit" using pushed_of(1,3) [OF p] l(5) by (simp add: reason_ok_def)
  ultimately have "search_inv G ?u" using pushed_inv [OF inv p l(1-3)] fr by simp
  moreover have wat: "is_watches ?u = is_watches s" "is_conflict ?u = None" "is_unsat ?u = is_unsat s" using p r by (simp_all add: pushed_def)
  moreover have "settled_to 1 (length (is_trail ?u)) (is_watches s) ?u"
    by (rule settled_pushed [OF p l(1,2) pr, of 1 "length (is_trail s)"]) (use S r pr in \<open>simp_all add: settled_with_def\<close>)
  ultimately have "prop_inv G ?u" using W pushed_watch_ok [OF p] fr r by (simp add: prop_inv_def settled_with_def)
  moreover have "clause_lits ?u = clause_lits s" using p pushed_of(8) [OF p] by (simp add: clause_lits_def pushed_def)
  ultimately obtain ok s' t where t: "propagate ?u = Some (ok, s')" "(if ok then Some s' else learn_empty_clause s') = Some t" "calm G t" "is_level t = 0"
      "is_unsat t = (\<not> ok)" "carries ?u t" "is_trail t = is_trail s'" "i_max_var (is_ivars t) = i_max_var (is_ivars ?u)"
    using root_propagate [of G ?u] P(2) fr wat r by metis
  have "lit \<in> set (is_trail ?u)" "level_of ?u lit = 0" using pushed_of(1) [OF p] p by (simp_all add: pushed_def)
  then have rep: "represented t c" if "lit \<in> set c" using that carriesD(1) [OF t(6)] by (auto simp: represented_def)
  have "is_ivars ?s = is_ivars s" by (simp add: set_true_def set_var_def)
  then have run: "assign_original_unit lit s = Some t"
    using r l(3,4) val' v(1) t(1,2) by (simp add: assign_original_unit_def Let_def)
  show ?thesis
    by (rule that [OF run t(3,4) carries_trans [OF pushed_carries [OF p l(1,2)] t(6)]]) (use rep t(8) v(4) in auto)
qed

section \<open>A clause of the formula is added\<close>

lemma calm_mono: "calm G s \<Longrightarrow> G \<subseteq> H \<Longrightarrow> calm H s"
  using level_inv_mono [of G s H] prop_inv_mono [of G s H] image_mono [of G H set, THEN Union_mono] by (auto simp: calm_def)

lemma to_root_ok:
  assumes c: "calm G s"
  obtains t where "to_root s = Some t" "calm G t" "is_level t = 0" "prop_inv G t" "carries s t" "is_unsat t = is_unsat s" "is_ivars t = is_ivars s"
    "is_level s = 0 \<Longrightarrow> t = s"
proof (cases "is_level s = 0")
  case True
  then show ?thesis using that [of s] c calmD(3) [OF c] carries_refl by (simp add: to_root_def)
next
  case False
  have ns: "\<not> is_unsat s" using calmD(4) [OF c] False by blast
  obtain t where t: "backtrack 0 s = Some t" "backtracked 0 s t" "prop_inv G t"
    by (rule backtrack_ok [OF calmD(1) [OF c] calmD(5) [OF c ns]]) (use False in simp)
  have "calm G t"
    using t(2,3) prop_inv_level [OF t(3)] calmD(2) [OF c] calmD(5) [OF c ns]
    by (simp add: calm_def backtracked_def clause_lits_def lits_at_def)
  then show ?thesis using that [of t] t False backtracked_carries [OF t(2)] by (simp add: to_root_def backtracked_def)
qed

lemma root_level: "control_ok s \<Longrightarrow> is_level s = 0 \<Longrightarrow> l \<in> set (is_trail s) \<Longrightarrow> level_of s l = 0"
  by (auto simp: control_ok_def)

lemma root_true:
  assumes "search_inv G s" "is_level s = 0" "l \<in> set (is_trail s)" "sat_all \<sigma> G"
  shows "lit_true \<sigma> l"
  using search_invD(4) [OF assms(1,3)] root_level [OF search_invD(3) [OF assms(1)] assms(2,3)] assms(4) by (simp add: reason_ok_def entails_def)

lemma reduced_entails:
  assumes inv: "search_inv G s" and r: "is_level s = 0" and c: "\<And>l. l \<in> set c \<Longrightarrow> - l \<in> set (is_trail s) \<or> l \<in> set cl"
  shows "entails (insert c G) cl"
  unfolding entails_def
proof (intro allI impI)
  fix \<sigma> assume s: "sat_all \<sigma> (insert c G)"
  then obtain l where l: "l \<in> set c" "lit_true \<sigma> l" by (auto simp: sat_all_def sat_clause_def)
  have "l \<in> set cl"
  proof (rule ccontr)
    assume "l \<notin> set cl"
    then have n: "- l \<in> set (is_trail s)" using c l(1) by blast
    then have "lit_true \<sigma> (- l)" using root_true [OF inv r n] s by (simp add: sat_all_def)
    then show False using l(2) vals_okD(6) [OF search_invD(2) [OF inv] n] by simp
  qed
  then show "sat_clause \<sigma> cl" using l(2) by (auto simp: sat_clause_def)
qed

lemma add_new_original_clause_ok:
  assumes i: "idle G s" and c: "\<And>l. l \<in> set c \<Longrightarrow> lit_ok s l"
  obtains s' where "add_new_original_clause c s = Some s'" "idle (insert c G) s'" "carries s s'" "is_level s' = 0"
    "i_max_var (is_ivars s') = i_max_var (is_ivars s)"
proof -
  obtain t where t: "to_root s = Some t" "calm G t" "is_level t = 0" "prop_inv G t" "carries s t" "is_unsat t = is_unsat s" "is_ivars t = is_ivars s"
    by (rule to_root_ok) (use i in \<open>auto simp: idle_def\<close>)
  note goal = that
  let ?H = "insert c G"
  have inv: "search_inv G t" using t(4) by (simp add: prop_inv_def)
  note V = vals_iff [OF search_invD(2) [OF inv]] and lev = root_level [OF search_invD(3) [OF inv] t(3)]
  have rep: "represented t d" if "d \<in> G" for d using i that carriesD(1) [OF t(5)] by (simp add: idle_def)
  have H: "calm ?H t" "prop_inv ?H t" using calm_mono [OF t(2), of ?H] prop_inv_mono [OF t(4), of ?H] by auto
  have lits: "clause_lits t \<subseteq> \<Union> (set ` ?H)" by (rule calmD(2) [OF H(1)])
  have ok: "lit_ok t l" "l \<noteq> 0" if "l \<in> set c" for l using c [OF that] carriesD(2) [OF t(5)] by (auto simp: lit_ok_def has_var_def)
  have act: "flags_status l (is_ivars t) = ACTIVE" if "l \<in> set c" "is_vals t l = 0" for l
    using ok [OF that(1)] V(3) [of l] that(2) by (auto simp: lit_ok_def)
  have finish: thesis if s': "add_new_original_clause c s = Some s'" "calm ?H s'" "carries t s'" "represented s' c" "is_level s' = 0"
      "i_max_var (is_ivars s') = i_max_var (is_ivars t)" for s'
  proof (rule goal [OF s'(1) _ carries_trans [OF t(5) s'(3)] s'(5)])
    show "idle ?H s'" using s'(2,4) rep carriesD(1) [OF s'(3)] by (simp add: idle_def)
  qed (use s'(6) t(7) in simp)
  show ?thesis
  proof (cases "is_unsat t")
    case True
    then show ?thesis by (intro finish [of t]) (use t(1,3) H(1) carries_refl in \<open>simp_all add: add_new_original_clause_def represented_def\<close>)
  next
    case ns: False
    have "kept_lits t c (set [] \<union> set c) False (original_lits t [] [] False c)"
      by (rule original_lits_ok) (use ok act in \<open>auto simp: kept_lits_def lit_ok_def\<close>)
    then obtain cl skip where cl: "original_lits t [] [] False c = Some (cl, skip)" "distinct cl" "set cl \<subseteq> {l \<in> set c. is_vals t l = 0}"
        "skip \<Longrightarrow> \<exists>l \<in> set c. is_vals t l > 0 \<or> - l \<in> set c" "\<not> skip \<Longrightarrow> \<forall>l \<in> set c. is_vals t l < 0 \<or> l \<in> set cl"
      by (auto simp: kept_lits_def split: option.splits if_splits)
    have false: "- l \<in> set (is_trail t) \<and> level_of t l = 0" if "\<not> skip" "l \<in> set c - set cl" for l
      using cl(5) [OF that(1)] that(2) V(2) [of l] ok(2) lev [of "- l"] by auto
    have ent: "entails ?H cl" if "\<not> skip" by (rule reduced_entails [OF inv t(3)]) (use false that in auto)
    have run: "add_new_original_clause c s =
      (if skip then Some t else if cl = [] then Some (t\<lparr>is_unsat := True\<rparr>) else if length cl = 1 then assign_original_unit (cl ! 0) t
       else do { (c, s) \<leftarrow> new_clause False cl t; watch_clause c s })"
      using t(1) cl(1) ns by (simp add: add_new_original_clause_def)
    consider "skip" | "\<not> skip" "cl = []" | x where "\<not> skip" "cl = [x]" | "\<not> skip" "2 \<le> length cl"
      by (cases cl; cases "tl cl") (auto simp: Suc_le_eq)
    then show ?thesis
    proof cases
      case 1
      then have "represented t c" using cl(4) V(1) ok(2) lev unfolding represented_def by blast
      then show ?thesis by (intro finish [of t]) (use 1 run H(1) t(3) carries_refl in simp_all)
    next
      case 2
      have "\<not> sat_all \<sigma> ?H" for \<sigma> using ent [OF 2(1)] 2(2) by (auto simp: entails_def sat_clause_def)
      note u = unsat_calm [OF H(2) this lits t(3)]
      show ?thesis by (rule finish [OF _ _ u(2)]) (use u(1) 2 run t(3) in \<open>simp_all add: idle_def represented_def\<close>)
    next
      case (3 x)
      have x: "x \<in> set c" "is_vals t x = 0" "x \<noteq> 0" using cl(3) 3(2) ok(2) by auto
      then have "x \<notin> set (is_trail t)" "- x \<notin> set (is_trail t)" using V(3) by auto
      then obtain s' where s': "assign_original_unit x t = Some s'" "calm ?H s'" "is_level s' = 0" "carries t s'" "represented s' c \<or> x \<notin> set c"
          "i_max_var (is_ivars s') = i_max_var (is_ivars t)"
        using assign_original_unit_ok [OF H(2) lits t(3) ns calmD(5) [OF t(2) ns], of x c] ok(1) [OF x(1)] act [OF x(1,2)] ent [OF 3(1)] 3(2)
        by (metis lit_ok_def)
      show ?thesis by (rule finish [OF _ s'(2,4) _ s'(3,6)]) (use run 3 s'(1,5) x(1) in auto)
    next
      case 4
      let ?s' = "with_clause False cl t"
      have s': "do { (c, s) \<leftarrow> new_clause False cl t; watch_clause c s } = Some ?s'" "prop_inv ?H ?s'"
        by (rule add_clause_ok [OF H(2) cl(2) 4(2) ent [OF 4(1)]]; use cl(3) ok(1) act in \<open>auto simp: lit_ok_def\<close>)+
      have la: "lits_at ?s' d = (if d < length (is_clauses t) then lits_at t d else cl)" if "d < length (is_clauses ?s')" for d
        using that by (auto simp: less_Suc_eq)
      have "represented ?s' d" if "represented t d" for d
        by (rule represented_frame [OF that]) (auto simp: nth_append)
      then have "carries t ?s'" by (simp add: carries_def lit_ok_def)
      moreover have "represented ?s' c"
        using false [OF 4(1)] cl(3) la unfolding represented_def by (intro disjI2 exI [of _ "length (is_clauses t)"]) auto
      moreover have "clause_lits ?s' \<subseteq> clause_lits t \<union> set cl" using la by (force simp: clause_lits_def less_Suc_eq)
      then have "clause_lits ?s' \<subseteq> \<Union> (set ` ?H)" using lits cl(3) by blast
      then have "calm ?H ?s'" using s'(2) prop_inv_level [OF s'(2)] t(3) calmD(5) [OF t(2) ns] by (simp add: calm_def)
      ultimately show ?thesis by (intro finish [of ?s']) (use run 4 s'(1) t(3) in auto)
    qed
  qed
qed

section \<open>A formula is added\<close>

definition flat_lits :: "clause list \<Rightarrow> int list" where
  "flat_lits F = concat (map (\<lambda>c. c @ [0]) F)"

lemma add_original_lits_append: "add_original_lits (xs @ ys) os = do { os \<leftarrow> add_original_lits xs os; add_original_lits ys os }"
proof (induction xs arbitrary: os)
  case (Cons x xs)
  then show ?case by (cases "add_original_lit x os") simp_all
qed simp

lemma add_original_lits_clause:
  assumes "\<And>l. l \<in> set c \<Longrightarrow> has_var l (is_ivars s)"
  shows "add_original_lits (c @ [0]) (original, s) = do { s \<leftarrow> add_new_original_clause (original @ c) s; Some ([], s) }"
  using assms
proof (induction c arbitrary: original)
  case Nil
  then show ?case by (simp add: add_original_lit_def bind_assoc)
next
  case (Cons l c)
  have "add_original_lit l (original, s) = Some (original @ [l], s)" using Cons.prems [of l] by (simp add: add_original_lit_def has_var_def)
  then show ?case using Cons.IH [of "original @ [l]"] Cons.prems by simp
qed

lemma add_formula_ok:
  assumes "idle G s" "\<And>c l. c \<in> set F \<Longrightarrow> l \<in> set c \<Longrightarrow> lit_ok s l"
  shows "\<exists>s'. add_original_lits (flat_lits F) ([], s) = Some ([], s') \<and> idle (set F \<union> G) s' \<and> carries s s' \<and>
    i_max_var (is_ivars s') = i_max_var (is_ivars s) \<and> (is_level s = 0 \<longrightarrow> is_level s' = 0) \<and> (F = [] \<longrightarrow> s' = s)"
  using assms
proof (induction F arbitrary: G s)
  case Nil
  then show ?case by (simp add: flat_lits_def carries_refl)
next
  case (Cons c F)
  obtain t where t: "add_new_original_clause c s = Some t" "idle (insert c G) t" "carries s t" "is_level t = 0"
      "i_max_var (is_ivars t) = i_max_var (is_ivars s)"
    by (rule add_new_original_clause_ok [OF Cons.prems(1), of c]) (use Cons.prems(2) in auto)
  have hv: "has_var l (is_ivars s)" if "l \<in> set c" for l using Cons.prems(2) [of c l] that by (simp add: lit_ok_def)
  have "\<exists>s'. add_original_lits (flat_lits F) ([], t) = Some ([], s') \<and> idle (set F \<union> insert c G) s' \<and> carries t s' \<and>
      i_max_var (is_ivars s') = i_max_var (is_ivars t) \<and> (is_level t = 0 \<longrightarrow> is_level s' = 0) \<and> (F = [] \<longrightarrow> s' = t)"
    by (rule Cons.IH [OF t(2)]) (use Cons.prems(2) carriesD(2) [OF t(3)] in auto)
  then obtain s' where s': "add_original_lits (flat_lits F) ([], t) = Some ([], s')" "idle (set F \<union> insert c G) s'" "carries t s'"
      "i_max_var (is_ivars s') = i_max_var (is_ivars t)" "is_level s' = 0" using t(4) by auto
  have "flat_lits (c # F) = (c @ [0]) @ flat_lits F" by (simp add: flat_lits_def)
  moreover have "add_original_lits (c @ [0]) ([], s) = Some ([], t)" using add_original_lits_clause [of c s "[]"] hv t(1) by simp
  ultimately have "add_original_lits (flat_lits (c # F)) ([], s) = Some ([], s')"
    using s'(1) add_original_lits_append [of "c @ [0]" "flat_lits F"] by simp
  then show ?case using s'(2,4,5) t(5) carries_trans [OF t(3) s'(3)] by simp
qed

section \<open>Unit propagation as a closure\<close>

inductive up_derives :: "clause set \<Rightarrow> int set \<Rightarrow> int \<Rightarrow> bool" for G A where
  assumed: "a \<in> A \<Longrightarrow> up_derives G A a"
| unit: "c \<in> G \<Longrightarrow> l \<in> set c \<Longrightarrow> (\<And>k. k \<in> set c \<Longrightarrow> k \<noteq> l \<Longrightarrow> up_derives G A (- k)) \<Longrightarrow> up_derives G A l"

lemma up_in_trail:
  assumes P: "prop_inv G s" "is_conflict s = None" "is_propagated s = length (is_trail s)" "\<not> is_unsat s"
    and R: "\<And>c. c \<in> G \<Longrightarrow> represented s c" and A: "A \<subseteq> set (is_trail s)" and u: "up_derives G A l"
  shows "l \<in> set (is_trail s)"
  using u
proof (induction rule: up_derives.induct)
  case (assumed a)
  then show ?case using A by blast
next
  case (unit c l)
  have inv: "search_inv G s" using P(1) by (simp add: prop_inv_def)
  note V = vals_okD [OF search_invD(2) [OF inv]]
  have hit: ?case if "x \<in> set c" "x \<in> set (is_trail s)" for x
    using that unit.IH [of x] V(2) [of x] by auto
  consider x where "x \<in> set c" "- x \<in> set c" "x \<noteq> 0" | x where "x \<in> set c" "x \<in> set (is_trail s)"
    | d where "d < length (is_clauses s)" "\<not> ic_garbage (is_clauses s ! d)" "set (lits_at s d) \<subseteq> set c"
    using R [OF unit.hyps(1)] P(4) unfolding represented_def by blast
  then show ?case
  proof cases
    case (1 x)
    show ?thesis
    proof (cases "x = l")
      case True
      then show ?thesis using unit.IH [of "- x"] 1 by simp
    next
      case False
      then show ?thesis using unit.IH [of x] hit [of "- x"] 1 by simp
    qed
  next
    case (2 x)
    then show ?thesis by (rule hit)
  next
    case (3 d)
    from propagation_complete [OF P(1-3) 3(1,2)] show ?thesis
    proof
      assume "set (is_trail s) \<inter> set (lits_at s d) \<noteq> {}"
      then show ?thesis using hit 3(3) by auto
    next
      assume "\<exists>a \<in> set (lits_at s d). \<exists>b \<in> set (lits_at s d). a \<noteq> b \<and> is_vals s a = 0 \<and> is_vals s b = 0"
      then obtain a where a: "a \<in> set (lits_at s d)" "is_vals s a = 0" "a \<noteq> l" by metis
      have n: "- a \<in> set (is_trail s)" using unit.IH [of a] a(1,3) 3(3) by auto
      then show ?thesis using a(2) vals_iff(3) [OF search_invD(2) [OF inv], of a] V(6) [OF n] by simp
    qed
  qed
qed

section \<open>The literals implied by an assumption\<close>

text \<open>At the root level with nothing left to propagate, or with the formula refuted.\<close>

definition at_root :: "clause set \<Rightarrow> isearch \<Rightarrow> bool" where
  "at_root G s = (idle G s \<and> is_level s = 0 \<and> (\<not> is_unsat s \<longrightarrow> is_conflict s = None \<and> is_propagated s = length (is_trail s)))"

lemma already_solved_ok:
  assumes i: "idle G s" and n: "0 < i_max_var (is_ivars s)"
  obtains res t where "already_solved False s = Some (res, t)" "at_root G t" "carries s t" "res = (if is_unsat t then 20 else 0)"
    "i_max_var (is_ivars t) = i_max_var (is_ivars s)"
proof (cases "is_unsat s")
  case True
  then have "is_level s = 0" using i by (simp add: idle_def calm_def)
  then show ?thesis using that [of 20 s] True i carries_refl by (simp add: already_solved_def at_root_def)
next
  case False
  have c: "calm G s" using i by (simp add: idle_def)
  obtain u where u: "to_root s = Some u" "calm G u" "is_level u = 0" "prop_inv G u" "carries s u" "is_unsat u = is_unsat s" "is_ivars u = is_ivars s"
    by (rule to_root_ok [OF c])
  obtain ok s' t where t: "propagate u = Some (ok, s')" "(if ok then Some s' else learn_empty_clause s') = Some t" "calm G t" "is_level t = 0"
      "is_unsat t = (\<not> ok)" "carries u t" "is_trail t = is_trail s'" "i_max_var (is_ivars t) = i_max_var (is_ivars u)"
      "ok \<Longrightarrow> is_conflict t = None \<and> is_propagated t = length (is_trail t)"
    by (rule root_propagate [OF u(4) calmD(2) [OF u(2)] u(3)]) (use u(6) False in simp, rule that)
  have r: "carries s t" by (rule carries_trans [OF u(5) t(6)])
  have a: "at_root G t" using t(3,4,5,9) i carriesD(1) [OF r] by (simp add: at_root_def idle_def)
  have "already_solved False s = Some (if ok then 0 else 20, t)"
    using False u(1) t(1,2,8) u(7) n by (cases ok) (simp_all add: already_solved_def)
  then show ?thesis using that [OF _ a r] t(5,8) u(7) by simp
qed

lemma internal_restore_clauses_ok:
  assumes a: "at_root G s" "\<not> is_unsat s" and R: "\<And>c l. c \<in> set R \<Longrightarrow> l \<in> set c \<Longrightarrow> lit_ok s l"
    and sat: "R = [] \<or> (\<exists>\<sigma>. sat_all \<sigma> (set R \<union> G))"
  obtains res t where "internal_restore_clauses (flat_lits R) s = Some (res, t)" "at_root (set R \<union> G) t" "carries s t" "res = (if is_unsat t then 20 else 0)"
    "i_max_var (is_ivars t) = i_max_var (is_ivars s)"
proof -
  have i: "idle G s" "is_level s = 0" using a(1) by (simp_all add: at_root_def)
  have ex: "\<exists>s'. add_original_lits (flat_lits R) ([], s) = Some ([], s') \<and> idle (set R \<union> G) s' \<and> carries s s' \<and>
      i_max_var (is_ivars s') = i_max_var (is_ivars s) \<and> (is_level s = 0 \<longrightarrow> is_level s' = 0) \<and> (R = [] \<longrightarrow> s' = s)"
    by (rule add_formula_ok [OF i(1)]) (rule R)
  obtain u where u: "add_original_lits (flat_lits R) ([], s) = Some ([], u)" "idle (set R \<union> G) u" "carries s u"
      "i_max_var (is_ivars u) = i_max_var (is_ivars s)" "is_level u = 0" "R = [] \<longrightarrow> u = s"
    using ex i(2) by auto
  have c: "calm (set R \<union> G) u" using u(2) by (simp add: idle_def)
  have P: "prop_inv (set R \<union> G) u" by (rule calmD(3) [OF c u(5)])
  have ns: "\<not> is_unsat u"
    using sat u(6) a(2) search_invD(7) [of "set R \<union> G" u] P by (auto simp: prop_inv_def)
  obtain ok s' t where t: "propagate u = Some (ok, s')" "(if ok then Some s' else learn_empty_clause s') = Some t" "calm (set R \<union> G) t" "is_level t = 0"
      "is_unsat t = (\<not> ok)" "carries u t" "is_trail t = is_trail s'" "i_max_var (is_ivars t) = i_max_var (is_ivars u)"
      "ok \<Longrightarrow> is_conflict t = None \<and> is_propagated t = length (is_trail t)"
    by (rule root_propagate [OF P calmD(2) [OF c] u(5) ns]) (rule that)
  have r: "at_root (set R \<union> G) t" using t(3,4,5,9) u(2) carriesD(1) [OF t(6)] by (simp add: at_root_def idle_def)
  have "internal_restore_clauses (flat_lits R) s = Some (if ok then 0 else 20, t)"
    using ns u(1) t(1,2) by (cases ok) (simp_all add: internal_restore_clauses_def)
  then show ?thesis using that [OF _ r carries_trans [OF u(3) t(6)]] t(5,8) u(4) by simp
qed

text \<open>Opening a level with a decision, where everything is propagated.\<close>

lemma decision_step:
  assumes P: "prop_inv G s" "is_conflict s = None" "is_propagated s = length (is_trail s)"
    and l: "lit \<notin> set (is_trail s)" "- lit \<notin> set (is_trail s)" "has_var lit (is_ivars s)"
  obtains s' where "search_assume_decision lit s = Some s'" "prop_inv G s'" "pushed lit (is_level s + 1) None s s'" "is_level s' = is_level s + 1"
    "is_control s' = is_control s @ [(lit, length (is_trail s))]" "decisions s' = decisions s @ [lit]"
proof -
  have inv: "search_inv G s" and W: "watch_ok (is_watches s) s" and S: "settled_with (is_watches s) s" using P(1) by (simp_all add: prop_inv_def)
  obtain s' where s': "search_assume_decision lit s = Some s'" "search_inv G s'" "pushed lit (is_level s + 1) None s s'"
      "is_level s' = is_level s + 1" "is_control s' = is_control s @ [(lit, length (is_trail s))]"
    by (rule search_assume_decision_ok [OF inv P(3) l])
  have len: "length (is_control s) = is_level s + 1" using search_invD(3) [OF inv] by (simp add: control_ok_def)
  have all: "settled_to k' t' (is_watches s) s'" if "is_level s + 1 \<le> k'" for k' t'
    by (rule settled_pushed [OF s'(3) l(1,2), of "is_level s + 1" "length (is_trail s)"]) (use S P(2,3) that in \<open>simp_all add: settled_with_def\<close>)
  have low: "settled_to k (snd (is_control s ! k)) (is_watches s) s'" if "0 < k" "k \<le> is_level s" for k
    by (rule settled_pushed [OF s'(3) l(1,2), of k "snd (is_control s ! k)"]) (use S P(3) that in \<open>simp_all add: settled_with_def\<close>)
  have "settled_to k (snd (is_control s' ! k)) (is_watches s) s'" if "0 < k \<and> k \<le> is_level s'" for k
    using that all [of k] low [of k] s'(4,5) len by (cases "k = is_level s + 1") (auto simp: nth_append)
  then have "settled_with (is_watches s) s'" using all [of "is_level s' + 1"] s'(4) by (simp add: settled_with_def)
  moreover have "is_watches s' = is_watches s" using s'(3) by (simp add: pushed_def)
  ultimately have "prop_inv G s'" using s'(2) W pushed_watch_ok [OF s'(3)] by (simp add: prop_inv_def)
  moreover have "lit \<noteq> 0" using l(3) by (simp add: has_var_def)
  then have "decisions s' = decisions s @ [lit]" using s'(5) len by (cases "is_control s") (simp_all add: decisions_def)
  ultimately show ?thesis using that [OF s'(1)] s'(3-5) by simp
qed

lemma decision_inv:
  assumes P: "prop_inv G s" "is_conflict s = None" "is_propagated s = length (is_trail s)" "is_level s = 0"
    and l: "lit \<notin> set (is_trail s)" "- lit \<notin> set (is_trail s)" "has_var lit (is_ivars s)"
  obtains s' where "search_assume_decision lit s = Some s'" "prop_inv G s'" "pushed lit 1 None s s'" "is_level s' = 1" "decisions s' = [lit]"
proof -
  obtain s' where s': "search_assume_decision lit s = Some s'" "prop_inv G s'" "pushed lit (is_level s + 1) None s s'" "is_level s' = is_level s + 1"
      "decisions s' = decisions s @ [lit]"
    by (rule decision_step [OF P(1-3) l]) (rule that)
  have "length (is_control s) = 1" using search_invD(3) [of G s] P(1,4) by (simp add: control_ok_def prop_inv_def)
  then have "decisions s = []" by (cases "is_control s") (simp_all add: decisions_def)
  then show ?thesis using that [OF s'(1,2)] s'(3-5) P(4) by simp
qed

lemma propagate_nothing:
  assumes "is_conflict s = None" "is_propagated s = length (is_trail s)" "\<not> is_unsat s" "is_level s < length (is_control s)"
  shows "propagate s = Some (True, s\<lparr>is_heur := propagate_stats (is_propagated s) s\<rparr>)"
proof -
  have "prop_loop s = Some s" by (subst prop_loop.simps) (use assms in simp)
  then show ?thesis using assms by (simp add: propagate_def)
qed

text \<open>What the literals read off the trail are: consequences that were not known before, and all that unit propagation derives.\<close>

definition implicants :: "clause set \<Rightarrow> int \<Rightarrow> int list \<Rightarrow> bool" where
  "implicants G a ls =
     (distinct ls \<and>
      (\<forall>l \<in> set ls. l \<noteq> 0 \<and> l \<noteq> a \<and> - l \<noteq> a \<and> [l] \<notin> G \<and> (\<exists>c \<in> G. l \<in> set c) \<and> (\<forall>\<sigma>. sat_all \<sigma> G \<and> lit_true \<sigma> a \<longrightarrow> lit_true \<sigma> l)) \<and>
      (\<forall>l. up_derives G {a} l \<longrightarrow> l = a \<or> l \<in> set ls \<or> entails G [l]))"

lemma unit_represented:
  assumes inv: "search_inv G s" and r: "represented s [l]" "\<not> is_unsat s" "l \<noteq> 0"
  shows "l \<in> set (is_trail s)"
proof (rule ccontr)
  assume "l \<notin> set (is_trail s)"
  then obtain d where d: "d < length (is_clauses s)" "set (lits_at s d) \<subseteq> {l}" using r by (auto simp: represented_def)
  have ok: "distinct (lits_at s d)" "2 \<le> length (lits_at s d)" using search_invD(5) [OF inv d(1)] by (auto simp: clause_ok_def lits_at_def)
  then have "2 \<le> card (set (lits_at s d))" by (simp add: distinct_card)
  also have "\<dots> \<le> 1" using card_mono [OF _ d(2)] by simp
  finally show False by simp
qed

lemma idle_conflict:
  assumes P: "prop_inv G s" "clause_lits s \<subseteq> \<Union> (set ` G)" "is_level s \<noteq> 0" "\<not> is_unsat s" and r: "\<And>c. c \<in> G \<Longrightarrow> represented s c"
  shows "idle G (s\<lparr>is_conflict := None\<rparr>)"
proof -
  let ?s = "s\<lparr>is_conflict := None\<rparr>"
  have "search_inv G ?s" by (rule search_inv_conflict) (use P(1) in \<open>simp_all add: prop_inv_def\<close>)
  moreover have "watch_ok W ?s = watch_ok W s" for W by (rule watch_ok_same) simp_all
  ultimately have "level_inv G ?s"
    using prop_inv_level [OF P(1)] by (simp add: level_inv_def settled_to_def)
  then have "calm G ?s" using P(2-4) by (simp add: calm_def clause_lits_def)
  moreover have "represented ?s c" if "c \<in> G" for c using r [OF that] by (simp add: represented_def)
  ultimately show ?thesis by (simp add: idle_def)
qed

lemma assumption_propagates:
  assumes r: "at_root G t" "\<not> is_unsat t" and a: "has_var a (is_ivars t)" "is_vals t a = 0"
  obtains s1 ok s2 where "search_assume_decision a t = Some s1" "propagate s1 = Some (ok, s2)" "idle G (s2\<lparr>is_conflict := None\<rparr>)" "carries t s2"
    "\<And>\<sigma>. \<not> ok \<Longrightarrow> sat_all \<sigma> G \<Longrightarrow> \<not> lit_true \<sigma> a" "ok \<Longrightarrow> implicants G a (drop (length (is_trail s1)) (is_trail s2))"
proof -
  have i: "idle G t" "is_level t = 0" "is_conflict t = None" "is_propagated t = length (is_trail t)" using r by (simp_all add: at_root_def)
  have c: "calm G t" using i(1) by (simp add: idle_def)
  have P: "prop_inv G t" by (rule calmD(3) [OF c i(2)])
  have inv: "search_inv G t" using P by (simp add: prop_inv_def)
  have a0: "a \<noteq> 0" using a(1) by (simp add: has_var_def)
  have l: "a \<notin> set (is_trail t)" "- a \<notin> set (is_trail t)" using vals_iff(3) [OF search_invD(2) [OF inv] a0] a(2) by auto
  obtain s1 where s1: "search_assume_decision a t = Some s1" "prop_inv G s1" "pushed a 1 None t s1" "is_level s1 = 1" "decisions s1 = [a]"
    by (rule decision_inv [OF P i(3,4,2) l a(1)])
  have p: "is_trail s1 = is_trail t @ [a]" "\<not> is_unsat s1" "clause_lits s1 = clause_lits t"
    using s1(3) r(2) pushed_of(8) [OF s1(3)] by (simp_all add: pushed_def clause_lits_def)
  obtain ok s2 where s2: "propagate s1 = Some (ok, s2)" "prop_inv G s2" "grows_to s1 s2" "ok = (is_conflict s2 = None)"
      "ok \<Longrightarrow> is_propagated s2 = length (is_trail s2)"
    by (rule propagate_total [OF s1(2) p(2)]) (rule that)
  note D = grows_toD [OF s2(3)]
  have inv2: "search_inv G s2" using s2(2) by (simp add: prop_inv_def)
  note V = vals_okD [OF search_invD(2) [OF inv2]]
  have dec: "decisions s2 = [a]" using D(3) s1(5) by (simp add: decisions_def)
  have car: "carries t s2" by (rule carries_trans [OF pushed_carries [OF s1(3) l] grows_carries [OF s2(3)]])
  have rep: "represented s2 c" if "c \<in> G" for c using i(1) that carriesD(1) [OF car] by (simp add: idle_def)
  have lits: "clause_lits s2 \<subseteq> \<Union> (set ` G)" using grows_clause_lits [OF s2(3)] p(3) calmD(2) [OF c] by simp
  have idle: "idle G (s2\<lparr>is_conflict := None\<rparr>)"
    by (rule idle_conflict [OF s2(2) lits]) (use D(2,4) s1(4) p(2) rep in simp_all)
  let ?ls = "drop (length (is_trail s1)) (is_trail s2)"
  obtain rest where rest: "is_trail s2 = is_trail s1 @ rest" using D(1) by blast
  have "implicants G a ?ls" if ok: ok unfolding implicants_def
  proof (intro conjI ballI allI impI)
    show "distinct ?ls" using V(1) by simp
    fix k assume k: "k \<in> set ?ls"
    have k2: "k \<in> set (is_trail s2)" "k \<notin> set (is_trail s1)" using k rest V(1) by auto
    show "k \<noteq> 0" by (rule V(6) [OF k2(1)])
    show "k \<noteq> a" using k2(2) p(1) by auto
    show "- k \<noteq> a" using V(2) [OF k2(1)] rest p(1) by auto
    show "[k] \<notin> G"
    proof
      assume "[k] \<in> G"
      then have "k \<in> set (is_trail t)" using unit_represented [OF inv _ r(2) \<open>k \<noteq> 0\<close>] i(1) by (simp add: idle_def)
      then show False using k2(2) p(1) by simp
    qed
    have "k \<in> clause_lits s1" using D(14) [OF k2] by (auto simp: clause_lits_def)
    then show "\<exists>c \<in> G. k \<in> set c" using calmD(2) [OF c] p(3) by blast
    fix \<sigma> assume "sat_all \<sigma> G \<and> lit_true \<sigma> a"
    then show "lit_true \<sigma> k" using trail_implied [OF inv2 _ _ k2(1)] dec by simp
  next
    fix k assume u: "up_derives G {a} k"
    have "is_conflict s2 = None" "\<not> is_unsat s2" using ok s2(4) D(4) p(2) by auto
    then have "k \<in> set (is_trail s2)" using up_in_trail [OF s2(2) _ s2(5) _ rep _ u] ok rest p(1) by auto
    moreover have "entails G [k]" if "k \<in> set (is_trail t)" using root_true [OF inv i(2) that] by (simp add: entails_def)
    ultimately show "k = a \<or> k \<in> set ?ls \<or> entails G [k]" using rest p(1) by auto
  qed
  moreover have "\<not> lit_true \<sigma> a" if "\<not> ok" "sat_all \<sigma> G" for \<sigma>
    using conflict_refutes [OF inv2 _ that(2)] that(1) s2(4) dec by auto
  ultimately show ?thesis using that [OF s1(1) s2(1) idle car] by blast
qed

lemma idle_heur [simp]: "idle G (s\<lparr>is_heur := h\<rparr>) = idle G s"
proof -
  have "watch_ok W (s\<lparr>is_heur := h\<rparr>) = watch_ok W s" for W by (rule watch_ok_same) simp_all
  then show ?thesis by (simp add: idle_def calm_def level_inv_def settled_to_def represented_def clause_lits_def)
qed

lemma known_propagates:
  assumes r: "at_root G t" "\<not> is_unsat t" and a: "a \<in> set (is_trail t)"
  obtains s2 where "propagate t = Some (True, s2)" "idle G s2" "is_conflict s2 = None" "carries t s2" "is_trail s2 = is_trail t" "implicants G a []"
proof -
  have i: "idle G t" "is_level t = 0" "is_conflict t = None" "is_propagated t = length (is_trail t)" using r by (simp_all add: at_root_def)
  have P: "prop_inv G t" using i(1,2) by (simp add: idle_def calm_def)
  have inv: "search_inv G t" using P by (simp add: prop_inv_def)
  have "is_level t < length (is_control t)" using search_invD(3) [OF inv] by (simp add: control_ok_def)
  note run = propagate_nothing [OF i(3,4) r(2) this]
  have "k \<in> set (is_trail t)" if "up_derives G {a} k" for k
    using up_in_trail [OF P i(3,4) r(2) _ _ that] i(1) a by (auto simp: idle_def)
  then have "implicants G a []" using root_true [OF inv i(2)] by (auto simp: implicants_def entails_def)
  then show ?thesis using that [OF run] i(1,3) by (simp add: carries_def represented_def)
qed

theorem find_up_implicants_ok:
  assumes i: "idle G s" and a: "has_var a (is_ivars s)" and R: "\<And>c l. c \<in> set R \<Longrightarrow> l \<in> set c \<Longrightarrow> lit_ok s l"
    and sat: "R = [] \<or> (\<exists>\<sigma>. sat_all \<sigma> (set R \<union> G))"
  obtains ok ls s' where "find_up_implicants False [a] (flat_lits R) [] s = Some (ok, ls, s')" "idle (set R \<union> G) s'" "carries s s'"
    "\<And>\<sigma>. \<not> ok \<Longrightarrow> sat_all \<sigma> (set R \<union> G) \<Longrightarrow> \<not> lit_true \<sigma> a" "ok \<Longrightarrow> implicants (set R \<union> G) a ls"
proof -
  let ?H = "set R \<union> G"
  note goal = that
  have n: "0 < i_max_var (is_ivars s)" using a by (auto simp: has_var_def)
  obtain res t where t: "already_solved False s = Some (res, t)" "at_root G t" "carries s t" "res = (if is_unsat t then 20 else 0)"
      "i_max_var (is_ivars t) = i_max_var (is_ivars s)"
    by (rule already_solved_ok [OF i n])
  have refuted: "\<not> sat_all \<sigma> ?H" if "idle ?H u" "is_unsat u" for u \<sigma>
    by (rule search_invD(7) [OF _ that(2)]) (use that(1) in \<open>simp add: idle_def calm_def level_inv_def\<close>)
  show ?thesis
  proof (cases "is_unsat t")
    case True
    have u: "idle ?H t" using t(2) True calm_mono [of G t ?H] by (simp add: at_root_def idle_def represented_def)
    show ?thesis by (rule goal [OF _ u t(3), of False "[]"]) (use t(1,4) True refuted [OF u] in \<open>auto simp: find_up_implicants_def\<close>)
  next
    case ns: False
    have Rt: "lit_ok t l" if "c \<in> set R" "l \<in> set c" for c l by (rule carriesD(2) [OF t(3) R [OF that]])
    obtain res' u where u: "internal_restore_clauses (flat_lits R) t = Some (res', u)" "at_root ?H u" "carries t u" "res' = (if is_unsat u then 20 else 0)"
        "i_max_var (is_ivars u) = i_max_var (is_ivars t)"
      by (rule internal_restore_clauses_ok [OF t(2) ns Rt sat])
    have su: "carries s u" by (rule carries_trans [OF t(3) u(3)])
    have iu: "idle ?H u" using u(2) by (simp add: at_root_def)
    have run: "find_up_implicants False [a] (flat_lits R) [] s =
      (if is_unsat u then Some (False, [], u)
       else do { (go, s) \<leftarrow> decide_assumptions [a] u;
                 if \<not> go then Some (False, [], s)
                 else do { (ok, s') \<leftarrow> propagate s;
                           Some (ok, if ok then drop (length (is_trail s)) (is_trail s') else [], s'\<lparr>is_conflict := None\<rparr>) } })"
      using t(1,4) u(1,4) ns by (simp add: find_up_implicants_def Let_def)
    show ?thesis
    proof (cases "is_unsat u")
      case True
      show ?thesis by (rule goal [OF _ iu su, of False "[]"]) (use run True refuted [OF iu] in auto)
    next
      case nu: False
      have inv: "search_inv ?H u" using iu by (simp add: idle_def calm_def level_inv_def)
      have a': "has_var a (is_ivars u)" "a \<noteq> 0" using a t(5) u(5) by (auto simp: has_var_def)
      note V = vals_iff [OF search_invD(2) [OF inv] a'(2)]
      have lev: "is_level u = 0" using u(2) by (simp add: at_root_def)
      consider "is_vals u a < 0" | "is_vals u a > 0" | "is_vals u a = 0" by linarith
      then show ?thesis
      proof cases
        case 1
        have "\<not> lit_true \<sigma> a" if "sat_all \<sigma> ?H" for \<sigma> using root_true [OF inv lev _ that, of "- a"] V(2) 1 a'(2) by simp
        then show ?thesis by (intro goal [OF _ iu su, of False "[]"]) (use run nu 1 in simp_all)
      next
        case 2
        obtain v where v: "propagate u = Some (True, v)" "idle ?H v" "is_conflict v = None" "carries u v" "is_trail v = is_trail u" "implicants ?H a []"
          by (rule known_propagates [OF u(2) nu]) (use 2 V(1) in auto)
        have "v\<lparr>is_conflict := None\<rparr> = v" using v(3) by simp
        then show ?thesis
          by (intro goal [OF _ v(2) carries_trans [OF su v(4)], of True "[]"]) (use run nu 2 v in simp_all)
      next
        case 3
        obtain s1 ok s2 where s2: "search_assume_decision a u = Some s1" "propagate s1 = Some (ok, s2)" "idle ?H (s2\<lparr>is_conflict := None\<rparr>)" "carries u s2"
            "\<And>\<sigma>. \<not> ok \<Longrightarrow> sat_all \<sigma> ?H \<Longrightarrow> \<not> lit_true \<sigma> a" "ok \<Longrightarrow> implicants ?H a (drop (length (is_trail s1)) (is_trail s2))"
          by (rule assumption_propagates [OF u(2) nu a'(1) 3]) (rule that)
        have "carries s2 (s2\<lparr>is_conflict := None\<rparr>)" by (simp add: carries_def represented_def)
        then have car: "carries s (s2\<lparr>is_conflict := None\<rparr>)" using carries_trans su s2(4) by blast
        show ?thesis by (rule goal [OF _ s2(3) car, of ok "if ok then drop (length (is_trail s1)) (is_trail s2) else []"])
          (use run nu 3 s2(1,2,5,6) in simp_all)
      qed
    qed
  qed
qed

section \<open>From a new solver\<close>

definition internal_new :: "bool \<Rightarrow> nat \<Rightarrow> isearch" where
  "internal_new opt_phase opt_chrono =
     \<lparr>is_ivars = ivars_new, is_clauses = [], is_watches = (\<lambda>_. []), is_vals = (\<lambda>_. 0),
      is_vtab = (\<lambda>_. \<lparr>vr_level = 0, vr_trail = 0, vr_reason = None\<rparr>), is_trail = [], is_propagated = 0, is_level = 0,
      is_control = [(0, 0)], is_conflict = None, is_unsat = False, is_chrono = opt_chrono,
      is_heur = \<lparr>ph_saved = (\<lambda>_. if opt_phase then 1 else - 1), ph_target = (\<lambda>_. 0), ph_best = (\<lambda>_. 0), target_assigned = 0,
        best_assigned = 0, no_conflict_until = 0, propagated2 = 0, rephased = CHR 0x00, last_rephase = 0, stable_mode = False,
        lucky_phases = False, n_propagations = 0, n_conflicts = 0, n_stabconflicts = 0, n_backtracks = 0, freed = []\<rparr>\<rparr>"

definition internal_init_vars :: "nat \<Rightarrow> isearch \<Rightarrow> isearch option" where
  "internal_init_vars new_max_var s =
     (if new_max_var \<le> i_max_var (is_ivars s) then Some s
      else do { s \<leftarrow> to_root s; Some (s\<lparr>is_ivars := init_vars new_max_var (is_ivars s)\<rparr>) })"

lemma idle_new:
  assumes "stats_ok v"
  shows "idle {} ((internal_new ph ch)\<lparr>is_ivars := v\<rparr>)" "\<And>l. has_var l v \<Longrightarrow> flags_status l v = ACTIVE \<Longrightarrow> lit_ok ((internal_new ph ch)\<lparr>is_ivars := v\<rparr>) l"
proof -
  let ?s = "(internal_new ph ch)\<lparr>is_ivars := v\<rparr>"
  have "search_inv {} ?s" using assms by (simp add: search_inv_def vals_ok_def control_ok_def internal_new_def)
  then have "prop_inv {} ?s" by (simp add: prop_inv_def watch_ok_def settled_with_def settled_to_def internal_new_def)
  then show "idle {} ?s" using prop_inv_level [of "{}" ?s] by (simp add: idle_def calm_def internal_new_def clause_lits_def)
  show "lit_ok ?s l" if "has_var l v" "flags_status l v = ACTIVE" for l using that by (simp add: lit_ok_def)
qed

lemma clause_lit_ok:
  assumes inv: "search_inv G s" and r: "is_level s = 0" and l: "l \<in> clause_lits s"
  shows "lit_ok s l"
proof -
  obtain c where c: "c < length (is_clauses s)" "l \<in> set (lits_at s c)" using l by (auto simp: clause_lits_def)
  then have "has_var l (is_ivars s)" "is_vals s l = 0 \<longrightarrow> flags_status l (is_ivars s) = ACTIVE"
    using search_invD(5) [OF inv c(1)] by (auto simp: clause_ok_def lits_at_def)
  then show ?thesis using vals_iff(3) [OF search_invD(2) [OF inv], of l] root_level [OF search_invD(3) [OF inv] r, of l]
      root_level [OF search_invD(3) [OF inv] r, of "- l"] by (auto simp: lit_ok_def has_var_def)
qed

lemma idle_flags:
  assumes i: "idle G s" "is_level s = 0" and v: "stats_ok v" "i_max_var (is_ivars s) \<le> i_max_var v"
    "\<And>l. lit_ok s l \<Longrightarrow> flags_status l v = flags_status l (is_ivars s)"
  shows "idle G (s\<lparr>is_ivars := v\<rparr>)"
proof -
  let ?s = "s\<lparr>is_ivars := v\<rparr>"
  have P: "prop_inv G s" using i by (simp add: idle_def calm_def)
  have ok: "lit_ok s l" if "l \<in> clause_lits s" for l by (rule clause_lit_ok [of G, OF _ i(2) that]) (use P in \<open>simp add: prop_inv_def\<close>)
  have of: "level_of ?s = level_of s" "pos_of ?s = pos_of s" "reason_of ?s = reason_of s" "lits_at ?s = lits_at s"
    by (simp_all add: fun_eq_iff level_of_def pos_of_def reason_of_def lits_at_def)
  have hv: "has_var l v" if "has_var l (is_ivars s)" for l using that v(2) by (simp add: has_var_def)
  have "reason_ok G ?s l = reason_ok G s l" for l by (simp add: reason_ok_def implied_by_def of split: option.split)
  moreover have "clause_ok G ?s c" if c: "c \<in> set (is_clauses s)" "clause_ok G s c" for c
  proof -
    have "l \<in> clause_lits s" if "l \<in> set (ic_lits c)" for l using that c(1) by (auto simp: clause_lits_def lits_at_def in_set_conv_nth)
    then show ?thesis using c(2) v(3) [OF ok] hv by (simp add: clause_ok_def of)
  qed
  ultimately have "search_inv G ?s"
    using P v(1) hv by (auto simp: prop_inv_def search_inv_def vals_ok_def control_ok_def starts_level_def falsified_def of)
  moreover have "watch_ok W ?s = watch_ok W s" for W by (rule watch_ok_same) (simp_all add: of)
  ultimately have "prop_inv G ?s" using P by (simp add: prop_inv_def settled_with_def settled_to_def of)
  then show ?thesis using i prop_inv_level [of G ?s] by (simp add: idle_def calm_def clause_lits_def represented_def of)
qed

lemma internal_init_vars_ok:
  assumes i: "idle G s"
  obtains s' where "internal_init_vars n s = Some s'" "idle G s'" "carries s s'" "i_max_var (is_ivars s') = max n (i_max_var (is_ivars s))"
proof (cases "n \<le> i_max_var (is_ivars s)")
  case True
  then show ?thesis using that [of s] i carries_refl by (simp add: internal_init_vars_def)
next
  case False
  obtain t where t: "to_root s = Some t" "calm G t" "is_level t = 0" "prop_inv G t" "carries s t" "is_unsat t = is_unsat s" "is_ivars t = is_ivars s"
    by (rule to_root_ok) (use i in \<open>auto simp: idle_def\<close>)
  have it: "idle G t" using t(2) i carriesD(1) [OF t(5)] by (simp add: idle_def)
  let ?v = "init_vars n (is_ivars t)" and ?s = "t\<lparr>is_ivars := init_vars n (is_ivars t)\<rparr>"
  have st: "stats_ok (is_ivars t)" using t(4) by (simp add: prop_inv_def search_inv_def)
  have v: "i_max_var ?v = max n (i_max_var (is_ivars t))" using False t(7) by (simp add: init_vars_def Let_def)
  have fl: "flags_status l ?v = flags_status l (is_ivars t)" if "has_var l (is_ivars t)" for l
    using that st by (auto simp: init_vars_def flags_status_def has_var_def stats_ok_def nth_append Let_def)
  have ok: "lit_ok ?s l" if "lit_ok t l" for l
    using that fl v by (auto simp: lit_ok_def has_var_def level_of_def)
  have "idle G ?s" by (rule idle_flags [OF it t(3) stats_ok_init_vars [OF st]]) (use v fl in \<open>auto simp: lit_ok_def\<close>)
  moreover have "carries t ?s" using ok by (simp add: carries_def represented_def level_of_def lits_at_def)
  ultimately show ?thesis using that [of ?s] t(1,7) False v carries_trans [OF t(5)] by (simp add: internal_init_vars_def)
qed

text \<open>Decisions are only taken where everything is propagated, so a second unassigned assumption violates an assertion.\<close>

lemma two_assumptions:
  assumes r: "at_root G s" "\<not> is_unsat s" and a: "has_var a (is_ivars s)" "is_vals s a = 0" and b: "is_vals s b = 0" "b \<noteq> a" "b \<noteq> - a"
  shows "find_up_implicants False (a # b # A) [] ls s = None"
proof -
  have i: "idle G s" "is_level s = 0" "is_conflict s = None" "is_propagated s = length (is_trail s)" using r by (simp_all add: at_root_def)
  have P: "prop_inv G s" using i(1,2) by (simp add: idle_def calm_def)
  have inv: "search_inv G s" using P by (simp add: prop_inv_def)
  have ctl: "is_level s < length (is_control s)" using search_invD(3) [OF inv] by (simp add: control_ok_def)
  let ?t = "\<lambda>s. s\<lparr>is_heur := propagate_stats (is_propagated s) s\<rparr>"
  have once: "propagate s = Some (True, ?t s)" by (rule propagate_nothing [OF i(3,4) r(2) ctl])
  have twice: "propagate (?t s) = Some (True, ?t (?t s))" by (rule propagate_nothing) (use i r ctl in simp_all)
  let ?u = "?t (?t s)"
  have P': "prop_inv G ?u" using P by simp
  have a0: "a \<noteq> 0" using a(1) by (simp add: has_var_def)
  have l: "a \<notin> set (is_trail ?u)" "- a \<notin> set (is_trail ?u)" using vals_iff(3) [OF search_invD(2) [OF inv] a0] a(2) by auto
  obtain s1 where s1: "search_assume_decision a ?u = Some s1" "pushed a 1 None ?u s1"
    by (rule decision_inv [OF P' _ _ _ l]) (use i a in simp_all)
  have "is_vals s1 b = 0" using s1(2) b by (auto simp: pushed_def)
  moreover have "search_assume_decision b s1 = None" using s1(2) i(4) by (simp add: search_assume_decision_def pushed_def)
  ultimately have d: "decide_assumptions (a # b # A) ?u = None" using s1(1) a(2) by simp
  have "0 < i_max_var (is_ivars s)" using a(1) by (auto simp: has_var_def)
  then have "already_solved False s = Some (0, ?t s)" using r(2) i(2) once by (simp add: already_solved_def to_root_def)
  moreover have "internal_restore_clauses [] (?t s) = Some (0, ?u)" using r(2) twice by (simp add: internal_restore_clauses_def)
  ultimately show ?thesis using d by (simp add: find_up_implicants_def)
qed

end
