(* ===== verification/Cadical_Assume.thy ===== *)
theory Cadical_Assume
  imports Cadical_Implicants Cadical_External
begin

text \<open>
  \<open>lib/cadical/src/assume.cpp\<close> and \<open>constrain.cpp\<close>: assumptions, the constraint clause and the analysis of failed assumptions. When an assumption is
  falsified, \<open>failing\<close> walks backwards through the implication graph of the trail and marks the assumptions it reaches: together they
  contradict the formula. The search state is only read. The bits of the flags are sets of literals; \<open>analyzed\<close> is the
  rest of the working stack, the flags \<open>seen\<close> the list of the variables that were put on it.
\<close>

section \<open>Operations\<close>

record assumer =
  as_assumptions :: "int list"
  as_assumed :: "int set"
  as_failed :: "int set"
  as_frozen :: "nat \<Rightarrow> 32 word"
  as_marked_failed :: bool
  as_conflictsize :: nat
  as_constraint :: "int list"
  as_unsat_constraint :: bool

definition freeze_var :: "int \<Rightarrow> assumer \<Rightarrow> assumer" where
  "freeze_var lit a = a\<lparr>as_frozen := (as_frozen a)(nat \<bar>lit\<bar> := ref_up (as_frozen a (nat \<bar>lit\<bar>)))\<rparr>"

definition melt_var :: "int \<Rightarrow> assumer \<Rightarrow> assumer" where
  "melt_var lit a = a\<lparr>as_frozen := (as_frozen a)(nat \<bar>lit\<bar> := ref_down (as_frozen a (nat \<bar>lit\<bar>)))\<rparr>"

definition internal_assume :: "int \<Rightarrow> assumer \<Rightarrow> assumer" where
  "internal_assume lit a =
     (if lit \<in> as_assumed a then a
      else freeze_var lit (a\<lparr>as_assumed := insert lit (as_assumed a), as_assumptions := as_assumptions a @ [lit]\<rparr>))"

text \<open>The first falsified assumption at the root, the first that clashes with a decision, and the one of the smallest level.\<close>

fun pick_failed :: "isearch \<Rightarrow> int \<Rightarrow> int \<Rightarrow> nat \<Rightarrow> int list \<Rightarrow> int \<times> int \<times> int" where
  "pick_failed s clashing first lv [] = (0, clashing, first)"
| "pick_failed s clashing first lv (lit # lits) =
     (if is_vals s lit \<ge> 0 then pick_failed s clashing first lv lits
      else if level_of s lit = 0 then (lit, clashing, first)
      else if clashing \<noteq> 0 then pick_failed s clashing first lv lits
      else if reason_of s lit = None then pick_failed s lit first lv lits
      else if first = 0 \<or> level_of s lit < lv then pick_failed s clashing lit (level_of s lit) lits
      else pick_failed s clashing first lv lits)"

definition mark_failed :: "int \<Rightarrow> assumer \<Rightarrow> assumer option" where
  "mark_failed lit a =
     (if lit \<in> as_failed a then None
      else Some (a\<lparr>as_failed := insert lit (as_failed a), as_conflictsize := as_conflictsize a + 1\<rparr>))"

fun reason_lits :: "isearch \<Rightarrow> nat list \<Rightarrow> int list \<Rightarrow> (int list \<times> nat list) option" where
  "reason_lits s seen [] = Some ([], seen)"
| "reason_lits s seen (other # lits) =
     (if nat \<bar>other\<bar> \<in> set seen then reason_lits s seen lits
      else if \<not> is_vals s other < 0 then None
      else do { (new, seen) \<leftarrow> reason_lits s (nat \<bar>other\<bar> # seen) lits; Some (- other # new, seen) })"

partial_function (option) failing_loop :: "isearch \<Rightarrow> int list \<Rightarrow> nat list \<Rightarrow> assumer \<Rightarrow> assumer option" where
  [code]: "failing_loop s analyzed seen a =
     (case analyzed of
        [] \<Rightarrow> Some a
      | lit # analyzed \<Rightarrow>
          if \<not> is_vals s lit > 0 then None
          else if level_of s lit = 0 then failing_loop s analyzed seen a
          else (case reason_of s lit of
             Some c \<Rightarrow>
               if c \<ge> length (is_clauses s) then None
               else do { (new, seen) \<leftarrow> reason_lits s seen (lits_at s c); failing_loop s (analyzed @ new) seen a }
           | None \<Rightarrow>
               if lit \<notin> as_assumed a then None
               else do { a \<leftarrow> mark_failed lit a; failing_loop s analyzed seen a }))"

definition failing :: "isearch \<Rightarrow> assumer \<Rightarrow> assumer option" where
  "failing s a =
     (if as_unsat_constraint a
      then failing_loop s (map uminus (as_constraint a)) (map (\<lambda>l. nat \<bar>l\<bar>) (as_constraint a)) a
      else
        let (failed_unit, failed_clashing, first_failed) = pick_failed s 0 0 0 (as_assumptions a);
            failed = (if failed_unit \<noteq> 0 then failed_unit else if failed_clashing \<noteq> 0 then failed_clashing else first_failed)
        in if failed = 0 then None
           else
             do { a \<leftarrow> mark_failed failed a;
                  if failed_unit \<noteq> 0 then Some a
                  else if failed_clashing \<noteq> 0 then mark_failed (- failed) a
                  else failing_loop s [- first_failed] [nat \<bar>first_failed\<bar>] a })"

definition mark_on_demand :: "isearch \<Rightarrow> assumer \<Rightarrow> assumer option" where
  "mark_on_demand s a =
     (if as_marked_failed a then Some a else do { a \<leftarrow> failing s a; Some (a\<lparr>as_marked_failed := True\<rparr>) })"

definition internal_failed :: "int \<Rightarrow> isearch \<Rightarrow> assumer \<Rightarrow> (bool \<times> assumer) option" where
  "internal_failed lit s a = do { a \<leftarrow> mark_on_demand s a; Some (lit \<in> as_failed a, a) }"

definition internal_conflict_size :: "isearch \<Rightarrow> assumer \<Rightarrow> (nat \<times> assumer) option" where
  "internal_conflict_size s a = do { a \<leftarrow> mark_on_demand s a; Some (as_conflictsize a, a) }"

definition internal_reset_assumptions :: "assumer \<Rightarrow> assumer" where
  "internal_reset_assumptions a =
     (let a = fold (\<lambda>lit a. melt_var lit (a\<lparr>as_assumed := as_assumed a - {lit}, as_failed := as_failed a - {lit}\<rparr>)) (as_assumptions a) a
      in a\<lparr>as_assumptions := [], as_marked_failed := True\<rparr>)"

text \<open>The literals of the constraint that are neither repeated nor falsified, or that it is satisfied.\<close>

fun shrink_constraint :: "isearch \<Rightarrow> int list \<Rightarrow> int list \<Rightarrow> int list \<times> bool" where
  "shrink_constraint s kept [] = (kept, False)"
| "shrink_constraint s kept (lit # lits) =
     (if lit \<in> set kept then shrink_constraint s kept lits
      else if - lit \<in> set kept then (kept, True)
      else if is_vals s lit < 0 then shrink_constraint s kept lits
      else if is_vals s lit > 0 then (kept, True)
      else shrink_constraint s (kept @ [lit]) lits)"

definition internal_constrain :: "int \<Rightarrow> isearch \<times> assumer \<Rightarrow> (isearch \<times> assumer) option" where
  "internal_constrain lit sa =
     (case sa of (s, a) \<Rightarrow>
        if lit \<noteq> 0 then Some (s, a\<lparr>as_constraint := as_constraint a @ [lit]\<rparr>)
        else
          do { s \<leftarrow> to_root s;
               let (kept, satisfied) = shrink_constraint s [] (as_constraint a);
               Some (s, if satisfied then a\<lparr>as_constraint := []\<rparr>
                        else if kept = [] then a\<lparr>as_constraint := [], as_unsat_constraint := True\<rparr>
                        else fold freeze_var kept (a\<lparr>as_constraint := kept\<rparr>)) })"

definition internal_reset_constraint :: "assumer \<Rightarrow> assumer" where
  "internal_reset_constraint a = (fold melt_var (as_constraint a) a)\<lparr>as_constraint := [], as_unsat_constraint := False\<rparr>"

section \<open>Walking through the implication graph\<close>

abbreviation v_of :: "int \<Rightarrow> nat" where
  "v_of l \<equiv> nat \<bar>l\<bar>"

text \<open>A literal of the trail that needs no more work: a root literal, a marked decision, or one whose reason is already covered.\<close>

definition closed_at :: "isearch \<Rightarrow> nat list \<Rightarrow> assumer \<Rightarrow> int \<Rightarrow> bool" where
  "closed_at s seen a l =
     (level_of s l = 0 \<or> reason_of s l = None \<and> l \<in> as_failed a \<or>
      (\<exists>c. reason_of s l = Some c \<and> v_of ` set (lits_at s c) \<subseteq> set seen))"

lemma closed_mono: "closed_at s seen a l \<Longrightarrow> set seen \<subseteq> set seen' \<Longrightarrow> closed_at s seen' a l"
  unfolding closed_at_def by blast

definition walk :: "isearch \<Rightarrow> int list \<Rightarrow> nat list \<Rightarrow> assumer \<Rightarrow> bool" where
  "walk s todo seen a =
     (set todo \<subseteq> set (is_trail s) \<and> distinct (map v_of todo) \<and> v_of ` set todo \<subseteq> set seen \<and> set seen \<subseteq> v_of ` set (is_trail s) \<and>
      (\<forall>l \<in> set (is_trail s). v_of l \<in> set seen \<longrightarrow> l \<in> set todo \<or> closed_at s seen a l) \<and>
      v_of ` as_failed a \<subseteq> set seen \<and> as_failed a \<inter> set todo = {} \<and> finite (as_failed a) \<and> as_failed a \<subseteq> as_assumed a)"

lemma walkD:
  assumes "walk s todo seen a"
  shows "set todo \<subseteq> set (is_trail s)" "distinct (map v_of todo)" "v_of ` set todo \<subseteq> set seen" "set seen \<subseteq> v_of ` set (is_trail s)"
    "l \<in> set (is_trail s) \<Longrightarrow> v_of l \<in> set seen \<Longrightarrow> l \<in> set todo \<or> closed_at s seen a l"
    "v_of ` as_failed a \<subseteq> set seen" "as_failed a \<inter> set todo = {}" "finite (as_failed a)" "as_failed a \<subseteq> as_assumed a"
  using assms by (auto simp: walk_def)

definition marks :: "assumer \<Rightarrow> assumer \<Rightarrow> bool" where
  "marks a a' =
     (as_failed a \<subseteq> as_failed a' \<and> as_conflictsize a' + card (as_failed a) = as_conflictsize a + card (as_failed a') \<and>
      as_assumptions a' = as_assumptions a \<and> as_assumed a' = as_assumed a \<and> as_frozen a' = as_frozen a \<and>
      as_marked_failed a' = as_marked_failed a \<and> as_constraint a' = as_constraint a \<and> as_unsat_constraint a' = as_unsat_constraint a)"

lemma marks_refl: "marks a a"
  by (simp add: marks_def)

lemma marks_trans: "marks a b \<Longrightarrow> marks b c \<Longrightarrow> marks a c"
  unfolding marks_def by (elim conjE, intro conjI) (blast, linarith, simp_all)

lemma mark_failed_ok:
  assumes "lit \<notin> as_failed a" "finite (as_failed a)"
  obtains a' where "mark_failed lit a = Some a'" "marks a a'" "as_failed a' = insert lit (as_failed a)" "as_assumed a' = as_assumed a"
  by (rule that [of "a\<lparr>as_failed := insert lit (as_failed a), as_conflictsize := as_conflictsize a + 1\<rparr>"])
    (use assms in \<open>auto simp: mark_failed_def marks_def\<close>)

lemma reasonless_decision:
  assumes inv: "search_inv G s" and l: "l \<in> set (is_trail s)" "level_of s l \<noteq> 0" "reason_of s l = None"
  shows "l \<in> set (decisions s)"
proof -
  note c = search_invD(3) [OF inv]
  have "l = fst (is_control s ! level_of s l)" using search_invD(4) [OF inv l(1)] l(2,3) unfolding reason_ok_def by (simp only: option.case) blast
  moreover have "fst (is_control s ! level_of s l) \<in> set (decisions s)"
    by (rule decision_in [OF c]) (use l(1,2) c calculation vals_okD(6) [OF search_invD(2) [OF inv] l(1)] in \<open>auto simp: control_ok_def\<close>)
  ultimately show ?thesis by (rule ssubst)
qed

lemma reason_lits_ok:
  assumes v: "vals_ok s" and "\<And>k. k \<in> set lits \<Longrightarrow> v_of k \<notin> set seen \<Longrightarrow> - k \<in> set (is_trail s)"
  shows "\<exists>new seen'. reason_lits s seen lits = Some (new, seen') \<and> set seen' = set seen \<union> v_of ` set lits \<and> set new \<subseteq> set (is_trail s) \<and>
    distinct (map v_of new) \<and> v_of ` set new = v_of ` set lits - set seen"
  using assms(2)
proof (induction lits arbitrary: seen)
  case Nil
  then show ?case by simp
next
  case (Cons k lits)
  show ?case
  proof (cases "v_of k \<in> set seen")
    case True
    then show ?thesis using Cons.IH [of seen] Cons.prems by (auto simp: insert_absorb)
  next
    case False
    have f: "- k \<in> set (is_trail s)" using Cons.prems [of k] False by simp
    then have neg: "is_vals s k < 0" using vals_iff(2) [OF v, of k] vals_okD(6) [OF v f] by simp
    have "\<exists>new seen'. reason_lits s (v_of k # seen) lits = Some (new, seen') \<and> set seen' = set (v_of k # seen) \<union> v_of ` set lits \<and>
        set new \<subseteq> set (is_trail s) \<and> distinct (map v_of new) \<and> v_of ` set new = v_of ` set lits - set (v_of k # seen)"
      by (rule Cons.IH) (use Cons.prems in auto)
    then obtain new seen' where n: "reason_lits s (v_of k # seen) lits = Some (new, seen')" "set seen' = set (v_of k # seen) \<union> v_of ` set lits"
        "set new \<subseteq> set (is_trail s)" "distinct (map v_of new)" "v_of ` set new = v_of ` set lits - set (v_of k # seen)" by (elim exE conjE) (rule that)
    have "reason_lits s seen (k # lits) = Some (- k # new, seen')" using False neg n(1) by simp
    moreover have "v_of k \<notin> v_of ` set new" using n(5) by simp
    then have "distinct (map v_of (- k # new))" using n(4) by simp
    moreover have "v_of ` set (- k # new) = v_of ` set (k # lits) - set seen" using n(5) False by auto
    ultimately show ?thesis using n(2,3) f by auto
  qed
qed

lemma failing_loop_ok:
  assumes inv: "search_inv G s" and dec: "set (decisions s) \<subseteq> as_assumed a" and w: "walk s todo seen a"
  shows "\<exists>a' seen'. failing_loop s todo seen a = Some a' \<and> walk s [] seen' a' \<and> set seen \<subseteq> set seen' \<and> marks a a'"
  using dec w
proof (induction "card (v_of ` set (is_trail s) - set seen) + length todo" arbitrary: todo seen a rule: less_induct)
  case less
  note W = walkD [OF less.prems(2)]
  note V = vals_okD [OF search_invD(2) [OF inv]]
  show ?case
  proof (cases todo)
    case Nil
    then show ?thesis using less.prems(2) marks_refl by (subst failing_loop.simps) auto
  next
    case (Cons lit rest)
    have lt: "lit \<in> set (is_trail s)" "is_vals s lit > 0" "v_of lit \<in> set seen"
      using W(1,3) Cons vals_iff(1) [OF search_invD(2) [OF inv], of lit] V(6) [of lit] by auto
    have rest: "set rest \<subseteq> set (is_trail s)" "distinct (map v_of rest)" "v_of ` set rest \<subseteq> set seen" "v_of lit \<notin> v_of ` set rest" "lit \<notin> set rest"
      using W(1-3) Cons by auto
    have next_step: ?thesis
      if n: "failing_loop s todo seen a = failing_loop s todo' seen' b" "walk s todo' seen' b" "marks a b" "as_assumed b = as_assumed a"
        "card (v_of ` set (is_trail s) - set seen') + length todo' < card (v_of ` set (is_trail s) - set seen) + length todo"
        "set seen \<subseteq> set seen'" for todo' seen' b
    proof -
      have "set (decisions s) \<subseteq> as_assumed b" using less.prems(1) n(4) by simp
      then obtain a' seen2 where "failing_loop s todo' seen' b = Some a'" "walk s [] seen2 a'" "set seen' \<subseteq> set seen2" "marks b a'"
        using less.hyps [OF n(5) _ n(2)] by (elim meta_impE exE conjE) (assumption, rule that)
      then show ?thesis using n(1,6) marks_trans [OF n(3)] by auto
    qed
    have R: "reason_ok G s lit" by (rule search_invD(4) [OF inv lt(1)])
    consider "level_of s lit = 0" | "level_of s lit \<noteq> 0" "reason_of s lit = None" | c where "level_of s lit \<noteq> 0" "reason_of s lit = Some c"
      by (cases "reason_of s lit") auto
    then show ?thesis
    proof cases
      case 1
      have w: "walk s rest seen a" unfolding walk_def
      proof (intro conjI ballI impI)
        show "l \<in> set rest \<or> closed_at s seen a l" if "l \<in> set (is_trail s)" "v_of l \<in> set seen" for l
          using W(5) [OF that] Cons 1 by (auto simp: closed_at_def)
      qed (use W rest lt Cons in auto)
      have call: "failing_loop s todo seen a = failing_loop s rest seen a" using Cons lt(2) 1 by (subst failing_loop.simps) simp
      show ?thesis by (rule next_step [OF call w marks_refl]) (use Cons in simp_all)
    next
      case 2
      have as: "lit \<in> as_assumed a" using reasonless_decision [OF inv lt(1) 2] less.prems(1) by blast
      obtain b where b: "mark_failed lit a = Some b" "marks a b" "as_failed b = insert lit (as_failed a)" "as_assumed b = as_assumed a"
        by (rule mark_failed_ok [of lit a]) (use W(7,8) Cons in auto)
      have w: "walk s rest seen b" unfolding walk_def
      proof (intro conjI ballI impI)
        show "l \<in> set rest \<or> closed_at s seen b l" if "l \<in> set (is_trail s)" "v_of l \<in> set seen" for l
          using W(5) [OF that] Cons 2 b(3) by (auto simp: closed_at_def)
      qed (use W rest lt as Cons b in auto)
      have call: "failing_loop s todo seen a = failing_loop s rest seen b" using Cons lt(2) 2 as b(1) by (subst failing_loop.simps) simp
      show ?thesis by (rule next_step [OF call w b(2,4)]) (use Cons in simp_all)
    next
      case (3 c)
      have imp: "implied_by s c lit" using R 3(2) by (simp add: reason_ok_def)
      have c: "c < length (is_clauses s)" using imp by (simp add: implied_by_def)
      have "\<exists>new seen'. reason_lits s seen (lits_at s c) = Some (new, seen') \<and> set seen' = set seen \<union> v_of ` set (lits_at s c) \<and> set new \<subseteq> set (is_trail s) \<and>
          distinct (map v_of new) \<and> v_of ` set new = v_of ` set (lits_at s c) - set seen"
        by (rule reason_lits_ok [OF search_invD(2) [OF inv]]) (use imp lt(3) in \<open>auto simp: implied_by_def\<close>)
      then obtain new seen' where n: "reason_lits s seen (lits_at s c) = Some (new, seen')" "set seen' = set seen \<union> v_of ` set (lits_at s c)"
          "set new \<subseteq> set (is_trail s)" "distinct (map v_of new)" "v_of ` set new = v_of ` set (lits_at s c) - set seen" by (elim exE conjE) (rule that)
      have seen': "set seen' = set seen \<union> v_of ` set new" using n(2,5) by blast
      have call: "failing_loop s todo seen a = failing_loop s (rest @ new) seen' a"
        using Cons lt(2) 3 c n(1) by (subst failing_loop.simps) simp
      have w: "walk s (rest @ new) seen' a" unfolding walk_def
      proof (intro conjI ballI impI)
        show "set (rest @ new) \<subseteq> set (is_trail s)" using rest(1) n(3) by simp
        show "distinct (map v_of (rest @ new))" using rest(2,3) n(4,5) by auto
        show "v_of ` set (rest @ new) \<subseteq> set seen'" "set seen' \<subseteq> v_of ` set (is_trail s)" using rest(3) seen' W(4) n(3) by auto
        show "v_of ` as_failed a \<subseteq> set seen'" "finite (as_failed a)" "as_failed a \<subseteq> as_assumed a" using W(6,8,9) seen' by auto
        show "as_failed a \<inter> set (rest @ new) = {}" using W(6,7) n(5) Cons by auto
        show "l \<in> set (rest @ new) \<or> closed_at s seen' a l" if l: "l \<in> set (is_trail s)" "v_of l \<in> set seen'" for l
        proof (cases "v_of l \<in> set seen")
          case True
          have "closed_at s seen' a lit" using 3 n(2) by (auto simp: closed_at_def)
          then show ?thesis using W(5) [OF l(1) True] Cons closed_mono [of s seen a l seen'] n(2) by auto
        next
          case False
          then obtain k where k: "k \<in> set new" "v_of k = v_of l" using l(2) seen' by auto
          then have "k = l \<or> k = - l" by (simp add: eq_nat_nat_iff abs_eq_iff)
          then show ?thesis using k(1) n(3) V(2) [OF l(1)] by auto
        qed
      qed
      have less: "card (v_of ` set (is_trail s) - set seen') + length (rest @ new) < card (v_of ` set (is_trail s) - set seen) + length todo"
      proof -
        have "v_of ` set (is_trail s) - set seen = (v_of ` set (is_trail s) - set seen') \<union> v_of ` set new" using seen' image_mono [OF n(3), of v_of] n(5) by blast
        then have "card (v_of ` set (is_trail s) - set seen) = card (v_of ` set (is_trail s) - set seen') + card (v_of ` set new)"
          using seen' by (simp add: card_Un_disjoint Int_def)
        moreover have "card (v_of ` set new) = length new" using distinct_card [OF n(4)] by simp
        ultimately show ?thesis using Cons by simp
      qed
      show ?thesis by (rule next_step [OF call w marks_refl _ less]) (use n(2) in auto)
    qed
  qed
qed

lemma walk_true:
  assumes inv: "search_inv G s" and w: "walk s [] seen a" and \<sigma>: "sat_all \<sigma> G" "\<And>l. l \<in> as_failed a \<Longrightarrow> l \<in> set (is_trail s) \<Longrightarrow> lit_true \<sigma> l"
    and l: "l \<in> set (is_trail s)" "v_of l \<in> set seen"
  shows "lit_true \<sigma> l"
  using l
proof (induction "pos_of s l" arbitrary: l rule: less_induct)
  case less
  have R: "reason_ok G s l" by (rule search_invD(4) [OF inv less.prems(1)])
  have "closed_at s seen a l" using walkD(5) [OF w less.prems] by simp
  then consider "level_of s l = 0" | "l \<in> as_failed a" | c where "reason_of s l = Some c" "v_of ` set (lits_at s c) \<subseteq> set seen"
    by (auto simp: closed_at_def)
  then show ?case
  proof cases
    case 1
    then show ?thesis using R \<sigma>(1) by (simp add: reason_ok_def entails_def)
  next
    case 2
    then show ?thesis using \<sigma>(2) less.prems(1) by blast
  next
    case (3 c)
    have imp: "implied_by s c l" using R 3(1) by (simp add: reason_ok_def)
    then have "sat_clause \<sigma> (lits_at s c)" using search_invD(5) [OF inv, of c] \<sigma>(1) by (simp add: clause_ok_def entails_def lits_at_def implied_by_def)
    then obtain k where k: "k \<in> set (lits_at s c)" "lit_true \<sigma> k" by (auto simp: sat_clause_def)
    show ?thesis
    proof (cases "k = l")
      case False
      then have f: "- k \<in> set (is_trail s)" "pos_of s (- k) < pos_of s l" using imp k(1) by (auto simp: implied_by_def)
      have "lit_true \<sigma> (- k)" by (rule less.hyps [OF f(2,1)]) (use 3(2) k(1) in auto)
      then show ?thesis using k(2) vals_okD(6) [OF search_invD(2) [OF inv] f(1)] by simp
    qed (use k in simp)
  qed
qed

section \<open>Failed assumptions\<close>

definition picked :: "isearch \<Rightarrow> int list \<Rightarrow> int \<Rightarrow> int \<Rightarrow> int \<times> int \<times> int \<Rightarrow> bool" where
  "picked s lits clashing first r =
     (case r of (u, c, f) \<Rightarrow>
        (u = 0 \<or> u \<in> set lits \<and> is_vals s u < 0 \<and> level_of s u = 0) \<and>
        (c = clashing \<or> c \<in> set lits \<and> is_vals s c < 0 \<and> level_of s c \<noteq> 0 \<and> reason_of s c = None) \<and>
        (f = first \<or> f \<in> set lits \<and> is_vals s f < 0) \<and>
        (u = 0 \<and> c = 0 \<and> f = 0 \<longrightarrow> (\<forall>l \<in> set lits. is_vals s l \<ge> 0)) \<and> (c = 0 \<longrightarrow> clashing = 0) \<and> (f = 0 \<longrightarrow> first = 0))"

lemma pick_failed_ok: "0 \<notin> set lits \<Longrightarrow> picked s lits clashing first (pick_failed s clashing first lv lits)"
proof (induction lits arbitrary: clashing first lv)
  case (Cons l lits)
  have IH: "picked s lits c0 f0 (pick_failed s c0 f0 n lits)" for c0 f0 n using Cons by simp
  have l: "l \<noteq> 0" using Cons.prems by auto
  have more: "picked s (l # lits) clashing first r" if "picked s lits c0 f0 r" "is_vals s l < 0 \<Longrightarrow> c0 \<noteq> 0 \<or> f0 \<noteq> 0"
      "c0 = clashing \<or> clashing = 0 \<and> c0 = l \<and> is_vals s l < 0 \<and> level_of s l \<noteq> 0 \<and> reason_of s l = None"
      "f0 = first \<or> f0 = l \<and> is_vals s l < 0 " "f0 = 0 \<Longrightarrow> first = 0" for c0 f0 r
    using that(1,3-5) that(2) [unfolded not_le [symmetric]] l unfolding picked_def by (cases r) auto
  have "is_vals s l \<ge> 0 \<or> level_of s l = 0 \<and> is_vals s l < 0 \<or> is_vals s l < 0 \<and> level_of s l \<noteq> 0" by linarith
  then show ?case
  proof (elim disjE conjE)
    assume "is_vals s l \<ge> 0"
    then show ?thesis using more [OF IH [of clashing first lv]] by simp
  next
    assume a: "level_of s l = 0" "is_vals s l < 0"
    then show ?thesis using l by (simp add: picked_def)
  next
    assume a: "is_vals s l < 0" "level_of s l \<noteq> 0"
    then show ?thesis
      using more [OF IH [of clashing first lv]] more [OF IH [of l first lv]] more [OF IH [of clashing l "level_of s l"]] l by auto
  qed
qed (simp add: picked_def)

text \<open>What is marked as failed: assumptions that together contradict the formula, counted by \<open>conflictsize\<close>.\<close>

definition refuted_by :: "clause set \<Rightarrow> assumer \<Rightarrow> assumer \<Rightarrow> bool" where
  "refuted_by G a a' =
     (as_failed a' \<subseteq> as_assumed a \<and> (\<forall>\<sigma>. sat_all \<sigma> G \<longrightarrow> (\<exists>l \<in> as_failed a'. \<not> lit_true \<sigma> l)) \<and>
      as_conflictsize a' = as_conflictsize a + card (as_failed a') \<and> as_assumptions a' = as_assumptions a)"

theorem failing_ok:
  assumes inv: "search_inv G s" and dec: "set (decisions s) \<subseteq> as_assumed a"
    and a: "as_assumed a = set (as_assumptions a)" "as_failed a = {}" "\<not> as_unsat_constraint a" "0 \<notin> as_assumed a"
    and f: "l \<in> set (as_assumptions a)" "is_vals s l < 0"
  obtains a' where "failing s a = Some a'" "refuted_by G a a'"
proof -
  obtain u c g where p: "pick_failed s 0 0 0 (as_assumptions a) = (u, c, g)" by (metis surj_pair)
  have z: "0 \<notin> set (as_assumptions a)" using a(1,4) by simp
  have P: "u \<noteq> 0 \<Longrightarrow> u \<in> set (as_assumptions a) \<and> is_vals s u < 0 \<and> level_of s u = 0"
      "c \<noteq> 0 \<Longrightarrow> c \<in> set (as_assumptions a) \<and> is_vals s c < 0 \<and> level_of s c \<noteq> 0 \<and> reason_of s c = None"
      "g \<noteq> 0 \<Longrightarrow> g \<in> set (as_assumptions a) \<and> is_vals s g < 0" "u \<noteq> 0 \<or> c \<noteq> 0 \<or> g \<noteq> 0"
    using pick_failed_ok [OF z, of s 0 0 0] f unfolding p picked_def by fastforce+
  note V = search_invD(2) [OF inv]
  have neg: "- k \<in> set (is_trail s)" "k \<noteq> 0" if "k \<in> set (as_assumptions a)" "is_vals s k < 0" for k
    using vals_iff(2) [OF V, of k] that z by auto
  define x where "x = (if u \<noteq> 0 then u else if c \<noteq> 0 then c else g)"
  have x: "x \<noteq> 0" "x \<in> set (as_assumptions a)" "is_vals s x < 0" using P f by (auto simp: x_def split: if_splits)
  obtain b where b: "mark_failed x a = Some b" "marks a b" "as_failed b = {x}" "as_assumed b = as_assumed a"
    by (rule mark_failed_ok [of x a]) (use a(2) in auto)
  have run: "failing s a = (if u \<noteq> 0 then Some b else if c \<noteq> 0 then mark_failed (- x) b else failing_loop s [- g] [v_of g] b)"
    using a(3) p b(1) x(1) by (simp add: failing_def x_def Let_def)
  have size: "refuted_by G a a'" if "marks a a'" "as_failed a' \<subseteq> as_assumed a" "\<And>\<sigma>. sat_all \<sigma> G \<Longrightarrow> \<exists>l \<in> as_failed a'. \<not> lit_true \<sigma> l" for a'
    using that a(2) by (simp add: refuted_by_def marks_def)
  consider "u \<noteq> 0" | "u = 0" "c \<noteq> 0" | "u = 0" "c = 0" by blast
  then show ?thesis
  proof cases
    case 1
    have lev: "level_of s (- x) = 0" using P(1) [OF 1] 1 by (simp add: x_def)
    have "\<not> lit_true \<sigma> x" if "sat_all \<sigma> G" for \<sigma>
      using search_invD(4) [OF inv neg(1) [OF x(2,3)]] lev that x(1) by (simp add: reason_ok_def entails_def)
    then have "refuted_by G a b" by (intro size [OF b(2)]) (use b(3) x(2) a(1) in auto)
    then show ?thesis using that run 1 by simp
  next
    case 2
    have c: "level_of s (- x) \<noteq> 0" "reason_of s (- x) = None" using P(2) 2 by (simp_all add: x_def)
    have d: "- x \<in> as_assumed a" using reasonless_decision [OF inv neg(1) [OF x(2,3)] c] dec by blast
    obtain b' where b': "mark_failed (- x) b = Some b'" "marks b b'" "as_failed b' = {- x, x}"
      by (rule mark_failed_ok [of "- x" b]) (use b(3) x(1) in auto)
    have "\<not> lit_true \<sigma> (- x) \<or> \<not> lit_true \<sigma> x" for \<sigma> using x(1) by simp
    then have "refuted_by G a b'" by (intro size [OF marks_trans [OF b(2) b'(2)]]) (use b'(3) d x(2) a(1) in auto)
    then show ?thesis using that run 2 b'(1) by simp
  next
    case 3
    then have xg: "x = g" by (simp add: x_def)
    have w: "walk s [- g] [v_of g] b" unfolding walk_def
    proof (intro conjI ballI impI)
      show "k \<in> set [- g] \<or> closed_at s [v_of g] b k" if "k \<in> set (is_trail s)" "v_of k \<in> set [v_of g]" for k
      proof -
        have "k = g \<or> k = - g" using that(2) by (simp add: eq_nat_nat_iff abs_eq_iff)
        then show ?thesis using that(1) neg(1) [OF x(2,3)] vals_okD(2) [OF V that(1)] xg by auto
      qed
      show "set [v_of g] \<subseteq> v_of ` set (is_trail s)" using imageI [OF neg(1) [OF x(2,3)], of v_of] xg by simp
    qed (use neg(1) [OF x(2,3)] xg b x a(1) in auto)
    obtain a' seen' where a': "failing_loop s [- g] [v_of g] b = Some a'" "walk s [] seen' a'" "set [v_of g] \<subseteq> set seen'" "marks b a'"
      using failing_loop_ok [OF inv _ w] dec b(4) by auto
    have "\<exists>k \<in> as_failed a'. \<not> lit_true \<sigma> k" if s: "sat_all \<sigma> G" for \<sigma>
    proof (rule ccontr)
      assume n: "\<not> ?thesis"
      have "lit_true \<sigma> (- g)" by (rule walk_true [OF inv a'(2) s]) (use n a'(3) neg(1) [OF x(2,3)] xg in auto)
      moreover have "g \<in> as_failed a'" using a'(4) b(3) xg by (auto simp: marks_def)
      ultimately show False using n x(1) xg by auto
    qed
    moreover have "as_assumed a' = as_assumed a" using a'(4) b(4) by (simp add: marks_def)
    then have "as_failed a' \<subseteq> as_assumed a" using walkD(9) [OF a'(2)] by simp
    ultimately have "refuted_by G a a'" by (intro size [OF marks_trans [OF b(2) a'(4)]]) auto
    then show ?thesis using that run 3 a'(1) by simp
  qed
qed

lemma failing_constraint_ok:
  assumes inv: "search_inv G s" and dec: "set (decisions s) \<subseteq> as_assumed a" and a: "as_failed a = {}" "as_unsat_constraint a"
    and c: "distinct (map v_of (as_constraint a))" "\<And>l. l \<in> set (as_constraint a) \<Longrightarrow> - l \<in> set (is_trail s)"
  obtains a' where "failing s a = Some a'" "as_failed a' \<subseteq> as_assumed a"
    "\<And>\<sigma>. sat_all \<sigma> G \<Longrightarrow> (\<And>l. l \<in> as_failed a' \<Longrightarrow> lit_true \<sigma> l) \<Longrightarrow> \<not> sat_clause \<sigma> (as_constraint a)"
proof -
  let ?c = "as_constraint a"
  note V = search_invD(2) [OF inv]
  have "walk s (map uminus ?c) (map v_of ?c) a" unfolding walk_def
  proof (intro conjI ballI impI)
    show "l \<in> set (map uminus ?c) \<or> closed_at s (map v_of ?c) a l" if l: "l \<in> set (is_trail s)" "v_of l \<in> set (map v_of ?c)" for l
    proof -
      obtain k where k: "k \<in> set ?c" "v_of k = v_of l" using l(2) by auto
      then have "k = l \<or> k = - l" by (simp add: eq_nat_nat_iff abs_eq_iff)
      then have "l = - k" using c(2) [OF k(1)] vals_okD(2) [OF V l(1)] by auto
      then show ?thesis using k(1) by simp
    qed
    have "v_of l \<in> v_of ` set (is_trail s)" if "l \<in> set ?c" for l using imageI [OF c(2) [OF that], of v_of] by simp
    then show "set (map v_of ?c) \<subseteq> v_of ` set (is_trail s)" by auto
    show "distinct (map v_of (map uminus ?c))" using c(1) by (simp add: comp_def)
  qed (use c(2) a(1) in \<open>auto simp: image_image\<close>)
  then obtain a' seen' where a': "failing_loop s (map uminus ?c) (map v_of ?c) a = Some a'" "walk s [] seen' a'" "set (map v_of ?c) \<subseteq> set seen'" "marks a a'"
    using failing_loop_ok [OF inv dec] by blast
  have "\<not> lit_true \<sigma> l" if s: "sat_all \<sigma> G" "\<And>l. l \<in> as_failed a' \<Longrightarrow> lit_true \<sigma> l" and l: "l \<in> set ?c" for \<sigma> l
  proof -
    have "lit_true \<sigma> (- l)" by (rule walk_true [OF inv a'(2) s(1) s(2) c(2) [OF l]]) (use a'(3) l in auto)
    then show ?thesis using vals_okD(6) [OF V c(2) [OF l]] by simp
  qed
  then have "\<not> sat_clause \<sigma> ?c" if "sat_all \<sigma> G" "\<And>l. l \<in> as_failed a' \<Longrightarrow> lit_true \<sigma> l" for \<sigma>
    using that unfolding sat_clause_def by blast
  moreover have "failing s a = Some a'" using a'(1) a(2) by (simp add: failing_def)
  moreover have "as_failed a' \<subseteq> as_assumed a" using walkD(9) [OF a'(2)] a'(4) by (simp add: marks_def)
  ultimately show ?thesis using that by blast
qed

section \<open>Assumptions and the constraint\<close>

definition assumer_ok :: "assumer \<Rightarrow> bool" where
  "assumer_ok a = (as_assumed a = set (as_assumptions a) \<and> distinct (as_assumptions a) \<and> as_failed a \<subseteq> as_assumed a)"

lemma internal_assume_ok:
  "assumer_ok a \<Longrightarrow> assumer_ok (internal_assume l a) \<and> as_assumed (internal_assume l a) = insert l (as_assumed a)"
  by (auto simp: assumer_ok_def internal_assume_def freeze_var_def)

lemma reset_fold:
  "as_assumed (fold (\<lambda>lit a. melt_var lit (a\<lparr>as_assumed := as_assumed a - {lit}, as_failed := as_failed a - {lit}\<rparr>)) ls a) = as_assumed a - set ls"
  "as_failed (fold (\<lambda>lit a. melt_var lit (a\<lparr>as_assumed := as_assumed a - {lit}, as_failed := as_failed a - {lit}\<rparr>)) ls a) = as_failed a - set ls"
  by (induction ls arbitrary: a) (auto simp: melt_var_def)

lemma internal_reset_assumptions_ok:
  "assumer_ok a \<Longrightarrow> assumer_ok (internal_reset_assumptions a) \<and> as_assumed (internal_reset_assumptions a) = {} \<and> as_failed (internal_reset_assumptions a) = {}"
  using reset_fold [of "as_assumptions a" a] by (auto simp: assumer_ok_def internal_reset_assumptions_def Let_def)

lemma shrink_constraint_ok:
  assumes "shrink_constraint s kept ls = (kept', sat)" "distinct (map v_of kept)" "\<forall>l \<in> set kept. is_vals s l = 0"
  shows "distinct (map v_of kept') \<and> (\<forall>l \<in> set kept'. is_vals s l = 0) \<and> set kept \<subseteq> set kept' \<and> set kept' \<subseteq> set kept \<union> set ls \<and>
    (if sat then \<exists>l \<in> set kept \<union> set ls. is_vals s l > 0 \<or> - l \<in> set kept \<union> set ls else \<forall>l \<in> set ls. is_vals s l < 0 \<or> l \<in> set kept')"
  using assms
proof (induction ls arbitrary: kept)
  case (Cons l ls)
  consider "l \<in> set kept" | "l \<notin> set kept" "- l \<in> set kept" | "l \<notin> set kept" "- l \<notin> set kept" "is_vals s l < 0"
    | "l \<notin> set kept" "- l \<notin> set kept" "is_vals s l > 0" | "l \<notin> set kept" "- l \<notin> set kept" "is_vals s l = 0" by linarith
  then show ?case
  proof cases
    case 1
    then show ?thesis using Cons.IH [of kept] Cons.prems by (auto split: if_splits)
  next
    case 2
    then show ?thesis using Cons.prems by auto
  next
    case 3
    then show ?thesis using Cons.IH [of kept] Cons.prems by (auto split: if_splits)
  next
    case 4
    then show ?thesis using Cons.prems by auto
  next
    case 5
    have "v_of l \<notin> v_of ` set kept" using other_var [OF _ 5(1,2)] by (auto dest: sym)
    then show ?thesis using Cons.IH [of "kept @ [l]"] Cons.prems 5 by (auto split: if_splits)
  qed
qed auto

lemma fold_freeze [simp]:
  "as_constraint (fold freeze_var ls a) = as_constraint a" "as_unsat_constraint (fold freeze_var ls a) = as_unsat_constraint a"
  "as_assumptions (fold freeze_var ls a) = as_assumptions a"
  by (induction ls arbitrary: a) (simp_all add: freeze_var_def)

text \<open>Closing the constraint keeps its meaning: an empty constraint afterwards is one that holds, unless it is marked as failed.\<close>

lemma internal_constrain_ok:
  assumes s: "calm G s" and a: "0 \<notin> set (as_constraint a)" "\<not> as_unsat_constraint a"
  obtains s' a' where "internal_constrain 0 (s, a) = Some (s', a')" "calm G s'" "carries s s'" "as_assumptions a' = as_assumptions a"
    "\<And>\<sigma>. sat_all \<sigma> G \<Longrightarrow> sat_clause \<sigma> (as_constraint a) \<longleftrightarrow>
       \<not> as_unsat_constraint a' \<and> (as_constraint a' = [] \<or> sat_clause \<sigma> (as_constraint a'))"
proof -
  let ?c = "as_constraint a"
  obtain t where t: "to_root s = Some t" "calm G t" "is_level t = 0" "prop_inv G t" "carries s t" by (rule to_root_ok [OF s])
  have inv: "search_inv G t" using t(4) by (simp add: prop_inv_def)
  obtain kept sat where k: "shrink_constraint t [] ?c = (kept, sat)" by (metis surj_pair)
  have K: "set kept \<subseteq> set ?c" "sat \<Longrightarrow> \<exists>l \<in> set ?c. is_vals t l > 0 \<or> - l \<in> set ?c" "\<not> sat \<Longrightarrow> \<forall>l \<in> set ?c. is_vals t l < 0 \<or> l \<in> set kept"
    using shrink_constraint_ok [OF k] by (auto split: if_splits)
  have V: "lit_true \<sigma> l" if "is_vals t l > 0" "l \<in> set ?c" "sat_all \<sigma> G" for l \<sigma>
    using root_true [OF inv t(3) _ that(3)] vals_iff(1) [OF search_invD(2) [OF inv], of l] that(1,2) a(1) by auto
  have N: "\<not> lit_true \<sigma> l" if "is_vals t l < 0" "l \<in> set ?c" "sat_all \<sigma> G" for l \<sigma>
  proof -
    have "l \<noteq> 0" using that(2) a(1) by auto
    then show ?thesis using root_true [OF inv t(3) _ that(3), of "- l"] vals_iff(2) [OF search_invD(2) [OF inv], of l] that(1) by simp
  qed
  let ?a = "if sat then a\<lparr>as_constraint := []\<rparr> else if kept = [] then a\<lparr>as_constraint := [], as_unsat_constraint := True\<rparr>
      else fold freeze_var kept (a\<lparr>as_constraint := kept\<rparr>)"
  have run: "internal_constrain 0 (s, a) = Some (t, ?a)" using t(1) k by (simp add: internal_constrain_def)
  have mean: "sat_clause \<sigma> ?c \<longleftrightarrow> \<not> as_unsat_constraint ?a \<and> (as_constraint ?a = [] \<or> sat_clause \<sigma> (as_constraint ?a))" if g: "sat_all \<sigma> G" for \<sigma>
  proof (cases sat)
    case True
    then obtain l where l: "l \<in> set ?c" "is_vals t l > 0 \<or> - l \<in> set ?c" using K(2) by blast
    have "l \<noteq> 0" using l(1) a(1) by auto
    then have "lit_true \<sigma> l \<or> lit_true \<sigma> (- l)" by simp
    then have "sat_clause \<sigma> ?c" using l V [OF _ l(1) g] by (auto simp: sat_clause_def)
    then show ?thesis using True a(2) by simp
  next
    case False
    then have "sat_clause \<sigma> ?c \<longleftrightarrow> sat_clause \<sigma> kept" using K(1,3) N [OF _ _ g] unfolding sat_clause_def by blast
    then show ?thesis using False a(2) by (auto simp: sat_clause_def)
  qed
  show ?thesis by (rule that [OF run t(2,5) _ mean]) simp_all
qed

end
