(* ===== verification/Cadical_Decide.thy ===== *)
theory Cadical_Decide
  imports Cadical_Assume
begin

text \<open>
  \<open>Internal::decide\<close> of \<open>lib/cadical/src/decide.cpp\<close>: the assumptions are decided first, one level for each, then a literal of the constraint. An
  assumption that holds already, and a constraint that is satisfied already, gets a level without decision. The literal that the decision
  heuristics pick when assumptions and constraint are dealt with is an argument.
\<close>

section \<open>Operations\<close>

definition pseudo_level :: "isearch \<Rightarrow> isearch" where
  "pseudo_level s = s\<lparr>is_level := is_level s + 1, is_control := is_control s @ [(0, length (is_trail s))]\<rparr>"

definition search_satisfied :: "isearch \<Rightarrow> assumer \<Rightarrow> bool" where
  "search_satisfied s a =
     (\<not> is_propagated s < length (is_trail s) \<and>
      \<not> is_level s < length (as_assumptions a) + (if as_constraint a \<noteq> [] then 1 else 0) \<and>
      length (is_trail s) = i_max_var (is_ivars s))"

text \<open>Whether a literal of the constraint is true, and the first unassigned one.\<close>

fun constraint_lit :: "isearch \<Rightarrow> int \<Rightarrow> int list \<Rightarrow> bool \<times> int" where
  "constraint_lit s unassigned_lit [] = (False, unassigned_lit)"
| "constraint_lit s unassigned_lit (lit # lits) =
     (let tmp = is_vals s lit
      in if tmp < 0 then constraint_lit s unassigned_lit lits
         else if tmp > 0 then (True, unassigned_lit)
         else constraint_lit s (if unassigned_lit = 0 then lit else unassigned_lit) lits)"

definition decide_assumption :: "isearch \<Rightarrow> assumer \<Rightarrow> (nat \<times> isearch \<times> assumer) option" where
  "decide_assumption s a =
     (let lit = as_assumptions a ! is_level s; tmp = is_vals s lit
      in if lit \<notin> as_assumed a then None
         else if tmp < 0 then Some (20, s, a)
         else if tmp > 0 then Some (0, pseudo_level s, a)
         else do { s \<leftarrow> search_assume_decision lit s; Some (0, s, a) })"

definition decide_constraint :: "isearch \<Rightarrow> assumer \<Rightarrow> (nat \<times> isearch \<times> assumer) option" where
  "decide_constraint s a =
     (let (satisfied_constraint, unassigned_lit) = constraint_lit s 0 (as_constraint a)
      in if satisfied_constraint then Some (0, pseudo_level s, a)
         else if unassigned_lit \<noteq> 0 then do { s \<leftarrow> search_assume_decision unassigned_lit s; Some (0, s, a) }
         else Some (20, s, a\<lparr>as_unsat_constraint := True\<rparr>))"

definition decide :: "int \<Rightarrow> isearch \<Rightarrow> assumer \<Rightarrow> (nat \<times> isearch \<times> assumer) option" where
  "decide decision s a =
     (if search_satisfied s a then None
      else
        do { (res, s, a) \<leftarrow>
               (if is_level s < length (as_assumptions a) then decide_assumption s a
                else if is_level s = length (as_assumptions a) \<and> as_constraint a \<noteq> [] then decide_constraint s a
                else do { s \<leftarrow> search_assume_decision decision s; Some (0, s, a) });
             Some (res, s, if res \<noteq> 0 then a\<lparr>as_marked_failed := False\<rparr> else a) })"

section \<open>A level without decision\<close>

lemma pseudo_level_simps [simp]:
  "is_trail (pseudo_level s) = is_trail s" "is_vals (pseudo_level s) = is_vals s" "level_of (pseudo_level s) = level_of s" "pos_of (pseudo_level s) = pos_of s"
  "reason_of (pseudo_level s) = reason_of s" "is_clauses (pseudo_level s) = is_clauses s" "lits_at (pseudo_level s) = lits_at s" "is_watches (pseudo_level s) = is_watches s"
  "is_ivars (pseudo_level s) = is_ivars s" "is_conflict (pseudo_level s) = is_conflict s" "is_unsat (pseudo_level s) = is_unsat s" "is_chrono (pseudo_level s) = is_chrono s"
  "is_propagated (pseudo_level s) = is_propagated s" "is_level (pseudo_level s) = is_level s + 1"
  "is_control (pseudo_level s) = is_control s @ [(0, length (is_trail s))]"
  by (simp_all add: pseudo_level_def fun_eq_iff level_of_def pos_of_def reason_of_def lits_at_def)

lemma pseudo_level_control:
  assumes c: "control_ok s" and p: "is_propagated s = length (is_trail s)"
  shows "control_ok (pseudo_level s)"
proof -
  have len: "length (is_control s) = is_level s + 1" and lev: "\<forall>l \<in> set (is_trail s). level_of s l \<le> is_level s" using c by (simp_all add: control_ok_def)
  have low: "level_of s (is_trail s ! i) < is_level s + 1" if "i < length (is_trail s)" for i using lev nth_mem [OF that] by (simp add: less_Suc_eq_le)
  have st: "starts_level (pseudo_level s) k ((is_control s @ [(0, length (is_trail s))]) ! k)" if k: "0 < k" "k \<le> is_level s + 1" for k
  proof (cases "k = is_level s + 1")
    case True
    then show ?thesis using len p low by (simp add: nth_append starts_level_def)
  next
    case False
    then have "starts_level s k (is_control s ! k)" using c k by (simp add: control_ok_def)
    then show ?thesis using False k len by (simp add: nth_append starts_level_def)
  qed
  have "level_of s l \<le> is_level s + 1" if "l \<in> set (is_trail s)" for l using lev that by (simp add: le_SucI)
  then show ?thesis unfolding control_ok_def using len p st opened_sorted [OF c] by simp
qed

lemma pseudo_level_inv:
  assumes P: "prop_inv G s" "is_conflict s = None" "is_propagated s = length (is_trail s)"
  shows "prop_inv G (pseudo_level s)" "decisions (pseudo_level s) = decisions s"
proof -
  have inv: "search_inv G s" and W: "watch_ok (is_watches s) s" and S: "settled_with (is_watches s) s" using P(1) by (simp_all add: prop_inv_def)
  note I = search_invD [OF inv]
  have len: "length (is_control s) = is_level s + 1" using I(3) by (simp add: control_ok_def)
  have "reason_ok G (pseudo_level s) l" if "l \<in> set (is_trail s)" for l
  proof -
    have "level_of s l \<le> is_level s" using I(3) that by (simp add: control_ok_def)
    then show ?thesis using I(4) [OF that] len by (auto simp: reason_ok_def implied_by_def nth_append split: option.splits)
  qed
  then have "search_inv G (pseudo_level s)"
    using inv pseudo_level_control [OF I(3) P(3)] P(2) by (simp add: search_inv_def vals_ok_def clause_ok_def)
  moreover have "watch_ok (is_watches s) (pseudo_level s)" using W watch_ok_same [of "pseudo_level s" s] by simp
  moreover have "settled_with (is_watches s) (pseudo_level s)"
  proof -
    have st: "settled_to k t (is_watches s) (pseudo_level s) = settled_to k t (is_watches s) s" for k t by (simp add: settled_to_def)
    have top: "settled_to (is_level s + 1) (length (is_trail s)) (is_watches s) s" using S P(2) by (simp add: settled_with_def)
    then have "settled_to (is_level s + 2) (length (is_trail s)) (is_watches s) s" unfolding settled_to_def using less_SucI by fastforce
    moreover have "settled_to k (snd (is_control (pseudo_level s) ! k)) (is_watches s) s" if k: "0 < k" "k \<le> is_level s + 1" for k
      using S k len top by (cases "k = is_level s + 1") (simp_all add: settled_with_def nth_append)
    ultimately show ?thesis by (simp add: settled_with_def st)
  qed
  ultimately show "prop_inv G (pseudo_level s)" by (simp add: prop_inv_def)
  show "decisions (pseudo_level s) = decisions s" using len by (cases "is_control s") (simp_all add: decisions_def)
qed

section \<open>Deciding keeps the invariant\<close>

text \<open>Between propagation and the next decision: the levels of the assumptions are opened by assumptions or by nothing.\<close>

definition deciding :: "clause set \<Rightarrow> isearch \<Rightarrow> assumer \<Rightarrow> bool" where
  "deciding G s a =
     (prop_inv G s \<and> is_conflict s = None \<and> as_assumed a = set (as_assumptions a) \<and>
      (\<forall>l \<in> set (as_assumptions a) \<union> set (as_constraint a). has_var l (is_ivars s)) \<and>
      (\<forall>k. 0 < k \<and> k \<le> is_level s \<and> k \<le> length (as_assumptions a) \<longrightarrow> fst (is_control s ! k) \<in> insert 0 (set (as_assumptions a))))"

lemma assumption_levels:
  assumes "deciding G s a" "is_level s \<le> length (as_assumptions a)"
  shows "set (decisions s) \<subseteq> as_assumed a"
proof
  fix d assume d: "d \<in> set (decisions s)"
  have len: "length (is_control s) = is_level s + 1" using assms(1) by (simp add: deciding_def prop_inv_def search_inv_def control_ok_def)
  obtain i where i: "i < length (tl (is_control s))" "d = fst (tl (is_control s) ! i)" "d \<noteq> 0"
    using d by (auto simp: decisions_def in_set_conv_nth)
  then have "d = fst (is_control s ! (i + 1))" "i + 1 \<le> is_level s" using len nth_tl [OF i(1)] by simp_all
  then have "d \<in> insert 0 (set (as_assumptions a))" using assms unfolding deciding_def by (metis le_trans zero_less_Suc Suc_eq_plus1)
  then show "d \<in> as_assumed a" using assms(1) i(3) by (simp add: deciding_def)
qed

lemma deciding_control:
  assumes "deciding G s a" "prop_inv G s'" "is_conflict s' = None" "i_max_var (is_ivars s') = i_max_var (is_ivars s)"
    "is_level s' = is_level s + 1" "is_control s' = is_control s @ [(d, length (is_trail s))]"
    "is_level s < length (as_assumptions a) \<Longrightarrow> d \<in> insert 0 (set (as_assumptions a))"
  shows "deciding G s' a"
proof -
  have len: "length (is_control s) = is_level s + 1" using assms(1) by (simp add: deciding_def prop_inv_def search_inv_def control_ok_def)
  have "fst (is_control s' ! k) \<in> insert 0 (set (as_assumptions a))" if k: "0 < k" "k \<le> is_level s'" "k \<le> length (as_assumptions a)" for k
  proof (cases "k = is_level s + 1")
    case True
    then show ?thesis using assms(6,7) k len by (simp add: nth_append)
  next
    case False
    then show ?thesis using assms(1,5,6) k len by (simp add: nth_append deciding_def)
  qed
  then show ?thesis using assms(1-4) by (simp add: deciding_def has_var_def)
qed

lemma constraint_lit_ok:
  assumes "constraint_lit s u lits = (b, v)"
  shows "\<not> b \<Longrightarrow> v = 0 \<Longrightarrow> u = 0 \<Longrightarrow> 0 \<notin> set lits \<Longrightarrow> \<forall>l \<in> set lits. is_vals s l < 0" "v \<noteq> 0 \<Longrightarrow> v = u \<or> v \<in> set lits \<and> is_vals s v = 0"
    "b \<Longrightarrow> \<exists>l \<in> set lits. is_vals s l > 0"
proof -
  have keep: "constraint_lit s u ls = (c, w) \<Longrightarrow> \<not> c \<Longrightarrow> u \<noteq> 0 \<Longrightarrow> w = u" for u ls c w
    by (induction ls) (auto simp: Let_def split: if_splits)
  show "\<not> b \<Longrightarrow> v = 0 \<Longrightarrow> u = 0 \<Longrightarrow> 0 \<notin> set lits \<Longrightarrow> \<forall>l \<in> set lits. is_vals s l < 0"
    using assms by (induction lits arbitrary: u) (auto simp: Let_def split: if_splits dest: keep)
  show "v \<noteq> 0 \<Longrightarrow> v = u \<or> v \<in> set lits \<and> is_vals s v = 0"
    using assms by (induction lits arbitrary: u) (fastforce simp: Let_def split: if_splits)+
  show "b \<Longrightarrow> \<exists>l \<in> set lits. is_vals s l > 0"
    using assms by (induction lits arbitrary: u) (auto simp: Let_def split: if_splits)
qed

lemma deciding_level:
  assumes D: "deciding G s a" and p: "is_propagated s = length (is_trail s)"
  shows "deciding G (pseudo_level s) a"
  by (rule deciding_control [OF D, of _ 0]) (use D pseudo_level_inv(1) [of G s] p in \<open>simp_all add: deciding_def\<close>)

lemma deciding_decision:
  assumes D: "deciding G s a" and p: "is_propagated s = length (is_trail s)" and l: "has_var l (is_ivars s)" "is_vals s l = 0"
    and d: "is_level s < length (as_assumptions a) \<Longrightarrow> l \<in> set (as_assumptions a)"
  obtains s' where "search_assume_decision l s = Some s'" "deciding G s' a" "is_level s' = is_level s + 1"
proof -
  have P: "prop_inv G s" "is_conflict s = None" using D by (simp_all add: deciding_def)
  have "l \<noteq> 0" using l(1) by (simp add: has_var_def)
  then have free: "l \<notin> set (is_trail s)" "- l \<notin> set (is_trail s)" using vals_iff(3) [of s l] l(2) P(1) by (auto simp: prop_inv_def search_inv_def)
  obtain s' where s': "search_assume_decision l s = Some s'" "prop_inv G s'" "pushed l (is_level s + 1) None s s'" "is_level s' = is_level s + 1"
      "is_control s' = is_control s @ [(l, length (is_trail s))]"
    by (rule decision_step [OF P p free l(1)]) (rule that)
  have "deciding G s' a" by (rule deciding_control [OF D s'(2) _ _ s'(4,5)]) (use s'(3) P(2) d in \<open>simp_all add: pushed_def\<close>)
  then show ?thesis using that s'(1,4) by blast
qed

text \<open>
  Deciding opens a level and keeps the invariant, or reports 20 and leaves the search as it is: then all decisions are assumptions, and an
  assumption or the whole constraint is falsified.
\<close>

theorem decide_ok:
  assumes D: "deciding G s a" and p: "is_propagated s = length (is_trail s)" and ns: "\<not> search_satisfied s a"
    and d: "length (as_assumptions a) \<le> is_level s \<Longrightarrow> has_var decision (is_ivars s) \<and> is_vals s decision = 0"
  obtains res s' a' where "decide decision s a = Some (res, s', a')" "deciding G s' a'" "as_assumptions a' = as_assumptions a" "as_failed a' = as_failed a"
    "res = 0 \<Longrightarrow> a' = a \<and> is_level s' = is_level s + 1"
    "res \<noteq> 0 \<Longrightarrow> res = 20 \<and> s' = s \<and> \<not> as_marked_failed a' \<and> set (decisions s) \<subseteq> as_assumed a' \<and>
       (if as_unsat_constraint a' = as_unsat_constraint a \<and> is_level s < length (as_assumptions a) then \<exists>l \<in> set (as_assumptions a). is_vals s l < 0
        else as_unsat_constraint a' \<and> (\<forall>l \<in> set (as_constraint a). is_vals s l < 0))"
proof -
  have hv: "has_var l (is_ivars s)" if "l \<in> set (as_assumptions a) \<union> set (as_constraint a)" for l using D that by (simp add: deciding_def)
  have z: "0 \<notin> set (as_constraint a)" using hv [of 0] by (auto simp: has_var_def)
  consider (assumption) "is_level s < length (as_assumptions a)"
    | (constraint) "is_level s = length (as_assumptions a)" "as_constraint a \<noteq> []"
    | (free) "length (as_assumptions a) \<le> is_level s" "\<not> (is_level s = length (as_assumptions a) \<and> as_constraint a \<noteq> [])"
    by linarith
  then show ?thesis
  proof cases
    case assumption
    let ?l = "as_assumptions a ! is_level s"
    have l: "?l \<in> set (as_assumptions a)" "?l \<in> as_assumed a" using assumption D by (simp_all add: deciding_def)
    consider "is_vals s ?l < 0" | "is_vals s ?l > 0" | "is_vals s ?l = 0" by linarith
    then show ?thesis
    proof cases
      case 1
      let ?a = "a\<lparr>as_marked_failed := False\<rparr>"
      have "decide decision s a = Some (20, s, ?a)" using ns assumption l(2) 1 by (simp add: decide_def decide_assumption_def Let_def)
      moreover have "deciding G s ?a" using D by (simp add: deciding_def)
      ultimately show ?thesis by (rule that) (use assumption_levels [OF D] assumption 1 l(1) in auto)
    next
      case 2
      have "decide decision s a = Some (0, pseudo_level s, a)" using ns assumption l(2) 2 by (simp add: decide_def decide_assumption_def Let_def)
      then show ?thesis by (rule that) (use deciding_level [OF D p] in simp_all)
    next
      case 3
      obtain s' where s': "search_assume_decision ?l s = Some s'" "deciding G s' a" "is_level s' = is_level s + 1"
        by (rule deciding_decision [OF D p hv 3]) (use l in auto)
      have "decide decision s a = Some (0, s', a)" using ns assumption l(2) 3 s'(1) by (simp add: decide_def decide_assumption_def Let_def)
      then show ?thesis by (rule that) (use s'(2,3) in simp_all)
    qed
  next
    case constraint
    obtain b v where c: "constraint_lit s 0 (as_constraint a) = (b, v)" by (metis surj_pair)
    have eq: "decide decision s a = do { (res, s, a) \<leftarrow> decide_constraint s a; Some (res, s, if res \<noteq> 0 then a\<lparr>as_marked_failed := False\<rparr> else a) }"
      using ns constraint by (simp add: decide_def)
    consider "b" | "\<not> b" "v \<noteq> 0" | "\<not> b" "v = 0" by blast
    then show ?thesis
    proof cases
      case 1
      have "decide decision s a = Some (0, pseudo_level s, a)" using eq c 1 by (simp add: decide_constraint_def)
      then show ?thesis by (rule that) (use deciding_level [OF D p] in simp_all)
    next
      case 2
      have v: "v \<in> set (as_constraint a)" "is_vals s v = 0" using constraint_lit_ok(2) [OF c 2(2)] 2(2) by auto
      obtain s' where s': "search_assume_decision v s = Some s'" "deciding G s' a" "is_level s' = is_level s + 1"
        by (rule deciding_decision [OF D p hv v(2)]) (use v(1) constraint in auto)
      have "decide decision s a = Some (0, s', a)" using eq c 2 s'(1) by (simp add: decide_constraint_def)
      then show ?thesis by (rule that) (use s'(2,3) in simp_all)
    next
      case 3
      let ?a = "a\<lparr>as_unsat_constraint := True, as_marked_failed := False\<rparr>"
      have "decide decision s a = Some (20, s, ?a)" using eq c 3 by (simp add: decide_constraint_def)
      moreover have "deciding G s ?a" using D by (simp add: deciding_def)
      ultimately show ?thesis
        by (rule that) (use assumption_levels [OF D] constraint(1) constraint_lit_ok(1) [OF c 3 refl z] in auto)
    qed
  next
    case free
    obtain s' where s': "search_assume_decision decision s = Some s'" "deciding G s' a" "is_level s' = is_level s + 1"
      by (rule deciding_decision [OF D p]) (use d [OF free(1)] free(1) in auto)
    have "decide decision s a = Some (0, s', a)" using ns free s'(1) by (auto simp: decide_def)
    then show ?thesis by (rule that) (use s'(2,3) in simp_all)
  qed
qed

text \<open>Propagation between two decisions keeps the levels.\<close>

lemma deciding_propagate:
  assumes D: "deciding G s a" and ns: "\<not> is_unsat s" and r: "propagate s = Some (True, s')"
  shows "deciding G s' a" "is_propagated s' = length (is_trail s')"
proof -
  have P: "prop_inv G s" using D by (simp add: deciding_def)
  obtain b t where t: "propagate s = Some (b, t)" "prop_inv G t" "grows_to s t" "b = (is_conflict t = None)" "b \<Longrightarrow> is_propagated t = length (is_trail t)"
    by (rule propagate_total [OF P ns]) (rule that)
  have e: "t = s'" "b" using t(1) r by simp_all
  show "is_propagated s' = length (is_trail s')" using t(5) e by simp
  show "deciding G s' a" using D t(2,4) e grows_toD [OF t(3)] by (simp add: deciding_def has_var_def)
qed

end
