(* ===== verification/Cadical_Analyze.thy ===== *)
theory Cadical_Analyze
  imports Cadical_Implicants
begin

text \<open>
  Conflict analysis, \<open>lib/cadical/src/analyze.cpp\<close>: the clause of the first unique implication point is derived by going backwards over the
  trail. The flags \<open>seen\<close> are those of the variables on the stack \<open>analyzed\<close>. What the analysis does for the heuristics (bumping variables and
  clauses, averages, statistics) is left out.
\<close>

section \<open>Operations\<close>

record analysis =
  an_clause :: "int list"
  an_analyzed :: "int list"
  an_levels :: "nat list"
  an_count :: "nat \<Rightarrow> nat"
  an_trail :: "nat \<Rightarrow> nat option"
  an_open :: nat

definition analysis_new :: analysis where
  "analysis_new = \<lparr>an_clause = [], an_analyzed = [], an_levels = [], an_count = (\<lambda>_. 0), an_trail = (\<lambda>_. None), an_open = 0\<rparr>"

definition is_seen :: "analysis \<Rightarrow> int \<Rightarrow> bool" where
  "is_seen an l = (\<bar>l\<bar> \<in> abs ` set (an_analyzed an))"

definition analyze_literal :: "isearch \<Rightarrow> int \<Rightarrow> analysis \<Rightarrow> analysis option" where
  "analyze_literal s lit an =
     (if lit = 0 then None
      else if is_seen an lit \<or> level_of s lit = 0 then Some an
      else if \<not> is_vals s lit < 0 \<or> level_of s lit > is_level s then None
      else
        let v = level_of s lit
        in Some (an\<lparr>an_clause := (if v < is_level s then an_clause an @ [lit] else an_clause an),
                    an_levels := (if an_count an v = 0 then an_levels an @ [v] else an_levels an),
                    an_count := (an_count an)(v := an_count an v + 1),
                    an_trail := (an_trail an)(v := Some (case an_trail an v of None \<Rightarrow> pos_of s lit | Some t \<Rightarrow> min t (pos_of s lit))),
                    an_analyzed := an_analyzed an @ [lit],
                    an_open := (if v = is_level s then an_open an + 1 else an_open an)\<rparr>))"

fun analyze_lits :: "isearch \<Rightarrow> int \<Rightarrow> int list \<Rightarrow> analysis \<Rightarrow> analysis option" where
  "analyze_lits s lit [] an = Some an"
| "analyze_lits s lit (other # lits) an =
     do { an \<leftarrow> (if other \<noteq> lit then analyze_literal s other an else Some an); analyze_lits s lit lits an }"

definition analyze_reason :: "isearch \<Rightarrow> int \<Rightarrow> nat \<Rightarrow> analysis \<Rightarrow> analysis option" where
  "analyze_reason s lit reason an = (if reason \<ge> length (is_clauses s) then None else analyze_lits s lit (lits_at s reason) an)"

text \<open>The next seen literal of the current level, going down from a position of the trail.\<close>

fun next_uip :: "isearch \<Rightarrow> analysis \<Rightarrow> nat \<Rightarrow> (int \<times> nat) option" where
  "next_uip s an 0 = None"
| "next_uip s an (Suc i) =
     (let lit = is_trail s ! i
      in if is_seen an lit \<and> level_of s lit = is_level s then Some (lit, i) else next_uip s an i)"

lemma next_uip_less: "next_uip s an i = Some (lit, j) \<Longrightarrow> j < i"
  by (induction i) (auto simp: Let_def split: if_splits)

function uip_loop :: "isearch \<Rightarrow> int \<Rightarrow> nat \<Rightarrow> nat \<Rightarrow> analysis \<Rightarrow> (int \<times> analysis) option" where
  "uip_loop s uip reason i an =
     do { an \<leftarrow> analyze_reason s uip reason an;
          (uip, j) \<leftarrow> next_uip s an i;
          if an_open an = 0 then None
          else
            let an = an\<lparr>an_open := an_open an - 1\<rparr>
            in if an_open an = 0 then Some (uip, an)
               else do { reason \<leftarrow> reason_of s uip; uip_loop s uip reason j an } }"
  by pat_completeness auto
termination
  by (relation "measure (\<lambda>(s, uip, reason, i, an). i)") (auto dest: next_uip_less)

declare uip_loop.simps [simp del]

definition derive_clause :: "isearch \<Rightarrow> (int \<times> analysis) option" where
  "derive_clause s =
     (case is_conflict s of
        None \<Rightarrow> None
      | Some c \<Rightarrow>
          do { (uip, an) \<leftarrow> uip_loop s 0 c (length (is_trail s)) analysis_new;
               Some (uip, an\<lparr>an_clause := an_clause an @ [- uip]\<rparr>) })"

section \<open>The derived clause follows from the formula\<close>

text \<open>
  The literals that were seen are falsified above the root; those of lower levels are in the clause. The clause with the seen literals
  of the current level that are not yet resolved, those before position \<open>i\<close> of the trail, follows from the formula.
\<close>

definition pending :: "isearch \<Rightarrow> nat \<Rightarrow> analysis \<Rightarrow> int set" where
  "pending s i an = {l \<in> set (an_analyzed an). level_of s l = is_level s \<and> pos_of s l < i}"

definition ana_ok :: "isearch \<Rightarrow> analysis \<Rightarrow> bool" where
  "ana_ok s an =
     (distinct (map abs (an_analyzed an)) \<and>
      (\<forall>l \<in> set (an_analyzed an). - l \<in> set (is_trail s) \<and> 0 < level_of s l \<and> level_of s l \<le> is_level s \<and> flags_status l (is_ivars s) = ACTIVE) \<and>
      an_clause an = filter (\<lambda>l. level_of s l < is_level s) (an_analyzed an))"

lemma ana_okD:
  assumes "ana_ok s an"
  shows "distinct (map abs (an_analyzed an))" 
    "l \<in> set (an_analyzed an) \<Longrightarrow> - l \<in> set (is_trail s) \<and> 0 < level_of s l \<and> level_of s l \<le> is_level s \<and> flags_status l (is_ivars s) = ACTIVE"
    "an_clause an = filter (\<lambda>l. level_of s l < is_level s) (an_analyzed an)"
  using assms by (auto simp: ana_ok_def)

lemma seen_literal:
  assumes "ana_ok s an" "vals_ok s" "- l \<in> set (is_trail s)" "is_seen an l"
  shows "l \<in> set (an_analyzed an)"
proof -
  obtain k where k: "k \<in> set (an_analyzed an)" "\<bar>l\<bar> = \<bar>k\<bar>" using assms(4) by (auto simp: is_seen_def)
  then have "- k \<in> set (is_trail s)" using ana_okD(2) [OF assms(1)] by blast
  then show ?thesis using k vals_okD(2) [OF assms(2,3)] by (auto simp: abs_eq_iff)
qed

lemma analyze_lits_ok:
  assumes s: "vals_ok s" "control_ok s" and an: "ana_ok s an" and "\<And>k. k \<in> set lits \<Longrightarrow> k \<noteq> uip \<Longrightarrow> - k \<in> set (is_trail s)" "0 \<notin> set lits"
    "\<And>k. k \<in> set lits \<Longrightarrow> 0 < level_of s k \<Longrightarrow> flags_status k (is_ivars s) = ACTIVE"
  shows "\<exists>an'. analyze_lits s uip lits an = Some an' \<and> ana_ok s an' \<and>
    set (an_analyzed an') = set (an_analyzed an) \<union> {k \<in> set lits. k \<noteq> uip \<and> level_of s k \<noteq> 0} \<and>
    an_open an' + card {l \<in> set (an_analyzed an). level_of s l = is_level s} = an_open an + card {l \<in> set (an_analyzed an'). level_of s l = is_level s}"
  using an assms(4-6)
proof (induction lits arbitrary: an)
  case Nil
  then show ?case by simp
next
  case (Cons k lits)
  have step: ?case if b: "(if k \<noteq> uip then analyze_literal s k an else Some an) = Some b" "ana_ok s b"
      "set (an_analyzed b) = set (an_analyzed an) \<union> (if k \<noteq> uip \<and> level_of s k \<noteq> 0 then {k} else {})"
      "an_open b + card {l \<in> set (an_analyzed an). level_of s l = is_level s} = an_open an + card {l \<in> set (an_analyzed b). level_of s l = is_level s}" for b
  proof -
    obtain an' where "analyze_lits s uip lits b = Some an'" "ana_ok s an'"
        "set (an_analyzed an') = set (an_analyzed b) \<union> {k \<in> set lits. k \<noteq> uip \<and> level_of s k \<noteq> 0}"
        "an_open an' + card {l \<in> set (an_analyzed b). level_of s l = is_level s} = an_open b + card {l \<in> set (an_analyzed an'). level_of s l = is_level s}"
      using Cons.IH [OF b(2)] Cons.prems(2-4) by auto
    then show ?thesis using b by (intro exI [of _ an'] conjI) auto
  qed
  show ?case
  proof (cases "k = uip \<or> level_of s k = 0 \<or> is_seen an k")
    case True
    have "k \<in> set (an_analyzed an)" if "k \<noteq> uip" "level_of s k \<noteq> 0"
      using seen_literal [OF Cons.prems(1) s(1)] True Cons.prems(2) [of k] that by auto
    then show ?thesis by (intro step [of an]) (use True Cons.prems in \<open>auto simp: analyze_literal_def\<close>)
  next
    case False
    have f: "- k \<in> set (is_trail s)" using Cons.prems(2) [of k] False by simp
    have lev: "level_of s k \<le> is_level s" using s(2) f by (auto simp: control_ok_def dest!: bspec)
    have neg: "is_vals s k < 0" using vals_iff(2) [OF s(1), of k] f Cons.prems(3) by auto
    obtain b where b: "analyze_literal s k an = Some b" "an_analyzed b = an_analyzed an @ [k]"
        "an_clause b = (if level_of s k < is_level s then an_clause an @ [k] else an_clause an)"
        "an_open b = (if level_of s k = is_level s then an_open an + 1 else an_open an)"
      using False neg lev Cons.prems(3) by (simp add: analyze_literal_def Let_def)
    have "\<bar>k\<bar> \<notin> abs ` set (an_analyzed an)" using False by (simp add: is_seen_def)
    then have ok: "ana_ok s b" using Cons.prems(1) Cons.prems(4) [of k] f lev False b(2,3) by (auto simp: ana_ok_def)
    have "{l \<in> set (an_analyzed b). level_of s l = is_level s} =
        {l \<in> set (an_analyzed an). level_of s l = is_level s} \<union> (if level_of s k = is_level s then {k} else {})" using b(2) by auto
    moreover have "k \<notin> set (an_analyzed an)" using False by (auto simp: is_seen_def)
    ultimately show ?thesis by (intro step [of b]) (use b ok False in \<open>auto simp: card_insert_if\<close>)
  qed
qed

lemma next_uip_ok:
  assumes "\<exists>p < i. is_seen an (is_trail s ! p) \<and> level_of s (is_trail s ! p) = is_level s"
  shows "\<exists>j < i. next_uip s an i = Some (is_trail s ! j, j) \<and> is_seen an (is_trail s ! j) \<and> level_of s (is_trail s ! j) = is_level s \<and>
    (\<forall>p. j < p \<and> p < i \<longrightarrow> \<not> (is_seen an (is_trail s ! p) \<and> level_of s (is_trail s ! p) = is_level s))"
  using assms
proof (induction i)
  case (Suc i)
  show ?case
  proof (cases "is_seen an (is_trail s ! i) \<and> level_of s (is_trail s ! i) = is_level s")
    case True
    then show ?thesis by (intro exI [of _ i]) (auto simp: Let_def)
  next
    case False
    then have "\<exists>p < i. is_seen an (is_trail s ! p) \<and> level_of s (is_trail s ! p) = is_level s" using Suc.prems less_Suc_eq by auto
    then obtain j where "j < i" "next_uip s an i = Some (is_trail s ! j, j)" "is_seen an (is_trail s ! j)" "level_of s (is_trail s ! j) = is_level s"
        "\<forall>p. j < p \<and> p < i \<longrightarrow> \<not> (is_seen an (is_trail s ! p) \<and> level_of s (is_trail s ! p) = is_level s)" using Suc.IH by blast
    then show ?thesis using False by (intro exI [of _ j]) (auto simp: Let_def less_Suc_eq)
  qed
qed simp

text \<open>The decision of a level comes first among the literals of the level.\<close>

lemma earlier_has_reason:
  assumes inv: "search_inv G s" and l: "l \<in> set (is_trail s)" "k \<in> set (is_trail s)" "level_of s k = level_of s l" "pos_of s k < pos_of s l" "level_of s l \<noteq> 0"
  obtains c where "reason_of s l = Some c" "implied_by s c l"
proof (cases "reason_of s l")
  case None
  note C = search_invD(3) [OF inv] and V = search_invD(2) [OF inv]
  let ?dt = "is_control s ! level_of s l"
  have "l = fst ?dt" using search_invD(4) [OF inv l(1)] None l(5) unfolding reason_ok_def by (simp only: option.case) blast
  moreover have st: "starts_level s (level_of s l) ?dt" using C l(1,5) by (auto simp: control_ok_def)
  ultimately have "pos_of s l = snd ?dt" using vals_okD(5) [OF V, of "snd ?dt"] vals_okD(6) [OF V l(1)] by (simp add: starts_level_def)
  then have "level_of s (is_trail s ! pos_of s k) < level_of s l" using st l(4) by (simp add: starts_level_def)
  then show ?thesis using pos_of_trail [OF V l(2)] l(3) by simp
next
  case (Some c)
  then show ?thesis using that [of c] search_invD(4) [OF inv l(1)] by (simp add: reason_ok_def)
qed

definition resolving :: "clause set \<Rightarrow> isearch \<Rightarrow> int \<Rightarrow> nat \<Rightarrow> nat \<Rightarrow> analysis \<Rightarrow> bool" where
  "resolving G s uip c i an =
     (ana_ok s an \<and> an_open an = card (pending s i an) \<and> i \<le> length (is_trail s) \<and> c < length (is_clauses s) \<and>
      (\<forall>k \<in> set (lits_at s c). k \<noteq> uip \<longrightarrow> - k \<in> set (is_trail s) \<and> pos_of s k < i) \<and>
      (\<forall>\<sigma>. sat_all \<sigma> G \<longrightarrow> (\<exists>k \<in> set (an_clause an) \<union> pending s i an \<union> (set (lits_at s c) - {uip}). lit_true \<sigma> k)) \<and>
      pending s i an \<union> {k \<in> set (lits_at s c). k \<noteq> uip \<and> level_of s k = is_level s} \<noteq> {})"

lemma resolve_reason:
  assumes inv: "search_inv G s" and L: "is_level s \<noteq> 0" and R: "resolving G s uip c i an"
  obtains b where "analyze_reason s uip c an = Some b" "ana_ok s b" "an_open b = card (pending s i b)" "pending s i b \<noteq> {}"
    "\<And>\<sigma>. sat_all \<sigma> G \<Longrightarrow> \<exists>k \<in> set (an_clause b) \<union> pending s i b. lit_true \<sigma> k"
proof -
  note V = search_invD(2) [OF inv] and C = search_invD(3) [OF inv]
  have r: "ana_ok s an" "an_open an = card (pending s i an)" "c < length (is_clauses s)"
      "\<And>k. k \<in> set (lits_at s c) \<Longrightarrow> k \<noteq> uip \<Longrightarrow> - k \<in> set (is_trail s) \<and> pos_of s k < i"
      "pending s i an \<union> {k \<in> set (lits_at s c). k \<noteq> uip \<and> level_of s k = is_level s} \<noteq> {}"
    using R unfolding resolving_def by blast+
  have nz: "0 \<notin> set (lits_at s c)" and act: "\<And>k. k \<in> set (lits_at s c) \<Longrightarrow> 0 < level_of s k \<Longrightarrow> flags_status k (is_ivars s) = ACTIVE"
    using search_invD(5) [OF inv r(3)] by (auto simp: clause_ok_def lits_at_def has_var_def)
  obtain b where b: "analyze_lits s uip (lits_at s c) an = Some b" "ana_ok s b"
      "set (an_analyzed b) = set (an_analyzed an) \<union> {k \<in> set (lits_at s c). k \<noteq> uip \<and> level_of s k \<noteq> 0}"
      "an_open b + card {l \<in> set (an_analyzed an). level_of s l = is_level s} = an_open an + card {l \<in> set (an_analyzed b). level_of s l = is_level s}"
    using analyze_lits_ok [OF V C r(1) _ nz act, of uip] r(4) by auto
  let ?A = "{l \<in> set (an_analyzed an). level_of s l = is_level s}" and ?B = "{l \<in> set (an_analyzed b). level_of s l = is_level s}"
  have pend: "pending s i b = pending s i an \<union> (?B - ?A)" using b(3) r(4) by (auto simp: pending_def)
  have sub: "?A \<subseteq> ?B" using b(3) by auto
  then have "card ?B = card ?A + card (?B - ?A)" using card_Diff_subset [OF _ sub] card_mono [OF _ sub] by simp
  moreover have "card (pending s i b) = card (pending s i an) + card (?B - ?A)"
    unfolding pend by (rule card_Un_disjoint) (auto simp: pending_def)
  ultimately have op: "an_open b = card (pending s i b)" using b(4) r(2) by linarith
  have ne: "pending s i b \<noteq> {}" using r(5) b(3) L r(4) by (auto simp: pending_def)
  have ent: "\<exists>k \<in> set (an_clause b) \<union> pending s i b. lit_true \<sigma> k" if g: "sat_all \<sigma> G" for \<sigma>
  proof -
    obtain k where k: "k \<in> set (an_clause an) \<union> pending s i an \<union> (set (lits_at s c) - {uip})" "lit_true \<sigma> k"
      using R g unfolding resolving_def by blast
    have old: "set (an_clause an) \<subseteq> set (an_clause b)" using ana_okD(3) [OF r(1)] ana_okD(3) [OF b(2)] b(3) by auto
    show ?thesis
    proof (cases "k \<in> set (lits_at s c) - {uip}")
      case True
      then have f: "- k \<in> set (is_trail s)" "pos_of s k < i" using r(4) by auto
      have "level_of s k \<noteq> 0"
      proof
        assume "level_of s k = 0"
        then have "lit_true \<sigma> (- k)" using search_invD(4) [OF inv f(1)] g by (simp add: reason_ok_def entails_def)
        then show False using k(2) vals_okD(6) [OF V f(1)] by simp
      qed
      then have "k \<in> set (an_analyzed b)" using b(3) True by auto
      then have "k \<in> set (an_clause b) \<union> pending s i b"
        using ana_okD(2,3) [OF b(2)] f(2) by (auto simp: pending_def) (use le_neq_implies_less in blast)
      then show ?thesis using k(2) by blast
    next
      case False
      then show ?thesis using k old pend by blast
    qed
  qed
  have "analyze_reason s uip c an = Some b" using r(3) b(1) by (simp add: analyze_reason_def)
  then show ?thesis using that b(2) op ne ent by blast
qed

lemma pick_pending:
  assumes inv: "search_inv G s" and b: "ana_ok s b" "pending s i b \<noteq> {}" and i: "i \<le> length (is_trail s)"
  obtains u j where "next_uip s b i = Some (u, j)" "j < i" "u \<in> set (is_trail s)" "pos_of s u = j" "level_of s u = is_level s"
    "pending s i b = insert (- u) (pending s j b)" "- u \<notin> pending s j b" "- u \<in> set (an_analyzed b)"
proof -
  note V = search_invD(2) [OF inv]
  have at: "pos_of s l < length (is_trail s) \<and> is_trail s ! pos_of s l = - l \<and> is_seen b (- l)" if "l \<in> set (an_analyzed b)" for l
    using pos_of_trail [OF V, of "- l"] ana_okD(2) [OF b(1) that] that by (auto simp: is_seen_def)
  obtain l where l: "l \<in> set (an_analyzed b)" "level_of s l = is_level s" "pos_of s l < i" using b(2) by (auto simp: pending_def)
  have ex: "\<exists>p < i. is_seen b (is_trail s ! p) \<and> level_of s (is_trail s ! p) = is_level s"
    using l at [OF l(1)] by (intro exI [of _ "pos_of s l"]) simp
  obtain j where j: "j < i" "next_uip s b i = Some (is_trail s ! j, j)" "is_seen b (is_trail s ! j)" "level_of s (is_trail s ! j) = is_level s"
      "\<forall>p. j < p \<and> p < i \<longrightarrow> \<not> (is_seen b (is_trail s ! p) \<and> level_of s (is_trail s ! p) = is_level s)"
    using next_uip_ok [OF ex] by (elim exE conjE) (rule that)
  let ?u = "is_trail s ! j"
  have u: "?u \<in> set (is_trail s)" "pos_of s ?u = j" using j(1) i vals_okD(5) [OF V, of j] by simp_all
  have "is_seen b (- ?u)" using j(3) by (simp add: is_seen_def)
  then have m: "- ?u \<in> set (an_analyzed b)" using seen_literal [OF b(1) V, of "- ?u"] u(1) by simp
  have "l = - ?u" if k: "l \<in> pending s i b" "l \<notin> pending s j b" for l
  proof -
    have l: "l \<in> set (an_analyzed b)" "level_of s l = is_level s" "pos_of s l < i" "\<not> pos_of s l < j" using k by (auto simp: pending_def)
    have "pos_of s l = j" using j(5) l at [OF l(1)] by (metis linorder_neqE_nat of_neg(1))
    then show ?thesis using at [OF l(1)] by simp
  qed
  then have "pending s i b = insert (- ?u) (pending s j b)" using m j(1,4) u(2) by (auto simp: pending_def)
  moreover have "- ?u \<notin> pending s j b" using u(2) by (simp add: pending_def)
  ultimately show ?thesis using that [OF j(2,1) u j(4)] m by blast
qed

lemma uip_loop_ok:
  assumes inv: "search_inv G s" and L: "is_level s \<noteq> 0" and "resolving G s uip c i an"
  shows "\<exists>u b. uip_loop s uip c i an = Some (u, b) \<and> ana_ok s b \<and> - u \<in> set (an_analyzed b) \<and> level_of s u = is_level s \<and> entails G (an_clause b @ [- u])"
  using assms(3)
proof (induction i arbitrary: uip c an rule: less_induct)
  case (less i)
  obtain b where b: "analyze_reason s uip c an = Some b" "ana_ok s b" "an_open b = card (pending s i b)" "pending s i b \<noteq> {}"
      "\<And>\<sigma>. sat_all \<sigma> G \<Longrightarrow> \<exists>k \<in> set (an_clause b) \<union> pending s i b. lit_true \<sigma> k"
    by (rule resolve_reason [OF inv L less.prems]) (rule that)
  have i: "i \<le> length (is_trail s)" using less.prems by (simp add: resolving_def)
  obtain u j where u: "next_uip s b i = Some (u, j)" "j < i" "u \<in> set (is_trail s)" "pos_of s u = j" "level_of s u = is_level s"
      "pending s i b = insert (- u) (pending s j b)" "- u \<notin> pending s j b" "- u \<in> set (an_analyzed b)"
    by (rule pick_pending [OF inv b(2,4) i])
  have fin: "finite (pending s j b)" by (simp add: pending_def)
  then have op: "an_open b = Suc (card (pending s j b))" using b(3) u(6,7) by simp
  let ?b = "b\<lparr>an_open := an_open b - 1\<rparr>"
  have pb: "pending s k ?b = pending s k b" "ana_ok s ?b" for k using b(2) by (simp_all add: pending_def ana_ok_def)
  show ?case
  proof (cases "pending s j b = {}")
    case True
    have "uip_loop s uip c i an = Some (u, ?b)" using b(1) u(1) op True by (simp add: uip_loop.simps)
    moreover have "entails G (an_clause ?b @ [- u])" using b(5) u(6) True by (auto simp: entails_def sat_clause_def)
    ultimately show ?thesis using pb(2) u(5,8) by auto
  next
    case False
    then obtain k where k: "k \<in> set (an_analyzed b)" "level_of s k = is_level s" "pos_of s k < j" by (auto simp: pending_def)
    obtain d where d: "reason_of s u = Some d" "implied_by s d u"
      by (rule earlier_has_reason [OF inv u(3), of "- k"]) (use k ana_okD(2) [OF b(2) k(1)] u(4,5) L in auto)
    have "resolving G s u d j ?b" unfolding resolving_def pb
    proof (intro conjI ballI impI allI)
      show "an_open ?b = card (pending s j b)" using op by simp
      show "pending s j b \<union> {k \<in> set (lits_at s d). k \<noteq> u \<and> level_of s k = is_level s} \<noteq> {}" using False by blast
      show "d < length (is_clauses s)" "j \<le> length (is_trail s)" using d(2) u(2) i by (simp_all add: implied_by_def)
      show "- k \<in> set (is_trail s)" "pos_of s k < j" if "k \<in> set (lits_at s d)" "k \<noteq> u" for k using d(2) that u(4) by (auto simp: implied_by_def)
      fix \<sigma> assume g: "sat_all \<sigma> G"
      then obtain k where k: "k \<in> set (an_clause b) \<union> pending s i b" "lit_true \<sigma> k" using b(5) by blast
      show "\<exists>k \<in> set (an_clause ?b) \<union> pending s j b \<union> (set (lits_at s d) - {u}). lit_true \<sigma> k"
      proof (cases "k = - u")
        case True
        have u0: "u \<noteq> 0" using vals_okD(6) [OF search_invD(2) [OF inv] u(3)] .
        have "d < length (is_clauses s)" using d(2) by (simp add: implied_by_def)
        then have "sat_clause \<sigma> (lits_at s d)" using search_invD(5) [OF inv, of d] g by (simp add: clause_ok_def entails_def lits_at_def)
        then show ?thesis using True k(2) u0 by (auto simp: sat_clause_def)
      next
        case False
        then show ?thesis using k u(6) by auto
      qed
    qed (use pb(2) in simp)
    then obtain v e where "uip_loop s u d j ?b = Some (v, e)" "ana_ok s e" "- v \<in> set (an_analyzed e)" "level_of s v = is_level s" "entails G (an_clause e @ [- v])"
      using less.IH [OF u(2)] by blast
    moreover have "uip_loop s uip c i an = uip_loop s u d j ?b"
      using b(1) u(1) op d(1) False fin by (subst uip_loop.simps) (simp add: Let_def card_gt_0_iff)
    ultimately show ?thesis by auto
  qed
qed

text \<open>The clause of the first unique implication point: its literals are falsified, and only the last one is of the conflict level.\<close>

theorem derive_clause_ok:
  assumes inv: "search_inv G s" and L: "is_level s \<noteq> 0" and c: "is_conflict s = Some c" "\<exists>l \<in> set (lits_at s c). level_of s l = is_level s"
  obtains u an where "derive_clause s = Some (u, an\<lparr>an_clause := an_clause an @ [- u]\<rparr>)" "ana_ok s an" "- u \<in> set (an_analyzed an)" "level_of s u = is_level s"
    "entails G (an_clause an @ [- u])"
proof -
  have f: "falsified s c" by (rule search_invD(6) [OF inv c(1)])
  have pos: "pos_of s k < length (is_trail s)" if "- k \<in> set (is_trail s)" for k using pos_of_trail [OF search_invD(2) [OF inv] that] by simp
  have "entails G (lits_at s c)" using search_invD(5) [OF inv, of c] f by (simp add: falsified_def clause_ok_def lits_at_def)
  moreover have "0 \<notin> set (lits_at s c)" using search_invD(5) [OF inv, of c] f by (auto simp: falsified_def clause_ok_def lits_at_def has_var_def)
  ultimately have "resolving G s 0 c (length (is_trail s)) analysis_new"
    using f pos c(2) unfolding resolving_def
    by (auto simp: analysis_new_def ana_ok_def pending_def falsified_def entails_def sat_clause_def)
  then obtain u an where u: "uip_loop s 0 c (length (is_trail s)) analysis_new = Some (u, an)" "ana_ok s an" "- u \<in> set (an_analyzed an)" "level_of s u = is_level s"
      "entails G (an_clause an @ [- u])"
    using uip_loop_ok [OF inv L] by blast
  then show ?thesis using that [of u an] c(1) by (simp add: derive_clause_def)
qed

end
