(* ===== verification/Cadical_Minimize.thy ===== *)
theory Cadical_Minimize
  imports Cadical_Analyze "HOL-Library.Sublist"
begin

text \<open>
  Minimization of the learned clause, \<open>lib/cadical/src/minimize.cpp\<close>: a literal is removed when it is falsified by the literals that are kept.
  The recursion over the reasons is bounded by the option \<open>minimizedepth\<close>, an argument here. The flags of the variables that only the minimization
  uses are functions from the variables; that they are all cleared at the end is proved. Positions on the trail are distinct, so the
  order in which \<open>minimize_sort_clause\<close> puts the literals does not depend on the sorting algorithm.
\<close>

section \<open>Operations\<close>

record minimizing =
  mn_removable :: "nat \<Rightarrow> bool"
  mn_poison :: "nat \<Rightarrow> bool"
  mn_keep :: "nat \<Rightarrow> bool"
  mn_minimized :: "int list"

definition minimizing_new :: minimizing where
  "minimizing_new = \<lparr>mn_removable = (\<lambda>_. False), mn_poison = (\<lambda>_. False), mn_keep = (\<lambda>_. False), mn_minimized = []\<rparr>"

definition early_abort :: "isearch \<Rightarrow> analysis \<Rightarrow> int \<Rightarrow> nat \<Rightarrow> bool" where
  "early_abort s an lit depth =
     (depth = 0 \<and> an_count an (level_of s lit) < 2 \<or>
      (case an_trail an (level_of s lit) of None \<Rightarrow> True | Some t \<Rightarrow> pos_of s lit \<le> t))"

definition mark_minimized :: "int \<Rightarrow> bool \<Rightarrow> minimizing \<Rightarrow> minimizing" where
  "mark_minimized lit res mn =
     (if res then mn\<lparr>mn_removable := (mn_removable mn)(nat \<bar>lit\<bar> := True), mn_minimized := mn_minimized mn @ [lit]\<rparr>
      else mn\<lparr>mn_poison := (mn_poison mn)(nat \<bar>lit\<bar> := True), mn_minimized := mn_minimized mn @ [lit]\<rparr>)"

function minimize_literal :: "isearch \<Rightarrow> analysis \<Rightarrow> nat \<Rightarrow> int \<Rightarrow> nat \<Rightarrow> minimizing \<Rightarrow> (bool \<times> minimizing) option"
  and minimize_lits :: "isearch \<Rightarrow> analysis \<Rightarrow> nat \<Rightarrow> int \<Rightarrow> int list \<Rightarrow> nat \<Rightarrow> minimizing \<Rightarrow> (bool \<times> minimizing) option" where
  "minimize_literal s an minimizedepth lit depth mn =
     (if \<not> is_vals s lit > 0 then None
      else if level_of s lit = 0 \<or> mn_removable mn (nat \<bar>lit\<bar>) \<or> mn_keep mn (nat \<bar>lit\<bar>) then Some (True, mn)
      else
        (case reason_of s lit of
           None \<Rightarrow> Some (False, mn)
         | Some c \<Rightarrow>
             if mn_poison mn (nat \<bar>lit\<bar>) \<or> level_of s lit = is_level s \<or> early_abort s an lit depth \<or> depth > minimizedepth then Some (False, mn)
             else if c \<ge> length (is_clauses s) then None
             else do { (res, mn) \<leftarrow> minimize_lits s an minimizedepth lit (lits_at s c) (depth + 1) mn;
                       Some (res, mark_minimized lit res mn) }))"
| "minimize_lits s an minimizedepth lit [] depth mn = Some (True, mn)"
| "minimize_lits s an minimizedepth lit (other # lits) depth mn =
     (if other = lit then minimize_lits s an minimizedepth lit lits depth mn
      else do { (res, mn) \<leftarrow> minimize_literal s an minimizedepth (- other) depth mn;
                if res then minimize_lits s an minimizedepth lit lits depth mn else Some (False, mn) })"
  by pat_completeness auto
termination
  by (relation "inv_image (less_than <*lex*> less_than)
                  (\<lambda>x. case x of Inl (s, an, D, lit, depth, mn) \<Rightarrow> (Suc D - depth, 0)
                       | Inr (s, an, D, lit, lits, depth, mn) \<Rightarrow> (Suc D - depth, Suc (length lits)))") auto

declare minimize_literal.simps [simp del]

fun minimize_loop :: "isearch \<Rightarrow> analysis \<Rightarrow> nat \<Rightarrow> int list \<Rightarrow> int list \<Rightarrow> minimizing \<Rightarrow> (int list \<times> minimizing) option" where
  "minimize_loop s an minimizedepth [] kept mn = Some (kept, mn)"
| "minimize_loop s an minimizedepth (lit # lits) kept mn =
     do { (res, mn) \<leftarrow> minimize_literal s an minimizedepth (- lit) 0 mn;
          if res then minimize_loop s an minimizedepth lits kept mn
          else minimize_loop s an minimizedepth lits (kept @ [lit]) (mn\<lparr>mn_keep := (mn_keep mn)(nat \<bar>lit\<bar> := True)\<rparr>) }"

definition minimize_sort_clause :: "isearch \<Rightarrow> int list \<Rightarrow> int list" where
  "minimize_sort_clause s lits = sort_key (pos_of s) lits"

definition clear_minimized_literals :: "int list \<Rightarrow> minimizing \<Rightarrow> minimizing" where
  "clear_minimized_literals lits mn =
     (let mn = fold (\<lambda>lit mn. mn\<lparr>mn_poison := (mn_poison mn)(nat \<bar>lit\<bar> := False), mn_removable := (mn_removable mn)(nat \<bar>lit\<bar> := False)\<rparr>) (mn_minimized mn) mn;
          mn = fold (\<lambda>lit mn. mn\<lparr>mn_keep := (mn_keep mn)(nat \<bar>lit\<bar> := False)\<rparr>) lits mn
      in mn\<lparr>mn_minimized := []\<rparr>)"

definition minimize_clause :: "isearch \<Rightarrow> nat \<Rightarrow> analysis \<Rightarrow> minimizing \<Rightarrow> (analysis \<times> minimizing) option" where
  "minimize_clause s minimizedepth an mn =
     (if mn_minimized mn \<noteq> [] then None
      else do { (kept, mn) \<leftarrow> minimize_loop s an minimizedepth (minimize_sort_clause s (an_clause an)) [] mn;
                Some (an\<lparr>an_clause := kept\<rparr>, clear_minimized_literals kept mn) })"

section \<open>Literals that are falsified with the kept ones\<close>

text \<open>The literal \<open>l\<close> of the trail is true in every model of the formula in which the kept literals are false.\<close>

definition forced_by :: "clause set \<Rightarrow> isearch \<Rightarrow> (nat \<Rightarrow> bool) \<Rightarrow> int \<Rightarrow> bool" where
  "forced_by G s keep l =
     (\<forall>\<sigma>. sat_all \<sigma> G \<and> (\<forall>k \<in> set (is_trail s). keep (nat \<bar>k\<bar>) \<longrightarrow> lit_true \<sigma> k) \<longrightarrow> lit_true \<sigma> l)"

definition mini_ok :: "clause set \<Rightarrow> isearch \<Rightarrow> minimizing \<Rightarrow> bool" where
  "mini_ok G s mn =
     ((\<forall>l \<in> set (is_trail s). mn_removable mn (nat \<bar>l\<bar>) \<longrightarrow> forced_by G s (mn_keep mn) l \<and> level_of s l \<noteq> is_level s) \<and>
      (\<forall>v. mn_removable mn v \<or> mn_poison mn v \<longrightarrow> v \<in> (\<lambda>l. nat \<bar>l\<bar>) ` set (mn_minimized mn)))"

lemma forced_by_mono: "forced_by G s keep l \<Longrightarrow> (\<And>v. keep v \<Longrightarrow> keep' v) \<Longrightarrow> forced_by G s keep' l"
  by (auto simp: forced_by_def)

lemma forced_by_reason:
  assumes inv: "search_inv G s" and c: "implied_by s c l" and oth: "\<And>k. k \<in> set (lits_at s c) \<Longrightarrow> k \<noteq> l \<Longrightarrow> forced_by G s keep (- k)"
  shows "forced_by G s keep l"
  unfolding forced_by_def
proof (intro allI impI)
  fix \<sigma> assume a: "sat_all \<sigma> G \<and> (\<forall>k \<in> set (is_trail s). keep (nat \<bar>k\<bar>) \<longrightarrow> lit_true \<sigma> k)"
  have "c < length (is_clauses s)" using c by (simp add: implied_by_def)
  note K = search_invD(5) [OF inv this]
  have "sat_clause \<sigma> (lits_at s c)" using K a by (simp add: clause_ok_def entails_def lits_at_def)
  then obtain k where k: "k \<in> set (lits_at s c)" "lit_true \<sigma> k" by (auto simp: sat_clause_def)
  have "k \<noteq> 0" using K k(1) by (auto simp: clause_ok_def has_var_def lits_at_def)
  then show "lit_true \<sigma> l" using oth [OF k(1)] k(2) a by (auto simp: forced_by_def)
qed

lemma mark_minimized_ok:
  assumes "mini_ok G s mn" "res \<longrightarrow> (\<forall>k \<in> set (is_trail s). \<bar>k\<bar> = \<bar>l\<bar> \<longrightarrow> forced_by G s (mn_keep mn) k) \<and> level_of s l \<noteq> is_level s"
  shows "mini_ok G s (mark_minimized l res mn)" "mn_keep (mark_minimized l res mn) = mn_keep mn"
proof -
  have same: "level_of s k = level_of s l \<and> \<bar>k\<bar> = \<bar>l\<bar>" if "nat \<bar>k\<bar> = nat \<bar>l\<bar>" for k using that by (simp add: level_of_def)
  show "mini_ok G s (mark_minimized l res mn)"
    unfolding mini_ok_def
  proof (intro conjI ballI allI impI)
    fix k assume k: "k \<in> set (is_trail s)" "mn_removable (mark_minimized l res mn) (nat \<bar>k\<bar>)"
    show "forced_by G s (mn_keep (mark_minimized l res mn)) k" "level_of s k \<noteq> is_level s"
      using k same [of k] assms by (auto simp: mini_ok_def mark_minimized_def split: if_splits)
  next
    fix v assume "mn_removable (mark_minimized l res mn) v \<or> mn_poison (mark_minimized l res mn) v"
    then show "v \<in> (\<lambda>l. nat \<bar>l\<bar>) ` set (mn_minimized (mark_minimized l res mn))"
      using assms(1) by (auto simp: mini_ok_def mark_minimized_def split: if_splits)
  qed
qed (simp add: mark_minimized_def)

definition removal_ok :: "clause set \<Rightarrow> isearch \<Rightarrow> minimizing \<Rightarrow> int set \<Rightarrow> (bool \<times> minimizing) option \<Rightarrow> bool" where
  "removal_ok G s mn L r =
     (case r of None \<Rightarrow> False
      | Some (res, mn') \<Rightarrow> mini_ok G s mn' \<and> mn_keep mn' = mn_keep mn \<and> (res \<longrightarrow> (\<forall>l \<in> L. forced_by G s (mn_keep mn) l)))"

lemma minimize_lits_ok:
  assumes "mini_ok G s mn" and "\<And>k. k \<in> set lits \<Longrightarrow> k \<noteq> lit \<Longrightarrow> - k \<in> set (is_trail s)"
    and step: "\<And>l mn. l \<in> set (is_trail s) \<Longrightarrow> mini_ok G s mn \<Longrightarrow> removal_ok G s mn {l} (minimize_literal s an D l depth mn)"
  shows "removal_ok G s mn {- k |k. k \<in> set lits \<and> k \<noteq> lit} (minimize_lits s an D lit lits depth mn)"
  using assms(1,2)
proof (induction lits arbitrary: mn)
  case Nil
  then show ?case by (simp add: removal_ok_def)
next
  case (Cons other lits)
  show ?case
  proof (cases "other = lit")
    case True
    then show ?thesis using Cons.IH [OF Cons.prems(1)] Cons.prems(2) by (simp add: conj_disj_distribR)
  next
    case False
    obtain res b where b: "minimize_literal s an D (- other) depth mn = Some (res, b)" "mini_ok G s b" "mn_keep b = mn_keep mn"
        "res \<longrightarrow> forced_by G s (mn_keep mn) (- other)"
      using step [OF Cons.prems(2) Cons.prems(1), of other] False by (auto simp: removal_ok_def split: option.splits)
    then show ?thesis using Cons.IH [OF b(2)] Cons.prems(2) False by (auto simp: removal_ok_def split: option.splits)
  qed
qed

lemma minimize_literal_ok:
  assumes inv: "search_inv G s" and "mini_ok G s mn" "l \<in> set (is_trail s)"
  shows "removal_ok G s mn {l} (minimize_literal s an D l depth mn)"
  using assms(2,3)
proof (induction "Suc D - depth" arbitrary: depth l mn rule: less_induct)
  case less
  note V = search_invD(2) [OF inv] and rk = search_invD(4) [OF inv less.prems(2)]
  have l: "is_vals s l > 0" "l \<noteq> 0" using vals_iff(1) [OF V, of l] vals_okD(6) [OF V] less.prems(2) by auto
  have give: "minimize_literal s an D l depth mn = Some (False, mn)"
    if "\<not> (level_of s l = 0 \<or> mn_removable mn (nat \<bar>l\<bar>) \<or> mn_keep mn (nat \<bar>l\<bar>))"
      "reason_of s l = None \<or> mn_poison mn (nat \<bar>l\<bar>) \<or> level_of s l = is_level s \<or> early_abort s an l depth \<or> depth > D"
    using that l by (auto simp: minimize_literal.simps split: option.splits)
  consider (known) "level_of s l = 0 \<or> mn_removable mn (nat \<bar>l\<bar>) \<or> mn_keep mn (nat \<bar>l\<bar>)"
    | (gives_up) "minimize_literal s an D l depth mn = Some (False, mn)"
    | (reason) c where "\<not> (level_of s l = 0 \<or> mn_removable mn (nat \<bar>l\<bar>) \<or> mn_keep mn (nat \<bar>l\<bar>))" "reason_of s l = Some c" "level_of s l \<noteq> is_level s" "depth \<le> D"
        "\<not> (mn_poison mn (nat \<bar>l\<bar>) \<or> early_abort s an l depth)"
    using give by (metis not_less option.exhaust)
  then show ?case
  proof cases
    case known
    have "forced_by G s (mn_keep mn) l" if "level_of s l = 0" using rk that by (auto simp: reason_ok_def entails_def forced_by_def)
    moreover have "forced_by G s (mn_keep mn) l" if "mn_keep mn (nat \<bar>l\<bar>)" using that less.prems(2) by (auto simp: forced_by_def)
    ultimately have "forced_by G s (mn_keep mn) l" using known less.prems by (auto simp: mini_ok_def)
    then show ?thesis using known l less.prems(1) by (auto simp: minimize_literal.simps removal_ok_def)
  next
    case gives_up
    then show ?thesis using less.prems(1) by (simp add: removal_ok_def)
  next
    case (reason c)
    have c: "implied_by s c l" using rk reason(1,2) by (simp add: reason_ok_def)
    then have ci: "c < length (is_clauses s)" "\<And>k. k \<in> set (lits_at s c) \<Longrightarrow> k \<noteq> l \<Longrightarrow> - k \<in> set (is_trail s)" by (auto simp: implied_by_def)
    have "removal_ok G s mn {- k |k. k \<in> set (lits_at s c) \<and> k \<noteq> l} (minimize_lits s an D l (lits_at s c) (depth + 1) mn)"
      by (rule minimize_lits_ok [OF less.prems(1)]) (use ci(2) less.hyps [of "depth + 1"] reason(4) in auto)
    then obtain res b where b: "minimize_lits s an D l (lits_at s c) (depth + 1) mn = Some (res, b)" "mini_ok G s b" "mn_keep b = mn_keep mn"
        "res \<longrightarrow> (\<forall>k \<in> set (lits_at s c). k \<noteq> l \<longrightarrow> forced_by G s (mn_keep mn) (- k))"
      by (fastforce simp: removal_ok_def split: option.splits)
    have fb: "res \<longrightarrow> forced_by G s (mn_keep mn) l" using forced_by_reason [OF inv c] b(4) by blast
    have same: "k = l" if "k \<in> set (is_trail s)" "\<bar>k\<bar> = \<bar>l\<bar>" for k using that vals_okD(2) [OF V] less.prems(2) by (auto simp: abs_eq_iff)
    have "mini_ok G s (mark_minimized l res b)" "mn_keep (mark_minimized l res b) = mn_keep mn"
      using mark_minimized_ok [OF b(2), of res l] fb b(3) reason(3) same by auto
    then show ?thesis using reason b(1) l ci(1) fb by (simp add: minimize_literal.simps removal_ok_def)
  qed
qed

section \<open>The minimized clause\<close>

definition minimized_to :: "clause set \<Rightarrow> isearch \<Rightarrow> int list \<Rightarrow> minimizing \<Rightarrow> int list \<Rightarrow> minimizing \<Rightarrow> bool" where
  "minimized_to G s lits mn kept mn' =
     (mini_ok G s mn' \<and> (\<forall>v. mn_keep mn' v = (mn_keep mn v \<or> v \<in> (\<lambda>l. nat \<bar>l\<bar>) ` set kept)) \<and> subseq kept lits \<and>
      (\<forall>l \<in> set lits. l \<in> set kept \<or> forced_by G s (mn_keep mn') (- l)) \<and>
      (\<forall>l \<in> set lits. level_of s l = is_level s \<and> is_level s \<noteq> 0 \<longrightarrow> l \<in> set kept \<or> mn_keep mn (nat \<bar>l\<bar>)))"

lemma minimize_loop_ok:
  assumes inv: "search_inv G s" and "mini_ok G s mn" "\<And>l. l \<in> set lits \<Longrightarrow> - l \<in> set (is_trail s)" "distinct (map abs lits)"
  shows "\<exists>kept' mn'. minimize_loop s an D lits kept mn = Some (kept @ kept', mn') \<and> minimized_to G s lits mn kept' mn'"
  using assms(2-)
proof (induction lits arbitrary: kept mn)
  case Nil
  then show ?case by (simp add: minimized_to_def)
next
  case (Cons l lits)
  have t: "- l \<in> set (is_trail s)" using Cons.prems(2) by simp
  obtain res b where b: "minimize_literal s an D (- l) 0 mn = Some (res, b)" "mini_ok G s b" "mn_keep b = mn_keep mn" "res \<longrightarrow> forced_by G s (mn_keep mn) (- l)"
    using minimize_literal_ok [OF inv Cons.prems(1) t, of an D 0] by (auto simp: removal_ok_def split: option.splits)
  have top: "mn_keep mn (nat \<bar>l\<bar>)" if "level_of s l = is_level s" "is_level s \<noteq> 0" "res"
    using b(1) that t Cons.prems(1) by (auto simp: minimize_literal.simps mini_ok_def split: if_splits option.splits dest!: bspec)
  show ?case
  proof (cases res)
    case True
    obtain kept' mn' where k: "minimize_loop s an D lits kept b = Some (kept @ kept', mn')" "minimized_to G s lits b kept' mn'"
      using Cons.IH [OF b(2), of kept] Cons.prems(2,3) by auto
    have "forced_by G s (mn_keep mn') (- l)" using b(4) True k(2) b(3) by (auto simp: minimized_to_def intro: forced_by_mono)
    then have "minimized_to G s (l # lits) mn kept' mn'" using k(2) b(3) top True by (auto simp: minimized_to_def)
    then show ?thesis using k(1) b(1) True by simp
  next
    case False
    let ?b = "b\<lparr>mn_keep := (mn_keep b)(nat \<bar>l\<bar> := True)\<rparr>"
    have "mini_ok G s ?b" using b(2) by (auto simp: mini_ok_def intro: forced_by_mono)
    then obtain kept' mn' where k: "minimize_loop s an D lits (kept @ [l]) ?b = Some (kept @ l # kept', mn')" "minimized_to G s lits ?b kept' mn'"
      using Cons.IH [of ?b "kept @ [l]"] Cons.prems(2,3) by auto
    have "nat \<bar>k\<bar> \<noteq> nat \<bar>l\<bar>" if k: "k \<in> set lits" for k
    proof
      assume "nat \<bar>k\<bar> = nat \<bar>l\<bar>"
      then have "\<bar>l\<bar> = \<bar>k\<bar>" by simp
      then show False using k Cons.prems(3) by auto
    qed
    then have "minimized_to G s (l # lits) mn (l # kept') mn'" using k(2) b(3) by (auto simp: minimized_to_def)
    then show ?thesis using k(1) b(1) False by (intro exI conjI) auto
  qed
qed

lemma clear_minimized:
  assumes "mini_ok G s mn" "\<And>v. mn_keep mn v \<Longrightarrow> v \<in> (\<lambda>l. nat \<bar>l\<bar>) ` set kept"
  shows "clear_minimized_literals kept mn = minimizing_new"
proof -
  have flags: "fold (\<lambda>lit mn. mn\<lparr>mn_poison := (mn_poison mn)(nat \<bar>lit\<bar> := False), mn_removable := (mn_removable mn)(nat \<bar>lit\<bar> := False)\<rparr>) ls m =
      m\<lparr>mn_poison := (\<lambda>v. mn_poison m v \<and> v \<notin> (\<lambda>l. nat \<bar>l\<bar>) ` set ls), mn_removable := (\<lambda>v. mn_removable m v \<and> v \<notin> (\<lambda>l. nat \<bar>l\<bar>) ` set ls)\<rparr>" for ls m
    by (induction ls arbitrary: m) (auto simp: fun_eq_iff)
  have keeps: "fold (\<lambda>lit mn. mn\<lparr>mn_keep := (mn_keep mn)(nat \<bar>lit\<bar> := False)\<rparr>) ls m =
      m\<lparr>mn_keep := (\<lambda>v. mn_keep m v \<and> v \<notin> (\<lambda>l. nat \<bar>l\<bar>) ` set ls)\<rparr>" for ls m
    by (induction ls arbitrary: m) (auto simp: fun_eq_iff)
  have "(\<lambda>v. mn_poison mn v \<and> v \<notin> (\<lambda>l. nat \<bar>l\<bar>) ` set (mn_minimized mn)) = (\<lambda>_. False)"
      "(\<lambda>v. mn_removable mn v \<and> v \<notin> (\<lambda>l. nat \<bar>l\<bar>) ` set (mn_minimized mn)) = (\<lambda>_. False)"
      "(\<lambda>v. mn_keep mn v \<and> v \<notin> (\<lambda>l. nat \<bar>l\<bar>) ` set kept) = (\<lambda>_. False)"
    using assms by (auto simp: mini_ok_def)
  then show ?thesis unfolding clear_minimized_literals_def Let_def flags keeps by (simp add: minimizing_new_def)
qed

text \<open>
  Minimizing removes literals only, keeps every literal of the conflict level, leaves a clause that follows from the formula, and
  leaves all its flags cleared.
\<close>

theorem minimize_clause_ok:
  assumes inv: "search_inv G s" and L: "is_level s \<noteq> 0" and C: "\<And>l. l \<in> set (an_clause an) \<Longrightarrow> - l \<in> set (is_trail s)" "distinct (map abs (an_clause an))"
    and ent: "entails G (an_clause an)"
  obtains kept where "minimize_clause s D an minimizing_new = Some (an\<lparr>an_clause := kept\<rparr>, minimizing_new)" "set kept \<subseteq> set (an_clause an)" "distinct (map abs kept)"
    "{l \<in> set (an_clause an). level_of s l = is_level s} \<subseteq> set kept" "entails G kept"
proof -
  note V = search_invD(2) [OF inv]
  let ?ls = "minimize_sort_clause s (an_clause an)"
  have ls: "set ?ls = set (an_clause an)" "distinct (map abs ?ls)"
    using C(2) by (simp_all add: minimize_sort_clause_def distinct_map)
  have new: "mini_ok G s minimizing_new" by (simp add: mini_ok_def minimizing_new_def)
  obtain kept mn where k: "minimize_loop s an D ?ls [] minimizing_new = Some (kept, mn)" "minimized_to G s ?ls minimizing_new kept mn"
    using minimize_loop_ok [OF inv new _ ls(2), of an D "[]"] C(1) ls(1) by auto
  have K: "mini_ok G s mn" "\<And>v. mn_keep mn v = (v \<in> (\<lambda>l. nat \<bar>l\<bar>) ` set kept)" "subseq kept ?ls" "\<And>l. l \<in> set ?ls \<Longrightarrow> l \<in> set kept \<or> forced_by G s (mn_keep mn) (- l)"
      "\<And>l. l \<in> set ?ls \<Longrightarrow> level_of s l = is_level s \<Longrightarrow> l \<in> set kept"
    using k(2) L by (auto simp: minimized_to_def minimizing_new_def)
  have sub: "set kept \<subseteq> set (an_clause an)" using K(3) ls(1) by (metis set_nths_subset subseq_conv_nths)
  have "entails G kept"
    unfolding entails_def
  proof (intro allI impI, rule ccontr)
    fix \<sigma> assume g: "sat_all \<sigma> G" "\<not> sat_clause \<sigma> kept"
    have "lit_true \<sigma> k" if t: "k \<in> set (is_trail s)" "mn_keep mn (nat \<bar>k\<bar>)" for k
    proof -
      obtain l where l: "l \<in> set kept" "nat \<bar>k\<bar> = nat \<bar>l\<bar>" using t(2) K(2) by auto
      then have "k = l \<or> k = - l" by linarith
      then have "k = - l" using C(1) [of l] sub l(1) t(1) vals_okD(2) [OF V, of k] by auto
      then show ?thesis using l(1) g(2) vals_okD(6) [OF V t(1)] by (auto simp: sat_clause_def)
    qed
    then have "\<not> lit_true \<sigma> l" if "l \<in> set (an_clause an)" for l
      using K(4) [of l] ls(1) that g vals_okD(6) [OF V C(1) [OF that]] by (auto simp: forced_by_def sat_clause_def)
    then show False using ent g(1) by (auto simp: entails_def sat_clause_def)
  qed
  moreover have "distinct (map abs kept)" using ls(2) K(3) by (metis distinct_nthsI nths_map subseq_conv_nths)
  moreover have "clear_minimized_literals kept mn = minimizing_new" using clear_minimized [OF K(1)] K(2) by simp
  then have "minimize_clause s D an minimizing_new = Some (an\<lparr>an_clause := kept\<rparr>, minimizing_new)"
    using k(1) by (simp add: minimize_clause_def minimizing_new_def)
  ultimately show ?thesis using that sub K(5) ls(1) by blast
qed

section \<open>The learned clause\<close>

text \<open>
  Derivation and minimization together: the learned clause follows from the formula, all its literals are falsified above the root, and
  only the negation of the unique implication point is of the conflict level.
\<close>

theorem learned_clause_ok:
  assumes inv: "search_inv G s" and L: "is_level s \<noteq> 0" and c: "is_conflict s = Some c" "\<exists>l \<in> set (lits_at s c). level_of s l = is_level s"
  obtains u an kept where "derive_clause s = Some (u, an)" "minimize_clause s D an minimizing_new = Some (an\<lparr>an_clause := kept\<rparr>, minimizing_new)"
    "set kept \<subseteq> set (an_clause an)" "- u \<in> set kept" "level_of s u = is_level s" "entails G (an_clause an)" "entails G kept" "distinct (map abs (an_clause an))" "distinct (map abs kept)"
    "\<And>l. l \<in> set (an_clause an) \<Longrightarrow> - l \<in> set (is_trail s) \<and> 0 < level_of s l \<and> flags_status l (is_ivars s) = ACTIVE \<and> (l \<noteq> - u \<longrightarrow> level_of s l < is_level s)"
proof -
  obtain u b where u: "derive_clause s = Some (u, b\<lparr>an_clause := an_clause b @ [- u]\<rparr>)" "ana_ok s b" "- u \<in> set (an_analyzed b)" "level_of s u = is_level s"
      "entails G (an_clause b @ [- u])"
    by (rule derive_clause_ok [OF inv L c])
  let ?an = "b\<lparr>an_clause := an_clause b @ [- u]\<rparr>"
  note A = ana_okD [OF u(2)]
  have low: "an_clause b = filter (\<lambda>l. level_of s l < is_level s) (an_analyzed b)" by (rule A(3))
  have all: "- l \<in> set (is_trail s) \<and> 0 < level_of s l \<and> flags_status l (is_ivars s) = ACTIVE \<and> (l \<noteq> - u \<longrightarrow> level_of s l < is_level s)"
    if "l \<in> set (an_clause ?an)" for l
    using that A(2) [of l] A(2) [OF u(3)] low by auto
  have "\<bar>u\<bar> \<notin> abs ` set (an_clause b)"
  proof
    assume "\<bar>u\<bar> \<in> abs ` set (an_clause b)"
    then obtain k where k: "k \<in> set (an_clause b)" "\<bar>u\<bar> = \<bar>k\<bar>" by blast
    then have "level_of s k = level_of s u" by (metis of_abs(1))
    then show False using k(1) low u(4) by simp
  qed
  moreover have "distinct (map abs (an_clause b))" using A(1) low by (simp add: distinct_map inj_on_def)
  ultimately have d: "distinct (map abs (an_clause ?an))" by simp
  obtain kept where k: "minimize_clause s D ?an minimizing_new = Some (?an\<lparr>an_clause := kept\<rparr>, minimizing_new)" "set kept \<subseteq> set (an_clause ?an)" "distinct (map abs kept)"
      "{l \<in> set (an_clause ?an). level_of s l = is_level s} \<subseteq> set kept" "entails G kept"
    by (rule minimize_clause_ok [OF inv L, of ?an D]) (use all d u(5) in auto)
  have "- u \<in> set kept" using k(4) u(4) by auto
  then show ?thesis using that [OF u(1) k(1,2) _ u(4) _ k(5) d k(3) all] u(5) by simp
qed

end
