(* ===== verification/Cadical_Jump.thy ===== *)
theory Cadical_Jump
  imports Cadical_Minimize "HOL-Library.Word"
begin

unbundle bit_operations_syntax

text \<open>
  The end of \<open>Internal::analyze\<close> of \<open>lib/cadical/src/analyze.cpp\<close>: the learned clause is added, the level to go back to is chosen, the
  flipped literal of the unique implication point is assigned, and recently learned clauses that the new one subsumes become garbage.
  What the choice of the level depends on (options, scores, time stamps of the decision queue, number of assumptions) is a record. The scores,
  doubles in the code, are only compared.
\<close>

section \<open>Operations\<close>

record jump_options =
  jo_chronoalways :: bool
  jo_chronolevelim :: nat
  jo_chronoreusetrail :: bool
  jo_use_scores :: bool
  jo_score :: "nat \<Rightarrow> real"
  jo_bumped :: "nat \<Rightarrow> int"
  jo_assumptions :: nat
  jo_eagersubsume :: bool
  jo_eagersubsumelim :: nat

text \<open>The rank of a literal packs its level and its position on the trail, both 32 bit integers, into 64 bits.\<close>

definition analyze_trail_negative_rank :: "isearch \<Rightarrow> int \<Rightarrow> 64 word" where
  "analyze_trail_negative_rank s a = NOT (push_bit 32 (word_of_nat (level_of s a)) OR word_of_nat (pos_of s a))"

definition new_learned_redundant_clause :: "int list \<Rightarrow> isearch \<Rightarrow> (nat \<times> isearch) option" where
  "new_learned_redundant_clause cl s =
     (if length cl < 2 \<or> (\<exists>l \<in> set (drop 2 cl). level_of s l > level_of s (cl ! 0) \<or> level_of s l > level_of s (cl ! 1)) then None
      else do { (c, s) \<leftarrow> new_clause True cl s; s \<leftarrow> watch_clause c s; Some (c, s) })"

definition new_driving_clause :: "int list \<Rightarrow> isearch \<Rightarrow> (nat option \<times> nat \<times> isearch) option" where
  "new_driving_clause cl s =
     (if length cl \<le> 1 then Some (None, 0, s)
      else let cl = sort_key (analyze_trail_negative_rank s) cl; jump = level_of s (cl ! 1)
           in do { (c, s) \<leftarrow> new_learned_redundant_clause cl s; Some (Some c, jump, s) })"

definition score_smaller :: "(nat \<Rightarrow> real) \<Rightarrow> nat \<Rightarrow> nat \<Rightarrow> bool" where
  "score_smaller score a b = (if score a < score b then True else if score a > score b then False else a > b)"

fun best_position :: "jump_options \<Rightarrow> nat \<Rightarrow> int list \<Rightarrow> nat \<times> nat \<Rightarrow> nat \<times> nat" where
  "best_position jo i [] best = best"
| "best_position jo i (lit # lits) best =
     (let idx = nat \<bar>lit\<bar>; best_idx = fst best
      in if best_idx \<noteq> 0 \<and> (if jo_use_scores jo then \<not> score_smaller (jo_score jo) best_idx idx else jo_bumped jo best_idx \<ge> jo_bumped jo idx)
         then best_position jo (i + 1) lits best
         else best_position jo (i + 1) lits (idx, i))"

function reuse_level :: "isearch \<Rightarrow> nat \<Rightarrow> nat \<Rightarrow> nat" where
  "reuse_level s best_pos res =
     (if res + 1 < is_level s \<and> snd (is_control s ! (res + 1)) \<le> best_pos then reuse_level s best_pos (res + 1) else res)"
  by pat_completeness auto
termination
  by (relation "measure (\<lambda>(s, best_pos, res). is_level s - res)") auto

declare reuse_level.simps [simp del]

definition determine_actual_backtrack_level :: "jump_options \<Rightarrow> nat \<Rightarrow> isearch \<Rightarrow> nat option" where
  "determine_actual_backtrack_level jo jump s =
     (if \<not> is_level s > jump then None
      else if is_chrono s = 0 then Some jump
      else if jo_chronoalways jo then Some (is_level s - 1)
      else if jump \<ge> is_level s - 1 then Some jump
      else if jump < jo_assumptions jo then Some jump
      else if is_level s - jump > jo_chronolevelim jo then Some (is_level s - 1)
      else if jo_chronoreusetrail jo then
        let start = snd (is_control s ! (jump + 1)); (best_idx, best_pos) = best_position jo start (drop start (is_trail s)) (0, 0)
        in if best_idx = 0 then None else Some (reuse_level s best_pos jump)
      else Some jump)"

definition subsumed_by :: "isearch \<Rightarrow> nat \<Rightarrow> nat \<Rightarrow> bool" where
  "subsumed_by s c d = (length (filter (\<lambda>lit. lit \<in> set (lits_at s c)) (lits_at s d)) \<ge> length (lits_at s c))"

text \<open>Only called on clauses that are not garbage yet.\<close>

definition mark_garbage :: "nat \<Rightarrow> isearch \<Rightarrow> isearch" where
  "mark_garbage d s = set_clause d ((is_clauses s ! d)\<lparr>ic_garbage := True\<rparr>) s"

fun eager_loop :: "nat \<Rightarrow> nat list \<Rightarrow> isearch \<Rightarrow> isearch" where
  "eager_loop c [] s = s"
| "eager_loop c (d # ds) s =
     (let cl = is_clauses s ! d
      in if c = d \<or> ic_garbage cl \<or> \<not> ic_redundant cl \<or> \<not> subsumed_by s c d then eager_loop c ds s
         else eager_loop c ds (mark_garbage d s))"

definition eagerly_subsume_recently_learned_clauses :: "nat \<Rightarrow> nat \<Rightarrow> isearch \<Rightarrow> isearch" where
  "eagerly_subsume_recently_learned_clauses eagersubsumelim c s =
     eager_loop c (take (eagersubsumelim + 1) (rev [0 ..< length (is_clauses s)])) s"

definition learn_and_jump :: "jump_options \<Rightarrow> int \<Rightarrow> int list \<Rightarrow> isearch \<Rightarrow> isearch option" where
  "learn_and_jump jo uip cl s =
     do { (driving_clause, jump, s) \<leftarrow> new_driving_clause cl s;
          new_level \<leftarrow> determine_actual_backtrack_level jo jump s;
          s \<leftarrow> backtrack new_level s;
          s \<leftarrow> (if uip \<noteq> 0 then search_assign (- uip) (case driving_clause of None \<Rightarrow> Unit | Some c \<Rightarrow> Implied c) s
               else learn_empty_clause s);
          s \<leftarrow> Some (s\<lparr>is_conflict := None\<rparr>);
          case driving_clause of
            None \<Rightarrow> Some s
          | Some c \<Rightarrow> Some (if jo_eagersubsume jo then eagerly_subsume_recently_learned_clauses (jo_eagersubsumelim jo) c s else s) }"

section \<open>The order of the literals\<close>

lemma rank_value:
  assumes "a < 2 ^ 32" "b < 2 ^ 32"
  shows "unat (NOT (push_bit 32 (word_of_nat a) OR word_of_nat b) :: 64 word) = 2 ^ 64 - 1 - (a * 2 ^ 32 + b)"
proof -
  let ?a = "push_bit 32 (word_of_nat a) :: 64 word" and ?b = "word_of_nat b :: 64 word"
  have "take_bit 32 ?b = ?b" using assms(2) by (simp add: take_bit_of_nat take_bit_nat_eq_self)
  then have "bit ?b n \<longrightarrow> n < 32" for n by (metis bit_take_bit_iff)
  then have "\<not> bit ?a n \<or> \<not> bit ?b n" for n by (auto simp: bit_push_bit_iff not_le)
  then have "?a AND ?b = 0" by (intro bit_eqI) (auto simp: bit_and_iff)
  then have "?a OR ?b = ?a + ?b" by (simp add: disjunctive_add_eq_or)
  also have "\<dots> = word_of_nat (a * 2 ^ 32 + b)" by (simp add: push_bit_eq_mult)
  finally have e: "?a OR ?b = word_of_nat (a * 2 ^ 32 + b)" .
  have "a * 2 ^ 32 + b < 2 ^ 64" using assms by simp
  then have "unat (?a OR ?b) = a * 2 ^ 32 + b" unfolding e unat_of_nat by simp
  moreover have "unat (NOT (?a OR ?b)) = unat (- 1 :: 64 word) - unat (?a OR ?b)"
    using unat_sub [of "?a OR ?b" "- 1"] by (simp add: not_eq_complement minus_diff_commute [of "?a OR ?b" 1])
  ultimately show ?thesis by (simp add: unsigned_minus_1_eq_mask mask_eq_exp_minus_1)
qed

lemma rank_order:
  assumes "level_of s x < 2 ^ 32" "pos_of s x < 2 ^ 32" "level_of s y < 2 ^ 32" "pos_of s y < 2 ^ 32"
    and "analyze_trail_negative_rank s x \<le> analyze_trail_negative_rank s y"
  shows "level_of s y \<le> level_of s x"
proof -
  have "2 ^ 64 - 1 - (level_of s x * 2 ^ 32 + pos_of s x) \<le> 2 ^ 64 - 1 - (level_of s y * 2 ^ 32 + pos_of s y)"
    using assms(5) unfolding analyze_trail_negative_rank_def word_le_nat_alt rank_value [OF assms(1,2)] rank_value [OF assms(3,4)] .
  then show ?thesis using assms(1-4) by simp
qed

lemma ranked_clause:
  assumes inv: "search_inv G s" and mx: "i_max_var (is_ivars s) < 2 ^ 31" "is_level s < 2 ^ 31"
    and cl: "\<And>l. l \<in> set cl \<Longrightarrow> - l \<in> set (is_trail s)"
  defines "cs \<equiv> sort_key (analyze_trail_negative_rank s) cl"
  shows "i < j \<Longrightarrow> j < length cl \<Longrightarrow> level_of s (cs ! j) \<le> level_of s (cs ! i)"
proof -
  assume ij: "i < j" "j < length cl"
  note V = search_invD(2) [OF inv] and C = search_invD(3) [OF inv]
  have b: "level_of s l < 2 ^ 32 \<and> pos_of s l < 2 ^ 32" if "l \<in> set cl" for l
  proof -
    have "level_of s l \<le> is_level s" using C cl [OF that] by (auto simp: control_ok_def dest!: bspec)
    moreover have "pos_of s l < i_max_var (is_ivars s)" using pos_of_trail [OF V cl [OF that]] trail_bounded [OF V] by simp
    ultimately show ?thesis using mx by simp
  qed
  have "sorted (map (analyze_trail_negative_rank s) cs)" by (simp add: cs_def)
  then have "analyze_trail_negative_rank s (cs ! i) \<le> analyze_trail_negative_rank s (cs ! j)"
    using ij by (simp add: sorted_iff_nth_mono cs_def)
  moreover have "cs ! i \<in> set cl" "cs ! j \<in> set cl" using ij nth_mem [of i cs] nth_mem [of j cs] by (simp_all add: cs_def)
  ultimately show ?thesis using rank_order b by blast
qed

section \<open>The level to go back to\<close>

lemma best_position_some: "lits \<noteq> [] \<Longrightarrow> 0 \<notin> set lits \<Longrightarrow> fst (best_position jo i lits (0, j)) \<noteq> 0"
proof -
  have keep: "0 \<notin> set ls \<Longrightarrow> fst best \<noteq> 0 \<Longrightarrow> fst (best_position jo k ls best) \<noteq> 0" for k ls best
    by (induction ls arbitrary: k best) (auto simp: Let_def)
  show "lits \<noteq> [] \<Longrightarrow> 0 \<notin> set lits \<Longrightarrow> fst (best_position jo i lits (0, j)) \<noteq> 0"
    by (cases lits) (auto simp: keep)
qed

lemma reuse_level_bounds: "res < is_level s \<Longrightarrow> res \<le> reuse_level s p res \<and> reuse_level s p res < is_level s"
proof (induction s p res rule: reuse_level.induct)
  case (1 s p res)
  then show ?case by (subst (1 2) reuse_level.simps) auto
qed

lemma actual_level_ok:
  assumes inv: "search_inv G s" and j: "jump < is_level s" and top: "u \<in> set (is_trail s)" "level_of s u = is_level s"
  obtains lv where "determine_actual_backtrack_level jo jump s = Some lv" "jump \<le> lv" "lv < is_level s" "is_chrono s = 0 \<Longrightarrow> lv = jump"
proof -
  let ?a = "snd (is_control s ! (jump + 1))"
  note V = search_invD(2) [OF inv] and T = trail_split(1,3) [OF inv j]
  have "\<not> pos_of s u < ?a"
  proof
    assume "pos_of s u < ?a"
    then have "u \<in> set (take ?a (is_trail s))" using pos_of_trail [OF V top(1)] T(1) by (auto simp: in_set_conv_nth intro!: exI [of _ "pos_of s u"])
    then show False using T(2) [of u] top(2) j by simp
  qed
  then have "?a < length (is_trail s)" using pos_of_trail [OF V top(1)] by simp
  then have "fst (best_position jo ?a (drop ?a (is_trail s)) (0, 0)) \<noteq> 0"
    using vals_okD(7) [OF search_invD(2) [OF inv]] by (intro best_position_some) (auto dest: in_set_dropD)
  then obtain i p where b: "best_position jo ?a (drop ?a (is_trail s)) (0, 0) = (i, p)" "i \<noteq> 0" by (metis prod.collapse)
  have "\<exists>lv. determine_actual_backtrack_level jo jump s = Some lv \<and> jump \<le> lv \<and> lv < is_level s \<and> (is_chrono s = 0 \<longrightarrow> lv = jump)"
    using j reuse_level_bounds [OF j, of p] b by (simp add: determine_actual_backtrack_level_def Let_def) (use j in linarith)
  then show ?thesis by (elim exE conjE) (rule that, simp_all)
qed

section \<open>Commuting\<close>

text \<open>
  Going back and assigning do not read the conflict, and going back does not read the clauses: the clause can as well be added, and the conflict
  dropped, after going back.
\<close>

definition put :: "iclause list \<Rightarrow> (int \<Rightarrow> iwatch list) \<Rightarrow> nat option \<Rightarrow> isearch \<Rightarrow> isearch" where
  "put C W k s = s\<lparr>is_clauses := C, is_watches := W, is_conflict := k\<rparr>"

lemma put_frame [simp]:
  "level_of (put C W k s) = level_of s" "is_trail (put C W k s) = is_trail s" "is_level (put C W k s) = is_level s" "is_control (put C W k s) = is_control s"
  "is_vals (put C W k s) = is_vals s" "is_ivars (put C W k s) = is_ivars s" "is_heur (put C W k s) = is_heur s" "is_chrono (put C W k s) = is_chrono s"
  "is_vtab (put C W k s) = is_vtab s" "is_propagated (put C W k s) = is_propagated s"
  by (simp_all add: put_def fun_eq_iff level_of_def)

lemma put_unassign: "unassign l (put C W k s) = map_option (put C W k) (unassign l s)"
  by (simp add: unassign_def put_def)

lemma put_back_loop: "back_loop lv j ls (put C W k s) = map_option (map_prod id (put C W k)) (back_loop lv j ls s)"
proof (induction lv j ls s rule: back_loop.induct)
  case (2 lv j l ls s)
  have upd: "(put C W k s)\<lparr>is_vtab := v\<rparr> = put C W k (s\<lparr>is_vtab := v\<rparr>)" for v by (simp add: put_def)
  show ?case
  proof (cases "level_of s l > lv")
    case True
    then show ?thesis using 2(1) by (cases "unassign l s") (simp_all add: put_unassign)
  next
    case False
    let ?t = "s\<lparr>is_vtab := (is_vtab s)(nat \<bar>l\<bar> := (is_vtab s (nat \<bar>l\<bar>))\<lparr>vr_trail := j\<rparr>)\<rparr>"
    show ?thesis
      using False 2(2) [of ?t] by (cases "back_loop lv (j + 1) ls ?t") (auto simp: upd)
  qed
qed simp

lemma put_backtrack: "backtrack lv (put C W k s) = map_option (put C W k) (backtrack lv s)"
proof -
  have upd: "(put C W k s)\<lparr>is_heur := h\<rparr> = put C W k (s\<lparr>is_heur := h\<rparr>)" for h by (simp add: put_def)
  let ?s = "s\<lparr>is_heur := update_target_and_best ((is_heur s)\<lparr>n_backtracks := n_backtracks (is_heur s) + 1\<rparr>)\<rparr>"
  show ?thesis
    by (cases "back_loop lv (snd (is_control s ! Suc lv)) (drop (snd (is_control s ! Suc lv)) (is_trail s)) ?s")
      (auto simp: backtrack_def upd put_back_loop Let_def, auto simp: put_def)
qed

lemma conflict_search_assign: "search_assign l r (s\<lparr>is_conflict := k\<rparr>) = map_option (\<lambda>s. s\<lparr>is_conflict := k\<rparr>) (search_assign l r s)"
proof -
  have "assignment_level (s\<lparr>is_conflict := k\<rparr>) l ls n = assignment_level s l ls n" for ls n
    by (induction ls arbitrary: n) (simp_all add: level_of_def)
  moreover have "lits_at (s\<lparr>is_conflict := k\<rparr>) = lits_at s" by (simp add: fun_eq_iff lits_at_def)
  ultimately have L: "(case r of Unit \<Rightarrow> Some 0 | Decision \<Rightarrow> Some (is_level (s\<lparr>is_conflict := k\<rparr>))
      | Implied c \<Rightarrow> if is_chrono (s\<lparr>is_conflict := k\<rparr>) \<noteq> 0 then
          if c < length (is_clauses (s\<lparr>is_conflict := k\<rparr>)) then assignment_level (s\<lparr>is_conflict := k\<rparr>) l (lits_at (s\<lparr>is_conflict := k\<rparr>) c) 0 else None
          else Some (is_level (s\<lparr>is_conflict := k\<rparr>))) =
      (case r of Unit \<Rightarrow> Some 0 | Decision \<Rightarrow> Some (is_level s)
      | Implied c \<Rightarrow> if is_chrono s \<noteq> 0 then if c < length (is_clauses s) then assignment_level s l (lits_at s c) 0 else None else Some (is_level s))" (is "_ = ?L")
    by (cases r) simp_all
  have upd: "set_var l n q (s\<lparr>is_conflict := k\<rparr>) = (set_var l n q s)\<lparr>is_conflict := k\<rparr>" "set_true l (t\<lparr>is_conflict := k\<rparr>) = (set_true l t)\<lparr>is_conflict := k\<rparr>"
      "save_phase l (t\<lparr>is_conflict := k\<rparr>) = (save_phase l t)\<lparr>is_conflict := k\<rparr>" for n q t
    by (simp_all add: set_var_def set_true_def save_phase_def)
  have unit: "learn_unit_clause l (t\<lparr>is_conflict := k\<rparr>) = map_option (\<lambda>s. s\<lparr>is_conflict := k\<rparr>) (learn_unit_clause l t)" for t
    by (cases "mark_fixed l (is_ivars t)") (simp_all add: learn_unit_clause_def)
  show ?thesis
  proof (cases ?L)
    case None
    show ?thesis unfolding search_assign_def L None by simp
  next
    case (Some n)
    show ?thesis unfolding search_assign_def L Some
      by (cases "learn_unit_clause l (set_var l n (case r of Implied c \<Rightarrow> if n = 0 then None else Some c | _ \<Rightarrow> None) s)") (auto simp: Let_def upd unit)
  qed
qed

section \<open>Assigning the flipped literal\<close>

text \<open>
  After going back, the clause is added and its only unassigned literal is assigned. The level it gets is at most the one of the other watched
  literal, so that the new clause is settled from this level on.
\<close>

lemma driving_assign:
  assumes P: "prop_inv G u" and conf: "is_conflict u = None" and cl: "distinct cl" "2 \<le> length cl" "entails G cl"
    and vars: "\<And>l. l \<in> set cl \<Longrightarrow> has_var l (is_ivars u) \<and> flags_status l (is_ivars u) = ACTIVE"
    and free: "cl ! 0 \<notin> set (is_trail u)" "- (cl ! 0) \<notin> set (is_trail u)"
    and rest: "\<And>l. l \<in> set cl \<Longrightarrow> l \<noteq> cl ! 0 \<Longrightarrow> - l \<in> set (is_trail u) \<and> level_of u l \<le> level_of u (cl ! 1)"
    and lev: "is_chrono u = 0 \<Longrightarrow> level_of u (cl ! 1) = is_level u"
  obtains s' where "search_assign (cl ! 0) (Implied (length (is_clauses u))) (with_clause True cl u) = Some s'" "prop_inv G s'"
    "pushed (cl ! 0) (level_of s' (cl ! 0)) (reason_of s' (cl ! 0)) (with_clause True cl u) s'" "is_level s' = is_level u"
    "level_of s' (cl ! 0) \<le> level_of u (cl ! 1)"
proof -
  let ?v = "with_clause True cl u" and ?n = "length (is_clauses u)"
  have inv: "search_inv G u" and W: "watch_ok (is_watches u) u" and S: "settled_with (is_watches u) u" using P by (simp_all add: prop_inv_def)
  have iv: "search_inv G ?v" by (rule with_clause_search [OF inv cl vars])
  have Wv: "watch_ok (is_watches ?v) ?v" by (rule with_clause_watch_ok [OF W cl(1,2)])
  note ft = first_two [OF cl(1,2)] and C = search_invD(3) [OF inv]
  obtain s' lv r where s': "search_assign (cl ! 0) (Implied ?n) ?v = Some s'" "pushed (cl ! 0) lv r ?v s'" "is_level s' = is_level ?v" "is_control s' = is_control ?v"
      "search_inv G s'" "is_chrono ?v \<noteq> 0 \<Longrightarrow> lv \<noteq> 0 \<Longrightarrow> \<exists>k \<in> set (lits_at ?v ?n). k \<noteq> cl ! 0 \<and> level_of ?v k = lv"
    by (rule search_assign_implied [OF iv, of ?n "cl ! 0"]) (use ft(1) free rest in auto)
  note F = pushed_of [OF s'(2)]
  have t: "is_trail s' = is_trail u @ [cl ! 0]" "is_propagated s' = is_propagated u" "is_watches s' = is_watches ?v" "is_clauses s' = is_clauses ?v" "is_conflict s' = None"
    using s'(2) conf by (simp_all add: pushed_def)
  have lv: "lv \<le> level_of u (cl ! 1)"
  proof (cases "is_chrono u = 0")
    case True
    have "level_of s' (cl ! 0) \<le> is_level s'" using search_invD(3) [OF s'(5)] t(1) by (simp add: control_ok_def)
    then show ?thesis using F(1) s'(3) lev [OF True] by simp
  next
    case False
    then show ?thesis using s'(6) rest by (cases "lv = 0") auto
  qed
  have pr: "is_propagated ?v \<le> length (is_trail ?v)" using C by (simp add: control_ok_def)
  have settled: "settled_to k j (is_watches s') s'"
    if st: "settled_to k j' (is_watches u) u" "min j (is_propagated u) \<le> j'" and low: "\<And>p. p < min j (is_propagated u) \<Longrightarrow> level_of u (is_trail u ! p) < k" for k j j'
    unfolding settled_to_def
  proof (intro allI impI ballI)
    fix p w assume p: "p < min j (is_propagated s')" and w: "w \<in> set (is_watches s' (- (is_trail s' ! p)))"
    have old: "settled_to k j (is_watches u) s'"
      by (rule settled_pushed [OF s'(2) _ _ pr with_clause_settled [OF W st(1)], of j k]) (use free st(2) in simp_all)
    have pl: "p < length (is_trail u)" "is_trail s' ! p = is_trail u ! p" using p pr t(1,2) by (simp_all add: nth_append)
    show "ic_garbage (is_clauses s' ! iw_clause w) \<or> (\<exists>l \<in> set (is_trail s') \<inter> set (lits_at s' (iw_clause w)). level_of s' l < k)"
    proof (cases "w \<in> set (is_watches u (- (is_trail s' ! p)))")
      case True
      then show ?thesis using old p by (simp add: settled_to_def)
    next
      case False
      then have new: "- (is_trail u ! p) = cl ! 0 \<or> - (is_trail u ! p) = cl ! 1" "iw_clause w = ?n"
        using w pl(2) t(3) with_clause_watches [OF cl(1,2), of True u "- (is_trail u ! p)"] by (auto split: if_splits)
      then have "cl ! 1 = - (is_trail u ! p)" using free(2) nth_mem [OF pl(1)] by (metis minus_minus)
      then have "level_of u (cl ! 1) < k" using low [of p] p t(2) by simp
      then have "level_of s' (cl ! 0) < k" using lv F(1) by simp
      moreover have "cl ! 0 \<in> set (is_trail s') \<inter> set (lits_at s' (iw_clause w))" using t(1) new(2) F(8) ft(1) by simp
      ultimately show ?thesis by blast
    qed
  qed
  have "settled_with (is_watches s') s'" unfolding settled_with_def
  proof (intro conjI allI impI)
    fix k assume k: "0 < k \<and> k \<le> is_level s'"
    have st: "starts_level u k (is_control u ! k)" using C k s'(3) by (simp add: control_ok_def)
    show "settled_to k (snd (is_control s' ! k)) (is_watches s') s'"
      by (rule settled [of k "snd (is_control u ! k)"]) (use S k s'(3,4) st in \<open>auto simp: settled_with_def starts_level_def\<close>)
  next
    have "settled_to (is_level u + 1) (length (is_trail u)) (is_watches u) u" using S conf by (simp add: settled_with_def)
    then show "settled_to (is_level s' + 1) (length (is_trail s')) (is_watches s') s'" unfolding s'(3) with_clause_of
      by (rule settled) (use pr C nth_mem in \<open>auto simp: control_ok_def less_Suc_eq_le\<close>)
  qed
  then have "prop_inv G s'" using s'(5) Wv pushed_watch_ok [OF s'(2)] t(3) by (simp add: prop_inv_def)
  then show ?thesis using that [OF s'(1)] s'(2,3) F(1,3) lv by simp
qed

lemma unit_assign:
  assumes P: "prop_inv G u" and conf: "is_conflict u = None" and l: "l \<notin> set (is_trail u)" "- l \<notin> set (is_trail u)" "has_var l (is_ivars u)"
    "flags_status l (is_ivars u) = ACTIVE" "entails G [l]" and lev: "is_chrono u = 0 \<Longrightarrow> is_level u = 0"
  obtains s' where "search_assign l Unit u = Some s'" "prop_inv G s'" "pushed l 0 None u s'" "is_level s' = is_level u"
proof -
  have inv: "search_inv G u" and W: "watch_ok (is_watches u) u" and S: "settled_with (is_watches u) u" using P by (simp_all add: prop_inv_def)
  note I = search_invD [OF inv]
  have l0: "l \<noteq> 0" using l(3) by (simp add: has_var_def)
  have val: "is_vals u \<bar>l\<bar> = 0" using vals_iff(3) [OF I(2), of "\<bar>l\<bar>"] l(1,2) l0 by (cases "l < 0") auto
  obtain s' where s': "search_assign l Unit u = Some s'" "pushed l 0 None u s'" "is_level s' = is_level u" "is_control s' = is_control u"
    by (rule search_assign_pushes [OF I(1) l(3) val, of Unit 0]) (use l(4) in auto)
  have "control_ok s'" by (rule pushed_control [OF s'(2) I(2,3) l(1,2) _ s'(3,4)]) (use lev in simp_all)
  moreover have "reason_ok G s' l" using pushed_of(1,3) [OF s'(2)] l(5) by (simp add: reason_ok_def)
  ultimately have iv: "search_inv G s'" using pushed_inv [OF inv s'(2) l(1-3)] s'(4) by simp
  have pr: "is_propagated u \<le> length (is_trail u)" using I(3) by (simp add: control_ok_def)
  have t: "is_watches s' = is_watches u" "is_conflict s' = None" using s'(2) conf by (simp_all add: pushed_def)
  have st: "settled_to k j W s'" if "settled_to k j' W u" "min j (is_propagated u) \<le> j'" for k j j' W
    by (rule settled_pushed [OF s'(2) l(1,2) pr that]) simp
  have "settled_to (is_level u + 1) (length (is_trail s')) (is_watches u) s'"
    by (rule st [of _ "length (is_trail u)"]) (use S conf pr in \<open>simp_all add: settled_with_def\<close>)
  moreover have "settled_to k (snd (is_control u ! k)) (is_watches u) s'" if "0 < k \<and> k \<le> is_level u" for k
    by (rule st [of _ "snd (is_control u ! k)"]) (use S that in \<open>simp_all add: settled_with_def\<close>)
  ultimately have "settled_with (is_watches s') s'" using s'(3,4) t(1) by (simp add: settled_with_def)
  then have "prop_inv G s'" using iv W pushed_watch_ok [OF s'(2)] t(1) by (simp add: prop_inv_def)
  then show ?thesis using that s'(1-3) by blast
qed

section \<open>Subsumed clauses\<close>

lemma mark_garbage_inv:
  assumes P: "prop_inv G s" and d: "d < length (is_clauses s)"
  shows "prop_inv G (mark_garbage d s)"
proof -
  let ?s = "mark_garbage d s"
  have inv: "search_inv G s" and W: "watch_ok (is_watches s) s" and S: "settled_with (is_watches s) s" using P by (simp_all add: prop_inv_def)
  have f: "lits_at ?s = lits_at s" "\<And>c. c < length (is_clauses s) \<Longrightarrow> ic_garbage (is_clauses ?s ! c) = (c = d \<or> ic_garbage (is_clauses s ! c))" "is_watches ?s = is_watches s"
    "length (is_clauses ?s) = length (is_clauses s)"
    using d by (auto simp: mark_garbage_def set_clause_def lits_at_def fun_eq_iff nth_list_update)
  have "search_inv G ?s" unfolding mark_garbage_def
    by (rule set_clause_inv [OF inv d]) (use search_invD(5) [OF inv d] in \<open>simp_all add: clause_ok_def lits_at_def\<close>)
  moreover have "watch_ok (is_watches s) ?s"
    unfolding watch_ok_def
    using watch_okD(1,2) [OF W] watch_okD(3) [OF W] f by (auto simp: watch_entry_def watched_def)
  moreover have "settled_to k t (is_watches s) ?s" if "settled_to k t (is_watches s) s" for k t
    unfolding settled_to_def
  proof (intro allI impI ballI)
    fix p w assume p: "p < min t (is_propagated ?s)" and w: "w \<in> set (is_watches s (- (is_trail ?s ! p)))"
    have "iw_clause w < length (is_clauses s)" using watch_okD(2) [OF W w] by (simp add: watch_entry_def)
    then show "ic_garbage (is_clauses ?s ! iw_clause w) \<or> (\<exists>l \<in> set (is_trail ?s) \<inter> set (lits_at ?s (iw_clause w)). level_of ?s l < k)"
      using that p w f by (auto simp: settled_to_def mark_garbage_def)
  qed
  ultimately show ?thesis using S f(3) by (simp add: prop_inv_def settled_with_def mark_garbage_def)
qed

text \<open>Only redundant clauses that contain all literals of the new clause become garbage.\<close>

definition subsumes_only :: "nat \<Rightarrow> isearch \<Rightarrow> isearch \<Rightarrow> bool" where
  "subsumes_only c s s' =
     (is_trail s' = is_trail s \<and> is_level s' = is_level s \<and> is_conflict s' = is_conflict s \<and> level_of s' = level_of s \<and> lits_at s' = lits_at s \<and>
      length (is_clauses s') = length (is_clauses s) \<and>
      (\<forall>d < length (is_clauses s). ic_redundant (is_clauses s' ! d) = ic_redundant (is_clauses s ! d) \<and>
         (ic_garbage (is_clauses s ! d) \<longrightarrow> ic_garbage (is_clauses s' ! d)) \<and>
         (ic_garbage (is_clauses s' ! d) \<longrightarrow> ic_garbage (is_clauses s ! d) \<or> d \<noteq> c \<and> ic_redundant (is_clauses s ! d) \<and> set (lits_at s c) \<subseteq> set (lits_at s d))))"

lemma subsumes_only_refl: "subsumes_only c s s"
  by (simp add: subsumes_only_def)

lemma subsumed_subset:
  assumes "subsumed_by s c d" "distinct (lits_at s c)" "distinct (lits_at s d)"
  shows "set (lits_at s c) \<subseteq> set (lits_at s d)"
proof -
  have "card (set (filter (\<lambda>lit. lit \<in> set (lits_at s c)) (lits_at s d))) = length (filter (\<lambda>lit. lit \<in> set (lits_at s c)) (lits_at s d))"
    by (rule distinct_card [OF distinct_filter [OF assms(3)]])
  moreover have "set (filter (\<lambda>lit. lit \<in> set (lits_at s c)) (lits_at s d)) = set (lits_at s d) \<inter> set (lits_at s c)" by auto
  ultimately have "card (set (lits_at s c)) \<le> card (set (lits_at s d) \<inter> set (lits_at s c))"
    using assms(1) distinct_card [OF assms(2)] unfolding subsumed_by_def by simp
  then have "set (lits_at s d) \<inter> set (lits_at s c) = set (lits_at s c)" by (intro card_seteq) auto
  then show ?thesis by blast
qed

lemma eager_loop_ok:
  assumes "prop_inv G s" "c < length (is_clauses s)" "\<And>d. d \<in> set ds \<Longrightarrow> d < length (is_clauses s)"
  shows "prop_inv G (eager_loop c ds s) \<and> subsumes_only c s (eager_loop c ds s)"
  using assms
proof (induction ds arbitrary: s)
  case Nil
  then show ?case by (simp add: subsumes_only_refl)
next
  case (Cons d ds)
  let ?cl = "is_clauses s ! d" and ?s = "mark_garbage d s"
  have d: "d < length (is_clauses s)" using Cons.prems(3) by simp
  show ?case
  proof (cases "c = d \<or> ic_garbage ?cl \<or> \<not> ic_redundant ?cl \<or> \<not> subsumed_by s c d")
    case True
    then show ?thesis using Cons.IH [OF Cons.prems(1,2)] Cons.prems(3) by (simp add: Let_def)
  next
    case False
    have "distinct (lits_at s b)" if "b < length (is_clauses s)" for b
      using search_invD(5) [of G s b] Cons.prems(1) that by (simp add: prop_inv_def clause_ok_def lits_at_def)
    then have sub: "set (lits_at s c) \<subseteq> set (lits_at s d)" using subsumed_subset False Cons.prems(2) d by blast
    have f: "lits_at ?s = lits_at s" "length (is_clauses ?s) = length (is_clauses s)" "level_of ?s = level_of s" "is_trail ?s = is_trail s" "is_level ?s = is_level s" "is_conflict ?s = is_conflict s"
      "\<And>b. b < length (is_clauses s) \<Longrightarrow> ic_garbage (is_clauses ?s ! b) = (b = d \<or> ic_garbage (is_clauses s ! b)) \<and> ic_redundant (is_clauses ?s ! b) = ic_redundant (is_clauses s ! b)"
      using d by (auto simp: mark_garbage_def set_clause_def lits_at_def fun_eq_iff nth_list_update level_of_def)
    have r: "prop_inv G (eager_loop c ds ?s) \<and> subsumes_only c ?s (eager_loop c ds ?s)"
      by (rule Cons.IH) (use mark_garbage_inv [OF Cons.prems(1) d] Cons.prems(2,3) f(2) in auto)
    have "subsumes_only c s (eager_loop c ds ?s)"
      using conjunct2 [OF r] f sub False unfolding subsumes_only_def by auto
    then show ?thesis using r False by (simp add: Let_def)
  qed
qed

lemma eager_subsume_ok:
  assumes "prop_inv G s" "c < length (is_clauses s)"
  shows "prop_inv G (eagerly_subsume_recently_learned_clauses m c s) \<and> subsumes_only c s (eagerly_subsume_recently_learned_clauses m c s)"
  unfolding eagerly_subsume_recently_learned_clauses_def
  by (rule eager_loop_ok [OF assms]) (auto dest: in_set_takeD)

section \<open>Learning and jumping back\<close>

text \<open>A learned clause, as conflict analysis leaves it: falsified above the root, with a single literal of the conflict level.\<close>

definition learned :: "clause set \<Rightarrow> isearch \<Rightarrow> int \<Rightarrow> int list \<Rightarrow> bool" where
  "learned G s u cl =
     (entails G cl \<and> distinct (map abs cl) \<and> - u \<in> set cl \<and> level_of s u = is_level s \<and>
      (\<forall>l \<in> set cl. - l \<in> set (is_trail s) \<and> 0 < level_of s l \<and> flags_status l (is_ivars s) = ACTIVE \<and> (l \<noteq> - u \<longrightarrow> level_of s l < is_level s)))"

lemma learnedD:
  assumes "learned G s u cl"
  shows "entails G cl" "distinct cl" "- u \<in> set cl" "level_of s u = is_level s" "0 < is_level s" "u \<in> set (is_trail s)"
    "l \<in> set cl \<Longrightarrow> - l \<in> set (is_trail s)" "l \<in> set cl \<Longrightarrow> flags_status l (is_ivars s) = ACTIVE" "l \<in> set cl \<Longrightarrow> l \<noteq> - u \<Longrightarrow> level_of s l < is_level s"
  using assms by (auto simp: learned_def distinct_map dest!: bspec)

text \<open>Going back with a conflict.\<close>

lemma conflict_backtrack:
  assumes P: "prop_inv G s" and lv: "lv < is_level s"
  obtains u where "prop_inv G u" "backtracked lv (s\<lparr>is_conflict := None\<rparr>) u"
    "\<And>C W k. backtrack lv (put C W k s) = Some (put C W k u)"
proof -
  let ?s = "s\<lparr>is_conflict := None\<rparr>"
  have inv: "search_inv G ?s" using search_inv_conflict [of G s None] P by (simp add: prop_inv_def)
  have "watch_ok W ?s = watch_ok W s" for W by (rule watch_ok_same) (simp_all add: lits_at_def)
  then have "level_inv G ?s" using inv P by (simp add: level_inv_def prop_inv_def settled_with_def settled_to_def level_of_def lits_at_def)
  then obtain u where u: "backtrack lv ?s = Some u" "backtracked lv ?s u" "prop_inv G u" by (rule backtrack_ok) (use lv in simp_all)
  have "backtrack lv (put C W k s) = Some (put C W k u)" for C W k
  proof -
    have "put C W k s = put C W k ?s" by (simp add: put_def)
    then show ?thesis using put_backtrack [of lv C W k ?s] u(1) by simp
  qed
  then show ?thesis using that u(2,3) by blast
qed

lemma backtracked_learned:
  assumes inv: "search_inv G s" and b: "backtracked lv (s\<lparr>is_conflict := None\<rparr>) u" and c: "learned G s w cl" and lv: "lv < is_level s"
  shows "- w \<notin> set (is_trail u)" "w \<notin> set (is_trail u)" "is_conflict u = None" "is_ivars u = is_ivars s" "is_clauses u = is_clauses s" "is_watches u = is_watches s"
    "level_of u = level_of s" "is_level u = lv" "is_chrono u = is_chrono s" "is_trail u = filter (\<lambda>l. level_of s l \<le> lv) (is_trail s)"
    "\<And>l. l \<in> set cl \<Longrightarrow> has_var l (is_ivars u) \<and> flags_status l (is_ivars u) = ACTIVE"
proof -
  have lev: "level_of (s\<lparr>is_conflict := None\<rparr>) = level_of s" by (simp add: fun_eq_iff level_of_def)
  then show t: "is_trail u = filter (\<lambda>l. level_of s l \<le> lv) (is_trail s)" and iv: "is_ivars u = is_ivars s"
    and "is_conflict u = None" "is_clauses u = is_clauses s" "is_watches u = is_watches s" "level_of u = level_of s" "is_level u = lv" "is_chrono u = is_chrono s"
    using b by (simp_all add: backtracked_def)
  show "- w \<notin> set (is_trail u)" "w \<notin> set (is_trail u)"
    using t learnedD(4,6) [OF c] lv vals_okD(2) [OF search_invD(2) [OF inv]] by auto
  show "has_var l (is_ivars u) \<and> flags_status l (is_ivars u) = ACTIVE" if "l \<in> set cl" for l
    using iv learnedD(7,8) [OF c that] vals_okD(3) [OF search_invD(2) [OF inv], of "- l"] by simp
qed

text \<open>What holds after the jump.\<close>

definition jumped :: "clause set \<Rightarrow> isearch \<Rightarrow> int \<Rightarrow> int list \<Rightarrow> isearch \<Rightarrow> bool" where
  "jumped G s w cl s' =
     (prop_inv G s' \<and> is_conflict s' = None \<and> is_level s' < is_level s \<and>
      is_trail s' = filter (\<lambda>l. level_of s l \<le> is_level s') (is_trail s) @ [- w] \<and>
      (length cl = 1 \<and> level_of s' w = 0 \<or>
       (\<exists>c < length (is_clauses s'). mset (lits_at s' c) = mset cl \<and> ic_redundant (is_clauses s' ! c) \<and> \<not> ic_garbage (is_clauses s' ! c))))"

lemma jump_unit:
  assumes P: "prop_inv G s" and c: "learned G s w [- w]"
  shows "\<exists>s'. learn_and_jump jo w [- w] s = Some s' \<and> jumped G s w [- w] s'"
proof -
  have inv: "search_inv G s" using P by (simp add: prop_inv_def)
  have w0: "w \<noteq> 0" using vals_okD(6) [OF search_invD(2) [OF inv] learnedD(6) [OF c]] .
  obtain lv where lv: "determine_actual_backtrack_level jo 0 s = Some lv" "lv < is_level s" "is_chrono s = 0 \<Longrightarrow> lv = 0"
    by (rule actual_level_ok [OF inv learnedD(5,6,4) [OF c]]) (rule that)
  obtain u where u: "prop_inv G u" "backtracked lv (s\<lparr>is_conflict := None\<rparr>) u" "\<And>C W k. backtrack lv (put C W k s) = Some (put C W k u)"
    by (rule conflict_backtrack [OF P lv(2)]) (rule that)
  note B = backtracked_learned [OF inv u(2) c lv(2)]
  have bt: "backtrack lv s = Some (u\<lparr>is_conflict := is_conflict s\<rparr>)"
    using u(3) [of "is_clauses s" "is_watches s" "is_conflict s"] B(5,6) by (simp add: put_def)
  obtain s' where s': "search_assign (- w) Unit u = Some s'" "prop_inv G s'" "pushed (- w) 0 None u s'" "is_level s' = is_level u"
    by (rule unit_assign [OF u(1) B(3), of "- w"]) (use B(1,2,8,9) B(11) [of "- w"] learnedD(1) [OF c] lv(3) in auto)
  have cn: "is_conflict s' = None" using s'(3) B(3) by (simp add: pushed_def)
  have "learn_and_jump jo w [- w] s = Some s'"
    using lv(1) bt s'(1) w0 cn by (simp add: learn_and_jump_def new_driving_clause_def conflict_search_assign)
  moreover have "jumped G s w [- w] s'"
    using s' cn B(8,10) lv(2) pushed_of(1) [OF s'(3)] by (simp add: jumped_def pushed_def)
  ultimately show ?thesis by blast
qed

text \<open>The literals in the order of their ranks: the flipped literal comes first, the highest of the others second.\<close>

lemma ranked_learned:
  assumes inv: "search_inv G s" and mx: "i_max_var (is_ivars s) < 2 ^ 31" "is_level s < 2 ^ 31" and c: "learned G s w cl" and len: "2 \<le> length cl"
  defines "cs \<equiv> sort_key (analyze_trail_negative_rank s) cl"
  shows "set cs = set cl" "distinct cs" "2 \<le> length cs" "mset cs = mset cl" "cs ! 0 = - w" "cs ! 1 \<in> set cl" "level_of s (cs ! 1) < is_level s"
    "\<And>l. l \<in> set cl \<Longrightarrow> l \<noteq> - w \<Longrightarrow> level_of s l \<le> level_of s (cs ! 1)" "\<forall>l \<in> set (drop 2 cs). level_of s l \<le> level_of s (cs ! 1)" "entails G cs"
proof -
  show st: "set cs = set cl" "2 \<le> length cs" "mset cs = mset cl" using len by (simp_all add: cs_def)
  show d: "distinct cs" using learnedD(2) [OF c] by (simp add: cs_def)
  show "entails G cs" using learnedD(1) [OF c] st(1) by (simp add: entails_def sat_clause_def)
  have ord: "level_of s (cs ! j) \<le> level_of s (cs ! i)" if "i < j" "j < length cs" for i j
    using ranked_clause [OF inv mx, of cl i j] learnedD(7) [OF c] that by (simp add: cs_def)
  have at: "\<exists>j < length cs. cs ! j = l" if "l \<in> set cl" for l using that st(1) by (metis in_set_conv_nth)
  obtain i where i: "i < length cs" "cs ! i = - w" using at [OF learnedD(3) [OF c]] by blast
  then have "is_level s \<le> level_of s (cs ! 0)" using ord [of 0 i] learnedD(4) [OF c] by (cases i) auto
  moreover have "cs ! 0 \<in> set cl" using st by (metis nth_mem less_le_trans pos2)
  ultimately show z: "cs ! 0 = - w" using learnedD(9) [OF c, of "cs ! 0"] by fastforce
  note ft = first_two [OF d st(2)]
  show o: "cs ! 1 \<in> set cl" using ft(2) st(1) by simp
  show "level_of s (cs ! 1) < is_level s" using learnedD(9) [OF c o] ft(3) z by simp
  show low: "level_of s l \<le> level_of s (cs ! 1)" if l: "l \<in> set cl" "l \<noteq> - w" for l
  proof -
    obtain j where j: "j < length cs" "cs ! j = l" using at [OF l(1)] by blast
    then have "j = 1 \<or> 1 < j" using l(2) z by (cases j) auto
    then show ?thesis using ord [of 1 j] j by auto
  qed
  have "level_of s (cs ! (2 + j)) \<le> level_of s (cs ! 1)" if "j < length cs - 2" for j using ord [of 1 "2 + j"] that by simp
  then show "\<forall>l \<in> set (drop 2 cs). level_of s l \<le> level_of s (cs ! 1)" by (auto simp: in_set_conv_nth)
qed

lemma jump_clause:
  assumes P: "prop_inv G s" and mx: "i_max_var (is_ivars s) < 2 ^ 31" "is_level s < 2 ^ 31" and c: "learned G s w cl" and len: "2 \<le> length cl"
  shows "\<exists>s'. learn_and_jump jo w cl s = Some s' \<and> jumped G s w cl s'"
proof -
  have inv: "search_inv G s" using P by (simp add: prop_inv_def)
  have w0: "w \<noteq> 0" using vals_okD(6) [OF search_invD(2) [OF inv] learnedD(6) [OF c]] .
  define cs where "cs = sort_key (analyze_trail_negative_rank s) cl"
  note R = ranked_learned [OF inv mx c len, folded cs_def]
  let ?v = "with_clause True cs s" and ?n = "length (is_clauses s)" and ?j = "level_of s (cs ! 1)"
  have vars: "has_var l (is_ivars s) \<and> flags_status l (is_ivars s) = ACTIVE" if "l \<in> set cs" for l
    using that R(1) learnedD(7,8) [OF c, of l] vals_okD(3) [OF search_invD(2) [OF inv], of "- l"] by simp
  have "level_of s (cs ! 1) \<le> level_of s (cs ! 0)" using R(5,7) learnedD(4) [OF c] by simp
  then have "\<not> (\<exists>l \<in> set (drop 2 cs). level_of s l > level_of s (cs ! 0) \<or> level_of s l > level_of s (cs ! 1))" using R(9) by force
  then have "new_learned_redundant_clause cs s = Some (?n, ?v)"
    using with_clause_run [OF R(2,3), of True s] R(3) by (auto simp: new_learned_redundant_clause_def)
  then have new: "new_driving_clause cl s = Some (Some ?n, ?j, ?v)" using len by (simp add: new_driving_clause_def cs_def Let_def)
  have iv: "search_inv G ?v" by (rule with_clause_search [OF inv R(2,3,10) vars])
  obtain lv where lv: "determine_actual_backtrack_level jo ?j ?v = Some lv" "?j \<le> lv" "lv < is_level s" "is_chrono s = 0 \<Longrightarrow> lv = ?j"
    by (rule actual_level_ok [OF iv, of ?j w jo]) (use R(7) learnedD(4,6) [OF c] in auto)
  obtain u where u: "prop_inv G u" "backtracked lv (s\<lparr>is_conflict := None\<rparr>) u" "\<And>C W k. backtrack lv (put C W k s) = Some (put C W k u)"
    by (rule conflict_backtrack [OF P lv(3)]) (rule that)
  note B = backtracked_learned [OF inv u(2) c lv(3)]
  have "?v = put (is_clauses ?v) (is_watches ?v) (is_conflict s) s" by (simp add: with_clause_def put_def)
  moreover have "put (is_clauses ?v) (is_watches ?v) (is_conflict s) u = (with_clause True cs u)\<lparr>is_conflict := is_conflict s\<rparr>"
    using B(5,6) by (simp add: with_clause_def put_def)
  ultimately have bt: "backtrack lv ?v = Some ((with_clause True cs u)\<lparr>is_conflict := is_conflict s\<rparr>)" using u(3) by metis
  have rest: "- l \<in> set (is_trail u) \<and> level_of u l \<le> level_of u (cs ! 1)" if "l \<in> set cs" "l \<noteq> cs ! 0" for l
    using that R(1,5) R(8) [of l] learnedD(7) [OF c, of l] lv(2) unfolding B(7,10) by auto
  obtain t where t: "search_assign (cs ! 0) (Implied (length (is_clauses u))) (with_clause True cs u) = Some t" "prop_inv G t"
      "pushed (cs ! 0) (level_of t (cs ! 0)) (reason_of t (cs ! 0)) (with_clause True cs u) t" "is_level t = is_level u"
    by (rule driving_assign [OF u(1) B(3) R(2,3,10) _ _ _ rest]) (use B R(1,5) lv(4) in auto)
  have tt: "is_trail t = is_trail u @ [- w]" "is_conflict t = None" "is_clauses t = is_clauses (with_clause True cs u)" "lits_at t ?n = cs"
    using t(3) B(3,5) R(5) pushed_of(8) [OF t(3), of ?n] with_clause_of(14) [of True cs u] by (simp_all add: pushed_def)
  have n: "?n < length (is_clauses t)" "ic_redundant (is_clauses t ! ?n)" "\<not> ic_garbage (is_clauses t ! ?n)" using tt(3) B(5) by simp_all
  let ?s' = "if jo_eagersubsume jo then eagerly_subsume_recently_learned_clauses (jo_eagersubsumelim jo) ?n t else t"
  have "t\<lparr>is_conflict := None\<rparr> = t" using tt(2) by simp
  then have "learn_and_jump jo w cl s = Some ?s'"
    using new lv(1) bt t(1) w0 B(5) R(5) by (simp add: learn_and_jump_def conflict_search_assign)
  moreover have "prop_inv G ?s' \<and> subsumes_only ?n t ?s'"
    using eager_subsume_ok [OF t(2) n(1), of "jo_eagersubsumelim jo"] t(2) subsumes_only_refl by simp
  then have "jumped G s w cl ?s'"
    unfolding jumped_def subsumes_only_def using tt n R(4) lv(3) t(4) B(8,10) by (intro conjI disjI2 exI [of _ ?n]) auto
  ultimately show ?thesis by blast
qed

theorem learn_and_jump_ok:
  assumes "prop_inv G s" "i_max_var (is_ivars s) < 2 ^ 31" "is_level s < 2 ^ 31" "learned G s w cl"
  shows "\<exists>s'. learn_and_jump jo w cl s = Some s' \<and> jumped G s w cl s'"
proof (cases "2 \<le> length cl")
  case False
  then have "cl = [- w]" using learnedD(3) [OF assms(4)] by (cases cl) (auto simp: not_le)
  then show ?thesis using jump_unit [OF assms(1)] assms(4) by simp
qed (rule jump_clause [OF assms])

lemma derived_is_learned:
  assumes inv: "search_inv G s" and L: "is_level s \<noteq> 0" and c: "is_conflict s = Some c" "\<exists>l \<in> set (lits_at s c). level_of s l = is_level s"
  obtains u an kept where "derive_clause s = Some (u, an)" "minimize_clause s D an minimizing_new = Some (an\<lparr>an_clause := kept\<rparr>, minimizing_new)"
    "learned G s u (an_clause an)" "learned G s u kept"
proof -
  obtain u an kept where k: "derive_clause s = Some (u, an)" "minimize_clause s D an minimizing_new = Some (an\<lparr>an_clause := kept\<rparr>, minimizing_new)"
      "set kept \<subseteq> set (an_clause an)" "- u \<in> set kept" "level_of s u = is_level s" "entails G (an_clause an)" "entails G kept" "distinct (map abs (an_clause an))" "distinct (map abs kept)"
      "\<And>l. l \<in> set (an_clause an) \<Longrightarrow> - l \<in> set (is_trail s) \<and> 0 < level_of s l \<and> flags_status l (is_ivars s) = ACTIVE \<and> (l \<noteq> - u \<longrightarrow> level_of s l < is_level s)"
    by (rule learned_clause_ok [OF assms, of D]) (rule that)
  have "learned G s u (an_clause an)" unfolding learned_def using k(3-6,8,10) by blast
  moreover have "learned G s u kept" unfolding learned_def using k(3-5,7,9,10) by blast
  ultimately show ?thesis by (rule that [OF k(1,2)])
qed

end
