(* ===== verification/Examples_Search.thy ===== *)
theory Examples_Search
  imports Cadical_Decide Cadical_Jump
begin

text \<open>
  States of the search on which the properties of propagation, backtracking and failed assumptions are instantiated: the implications from 1 to 2
  and from 2 to 3 are loaded, 1 is decided and propagated, the assumption 2, which holds then, opens a level without decision, and the assumption that 3 is
  false fails.
\<close>

definition ex_svars :: ivars where
  "ex_svars = \<lparr>i_max_var = 3, i_status = [UNUSED, ACTIVE, ACTIVE, ACTIVE], st_vars = 3, st_unused = 0, st_active = 3, st_inactive = 0,
     st_reactivated = 0, now_fixed = 0, now_eliminated = 0, now_substituted = 0, now_pure = 0, all_fixed = 0,
     all_eliminated = 0, all_substituted = 0, all_pure = 0\<rparr>"

definition ex_chain :: "clause list" where
  "ex_chain = [[- 1, 2], [- 2, 3]]"

definition ex_fresh :: isearch where
  "ex_fresh = (internal_new True 1)\<lparr>is_ivars := ex_svars\<rparr>"

definition ex_loaded :: isearch where
  "ex_loaded = snd (the (add_original_lits (flat_lits ex_chain) ([], ex_fresh)))"

definition ex_root :: isearch where
  "ex_root = snd (the (already_solved False ex_loaded))"

definition ex_decided :: isearch where
  "ex_decided = the (search_assume_decision 1 ex_root)"

definition ex_propagated :: isearch where
  "ex_propagated = snd (the (propagate ex_decided))"

definition ex_assumer :: assumer where
  "ex_assumer = \<lparr>as_assumptions = [1, 2, - 3], as_assumed = {1, 2, - 3}, as_failed = {}, as_frozen = (\<lambda>_. 1), as_marked_failed = False,
     as_conflictsize = 0, as_constraint = [], as_unsat_constraint = False\<rparr>"

definition ex_pseudo :: isearch where
  "ex_pseudo = fst (snd (the (decide 0 ex_propagated ex_assumer)))"

definition ex_failing :: assumer where
  "ex_failing = snd (snd (the (decide 0 ex_pseudo ex_assumer)))"

lemma ex_svars_ok: "stats_ok ex_svars" "i_max_var ex_svars = 3"
  "\<And>l. l \<in> {1, 2, 3, - 1, - 2, - 3} \<Longrightarrow> has_var l ex_svars \<and> flags_status l ex_svars = ACTIVE"
  by (auto simp: stats_ok_def ex_svars_def count_status_def has_var_def flags_status_def)

lemma ex_fresh_ok: "idle {} ex_fresh" "\<And>l. l \<in> {1, 2, 3, - 1, - 2, - 3} \<Longrightarrow> lit_ok ex_fresh l"
  using idle_new [OF ex_svars_ok(1)] ex_svars_ok(3) by (simp_all add: ex_fresh_def)

lemma ex_models: "sat_all (\<lambda>_. True) (set ex_chain)" "sat_all (\<lambda>_. False) (set ex_chain)"
  by (simp_all add: ex_chain_def sat_all_def lit_true_def)

lemma ex_loaded_ok: "idle (set ex_chain) ex_loaded" "is_level ex_loaded = 0" "i_max_var (is_ivars ex_loaded) = 3" "\<not> is_unsat ex_loaded"
proof -
  have "\<exists>s'. add_original_lits (flat_lits ex_chain) ([], ex_fresh) = Some ([], s') \<and> idle (set ex_chain \<union> {}) s' \<and> carries ex_fresh s' \<and>
      i_max_var (is_ivars s') = i_max_var (is_ivars ex_fresh) \<and> (is_level ex_fresh = 0 \<longrightarrow> is_level s' = 0) \<and> (ex_chain = [] \<longrightarrow> s' = ex_fresh)"
    by (rule add_formula_ok [OF ex_fresh_ok(1)], rule ex_fresh_ok(2)) (auto simp: ex_chain_def)
  then show i: "idle (set ex_chain) ex_loaded" and "is_level ex_loaded = 0" "i_max_var (is_ivars ex_loaded) = 3"
    using ex_svars_ok(2) by (auto simp: ex_loaded_def ex_fresh_def internal_new_def)
  show "\<not> is_unsat ex_loaded" using search_invD(7) [of "set ex_chain" ex_loaded] i ex_models(1) by (auto simp: idle_def calm_def level_inv_def)
qed

lemma ex_root_ok: "at_root (set ex_chain) ex_root" "\<not> is_unsat ex_root" "\<And>l. l \<in> {1, 2, 3, - 1, - 2, - 3} \<Longrightarrow> has_var l (is_ivars ex_root)"
  "\<And>l. l \<in> {1, 2, 3, - 1, - 2, - 3} \<Longrightarrow> is_vals ex_root l = 0"
proof -
  have n: "0 < i_max_var (is_ivars ex_loaded)" by (simp add: ex_loaded_ok(3))
  obtain res t where t: "already_solved False ex_loaded = Some (res, t)" "at_root (set ex_chain) t" "i_max_var (is_ivars t) = i_max_var (is_ivars ex_loaded)"
    by (rule already_solved_ok [OF ex_loaded_ok(1) n]) (rule that)
  have e: "ex_root = t" using t(1) by (simp add: ex_root_def)
  have inv: "search_inv (set ex_chain) t" "is_level t = 0" using t(2) by (simp_all add: at_root_def idle_def calm_def level_inv_def)
  show "at_root (set ex_chain) ex_root" "\<not> is_unsat ex_root" using t(2) e search_invD(7) [OF inv(1)] ex_models(1) by auto
  show "has_var l (is_ivars ex_root)" if "l \<in> {1, 2, 3, - 1, - 2, - 3}" for l using that t(3) ex_loaded_ok(3) e by (auto simp: has_var_def)
  show "is_vals ex_root l = 0" if l: "l \<in> {1, 2, 3, - 1, - 2, - 3}" for l
  proof -
    have none: "k \<notin> set (is_trail t)" if "k \<noteq> 0" for k
      using root_true [OF inv _ ex_models(1), of k] root_true [OF inv _ ex_models(2), of k] that by (auto simp: lit_true_def split: if_splits)
    have "l \<noteq> 0" using l by auto
    then show ?thesis using vals_iff(3) [OF search_invD(2) [OF inv(1)], of l] none [of l] none [of "- l"] e by simp
  qed
qed

lemma ex_decided_ok: "prop_inv (set ex_chain) ex_decided" "is_level ex_decided = 1" "decisions ex_decided = [1]" "\<not> is_unsat ex_decided"
  "is_conflict ex_decided = None" "is_trail ex_decided = is_trail ex_root @ [1]" "carries ex_root ex_decided"
proof -
  have r: "prop_inv (set ex_chain) ex_root" "is_conflict ex_root = None" "is_propagated ex_root = length (is_trail ex_root)" "is_level ex_root = 0"
    using ex_root_ok(1,2) by (auto simp: at_root_def idle_def calm_def)
  have v: "1 \<notin> set (is_trail ex_root)" "- 1 \<notin> set (is_trail ex_root)"
    using ex_root_ok(4) [of 1] vals_iff(3) [of ex_root 1] r(1) by (auto simp: prop_inv_def search_inv_def)
  obtain s' where s': "search_assume_decision 1 ex_root = Some s'" "prop_inv (set ex_chain) s'" "pushed 1 1 None ex_root s'" "is_level s' = 1" "decisions s' = [1]"
    by (rule decision_inv [OF r v]) (use ex_root_ok(3) in auto)
  then have "ex_decided = s'" by (simp add: ex_decided_def)
  then show "prop_inv (set ex_chain) ex_decided" "is_level ex_decided = 1" "decisions ex_decided = [1]" "\<not> is_unsat ex_decided"
    "is_conflict ex_decided = None" "is_trail ex_decided = is_trail ex_root @ [1]" "carries ex_root ex_decided"
    using s' ex_root_ok(2) r(2) pushed_carries [OF s'(3) v] by (simp_all add: pushed_def)
qed

lemma ex_propagated_ok: "search_inv (set ex_chain) ex_propagated" "level_inv (set ex_chain) ex_propagated" "decisions ex_propagated = [1]"
  "is_conflict ex_propagated = None" "is_level ex_propagated = 1" "prop_inv (set ex_chain) ex_propagated"
proof -
  obtain b s' where s': "propagate ex_decided = Some (b, s')" "prop_inv (set ex_chain) s'" "grows_to ex_decided s'" "b = (is_conflict s' = None)"
      "b \<Longrightarrow> is_propagated s' = length (is_trail s')"
    by (rule propagate_total [OF ex_decided_ok(1,4)]) (rule that)
  have e: "ex_propagated = s'" using s'(1) by (simp add: ex_propagated_def)
  note D = grows_toD [OF s'(3)]
  have inv: "search_inv (set ex_chain) s'" using s'(2) by (simp add: prop_inv_def)
  have d: "decisions s' = [1]" using D(3) ex_decided_ok(3) by (simp add: decisions_def)
  have c: "is_conflict s' = None" using conflict_refutes [OF inv _ ex_models(1)] d by (cases "is_conflict s'") (auto simp: lit_true_def)
  show "search_inv (set ex_chain) ex_propagated" "level_inv (set ex_chain) ex_propagated" "decisions ex_propagated = [1]"
    "is_conflict ex_propagated = None" "is_level ex_propagated = 1" "prop_inv (set ex_chain) ex_propagated"
    using s'(2) e inv d c prop_inv_level [OF s'(2)] D(2) ex_decided_ok(2) by simp_all
qed

section \<open>A failed assumption behind a level without decision\<close>

lemma ex_deciding: "deciding (set ex_chain) ex_propagated ex_assumer" "is_propagated ex_propagated = length (is_trail ex_propagated)"
  "\<not> search_satisfied ex_propagated ex_assumer"
proof -
  have "fst (is_control ex_propagated ! 1) = 1" "i_max_var (is_ivars ex_propagated) = 3" by code_simp+
  then show "deciding (set ex_chain) ex_propagated ex_assumer"
    using ex_propagated_ok by (auto simp: deciding_def ex_assumer_def has_var_def le_Suc_eq)
  show "is_propagated ex_propagated = length (is_trail ex_propagated)" "\<not> search_satisfied ex_propagated ex_assumer" by code_simp+
qed

lemma ex_pseudo_ok: "deciding (set ex_chain) ex_pseudo ex_assumer" "is_level ex_pseudo = 2" "fst (is_control ex_pseudo ! 2) = 0"
proof -
  have r: "fst (the (decide 0 ex_propagated ex_assumer)) = 0" by code_simp
  obtain res s a where "decide 0 ex_propagated ex_assumer = Some (res, s, a)" "deciding (set ex_chain) s a" "res = 0 \<Longrightarrow> a = ex_assumer \<and> is_level s = is_level ex_propagated + 1"
    by (rule decide_ok [OF ex_deciding, of 0]) (use ex_propagated_ok(5) that in \<open>auto simp: ex_assumer_def\<close>)
  then show "deciding (set ex_chain) ex_pseudo ex_assumer" "is_level ex_pseudo = 2" using r ex_propagated_ok(5) by (auto simp: ex_pseudo_def)
  show "fst (is_control ex_pseudo ! 2) = 0" by code_simp
qed

lemma ex_failing_ok: "search_inv (set ex_chain) ex_pseudo" "set (decisions ex_pseudo) \<subseteq> as_assumed ex_failing" "as_assumed ex_failing = set (as_assumptions ex_failing)"
  "as_failed ex_failing = {}" "\<not> as_unsat_constraint ex_failing" "0 \<notin> as_assumed ex_failing" "- 3 \<in> set (as_assumptions ex_failing)" "is_vals ex_pseudo (- 3) < 0"
proof -
  have r: "ex_failing = ex_assumer\<lparr>as_marked_failed := False\<rparr>"
  proof -
    have v: "is_vals ex_pseudo (- 3) < 0" "\<not> search_satisfied ex_pseudo ex_assumer" by code_simp+
    then have "decide 0 ex_pseudo ex_assumer = Some (20, ex_pseudo, ex_assumer\<lparr>as_marked_failed := False\<rparr>)"
      using ex_pseudo_ok(2) by (simp add: decide_def decide_assumption_def ex_assumer_def Let_def numeral_2_eq_2)
    then show ?thesis by (simp add: ex_failing_def)
  qed
  show "search_inv (set ex_chain) ex_pseudo" using ex_pseudo_ok(1) by (simp add: deciding_def prop_inv_def)
  show "is_vals ex_pseudo (- 3) < 0" by code_simp
  have "set (decisions ex_pseudo) \<subseteq> as_assumed ex_assumer"
    by (rule assumption_levels [OF ex_pseudo_ok(1)]) (simp add: ex_pseudo_ok(2) ex_assumer_def)
  then show "set (decisions ex_pseudo) \<subseteq> as_assumed ex_failing" unfolding r by simp
  show "as_assumed ex_failing = set (as_assumptions ex_failing)" "as_failed ex_failing = {}" "\<not> as_unsat_constraint ex_failing" "0 \<notin> as_assumed ex_failing"
    "- 3 \<in> set (as_assumptions ex_failing)" by (simp_all add: r ex_assumer_def)
qed

section \<open>A conflict\<close>

text \<open>The decision 1 implies 2, which implies both 3 and its negation.\<close>

definition ex_clash :: "clause list" where
  "ex_clash = [[- 1, 2], [- 2, 3], [- 2, - 3]]"

definition ex_clash_loaded :: isearch where
  "ex_clash_loaded = snd (the (add_original_lits (flat_lits ex_clash) ([], ex_fresh)))"

definition ex_clash_decided :: isearch where
  "ex_clash_decided = the (search_assume_decision 1 ex_clash_loaded)"

definition ex_jump :: jump_options where
  "ex_jump = \<lparr>jo_chronoalways = False, jo_chronolevelim = 100, jo_chronoreusetrail = True, jo_use_scores = False, jo_score = (\<lambda>_. 0), jo_bumped = int,
     jo_assumptions = 0, jo_eagersubsume = True, jo_eagersubsumelim = 20\<rparr>"

definition ex_conflict :: isearch where
  "ex_conflict = snd (the (propagate ex_clash_decided))"

lemma ex_clash_loaded_ok: "prop_inv (set ex_clash) ex_clash_loaded" "is_level ex_clash_loaded = 0" "i_max_var (is_ivars ex_clash_loaded) = 3"
  "is_conflict ex_clash_loaded = None" "is_trail ex_clash_loaded = []" "is_propagated ex_clash_loaded = 0" "\<not> is_unsat ex_clash_loaded"
proof -
  have "\<exists>s'. add_original_lits (flat_lits ex_clash) ([], ex_fresh) = Some ([], s') \<and> idle (set ex_clash \<union> {}) s' \<and> carries ex_fresh s' \<and>
      i_max_var (is_ivars s') = i_max_var (is_ivars ex_fresh) \<and> (is_level ex_fresh = 0 \<longrightarrow> is_level s' = 0) \<and> (ex_clash = [] \<longrightarrow> s' = ex_fresh)"
    by (rule add_formula_ok [OF ex_fresh_ok(1)], rule ex_fresh_ok(2)) (auto simp: ex_clash_def)
  then show "prop_inv (set ex_clash) ex_clash_loaded" "is_level ex_clash_loaded = 0" "i_max_var (is_ivars ex_clash_loaded) = 3"
    using ex_svars_ok(2) by (auto simp: ex_clash_loaded_def ex_fresh_def internal_new_def idle_def calm_def)
  show "is_conflict ex_clash_loaded = None" "is_trail ex_clash_loaded = []" "is_propagated ex_clash_loaded = 0" "\<not> is_unsat ex_clash_loaded"
    by code_simp+
qed

lemma ex_conflict_ok: "prop_inv (set ex_clash) ex_conflict" "is_level ex_conflict = 1" "is_conflict ex_conflict = Some 2" "\<not> is_unsat ex_conflict"
  "i_max_var (is_ivars ex_conflict) = 3" "\<exists>l \<in> set (lits_at ex_conflict 2). level_of ex_conflict l = is_level ex_conflict"
proof -
  note L = ex_clash_loaded_ok
  obtain d where d: "search_assume_decision 1 ex_clash_loaded = Some d" "prop_inv (set ex_clash) d" "pushed 1 1 None ex_clash_loaded d" "is_level d = 1"
    by (rule decision_inv [OF L(1,4) _ L(2)]) (use L in \<open>auto simp: has_var_def\<close>)
  have "\<not> is_unsat d" "i_max_var (is_ivars d) = 3" using d(3) L(3,7) by (simp_all add: pushed_def)
  moreover obtain b s' where s': "propagate d = Some (b, s')" "prop_inv (set ex_clash) s'" "grows_to d s'"
    by (rule propagate_total [OF d(2) calculation(1)]) (rule that)
  moreover have "ex_conflict = s'" using d(1) s'(1) by (simp add: ex_conflict_def ex_clash_decided_def)
  ultimately show "prop_inv (set ex_clash) ex_conflict" "is_level ex_conflict = 1" "\<not> is_unsat ex_conflict" "i_max_var (is_ivars ex_conflict) = 3"
    using grows_toD [OF s'(3)] d(4) by simp_all
  show "is_conflict ex_conflict = Some 2" "\<exists>l \<in> set (lits_at ex_conflict 2). level_of ex_conflict l = is_level ex_conflict" by code_simp+
qed

end
