(* ===== verification/Examples.thy ===== *)
theory Examples
  imports Main_Program Glucose_Interface Chrono_Timer Cadical_Refine Examples_Search
begin

text \<open>
  Concrete states and files on which the properties of the development are instantiated: a formula with two soft variables of
  weights 3 and 2 that exclude each other, the same formula inside a call of \<open>solve\<close>, and a small file.
\<close>

section \<open>States of the MaxSAT solver\<close>

definition ex_soft1 :: ems where
  "ex_soft1 = snd (newSoftVar True 3 ems_new)"

definition ex_soft2 :: ems where
  "ex_soft2 = snd (newSoftVar True 2 ex_soft1)"

definition ex_excl :: ems where
  "ex_excl = the (addClause_hard [- 1, - 2] ex_soft2)"

definition ex_run :: ems where
  "ex_run = ex_excl\<lparr>start_solve := True\<rparr>"

lemma ex_new: "base_inv ems_new" "weights_inv [] ems_new" "nv ems_new = 0" "cls ems_new = {}" "budget ems_new = 0"
  using plain_inv [OF plain_new(1)] plain_new by simp_all

lemma wt_new: "wt (poids ems_new) l = 0"
  by (simp add: ems_new_def wt_def wv_get_def wv_push_back_def)

lemma ex_soft1_ok:
  "base_inv ex_soft1" "weights_inv [] ex_soft1" "nv ex_soft1 = 1" "cls ex_soft1 = {}" "budget ex_soft1 = 3"
  "wt (poids ex_soft1) = wt_set 1 3 (\<lambda>l. 0)" "mapAssum2Card ex_soft1 = [None, None]" "same_rest ems_new ex_soft1"
proof -
  have "budget ems_new + 3 < 9223372036854775808" by (simp add: ex_new)
  then obtain s' where s': "newSoftVar True 3 ems_new = (int (nv ems_new) + 1, s')" "base_inv s'" "weights_inv [] s'" "nv s' = Suc (nv ems_new)"
      "cls s' = cls ems_new" "budget s' = budget ems_new + 3" "wt (poids s') = wt_set (int (nv ems_new) + 1) 3 (wt (poids ems_new))"
      "mapAssum2Card s' = mapAssum2Card ems_new @ [None]" "same_rest ems_new s'"
    using newSoftVar_ok [OF ex_new(1,2), of 3] by force
  have "ex_soft1 = s'" by (simp add: ex_soft1_def s'(1))
  moreover have "wt (poids ems_new) = (\<lambda>l. 0)" using wt_new by blast
  moreover have "mapAssum2Card ems_new = [None]" by (simp add: ems_new_def)
  ultimately show "base_inv ex_soft1" "weights_inv [] ex_soft1" "nv ex_soft1 = 1" "cls ex_soft1 = {}" "budget ex_soft1 = 3"
    "wt (poids ex_soft1) = wt_set 1 3 (\<lambda>l. 0)" "mapAssum2Card ex_soft1 = [None, None]" "same_rest ems_new ex_soft1"
    using s' ex_new(3-5) by simp_all
qed

lemma ex_soft2_ok:
  "base_inv ex_soft2" "weights_inv [] ex_soft2" "nv ex_soft2 = 2" "cls ex_soft2 = {}" "budget ex_soft2 = 5"
  "wt (poids ex_soft2) = wt_set 2 2 (wt_set 1 3 (\<lambda>l. 0))" "mapAssum2Card ex_soft2 = [None, None, None]" "same_rest ex_soft1 ex_soft2"
proof -
  have "budget ex_soft1 + 2 < 9223372036854775808" by (simp add: ex_soft1_ok)
  then obtain s' where s': "newSoftVar True 2 ex_soft1 = (int (nv ex_soft1) + 1, s')" "base_inv s'" "weights_inv [] s'" "nv s' = Suc (nv ex_soft1)"
      "cls s' = cls ex_soft1" "budget s' = budget ex_soft1 + 2" "wt (poids s') = wt_set (int (nv ex_soft1) + 1) 2 (wt (poids ex_soft1))"
      "mapAssum2Card s' = mapAssum2Card ex_soft1 @ [None]" "same_rest ex_soft1 s'"
    using newSoftVar_ok [OF ex_soft1_ok(1,2), of 2] by force
  have "ex_soft2 = s'" by (simp add: ex_soft2_def s'(1))
  then show "base_inv ex_soft2" "weights_inv [] ex_soft2" "nv ex_soft2 = 2" "cls ex_soft2 = {}" "budget ex_soft2 = 5"
    "wt (poids ex_soft2) = wt_set 2 2 (wt_set 1 3 (\<lambda>l. 0))" "mapAssum2Card ex_soft2 = [None, None, None]" "same_rest ex_soft1 ex_soft2"
    using s' ex_soft1_ok(3-7) by simp_all
qed

lemma ex_excl_ok:
  "base_inv ex_excl" "weights_inv [] ex_excl" "2 \<le> nv ex_excl" "[- 1, - 2] \<in> cls ex_excl" "budget ex_excl \<le> 5"
  "wt (poids ex_excl) 1 = 3" "wt (poids ex_excl) 2 = 2" "litToRelax ex_excl = []" "cardToAdd ex_excl = []" "\<not> is_incremental ex_excl"
  "cards ex_excl = []" "solutionCost ex_excl = t_weight_max"
proof -
  have c: "\<forall>l \<in> set [- 1, - 2 :: int]. lit_upto (nv ex_soft2) l" by (simp add: ex_soft2_ok lit_upto_def)
  obtain s' where s': "addClause_hard [- 1, - 2] ex_soft2 = Some s'" "base_inv s'" "weights_inv [] s'"
      "sim (\<lambda>\<sigma>. sat_clause \<sigma> [- 1, - 2]) (\<lambda>\<sigma>. 0) ex_soft2 s'" "[- 1, - 2] \<in> cls s'" "budget s' \<le> budget ex_soft2" "settled [- 1, - 2] ex_soft2 s'"
      "kept ex_soft2 s'"
    by (rule addClause_hard_ok [OF ex_soft2_ok(1,2) c])
  have eq: "ex_excl = s'" by (simp add: ex_excl_def s'(1))
  have w: "wt (poids s') x = wt (poids ex_soft2) x" if "nat \<bar>x\<bar> \<le> 2" for x
    using s'(7) that by (simp add: settled_def ex_soft2_ok)
  note K = keptD [OF s'(8)] keptD [OF same_rest_kept [OF ex_soft2_ok(8)]] keptD [OF same_rest_kept [OF ex_soft1_ok(8)]]
  have f: "litToRelax s' = []" "cardToAdd s' = []" "\<not> is_incremental s'" "solutionCost s' = t_weight_max" "cards s' = []"
    using K by (simp_all add: ems_new_def)
  show "base_inv ex_excl" "weights_inv [] ex_excl" "2 \<le> nv ex_excl" "[- 1, - 2] \<in> cls ex_excl" "budget ex_excl \<le> 5"
    "wt (poids ex_excl) 1 = 3" "wt (poids ex_excl) 2 = 2" "litToRelax ex_excl = []" "cardToAdd ex_excl = []" "\<not> is_incremental ex_excl"
    "cards ex_excl = []" "solutionCost ex_excl = t_weight_max"
    using s' w f by (simp_all add: eq ex_soft2_ok sim_def wt_set_def)
qed

lemma ex_run_ok:
  "base_inv ex_run" "weights_inv [] ex_run" "2 \<le> nv ex_run" "[- 1, - 2] \<in> cls ex_run" "budget ex_run \<le> 5"
  "wt (poids ex_run) 1 = 3" "wt (poids ex_run) 2 = 2" "litToRelax ex_run = []" "cardToAdd ex_run = []" "\<not> is_incremental ex_run"
  "start_solve ex_run" "solutionCost ex_run = t_weight_max"
proof -
  have "same_core ex_excl ex_run" by (simp add: same_core_def ex_run_def)
  note C = same_core_ok [OF this]
  show "base_inv ex_run" "weights_inv [] ex_run" "2 \<le> nv ex_run" "[- 1, - 2] \<in> cls ex_run" "budget ex_run \<le> 5"
    using C ex_excl_ok by simp_all
  show "wt (poids ex_run) 1 = 3" "wt (poids ex_run) 2 = 2" "litToRelax ex_run = []" "cardToAdd ex_run = []" "\<not> is_incremental ex_run"
    "start_solve ex_run" "solutionCost ex_run = t_weight_max"
    using ex_excl_ok by (simp_all add: ex_run_def)
qed

lemma ex_inv: "ems_inv ex_excl" "ems_inv ex_run" "optimizer_sound ex_excl"
  using ex_excl_ok ex_run_ok by (simp_all add: ems_inv_def optimizer_sound_def)

lemma ex_refuted: "[- 1, - 2] \<in> F \<Longrightarrow> sat_all \<sigma> F \<Longrightarrow> \<not> lit_true \<sigma> 1 \<or> \<not> lit_true \<sigma> 2"
  using sat_allD [of \<sigma> F "[- 1, - 2]"] by auto

lemma ex_amo: "amo (cls ex_run) [1, 2]"
  unfolding amo_def using ex_refuted [OF ex_run_ok(4)] by (auto simp: count_true_def)

lemma ex_core: "soft_core [1, 2] ex_run [1, 2]"
  using ex_refuted [OF ex_run_ok(4)] ex_run_ok(6,7) by (auto simp: soft_core_def core_def)

text \<open>After the question whether both soft variables can be true.\<close>

definition ex_asked :: ems where
  "ex_asked = snd (the (eval_solve bf_engine [1, 2] ex_run))"

lemma ex_asked_ok: "queried ex_run ex_asked" "sc_unsat [1, 2] (solver ex_asked)" "base_inv ex_asked" "wt (poids ex_asked) = wt (poids ex_run)"
proof -
  obtain b s' where s': "eval_solve bf_engine [1, 2] ex_run = Some (b, s')" "queried ex_run s'"
      "if b then sc_sat [1, 2] (solver s') else sc_unsat [1, 2] (solver s')"
    by (rule eval_solve_ok [OF bf_engine_ok bf_engine_live ex_run_ok(1)])
  have eq: "ex_asked = s'" by (simp add: ex_asked_def s'(1))
  have same: "sc_same (solver ex_run) (solver s')" and p: "poids s' = poids ex_run" using s'(2) by (auto simp: queried_def)
  have "[- 1, - 2] \<in> set (c_clauses (cad (solver s')))"
    using ex_run_ok(4) same by (simp add: cls_def sc_clauses_def sc_same_def)
  then have "\<not> satisfies \<sigma> (c_clauses (cad (solver s'))) [1, 2]" for \<sigma>
    using ex_refuted by (auto simp: satisfies_def)
  then have "\<not> b" using s'(3) by (auto simp: sc_sat_def)
  then show "queried ex_run ex_asked" "sc_unsat [1, 2] (solver ex_asked)" "wt (poids ex_asked) = wt (poids ex_run)"
    using s' p eq by simp_all
  show "base_inv ex_asked" using queried_base [OF s'(2)] ex_run_ok(1) eq by simp
qed

section \<open>A file\<close>

text \<open>\<open>c example\<close>, a hard clause and two soft clauses.\<close>

definition ex_file :: "wline list" where
  "ex_file = [Header 2 3 10, Wclause 10 [- 1, - 2], Wclause 3 [1], Wclause 2 [2]]"

lemma ex_file_ok: "ex_file \<noteq> []" "list_all line_fits ex_file" "total_weight (soft_clauses ex_file) < 9223372036854775808" "lines_vars ex_file = 2"
  by (simp_all add: ex_file_def soft_clauses_def total_weight_def lit_fits_def t_weight_max_def)

definition ex_opts :: options where
  "ex_opts = \<lparr>oldOutputFormat = False, bench = 0, noDS = False, noMS = False, noUBS = False\<rparr>"

definition ex_incremental :: ems where
  "ex_incremental = ex_excl\<lparr>is_incremental := True, UBStrategy := False\<rparr>"

lemma ex_incremental_ok: "ems_inv ex_incremental" "optimizer_sound ex_incremental" "is_incremental ex_incremental"
  "\<not> (UBStrategy ex_incremental \<and> toOptimize ex_incremental)" "\<forall>l \<in> set [1]. lit_upto (nv ex_incremental) l"
proof -
  have "same_core ex_excl ex_incremental" by (simp add: same_core_def ex_incremental_def)
  note C = same_core_ok [OF this]
  show "ems_inv ex_incremental" using C ex_excl_ok by (simp add: ems_inv_def) (simp add: ex_incremental_def ex_excl_ok)
  show "optimizer_sound ex_incremental" "is_incremental ex_incremental" "\<not> (UBStrategy ex_incremental \<and> toOptimize ex_incremental)"
    using ex_excl_ok by (simp_all add: ex_incremental_def optimizer_sound_def)
  show "\<forall>l \<in> set [1]. lit_upto (nv ex_incremental) l" using C ex_excl_ok(3) by (simp add: lit_upto_def)
qed

lemma ex_addable: "addable ex_soft2"
  using keptD [OF same_rest_kept [OF ex_soft2_ok(8)]] keptD [OF same_rest_kept [OF ex_soft1_ok(8)]]
  by (simp add: addable_def ems_new_def)

text \<open>A core that waits to be taken up.\<close>

lemma ex_waiting_ok:
  "base_inv (ex_run\<lparr>cardToAdd := [([- 1, - 2], 2)]\<rparr>)" "weights_inv [] (ex_run\<lparr>cardToAdd := [([- 1, - 2], 2)]\<rparr>)"
proof -
  let ?d = "[([- 1, - 2], 2)] :: (int list \<times> int) list"
  have "cardToAdd_ok (nv ex_run) ?d" using ex_run_ok(3) by (simp add: cardToAdd_ok_def lit_upto_def)
  then show "base_inv (dq ?d ex_run)" using ex_run_ok(1) by (simp add: base_inv_def)
  have "budget (dq ?d ex_run) = budget ex_run + dsum length ?d"
    using ex_run_ok(9) by (simp add: budget_def wtotal_def dsum_def)
  also have "\<dots> \<le> 7" using ex_run_ok(5) by (simp add: dsum_def)
  finally have b: "budget (dq ?d ex_run) < 9223372036854775808" by simp
  then show "weights_inv [] (dq ?d ex_run)"
    using ex_run_ok(2) by (simp add: weights_inv_def live_ok_def)
qed

definition ex_card :: ems where
  "ex_card = snd (the (make_card [1, 2] 2 ex_soft2))"

lemma ex_card_ok: "cards_inv ex_card" "0 < length (cards ex_card)" "1 < maxVars (cards ex_card ! 0)"
proof -
  have c: "cards_inv ex_soft2" using ex_soft2_ok(1) by (simp add: base_inv_def)
  have z: "length (cards ex_soft2) = 0"
    using keptD(12) [OF same_rest_kept [OF ex_soft2_ok(8)]] keptD(12) [OF same_rest_kept [OF ex_soft1_ok(8)]] by (simp add: ems_new_def)
  obtain s' where s': "make_card [1, 2] 2 ex_soft2 = Some (length (cards ex_soft2), s')" "cards_inv s'"
      "length (cards s') = Suc (length (cards ex_soft2))" "maxVars (cards s' ! length (cards ex_soft2)) = length [1, 2 :: int]"
    using make_card_ok [OF c, of "[1, 2]" 2] by (force simp: ex_soft2_ok lit_upto_def)
  have "ex_card = s'" by (simp add: ex_card_def s'(1))
  then show "cards_inv ex_card" "0 < length (cards ex_card)" "1 < maxVars (cards ex_card ! 0)" using s' z by simp_all
qed

lemma ex_lo_ok: "lo_ok (nv ex_soft2) (lo_new ex_soft2)"
proof -
  note B = base_invD [OF ex_soft2_ok(1)]
  have "cardToAdd ex_soft2 = []"
    using keptD [OF same_rest_kept [OF ex_soft2_ok(8)]] keptD [OF same_rest_kept [OF ex_soft1_ok(8)]] by (simp add: ems_new_def)
  then have "cost ex_soft2 + vsum (\<lambda>v w. \<bar>w\<bar>) (poids ex_soft2) = budget ex_soft2"
    by (simp add: budget_def wtotal_def dsum_def esum_def opt_sum_def ex_soft2_ok(7))
  then show ?thesis using B(4,6,9) by (simp add: lo_ok_def lo_new_def ex_soft2_ok(5))
qed

section \<open>States of the SAT solver\<close>

text \<open>
  Two active variables under their own numbers; the clause \<open>1 2\<close> was eliminated with the witness \<open>1\<close>, and a new clause has
  tainted the literal \<open>-1\<close>. The search answers satisfiable and makes every variable true.
\<close>

definition ex_ivars :: ivars where
  "ex_ivars = ivars_new\<lparr>i_max_var := 2, i_status := [UNUSED, ACTIVE, ACTIVE], st_vars := 2, st_active := 2\<rparr>"

definition ex_stack :: "entry list" where
  "ex_stack = [([1], [1, 2])]"

text \<open>Four variables: one is eliminated and two are fixed.\<close>

definition ex_active :: ivars where
  "ex_active = the (mark_active 4 (the (mark_active 3 (the (mark_active 2 (the (mark_active 1 (init_vars 4 ivars_new))))))))"

definition ex_table :: ivars where
  "ex_table = the (mark_fixed 4 (the (mark_fixed 2 (the (mark_eliminated 1 ex_active)))))"

definition ex_compact :: ivars where
  "ex_compact = the (internal_compact ex_table)"

lemma reach_the:
  "flag_reach v \<Longrightarrow> has_var l v \<and> mark_active l v \<noteq> None \<Longrightarrow> flag_reach (the (mark_active l v))"
  "flag_reach v \<Longrightarrow> has_var l v \<and> mark_eliminated l v \<noteq> None \<Longrightarrow> flag_reach (the (mark_eliminated l v))"
  "flag_reach v \<Longrightarrow> has_var l v \<and> mark_fixed l v \<noteq> None \<Longrightarrow> flag_reach (the (mark_fixed l v))"
  by (auto intro: flag_reach.step [OF _ flag_step.activate] flag_reach.step [OF _ flag_step.eliminate] flag_reach.step [OF _ flag_step.fix_var])

lemma ex_table_ok: "flag_reach ex_table" "flag_step ex_table ex_compact" "i_status ex_table = [UNUSED, ELIMINATED, FIXED, ACTIVE, FIXED]"
  "i_status ex_compact = [UNUSED, FIXED, ACTIVE]" "st_active ex_table < int (i_max_var ex_table)"
proof -
  have i: "flag_reach (init_vars 4 ivars_new)" by (rule flag_reach.step [OF flag_reach.start flag_step.init])
  have a: "flag_reach ex_active" unfolding ex_active_def by (intro reach_the i) code_simp+
  show "flag_reach ex_table" unfolding ex_table_def by (intro reach_the a) code_simp+
  have "internal_compact ex_table \<noteq> None" by code_simp
  then show "flag_step ex_table ex_compact" unfolding ex_compact_def by (auto intro: flag_step.compact_vars)
  show "i_status ex_table = [UNUSED, ELIMINATED, FIXED, ACTIVE, FIXED]" "i_status ex_compact = [UNUSED, FIXED, ACTIVE]" "st_active ex_table < int (i_max_var ex_table)"
    by code_simp+
qed

definition ex_xopts :: xopts where
  "ex_xopts = \<lparr>o_check = False, o_checkwitness = False, o_checkfailed = False, o_checkassumptions = False, o_checkconstraint = False,
     o_checkfrozen = False, o_restoreall = 0, o_restoreflush = False\<rparr>"

definition ex_ext :: external where
  "ex_ext = (external_new ex_xopts)\<lparr>x_ivars := ex_ivars, x_i2e := [0, 1, 2], x_ifrozen := [0, 0, 0], max_var := 2, x_vsize := 4,
     e2i := [0, 1, 2], extension := flat ex_stack, witness := [True], tainted := [False, True], frozentab := [0, 1]\<rparr>"

definition ex_search :: search where
  "ex_search = \<lparr>isolve = (\<lambda>p x. Some (10, x)), iup = (\<lambda>ls x. Some (True, ls, x)), ilookahead = (\<lambda>x. Some (0, x)), icubes = (\<lambda>d m x. Some (0, [], x)), ivalue = (\<lambda>x i. 1), ifailed = (\<lambda>x i. False), ifailed_constraint = (\<lambda>x. False),
     icheck_failing = (\<lambda>x. True)\<rparr>"

text \<open>A clause is added and solved.\<close>

fun ex_calls :: "api_op list \<Rightarrow> api" where
  "ex_calls [] = api_new ex_xopts"
| "ex_calls (op # ops) = (case api_run ex_search op (ex_calls ops) of Done a \<Rightarrow> a | _ \<Rightarrow> api_new ex_xopts)"

definition ex_solved :: api where
  "ex_solved = ex_calls [Op_solve, Op_add 0, Op_add (- 2), Op_add 1]"

definition ex_api :: api where
  "ex_api = (api_new ex_xopts)\<lparr>a_state := st_SATISFIED, a_ext := ex_ext\<rparr>"

lemma ex_xopts_ok [simp]: "\<not> o_check ex_xopts" "\<not> o_checkfrozen ex_xopts"
  by (simp_all add: ex_xopts_def)

lemma ex_search_ok: "search_ok ex_search"
  by (auto simp: search_ok_def ex_search_def)

lemma ex_calls_step:
  assumes "api_reach ex_search ex_xopts (ex_calls ops)" "call_ok op (ex_calls ops)"
  shows "api_reach ex_search ex_xopts (ex_calls (op # ops))"
  using api_reach.step [OF assms] api_reach.start [of ex_search ex_xopts] by (auto split: outcome.split)

lemma ex_solved_ok: "api_reach ex_search ex_xopts ex_solved" "call_ok (Op_find_up_implicants [2] []) ex_solved" "a_state ex_solved = st_SATISFIED"
proof -
  have "api_reach ex_search ex_xopts (ex_calls [])" using api_reach.start [of ex_search ex_xopts] by simp
  then have "api_reach ex_search ex_xopts (ex_calls [Op_add 0, Op_add (- 2), Op_add 1])" by (intro ex_calls_step) simp_all
  moreover have "call_ok Op_solve (ex_calls [Op_add 0, Op_add (- 2), Op_add 1])" by code_simp
  ultimately show "api_reach ex_search ex_xopts ex_solved" unfolding ex_solved_def by (rule ex_calls_step)
  show "call_ok (Op_find_up_implicants [2] []) ex_solved" "a_state ex_solved = st_SATISFIED" by code_simp+
qed

lemma ex_ivars_ok: "stats_ok ex_ivars"
  by (simp add: stats_ok_def ex_ivars_def ivars_new_def count_status_def)

lemma ex_ext_fields [simp]:
  "x_ivars ex_ext = ex_ivars" "x_opts ex_ext = ex_xopts" "max_var ex_ext = 2" "\<not> extended ex_ext" "extension ex_ext = flat ex_stack"
  "e2i ex_ext = [0, 1, 2]" "i_max_var ex_ivars = 2" "tainted ex_ext = [False, True]" "frozentab ex_ext = [0, 1]"
  by (simp_all add: ex_ext_def external_new_def ex_ivars_def)

lemma ex_stack_entries: "\<forall>e \<in> set ex_stack. stack_entry_ok 2 e"
  by (simp add: ex_stack_def stack_entry_ok_def lit_upto_def)

lemma ex_ext_ok: "numbered ex_ext" "plain_opts ex_ext" "ready_ext ex_ext" "ext_inv ex_ext"
proof -
  have idx: "(\<forall>e. 0 < e \<and> e \<le> (2 :: nat) \<longrightarrow> P e) = (P 1 \<and> P 2)" for P
    by (auto simp: le_Suc_eq numeral_2_eq_2)
  have i: "x_i2e ex_ext = [0, 1, 2]" "x_ifrozen ex_ext = [0, 0, 0]" "x_vsize ex_ext = 4" by (simp_all add: ex_ext_def)
  show n: "numbered ex_ext" by (simp add: numbered_def ex_ivars_ok i idx)
  show p: "plain_opts ex_ext" by (simp add: plain_opts_def)
  show "ready_ext ex_ext" using n by (simp add: ready_ext_def)
  show "ext_inv ex_ext" using n p ex_stack_entries by (auto simp: ext_inv_def)
qed

lemma ex_api_ok: "api_ok ex_api" "a_state ex_api = st_SATISFIED" "a_ext ex_api = ex_ext"
  using ex_ext_ok(4) by (simp_all add: api_ok_def ex_api_def)

lemma ex_stack_ok: "stack_ok {[2]} ex_stack"
  using blocked_redundant [of 1 "[1, 2]" "{[2]}"] by (simp add: ex_stack_def clauses_of_def)

lemma ex_search_model: "sat_all (search_model (ivalue ex_search ex_ext) ex_ext) {[2]}"
  using search_model_eq [of 2 ex_ext] by (simp add: ex_search_def lit_true_def)

lemma ex_restore_ok:
  "taint_safe {[- 1, 2]} ex_stack ex_ext" "witness_marked ex_stack ex_ext" "fixed_sound (\<lambda>cs i. 0) H ex_ext"
proof -
  show "taint_safe {[- 1, 2]} ex_stack ex_ext" by (simp add: taint_safe_def ex_stack_def marked_def elit2ulit_def)
  show "witness_marked ex_stack ex_ext"
    by (simp add: witness_marked_def ex_stack_def marked_def elit2ulit_def) (simp add: ex_ext_def)
  show "fixed_sound (\<lambda>cs i. 0) H ex_ext" by (simp add: fixed_sound_def ext_fixed_def Let_def)
qed

text \<open>One variable that a unit clause makes false, in both SAT wrappers.\<close>

definition ex_sc :: solver_cadical where
  "ex_sc = sc_addClause [- 1] (snd (sc_newVar sc_new))"

definition ex_mg :: glucose where
  "ex_mg = mg_add [- 1] (snd (mg_newVar mg_new))"

lemma ex_sc_ok: "sc_ok ex_sc" "nVar ex_sc = 1" "sc_clauses ex_sc = {[- 1]}"
proof -
  let ?ok = "engine_ok bf_engine \<and> engine_live bf_engine"
  have e: "?ok" using bf_engine_ok bf_engine_live by blast
  obtain v t where t: "sc_newVar sc_new = (v, t)" by (cases "sc_newVar sc_new")
  have n: "nVar t = 1" "sc_clauses t = {}" "sc_ok t" using cadical.newvar_law [of bf_engine sc_new v t] e t by simp_all
  have "nVar (sc_addClause [- 1] t) = nVar t \<and> sc_clauses (sc_addClause [- 1] t) = insert [- 1] (sc_clauses t) \<and> sc_ok (sc_addClause [- 1] t)"
    using cadical.addclause_law [of bf_engine t "[- 1]"] e n by (simp add: lit_upto_def)
  then show "sc_ok ex_sc" "nVar ex_sc = 1" "sc_clauses ex_sc = {[- 1]}" using n by (simp_all add: ex_sc_def t)
qed

lemma ex_mg_ok: "mg_ok ex_mg" "mg_nVars ex_mg = 1" "mg_clauses ex_mg = {[- 1]}"
proof -
  have g: "glu_sound bf_glucose \<and> glu_complete bf_glucose" using bf_glucose_ok by blast
  obtain v t where t: "mg_newVar mg_new = (v, t)" by (cases "mg_newVar mg_new")
  have n: "mg_nVars t = 1" "mg_clauses t = {}" "mg_ok t" using glucose.newvar_law [of bf_glucose mg_new v t] g t mg_new_ok by simp_all
  have "mg_nVars (mg_add [- 1] t) = mg_nVars t \<and> mg_clauses (mg_add [- 1] t) = insert [- 1] (mg_clauses t) \<and> mg_ok (mg_add [- 1] t)"
    using glucose.addclause_law [of bf_glucose t "[- 1]"] g n by (simp add: lit_upto_def)
  then show "mg_ok ex_mg" "mg_nVars ex_mg = 1" "mg_clauses ex_mg = {[- 1]}" using n by (simp_all add: ex_mg_def t)
qed

end
