(* ===== verification/Spec2Isabelle.thy ===== *)
theory Spec2Isabelle
  imports Examples
begin

text \<open>
  A verification library for EvalMaxSAT, a solver for weighted partial MaxSAT. The program reads a WCNF file, builds a
  formula of hard clauses and weighted soft literals in the class \<open>EvalMaxSAT\<close>, searches for an assignment that satisfies the hard
  clauses at the least total weight of falsified soft clauses, and prints it. The search asks a SAT solver (CaDiCaL, or Glucose)
  for unsatisfiable cores, takes their smallest weight into a lower bound and replaces each core by an incremental totalizer whose outputs become
  new soft literals, until the SAT solver finds a model of all soft literals that are left.

  \<^bold>\<open>How the program is modelled.\<close> Objects are records, updated and passed on; pointers to lazy variables and totalizer nodes are indices into two
  stores (\<open>lheap\<close>, \<open>cards\<close>). A failed assertion, an index out of range, an \<open>exit\<close> inside the solver and a loop that does not end are the value \<^term>\<open>None\<close>, so that
  every theorem of the form \<open>f x = Some y\<close> says that none of this happens; the parser has the error type \<open>parse_error\<close> in a sum, the interface of
  CaDiCaL the type \<open>outcome\<close> that separates a rejected call from an internal failure. Weights are integers with the conversions to unsigned 64 bits (\<open>u64\<close>)
  written out where the code converts, and words of 64 and 32 bits where the code computes with bits (\<open>Weight_Vector\<close>, the reference counts of
  \<open>Cadical_External\<close>, the state bits of \<open>Cadical_Api\<close>). The hypothesis that the total weight stays below 2 to the 63 is the invariant \<open>budget\<close>. Loops are structural or have a termination proof;
  those whose end depends on the search (\<open>solve_loop\<close>, \<open>am1_loop\<close>, \<open>harden_loop\<close>, \<open>choose_loop\<close>, \<open>prop_loop\<close>, \<open>failing_loop\<close> and others) are \<open>partial_function (option)\<close> and are proved to return.
  The only fuel is the recursion depth of \<open>lv_get\<close>, which is proved to be enough. What the control flow takes from outside (the order of equal keys in \<open>std::sort\<close>, \<open>std::shuffle\<close>, which timer has expired,
  comparisons of doubles) is the record \<open>choices\<close>; the theorems hold for every value of it.

  \<^bold>\<open>The theories.\<close> \<open>Prelude\<close> (literals, clauses, assignments, generic lemmas), \<open>Std_Containers\<close> (sets and maps of the standard library; the index of
  weights as a locale) and \<open>Choices\<close>.

  \<open>Lazy_Variable\<close> and \<open>Card_Incremental\<close> model \<open>lazyvariable.h\<close> and \<open>cardincremental.h\<close>: a variable created on first use with the clauses that define it, and the
  totalizer whose outputs count the true literals. \<open>Weight_Vector\<close> models \<open>WeightVector\<close> and \<open>doublevector\<close> of \<open>utile.h\<close>, \<open>Max_Clique\<close> the
  clique search of \<open>mcqd.h\<close>, \<open>Chrono_Timer\<close> the watches of \<open>Chrono.h\<close> and the time parameters of \<open>EvalMaxSAT.h\<close>.

  \<open>Cadical\<close> is the programming interface of CaDiCaL as the wrapper uses it, over a search engine that is a parameter: \<open>engine_ok\<close> says that its answers are right, \<open>engine_live\<close> that it
  does not give up forever without a limit; a brute-force engine satisfies both. \<open>Cadical_Interface\<close> is the wrapper of \<open>cadicalinterface.h\<close>, \<open>Glucose_Interface\<close> the one of
  \<open>glucoseinterface.h\<close>. The locale \<open>sat_solver\<close> of \<open>Sat_Solver\<close> is the contract the class template relies on; both wrappers interpret it.

  \<open>Eval_State\<close> has the state of \<open>EvalMaxSAT\<close> and the operations that build a formula; \<open>Eval_Cards\<close>, \<open>Eval_Invariant\<close>, \<open>Eval_Clauses\<close>, \<open>Eval_Soft\<close> and
  \<open>Eval_Relax\<close> have its invariant (\<open>base_inv\<close>, \<open>weights_inv\<close>), the cost of an assignment (\<open>obj\<close>), the simulation between states (\<open>sim\<close>) and the effect of every
  operation. \<open>Eval_Lower\<close>, \<open>Eval_AtMostOne\<close>, \<open>Eval_Heuristics\<close> and \<open>Eval_Exact\<close> treat the at-most-one transformations,
  \<open>Eval_Query\<close>, \<open>Eval_Minimize\<close>, \<open>Eval_Core\<close> and \<open>Eval_NewCards\<close> the way from a core to a totalizer, \<open>Eval_Optimize\<close> and \<open>Eval_Strata\<close> the local
  optimizer, the strata and hardening. \<open>Eval_Solve\<close> and \<open>Eval_Correct\<close> have \<open>solve\<close> and its total correctness.

  \<open>Stream_Buffer\<close>, \<open>Wcnf_Parser\<close>, \<open>Wcnf_Format\<close> and \<open>Wcnf_Load\<close> model \<open>ParseUtils.h\<close> and the reader of \<open>utile.h\<close>, give the format a syntax and a meaning, and show that what
  is read is what was written. \<open>Main_Program\<close> models \<open>main.cpp\<close>.

  Below the interface of CaDiCaL, \<open>Cadical_Flags\<close> (\<open>flags.cpp\<close>, and \<open>compact.cpp\<close> as far as it rewrites the statuses), \<open>Cadical_External\<close> (\<open>external.cpp\<close>), \<open>Cadical_Extension\<close>
  (\<open>extend.cpp\<close>, \<open>restore.cpp\<close>) and \<open>Cadical_Api\<close> (\<open>solver.cpp\<close>, \<open>contract.hpp\<close>) model the layers between a client and the search:
  the numbering of variables, freezing, the extension stack and the restoring of clauses, the states and contracts. \<open>Cadical_Reconstruct\<close> and
  \<open>Cadical_Restore\<close> relate the flat stack to a list of entries and show that models are extended and clauses restored soundly; \<open>Cadical_Refine\<close> shows that loading a formula
  through these layers does what \<open>Cadical\<close> says.

  Of the search itself, \<open>Cadical_Trail\<close> has the state (clauses, watches, values, trail with decision levels, reasons), assigning and backtracking (\<open>propagate.cpp\<close>, \<open>backtrack.cpp\<close>) and the
  invariant \<open>search_inv\<close>: every literal of the trail is a decision, a consequence of the formula, or implied by its reason. \<open>Cadical_Propagate\<close> has unit propagation with two watched literals, the invariant of the
  watches (\<open>prop_inv\<close>), and shows that it returns, is sound and leaves nothing to propagate; \<open>Cadical_Backtrack\<close> shows that backtracking restores this invariant, with chronological
  backtracking too. \<open>Cadical_Implicants\<close> has the way of a clause into the search (\<open>clause.cpp\<close>) and \<open>find_up_implicants\<close> (\<open>internal.cpp\<close>), related to the closure \<open>up_derives\<close> of unit propagation, and \<open>Cadical_Assume\<close>
  the assumptions, the constraint and the analysis of failed assumptions (\<open>assume.cpp\<close>, \<open>constrain.cpp\<close>). \<open>Cadical_Decide\<close> has \<open>decide\<close> (\<open>decide.cpp\<close>), which decides the assumptions and the constraint first
  and opens a level without decision for an assumption that holds already; the invariants allow such levels. \<open>Cadical_Analyze\<close> derives the clause of the first unique implication
  point of a conflict (\<open>analyze.cpp\<close>) and \<open>Cadical_Minimize\<close> minimizes it (\<open>minimize.cpp\<close>); the recursion of the minimization is bounded by the option \<open>minimizedepth\<close>, as in the code. \<open>Cadical_Jump\<close> learns the clause, goes back and assigns the flipped literal, and shows
  that the invariant of propagation holds again. \<open>Examples_Search\<close> and \<open>Examples\<close> have the concrete states of the witnesses.

  \<^bold>\<open>What the properties show.\<close> C1 to C7: the whole program answers correctly on every file that fits its number types, by way of total
  correctness of \<open>solve\<close>, the meaning of a loaded file and the checker of costs; in incremental mode \<open>solve\<close> keeps the formula, and clauses can be added and solved again. C8 to C11: the operations that build and
  transform the formula keep its optima. C12 to C21: the parts of the search, from core extraction to the clique search. C22 to C28: unit propagation, backtracking, failed
  assumptions, learned clauses and the jump after a conflict inside CaDiCaL; C22 proves for the code what \<open>propagate_ok\<close>, the hypothesis on propagation of \<open>engine_ok\<close>, asks of a solver that was given the clauses and one assumption. C29 to C35: the
  layers of CaDiCaL. C36 to C40: the wrappers, the weight vector, reading and the meaning of a negative weight. The section of further facts has the edges of \<open>getValue\<close>, the value line, the stopwatch, the
  extension stack, the numbering of variables and waiting cores.

  \<^bold>\<open>Not modelled.\<close> The choice of the variable and phase of a decision, shrinking of learned clauses, the preparation of conflicts below the current level and inprocessing of CaDiCaL and the search of Glucose, which EvalMaxSAT only calls: the answers of a search are parameters with their
  documented meaning as hypotheses, as are \<open>gzread\<close> and the clock. Left out are the option parser CLI11, the tools, tracing, proofs and statistics of the two SAT solvers,
  \<open>parseDouble\<close>, the static variant of the clique search and \<open>simplify\<close> and \<open>exportClauses\<close> of the wrapper, which EvalMaxSAT does not use or which read
  the internals of CaDiCaL, and everything that only prints messages. Doubles are real numbers. The 32-bit type of literals is not wrapped around in the MaxSAT solver: variables are bounded by the
  files, whose literals are proved to fit.
\<close>

section \<open>Meaning of a transformation\<close>

text \<open>
  Two states of the MaxSAT solver have the same optima: every model of the new clauses is a model of the old ones that
  costs no more there, and every exact model of the old state (one in which the auxiliary variables mean what they stand for)
  extends to one of the new state that costs no more there.
\<close>

definition same_optima :: "ems \<Rightarrow> ems \<Rightarrow> bool" where
  "same_optima s s' =
     ((\<forall>\<sigma>. sat_all \<sigma> (cls s') \<longrightarrow> sat_all \<sigma> (cls s) \<and> obj \<sigma> s \<le> obj \<sigma> s') \<and>
      (\<forall>\<sigma>. exact \<sigma> s \<longrightarrow> (\<exists>\<sigma>'. agree_upto (nv s) \<sigma> \<sigma>' \<and> exact \<sigma>' s' \<and> obj \<sigma>' s' \<le> obj \<sigma> s)))"

lemma sim0_same_optima: "sim0 s s' \<Longrightarrow> same_optima s s'"
  unfolding sim_def same_optima_def by (auto intro: sat_all_mono)

section \<open>Properties\<close>

text \<open>C1. The program as a whole. On every file that fits its number types, with a search that gives right answers and does not give up forever, \<open>main\<close>
  ends with exit code 30 and prints the cost and the values of an optimal solution, or ends with exit code 20 and prints
  \<open>s UNSATISFIABLE\<close>, and then the hard clauses have no model.\<close>

theorem main_program_optimal:
  assumes "engine_ok E" "engine_live E" "ls \<noteq> []" "list_all line_fits ls"
    "total_weight (soft_clauses ls) < 9223372036854775808" "bench opts = 0"
  shows "(\<exists>sol c. main_run E Ch secs name opts (show_file ls) =
        Some (Inr (print_size sol # print_answer opts c ''s OPTIMUM FOUND'' sol, 30)) \<and> optimal ls sol c) \<or>
    (main_run E Ch secs name opts (show_file ls) = Some (Inr ([''s UNSATISFIABLE''], 20)) \<and> unsatisfiable ls)"
  by (rule main_run_ok [OF assms])

theorem main_program_optimal_witness:
  "(\<exists>sol c. main_run bf_engine plain_choices ''0.1'' ''f'' ex_opts (show_file ex_file) =
        Some (Inr (print_size sol # print_answer ex_opts c ''s OPTIMUM FOUND'' sol, 30)) \<and> optimal ex_file sol c) \<or>
    (main_run bf_engine plain_choices ''0.1'' ''f'' ex_opts (show_file ex_file) = Some (Inr ([''s UNSATISFIABLE''], 20)) \<and> unsatisfiable ex_file)"
  by (rule main_program_optimal [OF bf_engine_ok bf_engine_live ex_file_ok(1-3)]) (simp add: ex_opts_def)

text \<open>C2. \<open>EvalMaxSAT::solve\<close> on every state that the formula operations can build, whatever the timers, the shuffles and the order of equal
  keys do: it returns, the invariant holds again, a positive answer comes with a model of the clauses whose cost is at most the reported one, which
  no exact model undercuts, and a negative answer means that there is no exact model.\<close>

theorem solve_correct:
  assumes "engine_ok E" "engine_live E" "ems_inv s" "optimizer_sound s"
  shows "\<exists>b s'. solve E Ch s = Some (b, s') \<and> ems_inv s' \<and> nInputVars s' = nInputVars s \<and>
    (if b then sat_all (model_of (solution s')) (cls s) \<and> obj (model_of (solution s')) s \<le> solutionCost s' \<and>
        (\<forall>\<sigma>. exact \<sigma> s \<longrightarrow> solutionCost s' \<le> obj \<sigma> s)
     else (\<forall>\<sigma>. \<not> exact \<sigma> s))"
proof -
  obtain b s' where "solve E Ch s = Some (b, s')" "ems_inv s'" "result_ok s b s'" by (rule solve_ok [OF assms])
  then show ?thesis by (cases b) (auto simp: result_ok_def best_known_def)
qed

theorem solve_correct_witness:
  "\<exists>b s'. solve bf_engine plain_choices ex_excl = Some (b, s') \<and> ems_inv s' \<and> nInputVars s' = nInputVars ex_excl \<and>
    (if b then sat_all (model_of (solution s')) (cls ex_excl) \<and> obj (model_of (solution s')) ex_excl \<le> solutionCost s' \<and>
        (\<forall>\<sigma>. exact \<sigma> ex_excl \<longrightarrow> solutionCost s' \<le> obj \<sigma> ex_excl)
     else (\<forall>\<sigma>. \<not> exact \<sigma> ex_excl))"
  by (rule solve_correct [OF bf_engine_ok bf_engine_live ex_inv(1,3)])

text \<open>C3. In incremental mode \<open>solve\<close> leaves a state with the same optima as before, still incremental and with the same settings. With the local optimizer off, it meets the condition of \<open>solve\<close> again, and
  whenever it does, any hard clause over the variables can be added and the second call of \<open>solve\<close> gives the right answer for the formula before the first call together with the clause, in incremental mode
  again. The condition \<open>optimizer_sound\<close> is needed: with the local optimizer on and cardinalities left over from the first call, the second may report too low a cost.\<close>

theorem incremental_solve_keeps_formula:
  assumes "engine_ok E" "engine_live E" "ems_inv s" "optimizer_sound s" "is_incremental s" "\<forall>l \<in> set c. lit_upto (nv s) l"
  shows "\<exists>b s'. solve E Ch s = Some (b, s') \<and> ems_inv s' \<and> \<not> start_solve s' \<and> same_optima s s' \<and>
    is_incremental s' \<and> UBStrategy s' = UBStrategy s \<and> toOptimize s' = toOptimize s \<and> (\<not> (UBStrategy s \<and> toOptimize s) \<longrightarrow> optimizer_sound s') \<and>
    (optimizer_sound s' \<longrightarrow>
      (\<exists>s1 b2 s2. addClause c None s' = Some (0, s1) \<and> solve E Ch2 s1 = Some (b2, s2) \<and> ems_inv s2 \<and> is_incremental s2 \<and>
        (if b2 then sat_all (model_of (solution s2)) (insert c (cls s)) \<and> obj (model_of (solution s2)) s \<le> solutionCost s2 \<and>
            (\<forall>\<sigma>. exact \<sigma> s \<and> sat_clause \<sigma> c \<longrightarrow> solutionCost s2 \<le> obj \<sigma> s)
         else (\<forall>\<sigma>. \<not> (exact \<sigma> s \<and> sat_clause \<sigma> c)))))"
proof -
  obtain b s' where s': "solve E Ch s = Some (b, s')" "ems_inv s'" "\<not> start_solve s'" "is_incremental s \<longrightarrow> sim0 s s'" "same_mode s s'"
    by (rule solve_ok [OF assms(1-4)])
  have sim: "sim0 s s'" using s'(4) assms(5) by simp
  have mode: "is_incremental s'" "UBStrategy s' = UBStrategy s" "toOptimize s' = toOptimize s" using s'(5) assms(5) by (simp_all add: same_mode_def)
  have again: "\<exists>s1 b2 s2. addClause c None s' = Some (0, s1) \<and> solve E Ch2 s1 = Some (b2, s2) \<and> ems_inv s2 \<and> is_incremental s2 \<and>
        (if b2 then sat_all (model_of (solution s2)) (insert c (cls s)) \<and> obj (model_of (solution s2)) s \<le> solutionCost s2 \<and>
            (\<forall>\<sigma>. exact \<sigma> s \<and> sat_clause \<sigma> c \<longrightarrow> solutionCost s2 \<le> obj \<sigma> s)
         else (\<forall>\<sigma>. \<not> (exact \<sigma> s \<and> sat_clause \<sigma> c)))" if o: "optimizer_sound s'"
  proof -
    obtain s1 b2 s2 where r: "addClause c None s' = Some (0, s1)" "solve E Ch2 s1 = Some (b2, s2)" "ems_inv s2" "same_mode s' s2"
        "if b2 then sat_all (model_of (solution s2)) (insert c (cls s)) \<and> obj (model_of (solution s2)) s \<le> solutionCost s2 \<and>
            (\<forall>\<sigma>. exact \<sigma> s \<and> sat_clause \<sigma> c \<longrightarrow> solutionCost s2 \<le> obj \<sigma> s)
         else (\<forall>\<sigma>. \<not> (exact \<sigma> s \<and> sat_clause \<sigma> c))"
      by (rule solve_after_clause [OF assms(1,2) sim s'(2) o assms(6)])
    have "is_incremental s2" using same_mode_inc [OF r(4)] mode(1) by simp
    then show ?thesis using r(1-3,5) by (intro exI conjI) assumption+
  qed
  have off: "\<not> (UBStrategy s \<and> toOptimize s) \<longrightarrow> optimizer_sound s'" using mode by (auto simp: optimizer_sound_def)
  show ?thesis using s'(1-3) mode sim0_same_optima [OF sim] off impI [OF again] by (intro exI conjI) assumption+
qed

theorem incremental_solve_keeps_formula_witness:
  "\<not> (UBStrategy ex_incremental \<and> toOptimize ex_incremental) \<and>
    (\<exists>b s'. solve bf_engine plain_choices ex_incremental = Some (b, s') \<and> ems_inv s' \<and> \<not> start_solve s' \<and> same_optima ex_incremental s' \<and>
      is_incremental s' \<and> UBStrategy s' = UBStrategy ex_incremental \<and> toOptimize s' = toOptimize ex_incremental \<and>
      (\<not> (UBStrategy ex_incremental \<and> toOptimize ex_incremental) \<longrightarrow> optimizer_sound s') \<and>
      (optimizer_sound s' \<longrightarrow>
        (\<exists>s1 b2 s2. addClause [1] None s' = Some (0, s1) \<and> solve bf_engine plain_choices s1 = Some (b2, s2) \<and> ems_inv s2 \<and> is_incremental s2 \<and>
          (if b2 then sat_all (model_of (solution s2)) (insert [1] (cls ex_incremental)) \<and> obj (model_of (solution s2)) ex_incremental \<le> solutionCost s2 \<and>
              (\<forall>\<sigma>. exact \<sigma> ex_incremental \<and> sat_clause \<sigma> [1] \<longrightarrow> solutionCost s2 \<le> obj \<sigma> ex_incremental)
           else (\<forall>\<sigma>. \<not> (exact \<sigma> ex_incremental \<and> sat_clause \<sigma> [1]))))))"
  by (rule conjI [OF ex_incremental_ok(4) incremental_solve_keeps_formula [OF bf_engine_ok bf_engine_live ex_incremental_ok(1-3,5)]])

text \<open>C4. \<open>solveFile\<close> returns and no assertion fails: in particular \<open>assert(cost == calculateCost(file, solution))\<close> holds for every answer.\<close>

theorem solveFile_cost_assertion:
  assumes "engine_ok E" "engine_live E" "ls \<noteq> []" "list_all line_fits ls" "total_weight (soft_clauses ls) < 9223372036854775808"
  shows "\<exists>b sol c s'. solveFile E Ch (show_file ls) (configure opts) = Some (Inr (b, sol, c, s')) \<and>
    (if b then calculateCost (show_file ls) sol = Inr c else unsatisfiable ls)"
  using assms(1,2) plain_configure [of opts] assms(3-5) by (rule solveFile_ok) auto

theorem solveFile_cost_assertion_witness:
  "\<exists>b sol c s'. solveFile bf_engine plain_choices (show_file ex_file) (configure ex_opts) = Some (Inr (b, sol, c, s')) \<and>
    (if b then calculateCost (show_file ex_file) sol = Inr c else unsatisfiable ex_file)"
  by (rule solveFile_cost_assertion [OF bf_engine_ok bf_engine_live ex_file_ok(1-3)])

text \<open>C5. Round trip of the reader. Parsing the text of a file into a new solver succeeds, and the state has the meaning of the file: a model of the state satisfies the
  hard clauses and costs at least its penalty in the file, and every model of the hard clauses extends to an exact model of the state that
  costs no more.\<close>

theorem parse_loads_file:
  assumes "ls \<noteq> []" "list_all line_fits ls" "total_weight (soft_clauses ls) < 9223372036854775808"
  shows "\<exists>s'. parse (show_file ls) ems_new = Inr (True, s') \<and> ems_inv s' \<and> nInputVars s' = lines_vars ls \<and>
    (\<forall>\<sigma>. sat_all \<sigma> (cls s') \<longrightarrow> sat_all \<sigma> (set (hard_clauses ls)) \<and> penalty \<sigma> (soft_clauses ls) \<le> obj \<sigma> s') \<and>
    (\<forall>\<sigma>. sat_all \<sigma> (set (hard_clauses ls)) \<longrightarrow>
      (\<exists>\<sigma>'. agree_upto (lines_vars ls) \<sigma> \<sigma>' \<and> exact \<sigma>' s' \<and> obj \<sigma>' s' \<le> penalty \<sigma> (soft_clauses ls)))"
proof -
  obtain s' where "parse (show_file ls) ems_new = Inr (True, s')" "ems_inv s'" "nInputVars s' = lines_vars ls" "encodes ls s'"
    by (rule parse_ok [OF plain_new assms])
  then show ?thesis unfolding encodes_def by blast
qed

theorem parse_loads_file_witness:
  "\<exists>s'. parse (show_file ex_file) ems_new = Inr (True, s') \<and> ems_inv s' \<and> nInputVars s' = lines_vars ex_file \<and>
    (\<forall>\<sigma>. sat_all \<sigma> (cls s') \<longrightarrow> sat_all \<sigma> (set (hard_clauses ex_file)) \<and> penalty \<sigma> (soft_clauses ex_file) \<le> obj \<sigma> s') \<and>
    (\<forall>\<sigma>. sat_all \<sigma> (set (hard_clauses ex_file)) \<longrightarrow>
      (\<exists>\<sigma>'. agree_upto (lines_vars ex_file) \<sigma> \<sigma>' \<and> exact \<sigma>' s' \<and> obj \<sigma>' s' \<le> penalty \<sigma> (soft_clauses ex_file)))"
  by (rule parse_loads_file [OF ex_file_ok(1-3)])

text \<open>C6. \<open>calculateCost\<close> on the text of a file and an assignment that covers its variables: the weight of the soft clauses it violates, or
  the maximal weight when it violates a hard clause.\<close>

theorem calculateCost_of_file:
  assumes "list_all line_fits ls" "lines_vars ls < length m" "total_weight (soft_clauses ls) \<le> t_weight_max"
  shows "calculateCost (show_file ls) m =
    Inr (if sat_all (model_of m) (set (hard_clauses ls)) then penalty (model_of m) (soft_clauses ls) else t_weight_max)"
  by (rule calculateCost_ok [OF assms])

theorem calculateCost_of_file_witness:
  "calculateCost (show_file ex_file) [False, True, False] =
    Inr (if sat_all (model_of [False, True, False]) (set (hard_clauses ex_file))
         then penalty (model_of [False, True, False]) (soft_clauses ex_file) else t_weight_max)"
  by (rule calculateCost_of_file [OF ex_file_ok(2)]) (use ex_file_ok(3,4) in \<open>simp_all add: t_weight_max_def\<close>)

text \<open>C7. The signal handler recomputes the cost of the best known assignment from the file, so it prints \<open>s SATISFIABLE\<close> only with an assignment that
  satisfies the hard clauses, with its true cost, and \<open>s UNKNOWN\<close> otherwise.\<close>

theorem signal_handler_answers:
  assumes "list_all line_fits ls" "lines_vars ls = nInputVars s" "total_weight (soft_clauses ls) < 9223372036854775808" "bench opts = 0"
  shows "\<exists>hello. signalHandler signum secs name opts (show_file ls) (Some s) =
    (if sat_all (model_of (getSolution s)) (set (hard_clauses ls))
     then Inr (hello # print_answer opts (penalty (model_of (getSolution s)) (soft_clauses ls)) ''s SATISFIABLE'' (getSolution s), 10)
     else Inr ([hello, ''s UNKNOWN''], 0))"
  by (rule signalHandler_ok [OF assms])

theorem signal_handler_answers_witness:
  "\<exists>hello. signalHandler 2 ''0.1'' ''f'' ex_opts (show_file ex_file) (Some (setNInputVars 2 ems_new)) =
    (if sat_all (model_of (getSolution (setNInputVars 2 ems_new))) (set (hard_clauses ex_file))
     then Inr (hello # print_answer ex_opts (penalty (model_of (getSolution (setNInputVars 2 ems_new))) (soft_clauses ex_file))
       ''s SATISFIABLE'' (getSolution (setNInputVars 2 ems_new)), 10)
     else Inr ([hello, ''s UNKNOWN''], 0))"
  by (rule signal_handler_answers [OF ex_file_ok(2) _ ex_file_ok(3)]) (simp_all add: ex_file_ok(4) setNInputVars_def ex_opts_def)

text \<open>C8. Adding a hard clause. The models that remain are those that satisfy the clause, with the costs they had; a unit clause on a soft literal
  moves its weight into the constant cost when it falsifies the literal.\<close>

theorem addClause_hard_effect:
  assumes "base_inv s" "weights_inv W s" "\<forall>l \<in> set c. lit_upto (nv s) l"
  shows "\<exists>s'. addClause c None s = Some (0, s') \<and> base_inv s' \<and> weights_inv W s' \<and> c \<in> cls s' \<and> cost s' = cost s + forfeit c s \<and>
    (\<forall>\<sigma>. sat_all \<sigma> (cls s') \<longrightarrow> sat_all \<sigma> (cls s) \<and> obj \<sigma> s \<le> obj \<sigma> s') \<and>
    (\<forall>\<sigma>. exact \<sigma> s \<and> sat_clause \<sigma> c \<longrightarrow> (\<exists>\<sigma>'. agree_upto (nv s) \<sigma> \<sigma>' \<and> exact \<sigma>' s' \<and> obj \<sigma>' s' \<le> obj \<sigma> s))"
proof -
  obtain s' where s': "addClause_hard c s = Some s'" "base_inv s'" "weights_inv W s'" "sim (\<lambda>\<sigma>. sat_clause \<sigma> c) (\<lambda>\<sigma>. 0) s s'" "c \<in> cls s'"
      "cost s' = cost s + forfeit c s"
    by (rule addClause_hard_ok [OF assms])
  have "addClause c None s = Some (0, s')" using s'(1) by (simp add: addClause_def)
  then show ?thesis using s'(2-) unfolding sim_def by (auto intro: sat_all_mono)
qed

theorem addClause_hard_effect_witness:
  "\<exists>s'. addClause [- 1] None ex_soft2 = Some (0, s') \<and> base_inv s' \<and> weights_inv [] s' \<and> [- 1] \<in> cls s' \<and> cost s' = cost ex_soft2 + forfeit [- 1] ex_soft2 \<and>
    (\<forall>\<sigma>. sat_all \<sigma> (cls s') \<longrightarrow> sat_all \<sigma> (cls ex_soft2) \<and> obj \<sigma> ex_soft2 \<le> obj \<sigma> s') \<and>
    (\<forall>\<sigma>. exact \<sigma> ex_soft2 \<and> sat_clause \<sigma> [- 1] \<longrightarrow> (\<exists>\<sigma>'. agree_upto (nv ex_soft2) \<sigma> \<sigma>' \<and> exact \<sigma>' s' \<and> obj \<sigma>' s' \<le> obj \<sigma> ex_soft2))"
  by (rule addClause_hard_effect [OF ex_soft2_ok(1,2)]) (simp add: ex_soft2_ok lit_upto_def)

text \<open>C9. Adding a soft clause of positive weight, of any length: the cost of every model grows by the weight if it violates the clause and
  stays the same otherwise.\<close>

theorem addClause_soft_effect:
  assumes "base_inv s" "weights_inv W s" "0 < w" "budget s + w < 9223372036854775808"
    "\<forall>l \<in> set c. lit_upto (nv s) l \<and> mapAssum2Card s ! nat \<bar>l\<bar> = None" "addable s"
  shows "\<exists>r s'. addClause c (Some w) s = Some (r, s') \<and> base_inv s' \<and> weights_inv W s' \<and> budget s' \<le> budget s + w \<and>
    (\<forall>\<sigma>. sat_all \<sigma> (cls s') \<longrightarrow> sat_all \<sigma> (cls s) \<and> obj \<sigma> s + pays c w \<sigma> \<le> obj \<sigma> s') \<and>
    (\<forall>\<sigma>. exact \<sigma> s \<longrightarrow> (\<exists>\<sigma>'. agree_upto (nv s) \<sigma> \<sigma>' \<and> exact \<sigma>' s' \<and> obj \<sigma>' s' \<le> obj \<sigma> s + pays c w \<sigma>))"
proof -
  obtain r s' where s': "addClause_soft c w s = Some (r, s')" "base_inv s'" "weights_inv W s'"
      "sim (\<lambda>\<sigma>. True) (\<lambda>\<sigma>. - pays c w \<sigma>) s s'" "budget s' \<le> budget s + w"
    by (rule addClause_soft_ok [OF assms])
  have "addClause c (Some w) s = Some (r, s')" using s'(1) by (simp add: addClause_def)
  then show ?thesis using s'(2-) unfolding sim_def by (force intro: sat_all_mono)
qed

theorem addClause_soft_effect_witness:
  "\<exists>r s'. addClause [1, 2] (Some 4) ex_soft2 = Some (r, s') \<and> base_inv s' \<and> weights_inv [] s' \<and> budget s' \<le> budget ex_soft2 + 4 \<and>
    (\<forall>\<sigma>. sat_all \<sigma> (cls s') \<longrightarrow> sat_all \<sigma> (cls ex_soft2) \<and> obj \<sigma> ex_soft2 + pays [1, 2] 4 \<sigma> \<le> obj \<sigma> s') \<and>
    (\<forall>\<sigma>. exact \<sigma> ex_soft2 \<longrightarrow> (\<exists>\<sigma>'. agree_upto (nv ex_soft2) \<sigma> \<sigma>' \<and> exact \<sigma>' s' \<and> obj \<sigma>' s' \<le> obj \<sigma> ex_soft2 + pays [1, 2] 4 \<sigma>))"
  by (rule addClause_soft_effect [OF ex_soft2_ok(1,2)]) (simp_all add: ex_soft2_ok lit_upto_def ex_addable)

text \<open>C10. \<open>processAtMostOne\<close>: for soft literals of which the clauses allow at most one, the replacement by one soft clause per weight level keeps the optima, keeps
  the invariant and raises the lower bound when there are at least two of them.\<close>

theorem at_most_one_sound:
  assumes "base_inv s" "weights_inv W s" "distinct c" "amo (cls s) c" "\<forall>l \<in> set c. 0 < wt (poids s) l" "start_solve s"
  shows "\<exists>new s'. processAtMostOne c s = Some (new, s') \<and> base_inv s' \<and> weights_inv W s' \<and> same_optima s s' \<and>
    budget s' \<le> budget s \<and> (2 \<le> length c \<longrightarrow> cost s < cost s')"
proof -
  obtain new s' where "processAtMostOne c s = Some (new, s')" "evolves W s s'" "2 \<le> length c \<longrightarrow> cost s < cost s'"
    by (rule processAtMostOne_ok [OF assms])
  then show ?thesis using sim0_same_optima by (auto simp: evolves_def)
qed

theorem at_most_one_sound_witness:
  "\<exists>new s'. processAtMostOne [1, 2] ex_run = Some (new, s') \<and> base_inv s' \<and> weights_inv [] s' \<and> same_optima ex_run s' \<and>
    budget s' \<le> budget ex_run \<and> (2 \<le> length [1, 2 :: int] \<longrightarrow> cost ex_run < cost s')"
  by (rule at_most_one_sound [OF ex_run_ok(1,2) _ ex_amo _ ex_run_ok(11)]) (simp_all add: ex_run_ok)

text \<open>C11. \<open>extractAM\<close> with its three procedures (exact cliques, \<open>adapt_am1_VF\<close>, \<open>adapt_am1_FastHeuristicV7\<close>), on any order of the timers: it returns, keeps the optima and never
  lowers the bound.\<close>

theorem extractAM_sound:
  assumes "engine_ok E" "base_inv s" "weights_inv W s" "start_solve s"
  shows "\<exists>s'. extractAM E Ch s = Some s' \<and> base_inv s' \<and> weights_inv W s' \<and> same_optima s s' \<and> budget s' \<le> budget s \<and> cost s \<le> cost s'"
proof -
  obtain s' where "extractAM E Ch s = Some s'" "evolves W s s'" by (rule extractAM_ok [OF assms])
  then show ?thesis using sim0_same_optima by (auto simp: evolves_def)
qed

theorem extractAM_sound_witness:
  "\<exists>s'. extractAM bf_engine plain_choices ex_run = Some s' \<and> base_inv s' \<and> weights_inv [] s' \<and> same_optima ex_run s' \<and>
    budget s' \<le> budget ex_run \<and> cost ex_run \<le> cost s'"
  by (rule extractAM_sound [OF bf_engine_ok ex_run_ok(1,2,11)])

text \<open>C12. Core extraction after an unsatisfiable question, with the repeated shuffled questions and the minimization: it returns a duplicate-free set of the assumed soft literals that
  every model of the clauses falsifies somewhere.\<close>

theorem core_found:
  assumes "engine_ok E" "base_inv s" "distinct A" "\<forall>l \<in> set A. 0 < wt (poids s) l" "sc_unsat A (solver s)"
  shows "\<exists>c s'. find_core E Ch A s = Some (c, s') \<and> base_inv s' \<and> cls s' = cls s \<and> distinct c \<and> set c \<subseteq> set A \<and>
    (\<forall>\<sigma>. sat_all \<sigma> (cls s) \<longrightarrow> (\<exists>l \<in> set c. \<not> lit_true \<sigma> l))"
proof -
  obtain c s' where c: "find_core E Ch A s = Some (c, s')" "queried s s'" "soft_core A s' c" by (rule find_core_ok [OF assms])
  have "cls s' = cls s" using c(2) by (auto simp: queried_def cls_def sc_same_def sc_clauses_def)
  then show ?thesis using c queried_base [OF c(2) assms(2)] by (auto simp: soft_core_def core_def)
qed

theorem core_found_witness:
  "\<exists>c s'. find_core bf_engine plain_choices [1, 2] ex_asked = Some (c, s') \<and> base_inv s' \<and> cls s' = cls ex_asked \<and> distinct c \<and> set c \<subseteq> set [1, 2] \<and>
    (\<forall>\<sigma>. sat_all \<sigma> (cls ex_asked) \<longrightarrow> (\<exists>l \<in> set c. \<not> lit_true \<sigma> l))"
  by (rule core_found [OF bf_engine_ok ex_asked_ok(3) _ _ ex_asked_ok(2)]) (simp_all add: ex_asked_ok(4) ex_run_ok)

text \<open>C13. \<open>oneMinimize\<close>, under any outcome of its limited questions and timers: what it leaves is again a core over the same assumptions.\<close>

theorem minimization_keeps_core:
  assumes "engine_ok E" "base_inv s" "soft_core A s c"
  shows "\<exists>p d s'. oneMinimize E Ch site B c s = Some (p, d, s') \<and> queried s s' \<and> distinct d \<and> set d \<subseteq> set A \<and> core (cls s') d"
proof -
  obtain p d s' where "oneMinimize E Ch site B c s = Some (p, d, s')" "queried s s'" "soft_core A s' d" by (rule oneMinimize_ok [OF assms])
  then show ?thesis by (auto simp: soft_core_def)
qed

theorem minimization_keeps_core_witness:
  "\<exists>p d s'. oneMinimize bf_engine plain_choices 0 10 [1, 2] ex_run = Some (p, d, s') \<and> queried ex_run s' \<and> distinct d \<and> set d \<subseteq> set [1, 2] \<and> core (cls s') d"
  by (rule minimization_keeps_core [OF bf_engine_ok ex_run_ok(1) ex_core])

text \<open>C14. Processing a core (lines 544 to 575): the lower bound rises, the optima stay the same, and the set of assumptions is again exactly the set of soft literals whose weight
  reaches the current threshold.\<close>

theorem core_raises_bound:
  assumes "base_inv s" "weights_inv (litToRelax s) s" "soft_core B s c" "c \<noteq> []" "assum_ok m A s"
  shows "\<exists>A' s'. apply_core m c A s = Some (A', s') \<and> ems_inv s' \<and> same_optima s s' \<and> budget s' = budget s \<and> cost s < cost s' \<and>
    set A' = {l. m \<le> wt (poids s') l}"
proof -
  obtain A' s' where "apply_core m c A s = Some (A', s')" "core_applied m s A' s'" by (rule apply_core_ok [OF assms])
  then show ?thesis using sim0_same_optima by (auto simp: core_applied_def ems_inv_def assum_ok_def)
qed

theorem core_raises_bound_witness:
  "\<exists>A' s'. apply_core 1 [1, 2] (initAssum 1 ex_run) ex_run = Some (A', s') \<and> ems_inv s' \<and> same_optima ex_run s' \<and> budget s' = budget ex_run \<and>
    cost ex_run < cost s' \<and> set A' = {l. 1 \<le> wt (poids s') l}"
  by (rule core_raises_bound [OF ex_run_ok(1) _ ex_core]) (simp_all add: ex_run_ok initAssum_ok [where W = "[]"])

text \<open>C15. \<open>relax\<close>: giving up an output of a cardinality and taking up the next one keeps the optima and the sum of all weights that are still to be paid.\<close>

theorem relax_keeps_optima:
  assumes "base_inv s" "lit \<noteq> 0" "nat \<bar>lit\<bar> \<le> nv s" "budget s \<le> t_weight_max"
    "\<And>e. mapAssum2Card s ! nat \<bar>lit\<bar> = Some e \<Longrightarrow> out_open s (lc_card e) (lc_atMost e + 1)"
  shows "\<exists>r s'. relax lit s = Some (r, s') \<and> base_inv s' \<and> same_optima s s' \<and> budget s' = budget s"
proof -
  obtain r s' where "relax lit s = Some (r, s')" "relaxed lit r s s'" using assms by (rule relax_ok)
  then show ?thesis using sim0_same_optima by (auto simp: relaxed_def)
qed

theorem relax_keeps_optima_witness:
  "\<exists>r s'. relax (- 1) ex_soft2 = Some (r, s') \<and> base_inv s' \<and> same_optima ex_soft2 s' \<and> budget s' = budget ex_soft2"
  by (rule relax_keeps_optima [OF ex_soft2_ok(1)]) (simp_all add: ex_soft2_ok t_weight_max_def)

text \<open>C16. The incremental totalizer. Asking a cardinality for \<open>atMost(k)\<close> returns a literal that implies, in every model of the clauses, that at most \<open>k\<close> of its literals are true, and that
  is equivalent to it in every exact model.\<close>

theorem totalizer_counts:
  assumes "cards_inv s" "c < length (cards s)" "k < maxVars (cards s ! c)"
  shows "\<exists>l s'. eval_atMost c k s = Some (l, s') \<and> cards_inv s' \<and> cls s \<subseteq> cls s' \<and>
    (\<forall>\<sigma>. sat_all \<sigma> (cls s') \<and> lit_true \<sigma> l \<longrightarrow> count_true \<sigma> (clits s c) \<le> k) \<and>
    (\<forall>\<sigma>. exact \<sigma> s' \<longrightarrow> lit_true \<sigma> l = (count_true \<sigma> (clits s c) \<le> k)) \<and>
    (\<forall>\<sigma>. exact \<sigma> s \<longrightarrow> (\<exists>\<sigma>'. agree_upto (nv s) \<sigma> \<sigma>' \<and> exact \<sigma>' s'))"
proof -
  obtain v s' where r: "eval_atMost c k s = Some (- v, s')" "cards_inv s'" "grows s s'" "out_var s' c k v" "length (cards s') = length (cards s)"
    by (rule eval_atMost_ok [OF assms])
  have c: "c < length (cards s')" "clits s' c = clits s c" using r(3,5) assms(2) by (simp_all add: grows_def)
  have v: "v \<noteq> 0" using out_var_upto [OF r(2) c(1) r(4)] by auto
  note C = card_count [OF r(2) c(1) r(4), unfolded c(2)]
  have "count_true \<sigma> (clits s c) \<le> k" if "sat_all \<sigma> (cls s')" "lit_true \<sigma> (- v)" for \<sigma>
    using C(1) that v by (simp add: linorder_not_less [symmetric]) blast
  moreover have "lit_true \<sigma> (- v) = (count_true \<sigma> (clits s c) \<le> k)" if "exact \<sigma> s'" for \<sigma>
    using C(2) that v by (simp add: linorder_not_less)
  ultimately show ?thesis using r by (auto simp: grows_def)
qed

theorem totalizer_counts_witness:
  "\<exists>l s'. eval_atMost 0 1 ex_card = Some (l, s') \<and> cards_inv s' \<and> cls ex_card \<subseteq> cls s' \<and>
    (\<forall>\<sigma>. sat_all \<sigma> (cls s') \<and> lit_true \<sigma> l \<longrightarrow> count_true \<sigma> (clits ex_card 0) \<le> 1) \<and>
    (\<forall>\<sigma>. exact \<sigma> s' \<longrightarrow> lit_true \<sigma> l = (count_true \<sigma> (clits ex_card 0) \<le> 1)) \<and>
    (\<forall>\<sigma>. exact \<sigma> ex_card \<longrightarrow> (\<exists>\<sigma>'. agree_upto (nv ex_card) \<sigma> \<sigma>' \<and> exact \<sigma>' s'))"
  by (rule totalizer_counts) (use ex_card_ok in simp_all)

text \<open>C17. \<open>harden\<close>: soft literals that are too heavy to be violated become hard. Every exact model that is cheaper than the best known solution survives, and the assumptions stay complete.\<close>

theorem harden_keeps_better:
  assumes "base_inv s" "weights_inv W s" "solutionCost s \<le> t_weight_max" "assum_ok m A s"
  shows "\<exists>nb B s'. harden A s = Some (nb, B, s') \<and> base_inv s' \<and> weights_inv W s' \<and> cost s' = cost s \<and> set B = {l. m \<le> wt (poids s') l} \<and>
    (\<forall>\<sigma>. sat_all \<sigma> (cls s') \<longrightarrow> sat_all \<sigma> (cls s) \<and> obj \<sigma> s \<le> obj \<sigma> s') \<and>
    (\<forall>\<sigma>. exact \<sigma> s \<and> obj \<sigma> s < solutionCost s \<longrightarrow> (\<exists>\<sigma>'. agree_upto (nv s) \<sigma> \<sigma>' \<and> exact \<sigma>' s' \<and> obj \<sigma>' s' \<le> obj \<sigma> s))"
proof -
  obtain nb B s' where "harden A s = Some (nb, B, s')" "base_inv s'" "weights_inv W s'" "simU (is_incremental s) (solutionCost s) s s'"
      "cost s' = cost s" "\<forall>m. assum_ok m A s \<longrightarrow> assum_ok m B s'"
    by (rule harden_ok [OF assms(1-3)])
  then show ?thesis using assms(4) unfolding simU_def sim_def by (auto simp: assum_ok_def intro: sat_all_mono)
qed

theorem harden_keeps_better_witness:
  "\<exists>nb B s'. harden (initAssum 1 ex_run) ex_run = Some (nb, B, s') \<and> base_inv s' \<and> weights_inv [] s' \<and> cost s' = cost ex_run \<and>
    set B = {l. 1 \<le> wt (poids s') l} \<and>
    (\<forall>\<sigma>. sat_all \<sigma> (cls s') \<longrightarrow> sat_all \<sigma> (cls ex_run) \<and> obj \<sigma> ex_run \<le> obj \<sigma> s') \<and>
    (\<forall>\<sigma>. exact \<sigma> ex_run \<and> obj \<sigma> ex_run < solutionCost ex_run \<longrightarrow>
      (\<exists>\<sigma>'. agree_upto (nv ex_run) \<sigma> \<sigma>' \<and> exact \<sigma>' s' \<and> obj \<sigma>' s' \<le> obj \<sigma> ex_run))"
  by (rule harden_keeps_better [OF ex_run_ok(1,2)]) (simp_all add: ex_run_ok initAssum_ok [where W = "[]"])

text \<open>C18. \<open>chooseNextMinWeight\<close>: the next threshold is 1 or strictly smaller than the last one, and the function only tidies up the index of weights.\<close>

theorem strata_descend:
  assumes "weights_inv W s"
  shows "\<exists>r s'. chooseNextMinWeight Ch m s = Some (r, s') \<and> 1 \<le> r \<and> (r = 1 \<or> r < m) \<and> weights_inv W s' \<and>
    poids s' = poids s \<and> solver s' = solver s \<and> cost s' = cost s"
proof -
  obtain r s' where r: "chooseNextMinWeight Ch m s = Some (r, s')" "reindexed s s'" "1 \<le> r" "r = 1 \<or> r < m"
    by (rule chooseNextMinWeight_ok [OF assms])
  note R = reindexed_ok [OF r(2)]
  show ?thesis by (intro exI conjI) (rule r(1) r(3) r(4) R(7) [OF assms] R(1) R(8) R(3))+
qed

theorem strata_descend_witness:
  "\<exists>r s'. chooseNextMinWeight plain_choices 4 ex_run = Some (r, s') \<and> 1 \<le> r \<and> (r = 1 \<or> r < 4) \<and> weights_inv [] s' \<and>
    poids s' = poids ex_run \<and> solver s' = solver ex_run \<and> cost s' = cost ex_run"
  by (rule strata_descend [OF ex_run_ok(2)])

text \<open>C19. \<open>initAssum\<close> walks the index of weights from the heaviest weight down to the threshold; what it collects is the sorted set of exactly the soft literals whose weight reaches the threshold.\<close>

theorem assumptions_complete:
  assumes "base_inv s" "weights_inv W s" "1 \<le> m"
  shows "increasing (initAssum m s) \<and> set (initAssum m s) = {l. m \<le> wt (poids s) l}"
  using initAssum_ok [OF assms(2,1,3)] by (simp add: assum_ok_def)

theorem assumptions_complete_witness:
  "increasing (initAssum 3 ex_run) \<and> set (initAssum 3 ex_run) = {l. 3 \<le> wt (poids ex_run) l}"
  by (rule assumptions_complete [OF ex_run_ok(1,2)]) simp

text \<open>C20. \<open>LocalOptimizer2::optimize\<close>: whatever the limited questions answer, it returns an assignment that satisfies the clauses and the cost of exactly this assignment.\<close>

theorem local_optimizer_sound:
  assumes "engine_ok E" "engine_live E" "base_inv s" "lo_ok (nv s) lo" "nv s < length sol" "sat_all (model_of sol) (cls s)"
  shows "\<exists>sol' s'. lo_optimize E Ch lo sol s = Some (lo_cost lo (model_of sol'), sol', s') \<and> queried s s' \<and>
    nv s < length sol' \<and> sat_all (model_of sol') (cls s)"
  using assms by (rule lo_optimize_ok) blast

theorem local_optimizer_sound_witness:
  "\<exists>sol' s'. lo_optimize bf_engine plain_choices (lo_new ex_soft2) [False, False, False] ex_soft2 =
      Some (lo_cost (lo_new ex_soft2) (model_of sol'), sol', s') \<and> queried ex_soft2 s' \<and>
    nv ex_soft2 < length sol' \<and> sat_all (model_of sol') (cls ex_soft2)"
  by (rule local_optimizer_sound [OF bf_engine_ok bf_engine_live ex_soft2_ok(1) ex_lo_ok]) (simp_all add: ex_soft2_ok)

text \<open>C21. \<open>Maxclique::mcqdyn\<close> returns a clique of the graph for every limit on its steps and every order of equal degrees, and a largest one when the limit was not reached.\<close>

theorem max_clique_optimal:
  assumes "graph_ok e sz" "0 < sz"
  shows "\<exists>s. mcq_run Ch e sz maxStep = Some s \<and> sorted_wrt (adj e) (QMAX s) \<and> distinct (QMAX s) \<and> (\<forall>v \<in> set (QMAX s). v < sz) \<and>
    (pk s \<le> maxStep \<longrightarrow> (\<forall>X. is_clique e X \<and> X \<subseteq> {..<sz} \<longrightarrow> card X \<le> length (QMAX s)))"
  using assms by (rule mcq_run_ok) blast

theorem max_clique_optimal_witness:
  "\<exists>s. mcq_run plain_choices [[False, True], [True, False]] 2 100 = Some s \<and> sorted_wrt (adj [[False, True], [True, False]]) (QMAX s) \<and>
    distinct (QMAX s) \<and> (\<forall>v \<in> set (QMAX s). v < 2) \<and>
    (pk s \<le> 100 \<longrightarrow> (\<forall>X. is_clique [[False, True], [True, False]] X \<and> X \<subseteq> {..<2} \<longrightarrow> card X \<le> length (QMAX s)))"
  by (rule max_clique_optimal) (auto simp: graph_ok_def less_Suc_eq numeral_2_eq_2)

text \<open>C22. The two-watched-literal search of CaDiCaL, from the clauses of the formula as they come in to the literals read off the trail: the loading returns, \<open>find_up_implicants\<close> under one assumption
  returns, what it reports meets the contract \<open>propagate_ok\<close> under which the MaxSAT solver is verified, and no literal that unit propagation derives is missing unless the formula alone implies it. This holds with
  and without chronological backtracking.\<close>

theorem up_implicants_contract:
  assumes "stats_ok v" "has_var a v" "\<forall>c \<in> set F. \<forall>l \<in> set c. has_var l v \<and> flags_status l v = ACTIVE"
  shows "\<exists>s ok ls s'. add_original_lits (flat_lits F) ([], (internal_new ph ch)\<lparr>is_ivars := v\<rparr>) = Some ([], s) \<and>
    find_up_implicants False [a] [] [] s = Some (ok, ls, s') \<and> propagate_ok F [a] (if ok then Some ls else None) \<and>
    (ok \<longrightarrow> (\<forall>l. up_derives (set F) {a} l \<longrightarrow> l = a \<or> l \<in> set ls \<or> entails (set F) [l]))"
proof -
  have "\<exists>s. add_original_lits (flat_lits F) ([], (internal_new ph ch)\<lparr>is_ivars := v\<rparr>) = Some ([], s) \<and> idle (set F \<union> {}) s \<and>
      carries ((internal_new ph ch)\<lparr>is_ivars := v\<rparr>) s \<and> i_max_var (is_ivars s) = i_max_var (is_ivars ((internal_new ph ch)\<lparr>is_ivars := v\<rparr>)) \<and>
      (is_level ((internal_new ph ch)\<lparr>is_ivars := v\<rparr>) = 0 \<longrightarrow> is_level s = 0) \<and> (F = [] \<longrightarrow> s = (internal_new ph ch)\<lparr>is_ivars := v\<rparr>)"
    by (rule add_formula_ok [OF idle_new(1) [OF assms(1)]], rule idle_new(2) [OF assms(1)]) (use assms(3) in auto)
  then obtain s where s: "add_original_lits (flat_lits F) ([], (internal_new ph ch)\<lparr>is_ivars := v\<rparr>) = Some ([], s)" "idle (set F) s" "i_max_var (is_ivars s) = i_max_var v"
    by auto
  have a: "has_var a (is_ivars s)" using assms(2) s(3) by (simp add: has_var_def)
  obtain ok ls s' where s': "find_up_implicants False [a] (flat_lits []) [] s = Some (ok, ls, s')"
      "\<And>\<sigma>. \<not> ok \<Longrightarrow> sat_all \<sigma> (set [] \<union> set F) \<Longrightarrow> \<not> lit_true \<sigma> a" "ok \<Longrightarrow> implicants (set [] \<union> set F) a ls"
    by (rule find_up_implicants_ok [OF s(2) a, of "[]"]) (auto intro: that)
  have "propagate_ok F [a] (if ok then Some ls else None)"
    using s'(2,3) by (auto simp: propagate_ok_def satisfies_def implicants_def)
  then show ?thesis using s(1) s'(1,3) by (auto simp: flat_lits_def implicants_def)
qed

theorem up_implicants_contract_witness:
  "\<exists>s ok ls s'. add_original_lits (flat_lits ex_chain) ([], (internal_new True 1)\<lparr>is_ivars := ex_svars\<rparr>) = Some ([], s) \<and>
    find_up_implicants False [1] [] [] s = Some (ok, ls, s') \<and> propagate_ok ex_chain [1] (if ok then Some ls else None) \<and>
    (ok \<longrightarrow> (\<forall>l. up_derives (set ex_chain) {1} l \<longrightarrow> l = 1 \<or> l \<in> set ls \<or> entails (set ex_chain) [l]))"
  by (rule up_implicants_contract [OF ex_svars_ok(1)]) (use ex_svars_ok(3) in \<open>auto simp: ex_chain_def\<close>)

text \<open>C23. \<open>Internal::propagate\<close> with watches, blocking literals, saved positions and the special treatment of binary clauses: it returns, it keeps the invariant of the trail and of the watches,
  every assignment that satisfies the formula and the decisions makes the whole trail true and excludes a conflict, and when it reports no conflict, every clause that is not garbage has a true literal or
  two unassigned ones.\<close>

theorem propagate_correct:
  assumes "prop_inv G s" "\<not> is_unsat s"
  shows "\<exists>b s'. propagate s = Some (b, s') \<and> prop_inv G s' \<and> grows_to s s' \<and>
    (\<forall>\<sigma>. sat_all \<sigma> G \<and> (\<forall>d \<in> set (decisions s). lit_true \<sigma> d) \<longrightarrow> b \<and> (\<forall>l \<in> set (is_trail s'). lit_true \<sigma> l)) \<and>
    (b \<longrightarrow> (\<forall>d < length (is_clauses s'). ic_garbage (is_clauses s' ! d) \<or> set (is_trail s') \<inter> set (lits_at s' d) \<noteq> {} \<or>
       (\<exists>x \<in> set (lits_at s' d). \<exists>y \<in> set (lits_at s' d). x \<noteq> y \<and> is_vals s' x = 0 \<and> is_vals s' y = 0)))"
proof -
  obtain b s' where s': "propagate s = Some (b, s')" "prop_inv G s'" "grows_to s s'" "b = (is_conflict s' = None)" "b \<Longrightarrow> is_propagated s' = length (is_trail s')"
    by (rule propagate_total [OF assms]) (rule that)
  have inv: "search_inv G s'" using s'(2) by (simp add: prop_inv_def)
  have dec: "decisions s' = decisions s" using grows_toD(3) [OF s'(3)] by (simp add: decisions_def)
  have "b \<and> (\<forall>l \<in> set (is_trail s'). lit_true \<sigma> l)" if "sat_all \<sigma> G" "\<forall>d \<in> set (decisions s). lit_true \<sigma> d" for \<sigma>
    using trail_implied [OF inv that(1)] conflict_refutes [OF inv _ that(1)] that(2) dec s'(4) by (cases "is_conflict s'") auto
  moreover have "ic_garbage (is_clauses s' ! d) \<or> set (is_trail s') \<inter> set (lits_at s' d) \<noteq> {} \<or>
      (\<exists>x \<in> set (lits_at s' d). \<exists>y \<in> set (lits_at s' d). x \<noteq> y \<and> is_vals s' x = 0 \<and> is_vals s' y = 0)" if d: "b" "d < length (is_clauses s')" for d
  proof -
    have "is_conflict s' = None" "is_propagated s' = length (is_trail s')" using d(1) s'(4,5) by auto
    then show ?thesis using propagation_complete [OF s'(2) _ _ d(2)] by blast
  qed
  ultimately show ?thesis using s'(1-3) by blast
qed

theorem propagate_correct_witness:
  "\<exists>b s'. propagate ex_decided = Some (b, s') \<and> prop_inv (set ex_chain) s' \<and> grows_to ex_decided s' \<and>
    (\<forall>\<sigma>. sat_all \<sigma> (set ex_chain) \<and> (\<forall>d \<in> set (decisions ex_decided). lit_true \<sigma> d) \<longrightarrow> b \<and> (\<forall>l \<in> set (is_trail s'). lit_true \<sigma> l)) \<and>
    (b \<longrightarrow> (\<forall>d < length (is_clauses s'). ic_garbage (is_clauses s' ! d) \<or> set (is_trail s') \<inter> set (lits_at s' d) \<noteq> {} \<or>
       (\<exists>x \<in> set (lits_at s' d). \<exists>y \<in> set (lits_at s' d). x \<noteq> y \<and> is_vals s' x = 0 \<and> is_vals s' y = 0)))"
  by (rule propagate_correct [OF ex_decided_ok(1,4)])

text \<open>C24. \<open>Internal::backtrack\<close>: from every state in which the levels below are settled, also one whose conflict was dropped, it takes back exactly the literals of higher levels, keeps the out of order
  literals of chronological backtracking, and gives a state in which propagation can go on.\<close>

theorem backtrack_keeps_levels:
  assumes "level_inv G s" "is_conflict s = None" "lv < is_level s"
  shows "\<exists>s'. backtrack lv s = Some s' \<and> prop_inv G s' \<and> is_level s' = lv \<and> is_trail s' = filter (\<lambda>l. level_of s l \<le> lv) (is_trail s) \<and>
    is_clauses s' = is_clauses s \<and> is_watches s' = is_watches s \<and> is_propagated s' = snd (is_control s ! (lv + 1))"
proof -
  obtain s' where "backtrack lv s = Some s'" "backtracked lv s s'" "prop_inv G s'" by (rule backtrack_ok [OF assms])
  then show ?thesis by (auto simp: backtracked_def)
qed

theorem backtrack_keeps_levels_witness:
  "\<exists>s'. backtrack 0 ex_propagated = Some s' \<and> prop_inv (set ex_chain) s' \<and> is_level s' = 0 \<and>
    is_trail s' = filter (\<lambda>l. level_of ex_propagated l \<le> 0) (is_trail ex_propagated) \<and> is_clauses s' = is_clauses ex_propagated \<and>
    is_watches s' = is_watches ex_propagated \<and> is_propagated s' = snd (is_control ex_propagated ! (0 + 1))"
  by (rule backtrack_keeps_levels [OF ex_propagated_ok(2,4)]) (simp add: ex_propagated_ok(5))

text \<open>C25. \<open>Internal::failing\<close>: when every decision on the trail is an assumption and some assumption is falsified, the walk through the implication graph ends, none of its assertions fails, and the assumptions that it
  marks contradict the formula; \<open>conflictsize\<close> grows by their number. Levels without a decision, which \<open>decide\<close> opens for assumptions that are satisfied already, may be among the levels of the state: the witness
  is such a state, built by \<open>decide\<close> and \<open>propagate\<close>.\<close>

theorem failing_gives_core:
  assumes "search_inv G s" "set (decisions s) \<subseteq> as_assumed a" "as_assumed a = set (as_assumptions a)" "as_failed a = {}" "\<not> as_unsat_constraint a"
    "0 \<notin> as_assumed a" "l \<in> set (as_assumptions a)" "is_vals s l < 0"
  shows "\<exists>a'. failing s a = Some a' \<and> as_failed a' \<subseteq> set (as_assumptions a) \<and> (\<forall>\<sigma>. sat_all \<sigma> G \<longrightarrow> (\<exists>l \<in> as_failed a'. \<not> lit_true \<sigma> l)) \<and>
    as_conflictsize a' = as_conflictsize a + card (as_failed a')"
proof -
  obtain a' where "failing s a = Some a'" "refuted_by G a a'" by (rule failing_ok [OF assms])
  then show ?thesis using assms(3) by (simp add: refuted_by_def)
qed

theorem failing_gives_core_witness:
  "\<exists>a'. failing ex_pseudo ex_failing = Some a' \<and> as_failed a' \<subseteq> set (as_assumptions ex_failing) \<and>
    (\<forall>\<sigma>. sat_all \<sigma> (set ex_chain) \<longrightarrow> (\<exists>l \<in> as_failed a'. \<not> lit_true \<sigma> l)) \<and> as_conflictsize a' = as_conflictsize ex_failing + card (as_failed a')"
  by (rule failing_gives_core [OF ex_failing_ok])

text \<open>C26. \<open>find_up_implicants\<close> decides its assumptions one after the other without propagating in between, but a decision is only allowed where everything is propagated: with two unassigned assumptions of different
  variables an assertion fails, on every formula. (EvalMaxSAT only asks for one assumption.)\<close>

theorem second_assumption_asserts:
  assumes "at_root G s" "\<not> is_unsat s" "has_var a (is_ivars s)" "is_vals s a = 0" "is_vals s b = 0" "b \<noteq> a" "b \<noteq> - a"
  shows "find_up_implicants False (a # b # A) [] ls s = None"
  by (rule two_assumptions [OF assms])

theorem second_assumption_asserts_witness: "find_up_implicants False [1, 2] [] [] ex_root = None"
  by (rule second_assumption_asserts [OF ex_root_ok(1,2)]) (use ex_root_ok(3,4) in auto)

text \<open>C27. Conflict analysis and minimization: from every conflict with a literal of the current level the walk back over the trail ends at the first unique implication point \<open>u\<close>, minimization returns with all
  its flags cleared, and the learned clause follows from the formula; all its literals are falsified, and the negation of \<open>u\<close> is the only one of the conflict level, so that it is forced when this level is taken back.\<close>

theorem learned_clause_sound:
  assumes "search_inv G s" "is_level s \<noteq> 0" "is_conflict s = Some c" "\<exists>l \<in> set (lits_at s c). level_of s l = is_level s"
  shows "\<exists>u an kept. derive_clause s = Some (u, an) \<and> minimize_clause s D an minimizing_new = Some (an\<lparr>an_clause := kept\<rparr>, minimizing_new) \<and>
    set kept \<subseteq> set (an_clause an) \<and> - u \<in> set kept \<and> level_of s u = is_level s \<and> (\<forall>\<sigma>. sat_all \<sigma> G \<longrightarrow> sat_clause \<sigma> kept) \<and>
    (\<forall>l \<in> set kept. - l \<in> set (is_trail s) \<and> 0 < level_of s l \<and> (l \<noteq> - u \<longrightarrow> level_of s l < is_level s))"
proof -
  obtain u an kept where k: "derive_clause s = Some (u, an)" "minimize_clause s D an minimizing_new = Some (an\<lparr>an_clause := kept\<rparr>, minimizing_new)"
      "set kept \<subseteq> set (an_clause an)" "- u \<in> set kept" "level_of s u = is_level s" "entails G kept"
      "\<And>l. l \<in> set (an_clause an) \<Longrightarrow> - l \<in> set (is_trail s) \<and> 0 < level_of s l \<and> flags_status l (is_ivars s) = ACTIVE \<and> (l \<noteq> - u \<longrightarrow> level_of s l < is_level s)"
    by (rule learned_clause_ok [OF assms, of D]) (rule that)
  then have "\<forall>l \<in> set kept. - l \<in> set (is_trail s) \<and> 0 < level_of s l \<and> (l \<noteq> - u \<longrightarrow> level_of s l < is_level s)" by blast
  then show ?thesis using k(1-6) by (auto simp: entails_def)
qed

theorem learned_clause_sound_witness:
  "\<exists>u an kept. derive_clause ex_conflict = Some (u, an) \<and> minimize_clause ex_conflict 1000 an minimizing_new = Some (an\<lparr>an_clause := kept\<rparr>, minimizing_new) \<and>
    set kept \<subseteq> set (an_clause an) \<and> - u \<in> set kept \<and> level_of ex_conflict u = is_level ex_conflict \<and> (\<forall>\<sigma>. sat_all \<sigma> (set ex_clash) \<longrightarrow> sat_clause \<sigma> kept) \<and>
    (\<forall>l \<in> set kept. - l \<in> set (is_trail ex_conflict) \<and> 0 < level_of ex_conflict l \<and> (l \<noteq> - u \<longrightarrow> level_of ex_conflict l < is_level ex_conflict))"
  by (rule learned_clause_sound [OF _ _ ex_conflict_ok(3,6)]) (use ex_conflict_ok(1,2) in \<open>simp_all add: prop_inv_def\<close>)

text \<open>C28. The whole way from a conflict back to propagation: analysis, minimization, learning the clause with its two watches, the choice of the level with or without chronological backtracking and reuse of the trail, backtracking,
  assigning the negation of the unique implication point, and eager subsumption all return, and the state satisfies the invariant of propagation again. Its level is lower, its trail is what was assigned up to that level and then the flipped literal, and the learned clause is
  among the clauses unless it is a unit, which then holds at the root. The same holds without minimization. The ranks that order the literals for the watches fit their 64 bits because variables and levels are 32 bit integers. Levels without a decision, which \<open>decide\<close> opens for satisfied assumptions, are allowed.\<close>

theorem conflict_jump_restores:
  assumes "prop_inv G s" "i_max_var (is_ivars s) < 2 ^ 31" "is_level s < 2 ^ 31" "is_level s \<noteq> 0" "is_conflict s = Some c" "\<exists>l \<in> set (lits_at s c). level_of s l = is_level s"
  shows "\<exists>u an kept s' t. derive_clause s = Some (u, an) \<and> minimize_clause s D an minimizing_new = Some (an\<lparr>an_clause := kept\<rparr>, minimizing_new) \<and>
    learn_and_jump jo u kept s = Some s' \<and> prop_inv G s' \<and> is_conflict s' = None \<and> is_level s' < is_level s \<and>
    is_trail s' = filter (\<lambda>l. level_of s l \<le> is_level s') (is_trail s) @ [- u] \<and>
    (length kept = 1 \<and> level_of s' u = 0 \<or>
      (\<exists>c < length (is_clauses s'). mset (lits_at s' c) = mset kept \<and> ic_redundant (is_clauses s' ! c) \<and> \<not> ic_garbage (is_clauses s' ! c))) \<and>
    learn_and_jump jo u (an_clause an) s = Some t \<and> prop_inv G t"
proof -
  have inv: "search_inv G s" using assms(1) by (simp add: prop_inv_def)
  obtain u an kept where k: "derive_clause s = Some (u, an)" "minimize_clause s D an minimizing_new = Some (an\<lparr>an_clause := kept\<rparr>, minimizing_new)"
      "learned G s u (an_clause an)" "learned G s u kept"
    by (rule derived_is_learned [OF inv assms(4-6), of D]) (rule that)
  obtain s' where s': "learn_and_jump jo u kept s = Some s'" "jumped G s u kept s'" using learn_and_jump_ok [OF assms(1-3) k(4)] by blast
  obtain t where "learn_and_jump jo u (an_clause an) s = Some t" "jumped G s u (an_clause an) t" using learn_and_jump_ok [OF assms(1-3) k(3)] by blast
  then show ?thesis using k(1,2) s' unfolding jumped_def by blast
qed

theorem conflict_jump_restores_witness:
  "\<exists>u an kept s' t. derive_clause ex_conflict = Some (u, an) \<and> minimize_clause ex_conflict 1000 an minimizing_new = Some (an\<lparr>an_clause := kept\<rparr>, minimizing_new) \<and>
    learn_and_jump ex_jump u kept ex_conflict = Some s' \<and> prop_inv (set ex_clash) s' \<and> is_conflict s' = None \<and> is_level s' < is_level ex_conflict \<and>
    is_trail s' = filter (\<lambda>l. level_of ex_conflict l \<le> is_level s') (is_trail ex_conflict) @ [- u] \<and>
    (length kept = 1 \<and> level_of s' u = 0 \<or>
      (\<exists>c < length (is_clauses s'). mset (lits_at s' c) = mset kept \<and> ic_redundant (is_clauses s' ! c) \<and> \<not> ic_garbage (is_clauses s' ! c))) \<and>
    learn_and_jump ex_jump u (an_clause an) ex_conflict = Some t \<and> prop_inv (set ex_clash) t"
  by (rule conflict_jump_restores [OF ex_conflict_ok(1) _ _ _ ex_conflict_ok(3,6)]) (simp_all add: ex_conflict_ok(2,5))



text \<open>C30. \<open>Solver::val\<close> and \<open>Solver::getSolution\<close> after a satisfiable answer: the extension of the model succeeds, and the assignment the user sees
  satisfies the clauses of the search together with every clause that preprocessing moved to the extension stack.\<close>

theorem api_shows_model:
  assumes "api_ok a" "a_state a = st_SATISFIED" "\<not> extended (a_ext a)" "extension (a_ext a) = flat es"
    "\<forall>e \<in> set es. stack_entry_ok (max_var (a_ext a)) e" "stack_ok F es" "sat_all (search_model (ivalue S (a_ext a)) (a_ext a)) F"
  shows "\<exists>a'. api_getSolution S a = Done (vals (a_ext a'), a') \<and> sat_all (ext_model (a_ext a')) (F \<union> clauses_of es) \<and>
    (\<forall>l. valid_lit l \<longrightarrow> (\<exists>v. api_val S l a = Done (v, a') \<and> (0 < v \<longleftrightarrow> lit_true (ext_model (a_ext a')) l)))"
proof -
  obtain a' where "api_getSolution S a = Done (vals (a_ext a'), a')" "sat_all (ext_model (a_ext a')) (F \<union> clauses_of es)"
      "\<And>l. valid_lit l \<Longrightarrow> \<exists>v. api_val S l a = Done (v, a') \<and> (0 < v \<longleftrightarrow> lit_true (ext_model (a_ext a')) l)"
    by (rule api_model_sound [OF assms]) (rule that)
  then show ?thesis by blast
qed

theorem api_shows_model_witness:
  "\<exists>a'. api_getSolution ex_search ex_api = Done (vals (a_ext a'), a') \<and> sat_all (ext_model (a_ext a')) ({[2]} \<union> clauses_of ex_stack) \<and>
    (\<forall>l. valid_lit l \<longrightarrow> (\<exists>v. api_val ex_search l ex_api = Done (v, a') \<and> (0 < v \<longleftrightarrow> lit_true (ext_model (a_ext a')) l)))"
  by (rule api_shows_model [OF ex_api_ok(1,2)]) (use ex_stack_entries ex_stack_ok ex_search_model in \<open>simp_all add: ex_api_ok(3)\<close>)

text \<open>C31. \<open>External::restore_clauses\<close>, which runs before a new call of the search when new clauses have tainted literals. It succeeds, forgets the taint, keeps on the
  extension stack a part of the old entries and passes the other clauses back to the search; with the clauses of the search, the new ones and the
  restored ones satisfied, reconstruction over the kept entries yields a model of the whole formula.\<close>

theorem restore_keeps_formula:
  assumes "ready_ext x" "extension x = flat es" "\<forall>e \<in> set es. stack_entry_ok n e" "n < 2 ^ 31" "stack_ok F es" "taint_safe G es x"
    "witness_marked es x" "fixed_sound f (F \<union> G) x" "tainted x \<noteq> []"
  shows "\<exists>kept R y. restore_clauses f x = Some y \<and> extension y = flat kept \<and> set kept \<subseteq> set es \<and> set R \<subseteq> clauses_of es \<and> tainted y = [] \<and>
    x_calls y = x_calls x @ concat (map (\<lambda>c. map (\<lambda>l. Add_original (ilit_of l y)) c @ [Add_original 0]) R) \<and>
    stack_ok (F \<union> G \<union> set R) kept \<and>
    (\<forall>\<sigma>. sat_all \<sigma> (F \<union> G \<union> set R) \<longrightarrow> sat_all (foldr reconstruct kept \<sigma>) (F \<union> G \<union> clauses_of es))"
proof -
  obtain kept R y where "restore_clauses f x = Some y" "extension y = flat kept" "set kept \<subseteq> set es" "set R \<subseteq> clauses_of es"
      "tainted y = []" "x_calls y = x_calls x @ concat (map (\<lambda>c. map (\<lambda>l. Add_original (ilit_of l y)) c @ [Add_original 0]) R)"
      "stack_ok (F \<union> G \<union> set R) kept"
      "\<And>\<sigma>. sat_all \<sigma> (F \<union> G \<union> set R) \<Longrightarrow> sat_all (foldr reconstruct kept \<sigma>) (F \<union> G \<union> clauses_of es)"
    by (rule restore_clauses_ok [OF assms]) (rule that)
  then show ?thesis by blast
qed

theorem restore_keeps_formula_witness:
  "\<exists>kept R y. restore_clauses (\<lambda>cs i. 0) ex_ext = Some y \<and> extension y = flat kept \<and> set kept \<subseteq> set ex_stack \<and> set R \<subseteq> clauses_of ex_stack \<and>
    tainted y = [] \<and>
    x_calls y = x_calls ex_ext @ concat (map (\<lambda>c. map (\<lambda>l. Add_original (ilit_of l y)) c @ [Add_original 0]) R) \<and>
    stack_ok ({[2]} \<union> {[- 1, 2]} \<union> set R) kept \<and>
    (\<forall>\<sigma>. sat_all \<sigma> ({[2]} \<union> {[- 1, 2]} \<union> set R) \<longrightarrow>
      sat_all (foldr reconstruct kept \<sigma>) ({[2]} \<union> {[- 1, 2]} \<union> clauses_of ex_stack))"
  by (rule restore_keeps_formula [OF ex_ext_ok(3) ex_ext_fields(5) ex_stack_entries _ ex_stack_ok ex_restore_ok]) simp_all

text \<open>C32. The layered interface refines the plain one that the rest of the development is verified against: any sequence of \<open>add\<close> and \<open>assume\<close> calls with valid literals
  is accepted, both interfaces are in the same state with the same assumptions afterwards, and the literals that reached the search are those of the
  formula under the numbering of the external layer.\<close>

theorem load_refines_spec:
  assumes "\<not> o_check os" "\<not> o_checkfrozen os" "\<forall>(l, asm) \<in> set ls. l \<noteq> int_min \<and> (asm \<longrightarrow> l \<noteq> 0)"
  shows "\<exists>a'. load_run ls (api_new os) = Done a' \<and> a_state a' = state_bits_of (c_state (load_spec ls cad_new)) \<and>
    assumptions (a_ext a') = c_assumptions (load_spec ls cad_new) \<and>
    added_to_search (a_ext a') = map (translate (a_ext a')) (added (load_spec ls cad_new))"
  using load_refines [OF implements_new [OF assms(1,2)] assms(3)] unfolding implements_def by blast

theorem load_refines_spec_witness:
  "\<exists>a'. load_run [(1, False), (- 2, False), (0, False), (2, True)] (api_new ex_xopts) = Done a' \<and>
    a_state a' = state_bits_of (c_state (load_spec [(1, False), (- 2, False), (0, False), (2, True)] cad_new)) \<and>
    assumptions (a_ext a') = c_assumptions (load_spec [(1, False), (- 2, False), (0, False), (2, True)] cad_new) \<and>
    added_to_search (a_ext a') = map (translate (a_ext a')) (added (load_spec [(1, False), (- 2, False), (0, False), (2, True)] cad_new))"
  by (rule load_refines_spec [OF ex_xopts_ok]) (simp add: int_min_def)

text \<open>C33. The status flags of the internal variables, with \<open>Internal::compact\<close> among the steps. In every reachable table the statistics count exactly the variables of each status. Every step adds fresh variables or
  moves one variable along an edge of the life cycle, and then a fixed variable stays fixed, or it compacts the table: the active variables and the first fixed variable get the numbers from 1 on in their order and keep their status, all other variables disappear, and the
  total counts stay. Whenever there is a variable that is not active, compacting succeeds with none of its assertions about these tables failing.\<close>

theorem variable_life:
  assumes "flag_reach v" "flag_step v v'"
  shows "stats_ok v \<and> stats_ok v' \<and>
    (((\<exists>n. v' = init_vars n v) \<or> flag_moves v v') \<and>
       {lit. has_var lit v \<and> flags_status lit v = FIXED} \<subseteq> {lit. has_var lit v' \<and> flags_status lit v' = FIXED} \<or>
     internal_compact v = Some v' \<and> compacted v v') \<and>
    (st_active v < int (i_max_var v) \<longrightarrow> (\<exists>w. internal_compact v = Some w \<and> stats_ok w \<and> compacted v w))"
proof -
  have s: "stats_ok v" "stats_ok v'" using flag_reach_stats flag_reach.step [OF assms] assms(1) by blast+
  have "\<exists>w. internal_compact v = Some w \<and> stats_ok w \<and> compacted v w" if "st_active v < int (i_max_var v)"
    using internal_compact_ok [OF s(1) that] by blast
  then show ?thesis using s flag_step_cases [OF assms(2) s(1)] fixed_stays [OF _ s(1)] by blast
qed

theorem variable_life_witness:
  "i_status ex_table = [UNUSED, ELIMINATED, FIXED, ACTIVE, FIXED] \<and> i_status ex_compact = [UNUSED, FIXED, ACTIVE] \<and>
    stats_ok ex_table \<and> stats_ok ex_compact \<and>
    (((\<exists>n. ex_compact = init_vars n ex_table) \<or> flag_moves ex_table ex_compact) \<and>
       {lit. has_var lit ex_table \<and> flags_status lit ex_table = FIXED} \<subseteq> {lit. has_var lit ex_compact \<and> flags_status lit ex_compact = FIXED} \<or>
     internal_compact ex_table = Some ex_compact \<and> compacted ex_table ex_compact) \<and>
    (\<exists>w. internal_compact ex_table = Some w \<and> stats_ok w \<and> compacted ex_table w)"
  by (intro conjI ex_table_ok(3,4)) (use variable_life [OF ex_table_ok(1,2)] ex_table_ok(5) in blast)+

text \<open>C34. Reference counts of frozen variables at their 32-bit width: \<open>freeze\<close> counts up to the largest value and stays there, and then \<open>melt\<close> undoes it, except on a
  counter at the largest value, which is never lowered; the counters of other variables do not change.\<close>

theorem freeze_counts:
  assumes "numbered x" "plain_opts x" "l \<noteq> 0" "l \<noteq> int_min" "length (frozentab x) \<le> max_var x + 1"
  shows "\<exists>y z. ext_freeze l x = Some y \<and> frozen_count l y = min (frozen_count l x + 1) (2 ^ 32 - 1) \<and> ext_frozen l y = Some True \<and>
    ext_melt l y = Some z \<and> frozen_count l z = (if frozen_count l y = 2 ^ 32 - 1 then 2 ^ 32 - 1 else frozen_count l x) \<and>
    (\<forall>k. nat \<bar>k\<bar> \<noteq> nat \<bar>l\<bar> \<longrightarrow> frozen_count k y = frozen_count k x \<and> frozen_count k z = frozen_count k x)"
proof -
  obtain y where y: "ext_freeze l x = Some y" "numbered y" "length (frozentab y) \<le> max_var y + 1" "x_opts y = x_opts x"
      "frozen_count l y = min (frozen_count l x + 1) (2 ^ 32 - 1)" "\<And>k. nat \<bar>k\<bar> \<noteq> nat \<bar>l\<bar> \<Longrightarrow> frozen_count k y = frozen_count k x"
    by (rule ext_freeze_ok [OF assms]) (rule that)
  have p: "plain_opts y" using assms(2) y(4) by (simp add: plain_opts_def)
  have f: "ext_frozen l y = Some True" using frozen_iff [OF assms(3,4) y(3)] y(5) by simp
  obtain z where z: "ext_melt l y = Some z" "frozen_count l z = (if frozen_count l y = 2 ^ 32 - 1 then frozen_count l y else frozen_count l y - 1)"
      "\<And>k. nat \<bar>k\<bar> \<noteq> nat \<bar>l\<bar> \<Longrightarrow> frozen_count k z = frozen_count k y"
    by (rule ext_melt_ok [OF y(2) p assms(3,4) y(3) f]) (rule that)
  have "frozen_count l z = (if frozen_count l y = 2 ^ 32 - 1 then 2 ^ 32 - 1 else frozen_count l x)" using z(2) y(5) by auto
  then show ?thesis using y(1,5,6) z(1,3) f by auto
qed

theorem freeze_counts_witness:
  "\<exists>y z. ext_freeze (- 1) ex_ext = Some y \<and> frozen_count (- 1) y = min (frozen_count (- 1) ex_ext + 1) (2 ^ 32 - 1) \<and>
    ext_frozen (- 1) y = Some True \<and> ext_melt (- 1) y = Some z \<and>
    frozen_count (- 1) z = (if frozen_count (- 1) y = 2 ^ 32 - 1 then 2 ^ 32 - 1 else frozen_count (- 1) ex_ext) \<and>
    (\<forall>k. nat \<bar>k\<bar> \<noteq> nat \<bar>- 1 :: int\<bar> \<longrightarrow> frozen_count k y = frozen_count k ex_ext \<and> frozen_count k z = frozen_count k ex_ext)"
  by (rule freeze_counts [OF ex_ext_ok(1,2)]) (simp_all add: int_min_def)

text \<open>C35. The documentation of \<open>Solver::assume\<close> requires a ready state, which excludes the middle of a clause. The code only requires a valid state: in the middle
  of a clause the call is accepted and the state becomes \<open>UNKNOWN\<close>, which \<open>solve\<close> accepts, with the clause still open.\<close>

theorem assume_while_adding:
  assumes "api_ok a" "a_state a = st_ADDING" "valid_lit l"
  shows "\<not> is_ready a \<and> (\<exists>a'. api_assume l a = Done a' \<and> a_state a' = st_UNKNOWN \<and> is_ready a' \<and> api_ok a')"
proof -
  have f: "fine (api_run ex_search (Op_assume l) a)" by (rule api_run_fine [OF assms(1) ex_search_ok]) simp
  obtain a' where a': "api_assume l a = Done a'" "api_ok a'"
    using f api_ok_valid [OF assms(1)] assms(3) by (cases "api_assume l a") (auto simp: api_assume_def on_ext_def Let_def split: option.splits if_splits)
  then have "a_state a' = st_UNKNOWN"
    using assms(2,3) api_ok_valid [OF assms(1)]
    by (auto simp: api_assume_def on_ext_def Let_def to_unknown_def st_defs split: option.splits if_splits)
  then show ?thesis using a' assms(2) by (auto simp: is_ready_def is_valid_def st_defs st_VALID_def st_READY_def)
qed

theorem assume_while_adding_witness:
  "\<not> is_ready (ex_api\<lparr>a_state := st_ADDING\<rparr>) \<and>
    (\<exists>a'. api_assume 1 (ex_api\<lparr>a_state := st_ADDING\<rparr>) = Done a' \<and> a_state a' = st_UNKNOWN \<and> is_ready a' \<and> api_ok a')"
  by (rule assume_while_adding) (use ex_api_ok in \<open>simp_all add: api_ok_def valid_lit_def int_min_def\<close>)

text \<open>C36. The two SAT wrappers are interchangeable: over the same clauses and the same assumptions the CaDiCaL wrapper returns, its answer says whether there is a model, and whenever the
  Glucose wrapper returns, it gives the same answer.\<close>

theorem sat_wrappers_agree:
  assumes "engine_ok E" "engine_live E" "sc_ok s" "glu_sound G" "glu_complete G" "mg_ok g" "mg_clauses g = sc_clauses s" "mg_nVars g = nVar s"
    "\<forall>a \<in> set A. lit_upto (nVar s) a"
  shows "\<exists>b s'. sc_solve E A s = Some (b, s') \<and> b = (\<exists>\<sigma>. models_with (sc_clauses s) A \<sigma>) \<and> (\<forall>b' g'. mg_solve G A g = Some (b', g') \<longrightarrow> b' = b)"
proof -
  obtain b s' where s': "sc_solve E A s = Some (b, s')" using sc_solve_returns [OF assms(1-3), of A] by blast
  have b: "b = (\<exists>\<sigma>. models_with (sc_clauses s) A \<sigma>)" using cadical.answer_iff [OF _ assms(9) s'] assms(1-3) by blast
  have "b' = b" if "mg_solve G A g = Some (b', g')" for b' g'
    using glucose.answer_iff [of G g A b' g'] that assms(4-9) b by simp
  then show ?thesis using s' b by blast
qed

theorem sat_wrappers_agree_witness:
  "\<exists>b s'. sc_solve bf_engine [1] ex_sc = Some (b, s') \<and> b = (\<exists>\<sigma>. models_with (sc_clauses ex_sc) [1] \<sigma>) \<and>
    (\<forall>b' g'. mg_solve bf_glucose [1] ex_mg = Some (b', g') \<longrightarrow> b' = b)"
  by (rule sat_wrappers_agree [OF bf_engine_ok bf_engine_live ex_sc_ok(1) bf_glucose_ok ex_mg_ok(1)])
    (simp_all add: ex_sc_ok ex_mg_ok lit_upto_def)

text \<open>C37. The weights are kept per variable and read per literal with an exclusive or and a subtraction of the sign of the literal. On 64-bit weights
  and 32-bit literals this is exactly conditional negation, for reading, writing and adding, unless a sum leaves the 64-bit range; indices out of range give no value on either side.\<close>

theorem weight_vector_exact:
  assumes "sint lit \<noteq> - 2147483648" "ll_range (sint w)" "\<forall>x \<in> set ws. ll_range (sint x)"
    "\<forall>x \<in> set ws. ll_range (sint x + sint w) \<and> ll_range (sint x - sint w)"
  shows "map_option sint (wvw_get ws lit) = wv_get (map sint ws) (sint lit) \<and>
    map_option (map sint) (wvw_set lit w ws) = wv_set (sint lit) (sint w) (map sint ws) \<and>
    map_option (map sint) (wvw_add lit w ws) = wv_add (sint lit) (sint w) (map sint ws)"
  using wvw_get_refines [OF assms(3)] wvw_set_refines [OF assms(1,2)] wvw_add_refines [OF assms(1,2,4)] by blast

theorem weight_vector_exact_witness:
  "map_option sint (wvw_get [0, 5] (- 1)) = wv_get (map sint [0, 5 :: 64 word]) (sint (- 1 :: 32 word)) \<and>
    map_option (map sint) (wvw_set (- 1) 7 [0, 5]) = wv_set (sint (- 1 :: 32 word)) (sint (7 :: 64 word)) (map sint [0, 5 :: 64 word]) \<and>
    map_option (map sint) (wvw_add (- 1) 7 [0, 5]) = wv_add (sint (- 1 :: 32 word)) (sint (7 :: 64 word)) (map sint [0, 5 :: 64 word])"
  by (rule weight_vector_exact) (simp_all add: ll_range_def)

text \<open>C38. \<open>StreamBuffer\<close>: whatever sizes the blocks have in which \<open>gzread\<close> delivers the file, the buffer shows its bytes one after the other and then the
  end of the file forever.\<close>

theorem stream_reads_file:
  assumes "gz_reads gzread contents"
  shows "sb_star ((sb_next gzread ^^ k) (sb_new gzread f)) = (if k < length (contents f) then of_char (contents f ! k) else - 1)"
proof (cases "k < length (contents f)")
  case True
  then show ?thesis using sb_reads_file [OF assms, of k f] by (simp add: Cons_nth_drop_Suc [symmetric])
next
  case False
  then show ?thesis using sb_reads_file [OF assms, of k f] by simp
qed

theorem stream_reads_file_witness:
  "sb_star ((sb_next mem_read ^^ 2) (sb_new mem_read ''h 1'')) = (if 2 < length (id ''h 1'') then of_char (id ''h 1'' ! 2) else - 1)"
  by (rule stream_reads_file [OF mem_reads])

text \<open>C39. \<open>parseInt\<close> on the text of a number: it returns the number and the rest of the text exactly when the absolute value fits into an \<open>int\<close>;
  otherwise its loop overflows.\<close>

theorem parseInt_exact:
  assumes "ends_number r"
  shows "parseInt (CHR '' '' # show_int l @ r) = (if \<bar>l\<bar> \<le> 2147483647 then Inr (l, r) else Inl Overflow)"
proof (cases "\<bar>l\<bar> \<le> 2147483647")
  case True
  then show ?thesis using parseInt_show [OF True assms] by simp
next
  case False
  then show ?thesis using parse_signed_overflow [of 2147483647 l r] by (simp add: parseInt_def parse_signed_space)
qed

theorem parseInt_exact_witness:
  "parseInt (CHR '' '' # show_int (- 12) @ '' 0'') = (if \<bar>- 12 :: int\<bar> \<le> 2147483647 then Inr (- 12, '' 0'') else Inl Overflow)"
  by (rule parseInt_exact) simp

text \<open>C40. A soft clause of negative weight and at least two literals. The new soft variable implies every literal of the clause, so the absolute
  weight is charged to the assignments that make one of the literals false. (A unit clause of negative weight charges the assignments that satisfy it.)\<close>

theorem negative_soft_clause:
  assumes "base_inv s" "weights_inv W s" "w < 0" "budget s - w < 9223372036854775808" "2 \<le> length c" "\<forall>l \<in> set c. lit_upto (nv s) l" "addable s"
  shows "\<exists>r s'. addClause c (Some w) s = Some (r, s') \<and> base_inv s' \<and> weights_inv W s' \<and>
    (\<forall>\<sigma>. sat_all \<sigma> (cls s') \<longrightarrow> sat_all \<sigma> (cls s) \<and> obj \<sigma> s + (if \<forall>l \<in> set c. lit_true \<sigma> l then 0 else - w) \<le> obj \<sigma> s') \<and>
    (\<forall>\<sigma>. exact \<sigma> s \<longrightarrow>
      (\<exists>\<sigma>'. agree_upto (nv s) \<sigma> \<sigma>' \<and> exact \<sigma>' s' \<and> obj \<sigma>' s' \<le> obj \<sigma> s + (if \<forall>l \<in> set c. lit_true \<sigma> l then 0 else - w)))"
proof -
  obtain s' where s': "addClause_soft c w s = Some (int (nv s) + 1, s')" "base_inv s'" "weights_inv W s'"
      "sim (\<lambda>\<sigma>. True) (\<lambda>\<sigma>. - (if \<forall>l \<in> set c. lit_true \<sigma> l then 0 else - w)) s s'"
    by (rule addClause_soft_negative [OF assms]) (rule that)
  have "addClause c (Some w) s = Some (int (nv s) + 1, s')" using s'(1) by (simp add: addClause_def)
  moreover note S = s'(4) [unfolded sim_def]
  have "sat_all \<sigma> (cls s) \<and> obj \<sigma> s + (if \<forall>l \<in> set c. lit_true \<sigma> l then 0 else - w) \<le> obj \<sigma> s'" if "sat_all \<sigma> (cls s')" for \<sigma>
  proof
    show "sat_all \<sigma> (cls s)" using S that by (blast intro: sat_all_mono)
    have "obj \<sigma> s \<le> obj \<sigma> s' + - (if \<forall>l \<in> set c. lit_true \<sigma> l then 0 else - w)" using S that by blast
    then show "obj \<sigma> s + (if \<forall>l \<in> set c. lit_true \<sigma> l then 0 else - w) \<le> obj \<sigma> s'" by linarith
  qed
  moreover have "\<exists>\<sigma>'. agree_upto (nv s) \<sigma> \<sigma>' \<and> exact \<sigma>' s' \<and> obj \<sigma>' s' \<le> obj \<sigma> s + (if \<forall>l \<in> set c. lit_true \<sigma> l then 0 else - w)" if "exact \<sigma> s" for \<sigma>
    using S that by (metis add_le_imp_le_diff diff_minus_eq_add)
  ultimately show ?thesis using s'(2,3) by blast
qed

theorem negative_soft_clause_witness:
  "\<exists>r s'. addClause [1, 2] (Some (- 4)) ex_soft2 = Some (r, s') \<and> base_inv s' \<and> weights_inv [] s' \<and>
    (\<forall>\<sigma>. sat_all \<sigma> (cls s') \<longrightarrow>
      sat_all \<sigma> (cls ex_soft2) \<and> obj \<sigma> ex_soft2 + (if \<forall>l \<in> set [1, 2]. lit_true \<sigma> l then 0 else - (- 4)) \<le> obj \<sigma> s') \<and>
    (\<forall>\<sigma>. exact \<sigma> ex_soft2 \<longrightarrow>
      (\<exists>\<sigma>'. agree_upto (nv ex_soft2) \<sigma> \<sigma>' \<and> exact \<sigma>' s' \<and> obj \<sigma>' s' \<le> obj \<sigma> ex_soft2 + (if \<forall>l \<in> set [1, 2]. lit_true \<sigma> l then 0 else - (- 4))))"
  by (rule negative_soft_clause [OF ex_soft2_ok(1,2)]) (simp_all add: ex_soft2_ok lit_upto_def ex_addable)

section \<open>Further facts\<close>

text \<open>Taking up a core that waits in \<open>cardToAdd\<close>: its totalizer is built and its first output becomes a soft literal; the optima stay the same.\<close>

theorem card_becomes_soft:
  assumes "base_inv (s\<lparr>cardToAdd := c # ds\<rparr>)" "weights_inv W (s\<lparr>cardToAdd := c # ds\<rparr>)"
  shows "\<exists>v s'. card_to_soft c s = Some (v, s') \<and> base_inv (s'\<lparr>cardToAdd := ds\<rparr>) \<and> weights_inv W (s'\<lparr>cardToAdd := ds\<rparr>) \<and>
    same_optima (s\<lparr>cardToAdd := c # ds\<rparr>) (s'\<lparr>cardToAdd := ds\<rparr>) \<and> cost s' = cost s"
proof -
  obtain v s' where "card_to_soft c s = Some (v, s')" "card_added W c ds s v s'" by (rule card_to_soft_ok [OF assms])
  then show ?thesis using sim0_same_optima by (auto simp: card_added_def)
qed

text \<open>\<open>internalize\<close> and \<open>externalize\<close>: every valid user literal gets a nonzero internal literal of an active or fixed variable; unless that variable is fixed,
  \<open>externalize\<close> turns it back into the user literal. The numbers of earlier literals stay.\<close>

theorem numbering_roundtrip:
  assumes "numbered x" "\<not> extended x" "\<not> o_checkfrozen (x_opts x)" "l \<noteq> 0" "l \<noteq> int_min"
  shows "\<exists>i x'. internalize l x = Some (i, x') \<and> numbered x' \<and> i \<noteq> 0 \<and> flags_status i (x_ivars x') \<in> {ACTIVE, FIXED} \<and>
    (flags_status i (x_ivars x') \<noteq> FIXED \<and> i_max_var (x_ivars x') < 2 ^ 31 \<longrightarrow> externalize i x' = Some l) \<and>
    (\<forall>e. 0 < e \<and> e \<le> max_var x \<and> e2i x ! e \<noteq> 0 \<longrightarrow> e2i x' ! e = e2i x ! e)"
proof -
  obtain i x' where i: "internalize l x = Some (i, x')" "numbered x'" "extends x x'" "i = ilit_of l x'" "i \<noteq> 0"
      "max_var x' = max (max_var x) (nat \<bar>l\<bar>)" "flags_status i (x_ivars x') \<in> {ACTIVE, FIXED}"
    by (rule internalize_ok [OF assms]) (rule that)
  have "flags_status i (x_ivars x') \<noteq> FIXED \<and> i_max_var (x_ivars x') < 2 ^ 31 \<longrightarrow> externalize i x' = Some l"
    using externalize_ilit_of [OF i(2) assms(4)] i(4-6) by simp
  then show ?thesis using i(1-3,5,7) unfolding extends_def by blast
qed

text \<open>\<open>traverse_witnesses_forward\<close> and \<open>traverse_witnesses_backward\<close> decode the flat stack into the same entries: both call the visitor with the clause and
  the witness of each entry, one from the first to the last and one from the last to the first, until it says stop.\<close>

theorem witness_traversal:
  assumes "extension x = flat es" "\<forall>e \<in> set es. stack_entry_ok n e"
  shows "traverse_witnesses_forward False it x s = Some (visit_entries it es s) \<and>
    traverse_witnesses_backward False it x s = Some (visit_entries it (rev es) s)"
  by (simp add: traverse_eq [OF assms])

text \<open>The witness check of CaDiCaL: scanning the flat list of original literals accepts exactly when the assignment shown to the user satisfies every complete original
  clause.\<close>

theorem check_assignment_exact:
  "check_assignment (\<lambda>l. ival l x) x = sat_all (ext_model x) (set (complete_clauses [] (original x)))"
  by (rule check_assignment_iff)

text \<open>The value line of the new output format has one digit per variable, from which the assignment can be read back.\<close>

theorem value_line_roundtrip:
  assumes "sol \<noteq> []"
  shows "read_values (values_new sol) = tl sol"
  by (rule values_new_read [OF assms])

text \<open>\<open>Chrono\<close>: after any sequence of pauses, resumptions and restarts the watch shows the time it was running since the last restart; on a clock that does not run
  backwards this is never negative and at most the time since the watch was made.\<close>

theorem stopwatch_exact:
  assumes "times_sorted t0 es now"
  shows "chrono_nano now (fold watch_step es (chrono_new t0)) = running 0 False t0 es now \<and>
    0 \<le> chrono_nano now (fold watch_step es (chrono_new t0)) \<and> chrono_nano now (fold watch_step es (chrono_new t0)) \<le> now - t0"
  using running_bounds [OF assms, of 0 False] chrono_shows [of now es t0] by simp

text \<open>\<open>EvalMaxSAT::getValue\<close>: the guard compares with \<open>>\<close>, so that the only literals that are not answered are 0, which an assertion excludes, and those of
  the variable equal to the size of the solution, which are read one position past its end. Variables beyond are answered with false.\<close>

theorem getValue_range:
  "(getValue lit s = None) = (lit = 0 \<or> nat \<bar>lit\<bar> = length (solution s))"
  by (auto simp: getValue_def)

end
